(* ===== verification/Prelude.thy ===== *)
theory Prelude
  imports Main "HOL-Library.Word" "HOL-Library.Code_Target_Nat"
begin

text \<open>
  Shared vocabulary of the development: the machine types of \<^verbatim>\<open>src/com/ltype.h\<close>
  and \<^verbatim>\<open>src/com/comm_macro.h\<close>, unsigned 32-bit arithmetic on \<open>nat\<close> with its
  wrap-around written out, the sentinel \<open>BS_UNDEF\<close> and the specification functions
  \<open>first_of\<close>, \<open>next_of\<close>, \<open>last_of\<close> of the bit-set iterators.
\<close>

unbundle bit_operations_syntax

named_theorems set_abs \<open>a concrete set operation computes the set operation on the abstraction\<close>
named_theorems wf_intro \<open>operations keep the invariant of their component\<close>

section \<open>Machine types\<close>

text \<open>\<open>BYTE\<close> of \<^verbatim>\<open>ltype.h\<close>.\<close>

type_synonym byte = "8 word"

text \<open>
  \<open>UINT\<close> values are naturals below \<open>2 ^ 32\<close>; every addition, product or difference that
  the code makes at that type goes through \<open>u32\<close> or \<open>u32_sub\<close>.
\<close>

definition u32 :: "nat \<Rightarrow> nat" where
  "u32 n = n mod 2 ^ 32"

definition u32_sub :: "nat \<Rightarrow> nat \<Rightarrow> nat" where
  "u32_sub a b = (a + (2 ^ 32 - b mod 2 ^ 32)) mod 2 ^ 32"

lemma u32_id [simp]: "n < 4294967296 \<Longrightarrow> u32 n = n"
  by (simp add: u32_def)

lemma u32_less [simp]: "u32 n < 4294967296"
  by (simp add: u32_def)

lemma u32_sub_id: "b \<le> a \<Longrightarrow> a < 4294967296 \<Longrightarrow> u32_sub a b = a - b"
proof -
  assume "b \<le> a" and "a < 4294967296"
  then have "a + (2 ^ 32 - b mod 2 ^ 32) = (a - b) + 2 ^ 32" by simp
  then show ?thesis using \<open>a < 4294967296\<close> by (simp add: u32_sub_def)
qed

section \<open>Positions in a bit set\<close>

text \<open>\<open>typedef UINT BSIdx\<close> and \<open>BS_UNDEF = (BSIdx)-1\<close> of \<^verbatim>\<open>comm_macro.h\<close>.\<close>

definition BS_UNDEF :: nat where
  "BS_UNDEF = 4294967295"

text \<open>The macros \<open>DIVBPB\<close>, \<open>MODBPB\<close> and \<open>MULBPB\<close> of \<^verbatim>\<open>byteop.h\<close> at eight bits per byte.\<close>

definition divbpb :: "nat \<Rightarrow> nat" where
  "divbpb a = drop_bit 3 a"

definition modbpb :: "nat \<Rightarrow> nat" where
  "modbpb a = a AND 7"

definition mulbpb :: "nat \<Rightarrow> nat" where
  "mulbpb a = u32 (push_bit 3 a)"

lemma divbpb_div: "divbpb a = a div 8"
  by (simp add: divbpb_def drop_bit_eq_div)

lemma modbpb_mod: "modbpb a = a mod 8"
  using take_bit_eq_mask [of 3 a]
  by (simp add: modbpb_def take_bit_eq_mod mask_eq_exp_minus_1)

lemma mulbpb_id: "a < 536870912 \<Longrightarrow> mulbpb a = 8 * a"
  by (simp add: mulbpb_def push_bit_eq_mult)

lemmas bpb_simps = divbpb_div modbpb_mod mulbpb_id

section \<open>What the iterators of a bit set promise\<close>

definition first_of :: "nat set \<Rightarrow> nat" where
  "first_of S = (if S = {} then BS_UNDEF else (LEAST x. x \<in> S))"

definition last_of :: "nat set \<Rightarrow> nat" where
  "last_of S = (if S = {} then BS_UNDEF else (GREATEST x. x \<in> S))"

definition next_of :: "nat set \<Rightarrow> nat \<Rightarrow> nat" where
  "next_of S e = first_of {x \<in> S. e < x}"

lemma first_ofI: "r \<in> S \<Longrightarrow> (\<And>x. x \<in> S \<Longrightarrow> r \<le> x) \<Longrightarrow> first_of S = r"
  unfolding first_of_def by (auto intro: Least_equality)

lemma first_of_empty [simp]: "first_of {} = BS_UNDEF"
  by (simp add: first_of_def)

lemma first_of_none [simp]: "(\<And>x. \<not> P x) \<Longrightarrow> first_of {x. P x} = BS_UNDEF"
  by simp

lemma first_of_in: "S \<noteq> {} \<Longrightarrow> first_of S \<in> S"
  unfolding first_of_def by (auto intro: LeastI)

lemma first_of_le: "x \<in> S \<Longrightarrow> first_of S \<le> x"
  unfolding first_of_def by (auto intro: Least_le)

lemma last_ofI: "r \<in> S \<Longrightarrow> (\<And>x. x \<in> S \<Longrightarrow> x \<le> r) \<Longrightarrow> last_of S = r"
  unfolding last_of_def by (auto intro: Greatest_equality)

lemma last_of_empty [simp]: "last_of {} = BS_UNDEF"
  by (simp add: last_of_def)

lemma last_of_in: "S \<noteq> {} \<Longrightarrow> finite S \<Longrightarrow> last_of S \<in> S"
  by (metis Max_ge Max_in last_ofI)

lemma last_of_ge: "finite S \<Longrightarrow> x \<in> S \<Longrightarrow> x \<le> last_of S"
  by (metis Max_ge Max_in empty_iff last_ofI)

lemma first_of_BS_UNDEF:
  "(\<And>x. x \<in> S \<Longrightarrow> x < BS_UNDEF) \<Longrightarrow> first_of S = BS_UNDEF \<longleftrightarrow> S = {}"
  by (metis first_of_empty first_of_in less_irrefl)

lemma next_of_in: "next_of S e \<noteq> BS_UNDEF \<Longrightarrow> next_of S e \<in> S \<and> e < next_of S e"
proof -
  assume "next_of S e \<noteq> BS_UNDEF"
  then have "{x \<in> S. e < x} \<noteq> {}"
    unfolding next_of_def using first_of_empty by metis
  then have "next_of S e \<in> {x \<in> S. e < x}" unfolding next_of_def by (rule first_of_in)
  then show ?thesis by simp
qed

section \<open>Searching a range of indices\<close>

lemma find_upt_Some:
  "List.find P [l..<k] = Some i \<Longrightarrow> l \<le> i \<and> i < k \<and> P i \<and> (\<forall>a. l \<le> a \<longrightarrow> a < i \<longrightarrow> \<not> P a)"
  by (auto simp: find_Some_iff) (metis add_diff_inverse_nat less_diff_conv less_imp_diff_less nat_add_left_cancel_less not_le add.commute)

lemma find_rev_upt_Some:
  assumes "List.find P (rev [k + 1..<r + 1]) = Some j"
  shows "k < j \<and> j \<le> r \<and> P j \<and> (\<forall>b. j < b \<longrightarrow> b \<le> r \<longrightarrow> \<not> P b)"
proof -
  from assms obtain n where n: "n < r - k" "P (rev [k + 1..<r + 1] ! n)" "j = rev [k + 1..<r + 1] ! n"
    "\<forall>m<n. \<not> P (rev [k + 1..<r + 1] ! m)" by (auto simp: find_Some_iff simp del: upt_Suc)
  have nth: "rev [k + 1..<r + 1] ! m = r - m" if "m < r - k" for m
    using that by (simp add: rev_nth del: upt_Suc)
  have j: "j = r - n" "P j" using n nth by (auto simp del: upt_Suc)
  have "\<not> P b" if "j < b" "b \<le> r" for b
  proof -
    have "r - b < n" "r - b < r - k" "r - (r - b) = b" using that j(1) n(1) by linarith+
    then show ?thesis using n(4) nth [of "r - b"] by metis
  qed
  then show ?thesis using j n(1) by auto
qed

end
