(* ===== verification/ByteOp.thy ===== *)
theory ByteOp
  imports Prelude
begin

text \<open>
  The byte-vector primitives of \<^verbatim>\<open>src/com/byteop.cpp\<close>: the three lookup tables as they
  stand in the source, and the three scanning routines of class \<open>ByteOp\<close>. A buffer
  \<open>BYTE const* ptr\<close> of \<open>bytesize\<close> bytes is a \<open>byte list\<close> with the size passed
  beside it, as in the code. \<open>bset p\<close> is the set of bit positions a buffer represents; the
  lemmas show that the tables are the functions their comments describe and that each
  routine computes the matching operation on \<open>bset\<close>.
\<close>

section \<open>The lookup tables\<close>

definition g_bit_count :: "nat list" where
  "g_bit_count =
    [0, 1, 1, 2, 1, 2, 2, 3, 1, 2, 2, 3, 2, 3, 3, 4,
     1, 2, 2, 3, 2, 3, 3, 4, 2, 3, 3, 4, 3, 4, 4, 5,
     1, 2, 2, 3, 2, 3, 3, 4, 2, 3, 3, 4, 3, 4, 4, 5,
     2, 3, 3, 4, 3, 4, 4, 5, 3, 4, 4, 5, 4, 5, 5, 6,
     1, 2, 2, 3, 2, 3, 3, 4, 2, 3, 3, 4, 3, 4, 4, 5,
     2, 3, 3, 4, 3, 4, 4, 5, 3, 4, 4, 5, 4, 5, 5, 6,
     2, 3, 3, 4, 3, 4, 4, 5, 3, 4, 4, 5, 4, 5, 5, 6,
     3, 4, 4, 5, 4, 5, 5, 6, 4, 5, 5, 6, 5, 6, 6, 7,
     1, 2, 2, 3, 2, 3, 3, 4, 2, 3, 3, 4, 3, 4, 4, 5,
     2, 3, 3, 4, 3, 4, 4, 5, 3, 4, 4, 5, 4, 5, 5, 6,
     2, 3, 3, 4, 3, 4, 4, 5, 3, 4, 4, 5, 4, 5, 5, 6,
     3, 4, 4, 5, 4, 5, 5, 6, 4, 5, 5, 6, 5, 6, 6, 7,
     2, 3, 3, 4, 3, 4, 4, 5, 3, 4, 4, 5, 4, 5, 5, 6,
     3, 4, 4, 5, 4, 5, 5, 6, 4, 5, 5, 6, 5, 6, 6, 7,
     3, 4, 4, 5, 4, 5, 5, 6, 4, 5, 5, 6, 5, 6, 6, 7,
     4, 5, 5, 6, 5, 6, 6, 7, 5, 6, 6, 7, 6, 7, 7, 8]"

definition g_first_one :: "nat list" where
  "g_first_one =
    [0, 0, 1, 0, 2, 0, 1, 0, 3, 0, 1, 0, 2, 0, 1, 0,
     4, 0, 1, 0, 2, 0, 1, 0, 3, 0, 1, 0, 2, 0, 1, 0,
     5, 0, 1, 0, 2, 0, 1, 0, 3, 0, 1, 0, 2, 0, 1, 0,
     4, 0, 1, 0, 2, 0, 1, 0, 3, 0, 1, 0, 2, 0, 1, 0,
     6, 0, 1, 0, 2, 0, 1, 0, 3, 0, 1, 0, 2, 0, 1, 0,
     4, 0, 1, 0, 2, 0, 1, 0, 3, 0, 1, 0, 2, 0, 1, 0,
     5, 0, 1, 0, 2, 0, 1, 0, 3, 0, 1, 0, 2, 0, 1, 0,
     4, 0, 1, 0, 2, 0, 1, 0, 3, 0, 1, 0, 2, 0, 1, 0,
     7, 0, 1, 0, 2, 0, 1, 0, 3, 0, 1, 0, 2, 0, 1, 0,
     4, 0, 1, 0, 2, 0, 1, 0, 3, 0, 1, 0, 2, 0, 1, 0,
     5, 0, 1, 0, 2, 0, 1, 0, 3, 0, 1, 0, 2, 0, 1, 0,
     4, 0, 1, 0, 2, 0, 1, 0, 3, 0, 1, 0, 2, 0, 1, 0,
     6, 0, 1, 0, 2, 0, 1, 0, 3, 0, 1, 0, 2, 0, 1, 0,
     4, 0, 1, 0, 2, 0, 1, 0, 3, 0, 1, 0, 2, 0, 1, 0,
     5, 0, 1, 0, 2, 0, 1, 0, 3, 0, 1, 0, 2, 0, 1, 0,
     4, 0, 1, 0, 2, 0, 1, 0, 3, 0, 1, 0, 2, 0, 1, 0]"

definition g_last_one :: "nat list" where
  "g_last_one =
    [0, 0, 1, 1, 2, 2, 2, 2, 3, 3, 3, 3, 3, 3, 3, 3,
     4, 4, 4, 4, 4, 4, 4, 4, 4, 4, 4, 4, 4, 4, 4, 4,
     5, 5, 5, 5, 5, 5, 5, 5, 5, 5, 5, 5, 5, 5, 5, 5,
     5, 5, 5, 5, 5, 5, 5, 5, 5, 5, 5, 5, 5, 5, 5, 5,
     6, 6, 6, 6, 6, 6, 6, 6, 6, 6, 6, 6, 6, 6, 6, 6,
     6, 6, 6, 6, 6, 6, 6, 6, 6, 6, 6, 6, 6, 6, 6, 6,
     6, 6, 6, 6, 6, 6, 6, 6, 6, 6, 6, 6, 6, 6, 6, 6,
     6, 6, 6, 6, 6, 6, 6, 6, 6, 6, 6, 6, 6, 6, 6, 6,
     7, 7, 7, 7, 7, 7, 7, 7, 7, 7, 7, 7, 7, 7, 7, 7,
     7, 7, 7, 7, 7, 7, 7, 7, 7, 7, 7, 7, 7, 7, 7, 7,
     7, 7, 7, 7, 7, 7, 7, 7, 7, 7, 7, 7, 7, 7, 7, 7,
     7, 7, 7, 7, 7, 7, 7, 7, 7, 7, 7, 7, 7, 7, 7, 7,
     7, 7, 7, 7, 7, 7, 7, 7, 7, 7, 7, 7, 7, 7, 7, 7,
     7, 7, 7, 7, 7, 7, 7, 7, 7, 7, 7, 7, 7, 7, 7, 7,
     7, 7, 7, 7, 7, 7, 7, 7, 7, 7, 7, 7, 7, 7, 7, 7,
     7, 7, 7, 7, 7, 7, 7, 7, 7, 7, 7, 7, 7, 7, 7, 7]"

section \<open>The scanning routines\<close>

text \<open>The loop of \<open>ByteOp::get_first_idx\<close>, at index \<open>i\<close>.\<close>

function first_idx_from :: "byte list \<Rightarrow> nat \<Rightarrow> nat \<Rightarrow> nat" where
  "first_idx_from ptr bytesize i =
     (if i < bytesize then
        (let byte = ptr ! i in
         if byte \<noteq> 0 then u32 (g_first_one ! unat byte + mulbpb i)
         else first_idx_from ptr bytesize (Suc i))
      else BS_UNDEF)"
  by pat_completeness auto
termination
  by (relation "measure (\<lambda>(ptr, bytesize, i). bytesize - i)") auto

declare first_idx_from.simps [simp del]

definition get_first_idx :: "byte list \<Rightarrow> nat \<Rightarrow> nat" where
  "get_first_idx ptr bytesize = first_idx_from ptr bytesize 0"

text \<open>The inner \<open>while\<close> of \<open>ByteOp::get_next_idx\<close>: the byte it stops at, and its index.\<close>

function next_nonzero :: "byte list \<Rightarrow> nat \<Rightarrow> nat \<Rightarrow> (byte \<times> nat) option" where
  "next_nonzero ptr bytesize i =
     (if i < bytesize then
        (if ptr ! i \<noteq> 0 then Some (ptr ! i, i) else next_nonzero ptr bytesize (Suc i))
      else None)"
  by pat_completeness auto
termination
  by (relation "measure (\<lambda>(ptr, bytesize, i). bytesize - i)") auto

declare next_nonzero.simps [simp del]

definition get_next_idx :: "byte list \<Rightarrow> nat \<Rightarrow> nat \<Rightarrow> nat" where
  "get_next_idx ptr bytesize idx =
     (let first_byte = divbpb idx in
      if first_byte + 1 > bytesize then BS_UNDEF
      else
        let posv = modbpb idx + 1;
            byte = push_bit posv (drop_bit posv (ptr ! first_byte))
        in if byte = 0 then
             (case next_nonzero ptr bytesize (first_byte + 1) of
                None \<Rightarrow> BS_UNDEF
              | Some (b, fb) \<Rightarrow> u32 (g_first_one ! unat b + mulbpb fb))
           else u32 (g_first_one ! unat byte + mulbpb first_byte))"

function elem_count_from :: "byte list \<Rightarrow> nat \<Rightarrow> nat \<Rightarrow> nat \<Rightarrow> nat" where
  "elem_count_from ptr bytesize i count =
     (if i < bytesize
      then elem_count_from ptr bytesize (Suc i) (u32 (count + g_bit_count ! unat (ptr ! i)))
      else count)"
  by pat_completeness auto
termination
  by (relation "measure (\<lambda>(ptr, bytesize, i, count). bytesize - i)") auto

declare elem_count_from.simps [simp del]

definition get_elem_count :: "byte list \<Rightarrow> nat \<Rightarrow> nat" where
  "get_elem_count ptr bytesize = elem_count_from ptr bytesize 0 0"

section \<open>The tables are what their comments say\<close>

lemma unat_byte_less: "unat (w :: byte) < 256"
proof -
  have "unat w < 2 ^ LENGTH(8)" by (rule unsigned_less)
  then show ?thesis by simp
qed

lemma byte_table:
  assumes "list_all P (zip (map int [0..<256]) T)" and "length T = 256"
  shows "P (uint (w :: byte), T ! unat w)"
proof -
  have w: "unat w < 256" by (rule unat_byte_less)
  then have "zip (map int [0..<256]) T ! unat w = (int (unat w), T ! unat w)"
    using assms(2) by simp
  moreover have "zip (map int [0..<256]) T ! unat w \<in> set (zip (map int [0..<256]) T)"
    using w assms(2) by (intro nth_mem) simp
  ultimately show ?thesis using assms(1) by (simp add: list_all_iff del: set_zip)
qed

lemma uint_byte_bit: "bit (w :: byte) k \<longleftrightarrow> k < 8 \<and> odd (uint w div 2 ^ k)"
proof -
  have "bit (uint w) k = bit w k" by (simp add: bit_unsigned_iff)
  moreover have "bit w k \<Longrightarrow> k < 8" using bit_imp_le_length [of w k] by simp
  ultimately show ?thesis by (auto simp: bit_iff_odd [of "uint w"])
qed

lemma bit_byte_less: "bit (w :: byte) k \<Longrightarrow> k < 8"
  by (simp add: uint_byte_bit)

text \<open>\<open>g_first_one\<close> is the position of the lowest one bit of a non-zero byte.\<close>

lemma g_first_one_check:
  "list_all (\<lambda>(n, t). n = 0 \<or> (t < 8 \<and> n div 2 ^ t mod 2 = 1 \<and> n mod 2 ^ t = (0::int)))
     (zip (map int [0..<256]) g_first_one)"
  by code_simp

lemma first_one_bit:
  assumes "(w :: byte) \<noteq> 0"
  shows "g_first_one ! unat w < 8" and "bit w (g_first_one ! unat w)"
    and "bit w k \<Longrightarrow> g_first_one ! unat w \<le> k"
proof -
  have len: "length g_first_one = 256" by (simp add: g_first_one_def)
  let ?t = "g_first_one ! unat w"
  have t: "?t < 8" "uint w div 2 ^ ?t mod 2 = 1" "uint w mod 2 ^ ?t = 0"
    using byte_table [OF g_first_one_check len, of w] assms by (auto simp: uint_0_iff)
  show "?t < 8" by (rule t(1))
  show "bit w ?t" using t by (simp add: uint_byte_bit odd_iff_mod_2_eq_one)
  show "?t \<le> k" if "bit w k"
  proof (rule ccontr)
    assume "\<not> ?t \<le> k"
    then have "bit (take_bit ?t (uint w)) k"
      using that by (simp add: bit_take_bit_iff bit_unsigned_iff bit_byte_less)
    with t(3) show False by (simp add: take_bit_eq_mod)
  qed
qed

text \<open>\<open>g_last_one\<close> is the position of the highest one bit of a non-zero byte.\<close>

lemma g_last_one_check:
  "list_all (\<lambda>(n, t). n = 0 \<or> (t < 8 \<and> n div 2 ^ t = (1::int)))
     (zip (map int [0..<256]) g_last_one)"
  by code_simp

lemma last_one_bit:
  assumes "(w :: byte) \<noteq> 0"
  shows "g_last_one ! unat w < 8" and "bit w (g_last_one ! unat w)"
    and "bit w k \<Longrightarrow> k \<le> g_last_one ! unat w"
proof -
  have len: "length g_last_one = 256" by (simp add: g_last_one_def)
  let ?t = "g_last_one ! unat w"
  have t: "?t < 8" "uint w div 2 ^ ?t = 1"
    using byte_table [OF g_last_one_check len, of w] assms by (auto simp: uint_0_iff)
  show "?t < 8" by (rule t(1))
  show "bit w ?t" using t by (simp add: uint_byte_bit)
  show "k \<le> ?t" if "bit w k"
  proof (rule ccontr)
    assume "\<not> k \<le> ?t"
    then obtain d where k: "k = ?t + Suc d" using less_iff_Suc_add by (metis add_Suc_right not_le)
    have "uint w div 2 ^ k = (uint w div 2 ^ ?t) div 2 ^ Suc d"
      unfolding k power_add by (rule zdiv_zmult2_eq) simp
    also have "\<dots> = 0"
      unfolding t(2) using power_gt1 [of "2::int" d] by (intro div_pos_pos_trivial) simp_all
    finally show False using that by (simp add: uint_byte_bit)
  qed
qed

text \<open>\<open>g_bit_count\<close> is the number of one bits of a byte.\<close>

lemma g_bit_count_check:
  "list_all (\<lambda>(n, t). t = length (filter (\<lambda>k. n div 2 ^ k mod 2 = (1::int)) [0..<8]))
     (zip (map int [0..<256]) g_bit_count)"
  by code_simp

lemma bit_count_card: "g_bit_count ! unat (w :: byte) = card {k. bit w k}"
proof -
  have len: "length g_bit_count = 256" by (simp add: g_bit_count_def)
  have "g_bit_count ! unat w = length (filter (\<lambda>k. uint w div 2 ^ k mod 2 = 1) [0..<8])"
    using byte_table [OF g_bit_count_check len, of w] by simp
  also have "\<dots> = card (set (filter (\<lambda>k. uint w div 2 ^ k mod 2 = 1) [0..<8]))"
    by (rule distinct_card [symmetric]) (rule distinct_filter, simp)
  also have "set (filter (\<lambda>k. uint w div 2 ^ k mod 2 = 1) [0..<8]) = {k. bit w k}"
    by (auto simp: uint_byte_bit odd_iff_mod_2_eq_one)
  finally show ?thesis .
qed


section \<open>The set of positions a buffer represents\<close>

definition bset :: "byte list \<Rightarrow> nat set" where
  "bset p = {e. e div 8 < length p \<and> bit (p ! (e div 8)) (e mod 8)}"

lemma bset_iff: "e \<in> bset p \<longleftrightarrow> e div 8 < length p \<and> bit (p ! (e div 8)) (e mod 8)"
  by (simp add: bset_def)

lemma bset_pos [simp]: "k < 8 \<Longrightarrow> 8 * i + k \<in> bset p \<longleftrightarrow> i < length p \<and> bit (p ! i) k"
  by (simp add: bset_def)

lemma bsetE:
  assumes "e \<in> bset p"
  obtains i k where "e = 8 * i + k" and "k < 8" and "i < length p" and "bit (p ! i) k"
  using assms by (intro that [of "e div 8" "e mod 8"]) (auto simp: bset_iff)

lemma bset_less: "e \<in> bset p \<Longrightarrow> e < 8 * length p"
  by (auto simp: bset_iff)

lemma finite_bset [simp, intro]: "finite (bset p)"
  by (rule finite_subset [of _ "{..<8 * length p}"]) (auto dest: bset_less)

lemma bset_Nil [simp]: "bset [] = {}"
  by (simp add: bset_def)

lemma byte_nonzero: "(w :: byte) \<noteq> 0 \<longleftrightarrow> (\<exists>k<8. bit w k)"
  using first_one_bit(1,2) by fastforce

lemma zero_byte_bset:
  assumes i: "i < length p" "p ! i = 0"
  shows "{e \<in> bset p. 8 * i \<le> e} = {e \<in> bset p. 8 * Suc i \<le> e}"
proof -
  have "e \<notin> bset p" if "8 * i \<le> e" "e < 8 * Suc i" for e
  proof -
    from that have "e div 8 = i" by auto
    with i show ?thesis by (simp add: bset_iff)
  qed
  then show ?thesis by fastforce
qed

lemma bset_past: "length p \<le> i \<Longrightarrow> {e \<in> bset p. 8 * i \<le> e} = {}"
  by (auto dest: bset_less)

text \<open>
  The position a table lookup yields: \<open>b\<close> is byte \<open>i\<close> with some low bits erased, and
  nothing of the set lies between \<open>lo\<close> and byte \<open>i\<close>.
\<close>

lemma first_idx_at:
  fixes b :: byte
  assumes i: "i < length p" and sz: "length p < 536870912" and b: "b \<noteq> 0"
    and bits: "\<And>k. k < 8 \<Longrightarrow> bit b k \<longleftrightarrow> bit (p ! i) k \<and> lo \<le> 8 * i + k"
    and low: "\<And>e. e \<in> bset p \<Longrightarrow> lo \<le> e \<Longrightarrow> 8 * i \<le> e"
  shows "u32 (g_first_one ! unat b + mulbpb i) = first_of {e \<in> bset p. lo \<le> e}"
proof -
  let ?t = "g_first_one ! unat b"
  have t: "?t < 8" "bit b ?t" using first_one_bit [OF b] by auto
  have "first_of {e \<in> bset p. lo \<le> e} = 8 * i + ?t"
  proof (rule first_ofI)
    show "8 * i + ?t \<in> {e \<in> bset p. lo \<le> e}" using t i bits by simp
    fix x assume "x \<in> {e \<in> bset p. lo \<le> e}"
    then have x: "x \<in> bset p" "lo \<le> x" by auto
    then have "8 * i \<le> x" by (rule low)
    show "8 * i + ?t \<le> x"
    proof (cases "x div 8 = i")
      case True
      then have eq: "x = 8 * i + x mod 8" by auto
      with x bits [of "x mod 8"] True have "bit b (x mod 8)" by (simp add: bset_iff)
      then have "?t \<le> x mod 8" by (rule first_one_bit(3) [OF b])
      with eq show ?thesis by linarith
    next
      case False
      with \<open>8 * i \<le> x\<close> have "8 * i + 8 \<le> x" by auto
      with t show ?thesis by linarith
    qed
  qed
  moreover have "8 * i + ?t < 4294967296" using i sz t by linarith
  ultimately show ?thesis using i sz by (simp add: mulbpb_id add.commute)
qed

lemma first_idx_from_correct:
  assumes "length p < 536870912"
  shows "first_idx_from p (length p) i = first_of {e \<in> bset p. 8 * i \<le> e}"
  using assms
proof (induction p "length p" i rule: first_idx_from.induct)
  case (1 p i)
  note unf = first_idx_from.simps [of p "length p" i]
  consider "length p \<le> i" | "i < length p" "p ! i = 0" | "i < length p" "p ! i \<noteq> 0" by linarith
  then show ?case
  proof cases
    case 1
    then show ?thesis by (simp add: unf bset_past)
  next
    case 2
    then show ?thesis using "1.hyps" "1.prems" zero_byte_bset [of i p] by (simp add: unf)
  next
    case 3
    then show ?thesis using "1.prems" first_idx_at [of i p "p ! i" "8 * i"] by (simp add: unf Let_def)
  qed
qed

lemma get_first_idx_correct:
  "length p < 536870912 \<Longrightarrow> get_first_idx p (length p) = first_of (bset p)"
  by (simp add: get_first_idx_def first_idx_from_correct)

lemma next_nonzero_correct:
  "case next_nonzero p (length p) i of
     None \<Rightarrow> {e \<in> bset p. 8 * i \<le> e} = {}
   | Some (b, j) \<Rightarrow> i \<le> j \<and> j < length p \<and> b = p ! j \<and> b \<noteq> 0 \<and>
       (\<forall>e\<in>bset p. 8 * i \<le> e \<longrightarrow> 8 * j \<le> e)"
proof (induction p "length p" i rule: next_nonzero.induct)
  case (1 p i)
  note unf = next_nonzero.simps [of p "length p" i]
  consider "length p \<le> i" | "i < length p" "p ! i = 0" | "i < length p" "p ! i \<noteq> 0" by linarith
  then show ?case
  proof cases
    case 1
    then show ?thesis using bset_past [of p i] by (simp add: unf)
  next
    case 2
    then have "{e \<in> bset p. 8 * i \<le> e} = {e \<in> bset p. 8 * Suc i \<le> e}" by (rule zero_byte_bset)
    with 2 "1.hyps" show ?thesis by (auto simp: unf split: option.splits)
  next
    case 3
    then show ?thesis by (simp add: unf)
  qed
qed

lemma get_next_idx_correct:
  assumes sz: "length p < 536870912"
  shows "get_next_idx p (length p) e = next_of (bset p) e"
proof (cases "length p < e div 8 + 1")
  case True
  then have "{x \<in> bset p. e < x} = {}" by (auto dest!: bset_less)
  then have "next_of (bset p) e = BS_UNDEF" by (simp only: next_of_def first_of_empty)
  with True show ?thesis by (simp add: get_next_idx_def divbpb_div)
next
  case False
  define v b where "v = e mod 8 + 1" and "b = push_bit v (drop_bit v (p ! (e div 8)))"
  have v: "8 * (e div 8) + v = Suc e" unfolding v_def by presburger
  have bits: "bit b k \<longleftrightarrow> bit (p ! (e div 8)) k \<and> Suc e \<le> 8 * (e div 8) + k" if "k < 8" for k
    unfolding b_def v [symmetric] using that by (auto simp: bit_push_bit_iff bit_drop_bit_eq)
  have S: "next_of (bset p) e = first_of {x \<in> bset p. Suc e \<le> x}"
    by (simp add: next_of_def Suc_le_eq)
  have sh: "get_next_idx p (length p) e =
      (if b = 0 then (case next_nonzero p (length p) (e div 8 + 1) of None \<Rightarrow> BS_UNDEF
         | Some (b, fb) \<Rightarrow> u32 (g_first_one ! unat b + mulbpb fb))
       else u32 (g_first_one ! unat b + mulbpb (e div 8)))"
    using False unfolding get_next_idx_def b_def v_def divbpb_div modbpb_mod Let_def by simp
  show ?thesis
  proof (cases "b = 0")
    case nz: False
    then show ?thesis unfolding sh S using False sz bits
      by (simp, intro first_idx_at) auto
  next
    case True
    have up: "8 * (e div 8 + 1) \<le> x" if "x \<in> bset p" "Suc e \<le> x" for x
    proof (rule ccontr)
      assume "\<not> 8 * (e div 8 + 1) \<le> x"
      with that have "x div 8 = e div 8" by auto
      moreover from this have "x = 8 * (e div 8) + x mod 8" by (metis mult_div_mod_eq)
      ultimately show False using that bits [of "x mod 8"] True by (auto simp: bset_iff)
    qed
    then have eq: "{x \<in> bset p. Suc e \<le> x} = {x \<in> bset p. 8 * (e div 8 + 1) \<le> x}"
      by (auto dest: up)
    show ?thesis
      using next_nonzero_correct [of p "e div 8 + 1"] True sz
      unfolding sh S eq
      by (auto split: option.splits intro!: first_idx_at)
  qed
qed

text \<open>The population count, with the 32-bit accumulator of the code.\<close>

lemma card_bset_step:
  assumes "i < length p"
  shows "card {e \<in> bset p. 8 * i \<le> e} =
    card {k. bit (p ! i) k} + card {e \<in> bset p. 8 * Suc i \<le> e}"
proof -
  have "{e \<in> bset p. 8 * i \<le> e} =
      (\<lambda>k. 8 * i + k) ` {k. bit (p ! i) k} \<union> {e \<in> bset p. 8 * Suc i \<le> e}" (is "_ = ?L \<union> ?R")
  proof (intro equalityI subsetI)
    fix e assume "e \<in> {e \<in> bset p. 8 * i \<le> e}"
    then have e: "e \<in> bset p" "8 * i \<le> e" by auto
    show "e \<in> ?L \<union> ?R"
    proof (cases "8 * Suc i \<le> e")
      case False
      with e have i: "e div 8 = i" by auto
      moreover have "e = 8 * i + e mod 8" unfolding i [symmetric] by simp
      ultimately show ?thesis using e by (auto simp: bset_iff intro!: image_eqI [of _ _ "e mod 8"])
    qed (use e in auto)
  next
    fix e assume "e \<in> ?L \<union> ?R"
    then show "e \<in> {e \<in> bset p. 8 * i \<le> e}"
      using assms bit_byte_less by (fastforce simp: bset_pos)
  qed
  moreover have "?L \<inter> ?R = {}" by (auto dest: bit_byte_less)
  moreover have "finite {k. bit (p ! i) k}"
    by (rule finite_subset [of _ "{..<8}"]) (auto dest: bit_byte_less)
  ultimately show ?thesis by (simp add: card_Un_disjoint card_image)
qed

lemma elem_count_from_correct:
  "elem_count_from p (length p) i (u32 c) = u32 (c + card {e \<in> bset p. 8 * i \<le> e})"
proof (induction "length p - i" arbitrary: i c)
  case 0
  then have "{e \<in> bset p. 8 * i \<le> e} = {}" by (intro bset_past) simp
  with 0 show ?case
    by (simp only: elem_count_from.simps [of p "length p" i]) simp
next
  case (Suc n)
  then have i: "i < length p" by simp
  have "u32 (u32 c + g_bit_count ! unat (p ! i)) = u32 (c + card {k. bit (p ! i) k})"
    by (simp add: bit_count_card u32_def mod_add_left_eq)
  with Suc.hyps(1) [of "Suc i" "c + card {k. bit (p ! i) k}"] Suc.hyps(2) i show ?case
    by (simp add: elem_count_from.simps [of p "length p" i] card_bset_step add.assoc)
qed

lemma get_elem_count_correct:
  assumes "length p < 536870912"
  shows "get_elem_count p (length p) = card (bset p)"
proof -
  have "card (bset p) \<le> card {..<8 * length p}"
    by (rule card_mono) (auto dest: bset_less)
  then have "u32 (0 + card (bset p)) = card (bset p)" using assms by simp
  with elem_count_from_correct [of p 0 0] show ?thesis
    by (simp add: get_elem_count_def)
qed

end
