(* ===== verification/BitCount.thy ===== *)
theory BitCount
  imports ByteOp "HOL-Library.Log_Nat"
begin

text \<open>
  Counting and locating bits of machine words: the counting functions of \<^verbatim>\<open>src/com/comf.cpp\<close> and
  \<^verbatim>\<open>src/com/comf.h\<close>. A function the source overloads for several widths is one definition over
  the word length where the bodies agree. \<open>sigbits\<close>, the number of significant bits, and
  \<open>low_one\<close>, the position of the lowest one, are what the functions are compared with.
\<close>

section \<open>Significant bits\<close>

definition sigbits :: "'a::len word \<Rightarrow> nat" where
  "sigbits w = floorlog 2 (unat w)"

lemma unat_drop_div: "unat (drop_bit k (w :: 'a::len word)) = unat w div 2 ^ k"
  by (simp add: unat_drop_bit_eq flip: drop_bit_eq_div)

lemma sigbits_le_iff: "sigbits w \<le> k \<longleftrightarrow> unat w < 2 ^ k"
  by (simp add: sigbits_def floorlog_le_iff)

lemma sigbits_bits: "sigbits w \<le> k \<longleftrightarrow> (\<forall>j\<ge>k. \<not> bit w j)"
proof -
  have "unat w < 2 ^ k \<longleftrightarrow> drop_bit k w = 0"
    using unat_eq_0 [of "drop_bit k w"] unat_drop_div [of k w] by (simp add: div_eq_0_iff)
  also have "\<dots> \<longleftrightarrow> (\<forall>j. \<not> bit w (k + j))"
    by (simp add: bit_eq_iff bit_drop_bit_eq) (metis bit_imp_le_length trans_le_add2 not_le)
  also have "\<dots> \<longleftrightarrow> (\<forall>j\<ge>k. \<not> bit w j)" by (metis le_add1 le_Suc_ex)
  finally show ?thesis by (simp add: sigbits_le_iff)
qed

lemma sigbits_0 [simp]: "sigbits 0 = 0"
  by (simp add: sigbits_def floorlog_def)

lemma sigbits_0_iff: "sigbits w = 0 \<longleftrightarrow> w = 0"
  by (simp add: sigbits_def floorlog_eq_zero_iff unat_eq_0)

lemma sigbits_le_length: "sigbits (w :: 'a::len word) \<le> LENGTH('a)"
  by (simp add: sigbits_le_iff unsigned_less)

lemma sigbits_top: "w \<noteq> 0 \<Longrightarrow> bit w (sigbits w - 1)"
proof (rule ccontr)
  assume w: "w \<noteq> 0" and n: "\<not> bit w (sigbits w - 1)"
  have "\<not> bit w j" if "sigbits w - 1 \<le> j" for j
  proof (cases "j = sigbits w - 1")
    case False
    then have "sigbits w \<le> j" using that w by (simp add: sigbits_0_iff)
    then show ?thesis using sigbits_bits by blast
  qed (use n in simp)
  then have "sigbits w \<le> sigbits w - 1" using sigbits_bits by blast
  then show False using w sigbits_0_iff [of w] by simp
qed

lemma sigbitsI: "bit w k \<Longrightarrow> (\<And>j. k < j \<Longrightarrow> \<not> bit w j) \<Longrightarrow> sigbits w = Suc k"
proof (rule antisym)
  assume a: "bit w k" "\<And>j. k < j \<Longrightarrow> \<not> bit w j"
  show "sigbits w \<le> Suc k" using a(2) by (auto simp: sigbits_bits)
  have "\<not> sigbits w \<le> k" using a(1) sigbits_bits [of w k] by auto
  then show "Suc k \<le> sigbits w" by simp
qed

section \<open>Leading bits\<close>

text \<open>The marker starts at the top bit and is shifted right in each of the \<open>n\<close> rounds that are left.\<close>

fun clz_loop :: "nat \<Rightarrow> 'a::len word \<Rightarrow> 'a word \<Rightarrow> nat \<Rightarrow> nat" where
  "clz_loop 0 marker a i = i"
| "clz_loop (Suc n) marker a i =
     (if marker AND a = marker then i else clz_loop n (drop_bit 1 marker) a (i + 1))"

definition countLeadingZero :: "'a::len word \<Rightarrow> nat" where
  "countLeadingZero a = clz_loop LENGTH('a) (push_bit (LENGTH('a) - 1) 1) a 0"

definition countLeadingZero64 :: "64 word \<Rightarrow> nat" where
  "countLeadingZero64 a =
     (let hi = ucast (drop_bit 32 a) :: 32 word
      in if hi \<noteq> 0 then countLeadingZero hi else 32 + countLeadingZero (ucast a :: 32 word))"

fun clo_loop :: "nat \<Rightarrow> 'a::len word \<Rightarrow> 'a word \<Rightarrow> nat \<Rightarrow> nat" where
  "clo_loop 0 marker a i = i"
| "clo_loop (Suc n) marker a i =
     (if marker AND a = 0 then i else clo_loop n (drop_bit 1 marker) a (i + 1))"

definition countLeadingOne :: "32 word \<Rightarrow> nat" where
  "countLeadingOne a = clo_loop 32 (push_bit 31 1) a 0"

definition countLeadingOne64 :: "64 word \<Rightarrow> nat" where
  "countLeadingOne64 a =
     (let hi = ucast (drop_bit 32 a) :: 32 word
      in if hi \<noteq> - 1 then countLeadingOne hi else 32 + countLeadingOne (ucast a :: 32 word))"

lemma one_bit_and: "k < LENGTH('a) \<Longrightarrow> 2 ^ k AND (a :: 'a::len word) = (if bit a k then 2 ^ k else 0)"
  by (rule bit_word_eqI) (auto simp: bit_and_iff bit_exp_iff)

lemma exp_neq_0: "k < LENGTH('a) \<Longrightarrow> (2 :: 'a::len word) ^ k \<noteq> 0"
  by simp

lemma drop_exp: "k < LENGTH('a) \<Longrightarrow> drop_bit (Suc 0) ((2 :: 'a::len word) ^ k) = (if k = 0 then 0 else 2 ^ (k - 1))"
  by (rule bit_word_eqI) (auto simp: bit_drop_bit_eq bit_exp_iff)

lemma clz_loop_correct:
  fixes a :: "'a::len word"
  assumes "n \<le> LENGTH('a)" "sigbits a \<le> n" "n = 0 \<or> m = 2 ^ (n - 1)"
  shows "clz_loop n m a i = i + (n - sigbits a)"
  using assms
proof (induction n arbitrary: m i)
  case (Suc n)
  have m: "m = 2 ^ n" and n: "n < LENGTH('a)" using Suc.prems by auto
  show ?case
  proof (cases "bit a n")
    case True
    then have "sigbits a = Suc n" using Suc.prems(2) sigbits_bits by (metis le_antisym not_less_eq_eq)
    then show ?thesis using m n True by (simp add: one_bit_and)
  next
    case False
    have "sigbits a \<le> n" using Suc.prems(2) False sigbits_bits by (metis Suc_leI nless_le)
    moreover have "n = 0 \<or> drop_bit 1 m = 2 ^ (n - 1)" using m n by (simp add: drop_exp)
    ultimately show ?thesis using Suc.IH [of "drop_bit 1 m" "i + 1"] m n False
      by (simp add: one_bit_and)
  qed
qed simp

lemma countLeadingZero_correct: "countLeadingZero (a :: 'a::len word) = LENGTH('a) - sigbits a"
  using clz_loop_correct [of "LENGTH('a)" a "2 ^ (LENGTH('a) - 1)" 0]
  by (simp add: countLeadingZero_def sigbits_le_length)

text \<open>The two halves of a 64-bit word.\<close>

lemma bit_hi: "bit (ucast (drop_bit 32 a) :: 32 word) j \<longleftrightarrow> j < 32 \<and> bit (a :: 64 word) (32 + j)"
  by (auto simp: bit_unsigned_iff bit_drop_bit_eq dest: bit_imp_le_length)

lemma bit_lo: "bit (ucast (a :: 64 word) :: 32 word) j \<longleftrightarrow> j < 32 \<and> bit a j"
  by (auto simp: bit_unsigned_iff)

lemma bit64: "bit (a :: 64 word) j \<longleftrightarrow> (if j < 32 then bit (ucast a :: 32 word) j else bit (ucast (drop_bit 32 a) :: 32 word) (j - 32))"
  using bit_imp_le_length [of a j] by (auto simp: bit_unsigned_iff bit_drop_bit_eq)

lemma sigbits_halves:
  "sigbits (a :: 64 word) = (if ucast (drop_bit 32 a) = (0 :: 32 word) then sigbits (ucast a :: 32 word)
     else 32 + sigbits (ucast (drop_bit 32 a) :: 32 word))"
proof (cases "ucast (drop_bit 32 a) = (0 :: 32 word)")
  case True
  have "sigbits a \<le> k \<longleftrightarrow> sigbits (ucast a :: 32 word) \<le> k" for k
    unfolding sigbits_bits bit64 [of a] True by (auto simp: bit_lo)
  then show ?thesis using True by (metis le_antisym order_refl)
next
  case False
  let ?h = "ucast (drop_bit 32 a) :: 32 word"
  have t: "bit ?h (sigbits ?h - 1)" using sigbits_top False by blast
  have "sigbits a = Suc (32 + (sigbits ?h - 1))"
  proof (rule sigbitsI)
    show "bit a (32 + (sigbits ?h - 1))" using t by (simp add: bit_hi)
    fix j assume j: "32 + (sigbits ?h - 1) < j"
    have "\<not> bit ?h (j - 32)" using sigbits_bits [of ?h "sigbits ?h"] j by (simp add: less_diff_conv2 Suc_leI)
    then show "\<not> bit a j" using j by (simp add: bit64 [of a])
  qed
  moreover have "0 < sigbits ?h" using False sigbits_0_iff [of ?h] by simp
  ultimately show ?thesis using False by simp
qed

lemma countLeadingZero64_correct: "countLeadingZero64 a = 64 - sigbits a"
  using sigbits_le_length [of "ucast a :: 32 word"]
  by (auto simp: countLeadingZero64_def Let_def countLeadingZero_correct sigbits_halves)

text \<open>Leading ones of a word are leading zeros of its complement.\<close>

lemma clo_loop_not:
  "k < LENGTH('a) \<Longrightarrow> n \<le> Suc k \<Longrightarrow> clo_loop n (2 ^ k) (a :: 'a::len word) i = clz_loop n (2 ^ k) (NOT a) i"
proof (induction n arbitrary: k i)
  case (Suc n)
  have "2 ^ k AND NOT a = 2 ^ k \<longleftrightarrow> 2 ^ k AND a = 0"
    using Suc.prems(1) by (auto simp: one_bit_and bit_not_iff)
  moreover have "clo_loop n (drop_bit 1 (2 ^ k)) a (i + 1) = clz_loop n (drop_bit 1 (2 ^ k)) (NOT a) (i + 1)"
    using Suc.IH [of "k - 1" "i + 1"] Suc.prems by (cases "k = 0") (simp_all add: drop_exp)
  ultimately show ?case by simp
qed simp

lemma countLeadingOne_correct: "countLeadingOne a = 32 - sigbits (NOT a)"
  using clo_loop_not [of 31 32 a 0] countLeadingZero_correct [of "NOT a"]
  by (simp add: countLeadingOne_def countLeadingZero_def)

lemma countLeadingOne64_correct: "countLeadingOne64 a = 64 - sigbits (NOT a)"
proof -
  have h: "ucast (drop_bit 32 (NOT a)) = (NOT (ucast (drop_bit 32 a)) :: 32 word)"
    by (rule bit_word_eqI) (simp add: bit_hi bit_not_iff)
  have l: "ucast (NOT a) = (NOT (ucast a) :: 32 word)"
    by (rule bit_word_eqI) (simp add: bit_lo bit_not_iff)
  have e: "NOT (x :: 32 word) = 0 \<longleftrightarrow> x = - 1" for x by (metis bit.double_compl bit.compl_zero)
  show ?thesis
    using sigbits_le_length [of "NOT (ucast a :: 32 word)"]
    by (auto simp: countLeadingOne64_def Let_def countLeadingOne_correct sigbits_halves [of "NOT a"] h l e)
qed

section \<open>Trailing zeros and the lowest one\<close>

definition low_one :: "'a::len word \<Rightarrow> nat" where
  "low_one w = (LEAST j. bit w j)"

lemma low_one_bit: "w \<noteq> 0 \<Longrightarrow> bit w (low_one w)"
  unfolding low_one_def by (metis (mono_tags) LeastI bit_0_eq bit_eqI bot_apply bot_bool_def)

lemma low_one_least: "bit w j \<Longrightarrow> low_one w \<le> j"
  unfolding low_one_def by (rule Least_le)

lemma low_oneI: "bit w k \<Longrightarrow> (\<And>j. j < k \<Longrightarrow> \<not> bit w j) \<Longrightarrow> low_one w = k"
  unfolding low_one_def by (rule Least_equality) (auto simp: not_less [symmetric])

lemma low_one_less: "(w :: 'a::len word) \<noteq> 0 \<Longrightarrow> low_one w < LENGTH('a)"
  by (meson bit_imp_le_length low_one_bit)

fun ctz_loop :: "nat \<Rightarrow> 'a::len word \<Rightarrow> nat \<Rightarrow> nat \<Rightarrow> nat" where
  "ctz_loop 0 val i trail = trail"
| "ctz_loop (Suc n) val i trail =
     (if drop_bit i val AND 1 \<noteq> 0 then trail else ctz_loop n val (i + 1) (trail + 1))"

definition countTrailingZero :: "'a::len word \<Rightarrow> nat" where
  "countTrailingZero val = (if val AND 1 \<noteq> 0 then 0 else ctz_loop LENGTH('a) val 0 0)"

lemma and_1_bit: "drop_bit i (w :: 'a::len word) AND 1 \<noteq> 0 \<longleftrightarrow> bit w i"
  by (simp add: and_one_eq bit_iff_odd_drop_bit odd_iff_mod_2_eq_one)

lemma and_1_bit_0: "(w :: 'a::len word) AND 1 \<noteq> 0 \<longleftrightarrow> bit w 0"
  using and_1_bit [of 0 w] by simp

lemma ctz_loop_correct:
  "(\<And>j. j < i \<Longrightarrow> \<not> bit (w :: 'a::len word) j) \<Longrightarrow> i + n = LENGTH('a) \<Longrightarrow>
   ctz_loop n w i i = (if w = 0 then LENGTH('a) else low_one w)"
proof (induction n arbitrary: i)
  case 0
  then have "w = 0" by (intro bit_word_eqI) simp
  with 0 show ?case by simp
next
  case (Suc n)
  show ?case
  proof (cases "bit w i")
    case True
    then have "low_one w = i" using Suc.prems(1) by (intro low_oneI)
    moreover have "w \<noteq> 0" using True by auto
    ultimately show ?thesis using True by (simp add: and_1_bit)
  next
    case False
    then have "\<not> bit w j" if "j < Suc i" for j using Suc.prems(1) that less_Suc_eq by auto
    from Suc.IH [OF this] False Suc.prems(2) show ?thesis by (simp add: and_1_bit)
  qed
qed

lemma countTrailingZero_correct:
  "countTrailingZero (w :: 'a::len word) = (if w = 0 then LENGTH('a) else low_one w)"
proof (cases "bit w 0")
  case True
  then have "low_one w = 0" by (intro low_oneI) auto
  moreover have "w \<noteq> 0" using True by auto
  ultimately show ?thesis using True by (simp add: countTrailingZero_def and_1_bit_0)
next
  case False
  then show ?thesis using ctz_loop_correct [of 0 w "LENGTH('a)"] by (simp add: countTrailingZero_def and_1_bit_0)
qed

text \<open>Below its lowest one a word is zero: subtracting one clears that bit and sets those below.\<close>

definition rest :: "'a::len word \<Rightarrow> 'a word" where
  "rest w = w AND NOT (2 ^ low_one w)"

lemma bit_rest: "bit (rest w) j \<longleftrightarrow> bit w j \<and> j \<noteq> low_one w"
  by (auto simp: rest_def bit_simps dest: bit_imp_le_length)

lemma minus_1_bits:
  fixes w :: "'a::len word"
  assumes "w \<noteq> 0"
  shows "bit (w - 1) j \<longleftrightarrow> j < low_one w \<or> bit w j \<and> j \<noteq> low_one w"
proof -
  let ?k = "low_one w"
  have k: "?k < LENGTH('a)" using assms by (rule low_one_less)
  have d: "rest w AND 2 ^ ?k = 0" "rest w AND mask ?k = 0"
    by (rule bit_word_eqI, auto simp: bit_simps bit_rest dest: low_one_least)+
  have "w = rest w OR 2 ^ ?k"
    using low_one_bit [OF assms] k by (intro bit_word_eqI) (auto simp: bit_simps bit_rest)
  also have "\<dots> = rest w + 2 ^ ?k" using d(1) by (simp add: disjunctive_add_eq_or)
  finally have "w - 1 = rest w + mask ?k" by (simp add: mask_eq_exp_minus_1)
  also have "\<dots> = rest w OR mask ?k" using d(2) by (simp add: disjunctive_add_eq_or)
  finally have "bit (w - 1) j \<longleftrightarrow> bit (rest w OR mask ?k) j" by simp
  then show ?thesis using k by (auto simp: bit_simps bit_rest)
qed

lemma and_minus_1: "(w :: 'a::len word) \<noteq> 0 \<Longrightarrow> w AND (w - 1) = rest w"
  by (rule bit_word_eqI) (auto simp: bit_and_iff minus_1_bits bit_rest dest: low_one_least)

text \<open>Kernighan's loop removes the lowest one in each round.\<close>

function popcount_loop :: "64 word \<Rightarrow> nat \<Rightarrow> nat" where
  "popcount_loop v n = (if v = 0 then n else popcount_loop (v AND (v - 1)) (n + 1))"
  by pat_completeness auto
termination
proof (relation "measure (\<lambda>(v, n). unat v)")
  fix v :: "64 word" and n :: nat
  assume v: "v \<noteq> 0"
  have "v AND (v - 1) \<le> v - 1" by (simp add: word_and_le1)
  also have "v - 1 < v" using v by (simp add: word_less_nat_alt unat_minus_one unat_gt_0)
  finally show "((v AND (v - 1), n + 1), v, n) \<in> measure (\<lambda>(v, n). unat v)"
    by (simp add: word_less_nat_alt)
qed simp

declare popcount_loop.simps [simp del]

definition getSparsePopCount :: "64 word \<Rightarrow> nat" where
  "getSparsePopCount v = popcount_loop v 0"

lemma popcount_loop_correct: "popcount_loop v n = n + card {j. bit v j}"
proof (induction v n rule: popcount_loop.induct)
  case (1 v n)
  show ?case
  proof (cases "v = 0")
    case True
    then show ?thesis by (simp add: popcount_loop.simps)
  next
    case False
    have f: "finite {j. bit v j}" by (rule finite_subset [of _ "{..<64}"]) (auto dest: bit_imp_le_length)
    have "{j. bit v j} = insert (low_one v) {j. bit (rest v) j}"
      using low_one_bit [OF False] by (auto simp: bit_rest)
    moreover have "low_one v \<notin> {j. bit (rest v) j}" by (simp add: bit_rest)
    moreover have "finite {j. bit (rest v) j}" by (rule finite_subset [OF _ f]) (auto simp: bit_rest)
    ultimately have "card {j. bit v j} = Suc (card {j. bit (rest v) j})" by simp
    then show ?thesis using 1 [OF False] False and_minus_1 [OF False]
      by (subst popcount_loop.simps) simp
  qed
qed

text \<open>The byte-table counts: the bytes of a word in memory order, lowest first.\<close>

definition le_bytes :: "'a::len word \<Rightarrow> byte list" where
  "le_bytes a = map (\<lambda>i. ucast (drop_bit (8 * i) a)) [0..<LENGTH('a) div 8]"

definition countOne :: "'a::len word \<Rightarrow> nat" where
  "countOne a = get_elem_count (le_bytes a) (LENGTH('a) div 8)"

definition getLookupPopCount :: "64 word \<Rightarrow> nat" where
  "getLookupPopCount v = (let p = le_bytes v in
     g_bit_count ! unat (p ! 0) + g_bit_count ! unat (p ! 1) +
     g_bit_count ! unat (p ! 2) + g_bit_count ! unat (p ! 3) +
     g_bit_count ! unat (p ! 4) + g_bit_count ! unat (p ! 5) +
     g_bit_count ! unat (p ! 6) + g_bit_count ! unat (p ! 7))"

lemma bset_le_bytes:
  "8 dvd LENGTH('a) \<Longrightarrow> bset (le_bytes (a :: 'a::len word)) = {j. bit a j}"
  using bit_imp_le_length [of a]
  by (auto simp: bset_iff le_bytes_def bit_unsigned_iff bit_drop_bit_eq div_less_iff_less_mult dvd_imp_le)

lemma countOne_correct:
  assumes "8 dvd LENGTH('a)" "LENGTH('a) < 536870912"
  shows "countOne (a :: 'a::len word) = card {j. bit a j}"
proof -
  have "length (le_bytes a) = LENGTH('a) div 8" by (simp add: le_bytes_def)
  then show ?thesis using get_elem_count_correct [of "le_bytes a"] assms
    by (simp add: countOne_def bset_le_bytes)
qed

section \<open>Powers of two\<close>

definition isPowerOf2 :: "64 word \<Rightarrow> bool" where
  "isPowerOf2 x = (x \<noteq> 0 \<and> x AND (x - 1) = 0)"

lemma rest_0: "(w :: 'a::len word) \<noteq> 0 \<Longrightarrow> rest w = 0 \<longleftrightarrow> w = 2 ^ low_one w"
proof -
  assume w: "w \<noteq> 0"
  have "rest w = 0 \<longleftrightarrow> (\<forall>j. bit w j \<longrightarrow> j = low_one w)"
    unfolding bit_eq_iff [of "rest w"] by (simp add: bit_rest) (meson bit_imp_le_length)
  also have "\<dots> \<longleftrightarrow> (\<forall>j<LENGTH('a). bit w j \<longleftrightarrow> j = low_one w)"
    using low_one_bit [OF w] bit_imp_le_length [of w] by blast
  also have "\<dots> \<longleftrightarrow> w = 2 ^ low_one w"
    by (auto simp: bit_eq_iff [of w] bit_exp_iff)
  finally show ?thesis .
qed

lemma low_one_exp: "k < LENGTH('a) \<Longrightarrow> low_one (2 ^ k :: 'a::len word) = k"
  by (rule low_oneI) (simp_all add: bit_exp_iff)

lemma isPowerOf2_correct: "isPowerOf2 x \<longleftrightarrow> (\<exists>k<64. x = 2 ^ k)"
proof
  assume "isPowerOf2 x"
  then have "x \<noteq> 0" "rest x = 0" using and_minus_1 [of x] by (auto simp: isPowerOf2_def)
  then show "\<exists>k<64. x = 2 ^ k" using rest_0 [of x] low_one_less [of x] by auto
next
  assume "\<exists>k<64. x = 2 ^ k"
  then obtain k where k: "k < 64" "x = 2 ^ k" by blast
  then have "x \<noteq> 0" "low_one x = k" by (simp_all add: low_one_exp)
  then show "isPowerOf2 x" using k(2) rest_0 [of x] by (simp add: isPowerOf2_def and_minus_1)
qed

text \<open>The loop of \<open>getPowerOf2\<close> does not end for zero, which the code excludes by an assertion.\<close>

partial_function (option) pow2_loop :: "64 word \<Rightarrow> nat \<Rightarrow> nat option" where
  "pow2_loop v n = (if v AND 1 = 0 then pow2_loop (drop_bit 1 v) (n + 1) else Some n)"

definition getPowerOf2 :: "64 word \<Rightarrow> nat option" where
  "getPowerOf2 v = pow2_loop v 0"

lemma drop_low_one:
  "(w :: 'a::len word) \<noteq> 0 \<Longrightarrow> \<not> bit w 0 \<Longrightarrow> low_one w = Suc (low_one (drop_bit 1 w)) \<and> drop_bit 1 w \<noteq> 0"
proof -
  assume w: "w \<noteq> 0" "\<not> bit w 0"
  have b: "bit w (low_one w)" using w(1) by (rule low_one_bit)
  then obtain k where k: "low_one w = Suc k" using w(2) by (cases "low_one w") auto
  have "bit (drop_bit 1 w) k" using b k by (simp add: bit_drop_bit_eq)
  moreover have "\<not> bit (drop_bit 1 w) j" if "j < k" for j
    using low_one_least [of w "Suc j"] k that by (auto simp: bit_drop_bit_eq)
  ultimately have "low_one (drop_bit 1 w) = k" "drop_bit 1 w \<noteq> 0" by (auto intro: low_oneI)
  then show ?thesis using k by simp
qed

lemma pow2_loop_correct: "v \<noteq> 0 \<Longrightarrow> pow2_loop v n = Some (n + low_one v)"
proof (induction "low_one v" arbitrary: v n)
  case 0
  then have "bit v 0" using low_one_bit [of v] by simp
  then show ?case using 0 and_1_bit_0 [of v] by (simp add: pow2_loop.simps)
next
  case (Suc k)
  have n: "\<not> bit v 0" using Suc.hyps(2) low_one_least [of v 0] by auto
  note d = drop_low_one [OF Suc.prems n]
  then have "pow2_loop (drop_bit 1 v) (n + 1) = Some (n + 1 + low_one (drop_bit 1 v))"
    using Suc.hyps by (intro Suc.hyps(1)) simp_all
  then show ?case using n d and_1_bit_0 [of v] by (subst pow2_loop.simps) simp
qed

text \<open>The de Bruijn table of \<open>getFirstOneAtRightSide\<close>.\<close>

definition dbitpos :: "nat list" where
  "dbitpos = [0, 1, 28, 2, 29, 14, 24, 3, 30, 22, 20, 15, 25, 17, 4, 8,
     31, 27, 13, 23, 21, 19, 16, 7, 26, 12, 18, 6, 11, 5, 10, 9]"

definition getFirstOneAtRightSide :: "32 word \<Rightarrow> nat" where
  "getFirstOneAtRightSide m = dbitpos ! unat (drop_bit 27 ((m AND - m) * 0x077CB531))"

lemma and_uminus: "(w :: 'a::len word) \<noteq> 0 \<Longrightarrow> w AND - w = 2 ^ low_one w"
proof (rule bit_word_eqI)
  fix j assume w: "w \<noteq> 0" and j: "j < LENGTH('a)"
  have m: "bit (- w) j \<longleftrightarrow> \<not> (j < low_one w \<or> bit w j \<and> j \<noteq> low_one w)"
    unfolding minus_eq_not_minus_1 using j w by (simp add: bit_not_iff minus_1_bits)
  show "bit (w AND - w) j \<longleftrightarrow> bit (2 ^ low_one w :: 'a word) j"
    using low_one_bit [OF w] j by (auto simp: bit_and_iff m bit_exp_iff)
qed

lemma dbitpos_check:
  "list_all (\<lambda>k. dbitpos ! (2 ^ k * 0x077CB531 mod 4294967296 div 134217728) = k) [0..<32]"
  by code_simp

lemma dbitpos_index:
  "unat (drop_bit 27 ((2 ^ k :: 32 word) * 0x077CB531)) = 2 ^ k * 0x077CB531 mod 4294967296 div 134217728"
proof -
  have "(2 ^ k :: 32 word) * 0x077CB531 = of_nat (2 ^ k * 0x077CB531)" by simp
  then have "unat ((2 ^ k :: 32 word) * 0x077CB531) = 2 ^ k * 0x077CB531 mod 4294967296"
    by (simp only: unat_of_nat) simp
  then show ?thesis by (simp only: unat_drop_div) simp
qed

lemma getFirstOneAtRightSide_correct: "m \<noteq> 0 \<Longrightarrow> getFirstOneAtRightSide m = low_one m"
  using dbitpos_check low_one_less [of m]
  by (simp add: getFirstOneAtRightSide_def and_uminus list_all_iff dbitpos_index)

text \<open>\<open>v |= v >> k\<close>\<close>

definition smear :: "nat \<Rightarrow> 'a::len word \<Rightarrow> 'a word" where
  "smear k v = v OR drop_bit k v"

definition getNearestPowerOf2 :: "32 word \<Rightarrow> 32 word" where
  "getNearestPowerOf2 v = smear 16 (smear 8 (smear 4 (smear 2 (smear 1 (v - 1))))) + 1"

definition getNearestPowerOf2_64 :: "64 word \<Rightarrow> 64 word" where
  "getNearestPowerOf2_64 v = smear 32 (smear 16 (smear 8 (smear 4 (smear 2 (smear 1 (v - 1)))))) + 1"

definition window :: "nat \<Rightarrow> 'a::len word \<Rightarrow> 'a word \<Rightarrow> bool" where
  "window n v x \<longleftrightarrow> (\<forall>j. bit x j \<longleftrightarrow> (\<exists>i<n. bit v (j + i)))"

lemma window_smear: "window n v x \<Longrightarrow> window (2 * n) v (smear n x)"
proof -
  assume w: "window n v x"
  have "(\<exists>i<n. bit v (j + i)) \<or> (\<exists>i<n. bit v (n + j + i)) \<longleftrightarrow> (\<exists>i<2 * n. bit v (j + i))" for j
  proof
    assume "\<exists>i<2 * n. bit v (j + i)"
    then obtain i where i: "i < 2 * n" "bit v (j + i)" by blast
    then have "i < n \<or> (i - n < n \<and> bit v (n + j + (i - n)))" by (auto simp: not_less add.commute add.left_commute)
    then show "(\<exists>i<n. bit v (j + i)) \<or> (\<exists>i<n. bit v (n + j + i))" using i by blast
  next
    assume "(\<exists>i<n. bit v (j + i)) \<or> (\<exists>i<n. bit v (n + j + i))"
    then consider i where "i < n" "bit v (j + i)" | i where "i < n" "bit v (j + (n + i))"
      by (auto simp: ac_simps)
    then show "\<exists>i<2 * n. bit v (j + i)"
    proof cases
      case (2 i)
      then show ?thesis by (intro exI [of _ "n + i"]) simp
    next
      case (1 i)
      then show ?thesis by (intro exI [of _ i]) simp
    qed
  qed
  then show ?thesis using w by (simp add: window_def smear_def bit_or_iff bit_drop_bit_eq add.assoc)
qed

lemma window_1: "window 1 v v"
  by (simp add: window_def)

lemma window_all: "window LENGTH('a) v (x :: 'a::len word) \<Longrightarrow> x = mask (sigbits v)"
proof (rule bit_word_eqI)
  fix j assume w: "window LENGTH('a) v x" and j: "j < LENGTH('a)"
  have "(\<exists>i<LENGTH('a). bit v (j + i)) \<longleftrightarrow> j < sigbits v"
  proof
    assume "\<exists>i<LENGTH('a). bit v (j + i)"
    then show "j < sigbits v" using sigbits_bits [of v j] by (auto simp: not_le [symmetric])
  next
    assume a: "j < sigbits v"
    then have "bit v (sigbits v - 1)" by (intro sigbits_top) auto
    then show "\<exists>i<LENGTH('a). bit v (j + i)" using a sigbits_le_length [of v]
      by (intro exI [of _ "sigbits v - 1 - j"]) auto
  qed
  then show "bit x j \<longleftrightarrow> bit (mask (sigbits v) :: 'a word) j" using w j by (simp add: window_def bit_mask_iff)
qed

lemma getNearestPowerOf2_correct: "getNearestPowerOf2 v = 2 ^ sigbits (v - 1)"
proof -
  have "window 32 (v - 1) (smear 16 (smear 8 (smear 4 (smear 2 (smear 1 (v - 1))))))"
    using window_smear [OF window_smear [OF window_smear [OF window_smear [OF window_smear [OF window_1]]]]]
    by simp
  then have "smear 16 (smear 8 (smear 4 (smear 2 (smear 1 (v - 1))))) = mask (sigbits (v - 1))"
    by (intro window_all) simp
  then show ?thesis by (simp only: getNearestPowerOf2_def) (simp add: mask_eq_exp_minus_1)
qed

lemma getNearestPowerOf2_64_correct: "getNearestPowerOf2_64 v = 2 ^ sigbits (v - 1)"
proof -
  have "window 64 (v - 1) (smear 32 (smear 16 (smear 8 (smear 4 (smear 2 (smear 1 (v - 1)))))))"
    using window_smear [OF window_smear [OF window_smear [OF window_smear [OF window_smear [OF window_smear [OF window_1]]]]]]
    by simp
  then have "smear 32 (smear 16 (smear 8 (smear 4 (smear 2 (smear 1 (v - 1)))))) = mask (sigbits (v - 1))"
    by (intro window_all) simp
  then show ?thesis by (simp only: getNearestPowerOf2_64_def) (simp add: mask_eq_exp_minus_1)
qed

section \<open>The most significant bit\<close>

text \<open>\<open>if (val & mask) { val >>= k; pos += k; }\<close>\<close>

definition msb_step :: "'a::len word \<Rightarrow> nat \<Rightarrow> 'a word \<times> nat \<Rightarrow> 'a word \<times> nat" where
  "msb_step m k st = (case st of (val, pos) \<Rightarrow> if val AND m \<noteq> 0 then (drop_bit k val, pos + k) else (val, pos))"

definition findMostSignificantBit8 :: "8 word \<Rightarrow> nat" where
  "findMostSignificantBit8 val = snd (msb_step 0x02 1 (msb_step 0x0C 2 (msb_step 0xF0 4 (val, 0))))"

definition findMostSignificantBit16 :: "16 word \<Rightarrow> nat" where
  "findMostSignificantBit16 val =
     snd (msb_step 0x02 1 (msb_step 0x0C 2 (msb_step 0xF0 4 (msb_step 0xFF00 8 (val, 0)))))"

definition findMostSignificantBit32 :: "32 word \<Rightarrow> nat" where
  "findMostSignificantBit32 val =
     snd (msb_step 0x02 1 (msb_step 0x0C 2 (msb_step 0xF0 4 (msb_step 0xFF00 8
       (msb_step 0xFFFF0000 16 (val, 0))))))"

definition findMostSignificantBit64 :: "64 word \<Rightarrow> nat" where
  "findMostSignificantBit64 val =
     snd (msb_step 0x02 1 (msb_step 0x0C 2 (msb_step 0xF0 4 (msb_step 0xFF00 8
       (msb_step 0xFFFF0000 16 (msb_step 0xFFFFFFFF00000000 32 (val, 0)))))))"

text \<open>The signed overloads answer the sign bit for a negative value.\<close>

definition findMostSignificantBit_signed :: "('a::len word \<Rightarrow> nat) \<Rightarrow> 'a word \<Rightarrow> nat" where
  "findMostSignificantBit_signed umsb val = (if val <s 0 then LENGTH('a) - 1 else umsb val)"

definition msb_inv :: "nat \<Rightarrow> 'a::len word \<Rightarrow> 'a word \<times> nat \<Rightarrow> bool" where
  "msb_inv k w st \<longleftrightarrow> (case st of (val, pos) \<Rightarrow> sigbits val \<le> k \<and>
     (w \<noteq> 0 \<longrightarrow> val \<noteq> 0 \<and> sigbits w = pos + sigbits val) \<and> (w = 0 \<longrightarrow> val = 0 \<and> pos = 0))"

lemma and_high_0:
  fixes v :: "'a::len word"
  assumes "sigbits v \<le> 2 * k" "\<And>j. k \<le> j \<Longrightarrow> j < 2 * k \<Longrightarrow> j < LENGTH('a) \<Longrightarrow> bit m j"
    "\<And>j. j < k \<Longrightarrow> \<not> bit m j"
  shows "v AND m = 0 \<longleftrightarrow> sigbits v \<le> k"
proof
  assume z: "v AND m = 0"
  have "\<not> bit v j" if "k \<le> j" for j
  proof
    assume b: "bit v j"
    then have "j < 2 * k" "j < LENGTH('a)" using assms(1) sigbits_bits [of v "2 * k"] bit_imp_le_length
      by (auto simp: not_less [symmetric])
    then have "bit (v AND m) j" using b assms(2) that by (simp add: bit_and_iff)
    then show False using z by simp
  qed
  then show "sigbits v \<le> k" by (simp add: sigbits_bits)
next
  assume "sigbits v \<le> k"
  then have "\<not> bit v j" if "k \<le> j" for j using that by (simp add: sigbits_bits)
  then show "v AND m = 0" using assms(3) by (intro bit_word_eqI) (auto simp: bit_and_iff not_le [symmetric])
qed

lemma sigbits_drop: "k < sigbits v \<Longrightarrow> sigbits (drop_bit k v) = sigbits v - k"
proof -
  assume k: "k < sigbits v"
  then have v: "v \<noteq> 0" by auto
  have "sigbits (drop_bit k v) = Suc (sigbits v - 1 - k)"
  proof (rule sigbitsI)
    show "bit (drop_bit k v) (sigbits v - 1 - k)"
      using sigbits_top [OF v] k by (simp add: bit_drop_bit_eq)
    fix j assume "sigbits v - 1 - k < j"
    then have "sigbits v \<le> k + j" using k by simp
    then show "\<not> bit (drop_bit k v) j" using sigbits_bits [of v "sigbits v"] by (simp add: bit_drop_bit_eq)
  qed
  then show ?thesis using k by simp
qed

lemma msb_step_inv:
  fixes m :: "'a::len word"
  assumes "msb_inv (2 * k) w st" "\<And>j. k \<le> j \<Longrightarrow> j < 2 * k \<Longrightarrow> j < LENGTH('a) \<Longrightarrow> bit m j"
    "\<And>j. j < k \<Longrightarrow> \<not> bit m j"
  shows "msb_inv k w (msb_step m k st)"
proof -
  obtain v p where st: "st = (v, p)" by fastforce
  have v: "sigbits v \<le> 2 * k" using assms(1) st by (simp add: msb_inv_def)
  note a = and_high_0 [OF v assms(2,3)]
  show ?thesis
  proof (cases "v AND m = 0")
    case True
    then show ?thesis using a assms(1) st by (auto simp: msb_inv_def msb_step_def)
  next
    case False
    then have k: "k < sigbits v" using a by simp
    then have "drop_bit k v \<noteq> 0" using sigbits_drop [OF k] by (metis sigbits_0 zero_less_diff less_numeral_extra(3))
    then show ?thesis using assms(1) st False sigbits_drop [OF k] v k by (auto simp: msb_inv_def msb_step_def)
  qed
qed

lemma msb_inv_start: "msb_inv LENGTH('a) (w :: 'a::len word) (w, 0)"
  by (simp add: msb_inv_def sigbits_le_length)

lemma msb_inv_end: "msb_inv 1 w st \<Longrightarrow> snd st = sigbits w - 1"
  by (cases "w = 0") (auto simp: msb_inv_def le_Suc_eq sigbits_0_iff split: prod.splits)

text \<open>Which bits the masks have, checked on all positions.\<close>

lemma mask_bits:
  assumes "list_all (\<lambda>j. bit (m :: 'a::len word) j \<longleftrightarrow> k \<le> j \<and> j < 2 * k) [0..<LENGTH('a)]"
  shows "k \<le> j \<Longrightarrow> j < 2 * k \<Longrightarrow> j < LENGTH('a) \<Longrightarrow> bit m j" and "j < k \<Longrightarrow> \<not> bit m j"
  using assms bit_imp_le_length [of m j] by (auto simp: list_all_iff)

lemma msb_masks_8:
  "list_all (\<lambda>j. bit (0xF0 :: 8 word) j \<longleftrightarrow> 4 \<le> j \<and> j < 2 * 4) [0..<LENGTH(8)]"
  "list_all (\<lambda>j. bit (0x0C :: 8 word) j \<longleftrightarrow> 2 \<le> j \<and> j < 2 * 2) [0..<LENGTH(8)]"
  "list_all (\<lambda>j. bit (0x02 :: 8 word) j \<longleftrightarrow> 1 \<le> j \<and> j < 2 * 1) [0..<LENGTH(8)]"
  by (simp_all add: upt_rec)

lemma msb_masks_16:
  "list_all (\<lambda>j. bit (0xFF00 :: 16 word) j \<longleftrightarrow> 8 \<le> j \<and> j < 2 * 8) [0..<LENGTH(16)]"
  "list_all (\<lambda>j. bit (0xF0 :: 16 word) j \<longleftrightarrow> 4 \<le> j \<and> j < 2 * 4) [0..<LENGTH(16)]"
  "list_all (\<lambda>j. bit (0x0C :: 16 word) j \<longleftrightarrow> 2 \<le> j \<and> j < 2 * 2) [0..<LENGTH(16)]"
  "list_all (\<lambda>j. bit (0x02 :: 16 word) j \<longleftrightarrow> 1 \<le> j \<and> j < 2 * 1) [0..<LENGTH(16)]"
  by (simp_all add: upt_rec)

lemma msb_masks_32:
  "list_all (\<lambda>j. bit (0xFFFF0000 :: 32 word) j \<longleftrightarrow> 16 \<le> j \<and> j < 2 * 16) [0..<LENGTH(32)]"
  "list_all (\<lambda>j. bit (0xFF00 :: 32 word) j \<longleftrightarrow> 8 \<le> j \<and> j < 2 * 8) [0..<LENGTH(32)]"
  "list_all (\<lambda>j. bit (0xF0 :: 32 word) j \<longleftrightarrow> 4 \<le> j \<and> j < 2 * 4) [0..<LENGTH(32)]"
  "list_all (\<lambda>j. bit (0x0C :: 32 word) j \<longleftrightarrow> 2 \<le> j \<and> j < 2 * 2) [0..<LENGTH(32)]"
  "list_all (\<lambda>j. bit (0x02 :: 32 word) j \<longleftrightarrow> 1 \<le> j \<and> j < 2 * 1) [0..<LENGTH(32)]"
  by (simp_all add: upt_rec)

lemma msb_masks_64:
  "list_all (\<lambda>j. bit (0xFFFFFFFF00000000 :: 64 word) j \<longleftrightarrow> 32 \<le> j \<and> j < 2 * 32) [0..<LENGTH(64)]"
  "list_all (\<lambda>j. bit (0xFFFF0000 :: 64 word) j \<longleftrightarrow> 16 \<le> j \<and> j < 2 * 16) [0..<LENGTH(64)]"
  "list_all (\<lambda>j. bit (0xFF00 :: 64 word) j \<longleftrightarrow> 8 \<le> j \<and> j < 2 * 8) [0..<LENGTH(64)]"
  "list_all (\<lambda>j. bit (0xF0 :: 64 word) j \<longleftrightarrow> 4 \<le> j \<and> j < 2 * 4) [0..<LENGTH(64)]"
  "list_all (\<lambda>j. bit (0x0C :: 64 word) j \<longleftrightarrow> 2 \<le> j \<and> j < 2 * 2) [0..<LENGTH(64)]"
  "list_all (\<lambda>j. bit (0x02 :: 64 word) j \<longleftrightarrow> 1 \<le> j \<and> j < 2 * 1) [0..<LENGTH(64)]"
  by (simp_all add: upt_rec)

lemma findMostSignificantBit8_correct: "findMostSignificantBit8 w = sigbits w - 1"
proof -
  have i0: "msb_inv 8 w (w, 0)" using msb_inv_start [of w] by simp
  have i1: "msb_inv 4 w (msb_step 0xF0 4 (w, 0))"
    by (rule msb_step_inv [OF _ mask_bits [OF msb_masks_8(1)]]) (use i0 in simp_all)
  have i2: "msb_inv 2 w (msb_step 0x0C 2 (msb_step 0xF0 4 (w, 0)))"
    by (rule msb_step_inv [OF _ mask_bits [OF msb_masks_8(2)]]) (use i1 in simp_all)
  have i3: "msb_inv 1 w (msb_step 0x02 1 (msb_step 0x0C 2 (msb_step 0xF0 4 (w, 0))))"
    by (rule msb_step_inv [OF _ mask_bits [OF msb_masks_8(3)]]) (use i2 in simp_all)
  show ?thesis using msb_inv_end [OF i3] by (simp add: findMostSignificantBit8_def)
qed

lemma findMostSignificantBit16_correct: "findMostSignificantBit16 w = sigbits w - 1"
proof -
  have i0: "msb_inv 16 w (w, 0)" using msb_inv_start [of w] by simp
  have i1: "msb_inv 8 w (msb_step 0xFF00 8 (w, 0))"
    by (rule msb_step_inv [OF _ mask_bits [OF msb_masks_16(1)]]) (use i0 in simp_all)
  have i2: "msb_inv 4 w (msb_step 0xF0 4 (msb_step 0xFF00 8 (w, 0)))"
    by (rule msb_step_inv [OF _ mask_bits [OF msb_masks_16(2)]]) (use i1 in simp_all)
  have i3: "msb_inv 2 w (msb_step 0x0C 2 (msb_step 0xF0 4 (msb_step 0xFF00 8 (w, 0))))"
    by (rule msb_step_inv [OF _ mask_bits [OF msb_masks_16(3)]]) (use i2 in simp_all)
  have i4: "msb_inv 1 w (msb_step 0x02 1 (msb_step 0x0C 2 (msb_step 0xF0 4 (msb_step 0xFF00 8 (w, 0)))))"
    by (rule msb_step_inv [OF _ mask_bits [OF msb_masks_16(4)]]) (use i3 in simp_all)
  show ?thesis using msb_inv_end [OF i4] by (simp add: findMostSignificantBit16_def)
qed

lemma findMostSignificantBit32_correct: "findMostSignificantBit32 w = sigbits w - 1"
proof -
  have i0: "msb_inv 32 w (w, 0)" using msb_inv_start [of w] by simp
  have i1: "msb_inv 16 w (msb_step 0xFFFF0000 16 (w, 0))"
    by (rule msb_step_inv [OF _ mask_bits [OF msb_masks_32(1)]]) (use i0 in simp_all)
  have i2: "msb_inv 8 w (msb_step 0xFF00 8 (msb_step 0xFFFF0000 16 (w, 0)))"
    by (rule msb_step_inv [OF _ mask_bits [OF msb_masks_32(2)]]) (use i1 in simp_all)
  have i3: "msb_inv 4 w (msb_step 0xF0 4 (msb_step 0xFF00 8 (msb_step 0xFFFF0000 16 (w, 0))))"
    by (rule msb_step_inv [OF _ mask_bits [OF msb_masks_32(3)]]) (use i2 in simp_all)
  have i4: "msb_inv 2 w (msb_step 0x0C 2 (msb_step 0xF0 4 (msb_step 0xFF00 8 (msb_step 0xFFFF0000 16 (w, 0)))))"
    by (rule msb_step_inv [OF _ mask_bits [OF msb_masks_32(4)]]) (use i3 in simp_all)
  have i5: "msb_inv 1 w (msb_step 0x02 1 (msb_step 0x0C 2 (msb_step 0xF0 4 (msb_step 0xFF00 8 (msb_step 0xFFFF0000 16 (w, 0))))))"
    by (rule msb_step_inv [OF _ mask_bits [OF msb_masks_32(5)]]) (use i4 in simp_all)
  show ?thesis using msb_inv_end [OF i5] by (simp add: findMostSignificantBit32_def)
qed

lemma findMostSignificantBit64_correct: "findMostSignificantBit64 w = sigbits w - 1"
proof -
  have i0: "msb_inv 64 w (w, 0)" using msb_inv_start [of w] by simp
  have i1: "msb_inv 32 w (msb_step 0xFFFFFFFF00000000 32 (w, 0))"
    by (rule msb_step_inv [OF _ mask_bits [OF msb_masks_64(1)]]) (use i0 in simp_all)
  have i2: "msb_inv 16 w (msb_step 0xFFFF0000 16 (msb_step 0xFFFFFFFF00000000 32 (w, 0)))"
    by (rule msb_step_inv [OF _ mask_bits [OF msb_masks_64(2)]]) (use i1 in simp_all)
  have i3: "msb_inv 8 w (msb_step 0xFF00 8 (msb_step 0xFFFF0000 16 (msb_step 0xFFFFFFFF00000000 32 (w, 0))))"
    by (rule msb_step_inv [OF _ mask_bits [OF msb_masks_64(3)]]) (use i2 in simp_all)
  have i4: "msb_inv 4 w (msb_step 0xF0 4 (msb_step 0xFF00 8 (msb_step 0xFFFF0000 16 (msb_step 0xFFFFFFFF00000000 32 (w, 0)))))"
    by (rule msb_step_inv [OF _ mask_bits [OF msb_masks_64(4)]]) (use i3 in simp_all)
  have i5: "msb_inv 2 w (msb_step 0x0C 2 (msb_step 0xF0 4 (msb_step 0xFF00 8 (msb_step 0xFFFF0000 16 (msb_step 0xFFFFFFFF00000000 32 (w, 0))))))"
    by (rule msb_step_inv [OF _ mask_bits [OF msb_masks_64(5)]]) (use i4 in simp_all)
  have i6: "msb_inv 1 w (msb_step 0x02 1 (msb_step 0x0C 2 (msb_step 0xF0 4 (msb_step 0xFF00 8 (msb_step 0xFFFF0000 16 (msb_step 0xFFFFFFFF00000000 32 (w, 0)))))))"
    by (rule msb_step_inv [OF _ mask_bits [OF msb_masks_64(6)]]) (use i5 in simp_all)
  show ?thesis using msb_inv_end [OF i6] by (simp add: findMostSignificantBit64_def)
qed

lemma findMostSignificantBit_signed_correct:
  assumes "\<And>w. umsb w = sigbits w - 1"
  shows "findMostSignificantBit_signed umsb (w :: 'a::len word) = sigbits w - 1"
proof (cases "w <s 0")
  case True
  then have "bit w (LENGTH('a) - 1)" by (simp add: word_sless_alt bit_last_iff)
  then have "sigbits w = Suc (LENGTH('a) - 1)"
    by (intro sigbitsI) (auto dest: bit_imp_le_length)
  with True show ?thesis by (simp add: findMostSignificantBit_signed_def)
qed (simp add: findMostSignificantBit_signed_def assms)

section \<open>The width of a value\<close>

definition computeUnsignedMaxValue :: "nat \<Rightarrow> 64 word" where
  "computeUnsignedMaxValue bitwidth = drop_bit (64 - bitwidth) (NOT 0)"

text \<open>The width is halved while the value is below the largest of the halved width.\<close>

function halve_width :: "64 word \<Rightarrow> nat \<Rightarrow> nat" where
  "halve_width val bitwidth =
     (if val < computeUnsignedMaxValue (bitwidth div 2) then halve_width val (bitwidth div 2) else bitwidth)"
  by pat_completeness auto
termination
proof (relation "measure snd")
  fix val :: "64 word" and bitwidth
  assume a: "val < computeUnsignedMaxValue (bitwidth div 2)"
  have "bitwidth \<noteq> 0"
  proof
    assume "bitwidth = 0"
    then have "computeUnsignedMaxValue (bitwidth div 2) = 0"
      by (intro bit_word_eqI) (simp add: computeUnsignedMaxValue_def bit_drop_bit_eq)
    with a show False by simp
  qed
  then show "((val, bitwidth div 2), val, bitwidth) \<in> measure snd" by simp
qed simp

declare halve_width.simps [simp del]

fun top_one :: "64 word \<Rightarrow> nat \<Rightarrow> nat" where
  "top_one val 0 = 0"
| "top_one val (Suc i) = (if val AND push_bit i 1 = push_bit i 1 then i + 1 else top_one val i)"

definition computeMaxBitSizeForValue :: "64 word \<Rightarrow> nat" where
  "computeMaxBitSizeForValue val = (if val = 0 then 1 else top_one val (halve_width val 64))"

lemma computeUnsignedMaxValue_mask: "bw \<le> 64 \<Longrightarrow> computeUnsignedMaxValue bw = mask bw"
  by (rule bit_word_eqI) (auto simp: computeUnsignedMaxValue_def bit_drop_bit_eq bit_not_iff bit_mask_iff)

lemma sigbits_less_mask: "(v :: 'a::len word) < mask k \<Longrightarrow> sigbits v \<le> k"
proof -
  assume "v < mask k"
  then have "unat v < unat (of_nat (mask k) :: 'a word)" by (simp add: word_less_nat_alt of_nat_mask_eq)
  also have "\<dots> \<le> mask k" by (simp only: unat_of_nat mod_less_eq_dividend)
  also have "\<dots> < 2 ^ k" by simp
  finally show ?thesis by (simp add: sigbits_le_iff)
qed

lemma halve_width_correct: "sigbits v \<le> bw \<Longrightarrow> bw \<le> 64 \<Longrightarrow> sigbits v \<le> halve_width v bw \<and> halve_width v bw \<le> 64"
proof (induction v bw rule: halve_width.induct)
  case (1 v bw)
  show ?case
  proof (cases "v < computeUnsignedMaxValue (bw div 2)")
    case True
    then have "sigbits v \<le> bw div 2" using computeUnsignedMaxValue_mask [of "bw div 2"] 1(3) sigbits_less_mask by simp
    then show ?thesis using 1(1) [OF True] 1(3) True by (subst halve_width.simps, subst halve_width.simps) simp
  next
    case False
    then show ?thesis using 1(2,3) by (subst (1 2) halve_width.simps) simp
  qed
qed

lemma top_one_correct: "sigbits v \<le> n \<Longrightarrow> n \<le> 64 \<Longrightarrow> top_one v n = sigbits v"
proof (induction n)
  case (Suc n)
  have a: "v AND 2 ^ n = 2 ^ n \<longleftrightarrow> bit v n"
    using one_bit_and [of n v] Suc.prems(2) by (auto simp: and.commute)
  show ?case
  proof (cases "bit v n")
    case True
    then have "sigbits v = Suc n" using Suc.prems(1) sigbits_bits by (metis le_antisym not_less_eq_eq)
    then show ?thesis using a True by simp
  next
    case False
    then have "sigbits v \<le> n" using Suc.prems(1) sigbits_bits by (metis Suc_leI nless_le)
    then show ?thesis using a False Suc by simp
  qed
qed simp

lemma computeMaxBitSizeForValue_correct: "computeMaxBitSizeForValue v = max 1 (sigbits v)"
  using halve_width_correct [of v 64] top_one_correct [of v "halve_width v 64"] sigbits_le_length [of v] sigbits_0_iff [of v]
  by (auto simp: computeMaxBitSizeForValue_def max_def)

text \<open>\<open>countTrailingFFBytes\<close>: how many low bytes are all ones, zero unless nothing else is set.\<close>

function ff_loop :: "64 word \<Rightarrow> nat \<Rightarrow> nat" where
  "ff_loop v n = (if v = 0 then n else if v AND 0xFF \<noteq> 0xFF then 0 else ff_loop (drop_bit 8 v) (n + 1))"
  by pat_completeness auto
termination
proof (relation "measure (\<lambda>(v, n). unat v)")
  fix v :: "64 word" and n :: nat
  assume "v \<noteq> 0"
  then have "0 < unat v" by (simp add: unat_gt_0)
  then show "((drop_bit 8 v, n + 1), v, n) \<in> measure (\<lambda>(v, n). unat v)" by (simp add: unat_drop_div)
qed simp

declare ff_loop.simps [simp del]

definition countTrailingFFBytes :: "64 word \<Rightarrow> nat" where
  "countTrailingFFBytes v = (if v = NOT 0 then 8 else ff_loop v 0)"

lemma mask8: "v AND 0xFF = 0xFF \<longleftrightarrow> (\<forall>j<8. bit (v :: 64 word) j)"
proof -
  have m: "(0xFF :: 64 word) = mask 8" by (simp add: mask_eq_exp_minus_1)
  show ?thesis
  proof
    assume e: "v AND 0xFF = 0xFF"
    show "\<forall>j<8. bit v j"
    proof (intro allI impI)
      fix j :: nat assume "j < 8"
      moreover have "bit (v AND mask 8) j \<longleftrightarrow> bit (mask 8 :: 64 word) j" using e m by metis
      ultimately show "bit v j" by (simp add: bit_and_iff bit_mask_iff)
    qed
  next
    assume "\<forall>j<8. bit v j"
    then show "v AND 0xFF = 0xFF" unfolding m by (intro bit_word_eqI) (auto simp: bit_and_iff bit_mask_iff)
  qed
qed

lemma drop_mask8: "k < 8 \<Longrightarrow> drop_bit 8 (mask (8 * Suc k) :: 64 word) = mask (8 * k)"
  by (rule bit_word_eqI) (auto simp: bit_drop_bit_eq bit_mask_iff)

lemma ff_loop_mask: "k \<le> 8 \<Longrightarrow> ff_loop (mask (8 * k)) n = n + k"
proof (induction k arbitrary: n)
  case (Suc k)
  have "(mask (8 * Suc k) :: 64 word) \<noteq> 0" by (auto simp: bit_eq_iff bit_mask_iff intro!: exI [of _ 0])
  moreover have "(mask (8 * Suc k) :: 64 word) AND 0xFF = 0xFF" by (simp add: mask8 bit_mask_iff)
  ultimately show ?case using Suc drop_mask8 [of k] by (subst ff_loop.simps) simp
qed (simp add: ff_loop.simps)

lemma ff_loop_other: "(\<And>k. k \<le> 8 \<Longrightarrow> v \<noteq> mask (8 * k)) \<Longrightarrow> ff_loop v n = 0"
proof (induction v n rule: ff_loop.induct)
  case (1 v n)
  have v: "v \<noteq> 0" using 1(2) [of 0] by simp
  show ?case
  proof (cases "v AND 0xFF = 0xFF")
    case True
    have "drop_bit 8 v \<noteq> mask (8 * k)" if k: "k \<le> 8" for k
    proof
      assume e: "drop_bit 8 v = mask (8 * k)"
      have b: "bit v j \<longleftrightarrow> j < 8 * Suc k" if j: "j < 64" for j
      proof (cases "j < 8")
        case True
        then show ?thesis using \<open>v AND 0xFF = 0xFF\<close> by (simp add: mask8)
      next
        case False
        have "bit v j = bit (drop_bit 8 v) (j - 8)" using False by (simp add: bit_drop_bit_eq)
        then show ?thesis unfolding e using False j by (auto simp: bit_mask_iff)
      qed
      then have "v = mask (8 * min 8 (Suc k))" by (intro bit_word_eqI) (auto simp: bit_mask_iff min_def)
      with 1(2) [of "min 8 (Suc k)"] show False by simp
    qed
    with 1(1) v True show ?thesis by (subst ff_loop.simps) simp
  qed (use v in \<open>simp add: ff_loop.simps\<close>)
qed

lemma all_ones_mask: "(NOT 0 :: 64 word) = mask (8 * 8)"
  by (intro bit_word_eqI) (simp add: bit_mask_iff bit_not_iff)

lemma countTrailingFFBytes_mask: "k \<le> 8 \<Longrightarrow> countTrailingFFBytes (mask (8 * k)) = k"
proof (cases "k = 8")
  case True
  then show ?thesis unfolding countTrailingFFBytes_def all_ones_mask by simp
next
  case False
  assume k: "k \<le> 8"
  have "bit (mask (8 * 8) :: 64 word) 63" "\<not> bit (mask (8 * k) :: 64 word) 63" using False k by (auto simp: bit_mask_iff)
  then have "mask (8 * k) \<noteq> (mask (8 * 8) :: 64 word)" by metis
  then show ?thesis unfolding countTrailingFFBytes_def all_ones_mask using ff_loop_mask [OF k, of 0] by simp
qed

lemma countTrailingFFBytes_other: "(\<And>k. k \<le> 8 \<Longrightarrow> v \<noteq> mask (8 * k)) \<Longrightarrow> countTrailingFFBytes v = 0"
proof -
  assume n: "\<And>k. k \<le> 8 \<Longrightarrow> v \<noteq> mask (8 * k)"
  then have "v \<noteq> NOT 0" using n [of 8] unfolding all_ones_mask by simp
  then show ?thesis using ff_loop_other [OF n, of 0] by (simp add: countTrailingFFBytes_def)
qed

section \<open>Properties\<close>

lemma pow2_loop_0: "pow2_loop 0 n = None"
proof -
  have "v \<noteq> 0" if "pow2_loop v n = Some r" for v r
    by (rule pow2_loop.raw_induct [OF _ that, of "\<lambda>v n r. v \<noteq> 0"]) (clarsimp split: if_splits, blast)
  then show ?thesis by (metis not_Some_eq)
qed

lemma get_elem_count_8:
  assumes "length p = 8"
  shows "get_elem_count p 8 = g_bit_count ! unat (p ! 0) + g_bit_count ! unat (p ! 1) +
     g_bit_count ! unat (p ! 2) + g_bit_count ! unat (p ! 3) +
     g_bit_count ! unat (p ! 4) + g_bit_count ! unat (p ! 5) +
     g_bit_count ! unat (p ! 6) + g_bit_count ! unat (p ! 7)"
proof -
  let ?g = "\<lambda>i. g_bit_count ! unat (p ! i)"
  have le: "g_bit_count ! unat (w :: byte) \<le> 8" for w
    unfolding bit_count_card by (rule order_trans [OF card_mono [of "{..<8}"]]) (auto dest: bit_byte_less)
  have "elem_count_from p 8 i c = c + (\<Sum>k=i..<8. ?g k)" if "c \<le> 8 * i" for i c
    using that
  proof (induction "8 - i" arbitrary: i c)
    case 0
    then show ?case by (simp add: elem_count_from.simps [of p 8 i])
  next
    case (Suc n)
    then have i: "i < 8" and "c + ?g i \<le> 8 * Suc i" using le [of "p ! i"] by simp_all
    then have "elem_count_from p 8 (Suc i) (c + ?g i) = c + ?g i + (\<Sum>k=Suc i..<8. ?g k)"
      using Suc by (intro Suc.hyps(1)) simp_all
    moreover have "u32 (c + ?g i) = c + ?g i" using le [of "p ! i"] Suc.prems i by simp
    ultimately show ?case using i by (simp add: elem_count_from.simps [of p 8 i] sum.atLeast_Suc_lessThan)
  qed
  from this [of 0 0] show ?thesis by (simp add: get_elem_count_def eval_nat_numeral)
qed

text \<open>
  The scans from the top and the binary searches for the most significant bit agree: counting
  leading zeros, finding the most significant bit and computing the width of a value are one
  number, the number of significant bits, and leading ones are leading zeros of the complement.
\<close>

theorem leading_bits:
  "countLeadingZero64 a = 64 - sigbits a \<and> countLeadingZero (b :: 32 word) = 32 - sigbits b \<and>
   countLeadingZero (c :: 16 word) = 16 - sigbits c \<and> countLeadingZero (d :: 8 word) = 8 - sigbits d \<and>
   countLeadingOne64 a = countLeadingZero64 (NOT a) \<and> countLeadingOne b = countLeadingZero (NOT b) \<and>
   findMostSignificantBit64 a = sigbits a - 1 \<and> findMostSignificantBit32 b = sigbits b - 1 \<and>
   findMostSignificantBit16 c = sigbits c - 1 \<and> findMostSignificantBit8 d = sigbits d - 1 \<and>
   findMostSignificantBit_signed findMostSignificantBit64 a = sigbits a - 1 \<and>
   computeMaxBitSizeForValue a = max 1 (sigbits a)"
  using findMostSignificantBit_signed_correct [of findMostSignificantBit64 a]
  by (simp add: countLeadingZero64_correct countLeadingZero_correct countLeadingOne64_correct
      countLeadingOne_correct findMostSignificantBit64_correct findMostSignificantBit32_correct
      findMostSignificantBit16_correct findMostSignificantBit8_correct computeMaxBitSizeForValue_correct)

text \<open>
  Kernighan's loop and the byte-table lookups all count the one bits, at every width.
\<close>

theorem popcounts_agree:
  "getSparsePopCount a = card {j. bit a j} \<and> getLookupPopCount a = card {j. bit a j} \<and>
   countOne a = card {j. bit a j} \<and> countOne (b :: 32 word) = card {j. bit b j} \<and>
   countOne (c :: 16 word) = card {j. bit c j} \<and> countOne (d :: 8 word) = card {j. bit d j}"
proof -
  have "getLookupPopCount a = countOne a"
    using get_elem_count_8 [of "le_bytes a"] by (simp add: getLookupPopCount_def countOne_def le_bytes_def Let_def)
  then show ?thesis
    by (simp add: getSparsePopCount_def popcount_loop_correct countOne_correct)
qed

text \<open>
  The position of the lowest one: the bit-by-bit loop, the shift loop of \<open>getPowerOf2\<close> and the de
  Bruijn multiplication find the same position; for zero the first answers the width and the shift
  loop does not end.
\<close>

theorem trailing_bits:
  assumes "v \<noteq> 0" and "m \<noteq> 0"
  shows "countTrailingZero v = low_one v \<and> getPowerOf2 v = Some (countTrailingZero v) \<and>
    getFirstOneAtRightSide m = countTrailingZero m \<and>
    countTrailingZero (0 :: 64 word) = 64 \<and> getPowerOf2 0 = None"
  using assms by (simp add: countTrailingZero_correct getPowerOf2_def pow2_loop_correct
      getFirstOneAtRightSide_correct pow2_loop_0)

lemma trailing_bits_witness:
  "getPowerOf2 96 = Some (countTrailingZero (96 :: 64 word)) \<and> getFirstOneAtRightSide 96 = countTrailingZero (96 :: 32 word)"
  using trailing_bits [of 96 96] by simp

text \<open>
  For a value up to the largest power of two of its width, \<open>getNearestPowerOf2\<close> is the least
  power of two that is not below it; beyond that it wraps to zero.
\<close>

theorem nearest_power_of_two:
  assumes "v \<noteq> 0"
  shows "(unat v \<le> 2 ^ 31 \<longrightarrow> (\<exists>k<32. getNearestPowerOf2 v = 2 ^ k \<and> unat v \<le> 2 ^ k \<and>
      (\<forall>j. unat v \<le> 2 ^ j \<longrightarrow> k \<le> j))) \<and>
    (2 ^ 31 < unat v \<longrightarrow> getNearestPowerOf2 v = 0)"
proof -
  have u: "unat (v - 1) = unat v - 1" "0 < unat v" using assms by (simp_all add: unat_minus_one unat_gt_0)
  have le: "sigbits (v - 1) \<le> j \<longleftrightarrow> unat v \<le> 2 ^ j" for j
    using u by (simp add: sigbits_le_iff less_diff_conv2 [symmetric]) linarith
  have l: "sigbits (v - 1) \<le> 32" using sigbits_le_length [of "v - 1"] by simp
  show ?thesis
  proof (intro conjI impI)
    assume a: "unat v \<le> 2 ^ 31"
    then have "sigbits (v - 1) < 32" using le [of 31] by simp
    then show "\<exists>k<32. getNearestPowerOf2 v = 2 ^ k \<and> unat v \<le> 2 ^ k \<and> (\<forall>j. unat v \<le> 2 ^ j \<longrightarrow> k \<le> j)"
      using le by (intro exI [of _ "sigbits (v - 1)"]) (auto simp: getNearestPowerOf2_correct)
  next
    assume "2 ^ 31 < unat v"
    then have "\<not> sigbits (v - 1) \<le> 31" using le [of 31] by simp
    then have "sigbits (v - 1) = 32" using l by simp
    then show "getNearestPowerOf2 v = 0" by (simp add: getNearestPowerOf2_correct)
  qed
qed

lemma nearest_power_of_two_witness: "\<exists>k. getNearestPowerOf2 60 = 2 ^ k \<and> (60 :: nat) \<le> 2 ^ k"
  using nearest_power_of_two [of 60] by auto

end
