(* ===== verification/BitField.thy ===== *)
theory BitField
  imports BitCount
begin

text \<open>
  Bit fields of machine words: the extraction, insertion and sign-extension functions of
  \<^verbatim>\<open>src/com/comf.h\<close> and \<^verbatim>\<open>src/com/comf.cpp\<close>, the width predicates, and the splitting of a
  value into groups. Shift amounts are within the width under the assertions of the code; where the
  code can reach a shift by the whole width the model answers \<open>None\<close>.
\<close>

section \<open>Extraction and insertion\<close>

definition extractBitRangeValue :: "'a::len word \<Rightarrow> nat \<Rightarrow> nat \<Rightarrow> 'a word" where
  "extractBitRangeValue val start stop =
     (let lastbit = LENGTH('a) - 1; size' = stop - start;
          val = push_bit (lastbit - stop) val
      in drop_bit (lastbit - size') val)"

definition extractValidValueViaBitWidth :: "64 word \<Rightarrow> nat \<Rightarrow> 64 word" where
  "extractValidValueViaBitWidth val bitwidth = val AND computeUnsignedMaxValue bitwidth"

definition insertBitRangeValue :: "'a::len word \<Rightarrow> 'a word \<Rightarrow> nat \<Rightarrow> nat \<Rightarrow> nat \<Rightarrow> nat \<Rightarrow> 'a word" where
  "insertBitRangeValue out inn out_start out_end in_start in_end =
     (let inn = extractBitRangeValue inn in_start in_end in out OR push_bit out_start inn)"

definition getNBitValueAtMBitOffset :: "64 word \<Rightarrow> nat \<Rightarrow> nat \<Rightarrow> 64 word" where
  "getNBitValueAtMBitOffset val nbitnum mbitoffset =
     (let m = (if nbitnum = 64 then - 1 else push_bit nbitnum 1 - 1) in drop_bit mbitoffset val AND m)"

definition setNBitValueAtMBitOffset :: "64 word \<Rightarrow> nat \<Rightarrow> nat \<Rightarrow> 64 word \<Rightarrow> 64 word" where
  "setNBitValueAtMBitOffset orgval nbitnum mbitoffset bitval =
     (let m = push_bit mbitoffset (computeUnsignedMaxValue nbitnum)
      in (orgval AND NOT m) OR (- bitval AND m))"

definition getSignBitOfNBitNum :: "32 word \<Rightarrow> nat \<Rightarrow> 32 word" where
  "getSignBitOfNBitNum val bit_num = drop_bit (bit_num - 1) (val AND push_bit (bit_num - 1) 1)"

definition get32BitValueHighNBit :: "32 word \<Rightarrow> nat \<Rightarrow> 32 word" where
  "get32BitValueHighNBit val bitnum = (let shift = 32 - bitnum in drop_bit shift val)"

definition get32BitValueLowNBit :: "32 word \<Rightarrow> nat \<Rightarrow> 32 word" where
  "get32BitValueLowNBit val bitnum = (let shift = 32 - bitnum in drop_bit shift (push_bit shift val))"

definition get32BitValueLowNBit_signed :: "32 word \<Rightarrow> nat \<Rightarrow> 32 word" where
  "get32BitValueLowNBit_signed val bitnum =
     (let mask_0 = push_bit bitnum 1 - 1; mask_1 = push_bit (bitnum - 1) (1 :: 64 word)
      in ucast (((scast val AND mask_0) XOR mask_1) - mask_1))"

definition get64BitValueHighNBit :: "64 word \<Rightarrow> nat \<Rightarrow> 64 word" where
  "get64BitValueHighNBit val bitnum = (let shift = 64 - bitnum in drop_bit shift val)"

definition get64BitValueLowNBit :: "64 word \<Rightarrow> nat \<Rightarrow> 64 word" where
  "get64BitValueLowNBit val bitnum = (let shift = 64 - bitnum in drop_bit shift (push_bit shift val))"

definition get64BitValueLowNBit_signed :: "64 word \<Rightarrow> nat \<Rightarrow> 64 word" where
  "get64BitValueLowNBit_signed val bitnum =
     (let mask_0 = push_bit bitnum 1 - 1; mask_1 = push_bit (bitnum - 1) 1
      in ((val AND mask_0) XOR mask_1) - mask_1)"

definition get64BitValueBits :: "64 word \<Rightarrow> nat \<Rightarrow> nat \<Rightarrow> 64 word" where
  "get64BitValueBits val start len = (if len = 0 then 0 else drop_bit start val AND (push_bit len 1 - 1))"

text \<open>\<open>INT64(val << (64 - n)) >> (64 - n)\<close>, the second shift arithmetic.\<close>

definition extendSign64 :: "64 word \<Rightarrow> nat \<Rightarrow> 64 word" where
  "extendSign64 val n = (if n = 0 then 0 else signed_drop_bit (64 - n) (push_bit (64 - n) val))"

definition getLowBitMask :: "nat \<Rightarrow> 64 word" where
  "getLowBitMask bit_width =
     (if bit_width = 0 then 0 else if bit_width = 64 then NOT 0 else push_bit bit_width 1 - 1)"

lemma exp_minus_1_mask: "2 ^ n - (1 :: 'a::len word) = mask n"
  by (simp add: mask_eq_exp_minus_1)

lemma bit_computeUnsignedMaxValue: "bw \<le> 64 \<Longrightarrow> bit (computeUnsignedMaxValue bw) j \<longleftrightarrow> j < bw"
  by (auto simp: computeUnsignedMaxValue_mask bit_mask_iff)

lemma bit_minus_1 [simp]: "bit (- 1 :: 'a::len word) j \<longleftrightarrow> j < LENGTH('a)"
  by (simp add: bit_minus_1_iff)

lemmas bit_ops = bit_and_iff bit_or_iff bit_xor_iff bit_not_iff bit_drop_bit_eq bit_push_bit_iff bit_mask_iff

lemma bit_extractBitRangeValue:
  assumes "start \<le> stop" "stop < LENGTH('a)"
  shows "bit (extractBitRangeValue (val :: 'a::len word) start stop) j \<longleftrightarrow> j \<le> stop - start \<and> bit val (start + j)"
  using assms bit_imp_le_length [of val]
  by (auto simp: extractBitRangeValue_def bit_ops algebra_simps)

lemma bit_getNBitValueAtMBitOffset:
  assumes "m + n \<le> 64"
  shows "bit (getNBitValueAtMBitOffset val n m) j \<longleftrightarrow> j < n \<and> bit val (m + j)"
  using assms by (auto simp: getNBitValueAtMBitOffset_def Let_def exp_minus_1_mask bit_ops)

lemma bit_setNBitValueAtMBitOffset:
  assumes "m + n \<le> 64" "b = 0 \<or> b = 1"
  shows "bit (setNBitValueAtMBitOffset org n m b) j \<longleftrightarrow> (if m \<le> j \<and> j < m + n then b = 1 else bit org j)"
  using assms bit_imp_le_length [of org j]
  by (auto simp: setNBitValueAtMBitOffset_def Let_def bit_ops bit_computeUnsignedMaxValue)

lemma bit_insertBitRangeValue:
  assumes "in_start \<le> in_end" "in_end < LENGTH('a)" "out_start + (in_end - in_start) < LENGTH('a)"
  shows "bit (insertBitRangeValue out (inn :: 'a::len word) out_start out_end in_start in_end) j \<longleftrightarrow>
    bit out j \<or> out_start \<le> j \<and> j \<le> out_start + (in_end - in_start) \<and> bit inn (in_start + (j - out_start))"
  using assms by (auto simp: insertBitRangeValue_def Let_def bit_ops bit_extractBitRangeValue)

lemma get64BitValueLowNBit_take: "1 \<le> n \<Longrightarrow> n \<le> 64 \<Longrightarrow> get64BitValueLowNBit val n = take_bit n val"
  by (rule bit_word_eqI) (auto simp: get64BitValueLowNBit_def Let_def bit_ops bit_take_bit_iff)

lemma getLowBitMask_mask: "n \<le> 64 \<Longrightarrow> getLowBitMask n = mask n"
proof -
  have "(NOT 0 :: 64 word) = mask 64" by (rule bit_word_eqI) (simp add: bit_mask_iff bit_not_iff)
  then show ?thesis by (auto simp: getLowBitMask_def exp_minus_1_mask)
qed

section \<open>Sign extension\<close>

lemma xor_sub_signed:
  "(take_bit (Suc m) v XOR 2 ^ m) - 2 ^ m = (signed_take_bit m v :: 'a::len word)" if "m < LENGTH('a)"
proof (cases "bit v m")
  case True
  have "take_bit (Suc m) v XOR 2 ^ m = take_bit m v"
    using True by (intro bit_word_eqI) (auto simp: bit_xor_iff bit_take_bit_iff bit_exp_iff less_Suc_eq)
  moreover have "signed_take_bit m v = take_bit m v OR NOT (mask m)"
    using True by (intro bit_word_eqI) (auto simp: bit_signed_take_bit_iff bit_ops bit_take_bit_iff min_def not_less)
  moreover have "take_bit m v AND NOT (mask m) = 0"
    by (intro bit_word_eqI) (auto simp: bit_ops bit_take_bit_iff)
  then have "take_bit m v OR NOT (mask m) = take_bit m v + NOT (mask m)" by (simp add: disjunctive_add_eq_or)
  ultimately show ?thesis by (simp add: minus_exp_eq_not_mask [symmetric])
next
  case False
  have "take_bit (Suc m) v XOR 2 ^ m = take_bit m v OR 2 ^ m"
    using False by (intro bit_word_eqI) (auto simp: bit_ops bit_take_bit_iff bit_exp_iff less_Suc_eq)
  moreover have "take_bit m v AND 2 ^ m = 0"
    by (intro bit_word_eqI) (auto simp: bit_ops bit_take_bit_iff bit_exp_iff)
  then have "take_bit m v OR 2 ^ m = take_bit m v + 2 ^ m" by (simp add: disjunctive_add_eq_or)
  moreover have "signed_take_bit m v = take_bit m v"
    using False by (intro bit_word_eqI) (auto simp: bit_signed_take_bit_iff bit_take_bit_iff min_def not_less le_less)
  ultimately show ?thesis by simp
qed

lemma extendSign64_Suc: "Suc m \<le> 64 \<Longrightarrow> extendSign64 v (Suc m) = signed_take_bit m v"
  by (rule bit_word_eqI)
    (auto simp: extendSign64_def bit_signed_drop_bit_iff bit_push_bit_iff bit_signed_take_bit_iff min_def not_le less_Suc_eq)

lemma extendSign64_correct: "1 \<le> n \<Longrightarrow> n \<le> 64 \<Longrightarrow> extendSign64 v n = signed_take_bit (n - 1) v"
  using extendSign64_Suc [of "n - 1" v] by simp

lemma get64BitValueLowNBit_signed_correct:
  assumes "1 \<le> n" "n < 64"
  shows "get64BitValueLowNBit_signed v n = signed_take_bit (n - 1) v"
proof -
  have "v AND (push_bit n 1 - 1) = take_bit (Suc (n - 1)) v"
    using assms by (simp add: exp_minus_1_mask take_bit_eq_mask)
  then show ?thesis using xor_sub_signed [of "n - 1" v] assms
    by (simp add: get64BitValueLowNBit_signed_def Let_def)
qed

lemma get32BitValueLowNBit_signed_correct:
  assumes "1 \<le> n" "n < 32"
  shows "get32BitValueLowNBit_signed v n = signed_take_bit (n - 1) v"
proof -
  have "(scast v :: 64 word) AND (push_bit n 1 - 1) = take_bit (Suc (n - 1)) (scast v)"
    using assms by (simp add: exp_minus_1_mask take_bit_eq_mask)
  then have "get32BitValueLowNBit_signed v n = ucast (signed_take_bit (n - 1) (scast v :: 64 word))"
    using xor_sub_signed [of "n - 1" "scast v :: 64 word"] assms
    by (simp add: get32BitValueLowNBit_signed_def Let_def)
  also have "\<dots> = signed_take_bit (n - 1) v"
    using assms by (intro bit_word_eqI)
      (auto simp: bit_unsigned_iff bit_signed_take_bit_iff bit_signed_iff min_def)
  finally show ?thesis .
qed

section \<open>Width predicates and rotation\<close>

definition isExceedBitWidth_signed :: "64 word \<Rightarrow> nat \<Rightarrow> bool" where
  "isExceedBitWidth_signed val bitwidth =
     (if bitwidth = 64 then False
      else val <s push_bit (bitwidth - 1) (- 1) \<or> push_bit (bitwidth - 1) 1 - 1 <s val)"

definition isSignedValueOutOfBitWidth :: "64 word \<Rightarrow> nat \<Rightarrow> nat \<Rightarrow> bool" where
  "isSignedValueOutOfBitWidth val bitwidth type_size =
     (let small = isExceedBitWidth_signed val bitwidth
      in if \<not> small then small
         else let neg_mask = push_bit (bitwidth - 1) (getLowBitMask (type_size - bitwidth + 1))
              in val AND neg_mask \<noteq> neg_mask)"

definition isExceedBitWidth :: "64 word \<Rightarrow> nat \<Rightarrow> bool" where
  "isExceedBitWidth val bitwidth = (if bitwidth = 64 then False else push_bit bitwidth 1 - 1 < val)"

definition isValidImmForBitsize :: "nat \<Rightarrow> 64 word \<Rightarrow> bool" where
  "isValidImmForBitsize bitsize imm = (let m = push_bit bitsize 1 - 1 in m AND imm = imm)"

definition rotateLeft :: "64 word \<Rightarrow> nat \<Rightarrow> 64 word option" where
  "rotateLeft val0 val1 =
     (let val2 = val1 AND 0x3F
      in if val2 = 0 then None else Some (push_bit val2 val0 OR drop_bit (64 - val2) val0))"

definition checkAligned :: "64 word \<Rightarrow> 64 word \<Rightarrow> bool" where
  "checkAligned addr bytesize = (addr AND (bytesize - 1) = 0)"

lemma sint_in_range: "- (2 ^ 63) \<le> i \<Longrightarrow> i < 2 ^ 63 \<Longrightarrow> sint (word_of_int i :: 64 word) = i"
  by (simp only: sint_sbintrunc' len_of_numeral_defs) (simp add: signed_take_bit_int_eq_self)

lemma exp_words:
  "push_bit k (- 1) = (word_of_int (- (2 ^ k)) :: 64 word)"
  "push_bit k 1 - 1 = (word_of_int (2 ^ k - 1) :: 64 word)"
  by (simp_all add: push_bit_eq_mult)

lemma isExceedBitWidth_signed_correct:
  assumes "1 \<le> n" "n \<le> 64"
  shows "isExceedBitWidth_signed val n \<longleftrightarrow> sint val < - (2 ^ (n - 1)) \<or> 2 ^ (n - 1) - 1 < sint val"
proof (cases "n = 64")
  case True
  have "- (2 ^ 63) \<le> sint val" "sint val < 2 ^ 63"
    using sint_greater_eq [of val] sint_lt [of val] by simp_all
  then show ?thesis using True by (simp add: isExceedBitWidth_signed_def)
next
  case False
  have "(2 :: int) ^ (n - 1) < 2 ^ 63" using assms False by (intro power_strict_increasing) auto
  then have "sint (push_bit (n - 1) (- 1) :: 64 word) = - (2 ^ (n - 1))"
    "sint (push_bit (n - 1) 1 - 1 :: 64 word) = 2 ^ (n - 1) - 1"
    unfolding exp_words by (intro sint_in_range; smt (verit) zero_less_power)+
  then show ?thesis using False by (simp only: isExceedBitWidth_signed_def word_sless_alt if_False)
qed

lemma isExceedBitWidth_correct: "n \<le> 64 \<Longrightarrow> isExceedBitWidth val n \<longleftrightarrow> 2 ^ n \<le> unat val"
proof (cases "n = 64")
  case True
  moreover have "unat val < 2 ^ LENGTH(64)" by (rule unsigned_less)
  ultimately show ?thesis by (simp add: isExceedBitWidth_def)
next
  case False
  assume "n \<le> 64"
  then have n: "n < 64" using False by simp
  have "(2 :: nat) ^ n < 2 ^ 64" using n by (intro power_strict_increasing) auto
  moreover have "2 ^ n - 1 = (of_nat (2 ^ n - 1) :: 64 word)" by (simp add: of_nat_diff)
  ultimately have "unat (2 ^ n - 1 :: 64 word) = 2 ^ n - 1" by (simp only: unat_of_nat) simp
  then have "push_bit n 1 - 1 < val \<longleftrightarrow> 2 ^ n - 1 < unat val" by (simp add: word_less_nat_alt)
  also have "\<dots> \<longleftrightarrow> 2 ^ n \<le> unat val"
    using zero_less_power [of "2 :: nat" n] by (simp add: Suc_le_eq [symmetric] del: zero_less_power)
  finally show ?thesis using False by (simp only: isExceedBitWidth_def if_False)
qed

lemma isValidImmForBitsize_correct: "n < 64 \<Longrightarrow> isValidImmForBitsize n imm \<longleftrightarrow> unat imm < 2 ^ n"
proof -
  assume "n < 64"
  have "mask n AND imm = imm \<longleftrightarrow> (\<forall>j<64. bit imm j \<longrightarrow> j < n)"
    by (auto simp: bit_eq_iff bit_and_iff bit_mask_iff)
  also have "\<dots> \<longleftrightarrow> (\<forall>j\<ge>n. \<not> bit imm j)" using bit_imp_le_length [of imm] by (auto simp: not_le [symmetric])
  finally show ?thesis
    using sigbits_le_iff [of imm n] sigbits_bits [of imm n]
    by (simp add: isValidImmForBitsize_def Let_def exp_minus_1_mask)
qed

lemma isSignedValueOutOfBitWidth_correct:
  assumes "1 \<le> n" "n \<le> t" "t \<le> 64"
  shows "isSignedValueOutOfBitWidth val n t \<longleftrightarrow>
    (sint val < - (2 ^ (n - 1)) \<or> 2 ^ (n - 1) - 1 < sint val) \<and> (\<exists>j\<in>{n - 1..<t}. \<not> bit val j)"
proof -
  have m: "getLowBitMask (t - n + 1) = mask (t - n + 1)" using assms by (intro getLowBitMask_mask) simp
  have b: "bit (push_bit (n - 1) (mask (t - n + 1)) :: 64 word) j \<longleftrightarrow> n - 1 \<le> j \<and> j < t" for j
    using assms by (auto simp: bit_push_bit_iff bit_mask_iff)
  have "val AND push_bit (n - 1) (mask (t - n + 1)) \<noteq> push_bit (n - 1) (mask (t - n + 1)) \<longleftrightarrow>
      (\<exists>j\<in>{n - 1..<t}. \<not> bit val j)"
  proof -
    have "(\<not> (\<forall>j. possible_bit TYPE(64 word) j \<longrightarrow> (bit val j \<and> n - 1 \<le> j \<and> j < t) = (n - 1 \<le> j \<and> j < t))) \<longleftrightarrow>
        (\<exists>j<64. n - 1 \<le> j \<and> j < t \<and> \<not> bit val j)"
      by (simp add: possible_bit_def) blast
    then show ?thesis unfolding bit_eq_iff [where 'a = "64 word"] bit_and_iff b using assms(3) by auto
  qed
  then show ?thesis using isExceedBitWidth_signed_correct [of n val] assms
    by (simp only: isSignedValueOutOfBitWidth_def Let_def m) auto
qed

lemma rotateLeft_correct:
  "rotateLeft v n = (if n mod 64 = 0 then None else Some (word_rotl n v))"
proof -
  have m: "n AND 0x3F = n mod 64"
    using take_bit_eq_mask [of 6 n] by (simp add: take_bit_eq_mod mask_eq_exp_minus_1)
  have "push_bit (n mod 64) v OR drop_bit (64 - n mod 64) v = word_rotl n v" if "n mod 64 \<noteq> 0"
  proof (rule bit_word_eqI)
    fix j assume "j < LENGTH(64)"
    then have j: "j < 64" by simp
    have k: "0 < n mod 64" "n mod 64 < 64" using that by simp_all
    have e: "(j + (64 - n mod 64)) mod 64 = (if n mod 64 \<le> j then j - n mod 64 else 64 - n mod 64 + j)"
    proof (cases "n mod 64 \<le> j")
      case True
      then have "j + (64 - n mod 64) = (j - n mod 64) + 64" using k by simp
      then show ?thesis using True j by (simp only: mod_add_self2) simp
    next
      case False
      then have "j + (64 - n mod 64) < 64" using k by linarith
      then show ?thesis using False by simp
    qed
    have r: "bit (word_rotl n v) j \<longleftrightarrow> bit v (if n mod 64 \<le> j then j - n mod 64 else 64 - n mod 64 + j)"
      using j bit_word_rotl_iff [of n v j] e by simp
    show "bit (push_bit (n mod 64) v OR drop_bit (64 - n mod 64) v) j \<longleftrightarrow> bit (word_rotl n v) j"
      unfolding r using j k bit_imp_le_length [of v "64 - n mod 64 + j"]
      by (auto simp: bit_or_iff bit_push_bit_iff bit_drop_bit_eq)
  qed
  then show ?thesis by (simp add: rotateLeft_def Let_def m)
qed

section \<open>Splitting a value into groups\<close>

text \<open>
  \<open>splitMbitToNGroup\<close> walks the groups from the last to the first; the loops receive the widths in
  that order. The unsigned version masks the low bits of the rest, the signed one sign-extends them
  and subtracts the group before it shifts.
\<close>

definition maxmask :: "64 word" where
  "maxmask = push_bit 63 1"

fun split_unsigned :: "nat list \<Rightarrow> 64 word \<Rightarrow> 64 word list" where
  "split_unsigned [] val = []"
| "split_unsigned (d # ds) val =
     (let help_val_1 = drop_bit (64 - d - 1) maxmask - 1
      in (val AND help_val_1) # split_unsigned ds (signed_drop_bit d val))"

fun split_signed :: "nat list \<Rightarrow> 64 word \<Rightarrow> 64 word list" where
  "split_signed [] val = []"
| "split_signed (d # ds) val =
     (let help_val_1 = drop_bit (64 - d) maxmask; help_val_2 = drop_bit (64 - d - 1) maxmask - 1;
          group = ((val AND help_val_2) XOR help_val_1) - help_val_1
      in group # split_signed ds (signed_drop_bit d (val - group)))"

definition clear_excess :: "64 word \<Rightarrow> nat \<Rightarrow> 64 word" where
  "clear_excess val m =
     (let help_val_0 = drop_bit (63 - m) maxmask - 1 in if m \<noteq> 64 then val AND help_val_0 else val)"

definition splitMbitToNGroup :: "64 word \<Rightarrow> nat \<Rightarrow> nat list \<Rightarrow> 64 word list" where
  "splitMbitToNGroup val m desc = rev (split_unsigned (rev desc) (clear_excess val m))"

definition splitMbitToNGroup_signed :: "64 word \<Rightarrow> nat \<Rightarrow> nat list \<Rightarrow> 64 word list" where
  "splitMbitToNGroup_signed val m desc = rev (split_signed (rev desc) (clear_excess val m))"

text \<open>The value of a list of groups, the last one lowest.\<close>

fun join_low :: "nat list \<Rightarrow> 64 word list \<Rightarrow> 64 word" where
  "join_low (d # ds) (g # gs) = g + push_bit d (join_low ds gs)"
| "join_low _ _ = 0"

definition join_groups :: "nat list \<Rightarrow> 64 word list \<Rightarrow> 64 word" where
  "join_groups desc groups = join_low (rev desc) (rev groups)"

lemma bit_maxmask: "bit maxmask j \<longleftrightarrow> j = 63"
  unfolding maxmask_def bit_push_bit_iff bit_1_iff by auto

lemma maxmask_drop: "k \<le> 63 \<Longrightarrow> drop_bit k maxmask = 2 ^ (63 - k)"
  by (rule bit_word_eqI) (auto simp: bit_maxmask bit_drop_bit_eq bit_exp_iff)

lemma maxmask_low: "d \<le> 63 \<Longrightarrow> drop_bit (64 - d - 1) maxmask - 1 = mask d"
  by (simp add: maxmask_drop exp_minus_1_mask)

lemma clear_excess_take: "m \<le> 64 \<Longrightarrow> take_bit m (clear_excess val m) = take_bit m val"
  by (cases "m = 64") (auto simp: clear_excess_def Let_def maxmask_drop exp_minus_1_mask take_bit_eq_mask and.assoc)

lemma clear_excess_small: "m \<le> 64 \<Longrightarrow> clear_excess val m = take_bit m val"
proof (cases "m = 64")
  case True
  then show ?thesis by (intro bit_word_eqI) (simp add: clear_excess_def bit_take_bit_iff)
next
  case False
  assume "m \<le> 64"
  with False show ?thesis by (simp add: clear_excess_def Let_def maxmask_drop exp_minus_1_mask take_bit_eq_mask)
qed

lemma signed_drop_low: "d + n \<le> 64 \<Longrightarrow> take_bit n (signed_drop_bit d (v :: 64 word)) = take_bit n (drop_bit d v)"
  by (rule bit_word_eqI) (auto simp: bit_take_bit_iff bit_signed_drop_bit_iff bit_drop_bit_eq)

lemma take_bit_low_high: "take_bit d v + push_bit d (take_bit n (drop_bit d v)) = take_bit (d + n) (v :: 64 word)"
proof -
  have "take_bit d v AND push_bit d (take_bit n (drop_bit d v)) = 0"
    by (rule bit_word_eqI) (auto simp: bit_and_iff bit_take_bit_iff bit_push_bit_iff)
  then have "take_bit d v + push_bit d (take_bit n (drop_bit d v)) =
      take_bit d v OR push_bit d (take_bit n (drop_bit d v))" by (simp add: disjunctive_add_eq_or)
  also have "\<dots> = take_bit (d + n) v"
    by (rule bit_word_eqI) (auto simp: bit_or_iff bit_take_bit_iff bit_push_bit_iff bit_drop_bit_eq)
  finally show ?thesis .
qed

lemma split_unsigned_join:
  "list_all (\<lambda>d. d \<le> 63) ds \<Longrightarrow> sum_list ds \<le> 64 \<Longrightarrow>
   join_low ds (split_unsigned ds v) = take_bit (sum_list ds) v \<and> length (split_unsigned ds v) = length ds \<and>
   list_all2 (\<lambda>d g. sigbits g \<le> d) ds (split_unsigned ds v)"
proof (induction ds arbitrary: v)
  case (Cons d ds)
  then have d: "d \<le> 63" "d + sum_list ds \<le> 64" by auto
  have m: "drop_bit (64 - d - 1) maxmask - 1 = mask d" using d(1) by (rule maxmask_low)
  have g: "v AND mask d = take_bit d v" by (simp add: take_bit_eq_mask)
  have "sigbits (take_bit d v) \<le> d" by (simp add: sigbits_bits bit_take_bit_iff)
  then show ?case using Cons.IH [of "signed_drop_bit d v"] Cons.prems d
    by (simp add: Let_def m g signed_drop_low take_bit_low_high del: One_nat_def diff_diff_left)
qed simp

lemma take_bit_diff_word: "d \<le> 64 \<Longrightarrow> take_bit d (v - g) = take_bit d (take_bit d v - take_bit d (g :: 64 word))"
  by transfer (simp add: min_def, metis take_bit_diff)

lemma take_bit_add_word: "d \<le> 64 \<Longrightarrow> take_bit d (v + g) = take_bit d (take_bit d v + take_bit d (g :: 64 word))"
  by transfer (simp add: min_def, metis take_bit_add)

lemma take_bit_minus_low:
  "take_bit d (g :: 64 word) = take_bit d v \<Longrightarrow> d \<le> 64 \<Longrightarrow> push_bit d (signed_drop_bit d (v - g)) = v - g"
proof -
  assume e: "take_bit d g = take_bit d v" and d: "d \<le> 64"
  have "take_bit d (v - g) = take_bit d (take_bit d v - take_bit d g)" using d by (rule take_bit_diff_word)
  then have z: "take_bit d (v - g) = 0" using e by simp
  have "\<not> bit (v - g) j" if "j < d" for j
    using arg_cong [OF z, of "\<lambda>w. bit w j"] that by (simp add: bit_take_bit_iff)
  note low = this
  show ?thesis
  proof (rule bit_word_eqI)
    fix j assume "j < LENGTH(64)"
    then show "bit (push_bit d (signed_drop_bit d (v - g))) j \<longleftrightarrow> bit (v - g) j"
      using low [of j] by (cases "j < d") (auto simp: bit_push_bit_iff bit_signed_drop_bit_iff)
  qed
qed

lemma split_signed_join:
  "list_all (\<lambda>d. 1 \<le> d \<and> d \<le> 63) ds \<Longrightarrow> sum_list ds \<le> 64 \<Longrightarrow>
   take_bit (sum_list ds) (join_low ds (split_signed ds v)) = take_bit (sum_list ds) v \<and>
   length (split_signed ds v) = length ds \<and>
   list_all2 (\<lambda>d g. signed_take_bit (d - 1) g = g) ds (split_signed ds v)"
proof (induction ds arbitrary: v)
  case (Cons d ds)
  then have d: "1 \<le> d" "d \<le> 63" "d + sum_list ds \<le> 64" by auto
  let ?g = "signed_take_bit (d - 1) v"
  have "((v AND (drop_bit (64 - d - 1) maxmask - 1)) XOR drop_bit (64 - d) maxmask) - drop_bit (64 - d) maxmask = ?g"
    unfolding maxmask_low [OF d(2)] using xor_sub_signed [of "d - 1" v] d
    by (simp add: maxmask_drop take_bit_eq_mask)
  then have s: "split_signed (d # ds) v = ?g # split_signed ds (signed_drop_bit d (v - ?g))" by (simp add: Let_def)
  have low: "take_bit d ?g = take_bit d v"
    by (rule bit_word_eqI) (use d in \<open>auto simp: bit_take_bit_iff bit_signed_take_bit_iff min_def le_less\<close>)
  let ?J = "join_low ds (split_signed ds (signed_drop_bit d (v - ?g)))"
  have IH: "take_bit (sum_list ds) ?J = take_bit (sum_list ds) (signed_drop_bit d (v - ?g))"
    "length (split_signed ds (signed_drop_bit d (v - ?g))) = length ds"
    "list_all2 (\<lambda>d g. signed_take_bit (d - 1) g = g) ds (split_signed ds (signed_drop_bit d (v - ?g)))"
    using Cons.IH [of "signed_drop_bit d (v - ?g)"] Cons.prems by auto
  have "take_bit (d + sum_list ds) (push_bit d ?J) =
      take_bit (d + sum_list ds) (push_bit d (signed_drop_bit d (v - ?g)))"
    using IH(1) by (simp add: take_bit_push_bit)
  also have "\<dots> = take_bit (d + sum_list ds) (v - ?g)" using take_bit_minus_low [OF low] d by simp
  finally have "take_bit (d + sum_list ds) (?g + push_bit d ?J) = take_bit (d + sum_list ds) (?g + (v - ?g))"
    using take_bit_add_word [OF d(3), of ?g "push_bit d ?J"] take_bit_add_word [OF d(3), of ?g "v - ?g"] by simp
  moreover have "?g + (v - ?g) = v" by simp
  moreover have "signed_take_bit (d - 1) ?g = ?g" by simp
  ultimately show ?case unfolding s using IH(2,3) by simp
qed simp

section \<open>LEB128\<close>

text \<open>The output vector is a list of bytes that the encoders append to; the count is the \<open>UINT32\<close> result.\<close>

lemma unat_drop_less: "drop_bit 7 (v :: 64 word) \<noteq> 0 \<Longrightarrow> unat (drop_bit 7 v) < unat v"
proof -
  assume "drop_bit 7 v \<noteq> 0"
  then have "v \<noteq> 0" by auto
  then have "0 < unat v" by (simp add: unat_gt_0)
  then show ?thesis by (simp add: unat_drop_div)
qed

function uleb_loop :: "64 word \<Rightarrow> byte list \<Rightarrow> nat \<Rightarrow> nat \<Rightarrow> byte list \<times> nat" where
  "uleb_loop val os count pad_to =
     (let b = ucast (get64BitValueLowNBit val 7) :: byte;
          val = drop_bit 7 val;
          count = u32 (count + 1);
          b = (if val \<noteq> 0 \<or> count < pad_to then b OR 0x80 else b);
          os = os @ [b]
      in if val \<noteq> 0 then uleb_loop val os count pad_to else (os, count))"
  by pat_completeness auto
termination by (relation "measure (\<lambda>(v, os, c, p). unat v)") (auto intro: unat_drop_less)

declare uleb_loop.simps [simp del]

text \<open>\<open>for (; count < pad_to - 1; ++count) { os.append(b); }\<close>\<close>

function pad_loop :: "byte \<Rightarrow> byte list \<Rightarrow> nat \<Rightarrow> nat \<Rightarrow> byte list \<times> nat" where
  "pad_loop b os count pad_to =
     (if count < pad_to - 1 then pad_loop b (os @ [b]) (count + 1) pad_to else (os, count))"
  by pat_completeness auto
termination by (relation "measure (\<lambda>(b, os, count, pad_to). pad_to - 1 - count)") auto

declare pad_loop.simps [simp del]

definition encodeULEB128 :: "64 word \<Rightarrow> byte list \<Rightarrow> nat \<Rightarrow> byte list \<times> nat" where
  "encodeULEB128 val os pad_to =
     (let (os, count) = uleb_loop val os 0 pad_to
      in if count < pad_to
         then let (os, count) = pad_loop 0x80 os count pad_to in (os @ [0], count + 1)
         else (os, count))"

function sleb_loop :: "64 word \<Rightarrow> byte list \<Rightarrow> nat \<Rightarrow> nat \<Rightarrow> 64 word \<times> byte list \<times> nat" where
  "sleb_loop val os count pad_to =
     (let b = ucast (get64BitValueLowNBit val 7) :: byte;
          val = signed_drop_bit 7 val;
          more = (\<not> ((val = 0 \<and> b AND 0x40 = 0) \<or> (val = - 1 \<and> b AND 0x40 \<noteq> 0)));
          count = u32 (count + 1);
          b = (if more \<or> count < pad_to then b OR 0x80 else b);
          os = os @ [b]
      in if more then sleb_loop val os count pad_to else (val, os, count))"
  by pat_completeness auto

lemma sint_sdrop: "sint (signed_drop_bit 7 (v :: 64 word)) = sint v div 128"
  by (simp add: sint_signed_drop_bit_eq drop_bit_eq_div)

lemma low7_ends: "get64BitValueLowNBit 0 7 = 0" "get64BitValueLowNBit (- 1) 7 = 127"
  "signed_drop_bit 7 (0 :: 64 word) = 0" "signed_drop_bit 7 (- 1 :: 64 word) = - 1"
  by (simp_all add: get64BitValueLowNBit_take take_bit_eq_mask mask_eq_exp_minus_1 bit_eq_iff bit_signed_drop_bit_iff)

lemma sleb_less:
  assumes "\<not> (signed_drop_bit 7 v = 0 \<and> (ucast (get64BitValueLowNBit v 7) :: byte) AND 0x40 = 0)"
    and "\<not> (signed_drop_bit 7 v = - 1 \<and> (ucast (get64BitValueLowNBit v 7) :: byte) AND 0x40 \<noteq> 0)"
  shows "nat \<bar>2 * sint (signed_drop_bit 7 v) + 1\<bar> < nat \<bar>2 * sint v + 1\<bar>"
proof -
  have "v \<noteq> 0" using assms(1) by (auto simp: low7_ends)
  moreover have "v \<noteq> - 1" using assms(2) by (auto simp: low7_ends)
  ultimately have "sint v \<noteq> 0" "sint v \<noteq> - 1" by (metis signed_0 signed_word_eqI, metis signed_minus_1 signed_word_eqI)
  then show ?thesis unfolding sint_sdrop by linarith
qed

termination sleb_loop
  by (relation "measure (\<lambda>(v, os, c, p). nat \<bar>2 * sint v + 1\<bar>)") (rule wf_measure, simp only: in_measure prod.case, rule sleb_less, simp_all)

declare sleb_loop.simps [simp del]

definition encodeSLEB128 :: "64 word \<Rightarrow> byte list \<Rightarrow> nat \<Rightarrow> byte list \<times> nat" where
  "encodeSLEB128 val os pad_to =
     (let (val, os, count) = sleb_loop val os 0 pad_to
      in if count < pad_to
         then let pad_value = (if val <s 0 then 0x7f else 0);
                  (os, count) = pad_loop (pad_value OR 0x80) os count pad_to
              in (os @ [pad_value], count + 1)
         else (os, count))"

text \<open>The readers of the DWARF format: the value of the first encoded number and the bytes behind it.\<close>

fun uleb_read :: "byte list \<Rightarrow> (nat \<times> byte list) option" where
  "uleb_read [] = None"
| "uleb_read (b # bs) =
     (if bit b 7 then map_option (\<lambda>(v, r). (unat b mod 128 + 128 * v, r)) (uleb_read bs)
      else Some (unat b mod 128, bs))"

fun sleb_read :: "byte list \<Rightarrow> (int \<times> byte list) option" where
  "sleb_read [] = None"
| "sleb_read (b # bs) =
     (if bit b 7 then map_option (\<lambda>(v, r). (uint b mod 128 + 128 * v, r)) (sleb_read bs)
      else Some (uint b mod 128 - (if bit b 6 then 128 else 0), bs))"

lemma low7_byte:
  fixes v :: "64 word"
  defines "b \<equiv> (ucast (get64BitValueLowNBit v 7) :: byte)"
  shows "\<not> bit b 7" "bit (b OR 0x80) 7" "bit (b OR 0x80) 6 = bit v 6" "bit b 6 = bit v 6"
    "unat (b OR 0x80) mod 128 = unat v mod 128" "unat b mod 128 = unat v mod 128" "b AND 0x40 \<noteq> 0 \<longleftrightarrow> bit v 6"
proof -
  have b: "bit b j \<longleftrightarrow> j < 7 \<and> bit v j" for j
    by (auto simp: b_def get64BitValueLowNBit_take bit_unsigned_iff bit_take_bit_iff)
  have h: "bit (0x80 :: byte) j \<longleftrightarrow> j = 7" for j
    using bit_exp_iff [of 7 j, where 'a = byte] by auto
  show "\<not> bit b 7" "bit (b OR 0x80) 7" "bit (b OR 0x80) 6 = bit v 6" "bit b 6 = bit v 6"
    by (simp_all add: b h bit_or_iff)
  have l: "unat x mod 128 = unat (take_bit 7 x)" for x :: "'a::len word"
  proof -
    have "unat (take_bit 7 x) = take_bit 7 (unat x)" by (rule unsigned_take_bit_eq)
    then show ?thesis by (simp add: take_bit_eq_mod [of 7 "unat x"])
  qed
  have "take_bit 7 (b OR 0x80) = ucast (take_bit 7 v)" "take_bit 7 b = ucast (take_bit 7 v)"
    by (rule bit_word_eqI; auto simp: b h bit_or_iff bit_take_bit_iff bit_unsigned_iff)+
  moreover have "unat (ucast (take_bit 7 v) :: byte) = unat (take_bit 7 v)"
    by (simp add: unsigned_ucast_eq unsigned_take_bit_eq)
  ultimately show "unat (b OR 0x80) mod 128 = unat v mod 128" "unat b mod 128 = unat v mod 128"
    by (simp_all only: l)
  have "(0x40 :: byte) = 2 ^ 6" by simp
  then show "b AND 0x40 \<noteq> 0 \<longleftrightarrow> bit v 6" using one_bit_and [of 6 b] by (simp add: b and.commute)
qed

lemma uleb_loop_correct:
  "unat v < 128 ^ k \<Longrightarrow> 1 \<le> k \<Longrightarrow> c + k < 4294967296 \<Longrightarrow>
   \<exists>bs. uleb_loop v os c p = (os @ bs, c + length bs) \<and> 1 \<le> length bs \<and> length bs \<le> k \<and>
     (length bs = 1 \<or> 128 ^ (length bs - 1) \<le> unat v) \<and>
     (p \<le> c + length bs \<longrightarrow> (\<forall>rest. uleb_read (bs @ rest) = Some (unat v, rest))) \<and>
     (c + length bs < p \<longrightarrow> (\<forall>tl r. uleb_read tl = Some (0, r) \<longrightarrow> uleb_read (bs @ tl) = Some (unat v, r)))"
proof (induction v os c p arbitrary: k rule: uleb_loop.induct)
  case (1 v os c p)
  define b0 :: byte where "b0 = ucast (get64BitValueLowNBit v 7)"
  define b where "b = (if drop_bit 7 v \<noteq> 0 \<or> u32 (c + 1) < p then b0 OR 0x80 else b0)"
  have c1: "u32 (c + 1) = c + 1" using 1(3,4) by simp
  note lo = low7_byte [of v, folded b0_def]
  have b: "unat b mod 128 = unat v mod 128" "bit b 7 \<longleftrightarrow> drop_bit 7 v \<noteq> 0 \<or> c + 1 < p"
    unfolding b_def c1 using lo by auto
  have u: "unat (drop_bit 7 v) = unat v div 128" by (simp add: unat_drop_div)
  have st: "uleb_loop v os c p = (if drop_bit 7 v \<noteq> 0 then uleb_loop (drop_bit 7 v) (os @ [b]) (c + 1) p else (os @ [b], c + 1))"
    by (simp only: uleb_loop.simps [of v os c p] Let_def c1 b_def b0_def)
  show ?case
  proof (cases "drop_bit 7 v = 0")
    case True
    then have "unat v div 128 = 0" using u by simp
    then have "unat v mod 128 = unat v" by (simp add: div_eq_0_iff)
    then show ?thesis using True 1(3) st b by (intro exI [of _ "[b]"]) auto
  next
    case False
    then have d: "unat v div 128 \<noteq> 0" using u by (metis unat_eq_0)
    then have k: "2 \<le> k" using 1(2,3) by (cases "k = 1") auto
    have "unat v div 128 < 128 ^ (k - 1)" using 1(2) k by (cases k) (auto simp: less_mult_imp_div_less mult.commute)
    moreover have "1 \<le> k - 1" "c + 1 + (k - 1) < 4294967296" using k 1(4) by simp_all
    ultimately obtain bs where bs: "uleb_loop (drop_bit 7 v) (os @ [b]) (c + 1) p = (os @ [b] @ bs, c + 1 + length bs)"
      "1 \<le> length bs" "length bs \<le> k - 1" "length bs = 1 \<or> 128 ^ (length bs - 1) \<le> unat v div 128"
      "p \<le> c + 1 + length bs \<longrightarrow> (\<forall>rest. uleb_read (bs @ rest) = Some (unat v div 128, rest))"
      "c + 1 + length bs < p \<longrightarrow> (\<forall>tl r. uleb_read tl = Some (0, r) \<longrightarrow> uleb_read (bs @ tl) = Some (unat v div 128, r))"
      using 1(1) [OF refl refl refl refl refl False, of "k - 1", folded b0_def, folded b_def, unfolded c1 u] by auto
    have "128 ^ length bs \<le> unat v"
    proof (cases "length bs = 1")
      case False
      then have "128 ^ (length bs - 1) * 128 \<le> unat v div 128 * 128" using bs(4) by simp
      also have "\<dots> \<le> unat v" by simp
      finally show ?thesis using bs(2) by (cases "length bs") simp_all
    qed (use d in \<open>simp add: div_eq_0_iff\<close>)
    then show ?thesis using st False bs b k
      by (intro exI [of _ "b # bs"]) auto
  qed
qed

lemma pad_loop_correct: "pad_loop b os c p = (os @ replicate (p - 1 - c) b, max c (p - 1))"
proof (induction b os c p rule: pad_loop.induct)
  case (1 b os c p)
  show ?case
  proof (cases "c < p - 1")
    case True
    then have "p - 1 - c = Suc (p - 1 - (c + 1))" by simp
    then show ?thesis using 1 [OF True] True by (subst pad_loop.simps) (simp add: max_def)
  qed (simp add: pad_loop.simps)
qed

lemma uleb_read_pad: "uleb_read (replicate n 0x80 @ 0 # r) = Some (0, r)"
  by (induction n) simp_all

lemma uint_sint_mod128: "uint (v :: 64 word) mod 128 = sint v mod 128"
proof -
  have "take_bit 7 (uint v) = take_bit 7 (sint v)"
    by (rule bit_eqI) (auto simp: bit_take_bit_iff bit_uint_iff bit_sint_iff min_def)
  then show ?thesis by (simp add: take_bit_eq_mod)
qed

lemma bit6_neg: "- 64 \<le> sint v \<Longrightarrow> sint v < 64 \<Longrightarrow> bit (v :: 64 word) 6 \<longleftrightarrow> sint v < 0"
proof -
  assume r: "- 64 \<le> sint v" "sint v < 64"
  have "bit v 6 \<longleftrightarrow> bit (sint v) 6" by (simp add: bit_sint_iff)
  also have "\<dots> \<longleftrightarrow> odd (sint v div 64)" by (simp add: bit_iff_odd)
  also have "sint v div 64 = (if sint v < 0 then - 1 else 0)" using r by (auto simp: div_pos_pos_trivial)
  finally show ?thesis by simp
qed

lemma sleb_loop_correct:
  "- 64 * 128 ^ (k - 1) \<le> sint v \<Longrightarrow> sint v < 64 * 128 ^ (k - 1) \<Longrightarrow> 1 \<le> k \<Longrightarrow> c + k < 4294967296 \<Longrightarrow>
   \<exists>bs w. sleb_loop v os c p = (w, os @ bs, c + length bs) \<and> 1 \<le> length bs \<and> length bs \<le> k \<and>
     w = (if sint v < 0 then - 1 else 0) \<and>
     (p \<le> c + length bs \<longrightarrow> (\<forall>rest. sleb_read (bs @ rest) = Some (sint v, rest))) \<and>
     (c + length bs < p \<longrightarrow> (\<forall>tl r. sleb_read tl = Some (sint w, r) \<longrightarrow> sleb_read (bs @ tl) = Some (sint v, r)))"
proof (induction v os c p arbitrary: k rule: sleb_loop.induct)
  case (1 v os c p)
  define b0 :: byte where "b0 = ucast (get64BitValueLowNBit v 7)"
  define w where "w = signed_drop_bit 7 v"
  define more where "more = (\<not> ((w = 0 \<and> b0 AND 0x40 = 0) \<or> (w = - 1 \<and> b0 AND 0x40 \<noteq> 0)))"
  define b where "b = (if more \<or> u32 (c + 1) < p then b0 OR 0x80 else b0)"
  have c1: "u32 (c + 1) = c + 1" using 1(4,5) by simp
  note lo = low7_byte [of v, folded b0_def]
  have u: "uint x mod 128 = sint v mod 128" if "unat (x :: byte) mod 128 = unat v mod 128" for x
  proof -
    have "uint x mod 128 = uint v mod 128" using arg_cong [OF that, of int] by (simp add: zmod_int)
    also have "uint v mod 128 = sint v mod 128" by (rule uint_sint_mod128)
    finally show ?thesis .
  qed
  have b: "uint b mod 128 = sint v mod 128" "bit b 6 = bit v 6" "bit b 7 \<longleftrightarrow> more \<or> c + 1 < p"
    unfolding b_def c1 using lo u by auto
  have w: "sint w = sint v div 128" by (simp add: w_def sint_sdrop)
  have st: "sleb_loop v os c p = (if more then sleb_loop w (os @ [b]) (c + 1) p else (w, os @ [b], c + 1))"
    by (simp only: sleb_loop.simps [of v os c p] Let_def c1 b_def b0_def more_def w_def)
  have neg: "w = - 1 \<Longrightarrow> sint v < 0" "w = 0 \<Longrightarrow> 0 \<le> sint v" using w by auto
  show ?case
  proof (cases more)
    case False
    then have f: "w = 0 \<and> \<not> bit v 6 \<or> w = - 1 \<and> bit v 6" using lo(7) by (auto simp: more_def)
    have "sint v = 128 * sint w + sint v mod 128" using w by simp
    then have "sint v mod 128 - (if bit v 6 then 128 else 0) = sint v" "sint v mod 128 + 128 * sint w = sint v"
      using f by auto
    then show ?thesis using False st 1(4) b f neg by (intro exI [of _ "[b]"] exI [of _ w]) auto
  next
    case True
    have k: "2 \<le> k"
    proof (rule ccontr)
      assume "\<not> 2 \<le> k"
      then have "k = 1" using 1(4) by simp
      then have r: "- 64 \<le> sint v" "sint v < 64" using 1(2,3) by simp_all
      have "bit v 6 \<longleftrightarrow> sint v < 0" using r by (rule bit6_neg)
      moreover have "sint w = sint (if sint v < 0 then - 1 else 0 :: 64 word)" using r w by auto
      then have "w = (if sint v < 0 then - 1 else 0)" by (rule signed_word_eqI)
      ultimately show False using True lo(7) by (auto simp: more_def split: if_splits)
    qed
    have r: "- 64 * 128 ^ (k - 1 - 1) \<le> sint w" "sint w < 64 * 128 ^ (k - 1 - 1)"
    proof -
      define m where "m = k - 2"
      then have m: "k = Suc (Suc m)" using k by simp
      show "- 64 * 128 ^ (k - 1 - 1) \<le> sint w" "sint w < 64 * 128 ^ (k - 1 - 1)"
        using 1(2,3) unfolding w m by simp_all
    qed
    moreover have "1 \<le> k - 1" "c + 1 + (k - 1) < 4294967296" using k 1(5) by simp_all
    ultimately obtain bs w' where bs: "sleb_loop w (os @ [b]) (c + 1) p = (w', os @ [b] @ bs, c + 1 + length bs)"
      "1 \<le> length bs" "length bs \<le> k - 1" "w' = (if sint w < 0 then - 1 else 0)"
      "p \<le> c + 1 + length bs \<longrightarrow> (\<forall>rest. sleb_read (bs @ rest) = Some (sint w, rest))"
      "c + 1 + length bs < p \<longrightarrow> (\<forall>tl r. sleb_read tl = Some (sint w', r) \<longrightarrow> sleb_read (bs @ tl) = Some (sint w, r))"
      using 1(1) [OF refl refl refl refl refl refl True [unfolded more_def w_def b0_def], of "k - 1", folded b0_def, folded w_def,
          folded more_def, folded b_def, unfolded c1] by auto
    have "sint v mod 128 + 128 * sint w = sint v" using w by simp
    moreover have "sint w < 0 \<longleftrightarrow> sint v < 0" unfolding w by auto
    ultimately show ?thesis using st True bs b k
      by (intro exI [of _ "b # bs"] exI [of _ w']) auto
  qed
qed

lemma sleb_read_pad:
  "sleb_read (replicate n 0x80 @ 0 # r) = Some (0, r)"
  "sleb_read (replicate n 0xFF @ 0x7F # r) = Some (- 1, r)"
  by (induction n) simp_all

lemma encodeULEB128_reads:
  assumes "pad_to < 4294967296"
  shows "\<exists>bs. encodeULEB128 val os pad_to = (os @ bs, length bs) \<and> max 1 pad_to \<le> length bs \<and>
    length bs \<le> max 10 pad_to \<and> (pad_to < length bs \<longrightarrow> length bs = 1 \<or> 128 ^ (length bs - 1) \<le> unat val) \<and>
    (\<forall>rest. uleb_read (bs @ rest) = Some (unat val, rest))"
proof -
  have "unat val < 2 ^ LENGTH(64)" by (rule unsigned_less)
  then have "unat val < 128 ^ 10" by simp
  then obtain bs where bs: "uleb_loop val os 0 pad_to = (os @ bs, length bs)" "1 \<le> length bs" "length bs \<le> 10"
    "length bs = 1 \<or> 128 ^ (length bs - 1) \<le> unat val"
    "pad_to \<le> length bs \<longrightarrow> (\<forall>rest. uleb_read (bs @ rest) = Some (unat val, rest))"
    "length bs < pad_to \<longrightarrow> (\<forall>tl r. uleb_read tl = Some (0, r) \<longrightarrow> uleb_read (bs @ tl) = Some (unat val, r))"
    using uleb_loop_correct [of val 10 0 os pad_to] by auto
  show ?thesis
  proof (cases "length bs < pad_to")
    case True
    then have "max (length bs) (pad_to - 1) = pad_to - 1" "pad_to - 1 + 1 = pad_to" by simp_all
    then have "encodeULEB128 val os pad_to =
        (os @ (bs @ replicate (pad_to - 1 - length bs) 0x80 @ [0]), pad_to)"
      unfolding encodeULEB128_def bs(1) prod.case Let_def pad_loop_correct using True by simp
    moreover have "uleb_read ((bs @ replicate (pad_to - 1 - length bs) 0x80 @ [0]) @ rest) = Some (unat val, rest)" for rest
      using bs(6) True uleb_read_pad by simp
    ultimately show ?thesis using True
      by (intro exI [of _ "bs @ replicate (pad_to - 1 - length bs) 0x80 @ [0]"]) auto
  qed (use bs in \<open>auto simp: encodeULEB128_def intro!: exI [of _ bs]\<close>)
qed

lemma encodeSLEB128_reads:
  assumes "pad_to < 4294967296"
  shows "\<exists>bs. encodeSLEB128 val os pad_to = (os @ bs, length bs) \<and> max 1 pad_to \<le> length bs \<and>
    length bs \<le> max 10 pad_to \<and> (\<forall>rest. sleb_read (bs @ rest) = Some (sint val, rest))"
proof -
  have "- 64 * 128 ^ (10 - 1) \<le> sint val" "sint val < 64 * 128 ^ (10 - 1)"
    using sint_greater_eq [of val] sint_lt [of val] by simp_all
  then obtain bs w where bs: "sleb_loop val os 0 pad_to = (w, os @ bs, length bs)" "1 \<le> length bs" "length bs \<le> 10"
    "w = (if sint val < 0 then - 1 else 0)"
    "pad_to \<le> length bs \<longrightarrow> (\<forall>rest. sleb_read (bs @ rest) = Some (sint val, rest))"
    "length bs < pad_to \<longrightarrow> (\<forall>tl r. sleb_read tl = Some (sint w, r) \<longrightarrow> sleb_read (bs @ tl) = Some (sint val, r))"
    using sleb_loop_correct [of 10 val 0 os pad_to] by auto
  show ?thesis
  proof (cases "length bs < pad_to")
    case True
    define pv :: byte where "pv = (if sint val < 0 then 0x7F else 0)"
    let ?t = "replicate (pad_to - 1 - length bs) (pv OR 0x80) @ [pv]"
    have n: "(w <s 0) = (sint val < 0)" using bs(4) by (simp add: word_sless_alt)
    have "max (length bs) (pad_to - 1) = pad_to - 1" "pad_to - 1 + 1 = pad_to" using True by simp_all
    then have "encodeSLEB128 val os pad_to = (os @ (bs @ ?t), pad_to)"
      unfolding encodeSLEB128_def bs(1) prod.case Let_def pad_loop_correct n pv_def using True by simp
    moreover have "sleb_read (?t @ rest) = Some (sint w, rest)" for rest
      using sleb_read_pad bs(4) by (simp add: pv_def)
    then have "sleb_read ((bs @ ?t) @ rest) = Some (sint val, rest)" for rest using bs(6) True by simp
    ultimately show ?thesis using True by (intro exI [of _ "bs @ ?t"]) auto
  qed (use bs in \<open>auto simp: encodeSLEB128_def intro!: exI [of _ bs]\<close>)
qed

section \<open>Properties\<close>

text \<open>
  C29: The ULEB128 encoding of every value, padded to any size the 32-bit counter can hold, appends to the
  output a number that a reader of the format decodes to the value, leaving the following bytes untouched; the returned count is
  the number of bytes appended, at least \<open>pad_to\<close>; and an unpadded encoding has no superfluous byte.
\<close>

theorem uleb128_roundtrip:
  assumes "pad_to < 4294967296"
  shows "\<exists>bs. encodeULEB128 val os pad_to = (os @ bs, length bs) \<and> max 1 pad_to \<le> length bs \<and>
    length bs \<le> max 10 pad_to \<and> (pad_to < length bs \<longrightarrow> length bs = 1 \<or> 128 ^ (length bs - 1) \<le> unat val) \<and>
    (\<forall>rest. uleb_read (bs @ rest) = Some (unat val, rest))"
  using assms by (rule encodeULEB128_reads)

theorem uleb128_roundtrip_witness:
  "\<exists>bs. encodeULEB128 624485 [0xAA] 5 = ([0xAA] @ bs, length bs) \<and> max 1 5 \<le> length bs \<and>
    length bs \<le> max 10 5 \<and> (\<forall>rest. uleb_read (bs @ rest) = Some (unat (624485 :: 64 word), rest))"
  using uleb128_roundtrip [of 5 624485 "[0xAA]"] by auto

text \<open>
  The SLEB128 encoding of every signed 64-bit value, padded to any size the 32-bit counter can hold, decodes to the value,
  whatever bytes follow; the loop ends, since every step brings the value closer to 0 or -1.
\<close>

theorem sleb128_roundtrip:
  assumes "pad_to < 4294967296"
  shows "\<exists>bs. encodeSLEB128 val os pad_to = (os @ bs, length bs) \<and> max 1 pad_to \<le> length bs \<and>
    length bs \<le> max 10 pad_to \<and> (\<forall>rest. sleb_read (bs @ rest) = Some (sint val, rest))"
  using assms by (rule encodeSLEB128_reads)

theorem sleb128_roundtrip_witness:
  "\<exists>bs. encodeSLEB128 (- 123456) [] 7 = ([] @ bs, length bs) \<and> max 1 7 \<le> length bs \<and>
    length bs \<le> max 10 7 \<and> (\<forall>rest. sleb_read (bs @ rest) = Some (sint (- 123456 :: 64 word), rest))"
  using sleb128_roundtrip [of 7 "- 123456" "[]"] by simp

text \<open>
  The field functions bit by bit. Extraction reads exactly the bits of the range. Insertion
  ORs the field into the destination and so keeps the bits that were set there. Setting a field of up to 63 bits replaces it
  by the negated value, and every bit outside it keeps its value.
\<close>

theorem bit_fields:
  assumes "start \<le> stop" "stop < 64" and in_ok: "in_start + (stop - start) < 64"
  shows "(bit (extractBitRangeValue (val :: 64 word) start stop) j \<longleftrightarrow> j \<le> stop - start \<and> bit val (start + j)) \<and>
    (bit (insertBitRangeValue out val start stop in_start (in_start + (stop - start))) j \<longleftrightarrow>
      bit out j \<or> start \<le> j \<and> j \<le> stop \<and> bit val (in_start + (j - start))) \<and>
    (bit (setNBitValueAtMBitOffset val (stop - start + 1) start (if flag then 1 else 0)) j \<longleftrightarrow>
      (if start \<le> j \<and> j \<le> stop then flag else bit val j)) \<and>
    getNBitValueAtMBitOffset val (stop - start + 1) start = extractBitRangeValue val start stop"
proof -
  have "getNBitValueAtMBitOffset val (stop - start + 1) start = extractBitRangeValue val start stop"
    using assms by (intro bit_word_eqI) (auto simp: bit_getNBitValueAtMBitOffset bit_extractBitRangeValue)
  then show ?thesis
    using assms in_ok bit_extractBitRangeValue [of start stop val j]
      bit_insertBitRangeValue [of in_start "in_start + (stop - start)" start out val stop j]
      bit_setNBitValueAtMBitOffset [of start "stop - start + 1" "if flag then 1 else 0" val j]
    by auto
qed

theorem bit_fields_witness:
  "(bit (extractBitRangeValue (0x3AF :: 64 word) 4 6) 1 \<longleftrightarrow> 1 \<le> 6 - (4 :: nat) \<and> bit (0x3AF :: 64 word) (4 + 1)) \<and>
    (bit (insertBitRangeValue 0xF000F0 (0x3AF :: 64 word) 4 6 12 (12 + (6 - 4))) 1 \<longleftrightarrow>
      bit (0xF000F0 :: 64 word) 1 \<or> 4 \<le> (1 :: nat) \<and> 1 \<le> (6 :: nat) \<and> bit (0x3AF :: 64 word) (12 + (1 - 4))) \<and>
    (bit (setNBitValueAtMBitOffset 0x3AF (6 - 4 + 1) 4 (if True then 1 else 0)) 1 \<longleftrightarrow>
      (if 4 \<le> (1 :: nat) \<and> 1 \<le> (6 :: nat) then True else bit (0x3AF :: 64 word) 1)) \<and>
    getNBitValueAtMBitOffset 0x3AF (6 - 4 + 1) 4 = extractBitRangeValue 0x3AF 4 6"
  using bit_fields [of 4 6 12 "0x3AF" 1 "0xF000F0" True] by simp

text \<open>
  The three sign extensions of a 64-bit value and the one of a 32-bit value are the arithmetic reading of its low
  \<open>n\<close> bits, so the shift version and the mask version agree.
\<close>

theorem sign_extensions_agree:
  assumes "1 \<le> n" "n < 32"
  shows "extendSign64 val n = signed_take_bit (n - 1) val \<and>
    get64BitValueLowNBit_signed val n = extendSign64 val n \<and>
    sint (get32BitValueLowNBit_signed (ucast val) n) = sint (extendSign64 val n)"
proof -
  have "sint (signed_take_bit (n - 1) (ucast val :: 32 word)) = sint (signed_take_bit (n - 1) val)"
    by (rule bit_eqI) (use assms in \<open>auto simp: bit_sint_iff bit_signed_take_bit_iff bit_unsigned_iff min_def\<close>)
  then show ?thesis
    using assms by (simp add: extendSign64_correct get64BitValueLowNBit_signed_correct get32BitValueLowNBit_signed_correct)
qed

theorem sign_extensions_agree_witness:
  "extendSign64 0x12F 5 = signed_take_bit (5 - 1) 0x12F \<and>
    get64BitValueLowNBit_signed 0x12F 5 = extendSign64 0x12F 5 \<and>
    sint (get32BitValueLowNBit_signed (ucast (0x12F :: 64 word)) 5) = sint (extendSign64 0x12F 5)"
  using sign_extensions_agree [of 5 "0x12F"] by simp

text \<open>
  The width predicates decide the range tests on the value they are given, for every width up to 64, where the
  shifts of the masks need a case of their own.
\<close>

theorem width_predicates:
  assumes "1 \<le> n" "n \<le> 64"
  shows "(isExceedBitWidth_signed val n \<longleftrightarrow> sint val < - (2 ^ (n - 1)) \<or> 2 ^ (n - 1) \<le> sint val) \<and>
    (isExceedBitWidth val n \<longleftrightarrow> 2 ^ n \<le> unat val) \<and>
    (n < 64 \<longrightarrow> isValidImmForBitsize n val = (\<not> isExceedBitWidth val n)) \<and>
    (isSignedValueOutOfBitWidth val n 64 \<longleftrightarrow> isExceedBitWidth_signed val n)"
proof -
  have "- (2 ^ (n - 1)) \<le> sint val \<and> sint val < 2 ^ (n - 1)" if "\<forall>j\<in>{n - 1..<64}. bit val j"
  proof -
    have "bit (signed_take_bit (n - 1) (sint val)) j \<longleftrightarrow> bit (sint val) j" for j
      using that assms by (auto simp: bit_signed_take_bit_iff bit_sint_iff min_def)
    then have "signed_take_bit (n - 1) (sint val) = sint val" by (simp add: bit_eq_iff)
    then show ?thesis
      using signed_take_bit_int_greater_eq_minus_exp [of "n - 1" "sint val"]
        signed_take_bit_int_less_exp [of "n - 1" "sint val"] by simp
  qed
  then have "isSignedValueOutOfBitWidth val n 64 \<longleftrightarrow> isExceedBitWidth_signed val n"
    using isSignedValueOutOfBitWidth_correct [of n 64 val] isExceedBitWidth_signed_correct [of n val] assms by force
  then show ?thesis
    using isExceedBitWidth_signed_correct [of n val] isExceedBitWidth_correct [of n val]
      isValidImmForBitsize_correct [of n val] assms by (auto simp: not_le)
qed

theorem width_predicates_witness:
  "(isExceedBitWidth_signed 200 8 \<longleftrightarrow> sint (200 :: 64 word) < - (2 ^ (8 - 1)) \<or> 2 ^ (8 - 1) \<le> sint (200 :: 64 word)) \<and>
    (isExceedBitWidth 200 8 \<longleftrightarrow> 2 ^ 8 \<le> unat (200 :: 64 word)) \<and>
    isValidImmForBitsize 8 200 = (\<not> isExceedBitWidth 200 8) \<and>
    (isSignedValueOutOfBitWidth 200 8 64 \<longleftrightarrow> isExceedBitWidth_signed 200 8)"
  using width_predicates [of 8 200] by simp

text \<open>
  Splitting the low \<open>m\<close> bits of a value into groups loses nothing: joining the groups gives the low bits back, and
  each group fits its width, unsigned in the first and sign-extended in the second version.
\<close>

theorem splitMbit_roundtrip:
  assumes "list_all (\<lambda>d. 1 \<le> d \<and> d \<le> 63) desc" "sum_list desc \<le> 64"
  shows "join_groups desc (splitMbitToNGroup val (sum_list desc) desc) = take_bit (sum_list desc) val \<and>
    list_all2 (\<lambda>d g. unat g < 2 ^ d) desc (splitMbitToNGroup val (sum_list desc) desc) \<and>
    take_bit (sum_list desc) (join_groups desc (splitMbitToNGroup_signed val (sum_list desc) desc)) =
      take_bit (sum_list desc) val \<and>
    list_all2 (\<lambda>d g. signed_take_bit (d - 1) g = g) desc (splitMbitToNGroup_signed val (sum_list desc) desc)"
proof -
  let ?v = "clear_excess val (sum_list desc)"
  have p: "list_all (\<lambda>d. d \<le> 63) (rev desc)" "list_all (\<lambda>d. 1 \<le> d \<and> d \<le> 63) (rev desc)" "sum_list (rev desc) \<le> 64"
    using assms by (auto simp: list_all_iff)
  note u = split_unsigned_join [OF p(1,3), of ?v] and s = split_signed_join [OF p(2,3), of ?v]
  have t: "take_bit (sum_list desc) ?v = take_bit (sum_list desc) val" using assms(2) by (rule clear_excess_take)
  have g: "sigbits g \<le> d \<longleftrightarrow> unat g < 2 ^ d" for g :: "64 word" and d by (rule sigbits_le_iff)
  show ?thesis
    using u s t by (simp add: join_groups_def splitMbitToNGroup_def splitMbitToNGroup_signed_def g list_all2_rev1)
qed

theorem splitMbit_roundtrip_witness:
  "join_groups [20, 12] (splitMbitToNGroup 0x12345FFF (sum_list [20, 12]) [20, 12]) = take_bit (sum_list [20, 12]) 0x12345FFF \<and>
    list_all2 (\<lambda>d g. unat g < 2 ^ d) [20, 12] (splitMbitToNGroup 0x12345FFF (sum_list [20, 12]) [20, 12]) \<and>
    take_bit (sum_list [20, 12]) (join_groups [20, 12] (splitMbitToNGroup_signed 0x12345FFF (sum_list [20, 12]) [20, 12])) =
      take_bit (sum_list [20, 12]) 0x12345FFF \<and>
    list_all2 (\<lambda>d g. signed_take_bit (d - 1) g = g) [20, 12] (splitMbitToNGroup_signed 0x12345FFF (sum_list [20, 12]) [20, 12])"
  by (rule splitMbit_roundtrip) simp_all

end
