(* ===== verification/FloatConv.thy ===== *)
theory FloatConv
  imports BitField
begin

text \<open>
  Conversions between floating-point formats on the bit patterns: \<^verbatim>\<open>src/com/comf.cpp\<close>,
  \<open>double2BF16\<close>, \<open>float2ESP64\<close>, \<open>float2BF16\<close>, \<open>float2FP16\<close>, \<open>half2EHP64\<close> and
  \<open>bf16ToEHP64\<close>. A pattern is a machine word; its magnitude is the number without the sign
  bit, so that a rounding carry from the mantissa into the exponent is plain addition.
\<close>

section \<open>The conversions\<close>

text \<open>The constants of \<^verbatim>\<open>src/com/comm_macro.h\<close>.\<close>

definition DOUBLE_EXP_MASK :: "64 word" where "DOUBLE_EXP_MASK = 0x7FF0000000000000"
definition DOUBLE_MANT_MASK :: "64 word" where "DOUBLE_MANT_MASK = 0x000FFFFFFFFFFFFF"
definition DOUBLE_SIGN_MASK :: "64 word" where "DOUBLE_SIGN_MASK = 0x8000000000000000"
definition BF16_INF :: "64 word" where "BF16_INF = 0x7F80"
definition BF16_QUIET_NAN :: "64 word" where "BF16_QUIET_NAN = 0x7FC0"
definition STICKY_MASK :: "64 word" where "STICKY_MASK = 0x00000FFFFFFFFFFF"

text \<open>The last step of \<open>double2BF16\<close>; the exponent is an \<open>INT64\<close>.\<close>

definition assembleBF16 :: "64 word \<Rightarrow> int \<Rightarrow> 16 word \<Rightarrow> 64 word" where
  "assembleBF16 sign bf16_exp bf16_mant =
     (let bf16_result = ucast (push_bit 15 sign OR push_bit 7 (word_of_int bf16_exp) OR ucast bf16_mant) :: 16 word
      in ucast bf16_result)"

text \<open>Rounding to nearest, ties to even, with the carry into the exponent.\<close>

definition roundBF16 :: "64 word \<Rightarrow> int \<Rightarrow> 64 word \<Rightarrow> 64 word" where
  "roundBF16 sign bf16_exp mant =
     (let bf16_mant = ucast (drop_bit 45 mant AND 0x7F) :: 16 word;
          round_bit = drop_bit 44 mant AND 1;
          guard_bit = drop_bit 45 mant AND 1;
          sticky_bit = (if mant AND STICKY_MASK \<noteq> 0 then 1 else 0 :: 64 word)
      in if round_bit \<noteq> 0 \<and> (guard_bit \<noteq> 0 \<or> sticky_bit \<noteq> 0 \<or> bf16_mant AND 1 \<noteq> 0)
         then let bf16_mant = bf16_mant + 1
              in if bf16_mant > 0x7F
                 then let bf16_mant = 0; bf16_exp = bf16_exp + 1
                      in if bf16_exp \<ge> 0xFF then push_bit 15 sign OR BF16_INF
                         else assembleBF16 sign bf16_exp bf16_mant
                 else assembleBF16 sign bf16_exp bf16_mant
         else assembleBF16 sign bf16_exp bf16_mant)"

definition double2BF16 :: "64 word \<Rightarrow> 64 word" where
  "double2BF16 double_bits =
     (let sign = drop_bit 63 (double_bits AND DOUBLE_SIGN_MASK);
          exp_raw = uint (drop_bit 52 (double_bits AND DOUBLE_EXP_MASK)) - 1023;
          mant = double_bits AND DOUBLE_MANT_MASK;
          exp_raw_biased = drop_bit 52 (double_bits AND DOUBLE_EXP_MASK)
      in if exp_raw_biased = 0x7FF
         then if mant = 0 then push_bit 15 sign OR BF16_INF
              else let nan_payload = ucast (drop_bit 45 mant AND 0x7F) :: 16 word;
                       nan_payload = (if nan_payload = 0 then 0x40 else nan_payload)
                   in push_bit 15 sign OR BF16_QUIET_NAN OR ucast nan_payload
         else if exp_raw_biased = 0 \<and> mant = 0 then push_bit 15 sign
         else let bf16_exp = exp_raw + 127
              in if bf16_exp \<ge> 0xFF then push_bit 15 sign OR BF16_INF
                 else if bf16_exp \<le> 0 then push_bit 15 sign
                 else roundBF16 sign bf16_exp mant)"

definition float2ESP64 :: "64 word \<Rightarrow> 64 word" where
  "float2ESP64 val =
     (if val = 0 then 0
      else let esp64_val = push_bit 29 (val AND 0x3FFFFFFF);
               orig_exp = val AND 0x7F800000;
               esp64_val = (if orig_exp = 0x7F800000 then esp64_val OR 0x7FF0000000000000
                 else if orig_exp \<noteq> 0
                   then esp64_val OR (if val AND 0x40000000 \<noteq> 0 then 0x4000000000000000 else 0x3800000000000000)
                 else esp64_val)
           in esp64_val OR push_bit 32 (val AND 0x80000000))"

definition float2BF16 :: "32 word \<Rightarrow> 16 word" where
  "float2BF16 val =
     (if val AND 0x7FFFFFFF = 0 then ucast (drop_bit 16 val)
      else let exp = val AND 0x7F800000
           in if exp = 0x7F800000 then ucast ((drop_bit 16 val AND 0x8000) OR 0x7F80 OR (drop_bit 16 val AND 0x7F))
              else if exp = 0 then ucast (drop_bit 16 val AND 0x8000)
              else ucast (drop_bit 16 val AND 0xFFFF))"

definition float2FP16 :: "32 word \<Rightarrow> 16 word" where
  "float2FP16 val =
     (let sign = val AND 0x80000000;
          exp = drop_bit 23 val AND 0xFF;
          mant = val AND 0x007FFFFF
      in if exp = 0 \<and> mant = 0 then ucast (drop_bit 16 sign)
         else if exp = 0xFF
         then let fp16_sign = ucast (drop_bit 16 sign AND 0x8000);
                  fp16_exp = 0x7C00;
                  fp16_mant = ucast (drop_bit 13 mant AND 0x03FF);
                  fp16_mant = (if mant \<noteq> 0 \<and> fp16_mant = 0 then 1 else fp16_mant)
              in fp16_sign OR fp16_exp OR fp16_mant
         else let exp_val = uint exp - 127
              in if exp_val > 15 then ucast (drop_bit 16 sign OR 0x7C00)
                 else if exp_val < - 14 then ucast (drop_bit 16 sign)
                 else let fp16_sign = ucast (drop_bit 16 sign AND 0x8000);
                          fp16_exp = ucast (push_bit 10 (word_of_int (exp_val + 15) AND 0x1F :: 32 word));
                          fp16_mant = ucast (drop_bit 13 mant AND 0x03FF);
                          round_bit = drop_bit 12 mant AND 1;
                          sticky_bits = mant AND 0x0FFF
                      in if round_bit \<noteq> 0 \<and> (fp16_mant AND 1 \<noteq> 0 \<or> sticky_bits \<noteq> 0)
                         then let fp16_mant = fp16_mant + 1
                              in if fp16_mant > 0x03FF
                                 then let fp16_mant = 0; fp16_exp = fp16_exp + 1
                                      in if fp16_exp > 0x7C00 then fp16_sign OR 0x7C00
                                         else fp16_sign OR fp16_exp OR fp16_mant
                                 else fp16_sign OR fp16_exp OR fp16_mant
                         else fp16_sign OR fp16_exp OR fp16_mant)"

definition half2EHP64 :: "64 word \<Rightarrow> 64 word" where
  "half2EHP64 val =
     (if val = 0 then 0
      else let ehp64_val = push_bit 42 (val AND 0x3FFF);
               orig_exp = val AND 0x7C00;
               ehp64_val = (if orig_exp = 0x7C00 then ehp64_val OR 0x7FF0000000000000
                 else if orig_exp \<noteq> 0
                   then ehp64_val OR (if val AND 0x4000 \<noteq> 0 then 0x4000000000000000 else 0x3F00000000000000)
                 else ehp64_val)
           in ehp64_val OR push_bit 48 (val AND 0x8000))"

definition bf16ToEHP64 :: "64 word \<Rightarrow> 64 word" where
  "bf16ToEHP64 val =
     (if val = 0 then 0
      else let ehp64_val = push_bit 45 (val AND 0x7F);
               orig_exp = ucast (val AND 0x7F80) :: 16 word;
               ehp64_val = (if orig_exp = 0x7F80 then ehp64_val OR 0x7FF0000000000000
                 else if orig_exp \<noteq> 0
                   then let exp_bits = drop_bit 7 orig_exp AND 0xFF
                        in ehp64_val OR push_bit 52 (ucast exp_bits + 896)
                 else ehp64_val)
           in ehp64_val OR push_bit 48 (val AND 0x8000))"

definition isFPConstZero :: "64 word \<Rightarrow> bool" where
  "isFPConstZero val = (val AND NOT (push_bit 63 1) = 0)"

definition isFPConstZeroPositive :: "64 word \<Rightarrow> bool" where
  "isFPConstZeroPositive val = (val = 0)"

section \<open>Fields as numbers\<close>

text \<open>The number in \<open>n\<close> bits from position \<open>lo\<close>.\<close>

definition fld :: "nat \<Rightarrow> nat \<Rightarrow> 'a::len word \<Rightarrow> nat" where
  "fld lo n w = unat w div 2 ^ lo mod 2 ^ n"

lemma unat_field: "unat (take_bit n (drop_bit lo w)) = fld lo n (w :: 'a::len word)"
  by (simp only: unsigned_take_bit_eq unat_drop_div fld_def) (simp only: take_bit_eq_mod)

lemma and_mask_field: "drop_bit lo w AND mask n = take_bit n (drop_bit lo (w :: 'a::len word))"
  by (simp add: take_bit_eq_mask)

lemma and_field: "w AND push_bit lo (mask n) = push_bit lo (take_bit n (drop_bit lo (w :: 'a::len word)))"
  by (rule bit_word_eqI) (auto simp: bit_ops bit_take_bit_iff)

lemma or_plus: "(\<And>j. bit a j \<Longrightarrow> \<not> bit b j) \<Longrightarrow> a OR b = a + (b :: 'a::len word)"
proof -
  assume d: "\<And>j. bit a j \<Longrightarrow> \<not> bit b j"
  have "a AND b = 0" by (rule bit_word_eqI) (use d in \<open>auto simp: bit_and_iff\<close>)
  then show ?thesis by (simp add: disjunctive_add_eq_or)
qed

lemma fld_less: "fld lo n w < 2 ^ n"
  by (simp add: fld_def)

text \<open>Rounding the quotient by \<open>2 ^ k\<close> to the nearest number, ties to the even one.\<close>

definition round_even :: "nat \<Rightarrow> nat \<Rightarrow> nat" where
  "round_even k n =
     (let q = n div 2 ^ k; r = n mod 2 ^ k
      in if 2 ^ k < 2 * r \<or> 2 ^ k = 2 * r \<and> odd q then q + 1 else q)"

text \<open>The guard, round and sticky bits of the code decide that rounding.\<close>

lemma round_even_bits:
  "round_even (Suc k) n =
     n div 2 ^ Suc k + (if odd (n div 2 ^ k) \<and> (odd (n div 2 ^ Suc k) \<or> n mod 2 ^ k \<noteq> 0) then 1 else 0)"
proof -
  have r: "n mod 2 ^ Suc k = 2 ^ k * (n div 2 ^ k mod 2) + n mod 2 ^ k"
    using mod_mult2_eq [of n "2 ^ k" 2] by (simp add: mult.commute)
  have l: "n mod 2 ^ k < 2 ^ k" by simp
  show ?thesis
  proof (cases "odd (n div 2 ^ k)")
    case True
    then have "n mod 2 ^ Suc k = 2 ^ k + n mod 2 ^ k" using r by (simp add: odd_iff_mod_2_eq_one)
    then show ?thesis using True by (auto simp: round_even_def Let_def)
  next
    case False
    then have "n mod 2 ^ Suc k = n mod 2 ^ k" using r by (simp add: even_iff_mod_2_eq_zero)
    then have "2 * (n mod 2 ^ Suc k) < 2 ^ Suc k" using l by simp
    then show ?thesis using False unfolding round_even_def Let_def by auto
  qed
qed

lemma bit_unat: "bit w k \<longleftrightarrow> odd (unat (w :: 'a::len word) div 2 ^ k)"
proof -
  have "bit w k \<longleftrightarrow> bit (unat w) k" by (auto simp: bit_unsigned_iff)
  then show ?thesis by (simp only: bit_iff_odd [of "unat w"])
qed

lemma fld_odd: "drop_bit k w AND 1 \<noteq> 0 \<longleftrightarrow> odd (unat (w :: 'a::len word) div 2 ^ k)"
  using and_1_bit [of k w] bit_unat [of w k] by simp

section \<open>Correctness\<close>

lemma double_masks:
  "DOUBLE_SIGN_MASK = push_bit 63 (mask 1)" "DOUBLE_EXP_MASK = push_bit 52 (mask 11)"
  "DOUBLE_MANT_MASK = push_bit 0 (mask 52)" "STICKY_MASK = push_bit 0 (mask 44)" "(0x7F :: 64 word) = mask 7"
  by (simp_all add: DOUBLE_SIGN_MASK_def DOUBLE_EXP_MASK_def DOUBLE_MANT_MASK_def STICKY_MASK_def mask_eq_exp_minus_1)

lemma double_fields:
  "drop_bit 63 (d AND DOUBLE_SIGN_MASK) = of_bool (bit d 63)"
  "unat (drop_bit 52 (d AND DOUBLE_EXP_MASK)) = fld 52 11 d"
  "unat (d AND DOUBLE_MANT_MASK) = fld 0 52 d"
proof -
  show "drop_bit 63 (d AND DOUBLE_SIGN_MASK) = of_bool (bit d 63)"
    unfolding double_masks by (rule bit_word_eqI) (auto simp: bit_ops bit_of_bool_iff bit_1_iff)
  have "drop_bit 52 (d AND DOUBLE_EXP_MASK) = take_bit 11 (drop_bit 52 d)"
    unfolding double_masks by (rule bit_word_eqI) (auto simp: bit_ops bit_take_bit_iff)
  then show "unat (drop_bit 52 (d AND DOUBLE_EXP_MASK)) = fld 52 11 d" by (simp only: unat_field)
  have "d AND DOUBLE_MANT_MASK = take_bit 52 (drop_bit 0 d)"
    unfolding double_masks by (rule bit_word_eqI) (auto simp: bit_ops bit_take_bit_iff)
  then show "unat (d AND DOUBLE_MANT_MASK) = fld 0 52 d" by (simp only: unat_field)
qed

lemma unat_ucast16: "unat (x :: 64 word) < 65536 \<Longrightarrow> unat (ucast x :: 16 word) = unat x"
  by (simp add: unsigned_ucast_eq take_bit_nat_eq_self)

lemma unat_ucast_up: "unat (ucast (x :: 16 word) :: 64 word) = unat x"
proof -
  have "unat x < 2 ^ LENGTH(16)" by (rule unsigned_less)
  then show ?thesis by (simp add: unsigned_ucast_eq take_bit_nat_eq_self)
qed

lemma unat_plus64: "unat (x :: 64 word) + unat y < 2 ^ 64 \<Longrightarrow> unat (x + y) = unat x + unat y"
  by (simp add: unat_word_ariths)

lemma unat_push64: "unat (x :: 64 word) * 2 ^ k < 2 ^ 64 \<Longrightarrow> unat (push_bit k x) = unat x * 2 ^ k"
  by (simp only: unsigned_push_bit_eq) (simp add: push_bit_eq_mult take_bit_nat_eq_self)

lemma high_bit_0: "unat (w :: 'a::len word) < 2 ^ n \<Longrightarrow> n \<le> j \<Longrightarrow> \<not> bit w j"
  using sigbits_bits [of w n] by (simp add: sigbits_le_iff)

lemma assembleBF16_correct:
  assumes "0 \<le> x" "x < 256" "unat m < 128"
  shows "unat (assembleBF16 (of_bool s) x m) = 32768 * of_bool s + nat x * 128 + unat m"
proof -
  define a where "a = push_bit 15 (of_bool s :: 64 word)"
  define b where "b = push_bit 7 (word_of_int x :: 64 word)"
  define c where "c = (ucast m :: 64 word)"
  have a: "unat a = 32768 * of_bool s" unfolding a_def by (cases s) simp_all
  have x: "unat (word_of_int x :: 64 word) = nat x"
  proof -
    have "word_of_int x = (word_of_nat (nat x) :: 64 word)" using assms(1) by simp
    moreover have "unat (word_of_nat (nat x) :: 64 word) = nat x" using assms(2) by (simp add: unat_of_nat)
    ultimately show ?thesis by (simp only:)
  qed
  have b: "unat b = nat x * 128" unfolding b_def using assms(1,2) x by (subst unat_push64) simp_all
  have c: "unat c = unat m" unfolding c_def using assms(3) by (simp add: unsigned_ucast_eq take_bit_nat_eq_self)
  have xb: "\<not> bit (word_of_int x :: 64 word) j" if "8 \<le> j" for j
    by (rule high_bit_0 [OF _ that]) (use x assms(1,2) in simp)
  have cb: "\<not> bit c j" if "7 \<le> j" for j
    by (rule high_bit_0 [OF _ that]) (use c assms(3) in simp)
  have "a OR b OR c = a + (b + c)"
  proof -
    have "b OR c = b + c" by (rule or_plus) (use cb in \<open>auto simp: b_def bit_push_bit_iff\<close>)
    moreover have "a OR (b OR c) = a + (b OR c)"
      by (rule or_plus) (use cb xb in \<open>auto simp: a_def b_def bit_push_bit_iff bit_or_iff bit_of_bool_iff\<close>)
    ultimately show ?thesis by (simp add: or.assoc)
  qed
  moreover have s: "unat (a + (b + c)) = 32768 * of_bool s + nat x * 128 + unat m"
    using a b c assms by (simp add: unat_plus64)
  moreover have "unat (ucast (a + (b + c)) :: 16 word) = unat (a + (b + c))"
    using s assms by (intro unat_ucast16) (cases s; simp)
  moreover have "unat (ucast (ucast (a + (b + c)) :: 16 word) :: 64 word) = unat (ucast (a + (b + c)) :: 16 word)"
    by (rule unat_ucast_up)
  ultimately show ?thesis by (simp only: assembleBF16_def Let_def a_def b_def c_def)
qed

lemma sign_or: "unat m < 32768 \<Longrightarrow> unat (push_bit 15 (of_bool s) OR (m :: 64 word)) = 32768 * of_bool s + unat m"
proof -
  assume m: "unat m < 32768"
  have "\<not> bit m j" if "15 \<le> j" for j by (rule high_bit_0 [OF _ that]) (use m in simp)
  then have "push_bit 15 (of_bool s) OR m = push_bit 15 (of_bool s) + m"
    by (intro or_plus) (auto simp: bit_push_bit_iff bit_of_bool_iff)
  moreover have "unat (push_bit 15 (of_bool s :: 64 word)) = 32768 * of_bool s" by (cases s) simp_all
  ultimately show ?thesis using m by (simp add: unat_plus64)
qed

lemma payload_fld:
  assumes "unat (mant :: 64 word) < 2 ^ 52"
  shows "unat (ucast (drop_bit 45 mant AND 0x7F) :: 16 word) = unat mant div 2 ^ 45"
proof -
  have "drop_bit 45 mant AND 0x7F = take_bit 7 (drop_bit 45 mant)" unfolding double_masks by (rule and_mask_field)
  then have "unat (drop_bit 45 mant AND 0x7F) = unat mant div 2 ^ 45 mod 2 ^ 7" by (simp only: unat_field fld_def)
  moreover have "unat mant div 2 ^ 45 < 128" using assms by (simp add: less_mult_imp_div_less)
  ultimately show ?thesis by (subst unat_ucast16) simp_all
qed

lemma sticky_fld: "mant AND STICKY_MASK \<noteq> 0 \<longleftrightarrow> unat mant mod 2 ^ 44 \<noteq> 0"
proof -
  have "mant AND STICKY_MASK = take_bit 44 (drop_bit 0 mant)"
    unfolding double_masks by (rule bit_word_eqI) (auto simp: bit_ops bit_take_bit_iff)
  then have "unat (mant AND STICKY_MASK) = unat mant mod 2 ^ 44" by (simp only: unat_field fld_def) simp
  then show ?thesis by (metis unat_eq_0)
qed

lemma BF16_INF_or: "unat (push_bit 15 (of_bool s) OR BF16_INF) = 32768 * of_bool s + 32640"
  by (subst sign_or) (simp_all add: BF16_INF_def)

lemma roundBF16_correct:
  assumes "0 \<le> x" "x < 255" "unat mant < 2 ^ 52"
  shows "unat (roundBF16 (of_bool s) x mant) =
    32768 * of_bool s + round_even 45 (nat x * 2 ^ 52 + unat mant)"
proof -
  define q where "q = unat mant div 2 ^ 45"
  define bm where "bm = (ucast (drop_bit 45 mant AND 0x7F) :: 16 word)"
  have bm: "unat bm = q" unfolding bm_def q_def using assms(3) by (rule payload_fld)
  have q: "q < 128" unfolding q_def using assms(3) by (simp add: less_mult_imp_div_less)
  define up where "up \<longleftrightarrow> odd (unat mant div 2 ^ 44) \<and> (odd q \<or> unat mant mod 2 ^ 44 \<noteq> 0)"
  have cond: "(drop_bit 44 mant AND 1 \<noteq> 0 \<and>
      (drop_bit 45 mant AND 1 \<noteq> 0 \<or> (if mant AND STICKY_MASK \<noteq> 0 then 1 else 0 :: 64 word) \<noteq> 0 \<or> bm AND 1 \<noteq> 0)) \<longleftrightarrow> up"
    using fld_odd [of 44 mant] fld_odd [of 45 mant] sticky_fld [of mant] fld_odd [of 0 bm] bm
    by (auto simp: up_def q_def)
  define n where "n = nat x * 2 ^ 52 + unat mant"
  have n1: "n = nat x * 128 * 2 ^ 45 + unat mant" and n2: "n = nat x * 256 * 2 ^ 44 + unat mant" by (simp_all add: n_def)
  have n: "n div 2 ^ 45 = nat x * 128 + q" "n div 2 ^ 44 = nat x * 256 + unat mant div 2 ^ 44"
    "n mod 2 ^ 44 = unat mant mod 2 ^ 44"
    unfolding q_def by (subst n1, rule div_mult_self3, simp, subst n2, rule div_mult_self3, simp, subst n2, rule mod_mult_self3)
  have "round_even 45 n = nat x * 128 + q + (if up then 1 else 0)"
    using round_even_bits [of 44 n] n by (simp add: up_def)
  moreover have "unat (roundBF16 (of_bool s) x mant) = 32768 * of_bool s + (nat x * 128 + q + (if up then 1 else 0))"
  proof (cases up)
    case False
    then have "roundBF16 (of_bool s) x mant = assembleBF16 (of_bool s) x bm"
      using cond by (simp only: roundBF16_def Let_def bm_def [symmetric] if_False)
    then show ?thesis using assembleBF16_correct [of x bm s] assms bm q False by simp
  next
    case True
    have b1: "unat (bm + 1) = q + 1" using bm q by (simp add: unat_word_ariths)
    then have gt: "bm + 1 > 0x7F \<longleftrightarrow> 127 < q + 1" by (simp add: word_less_nat_alt)
    have "roundBF16 (of_bool s) x mant =
        (if bm + 1 > 0x7F
         then if x + 1 \<ge> 0xFF then push_bit 15 (of_bool s) OR BF16_INF else assembleBF16 (of_bool s) (x + 1) 0
         else assembleBF16 (of_bool s) x (bm + 1))"
      using cond True by (simp only: roundBF16_def Let_def bm_def [symmetric] if_True)
    moreover have "nat (x + 1) = nat x + 1" using assms(1) by simp
    ultimately show ?thesis
      using assembleBF16_correct [of x "bm + 1" s] assembleBF16_correct [of "x + 1" 0 s] BF16_INF_or [of s] assms b1 gt q True
      by auto
  qed
  ultimately show ?thesis by (simp add: n_def)
qed

text \<open>What \<open>double2BF16\<close> computes, as the magnitude of the result.\<close>

definition bf16_of_double :: "nat \<Rightarrow> nat \<Rightarrow> nat" where
  "bf16_of_double e m =
     (if e = 2047 then if m = 0 then 0x7F80 else 0x7FC0 OR (m div 2 ^ 45)
      else if e \<le> 896 then 0
      else min 0x7F80 (round_even 45 ((e - 896) * 2 ^ 52 + m)))"

lemma round_even_ge: "x * 2 ^ k \<le> n \<Longrightarrow> x \<le> round_even k n"
proof -
  assume "x * 2 ^ k \<le> n"
  then have "x \<le> n div 2 ^ k" by (simp add: less_eq_div_iff_mult_less_eq)
  then show ?thesis by (auto simp: round_even_def Let_def)
qed

lemma double2BF16_correct:
  "unat (double2BF16 d) = 32768 * of_bool (bit d 63) + bf16_of_double (fld 52 11 d) (fld 0 52 d)"
proof -
  define s where "s = bit d 63"
  define e where "e = fld 52 11 d"
  define mant where "mant = d AND DOUBLE_MANT_MASK"
  define ew where "ew = drop_bit 52 (d AND DOUBLE_EXP_MASK)"
  have ew: "unat ew = e" unfolding ew_def e_def by (rule double_fields)
  have mant: "unat mant = fld 0 52 d" unfolding mant_def by (rule double_fields)
  have m: "unat mant < 2 ^ 52" unfolding mant by (rule fld_less)
  have e: "e < 2048" unfolding e_def using fld_less [of 52 11 d] by simp
  have m0: "mant = 0 \<longleftrightarrow> unat mant = 0" by (simp add: unat_eq_0)
  have e7: "ew = 0x7FF \<longleftrightarrow> e = 2047" using ew word_unat_eq_iff [of ew "0x7FF"] by simp
  have e0: "ew = 0 \<longleftrightarrow> e = 0" using ew by (metis unat_eq_0)
  have ui: "uint ew = int e" using ew by (simp add: uint_nat)
  have st: "double2BF16 d = (if e = 2047
         then if mant = 0 then push_bit 15 (of_bool s) OR BF16_INF
              else let nan_payload = ucast (drop_bit 45 mant AND 0x7F) :: 16 word;
                       nan_payload = (if nan_payload = 0 then 0x40 else nan_payload)
                   in push_bit 15 (of_bool s) OR BF16_QUIET_NAN OR ucast nan_payload
         else if e = 0 \<and> mant = 0 then push_bit 15 (of_bool s)
         else if int e - 1023 + 127 \<ge> 0xFF then push_bit 15 (of_bool s) OR BF16_INF
         else if int e - 1023 + 127 \<le> 0 then push_bit 15 (of_bool s)
         else roundBF16 (of_bool s) (int e - 1023 + 127) mant)"
    by (simp only: double2BF16_def double_fields(1) ew_def [symmetric] mant_def [symmetric] s_def [symmetric]
        ui e7 e0 Let_def)
  show ?thesis
  proof (cases "e = 2047")
    case True
    let ?p = "ucast (drop_bit 45 mant AND 0x7F) :: 16 word"
    have p: "unat ?p = fld 0 52 d div 2 ^ 45" using payload_fld [OF m] mant by simp
    have nan: "unat (push_bit 15 (of_bool s) OR BF16_QUIET_NAN OR ucast np) = 32768 * of_bool s + (0x7FC0 OR unat np)"
      if "unat np < 128" for np :: "16 word"
    proof -
      have "unat (BF16_QUIET_NAN OR ucast np) = 0x7FC0 OR unat np"
        by (simp add: unsigned_or_eq unat_ucast_up BF16_QUIET_NAN_def)
      moreover have "take_bit 15 (0x7FC0 OR unat np) = 0x7FC0 OR unat np"
        using that by (simp only: take_bit_or) (simp add: take_bit_nat_eq_self)
      then have "0x7FC0 OR unat np < 2 ^ 15" by (metis take_bit_nat_less_exp)
      ultimately show ?thesis by (simp add: sign_or)
    qed
    have "fld 0 52 d div 2 ^ 45 < 128" using m mant by (simp add: less_mult_imp_div_less)
    then show ?thesis
      using st True BF16_INF_or [of s] nan [of ?p] nan [of 64] p m0
      by (auto simp: Let_def bf16_of_double_def mant s_def [symmetric] e_def [symmetric] unat_eq_0 [symmetric])
  next
    case False
    show ?thesis
    proof (cases "897 \<le> e \<and> e < 1151")
      case True
      then have "double2BF16 d = roundBF16 (of_bool s) (int e - 1023 + 127) mant" using st False by auto
      moreover have "nat (int e - 1023 + 127) = e - 896" using True by simp
      moreover have "round_even 45 ((e - 896) * 2 ^ 52 + unat mant) \<le> 32640"
      proof -
        have "(e - 896) * 2 ^ 52 \<le> 254 * 2 ^ 52" using True by (intro mult_le_mono1) linarith
        then have "(e - 896) * 2 ^ 52 + unat mant < 255 * 2 ^ 52" using m by simp
        then have "((e - 896) * 2 ^ 52 + unat mant) div 2 ^ 45 < 255 * 128" by (simp add: less_mult_imp_div_less)
        then show ?thesis by (auto simp: round_even_def Let_def)
      qed
      ultimately show ?thesis
        using roundBF16_correct [of "int e - 1023 + 127" mant s] True m
        by (simp add: bf16_of_double_def s_def e_def mant)
    next
      case out: False
      have z: "unat (push_bit 15 (of_bool s :: 64 word)) = 32768 * of_bool s" using sign_or [of 0 s] by simp
      have "32640 \<le> round_even 45 ((e - 896) * 2 ^ 52 + unat mant)" if "1151 \<le> e"
        using that by (intro round_even_ge) simp
      then show ?thesis using out False st z BF16_INF_or [of s]
        by (auto simp: bf16_of_double_def s_def e_def mant)
    qed
  qed
qed

section \<open>Widening conversions\<close>

text \<open>
  The three widening functions on a narrow pattern: the sign moves to bit 63, an exponent that is
  neither 0 nor maximal is rebiased by \<open>bias\<close>, the mantissa moves to the top of the wide one.
\<close>

definition widen :: "nat \<Rightarrow> nat \<Rightarrow> nat \<Rightarrow> nat \<Rightarrow> nat \<Rightarrow> nat \<Rightarrow> nat" where
  "widen e_max bias shift s e m =
     s * 2 ^ 63 + (if e = e_max then 2047 else if e = 0 then 0 else e + bias) * 2 ^ 52 + m * 2 ^ shift"

text \<open>Sign, exponent and mantissa determine the number of a pattern.\<close>

lemma narrow_split:
  assumes "unat (w :: 'a::len word) < 2 ^ (m + e + 1)"
  shows "unat w = of_bool (bit w (m + e)) * 2 ^ (m + e) + fld m e w * 2 ^ m + fld 0 m w"
proof -
  have b: "of_bool (bit w (m + e)) = unat w div 2 ^ (m + e)"
  proof -
    have "unat w div 2 ^ (m + e) < 2" using assms by (simp add: less_mult_imp_div_less)
    then show ?thesis using bit_unat [of w "m + e"] by (cases "unat w div 2 ^ (m + e) = 0") (auto simp: less_2_cases_iff)
  qed
  have "unat w = unat w div 2 ^ m * 2 ^ m + unat w mod 2 ^ m" by (rule div_mult_mod_eq [symmetric])
  also have "unat w div 2 ^ m = unat w div 2 ^ m div 2 ^ e * 2 ^ e + unat w div 2 ^ m mod 2 ^ e"
    by (rule div_mult_mod_eq [symmetric])
  also have "unat w div 2 ^ m div 2 ^ e = unat w div 2 ^ (m + e)"
    by (simp only: div_mult2_eq [symmetric] power_add)
  finally show ?thesis unfolding b fld_def by (simp only: power_add distrib_right distrib_left mult_ac add_ac div_by_1 power_0)
qed

text \<open>The three fields of a 64-bit result, put together with OR.\<close>

lemma pack64:
  assumes "unat m < 2 ^ 52" "unat ex < 2048"
  shows "unat ((m OR push_bit 52 ex) OR push_bit 63 (of_bool b)) = of_bool b * 2 ^ 63 + unat ex * 2 ^ 52 + unat (m :: 64 word)"
proof -
  have mb: "\<not> bit m j" if "52 \<le> j" for j by (rule high_bit_0 [OF assms(1) that])
  have xb: "\<not> bit ex j" if "11 \<le> j" for j by (rule high_bit_0 [OF _ that]) (use assms(2) in simp)
  have x: "unat (push_bit 52 ex) = unat ex * 2 ^ 52" using assms(2) by (subst unat_push64) simp_all
  have s: "unat (push_bit 63 (of_bool b :: 64 word)) = of_bool b * 2 ^ 63" by (cases b) simp_all
  have "m OR push_bit 52 ex = m + push_bit 52 ex" by (rule or_plus) (use mb in \<open>auto simp: bit_push_bit_iff\<close>)
  moreover have "(m OR push_bit 52 ex) OR push_bit 63 (of_bool b) = (m OR push_bit 52 ex) + push_bit 63 (of_bool b)"
    by (rule or_plus) (use mb xb in \<open>auto simp: bit_push_bit_iff bit_or_iff bit_of_bool_iff\<close>)
  moreover have "unat (m + push_bit 52 ex) = unat m + unat ex * 2 ^ 52" using assms x by (subst unat_plus64) simp_all
  moreover have "unat m + unat ex * 2 ^ 52 + of_bool b * 2 ^ 63 < 2 ^ 64" using assms by (cases b) simp_all
  ultimately show ?thesis using s unat_plus64 [of "m + push_bit 52 ex" "push_bit 63 (of_bool b)"] by simp
qed

lemma sign_field: "push_bit j (val AND push_bit k (mask 1)) = push_bit (j + k) (of_bool (bit (val :: 64 word) k))"
  by (rule bit_word_eqI) (auto simp: bit_push_bit_iff bit_and_iff bit_of_bool_iff bit_exp_iff bit_imp_le_length)

lemma bf16_masks:
  "(0x7F :: 64 word) = mask 7" "(0x7F80 :: 64 word) = push_bit 7 (mask 8)" "(0x8000 :: 64 word) = push_bit 15 (mask 1)"
  "(0xFF :: 16 word) = mask 8"
  by (simp_all add: mask_eq_exp_minus_1)

lemma bf16ToEHP64_correct:
  assumes "unat val < 2 ^ 16"
  shows "unat (bf16ToEHP64 val) = widen 255 896 45 (of_bool (bit val 15)) (fld 7 8 val) (fld 0 7 val)"
proof (cases "val = 0")
  case True
  then show ?thesis by (simp add: bf16ToEHP64_def widen_def fld_def)
next
  case False
  define s where "s = push_bit 48 (val AND 0x8000)"
  define m where "m = push_bit 45 (val AND 0x7F)"
  define oe where "oe = (ucast (val AND 0x7F80) :: 16 word)"
  have oe: "unat oe = fld 7 8 val * 2 ^ 7"
  proof -
    have "unat (val AND 0x7F80) = fld 7 8 val * 2 ^ 7" unfolding bf16_masks and_field
      using fld_less [of 7 8 val] by (subst unat_push64) (simp_all add: unat_field)
    then show ?thesis unfolding oe_def using fld_less [of 7 8 val] by (subst unat_ucast16) simp_all
  qed
  define eb where "eb = (drop_bit 7 oe AND 0xFF :: 16 word)"
  have eb: "unat eb = fld 7 8 val"
    unfolding eb_def bf16_masks and_mask_field unat_field using fld_less [of 7 8 val] oe by (simp add: fld_def)
  have e: "oe = 0x7F80 \<longleftrightarrow> fld 7 8 val = 255" "oe = 0 \<longleftrightarrow> fld 7 8 val = 0"
    using oe word_unat_eq_iff [of oe "0x7F80"] word_unat_eq_iff [of oe 0] by simp_all
  have mb: "unat m = fld 0 7 val * 2 ^ 45"
  proof -
    have "val AND 0x7F = take_bit 7 (drop_bit 0 val)" unfolding bf16_masks by (simp add: take_bit_eq_mask)
    then have "unat (val AND 0x7F) = fld 0 7 val" by (simp only: unat_field)
    then show ?thesis unfolding m_def using fld_less [of 0 7 val] by (subst unat_push64) simp_all
  qed
  have sb: "s = push_bit 63 (of_bool (bit val 15))" unfolding s_def bf16_masks sign_field by simp
  define ex :: "64 word" where "ex = (if fld 7 8 val = 255 then 2047 else if fld 7 8 val = 0 then 0 else ucast eb + 896)"
  have st: "bf16ToEHP64 val = (m OR push_bit 52 ex) OR s"
    using False e by (auto simp: bf16ToEHP64_def Let_def s_def m_def oe_def eb_def ex_def)
  have xb: "unat ex = (if fld 7 8 val = 255 then 2047 else if fld 7 8 val = 0 then 0 else fld 7 8 val + 896)"
    unfolding ex_def using eb fld_less [of 7 8 val] by (auto simp: unat_plus64 unat_ucast_up)
  have "unat m < 2 ^ 52" "unat ex < 2048" using mb xb fld_less [of 0 7 val] fld_less [of 7 8 val] by simp_all
  then show ?thesis unfolding st sb by (subst pack64) (simp_all add: widen_def mb xb)
qed

text \<open>
  \<open>float2ESP64\<close> and \<open>half2EHP64\<close> copy the mantissa together with all exponent bits but the highest
  and OR a constant onto the exponent.
\<close>

lemma pack_low:
  assumes "sh + m = 52" "j + k = 63" "unat (take_bit r (drop_bit m val) OR c) < 2048"
  shows "unat ((push_bit sh (val AND mask (m + r)) OR push_bit 52 c) OR push_bit j (val AND push_bit k (mask 1))) =
    of_bool (bit val k) * 2 ^ 63 + unat (take_bit r (drop_bit m val) OR c) * 2 ^ 52 + fld 0 m (val :: 64 word) * 2 ^ sh"
proof -
  have e: "push_bit sh (val AND mask (m + r)) OR push_bit 52 c =
      push_bit sh (take_bit m (drop_bit 0 val)) OR push_bit 52 (take_bit r (drop_bit m val) OR c)"
  proof (rule bit_word_eqI)
    fix n assume "n < LENGTH(64)"
    have i: "m + (n - 52) = n - sh" if "52 \<le> n" using that assms(1) by simp
    show "bit (push_bit sh (val AND mask (m + r)) OR push_bit 52 c) n \<longleftrightarrow>
        bit (push_bit sh (take_bit m (drop_bit 0 val)) OR push_bit 52 (take_bit r (drop_bit m val) OR c)) n"
      using assms(1) i by (cases "52 \<le> n") (auto simp: bit_ops bit_take_bit_iff)
  qed
  have s: "push_bit j (val AND push_bit k (mask 1)) = push_bit 63 (of_bool (bit val k))"
    unfolding sign_field assms(2) by simp
  have f: "fld 0 m val < 2 ^ m" by (rule fld_less)
  have "fld 0 m val * 2 ^ sh < 2 ^ m * 2 ^ sh" using f by simp
  also have "\<dots> = (2 :: nat) ^ 52" using assms(1) by (metis add.commute power_add)
  finally have l: "fld 0 m val * 2 ^ sh < 2 ^ 52" .
  have "unat (push_bit sh (take_bit m (drop_bit 0 val))) = fld 0 m val * 2 ^ sh"
    using l by (subst unat_push64) (simp_all only: unat_field, simp)
  then show ?thesis unfolding e s using pack64 [OF _ assms(3), of "push_bit sh (take_bit m (drop_bit 0 val))" "bit val k"] l by simp
qed

lemma or_exp:
  fixes x :: "64 word"
  shows "unat x < 2048 \<Longrightarrow> unat (x OR 0x7FF) = 2047"
    "unat x < 128 \<Longrightarrow> unat (x OR 0x400) = unat x + 1024" "unat x < 128 \<Longrightarrow> unat (x OR 0x380) = unat x + 896"
    "unat x < 16 \<Longrightarrow> unat (x OR 0x3F0) = unat x + 1008"
proof -
  assume x: "unat x < 2048"
  have "j < 11" if "bit x j" for j by (rule ccontr) (use high_bit_0 [of x 11 j] that x in simp)
  then have "x OR mask 11 = mask 11" by (intro bit_word_eqI) (auto simp: bit_or_iff bit_mask_iff not_le)
  then show "unat (x OR 0x7FF) = 2047" by (simp add: mask_eq_exp_minus_1)
next
  have low: "unat (x OR push_bit k c) = unat x + unat (push_bit k c)" if "unat x < 2 ^ k" "unat x + unat (push_bit k c) < 2 ^ 64" for k c
    using that high_bit_0 [OF that(1)] by (subst or_plus) (auto simp: bit_push_bit_iff unat_plus64)
  { assume "unat x < 128" then show "unat (x OR 0x400) = unat x + 1024" using low [of 7 8] by simp
  next assume "unat x < 128" then show "unat (x OR 0x380) = unat x + 896" using low [of 7 7] by simp
  next assume "unat x < 16" then show "unat (x OR 0x3F0) = unat x + 1008" using low [of 4 63] by simp }
qed

lemma exp_split: "fld m (Suc r) w = of_bool (bit w (m + r)) * 2 ^ r + fld m r (w :: 64 word)"
proof -
  have "fld m (Suc r) w = 2 ^ r * (unat w div 2 ^ m div 2 ^ r mod 2) + unat w div 2 ^ m mod 2 ^ r"
    unfolding fld_def using mod_mult2_eq [of "unat w div 2 ^ m" "2 ^ r" 2] by (simp add: mult.commute)
  moreover have "unat w div 2 ^ m div 2 ^ r = unat w div 2 ^ (m + r)" by (simp only: div_mult2_eq power_add)
  ultimately show ?thesis using bit_unat [of w "m + r"] by (auto simp: fld_def odd_iff_mod_2_eq_one even_iff_mod_2_eq_zero)
qed

lemma field_const:
  fixes w :: "'a::len word"
  assumes "m + n \<le> LENGTH('a)"
  shows "w AND push_bit m (mask n) = push_bit m (mask n) \<longleftrightarrow> fld m n w = 2 ^ n - 1" "w AND push_bit m (mask n) = 0 \<longleftrightarrow> fld m n w = 0"
proof -
  have i: "push_bit m a = push_bit m b \<longleftrightarrow> a = b" if "\<And>j. n \<le> j \<Longrightarrow> \<not> bit a j" "\<And>j. n \<le> j \<Longrightarrow> \<not> bit b j" for a b :: "'a word"
  proof
    assume e: "push_bit m a = push_bit m b"
    show "a = b"
    proof (rule bit_word_eqI)
      fix j assume "j < LENGTH('a)"
      show "bit a j \<longleftrightarrow> bit b j"
        using arg_cong [OF e, of "\<lambda>w. bit w (m + j)"] that [of j] assms by (cases "j < n") (auto simp: bit_push_bit_iff)
    qed
  qed simp
  have u: "unat (mask n :: 'a word) = 2 ^ n - 1"
  proof -
    have "uint (mask n :: 'a word) = 2 ^ n - 1"
      using assms by (simp only: uint_mask_eq) (simp add: min_def mask_eq_exp_minus_1)
    then show ?thesis by (simp add: unat_eq_nat_uint nat_diff_distrib nat_power_eq)
  qed
  show "w AND push_bit m (mask n) = push_bit m (mask n) \<longleftrightarrow> fld m n w = 2 ^ n - 1"
    unfolding and_field by (subst i) (auto simp: bit_take_bit_iff bit_mask_iff word_unat_eq_iff unat_field u)
  show "w AND push_bit m (mask n) = 0 \<longleftrightarrow> fld m n w = 0"
    using i [of "take_bit n (drop_bit m w)" 0]
    unfolding and_field by (simp add: bit_take_bit_iff word_unat_eq_iff unat_field)
qed

lemma single_masks:
  "(0x3FFFFFFF :: 64 word) = mask (23 + 7)" "(0x7F800000 :: 64 word) = push_bit 23 (mask 8)"
  "(0x80000000 :: 64 word) = push_bit 31 (mask 1)" "(0x3FFF :: 64 word) = mask (10 + 4)"
  "(0x7C00 :: 64 word) = push_bit 10 (mask 5)" "(0x8000 :: 64 word) = push_bit 15 (mask 1)"
  by (simp_all add: mask_eq_exp_minus_1)

lemma exp_consts:
  "(0x7FF0000000000000 :: 64 word) = push_bit 52 0x7FF" "(0x4000000000000000 :: 64 word) = push_bit 52 0x400"
  "(0x3800000000000000 :: 64 word) = push_bit 52 0x380" "(0x3F00000000000000 :: 64 word) = push_bit 52 0x3F0"
  by simp_all

lemma bit_and_exp: "k < 64 \<Longrightarrow> (w :: 64 word) AND 2 ^ k \<noteq> 0 \<longleftrightarrow> bit w k"
  using one_bit_and [of k w] by (simp add: and.commute exp_neq_0)

lemma float2ESP64_correct:
  assumes "unat val < 2 ^ 32"
  shows "unat (float2ESP64 val) = widen 255 896 29 (of_bool (bit val 31)) (fld 23 8 val) (fld 0 23 val)"
proof (cases "val = 0")
  case True
  then show ?thesis by (simp add: float2ESP64_def widen_def fld_def)
next
  case False
  define c :: "64 word" where
    "c = (if fld 23 8 val = 255 then 0x7FF else if fld 23 8 val = 0 then 0 else if bit val 30 then 0x400 else 0x380)"
  define x where "x = take_bit 7 (drop_bit 23 val)"
  have x: "unat x = fld 23 7 val" "unat x < 128" unfolding x_def using fld_less [of 23 7 val] by (simp_all add: unat_field)
  have f: "val AND 0x7F800000 = 0x7F800000 \<longleftrightarrow> fld 23 8 val = 255" "val AND 0x7F800000 = 0 \<longleftrightarrow> fld 23 8 val = 0"
    using field_const [of 23 8 val] unfolding single_masks by simp_all
  have b: "val AND 0x40000000 \<noteq> 0 \<longleftrightarrow> bit val 30" using bit_and_exp [of 30 val] by simp
  have st: "float2ESP64 val = (push_bit 29 (val AND mask (23 + 7)) OR push_bit 52 c) OR push_bit 32 (val AND push_bit 31 (mask 1))"
    using False b
    by (simp only: float2ESP64_def Let_def f c_def exp_consts single_masks [symmetric] if_False) (simp split: if_split)
  have e: "fld 23 8 val = of_bool (bit val 30) * 128 + unat x" using exp_split [of 23 7 val] x by simp
  have ex: "unat (x OR c) = (if fld 23 8 val = 255 then 2047 else if fld 23 8 val = 0 then 0 else fld 23 8 val + 896)"
    using or_exp [of x] x(2) e unfolding c_def by (cases "bit val 30") auto
  then have "unat (x OR c) < 2048" using fld_less [of 23 8 val] by auto
  then show ?thesis
    unfolding st using pack_low [of 29 23 32 31 7 val c] ex by (simp add: x_def widen_def)
qed

lemma half2EHP64_correct:
  assumes "unat val < 2 ^ 16"
  shows "unat (half2EHP64 val) = widen 31 1008 42 (of_bool (bit val 15)) (fld 10 5 val) (fld 0 10 val)"
proof (cases "val = 0")
  case True
  then show ?thesis by (simp add: half2EHP64_def widen_def fld_def)
next
  case False
  define c :: "64 word" where
    "c = (if fld 10 5 val = 31 then 0x7FF else if fld 10 5 val = 0 then 0 else if bit val 14 then 0x400 else 0x3F0)"
  define x where "x = take_bit 4 (drop_bit 10 val)"
  have x: "unat x = fld 10 4 val" "unat x < 16" unfolding x_def using fld_less [of 10 4 val] by (simp_all add: unat_field)
  have f: "val AND 0x7C00 = 0x7C00 \<longleftrightarrow> fld 10 5 val = 31" "val AND 0x7C00 = 0 \<longleftrightarrow> fld 10 5 val = 0"
    using field_const [of 10 5 val] unfolding single_masks by simp_all
  have b: "val AND 0x4000 \<noteq> 0 \<longleftrightarrow> bit val 14" using bit_and_exp [of 14 val] by simp
  have st: "half2EHP64 val = (push_bit 42 (val AND mask (10 + 4)) OR push_bit 52 c) OR push_bit 48 (val AND push_bit 15 (mask 1))"
    using False b
    by (simp only: half2EHP64_def Let_def f c_def exp_consts single_masks [symmetric] if_False) (simp split: if_split)
  have e: "fld 10 5 val = of_bool (bit val 14) * 16 + unat x" using exp_split [of 10 4 val] x by simp
  have ex: "unat (x OR c) = (if fld 10 5 val = 31 then 2047 else if fld 10 5 val = 0 then 0 else fld 10 5 val + 1008)"
    using or_exp [of x] x(2) e unfolding c_def by (cases "bit val 14") auto
  then have "unat (x OR c) < 2048" using fld_less [of 10 5 val] by auto
  then show ?thesis
    unfolding st using pack_low [of 42 10 48 15 4 val c] ex by (simp add: x_def widen_def)
qed

section \<open>Narrowing of single precision\<close>

lemma bit_sign_consts: "bit (32768 :: int) j \<longleftrightarrow> j = 15" "bit (2147483648 :: int) j \<longleftrightarrow> j = 31"
  using bit_exp_iff [of 15 j, where 'a = int] bit_exp_iff [of 31 j, where 'a = int] by auto

lemma float2BF16_correct:
  "unat (float2BF16 val) = (if fld 23 8 val = 0 then of_bool (bit val 31) * 32768 else unat val div 65536)"
proof -
  let ?h = "drop_bit 16 val"
  have c: "(0x7FFFFFFF :: 32 word) = mask 31" "(0x7F800000 :: 32 word) = push_bit 23 (mask 8)"
    "(0x8000 :: 32 word) = push_bit 15 (mask 1)" "(0x7F80 :: 32 word) = push_bit 7 (mask 8)"
    "(0x7F :: 32 word) = mask 7" "(0xFFFF :: 32 word) = mask 16"
    by (simp_all add: mask_eq_exp_minus_1)
  note f = field_const [of 23 8 val, folded c(2), simplified]
  have low: "unat (ucast x :: 16 word) = unat x" if "unat x < 65536" for x :: "32 word"
    using that by (simp add: unsigned_ucast_eq take_bit_nat_eq_self)
  have h: "unat ?h = unat val div 65536" by (simp add: unat_drop_div)
  have "unat val < 2 ^ LENGTH(32)" by (rule unsigned_less)
  then have h16: "unat ?h < 65536" unfolding h by (simp add: less_mult_imp_div_less)
  have hb: "\<not> bit val (16 + j)" if "16 \<le> j" for j using that bit_imp_le_length [of val "16 + j"] by auto
  have sg: "unat (push_bit 15 (of_bool (bit val 31)) :: 32 word) = of_bool (bit val 31) * 32768" by (cases "bit val 31") simp_all
  show ?thesis
  proof (cases "fld 23 8 val = 0")
    case True
    have "?h AND 0x8000 = push_bit 15 (of_bool (bit val 31))"
      by (rule bit_word_eqI) (simp add: bit_ops bit_sign_consts bit_of_bool_iff, auto)
    moreover have "?h = push_bit 15 (of_bool (bit val 31))" if "val AND 0x7FFFFFFF = 0"
    proof (rule bit_word_eqI)
      fix j assume "j < LENGTH(32)"
      have "\<not> bit val i" if "i < 31" for i
        using arg_cong [OF \<open>val AND 0x7FFFFFFF = 0\<close>, of "\<lambda>w. bit w i"] that unfolding c by (simp add: bit_and_iff bit_mask_iff)
      then show "bit ?h j \<longleftrightarrow> bit (push_bit 15 (of_bool (bit val 31)) :: 32 word) j"
        using hb [of j] by (cases "j < 15"; cases "j = 15") (auto simp: bit_drop_bit_eq bit_push_bit_iff bit_of_bool_iff)
    qed
    ultimately have "float2BF16 val = ucast (push_bit 15 (of_bool (bit val 31)) :: 32 word)"
      using True f by (auto simp: float2BF16_def)
    moreover have "unat (push_bit 15 (of_bool (bit val 31)) :: 32 word) < 65536" unfolding sg by simp
    ultimately show ?thesis using low sg True by simp
  next
    case False
    then have z: "val AND 0x7FFFFFFF \<noteq> 0"
    proof -
      have "val AND 0x7F800000 = (val AND 0x7FFFFFFF) AND 0x7F800000" by (simp add: and.assoc)
      then show ?thesis using False f by auto
    qed
    have "(?h AND 0x8000) OR 0x7F80 OR (?h AND 0x7F) = ?h" if "val AND 0x7F800000 = 0x7F800000"
    proof (rule bit_word_eqI)
      fix j assume "j < LENGTH(32)"
      have "bit val i" if "23 \<le> i" "i < 31" for i
        using arg_cong [OF \<open>val AND 0x7F800000 = 0x7F800000\<close>, of "\<lambda>w. bit w i"] that
        unfolding c by (simp add: bit_and_iff bit_push_bit_iff bit_mask_iff less_diff_conv2)
      then show "bit ((?h AND 0x8000) OR 0x7F80 OR (?h AND 0x7F)) j \<longleftrightarrow> bit ?h j"
        using hb [of j] unfolding c(4,5)
        by (cases "j < 7"; cases "j < 15"; cases "j = 15") (simp_all add: bit_ops bit_sign_consts less_diff_conv2)
    qed
    moreover have "?h AND 0xFFFF = ?h"
      unfolding c by (rule bit_word_eqI) (use hb in \<open>auto simp: bit_ops not_le [symmetric]\<close>)
    ultimately have "float2BF16 val = ucast ?h" using z False f by (simp add: float2BF16_def)
    then show ?thesis using low [OF h16] h False by simp
  qed
qed

lemma float2FP16_correct:
  "unat (float2FP16 val) = of_bool (bit val 31) * 32768 + (let e = fld 23 8 val; m = fld 0 23 val in
     if e = 255 then 0x7C00 + (if m \<noteq> 0 \<and> m div 2 ^ 13 = 0 then 1 else m div 2 ^ 13)
     else if e > 142 then 0x7C00
     else if e < 113 then 0
     else if m \<ge> 0x7FF000 then (e - 112) * 1024 + 1
     else round_even 13 ((e - 112) * 2 ^ 23 + m))"
proof -
  define sg where "sg = bit val 31"
  define e where "e = fld 23 8 val"
  define mant where "mant = val AND 0x007FFFFF"
  define fs where "fs = (ucast (drop_bit 16 (val AND 0x80000000) AND 0x8000) :: 16 word)"
  define fm where "fm = (ucast (drop_bit 13 mant AND 0x03FF) :: 16 word)"
  have c: "(0x80000000 :: 32 word) = push_bit 31 (mask 1)" "(0x007FFFFF :: 32 word) = mask 23" "(0xFF :: 32 word) = mask 8"
    "(0x03FF :: 32 word) = mask 10" "(0x0FFF :: 32 word) = mask 12"
    by (simp_all add: mask_eq_exp_minus_1)
  have sw: "drop_bit 16 (val AND 0x80000000) = push_bit 15 (of_bool sg)"
    unfolding sg_def by (rule bit_word_eqI) (simp add: bit_ops bit_sign_consts bit_of_bool_iff, auto)
  have sw': "drop_bit 16 (val AND 0x80000000) AND 0x8000 = push_bit 15 (of_bool sg)"
    unfolding sw by (rule bit_word_eqI) (simp add: bit_ops bit_sign_consts bit_of_bool_iff, auto)
  have u16: "unat (ucast (x :: 32 word) :: 16 word) = unat x" if "unat x < 65536" for x
    using that by (simp add: unsigned_ucast_eq take_bit_nat_eq_self)
  have fs: "fs = push_bit 15 (of_bool sg)" unfolding fs_def sw' by (cases sg) simp_all
  have fsz: "ucast (drop_bit 16 (val AND 0x80000000)) = fs" unfolding fs sw by (cases sg) simp_all
  have comb: "unat (fs OR x) = 32768 * of_bool sg + unat x" if "unat x < 32768" for x
  proof -
    have "\<not> bit x 15" by (rule high_bit_0 [of x 15]) (use that in simp_all)
    moreover have "j = 15" if "bit fs j" for j using that unfolding fs by (auto simp: bit_push_bit_iff bit_of_bool_iff)
    ultimately have "fs OR x = fs + x" by (intro or_plus) auto
    moreover have "unat fs = 32768 * of_bool sg" unfolding fs by (cases sg) simp_all
    ultimately show ?thesis using that by (cases sg) (simp_all add: unat_word_ariths)
  qed
  have ex: "unat (drop_bit 23 val AND 0xFF) = e" unfolding c e_def and_mask_field unat_field ..
  have m: "unat mant = fld 0 23 val"
  proof -
    have "mant = take_bit 23 (drop_bit 0 val)" unfolding mant_def c by (simp add: take_bit_eq_mask)
    then show ?thesis by (simp only: unat_field)
  qed
  have m23: "unat mant < 2 ^ 23" unfolding m by (rule fld_less)
  have e256: "e < 256" unfolding e_def using fld_less [of 23 8 val] by simp
  define q where "q = unat mant div 2 ^ 13"
  have q: "q < 1024" unfolding q_def using m23 by (simp add: less_mult_imp_div_less)
  have fm: "unat fm = q"
  proof -
    have "unat (drop_bit 13 mant AND 0x03FF) = q mod 2 ^ 10" unfolding c and_mask_field unat_field fld_def q_def ..
    then show ?thesis unfolding fm_def using q by (subst u16) simp_all
  qed
  define up where "up \<longleftrightarrow> odd (unat mant div 2 ^ 12) \<and> (odd q \<or> unat mant mod 2 ^ 12 \<noteq> 0)"
  have st12: "mant AND 0x0FFF \<noteq> 0 \<longleftrightarrow> unat mant mod 2 ^ 12 \<noteq> 0"
  proof -
    have "mant AND 0x0FFF = take_bit 12 (drop_bit 0 mant)" unfolding c by (simp add: take_bit_eq_mask)
    then have "unat (mant AND 0x0FFF) = unat mant mod 2 ^ 12" by (simp only: unat_field fld_def) simp
    then show ?thesis by (metis unat_eq_0)
  qed
  have cond: "(drop_bit 12 mant AND 1 \<noteq> 0 \<and> (fm AND 1 \<noteq> 0 \<or> mant AND 0x0FFF \<noteq> 0)) \<longleftrightarrow> up"
    using fld_odd [of 12 mant] fld_odd [of 0 fm] st12 fm by (auto simp: up_def)
  define fe where "fe = (ucast (push_bit 10 (word_of_int (int e - 127 + 15) AND 0x1F :: 32 word)) :: 16 word)"
  have e0: "drop_bit 23 val AND 0xFF = 0 \<longleftrightarrow> e = 0" "drop_bit 23 val AND 0xFF = 0xFF \<longleftrightarrow> e = 255"
    using ex word_unat_eq_iff [of "drop_bit 23 val AND 0xFF" 0] word_unat_eq_iff [of "drop_bit 23 val AND 0xFF" "0xFF"] by simp_all
  have ui: "uint (drop_bit 23 val AND 0xFF) = int e" using ex by (simp add: uint_nat)
  have m0: "mant = 0 \<longleftrightarrow> unat mant = 0" by (simp add: unat_eq_0)
  have st: "float2FP16 val =
      (if e = 0 \<and> mant = 0 then fs
       else if e = 255 then fs OR 0x7C00 OR (if mant \<noteq> 0 \<and> fm = 0 then 1 else fm)
       else if int e - 127 > 15 then ucast (drop_bit 16 (val AND 0x80000000) OR 0x7C00)
       else if int e - 127 < - 14 then fs
       else if up
         then if fm + 1 > 0x03FF
              then if fe + 1 > 0x7C00 then fs OR 0x7C00 else fs OR (fe + 1) OR 0
              else fs OR fe OR (fm + 1)
         else fs OR fe OR fm)"
    by (simp only: float2FP16_def Let_def mant_def [symmetric] fm_def [symmetric] fs_def [symmetric] fsz e0 ui cond fe_def [symmetric])
  have or10: "unat (push_bit 10 a OR y) = unat a * 1024 + unat y" if "unat a < 32" "unat y < 1024" for a y :: "16 word"
  proof -
    have "\<not> bit y j" if "10 \<le> j" for j by (rule high_bit_0 [OF _ that]) (use \<open>unat y < 1024\<close> in simp)
    then have "push_bit 10 a OR y = push_bit 10 a + y" by (intro or_plus) (auto simp: bit_push_bit_iff)
    moreover have "unat (push_bit 10 a) = unat a * 1024"
      using that by (simp only: unsigned_push_bit_eq) (simp add: push_bit_eq_mult take_bit_nat_eq_self)
    ultimately show ?thesis using that by (simp add: unat_word_ariths)
  qed
  have inf: "(0x7C00 :: 16 word) = push_bit 10 31" by simp
  have fe: "fe = push_bit 10 (word_of_nat (e - 112))" if "113 \<le> e" "e \<le> 142"
  proof -
    have w: "word_of_int (int e - 127 + 15) = (word_of_nat (e - 112) :: 32 word)"
      using that by (simp add: of_nat_diff)
    have u: "unat (word_of_nat (e - 112) :: 32 word) = e - 112" "unat (word_of_nat (e - 112) :: 16 word) = e - 112"
      using that by (simp_all only: unat_of_nat) simp_all
    have "word_of_nat (e - 112) AND 0x1F = take_bit 5 (word_of_nat (e - 112) :: 32 word)"
      by (simp add: take_bit_eq_mask mask_eq_exp_minus_1)
    then have "unat (word_of_nat (e - 112) AND 0x1F :: 32 word) = e - 112"
      using that u by (simp only: unsigned_take_bit_eq) (simp add: take_bit_nat_eq_self)
    then have "unat (push_bit 10 (word_of_int (int e - 127 + 15) AND 0x1F :: 32 word)) = (e - 112) * 1024"
      using that by (simp only: w unsigned_push_bit_eq) (simp add: push_bit_eq_mult take_bit_nat_eq_self)
    then have "unat fe = (e - 112) * 1024" unfolding fe_def using that by (subst u16) simp_all
    moreover have "unat (push_bit 10 (word_of_nat (e - 112)) :: 16 word) = (e - 112) * 1024"
      using that u by (simp only: unsigned_push_bit_eq) (simp add: push_bit_eq_mult take_bit_nat_eq_self)
    ultimately show ?thesis by (simp only: word_unat_eq_iff)
  qed
  have n1: "(e - 112) * 2 ^ 23 + unat mant = (e - 112) * 1024 * 2 ^ 13 + unat mant"
    and n2: "(e - 112) * 2 ^ 23 + unat mant = (e - 112) * 2048 * 2 ^ 12 + unat mant" by simp_all
  have n: "((e - 112) * 2 ^ 23 + unat mant) div 2 ^ 13 = (e - 112) * 1024 + q"
    "((e - 112) * 2 ^ 23 + unat mant) div 2 ^ 12 = (e - 112) * 2048 + unat mant div 2 ^ 12"
    "((e - 112) * 2 ^ 23 + unat mant) mod 2 ^ 12 = unat mant mod 2 ^ 12"
    unfolding q_def by (subst n1, rule div_mult_self3, simp, subst n2, rule div_mult_self3, simp, subst n2, rule mod_mult_self3)
  have re: "round_even 13 ((e - 112) * 2 ^ 23 + unat mant) = (e - 112) * 1024 + q + (if up then 1 else 0)"
    using round_even_bits [of 12 "(e - 112) * 2 ^ 23 + unat mant"] n by (simp add: up_def)
  have carry: "up \<and> q = 1023 \<longleftrightarrow> 0x7FF000 \<le> unat mant"
  proof -
    define t where "t = unat mant div 2 ^ 12"
    have q2: "q = t div 2" by (simp add: q_def t_def div_mult2_eq [symmetric])
    have t: "t < 2048" using m23 by (simp add: t_def less_mult_imp_div_less)
    have "up \<and> q = 1023 \<longleftrightarrow> odd t \<and> q = 1023" by (auto simp: up_def t_def)
    also have "\<dots> \<longleftrightarrow> 2047 \<le> t" unfolding q2 using t by presburger
    also have "\<dots> \<longleftrightarrow> 2047 * 2 ^ 12 \<le> unat mant" unfolding t_def by (subst less_eq_div_iff_mult_less_eq) simp_all
    finally show ?thesis by simp
  qed
  have zero: "unat fs = 32768 * of_bool sg" using comb [of 0] by simp
  consider "e = 255" | "e \<noteq> 255" "142 < e" | "e < 113" | "113 \<le> e" "e \<le> 142" by linarith
  then show ?thesis
  proof cases
    case 1
    let ?y = "if mant \<noteq> 0 \<and> fm = 0 then 1 else fm"
    have "unat ?y = (if unat mant \<noteq> 0 \<and> q = 0 then 1 else q)" using fm m0 by (auto simp: unat_eq_0)
    moreover from this have "unat (0x7C00 OR ?y) = 0x7C00 + unat ?y" using or10 [of 31 ?y] q unfolding inf by simp
    moreover have "float2FP16 val = fs OR (0x7C00 OR ?y)" using st 1 by simp
    ultimately show ?thesis using comb [of "0x7C00 OR ?y"] q 1 by (simp add: e_def m q_def sg_def)
  next
    case 2
    have "drop_bit 16 (val AND 0x80000000) OR 0x7C00 = push_bit 15 (of_bool sg) OR 0x7C00" unfolding sw ..
    moreover have "ucast (push_bit 15 (of_bool sg) OR 0x7C00 :: 32 word) = fs OR 0x7C00" unfolding fs by (cases sg) simp_all
    ultimately have "float2FP16 val = fs OR 0x7C00" using st 2 by simp
    then show ?thesis using comb [of "0x7C00"] 2 by (simp add: e_def sg_def)
  next
    case 3
    then have "float2FP16 val = fs" using st by simp
    then show ?thesis using zero 3 by (simp add: e_def sg_def)
  next
    case 4
    have k: "unat (word_of_nat (e - 112) :: 16 word) = e - 112" using 4 by (simp only: unat_of_nat) simp
    have fe0: "unat (fe OR y) = (e - 112) * 1024 + unat y" if "unat y < 1024" for y
      using or10 [of "word_of_nat (e - 112)" y] that 4 k fe by simp
    have fe1: "unat (fe + 1) = (e - 112) * 1024 + 1" using fe0 [of 0] 4 by (simp add: unat_word_ariths)
    have fm1: "unat (fm + 1) = q + 1" using fm q by (simp add: unat_word_ariths)
    have gt: "fm + 1 > 0x03FF \<longleftrightarrow> q = 1023" using fm1 q by (auto simp: word_less_nat_alt)
    have "\<not> fe + 1 > 0x7C00" using fe1 4 by (simp add: word_less_nat_alt)
    then have "float2FP16 val = fs OR (if up then if q = 1023 then fe + 1 else fe OR (fm + 1) else fe OR fm)"
      using st 4 gt by simp
    then show ?thesis
      using comb [of "fe + 1"] comb [of "fe OR (fm + 1)"] comb [of "fe OR fm"] fe0 [of fm] fe0 [of "fm + 1"] fe1 fm fm1 q 4 carry re
      by (auto simp: e_def [symmetric] sg_def [symmetric] m [symmetric] Let_def)
  qed
qed

section \<open>Properties\<close>

lemma fields_of_parts:
  assumes "unat (w :: 64 word) = of_bool s * 2 ^ 63 + e * 2 ^ 52 + m" "e < 2048" "m < 2 ^ 52"
  shows "bit w 63 = s" "fld 52 11 w = e" "fld 0 52 w = m"
proof -
  have w: "unat w = (of_bool s * 2 ^ 11 + e) * 2 ^ 52 + m" using assms(1) by simp
  have d: "unat w div 2 ^ 52 = of_bool s * 2 ^ 11 + e" unfolding w using assms(3) by (subst div_mult_self3) simp_all
  have r: "unat w mod 2 ^ 52 = m" unfolding w using assms(3) by (subst mod_mult_self3) simp
  show "fld 52 11 w = e" unfolding fld_def d using assms(2) by (subst mod_mult_self3) simp
  show "fld 0 52 w = m" using r by (simp add: fld_def)
  have "unat w div 2 ^ 63 = unat w div 2 ^ 52 div 2 ^ 11" by (simp add: div_mult2_eq [symmetric])
  also have "\<dots> = of_bool s" unfolding d using assms(2) by (subst div_mult_self3) simp_all
  finally show "bit w 63 = s" unfolding bit_unat by (cases s) simp_all
qed

text \<open>
  Widening a bfloat16 pattern to a double and narrowing it again gives the pattern back when it is zero, a normal
  number or an infinity; a subnormal is flushed to the zero of its sign and a NaN comes back quiet, with its payload.
\<close>

theorem bf16_roundtrip:
  assumes "unat val < 2 ^ 16"
  shows "unat (double2BF16 (bf16ToEHP64 val)) =
    (if fld 7 8 val = 0 then 32768 * of_bool (bit val 15)
     else if fld 7 8 val = 255 \<and> fld 0 7 val \<noteq> 0 then 32768 * of_bool (bit val 15) + (0x7FC0 OR fld 0 7 val)
     else unat val)"
proof -
  define e where "e = fld 7 8 val"
  define m where "m = fld 0 7 val"
  define E where "E = (if e = 255 then 2047 else if e = 0 then 0 else e + 896)"
  have e: "e < 256" and m: "m < 128" unfolding e_def m_def using fld_less [of 7 8 val] fld_less [of 0 7 val] by simp_all
  have "unat (bf16ToEHP64 val) = of_bool (bit val 15) * 2 ^ 63 + E * 2 ^ 52 + m * 2 ^ 45"
    using bf16ToEHP64_correct [OF assms] by (simp add: widen_def e_def m_def E_def)
  note f = fields_of_parts [OF this]
  have E: "E < 2048" "m * 2 ^ 45 < 2 ^ 52" using e m by (auto simp: E_def)
  have v: "unat val = of_bool (bit val 15) * 32768 + e * 128 + m"
    using narrow_split [of val 7 8] assms by (simp add: e_def m_def)
  have r: "bf16_of_double E (m * 2 ^ 45) =
      (if e = 0 then 0 else if e = 255 \<and> m \<noteq> 0 then 0x7FC0 OR m else e * 128 + m)"
  proof (cases "e = 0 \<or> e = 255")
    case False
    then have "(E - 896) * 2 ^ 52 + m * 2 ^ 45 = (e * 128 + m) * 2 ^ 45" by (simp add: E_def)
    then have "round_even 45 ((E - 896) * 2 ^ 52 + m * 2 ^ 45) = e * 128 + m" by (simp add: round_even_def)
    then show ?thesis using False e m by (auto simp: bf16_of_double_def E_def)
  qed (auto simp: bf16_of_double_def E_def)
  show ?thesis
    using double2BF16_correct [of "bf16ToEHP64 val"] f [OF E] r v by (auto simp: e_def m_def)
qed

theorem bf16_roundtrip_witness:
  "unat (double2BF16 (bf16ToEHP64 0xC049)) =
    (if fld 7 8 (0xC049 :: 64 word) = 0 then 32768 * of_bool (bit (0xC049 :: 64 word) 15)
     else if fld 7 8 (0xC049 :: 64 word) = 255 \<and> fld 0 7 (0xC049 :: 64 word) \<noteq> 0
       then 32768 * of_bool (bit (0xC049 :: 64 word) 15) + (0x7FC0 OR fld 0 7 (0xC049 :: 64 word))
     else unat (0xC049 :: 64 word))"
  by (rule bf16_roundtrip) simp

text \<open>
  \<open>double2BF16\<close> on every pattern keeps the sign, sends a NaN to a quiet NaN, flushes what is below the
  least normal number to zero, and rounds everything else to the nearest magnitude, ties to even, saturating at infinity: the carry out of the
  mantissa moves into the exponent.
\<close>

theorem double2BF16_rounds:
  "unat (double2BF16 d) = 32768 * of_bool (bit d 63) +
    (let e = fld 52 11 d; m = fld 0 52 d in
     if e = 2047 then if m = 0 then 0x7F80 else 0x7FC0 OR (m div 2 ^ 45)
     else if e \<le> 896 then 0
     else min 0x7F80 (round_even 45 ((e - 896) * 2 ^ 52 + m)))"
  using double2BF16_correct [of d] by (simp add: bf16_of_double_def Let_def)

text \<open>
  \<open>float2FP16\<close> rounds the magnitude to the nearest, ties to even, in the range of normal half numbers, except when
  the carry leaves the mantissa: the code then adds the carry to the exponent field after it was shifted into place, so
  that the result is one unit above \<open>2 ^ (e - 127)\<close> and not \<open>2 ^ (e - 126)\<close>. Larger exponents
  give infinity, smaller ones zero, and a NaN stays a NaN.
\<close>

theorem float2FP16_rounds:
  "unat (float2FP16 val) = of_bool (bit val 31) * 32768 + (let e = fld 23 8 val; m = fld 0 23 val in
     if e = 255 then 0x7C00 + (if m \<noteq> 0 \<and> m div 2 ^ 13 = 0 then 1 else m div 2 ^ 13)
     else if e > 142 then 0x7C00
     else if e < 113 then 0
     else if m \<ge> 0x7FF000 then (e - 112) * 1024 + 1
     else round_even 13 ((e - 112) * 2 ^ 23 + m))"
  by (rule float2FP16_correct)

text \<open>
  Single and half patterns widen by moving the sign to bit 63, rebiasing the exponent of a normal number, keeping the
  extreme exponents and shifting the mantissa to the top; \<open>float2BF16\<close> truncates every pattern with a non-zero exponent
  field, NaNs included, and flushes the others to zero.
\<close>

theorem float_widenings:
  assumes "unat val < 2 ^ 32" "unat half < 2 ^ 16"
  shows "unat (float2ESP64 val) = of_bool (bit val 31) * 2 ^ 63 +
      (let e = fld 23 8 val in if e = 255 then 2047 else if e = 0 then 0 else e + 896) * 2 ^ 52 + fld 0 23 val * 2 ^ 29 \<and>
    unat (half2EHP64 half) = of_bool (bit half 15) * 2 ^ 63 +
      (let e = fld 10 5 half in if e = 31 then 2047 else if e = 0 then 0 else e + 1008) * 2 ^ 52 + fld 0 10 half * 2 ^ 42 \<and>
    unat (float2BF16 f) = (if fld 23 8 f = 0 then of_bool (bit f 31) * 32768 else unat f div 65536)"
  using float2ESP64_correct [OF assms(1)] half2EHP64_correct [OF assms(2)] float2BF16_correct [of f]
  by (simp add: widen_def Let_def)

theorem float_widenings_witness:
  "unat (float2ESP64 0xC0490FDB) = of_bool (bit (0xC0490FDB :: 64 word) 31) * 2 ^ 63 +
      (let e = fld 23 8 (0xC0490FDB :: 64 word) in if e = 255 then 2047 else if e = 0 then 0 else e + 896) * 2 ^ 52 +
      fld 0 23 (0xC0490FDB :: 64 word) * 2 ^ 29 \<and>
    unat (half2EHP64 0x3C01) = of_bool (bit (0x3C01 :: 64 word) 15) * 2 ^ 63 +
      (let e = fld 10 5 (0x3C01 :: 64 word) in if e = 31 then 2047 else if e = 0 then 0 else e + 1008) * 2 ^ 52 +
      fld 0 10 (0x3C01 :: 64 word) * 2 ^ 42 \<and>
    unat (float2BF16 0x7F800001) =
      (if fld 23 8 (0x7F800001 :: 32 word) = 0 then of_bool (bit (0x7F800001 :: 32 word) 31) * 32768
       else unat (0x7F800001 :: 32 word) div 65536)"
  by (rule float_widenings) simp_all

end
