(* ===== verification/NumComf.thy ===== *)
theory NumComf
  imports FloatConv "HOL-Library.Signed_Division"
begin

text \<open>
  Integer arithmetic of \<^verbatim>\<open>src/com/comf.h\<close> and \<^verbatim>\<open>src/com/comf.cpp\<close>: rounding division, divisors,
  factorials, factorization, binary search and the integer tests on floating-point patterns. \<open>INT\<close> values are integers
  that every operation reduces with \<open>i32\<close> (two's complement), \<open>UINT\<close> values naturals reduced with \<open>u32\<close>;
  \<open>/\<close> and \<open>%\<close> truncate towards zero and are \<open>sdiv\<close> and \<open>smod\<close>.
\<close>

definition i32 :: "int \<Rightarrow> int" where
  "i32 x = signed_take_bit 31 x"

lemma i32_id [simp]: "- 2147483648 \<le> x \<Longrightarrow> x < 2147483648 \<Longrightarrow> i32 x = x"
  by (simp add: i32_def signed_take_bit_int_eq_self)

section \<open>Rounding division and alignment\<close>

definition xfloor :: "int \<Rightarrow> int \<Rightarrow> int" where
  "xfloor a b =
     (if a smod b = 0 then i32 (a sdiv b)
      else if a < 0 \<and> b < 0 \<or> a > 0 \<and> b > 0 then i32 (a sdiv b)
      else i32 (i32 (a - b) sdiv b))"

definition xceiling :: "int \<Rightarrow> int \<Rightarrow> int" where
  "xceiling a b =
     (if a smod b = 0 then i32 (a sdiv b)
      else if a < 0 \<and> b < 0 \<or> a > 0 \<and> b > 0 then i32 (i32 (a + b) sdiv b)
      else i32 (a sdiv b))"

text \<open>\<open>LONGLONG\<close> arithmetic.\<close>

definition i64 :: "int \<Rightarrow> int" where
  "i64 x = signed_take_bit 63 x"

lemma i64_id [simp]: "- 9223372036854775808 \<le> x \<Longrightarrow> x < 9223372036854775808 \<Longrightarrow> i64 x = x"
  by (simp add: i64_def signed_take_bit_int_eq_self)

definition ceil_align :: "int \<Rightarrow> int \<Rightarrow> int" where
  "ceil_align v align =
     (if align = 0 \<or> align = 1 then v
      else if v smod align \<noteq> 0 then i64 (i64 (i64 (v sdiv align) + 1) * align)
      else v)"

section \<open>Divisors\<close>

lemma abs_smod_less: "b \<noteq> 0 \<Longrightarrow> \<bar>a smod b\<bar> < \<bar>b :: int\<bar>"
  using smod_int_range [of b a] by auto

function gcd_loop :: "int \<Rightarrow> int \<Rightarrow> int" where
  "gcd_loop x y = (if x \<noteq> 0 then gcd_loop (y smod x) x else y)"
  by pat_completeness auto
termination by (relation "measure (\<lambda>(x, y). nat \<bar>x\<bar>)") (auto dest: abs_smod_less)

declare gcd_loop.simps [simp del]

definition sgcd :: "int \<Rightarrow> int \<Rightarrow> int" where
  "sgcd x y =
     (let x = (if x < 0 then i32 (- x) else x);
          y = (if y < 0 then i32 (- y) else y)
      in if x > y then gcd_loop y x else gcd_loop x y)"

text \<open>\<open>None\<close> is the division by zero.\<close>

definition slcm :: "int \<Rightarrow> int \<Rightarrow> int option" where
  "slcm x y = (let g = sgcd x y in if g = 0 then None else Some (i32 (i32 (x * y) sdiv g)))"

fun gcdm_loop :: "int \<Rightarrow> int list \<Rightarrow> int" where
  "gcdm_loop n1 [] = n1"
| "gcdm_loop n1 (n2 # vs) = (let n1 = sgcd n1 n2 in if n1 = 1 then 1 else gcdm_loop n1 vs)"

definition gcdm :: "int list \<Rightarrow> int" where
  "gcdm values = (case values of [] \<Rightarrow> 0 | n1 # vs \<Rightarrow> gcdm_loop n1 vs)"

function exgcd_rec :: "int \<Rightarrow> int \<Rightarrow> int \<times> int \<times> int" where
  "exgcd_rec a b =
     (if b = 0 then (a, 1, 0)
      else let (g, x1, y1) = exgcd_rec b (a smod b)
           in (g, y1, i32 (x1 - i32 (i32 (a sdiv b) * y1))))"
  by pat_completeness auto
termination by (relation "measure (\<lambda>(a, b). nat \<bar>b\<bar>)") (auto dest: abs_smod_less)

declare exgcd_rec.simps [simp del]

definition exgcd :: "int \<Rightarrow> int \<Rightarrow> int \<times> int \<times> int" where
  "exgcd a b =
     (let (g, x, y) = exgcd_rec a b in if g < 0 then (i32 (- g), i32 (- x), i32 (- y)) else (g, x, y))"

section \<open>Factorials\<close>

function fact_loop :: "nat \<Rightarrow> nat \<Rightarrow> nat" where
  "fact_loop n res = (if n \<ge> 3 then let n = n - 1 in fact_loop n (u32 (res * n)) else res)"
  by pat_completeness auto
termination by (relation "measure fst") auto

declare fact_loop.simps [simp del]

definition factorial :: "nat \<Rightarrow> nat" where
  "factorial n = (if n = 0 then 1 else fact_loop n n)"

text \<open>\<open>while (i >= l) { res = res * i; i--; }\<close> with \<open>l > 0\<close>.\<close>

function prod_loop :: "nat \<Rightarrow> nat \<Rightarrow> nat \<Rightarrow> nat" where
  "prod_loop l i res = (if i \<ge> l \<and> 0 < i then prod_loop l (i - 1) (u32 (res * i)) else res)"
  by pat_completeness auto
termination by (relation "measure (\<lambda>(l, i, res). i)") auto

declare prod_loop.simps [simp del]

definition arra :: "nat \<Rightarrow> nat \<Rightarrow> nat" where
  "arra n m = prod_loop (n - m + 1) n 1"

text \<open>\<open>None\<close> is the division by zero.\<close>

definition combin :: "nat \<Rightarrow> nat \<Rightarrow> nat option" where
  "combin n m =
     (if n = m then Some 1
      else let res = prod_loop (m + 1) n 1; f = factorial (n - m)
           in if f = 0 then None else Some (res div f))"

section \<open>Factorization\<close>

text \<open>\<open>while (m % n != 0) { n++; }\<close>\<close>

partial_function (option) next_factor :: "int \<Rightarrow> int \<Rightarrow> int option" where
  "next_factor m n = (if m smod n \<noteq> 0 then next_factor m (i32 (n + 1)) else Some n)"

text \<open>The factors written to \<open>buf\<close> from position \<open>i\<close> on.\<close>

partial_function (option) prim_rec :: "int \<Rightarrow> int \<Rightarrow> int list \<Rightarrow> int list option" where
  "prim_rec m n buf =
     (if m > n
      then Option.bind (next_factor m n) (\<lambda>n. prim_rec (m sdiv n) n (buf @ [n]))
      else Some buf)"

text \<open>\<open>buf[0]\<close> is 0 when nothing was written; the sign goes to the first entry.\<close>

definition prim :: "int \<Rightarrow> int list option" where
  "prim m =
     (let sign = m < 0; m = (if m < 0 then i32 (- m) else m)
      in map_option (\<lambda>buf. let buf = (if buf = [] then [0] else buf)
           in if sign then i32 (- hd buf) # tl buf else buf) (prim_rec m 2 []))"

section \<open>Binary search\<close>

text \<open>The outcomes of \<open>binsearch\<close>: not found, found at a position, and a read outside the array.\<close>

datatype search = NotFound | Found nat | BadRead nat

partial_function (option) bs_loop :: "int list \<Rightarrow> int \<Rightarrow> nat \<Rightarrow> nat \<Rightarrow> search option" where
  "bs_loop arr v lo hi =
     (if lo \<le> hi
      then let pos = u32 (lo + (hi - lo) div 2)
           in if pos \<ge> length arr then Some (BadRead pos)
              else if v < arr ! pos then bs_loop arr v lo (u32_sub pos 1)
              else if v > arr ! pos then bs_loop arr v (u32 (pos + 1)) hi
              else Some (Found pos)
      else Some NotFound)"

definition binsearch :: "int list \<Rightarrow> int \<Rightarrow> search option" where
  "binsearch arr v =
     (let n = length arr
      in if n = 0 then Some NotFound
         else if n = 1 \<and> arr ! 0 \<noteq> v then Some NotFound
         else bs_loop arr v 0 (n - 1))"

section \<open>Tests on floating-point patterns\<close>

definition isIntegerF :: "32 word \<Rightarrow> bool" where
  "isIntegerF i =
     (let m = i AND 0x007FFFFF;
          n = int (unat (drop_bit 23 (i AND 0x7F800000))) - 127;
          j = getFirstOneAtRightSide m
      in 23 - int j \<le> n)"

function d_loop :: "64 word \<Rightarrow> nat \<Rightarrow> nat" where
  "d_loop m j = (if j < 52 then if m AND 1 = 1 then j else d_loop (drop_bit 1 m) (j + 1) else j)"
  by pat_completeness auto
termination by (relation "measure (\<lambda>(m, j). 52 - j)") auto

declare d_loop.simps [simp del]

definition isIntegerD :: "64 word \<Rightarrow> bool" where
  "isIntegerD i =
     (let m = i AND 0x000FFFFFFFFFFFFF;
          n = int (unat (drop_bit 52 (i AND 0x7FF0000000000000))) - 1023;
          j = d_loop m 0
      in 52 - int j \<le> n)"

definition isFiniteD :: "64 word \<Rightarrow> bool" where
  "isFiniteD i = (let m = 0x7FF0000000000000 in i AND m \<noteq> m)"

definition isFiniteF :: "32 word \<Rightarrow> bool" where
  "isFiniteF i = (let m = 0x7F800000 in i AND m \<noteq> m)"

section \<open>Rounding division\<close>

lemma smod_0_dvd: "a smod b = 0 \<longleftrightarrow> b dvd (a :: int)"
  by (auto simp: smod_int_alt_def sgn_0_0 dvd_eq_mod_eq_0 [symmetric])

lemma sdiv_div:
  assumes "b \<noteq> (0 :: int)"
  shows "a sdiv b = (if b dvd a \<or> (a < 0 \<longleftrightarrow> b < 0) then a div b else a div b + 1)"
proof -
  consider "0 \<le> a" "0 < b" | "a < 0" "b < 0" | "a < 0" "0 < b" | "0 \<le> a" "b < 0" using assms by linarith
  then show ?thesis
  proof cases
    case 3
    then have "a sdiv b = - ((- a) div b)" by (simp add: signed_divide_int_def)
    then show ?thesis using 3 zdiv_zminus1_eq_if [of b a] by (auto simp: dvd_eq_mod_eq_0)
  next
    case 4
    then have "a sdiv b = - (a div (- b))" by (cases "a = 0") (simp_all add: signed_divide_int_def)
    then show ?thesis using 4 zdiv_zminus2_eq_if [of b a] by (auto simp: dvd_eq_mod_eq_0)
  qed (auto simp: signed_divide_int_def sgn_if)
qed

lemma sdiv_i32: "\<bar>a\<bar> < 2147483648 \<Longrightarrow> i32 (a sdiv b) = a sdiv b"
  using sdiv_int_range [of a b] by (intro i32_id) auto

lemma add_self_div: "b \<noteq> 0 \<Longrightarrow> (a - b) div b = a div b - (1 :: int)" "b \<noteq> 0 \<Longrightarrow> (a + b) div b = a div b + (1 :: int)"
  using div_mult_self1 [of b a "- 1"] by simp_all

lemma ceil_div: "b \<noteq> 0 \<Longrightarrow> - ((- a) div b) = (if b dvd a then a div b else a div b + (1 :: int))"
  by (auto simp: zdiv_zminus1_eq_if dvd_eq_mod_eq_0)

lemma xfloor_div:
  assumes "b \<noteq> 0" "\<bar>a\<bar> + \<bar>b\<bar> < 2147483648"
  shows "xfloor a b = a div b"
proof -
  have d: "b dvd a - b \<longleftrightarrow> b dvd a" by (metis diff_add_cancel dvd_add_left_iff dvd_refl)
  have i: "i32 (a - b) = a - b" using assms by (intro i32_id) auto
  have s: "i32 (a sdiv b) = a sdiv b" "i32 ((a - b) sdiv b) = (a - b) sdiv b" using assms by (intro sdiv_i32; auto)+
  have z: "b dvd a" if "a = 0" using that by simp
  show ?thesis
    unfolding xfloor_def smod_0_dvd i s using sdiv_div [OF assms(1), of a] sdiv_div [OF assms(1), of "a - b"]
      add_self_div(1) [OF assms(1), of a] d z assms(1) by (auto simp: not_less)
qed

lemma xceiling_div:
  assumes "b \<noteq> 0" "\<bar>a\<bar> + \<bar>b\<bar> < 2147483648"
  shows "xceiling a b = - ((- a) div b)"
proof -
  have d: "b dvd a + b \<longleftrightarrow> b dvd a" by simp
  have i: "i32 (a + b) = a + b" using assms by (intro i32_id) auto
  have s: "i32 (a sdiv b) = a sdiv b" "i32 ((a + b) sdiv b) = (a + b) sdiv b" using assms by (intro sdiv_i32; auto)+
  have z: "b dvd a" if "a = 0" using that by simp
  show ?thesis
    unfolding xceiling_def smod_0_dvd i s ceil_div [OF assms(1)] using sdiv_div [OF assms(1), of a] sdiv_div [OF assms(1), of "a + b"]
      add_self_div(2) [OF assms(1), of a] d z assms(1) by (auto simp: not_less)
qed

lemma ceil_align_least:
  assumes "0 \<le> v" "1 \<le> align" "v + align < 9223372036854775808"
  shows "ceil_align v align = (v + align - 1) div align * align"
proof (cases "align = 1")
  case False
  have s: "v sdiv align = v div align" using assms sdiv_div [of align v] by auto
  have r: "v = v div align * align + v mod align" "0 \<le> v mod align" "v mod align < align" using assms(2) by simp_all
  then have q: "v div align * align \<le> v" by linarith
  have q0: "0 \<le> v div align" using assms by (simp add: pos_imp_zdiv_nonneg_iff)
  have q1: "v div align \<le> v" using mult_left_mono [OF assms(2) q0] q by simp
  have m: "(v div align + 1) * align \<le> v + align" using q by (simp add: distrib_right)
  have p: "0 \<le> (v div align + 1) * align" using q0 assms(2) by simp
  have i: "i64 (v div align) = v div align" "i64 (v div align + 1) = v div align + 1"
      "i64 ((v div align + 1) * align) = (v div align + 1) * align"
    using q0 q1 m p assms(1,3) assms(2) by (intro i64_id; linarith)+
  have c: "(v + align - 1) div align = (if align dvd v then v div align else v div align + 1)"
  proof (cases "align dvd v")
    case True
    then have "v + align - 1 = v div align * align + (align - 1)" by simp
    then have "(v + align - 1) div align = v div align + (align - 1) div align" using assms(2) by (simp only: div_mult_self3)
    then show ?thesis using True assms(2) by simp
  next
    case False
    then have "v mod align \<noteq> 0" by (simp add: dvd_eq_mod_eq_0)
    then have "(v mod align - 1) div align = 0" using r by simp
    moreover have "v + align - 1 = (v div align + 1) * align + (v mod align - 1)" using r(1) by (simp add: distrib_right)
    ultimately show ?thesis using False assms(2) by (simp only: div_mult_self3)  simp
  qed
  show ?thesis using False assms(2) by (auto simp: ceil_align_def smod_0_dvd s i c)
qed (simp add: ceil_align_def)

section \<open>Divisors\<close>

lemma gcd_loop_gcd: "0 \<le> x \<Longrightarrow> 0 \<le> y \<Longrightarrow> gcd_loop x y = gcd x y"
proof (induction x y rule: gcd_loop.induct)
  case (1 x y)
  show ?case
  proof (cases "x = 0")
    case True
    then show ?thesis using 1(3) by (simp add: gcd_loop.simps)
  next
    case False
    then have m: "y smod x = y mod x" "0 \<le> y mod x" using 1(2,3) by (simp_all add: smod_mod_positive)
    then have "gcd_loop (y smod x) x = gcd (y smod x) x" using 1 False by simp
    then show ?thesis using False m(1) by (simp add: gcd_loop.simps [of x y] gcd.commute gcd_red_int [symmetric])
  qed
qed

lemma sgcd_gcd:
  assumes "\<bar>x\<bar> < 2147483648" "\<bar>y\<bar> < 2147483648"
  shows "sgcd x y = gcd x y"
proof -
  have "(if x < 0 then i32 (- x) else x) = \<bar>x\<bar>" "(if y < 0 then i32 (- y) else y) = \<bar>y\<bar>"
    using assms by simp_all
  then show ?thesis by (simp add: sgcd_def Let_def gcd_loop_gcd gcd.commute)
qed

lemma slcm_lcm:
  assumes "\<bar>x\<bar> < 2147483648" "\<bar>y\<bar> < 2147483648" "\<bar>x * y\<bar> < 2147483648"
  shows "slcm x y = (if x = 0 \<and> y = 0 then None else Some (sgn (x * y) * lcm x y))"
proof (cases "x = 0 \<and> y = 0")
  case True
  then show ?thesis by (simp add: slcm_def sgcd_gcd)
next
  case False
  then have g: "0 < gcd x y" by (simp add: gcd_pos_int)
  have "i32 (x * y) = x * y" using assms(3) by (intro i32_id) auto
  moreover have "(x * y) sdiv gcd x y = sgn (x * y) * lcm x y"
    using g by (simp add: signed_divide_int_def lcm_altdef_int abs_mult)
  moreover have "i32 ((x * y) sdiv gcd x y) = (x * y) sdiv gcd x y" using assms(3) by (rule sdiv_i32)
  ultimately show ?thesis using False g assms by (auto simp: slcm_def Let_def sgcd_gcd)
qed

lemma gcd_small: "\<bar>x\<bar> < b \<Longrightarrow> \<bar>y\<bar> < b \<Longrightarrow> \<bar>gcd x y\<bar> < (b :: int)"
proof (cases "x = 0")
  case False
  assume "\<bar>x\<bar> < b"
  moreover have "gcd x y \<le> \<bar>x\<bar>" using False by (intro zdvd_imp_le) auto
  ultimately show ?thesis by simp
qed simp

lemma gcdm_loop_Gcd:
  "\<bar>n1\<bar> < 2147483648 \<Longrightarrow> list_all (\<lambda>v. \<bar>v\<bar> < 2147483648) vs \<Longrightarrow>
   gcdm_loop n1 vs = (if vs = [] then n1 else Gcd (set (n1 # vs)))"
proof (induction vs arbitrary: n1)
  case (Cons n2 vs)
  then have s: "sgcd n1 n2 = gcd n1 n2" "\<bar>gcd n1 n2\<bar> < 2147483648"
    using gcd_small [of n1 2147483648 n2] by (simp_all add: sgcd_gcd)
  have "Gcd (set (n1 # n2 # vs)) = Gcd (set (gcd n1 n2 # vs))" by (simp add: gcd.assoc)
  moreover have "Gcd (set (gcd n1 n2 # vs)) = 1" if "gcd n1 n2 = 1" using that by simp
  ultimately show ?case using Cons.IH [OF s(2)] Cons.prems s(1) by (auto simp: Let_def)
qed simp

text \<open>Bezout coefficients with the bounds that keep every intermediate value in 32 bits.\<close>

lemma exgcd_rec_bezout:
  "\<bar>a\<bar> < 2147483648 \<Longrightarrow> \<bar>b\<bar> < 2147483648 \<Longrightarrow>
   \<exists>g x y. exgcd_rec a b = (g, x, y) \<and> \<bar>g\<bar> = gcd a b \<and> a * x + b * y = g \<and> \<bar>x\<bar> \<le> max 1 \<bar>b\<bar> \<and> \<bar>y\<bar> \<le> max 1 \<bar>a\<bar>"
proof (induction a b rule: exgcd_rec.induct)
  case (1 a b)
  show ?case
  proof (cases "b = 0")
    case True
    then show ?thesis by (simp add: exgcd_rec.simps)
  next
    case False
    define r where "r = a smod b"
    define q where "q = a sdiv b"
    have a: "a = q * b + r" unfolding q_def r_def by (rule sdiv_mult_smod_eq [symmetric])
    have r: "\<bar>r\<bar> < \<bar>b\<bar>" unfolding r_def by (rule abs_smod_less [OF False])
    obtain g x1 y1 where rec: "exgcd_rec b r = (g, x1, y1)" "\<bar>g\<bar> = gcd b r" "b * x1 + r * y1 = g"
      "\<bar>x1\<bar> \<le> max 1 \<bar>r\<bar>" "\<bar>y1\<bar> \<le> max 1 \<bar>b\<bar>"
      using 1(1) [OF False] 1(2,3) r by (auto simp: r_def [symmetric])
    have qb: "\<bar>q\<bar> * \<bar>b\<bar> + \<bar>r\<bar> = \<bar>a\<bar>"
    proof (cases "a = 0")
      case True
      then show ?thesis by (simp add: q_def r_def signed_divide_int_def)
    next
      case nz: False
      have "\<bar>q\<bar> = \<bar>a\<bar> div \<bar>b\<bar>" using nz False
        by (simp add: q_def signed_divide_int_def abs_mult abs_sgn_eq pos_imp_zdiv_nonneg_iff)
      moreover have "\<bar>r\<bar> = \<bar>a\<bar> mod \<bar>b\<bar>" using nz False by (simp add: r_def smod_int_alt_def abs_mult abs_sgn_eq)
      ultimately show ?thesis by simp
    qed
    have r0: "x1 = 1" "y1 = 0" if "r = 0" using rec(1) that by (simp_all add: exgcd_rec.simps [of b 0])
    have x: "\<bar>y1\<bar> \<le> max 1 \<bar>b\<bar>" by (rule rec(5))
    have qy: "\<bar>q * y1\<bar> \<le> \<bar>q\<bar> * \<bar>b\<bar>"
      using rec(5) False unfolding abs_mult by (intro mult_left_mono) auto
    have y: "\<bar>x1 - q * y1\<bar> \<le> max 1 \<bar>a\<bar>"
    proof (cases "r = 0")
      case False
      then have "\<bar>x1\<bar> \<le> \<bar>r\<bar>" using rec(4) by auto
      then show ?thesis using qy qb by linarith
    qed (use r0 in simp)
    have "i32 (q * y1) = q * y1" using qy qb 1(2) by (intro i32_id; linarith)
    moreover have "i32 (x1 - q * y1) = x1 - q * y1" using y 1(2) by (intro i32_id; linarith)
    ultimately have e: "exgcd_rec a b = (g, y1, x1 - q * y1)"
      using False rec(1) sdiv_i32 [OF 1(2), of b] by (simp add: exgcd_rec.simps [of a b] q_def r_def)
    have "a * y1 + b * (x1 - q * y1) = b * x1 + (a - q * b) * y1" by (simp add: algebra_simps)
    also have "\<dots> = g" using rec(3) a by simp
    finally have bz: "a * y1 + b * (x1 - q * y1) = g" .
    have "gcd a b = gcd b r" using gcd_add_mult [of b q r] a by (simp add: gcd.commute)
    then show ?thesis using e rec(2) x y bz by simp
  qed
qed

lemma exgcd_bezout:
  assumes "\<bar>a\<bar> < 2147483648" "\<bar>b\<bar> < 2147483648"
  shows "\<exists>x y. exgcd a b = (gcd a b, x, y) \<and> a * x + b * y = gcd a b \<and> \<bar>x\<bar> \<le> max 1 \<bar>b\<bar> \<and> \<bar>y\<bar> \<le> max 1 \<bar>a\<bar>"
proof -
  obtain g x y where r: "exgcd_rec a b = (g, x, y)" "\<bar>g\<bar> = gcd a b" "a * x + b * y = g" "\<bar>x\<bar> \<le> max 1 \<bar>b\<bar>" "\<bar>y\<bar> \<le> max 1 \<bar>a\<bar>"
    using exgcd_rec_bezout [OF assms] by auto
  have "\<bar>x\<bar> < 2147483648" "\<bar>y\<bar> < 2147483648" using r(4,5) assms by (auto simp: max_def split: if_splits)
  moreover have "\<bar>g\<bar> < 2147483648" using r(2) gcd_small [OF assms] by simp
  moreover have "i32 (- z) = - z" if "\<bar>z\<bar> < 2147483648" for z using that by (intro i32_id) auto
  ultimately have s: "i32 (- x) = - x" "i32 (- y) = - y" "i32 (- g) = - g" by blast+
  show ?thesis
  proof (cases "g < 0")
    case True
    then have "exgcd a b = (gcd a b, - x, - y)" using r(1,2) s by (simp add: exgcd_def)
    moreover have "a * - x + b * - y = gcd a b" using r(2,3) True by (simp add: algebra_simps)
    ultimately show ?thesis using r(4,5) by (intro exI [of _ "- x"] exI [of _ "- y"]) simp
  qed (use r in \<open>simp add: exgcd_def\<close>)
qed

section \<open>Factorials\<close>

lemma u32_mult: "u32 (u32 a * b) = u32 (a * b)" "u32 (a * u32 b) = u32 (a * b)"
  by (simp_all add: u32_def mod_mult_left_eq mod_mult_right_eq)

lemma fact_loop_fact: "1 \<le> n \<Longrightarrow> res < 4294967296 \<Longrightarrow> fact_loop n res = u32 (res * fact (n - 1))"
proof (induction n res rule: fact_loop.induct)
  case (1 n res)
  show ?case
  proof (cases "n \<ge> 3")
    case True
    then have f: "fact (n - 1) = (n - 1) * (fact (n - 1 - 1) :: nat)" by (simp add: fact_reduce)
    have "fact_loop (n - 1) (u32 (res * (n - 1))) = u32 (u32 (res * (n - 1)) * fact (n - 1 - 1))"
      using 1(1) [OF True refl] True by simp
    then show ?thesis using True by (simp only: fact_loop.simps [of n res] Let_def if_True u32_mult f mult.assoc)
  next
    case False
    then have "n = 1 \<or> n = 2" using 1(2) by auto
    then show ?thesis using 1(3) by (auto simp: fact_loop.simps)
  qed
qed

lemma factorial_fact: "n < 4294967296 \<Longrightarrow> factorial n = u32 (fact n)"
  by (cases n) (simp_all add: factorial_def fact_loop_fact)

lemma prod_loop_prod: "1 \<le> l \<Longrightarrow> res < 4294967296 \<Longrightarrow> prod_loop l i res = u32 (res * \<Prod>{l..i})"
proof (induction l i res rule: prod_loop.induct)
  case (1 l i res)
  show ?case
  proof (cases "i \<ge> l")
    case True
    then obtain k where k: "i = Suc k" using 1(2) by (cases i) auto
    have p: "\<Prod>{l..i} = i * \<Prod>{l..i - 1}" using True k by (simp add: prod.nat_ivl_Suc')
    have "prod_loop l (i - 1) (u32 (res * i)) = u32 (u32 (res * i) * \<Prod>{l..i - 1})"
      using 1(1) True 1(2) k by simp
    then show ?thesis using True 1(2) by (simp only: prod_loop.simps [of l i res] p u32_mult mult.assoc) simp
  next
    case False
    then show ?thesis using 1(3) by (simp add: prod_loop.simps)
  qed
qed

lemma arra_perm: "1 \<le> m \<Longrightarrow> m \<le> n \<Longrightarrow> arra n m = u32 (fact n div fact (n - m))"
  by (simp add: arra_def prod_loop_prod fact_div_fact)

lemma combin_choose:
  assumes "1 \<le> m" "m \<le> n" "n < 4294967296" "fact n div fact m < (4294967296 :: nat)"
  shows "combin n m = Some (n choose m)"
proof (cases "n = m")
  case False
  have p: "prod_loop (m + 1) n 1 = fact n div fact m"
    using prod_loop_prod [of "m + 1" 1 n] assms by (simp add: fact_div_fact)
  have e: "fact n div fact m = (n choose m) * fact (n - m)"
  proof -
    have "fact m * fact (n - m) * (n choose m) = (fact n :: nat)" using assms(2) by (rule binomial_fact_lemma)
    then have "(fact n :: nat) = ((n choose m) * fact (n - m)) * fact m" by (simp add: ac_simps)
    then show ?thesis by simp
  qed
  have "1 \<le> n choose m" using assms(2) by (simp add: Suc_le_eq)
  then have "fact (n - m) \<le> (n choose m) * (fact (n - m) :: nat)" by simp
  then have "fact (n - m) < (4294967296 :: nat)" using assms(4) unfolding e by (rule le_less_trans)
  then have f: "factorial (n - m) = fact (n - m)" using factorial_fact [of "n - m"] assms e by simp
  show ?thesis using False p e by (simp add: combin_def Let_def f)
qed (simp add: combin_def)

section \<open>Factorization\<close>

definition is_prime :: "int \<Rightarrow> bool" where
  "is_prime p \<longleftrightarrow> 1 < p \<and> (\<forall>d. 1 < d \<longrightarrow> d dvd p \<longrightarrow> d = p)"

lemma next_factor_least:
  assumes "2 \<le> n" "n \<le> m" "m < 2147483648"
  shows "\<exists>p. next_factor m n = Some p \<and> n \<le> p \<and> p \<le> m \<and> p dvd m \<and> (\<forall>d. n \<le> d \<longrightarrow> d < p \<longrightarrow> \<not> d dvd m)"
  using assms
proof (induction "nat (m - n)" arbitrary: n rule: less_induct)
  case less
  show ?case
  proof (cases "n dvd m")
    case True
    then show ?thesis using less.prems by (subst next_factor.simps) (auto simp: smod_0_dvd)
  next
    case False
    then have n: "n < m" using less.prems by (cases "n = m") auto
    then have i: "i32 (n + 1) = n + 1" using less.prems by (intro i32_id) auto
    have "\<exists>p. next_factor m (n + 1) = Some p \<and> n + 1 \<le> p \<and> p \<le> m \<and> p dvd m \<and> (\<forall>d. n + 1 \<le> d \<longrightarrow> d < p \<longrightarrow> \<not> d dvd m)"
      using n less.prems by (intro less.hyps) auto
    then obtain p where p: "next_factor m (n + 1) = Some p" "n + 1 \<le> p" "p \<le> m" "p dvd m"
      "\<And>d. n + 1 \<le> d \<Longrightarrow> d < p \<Longrightarrow> \<not> d dvd m" by auto
    have "next_factor m n = Some p" using False p(1) i by (subst next_factor.simps) (simp add: smod_0_dvd)
    moreover have "\<not> d dvd m" if "n \<le> d" "d < p" for d using that p(5) [of d] False by (cases "d = n") auto
    ultimately show ?thesis using p by (intro exI [of _ p]) auto
  qed
qed

lemma prim_rec_factors:
  assumes "1 \<le> m" "m < 2147483648" "2 \<le> n" "\<And>d. 1 < d \<Longrightarrow> d dvd m \<Longrightarrow> n \<le> d"
  shows "\<exists>fs r. prim_rec m n buf = Some (buf @ fs) \<and> prod_list fs * r = m \<and> list_all is_prime fs \<and> sorted (n # fs) \<and>
    (r = 1 \<or> r = last (n # fs)) \<and> (n < m \<longrightarrow> fs \<noteq> [])"
  using assms
proof (induction "nat m" arbitrary: m n buf rule: less_induct)
  case less
  show ?case
  proof (cases "n < m")
    case False
    have "m = 1 \<or> m = n" using less.prems(1) less.prems(4) [of m] False by (cases "m = 1") auto
    then show ?thesis using False by (intro exI [of _ "[]"] exI [of _ m]) (simp add: prim_rec.simps)
  next
    case True
    then obtain p where p: "next_factor m n = Some p" "n \<le> p" "p \<le> m" "p dvd m" "\<And>d. n \<le> d \<Longrightarrow> d < p \<Longrightarrow> \<not> d dvd m"
      using next_factor_least [of n m] less.prems by auto
    define k where "k = m sdiv p"
    have k: "m = k * p" "k = m div p" using p(2,4) less.prems(1,3) sdiv_div [of p m] by (auto simp: k_def)
    have k1: "1 \<le> k" "k < m"
    proof -
      have "0 < k * p" "0 < p" using k(1) less.prems(1,3) p(2) by simp_all
      then have "0 < k" by (simp add: zero_less_mult_iff)
      then show "1 \<le> k" by simp
      then have "k * 1 < k * p" using p(2) less.prems(3) by (intro mult_strict_left_mono) auto
      then show "k < m" using k(1) by simp
    qed
    have least: "p \<le> d" if "1 < d" "d dvd m" for d
      using p(5) [of d] less.prems(4) [OF that] that by force
    have pr: "is_prime p" unfolding is_prime_def
    proof (intro conjI allI impI)
      show "1 < p" using p(2) less.prems(3) by simp
      fix d assume "1 < d" "d dvd p"
      moreover from this have "p \<le> d" using p(4) by (intro least) (auto intro: dvd_trans)
      ultimately show "d = p" using zdvd_imp_le [of d p] p(2) less.prems(3) by simp
    qed
    have "\<exists>fs r. prim_rec k p (buf @ [p]) = Some ((buf @ [p]) @ fs) \<and> prod_list fs * r = k \<and> list_all is_prime fs \<and>
        sorted (p # fs) \<and> (r = 1 \<or> r = last (p # fs)) \<and> (p < k \<longrightarrow> fs \<noteq> [])"
    proof (rule less.hyps)
      show "nat k < nat m" "1 \<le> k" "k < 2147483648" using k1 less.prems(2) by simp_all
      show "2 \<le> p" using p(2) less.prems(3) by simp
      show "p \<le> d" if "1 < d" "d dvd k" for d using that k(1) by (intro least) simp_all
    qed
    then obtain fs r where f: "prim_rec k p (buf @ [p]) = Some ((buf @ [p]) @ fs)" "prod_list fs * r = k" "list_all is_prime fs"
      "sorted (p # fs)" "r = 1 \<or> r = last (p # fs)" by blast
    have "prim_rec m n buf = Some (buf @ (p # fs))"
      using True p(1) f(1) by (simp add: prim_rec.simps [of m n buf] k_def)
    then show ?thesis using f p(2) pr k(1) by (intro exI [of _ "p # fs"] exI [of _ r]) (auto simp: ac_simps)
  qed
qed

text \<open>What \<open>prim\<close> leaves in the buffer: all prime factors in ascending order, but the last one when it occurs twice.\<close>

lemma prim_factors:
  assumes "3 \<le> m" "m < 2147483648"
  shows "\<exists>fs r. prim m = Some fs \<and> prim (- m) = Some (- hd fs # tl fs) \<and> fs \<noteq> [] \<and> prod_list fs * r = m \<and> list_all is_prime fs \<and>
    sorted fs \<and> (r = 1 \<or> r = last fs)"
proof -
  obtain fs r where f: "prim_rec m 2 [] = Some fs" "prod_list fs * r = m" "list_all is_prime fs" "sorted fs"
    "r = 1 \<or> r = last (2 # fs)" "fs \<noteq> []"
  proof -
    have "\<exists>fs r. prim_rec m 2 [] = Some ([] @ fs) \<and> prod_list fs * r = m \<and> list_all is_prime fs \<and> sorted (2 # fs) \<and>
        (r = 1 \<or> r = last (2 # fs)) \<and> (2 < m \<longrightarrow> fs \<noteq> [])"
      by (rule prim_rec_factors) (use assms in auto)
    then show ?thesis using that assms(1) by (elim exE conjE) simp
  qed
  have "is_prime (hd fs)" using f(3,6) by (cases fs) auto
  then have h: "1 < hd fs" by (simp add: is_prime_def)
  have "hd fs dvd m" using f(2,6) by (cases fs) (auto simp: mult.assoc)
  then have "hd fs \<le> m" using assms by (intro zdvd_imp_le) auto
  then have i: "i32 (- hd fs) = - hd fs" "i32 m = m" using h assms by (simp_all add: i32_id)
  show ?thesis using f assms i by (intro exI [of _ fs] exI [of _ r]) (simp add: prim_def Let_def)
qed

section \<open>Binary search\<close>

definition search_ok :: "int list \<Rightarrow> int \<Rightarrow> search \<Rightarrow> bool" where
  "search_ok arr v r \<longleftrightarrow>
     (case r of NotFound \<Rightarrow> v \<notin> set arr | Found p \<Rightarrow> p < length arr \<and> arr ! p = v | BadRead p \<Rightarrow> False)"

lemma bs_loop_ok:
  assumes "sorted arr" "length arr < 2147483648" "arr \<noteq> []" "arr ! 0 \<le> v" "hi < length arr" "lo \<le> hi + 1"
    and "\<And>i. i < lo \<Longrightarrow> arr ! i < v" "\<And>i. hi < i \<Longrightarrow> i < length arr \<Longrightarrow> v < arr ! i"
  shows "\<exists>r. bs_loop arr v lo hi = Some r \<and> search_ok arr v r"
  using assms
proof (induction "hi + 1 - lo" arbitrary: lo hi rule: less_induct)
  case less
  show ?case
  proof (cases "lo \<le> hi")
    case False
    have "v \<notin> set arr"
    proof
      assume "v \<in> set arr"
      then obtain i where "i < length arr" "arr ! i = v" by (auto simp: in_set_conv_nth)
      then show False using less.prems(7) [of i] less.prems(8) [of i] False by (cases "i < lo") auto
    qed
    then show ?thesis using False by (simp add: bs_loop.simps search_ok_def)
  next
    case True
    define pos where "pos = lo + (hi - lo) div 2"
    have p: "lo \<le> pos" "pos \<le> hi" "pos < length arr" using True less.prems(5) by (auto simp: pos_def)
    have pu: "u32 (lo + (hi - lo) div 2) = pos" using p less.prems(2) by (simp add: pos_def [symmetric])
    note st = bs_loop.simps [of arr v lo hi, unfolded pu Let_def]
    have mono: "arr ! i \<le> arr ! j" if "i \<le> j" "j < length arr" for i j using that less.prems(1) by (simp add: sorted_nth_mono)
    consider "v < arr ! pos" | "v > arr ! pos" | "v = arr ! pos" by linarith
    then show ?thesis
    proof cases
      case 1
      then have "pos \<noteq> 0" using less.prems(4) by (cases pos) auto
      then have h: "u32_sub pos 1 = pos - 1" using p less.prems(2) by (intro u32_sub_id) auto
      have "\<exists>r. bs_loop arr v lo (pos - 1) = Some r \<and> search_ok arr v r"
      proof (rule less.hyps)
        show "v < arr ! i" if "pos - 1 < i" "i < length arr" for i
        proof -
          have "pos \<le> i" using that(1) by linarith
          then show ?thesis using 1 mono [of pos i] that(2) by simp
        qed
      qed (use less.prems p \<open>pos \<noteq> 0\<close> in auto)
      then show ?thesis using 1 p True h st by simp
    next
      case 2
      have "\<exists>r. bs_loop arr v (pos + 1) hi = Some r \<and> search_ok arr v r"
      proof (rule less.hyps)
        show "arr ! i < v" if "i < pos + 1" for i
        proof -
          have "i \<le> pos" using that by linarith
          then show ?thesis using 2 mono [of i pos] p(3) by simp
        qed
      qed (use less.prems p in auto)
      then show ?thesis using 2 p True st less.prems(2) by simp
    next
      case 3
      then show ?thesis using p True st by (simp add: search_ok_def)
    qed
  qed
qed

lemma binsearch_ok:
  assumes "sorted arr" "length arr < 2147483648" "2 \<le> length arr \<longrightarrow> arr ! 0 \<le> v"
  shows "\<exists>r. binsearch arr v = Some r \<and> search_ok arr v r"
proof -
  consider "arr = []" | x where "arr = [x]" "x \<noteq> v" | x where "arr = [x]" "x = v" | "2 \<le> length arr"
    by (cases arr; cases "tl arr") auto
  then show ?thesis
  proof cases
    case 3
    then show ?thesis by (auto simp: binsearch_def bs_loop.simps search_ok_def)
  next
    case 4
    moreover from this have "arr \<noteq> []" by auto
    ultimately show ?thesis using bs_loop_ok [of arr v "length arr - 1" 0] assms by (simp add: binsearch_def)
  qed (auto simp: binsearch_def search_ok_def)
qed

lemma bs_loop_bad:
  assumes "sorted arr" "length arr < 2147483648" "hi < length arr" "v < arr ! 0"
  shows "bs_loop arr v 0 hi = Some (BadRead 2147483647)"
  using assms
proof (induction hi rule: less_induct)
  case (less hi)
  have pu: "u32 (0 + (hi - 0) div 2) = hi div 2" using less.prems by simp
  have p: "hi div 2 < length arr" using less.prems(3) by simp
  have "arr ! 0 \<le> arr ! (hi div 2)" using less.prems(1) p by (simp add: sorted_nth_mono)
  then have v: "v < arr ! (hi div 2)" using less.prems(4) by simp
  have st: "bs_loop arr v 0 hi = bs_loop arr v 0 (u32_sub (hi div 2) 1)"
    using bs_loop.simps [of arr v 0 hi, unfolded pu Let_def] p v by simp
  show ?case
  proof (cases "hi div 2 = 0")
    case True
    then have "u32_sub (hi div 2) 1 = 4294967295" by (simp add: u32_sub_def)
    then show ?thesis using st less.prems(2) by (simp add: bs_loop.simps [of arr v 0 4294967295] u32_def)
  next
    case False
    then have "u32_sub (hi div 2) 1 = hi div 2 - 1" using p less.prems(2) by (intro u32_sub_id) auto
    then show ?thesis using st less.IH [of "hi div 2 - 1"] False p less.prems by simp
  qed
qed

section \<open>Integer tests\<close>

lemma dvd_low_bits: "2 ^ k dvd unat (m :: 'a::len word) \<longleftrightarrow> (\<forall>j<k. \<not> bit m j)"
proof -
  have "2 ^ k dvd unat m \<longleftrightarrow> take_bit k (unat m) = 0" by (simp add: take_bit_eq_mod dvd_eq_mod_eq_0)
  also have "\<dots> \<longleftrightarrow> (\<forall>j. \<not> bit (take_bit k (unat m)) j)" by (simp add: bit_eq_iff)
  also have "\<dots> \<longleftrightarrow> (\<forall>j<k. \<not> bit m j)" by (auto simp: bit_take_bit_iff bit_unsigned_iff)
  finally show ?thesis .
qed

lemma dvd_low_one: "m \<noteq> 0 \<Longrightarrow> 2 ^ k dvd unat (m :: 'a::len word) \<longleftrightarrow> k \<le> low_one m"
  unfolding dvd_low_bits using low_one_bit [of m] low_one_least [of m] by (metis not_le order_less_le_trans)

lemma d_loop_low_one:
  assumes "unat m < 2 ^ (52 - j)" "j \<le> 52"
  shows "d_loop m j = (if m = 0 then 52 else j + low_one m)"
  using assms
proof (induction m j rule: d_loop.induct)
  case (1 m j)
  show ?case
  proof (cases "j < 52")
    case False
    then have "m = 0" using 1(2) by (simp add: unat_eq_0)
    then show ?thesis using False 1(3) by (simp add: d_loop.simps)
  next
    case True
    have b0: "m AND 1 = 1 \<longleftrightarrow> bit m 0" using and_1_bit_0 [of m] by (auto simp: and_one_eq odd_iff_mod_2_eq_one bit_0)
    show ?thesis
    proof (cases "bit m 0")
      case True
      then have "low_one m = 0" by (intro low_oneI) auto
      moreover have "m \<noteq> 0" using True by auto
      ultimately show ?thesis using \<open>j < 52\<close> b0 True by (simp add: d_loop.simps [of m j])
    next
      case False
      have "unat (drop_bit 1 m) < 2 ^ (52 - (j + 1))"
      proof -
        obtain k where k: "52 - j = Suc k" "52 - (j + 1) = k" using True by (cases "52 - j") auto
        then have "unat m < 2 ^ k * 2" using 1(2) by simp
        then show ?thesis unfolding unat_drop_div k by (simp add: less_mult_imp_div_less)
      qed
      then have IH: "d_loop (drop_bit 1 m) (j + 1) = (if drop_bit 1 m = 0 then 52 else j + 1 + low_one (drop_bit 1 m))"
        using 1(1) True False b0 by simp
      have z: "drop_bit 1 m = 0 \<longleftrightarrow> m = 0"
      proof
        assume "drop_bit 1 m = 0"
        moreover have "bit (drop_bit 1 m) i \<longleftrightarrow> bit m (Suc i)" for i by (simp add: bit_drop_bit_eq)
        ultimately have "\<not> bit m (Suc i)" for i by simp
        then have "\<not> bit m i" for i using False by (cases i) auto
        then show "m = 0" by (intro bit_word_eqI) simp
      qed simp
      have "low_one m = 1 + low_one (drop_bit 1 m)" if "m \<noteq> 0"
      proof (rule low_oneI)
        have "drop_bit 1 m \<noteq> 0" using z that by simp
        note lb = low_one_bit [OF this]
        show "bit m (1 + low_one (drop_bit 1 m))" using lb by (simp add: bit_drop_bit_eq)
        show "\<not> bit m i" if "i < 1 + low_one (drop_bit 1 m)" for i
          using that False low_one_least [of "drop_bit 1 m" "i - 1"] by (cases i) (auto simp: bit_drop_bit_eq)
      qed
      then show ?thesis using True False b0 IH z by (simp add: d_loop.simps [of m j])
    qed
  qed
qed

lemma isIntegerD_correct:
  "isIntegerD i \<longleftrightarrow> 1023 \<le> fld 52 11 i \<and> 2 ^ (52 - (fld 52 11 i - 1023)) dvd 2 ^ 52 + fld 0 52 i"
proof -
  define m where "m = i AND 0x000FFFFFFFFFFFFF"
  define e where "e = fld 52 11 i"
  have m: "unat m = fld 0 52 i" using double_fields(3) [of i] by (simp add: m_def DOUBLE_MANT_MASK_def)
  have e: "unat (drop_bit 52 (i AND 0x7FF0000000000000)) = e" using double_fields(2) [of i] by (simp add: e_def DOUBLE_EXP_MASK_def)
  have j: "d_loop m 0 = (if m = 0 then 52 else low_one m)"
    using d_loop_low_one [of m 0] m fld_less [of 0 52 i] by simp
  have i: "isIntegerD i \<longleftrightarrow> 52 - int (d_loop m 0) \<le> int e - 1023"
    unfolding isIntegerD_def Let_def m_def [symmetric] e ..
  have "m \<noteq> 0 \<Longrightarrow> low_one m < 52"
    using low_one_bit [of m] high_bit_0 [of m 52 "low_one m"] m fld_less [of 0 52 i] by (metis not_le)
  then have j52: "d_loop m 0 \<le> 52" using j by auto
  have k: "2 ^ k dvd 2 ^ 52 + fld 0 52 i \<longleftrightarrow> k \<le> d_loop m 0" if "k \<le> 52" for k
  proof -
    have "(2 :: nat) ^ k dvd 2 ^ 52" using that by (rule le_imp_power_dvd)
    then have "2 ^ k dvd 2 ^ 52 + fld 0 52 i \<longleftrightarrow> 2 ^ k dvd unat m" unfolding m by (rule dvd_add_right_iff)
    also have "\<dots> \<longleftrightarrow> k \<le> d_loop m 0" using j dvd_low_one [of m k] that by (cases "m = 0") simp_all
    finally show ?thesis .
  qed
  have "1023 \<le> e \<and> 2 ^ (52 - (e - 1023)) dvd 2 ^ 52 + fld 0 52 i \<longleftrightarrow> 1023 \<le> e \<and> 52 - (e - 1023) \<le> d_loop m 0"
    using k [of "52 - (e - 1023)"] by simp
  also have "\<dots> \<longleftrightarrow> isIntegerD i" unfolding i using j52 by linarith
  finally show ?thesis by (simp add: e_def)
qed

lemma single_fields:
  "unat (i AND 0x007FFFFF) = fld 0 23 (i :: 32 word)" "unat (drop_bit 23 (i AND 0x7F800000)) = fld 23 8 i"
proof -
  have c: "(0x007FFFFF :: 32 word) = mask 23" "(0x7F800000 :: 32 word) = push_bit 23 (mask 8)"
    by (simp_all add: mask_eq_exp_minus_1)
  have "i AND 0x007FFFFF = take_bit 23 (drop_bit 0 i)" unfolding c by (simp add: take_bit_eq_mask)
  then show "unat (i AND 0x007FFFFF) = fld 0 23 i" by (simp only: unat_field)
  have "drop_bit 23 (i AND 0x7F800000) = take_bit 8 (drop_bit 23 i)"
    unfolding c by (rule bit_word_eqI) (auto simp: bit_ops bit_take_bit_iff)
  then show "unat (drop_bit 23 (i AND 0x7F800000)) = fld 23 8 i" by (simp only: unat_field)
qed

lemma isIntegerF_correct:
  "isIntegerF i \<longleftrightarrow>
     (if fld 0 23 i = 0 then 150 \<le> fld 23 8 i
      else 127 \<le> fld 23 8 i \<and> 2 ^ (23 - (fld 23 8 i - 127)) dvd 2 ^ 23 + fld 0 23 i)"
proof -
  define m where "m = i AND 0x007FFFFF"
  define e where "e = fld 23 8 i"
  have m: "unat m = fld 0 23 i" unfolding m_def by (rule single_fields)
  have i: "isIntegerF i \<longleftrightarrow> 23 - int (getFirstOneAtRightSide m) \<le> int e - 127"
    unfolding isIntegerF_def Let_def m_def [symmetric] single_fields e_def ..
  show ?thesis
  proof (cases "m = 0")
    case True
    have "getFirstOneAtRightSide 0 = 0" by (simp add: getFirstOneAtRightSide_def dbitpos_def)
    then show ?thesis using i True m unfolding e_def by simp
  next
    case False
    then have j: "getFirstOneAtRightSide m = low_one m" by (rule getFirstOneAtRightSide_correct)
    have "\<not> 23 \<le> low_one m" using low_one_bit [OF False] high_bit_0 [of m 23 "low_one m"] m fld_less [of 0 23 i] by auto
    moreover have "2 ^ k dvd 2 ^ 23 + fld 0 23 i \<longleftrightarrow> k \<le> low_one m" if "k \<le> 23" for k
    proof -
      have "(2 :: nat) ^ k dvd 2 ^ 23" using that by (rule le_imp_power_dvd)
      then have "2 ^ k dvd 2 ^ 23 + fld 0 23 i \<longleftrightarrow> 2 ^ k dvd unat m" unfolding m by (rule dvd_add_right_iff)
      then show ?thesis using dvd_low_one [OF False, of k] by simp
    qed
    then have "2 ^ (23 - (e - 127)) dvd 2 ^ 23 + fld 0 23 i \<longleftrightarrow> 23 - (e - 127) \<le> low_one m" by simp
    moreover have "fld 0 23 i \<noteq> 0" using False m by (metis unat_eq_0)
    ultimately show ?thesis unfolding i j e_def [symmetric] by auto
  qed
qed

lemma isFinite_correct: "isFiniteD d \<longleftrightarrow> fld 52 11 d \<noteq> 2047" "isFiniteF f \<longleftrightarrow> fld 23 8 f \<noteq> 255"
proof -
  have "(0x7FF0000000000000 :: 64 word) = push_bit 52 (mask 11)" "(0x7F800000 :: 32 word) = push_bit 23 (mask 8)"
    by (simp_all add: mask_eq_exp_minus_1)
  then show "isFiniteD d \<longleftrightarrow> fld 52 11 d \<noteq> 2047" "isFiniteF f \<longleftrightarrow> fld 23 8 f \<noteq> 255"
    using field_const(1) [of 52 11 d] field_const(1) [of 23 8 f] by (simp_all add: isFiniteD_def isFiniteF_def Let_def)
qed

section \<open>Properties\<close>

text \<open>
  \<open>xfloor\<close> and \<open>xceiling\<close> round the exact quotient down and up for every combination of signs, and
  \<open>ceil_align\<close> of a non-negative value is the least multiple of the alignment that is not below it.
\<close>

theorem rounding_division:
  assumes "b \<noteq> 0" "\<bar>a\<bar> + \<bar>b\<bar> < 2147483648"
    and "0 \<le> v" "1 \<le> align" "v + align < 9223372036854775808"
  shows "xfloor a b = a div b \<and> xceiling a b = - ((- a) div b) \<and>
    align dvd ceil_align v align \<and> v \<le> ceil_align v align \<and> ceil_align v align < v + align"
proof -
  have "v + align - 1 = (v + align - 1) div align * align + (v + align - 1) mod align" "(v + align - 1) mod align < align"
    "0 \<le> (v + align - 1) mod align"
    using assms(4) by simp_all
  then have "v \<le> (v + align - 1) div align * align" "(v + align - 1) div align * align < v + align" by linarith+
  then show ?thesis using xfloor_div [OF assms(1,2)] xceiling_div [OF assms(1,2)] ceil_align_least [OF assms(3-5)] by simp
qed

theorem rounding_division_witness:
  "xfloor 17 (- 5) = 17 div - 5 \<and> xceiling 17 (- 5) = - ((- 17) div - 5) \<and>
    12 dvd ceil_align 17 12 \<and> 17 \<le> ceil_align 17 12 \<and> ceil_align 17 12 < 17 + 12"
  using rounding_division [of "- 5" 17 17 12] by simp

text \<open>
  The divisor functions: \<open>sgcd\<close> is the greatest common divisor, \<open>slcm\<close> the least common multiple with the sign of the
  product (a division by zero for two zeros), \<open>exgcd\<close> returns Bezout coefficients small enough that no intermediate value
  leaves 32 bits.
\<close>

theorem divisors:
  assumes "\<bar>a\<bar> < 2147483648" "\<bar>b\<bar> < 2147483648" "\<bar>c * d\<bar> < 2147483648" "\<bar>c\<bar> < 2147483648" "\<bar>d\<bar> < 2147483648"
  shows "sgcd a b = gcd a b \<and>
    slcm c d = (if c = 0 \<and> d = 0 then None else Some (sgn (c * d) * lcm c d)) \<and>
    (\<exists>x y. exgcd a b = (gcd a b, x, y) \<and> a * x + b * y = gcd a b \<and> \<bar>x\<bar> \<le> max 1 \<bar>b\<bar> \<and> \<bar>y\<bar> \<le> max 1 \<bar>a\<bar>)"
  using sgcd_gcd [OF assms(1,2)] slcm_lcm [OF assms(4,5,3)] exgcd_bezout [OF assms(1,2)] by simp

theorem divisors_witness:
  "sgcd (- 12) 18 = gcd (- 12) 18 \<and>
    slcm 10 (- 15) = (if (10 :: int) = 0 \<and> (- 15 :: int) = 0 then None else Some (sgn (10 * - 15) * lcm 10 (- 15))) \<and>
    (\<exists>x y. exgcd (- 12) 18 = (gcd (- 12) 18, x, y) \<and> - 12 * x + 18 * y = gcd (- 12) 18 \<and>
      \<bar>x\<bar> \<le> max 1 \<bar>18\<bar> \<and> \<bar>y\<bar> \<le> max 1 \<bar>- 12 :: int\<bar>)"
  using divisors [of "- 12" 18 10 "- 15"] by simp

text \<open>
  C30: \<open>binsearch\<close> on a sorted array always ends, and its outcome is right, as long as an array of two or more elements
  does not start above the value. When it does, the unsigned bound wraps and the loop reads element \<open>2 ^ 31 - 1\<close>.
\<close>

theorem binsearch_outcomes:
  assumes "sorted arr" "length arr < 2147483648"
  shows "if 2 \<le> length arr \<and> v < arr ! 0 then binsearch arr v = Some (BadRead 2147483647)
    else (\<exists>r. binsearch arr v = Some r \<and>
      (case r of NotFound \<Rightarrow> v \<notin> set arr | Found p \<Rightarrow> p < length arr \<and> arr ! p = v | BadRead p \<Rightarrow> False))"
proof (cases "2 \<le> length arr \<and> v < arr ! 0")
  case True
  then have "binsearch arr v = bs_loop arr v 0 (length arr - 1)" by (auto simp: binsearch_def Let_def)
  moreover have "length arr - 1 < length arr" using True by auto
  ultimately show ?thesis using True bs_loop_bad [OF assms, of "length arr - 1" v] by simp
next
  case False
  then have "\<exists>r. binsearch arr v = Some r \<and> search_ok arr v r" using assms by (intro binsearch_ok) auto
  then show ?thesis unfolding if_not_P [OF False] search_ok_def .
qed

theorem binsearch_outcomes_witness:
  "binsearch [3, 5, 9] 1 = Some (BadRead 2147483647)"
  using binsearch_outcomes [of "[3, 5, 9]" 1] by simp

text \<open>
  \<open>prim\<close> ends on every number from 3 on with its prime factors in ascending order, negated in front for a negative
  argument; the product misses at most one factor, a repetition of the last one.
\<close>

theorem prim_factorizes:
  assumes "3 \<le> m" "m < 2147483648"
  shows "\<exists>fs r. prim m = Some fs \<and> prim (- m) = Some (- hd fs # tl fs) \<and> fs \<noteq> [] \<and> prod_list fs * r = m \<and>
    list_all is_prime fs \<and> sorted fs \<and> (r = 1 \<or> r = last fs)"
  by (rule prim_factors [OF assms])

theorem prim_factorizes_witness:
  "\<exists>fs r. prim 12 = Some fs \<and> prim (- 12) = Some (- hd fs # tl fs) \<and> fs \<noteq> [] \<and> prod_list fs * r = 12 \<and>
    list_all is_prime fs \<and> sorted fs \<and> (r = 1 \<or> r = last fs)"
  by (rule prim_factorizes) simp_all

text \<open>
  \<open>fact\<close> and \<open>arra\<close> are the factorial and the falling factorial modulo \<open>2 ^ 32\<close>; \<open>combin\<close> is the binomial
  coefficient whenever its intermediate product \<open>n! / m!\<close> fits 32 bits.
\<close>

theorem counting_functions:
  assumes "1 \<le> m" "m \<le> n" "n < 4294967296"
  shows "factorial n = fact n mod 2 ^ 32 \<and> arra n m = fact n div fact (n - m) mod 2 ^ 32 \<and>
    (fact n div fact m < (2 ^ 32 :: nat) \<longrightarrow> combin n m = Some (n choose m))"
  using factorial_fact [OF assms(3)] arra_perm [OF assms(1,2)] combin_choose [OF assms] by (simp add: u32_def)

theorem counting_functions_witness:
  "factorial 14 = fact 14 mod 2 ^ 32 \<and> arra 14 12 = fact 14 div fact (14 - 12) mod 2 ^ 32 \<and>
    combin 14 12 = Some (14 choose 12)"
proof -
  have "fact 14 div fact 12 < (2 ^ 32 :: nat)" by (simp add: fact_numeral)
  then show ?thesis using counting_functions [of 12 14] by simp
qed

text \<open>
  The tests on floating-point patterns: \<open>isFiniteD\<close> and \<open>isFiniteF\<close> test the exponent field, \<open>isIntegerD\<close>
  decides that a normal double has no fraction bits, and \<open>isIntegerF\<close> does so for a non-zero mantissa, while a zero mantissa
  counts as an integer only from \<open>2 ^ 23\<close> on.
\<close>

theorem float_tests:
  "(isFiniteD d \<longleftrightarrow> fld 52 11 d \<noteq> 2047) \<and> (isFiniteF f \<longleftrightarrow> fld 23 8 f \<noteq> 255) \<and>
   (isIntegerD d \<longleftrightarrow> 1023 \<le> fld 52 11 d \<and> 2 ^ (52 - (fld 52 11 d - 1023)) dvd 2 ^ 52 + fld 0 52 d) \<and>
   (isIntegerF f \<longleftrightarrow>
     (if fld 0 23 f = 0 then 150 \<le> fld 23 8 f
      else 127 \<le> fld 23 8 f \<and> 2 ^ (23 - (fld 23 8 f - 127)) dvd 2 ^ 23 + fld 0 23 f))"
  using isFinite_correct(1) [of d] isFinite_correct(2) [of f] isIntegerD_correct [of d] isIntegerF_correct [of f] by blast

end
