(* ===== verification/StrConv.thy ===== *)
theory StrConv
  imports NumComf "HOL-Library.Char_ord"
begin

text \<open>
  The string functions of \<^verbatim>\<open>src/com/comf.h\<close> and \<^verbatim>\<open>src/com/comf.cpp\<close>: character classes,
  conversions between strings and numbers, searching, splitting, file names and the reversal of
  \<^verbatim>\<open>src/com/sstl.h\<close>. A C string is the list of its characters before the terminator, which is the
  character \<open>NUL\<close>; a pointer into a string is the list of the characters from there on. A read behind
  the terminator is an outcome of its own.
\<close>

definition NUL :: char where "NUL = CHR 0x00"

text \<open>The character \<open>i\<close> of a string, up to the terminator.\<close>

definition cs_at :: "string \<Rightarrow> nat \<Rightarrow> char" where
  "cs_at s i = (if i < length s then s ! i else NUL)"

section \<open>Characters\<close>

abbreviation chr_val :: "char \<Rightarrow> nat" where "chr_val \<equiv> of_char"

definition in_range :: "char \<Rightarrow> char \<Rightarrow> char \<Rightarrow> bool" where
  "in_range lo hi c \<longleftrightarrow> chr_val lo \<le> chr_val c \<and> chr_val c \<le> chr_val hi"

definition upper_chr :: "char \<Rightarrow> char" where
  "upper_chr n = (if in_range CHR ''a'' CHR ''z'' n then char_of (chr_val n - 32) else n)"

definition lower_chr :: "char \<Rightarrow> char" where
  "lower_chr n = (if in_range CHR ''A'' CHR ''Z'' n then char_of (chr_val n + 32) else n)"

definition xisspace :: "char \<Rightarrow> bool" where "xisspace c \<longleftrightarrow> c = CHR '' '' \<or> c = CHR 0x09"
definition xisdigit :: "char \<Rightarrow> bool" where "xisdigit c = in_range CHR ''0'' CHR ''9'' c"
definition xisdigitbin :: "char \<Rightarrow> bool" where "xisdigitbin c \<longleftrightarrow> c = CHR ''0'' \<or> c = CHR ''1''"
definition xisdigithex_alpha :: "char \<Rightarrow> bool" where
  "xisdigithex_alpha c = in_range CHR ''A'' CHR ''F'' (upper_chr c)"
definition xisdigithex_octal :: "char \<Rightarrow> bool" where "xisdigithex_octal c = in_range CHR ''0'' CHR ''7'' c"
definition xisdigithex :: "char \<Rightarrow> bool" where "xisdigithex c \<longleftrightarrow> xisdigit c \<or> xisdigithex_alpha c"
definition xisalpha :: "char \<Rightarrow> bool" where "xisalpha c = in_range CHR ''A'' CHR ''Z'' (upper_chr c)"

definition xisdigit_str :: "string \<Rightarrow> bool" where
  "xisdigit_str s = list_all xisdigit s"

text \<open>The in-place case conversions go from the last character to the first.\<close>

fun upper_from :: "string \<Rightarrow> nat \<Rightarrow> string" where
  "upper_from n 0 = n"
| "upper_from n (Suc l) = upper_from (n[l := upper_chr (n ! l)]) l"

definition upper :: "string \<Rightarrow> string" where "upper n = upper_from n (length n)"

fun lower_from :: "string \<Rightarrow> nat \<Rightarrow> string" where
  "lower_from n 0 = n"
| "lower_from n (Suc l) = lower_from (n[l := lower_chr (n ! l)]) l"

definition lower :: "string \<Rightarrow> string" where "lower n = lower_from n (length n)"

section \<open>Numbers from strings\<close>

text \<open>\<open>LONGLONG\<close> arithmetic wraps through \<open>i64\<close>.\<close>

fun hextoll_loop :: "string \<Rightarrow> int \<Rightarrow> int" where
  "hextoll_loop [] res = res"
| "hextoll_loop (c # nptr) res =
     (if \<not> xisdigithex c then res
      else if xisdigit c then hextoll_loop nptr (i64 (16 * res + int (chr_val c) - 48))
      else let c = upper_chr c
           in if in_range CHR ''A'' CHR ''F'' c then hextoll_loop nptr (i64 (16 * res + int (chr_val c) - 65 + 10))
              else 0)"

definition hextoll :: "string \<Rightarrow> int" where "hextoll nptr = hextoll_loop nptr 0"

fun bintoll_loop :: "string \<Rightarrow> int \<Rightarrow> int" where
  "bintoll_loop [] res = res"
| "bintoll_loop (c # nptr) res =
     (if xisdigitbin c then bintoll_loop nptr (i64 (2 * res + int (chr_val c) - 48)) else res)"

definition bintoll :: "string \<Rightarrow> int" where "bintoll nptr = bintoll_loop nptr 0"

text \<open>The octal and the decimal loop of \<open>xatoll\<close>.\<close>

fun digits_loop :: "int \<Rightarrow> char \<Rightarrow> string \<Rightarrow> int \<Rightarrow> int" where
  "digits_loop base hi [] res = res"
| "digits_loop base hi (c # nptr) res =
     (if in_range CHR ''0'' hi c then digits_loop base hi nptr (i64 (base * res + (int (chr_val c) - 48))) else res)"

definition xatoll :: "string \<Rightarrow> bool \<Rightarrow> int" where
  "xatoll nptr is_oct =
     (let nptr = dropWhile xisspace nptr;
          sign = cs_at nptr 0;
          nptr = (if sign = CHR ''-'' \<or> sign = CHR ''+'' then drop 1 nptr else nptr);
          res = (if cs_at nptr 0 = CHR ''0'' \<and> upper_chr (cs_at nptr 1) = CHR ''X'' then hextoll (drop 2 nptr)
                 else if cs_at nptr 0 = CHR ''0'' \<and> upper_chr (cs_at nptr 1) = CHR ''B'' then bintoll (drop 2 nptr)
                 else if is_oct then digits_loop 8 CHR ''7'' nptr 0
                 else digits_loop 10 CHR ''9'' nptr 0)
      in if sign = CHR ''-'' then i64 (- res) else res)"

text \<open>\<open>r |= cl[i] << (i * 8)\<close>; \<open>CHAR\<close> is signed.\<close>

definition chr_int :: "char \<Rightarrow> int" where
  "chr_int c = signed_take_bit 7 (int (chr_val c))"

fun ctoi_loop :: "string \<Rightarrow> nat \<Rightarrow> int \<Rightarrow> int" where
  "ctoi_loop [] i r = r"
| "ctoi_loop (c # cs) i r = ctoi_loop cs (i + 1) (i32 (r OR push_bit (8 * i) (chr_int c)))"

definition xctoi :: "string \<Rightarrow> int" where
  "xctoi cl = (if cl = [] then 0 else if length cl > 4 then 0 else ctoi_loop cl 0 0)"

section \<open>Numbers to strings\<close>

text \<open>\<open>reverse_buffer\<close> of \<^verbatim>\<open>sstl.h\<close> and the functions on strings that use it.\<close>

definition swap_at :: "'a list \<Rightarrow> nat \<Rightarrow> nat \<Rightarrow> 'a list" where
  "swap_at buf i j = buf[i := buf ! j, j := buf ! i]"

function rev_loop :: "'a list \<Rightarrow> nat \<Rightarrow> int \<Rightarrow> 'a list" where
  "rev_loop buf start stop =
     (if int start \<le> stop - 1 then rev_loop (swap_at buf start (nat stop)) (start + 1) (stop - 1) else buf)"
  by pat_completeness auto
termination by (relation "measure (\<lambda>(buf, start, stop). nat (stop - int start))") auto

declare rev_loop.simps [simp del]

definition reverse_buffer :: "'a list \<Rightarrow> 'a list" where
  "reverse_buffer buf = rev_loop buf 0 (int (length buf) - 1)"

definition reverseString :: "string \<Rightarrow> string" where "reverseString v = reverse_buffer v"

definition rotate_buffer :: "'a list \<Rightarrow> nat \<Rightarrow> 'a list" where
  "rotate_buffer buf n =
     (let buf = reverse_buffer buf; buf = reverse_buffer (take n buf) @ drop n buf
      in take n buf @ reverse_buffer (drop n buf))"

definition rotateString :: "string \<Rightarrow> nat \<Rightarrow> string" where "rotateString str n = rotate_buffer str n"

text \<open>The digits of \<open>xltoa\<close>; \<open>None\<close> is the index of the digit table that is negative for the least number.\<close>

function ltoa_loop :: "int \<Rightarrow> string \<Rightarrow> string option" where
  "ltoa_loop v str =
     (if v \<noteq> 0
      then let r = v smod 10
           in if r < 0 then None else ltoa_loop (v sdiv 10) (str @ [''0123456789'' ! nat r])
      else Some str)"
  by pat_completeness auto
termination
  by (relation "measure (\<lambda>(v, str). nat \<bar>v\<bar>)") (auto simp: signed_divide_int_def abs_mult abs_sgn_eq)

declare ltoa_loop.simps [simp del]

definition xltoa :: "int \<Rightarrow> string option" where
  "xltoa v =
     (let sign = v < 0; v = (if v < 0 then i64 (- v) else v)
      in map_option (\<lambda>str. reverseString (if sign then str @ ''-'' else str)) (ltoa_loop v []))"

section \<open>Searching and comparing\<close>

text \<open>
  The inner loop of \<open>xstrstr\<close>: it matches \<open>par\<close> from \<open>seg\<close> on and returns the number of characters that
  agree and the first later position of the first character of \<open>par\<close> among them.
\<close>

fun match_loop :: "string \<Rightarrow> string \<Rightarrow> char \<Rightarrow> nat \<Rightarrow> nat \<Rightarrow> nat \<times> nat" where
  "match_loop (p # ps) (s # ss) p0 k spn =
     (if s = p then match_loop ps ss p0 (k + 1) (if spn = 0 \<and> s = p0 then k else spn) else (k, spn))"
| "match_loop _ _ p0 k spn = (k, spn)"

text \<open>The outcomes: the index, -1, and a read behind the terminator of \<open>src\<close>.\<close>

datatype found = At nat | Absent | ReadBehind

function strstr_from :: "string \<Rightarrow> string \<Rightarrow> nat \<Rightarrow> found" where
  "strstr_from src par seg =
     (if seg > length src then ReadBehind
      else if seg = length src then Absent
      else let (k, spn) = match_loop par (drop seg src) (cs_at par 0) 0 0
           in if k = length par then At seg
              else let s = seg + k + 1
                   in if spn = 0 \<and> s > length src then ReadBehind
                      else let spn = (if spn = 0 \<and> cs_at src s = cs_at par 0 then k + 1 else spn)
                           in if spn \<noteq> 0 then strstr_from src par (seg + spn) else strstr_from src par s)"
  by pat_completeness auto
termination by (relation "measure (\<lambda>(src, par, seg). length src - seg)") auto

declare strstr_from.simps [simp del]

definition xstrstr :: "string \<Rightarrow> string \<Rightarrow> found" where
  "xstrstr src par = strstr_from src par 0"

text \<open>\<open>len\<close>, \<open>end\<close> and \<open>start\<close> of \<open>xsplit\<close> delimit the current piece, here its characters.\<close>

fun split_loop :: "char \<Rightarrow> string \<Rightarrow> string \<Rightarrow> string list \<Rightarrow> string list" where
  "split_loop sep [] piece ret = ret @ [piece]"
| "split_loop sep (c # cs) piece ret =
     (if c \<noteq> sep then split_loop sep cs (piece @ [c]) ret else split_loop sep cs [] (ret @ [piece]))"

definition xsplit :: "string \<Rightarrow> char \<Rightarrow> nat \<times> string list" where
  "xsplit str sep = (let ret = split_loop sep str [] [] in (length ret, ret))"

text \<open>An escaped newline counts as one character.\<close>

fun xstrlen :: "string \<Rightarrow> nat" where
  "xstrlen [] = 0"
| "xstrlen (c # p) = (if c = CHR 0x5C \<and> cs_at p 0 = CHR ''n'' then 1 + xstrlen (drop 1 p) else 1 + xstrlen p)"

text \<open>
  \<open>xstrcmp\<close> compares \<open>n > 0\<close> characters and does not stop at a terminator; a read behind the
  terminator of either string is \<open>None\<close>. The second component is \<open>*pos\<close>.
\<close>

fun strcmp_loop :: "string \<Rightarrow> string \<Rightarrow> nat \<Rightarrow> nat \<Rightarrow> (bool \<times> nat) option" where
  "strcmp_loop p1 p2 i 0 = Some (True, i)"
| "strcmp_loop p1 p2 i (Suc n) =
     (if i > length p1 \<or> i > length p2 then None
      else if cs_at p1 i = cs_at p2 i then strcmp_loop p1 p2 (i + 1) n else Some (False, i))"

definition xstrcmp :: "string \<Rightarrow> string \<Rightarrow> nat \<Rightarrow> (bool \<times> nat) option" where
  "xstrcmp p1 p2 n = strcmp_loop p1 p2 0 n"

section \<open>Hexadecimal strings\<close>

definition g_char2hex :: "nat list" where
  "g_char2hex = [0, 1, 2, 3, 4, 5, 6, 7, 8, 9] @ replicate 7 0 @ [10, 11, 12, 13, 14, 15] @ replicate 26 0 @
     [10, 11, 12, 13, 14, 15]"

text \<open>\<open>None\<close> is the failing assertion on the range of the character.\<close>

definition charToHex :: "char \<Rightarrow> byte option" where
  "charToHex c = (if in_range CHR ''0'' CHR ''f'' c then Some (of_nat (g_char2hex ! (chr_val c - 48))) else None)"

text \<open>\<open>for (i = 0; i < stringlen - 1; i += 2)\<close>, where \<open>stringlen - 1\<close> wraps for the empty string.\<close>

fun hex_loop :: "string \<Rightarrow> byte list option" where
  "hex_loop (h # l # cs) =
     (case (charToHex h, charToHex l) of
        (Some high, Some low) \<Rightarrow> map_option (\<lambda>bs. (low OR push_bit 4 high) # bs) (hex_loop cs)
      | _ \<Rightarrow> None)"
| "hex_loop _ = Some []"

definition charToByteHex :: "string \<Rightarrow> byte list option" where
  "charToByteHex s = (if s = [] then None else hex_loop s)"

section \<open>Shifting\<close>

definition strshift :: "string \<Rightarrow> int \<Rightarrow> string" where
  "strshift s ofst =
     (let len = int (length s)
      in if ofst \<ge> 0 then if ofst \<ge> len then [] else take (nat (len - ofst)) s
         else if - ofst \<ge> len then [] else take (nat (len + ofst)) (drop (nat (- ofst)) s))"

section \<open>File names\<close>

text \<open>
  The loops that walk from the terminator towards the front until a character satisfies \<open>P\<close>; the
  result is its index or -1. (The loops of the code test the character before the index and so also read the byte in front
  of the string, without using it.)
\<close>

fun scan_back :: "(char \<Rightarrow> bool) \<Rightarrow> string \<Rightarrow> nat \<Rightarrow> int" where
  "scan_back P n 0 = - 1"
| "scan_back P n (Suc i) = (if P (cs_at n i) then int i else scan_back P n i)"

definition is_slash :: "char \<Rightarrow> bool" where "is_slash c \<longleftrightarrow> c = CHR 0x5C \<or> c = CHR ''/''"

definition getFilePath :: "string \<Rightarrow> string option" where
  "getFilePath n = (let i = scan_back is_slash n (length n + 1) in if i < 0 then None else Some (take (nat i) n))"

text \<open>The leftmost dot behind the last slash.\<close>

fun dot_back :: "string \<Rightarrow> nat \<Rightarrow> int \<Rightarrow> int \<times> int" where
  "dot_back path 0 dotpos = (- 1, dotpos)"
| "dot_back path (Suc i) dotpos =
     (if is_slash (cs_at path i) then (int i, dotpos)
      else dot_back path i (if cs_at path i = CHR ''.'' then int i else dotpos))"

text \<open>\<open>None\<close> is the use of the uninitialized \<open>end\<close>.\<close>

definition getFileName :: "string \<Rightarrow> bool \<Rightarrow> string option" where
  "getFileName path strip_suffix =
     (let (i, dotpos) = dot_back path (length path + 1) (- 1);
          start = i + 1
      in if dotpos < 0 then Some (take (length path - nat start) (drop (nat start) path))
         else if strip_suffix then Some (take (nat (dotpos - start)) (drop (nat start) path))
         else None)"

definition getFileSuffix :: "string \<Rightarrow> string option" where
  "getFileSuffix n =
     (let i = scan_back (\<lambda>c. c = CHR ''.'') n (length n + 1)
      in if i < 0 then None else Some (drop (nat i + 1) n))"

text \<open>The suffix is compared in upper case with each of the given ones; \<open>None\<close> is the use of the uninitialized buffer.\<close>

definition isFileSuffix :: "string \<Rightarrow> string list \<Rightarrow> bool option" where
  "isFileSuffix fn suffixes = map_option (\<lambda>buf. list_ex (\<lambda>s. upper buf = s) suffixes) (getFileSuffix fn)"

fun rightmost_loop :: "string \<Rightarrow> char \<Rightarrow> nat \<Rightarrow> string" where
  "rightmost_loop s sep 0 = s"
| "rightmost_loop s sep (Suc l) = (if cs_at s (Suc l) = sep then drop (Suc l + 1) s else rightmost_loop s sep l)"

definition extractRightMostSubString :: "string \<Rightarrow> char \<Rightarrow> string" where
  "extractRightMostSubString s sep = rightmost_loop s sep (length s)"

fun leftmost_loop :: "string \<Rightarrow> char \<Rightarrow> nat" where
  "leftmost_loop [] sep = 0"
| "leftmost_loop (c # p) sep = (if c = sep then 0 else 1 + leftmost_loop p sep)"

definition extractLeftMostSubString :: "string \<Rightarrow> char \<Rightarrow> string" where
  "extractLeftMostSubString s sep = take (leftmost_loop s sep) s"

section \<open>Numbers and strings\<close>

lemma rev_loop_rev:
  assumes "pre = length xs" "length ys = pre"
  shows "rev_loop (xs @ mid @ ys) pre (int (pre + length mid) - 1) = xs @ rev mid @ ys"
  using assms
proof (induction "length mid" arbitrary: xs mid ys pre rule: less_induct)
  case less
  show ?case
  proof (cases "length mid \<le> 1")
    case True
    then have "rev mid = mid" by (cases mid; cases "tl mid") auto
    then show ?thesis using True by (subst rev_loop.simps) auto
  next
    case False
    then obtain a m b where m: "mid = a # m @ [b]"
      by (cases mid; cases "tl mid" rule: rev_cases) auto
    have sw: "swap_at (xs @ mid @ ys) pre (nat (int (pre + length mid) - 1)) = (xs @ [b]) @ m @ (a # ys)"
    proof -
      have "nat (int (pre + length mid) - 1) = length xs + (1 + length m)" using less.prems(1) m by simp
      then show ?thesis using less.prems(1) m
        by (simp add: swap_at_def nth_append list_update_append)
    qed
    have c: "int pre \<le> int (pre + length mid) - 1 - 1" "int (pre + length mid) - 1 - 1 = int (pre + 1 + length m) - 1"
      using m by simp_all
    have "rev_loop (xs @ mid @ ys) pre (int (pre + length mid) - 1) =
        rev_loop ((xs @ [b]) @ m @ (a # ys)) (pre + 1) (int (pre + 1 + length m) - 1)"
      using c(1) unfolding rev_loop.simps [of "xs @ mid @ ys"] sw c(2) by simp
    also have "\<dots> = (xs @ [b]) @ rev m @ (a # ys)" using less.prems m by (intro less.hyps) auto
    finally show ?thesis using m by simp
  qed
qed

lemma reverse_buffer_rev: "reverse_buffer buf = rev buf"
  using rev_loop_rev [of 0 "[]" "[]" buf] by (simp add: reverse_buffer_def)

lemma rotate_buffer_rotate: "n \<le> length buf \<Longrightarrow> rotate_buffer buf n = drop (length buf - n) buf @ take (length buf - n) buf"
  by (simp add: rotate_buffer_def Let_def reverse_buffer_rev rev_take rev_drop)

text \<open>The value of decimal digits, the lowest first.\<close>

fun dec_val :: "string \<Rightarrow> int" where
  "dec_val [] = 0"
| "dec_val (c # cs) = int (chr_val c) - 48 + 10 * dec_val cs"

lemma digit_table: "0 \<le> r \<Longrightarrow> r < 10 \<Longrightarrow> chr_val (''0123456789'' ! nat r) = nat r + 48"
proof -
  assume "0 \<le> r" "r < 10"
  then have "nat r \<in> set [0..<10]" by simp
  moreover have "list_all (\<lambda>k. chr_val (''0123456789'' ! k) = k + 48) [0..<10]" by code_simp
  ultimately show ?thesis by (auto simp only: list_all_iff)
qed

lemma xisdigit_val: "xisdigit c \<longleftrightarrow> 48 \<le> chr_val c \<and> chr_val c \<le> 57"
  by (simp add: xisdigit_def in_range_def)

lemma ltoa_loop_digits:
  "0 \<le> v \<Longrightarrow> \<exists>ds. ltoa_loop v str = Some (str @ ds) \<and> list_all xisdigit ds \<and> dec_val ds = v \<and> (ds = [] \<longleftrightarrow> v = 0)"
proof (induction v str rule: ltoa_loop.induct)
  case (1 v str)
  show ?case
  proof (cases "v = 0")
    case True
    then show ?thesis by (simp add: ltoa_loop.simps)
  next
    case False
    have m: "v smod 10 = v mod 10" using 1(2) by (intro smod_mod_positive) auto
    have d: "v sdiv 10 = v div 10" using 1(2) sdiv_div [of 10 v] by simp
    have "\<exists>ds. ltoa_loop (v sdiv 10) (str @ [''0123456789'' ! nat (v smod 10)]) =
        Some ((str @ [''0123456789'' ! nat (v smod 10)]) @ ds) \<and> list_all xisdigit ds \<and> dec_val ds = v sdiv 10 \<and>
        (ds = [] \<longleftrightarrow> v sdiv 10 = 0)"
      using 1(1) [OF False refl] m d 1(2) by simp
    then obtain ds where ds: "ltoa_loop (v sdiv 10) (str @ [''0123456789'' ! nat (v smod 10)]) =
        Some ((str @ [''0123456789'' ! nat (v smod 10)]) @ ds)" "list_all xisdigit ds" "dec_val ds = v div 10"
      using d by auto
    have t: "chr_val (''0123456789'' ! nat (v mod 10)) = nat (v mod 10) + 48" by (rule digit_table) simp_all
    have "nat (v mod 10) \<le> 9" by (simp add: nat_le_iff)
    then have "xisdigit (''0123456789'' ! nat (v mod 10))" using t by (simp add: xisdigit_val)
    moreover have "dec_val ((''0123456789'' ! nat (v mod 10)) # ds) = v" using ds(3) t by simp
    moreover have "ltoa_loop v str = Some (str @ (''0123456789'' ! nat (v mod 10)) # ds)"
      using False m ds(1) by (simp add: ltoa_loop.simps [of v str] Let_def)
    ultimately show ?thesis using ds(2) False by (intro exI [of _ "(''0123456789'' ! nat (v mod 10)) # ds"]) simp
  qed
qed

definition dec_step :: "int \<Rightarrow> char \<Rightarrow> int" where
  "dec_step r c = 10 * r + (int (chr_val c) - 48)"

lemma dec_fold_ge: "list_all xisdigit xs \<Longrightarrow> 0 \<le> r \<Longrightarrow> r \<le> foldl dec_step r xs"
proof (induction xs arbitrary: r)
  case (Cons c xs)
  then have "r \<le> dec_step r c" "0 \<le> dec_step r c" by (simp_all add: dec_step_def xisdigit_val)
  then show ?case using Cons.IH [of "dec_step r c"] Cons.prems by simp
qed simp

lemma digits_loop_fold:
  "list_all xisdigit xs \<Longrightarrow> 0 \<le> r \<Longrightarrow> foldl dec_step r xs < 9223372036854775808 \<Longrightarrow>
   digits_loop 10 CHR ''9'' xs r = foldl dec_step r xs"
proof (induction xs arbitrary: r)
  case (Cons c xs)
  have c: "in_range CHR ''0'' CHR ''9'' c" "48 \<le> chr_val c" using Cons.prems(1) by (simp_all add: xisdigit_def in_range_def)
  then have s: "0 \<le> dec_step r c" using Cons.prems(2) by (simp add: dec_step_def)
  then have "dec_step r c \<le> foldl dec_step (dec_step r c) xs" using Cons.prems(1) by (intro dec_fold_ge) simp_all
  then have "i64 (dec_step r c) = dec_step r c" using s Cons.prems(3) by (intro i64_id) simp_all
  then show ?case using c Cons.IH [OF _ s] Cons.prems by (simp add: dec_step_def)
qed simp

lemma foldl_dec_rev: "foldl dec_step 0 (rev ds) = dec_val ds"
  by (induction ds) (simp_all add: dec_step_def)

lemma digit_no_prefix: "xisdigit c \<or> c = NUL \<Longrightarrow> upper_chr c \<noteq> CHR ''X'' \<and> upper_chr c \<noteq> CHR ''B''"
  by (auto simp: upper_chr_def in_range_def xisdigit_val NUL_def)

text \<open>A string of decimal digits, with an optional minus sign, is read in decimal.\<close>

lemma xatoll_digits:
  assumes "list_all xisdigit ds" "dec_val ds < 9223372036854775808"
  shows "xatoll (rev ds) False = dec_val ds" "xatoll (CHR ''-'' # rev ds) False = - dec_val ds"
proof -
  have ds: "list_all xisdigit (rev ds)" using assms(1) by (simp add: list_all_iff)
  have nn: "0 \<le> dec_val ds" using dec_fold_ge [OF ds, of 0] by (simp add: foldl_dec_rev)
  have dl: "digits_loop 10 CHR ''9'' (rev ds) 0 = dec_val ds"
    using digits_loop_fold [OF ds, of 0] assms(2) by (simp add: foldl_dec_rev)
  have sp: "dropWhile xisspace (rev ds) = rev ds"
  proof (cases "rev ds")
    case (Cons c cs)
    then have "xisdigit c" using ds by simp
    then have "\<not> xisspace c" by (auto simp: xisspace_def xisdigit_val)
    then show ?thesis using Cons by simp
  qed simp
  have at: "xisdigit (cs_at (rev ds) i) \<or> cs_at (rev ds) i = NUL" for i
    using ds by (auto simp: cs_at_def list_all_length)
  have sg: "cs_at (rev ds) 0 \<noteq> CHR ''-''" "cs_at (rev ds) 0 \<noteq> CHR ''+''"
    using at [of 0] by (auto simp: xisdigit_val NUL_def)
  have pf: "upper_chr (cs_at (rev ds) 1) \<noteq> CHR ''X''" "upper_chr (cs_at (rev ds) 1) \<noteq> CHR ''B''"
    using digit_no_prefix [OF at [of 1]] by auto
  show "xatoll (rev ds) False = dec_val ds" using sp sg pf dl by (simp add: xatoll_def Let_def)
  have "\<not> xisspace CHR ''-''" "cs_at (CHR ''-'' # rev ds) 0 = CHR ''-''" by (simp_all add: xisspace_def cs_at_def)
  moreover have "i64 (- dec_val ds) = - dec_val ds" using nn assms(2) by (intro i64_id) simp_all
  ultimately show "xatoll (CHR ''-'' # rev ds) False = - dec_val ds" using pf dl by (simp add: xatoll_def Let_def)
qed

lemma xltoa_xatoll:
  assumes "- 9223372036854775808 < v" "v < 9223372036854775808"
  shows "\<exists>s. xltoa v = Some s \<and> xatoll s False = v"
proof (cases "v < 0")
  case True
  then have n: "i64 (- v) = - v" using assms by (intro i64_id) simp_all
  obtain ds where ds: "ltoa_loop (- v) [] = Some ds" "list_all xisdigit ds" "dec_val ds = - v"
    using ltoa_loop_digits [of "- v" "[]"] True by auto
  have "xltoa v = Some (CHR ''-'' # rev ds)" using True n ds(1) by (simp add: xltoa_def reverseString_def reverse_buffer_rev)
  then show ?thesis using xatoll_digits(2) [OF ds(2)] ds(3) assms by simp
next
  case False
  obtain ds where ds: "ltoa_loop v [] = Some ds" "list_all xisdigit ds" "dec_val ds = v"
    using ltoa_loop_digits [of v "[]"] False by auto
  have "xltoa v = Some (rev ds)" using False ds(1) by (simp add: xltoa_def reverseString_def reverse_buffer_rev)
  then show ?thesis using xatoll_digits(1) [OF ds(2)] ds(3) assms by simp
qed

section \<open>Searching and splitting\<close>

lemma match_loop_prefix:
  "match_loop ps ss p0 k spn = (k', spn') \<Longrightarrow>
   k \<le> k' \<and> k' - k \<le> length ps \<and> k' - k \<le> length ss \<and> take (k' - k) ps = take (k' - k) ss"
proof (induction ps ss p0 k spn rule: match_loop.induct)
  case (1 p ps s ss p0 k spn)
  show ?case
  proof (cases "s = p")
    case True
    then have "k + 1 \<le> k' \<and> k' - (k + 1) \<le> length ps \<and> k' - (k + 1) \<le> length ss \<and>
        take (k' - (k + 1)) ps = take (k' - (k + 1)) ss"
      using 1 by simp
    moreover from this have "k' - k = Suc (k' - (k + 1))" by linarith
    ultimately show ?thesis using True by simp
  next
    case False
    then show ?thesis using 1(2) by simp
  qed
qed auto

lemma strstr_from_sound: "strstr_from src par seg = At i \<Longrightarrow> take (length par) (drop i src) = par"
proof (induction src par seg rule: strstr_from.induct)
  case (1 src par seg)
  obtain k spn where m: "match_loop par (drop seg src) (cs_at par 0) 0 0 = (k, spn)" by force
  show ?case
  proof (cases "seg < length src \<and> k = length par")
    case True
    then have "i = seg" using 1(3) m by (simp add: strstr_from.simps [of src par seg])
    then show ?thesis using match_loop_prefix [OF m] True by simp
  next
    case False
    then show ?thesis using 1 m
      by (auto simp: strstr_from.simps [of src par seg] Let_def split: if_splits)
  qed
qed

fun join_with :: "char \<Rightarrow> string list \<Rightarrow> string" where
  "join_with sep [] = []"
| "join_with sep [x] = x"
| "join_with sep (x # y # xs) = x @ sep # join_with sep (y # xs)"

lemma split_loop_join:
  "sep \<notin> set piece \<Longrightarrow>
   \<exists>ps. split_loop sep cs piece ret = ret @ ps \<and> join_with sep ps = piece @ cs \<and> list_all (\<lambda>p. sep \<notin> set p) ps \<and>
     length ps = 1 + count_list cs sep \<and> ps \<noteq> []"
proof (induction sep cs piece ret rule: split_loop.induct)
  case (2 sep c cs piece ret)
  show ?case
  proof (cases "c = sep")
    case True
    then obtain ps where ps: "split_loop sep cs [] (ret @ [piece]) = (ret @ [piece]) @ ps" "join_with sep ps = cs"
      "list_all (\<lambda>p. sep \<notin> set p) ps" "length ps = 1 + count_list cs sep" "ps \<noteq> []"
      using 2(2) by auto
    have "join_with sep (piece # ps) = piece @ sep # cs" using ps(2,5) by (cases ps) auto
    then show ?thesis using ps True 2(3) by (intro exI [of _ "piece # ps"]) simp
  next
    case False
    then show ?thesis using 2(1) [OF False] 2(3) by auto
  qed
qed simp

text \<open>The skip past a mismatch loses an occurrence that starts at the mismatching character.\<close>

lemma xstrstr_misses: "xstrstr ''aab'' ''ab'' = Absent \<and> take 2 (drop 1 ''aab'') = ''ab''"
  by (simp add: xstrstr_def strstr_from.simps cs_at_def)

lemma xstrstr_reads_behind: "xstrstr ''xa'' ''ab'' = ReadBehind"
  by (simp add: xstrstr_def strstr_from.simps cs_at_def)

section \<open>File names\<close>

lemma scan_back_last:
  assumes "\<And>j. i < j \<Longrightarrow> j < k \<Longrightarrow> \<not> P (cs_at n j)" "P (cs_at n i)" "i < k"
  shows "scan_back P n k = int i"
  using assms
proof (induction k)
  case (Suc k)
  then show ?case by (cases "k = i") auto
qed simp

lemma scan_back_none: "(\<And>j. j < k \<Longrightarrow> \<not> P (cs_at n j)) \<Longrightarrow> scan_back P n k = - 1"
  by (induction k) auto

lemma cs_at_behind: "cs_at (p @ f) (length p + j) = cs_at f j"
  by (simp add: cs_at_def nth_append)

lemma NUL_no: "\<not> is_slash NUL" "NUL \<noteq> CHR ''.''"
  by (simp_all add: is_slash_def NUL_def)

lemma cs_at_free: "list_all (\<lambda>c. \<not> P c) f \<Longrightarrow> \<not> P NUL \<Longrightarrow> \<not> P (cs_at f j)"
  by (auto simp: cs_at_def list_all_length)

text \<open>The walk of \<open>getFileName\<close> over a name without a slash.\<close>

lemma dot_back_name:
  assumes "list_all (\<lambda>c. \<not> is_slash c) f" "k \<le> length f + 1"
  shows "dot_back (p @ f) (length p + k) dp =
    dot_back (p @ f) (length p)
      (if \<exists>j<k. cs_at f j = CHR ''.'' then int (length p) + int (LEAST j. cs_at f j = CHR ''.'') else dp)"
  using assms(2)
proof (induction k arbitrary: dp)
  case (Suc k)
  have s: "\<not> is_slash (cs_at f k)" using assms(1) NUL_no(1) by (rule cs_at_free)
  define dp' where "dp' = (if cs_at f k = CHR ''.'' then int (length p + k) else dp)"
  have "dot_back (p @ f) (length p + Suc k) dp = dot_back (p @ f) (length p + k) dp'"
    using s by (simp add: cs_at_behind dp'_def)
  also have "\<dots> = dot_back (p @ f) (length p)
      (if \<exists>j<k. cs_at f j = CHR ''.'' then int (length p) + int (LEAST j. cs_at f j = CHR ''.'') else dp')"
    using Suc by simp
  also have "(if \<exists>j<k. cs_at f j = CHR ''.'' then int (length p) + int (LEAST j. cs_at f j = CHR ''.'') else dp') =
      (if \<exists>j<Suc k. cs_at f j = CHR ''.'' then int (length p) + int (LEAST j. cs_at f j = CHR ''.'') else dp)"
  proof (cases "\<exists>j<k. cs_at f j = CHR ''.''")
    case True
    then show ?thesis using less_SucI by auto
  next
    case False
    have "(LEAST j. cs_at f j = CHR ''.'') = k" if "cs_at f k = CHR ''.''"
      using that False by (intro Least_equality) (auto simp: not_less [symmetric])
    then show ?thesis using False by (auto simp: dp'_def less_Suc_eq)
  qed
  finally show ?case .
qed simp

lemma getFilePath_parts:
  assumes "is_slash sl" "list_all (\<lambda>c. \<not> is_slash c) f"
  shows "getFilePath (d @ sl # f) = Some d"
proof -
  let ?p = "d @ sl # f"
  have at: "cs_at ?p (length d) = sl" by (simp add: cs_at_def)
  have "scan_back is_slash ?p (length ?p + 1) = int (length d)"
  proof (rule scan_back_last)
    fix j assume "length d < j" "j < length ?p + 1"
    then have "cs_at ?p j = cs_at f (j - length d - 1)" using cs_at_behind [of "d @ [sl]" f "j - length d - 1"] by simp
    then show "\<not> is_slash (cs_at ?p j)" using cs_at_free [OF assms(2) NUL_no(1)] by simp
  qed (use at assms(1) in simp_all)
  then show ?thesis by (simp add: getFilePath_def)
qed

lemma getFileName_parts:
  assumes "is_slash sl" "list_all (\<lambda>c. \<not> is_slash c) f"
  shows "getFileName (d @ sl # f) strip =
    (if CHR ''.'' \<notin> set f then Some f else if strip then Some (takeWhile (\<lambda>c. c \<noteq> CHR ''.'') f) else None)"
proof -
  let ?p = "d @ sl # f"
  define l where "l = (LEAST j. cs_at f j = CHR ''.'')"
  have ex: "(\<exists>j<length f + 1. cs_at f j = CHR ''.'') \<longleftrightarrow> CHR ''.'' \<in> set f"
    using NUL_no(2) by (auto simp: cs_at_def in_set_conv_nth less_Suc_eq split: if_splits)
  have "dot_back ?p (length ?p + 1) (- 1) = dot_back ?p (Suc (length d)) (if CHR ''.'' \<in> set f then int (Suc (length d)) + int l else - 1)"
    using dot_back_name [OF assms(2), of "length f + 1" "d @ [sl]" "- 1"] ex by (simp add: l_def)
  also have "\<dots> = (int (length d), if CHR ''.'' \<in> set f then int (Suc (length d)) + int l else - 1)"
    using assms(1) by (simp add: cs_at_def)
  finally have db: "dot_back ?p (length ?p + 1) (- 1) = (int (length d), if CHR ''.'' \<in> set f then int (Suc (length d)) + int l else - 1)" .
  have tw: "takeWhile (\<lambda>c. c \<noteq> CHR ''.'') f = take l f" if "CHR ''.'' \<in> set f"
  proof (rule takeWhile_eq_take_P_nth)
    obtain j where "cs_at f j = CHR ''.''" using iffD2 [OF ex \<open>CHR ''.'' \<in> set f\<close>] by blast
    then have "cs_at f l = CHR ''.''" unfolding l_def by (rule LeastI)
    then show "l < length f \<Longrightarrow> \<not> f ! l \<noteq> CHR ''.''" by (simp add: cs_at_def)
    show "f ! i \<noteq> CHR ''.''" if "i < l" "i < length f" for i
      using not_less_Least [of i "\<lambda>j. cs_at f j = CHR ''.''"] that by (simp add: l_def cs_at_def)
  qed
  show ?thesis
  proof (cases "CHR ''.'' \<in> set f")
    case True
    then show ?thesis using db tw by (simp add: getFileName_def Let_def nat_add_distrib)
  next
    case False
    then show ?thesis using db by (simp add: getFileName_def Let_def nat_add_distrib)
  qed
qed

lemma getFileSuffix_parts:
  assumes "CHR ''.'' \<notin> set s"
  shows "getFileSuffix (b @ CHR ''.'' # s) = Some s"
proof -
  let ?p = "b @ CHR ''.'' # s"
  have "scan_back (\<lambda>c. c = CHR ''.'') ?p (length ?p + 1) = int (length b)"
  proof (rule scan_back_last)
    fix j assume j: "length b < j" "j < length ?p + 1"
    then have "cs_at ?p j = cs_at s (j - length b - 1)" using cs_at_behind [of "b @ ''.''" s "j - length b - 1"] by simp
    moreover have "list_all (\<lambda>c. \<not> c = CHR ''.'') s" using assms by (auto simp: list_all_iff)
    ultimately show "\<not> cs_at ?p j = CHR ''.''" using cs_at_free [of "\<lambda>c. c = CHR ''.''" s] NUL_no(2) by simp
  qed (simp_all add: cs_at_def)
  then show ?thesis by (simp add: getFileSuffix_def nat_add_distrib)
qed

section \<open>Properties\<close>

text \<open>
  Every \<open>LONG\<close> but the least one survives the way through \<open>xltoa\<close> and \<open>xatoll\<close>: the digits are written
  lowest first and reversed, and read back in decimal.
\<close>

theorem long_string_roundtrip:
  assumes "- 9223372036854775808 < v" "v < 9223372036854775808"
  shows "\<exists>s. xltoa v = Some s \<and> xatoll s False = v"
  using assms by (rule xltoa_xatoll)

theorem long_string_roundtrip_witness: "\<exists>s. xltoa (- 90210) = Some s \<and> xatoll s False = - 90210"
  by (rule long_string_roundtrip) simp_all

text \<open>
  \<open>xsplit\<close> loses nothing: joining the pieces with the separator gives the string back, no piece contains the
  separator, and their number is one more than its occurrences; and what \<open>xstrstr\<close> reports is an occurrence of the pattern.
\<close>

theorem split_and_search:
  "(\<exists>ps. xsplit str sep = (length ps, ps) \<and> join_with sep ps = str \<and> list_all (\<lambda>p. sep \<notin> set p) ps \<and>
      length ps = 1 + count_list str sep) \<and>
   (case xstrstr src par of At i \<Rightarrow> take (length par) (drop i src) = par | Absent \<Rightarrow> True | ReadBehind \<Rightarrow> True)"
proof -
  have "\<exists>ps. xsplit str sep = (length ps, ps) \<and> join_with sep ps = str \<and> list_all (\<lambda>p. sep \<notin> set p) ps \<and>
      length ps = 1 + count_list str sep"
    using split_loop_join [of sep "[]" str "[]"] by (auto simp: xsplit_def)
  moreover have "take (length par) (drop i src) = par" if "xstrstr src par = At i" for i
    using that unfolding xstrstr_def by (rule strstr_from_sound)
  ultimately show ?thesis by (auto split: found.split)
qed

text \<open>
  A path \<open>d/f\<close> is taken apart as documented: \<open>getFilePath\<close> gives \<open>d\<close>, \<open>getFileName\<close> gives \<open>f\<close> up to its first dot,
  \<open>getFileSuffix\<close> what stands behind the last dot. Without stripping, \<open>getFileName\<close> of a name with a dot uses
  an uninitialized variable.
\<close>

theorem file_name_parts:
  assumes "is_slash sl" "list_all (\<lambda>c. \<not> is_slash c) f" "CHR ''.'' \<notin> set s"
  shows "getFilePath (d @ sl # f) = Some d \<and>
    getFileName (d @ sl # f) True = Some (takeWhile (\<lambda>c. c \<noteq> CHR ''.'') f) \<and>
    getFileName (d @ sl # f) False = (if CHR ''.'' \<in> set f then None else Some f) \<and>
    getFileSuffix (b @ CHR ''.'' # s) = Some s"
proof -
  have "getFileName (d @ sl # f) True = Some (takeWhile (\<lambda>c. c \<noteq> CHR ''.'') f)"
  proof (cases "CHR ''.'' \<in> set f")
    case False
    then have "takeWhile (\<lambda>c. c \<noteq> CHR ''.'') f = f" by (subst takeWhile_eq_all_conv) auto
    then show ?thesis unfolding getFileName_parts [OF assms(1,2)] if_P [OF False] by (simp only:)
  qed (simp add: getFileName_parts [OF assms(1,2)])
  then show ?thesis
    using getFilePath_parts [OF assms(1,2)] getFileName_parts [OF assms(1,2)] getFileSuffix_parts [OF assms(3)] by simp
qed

theorem file_name_parts_witness:
  "getFilePath (''a.b'' @ CHR ''/'' # ''x.tar.gz'') = Some ''a.b'' \<and>
    getFileName (''a.b'' @ CHR ''/'' # ''x.tar.gz'') True = Some (takeWhile (\<lambda>c. c \<noteq> CHR ''.'') ''x.tar.gz'') \<and>
    getFileName (''a.b'' @ CHR ''/'' # ''x.tar.gz'') False = (if CHR ''.'' \<in> set ''x.tar.gz'' then None else Some ''x.tar.gz'') \<and>
    getFileSuffix (''x.tar'' @ CHR ''.'' # ''gz'') = Some ''gz''"
  by (rule file_name_parts) (simp_all add: is_slash_def)

end
