(* ===== verification/Vector.thy ===== *)
theory Vector
  imports StrConv
begin

text \<open>
  The growing vector of \<^verbatim>\<open>src/com/sstl.h\<close>, class \<open>Vector\<close>. The buffer is a list whose length is the capacity
  \<open>m_elem_num\<close>; \<open>m_last_idx\<close> is -1 for the vector without elements. The component promises a list: \<open>vec_list\<close> is
  the elements up to the last index, and the operations are refined against it. A subscript behind the capacity is the
  outcome \<open>None\<close>.
\<close>

record 'a Vector =
  m_vec :: "'a list"
  m_last_idx :: int

definition vec_init :: "'a::zero Vector" where
  "vec_init = \<lparr>m_vec = [], m_last_idx = - 1\<rparr>"

definition vec_init_size :: "nat \<Rightarrow> 'a::zero Vector" where
  "vec_init_size n = \<lparr>m_vec = replicate n 0, m_last_idx = - 1\<rparr>"

definition vec_grow :: "'a::zero Vector \<Rightarrow> nat \<Rightarrow> 'a Vector" where
  "vec_grow v n =
     (if n = 0 then v
      else if length (m_vec v) = 0 then v\<lparr>m_vec := replicate n 0\<rparr>
      else v\<lparr>m_vec := m_vec v @ replicate (n - length (m_vec v)) 0\<rparr>)"

definition vec_get_elem_count :: "'a Vector \<Rightarrow> nat" where
  "vec_get_elem_count v = nat (m_last_idx v + 1)"

definition vec_is_empty :: "'a Vector \<Rightarrow> bool" where
  "vec_is_empty v = (m_last_idx v = - 1)"

text \<open>An index behind the capacity reads as 0, also a negative one, which is converted to unsigned.\<close>

definition vec_get :: "'a::zero Vector \<Rightarrow> int \<Rightarrow> 'a" where
  "vec_get v index = (if index < 0 \<or> nat index \<ge> length (m_vec v) then 0 else m_vec v ! nat index)"

definition vec_set :: "'a::zero Vector \<Rightarrow> nat \<Rightarrow> 'a \<Rightarrow> 'a Vector" where
  "vec_set v index elem =
     (let v = (if index \<ge> length (m_vec v) then vec_grow v (unat (getNearestPowerOf2 (word_of_nat index :: 32 word)) + 2) else v)
      in v\<lparr>m_last_idx := max (int index) (m_last_idx v), m_vec := (m_vec v)[index := elem]\<rparr>)"

text \<open>The lvalue subscript moves the last index even when it is only read.\<close>

definition vec_subscript :: "'a Vector \<Rightarrow> nat \<Rightarrow> ('a \<times> 'a Vector) option" where
  "vec_subscript v index =
     (if index < length (m_vec v) then Some (m_vec v ! index, v\<lparr>m_last_idx := max (int index) (m_last_idx v)\<rparr>) else None)"

definition vec_append :: "'a::zero Vector \<Rightarrow> 'a \<Rightarrow> 'a Vector" where
  "vec_append v t = vec_set v (vec_get_elem_count v) t"

text \<open>
  \<open>memcpy\<close> overwrites the elements from the old count on; where it would write behind the buffer, because the unsigned
  capacity asked for wrapped around, the outcome is \<open>None\<close>. \<open>GrowSize\<close> is 8, and \<open>m_last_idx\<close> is an \<open>INT\<close>.
\<close>

definition vec_copy_in :: "'a Vector \<Rightarrow> nat \<Rightarrow> 'a list \<Rightarrow> 'a Vector" where
  "vec_copy_in v k xs = v\<lparr>m_vec := take k (m_vec v) @ xs @ drop (k + length xs) (m_vec v)\<rparr>"

definition u32_nat :: "nat \<Rightarrow> nat" where "u32_nat n = n mod 2 ^ 32"
definition vec_idx :: "int \<Rightarrow> int" where "vec_idx i = sint (word_of_int i :: 32 word)"

definition vec_append_array :: "'a::zero Vector \<Rightarrow> 'a list \<Rightarrow> 'a Vector option" where
  "vec_append_array v arr =
     (if length arr = 0 then Some v
      else let org_elem_num = vec_get_elem_count v;
               exp_cap = u32_nat (org_elem_num + length arr + 8);
               v = (if exp_cap > length (m_vec v) then vec_grow v exp_cap else v)
           in if org_elem_num + length arr \<le> length (m_vec v)
              then Some ((vec_copy_in v org_elem_num arr)\<lparr>m_last_idx := vec_idx (m_last_idx v + int (length arr))\<rparr>)
              else None)"

definition vec_append_vec :: "'a::zero Vector \<Rightarrow> 'a Vector \<Rightarrow> 'a Vector option" where
  "vec_append_vec v src =
     (if vec_get_elem_count src = 0 then Some v
      else let org_elem_num = vec_get_elem_count v;
               exp_cap = u32_nat (org_elem_num + vec_get_elem_count src + 8);
               v = (if exp_cap > length (m_vec v) then vec_grow v exp_cap else v)
           in if org_elem_num + vec_get_elem_count src \<le> length (m_vec v)
              then Some ((vec_copy_in v org_elem_num (take (vec_get_elem_count src) (m_vec src)))
                     \<lparr>m_last_idx := vec_idx (m_last_idx v + int (vec_get_elem_count src))\<rparr>)
              else None)"

text \<open>\<open>copy\<close> keeps a buffer that is larger than the source's, with its old content behind the copied part.\<close>

definition vec_copy :: "'a::zero Vector \<Rightarrow> 'a Vector \<Rightarrow> 'a Vector" where
  "vec_copy v src =
     (let n = length (m_vec src);
          v = (if length (m_vec v) < n then vec_init_size n else v);
          v = (if n > 0 then vec_copy_in v 0 (m_vec src) else v)
      in v\<lparr>m_last_idx := m_last_idx src\<rparr>)"

definition vec_clean :: "'a::zero Vector \<Rightarrow> 'a Vector" where
  "vec_clean v =
     (if m_last_idx v = - 1 then v
      else (vec_copy_in v 0 (replicate (vec_get_elem_count v) 0))\<lparr>m_last_idx := - 1\<rparr>)"

definition vec_cleanFrom :: "'a::zero Vector \<Rightarrow> nat \<Rightarrow> 'a Vector" where
  "vec_cleanFrom v idx =
     (if m_last_idx v = - 1 then v
      else (vec_copy_in v idx (replicate (vec_get_elem_count v - idx) 0))\<lparr>m_last_idx := (if idx = 0 then - 1 else int idx - 1)\<rparr>)"

definition vec_destroy :: "'a::zero Vector \<Rightarrow> 'a Vector" where
  "vec_destroy v = v\<lparr>m_vec := [], m_last_idx := - 1\<rparr>"

section \<open>The list a vector holds\<close>

definition vec_inv :: "'a Vector \<Rightarrow> bool" where
  "vec_inv v \<longleftrightarrow> - 1 \<le> m_last_idx v \<and> m_last_idx v < int (length (m_vec v))"

definition vec_list :: "'a Vector \<Rightarrow> 'a list" where
  "vec_list v = take (vec_get_elem_count v) (m_vec v)"

text \<open>Nothing but zeros behind the last element.\<close>

definition vec_tail0 :: "'a::zero Vector \<Rightarrow> bool" where
  "vec_tail0 v \<longleftrightarrow> (\<forall>i. vec_get_elem_count v \<le> i \<longrightarrow> i < length (m_vec v) \<longrightarrow> m_vec v ! i = 0)"

named_theorems vec_defs
lemmas [vec_defs] = vec_inv_def vec_list_def vec_tail0_def vec_get_elem_count_def

lemma vec_len: "vec_inv v \<Longrightarrow> length (vec_list v) = vec_get_elem_count v" "vec_inv v \<Longrightarrow> vec_get_elem_count v \<le> length (m_vec v)"
  by (auto simp: vec_defs)

lemma vec_list_nth: "vec_inv v \<Longrightarrow> i < vec_get_elem_count v \<Longrightarrow> vec_list v ! i = m_vec v ! i"
  by (simp add: vec_list_def)

lemma vec_get_list:
  "vec_inv v \<Longrightarrow> vec_tail0 v \<Longrightarrow> vec_get v (int i) = (if i < length (vec_list v) then vec_list v ! i else 0)"
  using vec_len(2) [of v] by (auto simp: vec_get_def vec_len(1) vec_list_nth vec_tail0_def)

text \<open>Growing to a larger capacity appends zeros to the buffer.\<close>

lemma vec_grow_append: "length (m_vec v) < n \<Longrightarrow> vec_grow v n = v\<lparr>m_vec := m_vec v @ replicate (n - length (m_vec v)) 0\<rparr>"
  by (auto simp: vec_grow_def)

lemma nearest_gt: "index < 2147483648 \<Longrightarrow> index < unat (getNearestPowerOf2 (word_of_nat index :: 32 word)) + 2"
proof (cases "index = 0")
  case False
  assume i: "index < 2147483648"
  define w where "w = (word_of_nat index :: 32 word)"
  define s where "s = sigbits (w - 1)"
  have w: "unat w = index" unfolding w_def using i by (simp only: unat_of_nat) simp
  then have "1 \<le> w" using False by (simp add: word_le_nat_alt)
  then have w1: "unat (w - 1) = index - 1" using w by (simp add: unat_sub)
  have a: "index - 1 < 2 ^ s" using sigbits_le_iff [of "w - 1" s] w1 by (simp add: s_def)
  have "s \<le> 31" using sigbits_le_iff [of "w - 1" 31] w1 i by (simp add: s_def)
  then have "(2 :: nat) ^ s < 2 ^ 32" by (intro power_strict_increasing) simp_all
  then have "unat (word_of_nat (2 ^ s) :: 32 word) = 2 ^ s" by (simp only: unat_of_nat) simp
  then have "unat (2 ^ s :: 32 word) = 2 ^ s" by simp
  then show ?thesis unfolding w_def [symmetric] getNearestPowerOf2_correct s_def [symmetric] using a by simp
qed simp

lemma vec_set_buf:
  assumes "index < 2147483648"
  shows "\<exists>zs. vec_set v index elem =
    v\<lparr>m_last_idx := max (int index) (m_last_idx v), m_vec := (m_vec v @ zs)[index := elem]\<rparr> \<and>
    index < length (m_vec v @ zs) \<and> (\<forall>z\<in>set zs. z = 0)"
proof (cases "index < length (m_vec v)")
  case True
  then show ?thesis by (intro exI [of _ "[]"]) (simp add: vec_set_def)
next
  case False
  then show ?thesis using nearest_gt [OF assms] vec_grow_append [of v "unat (getNearestPowerOf2 (word_of_nat index :: 32 word)) + 2"]
    by (intro exI [of _ "replicate (unat (getNearestPowerOf2 (word_of_nat index :: 32 word)) + 2 - length (m_vec v)) 0"])
      (simp add: vec_set_def)
qed

lemma vec_set_list:
  assumes "vec_inv v" "vec_tail0 v" "index < 2147483648"
  shows "vec_inv (vec_set v index elem) \<and> vec_tail0 (vec_set v index elem) \<and>
    vec_list (vec_set v index elem) =
      (if index < length (vec_list v) then (vec_list v)[index := elem]
       else vec_list v @ replicate (index - length (vec_list v)) 0 @ [elem])"
proof -
  obtain zs where s: "vec_set v index elem =
    v\<lparr>m_last_idx := max (int index) (m_last_idx v), m_vec := (m_vec v @ zs)[index := elem]\<rparr>"
    "index < length (m_vec v @ zs)" "\<forall>z\<in>set zs. z = 0"
    using vec_set_buf [OF assms(3), of v elem] by blast
  let ?w = "vec_set v index elem"
  have z: "(m_vec v @ zs) ! i = 0" if "vec_get_elem_count v \<le> i" "i < length (m_vec v @ zs)" for i
    using that s(3) assms(2) by (auto simp: nth_append vec_tail0_def)
  have inv: "vec_inv ?w" using s assms(1) by (auto simp: vec_inv_def)
  have c: "vec_get_elem_count ?w = max (index + 1) (vec_get_elem_count v)" using s assms(1) by (auto simp: vec_defs max_def)
  have t: "vec_tail0 ?w" using s(1) c z by (auto simp: vec_tail0_def nth_list_update)
  have "vec_list ?w = (if index < length (vec_list v) then (vec_list v)[index := elem]
       else vec_list v @ replicate (index - length (vec_list v)) 0 @ [elem])" (is "_ = ?r")
  proof (rule nth_equalityI)
    show l: "length (vec_list ?w) = length ?r"
      using vec_len [OF inv] vec_len [OF assms(1)] c by auto
    fix i assume "i < length (vec_list ?w)"
    then have i: "i < vec_get_elem_count ?w" "i < length (m_vec v @ zs)"
      using vec_len [OF inv] s(1) by auto
    have "vec_list ?w ! i = (m_vec v @ zs)[index := elem] ! i" using vec_list_nth [OF inv i(1)] s(1) by simp
    also have "\<dots> = (if i = index then elem else if i < vec_get_elem_count v then vec_list v ! i else 0)"
      using i(2) z vec_list_nth [OF assms(1)] vec_len(2) [OF assms(1)] by (auto simp: nth_list_update nth_append)
    also have "\<dots> = ?r ! i"
      using i(1) c vec_len(1) [OF assms(1)] by (auto simp: nth_list_update nth_append)
    finally show "vec_list ?w ! i = ?r ! i" .
  qed
  then show ?thesis using inv t by simp
qed

text \<open>Writing a list over the buffer from the last element on.\<close>

lemma vec_extend:
  assumes "vec_inv v" "vec_tail0 v" "vec_get_elem_count v + length xs \<le> length (m_vec v)"
  defines "w \<equiv> (vec_copy_in v (vec_get_elem_count v) xs)\<lparr>m_last_idx := m_last_idx v + int (length xs)\<rparr>"
  shows "vec_inv w \<and> vec_tail0 w \<and> vec_list w = vec_list v @ xs"
proof -
  have c: "vec_get_elem_count w = vec_get_elem_count v + length xs" using assms(1) by (auto simp: w_def vec_defs)
  have l: "length (m_vec w) = length (m_vec v)" using assms(3) by (simp add: w_def vec_copy_in_def)
  have "vec_inv w" using assms(1,3) l by (auto simp: w_def vec_defs)
  moreover have "vec_tail0 w" unfolding vec_tail0_def c l
  proof (intro allI impI)
    fix i assume i: "vec_get_elem_count v + length xs \<le> i" "i < length (m_vec v)"
    then obtain j where j: "i = vec_get_elem_count v + length xs + j" using le_Suc_ex by blast
    then have "m_vec w ! i = m_vec v ! i" using assms(3) by (simp add: w_def vec_copy_in_def nth_append)
    then show "m_vec w ! i = 0" using assms(2) i by (simp add: vec_tail0_def)
  qed
  moreover have "vec_list w = vec_list v @ xs"
    using assms(3) by (simp add: vec_list_def c) (simp add: w_def vec_copy_in_def)
  ultimately show ?thesis by simp
qed

lemma vec_grow_list:
  assumes "vec_inv v" "vec_tail0 v" "length (m_vec v) < n"
  shows "vec_inv (vec_grow v n)" "vec_tail0 (vec_grow v n)" "vec_list (vec_grow v n) = vec_list v"
    "vec_get_elem_count (vec_grow v n) = vec_get_elem_count v" "length (m_vec (vec_grow v n)) = n"
    "m_last_idx (vec_grow v n) = m_last_idx v"
  using assms vec_len(2) [OF assms(1)] by (auto simp: vec_grow_append vec_defs nth_append)

lemma vec_idx_small: "- 1 \<le> i \<Longrightarrow> i < 2147483648 \<Longrightarrow> vec_idx i = i"
  unfolding vec_idx_def by (simp add: signed_of_int signed_take_bit_int_eq_self)

lemma vec_append_array_list:
  assumes "vec_inv v" "vec_tail0 v" "length (vec_list v) + length xs < 2147483648"
  shows "\<exists>w. vec_append_array v xs = Some w \<and> vec_inv w \<and> vec_tail0 w \<and> vec_list w = vec_list v @ xs"
proof (cases "xs = []")
  case True
  then show ?thesis using assms by (simp add: vec_append_array_def)
next
  case False
  let ?cap = "u32_nat (vec_get_elem_count v + length xs + 8)"
  have cap: "?cap = vec_get_elem_count v + length xs + 8" using assms(3) vec_len(1) [OF assms(1)] by (simp add: u32_nat_def)
  define g where "g = (if ?cap > length (m_vec v) then vec_grow v ?cap else v)"
  have g: "vec_inv g" "vec_tail0 g" "vec_list g = vec_list v" "vec_get_elem_count g = vec_get_elem_count v"
    "vec_get_elem_count v + length xs \<le> length (m_vec g)" "m_last_idx g = m_last_idx v"
    using assms vec_grow_list [OF assms(1,2), of ?cap] cap by (auto simp: g_def)
  have "vec_idx (m_last_idx v + int (length xs)) = m_last_idx v + int (length xs)"
    by (rule vec_idx_small) (use assms(1,3) vec_len(1) [OF assms(1)] in \<open>auto simp: vec_defs\<close>)
  then have "vec_append_array v xs = Some ((vec_copy_in g (vec_get_elem_count g) xs)\<lparr>m_last_idx := m_last_idx g + int (length xs)\<rparr>)"
    using False g(4-6) by (simp add: vec_append_array_def Let_def g_def [symmetric])
  then show ?thesis using vec_extend [OF g(1,2)] g(3-5) by simp
qed

lemma vec_append_vec_array:
  "vec_inv src \<Longrightarrow> vec_append_vec v src = vec_append_array v (vec_list src)"
  using vec_len [of src] by (simp add: vec_append_vec_def vec_append_array_def vec_list_def Let_def min_def)

lemma vec_append_list:
  assumes "vec_inv v" "vec_tail0 v" "length (vec_list v) < 2147483648"
  shows "vec_inv (vec_append v t) \<and> vec_tail0 (vec_append v t) \<and> vec_list (vec_append v t) = vec_list v @ [t]"
  using vec_set_list [OF assms(1,2), of "vec_get_elem_count v" t] assms vec_len [OF assms(1)] by (simp add: vec_append_def)

lemma vec_copy_list:
  assumes "vec_inv src"
  shows "vec_inv (vec_copy v src) \<and> vec_list (vec_copy v src) = vec_list src \<and>
    (vec_tail0 src \<longrightarrow> length (m_vec v) \<le> length (m_vec src) \<longrightarrow> vec_tail0 (vec_copy v src))"
proof -
  have l: "length (m_vec src) \<le> length (m_vec (vec_copy v src))"
    by (auto simp: vec_copy_def Let_def vec_copy_in_def vec_init_size_def)
  have n: "take (length (m_vec src)) (m_vec (vec_copy v src)) = m_vec src"
    by (auto simp: vec_copy_def Let_def vec_copy_in_def vec_init_size_def)
  have i: "m_last_idx (vec_copy v src) = m_last_idx src" by (simp add: vec_copy_def Let_def)
  then have c: "vec_get_elem_count (vec_copy v src) = vec_get_elem_count src" by (simp add: vec_get_elem_count_def)
  have "vec_list (vec_copy v src) = take (vec_get_elem_count src) (take (length (m_vec src)) (m_vec (vec_copy v src)))"
    using vec_len(2) [OF assms] by (simp add: vec_list_def c min_def)
  moreover have "m_vec (vec_copy v src) = m_vec src" if "length (m_vec v) \<le> length (m_vec src)"
    using that by (auto simp: vec_copy_def Let_def vec_copy_in_def vec_init_size_def)
  ultimately show ?thesis using assms l i n c by (auto simp: vec_inv_def vec_list_def vec_tail0_def)
qed

lemma vec_clean_list:
  assumes "vec_inv v" "vec_tail0 v"
  shows "vec_inv (vec_clean v) \<and> vec_tail0 (vec_clean v) \<and> vec_list (vec_clean v) = []"
proof (cases "m_last_idx v = - 1")
  case True
  then show ?thesis using assms by (simp add: vec_clean_def vec_list_def vec_get_elem_count_def)
next
  case False
  have "m_vec (vec_clean v) ! i = 0" if "i < length (m_vec v)" for i
    using that False assms(2) vec_len(2) [OF assms(1)]
    by (cases "i < vec_get_elem_count v") (auto simp: vec_clean_def vec_copy_in_def nth_append vec_tail0_def)
  moreover have "length (m_vec (vec_clean v)) = length (m_vec v)"
    using False vec_len(2) [OF assms(1)] by (simp add: vec_clean_def vec_copy_in_def)
  ultimately show ?thesis using False by (simp add: vec_defs) (simp add: vec_clean_def)
qed

lemma vec_cleanFrom_list:
  assumes "vec_inv v" "vec_tail0 v" "idx < length (vec_list v)"
  shows "vec_inv (vec_cleanFrom v idx) \<and> vec_tail0 (vec_cleanFrom v idx) \<and> vec_list (vec_cleanFrom v idx) = take idx (vec_list v)"
proof -
  have c: "idx < vec_get_elem_count v" "vec_get_elem_count v \<le> length (m_vec v)" using assms vec_len [OF assms(1)] by simp_all
  then have nz: "m_last_idx v \<noteq> - 1" by (auto simp: vec_get_elem_count_def)
  have b: "m_vec (vec_cleanFrom v idx) = take idx (m_vec v) @ replicate (vec_get_elem_count v - idx) 0 @ drop (vec_get_elem_count v) (m_vec v)"
    using nz c by (simp add: vec_cleanFrom_def vec_copy_in_def)
  have k: "vec_get_elem_count (vec_cleanFrom v idx) = idx" using nz by (auto simp: vec_cleanFrom_def vec_get_elem_count_def)
  have "vec_tail0 (vec_cleanFrom v idx)"
    using assms(2) c by (auto simp: vec_tail0_def b k nth_append not_less)
  moreover have "vec_inv (vec_cleanFrom v idx)" using c nz by (auto simp: vec_inv_def b) (simp_all add: vec_cleanFrom_def)
  moreover have "vec_list (vec_cleanFrom v idx) = take idx (vec_list v)"
    using c by (simp add: vec_list_def k) (simp add: b)
  ultimately show ?thesis by simp
qed

lemma vec_cleanFrom_empty:
  "vec_inv v \<Longrightarrow> vec_tail0 v \<Longrightarrow> vec_list v = [] \<Longrightarrow>
    vec_inv (vec_cleanFrom v k) \<and> vec_tail0 (vec_cleanFrom v k) \<and> vec_list (vec_cleanFrom v k) = []"
  using vec_len(1) [of v] by (auto simp: vec_cleanFrom_def vec_inv_def vec_get_elem_count_def)

text \<open>\<open>copy\<close> into a larger buffer leaves old elements behind the copied ones, and a later \<open>set\<close> past the end exposes them.\<close>

lemma vec_copy_exposes:
  "vec_list (vec_set (vec_copy \<lparr>m_vec = [1, 2, 3, 4], m_last_idx = 3\<rparr> \<lparr>m_vec = [9 :: int], m_last_idx = 0\<rparr>) 2 5) = [9, 2, 5]"
  by (simp add: vec_copy_def vec_copy_in_def vec_set_def vec_list_def vec_get_elem_count_def Let_def)

section \<open>Properties\<close>

text \<open>
  C31: The operations of the vector keep its invariant and refine those of a list, while the number of elements stays below
  \<open>2 ^ 31\<close>, where \<open>VecIdx\<close> ends: \<open>set\<close> updates an element or extends the list, with zeros in between, whatever the
  capacity; \<open>append\<close> in its three forms appends, and the two that copy an array stay inside the buffer; \<open>clean\<close> truncates,
  and so does \<open>cleanFrom\<close> at the index of an element, doing nothing on an empty vector; \<open>get\<close> reads an element or 0 behind
  the end. The buffer behind the last element stays zero, except in \<open>copy\<close>, which only gives the list of the source.
\<close>

theorem vector_refines_list:
  assumes "vec_inv v" "vec_tail0 v" "vec_inv src" "i < 2147483647" "length (vec_list v) < 2147483647"
    "length (vec_list v) + length xs < 2147483648" "length (vec_list v) + length (vec_list src) < 2147483648"
  shows "(vec_inv (vec_set v i e) \<and> vec_tail0 (vec_set v i e) \<and> vec_list (vec_set v i e) =
      (if i < length (vec_list v) then (vec_list v)[i := e] else vec_list v @ replicate (i - length (vec_list v)) 0 @ [e])) \<and>
    (vec_inv (vec_append v e) \<and> vec_tail0 (vec_append v e) \<and> vec_list (vec_append v e) = vec_list v @ [e]) \<and>
    (\<exists>w. vec_append_array v xs = Some w \<and> vec_inv w \<and> vec_tail0 w \<and> vec_list w = vec_list v @ xs) \<and>
    (\<exists>w. vec_append_vec v src = Some w \<and> vec_inv w \<and> vec_tail0 w \<and> vec_list w = vec_list v @ vec_list src) \<and>
    (vec_inv (vec_copy v src) \<and> vec_list (vec_copy v src) = vec_list src) \<and>
    (vec_inv (vec_clean v) \<and> vec_tail0 (vec_clean v) \<and> vec_list (vec_clean v) = []) \<and>
    (k < length (vec_list v) \<or> vec_list v = [] \<longrightarrow>
       vec_inv (vec_cleanFrom v k) \<and> vec_tail0 (vec_cleanFrom v k) \<and> vec_list (vec_cleanFrom v k) = take k (vec_list v)) \<and>
    vec_get v (int i) = (if i < length (vec_list v) then vec_list v ! i else 0)"
proof -
  have b: "i < 2147483648" "length (vec_list v) < 2147483648" using assms(4,5) by simp_all
  show ?thesis
    using vec_set_list [OF assms(1,2) b(1), of e] vec_append_list [OF assms(1,2) b(2), of e] vec_append_array_list [OF assms(1,2,6)]
      vec_append_array_list [OF assms(1,2,7)] vec_append_vec_array [OF assms(3), of v] vec_copy_list [OF assms(3), of v]
      vec_clean_list [OF assms(1,2)] vec_cleanFrom_list [OF assms(1,2), of k] vec_cleanFrom_empty [OF assms(1,2), of k]
      vec_get_list [OF assms(1,2), of i]
    by simp
qed

theorem vector_refines_list_witness:
  "vec_list (vec_set \<lparr>m_vec = [7, 8, 0 :: int], m_last_idx = 1\<rparr> 4 6) = [7, 8, 0, 0, 6] \<and>
    (\<exists>w. vec_append_vec \<lparr>m_vec = [7, 8, 0 :: int], m_last_idx = 1\<rparr> \<lparr>m_vec = [5], m_last_idx = 0\<rparr> = Some w \<and> vec_list w = [7, 8, 5])"
proof -
  let ?v = "\<lparr>m_vec = [7, 8, 0 :: int], m_last_idx = 1\<rparr>" and ?s = "\<lparr>m_vec = [5 :: int], m_last_idx = 0\<rparr>"
  have l: "vec_list ?v = [7, 8]" "vec_list ?s = [5]" by (simp_all add: vec_list_def vec_get_elem_count_def)
  have i: "vec_inv ?v" "vec_inv ?s" by (simp_all add: vec_inv_def)
  have t: "vec_tail0 ?v" unfolding vec_tail0_def
  proof (intro allI impI)
    fix i assume "vec_get_elem_count ?v \<le> i" "i < length (m_vec ?v)"
    then have "i = 2" by (simp add: vec_get_elem_count_def)
    then show "m_vec ?v ! i = 0" by simp
  qed
  show ?thesis using vector_refines_list [OF i(1) t i(2), of 4 "[]" 6 0] unfolding l by (simp add: numeral_2_eq_2) blast
qed

end
