(* ===== verification/Sort.thy ===== *)
theory Sort
  imports Vector "HOL-Library.Multiset"
begin

text \<open>
  The sorting classes of \<^verbatim>\<open>src/com/sort.h\<close> on the list a vector holds. All subscripts of the code lie between
  the first and the last element, where \<open>get\<close> and \<open>set\<close> of the vector are list access and update. Indices are of type
  \<open>INT\<close>; the sum of two of them, for the middle of a range, can overflow, which is the outcome \<open>None\<close>.
\<close>

section \<open>The contract\<close>

text \<open>What every sorting class promises: to return, on the inputs it accepts, their elements in ascending order.\<close>

locale sorter =
  fixes accepts :: "'a::linorder list \<Rightarrow> bool" and srt :: "'a list \<Rightarrow> 'a list option"
  assumes sorts: "accepts xs \<Longrightarrow> \<exists>ys. srt xs = Some ys \<and> sorted ys \<and> mset ys = mset xs"
begin

lemma srt_sort: "accepts xs \<Longrightarrow> srt xs = Some (sort xs)"
  using sorts [of xs] by (auto simp: properties_for_sort)

lemma srt_again: "accepts xs \<Longrightarrow> accepts (sort xs) \<Longrightarrow> Option.bind (srt xs) srt = srt xs"
  by (simp add: srt_sort sorted_sort_id)

end

section \<open>Merge sort\<close>

text \<open>The merging loop; \<open>output\<close> holds the elements set so far.\<close>

function merge_loop :: "'a::linorder list \<Rightarrow> 'a list \<Rightarrow> nat \<Rightarrow> nat \<Rightarrow> 'a list \<Rightarrow> 'a list" where
  "merge_loop left_output right_output lidx ridx output =
     (if \<not> (lidx < length left_output \<and> ridx < length right_output) then output
      else if left_output ! lidx \<le> right_output ! ridx
      then let output = output @ [left_output ! lidx]; lidx = lidx + 1
           in if lidx < length left_output then merge_loop left_output right_output lidx ridx output
              else output @ drop ridx right_output
      else let output = output @ [right_output ! ridx]; ridx = ridx + 1
           in if ridx < length right_output then merge_loop left_output right_output lidx ridx output
              else output @ drop lidx left_output)"
  by pat_completeness auto
termination by (relation "measure (\<lambda>(l, r, i, j, out). length l - i + (length r - j))") auto

declare merge_loop.simps [simp del]

definition INT_MAX :: int where "INT_MAX = 2147483647"

function merge_sort_range :: "'a::linorder list \<Rightarrow> int \<Rightarrow> int \<Rightarrow> 'a list option" where
  "merge_sort_range data start_idx end_idx =
     (if start_idx > end_idx then Some []
      else if start_idx = end_idx then Some [data ! nat start_idx]
      else if start_idx + 1 = end_idx
      then if data ! nat start_idx \<le> data ! nat end_idx then Some [data ! nat start_idx, data ! nat end_idx]
           else Some [data ! nat end_idx, data ! nat start_idx]
      else if start_idx + end_idx + 1 > INT_MAX then None
      else let mid_idx = (start_idx + end_idx + 1) div 2
           in case merge_sort_range data start_idx (mid_idx - 1) of
                None \<Rightarrow> None
              | Some left_output \<Rightarrow>
                  (case merge_sort_range data mid_idx end_idx of
                     None \<Rightarrow> None
                   | Some right_output \<Rightarrow> Some (merge_loop left_output right_output 0 0 [])))"
  by pat_completeness auto
termination by (relation "measure (\<lambda>(d, s, e). nat (e - s + 1))") auto

declare merge_sort_range.simps [simp del]

definition merge_sort :: "'a::linorder list \<Rightarrow> 'a list option" where
  "merge_sort data = merge_sort_range data 0 (int (length data) - 1)"

section \<open>Bubble sort\<close>

text \<open>\<open>for (j = i + 1; j <= n; j++)\<close> inside \<open>for (i = 0; i <= n; i++)\<close>.\<close>

function bubble_inner :: "'a::linorder list \<Rightarrow> nat \<Rightarrow> nat \<Rightarrow> 'a list" where
  "bubble_inner data i j =
     (if j < length data
      then bubble_inner (if data ! i > data ! j then data[i := data ! j, j := data ! i] else data) i (j + 1)
      else data)"
  by pat_completeness auto
termination by (relation "measure (\<lambda>(d, i, j). length d - j)") auto

declare bubble_inner.simps [simp del]

lemma bubble_inner_length [simp]: "length (bubble_inner data i j) = length data"
  by (induction data i j rule: bubble_inner.induct) (subst bubble_inner.simps, simp)

function bubble_outer :: "'a::linorder list \<Rightarrow> nat \<Rightarrow> 'a list" where
  "bubble_outer data i = (if i < length data then bubble_outer (bubble_inner data i (i + 1)) (i + 1) else data)"
  by pat_completeness auto
termination by (relation "measure (\<lambda>(d, i). length d - i)") auto

declare bubble_outer.simps [simp del]

definition bubble_sort :: "'a::linorder list \<Rightarrow> 'a list" where
  "bubble_sort data = bubble_outer data 0"

section \<open>Shell sort\<close>

text \<open>\<open>_insert_sort\<close> inserts the elements of the range into a list, each before the first larger one.\<close>

fun insert_before :: "'a::linorder \<Rightarrow> 'a list \<Rightarrow> 'a list" where
  "insert_before d [] = [d]"
| "insert_before d (v # vs) = (if d < v then d # v # vs else v # insert_before d vs)"

definition insert_sort :: "'a::linorder list \<Rightarrow> nat \<Rightarrow> nat \<Rightarrow> 'a list" where
  "insert_sort data start_idx end_idx =
     (if start_idx > end_idx then data
      else let range = take (end_idx + 1 - start_idx) (drop start_idx data)
           in take start_idx data @ foldl (\<lambda>list d. insert_before d list) [] range @ drop (end_idx + 1) data)"

lemma foldl_insert_before:
  "sorted acc \<Longrightarrow> sorted (foldl (\<lambda>list d. insert_before d list) acc xs) \<and>
   mset (foldl (\<lambda>list d. insert_before d list) acc xs) = mset acc + mset xs"
proof (induction xs arbitrary: acc)
  case (Cons x xs)
  have m: "mset (insert_before x acc) = add_mset x (mset acc)" by (induction acc) auto
  then have s: "set (insert_before x acc) = insert x (set acc)" by (metis set_mset_add_mset_insert set_mset_mset)
  have "sorted (insert_before x acc)" using Cons.prems
  proof (induction acc)
    case (Cons v vs)
    have "set (insert_before x vs) = insert x (set vs)" by (induction vs) auto
    then show ?case using Cons by auto
  qed simp
  then show ?case using Cons.IH [of "insert_before x acc"] m by simp
qed simp

lemma insert_sort_mset: "mset (insert_sort data s e) = mset data"
proof (cases "s > e")
  case False
  have "mset data = mset (take s data) + mset (take (e + 1 - s) (drop s data)) + mset (drop (e + 1) data)"
  proof -
    have "drop (e + 1 - s) (drop s data) = drop (e + 1) data" using False by simp
    then have "data = take s data @ take (e + 1 - s) (drop s data) @ drop (e + 1) data"
      by (metis append_take_drop_id)
    then show ?thesis by (metis mset_append add.assoc)
  qed
  then show ?thesis using False foldl_insert_before [of "[]" "take (e + 1 - s) (drop s data)"]
    by (simp add: insert_sort_def Let_def)
qed (simp add: insert_sort_def)

lemma insert_sort_length [simp]: "length (insert_sort data s e) = length data"
  by (metis insert_sort_mset size_mset)

lemma insert_sort_all: "length data \<le> e + 1 \<Longrightarrow> sorted (insert_sort data 0 e)"
  using foldl_insert_before [of "[]" data] by (simp add: insert_sort_def Let_def)

definition shell_pass :: "'a::linorder list \<Rightarrow> nat \<Rightarrow> nat \<Rightarrow> 'a list" where
  "shell_pass data gap groups =
     foldl (\<lambda>data i. insert_sort data (i * gap) (min ((i + 1) * gap - 1) (length data - 1))) data [0..<groups]"

lemma shell_pass_mset: "mset (shell_pass data gap groups) = mset data"
proof -
  have "mset (foldl (\<lambda>data i. insert_sort data (f i) (g data i)) d is) = mset d" for f g d and "is" :: "nat list"
    by (induction "is" arbitrary: d) (simp_all add: insert_sort_mset)
  then show ?thesis by (simp add: shell_pass_def)
qed

lemma shell_pass_length [simp]: "length (shell_pass data gap groups) = length data"
  by (metis shell_pass_mset size_mset)

function shell_loop :: "'a::linorder list \<Rightarrow> nat \<Rightarrow> nat \<Rightarrow> nat \<Rightarrow> 'a list \<times> nat" where
  "shell_loop data gap grp r =
     (if grp \<ge> 1
      then let r = (if r = 0 then 0 else 1);
               data = shell_pass data gap (grp + r)
           in if grp = 1 then (data, r)
              else shell_loop data (gap * 2) (length data div (gap * 2)) (length data mod (gap * 2))
      else (data, r))"
  by pat_completeness auto
termination
proof (relation "measure (\<lambda>(data, gap, grp, r). if grp = 0 then 0 else Suc (Suc (length data) - gap))", goal_cases)
  case (2 data gap grp r x y)
  then have l: "length y = length data" by simp
  show ?case
  proof (cases "length data div (gap * 2) = 0")
    case False
    then have "gap * 2 \<le> length data" "0 < gap" by (auto simp: div_eq_0_iff)
    then have "length data - gap * 2 < length data - gap" "Suc (length data) - gap = Suc (length data - gap)"
      "Suc (length data) - gap * 2 = Suc (length data - gap * 2)" by linarith+
    then show ?thesis using 2 l by simp
  qed (use 2 l in simp)
qed simp

declare shell_loop.simps [simp del]

definition shell_sort :: "'a::linorder list \<Rightarrow> 'a list" where
  "shell_sort data =
     (let n = length data
      in if n \<le> 1 then data
         else let (data, r) = shell_loop data 2 (n div 2) 0
              in if r \<noteq> 0 then insert_sort data 0 (n - 1) else data)"

section \<open>Correctness of merge, bubble and shell sort\<close>

lemma merge_loop_correct:
  assumes "sorted l" "sorted r" "i < length l" "j < length r" "sorted out" "\<forall>x\<in>set out. x \<le> l ! i \<and> x \<le> r ! j"
  shows "sorted (merge_loop l r i j out) \<and> mset (merge_loop l r i j out) = mset out + mset (drop i l) + mset (drop j r)"
  using assms
proof (induction l r i j out rule: merge_loop.induct)
  case (1 l r i j out)
  have di: "drop i l = l ! i # drop (i + 1) l" and dj: "drop j r = r ! j # drop (j + 1) r"
    using 1(5,6) by (simp_all add: Cons_nth_drop_Suc)
  have sl: "sorted (drop i l)" and sr: "sorted (drop j r)" using 1(3,4) by (simp_all add: sorted_wrt_drop)
  have st: "merge_loop l r i j out = (if l ! i \<le> r ! j
      then if i + 1 < length l then merge_loop l r (i + 1) j (out @ [l ! i]) else (out @ [l ! i]) @ drop j r
      else if j + 1 < length r then merge_loop l r i (j + 1) (out @ [r ! j]) else (out @ [r ! j]) @ drop i l)"
    using 1(5,6) by (subst merge_loop.simps) (simp add: Let_def)
  show ?case
  proof (cases "l ! i \<le> r ! j")
    case True
    show ?thesis
    proof (cases "i + 1 < length l")
      case i1: True
      have "l ! i \<le> l ! (i + 1)" using 1(3) i1 by (simp add: sorted_nth_mono)
      then have o: "\<forall>x\<in>set (out @ [l ! i]). x \<le> l ! (i + 1) \<and> x \<le> r ! j" using 1(8) True by (auto intro: order_trans)
      have "sorted (out @ [l ! i])" using 1(7,8) by (auto simp: sorted_append)
      then show ?thesis using 1(1) [OF _ True refl refl i1 1(3,4) i1 1(6) _ o] 1(5,6) True st i1 di by simp
    next
      case False
      then have "drop (i + 1) l = []" by simp
      then show ?thesis using st True False di sr dj 1(7,8) by (auto simp: sorted_append intro: order_trans)
    qed
  next
    case False
    show ?thesis
    proof (cases "j + 1 < length r")
      case j1: True
      have "r ! j \<le> r ! (j + 1)" using 1(4) j1 by (simp add: sorted_nth_mono)
      then have o: "\<forall>x\<in>set (out @ [r ! j]). x \<le> l ! i \<and> x \<le> r ! (j + 1)" using 1(8) False by (auto intro: order_trans)
      have "sorted (out @ [r ! j])" using 1(7,8) by (auto simp: sorted_append)
      then show ?thesis using 1(2) [OF _ False refl refl j1 1(3,4,5) j1 _ o] 1(5,6) False st j1 dj by simp
    next
      case j0: False
      then have "drop (j + 1) r = []" by simp
      then show ?thesis using st j0 False di dj sl 1(7,8) by (auto simp: sorted_append intro: order_trans)
    qed
  qed
qed

lemma mset_slice_split:
  "s \<le> m \<Longrightarrow> m \<le> e + 1 \<Longrightarrow> mset (map f [s..e]) = mset (map f [s..m - 1]) + mset (map f [m..e])" for f :: "int \<Rightarrow> 'a"
proof (cases "m \<le> e")
  case True
  assume "s \<le> m"
  then have "[s..e] = [s..m - 1] @ [m..e]" using True by (rule upto_split1)
  then show ?thesis by (simp only: map_append mset_append)
next
  case False
  moreover assume "m \<le> e + 1"
  ultimately have "m - 1 = e" by simp
  then show ?thesis using False by simp
qed

lemma merge_sort_range_correct:
  "0 \<le> s \<Longrightarrow> e < int (length data) \<Longrightarrow> length data \<le> 2 ^ 30 \<Longrightarrow>
   \<exists>out. merge_sort_range data s e = Some out \<and> sorted out \<and> mset out = mset (map (\<lambda>k. data ! nat k) [s..e])"
proof (induction data s e rule: merge_sort_range.induct)
  case (1 data s e)
  let ?f = "\<lambda>k. data ! nat k"
  consider "s > e" | "s = e" | "s + 1 = e" | "s + 1 < e" by linarith
  then show ?case
  proof cases
    case 3
    then have "[s..e] = [s, e]" by (simp add: upto.simps)
    then show ?thesis using 3 by (auto simp: merge_sort_range.simps [of data s e])
  next
    case 4
    define m where "m = (s + e + 1) div 2"
    have m: "s < m" "m \<le> e" using 4 by (auto simp: m_def)
    have c: "\<not> s > e" "s \<noteq> e" "s + 1 \<noteq> e" "\<not> s + e + 1 > INT_MAX" using 4 1(4,5) by (auto simp: INT_MAX_def)
    obtain l where l: "merge_sort_range data s (m - 1) = Some l" "sorted l" "mset l = mset (map ?f [s..m - 1])"
      using 1(1) [OF c m_def] 1(3-5) m by auto
    obtain r where r: "merge_sort_range data m e = Some r" "sorted r" "mset r = mset (map ?f [m..e])"
      using 1(2) [OF c m_def l(1)] 1(3-5) m by auto
    have "length l = length [s..m - 1]" "length r = length [m..e]"
      using l(3) r(3) by (metis length_map size_mset)+
    then have "0 < length l" "0 < length r" using m by simp_all
    from merge_loop_correct [OF l(2) r(2) this, of "[]"]
    have "sorted (merge_loop l r 0 0 []) \<and> mset (merge_loop l r 0 0 []) = mset (map ?f [s..m - 1]) + mset (map ?f [m..e])"
      using l(3) r(3) by simp
    then show ?thesis using mset_slice_split [of s m e ?f] m c l(1) r(1)
      by (simp add: merge_sort_range.simps [of data s e] Let_def m_def [symmetric])
  qed (simp_all add: merge_sort_range.simps)
qed

lemma merge_sort_correct: "length data \<le> 2 ^ 30 \<Longrightarrow> \<exists>out. merge_sort data = Some out \<and> sorted out \<and> mset out = mset data"
proof -
  assume "length data \<le> 2 ^ 30"
  moreover have "map (\<lambda>k. data ! nat k) [0..int (length data) - 1] = data"
    by (rule nth_equalityI) simp_all
  ultimately show ?thesis
    using merge_sort_range_correct [of 0 "int (length data) - 1" data] by (simp add: merge_sort_def)
qed

text \<open>After the inner loop the element at \<open>i\<close> is the least from there on, and everything before \<open>i\<close> stays below the rest.\<close>

definition front_ok :: "'a::linorder list \<Rightarrow> nat \<Rightarrow> bool" where
  "front_ok d i \<longleftrightarrow> (\<forall>a<i. \<forall>b. a < b \<longrightarrow> b < length d \<longrightarrow> d ! a \<le> d ! b)"

lemma front_ok_swap: "front_ok d i \<Longrightarrow> i \<le> p \<Longrightarrow> i \<le> q \<Longrightarrow> p < length d \<Longrightarrow> q < length d \<Longrightarrow>
   front_ok (d[p := d ! q, q := d ! p]) i"
  by (auto simp: front_ok_def nth_list_update)

lemma bubble_inner_correct:
  assumes "front_ok d i" "i < j" "i < length d" "\<forall>k. i < k \<longrightarrow> k < j \<longrightarrow> k < length d \<longrightarrow> d ! i \<le> d ! k"
  shows "front_ok (bubble_inner d i j) (i + 1) \<and> mset (bubble_inner d i j) = mset d"
  using assms
proof (induction d i j rule: bubble_inner.induct)
  case (1 d i j)
  show ?case
  proof (cases "j < length d")
    case False
    then show ?thesis using 1(2,5) by (auto simp: bubble_inner.simps [of d i j] front_ok_def less_Suc_eq)
  next
    case True
    let ?d = "if d ! i > d ! j then d[i := d ! j, j := d ! i] else d"
    have "front_ok ?d i" using 1(2-4) True by (auto intro: front_ok_swap)
    moreover have "\<forall>k. i < k \<longrightarrow> k < j + 1 \<longrightarrow> k < length ?d \<longrightarrow> ?d ! i \<le> ?d ! k"
      using 1(3-5) True by (auto simp: nth_list_update less_Suc_eq intro: order_trans)
    moreover have "mset ?d = mset d" using 1(4) True by (simp add: mset_swap)
    ultimately show ?thesis using 1(1) [OF True] 1(3,4) True by (simp add: bubble_inner.simps [of d i j])
  qed
qed

lemma bubble_outer_correct:
  "front_ok d i \<Longrightarrow> i \<le> length d \<Longrightarrow> front_ok (bubble_outer d i) (length d) \<and> mset (bubble_outer d i) = mset d"
proof (induction d i rule: bubble_outer.induct)
  case (1 d i)
  show ?case
  proof (cases "i < length d")
    case True
    then show ?thesis using 1 bubble_inner_correct [of d i "i + 1"] by (auto simp: bubble_outer.simps [of d i])
  next
    case False
    then show ?thesis using 1(2,3) by (simp add: bubble_outer.simps [of d "length d"])
  qed
qed

lemma bubble_sort_correct: "sorted (bubble_sort data)" "mset (bubble_sort data) = mset data"
proof -
  have b: "front_ok (bubble_sort data) (length data) \<and> mset (bubble_sort data) = mset data"
    using bubble_outer_correct [of data 0] by (simp add: bubble_sort_def front_ok_def)
  then have "length (bubble_sort data) = length data" by (metis size_mset)
  then show "sorted (bubble_sort data)" "mset (bubble_sort data) = mset data"
    using b by (auto simp: sorted_iff_nth_mono_less front_ok_def)
qed

lemma shell_loop_mset: "mset (fst (shell_loop data gap grp r)) = mset data"
proof (induction data gap grp r rule: shell_loop.induct)
  case (1 data gap grp r)
  show ?case
  proof (cases "grp \<ge> 1 \<and> grp \<noteq> 1")
    case True
    then show ?thesis using 1 [OF _ refl refl] by (simp add: shell_loop.simps [of data gap grp r] Let_def shell_pass_mset)
  qed (auto simp: shell_loop.simps [of data gap grp r] Let_def shell_pass_mset)
qed

text \<open>From the second pass on, the remainder is the one of the current gap; the last pass covers everything when it is zero.\<close>

lemma shell_loop_sorted:
  assumes "1 \<le> grp" "grp = length data div gap" "r = length data mod gap"
  shows "snd (shell_loop data gap grp r) = 0 \<longrightarrow> sorted (fst (shell_loop data gap grp r))"
  using assms
proof (induction data gap grp r rule: shell_loop.induct)
  case (1 data gap grp r)
  let ?r = "if r = 0 then 0 else 1 :: nat"
  show ?case
  proof (cases "grp = 1")
    case True
    have s: "shell_loop data gap grp r = (shell_pass data gap (1 + ?r), ?r)"
      unfolding True by (subst shell_loop.simps) (simp add: Let_def)
    show ?thesis
    proof (cases "r = 0")
      case r0: True
      then have "length data = gap" using 1(3,4) True by (metis div_mult_mod_eq add.right_neutral mult_1)
      then have "sorted (shell_pass data gap 1)" by (simp add: shell_pass_def insert_sort_all)
      then show ?thesis using s r0 by simp
    qed (use s in simp)
  next
    case False
    let ?d = "shell_pass data gap (grp + ?r)"
    have "1 \<le> length data div (gap * 2)"
    proof -
      have "length data div (gap * 2) = grp div 2" using 1(3) by (simp add: div_mult2_eq)
      then show ?thesis using False 1(2) by simp
    qed
    then have "snd (shell_loop ?d (gap * 2) (length ?d div (gap * 2)) (length ?d mod (gap * 2))) = 0 \<longrightarrow>
        sorted (fst (shell_loop ?d (gap * 2) (length ?d div (gap * 2)) (length ?d mod (gap * 2))))"
      using 1(1) [OF 1(2) refl refl False] by simp
    then show ?thesis using False 1(2) by (simp add: shell_loop.simps [of data gap grp r] Let_def)
  qed
qed

lemma shell_sort_correct:
  "mset (shell_sort data) = mset data" "length data \<noteq> 3 \<Longrightarrow> sorted (shell_sort data)"
proof -
  let ?n = "length data"
  obtain d r where l: "shell_loop data 2 (?n div 2) 0 = (d, r)" by force
  have m: "mset d = mset data" using shell_loop_mset [of data 2 "?n div 2" 0] l by simp
  then have ld: "length d = ?n" by (metis size_mset)
  show "mset (shell_sort data) = mset data" using m l by (simp add: shell_sort_def Let_def insert_sort_mset)
  assume n3: "?n \<noteq> 3"
  consider "?n \<le> 1" | "?n = 2" | "4 \<le> ?n" using n3 by linarith
  then show "sorted (shell_sort data)"
  proof cases
    case 1
    then have "shell_sort data = data" by (simp add: shell_sort_def)
    moreover have "sorted data" using 1 by (cases data; cases "tl data") auto
    ultimately show ?thesis by simp
  next
    case 2
    then have "d = shell_pass data 2 1" "r = 0" using l by (simp_all add: shell_loop.simps)
    moreover have "sorted (shell_pass data 2 1)" using 2 by (simp add: shell_pass_def insert_sort_all)
    ultimately show ?thesis using l 2 by (simp add: shell_sort_def Let_def)
  next
    case 3
    let ?d = "shell_pass data 2 (?n div 2 + 0)"
    have "?n div 2 \<noteq> 1" "1 \<le> ?n div 2" "1 \<le> length ?d div 4" using 3 by auto
    then have st: "shell_loop data 2 (?n div 2) 0 = shell_loop ?d 4 (length ?d div 4) (length ?d mod 4)"
      by (simp add: shell_loop.simps [of data 2 "?n div 2" 0])
    have "r = 0 \<longrightarrow> sorted d"
      using shell_loop_sorted [OF \<open>1 \<le> length ?d div 4\<close> refl refl] l unfolding st by simp
    then show ?thesis using l ld 3 by (auto simp: shell_sort_def Let_def insert_sort_all)
  qed
qed

text \<open>With three elements the only pass covers two of them.\<close>

lemma shell_sort_three: "shell_sort [1, 2, 0 :: int] = [1, 2, 0]"
  by (simp add: shell_sort_def shell_loop.simps shell_pass_def insert_sort_def)

section \<open>Quick sort\<close>

text \<open>
  The two searches of \<open>_qsort\<close> that jump to each other: \<open>from_left\<close> stands for the label, \<open>kv\<close> for the
  pivot's value, \<open>key\<close> for its position.
\<close>

function qpart :: "bool \<Rightarrow> 'a::linorder list \<Rightarrow> 'a \<Rightarrow> nat \<Rightarrow> nat \<Rightarrow> nat \<Rightarrow> 'a list \<times> nat" where
  "qpart from_left data kv key left right =
     (if from_left
      then (case List.find (\<lambda>i. data ! i > kv) [left..<key] of
              Some i \<Rightarrow> qpart False (data[key := data ! i, i := kv]) kv i (i + 1) right
            | None \<Rightarrow> qpart False data kv key left right)
      else (case List.find (\<lambda>j. data ! j < kv) (rev [key + 1..<right + 1]) of
              Some j \<Rightarrow> qpart True (data[key := data ! j, j := kv]) kv j left (j - 1)
            | None \<Rightarrow> (data, key)))"
  by pat_completeness auto
termination
proof (relation "measures [\<lambda>(ph, d, kv, k, l, r). r, \<lambda>(ph, d, kv, k, l, r). if ph then 1 else 0]", goal_cases)
  case (4 from_left data kv key left right j)
  then have "key < j" "j \<le> right" using find_rev_upt_Some by blast+
  then show ?case by simp
qed auto

declare qpart.simps [simp del]

definition qinv :: "nat \<Rightarrow> nat \<Rightarrow> bool \<Rightarrow> 'a::linorder list \<Rightarrow> 'a \<Rightarrow> nat \<Rightarrow> nat \<Rightarrow> nat \<Rightarrow> bool" where
  "qinv F L ph d kv key left right \<longleftrightarrow>
     F \<le> key \<and> key \<le> L \<and> L < length d \<and> F \<le> left \<and> right \<le> L \<and> d ! key = kv \<and> key \<le> right + 1 \<and>
     (\<forall>b. right < b \<longrightarrow> b \<le> L \<longrightarrow> kv \<le> d ! b) \<and>
     (if ph then left \<le> key \<and> (\<forall>a. F \<le> a \<longrightarrow> a < left \<longrightarrow> d ! a \<le> kv)
      else left \<le> key + 1 \<and> (\<forall>a. F \<le> a \<longrightarrow> a < key \<longrightarrow> d ! a \<le> kv))"

definition qpost :: "nat \<Rightarrow> nat \<Rightarrow> 'a::linorder list \<Rightarrow> 'a \<Rightarrow> 'a list \<times> nat \<Rightarrow> bool" where
  "qpost F L d kv res \<longleftrightarrow>
     F \<le> snd res \<and> snd res \<le> L \<and> mset (fst res) = mset d \<and>
     (\<forall>i. i < F \<or> L < i \<longrightarrow> fst res ! i = d ! i) \<and> fst res ! snd res = kv \<and>
     (\<forall>a. F \<le> a \<longrightarrow> a < snd res \<longrightarrow> fst res ! a \<le> kv) \<and> (\<forall>b. snd res < b \<longrightarrow> b \<le> L \<longrightarrow> kv \<le> fst res ! b)"

lemma qinv_left:
  assumes "qinv F L True d kv key left right" "List.find (\<lambda>i. d ! i > kv) [left..<key] = Some i"
  shows "qinv F L False (d[key := d ! i, i := kv]) kv i (i + 1) right"
    "mset (d[key := d ! i, i := kv]) = mset d" "F \<le> i" "i \<le> L"
proof -
  have f: "left \<le> i" "i < key" "kv < d ! i" "\<And>a. left \<le> a \<Longrightarrow> a < i \<Longrightarrow> d ! a \<le> kv"
    using find_upt_Some [OF assms(2)] by (auto simp: not_less)
  have "\<forall>a. F \<le> a \<longrightarrow> a < i \<longrightarrow> d ! a \<le> kv" using assms(1) f(4) unfolding qinv_def by (metis not_le)
  then show "qinv F L False (d[key := d ! i, i := kv]) kv i (i + 1) right"
    using assms(1) f(1-3) unfolding qinv_def by (auto simp: nth_list_update)
  have "kv = d ! key" "key < length d" "i < length d" using assms(1) f by (auto simp: qinv_def)
  then show "mset (d[key := d ! i, i := kv]) = mset d" by (simp add: mset_swap)
  show "F \<le> i" "i \<le> L" using assms(1) f by (auto simp: qinv_def)
qed

lemma qinv_right:
  assumes "qinv F L False d kv key left right" "List.find (\<lambda>j. d ! j < kv) (rev [key + 1..<right + 1]) = Some j"
  shows "qinv F L True (d[key := d ! j, j := kv]) kv j left (j - 1)"
    "mset (d[key := d ! j, j := kv]) = mset d" "F \<le> j" "j \<le> L"
proof -
  have f: "key < j" "j \<le> right" "d ! j < kv" "\<And>b. j < b \<Longrightarrow> b \<le> right \<Longrightarrow> kv \<le> d ! b"
    using find_rev_upt_Some [OF assms(2)] by (auto simp: not_less)
  have "\<forall>b. j < b \<longrightarrow> b \<le> L \<longrightarrow> kv \<le> d ! b" using assms(1) f(4) unfolding qinv_def by (metis not_le)
  moreover have "left \<le> key + 1" "\<forall>a. F \<le> a \<longrightarrow> a < left \<longrightarrow> a \<noteq> key \<longrightarrow> d ! a \<le> kv"
    using assms(1) by (auto simp: qinv_def)
  ultimately show "qinv F L True (d[key := d ! j, j := kv]) kv j left (j - 1)"
    using assms(1) f(1-3) unfolding qinv_def by (auto simp: nth_list_update)
  have "kv = d ! key" "key < length d" "j < length d" using assms(1) f by (auto simp: qinv_def)
  then show "mset (d[key := d ! j, j := kv]) = mset d" by (simp add: mset_swap)
  show "F \<le> j" "j \<le> L" using assms(1) f by (auto simp: qinv_def)
qed

lemma qpost_step:
  assumes "qpost F L (d[key := x, i := y]) kv res" "mset (d[key := x, i := y]) = mset d"
    "F \<le> key" "key \<le> L" "F \<le> i" "i \<le> L"
  shows "qpost F L d kv res"
  using assms unfolding qpost_def by (metis (no_types) nth_list_update_neq not_less)

lemma qpart_correct: "qinv F L ph d kv key left right \<Longrightarrow> qpost F L d kv (qpart ph d kv key left right)"
proof (induction ph d kv key left right rule: qpart.induct)
  case (1 ph d kv key left right)
  have k: "F \<le> key" "key \<le> L" using 1(4) by (simp_all add: qinv_def)
  show ?case
  proof (cases ph)
    case True
    show ?thesis
    proof (cases "List.find (\<lambda>i. d ! i > kv) [left..<key]")
      case None
      then have "\<forall>a. left \<le> a \<longrightarrow> a < key \<longrightarrow> d ! a \<le> kv" by (auto simp: find_None_iff not_less)
      then have "qinv F L False d kv key left right" using 1(4) True unfolding qinv_def by (auto simp: not_le)
      then show ?thesis using 1(1) [OF True None] True None by (simp add: qpart.simps [of True])
    next
      case (Some i)
      have "qinv F L True d kv key left right" using 1(4) True by simp
      note q = qinv_left [OF this Some]
      show ?thesis using qpost_step [OF 1(2) [OF True Some q(1)] q(2) k q(3,4)] True Some by (simp add: qpart.simps [of True])
    qed
  next
    case False
    then have inv: "qinv F L False d kv key left right" using 1(4) by simp
    show ?thesis
    proof (cases "List.find (\<lambda>j. d ! j < kv) (rev [key + 1..<right + 1])")
      case None
      then have "\<forall>b. key < b \<longrightarrow> b \<le> right \<longrightarrow> kv \<le> d ! b" by (auto simp: find_None_iff not_less less_Suc_eq_le simp del: upt_Suc)
      then have "qpost F L d kv (d, key)" using inv unfolding qinv_def qpost_def by (auto simp: not_le)
      then show ?thesis using False None by (simp add: qpart.simps [of False] del: upt_Suc)
    next
      case (Some j)
      note q = qinv_right [OF inv Some]
      show ?thesis using qpost_step [OF 1(3) [OF False Some q(1)] q(2) k q(3,4)] False Some
        by (simp add: qpart.simps [of False] del: upt_Suc)
    qed
  qed
qed

text \<open>The pivot is the smaller of the last and the larger of the first and middle element.\<close>

definition key_val :: "'a::linorder list \<Rightarrow> nat \<Rightarrow> nat \<Rightarrow> nat \<Rightarrow> 'a" where
  "key_val data fst_idx mid_idx lst_idx = min (max (data ! fst_idx) (data ! mid_idx)) (data ! lst_idx)"

definition key_idx :: "'a::linorder list \<Rightarrow> nat \<Rightarrow> nat \<Rightarrow> nat \<Rightarrow> nat" where
  "key_idx data fst_idx mid_idx lst_idx =
     (let kv = key_val data fst_idx mid_idx lst_idx
      in if kv = data ! fst_idx then fst_idx else if kv = data ! mid_idx then mid_idx else lst_idx)"

lemma key_idx_nth: "data ! key_idx data f m l = key_val data f m l"
  by (auto simp: key_idx_def key_val_def Let_def min_def max_def split: if_splits)

lemma qinv_start:
  assumes "F < L" "L < length d"
  defines "m \<equiv> (F + L + 1) div 2"
  shows "qinv F L True d (key_val d F m L) (key_idx d F m L) F L"
proof -
  have "F \<le> m" "m \<le> L" using assms(1) by (auto simp: m_def)
  then have "F \<le> key_idx d F m L" "key_idx d F m L \<le> L" using assms(1) by (simp_all add: key_idx_def Let_def)
  then show ?thesis using assms(2) key_idx_nth by (auto simp: qinv_def)
qed

lemma qpart_key_range:
  "F \<le> key \<Longrightarrow> key \<le> L \<Longrightarrow> F \<le> left \<Longrightarrow> right \<le> L \<Longrightarrow>
   F \<le> snd (qpart ph d kv key left right) \<and> snd (qpart ph d kv key left right) \<le> L"
proof (induction ph d kv key left right rule: qpart.induct)
  case (1 ph d kv key left right)
  show ?case
  proof (cases ph)
    case True
    show ?thesis
    proof (cases "List.find (\<lambda>i. d ! i > kv) [left..<key]")
      case None
      then show ?thesis using 1(1) [OF True None] 1(4-7) True None by (simp add: qpart.simps [of True])
    next
      case (Some i)
      then have "left \<le> i" "i < key" using find_upt_Some by blast+
      then show ?thesis using 1(2) [OF True Some] 1(4-7) True Some by (simp add: qpart.simps [of True])
    qed
  next
    case False
    show ?thesis
    proof (cases "List.find (\<lambda>j. d ! j < kv) (rev [key + 1..<right + 1])")
      case None
      then show ?thesis using 1(4-7) False by (simp add: qpart.simps [of False] del: upt_Suc)
    next
      case (Some j)
      then have "key < j" "j \<le> right" using find_rev_upt_Some by blast+
      then show ?thesis using 1(3) [OF False Some] 1(4-7) False Some by (simp add: qpart.simps [of False] del: upt_Suc)
    qed
  qed
qed

function qsort_range :: "'a::linorder list \<Rightarrow> int \<Rightarrow> int \<Rightarrow> 'a list option" where
  "qsort_range data first_idx last_idx =
     (if first_idx \<ge> last_idx \<or> first_idx < 0 \<or> last_idx < 0 then Some data
      else if first_idx + last_idx + 1 > INT_MAX then None
      else let f = nat first_idx; l = nat last_idx; m = (f + l + 1) div 2;
               res = qpart True data (key_val data f m l) (key_idx data f m l) f l
           in case qsort_range (fst res) first_idx (int (snd res) - 1) of
                None \<Rightarrow> None
              | Some data \<Rightarrow> qsort_range data (int (snd res) + 1) last_idx)"
  by pat_completeness auto
termination
proof (relation "measure (\<lambda>(d, s, e). nat (e - s))", goal_cases)
  case (2 data s e f l m res)
  have "f \<le> key_idx data f m l" "key_idx data f m l \<le> l" using 2 by (auto simp: key_idx_def Let_def)
  then have "snd res \<le> l" using 2(6) qpart_key_range [of f _ l f l] by blast
  then show ?case using 2(1,4) by simp linarith
next
  case (3 data s e f l m res d)
  have "f \<le> key_idx data f m l" "key_idx data f m l \<le> l" using 3 by (auto simp: key_idx_def Let_def)
  then have "f \<le> snd res" using 3(6) qpart_key_range [of f _ l f l] by blast
  then show ?case using 3(1,3) by simp
qed simp

declare qsort_range.simps [simp del]

definition quick_sort :: "'a::linorder list \<Rightarrow> 'a list option" where
  "quick_sort data =
     (if length data = 0 \<or> length data - 1 = 0 then Some data else qsort_range data 0 (int (length data) - 1))"

text \<open>A permutation that moves nothing outside a range permutes the range.\<close>

lemma range_image:
  assumes "mset d' = mset d" "\<forall>i. i < F \<or> L < i \<longrightarrow> d' ! i = d ! i" "F \<le> a" "a \<le> L" "L < length d"
  shows "\<exists>c. F \<le> c \<and> c \<le> L \<and> d' ! a = d ! c"
proof -
  have l: "length d' = length d" using assms(1) by (metis size_mset)
  have p: "xs = take F xs @ take (L + 1 - F) (drop F xs) @ drop (L + 1) xs" for xs :: "'a list"
  proof -
    have "drop (L + 1 - F) (drop F xs) = drop (L + 1) xs" using assms(3,4) by simp
    then show ?thesis by (metis append_take_drop_id)
  qed
  have e: "take F d' = take F d" "drop (L + 1) d' = drop (L + 1) d" using assms(2) l by (auto intro!: nth_equalityI)
  have "mset d' = mset (take F d) + (mset (take (L + 1 - F) (drop F d')) + mset (drop (L + 1) d))"
    using p [of d'] e by (metis mset_append)
  moreover have "mset d = mset (take F d) + (mset (take (L + 1 - F) (drop F d)) + mset (drop (L + 1) d))"
    using p [of d] by (metis mset_append)
  ultimately have "mset (take (L + 1 - F) (drop F d')) = mset (take (L + 1 - F) (drop F d))" using assms(1) by simp
  then have s: "set (take (L + 1 - F) (drop F d')) = set (take (L + 1 - F) (drop F d))" by (metis set_mset_mset)
  have "take (L + 1 - F) (drop F d') ! (a - F) = d' ! a" using assms l by simp
  moreover have "a - F < length (take (L + 1 - F) (drop F d'))" using assms l by simp
  ultimately have "d' ! a \<in> set (take (L + 1 - F) (drop F d))" using s nth_mem by metis
  then obtain n where "n < L + 1 - F" "F + n < length d" "d' ! a = d ! (F + n)"
    using assms(5) by (auto simp: in_set_conv_nth)
  then show ?thesis using assms by (intro exI [of _ "F + n"]) auto
qed

definition sorted_range :: "'a::linorder list \<Rightarrow> int \<Rightarrow> int \<Rightarrow> bool" where
  "sorted_range d s e \<longleftrightarrow> (\<forall>a b. s \<le> int a \<longrightarrow> a \<le> b \<longrightarrow> int b \<le> e \<longrightarrow> d ! a \<le> d ! b)"

definition only_range :: "'a::linorder list \<Rightarrow> 'a list \<Rightarrow> int \<Rightarrow> int \<Rightarrow> bool" where
  "only_range d' d s e \<longleftrightarrow> mset d' = mset d \<and> (\<forall>i. int i < s \<or> e < int i \<longrightarrow> d' ! i = d ! i)"

lemma only_range_image:
  assumes "only_range d' d s e" "s \<le> int a" "int a \<le> e" "e < int (length d)" "0 \<le> s"
  shows "\<exists>c. s \<le> int c \<and> int c \<le> e \<and> d' ! a = d ! c"
proof -
  have "\<forall>i. i < nat s \<or> nat e < i \<longrightarrow> d' ! i = d ! i" using assms(1,5) by (auto simp: only_range_def)
  moreover have "mset d' = mset d" "nat s \<le> a" "a \<le> nat e" "nat e < length d" using assms by (auto simp: only_range_def)
  ultimately have "\<exists>c. nat s \<le> c \<and> c \<le> nat e \<and> d' ! a = d ! c" by (intro range_image)
  then obtain c where c: "nat s \<le> c" "c \<le> nat e" "d' ! a = d ! c" by blast
  then have "s \<le> int c" "int c \<le> e" using assms by linarith+
  then show ?thesis using c(3) by blast
qed

lemma qsort_range_correct:
  "0 \<le> s \<Longrightarrow> e < int (length d) \<Longrightarrow> length d \<le> 2 ^ 30 \<Longrightarrow>
   \<exists>out. qsort_range d s e = Some out \<and> only_range out d s e \<and> sorted_range out s e"
proof (induction d s e rule: qsort_range.induct)
  case (1 d s e)
  show ?case
  proof (cases "s < e")
    case False
    then have "qsort_range d s e = Some d" by (simp add: qsort_range.simps)
    moreover have "sorted_range d s e" using False by (auto simp: sorted_range_def dest: order_antisym)
    ultimately show ?thesis by (simp add: only_range_def)
  next
    case True
    let ?f = "nat s" and ?l = "nat e"
    let ?m = "(?f + ?l + 1) div 2"
    define kv where "kv = key_val d ?f ?m ?l"
    define res where "res = qpart True d kv (key_idx d ?f ?m ?l) ?f ?l"
    define k where "k = snd res"
    have g: "\<not> (s \<ge> e \<or> s < 0 \<or> e < 0)" "\<not> s + e + 1 > INT_MAX" using True 1(3-5) by (simp_all add: INT_MAX_def)
    have q: "qpost ?f ?l d kv res"
      using qpart_correct [OF qinv_start [of ?f ?l d]] True 1(3,4) by (simp add: res_def kv_def)
    then have k: "s \<le> int k" "int k \<le> e" "mset (fst res) = mset d" "fst res ! k = kv"
      and lo: "\<And>a. s \<le> int a \<Longrightarrow> a < k \<Longrightarrow> fst res ! a \<le> kv"
      and hi: "\<And>b. k < b \<Longrightarrow> int b \<le> e \<Longrightarrow> kv \<le> fst res ! b"
      and out: "\<And>i. int i < s \<or> e < int i \<Longrightarrow> fst res ! i = d ! i"
      using True 1(3) by (auto simp: qpost_def k_def)
    have len: "length (fst res) = length d" using k(3) by (metis size_mset)
    obtain d1 where d1: "qsort_range (fst res) s (int k - 1) = Some d1" and
      r1: "only_range d1 (fst res) s (int k - 1)" "sorted_range d1 s (int k - 1)"
      using 1(1) [OF g refl refl refl res_def [unfolded kv_def]] 1(3-5) k len by (auto simp: k_def)
    have len1: "length d1 = length d" using r1(1) len by (metis only_range_def size_mset)
    obtain d2 where d2: "qsort_range d1 (int k + 1) e = Some d2" and
      r2: "only_range d2 d1 (int k + 1) e" "sorted_range d2 (int k + 1) e"
      using 1(2) [OF g refl refl refl res_def [unfolded kv_def] d1 [unfolded k_def]] 1(3-5) k len1 by (auto simp: k_def)
    have lo1: "d1 ! a \<le> kv" if "s \<le> int a" "a < k" for a
      using only_range_image [OF r1(1) that(1)] that k 1(3,4) len lo by fastforce
    have e1: "d1 ! i = fst res ! i" if "k \<le> i" for i using r1(1) that by (auto simp: only_range_def)
    have e2: "d2 ! i = d1 ! i" if "i \<le> k" for i using r2(1) that by (auto simp: only_range_def)
    have hi2: "kv \<le> d2 ! b" if "k < b" "int b \<le> e" for b
      using only_range_image [OF r2(1) _ that(2)] that k 1(3,4) len1 hi e1 by fastforce
    have eq: "qsort_range d s e = Some d2"
      using g d1 d2 by (simp add: qsort_range.simps [of d s e] Let_def k_def res_def kv_def)
    have "only_range d2 d s e"
      using r1(1) r2(1) k out by (auto simp: only_range_def)
    moreover have "sorted_range d2 s e"
    proof -
      have "d2 ! a \<le> d2 ! b" if ab: "s \<le> int a" "a \<le> b" "int b \<le> e" for a b
      proof -
        consider "b < k" | "a < k" "k \<le> b" | "a = k" | "k < a" using ab by linarith
        then show ?thesis
        proof cases
          case 1
          then show ?thesis using r1(2) ab e2 [of a] e2 [of b] by (auto simp: sorted_range_def)
        next
          case 2
          then show ?thesis using lo1 [of a] hi2 [of b] ab e2 [of a] e2 [of k] e1 [of k] k(4)
            by (cases "b = k") (auto intro: order_trans)
        next
          case 3
          then show ?thesis using hi2 [of b] ab e2 [of k] e1 [of k] k(4) by (cases "b = k") auto
        next
          case 4
          then show ?thesis using r2(2) ab by (auto simp: sorted_range_def)
        qed
      qed
      then show ?thesis by (simp add: sorted_range_def)
    qed
    ultimately show ?thesis using eq by simp
  qed
qed

lemma quick_sort_correct: "length data \<le> 2 ^ 30 \<Longrightarrow> \<exists>out. quick_sort data = Some out \<and> sorted out \<and> mset out = mset data"
proof (cases "length data \<le> 1")
  case True
  then have "quick_sort data = Some data" by (auto simp: quick_sort_def)
  moreover have "sorted data" using True by (auto simp: sorted_iff_nth_mono_less)
  ultimately show ?thesis by simp
next
  case False
  assume "length data \<le> 2 ^ 30"
  then obtain out where out: "qsort_range data 0 (int (length data) - 1) = Some out"
    "only_range out data 0 (int (length data) - 1)" "sorted_range out 0 (int (length data) - 1)"
    using qsort_range_correct [of 0 "int (length data) - 1" data] by auto
  then have "length out = length data" by (metis only_range_def size_mset)
  then have "sorted out" "mset out = mset data" using out(2,3) by (simp_all add: sorted_iff_nth_mono sorted_range_def only_range_def)
  moreover have "quick_sort data = Some out" using False out(1) by (auto simp: quick_sort_def)
  ultimately show ?thesis by blast
qed

section \<open>Heap sort\<close>

text \<open>
  The heap view counts elements from 1. The class is a template, but \<open>swap\<close> holds the first element in an \<open>INT\<close>; the
  elements are modelled as integers and the temporary is reduced to 32 bits. \<open>None\<close> is the failed assertion of an access
  to element 0 or beyond the last one.
\<close>

definition heap_get :: "int list \<Rightarrow> nat \<Rightarrow> int" where
  "heap_get data idx = data ! (idx - 1)"

definition heap_set :: "int list \<Rightarrow> nat \<Rightarrow> int \<Rightarrow> int list" where
  "heap_set data idx val = data[idx - 1 := val]"

definition heap_swap :: "int list \<Rightarrow> nat \<Rightarrow> nat \<Rightarrow> int list" where
  "heap_swap data i j =
     (let tmpval = i32 (heap_get data i); data = heap_set data i (heap_get data j) in heap_set data j tmpval)"

definition heap_major :: "int list \<Rightarrow> nat \<Rightarrow> nat \<Rightarrow> nat" where
  "heap_major data start end_idx =
     (let l = start * 2; r = start * 2 + 1; major = if l \<le> end_idx then l else 0
      in if r \<le> end_idx \<and> major \<noteq> 0 then if heap_get data l < heap_get data r then r else l else major)"

function max_heapify :: "int list \<Rightarrow> nat \<Rightarrow> nat \<Rightarrow> int list" where
  "max_heapify data start end_idx =
     (let major = heap_major data start end_idx
      in if major = 0 \<or> heap_get data start \<ge> heap_get data major then data
         else max_heapify (heap_swap data start major) major end_idx)"
  by pat_completeness auto
termination
  by (relation "measure (\<lambda>(d, s, e). Suc e - s)") (auto simp: heap_major_def Let_def split: if_splits)

declare max_heapify.simps [simp del]

fun build_loop :: "int list \<Rightarrow> nat \<Rightarrow> nat \<Rightarrow> int list" where
  "build_loop data 0 end_idx = data"
| "build_loop data (Suc i) end_idx = build_loop (max_heapify data (Suc i) end_idx) i end_idx"

definition build_max_heap :: "int list \<Rightarrow> int list" where
  "build_max_heap data = build_loop data (length data div 2) (length data)"

fun extract_loop :: "int list \<Rightarrow> nat \<Rightarrow> int list" where
  "extract_loop data 0 = data"
| "extract_loop data (Suc n) = extract_loop (heap_swap (max_heapify data 1 (Suc n)) 1 (Suc n)) n"

definition heap_sort :: "int list \<Rightarrow> int list option" where
  "heap_sort data =
     (if data = [] then None
      else let n = length data in Some (extract_loop (heap_swap (build_max_heap data) 1 n) (n - 1)))"

text \<open>In the heap from node \<open>lo\<close> on, a parent is not below its children; \<open>heap_but\<close> exempts the children of one node.\<close>

definition heap_but :: "nat \<Rightarrow> int list \<Rightarrow> nat \<Rightarrow> nat \<Rightarrow> bool" where
  "heap_but ex d lo e \<longleftrightarrow>
     (\<forall>c. 2 \<le> c \<longrightarrow> c \<le> e \<longrightarrow> lo \<le> c div 2 \<longrightarrow> c div 2 \<noteq> ex \<longrightarrow> heap_get d c \<le> heap_get d (c div 2)) \<and>
     (\<forall>c. 2 \<le> c \<longrightarrow> c \<le> e \<longrightarrow> c div 2 = ex \<longrightarrow> 2 \<le> ex \<longrightarrow> lo \<le> ex div 2 \<longrightarrow> heap_get d c \<le> heap_get d (ex div 2))"

definition heap_from :: "int list \<Rightarrow> nat \<Rightarrow> nat \<Rightarrow> bool" where
  "heap_from d lo e \<longleftrightarrow> (\<forall>c. 2 \<le> c \<longrightarrow> c \<le> e \<longrightarrow> lo \<le> c div 2 \<longrightarrow> heap_get d c \<le> heap_get d (c div 2))"

definition ints32 :: "int list \<Rightarrow> bool" where
  "ints32 d \<longleftrightarrow> (\<forall>x\<in>set d. - 2147483648 \<le> x \<and> x < 2147483648)"

definition heap_perm :: "int list \<Rightarrow> int list \<Rightarrow> nat \<Rightarrow> bool" where
  "heap_perm d' d e \<longleftrightarrow> mset d' = mset d \<and> (\<forall>i. e < i \<longrightarrow> heap_get d' i = heap_get d i)"

lemma heap_perm_trans: "heap_perm d3 d2 e \<Longrightarrow> heap_perm d2 d1 e \<Longrightarrow> heap_perm d3 d1 e"
  by (simp add: heap_perm_def)

lemma heap_perm_keeps: "heap_perm d' d e \<Longrightarrow> length d' = length d \<and> ints32 d' = ints32 d"
  unfolding heap_perm_def ints32_def by (metis set_mset_mset size_mset)

lemma heap_swap_perm:
  assumes "ints32 d" "1 \<le> i" "i \<le> e" "1 \<le> j" "j \<le> e" "e \<le> length d"
  shows "heap_perm (heap_swap d i j) d e"
    "heap_get (heap_swap d i j) k = (if k - 1 = j - 1 then heap_get d i else if k - 1 = i - 1 then heap_get d j else heap_get d k)"
proof -
  have "d ! (i - 1) \<in> set d" using assms by simp
  then have "i32 (d ! (i - 1)) = d ! (i - 1)" using assms(1) by (simp add: ints32_def)
  then have s: "heap_swap d i j = d[i - 1 := d ! (j - 1), j - 1 := d ! (i - 1)]"
    by (simp add: heap_swap_def heap_get_def heap_set_def Let_def)
  have "mset (heap_swap d i j) = mset d" unfolding s by (rule mset_swap) (use assms in auto)
  then show "heap_perm (heap_swap d i j) d e"
    using assms by (auto simp: heap_perm_def s heap_get_def nth_list_update)
  show "heap_get (heap_swap d i j) k = (if k - 1 = j - 1 then heap_get d i else if k - 1 = i - 1 then heap_get d j else heap_get d k)"
    unfolding s heap_get_def using assms by (auto simp: nth_list_update)
qed

lemma heap_major_cases:
  "heap_major d s e = 0 \<and> e < 2 * s \<or>
   2 * s \<le> e \<and> heap_major d s e div 2 = s \<and> s < heap_major d s e \<and> heap_major d s e \<le> e \<and>
   (\<forall>c. c \<le> e \<longrightarrow> c div 2 = s \<longrightarrow> heap_get d c \<le> heap_get d (heap_major d s e))" if "1 \<le> s"
proof -
  have c: "c div 2 = s \<longleftrightarrow> c = s * 2 \<or> c = s * 2 + 1" for c by linarith
  show ?thesis using that unfolding c by (auto simp: heap_major_def Let_def)
qed

lemma heap_from_stop:
  assumes "heap_but s d lo e" "\<And>c. 2 \<le> c \<Longrightarrow> c \<le> e \<Longrightarrow> c div 2 = s \<Longrightarrow> heap_get d c \<le> heap_get d s"
  shows "heap_from d lo e"
  using assms by (auto simp: heap_but_def heap_from_def)

lemma heap_but_step:
  assumes "heap_but s d lo e" "ints32 d" "1 \<le> s" "m div 2 = s" "s < m" "m \<le> e" "e \<le> length d" "1 \<le> lo" "lo \<le> s"
    "heap_get d s < heap_get d m" "\<And>c. c \<le> e \<Longrightarrow> c div 2 = s \<Longrightarrow> heap_get d c \<le> heap_get d m"
  shows "heap_but m (heap_swap d s m) lo e"
proof -
  let ?d = "heap_swap d s m"
  have g: "heap_get ?d k = (if k = m then heap_get d s else if k = s then heap_get d m else heap_get d k)" if "1 \<le> k" for k
    using heap_swap_perm(2) [of d s e m k] assms that by auto
  have "heap_get ?d c \<le> heap_get ?d (c div 2)" if c: "2 \<le> c" "c \<le> e" "lo \<le> c div 2" "c div 2 \<noteq> m" for c
  proof -
    consider "c div 2 = s" | "c = s" | "c div 2 \<noteq> s" "c \<noteq> s" by blast
    then show ?thesis
    proof cases
      case 1
      then show ?thesis using g [of c] g [of s] assms c by auto
    next
      case 2
      have "heap_get d m \<le> heap_get d (s div 2)" using assms(1,4-6) c 2 unfolding heap_but_def by auto
      then show ?thesis using 2 g [of c] g [of "c div 2"] c assms(5) by auto
    next
      case 3
      then have "c \<noteq> m" using assms(4) by auto
      then show ?thesis using 3 assms(1) g [of c] g [of "c div 2"] c unfolding heap_but_def by auto
    qed
  qed
  moreover have "heap_get ?d c \<le> heap_get ?d (m div 2)" if c: "2 \<le> c" "c \<le> e" "c div 2 = m" for c
  proof -
    have "heap_get d c \<le> heap_get d m" using assms(1,4,5,9) c unfolding heap_but_def by auto
    then show ?thesis using g [of c] g [of s] assms(3-5) c by auto
  qed
  ultimately show ?thesis by (simp add: heap_but_def)
qed

lemma max_heapify_correct:
  "heap_but s d lo e \<Longrightarrow> ints32 d \<Longrightarrow> 1 \<le> lo \<Longrightarrow> lo \<le> s \<Longrightarrow> s \<le> e \<Longrightarrow> e \<le> length d \<Longrightarrow>
   heap_from (max_heapify d s e) lo e \<and> heap_perm (max_heapify d s e) d e"
proof (induction d s e rule: max_heapify.induct)
  case (1 d s e)
  let ?m = "heap_major d s e"
  have s1: "1 \<le> s" using 1(4,5) by simp
  note mj = heap_major_cases [OF s1, of d e]
  show ?case
  proof (cases "?m = 0 \<or> heap_get d s \<ge> heap_get d ?m")
    case True
    then have "heap_from d lo e" using mj by (intro heap_from_stop [OF 1(2)]) (auto intro: order_trans)
    then show ?thesis using True by (simp add: max_heapify.simps [of d s e] Let_def heap_perm_def)
  next
    case False
    then have m: "?m div 2 = s" "s < ?m" "?m \<le> e" "\<And>c. c \<le> e \<Longrightarrow> c div 2 = s \<Longrightarrow> heap_get d c \<le> heap_get d ?m"
      using mj by auto
    let ?d = "heap_swap d s ?m"
    have p: "heap_perm ?d d e" using heap_swap_perm(1) [OF 1(3) s1 1(6)] m 1(7) by simp
    have "heap_but ?m ?d lo e" using heap_but_step [OF 1(2,3) s1 m(1-3) 1(7,4,5)] False m(4) by simp
    then show ?thesis
      using 1(1) [OF refl False] 1(3,4,5,7) m heap_perm_keeps [OF p] heap_perm_trans [OF _ p] False
      by (simp add: max_heapify.simps [of d s e] Let_def)
  qed
qed

lemma build_loop_correct:
  "heap_from d (Suc i) e \<Longrightarrow> ints32 d \<Longrightarrow> i \<le> e \<Longrightarrow> e \<le> length d \<Longrightarrow>
   heap_from (build_loop d i e) 1 e \<and> heap_perm (build_loop d i e) d e"
proof (induction i arbitrary: d)
  case (Suc i)
  have "heap_but (Suc i) d (Suc i) e" using Suc.prems(1) by (auto simp: heap_but_def heap_from_def)
  then have m: "heap_from (max_heapify d (Suc i) e) (Suc i) e" "heap_perm (max_heapify d (Suc i) e) d e"
    using max_heapify_correct [of "Suc i" d "Suc i" e] Suc.prems by auto
  show ?case using Suc.IH [OF m(1)] heap_perm_keeps [OF m(2)] heap_perm_trans [OF _ m(2)] Suc.prems by simp
qed (simp add: heap_from_def heap_perm_def)

lemma build_max_heap_correct:
  "ints32 d \<Longrightarrow> heap_from (build_max_heap d) 1 (length d) \<and> heap_perm (build_max_heap d) d (length d)"
  unfolding build_max_heap_def by (rule build_loop_correct) (auto simp: heap_from_def)

lemma heap_root_max: "heap_from d 1 e \<Longrightarrow> 1 \<le> c \<Longrightarrow> c \<le> e \<Longrightarrow> heap_get d c \<le> heap_get d 1"
proof (induction c rule: less_induct)
  case (less c)
  show ?case
  proof (cases "c = 1")
    case False
    then have "1 \<le> c div 2" "c div 2 < c" "c div 2 \<le> e" "2 \<le> c" using less.prems by auto
    then show ?thesis using less.IH [of "c div 2"] less.prems unfolding heap_from_def by (meson order_trans)
  qed simp
qed

text \<open>The elements behind the heap are in order and not below any element of the heap.\<close>

definition heap_tail :: "int list \<Rightarrow> nat \<Rightarrow> bool" where
  "heap_tail d e \<longleftrightarrow> (\<forall>a b. 1 \<le> a \<longrightarrow> a \<le> b \<longrightarrow> e < b \<longrightarrow> b \<le> length d \<longrightarrow> heap_get d a \<le> heap_get d b)"

lemma heap_perm_image:
  assumes "heap_perm d' d e" "1 \<le> a" "a \<le> e" "e \<le> length d"
  shows "\<exists>c. 1 \<le> c \<and> c \<le> e \<and> heap_get d' a = heap_get d c"
proof -
  have o: "d' ! i = d ! i" if "e - 1 < i" for i using assms that unfolding heap_perm_def heap_get_def by (metis (no_types) Suc_diff_1 Suc_pred' diff_Suc_1 le_trans less_Suc_eq_le not_less not_less_eq zero_less_Suc One_nat_def Suc_le_eq)
  have "mset d' = mset d" "\<forall>i. i < 0 \<or> e - 1 < i \<longrightarrow> d' ! i = d ! i" "0 \<le> a - 1" "a - 1 \<le> e - 1" "e - 1 < length d"
    using assms o by (auto simp: heap_perm_def)
  then obtain c where "c \<le> e - 1" "d' ! (a - 1) = d ! c" using range_image [of d' d 0 "e - 1" "a - 1"] by blast
  then show ?thesis using assms by (intro exI [of _ "c + 1"]) (auto simp: heap_get_def)
qed

lemma heap_tail_perm:
  assumes "heap_tail d e" "heap_perm d' d e" "e \<le> length d"
  shows "heap_tail d' e"
  unfolding heap_tail_def
proof (intro allI impI)
  fix a b assume ab: "1 \<le> a" "a \<le> b" "e < b" "b \<le> length d'"
  have l: "length d' = length d" using heap_perm_keeps [OF assms(2)] by simp
  have b: "heap_get d' b = heap_get d b" using assms(2) ab by (simp add: heap_perm_def)
  show "heap_get d' a \<le> heap_get d' b"
  proof (cases "a \<le> e")
    case True
    then obtain c where "1 \<le> c" "c \<le> e" "heap_get d' a = heap_get d c"
      using heap_perm_image [OF assms(2) ab(1) _ assms(3)] by blast
    then show ?thesis using assms(1) ab l b unfolding heap_tail_def by auto
  next
    case False
    then have "heap_get d' a = heap_get d a" using assms(2) by (simp add: heap_perm_def)
    then show ?thesis using assms(1) ab l b unfolding heap_tail_def by auto
  qed
qed

lemma heap_extract_step:
  assumes "heap_from d 1 (Suc n)" "heap_tail d (Suc n)" "ints32 d" "Suc n \<le> length d"
  shows "heap_but 1 (heap_swap d 1 (Suc n)) 1 n" "heap_tail (heap_swap d 1 (Suc n)) n"
    "heap_perm (heap_swap d 1 (Suc n)) d (Suc n)"
proof -
  let ?d = "heap_swap d 1 (Suc n)"
  show p: "heap_perm ?d d (Suc n)" using heap_swap_perm(1) assms(3,4) by simp
  have g: "heap_get ?d k = (if k = Suc n then heap_get d 1 else if k = 1 then heap_get d (Suc n) else heap_get d k)" if "1 \<le> k" for k
    using heap_swap_perm(2) [of d 1 "Suc n" "Suc n" k] assms that by auto
  show "heap_but 1 ?d 1 n" using assms(1) g unfolding heap_but_def heap_from_def by auto
  have t: "heap_tail ?d (Suc n)" by (rule heap_tail_perm [OF assms(2) p assms(4)])
  have "heap_get ?d a \<le> heap_get ?d (Suc n)" if "1 \<le> a" "a \<le> Suc n" for a
    using heap_root_max [OF assms(1)] g [of a] g [of "Suc n"] that by auto
  then show "heap_tail ?d n"
    using t unfolding heap_tail_def by (metis Suc_lessI)
qed

lemma extract_loop_correct:
  "heap_but 1 d 1 n \<Longrightarrow> heap_tail d n \<Longrightarrow> ints32 d \<Longrightarrow> n \<le> length d \<Longrightarrow>
   heap_tail (extract_loop d n) 0 \<and> mset (extract_loop d n) = mset d"
proof (induction n arbitrary: d)
  case (Suc n)
  let ?h = "max_heapify d 1 (Suc n)"
  have h: "heap_from ?h 1 (Suc n)" "heap_perm ?h d (Suc n)"
    using max_heapify_correct [of 1 d 1 "Suc n"] Suc.prems by auto
  have k: "length ?h = length d" "ints32 ?h" using heap_perm_keeps [OF h(2)] Suc.prems(3) by auto
  have "heap_tail ?h (Suc n)" by (rule heap_tail_perm [OF Suc.prems(2) h(2) Suc.prems(4)])
  then have s: "heap_but 1 (heap_swap ?h 1 (Suc n)) 1 n" "heap_tail (heap_swap ?h 1 (Suc n)) n"
    "heap_perm (heap_swap ?h 1 (Suc n)) ?h (Suc n)"
    using heap_extract_step [OF h(1)] k Suc.prems(4) by auto
  have "length (heap_swap ?h 1 (Suc n)) = length d" "ints32 (heap_swap ?h 1 (Suc n))"
    using heap_perm_keeps [OF s(3)] k by auto
  then show ?case using Suc.IH [OF s(1,2)] s(3) h(2) Suc.prems(4) by (simp add: heap_perm_def)
qed simp

lemma heap_sort_correct:
  assumes "d \<noteq> []" "ints32 d"
  shows "\<exists>d'. heap_sort d = Some d' \<and> sorted d' \<and> mset d' = mset d"
proof -
  let ?b = "build_max_heap d"
  obtain n where n: "length d = Suc n" using assms(1) by (cases d) auto
  have b: "heap_from ?b 1 (Suc n)" "heap_perm ?b d (Suc n)" using build_max_heap_correct [OF assms(2)] n by auto
  have k: "length ?b = Suc n" "ints32 ?b" using heap_perm_keeps [OF b(2)] assms(2) n by auto
  have "heap_tail ?b (Suc n)" using k by (simp add: heap_tail_def)
  then have s: "heap_but 1 (heap_swap ?b 1 (Suc n)) 1 n" "heap_tail (heap_swap ?b 1 (Suc n)) n"
    "heap_perm (heap_swap ?b 1 (Suc n)) ?b (Suc n)" using heap_extract_step [OF b(1)] k by auto
  let ?r = "extract_loop (heap_swap ?b 1 (Suc n)) n"
  have "length (heap_swap ?b 1 (Suc n)) = Suc n" "ints32 (heap_swap ?b 1 (Suc n))"
    using heap_perm_keeps [OF s(3)] k by auto
  then have r: "heap_tail ?r 0" "mset ?r = mset d"
    using extract_loop_correct [OF s(1,2)] s(3) b(2) by (simp_all add: heap_perm_def)
  have "?r ! i \<le> ?r ! j" if "i \<le> j" "j < length ?r" for i j
    using r(1) [unfolded heap_tail_def heap_get_def, rule_format, of "i + 1" "j + 1"] that by simp
  then have "sorted ?r" by (simp add: sorted_iff_nth_mono)
  then show ?thesis using r(2) n assms(1) by (simp add: heap_sort_def Let_def)
qed

section \<open>The classes keep the contract\<close>

interpretation merge: sorter "\<lambda>xs. length xs \<le> 2 ^ 30" merge_sort
  by unfold_locales (rule merge_sort_correct)

interpretation bubble: sorter "\<lambda>_. True" "\<lambda>xs. Some (bubble_sort xs)"
  by unfold_locales (simp add: bubble_sort_correct)

interpretation shell: sorter "\<lambda>xs. length xs \<noteq> 3" "\<lambda>xs. Some (shell_sort xs)"
  by unfold_locales (simp add: shell_sort_correct)

interpretation quick: sorter "\<lambda>xs. length xs \<le> 2 ^ 30" quick_sort
  by unfold_locales (rule quick_sort_correct)

interpretation heap: sorter "\<lambda>xs. xs \<noteq> [] \<and> ints32 xs" heap_sort
  by unfold_locales (use heap_sort_correct in auto)

section \<open>Properties\<close>

text \<open>
  C32: Merge sort, bubble sort and quick sort all return the elements of a vector in ascending order, for every ordered
  element type; so the three agree, and sorting again changes nothing. The vector holds at most \<open>2 ^ 30\<close> elements: with
  more, the sum of two indices that merge sort and quick sort halve overflows \<open>INT\<close>.
\<close>

theorem comparison_sorts_agree:
  assumes "length data \<le> 2 ^ 30"
  shows "merge_sort data = Some (sort data) \<and> bubble_sort data = sort data \<and> quick_sort data = Some (sort data) \<and>
    Option.bind (merge_sort data) quick_sort = Some (bubble_sort data)"
  using merge.srt_sort [OF assms] bubble.srt_sort [of data] quick.srt_sort [OF assms] quick.srt_again [OF assms] assms by simp

lemma comparison_sorts_agree_witness:
  "merge_sort [3, 1, 2, 0 :: int] = Some [0, 1, 2, 3] \<and> quick_sort [3, 1, 2, 0 :: int] = Some [0, 1, 2, 3]"
  using comparison_sorts_agree [of "[3, 1, 2, 0 :: int]"] by simp

text \<open>Shell sort and heap sort and the inputs they fail on. Shell sort permutes every vector and sorts it unless it
  holds three elements: then its only pass covers two of them. Heap sort fails exactly on the empty vector, and sorts
  a vector of 32-bit integers; a wider element is truncated by the \<open>INT\<close> its swap goes through.\<close>

theorem shell_heap_outcomes:
  "mset (shell_sort data) = mset data \<and> (length data \<noteq> 3 \<longrightarrow> shell_sort data = sort data) \<and>
   shell_sort [1, 2, 0 :: int] = [1, 2, 0] \<and>
   (heap_sort ns = None \<longleftrightarrow> ns = []) \<and> (ns \<noteq> [] \<and> ints32 ns \<longrightarrow> heap_sort ns = Some (sort ns)) \<and>
   heap_sort [2147483648, 1] = Some [1, - 2147483648]"
proof -
  have h: "heap_sort ns = Some (sort ns)" if "ns \<noteq> []" "ints32 ns"
    using heap.srt_sort [of ns] that by simp
  have e: "heap_sort ns = None \<longleftrightarrow> ns = []" by (simp add: heap_sort_def Let_def)
  have w: "heap_sort [2147483648, 1] = Some [1, - 2147483648]" by code_simp
  show ?thesis
    using h e w shell.srt_sort [of data] shell_sort_correct(1) [of data] shell_sort_three by blast
qed

theorem shell_heap_outcomes_witness:
  "shell_sort [3, 1, 2, 0 :: int] = sort [3, 1, 2, 0] \<and> heap_sort [5, - 3, 9, 5] = Some (sort [5, - 3, 9, 5])"
  using shell_heap_outcomes [of "[3, 1, 2, 0 :: int]" "[5, - 3, 9, 5]"] by (simp add: ints32_def)

end
