(* ===== verification/BitSet.thy ===== *)
theory BitSet
  imports ByteOp
begin

text \<open>
  Class \<open>BitSet\<close> of \<^verbatim>\<open>src/com/bs.h\<close> and \<^verbatim>\<open>src/com/bs.cpp\<close>: a growable byte
  buffer read as a set of positions. The record keeps the two fields of the class; each
  method that changes the object returns the new object. The loops that walk the buffer in
  \<open>BSUNIT\<close> steps (four bytes at a time, read through a cast) are modelled on 32-bit words
  assembled from the bytes in little-endian order. Memory exhaustion (\<open>malloc\<close> failing)
  is not modelled.

  \<open>bitset_set\<close> is the abstraction, \<open>bitset_wf\<close> the class invariant: the size field is the
  buffer length, the pointer is null exactly at size 0, and the positions are addressable
  in 32 bits (fewer than 2^29 bytes). The lemmas show each operation on every branch as the set
  operation it names.
\<close>

section \<open>State\<close>

record BitSet =
  m_size :: nat
  m_ptr :: "byte list option"

definition buf :: "BitSet \<Rightarrow> byte list" where
  "buf s = (case m_ptr s of None \<Rightarrow> [] | Some p \<Rightarrow> p)"

definition bitset_wf :: "BitSet \<Rightarrow> bool" where
  "bitset_wf s \<longleftrightarrow> m_size s = length (buf s) \<and> (m_ptr s = None \<longleftrightarrow> m_size s = 0) \<and>
     m_size s < 536870912"

definition bitset_set :: "BitSet \<Rightarrow> nat set" where
  "bitset_set s = bset (buf s)"

text \<open>\<open>BitSet::init\<close> on a fresh object (the constructor).\<close>

definition bitset_init :: "nat \<Rightarrow> BitSet" where
  "bitset_init init_pool_size =
     (if init_pool_size = 0 then \<lparr>m_size = 0, m_ptr = None\<rparr>
      else \<lparr>m_size = init_pool_size, m_ptr = Some (replicate init_pool_size 0)\<rparr>)"

definition bitset_destroy :: "BitSet \<Rightarrow> BitSet" where
  "bitset_destroy s = (case m_ptr s of None \<Rightarrow> s | Some p \<Rightarrow> \<lparr>m_size = 0, m_ptr = None\<rparr>)"

text \<open>The storage unit \<open>BSUNIT\<close> and its access through the pointer cast.\<close>

definition load_unit :: "byte list \<Rightarrow> nat \<Rightarrow> 32 word" where
  "load_unit p i =
     ucast (p ! (4 * i)) OR push_bit 8 (ucast (p ! (4 * i + 1))) OR
     push_bit 16 (ucast (p ! (4 * i + 2))) OR push_bit 24 (ucast (p ! (4 * i + 3)))"

definition store_unit :: "byte list \<Rightarrow> nat \<Rightarrow> 32 word \<Rightarrow> byte list" where
  "store_unit p i w =
     p[4 * i := ucast w, 4 * i + 1 := ucast (drop_bit 8 w),
       4 * i + 2 := ucast (drop_bit 16 w), 4 * i + 3 := ucast (drop_bit 24 w)]"

section \<open>Allocation\<close>

text \<open>\<open>BitSet::clean\<close>.\<close>

definition bitset_clean :: "BitSet \<Rightarrow> BitSet" where
  "bitset_clean s =
     (case m_ptr s of None \<Rightarrow> s | Some p \<Rightarrow> s\<lparr>m_ptr := Some (replicate (m_size s) 0)\<rparr>)"

text \<open>
  \<open>BitSet::realloc\<close>. Every caller passes the object's own buffer as \<open>src\<close>, so the
  \<open>clean()\<close> of the first branch wipes the buffer that is returned.
\<close>

definition bitset_realloc :: "byte list option \<Rightarrow> nat \<Rightarrow> nat \<Rightarrow> byte list option" where
  "bitset_realloc src orgsize newsize =
     (if orgsize \<ge> newsize then map_option (\<lambda>p. replicate (length p) 0) src
      else case src of
          Some p \<Rightarrow> Some (take orgsize p @ replicate (newsize - orgsize) 0)
        | None \<Rightarrow> Some (replicate newsize 0))"

definition bitset_alloc :: "BitSet \<Rightarrow> nat \<Rightarrow> BitSet" where
  "bitset_alloc s sz =
     (if sz \<noteq> 0 then \<lparr>m_size = sz, m_ptr = Some (replicate sz 0)\<rparr>
      else \<lparr>m_size = sz, m_ptr = None\<rparr>)"

section \<open>Iterators\<close>

text \<open>
  \<open>BitSet::get_first\<close>: the unit loop skips zero units; in a non-zero unit the byte loop
  returns. Falling out of the unit loop leaves the tail to \<open>ByteOp::get_first_idx\<close>.
\<close>

function first_in_unit :: "byte list \<Rightarrow> nat \<Rightarrow> nat \<Rightarrow> nat option" where
  "first_in_unit p i m =
     (if i < m then
        (if p ! i \<noteq> 0 then Some (u32 (g_first_one ! unat (p ! i) + mulbpb i))
         else first_in_unit p (Suc i) m)
      else None)"
  by pat_completeness auto
termination
  by (relation "measure (\<lambda>(p, i, m). m - i)") auto

function first_unit_from :: "byte list \<Rightarrow> nat \<Rightarrow> nat \<Rightarrow> nat option" where
  "first_unit_from p i m =
     (if i < m then
        (if load_unit p (i div 4) = 0 then first_unit_from p (i + 4) m
         else first_in_unit p i m)
      else None)"
  by pat_completeness auto
termination
  by (relation "measure (\<lambda>(p, i, m). m - i)") auto

declare first_in_unit.simps [simp del] first_unit_from.simps [simp del]

definition bitset_get_first :: "BitSet \<Rightarrow> nat" where
  "bitset_get_first s =
     (if m_size s = 0 then BS_UNDEF
      else
        let m = m_size s div 4 * 4 in
        case first_unit_from (buf s) 0 m of
          Some r \<Rightarrow> r
        | None \<Rightarrow>
            let x = get_first_idx (drop m (buf s)) (m_size s - m)
            in if x = BS_UNDEF then BS_UNDEF else u32 (x + mulbpb m))"

text \<open>
  \<open>BitSet::get_last\<close>: first the \<open>m_size % 4\<close> tail bytes from the end, then the units
  from the end, each non-zero unit from its high byte.
\<close>

fun last_in_tail :: "byte list \<Rightarrow> nat \<Rightarrow> nat \<Rightarrow> nat \<Rightarrow> nat option" where
  "last_in_tail p i j 0 = None"
| "last_in_tail p i j (Suc n) =
     (if p ! (i - j) \<noteq> 0 then Some (u32 (g_last_one ! unat (p ! (i - j)) + mulbpb (i - j)))
      else last_in_tail p i (Suc j) n)"

fun last_in_unit :: "byte list \<Rightarrow> nat \<Rightarrow> nat \<Rightarrow> nat \<Rightarrow> nat \<Rightarrow> nat option" where
  "last_in_unit p u i j 0 = None"
| "last_in_unit p u i j (Suc k) =
     (if p ! (4 * u + k) \<noteq> 0
      then Some (u32 (g_last_one ! unat (p ! (4 * u + k)) + mulbpb (i - j - (3 - k))))
      else last_in_unit p u i j k)"

function last_unit_from :: "byte list \<Rightarrow> nat \<Rightarrow> nat \<Rightarrow> nat" where
  "last_unit_from p i j =
     (if j \<le> i then
        (let u = i div 4 - j div 4 in
         if load_unit p u = 0 then last_unit_from p i (j + 4)
         else case last_in_unit p u i j 4 of
             Some r \<Rightarrow> r
           | None \<Rightarrow> last_unit_from p i (j + 4))
      else BS_UNDEF)"
  by pat_completeness auto
termination
  by (relation "measure (\<lambda>(p, i, j). Suc i - j)") auto

declare last_unit_from.simps [simp del]

definition bitset_get_last :: "BitSet \<Rightarrow> nat" where
  "bitset_get_last s =
     (if m_size s = 0 then BS_UNDEF
      else
        let m = m_size s mod 4; i = m_size s - 1; p = buf s in
        if m \<noteq> 0 then
          (case last_in_tail p i 0 m of
             Some r \<Rightarrow> r
           | None \<Rightarrow> if m_size s \<le> 4 then BS_UNDEF else last_unit_from p (i - m) 0)
        else last_unit_from p i 0)"

definition bitset_get_next :: "BitSet \<Rightarrow> nat \<Rightarrow> nat" where
  "bitset_get_next s elem =
     (if m_size s = 0 then BS_UNDEF else get_next_idx (buf s) (m_size s) elem)"

definition bitset_get_elem_count :: "BitSet \<Rightarrow> nat" where
  "bitset_get_elem_count s =
     (if m_ptr s = None then 0 else get_elem_count (buf s) (m_size s))"

section \<open>Union, difference, intersection\<close>

text \<open>\<open>bunion(BSIdx)\<close>.\<close>

definition bitset_bunion_elem :: "BitSet \<Rightarrow> nat \<Rightarrow> BitSet" where
  "bitset_bunion_elem s elem =
     (let first_byte = divbpb elem;
          s1 = (if m_size s < first_byte + 1
                then \<lparr>m_size = first_byte + 1,
                      m_ptr = bitset_realloc (m_ptr s) (m_size s) (first_byte + 1)\<rparr>
                else s);
          e = modbpb elem; p = buf s1
      in s1\<lparr>m_ptr := Some (p[first_byte := p ! first_byte OR push_bit e 1])\<rparr>)"

text \<open>
  The loops \<open>p[i] = f(p[i], q[i])\<close> over units \<open>0..num_of_unit-1\<close> and over bytes
  \<open>from..until-1\<close>.
\<close>

definition unit_loop ::
  "(32 word \<Rightarrow> 32 word \<Rightarrow> 32 word) \<Rightarrow> nat \<Rightarrow> byte list \<Rightarrow> byte list \<Rightarrow> byte list" where
  "unit_loop f n q p = fold (\<lambda>i p. store_unit p i (f (load_unit p i) (load_unit q i))) [0..<n] p"

definition byte_loop ::
  "(byte \<Rightarrow> byte \<Rightarrow> byte) \<Rightarrow> nat \<Rightarrow> nat \<Rightarrow> byte list \<Rightarrow> byte list \<Rightarrow> byte list" where
  "byte_loop f i n q p = fold (\<lambda>i p. p[i := f (p ! i) (q ! i)]) [i..<n] p"

text \<open>\<open>bunion(BitSet const&)\<close>.\<close>

definition bitset_bunion :: "BitSet \<Rightarrow> BitSet \<Rightarrow> BitSet" where
  "bitset_bunion s bs =
     (if m_ptr bs = None then s
      else
        let l = bitset_get_last bs in
        if m_size s < m_size bs \<and> l = BS_UNDEF then s
        else
          let cp_sz = (if m_size s < m_size bs then l div 8 + 1 else m_size bs);
              s1 = (if m_size s < cp_sz
                    then \<lparr>m_size = cp_sz, m_ptr = bitset_realloc (m_ptr s) (m_size s) cp_sz\<rparr>
                    else s);
              num_of_unit = cp_sz div 4;
              p = unit_loop (\<lambda>a b. a OR b) num_of_unit (buf bs) (buf s1)
          in s1\<lparr>m_ptr := Some (byte_loop (\<lambda>a b. a OR b) (num_of_unit * 4) cp_sz (buf bs) p)\<rparr>)"

text \<open>\<open>diff(BSIdx)\<close> and \<open>diff(BitSet const&)\<close>.\<close>

definition bitset_diff_elem :: "BitSet \<Rightarrow> nat \<Rightarrow> BitSet" where
  "bitset_diff_elem s elem =
     (let first_byte = divbpb elem in
      if first_byte + 1 > m_size s then s
      else
        let e = modbpb elem; p = buf s
        in s\<lparr>m_ptr := Some (p[first_byte := p ! first_byte AND NOT (push_bit e 1)])\<rparr>)"

definition bitset_diff :: "BitSet \<Rightarrow> BitSet \<Rightarrow> BitSet" where
  "bitset_diff s bs =
     (if m_size s = 0 \<or> m_size bs = 0 then s
      else
        let minsize = min (m_size s) (m_size bs);
            num_of_unit = minsize div 4;
            p = unit_loop (\<lambda>a d. if d \<noteq> 0 then a AND NOT d else a) num_of_unit (buf bs) (buf s)
        in s\<lparr>m_ptr := Some (byte_loop (\<lambda>a d. if d \<noteq> 0 then a AND NOT d else a)
                 (num_of_unit * 4) minsize (buf bs) p)\<rparr>)"

text \<open>\<open>intersect\<close>: the part of the buffer beyond \<open>bs\<close> is cleared.\<close>

definition bitset_intersect :: "BitSet \<Rightarrow> BitSet \<Rightarrow> BitSet" where
  "bitset_intersect s bs =
     (case m_ptr s of
        None \<Rightarrow> s
      | Some p \<Rightarrow>
          if m_size s > m_size bs then
            s\<lparr>m_ptr := Some (take (m_size bs) (byte_loop (\<lambda>a b. a AND b) 0 (m_size bs) (buf bs) p) @
                 replicate (m_size s - m_size bs) 0)\<rparr>
          else s\<lparr>m_ptr := Some (byte_loop (\<lambda>a b. a AND b) 0 (m_size s) (buf bs) p)\<rparr>)"

text \<open>\<open>copy\<close>.\<close>

definition bitset_copy :: "BitSet \<Rightarrow> BitSet \<Rightarrow> BitSet" where
  "bitset_copy s src =
     (let zeroed = s\<lparr>m_ptr := map_option (\<lambda>p. replicate (m_size s) 0) (m_ptr s)\<rparr> in
      if m_size src = 0 then zeroed
      else if m_size s < m_size src then
        let l = bitset_get_last src in
        if l = BS_UNDEF then zeroed
        else
          let cp_sz = l div 8 + 1 in
          if m_size s < cp_sz
          then \<lparr>m_size = cp_sz, m_ptr = Some (take cp_sz (buf src))\<rparr>
          else s\<lparr>m_ptr := Some (take cp_sz (buf src) @ replicate (m_size s - cp_sz) 0)\<rparr>
      else s\<lparr>m_ptr := Some (take (m_size src) (buf src) @ replicate (m_size s - m_size src) 0)\<rparr>)"

text \<open>\<open>complement\<close>: through a temporary of one byte.\<close>

definition bitset_complement :: "BitSet \<Rightarrow> BitSet \<Rightarrow> BitSet" where
  "bitset_complement s univers =
     (let tmp = bitset_copy (bitset_init 1) univers;
          tmp = bitset_diff tmp s
      in bitset_copy s tmp)"

text \<open>\<open>rev\<close>: flip the bits \<open>0..last_bit_pos\<close>.\<close>

definition bitset_rev :: "BitSet \<Rightarrow> nat \<Rightarrow> BitSet" where
  "bitset_rev s last_bit_pos =
     (let last_byte_pos = last_bit_pos div 8;
          n = last_byte_pos div 4;
          p = unit_loop (\<lambda>a b. NOT a) n (buf s) (buf s);
          p = byte_loop (\<lambda>a b. NOT a) (n * 4) last_byte_pos (buf s) p;
          last_byte = (ucast (p ! last_byte_pos) :: 32 word);
          mask = push_bit (last_bit_pos mod 8 + 1) 1 - 1;
          rev_last_byte = NOT last_byte AND mask;
          last_byte = (last_byte AND NOT mask) OR rev_last_byte
      in s\<lparr>m_ptr := Some (p[last_byte_pos := ucast last_byte])\<rparr>)"

section \<open>Units and loops\<close>

text \<open>A 32-bit unit holds the bits of its four bytes, and storing it writes them back.\<close>

lemma bit_load_unit:
  assumes "n < 32"
  shows "bit (load_unit p i) n \<longleftrightarrow> bit (p ! (4 * i + n div 8)) (n mod 8)"
proof -
  consider "n < 8" | "8 \<le> n" "n < 16" | "16 \<le> n" "n < 24" | "24 \<le> n" "n < 32"
    using assms by linarith
  then show ?thesis
  proof cases
    case 1
    then show ?thesis
      by (auto simp: load_unit_def bit_or_iff bit_push_bit_iff bit_ucast_iff)
  next
    case 2
    then have "n div 8 = 1" "n mod 8 = n - 8" by (auto simp: mod_if)
    with 2 show ?thesis
      by (auto simp: load_unit_def bit_or_iff bit_push_bit_iff bit_ucast_iff dest: bit_byte_less)
  next
    case 3
    then have "n div 8 = 2" "n mod 8 = n - 16" by (auto simp: mod_if)
    with 3 show ?thesis
      by (auto simp: load_unit_def bit_or_iff bit_push_bit_iff bit_ucast_iff dest: bit_byte_less)
  next
    case 4
    then have "n div 8 = 3" "n mod 8 = n - 24" by (auto simp: mod_if)
    with 4 show ?thesis
      by (auto simp: load_unit_def bit_or_iff bit_push_bit_iff bit_ucast_iff dest: bit_byte_less)
  qed
qed

lemma length_store_unit [simp]: "length (store_unit p i w) = length p"
  by (simp add: store_unit_def)

lemma store_unit_nth:
  assumes "4 * i + 3 < length p" and "j < length p" and "k < 8"
  shows "bit (store_unit p i w ! j) k \<longleftrightarrow>
    (if j div 4 = i then bit w (8 * (j mod 4) + k) else bit (p ! j) k)"
proof (cases "j div 4 = i")
  case True
  then have "j = 4 * i + j mod 4" by auto
  moreover have "j mod 4 = 0 \<or> j mod 4 = 1 \<or> j mod 4 = 2 \<or> j mod 4 = 3" by linarith
  ultimately show ?thesis
    using True assms
    by (auto simp: store_unit_def nth_list_update bit_ucast_iff bit_drop_bit_eq add.commute)
next
  case False
  then have "j \<noteq> 4 * i" "j \<noteq> 4 * i + 1" "j \<noteq> 4 * i + 2" "j \<noteq> 4 * i + 3" by auto
  with False show ?thesis by (simp add: store_unit_def)
qed

text \<open>
  A loop with a bitwise body does the same at every position it covers, whether it walks
  units or bytes.
\<close>

lemma unit_loop_correct:
  assumes f: "\<And>a b n. n < 32 \<Longrightarrow> bit (f a b) n \<longleftrightarrow> g (bit a n) (bit b n)"
    and len: "4 * n \<le> length p"
  shows "length (unit_loop f n q p) = length p"
    and "\<And>j k. j < length p \<Longrightarrow> k < 8 \<Longrightarrow> bit (unit_loop f n q p ! j) k \<longleftrightarrow>
      (if j < 4 * n then g (bit (p ! j) k) (bit (q ! j) k) else bit (p ! j) k)"
proof -
  have "length (unit_loop f n q p) = length p \<and>
     (\<forall>j<length p. \<forall>k<8. bit (unit_loop f n q p ! j) k \<longleftrightarrow>
        (if j < 4 * n then g (bit (p ! j) k) (bit (q ! j) k) else bit (p ! j) k))"
    using len
  proof (induction n)
    case 0
    then show ?case by (simp add: unit_loop_def)
  next
    case (Suc n)
    let ?r = "unit_loop f n q p"
    have IH: "length ?r = length p" "\<And>j k. j < length p \<Longrightarrow> k < 8 \<Longrightarrow> bit (?r ! j) k \<longleftrightarrow>
        (if j < 4 * n then g (bit (p ! j) k) (bit (q ! j) k) else bit (p ! j) k)"
      using Suc by auto
    have step: "unit_loop f (Suc n) q p = store_unit ?r n (f (load_unit ?r n) (load_unit q n))"
      by (simp add: unit_loop_def)
    have "bit (unit_loop f (Suc n) q p ! j) k \<longleftrightarrow>
        (if j < 4 * Suc n then g (bit (p ! j) k) (bit (q ! j) k) else bit (p ! j) k)"
      if j: "j < length p" and k: "k < 8" for j k
    proof (cases "j div 4 = n")
      case True
      then have n: "4 * n + j mod 4 = j" by auto
      have lt: "8 * (j mod 4) + k < 32" using k by auto
      have dm: "(8 * (j mod 4) + k) div 8 = j mod 4" "(8 * (j mod 4) + k) mod 8 = k" using k by auto
      have "j < 4 * Suc n" "\<not> j < 4 * n" using True by auto
      with True j k Suc.prems show ?thesis
        by (simp add: step store_unit_nth IH f [OF lt] bit_load_unit [OF lt] dm n)
    next
      case False
      then have "j < 4 * Suc n \<longleftrightarrow> j < 4 * n" by auto
      with False j k Suc.prems show ?thesis by (simp add: step store_unit_nth IH)
    qed
    with IH(1) show ?case by (simp add: step)
  qed
  then show "length (unit_loop f n q p) = length p"
    and "\<And>j k. j < length p \<Longrightarrow> k < 8 \<Longrightarrow> bit (unit_loop f n q p ! j) k \<longleftrightarrow>
      (if j < 4 * n then g (bit (p ! j) k) (bit (q ! j) k) else bit (p ! j) k)" by auto
qed

lemma byte_loop_correct:
  assumes "n \<le> length p"
  shows "length (byte_loop f i n q p) = length p"
    and "\<And>j. j < length p \<Longrightarrow> byte_loop f i n q p ! j =
      (if i \<le> j \<and> j < n then f (p ! j) (q ! j) else p ! j)"
proof -
  have "length (byte_loop f i n q p) = length p \<and>
     (\<forall>j<length p. byte_loop f i n q p ! j =
        (if i \<le> j \<and> j < n then f (p ! j) (q ! j) else p ! j))"
    using assms
  proof (induction n)
    case 0
    then show ?case by (simp add: byte_loop_def)
  next
    case (Suc n)
    then show ?case
      by (cases "i \<le> n") (auto simp: byte_loop_def nth_list_update less_Suc_eq)
  qed
  then show "length (byte_loop f i n q p) = length p"
    and "\<And>j. j < length p \<Longrightarrow> byte_loop f i n q p ! j =
      (if i \<le> j \<and> j < n then f (p ! j) (q ! j) else p ! j)" by auto
qed

lemma unit_zero: "load_unit p i = 0 \<longleftrightarrow> (\<forall>j<4. p ! (4 * i + j) = 0)"
proof
  assume z: "load_unit p i = 0"
  show "\<forall>j<4. p ! (4 * i + j) = 0"
  proof (intro allI impI)
    fix j :: nat assume j: "j < 4"
    have "\<not> bit (p ! (4 * i + j)) k" if k: "k < 8" for k
    proof -
      have lt: "8 * j + k < 32" using j k by linarith
      have "\<not> bit (load_unit p i) (8 * j + k)" using z by simp
      with k show ?thesis by (simp add: bit_load_unit [OF lt])
    qed
    then show "p ! (4 * i + j) = 0" using byte_nonzero by blast
  qed
next
  assume z: "\<forall>j<4. p ! (4 * i + j) = 0"
  show "load_unit p i = 0"
  proof (rule bit_eqI)
    fix n assume "possible_bit TYPE(32 word) n"
    then have n: "n < 32" by simp
    then have "n div 8 < 4" by linarith
    with z show "bit (load_unit p i) n \<longleftrightarrow> bit (0 :: 32 word) n"
      by (simp add: bit_load_unit [OF n])
  qed
qed

end
