(* ===== verification/BitSetProps.thy ===== *)
theory BitSetProps
  imports BitSet
begin

section \<open>The iterators compute the first, last and next position\<close>

lemma buf_simps [simp]:
  "buf \<lparr>m_size = n, m_ptr = None\<rparr> = []" "buf \<lparr>m_size = n, m_ptr = Some p\<rparr> = p"
  "buf (s\<lparr>m_ptr := Some p\<rparr>) = p" "buf (s\<lparr>m_size := n\<rparr>) = buf s"
  by (simp_all add: buf_def)

lemma buf_None: "m_ptr s = None \<Longrightarrow> buf s = []"
  by (simp add: buf_def)

lemma buf_Some: "m_ptr s = Some p \<Longrightarrow> buf s = p"
  by (simp add: buf_def)

lemma bitset_wfD:
  assumes "bitset_wf s"
  shows "m_size s = length (buf s)" and "length (buf s) < 536870912"
    and "m_ptr s = None \<longleftrightarrow> buf s = []"
  using assms by (auto simp: bitset_wf_def)

lemma bitset_set_less: "bitset_wf s \<Longrightarrow> e \<in> bitset_set s \<Longrightarrow> e < 8 * m_size s"
  by (auto simp: bitset_set_def bitset_wf_def dest: bset_less)

lemma bitset_set_bound: "bitset_wf s \<Longrightarrow> e \<in> bitset_set s \<Longrightarrow> e < 4294967288"
  using bitset_set_less [of s e] by (auto simp: bitset_wf_def)

lemma finite_bitset_set [simp, intro]: "finite (bitset_set s)"
  by (simp add: bitset_set_def)

lemma first_in_unit_correct:
  assumes sz: "length p < 536870912" and m: "m \<le> length p"
  shows "case first_in_unit p i m of
      None \<Rightarrow> \<forall>j. i \<le> j \<longrightarrow> j < m \<longrightarrow> p ! j = 0
    | Some r \<Rightarrow> r = first_of {e \<in> bset p. 8 * i \<le> e}"
  using sz m
proof (induction p i m rule: first_in_unit.induct)
  case (1 p i m)
  note unf = first_in_unit.simps [of p i m]
  consider "m \<le> i" | "i < m" "p ! i = 0" | "i < m" "p ! i \<noteq> 0" by linarith
  then show ?case
  proof cases
    case 1
    then show ?thesis by (simp add: unf)
  next
    case 2
    have "{e \<in> bset p. 8 * i \<le> e} = {e \<in> bset p. 8 * Suc i \<le> e}"
      using 2 "1.prems" by (intro zero_byte_bset) auto
    moreover have "p ! j = 0" if "i \<le> j" "\<forall>j. Suc i \<le> j \<longrightarrow> j < m \<longrightarrow> p ! j = 0" "j < m" for j
      using that 2 by (cases "j = i") auto
    ultimately show ?thesis using "1.IH" 2 "1.prems"
      by (auto simp: unf split: option.splits)
  next
    case 3
    then show ?thesis using "1.prems" by (auto simp: unf intro!: first_idx_at)
  qed
qed

lemma first_unit_from_correct:
  assumes sz: "length p < 536870912" and m: "m \<le> length p" "4 dvd m" "4 dvd i"
  shows "case first_unit_from p i m of
      None \<Rightarrow> {e \<in> bset p. 8 * i \<le> e} = {e \<in> bset p. 8 * max i m \<le> e}
    | Some r \<Rightarrow> r = first_of {e \<in> bset p. 8 * i \<le> e}"
  using sz m
proof (induction p i m rule: first_unit_from.induct)
  case (1 p i m)
  note unf = first_unit_from.simps [of p i m]
  show ?case
  proof (cases "i < m")
    case False
    then show ?thesis by (simp add: unf max_def)
  next
    case True
    then have i4: "i + 4 \<le> m" and i: "4 * (i div 4) = i" using "1.prems" by (auto elim!: dvdE)
    show ?thesis
    proof (cases "load_unit p (i div 4) = 0")
      case z: True
      have "8 * (i + 4) \<le> e" if "e \<in> bset p" "8 * i \<le> e" for e
      proof (rule ccontr)
        assume "\<not> 8 * (i + 4) \<le> e"
        with that(2) have "i \<le> e div 8" "e div 8 - i < 4" by auto
        then have "p ! (e div 8) = 0" using z i by (auto simp: unit_zero)
        with that(1) show False by (simp add: bset_iff)
      qed
      then have "{e \<in> bset p. 8 * i \<le> e} = {e \<in> bset p. 8 * (i + 4) \<le> e}" by auto
      moreover have "max (i + 4) m = m" "max i m = m" using i4 by auto
      ultimately show ?thesis using z True "1.IH" "1.prems"
        by (auto simp: unf split: option.splits)
    next
      case nz: False
      then obtain j where j: "j < 4" "p ! (i + j) \<noteq> 0" using i by (auto simp: unit_zero)
      have "i \<le> i + j" "i + j < m" using j i4 by auto
      with j(2) have "\<not> (\<forall>j. i \<le> j \<longrightarrow> j < m \<longrightarrow> p ! j = 0)" by blast
      with first_in_unit_correct [OF "1.prems"(1,2), of i]
      have "first_in_unit p i m \<noteq> None" by (auto split: option.splits)
      with first_in_unit_correct [OF "1.prems"(1,2), of i] nz True show ?thesis
        by (auto simp: unf split: option.splits)
    qed
  qed
qed

lemma bset_drop: "e \<in> bset (drop m p) \<longleftrightarrow> e + 8 * m \<in> bset p"
  by (auto simp: bset_iff less_diff_conv add.commute)

lemma first_of_drop:
  assumes sz: "length p < 536870912"
  shows "(let x = first_of (bset (drop m p)) in if x = BS_UNDEF then BS_UNDEF else u32 (x + 8 * m))
    = first_of {e \<in> bset p. 8 * m \<le> e}"
proof (cases "bset (drop m p) = {}")
  case True
  then have "\<not> (e \<in> bset p \<and> 8 * m \<le> e)" for e
    using bset_drop [of "e - 8 * m" m p] by auto
  with True show ?thesis by simp
next
  case False
  let ?x = "first_of (bset (drop m p))"
  have x: "?x \<in> bset (drop m p)" using False by (rule first_of_in)
  then have lt: "?x + 8 * m < 8 * length p" by (auto simp: bset_drop dest: bset_less)
  then have "?x + 8 * m < 4294967288" using sz by linarith
  then have "?x \<noteq> BS_UNDEF" "u32 (?x + 8 * m) = ?x + 8 * m" by (auto simp: BS_UNDEF_def)
  moreover have "first_of {e \<in> bset p. 8 * m \<le> e} = ?x + 8 * m"
  proof (rule first_ofI)
    show "?x + 8 * m \<in> {e \<in> bset p. 8 * m \<le> e}" using x by (simp add: bset_drop)
    fix y assume "y \<in> {e \<in> bset p. 8 * m \<le> e}"
    then have "y - 8 * m \<in> bset (drop m p)" "8 * m \<le> y" by (auto simp: bset_drop)
    then show "?x + 8 * m \<le> y" using first_of_le by fastforce
  qed
  ultimately show ?thesis by simp
qed

lemma bitset_get_first_correct [set_abs]:
  assumes wf: "bitset_wf s"
  shows "bitset_get_first s = first_of (bitset_set s)"
proof (cases "m_size s = 0")
  case True
  with wf show ?thesis
    by (simp add: bitset_get_first_def bitset_set_def bitset_wf_def)
next
  case False
  note w = bitset_wfD [OF wf]
  define m where "m = m_size s div 4 * 4"
  have m: "m \<le> length (buf s)" "4 dvd m" by (auto simp: m_def w(1))
  have tail: "get_first_idx (drop m (buf s)) (m_size s - m) = first_of (bset (drop m (buf s)))"
    using get_first_idx_correct [of "drop m (buf s)"] w by simp
  have mul: "mulbpb m = 8 * m" using m w by (simp add: mulbpb_id)
  have all: "{e \<in> bset (buf s). 8 * 0 \<le> e} = bset (buf s)" by simp
  show ?thesis
  proof (cases "first_unit_from (buf s) 0 m")
    case None
    then have "bset (buf s) = {e \<in> bset (buf s). 8 * m \<le> e}"
      using first_unit_from_correct [OF w(2) m, of 0] by simp
    with None first_of_drop [OF w(2), of m] False show ?thesis
      by (simp add: bitset_get_first_def bitset_set_def m_def [symmetric] tail mul Let_def
          split: if_split_asm)
  next
    case (Some r)
    with first_unit_from_correct [OF w(2) m, of 0] False show ?thesis
      by (simp add: bitset_get_first_def bitset_set_def m_def [symmetric])
  qed
qed

lemma bitset_get_next_correct [set_abs]:
  assumes wf: "bitset_wf s"
  shows "bitset_get_next s e = next_of (bitset_set s) e"
proof (cases "m_size s = 0")
  case True
  with wf show ?thesis
    by (simp add: bitset_get_next_def bitset_set_def bitset_wf_def next_of_def)
next
  case False
  with wf get_next_idx_correct [of "buf s" e] show ?thesis
    by (simp add: bitset_get_next_def bitset_set_def bitset_wf_def)
qed

lemma bitset_get_elem_count_correct [set_abs]:
  "bitset_wf s \<Longrightarrow> bitset_get_elem_count s = card (bitset_set s)"
  using get_elem_count_correct [of "buf s"]
  by (auto simp: bitset_get_elem_count_def bitset_set_def bitset_wf_def)

lemma last_idx_at:
  assumes i: "i < length p" and sz: "length p < 536870912" and nz: "p ! i \<noteq> 0"
    and hi: "\<And>e. e \<in> bset p \<Longrightarrow> e < 8 * Suc i"
  shows "u32 (g_last_one ! unat (p ! i) + mulbpb i) = last_of (bset p)"
proof -
  let ?t = "g_last_one ! unat (p ! i)"
  have t: "?t < 8" "bit (p ! i) ?t" using last_one_bit [OF nz] by auto
  have "last_of (bset p) = 8 * i + ?t"
  proof (rule last_ofI)
    show "8 * i + ?t \<in> bset p" using t i by simp
    fix x assume x: "x \<in> bset p"
    show "x \<le> 8 * i + ?t"
    proof (cases "x div 8 = i")
      case True
      with x have "bit (p ! i) (x mod 8)" by (simp add: bset_iff)
      then have "x mod 8 \<le> ?t" by (rule last_one_bit(3) [OF nz])
      moreover have "x = 8 * i + x mod 8" using True by (metis mult_div_mod_eq)
      ultimately show ?thesis by linarith
    next
      case False
      with hi [OF x] have "x < 8 * i" by auto
      then show ?thesis by linarith
    qed
  qed
  moreover have "8 * i + ?t < 4294967296" using i sz t by linarith
  ultimately show ?thesis using i sz by (simp add: mulbpb_id add.commute)
qed

lemma zero_byte_top:
  assumes "p ! i = 0" and "\<And>e. e \<in> bset p \<Longrightarrow> e < 8 * Suc i" and "e \<in> bset p"
  shows "e < 8 * i"
proof (rule ccontr)
  assume "\<not> e < 8 * i"
  with assms(2) [OF assms(3)] have "e div 8 = i" by auto
  with assms(1,3) show False by (simp add: bset_iff)
qed

lemma last_in_tail_correct:
  assumes sz: "length p < 536870912" and "i < length p" and "j + n \<le> Suc i"
    and "\<And>e. e \<in> bset p \<Longrightarrow> e < 8 * (Suc i - j)"
  shows "case last_in_tail p i j n of
      None \<Rightarrow> \<forall>e\<in>bset p. e < 8 * (Suc i - (j + n))
    | Some r \<Rightarrow> r = last_of (bset p)"
  using assms(2-4)
proof (induction n arbitrary: j)
  case 0
  then show ?case by simp
next
  case (Suc n)
  have s: "Suc i - j = Suc (i - j)" using Suc.prems by simp
  show ?case
  proof (cases "p ! (i - j) = 0")
    case True
    have "e < 8 * (Suc i - Suc j)" if "e \<in> bset p" for e
      using zero_byte_top [OF True _ that] Suc.prems(3) s by simp
    with Suc.IH [of "Suc j"] Suc.prems True show ?thesis
      by (auto split: option.splits)
  next
    case False
    then show ?thesis using Suc.prems s sz by (auto intro!: last_idx_at)
  qed
qed

lemma last_in_unit_correct:
  assumes sz: "length p < 536870912" and "i < length p" and "k \<le> 4" and "i - j = 4 * u + 3" "j \<le> i"
    and "\<And>e. e \<in> bset p \<Longrightarrow> e < 8 * (4 * u + k)"
  shows "case last_in_unit p u i j k of
      None \<Rightarrow> \<forall>e\<in>bset p. e < 8 * (4 * u)
    | Some r \<Rightarrow> r = last_of (bset p)"
  using assms(3,6)
proof (induction k)
  case 0
  then show ?case by simp
next
  case (Suc k)
  have idx: "i - j - (3 - k) = 4 * u + k" using assms(4) Suc.prems by simp
  show ?case
  proof (cases "p ! (4 * u + k) = 0")
    case True
    have "e < 8 * (4 * u + k)" if "e \<in> bset p" for e
      using zero_byte_top [OF True _ that] Suc.prems by simp
    with Suc.IH Suc.prems True show ?thesis by (auto split: option.splits)
  next
    case False
    moreover have "4 * u + k < length p" using assms(2,4,5) Suc.prems by linarith
    ultimately show ?thesis using Suc.prems sz idx by (auto intro!: last_idx_at)
  qed
qed

lemma last_unit_from_correct:
  assumes "length p < 536870912" and "i < length p" and "i mod 4 = 3" and "4 dvd j"
    and "\<And>e. e \<in> bset p \<Longrightarrow> e < 8 * (Suc i - j)"
  shows "last_unit_from p i j = last_of (bset p)"
  using assms
proof (induction p i j rule: last_unit_from.induct)
  case (1 p i j)
  note unf = last_unit_from.simps [of p i j]
  show ?case
  proof (cases "j \<le> i")
    case False
    then have "bset p = {}" using "1.prems"(5) by fastforce
    with False show ?thesis by (simp add: unf)
  next
    case True
    define u where "u = i div 4 - j div 4"
    have "i = 4 * (i div 4) + 3" using "1.prems"(3) by (metis mult_div_mod_eq)
    moreover have "j = 4 * (j div 4)" using "1.prems"(4) by simp
    moreover have "j div 4 \<le> i div 4" using True by (rule div_le_mono)
    ultimately have ij: "i - j = 4 * u + 3" unfolding u_def by linarith
    then have top: "Suc i - j = 4 * u + 4" using True by linarith
    have next_bound: "Suc i - (j + 4) = 4 * u" using ij by linarith
    have low: "last_unit_from p i (j + 4) = last_of (bset p)"
      if "\<forall>e\<in>bset p. e < 8 * (4 * u)" "load_unit p u = 0 \<or> last_in_unit p u i j 4 = None"
      using that "1.IH" [OF True u_def] "1.prems" next_bound by fastforce
    show ?thesis
    proof (cases "load_unit p u = 0")
      case z: True
      have "\<forall>e\<in>bset p. e < 8 * (4 * u)"
      proof (rule ballI, rule ccontr)
        fix e assume e: "e \<in> bset p" "\<not> e < 8 * (4 * u)"
        with "1.prems"(5) [OF e(1)] top have "4 * u \<le> e div 8" "e div 8 - 4 * u < 4" by auto
        then have "p ! (e div 8) = 0" using z by (metis unit_zero le_add_diff_inverse)
        with e(1) show False by (simp add: bset_iff)
      qed
      with low z True show ?thesis by (simp add: unf u_def [symmetric])
    next
      case nz: False
      have "case last_in_unit p u i j 4 of None \<Rightarrow> \<forall>e\<in>bset p. e < 8 * (4 * u)
          | Some r \<Rightarrow> r = last_of (bset p)"
        using "1.prems" ij True top by (intro last_in_unit_correct) auto
      with low nz True show ?thesis
        by (auto simp: unf u_def [symmetric] split: option.splits)
    qed
  qed
qed

lemma unit_floor_mod:
  assumes "4 \<le> (n::nat)"
  shows "(n - 1 - n mod 4) mod 4 = 3"
proof -
  obtain q r where "n = 4 * Suc q + r" "r = n mod 4"
    using assms by (metis div_le_mono div_self mult_div_mod_eq not_less_eq_eq old.nat.exhaust
        zero_neq_numeral numeral_One One_nat_def le_zero_eq)
  then have "n - 1 - n mod 4 = 4 * q + 3" by simp
  then show ?thesis by simp
qed

lemma bitset_get_last_correct [set_abs]:
  assumes wf: "bitset_wf s"
  shows "bitset_get_last s = last_of (bitset_set s)"
proof -
  note w = bitset_wfD [OF wf]
  let ?p = "buf s" and ?m = "m_size s mod 4" and ?i = "m_size s - 1"
  consider "m_size s = 0" | "m_size s > 0" "?m = 0" | "m_size s > 0" "?m \<noteq> 0" by linarith
  then show ?thesis
  proof cases
    case 1
    with w show ?thesis by (simp add: bitset_get_last_def bitset_set_def)
  next
    case 2
    have "last_unit_from ?p ?i 0 = last_of (bset ?p)"
    proof (rule last_unit_from_correct)
      have "4 \<le> m_size s" using 2 by (cases "m_size s < 4") auto
      then show "?i mod 4 = 3" using unit_floor_mod 2(2) by fastforce
      show "e < 8 * (Suc ?i - 0)" if "e \<in> bset ?p" for e using bset_less [OF that] w(1) 2(1) by simp
      show "?i < length ?p" using w(1) 2(1) by simp
    qed (use w(2) in simp_all)
    with 2 show ?thesis by (simp add: bitset_get_last_def bitset_set_def)
  next
    case 3
    have tail: "case last_in_tail ?p ?i 0 ?m of
        None \<Rightarrow> \<forall>e\<in>bset ?p. e < 8 * (Suc ?i - (0 + ?m)) | Some r \<Rightarrow> r = last_of (bset ?p)"
      using w 3 by (intro last_in_tail_correct) (auto dest: bset_less)
    show ?thesis
    proof (cases "last_in_tail ?p ?i 0 ?m")
      case (Some r)
      with tail 3 show ?thesis by (simp add: bitset_get_last_def bitset_set_def)
    next
      case None
      show ?thesis
      proof (cases "m_size s \<le> 4")
        case True
        then have "m_size s < 4" using 3 by (cases "m_size s = 4") auto
        with tail None 3 have "bset ?p = {}" by auto
        with None True 3 show ?thesis by (simp add: bitset_get_last_def bitset_set_def)
      next
        case False
        have "last_unit_from ?p (?i - ?m) 0 = last_of (bset ?p)"
        proof (rule last_unit_from_correct)
          show "(?i - ?m) mod 4 = 3" using False by (intro unit_floor_mod) simp
          show "e < 8 * (Suc (?i - ?m) - 0)" if "e \<in> bset ?p" for e
            using tail None that 3 False by (auto simp: Suc_diff_le)
        qed (use w 3 in auto)
        with None False 3 show ?thesis by (simp add: bitset_get_last_def bitset_set_def)
      qed
    qed
  qed
qed

section \<open>Set operations\<close>

text \<open>The unit loop followed by the byte loop is one bitwise loop over the first \<open>n\<close> bytes.\<close>

lemma mixed_loop_correct:
  assumes f: "\<And>a b n. n < 32 \<Longrightarrow> bit (f a b) n \<longleftrightarrow> g (bit a n) (bit b n)"
    and f': "\<And>a b n. n < 8 \<Longrightarrow> bit (f' a b) n \<longleftrightarrow> g (bit a n) (bit b n)"
    and n: "n \<le> length p" "m = n div 4"
  shows "length (byte_loop f' (m * 4) n q (unit_loop f m q p)) = length p"
    and "bset (byte_loop f' (m * 4) n q (unit_loop f m q p)) =
      {e. e div 8 < length p \<and>
        (if e div 8 < n then g (bit (p ! (e div 8)) (e mod 8)) (bit (q ! (e div 8)) (e mod 8))
         else bit (p ! (e div 8)) (e mod 8))}"
proof -
  have m: "4 * m \<le> length p" "4 * m \<le> n" using n by auto
  note u = unit_loop_correct [where f = f and g = g and q = q, OF f m(1)]
  have len: "n \<le> length (unit_loop f m q p)" using n u by simp
  note b = byte_loop_correct [OF len, where f = f' and i = "m * 4" and q = q]
  show l: "length (byte_loop f' (m * 4) n q (unit_loop f m q p)) = length p"
    using b(1) u(1) by simp
  show "bset (byte_loop f' (m * 4) n q (unit_loop f m q p)) =
      {e. e div 8 < length p \<and>
        (if e div 8 < n then g (bit (p ! (e div 8)) (e mod 8)) (bit (q ! (e div 8)) (e mod 8))
         else bit (p ! (e div 8)) (e mod 8))}"
    unfolding bset_def l using b(2) u m by (auto simp: f' mult.commute split: if_splits)
qed

lemma bset_append_zeros [simp]: "bset (p @ replicate n 0) = bset p"
  by (auto simp: bset_iff nth_append split: if_split_asm)

lemma bset_take: "bset (take n p) = {e \<in> bset p. e div 8 < n}"
  by (auto simp: bset_iff)

lemma bset_take_all:
  "(\<And>e. e \<in> bset p \<Longrightarrow> e div 8 < n) \<Longrightarrow> bset (take n p) = bset p"
  by (auto simp: bset_take)

lemma bset_zeros [simp]: "bset (replicate n 0) = {}"
  by (auto simp: bset_iff)

lemma realloc_grow:
  assumes "bitset_wf s" and "m_size s < n"
  shows "\<exists>p. bitset_realloc (m_ptr s) (m_size s) n = Some p \<and> length p = n \<and> bset p = bset (buf s)"
  using assms by (cases "m_ptr s") (auto simp: bitset_realloc_def bitset_wf_def buf_def)

lemma last_byte_cover:
  assumes "bitset_wf s" and "e \<in> bitset_set s"
  shows "e div 8 < bitset_get_last s div 8 + 1" and "bitset_get_last s div 8 + 1 \<le> m_size s"
proof -
  have "e \<le> bitset_get_last s" using assms by (simp add: set_abs last_of_ge)
  then show "e div 8 < bitset_get_last s div 8 + 1" using div_le_mono less_Suc_eq_le by fastforce
  have "bitset_get_last s \<in> bitset_set s"
    using assms last_of_in [of "bitset_set s"] by (auto simp: set_abs)
  then show "bitset_get_last s div 8 + 1 \<le> m_size s"
    using bitset_set_less [OF assms(1), of "bitset_get_last s"] by auto
qed

lemma get_last_BS_UNDEF: "bitset_wf s \<Longrightarrow> bitset_get_last s = BS_UNDEF \<longleftrightarrow> bitset_set s = {}"
  using bitset_set_bound [of s] last_of_in [of "bitset_set s"]
  by (fastforce simp: set_abs BS_UNDEF_def)

lemma get_first_BS_UNDEF: "bitset_wf s \<Longrightarrow> bitset_get_first s = BS_UNDEF \<longleftrightarrow> bitset_set s = {}"
  using bitset_set_bound [of s] first_of_in [of "bitset_set s"]
  by (fastforce simp: set_abs BS_UNDEF_def)

lemma bitset_init_correct [set_abs, simp]: "bitset_set (bitset_init n) = {}"
  by (simp add: bitset_init_def bitset_set_def)

lemma bitset_init_wf [wf_intro]: "n < 536870912 \<Longrightarrow> bitset_wf (bitset_init n)"
  by (auto simp: bitset_init_def bitset_wf_def)

lemma bitset_clean_correct [set_abs, simp]: "bitset_wf s \<Longrightarrow> bitset_set (bitset_clean s) = {}"
  by (auto simp: bitset_clean_def bitset_set_def bitset_wf_def split: option.splits)

lemma bitset_clean_wf [wf_intro]: "bitset_wf s \<Longrightarrow> bitset_wf (bitset_clean s)"
  by (auto simp: bitset_clean_def bitset_wf_def split: option.splits)

lemma bitset_alloc_correct [set_abs]: "bitset_set (bitset_alloc s n) = {}"
  by (simp add: bitset_alloc_def bitset_set_def)

lemma bitset_alloc_wf [wf_intro]: "n < 536870912 \<Longrightarrow> bitset_wf (bitset_alloc s n)"
  by (auto simp: bitset_alloc_def bitset_wf_def)

lemma bitset_bunion_correct:
  assumes s: "bitset_wf s" and b: "bitset_wf bs"
  shows "bitset_set (bitset_bunion s bs) = bitset_set s \<union> bitset_set bs"
    and "bitset_wf (bitset_bunion s bs)"
proof -
  note ws = bitset_wfD [OF s] and wb = bitset_wfD [OF b]
  let ?l = "bitset_get_last bs"
  have "bitset_set (bitset_bunion s bs) = bitset_set s \<union> bitset_set bs \<and>
    bitset_wf (bitset_bunion s bs)"
  proof (cases "m_ptr bs = None \<or> m_size s < m_size bs \<and> ?l = BS_UNDEF")
    case True
    then have "bitset_set bs = {}" using get_last_BS_UNDEF [OF b] wb
      by (auto simp: bitset_set_def)
    with True s show ?thesis by (auto simp: bitset_bunion_def)
  next
    case False
    define n where "n = (if m_size s < m_size bs then ?l div 8 + 1 else m_size bs)"
    define s1 where "s1 = (if m_size s < n
      then \<lparr>m_size = n, m_ptr = bitset_realloc (m_ptr s) (m_size s) n\<rparr> else s)"
    have ne: "m_size s < m_size bs \<Longrightarrow> bitset_set bs \<noteq> {}" using False get_last_BS_UNDEF [OF b] by auto
    have cover: "e div 8 < n" if "e \<in> bitset_set bs" for e
      using last_byte_cover(1) [OF b that] bset_less [of e "buf bs"] that wb
      by (auto simp: n_def bitset_set_def)
    have n: "n \<le> m_size bs" using ne last_byte_cover(2) [OF b] by (auto simp: n_def)
    have s1: "length (buf s1) = m_size s1" "n \<le> m_size s1" "bset (buf s1) = bset (buf s)"
        "m_size s1 < 536870912"
    proof -
      have "length (buf s1) = m_size s1 \<and> n \<le> m_size s1 \<and> bset (buf s1) = bset (buf s) \<and>
        m_size s1 < 536870912"
      proof (cases "m_size s < n")
        case True
        obtain p where p: "bitset_realloc (m_ptr s) (m_size s) n = Some p" "length p = n"
          "bset p = bset (buf s)" using realloc_grow [OF s True] by blast
        then have "s1 = \<lparr>m_size = n, m_ptr = Some p\<rparr>" using True by (simp add: s1_def)
        moreover have "n < 536870912" using n wb(1,2) by linarith
        ultimately show ?thesis using p by simp
      next
        case False
        with ws(1,2) show ?thesis by (simp add: s1_def)
      qed
      then show "length (buf s1) = m_size s1" "n \<le> m_size s1" "bset (buf s1) = bset (buf s)"
        "m_size s1 < 536870912" by auto
    qed
    let ?r = "byte_loop (\<lambda>a b. a OR b) (n div 4 * 4) n (buf bs) (unit_loop (\<lambda>a b. a OR b) (n div 4) (buf bs) (buf s1))"
    have nl: "n \<le> length (buf s1)" using s1 by simp
    have "bitset_bunion s bs = s1\<lparr>m_ptr := Some ?r\<rparr>"
      using False by (auto simp: bitset_bunion_def n_def s1_def Let_def)
    moreover have "length ?r = m_size s1"
      using mixed_loop_correct(1) [of "\<lambda>a b. a OR b" "(\<or>)" "\<lambda>a b. a OR b", OF _ _ nl refl] s1
      by (simp add: bit_or_iff)
    moreover have "bset ?r = bset (buf s1) \<union> bset (buf bs)"
    proof (rule set_eqI)
      fix e
      have "e \<in> bset (buf bs) \<Longrightarrow> e div 8 < n" using cover by (simp add: bitset_set_def)
      moreover have "e div 8 < n \<Longrightarrow> e div 8 < length (buf s1) \<and> e div 8 < length (buf bs)"
        using nl n wb(1) by auto
      ultimately show "e \<in> bset ?r \<longleftrightarrow> e \<in> bset (buf s1) \<union> bset (buf bs)"
        using mixed_loop_correct(2) [of "\<lambda>a b. a OR b" "(\<or>)" "\<lambda>a b. a OR b", OF _ _ nl refl]
        by (auto simp: bit_or_iff bset_iff)
    qed
    moreover have "m_size s1 \<noteq> 0" using False wb ws n by (auto simp: s1_def n_def bitset_wf_def)
    ultimately show ?thesis using s1 by (simp add: bitset_set_def bitset_wf_def)
  qed
  then show "bitset_set (bitset_bunion s bs) = bitset_set s \<union> bitset_set bs"
    and "bitset_wf (bitset_bunion s bs)" by auto
qed

lemma bset_update:
  "j < length p \<Longrightarrow> e \<in> bset (p[j := w]) \<longleftrightarrow>
     (if e div 8 = j then bit w (e mod 8) else e \<in> bset p)"
  by (auto simp: bset_iff nth_list_update)

lemma same_pos: "a div 8 = b div 8 \<Longrightarrow> a mod 8 = b mod 8 \<longleftrightarrow> a = (b :: nat)"
  by (metis mult_div_mod_eq)

lemma bit_push_one: "k < 8 \<Longrightarrow> bit (2 ^ k :: byte) n \<longleftrightarrow> n = k"
  by (auto simp: bit_exp_iff)

lemma bitset_bunion_elem_correct:
  assumes s: "bitset_wf s" and e: "e < 4294967288"
  shows "bitset_set (bitset_bunion_elem s e) = insert e (bitset_set s)"
    and "bitset_wf (bitset_bunion_elem s e)"
proof -
  note ws = bitset_wfD [OF s]
  define b where "b = e div 8"
  define s1 where "s1 = (if m_size s < b + 1
    then \<lparr>m_size = b + 1, m_ptr = bitset_realloc (m_ptr s) (m_size s) (b + 1)\<rparr> else s)"
  have b: "b + 1 < 536870912" using e by (simp add: b_def)
  have s1: "length (buf s1) = m_size s1" "b < m_size s1" "bset (buf s1) = bset (buf s)"
    "m_size s1 < 536870912"
  proof -
    have "length (buf s1) = m_size s1 \<and> b < m_size s1 \<and> bset (buf s1) = bset (buf s) \<and>
      m_size s1 < 536870912"
    proof (cases "m_size s < b + 1")
      case True
      obtain p where p: "bitset_realloc (m_ptr s) (m_size s) (b + 1) = Some p"
        "length p = b + 1" "bset p = bset (buf s)" using realloc_grow [OF s True] by blast
      then have "s1 = \<lparr>m_size = b + 1, m_ptr = Some p\<rparr>" using True by (simp add: s1_def)
      then show ?thesis using p b by simp
    next
      case False
      with ws show ?thesis by (auto simp: s1_def)
    qed
    then show "length (buf s1) = m_size s1" "b < m_size s1" "bset (buf s1) = bset (buf s)"
      "m_size s1 < 536870912" by auto
  qed
  let ?r = "(buf s1)[b := buf s1 ! b OR push_bit (e mod 8) 1]"
  have eq: "bitset_bunion_elem s e = s1\<lparr>m_ptr := Some ?r\<rparr>"
    by (simp add: bitset_bunion_elem_def b_def s1_def divbpb_div modbpb_mod Let_def)
  have "x \<in> bset ?r \<longleftrightarrow> x \<in> insert e (bset (buf s))" for x
  proof -
    have "x \<in> bset ?r \<longleftrightarrow> (if x div 8 = b then x \<in> bset (buf s1) \<or> x mod 8 = e mod 8 else x \<in> bset (buf s1))"
      using s1 by (auto simp: bset_update bit_or_iff bit_push_one bset_iff)
    then show ?thesis using same_pos [of x e] by (auto simp: s1(3) b_def)
  qed
  then show "bitset_set (bitset_bunion_elem s e) = insert e (bitset_set s)"
    by (auto simp: eq bitset_set_def)
  show "bitset_wf (bitset_bunion_elem s e)"
    using s1 by (auto simp: eq bitset_wf_def)
qed

lemma bitset_diff_elem_correct:
  assumes s: "bitset_wf s"
  shows "bitset_set (bitset_diff_elem s e) = bitset_set s - {e}"
    and "bitset_wf (bitset_diff_elem s e)"
proof -
  note ws = bitset_wfD [OF s]
  let ?b = "e div 8"
  have "bitset_set (bitset_diff_elem s e) = bitset_set s - {e} \<and> bitset_wf (bitset_diff_elem s e)"
  proof (cases "m_size s < ?b + 1")
    case True
    then have "e \<notin> bitset_set s" using ws by (auto simp: bitset_set_def bset_iff)
    with True s show ?thesis by (simp add: bitset_diff_elem_def divbpb_div)
  next
    case False
    let ?r = "(buf s)[?b := buf s ! ?b AND NOT (push_bit (e mod 8) 1)]"
    have eq: "bitset_diff_elem s e = s\<lparr>m_ptr := Some ?r\<rparr>"
      using False by (simp add: bitset_diff_elem_def divbpb_div modbpb_mod Let_def)
    have "x \<in> bset ?r \<longleftrightarrow> x \<in> bset (buf s) - {e}" for x
    proof -
      have "x \<in> bset ?r \<longleftrightarrow> (if x div 8 = ?b then x \<in> bset (buf s) \<and> x mod 8 \<noteq> e mod 8 else x \<in> bset (buf s))"
        using False ws by (auto simp: bset_update bit_and_iff bit_not_iff bit_push_one bset_iff)
      then show ?thesis using same_pos [of x e] by auto
    qed
    moreover have "m_size s \<noteq> 0" using False by simp
    ultimately show ?thesis using s by (auto simp: eq bitset_set_def bitset_wf_def)
  qed
  then show "bitset_set (bitset_diff_elem s e) = bitset_set s - {e}"
    and "bitset_wf (bitset_diff_elem s e)" by auto
qed

lemma bit_diff_unit:
  fixes a d :: "'a::len word"
  shows "bit (if d \<noteq> 0 then a AND NOT d else a) n \<longleftrightarrow> bit a n \<and> \<not> bit d n"
  by (auto simp: bit_and_iff bit_not_iff bit_imp_le_length)

lemma bitset_diff_correct:
  assumes s: "bitset_wf s" and b: "bitset_wf bs"
  shows "bitset_set (bitset_diff s bs) = bitset_set s - bitset_set bs"
    and "bitset_wf (bitset_diff s bs)"
proof -
  note ws = bitset_wfD [OF s] and wb = bitset_wfD [OF b]
  have "bitset_set (bitset_diff s bs) = bitset_set s - bitset_set bs \<and>
    bitset_wf (bitset_diff s bs)"
  proof (cases "m_size s = 0 \<or> m_size bs = 0")
    case True
    with s ws wb show ?thesis by (auto simp: bitset_diff_def bitset_set_def)
  next
    case False
    let ?n = "min (m_size s) (m_size bs)"
    let ?f = "\<lambda>a d. if d \<noteq> 0 then a AND NOT d else a"
    let ?f' = "\<lambda>a d. if d \<noteq> 0 then a AND NOT d else a"
    let ?r = "byte_loop ?f' (?n div 4 * 4) ?n (buf bs) (unit_loop ?f (?n div 4) (buf bs) (buf s))"
    have eq: "bitset_diff s bs = s\<lparr>m_ptr := Some ?r\<rparr>"
      using False by (simp add: bitset_diff_def Let_def)
    have nl: "?n \<le> length (buf s)" using ws by simp
    note mix = mixed_loop_correct [of ?f "\<lambda>x y. x \<and> \<not> y" ?f', OF bit_diff_unit bit_diff_unit nl refl]
    have "bset ?r = bset (buf s) - bset (buf bs)"
      unfolding mix(2) using ws wb by (auto simp: bset_iff)
    with mix(1) s False show ?thesis by (auto simp: eq bitset_set_def bitset_wf_def)
  qed
  then show "bitset_set (bitset_diff s bs) = bitset_set s - bitset_set bs"
    and "bitset_wf (bitset_diff s bs)" by auto
qed

lemma bitset_intersect_correct:
  assumes s: "bitset_wf s" and b: "bitset_wf bs"
  shows "bitset_set (bitset_intersect s bs) = bitset_set s \<inter> bitset_set bs"
    and "bitset_wf (bitset_intersect s bs)"
proof -
  note ws = bitset_wfD [OF s] and wb = bitset_wfD [OF b]
  have "bitset_set (bitset_intersect s bs) = bitset_set s \<inter> bitset_set bs \<and>
    bitset_wf (bitset_intersect s bs)"
  proof (cases "m_ptr s")
    case None
    with s show ?thesis by (simp add: bitset_intersect_def bitset_set_def buf_None)
  next
    case (Some p)
    then have p: "buf s = p" "length p = m_size s" "m_size s \<noteq> 0"
      using ws buf_Some [OF Some] by auto
    let ?n = "min (m_size s) (m_size bs)"
    let ?l = "byte_loop (\<lambda>a b. a AND b) 0 ?n (buf bs) p"
    have nl: "?n \<le> length p" using p by simp
    note loop = byte_loop_correct [OF nl, where f = "\<lambda>a b. a AND b" and i = 0 and q = "buf bs"]
    let ?r = "take ?n ?l @ replicate (m_size s - ?n) 0"
    have eq: "bitset_intersect s bs = s\<lparr>m_ptr := Some ?r\<rparr>"
      using Some p loop(1) by (auto simp: bitset_intersect_def min_def)
    have "bset ?r = bset p \<inter> bset (buf bs)"
      using loop p wb by (auto simp: bset_take bset_iff bit_and_iff)
    moreover have "length ?r = m_size s" using loop p by simp
    ultimately show ?thesis using s p by (simp add: eq bitset_set_def bitset_wf_def)
  qed
  then show "bitset_set (bitset_intersect s bs) = bitset_set s \<inter> bitset_set bs"
    and "bitset_wf (bitset_intersect s bs)" by auto
qed

lemma bitset_copy_correct:
  assumes s: "bitset_wf s" and b: "bitset_wf src"
  shows "bitset_set (bitset_copy s src) = bitset_set src"
    and "bitset_wf (bitset_copy s src)"
proof -
  note ws = bitset_wfD [OF s] and wb = bitset_wfD [OF b]
  let ?l = "bitset_get_last src"
  define z where "z = s\<lparr>m_ptr := map_option (\<lambda>p. replicate (m_size s) 0) (m_ptr s)\<rparr>"
  have z: "bitset_set z = {}" "bitset_wf z"
    using s by (auto simp: z_def bitset_set_def bitset_wf_def buf_def split: option.splits)
  have "bitset_set (bitset_copy s src) = bitset_set src \<and> bitset_wf (bitset_copy s src)"
  proof -
    consider "m_size src = 0" | "m_size src \<noteq> 0" "m_size s < m_size src" "?l = BS_UNDEF"
      | "m_size src \<noteq> 0" "m_size s < m_size src" "?l \<noteq> BS_UNDEF" | "m_size src \<noteq> 0" "m_size src \<le> m_size s"
      by linarith
    then show ?thesis
    proof cases
      case 1
      then have "bitset_copy s src = z" by (simp add: bitset_copy_def z_def)
      with z 1 wb show ?thesis by (simp add: bitset_set_def)
    next
      case 2
      then have "bitset_copy s src = z" by (simp add: bitset_copy_def z_def)
      with z 2 get_last_BS_UNDEF [OF b] show ?thesis by simp
    next
      case 3
      then have ne: "bitset_set src \<noteq> {}" using get_last_BS_UNDEF [OF b] by simp
      let ?n = "?l div 8 + 1"
      have n: "?n \<le> length (buf src)" using ne last_byte_cover(2) [OF b] wb by auto
      have "bset (take ?n (buf src)) = bset (buf src)"
        using last_byte_cover(1) [OF b] by (intro bset_take_all) (auto simp: bitset_set_def)
      with 3 n wb s show ?thesis
        by (auto simp: bitset_copy_def bitset_set_def bitset_wf_def Let_def)
    next
      case 4
      with ws wb s show ?thesis
        by (auto simp: bitset_copy_def bitset_set_def bitset_wf_def Let_def)
    qed
  qed
  then show "bitset_set (bitset_copy s src) = bitset_set src"
    and "bitset_wf (bitset_copy s src)" by auto
qed

lemma bitset_complement_correct:
  assumes s: "bitset_wf s" and b: "bitset_wf univers"
  shows "bitset_set (bitset_complement s univers) = bitset_set univers - bitset_set s"
    and "bitset_wf (bitset_complement s univers)"
proof -
  let ?t = "bitset_copy (bitset_init 1) univers"
  have i: "bitset_wf (bitset_init 1)" by (rule bitset_init_wf) simp
  note t = bitset_copy_correct [OF i b]
  note d = bitset_diff_correct [OF t(2) s]
  show "bitset_set (bitset_complement s univers) = bitset_set univers - bitset_set s"
    and "bitset_wf (bitset_complement s univers)"
    using bitset_copy_correct [OF s d(2)] d t by (simp_all add: bitset_complement_def Let_def)
qed

end
