(* ===== verification/SetImpl.thy ===== *)
theory SetImpl
  imports Prelude
begin

text \<open>
  The interface through which the analyses use a bit set: insertion, removal, union,
  difference, intersection, copy and comparison, each with the manager (\<open>'p\<close>) it allocates from
  and returns to. \<open>\<alpha>\<close> is the set an object stands for, \<open>inv\<close> and \<open>pinv\<close> are the invariants of
  objects and managers and \<open>ok\<close> says which positions an object can hold. What follows in the
  locale is proved once for the dense, the sparse and the dual representation.
\<close>

locale set_impl =
  fixes \<alpha> :: "'a \<Rightarrow> nat set"
    and inv :: "'a \<Rightarrow> bool"
    and pinv :: "'p \<Rightarrow> bool"
    and ok :: "nat \<Rightarrow> bool"
    and new :: 'a
    and cln :: "'a \<Rightarrow> 'p \<Rightarrow> 'a \<times> 'p"
    and ins :: "'a \<Rightarrow> nat \<Rightarrow> 'p \<Rightarrow> 'a \<times> 'p"
    and del :: "'a \<Rightarrow> nat \<Rightarrow> 'p \<Rightarrow> 'a \<times> 'p"
    and uni :: "'a \<Rightarrow> 'a \<Rightarrow> 'p \<Rightarrow> 'a \<times> 'p"
    and dif :: "'a \<Rightarrow> 'a \<Rightarrow> 'p \<Rightarrow> 'a \<times> 'p"
    and int :: "'a \<Rightarrow> 'a \<Rightarrow> 'p \<Rightarrow> 'a \<times> 'p"
    and cpy :: "'a \<Rightarrow> 'a \<Rightarrow> 'p \<Rightarrow> 'a \<times> 'p"
    and eql :: "'a \<Rightarrow> 'a \<Rightarrow> bool"
    and emp :: "'a \<Rightarrow> bool"
  assumes new_law: "\<alpha> new = {} \<and> (inv s \<longrightarrow> inv new)"
    and cln_law: "inv s \<Longrightarrow> pinv p \<Longrightarrow>
      \<alpha> (fst (cln s p)) = {} \<and> inv (fst (cln s p)) \<and> pinv (snd (cln s p))"
    and emp_law: "inv s \<Longrightarrow> emp s \<longleftrightarrow> \<alpha> s = {}"
    and ins_law: "inv s \<Longrightarrow> pinv p \<Longrightarrow> ok e \<Longrightarrow>
      \<alpha> (fst (ins s e p)) = insert e (\<alpha> s) \<and> inv (fst (ins s e p)) \<and> pinv (snd (ins s e p))"
    and del_law: "inv s \<Longrightarrow> pinv p \<Longrightarrow>
      \<alpha> (fst (del s e p)) = \<alpha> s - {e} \<and> inv (fst (del s e p)) \<and> pinv (snd (del s e p))"
    and uni_law: "inv s \<Longrightarrow> inv t \<Longrightarrow> pinv p \<Longrightarrow>
      \<alpha> (fst (uni s t p)) = \<alpha> s \<union> \<alpha> t \<and> inv (fst (uni s t p)) \<and> pinv (snd (uni s t p))"
    and dif_law: "inv s \<Longrightarrow> inv t \<Longrightarrow> pinv p \<Longrightarrow>
      \<alpha> (fst (dif s t p)) = \<alpha> s - \<alpha> t \<and> inv (fst (dif s t p)) \<and> pinv (snd (dif s t p))"
    and int_law: "inv s \<Longrightarrow> inv t \<Longrightarrow> pinv p \<Longrightarrow>
      \<alpha> (fst (int s t p)) = \<alpha> s \<inter> \<alpha> t \<and> inv (fst (int s t p)) \<and> pinv (snd (int s t p))"
    and cpy_law: "inv s \<Longrightarrow> inv t \<Longrightarrow> pinv p \<Longrightarrow>
      \<alpha> (fst (cpy s t p)) = \<alpha> t \<and> inv (fst (cpy s t p)) \<and> pinv (snd (cpy s t p))"
    and eql_law: "inv s \<Longrightarrow> inv t \<Longrightarrow> eql s t \<longleftrightarrow> \<alpha> s = \<alpha> t"
begin

lemmas op_laws = new_law cln_law emp_law ins_law del_law uni_law dif_law int_law cpy_law eql_law

text \<open>Inserting the positions of a list one by one.\<close>

lemma fold_ins:
  "inv s \<Longrightarrow> pinv p \<Longrightarrow> (\<And>e. e \<in> set es \<Longrightarrow> ok e) \<Longrightarrow>
   (case fold (\<lambda>e (s, p). ins s e p) es (s, p) of (s', p') \<Rightarrow>
     \<alpha> s' = \<alpha> s \<union> set es \<and> inv s' \<and> pinv p')"
proof (induction es arbitrary: s p)
  case (Cons e es)
  obtain s1 p1 where i: "ins s e p = (s1, p1)" by fastforce
  have "\<alpha> s1 = insert e (\<alpha> s) \<and> inv s1 \<and> pinv p1"
    using ins_law [OF Cons.prems(1,2), of e] Cons.prems(3) i by simp
  with Cons.IH [of s1 p1] Cons.prems(3) i show ?case by (auto split: prod.splits)
qed simp

end

text \<open>
  The loop \<open>for (e = get_first(&c); e != BS_UNDEF; e = get_next(e, &c)) body(e)\<close> over a set:
  \<open>nxt\<close> yields the next position and the cursor. \<open>None\<close> means that the fuel ran out before the
  loop ended.
\<close>

fun iterate :: "nat \<Rightarrow> (nat \<Rightarrow> 'c \<Rightarrow> nat \<times> 'c) \<Rightarrow> (nat \<Rightarrow> 's \<Rightarrow> 's) \<Rightarrow> nat \<times> 'c \<Rightarrow> 's \<Rightarrow> 's option" where
  "iterate n nxt body (e, c) st =
     (if e = BS_UNDEF then Some st
      else case n of 0 \<Rightarrow> None | Suc n \<Rightarrow> iterate n nxt body (nxt e c) (body e st))"

declare iterate.simps [simp del]

lemma sorted_from:
  assumes "finite S" "e \<in> S"
  shows "sorted_list_of_set {x \<in> S. e \<le> x} = e # sorted_list_of_set {x \<in> S. e < x}"
proof -
  have "{x \<in> S. e \<le> x} = insert e {x \<in> S. e < x}" using assms by auto
  moreover have "sorted_list_of_set (insert e {x \<in> S. e < x}) = e # sorted_list_of_set {x \<in> S. e < x}"
    using assms by (subst sorted_list_of_set_insert) (auto intro!: insort_is_Cons)
  ultimately show ?thesis by simp
qed

lemma above_next: "next_of S e \<noteq> BS_UNDEF \<Longrightarrow> {x \<in> S. e < x} = {x \<in> S. next_of S e \<le> x}"
  using next_of_in [of S e] by (auto simp: next_of_def first_of_le)

lemma above_none: "next_of S e = BS_UNDEF \<Longrightarrow> (\<And>x. x \<in> S \<Longrightarrow> x < BS_UNDEF) \<Longrightarrow> {x \<in> S. e < x} = {}"
  unfolding next_of_def by (subst (asm) first_of_BS_UNDEF) auto

text \<open>An iterator visits exactly the elements, in increasing order, and the loop ends.\<close>

locale set_iter =
  fixes \<alpha> :: "'a \<Rightarrow> nat set"
    and inv :: "'a \<Rightarrow> bool"
    and fst_elem :: "'a \<Rightarrow> nat \<times> 'c"
    and nxt :: "'a \<Rightarrow> nat \<Rightarrow> 'c \<Rightarrow> nat \<times> 'c"
    and at :: "'a \<Rightarrow> nat \<Rightarrow> 'c \<Rightarrow> bool"
  assumes fin: "inv s \<Longrightarrow> finite (\<alpha> s)"
    and bnd: "inv s \<Longrightarrow> e \<in> \<alpha> s \<Longrightarrow> e < BS_UNDEF"
    and first_law: "inv s \<Longrightarrow> fst_elem s = (e, c) \<Longrightarrow>
      e = first_of (\<alpha> s) \<and> (e \<noteq> BS_UNDEF \<longrightarrow> at s e c)"
    and next_law: "inv s \<Longrightarrow> e \<in> \<alpha> s \<Longrightarrow> at s e c \<Longrightarrow> nxt s e c = (e', c') \<Longrightarrow>
      e' = next_of (\<alpha> s) e \<and> (e' \<noteq> BS_UNDEF \<longrightarrow> at s e' c')"
begin

lemma iterate_from:
  "inv s \<Longrightarrow> e \<in> \<alpha> s \<Longrightarrow> at s e c \<Longrightarrow> card {x \<in> \<alpha> s. e \<le> x} \<le> n \<Longrightarrow>
   iterate n (nxt s) body (e, c) st = Some (fold body (sorted_list_of_set {x \<in> \<alpha> s. e \<le> x}) st)"
proof (induction n arbitrary: e c st)
  case 0
  then have "{x \<in> \<alpha> s. e \<le> x} = {}" using fin by simp
  with 0 show ?case by auto
next
  case (Suc n)
  obtain e' c' where nx: "nxt s e c = (e', c')" by fastforce
  from next_law [OF Suc.prems(1-3) nx] have e': "e' = next_of (\<alpha> s) e" "e' \<noteq> BS_UNDEF \<longrightarrow> at s e' c'"
    by auto
  have e: "e \<noteq> BS_UNDEF" using bnd [OF Suc.prems(1,2)] by auto
  have step: "iterate (Suc n) (nxt s) body (e, c) st = iterate n (nxt s) body (e', c') (body e st)"
    using e nx by (simp add: iterate.simps [of "Suc n"])
  note so = sorted_from [OF fin [OF Suc.prems(1)] Suc.prems(2)]
  have cd: "card {x \<in> \<alpha> s. e \<le> x} = Suc (card {x \<in> \<alpha> s. e < x})"
  proof -
    have "{x \<in> \<alpha> s. e \<le> x} = insert e {x \<in> \<alpha> s. e < x}" using Suc.prems(2) by auto
    then show ?thesis using fin [OF Suc.prems(1)] by simp
  qed
  show ?case
  proof (cases "e' = BS_UNDEF")
    case True
    then have "{x \<in> \<alpha> s. e < x} = {}"
      using bnd [OF Suc.prems(1)] by (intro above_none) (simp_all add: e'(1) [symmetric])
    with True show ?thesis unfolding step so by (simp add: iterate.simps del: Collect_empty_eq)
  next
    case False
    then have ab: "{x \<in> \<alpha> s. e < x} = {x \<in> \<alpha> s. e' \<le> x}" using above_next e'(1) by blast
    have "e' \<in> \<alpha> s" using next_of_in False e'(1) by blast
    from Suc.IH [OF Suc.prems(1) this] e'(2) False Suc.prems(4) cd ab
    show ?thesis unfolding step so by simp
  qed
qed

theorem iterate_all:
  assumes "inv s" "card (\<alpha> s) \<le> n"
  shows "iterate n (nxt s) body (fst_elem s) st = Some (fold body (sorted_list_of_set (\<alpha> s)) st)"
proof -
  obtain e c where f: "fst_elem s = (e, c)" by fastforce
  note fl = first_law [OF assms(1) f]
  show ?thesis
  proof (cases "e = BS_UNDEF")
    case True
    then have "first_of (\<alpha> s) = BS_UNDEF" using fl by simp
    then have "\<alpha> s = {}" using bnd [OF assms(1)] by (subst (asm) first_of_BS_UNDEF)
    with True f show ?thesis by (simp add: iterate.simps)
  next
    case False
    then have "\<alpha> s \<noteq> {}" using fl by auto
    then have e: "e \<in> \<alpha> s" using fl first_of_in by blast
    have "e = first_of (\<alpha> s)" using fl by simp
    then have "{x \<in> \<alpha> s. e \<le> x} = \<alpha> s" by (auto simp: first_of_le)
    moreover have "at s e c" using fl False by blast
    ultimately show ?thesis using iterate_from [OF assms(1) e, of c n body st] assms(2) by (simp add: f)
  qed
qed

end

end
