(* ===== verification/BitSetQuery.thy ===== *)
theory BitSetQuery
  imports BitSetProps SetImpl
begin

text \<open>
  The predicates of class \<open>BitSet\<close> (equality, containment, emptiness, intersection, range
  tests), the range extraction, \<open>rev\<close>, and the three free functions \<open>bs_union\<close>, \<open>bs_diff\<close>,
  \<open>bs_intersect\<close> of \<^verbatim>\<open>src/com/bs.cpp\<close>, each with the lemma that gives
  its meaning on the abstraction \<open>bitset_set\<close>.
\<close>

section \<open>Predicates\<close>

text \<open>
  \<open>is_equal\<close>. For buffers shorter than a unit the code reads four bytes and masks the
  surplus off; \<open>past1\<close> and \<open>past2\<close> are the bytes that follow the two buffers in memory.
\<close>

definition bitset_is_empty :: "BitSet \<Rightarrow> bool" where
  "bitset_is_empty s =
     (if m_ptr s = None then True
      else let n = m_size s div 4
           in list_all (\<lambda>i. load_unit (buf s) i = 0) [0..<n] \<and>
              list_all (\<lambda>i. buf s ! i = 0) [n * 4..<m_size s])"

definition equal_bufs :: "byte list \<Rightarrow> nat \<Rightarrow> byte list \<Rightarrow> byte list \<Rightarrow> nat \<Rightarrow> byte list \<Rightarrow> bool" where
  "equal_bufs p1 size1 past1 p2 size2 past2 =
     (let v1 = load_unit (p1 @ past1) 0; v2 = load_unit (p2 @ past2) 0 in
      (if size1 = 1 then v1 AND 0xff = v2 AND 0xff
       else if size1 = 2 then v1 AND 0xffff = v2 AND 0xffff
       else if size1 = 3 then v1 AND 0xffffff = v2 AND 0xffffff
       else if size1 = 4 then v1 AND 0xffffffff = v2 AND 0xffffffff
       else take size1 p1 = take size1 p2) \<and>
      list_all (\<lambda>i. p2 ! i = 0) [size1..<size2])"

definition bitset_is_equal :: "byte list \<Rightarrow> byte list \<Rightarrow> BitSet \<Rightarrow> BitSet \<Rightarrow> bool" where
  "bitset_is_equal past1 past2 s bs =
     (if m_size s = 0 then (if m_size bs = 0 then True else bitset_is_empty bs)
      else if m_size bs = 0 then bitset_is_empty s
      else if m_size s > m_size bs
      then equal_bufs (buf bs) (m_size bs) past2 (buf s) (m_size s) past1
      else equal_bufs (buf s) (m_size s) past1 (buf bs) (m_size bs) past2)"

text \<open>\<open>is_contain(BSIdx)\<close>: the bound \<open>MULBPB(m_size)\<close> is computed in 32 bits.\<close>

definition bitset_is_contain_elem :: "BitSet \<Rightarrow> nat \<Rightarrow> bool" where
  "bitset_is_contain_elem s elem =
     (if m_ptr s = None then False
      else if elem \<ge> mulbpb (m_size s) then False
      else buf s ! divbpb elem AND push_bit (modbpb elem) 1 \<noteq> 0)"

text \<open>
  \<open>is_contain(BitSet const&, bool strict)\<close>. The loop yields \<open>None\<close> for the early
  \<open>return false\<close>, otherwise the final value of \<open>scon\<close>.
\<close>

function contain_loop :: "byte list \<Rightarrow> byte list \<Rightarrow> bool \<Rightarrow> nat \<Rightarrow> nat \<Rightarrow> bool \<Rightarrow> bool option" where
  "contain_loop p q strict i n scon =
     (if i < n then
        (if p ! i AND q ! i \<noteq> q ! i then None
         else contain_loop p q strict (Suc i) n (if strict \<and> p ! i \<noteq> q ! i then True else scon))
      else Some scon)"
  by pat_completeness auto
termination
  by (relation "measure (\<lambda>(p, q, strict, i, n, scon). n - i)") auto

declare contain_loop.simps [simp del]

definition bitset_is_contain :: "BitSet \<Rightarrow> BitSet \<Rightarrow> bool \<Rightarrow> bool" where
  "bitset_is_contain s bs strict =
     (let first_bit = bitset_get_first s; bs_first_bit = bitset_get_first bs in
      if first_bit = BS_UNDEF then False
      else if bs_first_bit = BS_UNDEF then True
      else if first_bit > bs_first_bit then False
      else
        let scon = (strict \<and> first_bit < bs_first_bit);
            start_byte = divbpb (max first_bit bs_first_bit) in
        if m_size s < m_size bs \<and> bitset_get_next bs (u32_sub (mulbpb (m_size s)) 1) \<noteq> BS_UNDEF
        then False
        else
          let scon = (if \<not> m_size s < m_size bs \<and> strict \<and> m_size s > m_size bs \<and>
                        bitset_get_next s (u32_sub (mulbpb (m_size bs)) 1) \<noteq> BS_UNDEF
                      then True else scon)
          in case contain_loop (buf s) (buf bs) strict start_byte (min (m_size s) (m_size bs)) scon of
               None \<Rightarrow> False
             | Some scon \<Rightarrow> \<not> (strict \<and> \<not> scon))"

definition bitset_is_intersect :: "BitSet \<Rightarrow> BitSet \<Rightarrow> bool" where
  "bitset_is_intersect s bs =
     (let first_bit = bitset_get_first s; bs_first_bit = bitset_get_first bs in
      if first_bit = BS_UNDEF then False
      else if bs_first_bit = BS_UNDEF then False
      else
        let start_byte = divbpb (max first_bit bs_first_bit);
            end_byte = divbpb (min (bitset_get_last s) (bitset_get_last bs))
        in list_ex (\<lambda>i. buf s ! i AND buf bs ! i \<noteq> 0) [start_byte..<end_byte + 1])"

section \<open>Ranges\<close>

definition bitset_is_contained_in_range :: "BitSet \<Rightarrow> nat \<Rightarrow> nat \<Rightarrow> bool \<Rightarrow> bool" where
  "bitset_is_contained_in_range s low high strict =
     (let set_low = bitset_get_first s in
      if set_low = BS_UNDEF then False
      else let set_high = bitset_get_last s
           in if strict then set_low > low \<and> set_high < high
              else set_low \<ge> low \<and> set_high \<le> high)"

definition bitset_is_contain_range :: "BitSet \<Rightarrow> nat \<Rightarrow> nat \<Rightarrow> bool \<Rightarrow> bool" where
  "bitset_is_contain_range s low high strict =
     (let set_low = bitset_get_first s in
      if set_low = BS_UNDEF then False
      else let set_high = bitset_get_last s
           in if strict then set_low < low \<and> set_high > high
              else set_low \<le> low \<and> set_high \<ge> high)"

definition bitset_is_overlapped :: "BitSet \<Rightarrow> nat \<Rightarrow> nat \<Rightarrow> bool" where
  "bitset_is_overlapped s low high =
     (let set_low = bitset_get_first s in
      if set_low = BS_UNDEF then False
      else let set_high = bitset_get_last s
           in if set_low \<ge> low \<and> set_high \<le> high then True
              else if set_low \<le> low \<and> set_high \<ge> high then True
              else if set_high \<ge> low \<and> set_high \<le> high then True
              else set_low \<ge> low \<and> set_low \<le> high)"

definition bitset_has_elem_in_range :: "BitSet \<Rightarrow> nat \<Rightarrow> nat \<Rightarrow> bool" where
  "bitset_has_elem_in_range s low high =
     (let first_bit = bitset_get_first s in
      if first_bit = BS_UNDEF \<or> first_bit > high then False
      else if first_bit \<ge> low \<and> first_bit \<le> high then True
      else let last_bit = bitset_get_last s in
        if last_bit < low then False
        else let end_bit = min last_bit high in
          if bitset_is_contain_elem s low then True
          else bitset_get_next s low \<le> end_bit)"

text \<open>
  \<open>get_subset_in_range\<close>: \<open>memcpy dst src start n\<close> copies the bytes \<open>start..start+n-1\<close>;
  \<open>keep_low\<close> and \<open>keep_high\<close> are the shift pairs that mask the border bytes.
\<close>

definition memcpy :: "byte list \<Rightarrow> byte list \<Rightarrow> nat \<Rightarrow> nat \<Rightarrow> byte list" where
  "memcpy dst src start n = take start dst @ take n (drop start src) @ drop (start + n) dst"

definition keep_low :: "nat \<Rightarrow> byte \<Rightarrow> byte" where
  "keep_low high b = (let ofst = 8 - modbpb high - 1 in drop_bit ofst (push_bit ofst b))"

definition keep_high :: "nat \<Rightarrow> byte \<Rightarrow> byte" where
  "keep_high low b = (let ofst = modbpb low in push_bit ofst (drop_bit ofst b))"

definition bitset_get_subset_in_range :: "BitSet \<Rightarrow> nat \<Rightarrow> nat \<Rightarrow> BitSet \<Rightarrow> BitSet" where
  "bitset_get_subset_in_range s low high sb =
     (let sb = bitset_clean sb; first_bit = bitset_get_first s in
      if first_bit = BS_UNDEF then sb
      else let last_bit = bitset_get_last s in
      if low > last_bit \<or> high < first_bit then sb
      else
        let sb_last_byte = divbpb high; sb_first_byte = divbpb low;
            last_byte = divbpb last_bit; first_byte = divbpb first_bit;
            sb = (if sb_last_byte + 1 > m_size sb then bitset_alloc sb (sb_last_byte + 1)
                      else sb);
            p = buf s; q = buf sb
        in if first_byte > sb_first_byte then
             (if last_byte < sb_last_byte
              then sb\<lparr>m_ptr := Some (memcpy q p first_byte (last_byte - first_byte + 1))\<rparr>
              else
                let q = (if int sb_last_byte - 1 \<ge> int first_byte
                         then memcpy q p first_byte (sb_last_byte - 1 - first_byte + 1) else q)
                in sb\<lparr>m_ptr := Some (q[sb_last_byte := keep_low high (p ! sb_last_byte)])\<rparr>)
           else
             let q = q[sb_first_byte := keep_high low (p ! sb_first_byte)];
                 start = sb_first_byte + 1
             in if last_byte < sb_last_byte
                then sb\<lparr>m_ptr := Some (memcpy q p start (last_byte + 1 - start))\<rparr>
                else
                  let (q, byte2) =
                    (if int sb_last_byte - 1 \<ge> int start
                     then (memcpy q p start (sb_last_byte - 1 - start + 1), p ! sb_last_byte)
                     else (q, if sb_first_byte = sb_last_byte then q ! sb_last_byte
                              else p ! sb_last_byte))
                  in sb\<lparr>m_ptr := Some (q[sb_last_byte := keep_low high byte2])\<rparr>)"

section \<open>Free functions\<close>

text \<open>
  \<open>bs_union\<close>, \<open>bs_diff\<close>, \<open>bs_intersect\<close> compare the addresses of the result and the
  operands; the first argument says which operand the result object is.
\<close>

datatype res_alias = ResIsSet1 | ResIsSet2 | ResIsFresh

definition bs_union :: "res_alias \<Rightarrow> BitSet \<Rightarrow> BitSet \<Rightarrow> BitSet \<Rightarrow> BitSet" where
  "bs_union a set1 set2 res =
     (case a of
        ResIsSet1 \<Rightarrow> bitset_bunion set1 set2
      | ResIsSet2 \<Rightarrow> bitset_bunion set2 set1
      | ResIsFresh \<Rightarrow>
          if m_size set1 < m_size set2 then bitset_bunion (bitset_copy res set2) set1
          else bitset_bunion (bitset_copy res set1) set2)"

definition bs_diff :: "res_alias \<Rightarrow> BitSet \<Rightarrow> BitSet \<Rightarrow> BitSet \<Rightarrow> BitSet" where
  "bs_diff a set1 set2 res =
     (case a of
        ResIsSet1 \<Rightarrow> bitset_diff set1 set2
      | ResIsSet2 \<Rightarrow>
          let tmp = bitset_diff (bitset_copy (bitset_init 1) set1) set2 in bitset_copy set2 tmp
      | ResIsFresh \<Rightarrow> bitset_diff (bitset_copy res set1) set2)"

definition bs_intersect :: "res_alias \<Rightarrow> BitSet \<Rightarrow> BitSet \<Rightarrow> BitSet \<Rightarrow> BitSet" where
  "bs_intersect a set1 set2 res =
     (case a of
        ResIsSet1 \<Rightarrow> bitset_intersect set1 set2
      | ResIsSet2 \<Rightarrow> bitset_intersect set2 set1
      | ResIsFresh \<Rightarrow> bitset_intersect (bitset_copy res set1) set2)"

section \<open>Meaning\<close>

lemma bs_union_correct:
  assumes "bitset_wf set1" "bitset_wf set2" "bitset_wf res"
  shows "bitset_set (bs_union a set1 set2 res) = bitset_set set1 \<union> bitset_set set2"
    and "bitset_wf (bs_union a set1 set2 res)"
  using assms by (auto simp: bs_union_def bitset_bunion_correct bitset_copy_correct split: res_alias.splits)

lemma bs_intersect_correct:
  assumes "bitset_wf set1" "bitset_wf set2" "bitset_wf res"
  shows "bitset_set (bs_intersect a set1 set2 res) = bitset_set set1 \<inter> bitset_set set2"
    and "bitset_wf (bs_intersect a set1 set2 res)"
  using assms by (auto simp: bs_intersect_def bitset_intersect_correct bitset_copy_correct split: res_alias.splits)

lemma bs_diff_correct:
  assumes "bitset_wf set1" "bitset_wf set2" "bitset_wf res"
  shows "bitset_set (bs_diff a set1 set2 res) = bitset_set set1 - bitset_set set2"
    and "bitset_wf (bs_diff a set1 set2 res)"
  using assms bitset_init_wf [of 1]
  by (auto simp: bs_diff_def Let_def bitset_diff_correct bitset_copy_correct split: res_alias.splits)

lemma bset_empty_iff: "bset p = {} \<longleftrightarrow> (\<forall>i<length p. p ! i = 0)"
proof
  assume e: "bset p = {}"
  show "\<forall>i<length p. p ! i = 0"
  proof (intro allI impI)
    fix i assume i: "i < length p"
    show "p ! i = 0"
    proof (rule bit_eqI)
      fix n assume "possible_bit TYPE(byte) n"
      then have "n < 8" by simp
      moreover have "8 * i + n \<notin> bset p" using e by simp
      ultimately show "bit (p ! i) n = bit 0 n" using i by simp
    qed
  qed
qed (auto simp: bset_iff)

lemma load_unit_zero:
  "load_unit p i = 0 \<longleftrightarrow> (\<forall>j<4. p ! (4 * i + j) = 0)"
proof
  assume z: "load_unit p i = 0"
  show "\<forall>j<4. p ! (4 * i + j) = 0"
  proof (intro allI impI)
    fix j :: nat assume j: "j < 4"
    show "p ! (4 * i + j) = 0"
    proof (rule bit_eqI)
      fix n assume "possible_bit TYPE(byte) n"
      then have n: "n < 8" by simp
      have "(8 * j + n) div 8 = j" "(8 * j + n) mod 8 = n" using n by auto
      with bit_load_unit [of "8 * j + n" p i] j n z show "bit (p ! (4 * i + j)) n = bit 0 n" by simp
    qed
  qed
next
  assume "\<forall>j<4. p ! (4 * i + j) = 0"
  then have "\<And>j. j < 4 \<Longrightarrow> p ! (4 * i + j) = 0" by blast
  from this [of 0] this [of 1] this [of 2] this [of 3]
  have "p ! (4 * i) = 0" "p ! (4 * i + 1) = 0" "p ! (4 * i + 2) = 0" "p ! (4 * i + 3) = 0"
    by simp_all
  then show "load_unit p i = 0" by (simp add: load_unit_def)
qed

lemma all_units: "(\<forall>i<n. \<forall>j<4. P (4 * i + j)) \<longleftrightarrow> (\<forall>k<4 * n. P (k :: nat))"
proof
  assume h: "\<forall>i<n. \<forall>j<4. P (4 * i + j)"
  show "\<forall>k<4 * n. P k"
  proof (intro allI impI)
    fix k assume "k < 4 * n"
    then have "k div 4 < n" by auto
    with h have "\<forall>j<4. P (4 * (k div 4) + j)" by blast
    moreover have "k mod 4 < 4" by simp
    ultimately have "P (4 * (k div 4) + k mod 4)" by blast
    then show "P k" by simp
  qed
qed auto

lemma all_split: "a \<le> b \<Longrightarrow>
  (\<forall>k<a. P k) \<and> (\<forall>k. a \<le> k \<and> k < b \<longrightarrow> P k) \<longleftrightarrow> (\<forall>k<(b :: nat). P k)"
  by (meson less_le_trans not_less)

lemma bitset_is_empty_correct [set_abs]:
  assumes "bitset_wf s"
  shows "bitset_is_empty s \<longleftrightarrow> bitset_set s = {}"
proof (cases "m_ptr s")
  case None
  then show ?thesis by (simp add: bitset_is_empty_def bitset_set_def buf_None)
next
  case (Some p)
  let ?n = "m_size s div 4"
  have b: "length (buf s) = m_size s" using bitset_wfD [OF assms] by simp
  have "bitset_is_empty s \<longleftrightarrow> (\<forall>i<?n. \<forall>j<4. buf s ! (4 * i + j) = 0) \<and>
      (\<forall>k. 4 * ?n \<le> k \<and> k < m_size s \<longrightarrow> buf s ! k = 0)"
    using Some by (auto simp: bitset_is_empty_def Let_def list_all_iff load_unit_zero mult.commute)
  also have "\<dots> \<longleftrightarrow> (\<forall>k<m_size s. buf s ! k = 0)"
    unfolding all_units [where P = "\<lambda>k. buf s ! k = 0"] by (rule all_split) simp
  finally show ?thesis by (simp add: bitset_set_def bset_empty_iff b)
qed

lemma bit_test_zero: "(w AND 2 ^ k :: byte) = 0 \<longleftrightarrow> \<not> bit w k"
  by (rule and_exp_eq_0_iff_not_bit)

lemma bitset_is_contain_elem_correct [set_abs]:
  assumes "bitset_wf s"
  shows "bitset_is_contain_elem s e \<longleftrightarrow> e \<in> bitset_set s"
proof -
  have "mulbpb (m_size s) = 8 * m_size s" "length (buf s) = m_size s"
    using bitset_wfD [OF assms] by (simp_all add: mulbpb_id)
  moreover have "e div 8 < m_size s \<longleftrightarrow> e < 8 * m_size s" by auto
  ultimately show ?thesis
    by (auto simp: bitset_is_contain_elem_def bpb_simps bit_test_zero bitset_set_def bset_iff buf_None)
qed

text \<open>Equality: the masked four-byte comparison reads exactly the bytes of the shorter buffer.\<close>

lemma bit_load_unit_byte: "j < 4 \<Longrightarrow> n < 8 \<Longrightarrow> bit (load_unit p 0) (8 * j + n) \<longleftrightarrow> bit (p ! j) n"
  by (subst bit_load_unit) auto

lemma masked_unit_eq:
  assumes "k \<le> 4"
  shows "load_unit p 0 AND mask (8 * k) = load_unit q 0 AND mask (8 * k) \<longleftrightarrow>
    (\<forall>j<k. p ! j = q ! j)"
proof
  assume e: "load_unit p 0 AND mask (8 * k) = load_unit q 0 AND mask (8 * k)"
  show "\<forall>j<k. p ! j = q ! j"
  proof (intro allI impI bit_eqI)
    fix j n assume j: "j < k" and "possible_bit TYPE(byte) n"
    then have n: "n < 8" by simp
    have "bit (load_unit p 0 AND mask (8 * k)) (8 * j + n) =
        bit (load_unit q 0 AND mask (8 * k)) (8 * j + n)" using e by simp
    moreover have "8 * j + n < 8 * k" "8 * j + n < 32" using j n assms by auto
    ultimately show "bit (p ! j) n = bit (q ! j) n"
      using n j assms by (simp add: bit_and_iff bit_mask_iff bit_load_unit_byte)
  qed
next
  assume e: "\<forall>j<k. p ! j = q ! j"
  show "load_unit p 0 AND mask (8 * k) = load_unit q 0 AND mask (8 * k)"
  proof (rule bit_eqI)
    fix n
    show "bit (load_unit p 0 AND mask (8 * k)) n = bit (load_unit q 0 AND mask (8 * k)) n"
    proof (cases "n < 8 * k")
      case True
      then have "n div 8 < k" "n < 32" using assms by auto
      with e show ?thesis by (simp add: bit_and_iff bit_load_unit)
    qed (simp add: bit_and_iff bit_mask_iff)
  qed
qed

lemma equal_bufs_correct:
  assumes "size1 = length p1" "size2 = length p2" "size1 \<le> size2" "0 < size1"
    and "4 \<le> size1 + length past1" "4 \<le> size2 + length past2"
  shows "equal_bufs p1 size1 past1 p2 size2 past2 \<longleftrightarrow> bset p1 = bset p2"
proof -
  have m: "(0xff :: 32 word) = mask (8 * 1)" "(0xffff :: 32 word) = mask (8 * 2)"
    "(0xffffff :: 32 word) = mask (8 * 3)" "(0xffffffff :: 32 word) = mask (8 * 4)"
    by (simp_all add: mask_eq_exp_minus_1)
  have hd: "load_unit (p1 @ past1) 0 AND mask (8 * k) = load_unit (p2 @ past2) 0 AND mask (8 * k)
      \<longleftrightarrow> take size1 p1 = take size1 p2" if "size1 = k" "k \<le> 4" for k
  proof -
    have "(\<forall>j<k. (p1 @ past1) ! j = (p2 @ past2) ! j) \<longleftrightarrow> (\<forall>j<k. p1 ! j = p2 ! j)"
      using that assms by (simp add: nth_append)
    moreover have "k \<le> length p1" "k \<le> length p2" using that assms by auto
    then have "take k p1 = take k p2 \<longleftrightarrow> (\<forall>j<k. p1 ! j = p2 ! j)"
      unfolding list_eq_iff_nth_eq by (simp add: min_absorb2)
    ultimately show ?thesis unfolding masked_unit_eq [OF that(2)] that(1) by (rule trans [OF _ sym])
  qed
  have "(\<forall>i\<in>{size1..<size2}. p2 ! i = 0) \<longleftrightarrow> drop size1 p2 = replicate (size2 - size1) 0"
  proof
    assume h: "\<forall>i\<in>{size1..<size2}. p2 ! i = 0"
    show "drop size1 p2 = replicate (size2 - size1) 0"
      using h assms by (intro nth_equalityI) auto
  next
    assume "drop size1 p2 = replicate (size2 - size1) 0"
    then have r: "drop size1 p2 ! (i - size1) = replicate (size2 - size1) 0 ! (i - size1)" for i by simp
    show "\<forall>i\<in>{size1..<size2}. p2 ! i = 0"
    proof
      fix i assume "i \<in> {size1..<size2}"
      then have "i - size1 < size2 - size1" "size1 + (i - size1) = i" by auto
      with r [of i] assms(2) show "p2 ! i = 0" using nth_drop [of size1 p2 "i - size1"] assms(3) by simp
    qed
  qed
  then have tail: "list_all (\<lambda>i. p2 ! i = 0) [size1..<size2] \<longleftrightarrow>
      drop size1 p2 = replicate (size2 - size1) 0" by (simp add: list_all_iff)
  have "equal_bufs p1 size1 past1 p2 size2 past2 \<longleftrightarrow>
      p1 = take size1 p2 \<and> drop size1 p2 = replicate (size2 - size1) 0"
  proof -
    have "(if size1 = 1 then load_unit (p1 @ past1) 0 AND 0xff = load_unit (p2 @ past2) 0 AND 0xff
       else if size1 = 2 then load_unit (p1 @ past1) 0 AND 0xffff = load_unit (p2 @ past2) 0 AND 0xffff
       else if size1 = 3 then load_unit (p1 @ past1) 0 AND 0xffffff = load_unit (p2 @ past2) 0 AND 0xffffff
       else if size1 = 4 then load_unit (p1 @ past1) 0 AND 0xffffffff = load_unit (p2 @ past2) 0 AND 0xffffffff
       else take size1 p1 = take size1 p2) \<longleftrightarrow> take size1 p1 = take size1 p2"
      unfolding m using hd [of 1] hd [of 2] hd [of 3] hd [of 4]
      by (cases "size1 = 1"; cases "size1 = 2"; cases "size1 = 3"; cases "size1 = 4"; simp)
    then show ?thesis unfolding equal_bufs_def Let_def tail using assms(1) by simp
  qed
  also have "\<dots> \<longleftrightarrow> bset p1 = bset p2"
  proof
    assume h: "p1 = take size1 p2 \<and> drop size1 p2 = replicate (size2 - size1) 0"
    then have "p2 = p1 @ replicate (size2 - size1) 0" by (metis append_take_drop_id)
    then show "bset p1 = bset p2" by simp
  next
    assume e: "bset p1 = bset p2"
    have b: "bit (p2 ! i) n \<longleftrightarrow> i < size1 \<and> bit (p1 ! i) n" if "i < size2" "n < 8" for i n
      using that bset_pos [of n i p1] bset_pos [of n i p2] e assms by auto
    have "p2 ! i = (if i < size1 then p1 ! i else 0)" if "i < size2" for i
      using b [OF that] by (intro bit_eqI) auto
    with assms show "p1 = take size1 p2 \<and> drop size1 p2 = replicate (size2 - size1) 0"
      by (auto intro!: nth_equalityI)
  qed
  finally show ?thesis .
qed

lemma bitset_is_equal_correct:
  assumes "bitset_wf s" "bitset_wf bs" "3 \<le> length past1" "3 \<le> length past2"
  shows "bitset_is_equal past1 past2 s bs \<longleftrightarrow> bitset_set s = bitset_set bs"
proof -
  note w = bitset_wfD [OF assms(1)] bitset_wfD [OF assms(2)]
  have z: "m_size t = 0 \<Longrightarrow> bitset_wf t \<Longrightarrow> bitset_set t = {}" for t
    using bitset_wfD [of t] by (auto simp: bitset_set_def)
  consider "m_size s = 0" | "m_size s \<noteq> 0" "m_size bs = 0"
    | "m_size s \<noteq> 0" "m_size bs \<noteq> 0" "m_size s > m_size bs"
    | "m_size s \<noteq> 0" "m_size bs \<noteq> 0" "\<not> m_size s > m_size bs" by linarith
  then show ?thesis
  proof cases
    case 1
    then show ?thesis
      using z [OF _ assms(1)] z [OF _ assms(2)]
      by (auto simp: bitset_is_equal_def bitset_is_empty_correct [OF assms(2)])
  next
    case 2
    then show ?thesis
      using z [OF _ assms(2)]
      by (auto simp: bitset_is_equal_def bitset_is_empty_correct [OF assms(1)])
  next
    case 3
    have "equal_bufs (buf bs) (m_size bs) past2 (buf s) (m_size s) past1 \<longleftrightarrow>
        bset (buf bs) = bset (buf s)"
      by (rule equal_bufs_correct; insert 3 w assms; linarith)
    with 3 show ?thesis by (auto simp: bitset_is_equal_def bitset_set_def)
  next
    case 4
    have "equal_bufs (buf s) (m_size s) past1 (buf bs) (m_size bs) past2 \<longleftrightarrow>
        bset (buf s) = bset (buf bs)"
      by (rule equal_bufs_correct; insert 4 w assms; linarith)
    with 4 show ?thesis by (auto simp: bitset_is_equal_def bitset_set_def)
  qed
qed

text \<open>Containment.\<close>

lemma contain_loop_None:
  "contain_loop p q strict i n scon = None \<longleftrightarrow> (\<exists>j. i \<le> j \<and> j < n \<and> p ! j AND q ! j \<noteq> q ! j)"
proof (induction p q strict i n scon rule: contain_loop.induct)
  case (1 p q strict i n scon)
  show ?case
  proof (cases "i < n \<and> p ! i AND q ! i = q ! i")
    case True
    with 1 show ?thesis
      by (subst contain_loop.simps) (metis Suc_leD le_antisym not_less_eq_eq)
  qed (subst contain_loop.simps, auto)
qed

lemma ex_from_Suc: "i < n \<Longrightarrow>
  (\<exists>j. i \<le> j \<and> j < n \<and> P j) \<longleftrightarrow> P i \<or> (\<exists>j. Suc i \<le> j \<and> j < n \<and> P j)"
  by (metis Suc_leD Suc_leI le_neq_implies_less order_refl)

lemma contain_loop_Some:
  "contain_loop p q strict i n scon = Some r \<Longrightarrow>
   r \<longleftrightarrow> scon \<or> strict \<and> (\<exists>j. i \<le> j \<and> j < n \<and> p ! j \<noteq> q ! j)"
proof (induction p q strict i n scon rule: contain_loop.induct)
  case (1 p q strict i n scon)
  show ?case
  proof (cases "i < n")
    case True
    with 1(2) have "p ! i AND q ! i = q ! i"
      and r: "contain_loop p q strict (Suc i) n (if strict \<and> p ! i \<noteq> q ! i then True else scon) = Some r"
      by (auto simp: contain_loop.simps [of p q strict i] split: if_splits)
    from 1(1) [OF True _ r] this(1) show ?thesis
      by (auto simp: ex_from_Suc [OF True] split: if_splits)
  next
    case False
    with 1(2) show ?thesis by (auto simp: contain_loop.simps [of p q strict i])
  qed
qed

lemma byte_eq_bset:
  assumes "j < length p" "j < length q"
  shows "p ! j = q ! j \<longleftrightarrow> (\<forall>x. x div 8 = j \<longrightarrow> (x \<in> bset p \<longleftrightarrow> x \<in> bset q))"
proof
  assume h: "\<forall>x. x div 8 = j \<longrightarrow> (x \<in> bset p \<longleftrightarrow> x \<in> bset q)"
  show "p ! j = q ! j"
  proof (rule bit_eqI)
    fix n assume "possible_bit TYPE(byte) n"
    then have n: "n < 8" by simp
    have "8 * j + n \<in> bset p \<longleftrightarrow> 8 * j + n \<in> bset q" using h n by simp
    with n assms show "bit (p ! j) n = bit (q ! j) n" by simp
  qed
qed (use assms in \<open>auto simp: bset_iff\<close>)

lemma byte_sub_bset:
  assumes "j < length p" "j < length q"
  shows "p ! j AND q ! j = q ! j \<longleftrightarrow> (\<forall>x. x div 8 = j \<longrightarrow> x \<in> bset q \<longrightarrow> x \<in> bset p)"
proof
  assume h: "\<forall>x. x div 8 = j \<longrightarrow> x \<in> bset q \<longrightarrow> x \<in> bset p"
  show "p ! j AND q ! j = q ! j"
  proof (rule bit_eqI)
    fix n assume "possible_bit TYPE(byte) n"
    then have n: "n < 8" by simp
    have "8 * j + n \<in> bset q \<longrightarrow> 8 * j + n \<in> bset p" using h n by simp
    with n assms show "bit (p ! j AND q ! j) n = bit (q ! j) n" by (auto simp: bit_and_iff)
  qed
next
  assume h: "p ! j AND q ! j = q ! j"
  then have "bit (p ! j AND q ! j) n = bit (q ! j) n" for n by simp
  then have "bit (q ! j) n \<Longrightarrow> bit (p ! j) n" for n by (auto simp: bit_and_iff)
  with assms show "\<forall>x. x div 8 = j \<longrightarrow> x \<in> bset q \<longrightarrow> x \<in> bset p" by (auto simp: bset_iff)
qed

lemma next_past_size:
  assumes t: "bitset_wf t" and n: "0 < n" "n < 536870912"
  shows "bitset_get_next t (u32_sub (mulbpb n) 1) \<noteq> BS_UNDEF \<longleftrightarrow> (\<exists>x \<in> bitset_set t. n \<le> x div 8)"
proof -
  have "u32_sub (mulbpb n) 1 = 8 * n - 1" using n by (simp add: mulbpb_id u32_sub_id)
  moreover have "8 * n - 1 < x \<longleftrightarrow> n \<le> x div 8" for x using n by auto
  moreover have "first_of {x \<in> bitset_set t. n \<le> x div 8} = BS_UNDEF \<longleftrightarrow> {x \<in> bitset_set t. n \<le> x div 8} = {}"
    using bitset_set_bound [OF t] by (intro first_of_BS_UNDEF) (fastforce simp: BS_UNDEF_def)
  ultimately show ?thesis using t n by (auto simp: bitset_get_next_correct next_of_def)
qed

lemma bitset_is_contain_correct:
  assumes s: "bitset_wf s" and b: "bitset_wf bs"
  shows "bitset_is_contain s bs strict \<longleftrightarrow> bitset_set s \<noteq> {} \<and>
    (if strict then bitset_set bs \<subset> bitset_set s else bitset_set bs \<subseteq> bitset_set s)"
proof (cases "bitset_set s = {} \<or> bitset_set bs = {}")
  case True
  then show ?thesis
    using get_first_BS_UNDEF [OF s] get_first_BS_UNDEF [OF b]
    by (auto simp: bitset_is_contain_def)
next
  case False
  let ?S = "bitset_set s" and ?B = "bitset_set bs"
  let ?f = "bitset_get_first s" and ?g = "bitset_get_first bs"
  let ?n = "min (m_size s) (m_size bs)"
  have fg: "?f \<noteq> BS_UNDEF" "?g \<noteq> BS_UNDEF"
    using False get_first_BS_UNDEF [OF s] get_first_BS_UNDEF [OF b] by auto
  have fS: "?f \<in> ?S" "\<And>x. x \<in> ?S \<Longrightarrow> ?f \<le> x" and gB: "?g \<in> ?B" "\<And>x. x \<in> ?B \<Longrightarrow> ?g \<le> x"
    using False by (auto simp: bitset_get_first_correct s b first_of_in first_of_le)
  note w = bitset_wfD [OF s] bitset_wfD [OF b]
  have pos: "0 < m_size s" "0 < m_size bs" using False w by (auto simp: bitset_set_def)
  have lt: "j < length (buf s)" "j < length (buf bs)" if "j < ?n" for j using that w by auto
  note nx = next_past_size [OF b pos(1)] next_past_size [OF s pos(2)]
  have size: "x \<in> ?S \<Longrightarrow> x div 8 < m_size s" "x \<in> ?B \<Longrightarrow> x div 8 < m_size bs" for x
    using w by (auto simp: bitset_set_def bset_iff)
  show ?thesis
  proof (cases "?g < ?f \<or> m_size s < m_size bs \<and> (\<exists>x \<in> ?B. m_size s \<le> x div 8)")
    case True
    then have "\<not> ?B \<subseteq> ?S" using fS(2) [of ?g] gB(1) size(1) by (meson leD subsetD)
    moreover have "\<not> bitset_is_contain s bs strict"
      using True fg nx w by (auto simp: bitset_is_contain_def Let_def)
    ultimately show ?thesis by auto
  next
    case no: False
    let ?sc = "if \<not> m_size s < m_size bs \<and> strict \<and> m_size s > m_size bs \<and>
      (\<exists>x \<in> ?S. m_size bs \<le> x div 8) then True else strict \<and> ?f < ?g"
    let ?L = "contain_loop (buf s) (buf bs) strict (?g div 8) ?n ?sc"
    have res: "bitset_is_contain s bs strict \<longleftrightarrow>
        (case ?L of None \<Rightarrow> False | Some scon \<Rightarrow> \<not> (strict \<and> \<not> scon))"
      using no fg nx w by (auto simp: bitset_is_contain_def Let_def divbpb_div max_def)
    have sub: "?L = None \<longleftrightarrow> \<not> ?B \<subseteq> ?S"
    proof -
      have "?L = None \<longleftrightarrow> (\<exists>x. ?g div 8 \<le> x div 8 \<and> x div 8 < ?n \<and> x \<in> ?B \<and> x \<notin> ?S)"
        unfolding contain_loop_None bitset_set_def using byte_sub_bset lt by blast
      moreover have "?g div 8 \<le> x div 8 \<and> x div 8 < ?n" if "x \<in> ?B" for x
        using gB(2) [OF that] size(2) [OF that] that no by (auto simp: div_le_mono not_le)
      ultimately show ?thesis by auto
    qed
    show ?thesis
    proof (cases ?L)
      case None
      with res sub False show ?thesis by auto
    next
      case (Some r)
      with sub have BS: "?B \<subseteq> ?S" by simp
      have r: "r \<longleftrightarrow> ?sc \<or> strict \<and> (\<exists>x. ?g div 8 \<le> x div 8 \<and> x div 8 < ?n \<and> \<not> (x \<in> ?S \<longleftrightarrow> x \<in> ?B))"
        using contain_loop_Some [OF Some] byte_eq_bset lt unfolding bitset_set_def by blast
      have "strict \<Longrightarrow> r \<longleftrightarrow> ?S \<noteq> ?B"
      proof
        assume str: strict and ne: "?S \<noteq> ?B"
        then obtain x where x: "x \<in> ?S" "x \<notin> ?B" using BS by auto
        show r
        proof (cases "x < ?g")
          case True
          then show ?thesis using fS(2) [OF x(1)] str by (simp add: r)
        next
          case False
          then have "?g div 8 \<le> x div 8" by (simp add: div_le_mono)
          with x str size(1) [OF x(1)] show ?thesis unfolding r
            by (cases "x div 8 < ?n") auto
        qed
      next
        assume "strict" and r': r
        then consider "?f < ?g" | "\<exists>x \<in> ?S. m_size bs \<le> x div 8" | "?S \<noteq> ?B"
          unfolding r by (auto split: if_splits)
        then show "?S \<noteq> ?B"
          using fS gB size by cases (metis leD)+
      qed
      with res Some BS False show ?thesis by auto
    qed
  qed
qed

text \<open>Intersection test and ranges.\<close>

lemma byte_meet_bset:
  assumes "j < length p" "j < length q"
  shows "p ! j AND q ! j \<noteq> 0 \<longleftrightarrow> (\<exists>x. x div 8 = j \<and> x \<in> bset p \<and> x \<in> bset q)"
proof -
  have "p ! j AND q ! j \<noteq> 0 \<longleftrightarrow> (\<exists>n. bit (p ! j) n \<and> bit (q ! j) n)"
    by (auto simp: bit_eq_iff bit_and_iff) (metis bit_byte_less)
  also have "\<dots> \<longleftrightarrow> (\<exists>x. x div 8 = j \<and> x \<in> bset p \<and> x \<in> bset q)"
  proof
    assume "\<exists>n. bit (p ! j) n \<and> bit (q ! j) n"
    then obtain n where n: "bit (p ! j) n" "bit (q ! j) n" by auto
    then have "n < 8" by (auto dest: bit_byte_less)
    with n assms show "\<exists>x. x div 8 = j \<and> x \<in> bset p \<and> x \<in> bset q"
      by (intro exI [of _ "8 * j + n"]) auto
  qed (auto simp: bset_iff)
  finally show ?thesis .
qed

lemma bitset_is_intersect_correct:
  assumes s: "bitset_wf s" and b: "bitset_wf bs"
  shows "bitset_is_intersect s bs \<longleftrightarrow> bitset_set s \<inter> bitset_set bs \<noteq> {}"
proof (cases "bitset_set s = {} \<or> bitset_set bs = {}")
  case True
  then show ?thesis
    using get_first_BS_UNDEF [OF s] get_first_BS_UNDEF [OF b]
    by (auto simp: bitset_is_intersect_def)
next
  case False
  let ?S = "bitset_set s" and ?B = "bitset_set bs"
  let ?lo = "max (bitset_get_first s) (bitset_get_first bs)"
  let ?hi = "min (bitset_get_last s) (bitset_get_last bs)"
  have fg: "bitset_get_first s \<noteq> BS_UNDEF" "bitset_get_first bs \<noteq> BS_UNDEF"
    using False get_first_BS_UNDEF [OF s] get_first_BS_UNDEF [OF b] by auto
  have range: "?lo \<le> x \<and> x \<le> ?hi" if "x \<in> ?S" "x \<in> ?B" for x
    using that by (auto simp: bitset_get_first_correct bitset_get_last_correct s b first_of_le last_of_ge)
  have "bitset_get_last s \<in> ?S" "bitset_get_last bs \<in> ?B"
    using False by (auto simp: bitset_get_last_correct s b last_of_in)
  then have "?hi div 8 < length (buf s)" "?hi div 8 < length (buf bs)"
    by (auto simp: bitset_set_def bset_iff intro: le_less_trans [OF div_le_mono])
  then have lt: "j < length (buf s)" "j < length (buf bs)" if "j \<le> ?hi div 8" for j
    using that by auto
  have "bitset_is_intersect s bs \<longleftrightarrow>
      (\<exists>j. ?lo div 8 \<le> j \<and> j \<le> ?hi div 8 \<and> buf s ! j AND buf bs ! j \<noteq> 0)"
    using fg by (auto simp: bitset_is_intersect_def Let_def list_ex_iff divbpb_div less_Suc_eq_le)
  also have "\<dots> \<longleftrightarrow> (\<exists>x. ?lo div 8 \<le> x div 8 \<and> x div 8 \<le> ?hi div 8 \<and> x \<in> ?S \<and> x \<in> ?B)"
    unfolding bitset_set_def using byte_meet_bset lt by blast
  also have "\<dots> \<longleftrightarrow> ?S \<inter> ?B \<noteq> {}" using range div_le_mono by blast
  finally show ?thesis .
qed

lemma bitset_range_simps:
  assumes s: "bitset_wf s"
  shows "bitset_is_contained_in_range s low high strict \<longleftrightarrow> bitset_set s \<noteq> {} \<and>
      bitset_set s \<subseteq> (if strict then {low<..<high} else {low..high})"
    and "bitset_is_contain_range s low high strict \<longleftrightarrow> bitset_set s \<noteq> {} \<and>
      (if strict then (\<exists>x\<in>bitset_set s. x < low) \<and> (\<exists>x\<in>bitset_set s. high < x)
       else (\<exists>x\<in>bitset_set s. x \<le> low) \<and> (\<exists>x\<in>bitset_set s. high \<le> x))"
    and "low \<le> high \<Longrightarrow> bitset_is_overlapped s low high \<longleftrightarrow> bitset_set s \<noteq> {} \<and>
      (\<exists>x\<in>bitset_set s. x \<le> high) \<and> (\<exists>x\<in>bitset_set s. low \<le> x)"
proof -
  let ?S = "bitset_set s" and ?f = "bitset_get_first s" and ?l = "bitset_get_last s"
  have e: "?f = BS_UNDEF \<longleftrightarrow> ?S = {}" by (rule get_first_BS_UNDEF [OF s])
  have f: "?S \<noteq> {} \<Longrightarrow> ?f \<in> ?S" "\<And>x. x \<in> ?S \<Longrightarrow> ?f \<le> x"
    and l: "?S \<noteq> {} \<Longrightarrow> ?l \<in> ?S" "\<And>x. x \<in> ?S \<Longrightarrow> x \<le> ?l"
    by (auto simp: bitset_get_first_correct bitset_get_last_correct s first_of_in first_of_le
        last_of_in last_of_ge)
  have lt: "?S \<noteq> {} \<Longrightarrow> k < ?f \<longleftrightarrow> (\<forall>x\<in>?S. k < x)" "?S \<noteq> {} \<Longrightarrow> k \<le> ?f \<longleftrightarrow> (\<forall>x\<in>?S. k \<le> x)"
     "?S \<noteq> {} \<Longrightarrow> ?l < k \<longleftrightarrow> (\<forall>x\<in>?S. x < k)" "?S \<noteq> {} \<Longrightarrow> ?l \<le> k \<longleftrightarrow> (\<forall>x\<in>?S. x \<le> k)"
     "?S \<noteq> {} \<Longrightarrow> ?f < k \<longleftrightarrow> (\<exists>x\<in>?S. x < k)" "?S \<noteq> {} \<Longrightarrow> ?f \<le> k \<longleftrightarrow> (\<exists>x\<in>?S. x \<le> k)"
     "?S \<noteq> {} \<Longrightarrow> k < ?l \<longleftrightarrow> (\<exists>x\<in>?S. k < x)" "?S \<noteq> {} \<Longrightarrow> k \<le> ?l \<longleftrightarrow> (\<exists>x\<in>?S. k \<le> x)" for k
    using f l by (meson less_le_trans le_less_trans order_trans)+
  show "bitset_is_contained_in_range s low high strict \<longleftrightarrow> ?S \<noteq> {} \<and>
      ?S \<subseteq> (if strict then {low<..<high} else {low..high})"
    by (cases "?S = {}") (auto simp: bitset_is_contained_in_range_def Let_def e lt)
  show "bitset_is_contain_range s low high strict \<longleftrightarrow> ?S \<noteq> {} \<and>
      (if strict then (\<exists>x\<in>?S. x < low) \<and> (\<exists>x\<in>?S. high < x)
       else (\<exists>x\<in>?S. x \<le> low) \<and> (\<exists>x\<in>?S. high \<le> x))"
    by (cases "?S = {}") (simp_all add: bitset_is_contain_range_def Let_def e lt)
  have "?S \<noteq> {} \<Longrightarrow> ?f \<le> ?l" using f l by blast
  then show "bitset_is_overlapped s low high \<longleftrightarrow> ?S \<noteq> {} \<and>
      (\<exists>x\<in>?S. x \<le> high) \<and> (\<exists>x\<in>?S. low \<le> x)" if "low \<le> high"
    using that lt(6) [of high, symmetric] lt(8) [of low, symmetric]
    by (cases "?S = {}") (auto simp: bitset_is_overlapped_def Let_def e)
qed

lemma bitset_has_elem_in_range_correct:
  assumes s: "bitset_wf s" and lh: "low \<le> high"
  shows "bitset_has_elem_in_range s low high \<longleftrightarrow> (\<exists>x\<in>bitset_set s. low \<le> x \<and> x \<le> high)"
proof -
  let ?S = "bitset_set s" and ?f = "bitset_get_first s" and ?l = "bitset_get_last s"
  have e: "?f = BS_UNDEF \<longleftrightarrow> ?S = {}" by (rule get_first_BS_UNDEF [OF s])
  have f: "?S \<noteq> {} \<Longrightarrow> ?f \<in> ?S" "\<And>x. x \<in> ?S \<Longrightarrow> ?f \<le> x"
    and l: "?S \<noteq> {} \<Longrightarrow> ?l \<in> ?S" "\<And>x. x \<in> ?S \<Longrightarrow> x \<le> ?l"
    by (auto simp: bitset_get_first_correct bitset_get_last_correct s first_of_in first_of_le
        last_of_in last_of_ge)
  have u: "?S \<noteq> {} \<Longrightarrow> ?l < BS_UNDEF" using l(1) bitset_set_bound [OF s] by (fastforce simp: BS_UNDEF_def)
  have nx: "bitset_get_next s low \<le> min ?l high \<longleftrightarrow> (\<exists>x\<in>?S. low < x \<and> x \<le> high)" if "?S \<noteq> {}"
  proof
    assume h: "bitset_get_next s low \<le> min ?l high"
    then have "next_of ?S low \<noteq> BS_UNDEF" using u that by (auto simp: bitset_get_next_correct s)
    with next_of_in h show "\<exists>x\<in>?S. low < x \<and> x \<le> high" by (auto simp: bitset_get_next_correct s)
  next
    assume "\<exists>x\<in>?S. low < x \<and> x \<le> high"
    then obtain x where x: "x \<in> ?S" "low < x" "x \<le> high" by auto
    then have "next_of ?S low \<le> x" unfolding next_of_def by (intro first_of_le) simp
    with x l(2) [OF x(1)] show "bitset_get_next s low \<le> min ?l high"
      by (simp add: bitset_get_next_correct s)
  qed
  have c: "bitset_is_contain_elem s low \<longleftrightarrow> low \<in> ?S" by (rule bitset_is_contain_elem_correct [OF s])
  show ?thesis
  proof (cases "?S = {}")
    case True
    then show ?thesis by (simp add: bitset_has_elem_in_range_def e)
  next
    case False
    consider "high < ?f" | "low \<le> ?f" "?f \<le> high" | "?f < low" "?l < low" | "?f < low" "low \<le> ?l"
      by linarith
    then show ?thesis
    proof cases
      case 1
      then show ?thesis using f(2) by (fastforce simp: bitset_has_elem_in_range_def)
    next
      case 2
      then show ?thesis using f(1) [OF False] e False by (auto simp: bitset_has_elem_in_range_def)
    next
      case 3
      then have "\<not> (\<exists>x\<in>?S. low \<le> x \<and> x \<le> high)" using l(2) by (metis leD le_trans)
      with 3 show ?thesis by (auto simp: bitset_has_elem_in_range_def Let_def)
    next
      case 4
      have "bitset_has_elem_in_range s low high \<longleftrightarrow> low \<in> ?S \<or> (\<exists>x\<in>?S. low < x \<and> x \<le> high)"
        using 4 lh e False nx [OF False] c by (auto simp: bitset_has_elem_in_range_def Let_def)
      also have "\<dots> \<longleftrightarrow> (\<exists>x\<in>?S. low \<le> x \<and> x \<le> high)" using lh by (auto simp: le_less)
      finally show ?thesis .
    qed
  qed
qed

text \<open>Range extraction.\<close>

lemma le_div_mod: "a \<le> b \<longleftrightarrow> a div 8 < b div 8 \<or> a div 8 = b div 8 \<and> a mod 8 \<le> (b mod 8 :: nat)"
proof (cases "a div 8 = b div 8")
  case True
  then show ?thesis using div_mult_mod_eq [of a 8] div_mult_mod_eq [of b 8] by linarith
next
  case False
  then show ?thesis by (metis div_le_mono le_neq_implies_less nat_le_linear not_less)
qed

lemma bit_keep_low: "bit (keep_low high b) n \<longleftrightarrow> n \<le> high mod 8 \<and> bit b n"
proof -
  have "n < 8 \<Longrightarrow> high mod 8 < 8 \<Longrightarrow> n + (7 - high mod 8) < 8 \<longleftrightarrow> n \<le> high mod 8" by auto
  then show ?thesis
    by (auto simp: keep_low_def modbpb_mod Let_def bit_drop_bit_eq bit_push_bit_iff add.commute
        dest: bit_byte_less)
qed

lemma bit_keep_high: "bit (keep_high low b) n \<longleftrightarrow> low mod 8 \<le> n \<and> bit b n"
  by (auto simp: keep_high_def modbpb_mod Let_def bit_drop_bit_eq bit_push_bit_iff dest: bit_byte_less)

lemma memcpy_nth:
  assumes "start + n \<le> length dst" "start + n \<le> length src"
  shows "length (memcpy dst src start n) = length dst"
    and "j < length dst \<Longrightarrow> memcpy dst src start n ! j =
      (if start \<le> j \<and> j < start + n then src ! j else dst ! j)"
  using assms by (auto simp: memcpy_def nth_append)

lemma bitset_get_subset_in_range_correct:
  assumes s: "bitset_wf s" and t: "bitset_wf sub" and lh: "low \<le> high" "high < 4294967288"
  shows "bitset_set (bitset_get_subset_in_range s low high sub) = bitset_set s \<inter> {low..high}"
    and "bitset_wf (bitset_get_subset_in_range s low high sub)"
proof -
  let ?S = "bitset_set s" and ?f = "bitset_get_first s" and ?l = "bitset_get_last s"
  let ?r = "bitset_get_subset_in_range s low high sub"
  have e: "?f = BS_UNDEF \<longleftrightarrow> ?S = {}" by (rule get_first_BS_UNDEF [OF s])
  have f: "?S \<noteq> {} \<Longrightarrow> ?f \<in> ?S" "\<And>x. x \<in> ?S \<Longrightarrow> ?f \<le> x"
    and l: "?S \<noteq> {} \<Longrightarrow> ?l \<in> ?S" "\<And>x. x \<in> ?S \<Longrightarrow> x \<le> ?l"
    by (auto simp: bitset_get_first_correct bitset_get_last_correct s first_of_in first_of_le
        last_of_in last_of_ge)
  have c: "bitset_set (bitset_clean sub) = {}" "bitset_wf (bitset_clean sub)"
    using t by (simp_all add: bitset_clean_wf)
  have "bitset_set ?r = ?S \<inter> {low..high} \<and> bitset_wf ?r"
  proof (cases "?S = {} \<or> low > ?l \<or> high < ?f")
    case True
    then have "?r = bitset_clean sub" using e by (auto simp: bitset_get_subset_in_range_def Let_def)
    moreover have "?S \<inter> {low..high} = {}" using True f l by (force dest: leD)
    ultimately show ?thesis using c by simp
  next
    case False
    define hb lb fb eb where b: "hb = high div 8" "lb = low div 8" "fb = ?f div 8" "eb = ?l div 8"
    let ?p = "buf s" and ?lk = "low mod 8" and ?hk = "high mod 8"
    define t1 where "t1 = (if hb + 1 > m_size (bitset_clean sub)
      then bitset_alloc (bitset_clean sub) (hb + 1) else bitset_clean sub)"
    have hb: "hb + 1 < 536870912" using lh(2) unfolding b by linarith
    have t1: "bitset_set t1 = {}" "bitset_wf t1" "hb < length (buf t1)"
    proof -
      show "bitset_set t1 = {}" using c by (simp add: t1_def bitset_alloc_correct)
      show "bitset_wf t1" using c hb bitset_alloc_wf [OF hb] by (simp add: t1_def)
      show "hb < length (buf t1)"
        using bitset_wfD [OF c(2)] by (auto simp: t1_def bitset_alloc_def)
    qed
    have z: "\<not> bit (buf t1 ! j) n" if "j < length (buf t1)" for j n
      using t1(1) that by (auto simp: bitset_set_def bset_empty_iff)
    have ord: "fb \<le> hb" "lb \<le> eb" "fb \<le> eb" "lb \<le> hb" "eb < length ?p"
      using False f l lh unfolding b by (auto intro: div_le_mono simp: bitset_set_def bset_iff)
    have Sb: "fb \<le> j \<and> j \<le> eb" if "j < length ?p" "k < 8" "bit (?p ! j) k" for j k
    proof -
      have "8 * j + k \<in> ?S" using that by (simp add: bitset_set_def)
      from div_le_mono [OF f(2) [OF this], of 8] div_le_mono [OF l(2) [OF this], of 8] that(2)
      show ?thesis unfolding b by simp
    qed
    define W where "W j k \<longleftrightarrow> j < length ?p \<and> bit (?p ! j) k \<and> (lb < j \<or> lb = j \<and> ?lk \<le> k) \<and>
      (j < hb \<or> j = hb \<and> k \<le> ?hk)" for j k
    note unf = bitset_get_subset_in_range_def t1_def divbpb_div b [symmetric]
    have "\<exists>r. ?r = t1\<lparr>m_ptr := Some r\<rparr> \<and> length r = length (buf t1) \<and>
      (\<forall>j<length r. \<forall>k<8. bit (r ! j) k \<longleftrightarrow> W j k)"
    proof (cases "lb < fb")
      case A: True
      show ?thesis
      proof (cases "eb < hb")
        case True
        let ?m = "memcpy (buf t1) ?p fb (eb - fb + 1)"
        have "?r = t1\<lparr>m_ptr := Some ?m\<rparr>" using False e A True by (simp add: unf Let_def)
        moreover have len: "fb + (eb - fb + 1) \<le> length (buf t1)" "fb + (eb - fb + 1) \<le> length ?p"
          using ord True t1 by auto
        moreover have "bit (?m ! j) k \<longleftrightarrow> W j k" if "j < length (buf t1)" "k < 8" for j k
          using A True Sb [OF _ that(2), of j] ord z [OF that(1)] that memcpy_nth(2) [OF len that(1)]
          by (auto simp: W_def)
        ultimately show ?thesis by (intro exI [of _ ?m]) (auto simp: memcpy_nth(1))
      next
        case B: False
        let ?q = "if int hb - 1 \<ge> int fb then memcpy (buf t1) ?p fb (hb - 1 - fb + 1) else buf t1"
        let ?m = "?q[hb := keep_low high (?p ! hb)]"
        have "?r = t1\<lparr>m_ptr := Some ?m\<rparr>" using False e A B by (simp add: unf Let_def)
        moreover have q: "length ?q = length (buf t1)"
          "j < length (buf t1) \<Longrightarrow> ?q ! j = (if fb \<le> j \<and> j < hb then ?p ! j else buf t1 ! j)" for j
          using ord B t1 by (auto simp: memcpy_nth)
        moreover have "bit (?m ! j) k \<longleftrightarrow> W j k" if "j < length (buf t1)" "k < 8" for j k
        proof (cases "j = hb")
          case True
          then have "?m ! j = keep_low high (?p ! hb)" using q(1) that by simp
          then show ?thesis
            using A B Sb [OF _ that(2), of j] ord that True by (auto simp: bit_keep_low W_def)
        next
          case False
          then have "?m ! j = (if fb \<le> j \<and> j < hb then ?p ! j else buf t1 ! j)"
            using q(2) that by simp
          then show ?thesis
            using A B Sb [OF _ that(2), of j] ord z [OF that(1)] that False by (auto simp: W_def)
        qed
        ultimately show ?thesis by (intro exI [of _ ?m]) auto
      qed
    next
      case A: False
      let ?kh = "(buf t1)[lb := keep_high low (?p ! lb)]"
      have q0: "length ?kh = length (buf t1)"
        "j < length (buf t1) \<Longrightarrow> bit (?kh ! j) n \<longleftrightarrow> j = lb \<and> ?lk \<le> n \<and> bit (?p ! j) n" for j n
        using ord t1(3) by (auto simp: nth_list_update bit_keep_high z)
      show ?thesis
      proof (cases "eb < hb")
        case True
        let ?m = "memcpy ?kh ?p (lb + 1) (eb + 1 - (lb + 1))"
        have "?r = t1\<lparr>m_ptr := Some ?m\<rparr>" using False e A True by (simp add: unf Let_def)
        moreover have len: "lb + 1 + (eb + 1 - (lb + 1)) \<le> length ?kh"
          "lb + 1 + (eb + 1 - (lb + 1)) \<le> length ?p"
          using ord True t1 by auto
        moreover have "bit (?m ! j) k \<longleftrightarrow> W j k" if "j < length (buf t1)" "k < 8" for j k
          using A True Sb [OF _ that(2), of j] ord q0(2) [OF that(1)] that
            memcpy_nth(2) [OF len, of j] q0(1)
          by (auto simp: W_def)
        ultimately show ?thesis by (intro exI [of _ ?m]) (auto simp: memcpy_nth(1))
      next
        case B: False
        let ?c = "int hb - 1 \<ge> int (lb + 1)"
        let ?q = "if ?c then memcpy ?kh ?p (lb + 1) (hb - 1 - (lb + 1) + 1) else ?kh"
        let ?b = "if ?c then ?p ! hb else if lb = hb then ?kh ! hb else ?p ! hb"
        let ?m = "?q[hb := keep_low high ?b]"
        have "?r = t1\<lparr>m_ptr := Some ?m\<rparr>" using False e A B by (simp add: unf Let_def)
        moreover have q: "length ?q = length (buf t1)"
          "j < length (buf t1) \<Longrightarrow> ?q ! j = (if lb < j \<and> j < hb then ?p ! j else ?kh ! j)" for j
          using ord B t1 q0 by (auto simp: memcpy_nth)
        moreover have "bit (?m ! j) k \<longleftrightarrow> W j k" if "j < length (buf t1)" "k < 8" for j k
        proof (cases "j = hb")
          case True
          then have "?m ! j = keep_low high ?b" using q(1) that by simp
          then show ?thesis
            using A B Sb [OF _ that(2), of j] ord q0(2) [OF that(1), of k] that True
            by (auto simp: bit_keep_low W_def)
        next
          case False
          then have "?m ! j = (if lb < j \<and> j < hb then ?p ! j else ?kh ! j)" using q(2) that by simp
          then have m: "bit (?m ! j) k \<longleftrightarrow>
              (if lb < j \<and> j < hb then bit (?p ! j) k else j = lb \<and> ?lk \<le> k \<and> bit (?p ! j) k)"
            using q0(2) [OF that(1), of k] by presburger
          show ?thesis
            unfolding m W_def using B ord False by auto
        qed
        ultimately show ?thesis by (intro exI [of _ ?m]) auto
      qed
    qed
    then obtain r where r: "?r = t1\<lparr>m_ptr := Some r\<rparr>" "length r = length (buf t1)"
      "\<And>j k. j < length r \<Longrightarrow> k < 8 \<Longrightarrow> bit (r ! j) k \<longleftrightarrow> W j k"
      by blast
    have lt: "x div 8 < length r" if "x \<le> high" for x
      using div_le_mono [OF that, of 8] t1(3) r(2) unfolding b by linarith
    have "x \<in> bset r \<longleftrightarrow> x \<in> ?S \<inter> {low..high}" for x
      using r(3) [of "x div 8" "x mod 8"] lt [of x] le_div_mod [of low x] le_div_mod [of x high]
      by (auto simp: bset_iff bitset_set_def W_def b)
    then have "bset r = ?S \<inter> {low..high}" by blast
    moreover have "bitset_wf ?r"
      using r(1,2) t1(3) bitset_wfD [OF t1(2)] by (auto simp: bitset_wf_def)
    ultimately show ?thesis by (simp add: r(1) bitset_set_def)
  qed
  then show "bitset_set ?r = ?S \<inter> {low..high}" and "bitset_wf ?r" by auto
qed

text \<open>\<open>rev\<close> flips the positions up to \<open>last_bit_pos\<close> and keeps the others.\<close>

lemma rev_last_byte:
  fixes b :: byte
  assumes "k < 8" "n < 8"
  defines "m \<equiv> push_bit (k + 1) 1 - 1 :: 32 word"
  shows "bit (ucast ((ucast b AND NOT m) OR (NOT (ucast b) AND m)) :: byte) n \<longleftrightarrow>
    (if n \<le> k then \<not> bit b n else bit b n)"
proof -
  have "m = mask (k + 1)" by (simp add: m_def mask_eq_exp_minus_1 push_bit_eq_mult)
  then have "bit m n \<longleftrightarrow> n \<le> k" using assms by (auto simp: bit_mask_iff)
  with assms(2) show ?thesis by (auto simp: bit_ucast_iff bit_or_iff bit_and_iff bit_not_iff)
qed

lemma bitset_rev_correct:
  assumes s: "bitset_wf s" and e: "e div 8 < m_size s"
  shows "bitset_set (bitset_rev s e) = {x. x \<in> bitset_set s \<longleftrightarrow> e < x} \<inter> {..<8 * m_size s}"
    and "bitset_wf (bitset_rev s e)"
proof -
  note w = bitset_wfD [OF s]
  let ?b = "e div 8" and ?p = "buf s"
  let ?r = "byte_loop (\<lambda>a b. NOT a) (?b div 4 * 4) ?b ?p (unit_loop (\<lambda>a b. NOT a) (?b div 4) ?p ?p)"
  let ?last = "ucast (?r ! ?b) :: 32 word"
  let ?m = "push_bit (e mod 8 + 1) 1 - 1 :: 32 word"
  let ?q = "?r[?b := ucast ((?last AND NOT ?m) OR (NOT ?last AND ?m))]"
  have bl: "?b \<le> length ?p" using w e by simp
  have nb: "n < LENGTH('a) \<Longrightarrow> bit (NOT a) n \<longleftrightarrow> \<not> bit a n" for a :: "'a::len word" and n
    by (simp add: bit_not_iff)
  note mix = mixed_loop_correct [of "\<lambda>a b. NOT a" "\<lambda>x y. \<not> x" "\<lambda>a b. NOT a" ?b ?p "?b div 4" ?p,
    OF _ _ bl refl]
  have r: "length ?r = length ?p" "bset ?r = {x. x div 8 < length ?p \<and>
      (if x div 8 < ?b then \<not> bit (?p ! (x div 8)) (x mod 8) else bit (?p ! (x div 8)) (x mod 8))}"
    using mix by (auto simp: bit_not_iff)
  have eq: "bitset_rev s e = s\<lparr>m_ptr := Some ?q\<rparr>" by (simp add: bitset_rev_def Let_def)
  have "x \<in> bset ?q \<longleftrightarrow> (x \<in> bitset_set s \<longleftrightarrow> e < x) \<and> x < 8 * m_size s" for x
  proof -
    have xm: "x mod 8 < 8" "e mod 8 < 8" by simp_all
    have rb: "x div 8 = ?b \<Longrightarrow> bit (?r ! ?b) (x mod 8) \<longleftrightarrow> bit (?p ! ?b) (x mod 8)"
    proof -
      assume x: "x div 8 = ?b"
      have "x \<in> bset ?r \<longleftrightarrow> bit (?p ! ?b) (x mod 8)" unfolding r(2) using x w e by simp
      with x r(1) w e show ?thesis by (simp add: bset_iff)
    qed
    have sz: "x < 8 * m_size s \<longleftrightarrow> x div 8 < m_size s" by auto
    have lt: "e < x \<longleftrightarrow> \<not> (x div 8 < ?b \<or> x div 8 = ?b \<and> x mod 8 \<le> e mod 8)"
      using le_div_mod [of x e] by linarith
    have bl': "?b < length ?r" using r(1) e w by simp
    have in_r: "x \<in> bset ?r \<longleftrightarrow> x div 8 < length ?p \<and>
      (if x div 8 < ?b then \<not> bit (?p ! (x div 8)) (x mod 8) else bit (?p ! (x div 8)) (x mod 8))"
      unfolding r(2) by simp
    show ?thesis
      unfolding bset_update [OF bl'] rev_last_byte [OF xm(2,1)] in_r lt sz bitset_set_def bset_iff [of x ?p]
      using rb w e by (cases "x div 8 = ?b") (simp_all, auto)
  qed
  then show "bitset_set (bitset_rev s e) = {x. x \<in> bitset_set s \<longleftrightarrow> e < x} \<inter> {..<8 * m_size s}"
    by (auto simp: eq bitset_set_def)
  show "bitset_wf (bitset_rev s e)" using w r e by (auto simp: eq bitset_wf_def)
qed

section \<open>The dense set as an implementation of the interface\<close>

text \<open>A dense set needs no manager: the manager component is the unit value.\<close>

definition bitset_inv :: "byte list \<Rightarrow> BitSet \<Rightarrow> bool" where
  "bitset_inv past s \<longleftrightarrow> bitset_wf s \<and> 3 \<le> length past"

interpretation dense: set_impl bitset_set "bitset_inv past" "\<lambda>_ :: unit. True"
  "\<lambda>e. e < 4294967288" "bitset_init 1" "\<lambda>s p. (bitset_clean s, p)"
  "\<lambda>s e p. (bitset_bunion_elem s e, p)" "\<lambda>s e p. (bitset_diff_elem s e, p)"
  "\<lambda>s t p. (bitset_bunion s t, p)" "\<lambda>s t p. (bitset_diff s t, p)"
  "\<lambda>s t p. (bitset_intersect s t, p)" "\<lambda>s t p. (bitset_copy s t, p)" "bitset_is_equal past past"
  bitset_is_empty
  for past
  by unfold_locales
    (auto simp: bitset_inv_def bitset_init_wf bitset_clean_wf bitset_is_empty_correct
      bitset_bunion_elem_correct bitset_diff_elem_correct
      bitset_bunion_correct bitset_diff_correct bitset_intersect_correct bitset_copy_correct
      bitset_is_equal_correct)

interpretation dense_iter: set_iter bitset_set bitset_wf "\<lambda>s. (bitset_get_first s, ())"
  "\<lambda>s e c. (bitset_get_next s e, c)" "\<lambda>s e c. True"
  by unfold_locales
    (auto simp: bitset_get_first_correct bitset_get_next_correct BS_UNDEF_def dest: bitset_set_bound)

section \<open>Properties\<close>

text \<open>
  C36: on every well-formed set, whose buffer has fewer than 2^29 bytes, the iterators and the counter, with their
  unit-wise scans and table lookups, compute the least element, the greatest element, the next element above a given
  position, or \<open>BS_UNDEF\<close> when there is none, and the cardinality of the set of bits in the buffer.
\<close>

theorem bitset_iterators:
  assumes "bitset_wf s"
  shows "bitset_get_first s = first_of (bitset_set s) \<and> bitset_get_last s = last_of (bitset_set s) \<and>
    bitset_get_next s e = next_of (bitset_set s) e \<and>
    bitset_get_elem_count s = card (bitset_set s)"
  using assms
  by (simp add: bitset_get_first_correct bitset_get_last_correct bitset_get_next_correct
      bitset_get_elem_count_correct)

lemma bitset_iterators_witness:
  "last_of (bitset_set \<lparr>m_size = 5, m_ptr = Some [0, 6, 0, 0, 9]\<rparr>) = 35 \<and>
   next_of (bitset_set \<lparr>m_size = 5, m_ptr = Some [0, 6, 0, 0, 9]\<rparr>) 10 = 32"
proof -
  have w: "bitset_wf \<lparr>m_size = 5, m_ptr = Some [0, 6, 0, 0, 9]\<rparr>" by code_simp
  have v: "bitset_get_last \<lparr>m_size = 5, m_ptr = Some [0, 6, 0, 0, 9]\<rparr> = 35 \<and>
    bitset_get_next \<lparr>m_size = 5, m_ptr = Some [0, 6, 0, 0, 9]\<rparr> 10 = 32" by code_simp
  from v bitset_iterators [OF w, of 10] show ?thesis by simp
qed

text \<open>
  C28: the updates implement the set operations they name and keep the invariant: union and
  insertion (which grow the buffer), difference, removal, intersection, copy (which may shrink to
  the last used byte) and complement.
\<close>

theorem bitset_updates:
  assumes "bitset_wf s" and "bitset_wf t"
  shows "bitset_set (bitset_bunion s t) = bitset_set s \<union> bitset_set t \<and>
    bitset_set (bitset_diff s t) = bitset_set s - bitset_set t \<and>
    bitset_set (bitset_intersect s t) = bitset_set s \<inter> bitset_set t \<and>
    bitset_set (bitset_copy s t) = bitset_set t \<and>
    bitset_set (bitset_complement s t) = bitset_set t - bitset_set s \<and>
    bitset_set (bitset_diff_elem s e) = bitset_set s - {e} \<and>
    (e < 4294967288 \<longrightarrow> bitset_set (bitset_bunion_elem s e) = insert e (bitset_set s) \<and>
       bitset_wf (bitset_bunion_elem s e)) \<and>
    bitset_wf (bitset_bunion s t) \<and> bitset_wf (bitset_diff s t) \<and> bitset_wf (bitset_intersect s t) \<and>
    bitset_wf (bitset_copy s t) \<and> bitset_wf (bitset_complement s t) \<and> bitset_wf (bitset_diff_elem s e)"
  using assms
  by (simp add: bitset_bunion_correct bitset_diff_correct bitset_intersect_correct
      bitset_copy_correct bitset_complement_correct bitset_diff_elem_correct
      bitset_bunion_elem_correct)

lemma bitset_updates_witness:
  "bitset_set (bitset_bunion (bitset_init 1) \<lparr>m_size = 3, m_ptr = Some [1, 2, 0]\<rparr>) =
     bitset_set (bitset_init 1) \<union> bitset_set \<lparr>m_size = 3, m_ptr = Some [1, 2, 0]\<rparr> \<and>
   bitset_bunion (bitset_init 1) \<lparr>m_size = 3, m_ptr = Some [1, 2, 0]\<rparr> =
     \<lparr>m_size = 2, m_ptr = Some [1, 2]\<rparr> \<and>
   bitset_set (bitset_bunion_elem (bitset_init 1) 9) = insert 9 (bitset_set (bitset_init 1))"
proof -
  have w: "bitset_wf (bitset_init 1)" "bitset_wf \<lparr>m_size = 3, m_ptr = Some [1, 2, 0]\<rparr>"
    by code_simp+
  have v: "bitset_bunion (bitset_init 1) \<lparr>m_size = 3, m_ptr = Some [1, 2, 0]\<rparr> =
     \<lparr>m_size = 2, m_ptr = Some [1, 2]\<rparr>" by code_simp
  from v bitset_updates [OF w, of 9] show ?thesis by simp
qed

text \<open>
  The predicates decide what they say. Equality holds whatever the memory behind the two
  buffers contains; containment is false of an empty receiver even when the argument is empty.
\<close>

theorem bitset_predicates:
  assumes "bitset_wf s" and "bitset_wf t" and "3 \<le> length past1" and "3 \<le> length past2"
  shows "(bitset_is_equal past1 past2 s t \<longleftrightarrow> bitset_set s = bitset_set t) \<and>
    (bitset_is_contain s t strict \<longleftrightarrow> bitset_set s \<noteq> {} \<and>
      (if strict then bitset_set t \<subset> bitset_set s else bitset_set t \<subseteq> bitset_set s)) \<and>
    (bitset_is_intersect s t \<longleftrightarrow> bitset_set s \<inter> bitset_set t \<noteq> {}) \<and>
    (bitset_is_empty s \<longleftrightarrow> bitset_set s = {}) \<and>
    (bitset_is_contain_elem s e \<longleftrightarrow> e \<in> bitset_set s)"
  using assms
  by (simp add: bitset_is_equal_correct bitset_is_contain_correct bitset_is_intersect_correct
      bitset_is_empty_correct bitset_is_contain_elem_correct)

lemma bitset_predicates_witness:
  "bitset_set \<lparr>m_size = 1, m_ptr = Some [5]\<rparr> = bitset_set \<lparr>m_size = 3, m_ptr = Some [5, 0, 0]\<rparr> \<and>
   bitset_set \<lparr>m_size = 1, m_ptr = Some [5]\<rparr> \<inter> bitset_set \<lparr>m_size = 3, m_ptr = Some [5, 0, 0]\<rparr> \<noteq> {}"
proof -
  have w: "bitset_wf \<lparr>m_size = 1, m_ptr = Some [5]\<rparr>" "bitset_wf \<lparr>m_size = 3, m_ptr = Some [5, 0, 0]\<rparr>"
    "3 \<le> length [7 :: byte, 8, 9]" "3 \<le> length [0 :: byte, 0, 0]" by code_simp+
  have v: "bitset_is_equal [7, 8, 9] [0, 0, 0] \<lparr>m_size = 1, m_ptr = Some [5]\<rparr>
      \<lparr>m_size = 3, m_ptr = Some [5, 0, 0]\<rparr>"
    "bitset_is_intersect \<lparr>m_size = 1, m_ptr = Some [5]\<rparr> \<lparr>m_size = 3, m_ptr = Some [5, 0, 0]\<rparr>"
    by code_simp+
  from v bitset_predicates [OF w, of False 0] show ?thesis by blast
qed

text \<open>
  The range operations. \<open>get_subset_in_range\<close> extracts exactly the elements of the range into
  any destination, \<open>has_elem_in_range\<close> decides whether there are some, and \<open>rev\<close> flips the
  positions up to the given one and leaves those above it.
\<close>

theorem bitset_ranges:
  assumes "bitset_wf s" and "bitset_wf sub" and "low \<le> high" and "high < 4294967288"
  shows "bitset_set (bitset_get_subset_in_range s low high sub) = bitset_set s \<inter> {low..high} \<and>
    bitset_wf (bitset_get_subset_in_range s low high sub) \<and>
    (bitset_has_elem_in_range s low high \<longleftrightarrow> bitset_set s \<inter> {low..high} \<noteq> {}) \<and>
    (high div 8 < m_size s \<longrightarrow> bitset_wf (bitset_rev s high) \<and>
       bitset_set (bitset_rev s high) = {x. x \<le> high \<and> x \<notin> bitset_set s} \<union>
         {x \<in> bitset_set s. high < x})"
proof -
  have h: "(\<exists>x\<in>bitset_set s. low \<le> x \<and> x \<le> high) \<longleftrightarrow> bitset_set s \<inter> {low..high} \<noteq> {}" by auto
  have r: "{x. x \<in> bitset_set s \<longleftrightarrow> high < x} \<inter> {..<8 * m_size s} =
      {x. x \<le> high \<and> x \<notin> bitset_set s} \<union> {x \<in> bitset_set s. high < x}" if "high div 8 < m_size s"
  proof -
    have "high < 8 * m_size s" using that by linarith
    then show ?thesis using bitset_set_less [OF assms(1)] by auto
  qed
  show ?thesis
    using assms h r
    by (simp add: bitset_get_subset_in_range_correct bitset_has_elem_in_range_correct bitset_rev_correct)
qed

lemma bitset_ranges_witness:
  "bitset_set \<lparr>m_size = 2, m_ptr = Some [240, 1]\<rparr> =
     bitset_set \<lparr>m_size = 2, m_ptr = Some [255, 3]\<rparr> \<inter> {4..8}"
proof -
  have w: "bitset_wf \<lparr>m_size = 2, m_ptr = Some [255, 3]\<rparr>" "bitset_wf (bitset_init 1)"
    "(4 :: nat) \<le> 8" "(8 :: nat) < 4294967288" by code_simp+
  have v: "bitset_get_subset_in_range \<lparr>m_size = 2, m_ptr = Some [255, 3]\<rparr> 4 8 (bitset_init 1) =
      \<lparr>m_size = 2, m_ptr = Some [240, 1]\<rparr>" by code_simp
  from v bitset_ranges [OF w] show ?thesis by simp
qed

text \<open>
  \<open>bs_union\<close>, \<open>bs_diff\<close> and \<open>bs_intersect\<close> give the same set whether the result object is the
  first operand, the second operand or a third one.
\<close>

theorem bs_alias_safe:
  assumes "bitset_wf s" and "bitset_wf t" and "bitset_wf res"
  shows "bitset_set (bs_union a s t res) = bitset_set s \<union> bitset_set t \<and>
    bitset_set (bs_diff a s t res) = bitset_set s - bitset_set t \<and>
    bitset_set (bs_intersect a s t res) = bitset_set s \<inter> bitset_set t"
  using assms by (simp add: bs_union_correct bs_diff_correct bs_intersect_correct)

lemma bs_alias_safe_witness:
  "bitset_set \<lparr>m_size = 1, m_ptr = Some [4]\<rparr> =
     bitset_set \<lparr>m_size = 1, m_ptr = Some [6]\<rparr> - bitset_set \<lparr>m_size = 1, m_ptr = Some [3]\<rparr>"
proof -
  have w: "bitset_wf \<lparr>m_size = 1, m_ptr = Some [6]\<rparr>" "bitset_wf \<lparr>m_size = 1, m_ptr = Some [3]\<rparr>"
    "bitset_wf \<lparr>m_size = 1, m_ptr = Some [3]\<rparr>" by code_simp+
  have "bs_diff ResIsSet2 \<lparr>m_size = 1, m_ptr = Some [6]\<rparr> \<lparr>m_size = 1, m_ptr = Some [3]\<rparr>
      \<lparr>m_size = 1, m_ptr = Some [3]\<rparr> = \<lparr>m_size = 1, m_ptr = Some [4]\<rparr>" by code_simp
  with bs_alias_safe [OF w, of ResIsSet2] show ?thesis by simp
qed

text \<open>
  At the largest buffer a set can grow to, the 32-bit bound \<open>MULBPB(m_size)\<close> wraps to zero and
  \<open>is_contain\<close> denies every position, although the set got there by inserting one.
\<close>

theorem bitset_contain_wraps:
  assumes "m_size s = 536870912"
  shows "\<not> bitset_is_contain_elem s e"
  using assms by (simp add: bitset_is_contain_elem_def mulbpb_def u32_def push_bit_eq_mult)

lemma bitset_contain_wraps_witness:
  "\<not> bitset_is_contain_elem (bitset_bunion_elem (bitset_init 1) 4294967294) 4294967294"
  by (rule bitset_contain_wraps)
    (simp add: bitset_bunion_elem_def bitset_init_def divbpb_div Let_def)

end
