(* ===== verification/SBitSet.thy ===== *)
theory SBitSet
  imports BitSetQuery
begin

text \<open>
  The sparse bit set \<open>SBitSetCore\<close> and the dual set \<open>DBitSetCore\<close> of \<^verbatim>\<open>src/com/sbs.h\<close>
  and \<^verbatim>\<open>src/com/sbs.impl\<close>: a list of segments, each a start position and a \<open>BitSet\<close> of the
  \<open>BitsPerSeg\<close> positions from there. Segments come from and return to the free list of a
  \<open>SegMgr\<close>, which every operation receives and returns. The linked list with its previous and
  next pointers is a list; the merging double loops are recursions on the two lists. The
  containers of the list nodes (\<open>SC\<close> cells) and the memory pools are not modelled.

  \<open>sbs_set\<close> is the abstraction and \<open>segs_wf\<close> the invariant: starts are increasing multiples of
  \<open>BitsPerSeg\<close> and no segment is empty or reaches over its end.
\<close>

section \<open>Segments and their manager\<close>

record SEG =
  seg_start :: nat
  seg_bs :: BitSet

type_synonym SegMgr = "SEG list"

definition SEG_new :: SEG where
  "SEG_new = \<lparr>seg_start = 0, seg_bs = bitset_clean (bitset_init 1)\<rparr>"

definition SEG_copy :: "SEG \<Rightarrow> SEG \<Rightarrow> SEG" where
  "SEG_copy t src = \<lparr>seg_start = seg_start src, seg_bs = bitset_copy (seg_bs t) (seg_bs src)\<rparr>"

definition SEG_clean :: "SEG \<Rightarrow> SEG" where
  "SEG_clean s = \<lparr>seg_start = 0, seg_bs = bitset_clean (seg_bs s)\<rparr>"

definition seg_end :: "nat \<Rightarrow> SEG \<Rightarrow> nat" where
  "seg_end B s = u32_sub (u32 (seg_start s + B)) 1"

definition allocSEG :: "SegMgr \<Rightarrow> SEG \<times> SegMgr" where
  "allocSEG sm = (case sm of [] \<Rightarrow> (SEG_new, []) | s # sm' \<Rightarrow> (s, sm'))"

definition freeSEG :: "SEG \<Rightarrow> SegMgr \<Rightarrow> SegMgr" where
  "freeSEG s sm = SEG_clean s # sm"

section \<open>SBitSetCore\<close>

text \<open>\<open>clean\<close>.\<close>

definition sbs_clean :: "SEG list \<Rightarrow> SegMgr \<Rightarrow> SEG list \<times> SegMgr" where
  "sbs_clean segs sm = ([], fold freeSEG segs sm)"

text \<open>\<open>copy\<close>: a fresh segment per source segment, appended in order.\<close>

fun copy_segs :: "SEG list \<Rightarrow> SegMgr \<Rightarrow> SEG list \<times> SegMgr" where
  "copy_segs [] sm = ([], sm)"
| "copy_segs (s # src) sm =
     (let (t, sm) = allocSEG sm; (r, sm) = copy_segs src sm in (SEG_copy t s # r, sm))"

definition sbs_copy :: "SEG list \<Rightarrow> SEG list \<Rightarrow> SegMgr \<Rightarrow> SEG list \<times> SegMgr" where
  "sbs_copy segs src sm = (let (_, sm) = sbs_clean segs sm in copy_segs src sm)"

text \<open>\<open>bunion(SBitSetCore const&)\<close>: the merge of the two segment lists.\<close>

fun sbs_bunion :: "SEG list \<Rightarrow> SEG list \<Rightarrow> SegMgr \<Rightarrow> SEG list \<times> SegMgr" where
  "sbs_bunion tgt [] sm = (tgt, sm)"
| "sbs_bunion [] (s # src) sm =
     (let (x, sm) = allocSEG sm; (r, sm) = sbs_bunion [] src sm in (SEG_copy x s # r, sm))"
| "sbs_bunion (t # tgt) (s # src) sm =
     (if seg_start s < seg_start t then
        (let (x, sm) = allocSEG sm; (r, sm) = sbs_bunion (t # tgt) src sm
         in (SEG_copy x s # r, sm))
      else if seg_start s = seg_start t then
        (let t = t\<lparr>seg_bs := bitset_bunion (seg_bs t) (seg_bs s)\<rparr>; (r, sm) = sbs_bunion tgt src sm
         in (t # r, sm))
      else (let (r, sm) = sbs_bunion tgt (s # src) sm in (t # r, sm)))"

text \<open>\<open>bunion(BSIdx)\<close>.\<close>

definition new_elem_seg :: "nat \<Rightarrow> nat \<Rightarrow> SEG \<Rightarrow> SEG" where
  "new_elem_seg B elem x =
     (let st = elem div B * B
      in \<lparr>seg_start = st, seg_bs = bitset_bunion_elem (seg_bs x) (elem - st)\<rparr>)"

fun sbs_bunion_elem :: "nat \<Rightarrow> SEG list \<Rightarrow> nat \<Rightarrow> SegMgr \<Rightarrow> SEG list \<times> SegMgr" where
  "sbs_bunion_elem B [] elem sm = (let (x, sm) = allocSEG sm in ([new_elem_seg B elem x], sm))"
| "sbs_bunion_elem B (s # segs) elem sm =
     (if elem < seg_start s
      then (let (x, sm) = allocSEG sm in (new_elem_seg B elem x # s # segs, sm))
      else if elem \<le> seg_end B s
      then (s\<lparr>seg_bs := bitset_bunion_elem (seg_bs s) (elem - seg_start s)\<rparr> # segs, sm)
      else (let (r, sm) = sbs_bunion_elem B segs elem sm in (s # r, sm)))"

text \<open>\<open>diff(BSIdx)\<close>: a segment that becomes empty is unlinked and freed.\<close>

fun sbs_diff_elem :: "nat \<Rightarrow> SEG list \<Rightarrow> nat \<Rightarrow> SegMgr \<Rightarrow> SEG list \<times> SegMgr" where
  "sbs_diff_elem B [] elem sm = ([], sm)"
| "sbs_diff_elem B (s # segs) elem sm =
     (if elem < seg_start s then (s # segs, sm)
      else if elem \<le> seg_end B s then
        (let s = s\<lparr>seg_bs := bitset_diff_elem (seg_bs s) (elem - seg_start s)\<rparr>
         in if bitset_is_empty (seg_bs s) then (segs, freeSEG s sm) else (s # segs, sm))
      else (let (r, sm) = sbs_diff_elem B segs elem sm in (s # r, sm)))"

text \<open>\<open>diff(SBitSetCore const&)\<close> and \<open>intersect\<close>.\<close>

fun sbs_diff :: "SEG list \<Rightarrow> SEG list \<Rightarrow> SegMgr \<Rightarrow> SEG list \<times> SegMgr" where
  "sbs_diff tgt [] sm = (tgt, sm)"
| "sbs_diff [] (s # src) sm = ([], sm)"
| "sbs_diff (t # tgt) (s # src) sm =
     (if seg_start s < seg_start t then sbs_diff (t # tgt) src sm
      else if seg_start s > seg_start t then
        (let (r, sm) = sbs_diff tgt (s # src) sm in (t # r, sm))
      else
        (let t = t\<lparr>seg_bs := bitset_diff (seg_bs t) (seg_bs s)\<rparr>
         in if bitset_is_empty (seg_bs t) then sbs_diff tgt (s # src) (freeSEG t sm)
            else (let (r, sm) = sbs_diff tgt (s # src) sm in (t # r, sm))))"

fun sbs_intersect :: "SEG list \<Rightarrow> SEG list \<Rightarrow> SegMgr \<Rightarrow> SEG list \<times> SegMgr" where
  "sbs_intersect [] src sm = ([], sm)"
| "sbs_intersect (t # tgt) [] sm = sbs_intersect tgt [] (freeSEG t sm)"
| "sbs_intersect (t # tgt) (s # src) sm =
     (if seg_start s < seg_start t then
        (if src = [] then sbs_intersect tgt [s] (freeSEG t sm)
         else sbs_intersect (t # tgt) src sm)
      else if seg_start s > seg_start t then sbs_intersect tgt (s # src) (freeSEG t sm)
      else
        (let t = t\<lparr>seg_bs := bitset_intersect (seg_bs t) (seg_bs s)\<rparr>
         in if bitset_is_empty (seg_bs t) then sbs_intersect tgt (s # src) (freeSEG t sm)
            else (let (r, sm) = sbs_intersect tgt (s # src) sm in (t # r, sm))))"

text \<open>Queries. \<open>past\<close> is the memory behind the byte buffers, see \<open>bitset_is_equal\<close>.\<close>

fun sbs_is_equal :: "byte list \<Rightarrow> SEG list \<Rightarrow> SEG list \<Rightarrow> bool" where
  "sbs_is_equal past [] [] = True"
| "sbs_is_equal past (t # tgt) (s # src) =
     (if seg_start s \<noteq> seg_start t then False
      else if \<not> bitset_is_equal past past (seg_bs s) (seg_bs t) then False
      else sbs_is_equal past tgt src)"
| "sbs_is_equal past _ _ = False"

fun sbs_is_intersect :: "SEG list \<Rightarrow> SEG list \<Rightarrow> bool" where
  "sbs_is_intersect (t # tgt) (s # src) =
     (if seg_start s < seg_start t then sbs_is_intersect (t # tgt) src
      else if seg_start s = seg_start t then
        (if bitset_is_intersect (seg_bs s) (seg_bs t) then True else sbs_is_intersect tgt src)
      else sbs_is_intersect tgt (s # src))"
| "sbs_is_intersect _ _ = False"

fun sbs_is_contain_elem :: "nat \<Rightarrow> SEG list \<Rightarrow> nat \<Rightarrow> bool" where
  "sbs_is_contain_elem B [] elem = False"
| "sbs_is_contain_elem B (s # segs) elem =
     (if elem < seg_start s then False
      else if elem \<ge> seg_start s \<and> elem \<le> seg_end B s
      then bitset_is_contain_elem (seg_bs s) (elem - seg_start s)
      else sbs_is_contain_elem B segs elem)"

fun sbs_is_contain :: "SEG list \<Rightarrow> SEG list \<Rightarrow> bool" where
  "sbs_is_contain cur [] = True"
| "sbs_is_contain [] (s # src) = False"
| "sbs_is_contain (c # cur) (s # src) =
     (if seg_start c < seg_start s then sbs_is_contain cur (s # src)
      else if seg_start c = seg_start s then
        (if \<not> bitset_is_contain (seg_bs c) (seg_bs s) False then False
         else sbs_is_contain cur src)
      else False)"

definition sbs_is_empty :: "SEG list \<Rightarrow> bool" where
  "sbs_is_empty segs \<longleftrightarrow> segs = []"

definition sbs_get_elem_count :: "SEG list \<Rightarrow> nat" where
  "sbs_get_elem_count segs = fold (\<lambda>s c. u32 (c + bitset_get_elem_count (seg_bs s))) segs 0"

text \<open>
  Iterators. The in/out argument \<open>TSEGIter ** cur\<close> points at a list node: it is modelled as the
  list from that node on, \<open>[]\<close> for null. \<open>sbs_get_next_null\<close> is \<open>get_next\<close> with a null
  argument, which searches from the head.
\<close>

definition sbs_get_first :: "SEG list \<Rightarrow> nat \<times> SEG list" where
  "sbs_get_first segs =
     (case segs of [] \<Rightarrow> (BS_UNDEF, [])
      | s # _ \<Rightarrow> (u32 (seg_start s + bitset_get_first (seg_bs s)), segs))"

definition sbs_get_last :: "SEG list \<Rightarrow> nat \<times> SEG list" where
  "sbs_get_last segs =
     (if segs = [] then (BS_UNDEF, [])
      else let s = last segs in (u32 (seg_start s + bitset_get_last (seg_bs s)), [s]))"

definition sbs_get_next :: "nat \<Rightarrow> SEG list \<Rightarrow> nat \<times> SEG list" where
  "sbs_get_next elem cur =
     (case cur of [] \<Rightarrow> (BS_UNDEF, [])
      | s # rest \<Rightarrow>
          let n = bitset_get_next (seg_bs s) (u32_sub elem (seg_start s)) in
          if n \<noteq> BS_UNDEF then (u32 (seg_start s + n), cur)
          else (case rest of [] \<Rightarrow> (BS_UNDEF, [])
                | s' # _ \<Rightarrow> (u32 (seg_start s' + bitset_get_first (seg_bs s')), rest)))"

fun sbs_get_next_null :: "nat \<Rightarrow> SEG list \<Rightarrow> nat \<Rightarrow> nat" where
  "sbs_get_next_null B [] elem = BS_UNDEF"
| "sbs_get_next_null B (s # segs) elem =
     (if elem < seg_start s then sbs_get_next_null B segs elem
      else if elem \<le> seg_end B s then
        (let n = bitset_get_next (seg_bs s) (elem - seg_start s) in
         if n \<noteq> BS_UNDEF then u32 (seg_start s + n)
         else (case segs of [] \<Rightarrow> BS_UNDEF
               | s' # _ \<Rightarrow> u32 (seg_start s' + bitset_get_first (seg_bs s'))))
      else sbs_get_next_null B segs elem)"

end
