(* ===== verification/SBitSetProps.thy ===== *)
theory SBitSetProps
  imports SBitSet
begin

section \<open>Abstraction and invariant\<close>

definition seg_set :: "SEG \<Rightarrow> nat set" where
  "seg_set s = (\<lambda>x. seg_start s + x) ` bitset_set (seg_bs s)"

definition sbs_set :: "SEG list \<Rightarrow> nat set" where
  "sbs_set segs = (\<Union>s\<in>set segs. seg_set s)"

definition seg_wf :: "nat \<Rightarrow> SEG \<Rightarrow> bool" where
  "seg_wf B s \<longleftrightarrow> bitset_wf (seg_bs s) \<and> bitset_set (seg_bs s) \<noteq> {} \<and>
     bitset_set (seg_bs s) \<subseteq> {..<B} \<and> seg_start s mod B = 0 \<and> seg_start s + B \<le> BS_UNDEF"

definition segs_wf :: "nat \<Rightarrow> SEG list \<Rightarrow> bool" where
  "segs_wf B segs \<longleftrightarrow> (\<forall>s\<in>set segs. seg_wf B s) \<and> sorted_wrt (<) (map seg_start segs)"

definition sm_wf :: "SegMgr \<Rightarrow> bool" where
  "sm_wf sm \<longleftrightarrow> (\<forall>s\<in>set sm. bitset_wf (seg_bs s) \<and> bitset_set (seg_bs s) = {} \<and> seg_start s = 0)"

lemma sbs_set_simps [simp]: "sbs_set [] = {}" "sbs_set (s # segs) = seg_set s \<union> sbs_set segs"
  by (auto simp: sbs_set_def)

lemma segs_wf_simps [simp]:
  "segs_wf B []"
  "segs_wf B (s # segs) \<longleftrightarrow> seg_wf B s \<and> segs_wf B segs \<and> (\<forall>u\<in>set segs. seg_start s < seg_start u)"
  by (auto simp: segs_wf_def)

lemma sm_wf_simps [simp]:
  "sm_wf []"
  "sm_wf (s # sm) \<longleftrightarrow> bitset_wf (seg_bs s) \<and> bitset_set (seg_bs s) = {} \<and> seg_start s = 0 \<and> sm_wf sm"
  by (auto simp: sm_wf_def)

text \<open>A position determines the start of the only segment that can hold it.\<close>

lemma seg_block:
  assumes "seg_wf B s" and "x \<in> seg_set s"
  shows "seg_start s = x div B * B"
proof -
  obtain k where k: "x = seg_start s + k" "k < B" using assms by (auto simp: seg_set_def seg_wf_def)
  have "B dvd seg_start s" using assms(1) by (auto simp: seg_wf_def)
  with k show ?thesis by (auto elim!: dvdE)
qed

lemma disj_greater:
  assumes "seg_wf B s" "segs_wf B segs" "\<forall>u\<in>set segs. seg_start s < seg_start u"
  shows "seg_set s \<inter> sbs_set segs = {}"
proof (rule ccontr)
  assume "seg_set s \<inter> sbs_set segs \<noteq> {}"
  then obtain x u where x: "x \<in> seg_set s" "u \<in> set segs" "x \<in> seg_set u" by (auto simp: sbs_set_def)
  moreover have "seg_wf B u" using x assms by (auto simp: segs_wf_def)
  ultimately show False using assms seg_block by fastforce
qed

lemma seg_range:
  assumes "seg_wf B s" and "x \<in> seg_set s"
  shows "seg_start s \<le> x" "x < seg_start s + B" "x < BS_UNDEF"
  using assms by (auto simp: seg_wf_def seg_set_def)

lemma seg_end_eq: "seg_wf B s \<Longrightarrow> seg_end B s + 1 = seg_start s + B"
  by (auto simp: seg_wf_def seg_end_def BS_UNDEF_def u32_sub_id)

lemma seg_end_less: "seg_wf B s \<Longrightarrow> x \<le> seg_end B s \<longleftrightarrow> x < seg_start s + B"
  using seg_end_eq [of B s] by auto

lemma aligned_less:
  assumes "seg_wf B s" "seg_wf B t" "seg_start s < seg_start t"
  shows "seg_start s + B \<le> seg_start t"
proof -
  have "B dvd seg_start s" "B dvd seg_start t" "0 < B" using assms by (auto simp: seg_wf_def)
  then show ?thesis using assms(3)
    by (auto elim!: dvdE) (metis Suc_leI mult_Suc_right mult_le_mono2 add.commute)
qed

text \<open>Membership is decided in the segment whose range holds the position.\<close>

lemma sbs_set_before:
  "segs_wf B segs \<Longrightarrow> \<forall>u\<in>set segs. e < seg_start u \<Longrightarrow> e \<notin> sbs_set segs"
  by (auto simp: sbs_set_def segs_wf_def) (metis seg_range(1) leD)

lemma mem_seg: "seg_start s \<le> e \<Longrightarrow> e \<in> seg_set s \<longleftrightarrow> e - seg_start s \<in> bitset_set (seg_bs s)"
  by (auto simp: seg_set_def) (metis le_add_diff_inverse image_iff)

lemma finite_seg_set [simp, intro]: "finite (seg_set s)"
  by (simp add: seg_set_def)

lemma finite_sbs_set [simp, intro]: "finite (sbs_set segs)"
  by (simp add: sbs_set_def)

lemma seg_set_empty: "seg_set s = {} \<longleftrightarrow> bitset_set (seg_bs s) = {}"
  by (simp add: seg_set_def)

section \<open>The manager\<close>

lemma allocSEG_wf:
  assumes "sm_wf sm"
  shows "bitset_wf (seg_bs (fst (allocSEG sm))) \<and> bitset_set (seg_bs (fst (allocSEG sm))) = {} \<and>
    seg_start (fst (allocSEG sm)) = 0 \<and> sm_wf (snd (allocSEG sm))"
  using assms bitset_init_wf [of 1]
  by (auto simp: allocSEG_def SEG_new_def bitset_clean_wf split: list.splits)

lemma freeSEG_wf: "bitset_wf (seg_bs s) \<Longrightarrow> sm_wf sm \<Longrightarrow> sm_wf (freeSEG s sm)"
  by (simp add: freeSEG_def SEG_clean_def bitset_clean_wf)

lemma seg_wf_bitset: "seg_wf B s \<Longrightarrow> bitset_wf (seg_bs s)"
  by (simp add: seg_wf_def)

lemma SEG_copy_correct:
  assumes "bitset_wf (seg_bs t)" "seg_wf B s"
  shows "seg_set (SEG_copy t s) = seg_set s" "seg_wf B (SEG_copy t s)"
    "seg_start (SEG_copy t s) = seg_start s"
  using assms bitset_copy_correct [OF assms(1) seg_wf_bitset [OF assms(2)]]
  by (auto simp: SEG_copy_def seg_set_def seg_wf_def)

lemma sbs_clean_correct:
  assumes "segs_wf B segs" "sm_wf sm"
  shows "fst (sbs_clean segs sm) = []" "sm_wf (snd (sbs_clean segs sm))"
proof -
  have "sm_wf (fold freeSEG segs sm)"
    using assms by (induction segs arbitrary: sm) (auto simp: freeSEG_wf seg_wf_bitset)
  then show "fst (sbs_clean segs sm) = []" "sm_wf (snd (sbs_clean segs sm))"
    by (auto simp: sbs_clean_def)
qed

section \<open>The operations\<close>

lemma copy_segs_correct:
  "copy_segs src sm = (r, sm') \<Longrightarrow> segs_wf B src \<Longrightarrow> sm_wf sm \<Longrightarrow>
   segs_wf B r \<and> sbs_set r = sbs_set src \<and> sm_wf sm' \<and> map seg_start r = map seg_start src"
proof (induction src sm arbitrary: r sm' rule: copy_segs.induct)
  case (2 s src sm)
  obtain t sm1 where t: "allocSEG sm = (t, sm1)" by fastforce
  obtain r2 sm2 where c: "copy_segs src sm1 = (r2, sm2)" by fastforce
  have a: "bitset_wf (seg_bs t)" "sm_wf sm1" using allocSEG_wf [OF 2(4)] t by auto
  have IH: "segs_wf B r2 \<and> sbs_set r2 = sbs_set src \<and> sm_wf sm2 \<and> map seg_start r2 = map seg_start src"
    using "2.IH" [OF t [symmetric] refl c] 2(3) a(2) by simp
  then have "seg_start ` set r2 = seg_start ` set src" by (metis list.set_map)
  with IH 2(2,3) t c a SEG_copy_correct [OF a(1), of B s] show ?case
    by (auto simp: ball_simps(9) [symmetric] simp del: ball_simps(9))
qed simp

lemma sbs_copy_correct:
  assumes "segs_wf B segs" "segs_wf B src" "sm_wf sm"
  shows "sbs_set (fst (sbs_copy segs src sm)) = sbs_set src"
    and "segs_wf B (fst (sbs_copy segs src sm))" and "sm_wf (snd (sbs_copy segs src sm))"
  using copy_segs_correct [OF prod.collapse [symmetric] assms(2) sbs_clean_correct(2) [OF assms(1,3)]]
  by (simp_all add: sbs_copy_def case_prod_beta Let_def)

lemma sbs_bunion_correct_aux:
  "sbs_bunion tgt src sm = (r, sm') \<Longrightarrow> segs_wf B tgt \<Longrightarrow> segs_wf B src \<Longrightarrow> sm_wf sm \<Longrightarrow>
   segs_wf B r \<and> sbs_set r = sbs_set tgt \<union> sbs_set src \<and> sm_wf sm' \<and>
   seg_start ` set r \<subseteq> seg_start ` set tgt \<union> seg_start ` set src"
proof (induction tgt src sm arbitrary: r sm' rule: sbs_bunion.induct)
  case (1 tgt sm)
  then show ?case by auto
next
  case (2 s src sm)
  obtain x sm1 where x: "allocSEG sm = (x, sm1)" by fastforce
  obtain r2 sm2 where c: "sbs_bunion [] src sm1 = (r2, sm2)" by fastforce
  have a: "bitset_wf (seg_bs x)" "sm_wf sm1" using allocSEG_wf [OF 2(5)] x by auto
  from "2.IH" [OF x [symmetric] refl c] 2(4) a(2)
  have IH: "segs_wf B r2 \<and> sbs_set r2 = sbs_set src \<and> sm_wf sm2 \<and> seg_start ` set r2 \<subseteq> seg_start ` set src"
    by simp
  have r: "r = SEG_copy x s # r2" "sm' = sm2" using 2(2) x c by auto
  have "seg_start s < seg_start u" if "u \<in> set r2" for u
    using IH that 2(4) by fastforce
  then show ?case using IH SEG_copy_correct [OF a(1), of B s] 2(4) unfolding r by auto
next
  case (3 t tgt s src sm)
  consider (lt) "seg_start s < seg_start t" | (eq) "seg_start s = seg_start t"
    | (gt) "seg_start t < seg_start s" by linarith
  then show ?case
  proof cases
    case lt
    obtain x sm1 where x: "allocSEG sm = (x, sm1)" by fastforce
    obtain r2 sm2 where c: "sbs_bunion (t # tgt) src sm1 = (r2, sm2)" by fastforce
    have a: "bitset_wf (seg_bs x)" "sm_wf sm1" using allocSEG_wf 3(7) x by (metis fst_conv snd_conv)+
    from "3.IH"(1) [OF lt x [symmetric] refl c] 3(5,6) a(2)
    have IH: "segs_wf B r2" "sbs_set r2 = sbs_set (t # tgt) \<union> sbs_set src" "sm_wf sm2"
      "seg_start ` set r2 \<subseteq> seg_start ` set (t # tgt) \<union> seg_start ` set src" by auto
    have r: "r = SEG_copy x s # r2" "sm' = sm2" using 3(4) lt x c by auto
    have "seg_start s < seg_start u" if "u \<in> set r2" for u
      using IH(4) that lt 3(5,6) by fastforce
    then show ?thesis using IH SEG_copy_correct [OF a(1), of B s] 3(5,6) unfolding r by auto
  next
    case eq
    let ?t = "t\<lparr>seg_bs := bitset_bunion (seg_bs t) (seg_bs s)\<rparr>"
    obtain r2 sm2 where c: "sbs_bunion tgt src sm = (r2, sm2)" by fastforce
    have ne: "\<not> seg_start s < seg_start t" using eq by simp
    from "3.IH"(2) [OF ne eq refl c] 3(5-7)
    have IH: "segs_wf B r2" "sbs_set r2 = sbs_set tgt \<union> sbs_set src" "sm_wf sm2"
      "seg_start ` set r2 \<subseteq> seg_start ` set tgt \<union> seg_start ` set src" by auto
    have r: "r = ?t # r2" "sm' = sm2" using 3(4) eq c by auto
    have "bitset_wf (seg_bs t)" "bitset_wf (seg_bs s)" using 3(5,6) by (auto simp: seg_wf_def)
    note bu = bitset_bunion_correct [OF this]
    have t: "seg_wf B ?t" "seg_set ?t = seg_set t \<union> seg_set s"
      using bu 3(5,6) eq by (auto simp: seg_wf_def seg_set_def image_Un)
    have "seg_start t < seg_start u" if "u \<in> set r2" for u
      using IH(4) that eq 3(5,6) by fastforce
    then show ?thesis using IH t unfolding r by auto
  next
    case gt
    obtain r2 sm2 where c: "sbs_bunion tgt (s # src) sm = (r2, sm2)" by fastforce
    have ne: "\<not> seg_start s < seg_start t" "seg_start s \<noteq> seg_start t" using gt by auto
    from "3.IH"(3) [OF ne c] 3(5-7)
    have IH: "segs_wf B r2" "sbs_set r2 = sbs_set tgt \<union> sbs_set (s # src)" "sm_wf sm2"
      "seg_start ` set r2 \<subseteq> seg_start ` set tgt \<union> seg_start ` set (s # src)" by auto
    have r: "r = t # r2" "sm' = sm2" using 3(4) ne c by auto
    have "seg_start t < seg_start u" if "u \<in> set r2" for u
      using IH(4) that gt 3(5,6) by fastforce
    then show ?thesis using IH 3(5) unfolding r by auto
  qed
qed

lemma new_elem_seg_correct:
  assumes "bitset_wf (seg_bs x)" "bitset_set (seg_bs x) = {}" "0 < B" "B < 4294967288"
    and "e div B * B + B \<le> BS_UNDEF"
  shows "seg_wf B (new_elem_seg B e x)" "seg_set (new_elem_seg B e x) = {e}"
    "seg_start (new_elem_seg B e x) = e div B * B"
proof -
  have k: "e - e div B * B = e mod B" by (simp add: minus_div_mult_eq_mod)
  have "e mod B < 4294967288" using assms(3,4) by (meson mod_less_divisor order.strict_trans)
  note ins = bitset_bunion_elem_correct [OF assms(1) this]
  show "seg_wf B (new_elem_seg B e x)" "seg_set (new_elem_seg B e x) = {e}"
    "seg_start (new_elem_seg B e x) = e div B * B"
    using ins assms by (auto simp: new_elem_seg_def Let_def seg_wf_def seg_set_def k)
qed

lemma sbs_bunion_elem_correct_aux:
  "sbs_bunion_elem B segs e sm = (r, sm') \<Longrightarrow> segs_wf B segs \<Longrightarrow> sm_wf sm \<Longrightarrow>
   0 < B \<Longrightarrow> B < 4294967288 \<Longrightarrow> e div B * B + B \<le> BS_UNDEF \<Longrightarrow>
   segs_wf B r \<and> sbs_set r = insert e (sbs_set segs) \<and> sm_wf sm' \<and>
   seg_start ` set r = insert (e div B * B) (seg_start ` set segs)"
proof (induction segs arbitrary: r sm')
  case Nil
  obtain x sm1 where x: "allocSEG sm = (x, sm1)" by fastforce
  with Nil allocSEG_wf [OF Nil(3)] new_elem_seg_correct [of x B e] show ?case by auto
next
  case (Cons s segs)
  have s: "seg_wf B s" using Cons.prems(2) by simp
  consider (lt) "e < seg_start s" | (mem) "seg_start s \<le> e" "e \<le> seg_end B s"
    | (gt) "seg_start s \<le> e" "\<not> e \<le> seg_end B s" by linarith
  then show ?case
  proof cases
    case lt
    obtain x sm1 where x: "allocSEG sm = (x, sm1)" by fastforce
    with lt Cons.prems have r: "r = new_elem_seg B e x # s # segs" "sm' = sm1" by auto
    have "e div B * B < seg_start s" using lt by (meson div_times_less_eq_dividend le_less_trans)
    then have "\<forall>u\<in>set (s # segs). e div B * B < seg_start u" using Cons.prems(2) by auto
    with r x Cons.prems allocSEG_wf [OF Cons.prems(3)] new_elem_seg_correct [of x B e]
    show ?thesis by auto
  next
    case mem
    let ?s = "s\<lparr>seg_bs := bitset_bunion_elem (seg_bs s) (e - seg_start s)\<rparr>"
    have k: "e - seg_start s < B" using mem seg_end_less [OF s] by (simp add: less_diff_conv2)
    have "bitset_wf (seg_bs s)" "e - seg_start s < 4294967288"
      using s k Cons.prems(5) by (auto simp: seg_wf_def)
    note ins = bitset_bunion_elem_correct [OF this]
    have "seg_wf B ?s" "seg_set ?s = insert e (seg_set s)"
      using ins s k mem by (auto simp: seg_wf_def seg_set_def)
    moreover have "e div B * B = seg_start s"
      using seg_block [of B ?s e] calculation by simp
    moreover have "r = ?s # segs" "sm' = sm" using mem Cons.prems by auto
    ultimately show ?thesis using Cons.prems by auto
  next
    case gt
    obtain r2 sm2 where c: "sbs_bunion_elem B segs e sm = (r2, sm2)" by fastforce
    have r: "r = s # r2" "sm' = sm2" using gt c Cons.prems by auto
    from Cons.IH [OF c] Cons.prems
    have IH: "segs_wf B r2" "sbs_set r2 = insert e (sbs_set segs)" "sm_wf sm2"
      "seg_start ` set r2 = insert (e div B * B) (seg_start ` set segs)" by auto
    have "seg_start s + B \<le> e" using gt seg_end_less [OF s, of e] by simp
    then have "(seg_start s + B) div B * B \<le> e div B * B" by (intro mult_le_mono1 div_le_mono)
    moreover have "(seg_start s + B) div B * B = seg_start s + B"
      using s by (auto simp: seg_wf_def)
    ultimately have "seg_start s < e div B * B" using Cons.prems(4) by linarith
    then have "seg_start s < seg_start u" if "u \<in> set r2" for u
    proof -
      have "seg_start u \<in> insert (e div B * B) (seg_start ` set segs)" using IH(4) that by blast
      with \<open>seg_start s < e div B * B\<close> Cons.prems(2) show ?thesis by auto
    qed
    with IH s show ?thesis unfolding r by auto
  qed
qed

lemma seg_minus:
  assumes "seg_wf B s" "seg_start s \<le> e"
  defines "s' \<equiv> s\<lparr>seg_bs := bitset_diff_elem (seg_bs s) (e - seg_start s)\<rparr>"
  shows "seg_set s' = seg_set s - {e}" "bitset_wf (seg_bs s')"
    "bitset_is_empty (seg_bs s') \<longleftrightarrow> seg_set s' = {}" "seg_set s' \<noteq> {} \<Longrightarrow> seg_wf B s'"
proof -
  note d = bitset_diff_elem_correct [OF seg_wf_bitset [OF assms(1)], of "e - seg_start s"]
  have bs: "seg_bs s' = bitset_diff_elem (seg_bs s) (e - seg_start s)" "seg_start s' = seg_start s"
    by (simp_all add: s'_def)
  have "inj (\<lambda>x. seg_start s + x)" by (simp add: inj_def)
  with d(1) assms(2) show "seg_set s' = seg_set s - {e}"
    by (simp add: bs seg_set_def image_set_diff)
  show "bitset_wf (seg_bs s')" using d(2) by (simp add: bs)
  show "bitset_is_empty (seg_bs s') \<longleftrightarrow> seg_set s' = {}"
    using bitset_is_empty_correct [OF d(2)] by (simp add: bs seg_set_empty)
  show "seg_set s' \<noteq> {} \<Longrightarrow> seg_wf B s'" unfolding seg_set_empty using d assms(1) by (auto simp: bs seg_wf_def)
qed

lemma sbs_diff_elem_correct_aux:
  "sbs_diff_elem B segs e sm = (r, sm') \<Longrightarrow> segs_wf B segs \<Longrightarrow> sm_wf sm \<Longrightarrow>
   segs_wf B r \<and> sbs_set r = sbs_set segs - {e} \<and> sm_wf sm' \<and> seg_start ` set r \<subseteq> seg_start ` set segs"
proof (induction segs arbitrary: r sm')
  case (Cons s segs)
  have s: "seg_wf B s" and segs: "segs_wf B segs" "\<forall>u\<in>set segs. seg_start s < seg_start u"
    using Cons.prems(2) by auto
  consider (lt) "e < seg_start s" | (mem) "seg_start s \<le> e" "e \<le> seg_end B s"
    | (gt) "seg_start s \<le> e" "\<not> e \<le> seg_end B s" by linarith
  then show ?case
  proof cases
    case lt
    then have "e \<notin> sbs_set (s # segs)"
      using Cons.prems(2) by (intro sbs_set_before [where B = B]) auto
    with lt Cons.prems show ?thesis by auto
  next
    case mem
    let ?s = "s\<lparr>seg_bs := bitset_diff_elem (seg_bs s) (e - seg_start s)\<rparr>"
    note m = seg_minus [OF s mem(1)]
    have "e < seg_start s + B" using mem seg_end_less [OF s] by simp
    then have "e \<notin> sbs_set segs"
      using segs s aligned_less [OF s] by (intro sbs_set_before [where B = B]) (force simp: segs_wf_def)+
    then have *: "seg_set ?s \<union> sbs_set segs = sbs_set (s # segs) - {e}" using m(1) by auto
    show ?thesis
    proof (cases "bitset_is_empty (seg_bs ?s)")
      case True
      then have "r = segs" "sm' = freeSEG ?s sm" using mem Cons.prems(1) by (auto simp: Let_def)
      moreover have "seg_set ?s = {}" using m(3) True by blast
      ultimately show ?thesis
        using * segs freeSEG_wf [OF m(2) Cons.prems(3)] by (metis Un_empty_left image_mono set_subset_Cons)
    next
      case False
      then have "r = ?s # segs" "sm' = sm" using mem Cons.prems(1) by (auto simp: Let_def)
      with * m(3,4) False segs Cons.prems(3) show ?thesis by auto
    qed
  next
    case gt
    obtain r2 sm2 where c: "sbs_diff_elem B segs e sm = (r2, sm2)" by fastforce
    have r: "r = s # r2" "sm' = sm2" using gt c Cons.prems by auto
    from Cons.IH [OF c segs(1) Cons.prems(3)]
    have IH: "segs_wf B r2" "sbs_set r2 = sbs_set segs - {e}" "sm_wf sm2"
      "seg_start ` set r2 \<subseteq> seg_start ` set segs" by auto
    have "e \<notin> seg_set s" using gt seg_range(2) [OF s, of e] seg_end_less [OF s, of e] by auto
    moreover have "seg_start s < seg_start u" if "u \<in> set r2" for u
      using IH(4) that segs(2) by fastforce
    ultimately show ?thesis using IH s unfolding r by auto
  qed
qed simp

lemma seg_meet:
  assumes t: "seg_wf B t" and s: "seg_wf B s" and st: "seg_start s = seg_start t"
  shows "seg_set (t\<lparr>seg_bs := bitset_diff (seg_bs t) (seg_bs s)\<rparr>) = seg_set t - seg_set s"
    and "seg_set (t\<lparr>seg_bs := bitset_intersect (seg_bs t) (seg_bs s)\<rparr>) = seg_set t \<inter> seg_set s"
    and "bitset_wf (bitset_diff (seg_bs t) (seg_bs s))"
    and "bitset_wf (bitset_intersect (seg_bs t) (seg_bs s))"
    and "seg_set t - seg_set s \<noteq> {} \<Longrightarrow> seg_wf B (t\<lparr>seg_bs := bitset_diff (seg_bs t) (seg_bs s)\<rparr>)"
    and "seg_set t \<inter> seg_set s \<noteq> {} \<Longrightarrow> seg_wf B (t\<lparr>seg_bs := bitset_intersect (seg_bs t) (seg_bs s)\<rparr>)"
    and "bitset_is_empty (bitset_diff (seg_bs t) (seg_bs s)) \<longleftrightarrow> seg_set t - seg_set s = {}"
    and "bitset_is_empty (bitset_intersect (seg_bs t) (seg_bs s)) \<longleftrightarrow> seg_set t \<inter> seg_set s = {}"
proof -
  note w = seg_wf_bitset [OF t] seg_wf_bitset [OF s]
  note d = bitset_diff_correct [OF w] and i = bitset_intersect_correct [OF w]
  have inj: "inj (\<lambda>x. seg_start t + x)" by (simp add: inj_def)
  show a: "seg_set (t\<lparr>seg_bs := bitset_diff (seg_bs t) (seg_bs s)\<rparr>) = seg_set t - seg_set s"
    using d(1) inj by (simp add: seg_set_def st image_set_diff)
  show b: "seg_set (t\<lparr>seg_bs := bitset_intersect (seg_bs t) (seg_bs s)\<rparr>) = seg_set t \<inter> seg_set s"
    using i(1) inj by (simp add: seg_set_def st image_Int)
  show "bitset_wf (bitset_diff (seg_bs t) (seg_bs s))" by (rule d(2))
  show "bitset_wf (bitset_intersect (seg_bs t) (seg_bs s))" by (rule i(2))
  show "seg_set t - seg_set s \<noteq> {} \<Longrightarrow> seg_wf B (t\<lparr>seg_bs := bitset_diff (seg_bs t) (seg_bs s)\<rparr>)"
    unfolding a [symmetric] seg_set_empty using d t by (auto simp: seg_wf_def)
  show "seg_set t \<inter> seg_set s \<noteq> {} \<Longrightarrow> seg_wf B (t\<lparr>seg_bs := bitset_intersect (seg_bs t) (seg_bs s)\<rparr>)"
    unfolding b [symmetric] seg_set_empty using i t by (auto simp: seg_wf_def)
  show "bitset_is_empty (bitset_diff (seg_bs t) (seg_bs s)) \<longleftrightarrow> seg_set t - seg_set s = {}"
    unfolding a [symmetric] seg_set_empty using bitset_is_empty_correct [OF d(2)] by simp
  show "bitset_is_empty (bitset_intersect (seg_bs t) (seg_bs s)) \<longleftrightarrow> seg_set t \<inter> seg_set s = {}"
    unfolding b [symmetric] seg_set_empty using bitset_is_empty_correct [OF i(2)] by simp
qed

lemma seg_disj: "seg_wf B s \<Longrightarrow> seg_wf B t \<Longrightarrow> seg_start s \<noteq> seg_start t \<Longrightarrow> seg_set s \<inter> seg_set t = {}"
  using seg_block by fastforce

lemma sbs_diff_correct_aux:
  "sbs_diff tgt src sm = (r, sm') \<Longrightarrow> segs_wf B tgt \<Longrightarrow> segs_wf B src \<Longrightarrow> sm_wf sm \<Longrightarrow>
   segs_wf B r \<and> sbs_set r = sbs_set tgt - sbs_set src \<and> sm_wf sm' \<and>
   seg_start ` set r \<subseteq> seg_start ` set tgt"
proof (induction tgt src sm arbitrary: r sm' rule: sbs_diff.induct)
  case (3 t tgt s src sm)
  have t: "seg_wf B t" "segs_wf B tgt" "\<forall>u\<in>set tgt. seg_start t < seg_start u"
    and s: "seg_wf B s" "segs_wf B src" "\<forall>u\<in>set src. seg_start s < seg_start u"
    using 3(6,7) by auto
  consider (lt) "seg_start s < seg_start t" | (eq) "seg_start s = seg_start t"
    | (gt) "seg_start t < seg_start s" by linarith
  then show ?case
  proof cases
    case lt
    then have "seg_set s \<inter> sbs_set (t # tgt) = {}"
      using t by (intro disj_greater [OF s(1), of "t # tgt"]) auto
    with "3.IH"(1) [OF lt _ 3(6) s(2) 3(8)] 3(5) lt show ?thesis by auto
  next
    case gt
    have ne: "\<not> seg_start s < seg_start t" using gt by simp
    obtain r2 sm2 where c: "sbs_diff tgt (s # src) sm = (r2, sm2)" by fastforce
    from "3.IH"(2) [OF ne gt c t(2) 3(7,8)]
    have IH: "segs_wf B r2" "sbs_set r2 = sbs_set tgt - sbs_set (s # src)" "sm_wf sm2"
      "seg_start ` set r2 \<subseteq> seg_start ` set tgt" by auto
    have r: "r = t # r2" "sm' = sm2" using 3(5) gt c by auto
    have "seg_set t \<inter> sbs_set (s # src) = {}"
      using gt s by (intro disj_greater [OF t(1), of "s # src"]) auto
    moreover have "seg_start t < seg_start u" if "u \<in> set r2" for u
      using IH(4) that t(3) by fastforce
    ultimately show ?thesis using IH t unfolding r by auto
  next
    case eq
    have ne: "\<not> seg_start s < seg_start t" "\<not> seg_start s > seg_start t" using eq by auto
    let ?t = "t\<lparr>seg_bs := bitset_diff (seg_bs t) (seg_bs s)\<rparr>"
    note m = seg_meet [OF t(1) s(1) eq]
    have ts: "seg_set t \<inter> sbs_set src = {}"
      using eq s by (intro disj_greater [OF t(1)]) auto
    show ?thesis
    proof (cases "bitset_is_empty (seg_bs ?t)")
      case True
      have "sm_wf (freeSEG ?t sm)" using m(3) 3(8) by (intro freeSEG_wf) auto
      moreover have "sbs_diff tgt (s # src) (freeSEG ?t sm) = (r, sm')"
        using 3(5) eq True by (simp add: Let_def)
      ultimately show ?thesis
        using "3.IH"(3) [OF ne refl True _ t(2) 3(7)] m(7) True by auto
    next
      case False
      obtain r2 sm2 where c: "sbs_diff tgt (s # src) sm = (r2, sm2)" by fastforce
      from "3.IH"(4) [OF ne refl False c t(2) 3(7,8)]
      have IH: "segs_wf B r2" "sbs_set r2 = sbs_set tgt - sbs_set (s # src)" "sm_wf sm2"
        "seg_start ` set r2 \<subseteq> seg_start ` set tgt" by auto
      have r: "r = ?t # r2" "sm' = sm2" using 3(5) eq c False by (auto simp: Let_def)
      have "seg_start t < seg_start u" if "u \<in> set r2" for u
        using IH(4) that t(3) by fastforce
      moreover have "seg_wf B ?t" using m(5,7) False by simp
      ultimately show ?thesis using IH m(1) ts unfolding r by auto
    qed
  qed
qed auto

lemma sbs_intersect_correct_aux:
  "sbs_intersect tgt src sm = (r, sm') \<Longrightarrow> segs_wf B tgt \<Longrightarrow> segs_wf B src \<Longrightarrow> sm_wf sm \<Longrightarrow>
   segs_wf B r \<and> sbs_set r = sbs_set tgt \<inter> sbs_set src \<and> sm_wf sm' \<and>
   seg_start ` set r \<subseteq> seg_start ` set tgt"
proof (induction tgt src sm arbitrary: r sm' rule: sbs_intersect.induct)
  case (2 t tgt sm)
  then have "sm_wf (freeSEG t sm)" by (auto intro!: freeSEG_wf seg_wf_bitset [of B])
  with 2 have "segs_wf B r \<and> sbs_set r = {} \<and> sm_wf sm' \<and> seg_start ` set r \<subseteq> seg_start ` set tgt"
    by simp
  then show ?case by auto
next
  case (3 t tgt s src sm)
  have t: "seg_wf B t" "segs_wf B tgt" "\<forall>u\<in>set tgt. seg_start t < seg_start u"
    and s: "seg_wf B s" "segs_wf B src" "\<forall>u\<in>set src. seg_start s < seg_start u"
    using 3(7,8) by auto
  have fr: "sm_wf (freeSEG t sm)" using t(1) 3(9) by (simp add: freeSEG_wf seg_wf_bitset)
  consider (last) "seg_start s < seg_start t" "src = []" | (lt) "seg_start s < seg_start t" "src \<noteq> []"
    | (eq) "seg_start s = seg_start t" | (gt) "seg_start t < seg_start s" by linarith
  then show ?case
  proof cases
    case last
    then have "seg_set s \<inter> sbs_set (t # tgt) = {}"
      using t by (intro disj_greater [OF s(1), of "t # tgt"]) auto
    with "3.IH"(1) [OF last _ t(2) _ fr] 3(6) last s show ?thesis by auto
  next
    case lt
    then have "seg_set s \<inter> sbs_set (t # tgt) = {}"
      using t by (intro disj_greater [OF s(1), of "t # tgt"]) auto
    with "3.IH"(2) [OF lt _ 3(7) s(2) 3(9)] 3(6) lt show ?thesis by auto
  next
    case gt
    have ne: "\<not> seg_start s < seg_start t" using gt by simp
    have "seg_set t \<inter> sbs_set (s # src) = {}"
      using gt s by (intro disj_greater [OF t(1), of "s # src"]) auto
    with "3.IH"(3) [OF ne gt _ t(2) 3(8) fr] 3(6) gt show ?thesis by auto
  next
    case eq
    have ne: "\<not> seg_start s < seg_start t" "\<not> seg_start s > seg_start t" using eq by auto
    let ?t = "t\<lparr>seg_bs := bitset_intersect (seg_bs t) (seg_bs s)\<rparr>"
    note m = seg_meet [OF t(1) s(1) eq]
    have ts: "seg_set t \<inter> sbs_set src = {}" "seg_set s \<inter> sbs_set tgt = {}"
      using disj_greater [OF t(1) s(2)] disj_greater [OF s(1) t(2)] eq s(3) t(3) by simp_all
    show ?thesis
    proof (cases "bitset_is_empty (seg_bs ?t)")
      case True
      have "sm_wf (freeSEG ?t sm)" using m(4) 3(9) by (intro freeSEG_wf) auto
      moreover have "sbs_intersect tgt (s # src) (freeSEG ?t sm) = (r, sm')"
        using 3(6) eq True by (simp add: Let_def)
      ultimately show ?thesis
        using "3.IH"(4) [OF ne refl True _ t(2) 3(8)] m(8) True ts by auto
    next
      case False
      obtain r2 sm2 where c: "sbs_intersect tgt (s # src) sm = (r2, sm2)" by fastforce
      from "3.IH"(5) [OF ne refl False c t(2) 3(8,9)]
      have IH: "segs_wf B r2" "sbs_set r2 = sbs_set tgt \<inter> sbs_set (s # src)" "sm_wf sm2"
        "seg_start ` set r2 \<subseteq> seg_start ` set tgt" by auto
      have r: "r = ?t # r2" "sm' = sm2" using 3(6) eq c False by (auto simp: Let_def)
      have "seg_start t < seg_start u" if "u \<in> set r2" for u
        using IH(4) that t(3) by fastforce
      moreover have "seg_wf B ?t" using m(6,8) False by simp
      ultimately show ?thesis using IH m(2) ts unfolding r by auto
    qed
  qed
qed auto

section \<open>Queries\<close>

lemma sbs_is_contain_elem_correct:
  "segs_wf B segs \<Longrightarrow> sbs_is_contain_elem B segs e \<longleftrightarrow> e \<in> sbs_set segs"
proof (induction segs)
  case (Cons s segs)
  then have s: "seg_wf B s" and segs: "segs_wf B segs" "\<forall>u\<in>set segs. seg_start s < seg_start u" by auto
  consider (lt) "e < seg_start s" | (mem) "seg_start s \<le> e" "e \<le> seg_end B s"
    | (gt) "seg_start s \<le> e" "\<not> e \<le> seg_end B s" by linarith
  then show ?case
  proof cases
    case lt
    then have "e \<notin> sbs_set (s # segs)"
      using Cons.prems by (intro sbs_set_before [where B = B]) auto
    with lt show ?thesis by auto
  next
    case mem
    have "e < seg_start s + B" using mem seg_end_less [OF s] by simp
    then have "e \<notin> sbs_set segs"
      using segs s aligned_less [OF s] by (intro sbs_set_before [where B = B]) (force simp: segs_wf_def)+
    with mem mem_seg [OF mem(1)] show ?thesis
      by (simp add: bitset_is_contain_elem_correct seg_wf_bitset [OF s])
  next
    case gt
    then have "e \<notin> seg_set s" using seg_range(2) [OF s, of e] seg_end_less [OF s, of e] by auto
    with gt Cons.IH [OF segs(1)] show ?thesis by simp
  qed
qed simp

lemma seg_sub:
  "seg_start s = seg_start t \<Longrightarrow> seg_set s \<subseteq> seg_set t \<longleftrightarrow> bitset_set (seg_bs s) \<subseteq> bitset_set (seg_bs t)"
  "seg_start s = seg_start t \<Longrightarrow> seg_set s = seg_set t \<longleftrightarrow> bitset_set (seg_bs s) = bitset_set (seg_bs t)"
  "seg_start s = seg_start t \<Longrightarrow> seg_set s \<inter> seg_set t = {} \<longleftrightarrow> bitset_set (seg_bs s) \<inter> bitset_set (seg_bs t) = {}"
  by (auto simp: seg_set_def inj_image_subset_iff inj_image_eq_iff image_Int [symmetric])

lemma sbs_is_intersect_correct:
  "segs_wf B tgt \<Longrightarrow> segs_wf B src \<Longrightarrow> sbs_is_intersect tgt src \<longleftrightarrow> sbs_set tgt \<inter> sbs_set src \<noteq> {}"
proof (induction tgt src rule: sbs_is_intersect.induct)
  case (1 t tgt s src)
  have t: "seg_wf B t" "segs_wf B tgt" "\<forall>u\<in>set tgt. seg_start t < seg_start u"
    and s: "seg_wf B s" "segs_wf B src" "\<forall>u\<in>set src. seg_start s < seg_start u"
    using 1(4,5) by auto
  consider (lt) "seg_start s < seg_start t" | (eq) "seg_start s = seg_start t"
    | (gt) "seg_start t < seg_start s" by linarith
  then show ?case
  proof cases
    case lt
    then have "seg_set s \<inter> sbs_set (t # tgt) = {}"
      using t by (intro disj_greater [OF s(1), of "t # tgt"]) auto
    with "1.IH"(1) [OF lt 1(4) s(2)] lt show ?thesis by auto
  next
    case gt
    then have ne: "\<not> seg_start s < seg_start t" "seg_start s \<noteq> seg_start t" by auto
    have "seg_set t \<inter> sbs_set (s # src) = {}"
      using gt s by (intro disj_greater [OF t(1), of "s # src"]) auto
    with "1.IH"(3) [OF ne t(2) 1(5)] ne show ?thesis by auto
  next
    case eq
    then have ne: "\<not> seg_start s < seg_start t" by simp
    have ts: "seg_set t \<inter> sbs_set src = {}" "seg_set s \<inter> sbs_set tgt = {}"
      using disj_greater [OF t(1) s(2)] disj_greater [OF s(1) t(2)] eq s(3) t(3) by simp_all
    have "bitset_is_intersect (seg_bs s) (seg_bs t) \<longleftrightarrow> seg_set s \<inter> seg_set t \<noteq> {}"
      using bitset_is_intersect_correct [OF seg_wf_bitset [OF s(1)] seg_wf_bitset [OF t(1)]] seg_sub(3) [OF eq]
      by simp
    with "1.IH"(2) [OF ne eq _ t(2) s(2)] eq ts show ?thesis by auto
  qed
qed auto

lemma sbs_is_equal_correct:
  "segs_wf B tgt \<Longrightarrow> segs_wf B src \<Longrightarrow> 3 \<le> length past \<Longrightarrow>
   sbs_is_equal past tgt src \<longleftrightarrow> sbs_set tgt = sbs_set src"
proof (induction past tgt src rule: sbs_is_equal.induct)
  case (2 past t tgt s src)
  have t: "seg_wf B t" "segs_wf B tgt" "\<forall>u\<in>set tgt. seg_start t < seg_start u"
    and s: "seg_wf B s" "segs_wf B src" "\<forall>u\<in>set src. seg_start s < seg_start u"
    using 2(2,3) by auto
  have ne: "seg_set s \<noteq> {}" "seg_set t \<noteq> {}" using s(1) t(1) by (simp_all add: seg_wf_def seg_set_empty)
  show ?case
  proof (cases "seg_start s = seg_start t")
    case True
    have eq: "bitset_is_equal past past (seg_bs s) (seg_bs t) \<longleftrightarrow> seg_set s = seg_set t"
      using bitset_is_equal_correct [OF seg_wf_bitset [OF s(1)] seg_wf_bitset [OF t(1)] 2(4,4)] seg_sub(2) [OF True]
      by simp
    have d: "seg_set t \<inter> sbs_set src = {}" "seg_set s \<inter> sbs_set tgt = {}"
      "seg_set t \<inter> sbs_set tgt = {}" "seg_set s \<inter> sbs_set src = {}"
      using disj_greater [OF t(1) s(2)] disj_greater [OF s(1) t(2)] disj_greater [OF t(1) t(2)]
        disj_greater [OF s(1) s(2)] True s(3) t(3) by simp_all
    show ?thesis
    proof (cases "seg_set s = seg_set t")
      case e: True
      with 2(1) [OF _ _ t(2) s(2) 2(4)] True eq d show ?thesis by auto
    next
      case False
      with True eq d show ?thesis by auto
    qed
  next
    case False
    have "seg_set s \<inter> sbs_set (t # tgt) = {} \<or> seg_set t \<inter> sbs_set (s # src) = {}"
    proof (cases "seg_start s < seg_start t")
      case True
      then show ?thesis using t by (intro disjI1 disj_greater [OF s(1), of "t # tgt"]) auto
    next
      case gt: False
      then show ?thesis using s False by (intro disjI2 disj_greater [OF t(1), of "s # src"]) auto
    qed
    with ne have "sbs_set (t # tgt) \<noteq> sbs_set (s # src)" by auto
    with False show ?thesis by simp
  qed
qed (auto simp: seg_wf_def seg_set_empty)

lemma sbs_is_contain_correct:
  "segs_wf B cur \<Longrightarrow> segs_wf B src \<Longrightarrow> sbs_is_contain cur src \<longleftrightarrow> sbs_set src \<subseteq> sbs_set cur"
proof (induction cur src rule: sbs_is_contain.induct)
  case (2 s src)
  then show ?case by (auto simp: seg_wf_def seg_set_empty)
next
  case (3 c cur s src)
  have c: "seg_wf B c" "segs_wf B cur" "\<forall>u\<in>set cur. seg_start c < seg_start u"
    and s: "seg_wf B s" "segs_wf B src" "\<forall>u\<in>set src. seg_start s < seg_start u"
    using 3(3,4) by auto
  have ne: "seg_set s \<noteq> {}" "seg_set c \<noteq> {}" using s(1) c(1) by (simp_all add: seg_wf_def seg_set_empty)
  consider (lt) "seg_start c < seg_start s" | (eq) "seg_start c = seg_start s"
    | (gt) "seg_start s < seg_start c" by linarith
  then show ?case
  proof cases
    case lt
    then have "seg_set c \<inter> sbs_set (s # src) = {}"
      using s by (intro disj_greater [OF c(1), of "s # src"]) auto
    with "3.IH"(1) [OF lt c(2) 3(4)] lt show ?thesis by auto
  next
    case gt
    then have "seg_set s \<inter> sbs_set (c # cur) = {}"
      using c by (intro disj_greater [OF s(1), of "c # cur"]) auto
    with ne gt show ?thesis by auto
  next
    case eq
    then have nl: "\<not> seg_start c < seg_start s" by simp
    have d: "seg_set c \<inter> sbs_set src = {}" "seg_set s \<inter> sbs_set cur = {}"
      using disj_greater [OF c(1) s(2)] disj_greater [OF s(1) c(2)] eq s(3) c(3) by simp_all
    have "bitset_set (seg_bs c) \<noteq> {}" using c(1) by (simp add: seg_wf_def)
    then have co: "bitset_is_contain (seg_bs c) (seg_bs s) False \<longleftrightarrow> seg_set s \<subseteq> seg_set c"
      using bitset_is_contain_correct [OF seg_wf_bitset [OF c(1)] seg_wf_bitset [OF s(1)], of False]
        seg_sub(1) [OF eq [symmetric]] by simp
    show ?thesis
    proof (cases "seg_set s \<subseteq> seg_set c")
      case True
      with "3.IH"(2) [OF nl eq _ c(2) s(2)] eq co d show ?thesis by auto
    next
      case False
      with eq co d show ?thesis by auto
    qed
  qed
qed simp

lemma sbs_is_empty_correct: "segs_wf B segs \<Longrightarrow> sbs_is_empty segs \<longleftrightarrow> sbs_set segs = {}"
  by (cases segs) (auto simp: sbs_is_empty_def seg_wf_def seg_set_empty)

lemma sbs_get_elem_count_correct:
  assumes "segs_wf B segs"
  shows "sbs_get_elem_count segs = card (sbs_set segs)"
proof -
  have sub: "sbs_set segs \<subseteq> {..<BS_UNDEF}" if "segs_wf B segs" for segs
    using that seg_range(3) by (fastforce simp: sbs_set_def segs_wf_def)
  have lim: "card (sbs_set segs) < 4294967296" if "segs_wf B segs" for segs
    using card_mono [OF _ sub [OF that]] by (simp add: BS_UNDEF_def)
  have "fold (\<lambda>s c. u32 (c + bitset_get_elem_count (seg_bs s))) ss c = c + card (sbs_set ss)"
    if "segs_wf B ss" "c + card (sbs_set ss) < 4294967296" for ss c
    using that
  proof (induction ss arbitrary: c)
    case (Cons s ss)
    then have s: "seg_wf B s" and ss: "segs_wf B ss" and "seg_set s \<inter> sbs_set ss = {}"
      using disj_greater [of B s ss] by auto
    then have "card (sbs_set (s # ss)) = card (seg_set s) + card (sbs_set ss)"
      by (simp add: card_Un_disjoint)
    moreover have "card (seg_set s) = card (bitset_set (seg_bs s))"
      unfolding seg_set_def by (rule card_image) simp
    ultimately show ?case
      using Cons.IH [OF ss, of "u32 (c + card (seg_set s))"] Cons.prems(2)
      by (simp add: bitset_get_elem_count_correct [OF seg_wf_bitset [OF s]])
  qed simp
  from this [OF assms, of 0] lim [OF assms] show ?thesis by (simp add: sbs_get_elem_count_def)
qed

section \<open>Iterators\<close>

lemma sbs_bound: "segs_wf B segs \<Longrightarrow> e \<in> sbs_set segs \<Longrightarrow> e < BS_UNDEF"
  using seg_range(3) by (fastforce simp: sbs_set_def segs_wf_def)

lemma seg_first:
  assumes s: "seg_wf B s" and segs: "segs_wf B segs" "\<forall>u\<in>set segs. seg_start s < seg_start u"
  shows "u32 (seg_start s + bitset_get_first (seg_bs s)) = first_of (sbs_set (s # segs))"
proof -
  note w = seg_wf_bitset [OF s]
  let ?f = "first_of (bitset_set (seg_bs s))"
  have f: "?f \<in> bitset_set (seg_bs s)" using s by (intro first_of_in) (simp add: seg_wf_def)
  then have "seg_start s + ?f \<in> seg_set s" by (simp add: seg_set_def)
  moreover have "seg_start s + ?f \<le> x" if x: "x \<in> sbs_set (s # segs)" for x
  proof -
    consider "x \<in> seg_set s" | u where "u \<in> set segs" "x \<in> seg_set u"
      using x by (auto simp: sbs_set_def)
    then show ?thesis
    proof cases
      case 1
      then show ?thesis by (auto simp: seg_set_def first_of_le)
    next
      case 2
      then have "seg_wf B u" "seg_start s < seg_start u" using segs by (auto simp: segs_wf_def)
      with aligned_less [OF s] seg_range(1) [of B u x] 2(2) have "seg_start s + B \<le> x" by force
      moreover have "?f < B" using f s by (auto simp: seg_wf_def)
      ultimately show ?thesis by simp
    qed
  qed
  ultimately have "first_of (sbs_set (s # segs)) = seg_start s + ?f" by (intro first_ofI) auto
  moreover have "seg_start s + ?f < 4294967296"
    using seg_range(3) [OF s \<open>seg_start s + ?f \<in> seg_set s\<close>] by (simp add: BS_UNDEF_def)
  ultimately show ?thesis by (simp add: bitset_get_first_correct [OF w])
qed

lemma sbs_get_first_correct:
  "segs_wf B segs \<Longrightarrow> sbs_get_first segs = (first_of (sbs_set segs), segs)"
  using seg_first [of B "hd segs" "tl segs"] by (cases segs) (auto simp: sbs_get_first_def)

text \<open>Inside the first segment the iterator stays there, and past it it takes the next one.\<close>

lemma seg_next:
  assumes s: "seg_wf B s" and segs: "segs_wf B segs" "\<forall>u\<in>set segs. seg_start s < seg_start u"
    and e: "seg_start s \<le> e" "e < seg_start s + B"
  defines "n \<equiv> bitset_get_next (seg_bs s) (e - seg_start s)"
  shows "n \<noteq> BS_UNDEF \<Longrightarrow> next_of (sbs_set (s # segs)) e = u32 (seg_start s + n) \<and>
      seg_start s + n \<in> seg_set s"
    and "n = BS_UNDEF \<Longrightarrow> next_of (sbs_set (s # segs)) e = first_of (sbs_set segs)"
    and "n = BS_UNDEF \<Longrightarrow> {x \<in> sbs_set (s # segs). e < x} = sbs_set segs"
proof -
  note w = seg_wf_bitset [OF s]
  have n: "n = next_of (bitset_set (seg_bs s)) (e - seg_start s)"
    by (simp add: n_def bitset_get_next_correct [OF w])
  have high: "seg_start s + B \<le> x" if x: "x \<in> sbs_set segs" for x
  proof -
    obtain u where u: "u \<in> set segs" "x \<in> seg_set u" using x by (auto simp: sbs_set_def)
    then have "seg_wf B u" "seg_start s < seg_start u" using segs by (auto simp: segs_wf_def)
    with aligned_less [OF s] seg_range(1) [of B u x] u(2) show ?thesis by force
  qed
  {
    assume "n \<noteq> BS_UNDEF"
    with next_of_in [of "bitset_set (seg_bs s)"]
    have m: "n \<in> bitset_set (seg_bs s)" "e - seg_start s < n" by (auto simp: n)
    then have "n < B" using s by (auto simp: seg_wf_def)
    have in_s: "seg_start s + n \<in> seg_set s" using m by (simp add: seg_set_def)
    have "next_of (sbs_set (s # segs)) e = seg_start s + n"
      unfolding next_of_def
    proof (rule first_ofI)
      show "seg_start s + n \<in> {x \<in> sbs_set (s # segs). e < x}" using in_s m e by auto
      fix x assume "x \<in> {x \<in> sbs_set (s # segs). e < x}"
      then consider "x \<in> seg_set s" "e < x" | "x \<in> sbs_set segs" by auto
      then show "seg_start s + n \<le> x"
      proof cases
        case 1
        then obtain k where k: "x = seg_start s + k" "k \<in> bitset_set (seg_bs s)"
          by (auto simp: seg_set_def)
        then have "n \<le> k" unfolding n next_of_def using 1 e by (intro first_of_le) auto
        with k show ?thesis by simp
      next
        case 2
        from high [OF this] \<open>n < B\<close> show ?thesis by simp
      qed
    qed
    with seg_range(3) [OF s in_s] in_s
    show "next_of (sbs_set (s # segs)) e = u32 (seg_start s + n) \<and> seg_start s + n \<in> seg_set s"
      by (simp add: BS_UNDEF_def)
  next
    assume u: "n = BS_UNDEF"
    have "x \<le> e" if x: "x \<in> seg_set s" for x
    proof (rule ccontr)
      assume "\<not> x \<le> e"
      moreover obtain k where k: "x = seg_start s + k" "k \<in> bitset_set (seg_bs s)"
        using x by (auto simp: seg_set_def)
      ultimately have "n \<le> k" unfolding n next_of_def using e by (intro first_of_le) auto
      moreover have "k < BS_UNDEF" using bitset_set_bound [OF w k(2)] by (simp add: BS_UNDEF_def)
      ultimately show False using u by simp
    qed
    then show "{x \<in> sbs_set (s # segs). e < x} = sbs_set segs" using high e(2) by fastforce
    then show "next_of (sbs_set (s # segs)) e = first_of (sbs_set segs)" by (simp add: next_of_def)
  }
qed

lemma seg_start_u32: "seg_wf B s \<Longrightarrow> seg_start s \<le> e \<Longrightarrow> e < seg_start s + B \<Longrightarrow>
   u32_sub e (seg_start s) = e - seg_start s"
  by (intro u32_sub_id) (auto simp: seg_wf_def BS_UNDEF_def)

lemma sbs_get_next_correct:
  assumes cur: "segs_wf B (s # rest)" and e: "e \<in> seg_set s"
  shows "fst (sbs_get_next e (s # rest)) = next_of (sbs_set (s # rest)) e"
    and "snd (sbs_get_next e (s # rest)) \<in> {s # rest, rest}"
    and "fst (sbs_get_next e (s # rest)) \<noteq> BS_UNDEF \<Longrightarrow>
      (\<exists>u us. snd (sbs_get_next e (s # rest)) = u # us \<and> fst (sbs_get_next e (s # rest)) \<in> seg_set u \<and>
        {x \<in> sbs_set (s # rest). e < x} = {x \<in> sbs_set (u # us). e < x})"
proof -
  have s: "seg_wf B s" and segs: "segs_wf B rest" "\<forall>u\<in>set rest. seg_start s < seg_start u"
    using cur by auto
  note r = seg_range(1,2) [OF s e]
  note nx = seg_next [OF s segs r]
  let ?n = "bitset_get_next (seg_bs s) (e - seg_start s)"
  have u: "u32_sub e (seg_start s) = e - seg_start s" by (rule seg_start_u32 [OF s r])
  show "fst (sbs_get_next e (s # rest)) = next_of (sbs_set (s # rest)) e"
    using nx u seg_first [of B "hd rest" "tl rest"] segs(1)
    by (cases "?n = BS_UNDEF"; cases rest) (auto simp: sbs_get_next_def Let_def)
  show "snd (sbs_get_next e (s # rest)) \<in> {s # rest, rest}"
    by (auto simp: sbs_get_next_def Let_def split: list.splits)
  assume ne: "fst (sbs_get_next e (s # rest)) \<noteq> BS_UNDEF"
  show "\<exists>u us. snd (sbs_get_next e (s # rest)) = u # us \<and> fst (sbs_get_next e (s # rest)) \<in> seg_set u \<and>
        {x \<in> sbs_set (s # rest). e < x} = {x \<in> sbs_set (u # us). e < x}"
  proof (cases "?n = BS_UNDEF")
    case False
    have "seg_start s + ?n < BS_UNDEF"
      using nx(1) [OF False] seg_range(3) [OF s] by blast
    then have "u32 (seg_start s + ?n) = seg_start s + ?n" by (simp add: BS_UNDEF_def)
    with False nx(1) [OF False] u show ?thesis by (auto simp: sbs_get_next_def Let_def)
  next
    case True
    then obtain v vs where rest: "rest = v # vs"
      using ne u by (cases rest) (auto simp: sbs_get_next_def Let_def)
    have v: "seg_wf B v" "segs_wf B vs" "\<forall>u\<in>set vs. seg_start v < seg_start u"
      using segs rest by auto
    let ?f = "u32 (seg_start v + bitset_get_first (seg_bs v))"
    have "bitset_get_first (seg_bs v) \<in> bitset_set (seg_bs v)"
      using v(1) by (auto simp: bitset_get_first_correct seg_wf_def first_of_in)
    then have "seg_start v + bitset_get_first (seg_bs v) \<in> seg_set v" by (simp add: seg_set_def)
    moreover from seg_range(3) [OF v(1) this]
    have "?f = seg_start v + bitset_get_first (seg_bs v)" by (simp add: BS_UNDEF_def)
    moreover have "{x \<in> sbs_set (s # rest). e < x} = {x \<in> sbs_set (v # vs). e < x}"
      using nx(3) [OF True] unfolding rest by blast
    ultimately show ?thesis using True u rest by (simp add: sbs_get_next_def Let_def)
  qed
qed

end
