(* ===== verification/DBitSet.thy ===== *)
theory DBitSet
  imports SBitSetProps
begin

text \<open>
  \<open>DBitSetCore\<close> of \<^verbatim>\<open>src/com/sbs.h\<close>: a flag decides whether the inherited segment list
  is used as a sparse set or whether its first segment alone holds a dense \<open>BitSet\<close>. The file ends
  with the interpretations of the set interface for the sparse set and for the dual set in both of
  its modes, and of the iterator interface for the sparse set.
\<close>

section \<open>State and operations\<close>

record DBitSetCore =
  d_sparse :: bool
  d_segs :: "SEG list"

definition set_sparse :: "bool \<Rightarrow> DBitSetCore \<Rightarrow> DBitSetCore" where
  "set_sparse b d = d\<lparr>d_sparse := b\<rparr>"

definition read_bs :: "DBitSetCore \<Rightarrow> BitSet option" where
  "read_bs d = (case d_segs d of [] \<Rightarrow> None | s # _ \<Rightarrow> Some (seg_bs s))"

text \<open>
  \<open>alloc_bs\<close> returns a pointer into the first segment, allocating it when there is none; the
  caller then changes the set through it: \<open>f\<close> is that change.
\<close>

definition with_alloc_bs ::
  "(BitSet \<Rightarrow> BitSet) \<Rightarrow> DBitSetCore \<Rightarrow> SegMgr \<Rightarrow> DBitSetCore \<times> SegMgr" where
  "with_alloc_bs f d sm =
     (case d_segs d of
        [] \<Rightarrow> (let (t, sm) = allocSEG sm in (d\<lparr>d_segs := [t\<lparr>seg_bs := f (seg_bs t)\<rparr>]\<rparr>, sm))
      | s # rest \<Rightarrow> (d\<lparr>d_segs := s\<lparr>seg_bs := f (seg_bs s)\<rparr> # rest\<rparr>, sm))"

definition with_get_bs :: "(BitSet \<Rightarrow> BitSet) \<Rightarrow> DBitSetCore \<Rightarrow> DBitSetCore" where
  "with_get_bs f d =
     (case d_segs d of [] \<Rightarrow> d
      | s # rest \<Rightarrow> d\<lparr>d_segs := s\<lparr>seg_bs := f (seg_bs s)\<rparr> # rest\<rparr>)"

definition on_segs :: "(SEG list \<times> SegMgr) \<Rightarrow> DBitSetCore \<Rightarrow> DBitSetCore \<times> SegMgr" where
  "on_segs r d = (d\<lparr>d_segs := fst r\<rparr>, snd r)"

definition dbs_bunion :: "DBitSetCore \<Rightarrow> DBitSetCore \<Rightarrow> SegMgr \<Rightarrow> DBitSetCore \<times> SegMgr" where
  "dbs_bunion d src sm =
     (if d_sparse d then on_segs (sbs_bunion (d_segs d) (d_segs src) sm) d
      else case read_bs src of None \<Rightarrow> (d, sm)
        | Some srcbs \<Rightarrow> with_alloc_bs (\<lambda>tgtbs. bitset_bunion tgtbs srcbs) d sm)"

definition dbs_bunion_elem :: "nat \<Rightarrow> DBitSetCore \<Rightarrow> nat \<Rightarrow> SegMgr \<Rightarrow> DBitSetCore \<times> SegMgr" where
  "dbs_bunion_elem B d elem sm =
     (if d_sparse d then on_segs (sbs_bunion_elem B (d_segs d) elem sm) d
      else with_alloc_bs (\<lambda>tgtbs. bitset_bunion_elem tgtbs elem) d sm)"

definition dbs_copy :: "DBitSetCore \<Rightarrow> DBitSetCore \<Rightarrow> SegMgr \<Rightarrow> DBitSetCore \<times> SegMgr" where
  "dbs_copy d src sm =
     (if d_sparse d then on_segs (sbs_copy (d_segs d) (d_segs src) sm) d
      else case read_bs src of None \<Rightarrow> on_segs (sbs_clean (d_segs d) sm) d
        | Some srcbs \<Rightarrow> with_alloc_bs (\<lambda>tgtbs. bitset_copy tgtbs srcbs) d sm)"

definition dbs_diff_elem :: "nat \<Rightarrow> DBitSetCore \<Rightarrow> nat \<Rightarrow> SegMgr \<Rightarrow> DBitSetCore \<times> SegMgr" where
  "dbs_diff_elem B d elem sm =
     (if d_sparse d then on_segs (sbs_diff_elem B (d_segs d) elem sm) d
      else (with_get_bs (\<lambda>tgtbs. bitset_diff_elem tgtbs elem) d, sm))"

definition dbs_diff :: "DBitSetCore \<Rightarrow> DBitSetCore \<Rightarrow> SegMgr \<Rightarrow> DBitSetCore \<times> SegMgr" where
  "dbs_diff d src sm =
     (if d_sparse d then on_segs (sbs_diff (d_segs d) (d_segs src) sm) d
      else case read_bs src of None \<Rightarrow> (d, sm)
        | Some srcbs \<Rightarrow> (with_get_bs (\<lambda>tgtbs. bitset_diff tgtbs srcbs) d, sm))"

definition dbs_intersect :: "DBitSetCore \<Rightarrow> DBitSetCore \<Rightarrow> SegMgr \<Rightarrow> DBitSetCore \<times> SegMgr" where
  "dbs_intersect d src sm =
     (if d_sparse d then on_segs (sbs_intersect (d_segs d) (d_segs src) sm) d
      else case read_bs src of None \<Rightarrow> on_segs (sbs_clean (d_segs d) sm) d
        | Some srcbs \<Rightarrow> (with_get_bs (\<lambda>tgtbs. bitset_intersect tgtbs srcbs) d, sm))"

definition dbs_is_contain :: "nat \<Rightarrow> DBitSetCore \<Rightarrow> nat \<Rightarrow> bool" where
  "dbs_is_contain B d elem =
     (if d_sparse d then sbs_is_contain_elem B (d_segs d) elem
      else case read_bs d of None \<Rightarrow> False | Some tgtbs \<Rightarrow> bitset_is_contain_elem tgtbs elem)"

definition dbs_is_equal :: "byte list \<Rightarrow> DBitSetCore \<Rightarrow> DBitSetCore \<Rightarrow> bool" where
  "dbs_is_equal past d src =
     (if d_sparse d then sbs_is_equal past (d_segs d) (d_segs src)
      else case read_bs src of
          None \<Rightarrow> (case read_bs d of None \<Rightarrow> True
                   | Some tgtbs \<Rightarrow> if bitset_is_empty tgtbs then True else False)
        | Some srcbs \<Rightarrow>
            (case read_bs d of None \<Rightarrow> if bitset_is_empty srcbs then True else False
             | Some tgtbs \<Rightarrow> bitset_is_equal past past tgtbs srcbs))"

definition dbs_get_first :: "DBitSetCore \<Rightarrow> nat \<times> SEG list" where
  "dbs_get_first d =
     (case d_segs d of [] \<Rightarrow> (BS_UNDEF, [])
      | s # _ \<Rightarrow> (u32 (seg_start s + bitset_get_first (seg_bs s)), d_segs d))"

definition dbs_get_last :: "DBitSetCore \<Rightarrow> nat \<times> SEG list" where
  "dbs_get_last d =
     (if d_segs d = [] then (BS_UNDEF, [])
      else let s = last (d_segs d) in (u32 (seg_start s + bitset_get_last (seg_bs s)), [s]))"

section \<open>Abstraction\<close>

text \<open>In dense mode there is at most one segment, at start 0, and it may be empty.\<close>

definition dbs_set :: "DBitSetCore \<Rightarrow> nat set" where
  "dbs_set d = sbs_set (d_segs d)"

definition dense_wf :: "SEG list \<Rightarrow> bool" where
  "dense_wf segs \<longleftrightarrow>
     (case segs of [] \<Rightarrow> True | s # rest \<Rightarrow> rest = [] \<and> seg_start s = 0 \<and> bitset_wf (seg_bs s))"

definition dbs_wf :: "nat \<Rightarrow> bool \<Rightarrow> DBitSetCore \<Rightarrow> bool" where
  "dbs_wf B sp d \<longleftrightarrow> d_sparse d = sp \<and> (if sp then segs_wf B (d_segs d) else dense_wf (d_segs d))"

lemma dense_wf_simps [simp]:
  "dense_wf []" "dense_wf (s # rest) \<longleftrightarrow> rest = [] \<and> seg_start s = 0 \<and> bitset_wf (seg_bs s)"
  by (simp_all add: dense_wf_def)

lemma seg_set_zero: "seg_start s = 0 \<Longrightarrow> seg_set s = bitset_set (seg_bs s)"
  by (simp add: seg_set_def)

lemma dense_cases:
  assumes "dense_wf segs"
  obtains "segs = []" | s where "segs = [s]" "seg_start s = 0" "bitset_wf (seg_bs s)"
    "seg_set s = bitset_set (seg_bs s)"
  using assms by (cases segs) (auto simp: dense_wf_def seg_set_zero)

lemma with_alloc_bs_correct:
  assumes d: "dense_wf (d_segs d)" and sm: "sm_wf sm"
    and f: "\<And>b. bitset_wf b \<Longrightarrow> bitset_wf (f b) \<and> bitset_set (f b) = F (bitset_set b)"
  shows "dbs_set (fst (with_alloc_bs f d sm)) = F (dbs_set d)"
    and "dense_wf (d_segs (fst (with_alloc_bs f d sm)))"
    and "d_sparse (fst (with_alloc_bs f d sm)) = d_sparse d"
    and "sm_wf (snd (with_alloc_bs f d sm))"
proof -
  obtain t sm' where t: "allocSEG sm = (t, sm')" by fastforce
  have tw: "bitset_wf (seg_bs t)" "bitset_set (seg_bs t) = {}" "seg_start t = 0" "sm_wf sm'"
    using allocSEG_wf [OF sm] t by auto
  show "dbs_set (fst (with_alloc_bs f d sm)) = F (dbs_set d)"
    and "dense_wf (d_segs (fst (with_alloc_bs f d sm)))"
    and "d_sparse (fst (with_alloc_bs f d sm)) = d_sparse d"
    and "sm_wf (snd (with_alloc_bs f d sm))"
    using d tw sm f [of "seg_bs t"] f [of "seg_bs (hd (d_segs d))"]
    by (cases "d_segs d"; simp add: with_alloc_bs_def t dbs_set_def seg_set_zero)+
qed

lemma with_get_bs_correct:
  assumes d: "dense_wf (d_segs d)"
    and f: "\<And>b. bitset_wf b \<Longrightarrow> bitset_wf (f b) \<and> bitset_set (f b) = F (bitset_set b)"
    and e: "F {} = {}"
  shows "dbs_set (with_get_bs f d) = F (dbs_set d)"
    and "dense_wf (d_segs (with_get_bs f d))"
    and "d_sparse (with_get_bs f d) = d_sparse d"
  using d f [of "seg_bs (hd (d_segs d))"] e
  by (cases "d_segs d"; simp add: with_get_bs_def dbs_set_def seg_set_zero)+

lemma read_bs_correct:
  assumes "dense_wf (d_segs d)"
  shows "read_bs d = None \<Longrightarrow> dbs_set d = {}"
    and "read_bs d = Some b \<Longrightarrow> bitset_wf b \<and> dbs_set d = bitset_set b"
  using assms by (auto elim!: dense_cases simp: read_bs_def dbs_set_def)

section \<open>Interpretations\<close>

definition sbs_inv :: "nat \<Rightarrow> byte list \<Rightarrow> SEG list \<Rightarrow> bool" where
  "sbs_inv B past segs \<longleftrightarrow> segs_wf B segs \<and> 0 < B \<and> B < 4294967288 \<and> 3 \<le> length past"

definition fits :: "nat \<Rightarrow> nat \<Rightarrow> bool" where
  "fits B e \<longleftrightarrow> e div B * B + B \<le> BS_UNDEF"

interpretation sparse: set_impl sbs_set "sbs_inv B past" sm_wf "fits B" "[]" sbs_clean
  "sbs_bunion_elem B" "sbs_diff_elem B" sbs_bunion sbs_diff sbs_intersect sbs_copy
  "sbs_is_equal past" sbs_is_empty for B past
proof (unfold_locales, goal_cases)
  case (1 s)
  then show ?case by (auto simp: sbs_inv_def)
next
  case (2 s p)
  then show ?case using sbs_clean_correct [of B s p] by (auto simp: sbs_inv_def)
next
  case (3 s)
  then show ?case using sbs_is_empty_correct [of B s] by (auto simp: sbs_inv_def)
next
  case (4 s p e)
  then show ?case
    using sbs_bunion_elem_correct_aux [OF prod.collapse [symmetric], where B = B and segs = s and e = e and sm = p]
    by (auto simp: sbs_inv_def fits_def)
next
  case (5 s p e)
  then show ?case
    using sbs_diff_elem_correct_aux [OF prod.collapse [symmetric], where B = B and segs = s and e = e and sm = p]
    by (auto simp: sbs_inv_def)
next
  case (6 s t p)
  then show ?case
    using sbs_bunion_correct_aux [OF prod.collapse [symmetric], where B = B and tgt = s and src = t and sm = p]
    by (auto simp: sbs_inv_def)
next
  case (7 s t p)
  then show ?case
    using sbs_diff_correct_aux [OF prod.collapse [symmetric], where B = B and tgt = s and src = t and sm = p]
    by (auto simp: sbs_inv_def)
next
  case (8 s t p)
  then show ?case
    using sbs_intersect_correct_aux [OF prod.collapse [symmetric], where B = B and tgt = s and src = t and sm = p]
    by (auto simp: sbs_inv_def)
next
  case (9 s t p)
  then show ?case
    using sbs_copy_correct [of B s t p] by (auto simp: sbs_inv_def)
next
  case (10 s t)
  then show ?case using sbs_is_equal_correct [of B s t past] by (auto simp: sbs_inv_def)
qed

definition dbs_inv :: "nat \<Rightarrow> byte list \<Rightarrow> bool \<Rightarrow> DBitSetCore \<Rightarrow> bool" where
  "dbs_inv B past sp d \<longleftrightarrow> dbs_wf B sp d \<and> 0 < B \<and> B < 4294967288 \<and> 3 \<le> length past"

lemma dbs_inv_sparse: "dbs_inv B past True d \<longleftrightarrow> d_sparse d \<and> sbs_inv B past (d_segs d)"
  by (auto simp: dbs_inv_def dbs_wf_def sbs_inv_def)

definition dbs_new :: "bool \<Rightarrow> DBitSetCore" where
  "dbs_new sp = \<lparr>d_sparse = sp, d_segs = []\<rparr>"

text \<open>\<open>clean\<close> is inherited; \<open>is_empty\<close> is too, so it is stated on the abstraction for dense mode.\<close>

definition dbs_clean :: "DBitSetCore \<Rightarrow> SegMgr \<Rightarrow> DBitSetCore \<times> SegMgr" where
  "dbs_clean d sm = on_segs (sbs_clean (d_segs d) sm) d"

interpretation dual: set_impl dbs_set "dbs_inv B past True" sm_wf "fits B" "dbs_new True" dbs_clean
  "dbs_bunion_elem B" "dbs_diff_elem B" dbs_bunion dbs_diff dbs_intersect dbs_copy
  "dbs_is_equal past" "\<lambda>d. sbs_is_empty (d_segs d)" for B past
  by unfold_locales
    (auto simp: dbs_new_def dbs_clean_def sparse.new_law [of B past] sparse.cln_law [of B past]
      sparse.emp_law [of B past] dbs_inv_sparse dbs_set_def dbs_bunion_elem_def dbs_diff_elem_def dbs_bunion_def
      dbs_diff_def dbs_intersect_def dbs_copy_def dbs_is_equal_def on_segs_def
      sparse.ins_law [of B past] sparse.del_law [of B past] sparse.uni_law [of B past]
      sparse.dif_law [of B past] sparse.int_law [of B past] sparse.cpy_law [of B past]
      sparse.eql_law [of B past])

lemma dense_clean: "dense_wf segs \<Longrightarrow> sm_wf sm \<Longrightarrow>
  fst (sbs_clean segs sm) = [] \<and> sm_wf (snd (sbs_clean segs sm))"
  by (auto elim!: dense_cases simp: sbs_clean_def freeSEG_wf)

lemma dense_mode: "dbs_inv B past False d \<longleftrightarrow> \<not> d_sparse d \<and> dense_wf (d_segs d) \<and> 0 < B \<and>
  B < 4294967288 \<and> 3 \<le> length past"
  by (auto simp: dbs_inv_def dbs_wf_def)

lemma u32_first:
  assumes "bitset_wf s"
  shows "u32 (bitset_get_first s) = bitset_get_first s"
proof -
  have "bitset_get_first s < 4294967296"
    using first_of_in [of "bitset_set s"] bitset_set_bound [OF assms]
    by (cases "bitset_set s = {}")
      (fastforce simp: bitset_get_first_correct [OF assms] BS_UNDEF_def)+
  then show ?thesis by simp
qed

interpretation dual_dense: set_impl dbs_set "dbs_inv B past False" sm_wf "\<lambda>e. e < 4294967288"
  "dbs_new False" dbs_clean "dbs_bunion_elem B" "dbs_diff_elem B" dbs_bunion dbs_diff dbs_intersect
  dbs_copy "dbs_is_equal past" "\<lambda>d. dbs_get_first d = (BS_UNDEF, snd (dbs_get_first d))" for B past
proof (unfold_locales, goal_cases)
  case (1 s)
  then show ?case by (auto simp: dense_mode dbs_new_def dbs_set_def)
next
  case (2 s p)
  then show ?case using dense_clean [of "d_segs s" p]
    by (auto simp: dense_mode dbs_clean_def on_segs_def dbs_set_def)
next
  case (3 s)
  then show ?case
    by (auto elim!: dense_cases simp: dense_mode dbs_get_first_def dbs_set_def u32_first get_first_BS_UNDEF)
next
  case (4 s p e)
  then show ?case
    using with_alloc_bs_correct [of s p "\<lambda>b. bitset_bunion_elem b e" "insert e"]
    by (auto simp: dense_mode dbs_bunion_elem_def bitset_bunion_elem_correct)
next
  case (5 s p e)
  then show ?case
    using with_get_bs_correct [of s "\<lambda>b. bitset_diff_elem b e" "\<lambda>S. S - {e}"]
    by (auto simp: dense_mode dbs_diff_elem_def bitset_diff_elem_correct)
next
  case (6 s t p)
  show ?case
  proof (cases "read_bs t")
    case None
    with 6 read_bs_correct(1) [of t] show ?thesis by (auto simp: dense_mode dbs_bunion_def)
  next
    case (Some b)
    with 6 read_bs_correct(2) [OF _ Some]
      with_alloc_bs_correct [of s p "\<lambda>x. bitset_bunion x b" "\<lambda>S. S \<union> bitset_set b"]
    show ?thesis by (auto simp: dense_mode dbs_bunion_def bitset_bunion_correct)
  qed
next
  case (7 s t p)
  show ?case
  proof (cases "read_bs t")
    case None
    with 7 read_bs_correct(1) [of t] show ?thesis by (auto simp: dense_mode dbs_diff_def)
  next
    case (Some b)
    with 7 read_bs_correct(2) [OF _ Some]
      with_get_bs_correct [of s "\<lambda>x. bitset_diff x b" "\<lambda>S. S - bitset_set b"]
    show ?thesis by (auto simp: dense_mode dbs_diff_def bitset_diff_correct)
  qed
next
  case (8 s t p)
  show ?case
  proof (cases "read_bs t")
    case None
    with 8 read_bs_correct(1) [of t] dense_clean [of "d_segs s" p] show ?thesis
      by (auto simp: dense_mode dbs_intersect_def on_segs_def dbs_set_def)
  next
    case (Some b)
    with 8 read_bs_correct(2) [OF _ Some]
      with_get_bs_correct [of s "\<lambda>x. bitset_intersect x b" "\<lambda>S. S \<inter> bitset_set b"]
    show ?thesis by (auto simp: dense_mode dbs_intersect_def bitset_intersect_correct)
  qed
next
  case (9 s t p)
  show ?case
  proof (cases "read_bs t")
    case None
    with 9 read_bs_correct(1) [of t] dense_clean [of "d_segs s" p] show ?thesis
      by (auto simp: dense_mode dbs_copy_def on_segs_def dbs_set_def)
  next
    case (Some b)
    with 9 read_bs_correct(2) [OF _ Some]
      with_alloc_bs_correct [of s p "\<lambda>x. bitset_copy x b" "\<lambda>S. bitset_set b"]
    show ?thesis by (auto simp: dense_mode dbs_copy_def bitset_copy_correct)
  qed
next
  case (10 s t)
  then show ?case
    using read_bs_correct [of s] read_bs_correct [of t]
    by (auto simp: dense_mode dbs_is_equal_def bitset_is_equal_correct bitset_is_empty_correct
        split: option.splits)
qed

text \<open>The cursor of the sparse iterator is a suffix of the list that holds the current position.\<close>

definition sbs_at :: "nat \<Rightarrow> SEG list \<Rightarrow> nat \<Rightarrow> SEG list \<Rightarrow> bool" where
  "sbs_at B segs e cur \<longleftrightarrow> (\<exists>s rest. cur = s # rest \<and> segs_wf B cur \<and> e \<in> seg_set s \<and>
     sbs_set cur \<subseteq> sbs_set segs \<and> {x \<in> sbs_set segs. e < x} = {x \<in> sbs_set cur. e < x})"

interpretation sparse_iter: set_iter sbs_set "segs_wf B" sbs_get_first "\<lambda>_. sbs_get_next" "sbs_at B"
  for B
proof (unfold_locales, goal_cases)
  case (3 segs e c)
  then have e: "e = first_of (sbs_set segs)" "c = segs" using sbs_get_first_correct by auto
  have "sbs_at B segs e c" if "e \<noteq> BS_UNDEF"
  proof (cases segs)
    case Nil
    with e that show ?thesis by simp
  next
    case (Cons s rest)
    have "bitset_get_first (seg_bs s) \<in> bitset_set (seg_bs s)"
      using 3 Cons by (auto simp: bitset_get_first_correct seg_wf_def first_of_in)
    then have f: "seg_start s + bitset_get_first (seg_bs s) \<in> seg_set s" by (simp add: seg_set_def)
    have "seg_start s + bitset_get_first (seg_bs s) < BS_UNDEF"
      using 3 Cons seg_range(3) [OF _ f] by auto
    then have "e = seg_start s + bitset_get_first (seg_bs s)"
      using 3(2) Cons by (auto simp: sbs_get_first_def BS_UNDEF_def)
    with f 3 e(2) Cons show ?thesis by (auto simp: sbs_at_def)
  qed
  with e show ?case by blast
next
  case (4 segs e c e' c')
  then obtain s rest where c: "c = s # rest" "segs_wf B (s # rest)" "e \<in> seg_set s"
    "sbs_set c \<subseteq> sbs_set segs" "{x \<in> sbs_set segs. e < x} = {x \<in> sbs_set c. e < x}"
    by (auto simp: sbs_at_def)
  note nx = sbs_get_next_correct [OF c(2,3)]
  have r: "sbs_get_next e (s # rest) = (e', c')" using 4(4) c(1) by simp
  have e': "e' = next_of (sbs_set segs) e" using nx(1) c(1,5) r by (simp add: next_of_def)
  have "sbs_at B segs e' c'" if ne: "e' \<noteq> BS_UNDEF"
  proof -
    obtain u us where u: "c' = u # us" "e' \<in> seg_set u"
      "{x \<in> sbs_set c. e < x} = {x \<in> sbs_set (u # us). e < x}"
      using nx(3) r ne c(1) by auto
    have cc: "c' = s # rest \<or> c' = rest" using nx(2) r by auto
    then have "segs_wf B c'" "sbs_set c' \<subseteq> sbs_set segs" using c by auto
    moreover have "e < e'" using next_of_in ne e' by blast
    then have "{x \<in> sbs_set segs. e' < x} = {x \<in> sbs_set c'. e' < x}"
    proof -
      assume "e < e'"
      moreover have "{x \<in> sbs_set segs. e < x} = {x \<in> sbs_set c'. e < x}" using c(5) u(1,3) by simp
      then have "\<And>x. e < x \<Longrightarrow> x \<in> sbs_set segs \<longleftrightarrow> x \<in> sbs_set c'" by blast
      ultimately show ?thesis by (meson less_trans)
    qed
    ultimately show ?thesis unfolding sbs_at_def using u by blast
  qed
  with e' show ?case by blast
qed (auto dest: sbs_bound)

section \<open>Filling a sparse set from a dense one\<close>

text \<open>
  \<open>SBitSetCore::copy(BitSet const&)\<close> and \<open>SBitSet::bunion(BitSet const&)\<close> are the same loop over
  the positions of the dense set. The loop ends with any fuel that covers its number of elements.
\<close>

definition sbs_bunion_bitset ::
  "nat \<Rightarrow> nat \<Rightarrow> SEG list \<Rightarrow> BitSet \<Rightarrow> SegMgr \<Rightarrow> (SEG list \<times> SegMgr) option" where
  "sbs_bunion_bitset fuel B segs src sm =
     iterate fuel (\<lambda>i c. (bitset_get_next src i, c)) (\<lambda>i (segs, sm). sbs_bunion_elem B segs i sm)
       (bitset_get_first src, ()) (segs, sm)"

lemma sbs_bunion_bitset_correct:
  assumes s: "sbs_inv B past segs" and sm: "sm_wf sm" and src: "bitset_wf src"
    and fit: "\<forall>e\<in>bitset_set src. fits B e" and fuel: "card (bitset_set src) \<le> fuel"
  shows "\<exists>r sm'. sbs_bunion_bitset fuel B segs src sm = Some (r, sm') \<and>
    sbs_set r = sbs_set segs \<union> bitset_set src \<and> sbs_inv B past r \<and> sm_wf sm'"
  using dense_iter.iterate_all [OF src fuel, of "\<lambda>i (segs, sm). sbs_bunion_elem B segs i sm" "(segs, sm)"]
    sparse.fold_ins [OF s sm, of "sorted_list_of_set (bitset_set src)"] fit
  by (auto simp: sbs_bunion_bitset_def split: prod.splits)

section \<open>Properties\<close>

lemma one_bit: "bitset_set \<lparr>m_size = n, m_ptr = Some [1]\<rparr> = {0}"
  by (auto simp: bitset_set_def bset_iff bit_1_iff)

text \<open>
  C23: the sparse set is a correct implementation of the same set operations: merging, inserting,
  subtracting and intersecting segment lists keeps the starts increasing and the segments
  non-empty, computes the set operation, and returns only cleaned segments to the manager.
\<close>

theorem sbs_refines_sets:
  assumes "segs_wf B s" and "segs_wf B t" and "sm_wf sm"
    and "0 < B" and "B < 4294967288" and "fits B e"
  shows "(case sbs_bunion s t sm of (r, sm') \<Rightarrow>
      sbs_set r = sbs_set s \<union> sbs_set t \<and> segs_wf B r \<and> sm_wf sm') \<and>
    (case sbs_bunion_elem B s e sm of (r, sm') \<Rightarrow>
      sbs_set r = insert e (sbs_set s) \<and> segs_wf B r \<and> sm_wf sm') \<and>
    (case sbs_diff s t sm of (r, sm') \<Rightarrow>
      sbs_set r = sbs_set s - sbs_set t \<and> segs_wf B r \<and> sm_wf sm') \<and>
    (case sbs_diff_elem B s e sm of (r, sm') \<Rightarrow>
      sbs_set r = sbs_set s - {e} \<and> segs_wf B r \<and> sm_wf sm') \<and>
    (case sbs_intersect s t sm of (r, sm') \<Rightarrow>
      sbs_set r = sbs_set s \<inter> sbs_set t \<and> segs_wf B r \<and> sm_wf sm') \<and>
    (case sbs_copy s t sm of (r, sm') \<Rightarrow> sbs_set r = sbs_set t \<and> segs_wf B r \<and> sm_wf sm')"
proof -
  have i: "sbs_inv B [0, 0, 0] s" "sbs_inv B [0, 0, 0] t"
    using assms by (simp_all add: sbs_inv_def)
  show ?thesis
    using sparse.uni_law [OF i assms(3)] sparse.ins_law [OF i(1) assms(3,6)]
      sparse.dif_law [OF i assms(3)] sparse.del_law [OF i(1) assms(3), of e]
      sparse.int_law [OF i assms(3)] sparse.cpy_law [OF i assms(3)]
    by (simp add: case_prod_beta sbs_inv_def)
qed

lemma sbs_refines_sets_witness:
  "sbs_set [\<lparr>seg_start = 0, seg_bs = \<lparr>m_size = 1, m_ptr = Some [1]\<rparr>\<rparr>] \<union>
     sbs_set [\<lparr>seg_start = 16, seg_bs = \<lparr>m_size = 1, m_ptr = Some [1]\<rparr>\<rparr>] =
   sbs_set [\<lparr>seg_start = 0, seg_bs = \<lparr>m_size = 1, m_ptr = Some [1]\<rparr>\<rparr>,
     \<lparr>seg_start = 16, seg_bs = \<lparr>m_size = 1, m_ptr = Some [1]\<rparr>\<rparr>]"
proof -
  let ?s = "[\<lparr>seg_start = 0, seg_bs = \<lparr>m_size = 1, m_ptr = Some [1]\<rparr>\<rparr>]"
  let ?t = "[\<lparr>seg_start = 16, seg_bs = \<lparr>m_size = 1, m_ptr = Some [1]\<rparr>\<rparr>]"
  note b = one_bit
  have w: "segs_wf 16 ?s" "segs_wf 16 ?t" "sm_wf []" "0 < (16 :: nat)" "16 < (4294967288 :: nat)"
    "fits 16 3"
    by (auto simp: seg_wf_def b fits_def BS_UNDEF_def bitset_wf_def)
  have "sbs_bunion ?s ?t [] = (?s @ ?t, [])" by code_simp
  with sbs_refines_sets [OF w] show ?thesis by simp
qed

text \<open>
  The loop over a sparse set through \<open>get_first\<close> and \<open>get_next\<close> with its cursor ends and runs
  its body once for every element, in increasing order, crossing segment boundaries.
\<close>

theorem sbs_iteration:
  assumes "segs_wf B segs" and "card (sbs_set segs) \<le> n"
  shows "iterate n sbs_get_next body (sbs_get_first segs) st =
    Some (fold body (sorted_list_of_set (sbs_set segs)) st)"
  using sparse_iter.iterate_all [OF assms] .

lemma sbs_iteration_witness:
  "iterate 2 sbs_get_next (\<lambda>e es. e # es) (sbs_get_first
     [\<lparr>seg_start = 0, seg_bs = \<lparr>m_size = 1, m_ptr = Some [1]\<rparr>\<rparr>,
      \<lparr>seg_start = 16, seg_bs = \<lparr>m_size = 1, m_ptr = Some [1]\<rparr>\<rparr>]) [] = Some [16, 0] \<and>
   rev (sorted_list_of_set (sbs_set
     [\<lparr>seg_start = 0, seg_bs = \<lparr>m_size = 1, m_ptr = Some [1]\<rparr>\<rparr>,
      \<lparr>seg_start = 16, seg_bs = \<lparr>m_size = 1, m_ptr = Some [1]\<rparr>\<rparr>])) = [16, 0]"
proof -
  let ?s = "[\<lparr>seg_start = 0, seg_bs = \<lparr>m_size = 1, m_ptr = Some [1]\<rparr>\<rparr>,
     \<lparr>seg_start = 16, seg_bs = \<lparr>m_size = 1, m_ptr = Some [1]\<rparr>\<rparr>]"
  note b = one_bit
  have "segs_wf 16 ?s" by (auto simp: seg_wf_def b BS_UNDEF_def bitset_wf_def)
  moreover have "card (sbs_set ?s) \<le> 2" using b by (simp add: seg_set_def)
  ultimately have "iterate 2 sbs_get_next (\<lambda>e es. e # es) (sbs_get_first ?s) [] =
      Some (fold (\<lambda>e es. e # es) (sorted_list_of_set (sbs_set ?s)) [])"
    by (rule sbs_iteration)
  moreover have "iterate 2 sbs_get_next (\<lambda>e es. e # es) (sbs_get_first ?s) [] = Some [16, 0]"
    by code_simp
  ultimately show ?thesis by (simp add: fold_Cons_rev)
qed

text \<open>
  C22: the dual set computes the same set operations in sparse and in dense mode, provided both
  operands are in the mode of the receiver.
\<close>

theorem dbs_refines_sets:
  assumes "dbs_wf B sp d" and "dbs_wf B sp t" and "sm_wf sm"
    and "0 < B" and "B < 4294967288" and "fits B e" and "e < 4294967288" and "3 \<le> length past"
  shows "(case dbs_bunion d t sm of (r, sm') \<Rightarrow>
      dbs_set r = dbs_set d \<union> dbs_set t \<and> dbs_wf B sp r \<and> sm_wf sm') \<and>
    (case dbs_bunion_elem B d e sm of (r, sm') \<Rightarrow>
      dbs_set r = insert e (dbs_set d) \<and> dbs_wf B sp r \<and> sm_wf sm') \<and>
    (case dbs_diff d t sm of (r, sm') \<Rightarrow>
      dbs_set r = dbs_set d - dbs_set t \<and> dbs_wf B sp r \<and> sm_wf sm') \<and>
    (case dbs_diff_elem B d e sm of (r, sm') \<Rightarrow>
      dbs_set r = dbs_set d - {e} \<and> dbs_wf B sp r \<and> sm_wf sm') \<and>
    (case dbs_intersect d t sm of (r, sm') \<Rightarrow>
      dbs_set r = dbs_set d \<inter> dbs_set t \<and> dbs_wf B sp r \<and> sm_wf sm') \<and>
    (case dbs_copy d t sm of (r, sm') \<Rightarrow> dbs_set r = dbs_set t \<and> dbs_wf B sp r \<and> sm_wf sm') \<and>
    (dbs_is_equal past d t \<longleftrightarrow> dbs_set d = dbs_set t)"
proof -
  have i: "dbs_inv B past sp d" "dbs_inv B past sp t" using assms by (simp_all add: dbs_inv_def)
  show ?thesis
  proof (cases sp)
    case True
    with i have i': "dbs_inv B past True d" "dbs_inv B past True t" by simp_all
    have sp: "sp = True" using True by simp
    show ?thesis unfolding sp
      using dual.uni_law [OF i' assms(3)] dual.ins_law [OF i'(1) assms(3,6)]
        dual.dif_law [OF i' assms(3)] dual.del_law [OF i'(1) assms(3), of e]
        dual.int_law [OF i' assms(3)] dual.cpy_law [OF i' assms(3)] dual.eql_law [OF i']
      by (simp add: case_prod_beta dbs_inv_def)
  next
    case False
    with i have i': "dbs_inv B past False d" "dbs_inv B past False t" by simp_all
    have sp: "sp = False" using False by simp
    show ?thesis unfolding sp
      using dual_dense.uni_law [OF i' assms(3)] dual_dense.ins_law [OF i'(1) assms(3,7)]
        dual_dense.dif_law [OF i' assms(3)] dual_dense.del_law [OF i'(1) assms(3), of e]
        dual_dense.int_law [OF i' assms(3)] dual_dense.cpy_law [OF i' assms(3)]
        dual_dense.eql_law [OF i']
      by (simp add: case_prod_beta dbs_inv_def)
  qed
qed

lemma dbs_refines_sets_witness:
  "dbs_set (fst (dbs_bunion_elem 512 \<lparr>d_sparse = False, d_segs = []\<rparr> 700 [])) = {700} \<and>
   dbs_set (fst (dbs_bunion_elem 512 \<lparr>d_sparse = True, d_segs = []\<rparr> 700 [])) = {700}"
proof -
  have "dbs_wf 512 sp \<lparr>d_sparse = sp, d_segs = []\<rparr>" for sp by (simp add: dbs_wf_def)
  moreover have "sm_wf []" "0 < (512 :: nat)" "(512 :: nat) < 4294967288" "fits 512 700"
    "(700 :: nat) < 4294967288" "3 \<le> length [0 :: byte, 0, 0]"
    by (simp_all add: fits_def BS_UNDEF_def)
  ultimately have "dbs_set (fst (dbs_bunion_elem 512 \<lparr>d_sparse = sp, d_segs = []\<rparr> 700 [])) =
      insert 700 (dbs_set \<lparr>d_sparse = sp, d_segs = []\<rparr>)" for sp
    using dbs_refines_sets [of 512 sp "\<lparr>d_sparse = sp, d_segs = []\<rparr>" "\<lparr>d_sparse = sp, d_segs = []\<rparr>"
        "[]" 700 "[0, 0, 0]"] by (simp add: case_prod_beta)
  then show ?thesis by (simp add: dbs_set_def)
qed

text \<open>
  Copying from a dense set adds its elements to those that are already there: unlike the copy
  from a sparse set it does not clean the receiver first. The loop ends.
\<close>

theorem sbs_copy_bitset_is_union:
  assumes "segs_wf B segs" and "sm_wf sm" and "bitset_wf src" and "0 < B" and "B < 4294967288"
    and "\<forall>e\<in>bitset_set src. fits B e" and "card (bitset_set src) \<le> fuel"
  shows "\<exists>r sm'. sbs_bunion_bitset fuel B segs src sm = Some (r, sm') \<and>
    sbs_set r = sbs_set segs \<union> bitset_set src \<and> segs_wf B r \<and> sm_wf sm'"
  using sbs_bunion_bitset_correct [of B "[0, 0, 0]" segs sm src fuel] assms
  by (auto simp: sbs_inv_def)

lemma sbs_copy_bitset_is_union_witness:
  "\<exists>r sm'. sbs_bunion_bitset 1 16 [\<lparr>seg_start = 16, seg_bs = \<lparr>m_size = 1, m_ptr = Some [1]\<rparr>\<rparr>]
     \<lparr>m_size = 1, m_ptr = Some [1]\<rparr> [] = Some (r, sm') \<and> sbs_set r = {16, 0}"
proof -
  let ?s = "[\<lparr>seg_start = 16, seg_bs = \<lparr>m_size = 1, m_ptr = Some [1]\<rparr>\<rparr>]"
  note b = one_bit
  have w: "segs_wf 16 ?s" "sm_wf []" "bitset_wf \<lparr>m_size = 1, m_ptr = Some [1]\<rparr>" "0 < (16 :: nat)"
    "(16 :: nat) < 4294967288"
    by (auto simp: seg_wf_def b BS_UNDEF_def bitset_wf_def)
  have "sbs_set ?s = {16}" by (simp add: seg_set_def b)
  with sbs_copy_bitset_is_union [OF w, of 1] b show ?thesis
    by (auto simp: fits_def BS_UNDEF_def)
qed

end
