(* ===== verification/Liveness.thy ===== *)
theory Liveness
  imports DBitSet
begin

text \<open>
  The live-variable analysis: \<open>LivenessMgr\<close> of \<^verbatim>\<open>src/opt/liveness_mgr.h\<close> and
  \<^verbatim>\<open>src/opt/liveness_mgr.cpp\<close> with the PR-specific visitors of
  \<^verbatim>\<open>src/opt/pr_liveness_mgr.cpp\<close>. The analysis is written over the operations of its set
  class, passed as a record, and runs on \<open>SBitSetCore\<close> through \<open>sbs_ops\<close>; every operation
  receives and returns the manager the sets live in.

  A statement is what the visitors read of it: whether it writes a PR (or is a call or a region),
  the PR number of its result, the PRs its may-reference stands for, and the PR-reading
  expressions of its tree in visiting order. The control flow graph gives the blocks, their
  reverse postorder, the edges and the entry.
\<close>

section \<open>The set operations the analysis uses\<close>

record ('a, 'p) set_ops =
  op_new :: 'a
  op_cln :: "'a \<Rightarrow> 'p \<Rightarrow> 'a \<times> 'p"
  op_ins :: "'a \<Rightarrow> nat \<Rightarrow> 'p \<Rightarrow> 'a \<times> 'p"
  op_del :: "'a \<Rightarrow> nat \<Rightarrow> 'p \<Rightarrow> 'a \<times> 'p"
  op_uni :: "'a \<Rightarrow> 'a \<Rightarrow> 'p \<Rightarrow> 'a \<times> 'p"
  op_dif :: "'a \<Rightarrow> 'a \<Rightarrow> 'p \<Rightarrow> 'a \<times> 'p"
  op_int :: "'a \<Rightarrow> 'a \<Rightarrow> 'p \<Rightarrow> 'a \<times> 'p"
  op_cpy :: "'a \<Rightarrow> 'a \<Rightarrow> 'p \<Rightarrow> 'a \<times> 'p"
  op_eql :: "'a \<Rightarrow> 'a \<Rightarrow> bool"
  op_emp :: "'a \<Rightarrow> bool"

text \<open>\<open>LiveSet\<close> is \<open>DefSBitSetCore\<close>, the sparse set with segments of 512 bits.\<close>

definition sbs_ops :: "nat \<Rightarrow> byte list \<Rightarrow> (SEG list, SegMgr) set_ops" where
  "sbs_ops B past = \<lparr>op_new = [], op_cln = sbs_clean, op_ins = sbs_bunion_elem B,
     op_del = sbs_diff_elem B, op_uni = sbs_bunion, op_dif = sbs_diff, op_int = sbs_intersect,
     op_cpy = sbs_copy, op_eql = sbs_is_equal past, op_emp = sbs_is_empty\<rparr>"

section \<open>Program and state\<close>

record PRRef =
  ref_prno :: nat
  ref_may :: "nat list"

record PRStmt =
  stmt_writes :: bool
  stmt_result :: "nat option"
  stmt_may :: "nat list"
  stmt_exps :: "PRRef list"

record IRCFG =
  cfg_bbs :: "nat list"
  cfg_rpo :: "nat list"
  cfg_succ :: "nat \<Rightarrow> nat list"
  cfg_pred :: "nat \<Rightarrow> nat list"
  cfg_entry :: nat
  cfg_irs :: "nat \<Rightarrow> PRStmt list"

text \<open>\<open>Vector::get\<close> out of range is null, so a vector of set pointers is a partial map.\<close>

record ('a, 'p) LivenessMgr =
  lm_def :: "nat \<rightharpoonup> 'a"
  lm_use :: "nat \<rightharpoonup> 'a"
  lm_livein :: "nat \<rightharpoonup> 'a"
  lm_liveout :: "nat \<rightharpoonup> 'a"
  lm_sbs :: 'p

definition gen_set :: "('a, 'p) set_ops \<Rightarrow> (nat \<rightharpoonup> 'a) \<Rightarrow> nat \<Rightarrow> (nat \<rightharpoonup> 'a)" where
  "gen_set ops v bbid = (case v bbid of None \<Rightarrow> v(bbid \<mapsto> op_new ops) | Some _ \<Rightarrow> v)"

definition add_liveout :: "('a, 'p) set_ops \<Rightarrow> nat \<Rightarrow> nat \<Rightarrow> ('a, 'p) LivenessMgr \<Rightarrow> ('a, 'p) LivenessMgr" where
  "add_liveout ops bbid prno lm =
     (let v = gen_set ops (lm_liveout lm) bbid; (s, p) = op_ins ops (the (v bbid)) prno (lm_sbs lm)
      in lm\<lparr>lm_liveout := v(bbid \<mapsto> s), lm_sbs := p\<rparr>)"

definition add_livein :: "('a, 'p) set_ops \<Rightarrow> nat \<Rightarrow> nat \<Rightarrow> ('a, 'p) LivenessMgr \<Rightarrow> ('a, 'p) LivenessMgr" where
  "add_livein ops bbid prno lm =
     (let v = gen_set ops (lm_livein lm) bbid; (s, p) = op_ins ops (the (v bbid)) prno (lm_sbs lm)
      in lm\<lparr>lm_livein := v(bbid \<mapsto> s), lm_sbs := p\<rparr>)"

definition set_liveout :: "('a, 'p) set_ops \<Rightarrow> nat \<Rightarrow> 'a \<Rightarrow> ('a, 'p) LivenessMgr \<Rightarrow> ('a, 'p) LivenessMgr" where
  "set_liveout ops bbid live lm =
     (let v = gen_set ops (lm_liveout lm) bbid; (s, p) = op_cpy ops (the (v bbid)) live (lm_sbs lm)
      in lm\<lparr>lm_liveout := v(bbid \<mapsto> s), lm_sbs := p\<rparr>)"

definition set_livein :: "('a, 'p) set_ops \<Rightarrow> nat \<Rightarrow> 'a \<Rightarrow> ('a, 'p) LivenessMgr \<Rightarrow> ('a, 'p) LivenessMgr" where
  "set_livein ops bbid live lm =
     (let v = gen_set ops (lm_livein lm) bbid; (s, p) = op_cpy ops (the (v bbid)) live (lm_sbs lm)
      in lm\<lparr>lm_livein := v(bbid \<mapsto> s), lm_sbs := p\<rparr>)"

definition setLivenessForEmptyBB ::
  "('a, 'p) set_ops \<Rightarrow> nat \<Rightarrow> nat \<Rightarrow> ('a, 'p) LivenessMgr \<Rightarrow> ('a, 'p) LivenessMgr" where
  "setLivenessForEmptyBB ops empty_bb from_bb lm =
     (let live_set = the (lm_liveout lm from_bb)
      in set_livein ops empty_bb live_set (set_liveout ops empty_bb live_set lm))"

section \<open>Local sets\<close>

text \<open>The \<open>use\<close> and \<open>gen\<close> sets of a block and the manager, as the visitors change them.\<close>

type_synonym ('a, 'p) local_state = "'a \<times> 'a \<times> 'p"

definition updateSetByRHS ::
  "('a, 'p) set_ops \<Rightarrow> nat \<Rightarrow> ('a, 'p) local_state \<Rightarrow> ('a, 'p) local_state" where
  "updateSetByRHS ops idx st =
     (case st of (use, gen, p) \<Rightarrow> let (use, p) = op_ins ops use idx p in (use, gen, p))"

definition updateSetByLHS ::
  "('a, 'p) set_ops \<Rightarrow> nat \<Rightarrow> ('a, 'p) local_state \<Rightarrow> ('a, 'p) local_state" where
  "updateSetByLHS ops idx st =
     (case st of (use, gen, p) \<Rightarrow>
        let (gen, p) = op_ins ops gen idx p; (use, p) = op_del ops use idx p in (use, gen, p))"

text \<open>\<open>PRLivenessMgr::processMay\<close> with \<open>processMayDef\<close> and \<open>processMayUse\<close>.\<close>

definition processMayDef ::
  "('a, 'p) set_ops \<Rightarrow> nat \<Rightarrow> ('a, 'p) local_state \<Rightarrow> ('a, 'p) local_state" where
  "processMayDef ops prno st =
     (case st of (use, gen, p) \<Rightarrow>
        let (gen, p) = op_ins ops gen prno p; (use, p) = op_del ops use prno p in (use, gen, p))"

definition processMayUse ::
  "('a, 'p) set_ops \<Rightarrow> nat \<Rightarrow> ('a, 'p) local_state \<Rightarrow> ('a, 'p) local_state" where
  "processMayUse ops prno st = updateSetByRHS ops prno st"

definition processMay ::
  "('a, 'p) set_ops \<Rightarrow> bool \<Rightarrow> nat list \<Rightarrow> bool \<Rightarrow> ('a, 'p) local_state \<Rightarrow> ('a, 'p) local_state" where
  "processMay ops handle_may may is_lhs st =
     (if \<not> handle_may then st
      else fold (\<lambda>prno st. if is_lhs then processMayDef ops prno st else processMayUse ops prno st) may st)"

definition computeExpImpl ::
  "('a, 'p) set_ops \<Rightarrow> bool \<Rightarrow> PRRef \<Rightarrow> ('a, 'p) local_state \<Rightarrow> ('a, 'p) local_state" where
  "computeExpImpl ops hm e st =
     processMay ops hm (ref_may e) False (updateSetByRHS ops (ref_prno e) st)"

definition computeStmtImpl ::
  "('a, 'p) set_ops \<Rightarrow> bool \<Rightarrow> PRStmt \<Rightarrow> ('a, 'p) local_state \<Rightarrow> ('a, 'p) local_state" where
  "computeStmtImpl ops hm stmt st =
     (if \<not> stmt_writes stmt then st
      else processMay ops hm (stmt_may stmt) True
        (case stmt_result stmt of None \<Rightarrow> st | Some prno \<Rightarrow> updateSetByLHS ops prno st))"

definition computeExp ::
  "('a, 'p) set_ops \<Rightarrow> bool \<Rightarrow> PRStmt \<Rightarrow> ('a, 'p) local_state \<Rightarrow> ('a, 'p) local_state" where
  "computeExp ops hm stmt st = fold (computeExpImpl ops hm) (stmt_exps stmt) st"

definition computeStmt ::
  "('a, 'p) set_ops \<Rightarrow> bool \<Rightarrow> PRStmt \<Rightarrow> ('a, 'p) local_state \<Rightarrow> ('a, 'p) local_state" where
  "computeStmt ops hm stmt st = computeExp ops hm stmt (computeStmtImpl ops hm stmt st)"

text \<open>From the tail of the block to its head.\<close>

definition computeLocalIterBBIRList ::
  "('a, 'p) set_ops \<Rightarrow> bool \<Rightarrow> PRStmt list \<Rightarrow> ('a, 'p) local_state \<Rightarrow> ('a, 'p) local_state" where
  "computeLocalIterBBIRList ops hm irs st = fold (computeStmt ops hm) (rev irs) st"

definition computeLocal ::
  "('a, 'p) set_ops \<Rightarrow> bool \<Rightarrow> (nat \<Rightarrow> PRStmt list) \<Rightarrow> nat \<Rightarrow> ('a, 'p) LivenessMgr \<Rightarrow> ('a, 'p) LivenessMgr" where
  "computeLocal ops hm irs bbid lm =
     (let uv = gen_set ops (lm_use lm) bbid; dv = gen_set ops (lm_def lm) bbid;
          (use, p) = op_cln ops (the (uv bbid)) (lm_sbs lm);
          (gen, p) = op_cln ops (the (dv bbid)) p;
          (use, gen, p) = computeLocalIterBBIRList ops hm (irs bbid) (use, gen, p)
      in lm\<lparr>lm_use := uv(bbid \<mapsto> use), lm_def := dv(bbid \<mapsto> gen), lm_sbs := p\<rparr>)"

definition computeLocalAll ::
  "('a, 'p) set_ops \<Rightarrow> bool \<Rightarrow> IRCFG \<Rightarrow> ('a, 'p) LivenessMgr \<Rightarrow> ('a, 'p) LivenessMgr" where
  "computeLocalAll ops hm cfg lm = fold (computeLocal ops hm (cfg_irs cfg)) (cfg_bbs cfg) lm"

section \<open>Global sets\<close>

definition init_livein :: "('a, 'p) set_ops \<Rightarrow> nat \<Rightarrow> ('a, 'p) LivenessMgr \<Rightarrow> ('a, 'p) LivenessMgr" where
  "init_livein ops bbid lm =
     (let v = gen_set ops (lm_livein lm) bbid;
          (s, p) = (case lm_use lm bbid of
             Some use \<Rightarrow> op_cpy ops (the (v bbid)) use (lm_sbs lm)
           | None \<Rightarrow> op_cln ops (the (v bbid)) (lm_sbs lm))
      in lm\<lparr>lm_livein := v(bbid \<mapsto> s), lm_sbs := p\<rparr>)"

definition initSetBB :: "('a, 'p) set_ops \<Rightarrow> nat \<Rightarrow> ('a, 'p) LivenessMgr \<Rightarrow> ('a, 'p) LivenessMgr" where
  "initSetBB ops bbid lm =
     (let lm = init_livein ops bbid lm; v = gen_set ops (lm_liveout lm) bbid;
          (s, p) = op_cln ops (the (v bbid)) (lm_sbs lm)
      in lm\<lparr>lm_liveout := v(bbid \<mapsto> s), lm_sbs := p\<rparr>)"

definition initSet :: "('a, 'p) set_ops \<Rightarrow> nat list \<Rightarrow> ('a, 'p) LivenessMgr \<Rightarrow> ('a, 'p) LivenessMgr" where
  "initSet ops bbs lm = fold (initSetBB ops) bbs lm"

text \<open>
  The fixpoint loop of \<open>computeGlobal\<close>. One block step recomputes the live-out set from the
  live-in sets of the successors (only when there is one) and the live-in set from it; the
  work set \<open>news\<close> outlives the step.
\<close>

definition solve_bb ::
  "('a, 'p) set_ops \<Rightarrow> IRCFG \<Rightarrow> nat \<Rightarrow> ('a, 'p) LivenessMgr \<times> 'a \<times> bool \<Rightarrow> ('a, 'p) LivenessMgr \<times> 'a \<times> bool" where
  "solve_bb ops cfg bbid st =
     (case st of (lm, news, change) \<Rightarrow>
        let out = the (lm_liveout lm bbid);
            (out, news, change, p) =
              (case cfg_succ cfg bbid of
                 [] \<Rightarrow> (out, news, change, lm_sbs lm)
               | o1 # os \<Rightarrow>
                   (let (news, p) = op_cpy ops news (the (lm_livein lm o1)) (lm_sbs lm);
                        (news, p) = fold (\<lambda>o' (news, p). op_uni ops news (the (lm_livein lm o')) p) os (news, p)
                    in if \<not> op_eql ops out news
                       then (let (out, p) = op_cpy ops out news p in (out, news, True, p))
                       else (out, news, change, p)));
            (news, p) = op_cpy ops news out p;
            (news, p) = (case lm_def lm bbid of Some d \<Rightarrow> op_dif ops news d p | None \<Rightarrow> (news, p));
            (news, p) = (case lm_use lm bbid of Some u \<Rightarrow> op_uni ops news u p | None \<Rightarrow> (news, p));
            (inn, p) = op_cpy ops (the (lm_livein lm bbid)) news p
        in (lm\<lparr>lm_livein := (lm_livein lm)(bbid \<mapsto> inn), lm_liveout := (lm_liveout lm)(bbid \<mapsto> out),
              lm_sbs := p\<rparr>, news, change))"

definition solve_pass ::
  "('a, 'p) set_ops \<Rightarrow> IRCFG \<Rightarrow> ('a, 'p) LivenessMgr \<times> 'a \<Rightarrow> ('a, 'p) LivenessMgr \<times> 'a \<times> bool" where
  "solve_pass ops cfg st = (case st of (lm, news) \<Rightarrow> fold (solve_bb ops cfg) (rev (cfg_rpo cfg)) (lm, news, False))"

text \<open>\<open>do { ... } while (change && count < thres)\<close>, with the number of passes still allowed.\<close>

fun solve_loop ::
  "('a, 'p) set_ops \<Rightarrow> IRCFG \<Rightarrow> nat \<Rightarrow> ('a, 'p) LivenessMgr \<times> 'a \<Rightarrow> ('a, 'p) LivenessMgr \<times> 'a \<times> bool" where
  "solve_loop ops cfg n st =
     (case solve_pass ops cfg st of (lm, news, change) \<Rightarrow>
        case n of 0 \<Rightarrow> (lm, news, change)
        | Suc n' \<Rightarrow> if change then solve_loop ops cfg n' (lm, news) else (lm, news, change))"

declare solve_loop.simps [simp del]

definition thres :: nat where
  "thres = 1000"

definition solve :: "('a, 'p) set_ops \<Rightarrow> IRCFG \<Rightarrow> ('a, 'p) LivenessMgr \<Rightarrow> ('a, 'p) LivenessMgr \<times> 'a \<times> bool" where
  "solve ops cfg lm = solve_loop ops cfg (thres - 1) (lm, op_new ops)"

section \<open>Elimination of redundant liveness\<close>

text \<open>
  \<open>AuxLivenessMgr\<close> holds the new sets in its own manager. \<open>elim_visit\<close> recomputes the sets of one
  vertex, \<open>elim_walk\<close> is the breadth-first walk from the entry's successors (\<open>None\<close> when the fuel
  runs out), \<open>eliminateRedundantLivenessImpl\<close> is one round.
\<close>

record ('a, 'p) AuxLivenessMgr =
  aux_livein :: "nat \<rightharpoonup> 'a"
  aux_liveout :: "nat \<rightharpoonup> 'a"
  aux_sbs :: 'p

definition aux_init_bb ::
  "('a, 'p) set_ops \<Rightarrow> nat \<Rightarrow> ('a, 'p) AuxLivenessMgr \<Rightarrow> ('a, 'p) AuxLivenessMgr" where
  "aux_init_bb ops bbid aux =
     (let vi = gen_set ops (aux_livein aux) bbid;
          (i, p) = op_cln ops (the (vi bbid)) (aux_sbs aux);
          vo = gen_set ops (aux_liveout aux) bbid;
          (x, p) = op_cln ops (the (vo bbid)) p
      in aux\<lparr>aux_livein := vi(bbid \<mapsto> i), aux_liveout := vo(bbid \<mapsto> x), aux_sbs := p\<rparr>)"

definition aux_init :: "('a, 'p) set_ops \<Rightarrow> nat list \<Rightarrow> 'p \<Rightarrow> ('a, 'p) AuxLivenessMgr" where
  "aux_init ops bbs p =
     fold (aux_init_bb ops) bbs \<lparr>aux_livein = Map.empty, aux_liveout = Map.empty, aux_sbs = p\<rparr>"

record ('a, 'p) elim_state =
  es_aux :: "('a, 'p) AuxLivenessMgr"
  es_news :: 'a
  es_tmp :: 'a
  es_pre :: 'a
  es_change :: bool

definition getPreVertexNewLiveOut ::
  "('a, 'p) set_ops \<Rightarrow> IRCFG \<Rightarrow> nat \<Rightarrow> ('a, 'p) AuxLivenessMgr \<Rightarrow> 'a \<Rightarrow> 'p \<Rightarrow> 'a \<times> 'p" where
  "getPreVertexNewLiveOut ops cfg v aux live p =
     fold (\<lambda>c (live, p). op_uni ops live (the (aux_liveout aux c)) p) (cfg_pred cfg v) (live, p)"

definition elim_visit ::
  "('a, 'p) set_ops \<Rightarrow> IRCFG \<Rightarrow> ('a, 'p) LivenessMgr \<Rightarrow> 'a \<Rightarrow> nat \<Rightarrow> ('a, 'p) elim_state \<Rightarrow> ('a, 'p) elim_state" where
  "elim_visit ops cfg lm redundant v st =
     (let aux = es_aux st;
          (pre, p) = op_cln ops (es_pre st) (aux_sbs aux);
          (pre, p) = getPreVertexNewLiveOut ops cfg v aux pre p;
          (tmp, p) = op_cpy ops (es_tmp st) redundant p;
          (tmp, p) = op_dif ops tmp pre p;
          (tmp, p) = op_dif ops tmp (the (lm_use lm v)) p;
          (news, p) = op_cpy ops (es_news st) (the (lm_livein lm v)) p;
          (news, p) = op_dif ops news tmp p;
          change = (es_change st \<or> \<not> op_eql ops (the (aux_livein aux v)) news);
          (inn, p) = op_cpy ops (the (aux_livein aux v)) news p;
          (tmp, p) = op_cpy ops tmp redundant p;
          (tmp, p) = op_dif ops tmp pre p;
          (tmp, p) = op_dif ops tmp (the (lm_def lm v)) p;
          (news, p) = op_cpy ops news (the (lm_liveout lm v)) p;
          (news, p) = op_dif ops news tmp p;
          change = (change \<or> \<not> op_eql ops (the (aux_liveout aux v)) news);
          (out, p) = op_cpy ops (the (aux_liveout aux v)) news p
      in \<lparr>es_aux = aux\<lparr>aux_livein := (aux_livein aux)(v \<mapsto> inn),
                        aux_liveout := (aux_liveout aux)(v \<mapsto> out), aux_sbs := p\<rparr>,
          es_news = news, es_tmp = tmp, es_pre = pre, es_change = change\<rparr>)"

fun bfs_walk :: "(nat \<Rightarrow> nat list) \<Rightarrow> (nat \<Rightarrow> 's \<Rightarrow> 's) \<Rightarrow> nat \<Rightarrow> nat list \<Rightarrow> nat list \<Rightarrow> 's \<Rightarrow> (nat list \<times> 's) option" where
  "bfs_walk succ f n visit [] st = Some (visit, st)"
| "bfs_walk succ f 0 visit (v # vl) st = None"
| "bfs_walk succ f (Suc n) visit (v # vl) st =
     (if List.member visit v then bfs_walk succ f n visit vl st
      else let visit = v # visit; st = f v st
           in bfs_walk succ f n visit (vl @ filter (\<lambda>o'. \<not> List.member visit o') (succ v)) st)"

definition eliminateRedundantLivenessImpl ::
  "('a, 'p) set_ops \<Rightarrow> nat \<Rightarrow> IRCFG \<Rightarrow> ('a, 'p) LivenessMgr \<Rightarrow> 'a \<Rightarrow> ('a, 'p) AuxLivenessMgr \<Rightarrow>
   (('a, 'p) AuxLivenessMgr \<times> bool) option" where
  "eliminateRedundantLivenessImpl ops fuel cfg lm redundant aux =
     map_option
       (\<lambda>(_, st).
          let (_, p) = op_cln ops (es_news st) (aux_sbs (es_aux st));
              (_, p) = op_cln ops (es_tmp st) p; (_, p) = op_cln ops (es_pre st) p
          in ((es_aux st)\<lparr>aux_sbs := p\<rparr>, es_change st))
       (bfs_walk (cfg_succ cfg) (elim_visit ops cfg lm redundant) fuel [cfg_entry cfg]
          (cfg_succ cfg (cfg_entry cfg))
          \<lparr>es_aux = aux, es_news = op_new ops, es_tmp = op_new ops, es_pre = op_new ops, es_change = False\<rparr>)"

text \<open>\<open>do { ... } while (change && count < 100)\<close>.\<close>

fun elim_loop ::
  "('a, 'p) set_ops \<Rightarrow> nat \<Rightarrow> IRCFG \<Rightarrow> ('a, 'p) LivenessMgr \<Rightarrow> 'a \<Rightarrow> nat \<Rightarrow> ('a, 'p) AuxLivenessMgr \<Rightarrow>
   ('a, 'p) AuxLivenessMgr option" where
  "elim_loop ops fuel cfg lm redundant n aux =
     (case eliminateRedundantLivenessImpl ops fuel cfg lm redundant aux of
        None \<Rightarrow> None
      | Some (aux, change) \<Rightarrow>
          (case n of 0 \<Rightarrow> Some aux
           | Suc n' \<Rightarrow> if change then elim_loop ops fuel cfg lm redundant n' aux else Some aux))"

declare elim_loop.simps [simp del]

definition reset_bb ::
  "('a, 'p) set_ops \<Rightarrow> ('a, 'p) AuxLivenessMgr \<Rightarrow> nat \<Rightarrow> ('a, 'p) LivenessMgr \<Rightarrow> ('a, 'p) LivenessMgr" where
  "reset_bb ops aux v lm =
     (let (out, p) = op_cpy ops (the (lm_liveout lm v)) (the (aux_liveout aux v)) (lm_sbs lm);
          (inn, p) = op_cpy ops (the (lm_livein lm v)) (the (aux_livein aux v)) p
      in lm\<lparr>lm_livein := (lm_livein lm)(v \<mapsto> inn), lm_liveout := (lm_liveout lm)(v \<mapsto> out), lm_sbs := p\<rparr>)"

definition resetLivenessAfterRemoveRedundantLiveness ::
  "('a, 'p) set_ops \<Rightarrow> nat \<Rightarrow> IRCFG \<Rightarrow> ('a, 'p) AuxLivenessMgr \<Rightarrow> ('a, 'p) LivenessMgr \<Rightarrow>
   ('a, 'p) LivenessMgr option" where
  "resetLivenessAfterRemoveRedundantLiveness ops fuel cfg aux lm =
     map_option snd (bfs_walk (cfg_succ cfg) (reset_bb ops aux) fuel [cfg_entry cfg]
       (cfg_succ cfg (cfg_entry cfg)) lm)"

text \<open>
  \<open>handleParamInfoInEntryBB\<close>: \<open>params\<close> is the parameter set of the argument passer, \<open>None\<close> when
  there is no such pass or the target information is not compiled in.
\<close>

definition handleParamInfoInEntryBB ::
  "('a, 'p) set_ops \<Rightarrow> 'a option \<Rightarrow> nat \<Rightarrow> 'a \<Rightarrow> 'a \<Rightarrow> 'p \<Rightarrow> ('a, 'p) LivenessMgr \<Rightarrow> 'p \<times> ('a, 'p) LivenessMgr" where
  "handleParamInfoInEntryBB ops params entry_id old_livein old_liveout auxp lm =
     (case params of None \<Rightarrow> (auxp, lm)
      | Some prs \<Rightarrow>
          let (old_livein, auxp) = op_int ops old_livein prs auxp;
              (old_liveout, auxp) = op_int ops old_liveout prs auxp;
              (i, p) = op_uni ops (the (lm_livein lm entry_id)) old_livein (lm_sbs lm);
              (x, p) = op_uni ops (the (lm_liveout lm entry_id)) old_liveout p
          in (auxp, lm\<lparr>lm_livein := (lm_livein lm)(entry_id \<mapsto> i),
                       lm_liveout := (lm_liveout lm)(entry_id \<mapsto> x), lm_sbs := p\<rparr>))"

definition eliminateRedundantLiveness ::
  "('a, 'p) set_ops \<Rightarrow> nat \<Rightarrow> 'a option \<Rightarrow> 'p \<Rightarrow> IRCFG \<Rightarrow> ('a, 'p) LivenessMgr \<Rightarrow> ('a, 'p) LivenessMgr option" where
  "eliminateRedundantLiveness ops fuel params auxp cfg lm =
     (let aux = aux_init ops (cfg_bbs cfg) auxp; e = cfg_entry cfg;
          (redundant, p) = op_cpy ops (op_new ops) (the (lm_livein lm e)) (aux_sbs aux);
          (old_livein, p) = op_cpy ops (op_new ops) (the (lm_livein lm e)) p;
          (old_liveout, p) = op_cpy ops (op_new ops) (the (lm_liveout lm e)) p;
          (entry_use, p) = op_cpy ops (op_new ops) (the (lm_use lm e)) p;
          (entry_def, p) = op_cpy ops (op_new ops) (the (lm_def lm e)) p;
          (entry_use, p) = op_int ops entry_use old_livein p;
          (entry_def, p) = op_int ops entry_def old_liveout p;
          (i, q) = op_cpy ops (the (lm_livein lm e)) entry_use (lm_sbs lm);
          (x, q) = op_cpy ops (the (lm_liveout lm e)) entry_def q;
          lm = lm\<lparr>lm_livein := (lm_livein lm)(e \<mapsto> i), lm_liveout := (lm_liveout lm)(e \<mapsto> x), lm_sbs := q\<rparr>;
          (p, lm) = handleParamInfoInEntryBB ops params e old_livein old_liveout p lm
      in case elim_loop ops fuel cfg lm redundant 99 (aux\<lparr>aux_sbs := p\<rparr>) of
           None \<Rightarrow> None
         | Some aux \<Rightarrow> resetLivenessAfterRemoveRedundantLiveness ops fuel cfg aux lm)"

text \<open>\<open>computeGlobal\<close> and \<open>perform\<close>; the flag is the \<open>change\<close> that the final assertion tests.\<close>

definition computeGlobal ::
  "('a, 'p) set_ops \<Rightarrow> nat \<Rightarrow> 'a option \<Rightarrow> 'p \<Rightarrow> IRCFG \<Rightarrow> ('a, 'p) LivenessMgr \<Rightarrow>
   (('a, 'p) LivenessMgr \<times> bool) option" where
  "computeGlobal ops fuel params auxp cfg lm =
     (let (lm, news, change) = solve ops cfg lm; e = cfg_entry cfg;
          (news, p) = op_cpy ops news (the (lm_livein lm e)) (lm_sbs lm);
          (news, p) = op_dif ops news (the (lm_use lm e)) p;
          lm = lm\<lparr>lm_sbs := p\<rparr>;
          r = (if \<not> op_emp ops news then eliminateRedundantLiveness ops fuel params auxp cfg lm
               else Some lm)
      in map_option (\<lambda>lm. let (_, p) = op_cln ops news (lm_sbs lm) in (lm\<lparr>lm_sbs := p\<rparr>, change)) r)"

definition perform ::
  "('a, 'p) set_ops \<Rightarrow> bool \<Rightarrow> nat \<Rightarrow> 'a option \<Rightarrow> 'p \<Rightarrow> IRCFG \<Rightarrow> ('a, 'p) LivenessMgr \<Rightarrow>
   (('a, 'p) LivenessMgr \<times> bool) option" where
  "perform ops hm fuel params auxp cfg lm =
     (if cfg_bbs cfg = [] then Some (lm, False)
      else computeGlobal ops fuel params auxp cfg (initSet ops (cfg_bbs cfg) (computeLocalAll ops hm cfg lm)))"

end
