(* ===== verification/LivenessProps.thy ===== *)
theory LivenessProps
  imports Liveness
begin

text \<open>
  What the live-variable analysis promises. \<open>flow_bb\<close>, \<open>flow_pass\<close> and \<open>flow_loop\<close> are the
  equations of \<open>computeGlobal\<close> on mathematical sets; the first part of the file shows that their
  loop converges within a stated number of passes and that its result is path liveness, the
  second that the code computes them on any set implementation.
\<close>

section \<open>Path liveness\<close>

inductive live :: "(nat \<Rightarrow> nat list) \<Rightarrow> (nat \<Rightarrow> nat set) \<Rightarrow> (nat \<Rightarrow> nat set) \<Rightarrow> nat \<Rightarrow> nat \<Rightarrow> bool"
  for succ D U where
  here: "x \<in> U b \<Longrightarrow> live succ D U x b"
| later: "s \<in> set (succ b) \<Longrightarrow> live succ D U x s \<Longrightarrow> x \<notin> D b \<Longrightarrow> live succ D U x b"

inductive_simps live_iff: "live succ D U x b"

lemma live_used: "live succ D U x b \<Longrightarrow> b \<in> N \<Longrightarrow> (\<And>b. b \<in> N \<Longrightarrow> set (succ b) \<subseteq> N) \<Longrightarrow> x \<in> (\<Union>b\<in>N. U b)"
  by (induction rule: live.induct) auto

lemma live_cong:
  "live succ D U x b \<Longrightarrow> b \<in> N \<Longrightarrow> \<forall>b\<in>N. set (succ b) \<subseteq> N \<Longrightarrow> \<forall>b\<in>N. D b = D' b \<and> U b = U' b \<Longrightarrow>
   live succ D' U' x b"
proof (induction rule: live.induct)
  case (here x b)
  then show ?case by (intro live.here) simp
next
  case (later s b x)
  have "s \<in> N" using later.hyps(1) later.prems by blast
  then have "live succ D' U' x s" using later.IH later.prems(2,3) by blast
  moreover have "x \<notin> D' b" using later.hyps(3) later.prems by simp
  ultimately show ?case using live.later [where s = s and b = b and succ = succ and D = D' and U = U' and x = x] later.hyps(1) by blast
qed

section \<open>The equations\<close>

type_synonym flow = "(nat \<Rightarrow> nat set) \<times> (nat \<Rightarrow> nat set) \<times> bool"

definition flow_bb :: "(nat \<Rightarrow> nat list) \<Rightarrow> (nat \<Rightarrow> nat set) \<Rightarrow> (nat \<Rightarrow> nat set) \<Rightarrow> nat \<Rightarrow> flow \<Rightarrow> flow" where
  "flow_bb succ D U b st =
     (case st of (I, Ou, ch) \<Rightarrow>
        let out = (if succ b = [] then Ou b else (\<Union>s\<in>set (succ b). I s))
        in (I(b := (out - D b) \<union> U b), Ou(b := out), ch \<or> out \<noteq> Ou b))"

definition flow_pass :: "(nat \<Rightarrow> nat list) \<Rightarrow> (nat \<Rightarrow> nat set) \<Rightarrow> (nat \<Rightarrow> nat set) \<Rightarrow> nat list \<Rightarrow>
    (nat \<Rightarrow> nat set) \<times> (nat \<Rightarrow> nat set) \<Rightarrow> flow" where
  "flow_pass succ D U rpo st = (case st of (I, Ou) \<Rightarrow> fold (flow_bb succ D U) (rev rpo) (I, Ou, False))"

fun flow_loop :: "(nat \<Rightarrow> nat list) \<Rightarrow> (nat \<Rightarrow> nat set) \<Rightarrow> (nat \<Rightarrow> nat set) \<Rightarrow> nat list \<Rightarrow> nat \<Rightarrow>
    (nat \<Rightarrow> nat set) \<times> (nat \<Rightarrow> nat set) \<Rightarrow> flow" where
  "flow_loop succ D U rpo n st =
     (case flow_pass succ D U rpo st of (I, Ou, ch) \<Rightarrow>
        case n of 0 \<Rightarrow> (I, Ou, ch)
        | Suc n' \<Rightarrow> if ch then flow_loop succ D U rpo n' (I, Ou) else (I, Ou, ch))"

declare flow_loop.simps [simp del]

text \<open>
  The invariant of the loop over the blocks \<open>N\<close>: the live-in equation holds exactly, the live-out
  sets approximate the equation from below, and nothing exceeds path liveness.
\<close>

definition flow_inv :: "(nat \<Rightarrow> nat list) \<Rightarrow> (nat \<Rightarrow> nat set) \<Rightarrow> (nat \<Rightarrow> nat set) \<Rightarrow> nat set \<Rightarrow>
    (nat \<Rightarrow> nat set) \<Rightarrow> (nat \<Rightarrow> nat set) \<Rightarrow> bool" where
  "flow_inv succ D U N I Ou \<longleftrightarrow> (\<forall>b\<in>N. I b = (Ou b - D b) \<union> U b \<and>
     Ou b \<subseteq> (\<Union>s\<in>set (succ b). I s) \<and> (\<forall>x\<in>I b. live succ D U x b))"

lemma flow_bb_step:
  assumes inv: "flow_inv succ D U N I Ou" and b: "b \<in> N" and cl: "set (succ b) \<subseteq> N"
    and step: "flow_bb succ D U b (I, Ou, ch) = (I', Ou', ch')"
  shows "flow_inv succ D U N I' Ou'" and "\<forall>c. Ou c \<subseteq> Ou' c" and "\<forall>c. c \<noteq> b \<longrightarrow> Ou' c = Ou c"
    and "ch' \<longleftrightarrow> ch \<or> Ou' b \<noteq> Ou b"
    and "Ou' b = Ou b \<Longrightarrow> I' = I \<and> Ou' = Ou \<and> Ou b = (\<Union>s\<in>set (succ b). I s)"
proof -
  let ?o = "if succ b = [] then Ou b else (\<Union>s\<in>set (succ b). I s)"
  have o: "?o = (\<Union>s\<in>set (succ b). I s)" using inv b by (auto simp: flow_inv_def)
  have st: "I' = I(b := (?o - D b) \<union> U b)" "Ou' = Ou(b := ?o)" "ch' = (ch \<or> ?o \<noteq> Ou b)"
    using step by (auto simp: flow_bb_def Let_def)
  have up: "Ou b \<subseteq> ?o" using inv b o by (auto simp: flow_inv_def)
  have Ib: "I b = (Ou b - D b) \<union> U b" using inv b by (simp add: flow_inv_def)
  have I_up: "I c \<subseteq> I' c" for c using up Ib st(1) by (cases "c = b") auto
  show "\<forall>c. Ou c \<subseteq> Ou' c" using up unfolding st(2) by (metis fun_upd_apply order_refl)
  show "\<forall>c. c \<noteq> b \<longrightarrow> Ou' c = Ou c" unfolding st(2) by simp
  show "ch' \<longleftrightarrow> ch \<or> Ou' b \<noteq> Ou b" unfolding st(2,3) fun_upd_same by (rule refl)
  show "I' = I \<and> Ou' = Ou \<and> Ou b = (\<Union>s\<in>set (succ b). I s)" if "Ou' b = Ou b"
  proof -
    have "?o = Ou b" using that st(2) by simp
    then show ?thesis using st(1,2) Ib o by (simp add: fun_upd_idem)
  qed
  show "flow_inv succ D U N I' Ou'"
    unfolding flow_inv_def
  proof (intro ballI conjI)
    fix c assume c: "c \<in> N"
    show "I' c = (Ou' c - D c) \<union> U c" using inv c st by (auto simp: flow_inv_def)
    have "Ou' c \<subseteq> (\<Union>s\<in>set (succ c). I s)"
      using inv c o st(2) by (cases "c = b") (auto simp: flow_inv_def)
    then show "Ou' c \<subseteq> (\<Union>s\<in>set (succ c). I' s)" using I_up by blast
    fix x assume x: "x \<in> I' c"
    show "live succ D U x c"
    proof (cases "c = b")
      case True
      from x consider "x \<in> U b" | s where "s \<in> set (succ b)" "x \<in> I s" "x \<notin> D b"
        using True st(1) o by auto
      then show ?thesis
      proof cases
        case 1
        with True show ?thesis by (simp add: live.here)
      next
        case 2
        then have "live succ D U x s" using inv cl by (auto simp: flow_inv_def)
        with 2 True show ?thesis by (auto intro: live.later)
      qed
    next
      case False
      with x st(1) inv c show ?thesis by (simp add: flow_inv_def)
    qed
  qed
qed

lemma flow_fold:
  assumes "flow_inv succ D U N I Ou" "set bs \<subseteq> N" "\<forall>b\<in>N. set (succ b) \<subseteq> N"
    and "fold (flow_bb succ D U) bs (I, Ou, ch) = (I', Ou', ch')"
  shows "flow_inv succ D U N I' Ou' \<and> (\<forall>c. Ou c \<subseteq> Ou' c) \<and> (ch \<longrightarrow> ch') \<and>
    (\<not> ch' \<longrightarrow> I' = I \<and> Ou' = Ou \<and> (\<forall>b\<in>set bs. Ou b = (\<Union>s\<in>set (succ b). I s))) \<and>
    (ch' \<longrightarrow> ch \<or> (\<exists>b\<in>set bs. Ou b \<noteq> Ou' b))"
  using assms
proof (induction bs arbitrary: I Ou ch)
  case (Cons b bs)
  obtain I1 Ou1 ch1 where s: "flow_bb succ D U b (I, Ou, ch) = (I1, Ou1, ch1)"
    by (rule prod_cases3)
  have b: "b \<in> N" "set (succ b) \<subseteq> N" using Cons.prems by auto
  note st = flow_bb_step [OF Cons.prems(1) b s]
  have r: "fold (flow_bb succ D U) bs (I1, Ou1, ch1) = (I', Ou', ch')" using Cons.prems(4) s by simp
  have IH: "flow_inv succ D U N I' Ou' \<and> (\<forall>c. Ou1 c \<subseteq> Ou' c) \<and> (ch1 \<longrightarrow> ch') \<and>
    (\<not> ch' \<longrightarrow> I' = I1 \<and> Ou' = Ou1 \<and> (\<forall>b\<in>set bs. Ou1 b = (\<Union>s\<in>set (succ b). I1 s))) \<and>
    (ch' \<longrightarrow> ch1 \<or> (\<exists>b\<in>set bs. Ou1 b \<noteq> Ou' b))"
    using Cons.IH [OF st(1) _ Cons.prems(3) r] Cons.prems(2) by simp
  have a: "\<forall>c. Ou c \<subseteq> Ou' c" using IH st(2) by blast
  have nc: "I' = I \<and> Ou' = Ou \<and> (\<forall>b\<in>set (b # bs). Ou b = (\<Union>s\<in>set (succ b). I s))" if "\<not> ch'"
  proof -
    have "\<not> ch1" using IH that by blast
    then have "Ou1 b = Ou b" using st(4) by blast
    with st(5) IH that show ?thesis by auto
  qed
  have chg: "ch \<or> (\<exists>b\<in>set (b # bs). Ou b \<noteq> Ou' b)" if "ch'" "\<not> ch"
  proof (cases "Ou1 b = Ou b")
    case True
    then have "\<not> ch1" "Ou1 = Ou" using st(4,5) that by auto
    with IH that show ?thesis by auto
  next
    case False
    then have "Ou b \<noteq> Ou' b" using st(2) IH by blast
    then show ?thesis by simp
  qed
  from IH a nc chg st(4) show ?case by blast
qed auto

lemma flow_pass_correct:
  assumes "flow_inv succ D U (set rpo) I Ou" "\<forall>b\<in>set rpo. set (succ b) \<subseteq> set rpo"
    and "flow_pass succ D U rpo (I, Ou) = (I', Ou', ch')"
  shows "flow_inv succ D U (set rpo) I' Ou'" and "\<forall>c. Ou c \<subseteq> Ou' c"
    and "\<not> ch' \<Longrightarrow> I' = I \<and> Ou' = Ou \<and> (\<forall>b\<in>set rpo. Ou b = (\<Union>s\<in>set (succ b). I s))"
    and "ch' \<Longrightarrow> \<exists>b\<in>set rpo. Ou b \<noteq> Ou' b"
  using flow_fold [OF assms(1) _ assms(2), of "rev rpo" False I' Ou' ch'] assms(3)
  by (auto simp: flow_pass_def)

text \<open>At a fixpoint the live-in sets are exactly path liveness.\<close>

lemma flow_fixpoint:
  assumes "flow_inv succ D U N I Ou" "\<forall>b\<in>N. set (succ b) \<subseteq> N"
    and fp: "\<forall>b\<in>N. Ou b = (\<Union>s\<in>set (succ b). I s)" and b: "b \<in> N"
  shows "I b = {x. live succ D U x b}" and "Ou b = {x. \<exists>s\<in>set (succ b). live succ D U x s}"
proof -
  have sub: "x \<in> I b" if "live succ D U x b" "b \<in> N" for x b
    using that
  proof (induction rule: live.induct)
    case (here x b)
    then show ?case using assms(1) by (auto simp: flow_inv_def)
  next
    case (later s b x)
    then have "x \<in> Ou b" using fp assms(2) by blast
    with later assms(1) show ?case by (auto simp: flow_inv_def)
  qed
  have eq: "I b = {x. live succ D U x b}" if "b \<in> N" for b
    using assms(1) sub [OF _ that] that unfolding flow_inv_def by blast
  show "I b = {x. live succ D U x b}" using eq b by simp
  have "s \<in> N" if "s \<in> set (succ b)" for s using assms(2) b that by blast
  then show "Ou b = {x. \<exists>s\<in>set (succ b). live succ D U x s}" using fp b eq by auto
qed

lemma flow_loop_inv:
  assumes "flow_inv succ D U (set rpo) I Ou" "\<forall>b\<in>set rpo. set (succ b) \<subseteq> set rpo"
    and "flow_loop succ D U rpo n (I, Ou) = (I', Ou', ch')"
  shows "flow_inv succ D U (set rpo) I' Ou' \<and>
    (\<not> ch' \<longrightarrow> (\<forall>b\<in>set rpo. Ou' b = (\<Union>s\<in>set (succ b). I' s)))"
  using assms
proof (induction n arbitrary: I Ou)
  case 0
  then have "flow_pass succ D U rpo (I, Ou) = (I', Ou', ch')"
    by (simp add: flow_loop.simps split: prod.splits)
  from flow_pass_correct [OF 0(1,2) this] show ?case by auto
next
  case (Suc n)
  obtain I1 Ou1 ch1 where p: "flow_pass succ D U rpo (I, Ou) = (I1, Ou1, ch1)"
    by (rule prod_cases3)
  note pc = flow_pass_correct [OF Suc.prems(1,2) p]
  show ?case
  proof (cases ch1)
    case True
    with p Suc.prems(3) have "flow_loop succ D U rpo n (I1, Ou1) = (I', Ou', ch')"
      by (simp add: flow_loop.simps [of _ _ _ _ "Suc n"])
    from Suc.IH [OF pc(1) Suc.prems(2) this] show ?thesis .
  next
    case False
    with p Suc.prems(3) have "I' = I1" "Ou' = Ou1" "ch' = ch1"
      by (simp_all add: flow_loop.simps [of _ _ _ _ "Suc n"])
    with pc False show ?thesis by auto
  qed
qed

text \<open>Every pass that reports a change enlarges the live-out sets, which are bounded.\<close>

definition flow_size :: "nat list \<Rightarrow> (nat \<Rightarrow> nat set) \<Rightarrow> nat" where
  "flow_size rpo Ou = (\<Sum>b\<in>set rpo. card (Ou b))"

lemma flow_size_less:
  assumes "\<forall>c. Ou c \<subseteq> Ou' c" "\<exists>b\<in>set rpo. Ou b \<noteq> Ou' b" "\<forall>b\<in>set rpo. finite (Ou' b)"
  shows "flow_size rpo Ou < flow_size rpo Ou'"
proof -
  obtain b where b: "b \<in> set rpo" "Ou b \<noteq> Ou' b" using assms(2) by blast
  have "card (Ou c) \<le> card (Ou' c)" if "c \<in> set rpo" for c
    using assms(1,3) that by (auto intro: card_mono)
  moreover have "Ou b \<subset> Ou' b" using b assms(1) by blast
  then have "card (Ou b) < card (Ou' b)" using b assms(3) by (simp add: psubset_card_mono)
  ultimately show ?thesis unfolding flow_size_def using b(1) by (intro sum_strict_mono_ex1) auto
qed

lemma flow_bounded:
  assumes "flow_inv succ D U (set rpo) I Ou" "\<forall>b\<in>set rpo. set (succ b) \<subseteq> set rpo"
    and "\<forall>b\<in>set rpo. finite (U b)"
  shows "\<forall>b\<in>set rpo. finite (Ou b)"
    and "flow_size rpo Ou \<le> card (set rpo) * card (\<Union>b\<in>set rpo. U b)"
proof -
  let ?V = "\<Union>b\<in>set rpo. U b"
  have fV: "finite ?V" using assms(3) by auto
  have sub: "Ou b \<subseteq> ?V" if b: "b \<in> set rpo" for b
  proof
    fix x assume x: "x \<in> Ou b"
    have "Ou b \<subseteq> (\<Union>s\<in>set (succ b). I s)" using assms(1) b by (simp add: flow_inv_def)
    with x obtain s where s: "s \<in> set (succ b)" "x \<in> I s" by blast
    then have "s \<in> set rpo" using assms(2) b by blast
    with s assms(1) have "live succ D U x s" by (simp add: flow_inv_def)
    from live_used [OF this \<open>s \<in> set rpo\<close>] assms(2) show "x \<in> ?V" by blast
  qed
  then show "\<forall>b\<in>set rpo. finite (Ou b)" using fV finite_subset by blast
  have "flow_size rpo Ou \<le> (\<Sum>b\<in>set rpo. card ?V)"
    unfolding flow_size_def using sub fV by (intro sum_mono card_mono) auto
  then show "flow_size rpo Ou \<le> card (set rpo) * card ?V" by simp
qed

lemma flow_loop_converges:
  assumes "flow_inv succ D U (set rpo) I Ou" "\<forall>b\<in>set rpo. set (succ b) \<subseteq> set rpo"
    and "\<forall>b\<in>set rpo. finite (U b)"
    and "card (set rpo) * card (\<Union>b\<in>set rpo. U b) \<le> flow_size rpo Ou + n"
  shows "\<not> snd (snd (flow_loop succ D U rpo n (I, Ou)))"
  using assms(1,4)
proof (induction n arbitrary: I Ou)
  case 0
  obtain I1 Ou1 ch1 where p: "flow_pass succ D U rpo (I, Ou) = (I1, Ou1, ch1)"
    by (rule prod_cases3)
  note pc = flow_pass_correct [OF 0(1) assms(2) p]
  note bd = flow_bounded [OF pc(1) assms(2,3)]
  have "\<not> ch1"
  proof
    assume ch1
    from flow_size_less [OF pc(2) pc(4) [OF this] bd(1)] bd(2) 0(2) show False by simp
  qed
  with p show ?case by (simp add: flow_loop.simps)
next
  case (Suc n)
  obtain I1 Ou1 ch1 where p: "flow_pass succ D U rpo (I, Ou) = (I1, Ou1, ch1)"
    by (rule prod_cases3)
  note pc = flow_pass_correct [OF Suc.prems(1) assms(2) p]
  note bd = flow_bounded [OF pc(1) assms(2,3)]
  show ?case
  proof (cases ch1)
    case True
    from flow_size_less [OF pc(2) pc(4) [OF this] bd(1)] Suc.prems(2)
    have "card (set rpo) * card (\<Union>b\<in>set rpo. U b) \<le> flow_size rpo Ou1 + n" by simp
    from Suc.IH [OF pc(1) this] True p show ?thesis by (simp add: flow_loop.simps [of _ _ _ _ "Suc n"])
  next
    case False
    with p show ?thesis by (simp add: flow_loop.simps)
  qed
qed

section \<open>The code computes the equations\<close>

definition upd :: "('a \<Rightarrow> nat set) \<Rightarrow> (nat \<rightharpoonup> 'a) \<Rightarrow> nat \<Rightarrow> nat set" where
  "upd A v b = (case v b of None \<Rightarrow> {} | Some s \<Rightarrow> A s)"

definition vec_ok :: "('a \<Rightarrow> bool) \<Rightarrow> (nat \<rightharpoonup> 'a) \<Rightarrow> bool" where
  "vec_ok iv v \<longleftrightarrow> (\<forall>b s. v b = Some s \<longrightarrow> iv s)"

definition lm_ok :: "('a \<Rightarrow> bool) \<Rightarrow> ('p \<Rightarrow> bool) \<Rightarrow> ('a, 'p) LivenessMgr \<Rightarrow> bool" where
  "lm_ok iv pv lm \<longleftrightarrow> vec_ok iv (lm_def lm) \<and> vec_ok iv (lm_use lm) \<and> vec_ok iv (lm_livein lm) \<and>
     vec_ok iv (lm_liveout lm) \<and> pv (lm_sbs lm)"

definition has_sets :: "nat set \<Rightarrow> ('a, 'p) LivenessMgr \<Rightarrow> bool" where
  "has_sets N lm \<longleftrightarrow> N \<subseteq> dom (lm_livein lm) \<and> N \<subseteq> dom (lm_liveout lm)"

lemma upd_simps [simp]:
  "v b = Some s \<Longrightarrow> upd A v b = A s"
  "upd A (v(b \<mapsto> s)) = (upd A v)(b := A s)"
  by (auto simp: upd_def fun_eq_iff)

lemma vec_ok_upd: "vec_ok iv v \<Longrightarrow> iv s \<Longrightarrow> vec_ok iv (v(b \<mapsto> s))"
  by (auto simp: vec_ok_def)

lemma vec_okD: "vec_ok iv v \<Longrightarrow> v b = Some s \<Longrightarrow> iv s"
  by (auto simp: vec_ok_def)

text \<open>The effect of a statement and of a block on mathematical sets.\<close>

definition stmt_defs :: "bool \<Rightarrow> PRStmt \<Rightarrow> nat set" where
  "stmt_defs hm s = (if stmt_writes s then set_option (stmt_result s) \<union> (if hm then set (stmt_may s) else {}) else {})"

definition ref_uses :: "bool \<Rightarrow> PRRef \<Rightarrow> nat set" where
  "ref_uses hm e = insert (ref_prno e) (if hm then set (ref_may e) else {})"

definition stmt_uses :: "bool \<Rightarrow> PRStmt \<Rightarrow> nat set" where
  "stmt_uses hm s = (\<Union>e\<in>set (stmt_exps s). ref_uses hm e)"

text \<open>Upward-exposed uses: used by a statement and not defined by an earlier one.\<close>

fun exposed :: "bool \<Rightarrow> PRStmt list \<Rightarrow> nat set" where
  "exposed hm [] = {}"
| "exposed hm (s # ss) = stmt_uses hm s \<union> (exposed hm ss - stmt_defs hm s)"

definition block_defs :: "bool \<Rightarrow> PRStmt list \<Rightarrow> nat set" where
  "block_defs hm ss = (\<Union>s\<in>set ss. stmt_defs hm s)"

definition stmt_ok :: "(nat \<Rightarrow> bool) \<Rightarrow> PRStmt \<Rightarrow> bool" where
  "stmt_ok okp s \<longleftrightarrow> (\<forall>x\<in>set_option (stmt_result s) \<union> set (stmt_may s). okp x) \<and>
     (\<forall>e\<in>set (stmt_exps s). okp (ref_prno e) \<and> (\<forall>x\<in>set (ref_may e). okp x))"

locale set_client =
  set_impl \<alpha> inv pinv ok "op_new ops" "op_cln ops" "op_ins ops" "op_del ops" "op_uni ops"
    "op_dif ops" "op_int ops" "op_cpy ops" "op_eql ops" "op_emp ops"
  for \<alpha> :: "'a \<Rightarrow> nat set" and inv :: "'a \<Rightarrow> bool" and pinv :: "'p \<Rightarrow> bool" and ok :: "nat \<Rightarrow> bool"
    and ops :: "('a, 'p) set_ops"
begin

text \<open>The laws with the result of an operation named, as the proofs consume them.\<close>

lemma cpyE: "op_cpy ops s t p = (r, q) \<Longrightarrow> inv s \<Longrightarrow> inv t \<Longrightarrow> pinv p \<Longrightarrow> \<alpha> r = \<alpha> t \<and> inv r \<and> pinv q"
  using cpy_law [of s t p] by simp

lemma uniE: "op_uni ops s t p = (r, q) \<Longrightarrow> inv s \<Longrightarrow> inv t \<Longrightarrow> pinv p \<Longrightarrow> \<alpha> r = \<alpha> s \<union> \<alpha> t \<and> inv r \<and> pinv q"
  using uni_law [of s t p] by simp

lemma difE: "op_dif ops s t p = (r, q) \<Longrightarrow> inv s \<Longrightarrow> inv t \<Longrightarrow> pinv p \<Longrightarrow> \<alpha> r = \<alpha> s - \<alpha> t \<and> inv r \<and> pinv q"
  using dif_law [of s t p] by simp

lemma clnE: "op_cln ops s p = (r, q) \<Longrightarrow> inv s \<Longrightarrow> pinv p \<Longrightarrow> \<alpha> r = {} \<and> inv r \<and> pinv q"
  using cln_law [of s p] by simp

lemma insE: "op_ins ops s e p = (r, q) \<Longrightarrow> inv s \<Longrightarrow> pinv p \<Longrightarrow> ok e \<Longrightarrow> \<alpha> r = insert e (\<alpha> s) \<and> inv r \<and> pinv q"
  using ins_law [of s p e] by simp

lemma delE: "op_del ops s e p = (r, q) \<Longrightarrow> inv s \<Longrightarrow> pinv p \<Longrightarrow> \<alpha> r = \<alpha> s - {e} \<and> inv r \<and> pinv q"
  using del_law [of s p e] by simp

text \<open>Local sets.\<close>

definition loc_ok :: "'a \<times> 'a \<times> 'p \<Rightarrow> nat set \<Rightarrow> nat set \<Rightarrow> bool" where
  "loc_ok st Us Ge \<longleftrightarrow> (case st of (use, gen, p) \<Rightarrow>
     inv use \<and> inv gen \<and> pinv p \<and> \<alpha> use = Us \<and> \<alpha> gen = Ge)"

lemma RHS_ok: "loc_ok st Us Ge \<Longrightarrow> ok x \<Longrightarrow> loc_ok (updateSetByRHS ops x st) (insert x Us) Ge"
  by (auto simp: loc_ok_def updateSetByRHS_def Let_def dest: insE split: prod.splits)

lemma LHS_ok: "loc_ok st Us Ge \<Longrightarrow> ok x \<Longrightarrow> loc_ok (updateSetByLHS ops x st) (Us - {x}) (insert x Ge)"
  by (auto simp: loc_ok_def updateSetByLHS_def Let_def dest!: insE delE split: prod.splits)

lemma may_def_ok:
  "loc_ok st Us Ge \<Longrightarrow> \<forall>x\<in>set xs. ok x \<Longrightarrow>
   loc_ok (processMay ops hm xs True st) (Us - (if hm then set xs else {})) (Ge \<union> (if hm then set xs else {}))"
proof (induction xs arbitrary: st Us Ge)
  case (Cons x xs)
  have d: "processMayDef ops x st = updateSetByLHS ops x st"
    by (simp add: processMayDef_def updateSetByLHS_def)
  have "loc_ok (updateSetByLHS ops x st) (Us - {x}) (insert x Ge)"
    using Cons.prems LHS_ok [of st Us Ge x] by simp
  from Cons.IH [OF this] Cons.prems
  have "hm \<Longrightarrow> loc_ok (processMay ops hm xs True (updateSetByLHS ops x st)) (Us - {x} - set xs) (insert x Ge \<union> set xs)"
    by simp
  moreover have "Us - {x} - set xs = Us - set (x # xs)" "insert x Ge \<union> set xs = Ge \<union> set (x # xs)" by auto
  ultimately show ?case using Cons.prems(1) d by (cases hm) (simp_all add: processMay_def)
qed (simp add: processMay_def)

lemma may_use_ok:
  "loc_ok st Us Ge \<Longrightarrow> \<forall>x\<in>set xs. ok x \<Longrightarrow>
   loc_ok (processMay ops hm xs False st) (Us \<union> (if hm then set xs else {})) Ge"
proof (induction xs arbitrary: st Us Ge)
  case (Cons x xs)
  have d: "processMayUse ops x st = updateSetByRHS ops x st" by (simp add: processMayUse_def)
  have "loc_ok (updateSetByRHS ops x st) (insert x Us) Ge"
    using Cons.prems RHS_ok [of st Us Ge x] by simp
  from Cons.IH [OF this] Cons.prems
  have "hm \<Longrightarrow> loc_ok (processMay ops hm xs False (updateSetByRHS ops x st)) (insert x Us \<union> set xs) Ge"
    by simp
  moreover have "insert x Us \<union> set xs = Us \<union> set (x # xs)" by auto
  ultimately show ?case using Cons.prems(1) d by (cases hm) (simp_all add: processMay_def)
qed (simp add: processMay_def)

lemma stmt_step:
  assumes l: "loc_ok st Us Ge" and k: "stmt_ok ok s"
  shows "loc_ok (computeStmt ops hm s st) ((Us - stmt_defs hm s) \<union> stmt_uses hm s) (Ge \<union> stmt_defs hm s)"
proof -
  have "loc_ok (computeStmtImpl ops hm s st) (Us - stmt_defs hm s) (Ge \<union> stmt_defs hm s)"
  proof (cases "stmt_writes s")
    case True
    let ?st = "case stmt_result s of None \<Rightarrow> st | Some x \<Rightarrow> updateSetByLHS ops x st"
    have "loc_ok ?st (Us - set_option (stmt_result s)) (Ge \<union> set_option (stmt_result s))"
      using l LHS_ok [OF l] k by (auto simp: stmt_ok_def split: option.splits)
    from may_def_ok [OF this, of "stmt_may s" hm] True k show ?thesis
      by (simp add: computeStmtImpl_def stmt_defs_def stmt_ok_def Diff_Diff_Int set_diff_eq Un_assoc
          conj_assoc)
  qed (use l in \<open>simp add: computeStmtImpl_def stmt_defs_def\<close>)
  then have "loc_ok (fold (computeExpImpl ops hm) es (computeStmtImpl ops hm s st))
      ((Us - stmt_defs hm s) \<union> (\<Union>e\<in>set es. ref_uses hm e)) (Ge \<union> stmt_defs hm s)"
    if "set es \<subseteq> set (stmt_exps s)" for es
    using that
  proof (induction es rule: rev_induct)
    case (snoc e es)
    let ?U = "(Us - stmt_defs hm s) \<union> (\<Union>e\<in>set es. ref_uses hm e)"
    have e: "ok (ref_prno e)" "\<forall>x\<in>set (ref_may e). ok x" using snoc.prems(2) k by (auto simp: stmt_ok_def)
    from snoc have "loc_ok (fold (computeExpImpl ops hm) es (computeStmtImpl ops hm s st)) ?U (Ge \<union> stmt_defs hm s)"
      by simp
    from may_use_ok [OF RHS_ok [OF this e(1)] e(2), of hm]
    have "loc_ok (fold (computeExpImpl ops hm) (es @ [e]) (computeStmtImpl ops hm s st))
        (insert (ref_prno e) ?U \<union> (if hm then set (ref_may e) else {})) (Ge \<union> stmt_defs hm s)"
      by (simp add: computeExpImpl_def)
    moreover have "insert (ref_prno e) ?U \<union> (if hm then set (ref_may e) else {}) =
        (Us - stmt_defs hm s) \<union> (\<Union>e\<in>set (es @ [e]). ref_uses hm e)"
      by (auto simp: ref_uses_def)
    ultimately show ?case by simp
  qed simp
  from this [of "stmt_exps s"] show ?thesis
    by (simp add: computeStmt_def computeExp_def stmt_uses_def)
qed

lemma block_step:
  assumes "loc_ok st {} {}" "\<forall>s\<in>set ss. stmt_ok ok s"
  shows "loc_ok (computeLocalIterBBIRList ops hm ss st) (exposed hm ss) (block_defs hm ss)"
  unfolding computeLocalIterBBIRList_def using assms(2)
proof (induction ss)
  case Nil
  with assms(1) show ?case by (simp add: block_defs_def)
next
  case (Cons s ss)
  from stmt_step [OF Cons.IH, of s hm] Cons.prems
  have "loc_ok (fold (computeStmt ops hm) (rev (s # ss)) st)
      (exposed hm ss - stmt_defs hm s \<union> stmt_uses hm s) (block_defs hm ss \<union> stmt_defs hm s)" by simp
  moreover have "exposed hm ss - stmt_defs hm s \<union> stmt_uses hm s = exposed hm (s # ss)"
    "block_defs hm ss \<union> stmt_defs hm s = block_defs hm (s # ss)"
    by (auto simp: block_defs_def)
  ultimately show ?case by simp
qed

lemma gen_set_ok: "inv (op_new ops) \<Longrightarrow> vec_ok inv v \<Longrightarrow>
   vec_ok inv (gen_set ops v b) \<and> (\<exists>s. gen_set ops v b b = Some s \<and> inv s) \<and>
   (\<forall>c. c \<noteq> b \<longrightarrow> gen_set ops v b c = v c) \<and> dom (gen_set ops v b) = insert b (dom v)"
  by (auto simp: gen_set_def vec_ok_def split: option.splits)

lemma computeLocal_ok:
  fixes hm irs b lm
  defines "lm' \<equiv> computeLocal ops hm irs b lm"
  assumes n: "inv (op_new ops)" and lm: "lm_ok inv pinv lm" and k: "\<forall>s\<in>set (irs b). stmt_ok ok s"
  shows "lm_ok inv pinv lm'"
    and "upd \<alpha> (lm_use lm') = (upd \<alpha> (lm_use lm))(b := exposed hm (irs b))"
    and "upd \<alpha> (lm_def lm') = (upd \<alpha> (lm_def lm))(b := block_defs hm (irs b))"
    and "lm_livein lm' = lm_livein lm" and "lm_liveout lm' = lm_liveout lm"
    and "dom (lm_use lm') = insert b (dom (lm_use lm))" and "dom (lm_def lm') = insert b (dom (lm_def lm))"
proof -
  let ?uv = "gen_set ops (lm_use lm) b" and ?dv = "gen_set ops (lm_def lm) b"
  have v: "vec_ok inv (lm_use lm)" "vec_ok inv (lm_def lm)" "pinv (lm_sbs lm)"
    using lm by (auto simp: lm_ok_def)
  note gu = gen_set_ok [OF n v(1), of b] and gd = gen_set_ok [OF n v(2), of b]
  obtain u0 where u0: "?uv b = Some u0" "inv u0" using gu by blast
  obtain d0 where d0: "?dv b = Some d0" "inv d0" using gd by blast
  obtain u1 p1 where u1: "op_cln ops u0 (lm_sbs lm) = (u1, p1)" by fastforce
  obtain d1 p2 where d1: "op_cln ops d0 p1 = (d1, p2)" by fastforce
  have "loc_ok (u1, d1, p2) {} {}"
    using clnE [OF u1 u0(2) v(3)] clnE [OF d1 d0(2)] by (simp add: loc_ok_def)
  from block_step [OF this k, of hm]
  obtain u d p where r: "computeLocalIterBBIRList ops hm (irs b) (u1, d1, p2) = (u, d, p)"
    "inv u" "inv d" "pinv p" "\<alpha> u = exposed hm (irs b)" "\<alpha> d = block_defs hm (irs b)"
    by (auto simp: loc_ok_def split: prod.splits)
  have lm': "lm' = lm\<lparr>lm_use := ?uv(b \<mapsto> u), lm_def := ?dv(b \<mapsto> d), lm_sbs := p\<rparr>"
    by (simp add: lm'_def computeLocal_def u0 u1 d0 d1 r Let_def)
  show "lm_ok inv pinv lm'" using lm gu gd r by (auto simp: lm' lm_ok_def intro!: vec_ok_upd)
  show "upd \<alpha> (lm_use lm') = (upd \<alpha> (lm_use lm))(b := exposed hm (irs b))"
    "upd \<alpha> (lm_def lm') = (upd \<alpha> (lm_def lm))(b := block_defs hm (irs b))"
    using gu gd r by (auto simp: lm' fun_eq_iff upd_def)
  show "lm_livein lm' = lm_livein lm" "lm_liveout lm' = lm_liveout lm" by (simp_all add: lm')
  show "dom (lm_use lm') = insert b (dom (lm_use lm))" "dom (lm_def lm') = insert b (dom (lm_def lm))"
    using gu gd by (auto simp: lm')
qed

text \<open>Global sets.\<close>

lemma initSetBB_ok:
  fixes b lm
  defines "lm' \<equiv> initSetBB ops b lm"
  assumes n: "inv (op_new ops)" and lm: "lm_ok inv pinv lm"
  shows "lm_ok inv pinv lm'" and "lm_def lm' = lm_def lm" and "lm_use lm' = lm_use lm"
    and "upd \<alpha> (lm_livein lm') = (upd \<alpha> (lm_livein lm))(b := upd \<alpha> (lm_use lm) b)"
    and "upd \<alpha> (lm_liveout lm') = (upd \<alpha> (lm_liveout lm))(b := {})"
    and "dom (lm_livein lm') = insert b (dom (lm_livein lm))"
    and "dom (lm_liveout lm') = insert b (dom (lm_liveout lm))"
proof -
  let ?vi = "gen_set ops (lm_livein lm) b" and ?vo = "gen_set ops (lm_liveout lm) b"
  have v: "vec_ok inv (lm_livein lm)" "vec_ok inv (lm_liveout lm)" "vec_ok inv (lm_use lm)" "pinv (lm_sbs lm)"
    using lm by (auto simp: lm_ok_def)
  note gi = gen_set_ok [OF n v(1), of b] and go = gen_set_ok [OF n v(2), of b]
  obtain i0 where i0: "?vi b = Some i0" "inv i0" using gi by blast
  obtain o0 where o0: "?vo b = Some o0" "inv o0" using go by blast
  obtain i p where i: "(case lm_use lm b of Some use \<Rightarrow> op_cpy ops i0 use (lm_sbs lm)
      | None \<Rightarrow> op_cln ops i0 (lm_sbs lm)) = (i, p)" by (metis surj_pair)
  have ii: "\<alpha> i = upd \<alpha> (lm_use lm) b" "inv i" "pinv p"
    using i cpyE [OF _ i0(2) vec_okD [OF v(3)] v(4)] clnE [OF _ i0(2) v(4)]
    by (auto simp: upd_def split: option.splits)
  obtain x q where x: "op_cln ops o0 p = (x, q)" by fastforce
  note xx = clnE [OF x o0(2) ii(3)]
  have lm': "lm' = lm\<lparr>lm_livein := ?vi(b \<mapsto> i), lm_liveout := ?vo(b \<mapsto> x), lm_sbs := q\<rparr>"
  proof -
    have "init_livein ops b lm = lm\<lparr>lm_livein := ?vi(b \<mapsto> i), lm_sbs := p\<rparr>"
      unfolding init_livein_def Let_def i0(1) option.sel i by simp
    then show ?thesis by (simp add: lm'_def initSetBB_def o0(1) x Let_def)
  qed
  show "lm_ok inv pinv lm'" using lm gi go ii xx by (auto simp: lm' lm_ok_def intro!: vec_ok_upd)
  show "lm_def lm' = lm_def lm" "lm_use lm' = lm_use lm" by (simp_all add: lm')
  show "upd \<alpha> (lm_livein lm') = (upd \<alpha> (lm_livein lm))(b := upd \<alpha> (lm_use lm) b)"
    "upd \<alpha> (lm_liveout lm') = (upd \<alpha> (lm_liveout lm))(b := {})"
    using gi go ii xx by (auto simp: lm' fun_eq_iff upd_def)
  show "dom (lm_livein lm') = insert b (dom (lm_livein lm))"
    "dom (lm_liveout lm') = insert b (dom (lm_liveout lm))"
    using gi go by (auto simp: lm')
qed

lemma union_succs:
  "inv news \<Longrightarrow> pinv p \<Longrightarrow> vec_ok inv v \<Longrightarrow> set os \<subseteq> dom v \<Longrightarrow>
   fold (\<lambda>o' (news, p). op_uni ops news (the (v o')) p) os (news, p) = (r, q) \<Longrightarrow>
   \<alpha> r = \<alpha> news \<union> (\<Union>s\<in>set os. upd \<alpha> v s) \<and> inv r \<and> pinv q"
proof (induction os arbitrary: news p)
  case (Cons x os)
  obtain t where t: "v x = Some t" "inv t" using Cons.prems(3,4) by (auto simp: vec_ok_def)
  obtain n1 p1 where u: "op_uni ops news t p = (n1, p1)" by fastforce
  note un = uniE [OF u Cons.prems(1) t(2) Cons.prems(2)]
  have "fold (\<lambda>o' (news, p). op_uni ops news (the (v o')) p) os (n1, p1) = (r, q)"
    using Cons.prems(5) t(1) u by simp
  from Cons.IH [OF _ _ Cons.prems(3) _ this] un Cons.prems(4) t(1) show ?case by auto
qed simp

lemma solve_bb_ok:
  assumes lm: "lm_ok inv pinv lm" and nw: "inv news" and N: "has_sets N lm" and b: "b \<in> N"
    and sc: "set (cfg_succ cfg b) \<subseteq> N"
    and r: "solve_bb ops cfg b (lm, news, ch) = (lm', news', ch')"
  shows "lm_ok inv pinv lm' \<and> inv news' \<and> has_sets N lm' \<and> lm_def lm' = lm_def lm \<and> lm_use lm' = lm_use lm \<and>
    (upd \<alpha> (lm_livein lm'), upd \<alpha> (lm_liveout lm'), ch') =
      flow_bb (cfg_succ cfg) (upd \<alpha> (lm_def lm)) (upd \<alpha> (lm_use lm)) b
        (upd \<alpha> (lm_livein lm), upd \<alpha> (lm_liveout lm), ch)"
proof -
  have v: "vec_ok inv (lm_livein lm)" "vec_ok inv (lm_liveout lm)" "vec_ok inv (lm_use lm)"
    "vec_ok inv (lm_def lm)" "pinv (lm_sbs lm)"
    using lm by (auto simp: lm_ok_def)
  obtain out where out: "lm_liveout lm b = Some out" "inv out"
    using N b v(2) by (auto simp: has_sets_def vec_ok_def)
  obtain ib where ib: "lm_livein lm b = Some ib" "inv ib"
    using N b v(1) by (auto simp: has_sets_def vec_ok_def)
  let ?I = "upd \<alpha> (lm_livein lm)" and ?Ou = "upd \<alpha> (lm_liveout lm)"
  let ?D = "upd \<alpha> (lm_def lm)" and ?U = "upd \<alpha> (lm_use lm)"
  let ?step = "case cfg_succ cfg b of
       [] \<Rightarrow> (out, news, ch, lm_sbs lm)
     | o1 # os \<Rightarrow>
         (let (news, p) = op_cpy ops news (the (lm_livein lm o1)) (lm_sbs lm);
              (news, p) = fold (\<lambda>o' (news, p). op_uni ops news (the (lm_livein lm o')) p) os (news, p)
          in if \<not> op_eql ops out news
             then (let (out, p) = op_cpy ops out news p in (out, news, True, p))
             else (out, news, ch, p))"
  let ?new = "if cfg_succ cfg b = [] then ?Ou b else (\<Union>s\<in>set (cfg_succ cfg b). ?I s)"
  obtain out1 n1 ch1 p1 where s1: "?step = (out1, n1, ch1, p1)" by (rule prod_cases4)
  have st: "\<alpha> out1 = ?new \<and> inv out1 \<and> inv n1 \<and> pinv p1 \<and> ch1 = (ch \<or> ?new \<noteq> ?Ou b)"
  proof (cases "cfg_succ cfg b")
    case Nil
    with s1 out nw v(5) show ?thesis by simp
  next
    case (Cons o1 os)
    then obtain i1 where i1: "lm_livein lm o1 = Some i1" "inv i1"
      using N sc v(1) by (auto simp: has_sets_def vec_ok_def)
    obtain na pa where a: "op_cpy ops news i1 (lm_sbs lm) = (na, pa)" by fastforce
    note aa = cpyE [OF a nw i1(2) v(5)]
    obtain nb pb where bb: "fold (\<lambda>o' (news, p). op_uni ops news (the (lm_livein lm o')) p) os (na, pa) = (nb, pb)"
      by fastforce
    have "set os \<subseteq> dom (lm_livein lm)" using N sc Cons by (auto simp: has_sets_def)
    from union_succs [OF _ _ v(1) this bb] aa
    have nb: "\<alpha> nb = \<alpha> na \<union> (\<Union>s\<in>set os. ?I s)" "inv nb" "pinv pb" by auto
    have new: "\<alpha> nb = ?new" using nb(1) aa i1 Cons by simp
    show ?thesis
    proof (cases "op_eql ops out nb")
      case True
      then have "\<alpha> out = \<alpha> nb" using eql_law [OF out(2) nb(2)] by simp
      with True s1 Cons a bb i1 out nb new show ?thesis by (simp split: if_split_asm)
    next
      case False
      then have ne: "\<alpha> out \<noteq> \<alpha> nb" using eql_law [OF out(2) nb(2)] by simp
      obtain oc pc where c: "op_cpy ops out nb pb = (oc, pc)" by fastforce
      note cc = cpyE [OF c out(2) nb(2,3)]
      from False s1 Cons a bb i1 c have "out1 = oc" "n1 = nb" "ch1 = True" "p1 = pc" by simp_all
      moreover have "?new \<noteq> ?Ou b" using new ne out by (metis upd_simps(1))
      ultimately show ?thesis using cc nb new by metis
    qed
  qed
  obtain n2 p2 where s2: "op_cpy ops n1 out1 p1 = (n2, p2)" by fastforce
  have n2: "\<alpha> n2 = ?new" "inv n2" "pinv p2" using cpyE [OF s2] st by auto
  obtain n3 p3 where s3: "(case lm_def lm b of Some d \<Rightarrow> op_dif ops n2 d p2 | None \<Rightarrow> (n2, p2)) = (n3, p3)"
    by (metis surj_pair)
  have n3: "\<alpha> n3 = ?new - ?D b" "inv n3" "pinv p3"
    using s3 n2 difE [OF _ n2(2) vec_okD [OF v(4)] n2(3)]
    by (auto simp: upd_def split: option.splits simp del: if_split)
  obtain n4 p4 where s4: "(case lm_use lm b of Some u \<Rightarrow> op_uni ops n3 u p3 | None \<Rightarrow> (n3, p3)) = (n4, p4)"
    by (metis surj_pair)
  have n4: "\<alpha> n4 = (?new - ?D b) \<union> ?U b" "inv n4" "pinv p4"
    using s4 n3 uniE [OF _ n3(2) vec_okD [OF v(3)] n3(3)]
    by (auto simp: upd_def split: option.splits simp del: if_split)
  obtain i5 p5 where s5: "op_cpy ops ib n4 p4 = (i5, p5)" by fastforce
  note n5 = cpyE [OF s5 ib(2) n4(2,3)]
  have res: "lm' = lm\<lparr>lm_livein := (lm_livein lm)(b \<mapsto> i5), lm_liveout := (lm_liveout lm)(b \<mapsto> out1), lm_sbs := p5\<rparr>"
    "news' = n4" "ch' = ch1"
    using r unfolding solve_bb_def Let_def prod.case out(1) ib(1) option.sel
      s1 [unfolded Let_def] s2 s3 s4 s5 by simp_all
  have "lm_ok inv pinv lm'" using lm st n5 by (auto simp: res lm_ok_def intro!: vec_ok_upd)
  moreover have "has_sets N lm'" using N b by (auto simp: res has_sets_def)
  moreover have "(upd \<alpha> (lm_livein lm'), upd \<alpha> (lm_liveout lm'), ch') =
      flow_bb (cfg_succ cfg) ?D ?U b (?I, ?Ou, ch)"
    using n5 n4 st by (simp add: res flow_bb_def Let_def del: if_split)
  ultimately show ?thesis using n4 by (simp add: res)
qed

lemma solve_fold_ok:
  assumes "lm_ok inv pinv lm" "inv news" "has_sets N lm" "set bs \<subseteq> N"
    and "\<forall>b\<in>N. set (cfg_succ cfg b) \<subseteq> N"
    and "fold (solve_bb ops cfg) bs (lm, news, ch) = (lm', news', ch')"
  shows "lm_ok inv pinv lm' \<and> inv news' \<and> has_sets N lm' \<and> lm_def lm' = lm_def lm \<and> lm_use lm' = lm_use lm \<and>
    (upd \<alpha> (lm_livein lm'), upd \<alpha> (lm_liveout lm'), ch') =
      fold (flow_bb (cfg_succ cfg) (upd \<alpha> (lm_def lm)) (upd \<alpha> (lm_use lm))) bs
        (upd \<alpha> (lm_livein lm), upd \<alpha> (lm_liveout lm), ch)"
  using assms(1-4,6)
proof (induction bs arbitrary: lm news ch)
  case (Cons b bs)
  obtain lm1 news1 ch1 where s: "solve_bb ops cfg b (lm, news, ch) = (lm1, news1, ch1)"
    by (rule prod_cases3)
  have b: "b \<in> N" "set (cfg_succ cfg b) \<subseteq> N" using Cons.prems(4) assms(5) by auto
  have st: "lm_ok inv pinv lm1" "inv news1" "has_sets N lm1" "lm_def lm1 = lm_def lm" "lm_use lm1 = lm_use lm"
    "(upd \<alpha> (lm_livein lm1), upd \<alpha> (lm_liveout lm1), ch1) =
      flow_bb (cfg_succ cfg) (upd \<alpha> (lm_def lm)) (upd \<alpha> (lm_use lm)) b
        (upd \<alpha> (lm_livein lm), upd \<alpha> (lm_liveout lm), ch)"
    using solve_bb_ok [OF Cons.prems(1-3) b s] by blast+
  have "fold (solve_bb ops cfg) bs (lm1, news1, ch1) = (lm', news', ch')" using Cons.prems(5) s by simp
  from Cons.IH [OF st(1-3) _ this] Cons.prems(4) st(4-6) show ?case by simp
qed simp

lemma solve_loop_ok:
  assumes "lm_ok inv pinv lm" "inv news" "has_sets (set (cfg_rpo cfg)) lm"
    and "\<forall>b\<in>set (cfg_rpo cfg). set (cfg_succ cfg b) \<subseteq> set (cfg_rpo cfg)"
    and "solve_loop ops cfg n (lm, news) = (lm', news', ch')"
  shows "lm_ok inv pinv lm' \<and> inv news' \<and> has_sets (set (cfg_rpo cfg)) lm' \<and>
    lm_def lm' = lm_def lm \<and> lm_use lm' = lm_use lm \<and>
    (upd \<alpha> (lm_livein lm'), upd \<alpha> (lm_liveout lm'), ch') =
      flow_loop (cfg_succ cfg) (upd \<alpha> (lm_def lm)) (upd \<alpha> (lm_use lm)) (cfg_rpo cfg) n
        (upd \<alpha> (lm_livein lm), upd \<alpha> (lm_liveout lm))"
  using assms(1-3,5)
proof (induction n arbitrary: lm news)
  case 0
  then have "fold (solve_bb ops cfg) (rev (cfg_rpo cfg)) (lm, news, False) = (lm', news', ch')"
    by (simp add: solve_loop.simps solve_pass_def split: prod.splits)
  from solve_fold_ok [OF 0(1-3) _ assms(4) this] show ?case
    by (auto simp: flow_loop.simps flow_pass_def split: prod.splits)
next
  case (Suc n)
  obtain lm1 news1 ch1 where s: "fold (solve_bb ops cfg) (rev (cfg_rpo cfg)) (lm, news, False) = (lm1, news1, ch1)"
    by (rule prod_cases3)
  have st: "lm_ok inv pinv lm1" "inv news1" "has_sets (set (cfg_rpo cfg)) lm1" "lm_def lm1 = lm_def lm"
    "lm_use lm1 = lm_use lm"
    "fold (flow_bb (cfg_succ cfg) (upd \<alpha> (lm_def lm)) (upd \<alpha> (lm_use lm))) (rev (cfg_rpo cfg))
        (upd \<alpha> (lm_livein lm), upd \<alpha> (lm_liveout lm), False) =
      (upd \<alpha> (lm_livein lm1), upd \<alpha> (lm_liveout lm1), ch1)"
    using solve_fold_ok [OF Suc.prems(1-3) _ assms(4) s] by simp_all
  show ?case
  proof (cases ch1)
    case True
    with s Suc.prems(4) have "solve_loop ops cfg n (lm1, news1) = (lm', news', ch')"
      by (simp add: solve_loop.simps [of _ _ "Suc n"] solve_pass_def)
    from Suc.IH [OF st(1-3) this] True st(4-6) show ?thesis
      by (simp add: flow_loop.simps [of _ _ _ _ "Suc n"] flow_pass_def)
  next
    case False
    with s Suc.prems(4) have "lm' = lm1" "news' = news1" "ch' = ch1"
      by (simp_all add: solve_loop.simps [of _ _ "Suc n"] solve_pass_def)
    with False st show ?thesis by (simp add: flow_loop.simps [of _ _ _ _ "Suc n"] flow_pass_def)
  qed
qed

lemma initSet_ok:
  assumes n: "inv (op_new ops)" and lm: "lm_ok inv pinv lm"
  shows "lm_ok inv pinv (initSet ops bbs lm) \<and> lm_def (initSet ops bbs lm) = lm_def lm \<and>
    lm_use (initSet ops bbs lm) = lm_use lm \<and>
    (\<forall>b. upd \<alpha> (lm_livein (initSet ops bbs lm)) b =
       (if b \<in> set bbs then upd \<alpha> (lm_use lm) b else upd \<alpha> (lm_livein lm) b)) \<and>
    (\<forall>b. upd \<alpha> (lm_liveout (initSet ops bbs lm)) b = (if b \<in> set bbs then {} else upd \<alpha> (lm_liveout lm) b)) \<and>
    has_sets (set bbs) (initSet ops bbs lm)"
  using lm
proof (induction bbs arbitrary: lm)
  case Nil
  then show ?case by (simp add: initSet_def has_sets_def)
next
  case (Cons b bbs)
  note st = initSetBB_ok [OF n Cons.prems, of b]
  have mono: "dom (lm_livein lm) \<subseteq> dom (lm_livein (initSet ops bs lm)) \<and>
      dom (lm_liveout lm) \<subseteq> dom (lm_liveout (initSet ops bs lm))" if "lm_ok inv pinv lm" for bs lm
    using that
  proof (induction bs arbitrary: lm)
    case (Cons c bs)
    from Cons.IH [OF initSetBB_ok(1) [OF n Cons.prems, of c]] initSetBB_ok(6,7) [OF n Cons.prems, of c]
    show ?case by (auto simp: initSet_def)
  qed (simp add: initSet_def)
  have e: "initSet ops (b # bbs) lm = initSet ops bbs (initSetBB ops b lm)" by (simp add: initSet_def)
  from Cons.IH [OF st(1)] mono [OF st(1), of bbs] st show ?case
    unfolding e by (auto simp: has_sets_def)
qed

lemma computeLocalAll_ok:
  assumes n: "inv (op_new ops)" and lm: "lm_ok inv pinv lm"
    and k: "\<forall>b\<in>set (cfg_bbs cfg). \<forall>s\<in>set (cfg_irs cfg b). stmt_ok ok s"
  shows "lm_ok inv pinv (computeLocalAll ops hm cfg lm) \<and>
    (\<forall>b\<in>set (cfg_bbs cfg). upd \<alpha> (lm_use (computeLocalAll ops hm cfg lm)) b = exposed hm (cfg_irs cfg b) \<and>
       upd \<alpha> (lm_def (computeLocalAll ops hm cfg lm)) b = block_defs hm (cfg_irs cfg b))"
proof -
  have "lm_ok inv pinv (fold (computeLocal ops hm (cfg_irs cfg)) bs lm) \<and>
    (\<forall>b\<in>set bs. upd \<alpha> (lm_use (fold (computeLocal ops hm (cfg_irs cfg)) bs lm)) b = exposed hm (cfg_irs cfg b) \<and>
       upd \<alpha> (lm_def (fold (computeLocal ops hm (cfg_irs cfg)) bs lm)) b = block_defs hm (cfg_irs cfg b))"
    if "set bs \<subseteq> set (cfg_bbs cfg)" for bs
    using that
  proof (induction bs rule: rev_induct)
    case (snoc b bs)
    then have IH: "lm_ok inv pinv (fold (computeLocal ops hm (cfg_irs cfg)) bs lm)" by simp
    have "\<forall>s\<in>set (cfg_irs cfg b). stmt_ok ok s" using k snoc.prems by auto
    from computeLocal_ok(1-3) [where irs = "cfg_irs cfg" and b = b and hm = hm, OF n IH this] snoc
    show ?case by auto
  qed (use lm in simp)
  then show ?thesis by (simp add: computeLocalAll_def)
qed

text \<open>The whole analysis, up to the fixpoint.\<close>

lemma solve_ok:
  fixes hm cfg
  defines "U \<equiv> \<lambda>b. exposed hm (cfg_irs cfg b)" and "D \<equiv> \<lambda>b. block_defs hm (cfg_irs cfg b)"
  assumes n: "inv (op_new ops)" and lm: "lm_ok inv pinv lm"
    and k: "\<forall>b\<in>set (cfg_bbs cfg). \<forall>s\<in>set (cfg_irs cfg b). stmt_ok ok s"
    and rpo: "set (cfg_rpo cfg) = set (cfg_bbs cfg)"
    and cl: "\<forall>b\<in>set (cfg_bbs cfg). set (cfg_succ cfg b) \<subseteq> set (cfg_bbs cfg)"
    and r: "solve ops cfg (initSet ops (cfg_bbs cfg) (computeLocalAll ops hm cfg lm)) = (lm', news', ch')"
  shows "lm_ok inv pinv lm'" and "inv news'" and "has_sets (set (cfg_bbs cfg)) lm'"
    and "\<forall>b\<in>set (cfg_bbs cfg). upd \<alpha> (lm_use lm') b = U b \<and> upd \<alpha> (lm_def lm') b = D b"
    and "\<forall>b\<in>set (cfg_bbs cfg). \<forall>x\<in>upd \<alpha> (lm_livein lm') b. live (cfg_succ cfg) D U x b"
    and "\<not> ch' \<Longrightarrow> \<forall>b\<in>set (cfg_bbs cfg). upd \<alpha> (lm_livein lm') b = {x. live (cfg_succ cfg) D U x b} \<and>
        upd \<alpha> (lm_liveout lm') b = {x. \<exists>s\<in>set (cfg_succ cfg b). live (cfg_succ cfg) D U x s}"
    and "card (set (cfg_bbs cfg)) * card (\<Union>b\<in>set (cfg_bbs cfg). U b) < thres \<Longrightarrow> \<not> ch'"
    and "lm_use lm' = lm_use (computeLocalAll ops hm cfg lm)" and "lm_def lm' = lm_def (computeLocalAll ops hm cfg lm)"
proof -
  let ?N = "set (cfg_bbs cfg)" and ?l1 = "computeLocalAll ops hm cfg lm"
  let ?l2 = "initSet ops (cfg_bbs cfg) ?l1"
  note c = computeLocalAll_ok [OF n lm k, of hm]
  have i: "lm_ok inv pinv ?l2" "lm_def ?l2 = lm_def ?l1" "lm_use ?l2 = lm_use ?l1" "has_sets ?N ?l2"
    "\<forall>b\<in>?N. upd \<alpha> (lm_livein ?l2) b = upd \<alpha> (lm_use ?l1) b \<and> upd \<alpha> (lm_liveout ?l2) b = {}"
    using initSet_ok [OF n, of ?l1 "cfg_bbs cfg"] c by auto
  let ?D = "upd \<alpha> (lm_def ?l2)" and ?U = "upd \<alpha> (lm_use ?l2)"
  have DU: "?D b = D b" "?U b = U b" if "b \<in> ?N" for b
    using c i(2,3) that by (auto simp: U_def D_def)
  have sl: "solve_loop ops cfg (thres - 1) (?l2, op_new ops) = (lm', news', ch')"
    using r by (simp add: solve_def)
  have cl': "\<forall>b\<in>set (cfg_rpo cfg). set (cfg_succ cfg b) \<subseteq> set (cfg_rpo cfg)" using cl rpo by simp
  have hs: "has_sets (set (cfg_rpo cfg)) ?l2" using i(4) rpo by simp
  note so = solve_loop_ok [OF i(1) n hs cl' sl]
  show "lm_ok inv pinv lm'" "inv news'" "has_sets ?N lm'" using so rpo by auto
  show "lm_use lm' = lm_use ?l1" "lm_def lm' = lm_def ?l1" using so i(2,3) by auto
  show "\<forall>b\<in>?N. upd \<alpha> (lm_use lm') b = U b \<and> upd \<alpha> (lm_def lm') b = D b" using so DU by simp
  have live_eq: "live (cfg_succ cfg) ?D ?U x b \<longleftrightarrow> live (cfg_succ cfg) D U x b" if "b \<in> ?N" for x b
    using live_cong [of "cfg_succ cfg" ?D ?U x b ?N D U] live_cong [of "cfg_succ cfg" D U x b ?N ?D ?U]
      DU cl that by simp blast
  have inv0: "flow_inv (cfg_succ cfg) ?D ?U (set (cfg_rpo cfg)) (upd \<alpha> (lm_livein ?l2)) (upd \<alpha> (lm_liveout ?l2))"
    using i(3,5) rpo by (auto simp: flow_inv_def intro: live.here)
  have fl: "flow_loop (cfg_succ cfg) ?D ?U (cfg_rpo cfg) (thres - 1)
      (upd \<alpha> (lm_livein ?l2), upd \<alpha> (lm_liveout ?l2)) =
      (upd \<alpha> (lm_livein lm'), upd \<alpha> (lm_liveout lm'), ch')" using so by simp
  note li = flow_loop_inv [OF inv0 cl' fl]
  show "\<forall>b\<in>?N. \<forall>x\<in>upd \<alpha> (lm_livein lm') b. live (cfg_succ cfg) D U x b"
    using li live_eq rpo by (auto simp: flow_inv_def)
  show "\<forall>b\<in>?N. upd \<alpha> (lm_livein lm') b = {x. live (cfg_succ cfg) D U x b} \<and>
      upd \<alpha> (lm_liveout lm') b = {x. \<exists>s\<in>set (cfg_succ cfg b). live (cfg_succ cfg) D U x s}" if "\<not> ch'"
  proof
    fix b assume b: "b \<in> ?N"
    have b': "b \<in> set (cfg_rpo cfg)" using b rpo by simp
    have li1: "flow_inv (cfg_succ cfg) ?D ?U (set (cfg_rpo cfg)) (upd \<alpha> (lm_livein lm')) (upd \<alpha> (lm_liveout lm'))"
      and li2: "\<forall>b\<in>set (cfg_rpo cfg). upd \<alpha> (lm_liveout lm') b = (\<Union>s\<in>set (cfg_succ cfg b). upd \<alpha> (lm_livein lm') s)"
      using li that by simp_all
    note fp = flow_fixpoint [OF li1 cl' li2 b']
    have "\<And>s x. s \<in> set (cfg_succ cfg b) \<Longrightarrow>
        live (cfg_succ cfg) ?D ?U x s \<longleftrightarrow> live (cfg_succ cfg) D U x s"
      using live_eq b cl by blast
    with fp live_eq [OF b] show "upd \<alpha> (lm_livein lm') b = {x. live (cfg_succ cfg) D U x b} \<and>
        upd \<alpha> (lm_liveout lm') b = {x. \<exists>s\<in>set (cfg_succ cfg b). live (cfg_succ cfg) D U x s}"
      by simp
  qed
  show "\<not> ch'" if "card ?N * card (\<Union>b\<in>?N. U b) < thres"
  proof -
    have fin: "finite (exposed hm ss)" for ss
      by (induction ss) (auto simp: stmt_uses_def ref_uses_def)
    have "(\<Union>b\<in>set (cfg_rpo cfg). ?U b) = (\<Union>b\<in>?N. U b)" using DU rpo by simp
    then have "card (set (cfg_rpo cfg)) * card (\<Union>b\<in>set (cfg_rpo cfg). ?U b) \<le>
        flow_size (cfg_rpo cfg) (upd \<alpha> (lm_liveout ?l2)) + (thres - 1)"
      using that rpo by (simp add: thres_def)
    moreover have "\<forall>b\<in>set (cfg_rpo cfg). finite (?U b)" using fin DU rpo by (simp add: U_def)
    ultimately show ?thesis using flow_loop_converges [OF inv0 cl'] fl by (metis snd_conv)
  qed
qed

end

end
