(* ===== verification/ElimRounds.thy ===== *)
theory ElimRounds
  imports Prelude
begin

text \<open>
  The rounds of \<open>eliminateRedundantLivenessImpl\<close> on sets of numbers. A problem holds the predecessors, the blocks the
  walk visits, the redundant set, and the use, definition, live-in and live-out sets of the blocks; a state holds the new
  live-in and live-out sets and the change flag. The new sets grow from empty to the least solution, which is described
  by paths: what a visited block defines is kept in its live-out set and carried on.
\<close>

record elim_prob =
  ep_pred :: "nat \<Rightarrow> nat list"
  ep_blocks :: "nat set"
  ep_red :: "nat set"
  ep_use :: "nat \<Rightarrow> nat set"
  ep_def :: "nat \<Rightarrow> nat set"
  ep_in :: "nat \<Rightarrow> nat set"
  ep_out :: "nat \<Rightarrow> nat set"

type_synonym new_sets = "(nat \<Rightarrow> nat set) \<times> (nat \<Rightarrow> nat set)"

definition pre_out :: "elim_prob \<Rightarrow> (nat \<Rightarrow> nat set) \<Rightarrow> nat \<Rightarrow> nat set" where
  "pre_out e X v = (\<Union>c\<in>set (ep_pred e v). X c)"

definition new_in :: "elim_prob \<Rightarrow> (nat \<Rightarrow> nat set) \<Rightarrow> nat \<Rightarrow> nat set" where
  "new_in e X v = ep_in e v - (ep_red e - pre_out e X v - ep_use e v)"

definition new_out :: "elim_prob \<Rightarrow> (nat \<Rightarrow> nat set) \<Rightarrow> nat \<Rightarrow> nat set" where
  "new_out e X v = ep_out e v - (ep_red e - pre_out e X v - ep_def e v)"

definition visit_sets :: "elim_prob \<Rightarrow> nat \<Rightarrow> new_sets \<times> bool \<Rightarrow> new_sets \<times> bool" where
  "visit_sets e v st = (case st of ((I, X), ch) \<Rightarrow>
     ((I(v := new_in e X v), X(v := new_out e X v)), ch \<or> I v \<noteq> new_in e X v \<or> X v \<noteq> new_out e X v))"

lemma visit_pair [simp]: "visit_sets e v ((I, X), ch) =
   ((I(v := new_in e X v), X(v := new_out e X v)), ch \<or> I v \<noteq> new_in e X v \<or> X v \<noteq> new_out e X v)"
  by (simp add: visit_sets_def)

fun rounds :: "elim_prob \<Rightarrow> nat list \<Rightarrow> nat \<Rightarrow> new_sets \<Rightarrow> new_sets" where
  "rounds e vs n s =
     (case fold (visit_sets e) vs (s, False) of (s, ch) \<Rightarrow>
        case n of 0 \<Rightarrow> s | Suc n' \<Rightarrow> if ch then rounds e vs n' s else s)"

declare rounds.simps [simp del]

section \<open>What is kept\<close>

inductive kept :: "elim_prob \<Rightarrow> nat \<Rightarrow> nat \<Rightarrow> bool" for e where
  kept_def: "v \<in> ep_blocks e \<Longrightarrow> p \<in> ep_def e v \<Longrightarrow> p \<in> ep_out e v \<Longrightarrow> kept e p v"
| kept_on: "kept e p c \<Longrightarrow> c \<in> set (ep_pred e v) \<Longrightarrow> v \<in> ep_blocks e \<Longrightarrow> p \<in> ep_out e v \<Longrightarrow> kept e p v"

definition kept_in :: "elim_prob \<Rightarrow> nat \<Rightarrow> nat set" where
  "kept_in e v = {p \<in> ep_in e v. p \<in> ep_red e \<longrightarrow> p \<in> ep_use e v \<or> (\<exists>c\<in>set (ep_pred e v). kept e p c)}"

definition kept_out :: "elim_prob \<Rightarrow> nat \<Rightarrow> nat set" where
  "kept_out e v = {p \<in> ep_out e v. p \<in> ep_red e \<longrightarrow> kept e p v}"

text \<open>The new sets grow, stay empty outside the visited blocks, and hold nothing redundant that is not kept.\<close>

definition grows :: "elim_prob \<Rightarrow> new_sets \<Rightarrow> bool" where
  "grows e s \<longleftrightarrow> (\<forall>v. v \<notin> ep_blocks e \<longrightarrow> snd s v = {}) \<and>
     (\<forall>v\<in>ep_blocks e. snd s v \<subseteq> new_out e (snd s) v \<and> fst s v \<subseteq> new_in e (snd s) v) \<and>
     (\<forall>v\<in>ep_blocks e. \<forall>p\<in>snd s v. p \<in> ep_red e \<longrightarrow> kept e p v)"

definition settled :: "elim_prob \<Rightarrow> nat set \<Rightarrow> new_sets \<Rightarrow> bool" where
  "settled e V s \<longleftrightarrow> (\<forall>v\<in>V. fst s v - ep_red e = ep_in e v - ep_red e \<and> snd s v - ep_red e = ep_out e v - ep_red e)"

definition stable :: "elim_prob \<Rightarrow> nat set \<Rightarrow> new_sets \<Rightarrow> bool" where
  "stable e V s \<longleftrightarrow> (\<forall>v\<in>V. fst s v = new_in e (snd s) v \<and> snd s v = new_out e (snd s) v)"

lemma new_mono: "(\<And>c. X c \<subseteq> Y c) \<Longrightarrow> new_in e X v \<subseteq> new_in e Y v \<and> new_out e X v \<subseteq> new_out e Y v"
  unfolding new_in_def new_out_def pre_out_def by blast

lemma grows_visit:
  assumes "grows e (I, X)" "v \<in> ep_blocks e"
  shows "grows e (I(v := new_in e X v), X(v := new_out e X v))"
    and "I w \<subseteq> (I(v := new_in e X v)) w" "X w \<subseteq> (X(v := new_out e X v)) w"
proof -
  let ?X = "X(v := new_out e X v)"
  show g: "I w \<subseteq> (I(v := new_in e X v)) w" "X w \<subseteq> ?X w" for w using assms by (auto simp: grows_def)
  have m: "new_in e X w \<subseteq> new_in e ?X w" "new_out e X w \<subseteq> new_out e ?X w" for w using new_mono [of X ?X e w] g(2) by auto
  have k: "kept e p v" if "p \<in> new_out e X v" "p \<in> ep_red e" for p
  proof -
    have o: "p \<in> ep_out e v" "p \<in> ep_def e v \<or> (\<exists>c\<in>set (ep_pred e v). p \<in> X c)"
      using that by (auto simp: new_out_def pre_out_def)
    have "kept e p c" if "p \<in> X c" for c
      using assms(1) that \<open>p \<in> ep_red e\<close> unfolding grows_def by (cases "c \<in> ep_blocks e") auto
    then show ?thesis using o assms(2) by (blast intro: kept_def kept_on)
  qed
  have "\<forall>w\<in>ep_blocks e. ?X w \<subseteq> new_out e ?X w \<and> (I(v := new_in e X v)) w \<subseteq> new_in e ?X w"
  proof
    fix w assume w: "w \<in> ep_blocks e"
    have "X w \<subseteq> new_out e X w" "I w \<subseteq> new_in e X w" using assms(1) w by (auto simp: grows_def)
    then show "?X w \<subseteq> new_out e ?X w \<and> (I(v := new_in e X v)) w \<subseteq> new_in e ?X w" using m [of w] by auto
  qed
  then show "grows e (I(v := new_in e X v), ?X)" using assms k by (auto simp: grows_def)
qed

lemma settled_visit: "settled e V (I, X) \<Longrightarrow> settled e (insert v V) (I(v := new_in e X v), X(v := new_out e X v))"
  by (auto simp: settled_def new_in_def new_out_def)

section \<open>Counting the changes\<close>

definition weight_red :: "elim_prob \<Rightarrow> new_sets \<Rightarrow> nat" where
  "weight_red e s = (\<Sum>v\<in>ep_blocks e. card (fst s v \<inter> ep_red e) + card (snd s v \<inter> ep_red e))"

lemma weight_red_le:
  assumes "finite (ep_blocks e)" "finite (ep_red e)"
  shows "weight_red e s \<le> 2 * card (ep_blocks e) * card (ep_red e)"
proof -
  have "card (A \<inter> ep_red e) \<le> card (ep_red e)" for A using assms(2) by (simp add: card_mono)
  then have "weight_red e s \<le> (\<Sum>v\<in>ep_blocks e. card (ep_red e) + card (ep_red e))"
    unfolding weight_red_def by (intro sum_mono add_mono)
  then show ?thesis by (simp add: algebra_simps)
qed

lemma card_grow: "finite R \<Longrightarrow> A \<subseteq> B \<Longrightarrow> A - R = B - R \<Longrightarrow> card (A \<inter> R) \<le> card (B \<inter> R) \<and> (A \<noteq> B \<longrightarrow> card (A \<inter> R) < card (B \<inter> R))"
  by (intro conjI impI card_mono psubset_card_mono) auto

lemma weight_visit:
  assumes "finite (ep_blocks e)" "finite (ep_red e)" "v \<in> ep_blocks e" "grows e (I, X)" "settled e (ep_blocks e) (I, X)"
  shows "weight_red e (I, X) + (if I v \<noteq> new_in e X v \<or> X v \<noteq> new_out e X v then 1 else 0) \<le>
    weight_red e (I(v := new_in e X v), X(v := new_out e X v))"
proof -
  let ?f = "\<lambda>I X w. card (I w \<inter> ep_red e) + card (X w \<inter> ep_red e)"
  let ?I = "I(v := new_in e X v)" and ?X = "X(v := new_out e X v)"
  have off: "I v - ep_red e = new_in e X v - ep_red e" "X v - ep_red e = new_out e X v - ep_red e"
    using assms(3,5) by (auto simp: settled_def new_in_def new_out_def)
  have sub: "I v \<subseteq> new_in e X v" "X v \<subseteq> new_out e X v" using assms(3,4) by (auto simp: grows_def)
  have v: "?f I X v + (if I v \<noteq> new_in e X v \<or> X v \<noteq> new_out e X v then 1 else 0) \<le> ?f ?I ?X v"
    using card_grow [OF assms(2) sub(1) off(1)] card_grow [OF assms(2) sub(2) off(2)] by auto
  have "weight_red e (I, X) = ?f I X v + (\<Sum>w\<in>ep_blocks e - {v}. ?f I X w)"
    "weight_red e (?I, ?X) = ?f ?I ?X v + (\<Sum>w\<in>ep_blocks e - {v}. ?f ?I ?X w)"
    unfolding weight_red_def using assms(1,3) by (simp_all add: sum.remove)
  moreover have "(\<Sum>w\<in>ep_blocks e - {v}. ?f ?I ?X w) = (\<Sum>w\<in>ep_blocks e - {v}. ?f I X w)" by (intro sum.cong) auto
  ultimately show ?thesis using v by simp
qed

section \<open>A round\<close>

lemma round_grows:
  assumes "fold (visit_sets e) vs (s, ch) = (s', ch')" "set vs \<subseteq> ep_blocks e" "grows e s"
  shows "grows e s' \<and> (settled e V s \<longrightarrow> settled e (V \<union> set vs) s') \<and>
    (finite (ep_blocks e) \<longrightarrow> finite (ep_red e) \<longrightarrow> settled e (ep_blocks e) s \<longrightarrow>
       weight_red e s + (if ch' \<and> \<not> ch then 1 else 0) \<le> weight_red e s')"
  using assms
proof (induction vs arbitrary: s ch V)
  case (Cons v vs)
  obtain I X where s: "s = (I, X)" by fastforce
  let ?t = "(I(v := new_in e X v), X(v := new_out e X v))"
  let ?c = "ch \<or> I v \<noteq> new_in e X v \<or> X v \<noteq> new_out e X v"
  have v: "v \<in> ep_blocks e" using Cons.prems(2) by simp
  have g: "grows e ?t" using grows_visit(1) [OF _ v] Cons.prems(3) s by simp
  have f: "fold (visit_sets e) vs (?t, ?c) = (s', ch')" using Cons.prems(1) s by simp
  note IH = Cons.IH [OF f _ g]
  have "settled e V s \<Longrightarrow> settled e (insert v V) ?t" using settled_visit [of e V I X v] s by simp
  moreover have "weight_red e s + (if ch' \<and> \<not> ch then 1 else 0) \<le> weight_red e s'"
    if "finite (ep_blocks e)" "finite (ep_red e)" "settled e (ep_blocks e) s"
  proof -
    have "settled e (ep_blocks e) ?t" using settled_visit [of e "ep_blocks e" I X v] that(3) s v by (simp add: insert_absorb)
    then have "weight_red e ?t + (if ch' \<and> \<not> ?c then 1 else 0) \<le> weight_red e s'" using IH that Cons.prems(2) by simp
    moreover have "weight_red e s + (if I v \<noteq> new_in e X v \<or> X v \<noteq> new_out e X v then 1 else 0) \<le> weight_red e ?t"
      using weight_visit [OF that(1,2) v] Cons.prems(3) that(3) s by simp
    ultimately show ?thesis by (auto split: if_splits)
  qed
  ultimately show ?case using IH [of "insert v V"] Cons.prems(2) by simp
qed simp

lemma round_quiet:
  "fold (visit_sets e) vs (s, ch) = (s', False) \<Longrightarrow> \<not> ch \<and> s' = s \<and> stable e (set vs) s"
proof (induction vs arbitrary: s ch)
  case (Cons v vs)
  obtain I X where s: "s = (I, X)" by fastforce
  have "fold (visit_sets e) vs ((I(v := new_in e X v), X(v := new_out e X v)), ch \<or> I v \<noteq> new_in e X v \<or> X v \<noteq> new_out e X v) = (s', False)"
    using Cons.prems s by simp
  from Cons.IH [OF this] have q: "\<not> ch" "I v = new_in e X v" "X v = new_out e X v"
    "s' = (I(v := new_in e X v), X(v := new_out e X v))" "stable e (set vs) (I(v := new_in e X v), X(v := new_out e X v))" by auto
  then have "(I(v := new_in e X v), X(v := new_out e X v)) = s" using s by (metis fun_upd_triv)
  then show ?case using q s by (auto simp: stable_def)
qed (simp add: stable_def)

lemma stable_kept:
  assumes "grows e s" "stable e (ep_blocks e) s" "v \<in> ep_blocks e"
  shows "fst s v = kept_in e v \<and> snd s v = kept_out e v"
proof -
  have st: "fst s w = new_in e (snd s) w" "snd s w = new_out e (snd s) w" if "w \<in> ep_blocks e" for w
    using assms(2) that by (auto simp: stable_def)
  have k: "p \<in> snd s w" if "kept e p w" for p w
    using that by induction (use st(2) in \<open>auto simp: new_out_def pre_out_def\<close>)
  have o: "kept e p c" if "p \<in> snd s c" "p \<in> ep_red e" for p c
    using assms(1) that unfolding grows_def by (cases "c \<in> ep_blocks e") auto
  have "p \<in> ep_red e \<Longrightarrow> p \<in> pre_out e (snd s) v \<longleftrightarrow> (\<exists>c\<in>set (ep_pred e v). kept e p c)" for p
    using k [of p] o [of p] unfolding pre_out_def by blast
  then have "fst s v = kept_in e v" unfolding st(1) [OF assms(3)] by (auto simp: new_in_def kept_in_def)
  moreover have "snd s v \<subseteq> kept_out e v"
    using st(2) [OF assms(3)] o [of _ v] by (auto simp: kept_out_def new_out_def)
  moreover have "kept_out e v \<subseteq> snd s v"
    using k st(2) [OF assms(3)] by (auto simp: kept_out_def new_out_def)
  ultimately show ?thesis by blast
qed

lemma grows_kept: "grows e s \<Longrightarrow> v \<in> ep_blocks e \<Longrightarrow> fst s v \<subseteq> kept_in e v \<and> snd s v \<subseteq> kept_out e v"
proof -
  assume g: "grows e s" and v: "v \<in> ep_blocks e"
  have o: "kept e p c" if "p \<in> snd s c" "p \<in> ep_red e" for p c
    using g that unfolding grows_def by (cases "c \<in> ep_blocks e") auto
  have "fst s v \<subseteq> new_in e (snd s) v" "snd s v \<subseteq> new_out e (snd s) v" using g v by (auto simp: grows_def)
  moreover have "p \<in> ep_red e \<Longrightarrow> p \<in> pre_out e (snd s) v \<Longrightarrow> \<exists>c\<in>set (ep_pred e v). kept e p c" for p
    using o [of p] unfolding pre_out_def by blast
  ultimately show ?thesis using o by (auto simp: kept_in_def kept_out_def new_in_def new_out_def)
qed

section \<open>The loop\<close>

lemma rounds_grows:
  assumes "set vs = ep_blocks e" "grows e s" "finite (ep_red e)"
  shows "grows e (rounds e vs n s) \<and> settled e (ep_blocks e) (rounds e vs n s) \<and>
    (settled e (ep_blocks e) s \<longrightarrow> 2 * card (ep_blocks e) * card (ep_red e) < n + 1 + weight_red e s \<longrightarrow>
       stable e (ep_blocks e) (rounds e vs n s))"
  using assms(2)
proof (induction n arbitrary: s)
  case 0
  obtain t ch where f: "fold (visit_sets e) vs (s, False) = (t, ch)" by fastforce
  have b: "finite (ep_blocks e)" using assms(1) by (metis List.finite_set)
  note r = round_grows [OF f _ 0, of "{}"]
  have "stable e (ep_blocks e) t" if "settled e (ep_blocks e) s" "2 * card (ep_blocks e) * card (ep_red e) < 1 + weight_red e s"
  proof -
    have "\<not> ch" using r b assms(1,3) that weight_red_le [OF b assms(3), of t] by (auto split: if_splits)
    then show ?thesis using round_quiet [of e vs s False t] f assms(1) by simp
  qed
  then show ?case using r assms(1) f by (simp add: rounds.simps [of e vs 0] settled_def)
next
  case (Suc n)
  obtain t ch where f: "fold (visit_sets e) vs (s, False) = (t, ch)" by fastforce
  have b: "finite (ep_blocks e)" using assms(1) by (metis List.finite_set)
  note r = round_grows [OF f _ Suc.prems, of "{}"]
  have g: "grows e t" "settled e (ep_blocks e) t" using r assms(1) by (simp_all add: settled_def)
  show ?case
  proof (cases ch)
    case True
    then have "settled e (ep_blocks e) s \<Longrightarrow> weight_red e s + 1 \<le> weight_red e t" using r b assms(1,3) by simp
    then show ?thesis using Suc.IH [OF g(1)] g(2) True f by (auto simp: rounds.simps [of e vs "Suc n"])
  next
    case False
    then have "stable e (ep_blocks e) t" using round_quiet [of e vs s False t] f assms(1) by simp
    then show ?thesis using g False f by (simp add: rounds.simps [of e vs "Suc n"])
  qed
qed

text \<open>From empty sets, with \<open>n + 1\<close> rounds at most: the first fills in what is not redundant.\<close>

definition few_redundant :: "elim_prob \<Rightarrow> nat \<Rightarrow> bool" where
  "few_redundant e n \<longleftrightarrow> 2 * card (ep_blocks e) * card (ep_red e) < n"

definition eliminated :: "elim_prob \<Rightarrow> nat \<Rightarrow> new_sets \<Rightarrow> bool" where
  "eliminated e n s \<longleftrightarrow> (\<forall>v\<in>ep_blocks e. ep_in e v - ep_red e \<subseteq> fst s v \<and> fst s v \<subseteq> kept_in e v \<and>
     ep_out e v - ep_red e \<subseteq> snd s v \<and> snd s v \<subseteq> kept_out e v \<and>
     (few_redundant e n \<longrightarrow> fst s v = kept_in e v \<and> snd s v = kept_out e v))"

text \<open>Only the visited blocks matter.\<close>

lemma kept_cong:
  assumes "kept e p v" "ep_pred e = ep_pred f" "ep_blocks e = ep_blocks f"
    "\<forall>v\<in>ep_blocks f. ep_def e v = ep_def f v \<and> ep_out e v = ep_out f v"
  shows "kept f p v"
  using assms(1) by induction (use assms(2-4) in \<open>auto intro: kept_def kept_on\<close>)

lemma eliminated_cong:
  assumes "eliminated e n s" "ep_pred e = ep_pred f" "ep_blocks e = ep_blocks f" "ep_red e = ep_red f"
    and "\<forall>v\<in>ep_blocks f. ep_use e v = ep_use f v \<and> ep_def e v = ep_def f v \<and> ep_in e v = ep_in f v \<and> ep_out e v = ep_out f v"
    and "\<forall>v\<in>ep_blocks f. fst s v = fst t v \<and> snd s v = snd t v"
  shows "eliminated f n t"
proof -
  have k: "kept e = kept f"
    by (intro ext iffI) (use kept_cong [of e _ _ f] kept_cong [of f _ _ e] assms(2-5) in auto)
  have "kept_in e v = kept_in f v" "kept_out e v = kept_out f v" if "v \<in> ep_blocks f" for v
    using that assms(2-5) by (auto simp: kept_in_def kept_out_def k)
  then show ?thesis using assms by (simp add: eliminated_def few_redundant_def)
qed

lemma rounds_eliminated:
  assumes "set vs = ep_blocks e" "finite (ep_red e)" "\<forall>v. snd s v = {}" "\<forall>v\<in>ep_blocks e. fst s v = {}"
  shows "eliminated e (Suc n) (rounds e vs (Suc n) s)"
proof -
  have g: "grows e s" using assms(3,4) by (simp add: grows_def)
  obtain t ch where f: "fold (visit_sets e) vs (s, False) = (t, ch)" by fastforce
  note r = round_grows [OF f _ g, of "{}"]
  have t: "grows e t" "settled e (ep_blocks e) t" using r assms(1) by (simp_all add: settled_def)
  let ?r = "rounds e vs (Suc n) s"
  have "stable e (ep_blocks e) ?r" if "few_redundant e (Suc n)"
  proof (cases ch)
    case True
    then show ?thesis using rounds_grows [OF assms(1) t(1) assms(2), of n] t(2) f that
      by (simp add: rounds.simps [of e vs "Suc n"] few_redundant_def)
  next
    case False
    then show ?thesis using round_quiet [of e vs s False t] f assms(1) by (simp add: rounds.simps [of e vs "Suc n"])
  qed
  moreover have q: "grows e ?r" "settled e (ep_blocks e) ?r" using rounds_grows [OF assms(1) g assms(2), of "Suc n"] by simp_all
  moreover have "ep_in e v - ep_red e \<subseteq> fst ?r v" "ep_out e v - ep_red e \<subseteq> snd ?r v" if "v \<in> ep_blocks e" for v
    using q(2) that by (auto simp: settled_def)
  ultimately show ?thesis using stable_kept grows_kept [OF q(1)] by (auto simp: eliminated_def)
qed

end
