(* ===== verification/LivenessElim.thy ===== *)
theory LivenessElim
  imports LivenessProps ElimRounds
begin

text \<open>
  The elimination of redundant liveness and the whole pass: the walks end, sets only shrink, and
  liveness that does not reach the entry is kept. The properties of the analysis stand at the end,
  on the sparse sets the code uses.
\<close>

section \<open>The breadth-first walk\<close>

definition edges_left :: "(nat \<Rightarrow> nat list) \<Rightarrow> nat set \<Rightarrow> nat list \<Rightarrow> nat" where
  "edges_left succ N visit = (\<Sum>v\<in>N - set visit. length (succ v))"

lemma bfs_walk_ends:
  assumes "finite N" "\<forall>v\<in>N. set (succ v) \<subseteq> N"
  shows "set vl \<subseteq> N \<Longrightarrow> length vl + edges_left succ N visit \<le> n \<Longrightarrow>
    \<exists>vs. bfs_walk succ f n visit vl st = Some (rev vs @ visit, fold f vs st) \<and> distinct vs \<and>
      set vs \<subseteq> N \<and> set vs \<inter> set visit = {} \<and> set vl \<subseteq> set vs \<union> set visit \<and>
      (\<forall>v\<in>set vs. set (succ v) \<subseteq> set vs \<union> set visit)"
proof (induction n arbitrary: visit vl st)
  case 0
  then show ?case by (auto intro!: exI [of _ "[]"])
next
  case (Suc n)
  show ?case
  proof (cases vl)
    case Nil
    then show ?thesis by (auto intro!: exI [of _ "[]"])
  next
    case (Cons v vl')
    show ?thesis
    proof (cases "v \<in> set visit")
      case True
      have "set vl' \<subseteq> N" "length vl' + edges_left succ N visit \<le> n" using Suc.prems Cons by auto
      from Suc.IH [OF this, of st] True Cons show ?thesis
        by (simp add: Cons insert_absorb)
    next
      case False
      let ?vis = "v # visit" and ?q = "vl' @ filter (\<lambda>o'. \<not> List.member (v # visit) o') (succ v)"
      have v: "v \<in> N" using Suc.prems Cons by simp
      have e: "N - set visit = insert v (N - set ?vis)" using v False by auto
      have "edges_left succ N visit = length (succ v) + edges_left succ N ?vis"
        unfolding edges_left_def e using assms(1) by simp
      moreover have "length ?q \<le> length vl' + length (succ v)" by simp
      moreover have "length vl = Suc (length vl')" using Cons by simp
      ultimately have "length ?q + edges_left succ N ?vis \<le> n" using Suc.prems(2) by linarith
      moreover have "set ?q \<subseteq> N" using Suc.prems(1) Cons assms(2) v by auto
      ultimately obtain vs where vs: "bfs_walk succ f n ?vis ?q (f v st) = Some (rev vs @ ?vis, fold f vs (f v st))"
        "distinct vs" "set vs \<subseteq> N" "set vs \<inter> set ?vis = {}" "set ?q \<subseteq> set vs \<union> set ?vis"
        "\<forall>v\<in>set vs. set (succ v) \<subseteq> set vs \<union> set ?vis"
        using Suc.IH [of ?q ?vis "f v st"] by blast
      have "bfs_walk succ f (Suc n) visit vl st = Some (rev (v # vs) @ visit, fold f (v # vs) st)"
        using vs(1) False Cons by simp
      moreover have "set (succ v) \<subseteq> set (v # vs) \<union> set visit"
        using vs(5) by (auto simp: subset_iff)
      ultimately show ?thesis using vs(2-6) v False Cons
        by (intro exI [of _ "v # vs"]) auto
    qed
  qed
qed

lemma bfs_walk_indep:
  "map_option fst (bfs_walk succ f n visit vl st) = map_option fst (bfs_walk succ g n visit vl st')"
  by (induction n arbitrary: visit vl st st') (case_tac [!] vl, auto simp: Let_def)

section \<open>One round and the loop\<close>

definition aux_ok :: "('a \<Rightarrow> bool) \<Rightarrow> ('p \<Rightarrow> bool) \<Rightarrow> nat set \<Rightarrow> ('a, 'p) AuxLivenessMgr \<Rightarrow> bool" where
  "aux_ok iv pv N aux \<longleftrightarrow> vec_ok iv (aux_livein aux) \<and> vec_ok iv (aux_liveout aux) \<and> pv (aux_sbs aux) \<and>
     N \<subseteq> dom (aux_livein aux) \<and> N \<subseteq> dom (aux_liveout aux)"

lemma in_dom_ok: "vec_ok iv v \<Longrightarrow> N \<subseteq> dom v \<Longrightarrow> b \<in> N \<Longrightarrow> \<exists>s. v b = Some s \<and> iv s"
  by (auto simp: vec_ok_def)

text \<open>
  What the pass relies on: the reverse postorder lists the blocks, edges stay inside the graph, and
  the fuel covers the edges.
\<close>

definition cfg_wf :: "nat \<Rightarrow> IRCFG \<Rightarrow> bool" where
  "cfg_wf fuel cfg \<longleftrightarrow> cfg_entry cfg \<in> set (cfg_bbs cfg) \<and> set (cfg_rpo cfg) = set (cfg_bbs cfg) \<and>
     (\<forall>b\<in>set (cfg_bbs cfg). set (cfg_succ cfg b) \<subseteq> set (cfg_bbs cfg)) \<and>
     (\<forall>b\<in>set (cfg_bbs cfg). set (cfg_pred cfg b) \<subseteq> set (cfg_bbs cfg)) \<and>
     length (cfg_succ cfg (cfg_entry cfg)) + (\<Sum>v\<in>set (cfg_bbs cfg). length (cfg_succ cfg v)) \<le> fuel"

definition reached :: "IRCFG \<Rightarrow> nat set" where
  "reached cfg = {v. (cfg_entry cfg, v) \<in> {(a, b). b \<in> set (cfg_succ cfg a)}\<^sup>*}"

definition aux_view :: "('a \<Rightarrow> nat set) \<Rightarrow> ('a, 'p) AuxLivenessMgr \<Rightarrow> new_sets" where
  "aux_view A aux = (upd A (aux_livein aux), upd A (aux_liveout aux))"

definition es_view :: "('a \<Rightarrow> nat set) \<Rightarrow> ('a, 'p) elim_state \<Rightarrow> new_sets \<times> bool" where
  "es_view A st = (aux_view A (es_aux st), es_change st)"

definition prob :: "('a \<Rightarrow> nat set) \<Rightarrow> IRCFG \<Rightarrow> nat set \<Rightarrow> nat set \<Rightarrow> ('a, 'p) LivenessMgr \<Rightarrow> elim_prob" where
  "prob A cfg V R lm = \<lparr>ep_pred = cfg_pred cfg, ep_blocks = V, ep_red = R, ep_use = upd A (lm_use lm),
     ep_def = upd A (lm_def lm), ep_in = upd A (lm_livein lm), ep_out = upd A (lm_liveout lm)\<rparr>"

context set_client
begin

definition es_ok :: "nat set \<Rightarrow> ('a, 'p) elim_state \<Rightarrow> bool" where
  "es_ok N st \<longleftrightarrow> aux_ok inv pinv N (es_aux st) \<and> inv (es_news st) \<and> inv (es_tmp st) \<and> inv (es_pre st)"

lemma intE: "op_int ops s t p = (r, q) \<Longrightarrow> inv s \<Longrightarrow> inv t \<Longrightarrow> pinv p \<Longrightarrow> \<alpha> r = \<alpha> s \<inter> \<alpha> t \<and> inv r \<and> pinv q"
  using int_law [of s t p] by simp

lemma pre_ok:
  assumes "aux_ok inv pinv N aux" "set cs \<subseteq> N" "inv acc" "pinv p"
    and "fold (\<lambda>c (acc, p). op_uni ops acc (the (aux_liveout aux c)) p) cs (acc, p) = (r, q)"
  shows "\<alpha> r = \<alpha> acc \<union> (\<Union>c\<in>set cs. upd \<alpha> (aux_liveout aux) c) \<and> inv r \<and> pinv q"
  using assms(2-5)
proof (induction cs arbitrary: acc p)
  case (Cons c cs)
  obtain t where t: "aux_liveout aux c = Some t" "inv t"
    using assms(1) Cons.prems(1) by (auto simp: aux_ok_def vec_ok_def)
  obtain l1 p1 where u: "op_uni ops acc t p = (l1, p1)" by fastforce
  have "fold (\<lambda>c (acc, p). op_uni ops acc (the (aux_liveout aux c)) p) cs (l1, p1) = (r, q)"
    using Cons.prems(4) t(1) u by simp
  from Cons.IH [OF _ _ _ this] uniE [OF u Cons.prems(2) t(2) Cons.prems(3)] Cons.prems(1) t(1)
  show ?case by (auto simp: upd_def)
qed simp

lemma elim_visit_ok:
  assumes st: "es_ok N st" and v: "v \<in> N" and pr: "set (cfg_pred cfg v) \<subseteq> N"
    and lm: "vec_ok inv (lm_use lm)" "vec_ok inv (lm_def lm)" "vec_ok inv (lm_livein lm)" "vec_ok inv (lm_liveout lm)"
    and dm: "v \<in> dom (lm_use lm)" "v \<in> dom (lm_def lm)" "v \<in> dom (lm_livein lm)" "v \<in> dom (lm_liveout lm)"
    and red: "inv redundant"
  shows "es_ok N (elim_visit ops cfg lm redundant v st)"
    and "es_view \<alpha> (elim_visit ops cfg lm redundant v st) = visit_sets (prob \<alpha> cfg V (\<alpha> redundant) lm) v (es_view \<alpha> st)"
proof -
  let ?a = "es_aux st"
  have a: "aux_ok inv pinv N ?a" "inv (es_news st)" "inv (es_tmp st)" "inv (es_pre st)"
    using st by (auto simp: es_ok_def)
  have ap: "pinv (aux_sbs ?a)" using a(1) by (simp add: aux_ok_def)
  obtain ai ao where ai: "aux_livein ?a v = Some ai" "inv ai" and ao: "aux_liveout ?a v = Some ao" "inv ao"
    using a(1) v unfolding aux_ok_def vec_ok_def by blast
  obtain us de li lo where us: "lm_use lm v = Some us" "inv us" and de: "lm_def lm v = Some de" "inv de"
    and li: "lm_livein lm v = Some li" "inv li" and lo: "lm_liveout lm v = Some lo" "inv lo"
    using lm dm unfolding vec_ok_def by blast
  obtain r0 p0 where s0: "op_cln ops (es_pre st) (aux_sbs ?a) = (r0, p0)" by fastforce
  note k0 = clnE [OF s0 a(4) ap]
  obtain r1 p1 where s1: "getPreVertexNewLiveOut ops cfg v ?a r0 p0 = (r1, p1)" by fastforce
  have k1: "\<alpha> r1 = (\<Union>c\<in>set (cfg_pred cfg v). upd \<alpha> (aux_liveout ?a) c) \<and> inv r1 \<and> pinv p1"
    using pre_ok [OF a(1) pr _ _ s1 [unfolded getPreVertexNewLiveOut_def]] k0 by blast
  obtain r2 p2 where s2: "op_cpy ops (es_tmp st) redundant p1 = (r2, p2)" by fastforce
  have k2: "\<alpha> r2 = \<alpha> redundant \<and> inv r2 \<and> pinv p2" using cpyE [OF s2 a(3) red] k1 by blast
  obtain r3 p3 where s3: "op_dif ops r2 r1 p2 = (r3, p3)" by fastforce
  have k3: "\<alpha> r3 = \<alpha> r2 - \<alpha> r1 \<and> inv r3 \<and> pinv p3" using difE [OF s3] k1 k2 by blast
  obtain r4 p4 where s4: "op_dif ops r3 us p3 = (r4, p4)" by fastforce
  have k4: "\<alpha> r4 = \<alpha> r3 - \<alpha> us \<and> inv r4 \<and> pinv p4" using difE [OF s4] k3 us(2) by blast
  obtain r5 p5 where s5: "op_cpy ops (es_news st) li p4 = (r5, p5)" by fastforce
  have k5: "\<alpha> r5 = \<alpha> li \<and> inv r5 \<and> pinv p5" using cpyE [OF s5 a(2) li(2)] k4 by blast
  obtain r6 p6 where s6: "op_dif ops r5 r4 p5 = (r6, p6)" by fastforce
  have k6: "\<alpha> r6 = \<alpha> r5 - \<alpha> r4 \<and> inv r6 \<and> pinv p6" using difE [OF s6] k4 k5 by blast
  obtain r7 p7 where s7: "op_cpy ops ai r6 p6 = (r7, p7)" by fastforce
  have k7: "\<alpha> r7 = \<alpha> r6 \<and> inv r7 \<and> pinv p7" using cpyE [OF s7 ai(2)] k6 by blast
  obtain r8 p8 where s8: "op_cpy ops r4 redundant p7 = (r8, p8)" by fastforce
  have k8: "\<alpha> r8 = \<alpha> redundant \<and> inv r8 \<and> pinv p8" using cpyE [OF s8 _ red] k4 k7 by blast
  obtain r9 p9 where s9: "op_dif ops r8 r1 p8 = (r9, p9)" by fastforce
  have k9: "\<alpha> r9 = \<alpha> r8 - \<alpha> r1 \<and> inv r9 \<and> pinv p9" using difE [OF s9] k1 k8 by blast
  obtain t0 q0 where z0: "op_dif ops r9 de p9 = (t0, q0)" by fastforce
  have y0: "\<alpha> t0 = \<alpha> r9 - \<alpha> de \<and> inv t0 \<and> pinv q0" using difE [OF z0] k9 de(2) by blast
  obtain t1 q1 where z1: "op_cpy ops r6 lo q0 = (t1, q1)" by fastforce
  have y1: "\<alpha> t1 = \<alpha> lo \<and> inv t1 \<and> pinv q1" using cpyE [OF z1 _ lo(2)] k6 y0 by blast
  obtain t2 q2 where z2: "op_dif ops t1 t0 q1 = (t2, q2)" by fastforce
  have y2: "\<alpha> t2 = \<alpha> t1 - \<alpha> t0 \<and> inv t2 \<and> pinv q2" using difE [OF z2] y0 y1 by blast
  obtain t3 q3 where z3: "op_cpy ops ao t2 q2 = (t3, q3)" by fastforce
  have y3: "\<alpha> t3 = \<alpha> t2 \<and> inv t3 \<and> pinv q3" using cpyE [OF z3 ao(2)] y2 by blast
  have r: "elim_visit ops cfg lm redundant v st =
      \<lparr>es_aux = ?a\<lparr>aux_livein := (aux_livein ?a)(v \<mapsto> r7), aux_liveout := (aux_liveout ?a)(v \<mapsto> t3), aux_sbs := q3\<rparr>,
       es_news = t2, es_tmp = t0, es_pre = r1,
       es_change = (es_change st \<or> \<not> op_eql ops ai r6) \<or> \<not> op_eql ops ao t2\<rparr>"
    unfolding elim_visit_def Let_def prod.case s0 s1 s2 us(1) de(1) li(1) lo(1) ai(1) ao(1) option.sel
      s3 s4 s5 s6 s7 s8 s9 z0 z1 z2 z3 by (rule refl)
  show "es_ok N (elim_visit ops cfg lm redundant v st)"
    using a(1) k1 y0 y2 y3 k7 by (auto simp: r es_ok_def aux_ok_def intro!: vec_ok_upd)
  let ?e = "prob \<alpha> cfg V (\<alpha> redundant) lm" and ?X = "upd \<alpha> (aux_liveout ?a)"
  have n: "\<alpha> r7 = new_in ?e ?X v" "\<alpha> t3 = new_out ?e ?X v" "\<alpha> r6 = \<alpha> r7" "\<alpha> t2 = \<alpha> t3"
    using k1 k2 k3 k4 k5 k6 k7 k8 k9 y0 y1 y2 y3 us(1) de(1) li(1) lo(1)
    by (simp_all add: new_in_def new_out_def pre_out_def prob_def upd_def)
  have "op_eql ops ai r6 \<longleftrightarrow> \<alpha> ai = \<alpha> r6" "op_eql ops ao t2 \<longleftrightarrow> \<alpha> ao = \<alpha> t2"
    using eql_law ai(2) ao(2) k6 y2 by blast+
  then show "es_view \<alpha> (elim_visit ops cfg lm redundant v st) = visit_sets ?e v (es_view \<alpha> st)"
    using n ai(1) ao(1) unfolding r es_view_def aux_view_def by (simp add: upd_def fun_eq_iff)
qed

text \<open>The premises the rest of the elimination shares: the manager, the graph and its blocks.\<close>

definition elim_pre :: "nat set \<Rightarrow> IRCFG \<Rightarrow> nat \<Rightarrow> ('a, 'p) LivenessMgr \<Rightarrow> bool" where
  "elim_pre N cfg fuel lm \<longleftrightarrow> lm_ok inv pinv lm \<and> finite N \<and> cfg_entry cfg \<in> N \<and>
     (\<forall>v\<in>N. set (cfg_succ cfg v) \<subseteq> N \<and> set (cfg_pred cfg v) \<subseteq> N) \<and>
     N \<subseteq> dom (lm_livein lm) \<and> N \<subseteq> dom (lm_liveout lm) \<and> N \<subseteq> dom (lm_use lm) \<and> N \<subseteq> dom (lm_def lm) \<and>
     length (cfg_succ cfg (cfg_entry cfg)) + (\<Sum>v\<in>N. length (cfg_succ cfg v)) \<le> fuel"

lemma elim_visits:
  assumes "elim_pre N cfg fuel lm" "inv redundant" "set vs \<subseteq> N" "es_ok N st"
  shows "es_ok N (fold (elim_visit ops cfg lm redundant) vs st)"
    and "es_view \<alpha> (fold (elim_visit ops cfg lm redundant) vs st) =
      fold (visit_sets (prob \<alpha> cfg V (\<alpha> redundant) lm)) vs (es_view \<alpha> st)"
proof -
  have "es_ok N (fold (elim_visit ops cfg lm redundant) vs st) \<and>
      es_view \<alpha> (fold (elim_visit ops cfg lm redundant) vs st) =
        fold (visit_sets (prob \<alpha> cfg V (\<alpha> redundant) lm)) vs (es_view \<alpha> st)"
    using assms(3,4)
  proof (induction vs arbitrary: st)
    case (Cons v vs)
    then have v: "v \<in> N" by simp
    have p: "set (cfg_pred cfg v) \<subseteq> N" "vec_ok inv (lm_use lm)" "vec_ok inv (lm_def lm)"
      "vec_ok inv (lm_livein lm)" "vec_ok inv (lm_liveout lm)" "v \<in> dom (lm_use lm)" "v \<in> dom (lm_def lm)"
      "v \<in> dom (lm_livein lm)" "v \<in> dom (lm_liveout lm)"
      using assms(1) v unfolding elim_pre_def lm_ok_def by blast+
    note e = elim_visit_ok [OF Cons.prems(2) v p assms(2)]
    show ?case using Cons.IH [OF _ e(1)] Cons.prems(1) e(2) [of V] by simp
  qed simp
  then show "es_ok N (fold (elim_visit ops cfg lm redundant) vs st)"
    "es_view \<alpha> (fold (elim_visit ops cfg lm redundant) vs st) =
      fold (visit_sets (prob \<alpha> cfg V (\<alpha> redundant) lm)) vs (es_view \<alpha> st)" by simp_all
qed

text \<open>The blocks a walk visits do not depend on what it computes.\<close>

definition visited :: "IRCFG \<Rightarrow> nat \<Rightarrow> nat list" where
  "visited cfg fuel = (case bfs_walk (cfg_succ cfg) (\<lambda>v vs. vs @ [v]) fuel [cfg_entry cfg]
     (cfg_succ cfg (cfg_entry cfg)) [] of None \<Rightarrow> [] | Some (_, vs) \<Rightarrow> vs)"

lemma fold_collect: "fold (\<lambda>v vs. vs @ [v]) xs ys = ys @ xs"
  by (induction xs arbitrary: ys) simp_all

lemma bfs_walk_visited:
  assumes "elim_pre N cfg fuel lm"
  shows "bfs_walk (cfg_succ cfg) f fuel [cfg_entry cfg] (cfg_succ cfg (cfg_entry cfg)) st =
      Some (rev (visited cfg fuel) @ [cfg_entry cfg], fold f (visited cfg fuel) st)"
    and "set (visited cfg fuel) \<subseteq> N - {cfg_entry cfg}" and "set (visited cfg fuel) = reached cfg - {cfg_entry cfg}"
proof -
  let ?e = "cfg_entry cfg" and ?S = "cfg_succ cfg"
  have N: "finite N" "\<forall>v\<in>N. set (?S v) \<subseteq> N" "set (?S ?e) \<subseteq> N" and
    fu: "length (?S ?e) + (\<Sum>v\<in>N. length (?S v)) \<le> fuel"
    using assms unfolding elim_pre_def by auto
  have "edges_left ?S N [?e] \<le> (\<Sum>v\<in>N. length (?S v))"
    unfolding edges_left_def using N(1) by (intro sum_mono2) auto
  with fu have fl: "length (?S ?e) + edges_left ?S N [?e] \<le> fuel" by simp
  let ?T = "{(a, b). b \<in> set (?S a)}"
  have "v \<in> N" if "(?e, v) \<in> ?T\<^sup>*" for v using that N(2) assms by induction (auto simp: elim_pre_def)
  then have RN: "reached cfg \<subseteq> N" by (auto simp: reached_def)
  then have R: "finite (reached cfg)" "\<forall>v\<in>reached cfg. set (?S v) \<subseteq> reached cfg" "set (?S ?e) \<subseteq> reached cfg" "?e \<in> reached cfg"
    using finite_subset [OF _ N(1)] by (auto simp: reached_def intro: rtrancl_into_rtrancl)
  have "edges_left ?S (reached cfg) [?e] \<le> edges_left ?S N [?e]"
    unfolding edges_left_def using N(1) RN by (intro sum_mono2) auto
  with fl have rl: "length (?S ?e) + edges_left ?S (reached cfg) [?e] \<le> fuel" by simp
  obtain us where us: "bfs_walk ?S (\<lambda>v vs. vs @ [v]) fuel [?e] (?S ?e) [] =
      Some (rev us @ [?e], fold (\<lambda>v vs. vs @ [v]) us [])" "set us \<subseteq> reached cfg" "set us \<inter> set [?e] = {}"
      "set (?S ?e) \<subseteq> set us \<union> set [?e]" "\<forall>v\<in>set us. set (?S v) \<subseteq> set us \<union> set [?e]"
    using bfs_walk_ends [OF R(1-3) rl, of "\<lambda>v vs. vs @ [v]" "[]"] by (elim exE conjE) (rule that; assumption)
  have v: "visited cfg fuel = us" using us(1) by (simp add: visited_def fold_collect)
  have "v \<in> set us \<union> {?e}" if "(?e, v) \<in> ?T\<^sup>*" for v using that by induction (use us(4,5) in auto)
  then show "set (visited cfg fuel) = reached cfg - {?e}" using us(2,3) v by (auto simp: reached_def)
  then show "set (visited cfg fuel) \<subseteq> N - {?e}" using RN by blast
  obtain vs where vs: "bfs_walk ?S f fuel [?e] (?S ?e) st = Some (rev vs @ [?e], fold f vs st)"
    using bfs_walk_ends [OF N(1,2,3) fl, of f st] by blast
  have "rev vs @ [?e] = rev us @ [?e]"
    using bfs_walk_indep [of ?S f fuel "[?e]" "?S ?e" st "\<lambda>v vs. vs @ [v]" "[]"] vs us(1) by simp
  then have "vs = us" by (metis append_same_eq rev_is_rev_conv)
  then show "bfs_walk ?S f fuel [?e] (?S ?e) st = Some (rev (visited cfg fuel) @ [?e], fold f (visited cfg fuel) st)"
    using vs v by simp
qed

lemma round_ok:
  assumes p: "elim_pre N cfg fuel lm" and n: "inv (op_new ops)" "inv redundant" and a: "aux_ok inv pinv N aux"
  shows "\<exists>aux' ch. eliminateRedundantLivenessImpl ops fuel cfg lm redundant aux = Some (aux', ch) \<and>
    aux_ok inv pinv N aux' \<and>
    (aux_view \<alpha> aux', ch) = fold (visit_sets (prob \<alpha> cfg V (\<alpha> redundant) lm)) (visited cfg fuel) (aux_view \<alpha> aux, False)"
proof -
  let ?st = "\<lparr>es_aux = aux, es_news = op_new ops, es_tmp = op_new ops, es_pre = op_new ops, es_change = False\<rparr>"
  let ?r = "fold (elim_visit ops cfg lm redundant) (visited cfg fuel) ?st"
  have "es_ok N ?st" using a n by (simp add: es_ok_def)
  moreover have "set (visited cfg fuel) \<subseteq> N" using bfs_walk_visited(2) [OF p] by blast
  ultimately have e: "es_ok N ?r"
    "es_view \<alpha> ?r = fold (visit_sets (prob \<alpha> cfg V (\<alpha> redundant) lm)) (visited cfg fuel) (es_view \<alpha> ?st)"
    using elim_visits [OF p n(2)] by blast+
  have k: "aux_ok inv pinv N (es_aux ?r)" "inv (es_news ?r)" "inv (es_tmp ?r)" "inv (es_pre ?r)"
    "pinv (aux_sbs (es_aux ?r))" using e(1) by (auto simp: es_ok_def aux_ok_def)
  obtain r1 p1 where s1: "op_cln ops (es_news ?r) (aux_sbs (es_aux ?r)) = (r1, p1)" by fastforce
  obtain r2 p2 where s2: "op_cln ops (es_tmp ?r) p1 = (r2, p2)" by fastforce
  obtain r3 p3 where s3: "op_cln ops (es_pre ?r) p2 = (r3, p3)" by fastforce
  have p3: "pinv p3" using clnE [OF s1] clnE [OF s2] clnE [OF s3] k by blast
  have "eliminateRedundantLivenessImpl ops fuel cfg lm redundant aux =
      Some ((es_aux ?r)\<lparr>aux_sbs := p3\<rparr>, es_change ?r)"
    unfolding eliminateRedundantLivenessImpl_def bfs_walk_visited(1) [OF p]
    by (simp add: s1 s2 s3)
  moreover have "aux_ok inv pinv N ((es_aux ?r)\<lparr>aux_sbs := p3\<rparr>)" using k p3 by (simp add: aux_ok_def)
  moreover have "(aux_view \<alpha> ((es_aux ?r)\<lparr>aux_sbs := p3\<rparr>), es_change ?r) =
      fold (visit_sets (prob \<alpha> cfg V (\<alpha> redundant) lm)) (visited cfg fuel) (aux_view \<alpha> aux, False)"
    using e(2) by (simp add: es_view_def aux_view_def)
  ultimately show ?thesis by blast
qed

lemma elim_loop_ok:
  assumes p: "elim_pre N cfg fuel lm" and n: "inv (op_new ops)" "inv redundant" and a: "aux_ok inv pinv N aux"
  shows "\<exists>aux'. elim_loop ops fuel cfg lm redundant n aux = Some aux' \<and>
    aux_ok inv pinv N aux' \<and>
    aux_view \<alpha> aux' = rounds (prob \<alpha> cfg V (\<alpha> redundant) lm) (visited cfg fuel) n (aux_view \<alpha> aux)"
  using a
proof (induction n arbitrary: aux)
  case 0
  from round_ok [OF p n 0, of V] show ?case by (auto simp: elim_loop.simps rounds.simps [of _ _ 0] split: prod.splits)
next
  case (Suc n)
  from round_ok [OF p n Suc.prems, of V] obtain aux1 ch where
    r: "eliminateRedundantLivenessImpl ops fuel cfg lm redundant aux = Some (aux1, ch)" "aux_ok inv pinv N aux1"
    "fold (visit_sets (prob \<alpha> cfg V (\<alpha> redundant) lm)) (visited cfg fuel) (aux_view \<alpha> aux, False) = (aux_view \<alpha> aux1, ch)" by metis
  with Suc.IH [OF r(2)] show ?case
    by (cases ch) (simp_all add: elim_loop.simps [of _ _ _ _ _ "Suc n"] rounds.simps [of _ _ "Suc n"])
qed

lemma reset_ok:
  assumes "lm_ok inv pinv lm" "aux_ok inv pinv N aux" "set vs \<subseteq> N" "N \<subseteq> dom (lm_livein lm)" "N \<subseteq> dom (lm_liveout lm)"
  shows "lm_ok inv pinv (fold (reset_bb ops aux) vs lm) \<and>
    lm_def (fold (reset_bb ops aux) vs lm) = lm_def lm \<and> lm_use (fold (reset_bb ops aux) vs lm) = lm_use lm \<and>
    (\<forall>b. upd \<alpha> (lm_livein (fold (reset_bb ops aux) vs lm)) b =
       (if b \<in> set vs then upd \<alpha> (aux_livein aux) b else upd \<alpha> (lm_livein lm) b)) \<and>
    (\<forall>b. upd \<alpha> (lm_liveout (fold (reset_bb ops aux) vs lm)) b =
       (if b \<in> set vs then upd \<alpha> (aux_liveout aux) b else upd \<alpha> (lm_liveout lm) b))"
  using assms(1,3-5)
proof (induction vs arbitrary: lm)
  case (Cons v vs)
  have v: "v \<in> N" using Cons.prems by simp
  obtain ai ao li lo where ai: "aux_livein aux v = Some ai" "inv ai" and ao: "aux_liveout aux v = Some ao" "inv ao"
    and li: "lm_livein lm v = Some li" "inv li" and lo: "lm_liveout lm v = Some lo" "inv lo"
    using in_dom_ok [of inv _ N v] Cons.prems(1,3,4) assms(2) v unfolding aux_ok_def lm_ok_def by meson
  have ip: "pinv (lm_sbs lm)" using Cons.prems(1) by (simp add: lm_ok_def)
  obtain r1 p1 where s1: "op_cpy ops lo ao (lm_sbs lm) = (r1, p1)" by fastforce
  obtain r2 p2 where s2: "op_cpy ops li ai p1 = (r2, p2)" by fastforce
  note k1 = cpyE [OF s1 lo(2) ao(2) ip]
  then have k2: "\<alpha> r2 = \<alpha> ai \<and> inv r2 \<and> pinv p2" using cpyE [OF s2 li(2) ai(2)] by blast
  let ?l = "lm\<lparr>lm_livein := (lm_livein lm)(v \<mapsto> r2), lm_liveout := (lm_liveout lm)(v \<mapsto> r1), lm_sbs := p2\<rparr>"
  have e: "reset_bb ops aux v lm = ?l" unfolding reset_bb_def lo(1) ao(1) li(1) ai(1) option.sel s1 s2 by (simp add: s2)
  have l: "lm_ok inv pinv ?l" using Cons.prems(1) k1 k2 by (auto simp: lm_ok_def intro!: vec_ok_upd)
  have d: "set vs \<subseteq> N" "N \<subseteq> dom (lm_livein ?l)" "N \<subseteq> dom (lm_liveout ?l)" using Cons.prems by auto
  note IH = Cons.IH [OF l d]
  have "fold (reset_bb ops aux) (v # vs) lm = fold (reset_bb ops aux) vs ?l" by (simp add: e)
  then show ?case using IH k1 k2 ai(1) ao(1) by simp
qed simp

lemma handleParam_ok:
  assumes lm: "lm_ok inv pinv lm" and li: "lm_livein lm e = Some li" and lo: "lm_liveout lm e = Some lo"
    and o: "inv oi" "inv oo" "pinv ap" and pr: "\<forall>prs\<in>set_option params. inv prs"
    and r: "handleParamInfoInEntryBB ops params e oi oo ap lm = (ap', lm')"
  shows "lm_ok inv pinv lm' \<and> pinv ap' \<and> lm_def lm' = lm_def lm \<and> lm_use lm' = lm_use lm \<and>
    dom (lm_livein lm') = dom (lm_livein lm) \<and> dom (lm_liveout lm') = dom (lm_liveout lm) \<and>
    upd \<alpha> (lm_livein lm') = (upd \<alpha> (lm_livein lm))(e := \<alpha> li \<union> (\<alpha> oi \<inter> (\<Union>p\<in>set_option params. \<alpha> p))) \<and>
    upd \<alpha> (lm_liveout lm') = (upd \<alpha> (lm_liveout lm))(e := \<alpha> lo \<union> (\<alpha> oo \<inter> (\<Union>p\<in>set_option params. \<alpha> p)))"
proof (cases params)
  case None
  with r lm o li lo show ?thesis by (auto simp: handleParamInfoInEntryBB_def fun_eq_iff)
next
  case (Some prs)
  have ip: "inv prs" "inv li" "inv lo" "pinv (lm_sbs lm)" using pr Some lm li lo by (auto simp: lm_ok_def vec_ok_def)
  obtain r1 p1 where s1: "op_int ops oi prs ap = (r1, p1)" by fastforce
  obtain r2 p2 where s2: "op_int ops oo prs p1 = (r2, p2)" by fastforce
  obtain r3 p3 where s3: "op_uni ops li r1 (lm_sbs lm) = (r3, p3)" by fastforce
  obtain r4 p4 where s4: "op_uni ops lo r2 p3 = (r4, p4)" by fastforce
  note k1 = intE [OF s1 o(1) ip(1) o(3)]
  have k2: "\<alpha> r2 = \<alpha> oo \<inter> \<alpha> prs \<and> inv r2 \<and> pinv p2" using intE [OF s2 o(2) ip(1)] k1 by blast
  have k3: "\<alpha> r3 = \<alpha> li \<union> \<alpha> r1 \<and> inv r3 \<and> pinv p3" using uniE [OF s3 ip(2) _ ip(4)] k1 by blast
  have k4: "\<alpha> r4 = \<alpha> lo \<union> \<alpha> r2 \<and> inv r4 \<and> pinv p4" using uniE [OF s4 ip(3)] k2 k3 by blast
  have e: "ap' = p2" "lm' = lm\<lparr>lm_livein := (lm_livein lm)(e \<mapsto> r3), lm_liveout := (lm_liveout lm)(e \<mapsto> r4), lm_sbs := p4\<rparr>"
    using r unfolding handleParamInfoInEntryBB_def Some option.case Let_def s1 s2 prod.case li lo option.sel s3 s4 by auto
  show ?thesis using lm k1 k2 k3 k4 li lo Some
    by (auto simp: e lm_ok_def intro!: vec_ok_upd)
qed

lemma aux_init_ok:
  assumes n: "inv (op_new ops)" and p: "pinv p"
  shows "aux_ok inv pinv (set bbs) (aux_init ops bbs p) \<and> aux_view \<alpha> (aux_init ops bbs p) = (\<lambda>v. {}, \<lambda>v. {})"
proof -
  have step: "aux_ok inv pinv (insert b N) (aux_init_bb ops b a) \<and> aux_view \<alpha> (aux_init_bb ops b a) = (\<lambda>v. {}, \<lambda>v. {})"
    if a: "aux_ok inv pinv N a" and e: "aux_view \<alpha> a = (\<lambda>v. {}, \<lambda>v. {})" for b N a
  proof -
    let ?a = a
    let ?vi = "gen_set ops (aux_livein ?a) b" and ?vo = "gen_set ops (aux_liveout ?a) b"
    have g: "vec_ok inv ?vi" "vec_ok inv ?vo" "b \<in> dom ?vi" "b \<in> dom ?vo"
      "dom (aux_livein ?a) \<subseteq> dom ?vi" "dom (aux_liveout ?a) \<subseteq> dom ?vo" and q: "pinv (aux_sbs ?a)"
      using a n by (auto simp: aux_ok_def gen_set_def vec_ok_def split: option.splits)
    obtain i1 p1 where s1: "op_cln ops (the (?vi b)) (aux_sbs ?a) = (i1, p1)" by fastforce
    obtain o1 p2 where s2: "op_cln ops (the (?vo b)) p1 = (o1, p2)" by fastforce
    have i: "inv (the (?vi b))" "inv (the (?vo b))" using g by (auto simp: vec_ok_def)
    have k1: "\<alpha> i1 = {} \<and> inv i1 \<and> pinv p1" using clnE [OF s1 i(1) q] by blast
    then have k2: "\<alpha> o1 = {} \<and> inv o1 \<and> pinv p2" using clnE [OF s2 i(2)] by blast
    have "upd \<alpha> (aux_livein a) c = {}" "upd \<alpha> (aux_liveout a) c = {}" for c
      using e by (simp_all add: aux_view_def fun_eq_iff)
    moreover have "c \<noteq> b \<Longrightarrow> upd \<alpha> ?vi c = upd \<alpha> (aux_livein a) c" "c \<noteq> b \<Longrightarrow> upd \<alpha> ?vo c = upd \<alpha> (aux_liveout a) c" for c
      by (simp_all add: upd_def gen_set_def split: option.split)
    ultimately have "upd \<alpha> ?vi c = {} \<or> c = b" "upd \<alpha> ?vo c = {} \<or> c = b" for c by blast+
    then have "aux_view \<alpha> (aux_init_bb ops b a) = (\<lambda>v. {}, \<lambda>v. {})"
      unfolding aux_init_bb_def Let_def s1 prod.case s2 aux_view_def using k1 k2 by (auto simp: upd_def fun_eq_iff)
    moreover have "aux_ok inv pinv (insert b N) (aux_init_bb ops b a)"
      unfolding aux_init_bb_def Let_def s1 prod.case s2 using g a k1 k2
      by (simp add: aux_ok_def vec_ok_upd) blast
    ultimately show ?thesis by blast
  qed
  have "aux_ok inv pinv (set bs) (fold (aux_init_bb ops) bs \<lparr>aux_livein = Map.empty, aux_liveout = Map.empty, aux_sbs = p\<rparr>) \<and>
    aux_view \<alpha> (fold (aux_init_bb ops) bs \<lparr>aux_livein = Map.empty, aux_liveout = Map.empty, aux_sbs = p\<rparr>) = (\<lambda>v. {}, \<lambda>v. {})" for bs
  proof (induction bs rule: rev_induct)
    case Nil
    then show ?case using p by (simp add: aux_ok_def vec_ok_def aux_view_def upd_def fun_eq_iff)
  next
    case (snoc b bs)
    then show ?case using step [of "set bs" _ b] by simp
  qed
  then show ?thesis by (simp add: aux_init_def)
qed

lemma eliminate_ok:
  assumes p: "elim_pre (set (cfg_bbs cfg)) cfg fuel lm" and n: "inv (op_new ops)" and ap: "pinv auxp"
    and pr: "\<forall>prs\<in>set_option params. inv prs" and fin: "finite (upd \<alpha> (lm_livein lm) (cfg_entry cfg))"
  shows "\<exists>lm'. eliminateRedundantLiveness ops fuel params auxp cfg lm = Some lm' \<and> lm_ok inv pinv lm' \<and>
    lm_def lm' = lm_def lm \<and> lm_use lm' = lm_use lm \<and>
    upd \<alpha> (lm_livein lm') (cfg_entry cfg) = upd \<alpha> (lm_livein lm) (cfg_entry cfg) \<inter>
      (upd \<alpha> (lm_use lm) (cfg_entry cfg) \<union> (\<Union>p\<in>set_option params. \<alpha> p)) \<and>
    upd \<alpha> (lm_liveout lm') (cfg_entry cfg) = upd \<alpha> (lm_liveout lm) (cfg_entry cfg) \<inter>
      (upd \<alpha> (lm_def lm) (cfg_entry cfg) \<union> (\<Union>p\<in>set_option params. \<alpha> p)) \<and>
    eliminated (prob \<alpha> cfg (reached cfg - {cfg_entry cfg}) (upd \<alpha> (lm_livein lm) (cfg_entry cfg)) lm) 99
      (upd \<alpha> (lm_livein lm'), upd \<alpha> (lm_liveout lm')) \<and>
    (\<forall>v. v \<notin> reached cfg \<longrightarrow> upd \<alpha> (lm_livein lm') v = upd \<alpha> (lm_livein lm) v \<and> upd \<alpha> (lm_liveout lm') v = upd \<alpha> (lm_liveout lm) v)"
proof -
  let ?N = "set (cfg_bbs cfg)" and ?e = "cfg_entry cfg" and ?P = "\<Union>p\<in>set_option params. \<alpha> p"
  have lm: "lm_ok inv pinv lm" and e: "?e \<in> ?N" using p by (auto simp: elim_pre_def)
  have v: "vec_ok inv (lm_def lm)" "vec_ok inv (lm_use lm)" "vec_ok inv (lm_livein lm)" "vec_ok inv (lm_liveout lm)"
    "pinv (lm_sbs lm)" using lm by (auto simp: lm_ok_def)
  have d: "?N \<subseteq> dom (lm_livein lm)" "?N \<subseteq> dom (lm_liveout lm)" "?N \<subseteq> dom (lm_use lm)" "?N \<subseteq> dom (lm_def lm)"
    using p by (auto simp: elim_pre_def)
  obtain li lo where li: "lm_livein lm ?e = Some li" "inv li" and lo: "lm_liveout lm ?e = Some lo" "inv lo"
    using in_dom_ok [OF v(3) d(1) e] in_dom_ok [OF v(4) d(2) e] by blast
  obtain us de where us: "lm_use lm ?e = Some us" "inv us" and de: "lm_def lm ?e = Some de" "inv de"
    using in_dom_ok [OF v(2) d(3) e] in_dom_ok [OF v(1) d(4) e] by blast
  let ?aux = "aux_init ops (cfg_bbs cfg) auxp"
  have ax: "aux_ok inv pinv ?N ?aux" "aux_view \<alpha> ?aux = (\<lambda>v. {}, \<lambda>v. {})" using aux_init_ok [OF n ap] by blast+
  then have q: "pinv (aux_sbs ?aux)" by (simp add: aux_ok_def)
  obtain r1 p1 where s1: "op_cpy ops (op_new ops) li (aux_sbs ?aux) = (r1, p1)" by fastforce
  note k1 = cpyE [OF s1 n li(2) q]
  obtain r2 p2 where s2: "op_cpy ops (op_new ops) li p1 = (r2, p2)" by fastforce
  have k2: "\<alpha> r2 = \<alpha> li \<and> inv r2 \<and> pinv p2" using cpyE [OF s2 n li(2)] k1 by blast
  obtain r3 p3 where s3: "op_cpy ops (op_new ops) lo p2 = (r3, p3)" by fastforce
  have k3: "\<alpha> r3 = \<alpha> lo \<and> inv r3 \<and> pinv p3" using cpyE [OF s3 n lo(2)] k2 by blast
  obtain r4 p4 where s4: "op_cpy ops (op_new ops) us p3 = (r4, p4)" by fastforce
  have k4: "\<alpha> r4 = \<alpha> us \<and> inv r4 \<and> pinv p4" using cpyE [OF s4 n us(2)] k3 by blast
  obtain r5 p5 where s5: "op_cpy ops (op_new ops) de p4 = (r5, p5)" by fastforce
  have k5: "\<alpha> r5 = \<alpha> de \<and> inv r5 \<and> pinv p5" using cpyE [OF s5 n de(2)] k4 by blast
  obtain r6 p6 where s6: "op_int ops r4 r2 p5 = (r6, p6)" by fastforce
  have k6: "\<alpha> r6 = \<alpha> us \<inter> \<alpha> li \<and> inv r6 \<and> pinv p6" using intE [OF s6] k2 k4 k5 by metis
  obtain r7 p7 where s7: "op_int ops r5 r3 p6 = (r7, p7)" by fastforce
  have k7: "\<alpha> r7 = \<alpha> de \<inter> \<alpha> lo \<and> inv r7 \<and> pinv p7" using intE [OF s7] k3 k5 k6 by metis
  obtain r8 p8 where s8: "op_cpy ops li r6 (lm_sbs lm) = (r8, p8)" by fastforce
  have k8: "\<alpha> r8 = \<alpha> us \<inter> \<alpha> li \<and> inv r8 \<and> pinv p8" using cpyE [OF s8 li(2) _ v(5)] k6 by blast
  obtain r9 p9 where s9: "op_cpy ops lo r7 p8 = (r9, p9)" by fastforce
  have k9: "\<alpha> r9 = \<alpha> de \<inter> \<alpha> lo \<and> inv r9 \<and> pinv p9" using cpyE [OF s9 lo(2)] k7 k8 by blast
  let ?l = "lm\<lparr>lm_livein := (lm_livein lm)(?e \<mapsto> r8), lm_liveout := (lm_liveout lm)(?e \<mapsto> r9), lm_sbs := p9\<rparr>"
  obtain ap2 l2 where h: "handleParamInfoInEntryBB ops params ?e r2 r3 p7 ?l = (ap2, l2)" by fastforce
  have "lm_ok inv pinv ?l" using lm k8 k9 by (auto simp: lm_ok_def intro!: vec_ok_upd)
  from handleParam_ok [OF this _ _ _ _ _ pr h, of r8 r9] k2 k3 k7
  have l2: "lm_ok inv pinv l2" "pinv ap2" "lm_def l2 = lm_def lm" "lm_use l2 = lm_use lm"
    "dom (lm_livein l2) = insert ?e (dom (lm_livein lm))" "dom (lm_liveout l2) = insert ?e (dom (lm_liveout lm))"
    "upd \<alpha> (lm_livein l2) = (upd \<alpha> (lm_livein lm))(?e := \<alpha> r8 \<union> (\<alpha> r2 \<inter> ?P))"
    "upd \<alpha> (lm_liveout l2) = (upd \<alpha> (lm_liveout lm))(?e := \<alpha> r9 \<union> (\<alpha> r3 \<inter> ?P))"
    by simp_all
  have p2: "elim_pre ?N cfg fuel l2" using p l2(1,3-6) by (auto simp: elim_pre_def)
  let ?V = "reached cfg - {?e}"
  have ax2: "aux_ok inv pinv ?N (?aux\<lparr>aux_sbs := ap2\<rparr>)" "aux_view \<alpha> (?aux\<lparr>aux_sbs := ap2\<rparr>) = (\<lambda>v. {}, \<lambda>v. {})"
    using ax l2(2) by (simp_all add: aux_ok_def aux_view_def)
  from elim_loop_ok [OF p2 n _ ax2(1), of r1 99 ?V] k1 obtain aux' where
    a: "elim_loop ops fuel cfg l2 r1 99 (?aux\<lparr>aux_sbs := ap2\<rparr>) = Some aux'" "aux_ok inv pinv ?N aux'"
    "aux_view \<alpha> aux' = rounds (prob \<alpha> cfg ?V (\<alpha> r1) l2) (visited cfg fuel) 99 (\<lambda>v. {}, \<lambda>v. {})"
    unfolding ax2(2) by blast
  let ?r = "fold (reset_bb ops aux') (visited cfg fuel) l2"
  have vis: "set (visited cfg fuel) \<subseteq> ?N - {?e}" "set (visited cfg fuel) = ?V" using bfs_walk_visited(2,3) [OF p2] by blast+
  have dd: "?N \<subseteq> dom (lm_livein l2)" "?N \<subseteq> dom (lm_liveout l2)" using p2 by (auto simp: elim_pre_def)
  have "set (visited cfg fuel) \<subseteq> ?N" using vis(1) by blast
  note rs = reset_ok [OF l2(1) a(2) this dd]
  have "eliminateRedundantLiveness ops fuel params auxp cfg lm = Some ?r"
    unfolding eliminateRedundantLiveness_def Let_def li(1) lo(1) us(1) de(1) option.sel s1 s2 s3 s4 s5 prod.case
      s6 s7 s8 s9 h a(1) option.case resetLivenessAfterRemoveRedundantLiveness_def bfs_walk_visited(1) [OF p2]
    by simp
  moreover have "eliminated (prob \<alpha> cfg ?V (upd \<alpha> (lm_livein lm) ?e) lm) 99 (upd \<alpha> (lm_livein ?r), upd \<alpha> (lm_liveout ?r))"
  proof (rule eliminated_cong)
    have "\<alpha> r1 = upd \<alpha> (lm_livein lm) ?e" using k1 li(1) by (simp add: upd_def)
    then have "finite (\<alpha> r1)" using fin by simp
    then show "eliminated (prob \<alpha> cfg ?V (\<alpha> r1) l2) 99 (aux_view \<alpha> aux')"
      using rounds_eliminated [of "visited cfg fuel" "prob \<alpha> cfg ?V (\<alpha> r1) l2" "(\<lambda>v. {}, \<lambda>v. {})" 98] vis(2)
      unfolding a(3) by (simp add: prob_def)
    show "ep_red (prob \<alpha> cfg ?V (\<alpha> r1) l2) = ep_red (prob \<alpha> cfg ?V (upd \<alpha> (lm_livein lm) ?e) lm)"
      using k1 li(1) by (simp add: prob_def upd_def)
  qed (use l2(3,4,7,8) rs vis(2) in \<open>simp_all add: prob_def aux_view_def\<close>)
  moreover have "\<forall>v. v \<notin> reached cfg \<longrightarrow> upd \<alpha> (lm_livein ?r) v = upd \<alpha> (lm_livein lm) v \<and> upd \<alpha> (lm_liveout ?r) v = upd \<alpha> (lm_liveout lm) v"
  proof (intro allI impI)
    fix v assume v: "v \<notin> reached cfg"
    then have "v \<noteq> ?e" "v \<notin> set (visited cfg fuel)" using vis(2) by (auto simp: reached_def)
    then show "upd \<alpha> (lm_livein ?r) v = upd \<alpha> (lm_livein lm) v \<and> upd \<alpha> (lm_liveout ?r) v = upd \<alpha> (lm_liveout lm) v"
      using rs l2(7,8) by simp
  qed
  moreover have "upd \<alpha> (lm_livein ?r) ?e = upd \<alpha> (lm_livein lm) ?e \<inter> (upd \<alpha> (lm_use lm) ?e \<union> ?P)"
    "upd \<alpha> (lm_liveout ?r) ?e = upd \<alpha> (lm_liveout lm) ?e \<inter> (upd \<alpha> (lm_def lm) ?e \<union> ?P)"
    using rs vis l2(7,8) k2 k3 k8 k9 li(1) lo(1) us(1) de(1) by auto
  ultimately show ?thesis using rs l2(3,4) by (intro exI [of _ ?r]) simp
qed

lemma computeLocal_dom:
  "dom (lm_use lm) \<subseteq> dom (lm_use (computeLocal ops hm irs b lm)) \<and> b \<in> dom (lm_use (computeLocal ops hm irs b lm)) \<and>
   dom (lm_def lm) \<subseteq> dom (lm_def (computeLocal ops hm irs b lm)) \<and> b \<in> dom (lm_def (computeLocal ops hm irs b lm))"
  by (auto simp: computeLocal_def Let_def gen_set_def split: prod.splits option.splits)

lemma computeLocalAll_dom:
  "set (cfg_bbs cfg) \<subseteq> dom (lm_use (computeLocalAll ops hm cfg lm)) \<and>
   set (cfg_bbs cfg) \<subseteq> dom (lm_def (computeLocalAll ops hm cfg lm))"
proof -
  have "set bs \<subseteq> dom (lm_use (fold (computeLocal ops hm irs) bs lm)) \<and>
      set bs \<subseteq> dom (lm_def (fold (computeLocal ops hm irs) bs lm))" for bs irs
  proof (induction bs rule: rev_induct)
    case (snoc b bs)
    with computeLocal_dom [of "fold (computeLocal ops hm irs) bs lm" hm irs b] show ?case
      by simp (meson subset_trans)
  qed simp
  then show ?thesis by (simp add: computeLocalAll_def)
qed

definition liveness_pre :: "bool \<Rightarrow> nat \<Rightarrow> 'a option \<Rightarrow> 'p \<Rightarrow> IRCFG \<Rightarrow> ('a, 'p) LivenessMgr \<Rightarrow> bool" where
  "liveness_pre hm fuel params auxp cfg lm \<longleftrightarrow> inv (op_new ops) \<and> lm_ok inv pinv lm \<and> pinv auxp \<and>
     (\<forall>prs\<in>set_option params. inv prs) \<and> cfg_wf fuel cfg \<and>
     (\<forall>b\<in>set (cfg_bbs cfg). \<forall>s\<in>set (cfg_irs cfg b). stmt_ok ok s)"

text \<open>\<open>computeGlobal\<close> from the result of the fixpoint loop on.\<close>

lemma perform_ok:
  fixes hm cfg
  defines "U \<equiv> \<lambda>b. exposed hm (cfg_irs cfg b)" and "D \<equiv> \<lambda>b. block_defs hm (cfg_irs cfg b)"
  defines "L \<equiv> \<lambda>b. {x. live (cfg_succ cfg) D U x b}"
  assumes p: "liveness_pre hm fuel params auxp cfg lm"
    and c: "card (set (cfg_bbs cfg)) * card (\<Union>b\<in>set (cfg_bbs cfg). U b) < thres"
  shows "\<exists>lm'. perform ops hm fuel params auxp cfg lm = Some (lm', False) \<and> lm_ok inv pinv lm' \<and>
    (\<forall>b\<in>set (cfg_bbs cfg). upd \<alpha> (lm_use lm') b = U b \<and> upd \<alpha> (lm_def lm') b = D b) \<and>
    (if L (cfg_entry cfg) \<subseteq> U (cfg_entry cfg)
     then \<forall>b\<in>set (cfg_bbs cfg). upd \<alpha> (lm_livein lm') b = L b \<and>
       upd \<alpha> (lm_liveout lm') b = (\<Union>s\<in>set (cfg_succ cfg b). L s)
     else upd \<alpha> (lm_livein lm') (cfg_entry cfg) =
         L (cfg_entry cfg) \<inter> (U (cfg_entry cfg) \<union> (\<Union>p\<in>set_option params. \<alpha> p)) \<and>
       upd \<alpha> (lm_liveout lm') (cfg_entry cfg) =
         (\<Union>s\<in>set (cfg_succ cfg (cfg_entry cfg)). L s) \<inter> (D (cfg_entry cfg) \<union> (\<Union>p\<in>set_option params. \<alpha> p)) \<and>
       eliminated \<lparr>ep_pred = cfg_pred cfg, ep_blocks = reached cfg - {cfg_entry cfg}, ep_red = L (cfg_entry cfg), ep_use = U,
           ep_def = D, ep_in = L, ep_out = (\<lambda>b. \<Union>s\<in>set (cfg_succ cfg b). L s)\<rparr> 99 (upd \<alpha> (lm_livein lm'), upd \<alpha> (lm_liveout lm')) \<and>
       (\<forall>b\<in>set (cfg_bbs cfg). b \<notin> reached cfg \<longrightarrow> upd \<alpha> (lm_livein lm') b = L b \<and>
         upd \<alpha> (lm_liveout lm') b = (\<Union>s\<in>set (cfg_succ cfg b). L s)))"
proof -
  let ?N = "set (cfg_bbs cfg)" and ?e = "cfg_entry cfg"
  have n: "inv (op_new ops)" "lm_ok inv pinv lm" "pinv auxp" "\<forall>prs\<in>set_option params. inv prs"
    and k: "\<forall>b\<in>?N. \<forall>s\<in>set (cfg_irs cfg b). stmt_ok ok s"
    and w: "?e \<in> ?N" "set (cfg_rpo cfg) = ?N" "\<forall>b\<in>?N. set (cfg_succ cfg b) \<subseteq> ?N"
      "\<forall>b\<in>?N. set (cfg_pred cfg b) \<subseteq> ?N" "length (cfg_succ cfg ?e) + (\<Sum>v\<in>?N. length (cfg_succ cfg v)) \<le> fuel"
    using p unfolding liveness_pre_def cfg_wf_def by blast+
  have ne: "cfg_bbs cfg \<noteq> []" using w(1) by auto
  let ?l1 = "computeLocalAll ops hm cfg lm"
  obtain l2 nw ch where sv: "solve ops cfg (initSet ops (cfg_bbs cfg) ?l1) = (l2, nw, ch)" by (rule prod_cases3)
  note so = solve_ok [OF n(1,2) k w(2,3) sv]
  have nch: "\<not> ch" using so(7) c unfolding U_def by blast
  have li: "upd \<alpha> (lm_livein l2) b = L b" "upd \<alpha> (lm_liveout l2) b = (\<Union>s\<in>set (cfg_succ cfg b). L s)"
    if "b \<in> ?N" for b using so(6) [OF nch] that unfolding L_def U_def D_def by auto
  have ud: "\<forall>b\<in>?N. upd \<alpha> (lm_use l2) b = U b \<and> upd \<alpha> (lm_def l2) b = D b"
    using so(4) unfolding U_def D_def .
  have dm: "?N \<subseteq> dom (lm_use l2)" "?N \<subseteq> dom (lm_def l2)" "?N \<subseteq> dom (lm_livein l2)" "?N \<subseteq> dom (lm_liveout l2)"
    using computeLocalAll_dom [of cfg hm lm] so(3,8,9) by (auto simp: has_sets_def)
  have v: "vec_ok inv (lm_use l2)" "vec_ok inv (lm_livein l2)" "pinv (lm_sbs l2)" using so(1) by (auto simp: lm_ok_def)
  obtain ie ue where ie: "lm_livein l2 ?e = Some ie" "inv ie" and ue: "lm_use l2 ?e = Some ue" "inv ue"
    using in_dom_ok [OF v(2) dm(3) w(1)] in_dom_ok [OF v(1) dm(1) w(1)] by blast
  obtain r1 p1 where s1: "op_cpy ops nw ie (lm_sbs l2) = (r1, p1)" by fastforce
  note k1 = cpyE [OF s1 so(2) ie(2) v(3)]
  obtain r2 p2 where s2: "op_dif ops r1 ue p1 = (r2, p2)" by fastforce
  have k2: "\<alpha> r2 = L ?e - U ?e \<and> inv r2 \<and> pinv p2"
    using difE [OF s2] k1 ue li(1) [OF w(1)] ie(1) ud w(1) by auto
  have em: "op_emp ops r2 \<longleftrightarrow> L ?e \<subseteq> U ?e" using emp_law [of r2] k2 by auto
  let ?l3 = "l2\<lparr>lm_sbs := p2\<rparr>"
  have l3: "lm_ok inv pinv ?l3" using so(1) k2 by (simp add: lm_ok_def)
  let ?fin = "\<lambda>lm. lm\<lparr>lm_sbs := snd (op_cln ops r2 (lm_sbs lm))\<rparr>"
  have fin: "lm_ok inv pinv (?fin lm)" if "lm_ok inv pinv lm" for lm
  proof -
    have "pinv (snd (op_cln ops r2 (lm_sbs lm)))"
      using that k2 clnE [of r2 "lm_sbs lm" "fst (op_cln ops r2 (lm_sbs lm))" "snd (op_cln ops r2 (lm_sbs lm))"]
      by (simp add: lm_ok_def)
    then show ?thesis using that by (simp add: lm_ok_def)
  qed
  have pf: "perform ops hm fuel params auxp cfg lm = map_option (\<lambda>lm. (?fin lm, False))
      (if \<not> L ?e \<subseteq> U ?e then eliminateRedundantLiveness ops fuel params auxp cfg ?l3 else Some ?l3)"
    unfolding perform_def computeGlobal_def Let_def sv prod.case ie(1) ue(1) option.sel s1 s2 em
    using ne nch by (simp add: case_prod_beta)
  show ?thesis
  proof (cases "L ?e \<subseteq> U ?e")
    case True
    then show ?thesis unfolding pf using fin [OF l3] ud li by (intro exI [of _ "?fin ?l3"]) simp
  next
    case False
    have pre: "elim_pre ?N cfg fuel ?l3" using l3 w dm by (auto simp: elim_pre_def)
    have fU: "finite (exposed hm ss)" for ss by (induction ss) (auto simp: stmt_uses_def ref_uses_def)
    have "L ?e \<subseteq> (\<Union>b\<in>?N. U b)" using live_used [of "cfg_succ cfg" D U _ ?e ?N] w(1,3) by (auto simp: L_def)
    then have "finite (L ?e)" by (rule finite_subset) (simp add: U_def fU)
    then have "finite (upd \<alpha> (lm_livein ?l3) ?e)" using li(1) [OF w(1)] by simp
    from eliminate_ok [OF pre n(1,3,4) this] obtain l4 where l4:
      "eliminateRedundantLiveness ops fuel params auxp cfg ?l3 = Some l4" "lm_ok inv pinv l4"
      "lm_def l4 = lm_def ?l3" "lm_use l4 = lm_use ?l3"
      "upd \<alpha> (lm_livein l4) ?e = upd \<alpha> (lm_livein ?l3) ?e \<inter> (upd \<alpha> (lm_use ?l3) ?e \<union> (\<Union>p\<in>set_option params. \<alpha> p))"
      "upd \<alpha> (lm_liveout l4) ?e = upd \<alpha> (lm_liveout ?l3) ?e \<inter> (upd \<alpha> (lm_def ?l3) ?e \<union> (\<Union>p\<in>set_option params. \<alpha> p))"
      "eliminated (prob \<alpha> cfg (reached cfg - {?e}) (upd \<alpha> (lm_livein ?l3) ?e) ?l3) 99 (upd \<alpha> (lm_livein l4), upd \<alpha> (lm_liveout l4))"
      "\<forall>v. v \<notin> reached cfg \<longrightarrow> upd \<alpha> (lm_livein l4) v = upd \<alpha> (lm_livein ?l3) v \<and> upd \<alpha> (lm_liveout l4) v = upd \<alpha> (lm_liveout ?l3) v"
      by (elim exE conjE) (rule that; assumption)
    have RN: "reached cfg \<subseteq> ?N"
    proof
      fix v assume "v \<in> reached cfg"
      then have "(?e, v) \<in> {(a, b). b \<in> set (cfg_succ cfg a)}\<^sup>*" by (simp add: reached_def)
      then show "v \<in> ?N" by induction (use w(1,3) in auto)
    qed
    have m: "upd \<alpha> (lm_livein l2) v = L v" "upd \<alpha> (lm_liveout l2) v = (\<Union>s\<in>set (cfg_succ cfg v). L s)"
      "upd \<alpha> (lm_use l2) v = U v" "upd \<alpha> (lm_def l2) v = D v" if "v \<in> reached cfg" for v
      using li [OF subsetD [OF RN that]] bspec [OF ud subsetD [OF RN that]] by simp_all
    have el: "eliminated \<lparr>ep_pred = cfg_pred cfg, ep_blocks = reached cfg - {?e}, ep_red = L ?e, ep_use = U,
           ep_def = D, ep_in = L, ep_out = (\<lambda>b. \<Union>s\<in>set (cfg_succ cfg b). L s)\<rparr> 99 (upd \<alpha> (lm_livein l4), upd \<alpha> (lm_liveout l4))"
      by (rule eliminated_cong [OF l4(7)]) (use m li(1) [OF w(1)] in \<open>simp_all add: prob_def\<close>)
    have out: "\<forall>b\<in>?N. b \<notin> reached cfg \<longrightarrow> upd \<alpha> (lm_livein l4) b = L b \<and> upd \<alpha> (lm_liveout l4) b = (\<Union>s\<in>set (cfg_succ cfg b). L s)"
    proof (intro ballI impI)
      fix b assume "b \<in> ?N" "b \<notin> reached cfg"
      then show "upd \<alpha> (lm_livein l4) b = L b \<and> upd \<alpha> (lm_liveout l4) b = (\<Union>s\<in>set (cfg_succ cfg b). L s)"
        using l4(8) [rule_format, of b] li [of b] by simp
    qed
    have ent: "upd \<alpha> (lm_livein l4) ?e = L ?e \<inter> (U ?e \<union> (\<Union>p\<in>set_option params. \<alpha> p))"
      "upd \<alpha> (lm_liveout l4) ?e = (\<Union>s\<in>set (cfg_succ cfg ?e). L s) \<inter> (D ?e \<union> (\<Union>p\<in>set_option params. \<alpha> p))"
      unfolding l4(5,6) using li [OF w(1)] bspec [OF ud w(1)] by simp_all
    have udf: "\<forall>b\<in>?N. upd \<alpha> (lm_use (?fin l4)) b = U b \<and> upd \<alpha> (lm_def (?fin l4)) b = D b"
      using ud l4(3,4) by simp
    have run: "perform ops hm fuel params auxp cfg lm = Some (?fin l4, False)"
      unfolding pf using False l4(1) by simp
    have same: "lm_livein (?fin l4) = lm_livein l4" "lm_liveout (?fin l4) = lm_liveout l4" by simp_all
    show ?thesis
      by (rule exI [of _ "?fin l4"], unfold if_not_P [OF False] same)
        (rule conjI [OF run conjI [OF fin [OF l4(2)] conjI [OF udf conjI [OF ent(1) conjI [OF ent(2) conjI [OF el out]]]]]])
  qed
qed

end

section \<open>The analysis on sparse sets\<close>

interpretation live_sbs: set_client sbs_set "sbs_inv B past" sm_wf "fits B" "sbs_ops B past" for B past
  by (simp add: set_client_def sbs_ops_def sparse.set_impl_axioms)

text \<open>
  An input of the pass: sets and managers in order, a well-formed graph, PR numbers that a segment
  can hold.
\<close>

definition liveness_input ::
  "nat \<Rightarrow> byte list \<Rightarrow> nat \<Rightarrow> SEG list option \<Rightarrow> SegMgr \<Rightarrow> IRCFG \<Rightarrow> (SEG list, SegMgr) LivenessMgr \<Rightarrow> bool" where
  "liveness_input B past fuel params auxp cfg lm \<longleftrightarrow> sbs_inv B past [] \<and> lm_ok (sbs_inv B past) sm_wf lm \<and>
     sm_wf auxp \<and> (\<forall>prs\<in>set_option params. sbs_inv B past prs) \<and> cfg_wf fuel cfg \<and>
     (\<forall>b\<in>set (cfg_bbs cfg). \<forall>s\<in>set (cfg_irs cfg b). stmt_ok (fits B) s)"

text \<open>Path liveness of a program: the PRs with a use ahead of any definition on some path.\<close>

definition path_live :: "bool \<Rightarrow> IRCFG \<Rightarrow> nat \<Rightarrow> nat set" where
  "path_live hm cfg b = {x. live (cfg_succ cfg) (\<lambda>b. block_defs hm (cfg_irs cfg b))
     (\<lambda>b. exposed hm (cfg_irs cfg b)) x b}"

definition few_changes :: "bool \<Rightarrow> IRCFG \<Rightarrow> bool" where
  "few_changes hm cfg \<longleftrightarrow> card (set (cfg_bbs cfg)) * card (\<Union>b\<in>set (cfg_bbs cfg). exposed hm (cfg_irs cfg b)) < thres"

definition redundancy :: "bool \<Rightarrow> IRCFG \<Rightarrow> elim_prob" where
  "redundancy hm cfg = \<lparr>ep_pred = cfg_pred cfg, ep_blocks = reached cfg - {cfg_entry cfg},
     ep_red = path_live hm cfg (cfg_entry cfg), ep_use = (\<lambda>b. exposed hm (cfg_irs cfg b)),
     ep_def = (\<lambda>b. block_defs hm (cfg_irs cfg b)), ep_in = path_live hm cfg,
     ep_out = (\<lambda>b. \<Union>s\<in>set (cfg_succ cfg b). path_live hm cfg s)\<rparr>"

lemma redundancy_simps:
  "ep_pred (redundancy hm cfg) = cfg_pred cfg" "ep_blocks (redundancy hm cfg) = reached cfg - {cfg_entry cfg}"
  "ep_red (redundancy hm cfg) = path_live hm cfg (cfg_entry cfg)" "ep_use (redundancy hm cfg) b = exposed hm (cfg_irs cfg b)"
  "ep_def (redundancy hm cfg) b = block_defs hm (cfg_irs cfg b)" "ep_in (redundancy hm cfg) b = path_live hm cfg b"
  "ep_out (redundancy hm cfg) b = (\<Union>s\<in>set (cfg_succ cfg b). path_live hm cfg s)"
  by (simp_all add: redundancy_def)

definition lives :: "(nat \<rightharpoonup> SEG list) \<Rightarrow> nat \<Rightarrow> nat set" where
  "lives v b = upd sbs_set v b"

text \<open>Three blocks in a row: \<open>d\<close> is written in the first with \<open>u\<close> read there, \<open>v\<close> read in the last.\<close>

definition row_cfg :: "nat \<Rightarrow> nat list \<Rightarrow> nat list \<Rightarrow> IRCFG" where
  "row_cfg d u v = \<lparr>cfg_bbs = [10, 20, 30], cfg_rpo = [10, 20, 30],
     cfg_succ = (\<lambda>b. if b = 10 then [20] else if b = 20 then [30] else []),
     cfg_pred = (\<lambda>b. if b = 20 then [10] else if b = 30 then [20] else []), cfg_entry = 10,
     cfg_irs = (\<lambda>b. if b = 10 then [\<lparr>stmt_writes = True, stmt_result = Some d, stmt_may = [],
                       stmt_exps = map (\<lambda>x. \<lparr>ref_prno = x, ref_may = []\<rparr>) u\<rparr>]
                  else if b = 30 then [\<lparr>stmt_writes = False, stmt_result = None, stmt_may = [],
                       stmt_exps = map (\<lambda>x. \<lparr>ref_prno = x, ref_may = []\<rparr>) v\<rparr>] else [])\<rparr>"

definition empty_lm :: "(SEG list, SegMgr) LivenessMgr" where
  "empty_lm = \<lparr>lm_def = Map.empty, lm_use = Map.empty, lm_livein = Map.empty, lm_liveout = Map.empty, lm_sbs = []\<rparr>"

lemma row_input: "\<forall>x\<in>insert d (set u \<union> set v). fits 16 x \<Longrightarrow> liveness_input 16 [0, 0, 0] 3 None [] (row_cfg d u v) empty_lm"
  by (auto simp: liveness_input_def sbs_inv_def lm_ok_def vec_ok_def empty_lm_def sm_wf_def cfg_wf_def row_cfg_def
      stmt_ok_def)

lemma row_sets:
  "exposed hm (cfg_irs (row_cfg d u v) 10) = set u" "exposed hm (cfg_irs (row_cfg d u v) 20) = {}"
  "exposed hm (cfg_irs (row_cfg d u v) 30) = set v"
  "block_defs hm (cfg_irs (row_cfg d u v) 10) = {d}" "block_defs hm (cfg_irs (row_cfg d u v) 20) = {}"
  "block_defs hm (cfg_irs (row_cfg d u v) 30) = {}"
  by (auto simp: row_cfg_def stmt_uses_def ref_uses_def stmt_defs_def block_defs_def split: if_splits)

lemma row_live:
  "path_live hm (row_cfg d u v) 30 = set v" "path_live hm (row_cfg d u v) 20 = set v"
  "path_live hm (row_cfg d u v) 10 = set u \<union> (set v - {d})"
proof -
  let ?c = "row_cfg d u v"
  have s: "cfg_succ ?c 10 = [20]" "cfg_succ ?c 20 = [30]" "cfg_succ ?c 30 = []" by (simp_all add: row_cfg_def)
  have i: "x \<in> path_live hm ?c b \<longleftrightarrow> x \<in> exposed hm (cfg_irs ?c b) \<or>
      (\<exists>s\<in>set (cfg_succ ?c b). x \<in> path_live hm ?c s \<and> x \<notin> block_defs hm (cfg_irs ?c b))" for x b
    unfolding path_live_def by (subst mem_Collect_eq, subst live_iff) auto
  show l2: "path_live hm ?c 30 = set v" using i [of _ 30] s(3) row_sets(3) by auto
  show l1: "path_live hm ?c 20 = set v" using i [of _ 20] s(2) row_sets(2,5) l2 by auto
  show "path_live hm ?c 10 = set u \<union> (set v - {d})" using i [of _ 10] s(1) row_sets(1,4) l1 by auto
qed

lemma row_few: "length (u @ v) < 300 \<Longrightarrow> few_changes hm (row_cfg d u v)"
proof -
  assume l: "length (u @ v) < 300"
  have "(\<Union>b\<in>set (cfg_bbs (row_cfg d u v)). exposed hm (cfg_irs (row_cfg d u v) b)) = set (u @ v)"
    using row_sets(1-3) [of hm d u v] by (simp add: row_cfg_def)
  moreover have "card (set (cfg_bbs (row_cfg d u v))) = 3" by (simp add: row_cfg_def)
  moreover have "card (set (u @ v)) < 300" using card_length [of "u @ v"] l by simp
  ultimately show ?thesis by (simp add: few_changes_def thres_def)
qed

lemma row_graph: "cfg_bbs (row_cfg d u v) = [10, 20, 30]" "cfg_entry (row_cfg d u v) = 10"
  "cfg_succ (row_cfg d u v) 10 = [20]"
  by (simp_all add: row_cfg_def)

lemma row_reached: "reached (row_cfg d u v) - {cfg_entry (row_cfg d u v)} = {20, 30}"
proof -
  let ?T = "{(a, b). b \<in> set (cfg_succ (row_cfg d u v) a)}"
  have "w \<in> {10, 20, 30}" if "(10, w) \<in> ?T\<^sup>*" for w
    using that by induction (auto simp: row_cfg_def split: if_splits)
  moreover have "(10, 20) \<in> ?T" "(20, 30) \<in> ?T" by (simp_all add: row_cfg_def)
  then have "(10, 20) \<in> ?T\<^sup>*" "(10, 30) \<in> ?T\<^sup>*" by (blast intro: rtrancl_trans)+
  ultimately show ?thesis by (auto simp: reached_def row_graph)
qed

lemma sbs_new: "op_new (sbs_ops B past) = []"
  by (simp add: sbs_ops_def)

section \<open>Properties\<close>

text \<open>
  C21: the backward walk over the statements of a block leaves in \<open>use\<close> exactly the PRs read by a
  statement and not defined by an earlier one, and in \<open>def\<close> the PRs the block defines, whatever the
  sets held before. A may-definition counts as a definition when may-references are handled.
\<close>

theorem liveness_local_sets:
  assumes "liveness_input B past fuel params auxp cfg lm" and "b \<in> set (cfg_bbs cfg)"
  shows "lives (lm_use (computeLocalAll (sbs_ops B past) hm cfg lm)) b = exposed hm (cfg_irs cfg b) \<and>
    lives (lm_def (computeLocalAll (sbs_ops B past) hm cfg lm)) b = block_defs hm (cfg_irs cfg b)"
  using live_sbs.computeLocalAll_ok [of B past lm cfg hm] assms
  by (simp add: liveness_input_def lives_def sbs_ops_def)

lemma liveness_local_sets_witness:
  "lives (lm_use (computeLocalAll (sbs_ops 16 [0, 0, 0]) True (row_cfg 5 [5, 17] [6]) empty_lm)) 10 = {5, 17}"
proof -
  have "liveness_input 16 [0, 0, 0] 3 None [] (row_cfg 5 [5, 17] [6]) empty_lm"
    by (rule row_input) (simp add: fits_def BS_UNDEF_def)
  moreover have "10 \<in> set (cfg_bbs (row_cfg 5 [5, 17] [6]))" by (simp add: row_graph)
  ultimately have "lives (lm_use (computeLocalAll (sbs_ops 16 [0, 0, 0]) True (row_cfg 5 [5, 17] [6]) empty_lm)) 10 =
      exposed True (cfg_irs (row_cfg 5 [5, 17] [6]) 10)" using liveness_local_sets by blast
  then show ?thesis by (simp only: row_sets) auto
qed

text \<open>
  C9: the fixpoint loop, stopped by its limit of 1000 passes or not, never reports a PR live that
  is not read on some path ahead of its definitions; if its last pass changed nothing, the live-in
  and live-out sets of every block are exactly path liveness; and it does end by convergence when
  the number of blocks times the number of upward-exposed PRs is below the limit.
\<close>

theorem liveness_fixpoint:
  assumes "liveness_input B past fuel params auxp cfg lm"
    and "solve (sbs_ops B past) cfg (initSet (sbs_ops B past) (cfg_bbs cfg)
           (computeLocalAll (sbs_ops B past) hm cfg lm)) = (lm', news, change)"
    and "b \<in> set (cfg_bbs cfg)"
  shows "lives (lm_livein lm') b \<subseteq> path_live hm cfg b \<and>
    (\<not> change \<longrightarrow> lives (lm_livein lm') b = path_live hm cfg b \<and>
      lives (lm_liveout lm') b = (\<Union>s\<in>set (cfg_succ cfg b). path_live hm cfg s)) \<and>
    (few_changes hm cfg \<longrightarrow> \<not> change)"
proof (intro conjI impI)
  have a: "sbs_inv B past (op_new (sbs_ops B past))" "lm_ok (sbs_inv B past) sm_wf lm"
    "\<forall>b\<in>set (cfg_bbs cfg). \<forall>s\<in>set (cfg_irs cfg b). stmt_ok (fits B) s"
    "set (cfg_rpo cfg) = set (cfg_bbs cfg)" "\<forall>b\<in>set (cfg_bbs cfg). set (cfg_succ cfg b) \<subseteq> set (cfg_bbs cfg)"
    using assms(1) by (auto simp: liveness_input_def sbs_ops_def cfg_wf_def)
  note so = live_sbs.solve_ok [OF a assms(2)]
  show "lives (lm_livein lm') b \<subseteq> path_live hm cfg b"
    using so(5) assms(3) by (auto simp: lives_def path_live_def)
  show "lives (lm_livein lm') b = path_live hm cfg b" if "\<not> change"
    using so(6) [OF that] assms(3) by (auto simp: lives_def path_live_def)
  show "lives (lm_liveout lm') b = (\<Union>s\<in>set (cfg_succ cfg b). path_live hm cfg s)" if "\<not> change"
    using so(6) [OF that] assms(3) by (auto simp: lives_def path_live_def)
  show "\<not> change" if "few_changes hm cfg" using so(7) that unfolding few_changes_def .
qed

lemma liveness_fixpoint_witness:
  "\<exists>lm' news. solve (sbs_ops 16 [0, 0, 0]) (row_cfg 5 [7] [5, 6]) (initSet (sbs_ops 16 [0, 0, 0]) [10, 20, 30]
     (computeLocalAll (sbs_ops 16 [0, 0, 0]) False (row_cfg 5 [7] [5, 6]) empty_lm)) = (lm', news, False) \<and>
   lives (lm_livein lm') 10 = {6, 7} \<and> lives (lm_livein lm') 20 = {5, 6}"
proof -
  let ?c = "row_cfg 5 [7] [5, 6]"
  have i: "liveness_input 16 [0, 0, 0] 3 None [] ?c empty_lm"
    by (rule row_input) (simp add: fits_def BS_UNDEF_def)
  note b = row_graph
  obtain lm' news ch where s: "solve (sbs_ops 16 [0, 0, 0]) ?c (initSet (sbs_ops 16 [0, 0, 0]) (cfg_bbs ?c)
     (computeLocalAll (sbs_ops 16 [0, 0, 0]) False ?c empty_lm)) = (lm', news, ch)"
    by (rule prod_cases3)
  have "few_changes False ?c" by (rule row_few) simp
  then have "\<not> ch" using liveness_fixpoint [OF i s, of 10] by (simp add: b)
  with s liveness_fixpoint [OF i s, of 10] liveness_fixpoint [OF i s, of 20] row_live [of False 5 "[7]" "[5, 6]"]
  show ?thesis by (intro exI [of _ lm'] exI [of _ news]) (auto simp: b)
qed

text \<open>
  C6: when the number of blocks times the number of upward-exposed PRs is below the limit of 1000 passes, and every PR live
  into the entry is read in the entry block, so that nothing is eliminated, the whole pass returns with its fixpoint reached,
  and the sets it leaves are exactly path liveness, for every block.
\<close>

theorem liveness_pass_exact:
  assumes "liveness_input B past fuel params auxp cfg lm" and "few_changes hm cfg"
    and "path_live hm cfg (cfg_entry cfg) \<subseteq> exposed hm (cfg_irs cfg (cfg_entry cfg))"
  shows "\<exists>lm'. perform (sbs_ops B past) hm fuel params auxp cfg lm = Some (lm', False) \<and>
    (\<forall>b\<in>set (cfg_bbs cfg). lives (lm_livein lm') b = path_live hm cfg b \<and>
       lives (lm_liveout lm') b = (\<Union>s\<in>set (cfg_succ cfg b). path_live hm cfg s))"
proof -
  have "live_sbs.liveness_pre B past hm fuel params auxp cfg lm"
    using assms(1) by (auto simp: liveness_input_def live_sbs.liveness_pre_def sbs_new)
  from live_sbs.perform_ok [OF this assms(2) [unfolded few_changes_def]] assms(3)
  show ?thesis by (auto simp: lives_def path_live_def)
qed

lemma liveness_pass_exact_witness:
  "\<exists>lm'. perform (sbs_ops 16 [0, 0, 0]) True 3 None [] (row_cfg 5 [7] [5]) empty_lm = Some (lm', False) \<and>
     lives (lm_livein lm') 10 = {7} \<and> lives (lm_livein lm') 30 = {5}"
proof -
  let ?c = "row_cfg 5 [7] [5]"
  have i: "liveness_input 16 [0, 0, 0] 3 None [] ?c empty_lm"
    by (rule row_input) (simp add: fits_def BS_UNDEF_def)
  note b = row_graph
  have "few_changes True ?c" by (rule row_few) simp
  moreover have "path_live True ?c (cfg_entry ?c) \<subseteq> exposed True (cfg_irs ?c (cfg_entry ?c))"
    using row_live(3) [of True 5 "[7]" "[5]"] row_sets(1) [of True 5 "[7]" "[5]"] by (simp add: b)
  ultimately obtain lm' where l: "perform (sbs_ops 16 [0, 0, 0]) True 3 None [] ?c empty_lm = Some (lm', False)"
    "\<forall>b\<in>set (cfg_bbs ?c). lives (lm_livein lm') b = path_live True ?c b \<and>
       lives (lm_liveout lm') b = (\<Union>s\<in>set (cfg_succ ?c b). path_live True ?c s)"
    using liveness_pass_exact [OF i, of True] by blast
  from l(2) have "lives (lm_livein lm') 10 = {7}" "lives (lm_livein lm') 30 = {5}"
    by (simp_all add: b row_live)
  with l(1) show ?thesis by blast
qed

text \<open>
  C20: on the same condition on the number of blocks and upward-exposed PRs, when some PR live into the entry is not read
  there, the redundant liveness is eliminated. The pass returns, converged; the entry keeps the live-in PRs it reads and
  the parameters, the live-out PRs it defines and the parameters. In every other block that the entry reaches, PRs not live
  into the entry stay as path liveness has them. A PR live into the entry stays live out only if a block other than the
  entry defines it and it is carried from there along predecessors whose exits it is live at, and stays live in only if
  it is read in the block or carried to a predecessor. All of these are kept when twice the number of blocks times the
  number of PRs live into the entry is below 99, for the rounds stop at 100. Unreachable blocks keep path liveness.
\<close>

theorem liveness_pass_eliminates:
  assumes "liveness_input B past fuel params auxp cfg lm" and "few_changes hm cfg"
    and "\<not> path_live hm cfg (cfg_entry cfg) \<subseteq> exposed hm (cfg_irs cfg (cfg_entry cfg))"
  shows "\<exists>lm'. perform (sbs_ops B past) hm fuel params auxp cfg lm = Some (lm', False) \<and>
    lives (lm_livein lm') (cfg_entry cfg) = path_live hm cfg (cfg_entry cfg) \<inter>
      (exposed hm (cfg_irs cfg (cfg_entry cfg)) \<union> (\<Union>p\<in>set_option params. sbs_set p)) \<and>
    lives (lm_liveout lm') (cfg_entry cfg) = (\<Union>s\<in>set (cfg_succ cfg (cfg_entry cfg)). path_live hm cfg s) \<inter>
      (block_defs hm (cfg_irs cfg (cfg_entry cfg)) \<union> (\<Union>p\<in>set_option params. sbs_set p)) \<and>
    (\<forall>b\<in>reached cfg - {cfg_entry cfg}.
       path_live hm cfg b - path_live hm cfg (cfg_entry cfg) \<subseteq> lives (lm_livein lm') b \<and>
       lives (lm_livein lm') b \<subseteq> kept_in (redundancy hm cfg) b \<and>
       (\<Union>s\<in>set (cfg_succ cfg b). path_live hm cfg s) - path_live hm cfg (cfg_entry cfg) \<subseteq> lives (lm_liveout lm') b \<and>
       lives (lm_liveout lm') b \<subseteq> kept_out (redundancy hm cfg) b \<and>
       (2 * card (reached cfg - {cfg_entry cfg}) * card (path_live hm cfg (cfg_entry cfg)) < 99 \<longrightarrow>
          lives (lm_livein lm') b = kept_in (redundancy hm cfg) b \<and> lives (lm_liveout lm') b = kept_out (redundancy hm cfg) b)) \<and>
    (\<forall>b\<in>set (cfg_bbs cfg) - reached cfg. lives (lm_livein lm') b = path_live hm cfg b \<and>
       lives (lm_liveout lm') b = (\<Union>s\<in>set (cfg_succ cfg b). path_live hm cfg s))"
proof -
  have "live_sbs.liveness_pre B past hm fuel params auxp cfg lm"
    using assms(1) by (auto simp: liveness_input_def live_sbs.liveness_pre_def sbs_new)
  note po = live_sbs.perform_ok [OF this assms(2) [unfolded few_changes_def]]
  have pl: "{x. live (cfg_succ cfg) (\<lambda>b. block_defs hm (cfg_irs cfg b)) (\<lambda>b. exposed hm (cfg_irs cfg b)) x b} = path_live hm cfg b" for b
    by (simp add: path_live_def)
  from po obtain lm' where l: "perform (sbs_ops B past) hm fuel params auxp cfg lm = Some (lm', False)"
    "upd sbs_set (lm_livein lm') (cfg_entry cfg) = path_live hm cfg (cfg_entry cfg) \<inter>
      (exposed hm (cfg_irs cfg (cfg_entry cfg)) \<union> (\<Union>p\<in>set_option params. sbs_set p))"
    "upd sbs_set (lm_liveout lm') (cfg_entry cfg) = (\<Union>s\<in>set (cfg_succ cfg (cfg_entry cfg)). path_live hm cfg s) \<inter>
      (block_defs hm (cfg_irs cfg (cfg_entry cfg)) \<union> (\<Union>p\<in>set_option params. sbs_set p))"
    "eliminated (redundancy hm cfg) 99 (upd sbs_set (lm_livein lm'), upd sbs_set (lm_liveout lm'))"
    "\<forall>b\<in>set (cfg_bbs cfg). b \<notin> reached cfg \<longrightarrow> upd sbs_set (lm_livein lm') b = path_live hm cfg b \<and>
      upd sbs_set (lm_liveout lm') b = (\<Union>s\<in>set (cfg_succ cfg b). path_live hm cfg s)"
    unfolding pl if_not_P [OF assms(3)] redundancy_def [symmetric] by (elim exE conjE) (rule that; assumption)
  show ?thesis
  proof (intro exI [of _ lm'] conjI ballI)
    fix b assume b: "b \<in> reached cfg - {cfg_entry cfg}"
    note e = l(4) [unfolded eliminated_def few_redundant_def, simplified redundancy_simps, rule_format, OF b, simplified]
    show "path_live hm cfg b - path_live hm cfg (cfg_entry cfg) \<subseteq> lives (lm_livein lm') b"
      "lives (lm_livein lm') b \<subseteq> kept_in (redundancy hm cfg) b"
      "(\<Union>s\<in>set (cfg_succ cfg b). path_live hm cfg s) - path_live hm cfg (cfg_entry cfg) \<subseteq> lives (lm_liveout lm') b"
      "lives (lm_liveout lm') b \<subseteq> kept_out (redundancy hm cfg) b"
      "2 * card (reached cfg - {cfg_entry cfg}) * card (path_live hm cfg (cfg_entry cfg)) < 99 \<longrightarrow>
          lives (lm_livein lm') b = kept_in (redundancy hm cfg) b \<and> lives (lm_liveout lm') b = kept_out (redundancy hm cfg) b"
      using e unfolding lives_def by blast+
  qed (use l in \<open>simp_all add: lives_def\<close>)
qed

lemma liveness_pass_eliminates_witness:
  "\<exists>lm'. perform (sbs_ops 16 [0, 0, 0]) True 3 None [] (row_cfg 7 [7] [7, 6]) empty_lm = Some (lm', False) \<and>
     lives (lm_livein lm') 10 = {7} \<and> lives (lm_liveout lm') 10 = {7} \<and>
     lives (lm_livein lm') 20 = {} \<and> path_live True (row_cfg 7 [7] [7, 6]) 20 = {6, 7} \<and> lives (lm_livein lm') 30 = {6, 7}"
proof -
  let ?c = "row_cfg 7 [7] [7, 6]"
  have i: "liveness_input 16 [0, 0, 0] 3 None [] ?c empty_lm"
    by (rule row_input) (simp add: fits_def BS_UNDEF_def)
  note b = row_graph
  note r = row_live [of True 7 "[7]" "[7, 6]"] row_sets [of True 7 "[7]" "[7, 6]"]
  have f: "few_changes True ?c" by (rule row_few) simp
  have n: "\<not> path_live True ?c (cfg_entry ?c) \<subseteq> exposed True (cfg_irs ?c (cfg_entry ?c))"
    using r by (simp add: b)
  from liveness_pass_eliminates [OF i f n] obtain lm' where l:
    "perform (sbs_ops 16 [0, 0, 0]) True 3 None [] ?c empty_lm = Some (lm', False)"
    "lives (lm_livein lm') (cfg_entry ?c) = path_live True ?c (cfg_entry ?c) \<inter>
      (exposed True (cfg_irs ?c (cfg_entry ?c)) \<union> (\<Union>p\<in>set_option None. sbs_set p))"
    "lives (lm_liveout lm') (cfg_entry ?c) = (\<Union>s\<in>set (cfg_succ ?c (cfg_entry ?c)). path_live True ?c s) \<inter>
      (block_defs True (cfg_irs ?c (cfg_entry ?c)) \<union> (\<Union>p\<in>set_option None. sbs_set p))"
    and h: "\<forall>b\<in>reached ?c - {cfg_entry ?c}.
       path_live True ?c b - path_live True ?c (cfg_entry ?c) \<subseteq> lives (lm_livein lm') b \<and>
       lives (lm_livein lm') b \<subseteq> kept_in (redundancy True ?c) b \<and>
       (\<Union>s\<in>set (cfg_succ ?c b). path_live True ?c s) - path_live True ?c (cfg_entry ?c) \<subseteq> lives (lm_liveout lm') b \<and>
       lives (lm_liveout lm') b \<subseteq> kept_out (redundancy True ?c) b \<and>
       (2 * card (reached ?c - {cfg_entry ?c}) * card (path_live True ?c (cfg_entry ?c)) < 99 \<longrightarrow>
          lives (lm_livein lm') b = kept_in (redundancy True ?c) b \<and> lives (lm_liveout lm') b = kept_out (redundancy True ?c) b)"
    by (elim exE conjE) (rule that; assumption)
  have re: "reached ?c - {cfg_entry ?c} = {20, 30}" by (rule row_reached)
  have k: "\<not> kept (redundancy True ?c) p v" for p v
  proof
    assume "kept (redundancy True ?c) p v"
    then show False by induction (use r in \<open>auto simp: redundancy_simps re\<close>)
  qed
  have e: "lives (lm_livein lm') v = kept_in (redundancy True ?c) v" if "v \<in> {20, 30}" for v
    using bspec [OF h [unfolded re] that] by (simp add: r b)
  have "lives (lm_livein lm') 20 = {}" "lives (lm_livein lm') 30 = {6, 7}"
    unfolding e [of 20, simplified] e [of 30, simplified] kept_in_def redundancy_simps b using k r by auto
  with l(1-3) r show ?thesis by (auto simp: b)
qed

end
