(* ===== verification/LifeRange.thy ===== *)
theory LifeRange
  imports Vector
begin

text \<open>
  Ranges of program positions, on which register allocation works: class \<open>Range\<close> of \<^verbatim>\<open>src/opt/range.h\<close>, the
  position counter of \<^verbatim>\<open>src/opt/update_pos.h\<close>, the binary search of \<^verbatim>\<open>src/com/search.h\<close> and the operations of
  \<open>LifeTime\<close> (\<^verbatim>\<open>src/opt/lifetime.cpp\<close>) on its vector of ranges. The vector is the list of its elements; a read behind
  the last one yields the zero range, which is what the cleared part of the buffer holds.
\<close>

section \<open>Positions\<close>

definition POS_UNDEF :: nat where "POS_UNDEF = 0"
definition POS_INIT_VAL :: nat where "POS_INIT_VAL = 1"

record UpdatePos =
  m_use_expose :: bool
  m_pos :: nat

definition up_init :: UpdatePos where
  "up_init = \<lparr>m_use_expose = True, m_pos = POS_INIT_VAL\<rparr>"

text \<open>\<open>update\<close> yields the definition and the use position.\<close>

definition up_update :: "UpdatePos \<Rightarrow> nat \<times> nat \<times> UpdatePos" where
  "up_update up =
     (let usepos = m_pos up; p = u32 (m_pos up + 1); defpos = p; p = u32 (p + 1)
      in (defpos, usepos, up\<lparr>m_pos := p\<rparr>))"

definition updateAtRegionEntry :: "UpdatePos \<Rightarrow> nat \<times> nat \<times> UpdatePos" where
  "updateAtRegionEntry up = up_update up"

definition updateAtRegionExit :: "UpdatePos \<Rightarrow> nat \<times> nat \<times> UpdatePos" where
  "updateAtRegionExit up = up_update up"

definition updateAtBBEntry :: "UpdatePos \<Rightarrow> (nat \<times> nat \<times> UpdatePos) option" where
  "updateAtBBEntry up = (if m_use_expose up then Some (up_update up) else None)"

definition updateAtBBExit :: "UpdatePos \<Rightarrow> (nat \<times> nat \<times> UpdatePos) option" where
  "updateAtBBExit up = (if m_use_expose up then Some (up_update up) else None)"

definition updateAtIR :: "bool \<Rightarrow> UpdatePos \<Rightarrow> (nat \<times> nat \<times> UpdatePos) option" where
  "updateAtIR is_op_in_pos_gap up = (if is_op_in_pos_gap then None else Some (up_update up))"

definition isDef :: "nat \<Rightarrow> bool" where "isDef pos \<longleftrightarrow> pos \<noteq> POS_UNDEF \<and> pos AND 1 = 0"
definition isUse :: "nat \<Rightarrow> bool" where "isUse pos \<longleftrightarrow> pos \<noteq> POS_UNDEF \<and> pos AND 1 = 1"

definition up_dec :: "nat \<Rightarrow> nat" where "up_dec pos = u32_sub pos 1"
definition up_inc :: "nat \<Rightarrow> nat" where "up_inc pos = u32 (pos + 1)"
definition decToLastUse :: "nat \<Rightarrow> nat" where "decToLastUse pos = (if isDef pos then up_dec pos else pos)"
definition incToNextDef :: "nat \<Rightarrow> nat" where "incToNextDef pos = (if isUse pos then up_inc pos else pos)"
definition decToLastDef :: "nat \<Rightarrow> nat" where
  "decToLastDef pos = (if isDef pos then up_dec (up_dec pos) else up_dec pos)"

section \<open>Ranges\<close>

record Range =
  m_start :: nat
  m_end :: nat

definition range_at :: "nat \<Rightarrow> Range" where "range_at p = \<lparr>m_start = p, m_end = p\<rparr>"

definition range_is_less :: "Range \<Rightarrow> Range \<Rightarrow> bool" where "range_is_less r src \<longleftrightarrow> m_end r < m_start src"
definition range_is_great :: "Range \<Rightarrow> Range \<Rightarrow> bool" where "range_is_great r src \<longleftrightarrow> m_start r > m_end src"
definition range_is_contain :: "Range \<Rightarrow> nat \<Rightarrow> bool" where
  "range_is_contain r pos \<longleftrightarrow> m_start r \<le> pos \<and> m_end r \<ge> pos"

definition range_is_intersect :: "Range \<Rightarrow> Range \<Rightarrow> bool" where
  "range_is_intersect r src \<longleftrightarrow>
     m_end src \<ge> m_end r \<and> m_start src \<le> m_end r \<or> m_end src \<le> m_end r \<and> m_end src \<ge> m_start r"

section \<open>Binary search\<close>

function search_loop ::
  "('a \<Rightarrow> 'a \<Rightarrow> bool) \<Rightarrow> ('a \<Rightarrow> 'a \<Rightarrow> bool) \<Rightarrow> 'a list \<Rightarrow> 'a \<Rightarrow> int \<Rightarrow> int \<Rightarrow> int \<Rightarrow> int \<Rightarrow> int option \<times> int \<times> int" where
  "search_loop is_less is_great data val lo hi posless posgreat =
     (if lo \<le> hi
      then let pos = lo + (hi - lo) div 2
           in if is_less val (data ! nat pos)
              then search_loop is_less is_great data val lo (pos - 1) (pos - 1) pos
              else if is_great val (data ! nat pos)
              then search_loop is_less is_great data val (pos + 1) hi pos (pos + 1)
              else (Some pos, posless, posgreat)
      else (None, posless, posgreat))"
  by pat_completeness auto
termination
  by (relation "measure (\<lambda>(ls, gr, d, v, lo, hi, pl, pg). nat (hi - lo + 1))") auto

declare search_loop.simps [simp del]

text \<open>
  The position of a match, or without one the nearest positions below and above, -1 standing for \<open>VEC_UNDEF\<close>; with a
  match or on an empty vector the latter two are not written.
\<close>

definition binary_search ::
  "('a \<Rightarrow> 'a \<Rightarrow> bool) \<Rightarrow> ('a \<Rightarrow> 'a \<Rightarrow> bool) \<Rightarrow> 'a list \<Rightarrow> 'a \<Rightarrow> nat option \<times> (int \<times> int) option" where
  "binary_search is_less is_great data val =
     (let n = int (length data)
      in if n = 0 then (None, None)
         else case search_loop is_less is_great data val 0 (n - 1) (- 1) (- 1) of
                (Some pos, _, _) \<Rightarrow> (Some (nat pos), None)
              | (None, posless, posgreat) \<Rightarrow> (None, Some (posless, if posgreat \<ge> n then - 1 else posgreat)))"

text \<open>The contract of a comparison: along ordered data, being less carries to the right and being greater to the left.\<close>

locale search_order =
  fixes is_less is_great :: "'a \<Rightarrow> 'a \<Rightarrow> bool" and ordered :: "'a list \<Rightarrow> bool"
  assumes less_up: "ordered data \<Longrightarrow> i \<le> j \<Longrightarrow> j < length data \<Longrightarrow> is_less v (data ! i) \<Longrightarrow> is_less v (data ! j)"
    and great_down: "ordered data \<Longrightarrow> i \<le> j \<Longrightarrow> j < length data \<Longrightarrow> is_great v (data ! j) \<Longrightarrow> is_great v (data ! i)"
begin

lemma search_loop_correct:
  assumes "ordered data" "0 \<le> lo" "hi < int (length data)" "lo \<le> hi + 1"
    "\<forall>i < nat lo. is_great v (data ! i)" "\<forall>i. nat (hi + 1) \<le> i \<longrightarrow> i < length data \<longrightarrow> is_less v (data ! i)"
    "lo = hi + 1 \<longrightarrow> posless = hi \<and> posgreat = lo"
  shows "case search_loop is_less is_great data v lo hi posless posgreat of
      (Some p, _, _) \<Rightarrow> 0 \<le> p \<and> p < int (length data) \<and> \<not> is_less v (data ! nat p) \<and> \<not> is_great v (data ! nat p)
    | (None, l, g) \<Rightarrow> - 1 \<le> l \<and> g = l + 1 \<and> g \<le> int (length data) \<and> (\<forall>i < nat g. is_great v (data ! i)) \<and>
        (\<forall>i. nat g \<le> i \<longrightarrow> i < length data \<longrightarrow> is_less v (data ! i))"
  using assms
proof (induction "nat (hi - lo + 1)" arbitrary: lo hi posless posgreat rule: less_induct)
  case less
  note prems = less.prems
  show ?case
  proof (cases "lo \<le> hi")
    case False
    then show ?thesis using prems by (simp add: search_loop.simps)
  next
    case True
    define pos where "pos = lo + (hi - lo) div 2"
    have p: "lo \<le> pos" "pos \<le> hi" "0 \<le> pos" "nat pos < length data" using True prems(2,3) by (auto simp: pos_def)
    consider "is_less v (data ! nat pos)" | "\<not> is_less v (data ! nat pos)" "is_great v (data ! nat pos)"
      | "\<not> is_less v (data ! nat pos)" "\<not> is_great v (data ! nat pos)" by blast
    then show ?thesis
    proof cases
      case 1
      have l: "\<forall>i. nat (pos - 1 + 1) \<le> i \<longrightarrow> i < length data \<longrightarrow> is_less v (data ! i)"
        using less_up [OF prems(1) _ _ 1] by simp
      have "search_loop is_less is_great data v lo hi posless posgreat =
          search_loop is_less is_great data v lo (pos - 1) (pos - 1) pos"
        using True 1 by (simp add: search_loop.simps [of is_less is_great data v lo hi] Let_def pos_def [symmetric])
      moreover have "nat (pos - 1 - lo + 1) < nat (hi - lo + 1)" "pos - 1 < int (length data)" "lo \<le> pos - 1 + 1"
        using p prems(3) True by linarith+
      ultimately show ?thesis using less.hyps [of "pos - 1" lo "pos - 1" pos] prems(1,2,5) l by simp
    next
      case 2
      have g: "\<forall>i < nat (pos + 1). is_great v (data ! i)"
        using great_down [OF prems(1) _ p(4) 2(2)] p(3) by (auto simp: nat_add_distrib less_Suc_eq_le)
      have "search_loop is_less is_great data v lo hi posless posgreat =
          search_loop is_less is_great data v (pos + 1) hi pos (pos + 1)"
        using True 2 by (simp add: search_loop.simps [of is_less is_great data v lo hi] Let_def pos_def [symmetric])
      moreover have "nat (hi - (pos + 1) + 1) < nat (hi - lo + 1)" "0 \<le> pos + 1" "pos + 1 \<le> hi + 1"
        using p True by linarith+
      ultimately show ?thesis using less.hyps [of hi "pos + 1" pos "pos + 1"] prems(1,3,6) g by simp
    next
      case 3
      then have "search_loop is_less is_great data v lo hi posless posgreat = (Some pos, posless, posgreat)"
        using True by (simp add: search_loop.simps [of is_less is_great data v lo hi] Let_def pos_def [symmetric])
      then show ?thesis using 3 p by simp
    qed
  qed
qed

lemma binary_search_correct:
  assumes "ordered data"
  shows "case binary_search is_less is_great data v of
      (Some p, near) \<Rightarrow> p < length data \<and> \<not> is_less v (data ! p) \<and> \<not> is_great v (data ! p)
    | (None, None) \<Rightarrow> data = []
    | (None, Some (l, g)) \<Rightarrow> \<exists>k \<le> length data. data \<noteq> [] \<and> l = int k - 1 \<and> g = (if k < length data then int k else - 1) \<and>
        (\<forall>i < k. is_great v (data ! i)) \<and> (\<forall>i. k \<le> i \<longrightarrow> i < length data \<longrightarrow> is_less v (data ! i))"
proof (cases "data = []")
  case False
  then have ne: "length data \<noteq> 0" by simp
  let ?n = "int (length data)"
  obtain r l g where s: "search_loop is_less is_great data v 0 (?n - 1) (- 1) (- 1) = (r, l, g)" by (metis prod_cases3)
  note c = search_loop_correct [OF assms, of 0 "?n - 1" v "- 1" "- 1", unfolded s]
  show ?thesis
  proof (cases r)
    case (Some p)
    then show ?thesis using c ne False by (auto simp: binary_search_def Let_def s)
  next
    case None
    have "l = int (nat g) - 1" "nat g \<le> length data" "0 \<le> g" using c ne None by auto
    moreover have "binary_search is_less is_great data v = (None, Some (l, if g \<ge> ?n then - 1 else g))"
      using False None by (simp add: binary_search_def Let_def s)
    ultimately show ?thesis using c ne None False by (auto intro!: exI [of _ "nat g"])
  qed
qed (simp add: binary_search_def)

end

text \<open>The base class compares by the order of the elements.\<close>

interpretation base_search: search_order "\<lambda>t1 t2 :: 'a::linorder. t1 < t2" "\<lambda>t1 t2. t1 > t2" sorted
  by unfold_locales (auto simp: sorted_iff_nth_mono intro: less_le_trans le_less_trans)

section \<open>Vectors of ranges\<close>

text \<open>\<open>verifyRangeVec\<close>: positions are not \<open>POS_UNDEF\<close>, and each range ends before the next one starts.\<close>

fun verify_from :: "Range \<Rightarrow> Range list \<Rightarrow> bool" where
  "verify_from prev [] \<longleftrightarrow> True"
| "verify_from prev (r # rv) \<longleftrightarrow> m_start r \<le> m_end r \<and> m_start r > m_end prev \<and> verify_from r rv"

definition verifyRangeVec :: "Range list \<Rightarrow> bool" where
  "verifyRangeVec rv = verify_from (range_at POS_UNDEF) rv"

definition rv_pos :: "Range list \<Rightarrow> nat set" where
  "rv_pos rv = (\<Union>r\<in>set rv. {m_start r..m_end r})"

definition rv_get :: "Range list \<Rightarrow> nat \<Rightarrow> Range" where
  "rv_get rv i = (if i < length rv then rv ! i else range_at 0)"

definition getLastRange :: "Range list \<Rightarrow> Range" where
  "getLastRange rv = (if rv = [] then range_at POS_UNDEF else last rv)"

definition setLastRange :: "Range list \<Rightarrow> Range \<Rightarrow> Range list" where
  "setLastRange rv r = (if rv = [] then rv @ [r] else rv[length rv - 1 := r])"

definition addRange :: "Range list \<Rightarrow> nat \<Rightarrow> nat \<Rightarrow> Range list" where
  "addRange rv start_pos end_pos = rv @ [\<lparr>m_start = start_pos, m_end = end_pos\<rparr>]"

definition removeRangeFrom :: "Range list \<Rightarrow> nat \<Rightarrow> Range list" where
  "removeRangeFrom rv idx = take idx rv"

text \<open>\<open>RangeCompare\<close> and the search for the range that holds a position.\<close>

definition range_search :: "Range list \<Rightarrow> nat \<Rightarrow> nat option \<times> (int \<times> int) option" where
  "range_search rv pos = binary_search range_is_less range_is_great rv (range_at pos)"

definition findRange :: "Range list \<Rightarrow> nat \<Rightarrow> nat option" where
  "findRange rv pos = fst (range_search rv pos)"

definition lt_is_contain :: "Range list \<Rightarrow> nat \<Rightarrow> bool" where
  "lt_is_contain rv pos \<longleftrightarrow> fst (range_search rv pos) \<noteq> None"

definition lt_is_cover :: "Range list \<Rightarrow> nat \<Rightarrow> bool" where
  "lt_is_cover rv pos =
     (if pos < m_start (rv_get rv 0) then False else if pos > m_end (getLastRange rv) then False else True)"

text \<open>\<open>None\<close> is the use of the index that the search in an empty vector leaves unset.\<close>

definition cleanRangeFrom :: "Range list \<Rightarrow> nat \<Rightarrow> Range list option" where
  "cleanRangeFrom rv pos =
     (case range_search rv pos of
        (Some i, _) \<Rightarrow>
          (let r = rv ! i
           in if m_start r = pos then Some (if i < length rv then removeRangeFrom rv i else rv)
              else let rv = rv[i := \<lparr>m_start = m_start r, m_end = up_dec pos\<rparr>]
                   in Some (if i + 1 < length rv then removeRangeFrom rv (i + 1) else rv))
      | (None, Some (near_less, near_great)) \<Rightarrow>
          if near_great = - 1 then Some rv
          else Some (if nat near_great < length rv then removeRangeFrom rv (nat near_great) else rv)
      | (None, None) \<Rightarrow> None)"

text \<open>The ranges from a position on move behind those of the first vector; \<open>None\<close> is the failed assertion that there is one.\<close>

definition moveRangeVecFrom :: "Range list \<Rightarrow> Range list \<Rightarrow> nat \<Rightarrow> (Range list \<times> Range list) option" where
  "moveRangeVecFrom cur src pos =
     (case findRange src pos of
        None \<Rightarrow> None
      | Some i \<Rightarrow>
          (let srcr = src ! i;
               cur = addRange cur pos (m_end srcr);
               (src, src_remove_start) =
                 (if m_start srcr = pos then (src, i)
                  else (src[i := \<lparr>m_start = m_start srcr, m_end = up_dec pos\<rparr>], i + 1));
               cur = foldl (\<lambda>cur r. addRange cur (m_start r) (m_end r)) cur (drop (i + 1) src);
               src = (if src_remove_start < length src then removeRangeFrom src src_remove_start else src)
           in Some (cur, src)))"

text \<open>The walk over two vectors; the variables that hold the current ranges are the elements at the two indices.\<close>

lemma find_not_less:
  assumes "List.find (\<lambda>i. \<not> range_is_less (rv_get rv1 i) (rv_get rv2 j)) [i..<length rv1] = Some k"
    "m_start (rv_get rv1 i) \<le> m_start (rv_get rv2 j)" "\<not> range_is_intersect (rv_get rv1 k) (rv_get rv2 j)"
  shows "i \<le> k" "k < length rv1" "j < length rv2" "range_is_great (rv_get rv1 k) (rv_get rv2 j)"
    "\<And>a. i \<le> a \<Longrightarrow> a < k \<Longrightarrow> range_is_less (rv_get rv1 a) (rv_get rv2 j)"
proof -
  have f: "i \<le> k" "k < length rv1" "\<not> range_is_less (rv_get rv1 k) (rv_get rv2 j)"
    "\<And>a. i \<le> a \<Longrightarrow> a < k \<Longrightarrow> range_is_less (rv_get rv1 a) (rv_get rv2 j)"
    using find_upt_Some [OF assms(1)] by auto
  then show "i \<le> k" "k < length rv1" "\<And>a. i \<le> a \<Longrightarrow> a < k \<Longrightarrow> range_is_less (rv_get rv1 a) (rv_get rv2 j)" by blast+
  show g: "range_is_great (rv_get rv1 k) (rv_get rv2 j)"
    using f(3) assms(3) by (auto simp: range_is_less_def range_is_great_def range_is_intersect_def)
  show "j < length rv2"
  proof (rule ccontr)
    assume "\<not> j < length rv2"
    then have z: "rv_get rv2 j = range_at 0" by (simp add: rv_get_def)
    then have "k = i"
      using f(1) f(4) [of i] by (cases "i = k") (auto simp: range_is_less_def range_at_def)
    then show False using assms(2) g z by (simp add: range_is_great_def range_at_def)
  qed
qed

text \<open>The swap at the head of the loop: the first vector is the one whose current range starts first.\<close>

definition lt_order :: "Range list \<Rightarrow> Range list \<Rightarrow> nat \<Rightarrow> nat \<Rightarrow> Range list \<times> Range list \<times> nat \<times> nat" where
  "lt_order rv1 rv2 i j =
     (if m_start (rv_get rv1 i) > m_start (rv_get rv2 j) then (rv2, rv1, j, i) else (rv1, rv2, i, j))"

lemma lt_order_cases:
  "lt_order rv1 rv2 i j = (a, b, k, l) \<Longrightarrow>
   m_start (rv_get a k) \<le> m_start (rv_get b l) \<and> ((a, b, k, l) = (rv1, rv2, i, j) \<or> (a, b, k, l) = (rv2, rv1, j, i))"
  by (auto simp: lt_order_def split: if_splits)

function intersect_loop :: "Range list \<Rightarrow> Range list \<Rightarrow> nat \<Rightarrow> nat \<Rightarrow> bool" where
  "intersect_loop rv1 rv2 i j =
     (case lt_order rv1 rv2 i j of
        (rv1, rv2, i, j) \<Rightarrow>
          (case List.find (\<lambda>i. \<not> range_is_less (rv_get rv1 i) (rv_get rv2 j)) [i..<length rv1] of
             None \<Rightarrow> False
           | Some i \<Rightarrow>
               if range_is_intersect (rv_get rv1 i) (rv_get rv2 j) then True else intersect_loop rv1 rv2 i (j + 1)))"
  by pat_completeness auto
termination
proof (relation "measure (\<lambda>(rv1, rv2, i, j). length rv1 - i + (length rv2 - j))", goal_cases)
  case (2 rv1 rv2 i j a y b z k l m)
  then have o: "lt_order rv1 rv2 i j = (a, b, k, l)" by simp
  from lt_order_cases [OF o] have s: "m_start (rv_get a k) \<le> m_start (rv_get b l)" by simp
  from find_not_less [OF 2(4) s 2(5)] have "k \<le> m" "m < length a" "l < length b" by auto
  then show ?case using lt_order_cases [OF o] by auto
qed simp

declare intersect_loop.simps [simp del]

definition lt_is_intersect :: "Range list \<Rightarrow> Range list \<Rightarrow> bool" where
  "lt_is_intersect rv1 rv2 = intersect_loop rv1 rv2 0 0"

section \<open>What the operations do\<close>

definition range_ok :: "Range \<Rightarrow> bool" where
  "range_ok r \<longleftrightarrow> 0 < m_start r \<and> m_start r \<le> m_end r"

definition rv_ok :: "Range list \<Rightarrow> bool" where
  "rv_ok rv \<longleftrightarrow> (\<forall>r\<in>set rv. range_ok r) \<and> sorted_wrt range_is_less rv"

lemma verify_from_iff:
  "verify_from prev rv \<longleftrightarrow> (\<forall>r\<in>set rv. m_start r \<le> m_end r \<and> m_end prev < m_start r) \<and> sorted_wrt range_is_less rv"
proof (induction rv arbitrary: prev)
  case (Cons r rv)
  show ?case
    by (auto simp: Cons range_is_less_def intro: less_le_trans le_less_trans)
qed simp

lemma verifyRangeVec_iff: "verifyRangeVec rv \<longleftrightarrow> rv_ok rv"
  by (auto simp: verifyRangeVec_def verify_from_iff rv_ok_def range_ok_def range_at_def POS_UNDEF_def)

lemma rv_ok_Nil [simp]: "rv_ok []" by (simp add: rv_ok_def)

lemma rv_pos_simps [simp]: "rv_pos [] = {}" "rv_pos (r # rv) = {m_start r..m_end r} \<union> rv_pos rv"
  "rv_pos (rv @ rv') = rv_pos rv \<union> rv_pos rv'"
  by (auto simp: rv_pos_def)

lemma rv_ok_append:
  "rv_ok (rv @ rv') \<longleftrightarrow> rv_ok rv \<and> rv_ok rv' \<and> (\<forall>r\<in>set rv. \<forall>s\<in>set rv'. range_is_less r s)"
  by (auto simp: rv_ok_def sorted_wrt_append)

lemma rv_ok_nth: "rv_ok rv \<Longrightarrow> i < j \<Longrightarrow> j < length rv \<Longrightarrow> m_end (rv ! i) < m_start (rv ! j)"
  by (simp add: rv_ok_def sorted_wrt_iff_nth_less range_is_less_def)

lemma rv_ok_range: "rv_ok rv \<Longrightarrow> i < length rv \<Longrightarrow> 0 < m_start (rv ! i) \<and> m_start (rv ! i) \<le> m_end (rv ! i)"
  by (simp add: rv_ok_def range_ok_def)

lemma rv_ok_mono: "rv_ok rv \<Longrightarrow> i \<le> j \<Longrightarrow> j < length rv \<Longrightarrow> m_start (rv ! i) \<le> m_start (rv ! j) \<and> m_end (rv ! i) \<le> m_end (rv ! j)"
  using rv_ok_nth [of rv i j] rv_ok_range [of rv i] rv_ok_range [of rv j] by (cases "i = j") auto

lemma in_rv_pos: "p \<in> rv_pos rv \<longleftrightarrow> (\<exists>i < length rv. m_start (rv ! i) \<le> p \<and> p \<le> m_end (rv ! i))"
  unfolding rv_pos_def by (force simp: in_set_conv_nth)

interpretation rv_search: search_order range_is_less range_is_great rv_ok
proof
  fix data i j v
  assume d: "rv_ok data" and ij: "i \<le> j" "j < length data"
  note m = rv_ok_mono [OF d ij]
  show "range_is_less v (data ! i) \<Longrightarrow> range_is_less v (data ! j)" using m by (auto simp: range_is_less_def)
  show "range_is_great v (data ! j) \<Longrightarrow> range_is_great v (data ! i)" using m by (auto simp: range_is_great_def)
qed

text \<open>The search in a verified vector, as cases on where the position falls.\<close>

lemma range_search_cases:
  assumes "rv_ok rv"
  obtains (found) i near where "range_search rv pos = (Some i, near)" "i < length rv" "m_start (rv ! i) \<le> pos" "pos \<le> m_end (rv ! i)"
    | (empty) "range_search rv pos = (None, None)" "rv = []"
    | (gap) k where "range_search rv pos = (None, Some (int k - 1, if k < length rv then int k else - 1))" "k \<le> length rv" "rv \<noteq> []"
        "\<forall>i<k. m_end (rv ! i) < pos" "\<forall>i. k \<le> i \<longrightarrow> i < length rv \<longrightarrow> pos < m_start (rv ! i)"
proof -
  note c = rv_search.binary_search_correct [OF assms, of "range_at pos"]
  obtain f n where s: "range_search rv pos = (f, n)" by force
  show thesis
  proof (cases f)
    case (Some i)
    then show thesis using c s found [of i n]
      by (auto simp: range_search_def range_is_less_def range_is_great_def range_at_def)
  next
    case None
    show thesis
    proof (cases n)
      case None
      then show thesis using c s \<open>f = None\<close> empty by (auto simp: range_search_def)
    next
      case (Some lg)
      then show thesis using c s \<open>f = None\<close> gap
        by (cases lg) (auto simp: range_search_def range_is_less_def range_is_great_def range_at_def)
    qed
  qed
qed

lemma lt_is_contain_correct: "rv_ok rv \<Longrightarrow> lt_is_contain rv pos \<longleftrightarrow> pos \<in> rv_pos rv"
proof (erule range_search_cases [where pos = pos])
  fix k
  assume "range_search rv pos = (None, Some (int k - 1, if k < length rv then int k else - 1))"
    "\<forall>i<k. m_end (rv ! i) < pos" "\<forall>i. k \<le> i \<longrightarrow> i < length rv \<longrightarrow> pos < m_start (rv ! i)"
  then show ?thesis unfolding lt_is_contain_def in_rv_pos by (metis fst_conv leD not_le)
qed (auto simp: lt_is_contain_def in_rv_pos)

lemma findRange_correct:
  assumes "rv_ok rv"
  shows "case findRange rv pos of
      Some i \<Rightarrow> i < length rv \<and> range_is_contain (rv ! i) pos \<and> (\<forall>j < length rv. range_is_contain (rv ! j) pos \<longrightarrow> j = i)
    | None \<Rightarrow> pos \<notin> rv_pos rv"
proof (cases "findRange rv pos")
  case None
  then have "\<not> lt_is_contain rv pos" by (simp add: findRange_def lt_is_contain_def)
  then show ?thesis using None lt_is_contain_correct [OF assms] by simp
next
  case (Some i)
  have "i < length rv \<and> range_is_contain (rv ! i) pos"
    by (rule range_search_cases [OF assms, of pos]) (use Some in \<open>auto simp: findRange_def range_is_contain_def\<close>)
  then have i: "i < length rv" "range_is_contain (rv ! i) pos" by simp_all
  have "j = i" if "j < length rv" "range_is_contain (rv ! j) pos" for j
  proof (rule ccontr)
    assume "j \<noteq> i"
    then consider "i < j" | "j < i" by linarith
    then show False
    proof cases
      case 1
      then show False using rv_ok_nth [OF assms 1] i that by (simp add: range_is_contain_def)
    next
      case 2
      then show False using rv_ok_nth [OF assms 2] i that by (simp add: range_is_contain_def)
    qed
  qed
  then have "\<forall>j < length rv. range_is_contain (rv ! j) pos \<longrightarrow> j = i" by blast
  then show ?thesis unfolding Some option.case using i by blast
qed

lemma rv_ok_take: "rv_ok rv \<Longrightarrow> rv_ok (take n rv)"
  by (metis append_take_drop_id rv_ok_append)

lemma rv_ok_drop: "rv_ok rv \<Longrightarrow> rv_ok (drop n rv)"
  by (metis append_take_drop_id rv_ok_append)

text \<open>The vector in front of and behind a range, by positions.\<close>

lemma rv_pos_take: "rv_ok rv \<Longrightarrow> i < length rv \<Longrightarrow> rv_pos (take i rv) = {p \<in> rv_pos rv. p < m_start (rv ! i)}"
proof (intro set_eqI iffI)
  fix p assume ok: "rv_ok rv" and i: "i < length rv"
  {
    assume "p \<in> rv_pos (take i rv)"
    then obtain j where "j < i" "m_start (rv ! j) \<le> p" "p \<le> m_end (rv ! j)" using i by (auto simp: in_rv_pos)
    then have "p \<in> rv_pos rv" "p < m_start (rv ! i)"
      using rv_ok_nth [OF ok, of j i] i unfolding in_rv_pos by (auto intro!: exI [of _ j])
    then show "p \<in> {p \<in> rv_pos rv. p < m_start (rv ! i)}" by simp
  next
    assume "p \<in> {p \<in> rv_pos rv. p < m_start (rv ! i)}"
    then obtain j where j: "j < length rv" "m_start (rv ! j) \<le> p" "p \<le> m_end (rv ! j)" "p < m_start (rv ! i)"
      by (auto simp: in_rv_pos)
    then have "j < i" using rv_ok_mono [OF ok, of i j] by (meson leD le_less_trans not_less)
    then show "p \<in> rv_pos (take i rv)" using j i by (auto simp: in_rv_pos)
  }
qed

lemma rv_pos_drop: "rv_ok rv \<Longrightarrow> i < length rv \<Longrightarrow> rv_pos (drop (i + 1) rv) = {p \<in> rv_pos rv. m_end (rv ! i) < p}"
proof (intro set_eqI iffI)
  fix p assume ok: "rv_ok rv" and i: "i < length rv"
  {
    assume "p \<in> rv_pos (drop (i + 1) rv)"
    then obtain n where "n < length rv - (i + 1)" "m_start (rv ! (i + 1 + n)) \<le> p" "p \<le> m_end (rv ! (i + 1 + n))"
      unfolding in_rv_pos using i by auto
    moreover from this have "i + 1 + n < length rv" by linarith
    ultimately have "p \<in> rv_pos rv" "m_end (rv ! i) < p"
      using rv_ok_nth [OF ok, of i "i + 1 + n"] unfolding in_rv_pos by (auto intro!: exI [of _ "i + 1 + n"])
    then show "p \<in> {p \<in> rv_pos rv. m_end (rv ! i) < p}" by simp
  next
    assume "p \<in> {p \<in> rv_pos rv. m_end (rv ! i) < p}"
    then obtain j where j: "j < length rv" "m_start (rv ! j) \<le> p" "p \<le> m_end (rv ! j)" "m_end (rv ! i) < p"
      by (auto simp: in_rv_pos)
    then have "i < j" using rv_ok_mono [OF ok, of j i] i by (meson leD le_less_trans not_less)
    then show "p \<in> rv_pos (drop (i + 1) rv)"
      using j unfolding in_rv_pos by (intro exI [of _ "j - (i + 1)"]) auto
  }
qed

text \<open>Cutting the range at \<open>i\<close> in front of a position inside it.\<close>

definition cut_at :: "Range list \<Rightarrow> nat \<Rightarrow> nat \<Rightarrow> Range list" where
  "cut_at rv i pos =
     (if m_start (rv ! i) = pos then take i rv else take i rv @ [\<lparr>m_start = m_start (rv ! i), m_end = pos - 1\<rparr>])"

lemma cut_at_correct:
  assumes "rv_ok rv" "i < length rv" "m_start (rv ! i) \<le> pos" "pos \<le> m_end (rv ! i)"
  shows "rv_ok (cut_at rv i pos)" "rv_pos (cut_at rv i pos) = {p \<in> rv_pos rv. p < pos}"
proof -
  note r = rv_ok_range [OF assms(1,2)]
  have t: "rv_ok (take i rv)" "rv_pos (take i rv) = {p \<in> rv_pos rv. p < m_start (rv ! i)}"
    using rv_ok_take rv_pos_take assms by auto
  have l: "\<forall>s\<in>set (take i rv). m_end s < m_start (rv ! i)"
    using rv_ok_nth [OF assms(1) _ assms(2)] assms(2) by (auto simp: in_set_conv_nth)
  show "rv_ok (cut_at rv i pos)"
  proof (cases "m_start (rv ! i) = pos")
    case False
    have "rv_ok [\<lparr>m_start = m_start (rv ! i), m_end = pos - 1\<rparr>]"
      using r assms(3) False by (simp add: rv_ok_def range_ok_def)
    then show ?thesis using t(1) l False by (simp add: cut_at_def rv_ok_append range_is_less_def)
  qed (use t(1) in \<open>simp add: cut_at_def\<close>)
  have "{m_start (rv ! i)..<pos} \<subseteq> rv_pos rv" using assms(2,4) by (auto simp: in_rv_pos intro!: exI [of _ i])
  moreover have "{m_start (rv ! i)..pos - 1} = {m_start (rv ! i)..<pos}" if "m_start (rv ! i) < pos" using that by auto
  ultimately show "rv_pos (cut_at rv i pos) = {p \<in> rv_pos rv. p < pos}"
    using t(2) assms(3) by (auto simp: cut_at_def)
qed

text \<open>Positions are 32-bit values.\<close>

definition rv_small :: "Range list \<Rightarrow> bool" where
  "rv_small rv \<longleftrightarrow> (\<forall>r\<in>set rv. m_end r < 4294967296)"

lemma up_dec_correct: "0 < pos \<Longrightarrow> pos < 4294967296 \<Longrightarrow> up_dec pos = pos - 1"
  by (simp add: up_dec_def u32_sub_id)

lemma rv_small_cut_at: "rv_small rv \<Longrightarrow> i < length rv \<Longrightarrow> pos \<le> m_end (rv ! i) \<Longrightarrow> rv_small (cut_at rv i pos)"
proof -
  assume s: "rv_small rv" "i < length rv" "pos \<le> m_end (rv ! i)"
  then have "m_end (rv ! i) < 4294967296" by (simp add: rv_small_def)
  then have "pos - 1 < 4294967296" using s(3) by linarith
  then show ?thesis using s by (auto simp: rv_small_def cut_at_def dest: in_set_takeD)
qed

lemma cut_at_eq:
  assumes "rv_ok rv" "rv_small rv" "i < length rv" "m_start (rv ! i) \<le> pos" "pos \<le> m_end (rv ! i)"
  shows "cut_at rv i pos =
     (if m_start (rv ! i) = pos then take i rv
      else take (i + 1) (rv[i := \<lparr>m_start = m_start (rv ! i), m_end = up_dec pos\<rparr>]))"
proof -
  have "m_end (rv ! i) < 4294967296" using assms(2,3) by (simp add: rv_small_def)
  then have "0 < pos" "pos < 4294967296" using assms(4,5) rv_ok_range [OF assms(1,3)] by linarith+
  then show ?thesis using assms(3) by (auto simp: cut_at_def up_dec_correct take_Suc_conv_app_nth)
qed

theorem cleanRangeFrom_correct:
  assumes "rv_ok rv" "rv_small rv"
  shows "case cleanRangeFrom rv pos of
      Some rv' \<Rightarrow> rv \<noteq> [] \<and> rv_ok rv' \<and> rv_small rv' \<and> rv_pos rv' = {p \<in> rv_pos rv. p < pos}
    | None \<Rightarrow> rv = []"
proof (rule range_search_cases [OF assms(1), of pos])
  fix i near
  assume f: "range_search rv pos = (Some i, near)" "i < length rv" "m_start (rv ! i) \<le> pos" "pos \<le> m_end (rv ! i)"
  have "cleanRangeFrom rv pos = Some (cut_at rv i pos)"
    using f by (auto simp: cleanRangeFrom_def removeRangeFrom_def Let_def cut_at_eq [OF assms f(2-4)])
  moreover have "rv \<noteq> []" using f(2) by auto
  ultimately show ?thesis using cut_at_correct [OF assms(1) f(2-4)] rv_small_cut_at [OF assms(2) f(2,4)] by simp
next
  fix k
  assume g: "range_search rv pos = (None, Some (int k - 1, if k < length rv then int k else - 1))" "k \<le> length rv" "rv \<noteq> []"
    "\<forall>i<k. m_end (rv ! i) < pos" "\<forall>i. k \<le> i \<longrightarrow> i < length rv \<longrightarrow> pos < m_start (rv ! i)"
  have c: "cleanRangeFrom rv pos = Some (take k rv)"
    using g by (auto simp: cleanRangeFrom_def removeRangeFrom_def)
  have "rv_pos (take k rv) = {p \<in> rv_pos rv. p < pos}"
  proof (intro set_eqI iffI)
    fix p assume "p \<in> rv_pos (take k rv)"
    then obtain j where j: "j < k" "m_start (rv ! j) \<le> p" "p \<le> m_end (rv ! j)" using g(2) by (auto simp: in_rv_pos)
    then have "p < pos" using g(4) by (meson le_less_trans)
    moreover have "p \<in> rv_pos rv" unfolding in_rv_pos using j g(2) by (meson less_le_trans)
    ultimately show "p \<in> {p \<in> rv_pos rv. p < pos}" by simp
  next
    fix p assume "p \<in> {p \<in> rv_pos rv. p < pos}"
    then obtain j where j: "j < length rv" "m_start (rv ! j) \<le> p" "p \<le> m_end (rv ! j)" "p < pos" by (auto simp: in_rv_pos)
    then have "j < k" using g(5) by (meson le_less_trans less_asym' not_le)
    then show "p \<in> rv_pos (take k rv)" unfolding in_rv_pos using j by auto
  qed
  then show ?thesis using c g(3) rv_ok_take [OF assms(1)] assms(2) by (auto simp: rv_small_def dest: in_set_takeD)
qed (simp add: cleanRangeFrom_def)

lemma foldl_addRange: "foldl (\<lambda>cur r. addRange cur (m_start r) (m_end r)) cur rv = cur @ rv"
  by (induction rv arbitrary: cur) (simp_all add: addRange_def)

text \<open>The asserted precondition of \<open>addRange\<close> is that the last range lies below the new one.\<close>

lemma getLastRange_less: "rv_ok rv \<Longrightarrow> range_ok r \<Longrightarrow> range_is_less (getLastRange rv) r \<longleftrightarrow> rv_ok (rv @ [r])"
proof (cases rv rule: rev_cases)
  case (snoc ys y)
  assume ok: "rv_ok rv" "range_ok r"
  have "\<forall>s\<in>set ys. m_end s < m_start y" "m_start y \<le> m_end y"
    using ok(1) snoc by (auto simp: rv_ok_append range_is_less_def) (simp add: rv_ok_def range_ok_def)
  then have "range_is_less y r \<Longrightarrow> \<forall>s\<in>set ys. range_is_less s r" by (auto simp: range_is_less_def)
  then show ?thesis using ok snoc
    by (auto simp: getLastRange_def rv_ok_append) (auto simp: rv_ok_def)
qed (auto simp: getLastRange_def rv_ok_def range_is_less_def range_ok_def range_at_def POS_UNDEF_def)

theorem moveRangeVecFrom_correct:
  assumes "rv_ok cur" "rv_ok src" "rv_small src" "range_is_less (getLastRange cur) (range_at pos)"
  shows "case moveRangeVecFrom cur src pos of
      Some (cur', src') \<Rightarrow> pos \<in> rv_pos src \<and> rv_ok cur' \<and> rv_ok src' \<and>
        rv_pos cur' = rv_pos cur \<union> {p \<in> rv_pos src. pos \<le> p} \<and> rv_pos src' = {p \<in> rv_pos src. p < pos}
    | None \<Rightarrow> pos \<notin> rv_pos src"
proof (cases "findRange src pos")
  case None
  then show ?thesis using findRange_correct [OF assms(2), of pos] by (simp add: moveRangeVecFrom_def)
next
  case (Some i)
  then have i: "i < length src" "m_start (src ! i) \<le> pos" "pos \<le> m_end (src ! i)"
    using findRange_correct [OF assms(2), of pos] by (auto simp: range_is_contain_def)
  let ?r = "\<lparr>m_start = pos, m_end = m_end (src ! i)\<rparr>"
  let ?d = "drop (i + 1) src"
  have m: "moveRangeVecFrom cur src pos = Some (cur @ ?r # ?d, cut_at src i pos)"
    using Some i by (auto simp: moveRangeVecFrom_def Let_def foldl_addRange cut_at_eq [OF assms(2,3) i] removeRangeFrom_def)
      (simp_all add: addRange_def)
  have "0 < pos" using i rv_ok_range [OF assms(2) i(1)] by simp
  then have ok: "range_ok ?r" using i by (simp add: range_ok_def)
  have "rv_ok (cur @ [?r])" using getLastRange_less [OF assms(1) ok] assms(4) by (simp add: range_is_less_def range_at_def)
  moreover have "rv_ok ?d" by (rule rv_ok_drop [OF assms(2)])
  moreover have after: "m_end (src ! i) < m_start s" if s: "s \<in> set ?d" for s
  proof -
    obtain n where "n < length src - (i + 1)" "?d ! n = s" using s unfolding in_set_conv_nth by auto
    then show ?thesis using rv_ok_nth [OF assms(2), of i "i + 1 + n"] i(1) by simp
  qed
  ultimately have "rv_ok (cur @ ?r # ?d)"
    using rv_ok_append [of "cur @ [?r]" ?d] ok i
    by (force simp: rv_ok_append range_is_less_def range_ok_def)
  moreover have "{pos..m_end (src ! i)} \<union> {p \<in> rv_pos src. m_end (src ! i) < p} = {p \<in> rv_pos src. pos \<le> p}"
  proof -
    have "{pos..m_end (src ! i)} \<subseteq> rv_pos src" using i by (auto simp: in_rv_pos intro!: exI [of _ i])
    then show ?thesis using i by auto
  qed
  ultimately show ?thesis
    using m cut_at_correct [OF assms(2) i] rv_pos_drop [OF assms(2) i(1)] i
    by (auto simp: in_rv_pos)
qed

definition overlap :: "Range \<Rightarrow> Range \<Rightarrow> bool" where
  "overlap r s \<longleftrightarrow> m_start r \<le> m_end s \<and> m_start s \<le> m_end r"

lemma range_is_intersect_iff: "range_ok r \<Longrightarrow> range_ok s \<Longrightarrow> range_is_intersect r s \<longleftrightarrow> overlap r s"
  by (auto simp: range_is_intersect_def overlap_def range_ok_def)

lemma overlap_pos: "range_ok r \<Longrightarrow> range_ok s \<Longrightarrow> overlap r s \<longleftrightarrow> {m_start r..m_end r} \<inter> {m_start s..m_end s} \<noteq> {}"
  by (auto simp: overlap_def range_ok_def)

definition overlap_from :: "Range list \<Rightarrow> Range list \<Rightarrow> nat \<Rightarrow> nat \<Rightarrow> bool" where
  "overlap_from rv1 rv2 i j \<longleftrightarrow>
     (\<exists>a b. i \<le> a \<and> a < length rv1 \<and> j \<le> b \<and> b < length rv2 \<and> overlap (rv1 ! a) (rv2 ! b))"

lemma overlap_from_sym: "overlap_from rv1 rv2 i j \<longleftrightarrow> overlap_from rv2 rv1 j i"
  by (auto simp: overlap_from_def overlap_def)

text \<open>Ranges that end before the other vector's current range starts overlap nothing that is left.\<close>

lemma overlap_from_skip:
  assumes "rv_ok rv2" "i \<le> k" "\<And>a. i \<le> a \<Longrightarrow> a < k \<Longrightarrow> a < length rv1 \<Longrightarrow> m_end (rv1 ! a) < m_start (rv_get rv2 j)"
  shows "overlap_from rv1 rv2 i j \<longleftrightarrow> overlap_from rv1 rv2 k j"
proof
  assume "overlap_from rv1 rv2 i j"
  then obtain a b where ab: "i \<le> a" "a < length rv1" "j \<le> b" "b < length rv2" "overlap (rv1 ! a) (rv2 ! b)"
    by (auto simp: overlap_from_def)
  have "k \<le> a"
  proof (rule ccontr)
    assume "\<not> k \<le> a"
    then have "m_end (rv1 ! a) < m_start (rv2 ! j)" using assms(3) [of a] ab by (simp add: rv_get_def)
    moreover have "m_start (rv2 ! j) \<le> m_start (rv2 ! b)" using rv_ok_mono [OF assms(1) ab(3,4)] by simp
    ultimately show False using ab(5) by (simp add: overlap_def)
  qed
  then show "overlap_from rv1 rv2 k j" using ab unfolding overlap_from_def by blast
next
  assume "overlap_from rv1 rv2 k j"
  then show "overlap_from rv1 rv2 i j" using assms(2) unfolding overlap_from_def by (meson le_trans)
qed

lemma intersect_loop_correct:
  "rv_ok rv1 \<Longrightarrow> rv_ok rv2 \<Longrightarrow> intersect_loop rv1 rv2 i j \<longleftrightarrow> overlap_from rv1 rv2 i j"
proof (induction rv1 rv2 i j rule: intersect_loop.induct)
  case (1 rv1 rv2 i j)
  obtain a b k l where o: "lt_order rv1 rv2 i j = (a, b, k, l)" by (metis prod_cases4)
  note oc = lt_order_cases [OF o]
  have ok: "rv_ok a" "rv_ok b" using oc 1(2,3) by auto
  have sym: "overlap_from rv1 rv2 i j \<longleftrightarrow> overlap_from a b k l" using oc overlap_from_sym by auto
  let ?f = "List.find (\<lambda>i. \<not> range_is_less (rv_get a i) (rv_get b l)) [k..<length a]"
  have unf: "intersect_loop rv1 rv2 i j = (case ?f of None \<Rightarrow> False
      | Some i \<Rightarrow> if range_is_intersect (rv_get a i) (rv_get b l) then True else intersect_loop a b i (l + 1))"
    by (subst intersect_loop.simps) (simp add: o)
  show ?case
  proof (cases ?f)
    case None
    then have "\<And>c. k \<le> c \<Longrightarrow> c < length a \<Longrightarrow> m_end (a ! c) < m_start (rv_get b l)"
      by (auto simp: find_None_iff range_is_less_def rv_get_def)
    then have "overlap_from a b k l \<longleftrightarrow> overlap_from a b (max k (length a)) l"
      by (intro overlap_from_skip [OF ok(2)]) auto
    then have "\<not> overlap_from a b k l" by (auto simp: overlap_from_def)
    then show ?thesis using unf None sym by simp
  next
    case (Some m)
    have fm: "k \<le> m" "m < length a" "\<And>c. k \<le> c \<Longrightarrow> c < m \<Longrightarrow> range_is_less (rv_get a c) (rv_get b l)"
      using find_upt_Some [OF Some] by auto
    have sk: "overlap_from a b k l \<longleftrightarrow> overlap_from a b m l"
      using fm by (intro overlap_from_skip [OF ok(2)]) (auto simp: range_is_less_def rv_get_def)
    show ?thesis
    proof (cases "range_is_intersect (rv_get a m) (rv_get b l)")
      case False
      note nl = find_not_less [OF Some conjunct1 [OF oc] False]
      have "m_end (b ! l) < m_start (rv_get a m)" using nl(2-4) by (simp add: rv_get_def range_is_great_def)
      then have "overlap_from b a l m \<longleftrightarrow> overlap_from b a (l + 1) m"
        by (intro overlap_from_skip [OF ok(1)]) (auto simp: less_Suc_eq)
      moreover have "intersect_loop a b m (l + 1) \<longleftrightarrow> overlap_from a b m (l + 1)"
        using 1(1) [OF o [symmetric] refl refl Some False] ok by simp
      ultimately show ?thesis using unf Some False sym sk overlap_from_sym by simp
    next
      case True
      have r: "range_ok (a ! m)" using ok(1) fm(2) by (simp add: rv_ok_def)
      have "l < length b"
      proof (rule ccontr)
        assume "\<not> l < length b"
        then have "rv_get b l = range_at 0" by (simp add: rv_get_def)
        then show False using True r fm(2)
          by (auto simp: range_is_intersect_def range_at_def rv_get_def range_ok_def)
      qed
      then have "overlap (a ! m) (b ! l)"
        using True r fm(2) ok(2) range_is_intersect_iff by (simp add: rv_get_def rv_ok_def)
      then have "overlap_from a b m l" using fm(2) \<open>l < length b\<close> by (auto simp: overlap_from_def)
      then show ?thesis using unf Some True sym sk by simp
    qed
  qed
qed

lemma overlap_from_pos: "rv_ok rv1 \<Longrightarrow> rv_ok rv2 \<Longrightarrow> overlap_from rv1 rv2 0 0 \<longleftrightarrow> rv_pos rv1 \<inter> rv_pos rv2 \<noteq> {}"
proof -
  assume ok: "rv_ok rv1" "rv_ok rv2"
  have "overlap_from rv1 rv2 0 0 \<longleftrightarrow> (\<exists>r\<in>set rv1. \<exists>s\<in>set rv2. overlap r s)"
    unfolding overlap_from_def Bex_def in_set_conv_nth by fastforce
  also have "\<dots> \<longleftrightarrow> (\<exists>r\<in>set rv1. \<exists>s\<in>set rv2. {m_start r..m_end r} \<inter> {m_start s..m_end s} \<noteq> {})"
    using ok overlap_pos by (auto simp: rv_ok_def)
  also have "\<dots> \<longleftrightarrow> rv_pos rv1 \<inter> rv_pos rv2 \<noteq> {}" unfolding rv_pos_def by blast
  finally show ?thesis .
qed

lemma lt_is_intersect_correct:
  "rv_ok rv1 \<Longrightarrow> rv_ok rv2 \<Longrightarrow> lt_is_intersect rv1 rv2 \<longleftrightarrow> rv_pos rv1 \<inter> rv_pos rv2 \<noteq> {}"
  by (simp add: lt_is_intersect_def intersect_loop_correct overlap_from_pos)

end
