(* ===== verification/LifeTime.thy ===== *)
theory LifeTime
  imports LifeRange
begin

text \<open>
  Lifetimes of pseudo registers: class \<open>LifeTime\<close> and the managers \<open>LifeTimeMgr\<close> and \<open>LifeTime2DMgr\<close> of
  \<^verbatim>\<open>src/opt/lifetime.h\<close> and \<^verbatim>\<open>src/opt/lifetime.cpp\<close>, which walk over the blocks of a region in order, number the
  definition and use position of each statement and collect for each register the ranges in which it is live and the
  list of its occurrences. A lifetime is found by its register, so the pointers to lifetimes are register numbers.
\<close>

section \<open>Occurrences\<close>

text \<open>What a lifetime needs of the IR: a statement with the register of its result, or an expression that reads one.\<close>

datatype IRRef = StmtRef "nat option" | ExpRef nat

record Occ =
  m_is_def :: bool
  m_opos :: nat
  m_ir :: IRRef

text \<open>The position of the found occurrence, as the index of its list cell.\<close>

fun findOcc :: "nat \<Rightarrow> Occ list \<Rightarrow> nat option" where
  "findOcc pos [] = None"
| "findOcc pos (occ # ol) = (if m_opos occ = pos then Some 0 else map_option Suc (findOcc pos ol))"

fun findOccAfter :: "nat \<Rightarrow> Occ list \<Rightarrow> nat option" where
  "findOccAfter pos [] = None"
| "findOccAfter pos (occ # ol) = (if m_opos occ > pos then Some 0 else map_option Suc (findOccAfter pos ol))"

fun occ_before_loop :: "nat \<Rightarrow> Occ list \<Rightarrow> nat \<Rightarrow> nat option \<Rightarrow> nat option" where
  "occ_before_loop pos [] it2 it = it"
| "occ_before_loop pos (occ # ol) it2 it =
     (if m_opos occ \<ge> pos then it else occ_before_loop pos ol (it2 + 1) (Some it2))"

definition findOccBefore :: "nat \<Rightarrow> Occ list \<Rightarrow> nat option" where
  "findOccBefore pos ol = occ_before_loop pos ol 0 None"

fun verify_occs :: "nat \<Rightarrow> Occ list \<Rightarrow> bool" where
  "verify_occs prev_pos [] \<longleftrightarrow> True"
| "verify_occs prev_pos (occ # ol) \<longleftrightarrow> prev_pos \<le> m_opos occ \<and> verify_occs (m_opos occ) ol"

definition verifyOccList :: "Occ list \<Rightarrow> bool" where
  "verifyOccList ol = verify_occs POS_INIT_VAL ol"

section \<open>Lifetimes\<close>

definition LT_FLAG_HAS_DEF :: "32 word" where "LT_FLAG_HAS_DEF = 0x1"
definition LT_FLAG_IS_PREASSIGNED :: "32 word" where "LT_FLAG_IS_PREASSIGNED = 0x2"
definition LT_FLAG_ONE_DEF_ONLY :: "32 word" where "LT_FLAG_ONE_DEF_ONLY = 0x8"

definition have_flag :: "32 word \<Rightarrow> 32 word \<Rightarrow> bool" where "have_flag flag v \<longleftrightarrow> flag AND v = v"
definition set_flag :: "32 word \<Rightarrow> 32 word \<Rightarrow> 32 word" where "set_flag flag v = flag OR v"
definition remove_flag :: "32 word \<Rightarrow> 32 word \<Rightarrow> 32 word" where "remove_flag flag v = flag AND NOT v"

record LifeTime =
  m_call_crossed_num :: nat
  m_flag :: "32 word"
  m_prno :: nat
  m_ancestor :: nat
  m_range_vec :: "Range list"
  m_only_def_occ :: "Occ option"
  m_occ_list :: "Occ list"

type_synonym lts = "nat \<rightharpoonup> LifeTime"

definition LifeTime_new :: "nat \<Rightarrow> LifeTime" where
  "LifeTime_new prno =
     \<lparr>m_call_crossed_num = 0, m_flag = 0, m_prno = prno, m_ancestor = prno, m_range_vec = [],
      m_only_def_occ = None, m_occ_list = []\<rparr>"

definition lt_verify :: "LifeTime \<Rightarrow> bool" where
  "lt_verify lt \<longleftrightarrow> verifyOccList (m_occ_list lt) \<and> verifyRangeVec (m_range_vec lt)"

definition upd_lt :: "nat \<Rightarrow> (LifeTime \<Rightarrow> LifeTime) \<Rightarrow> lts \<Rightarrow> lts" where
  "upd_lt p f lts = (case lts p of None \<Rightarrow> lts | Some lt \<Rightarrow> lts(p \<mapsto> f lt))"

definition isOccHasDef :: "LifeTime \<Rightarrow> bool" where "isOccHasDef lt = have_flag (m_flag lt) LT_FLAG_HAS_DEF"
definition isOneDefOnly :: "LifeTime \<Rightarrow> bool" where "isOneDefOnly lt = have_flag (m_flag lt) LT_FLAG_ONE_DEF_ONLY"
definition isPreAssigned :: "LifeTime \<Rightarrow> bool" where "isPreAssigned lt = have_flag (m_flag lt) LT_FLAG_IS_PREASSIGNED"
definition setOccHasDef :: "LifeTime \<Rightarrow> LifeTime" where "setOccHasDef lt = lt\<lparr>m_flag := set_flag (m_flag lt) LT_FLAG_HAS_DEF\<rparr>"
definition setPreAssigned :: "LifeTime \<Rightarrow> LifeTime" where
  "setPreAssigned lt = lt\<lparr>m_flag := set_flag (m_flag lt) LT_FLAG_IS_PREASSIGNED\<rparr>"

definition removeOneDefOnly :: "LifeTime \<Rightarrow> LifeTime" where
  "removeOneDefOnly lt = lt\<lparr>m_flag := remove_flag (m_flag lt) LT_FLAG_ONE_DEF_ONLY, m_only_def_occ := None\<rparr>"

text \<open>The only definition is recorded at the ancestor.\<close>

definition setOneDefOnly :: "nat \<Rightarrow> Occ \<Rightarrow> lts \<Rightarrow> lts" where
  "setOneDefOnly p occ lts =
     (case lts p of
        None \<Rightarrow> lts
      | Some lt \<Rightarrow>
          upd_lt (m_ancestor lt) (\<lambda>a. a\<lparr>m_only_def_occ := Some occ\<rparr>)
            (lts(p \<mapsto> lt\<lparr>m_flag := set_flag (m_flag lt) LT_FLAG_ONE_DEF_ONLY\<rparr>)))"

definition isDefOcc :: "nat \<Rightarrow> IRRef \<Rightarrow> bool" where
  "isDefOcc prno ir = (case ir of StmtRef (Some p) \<Rightarrow> p = prno | _ \<Rightarrow> False)"

definition addOcc :: "nat \<Rightarrow> Occ \<Rightarrow> lts \<Rightarrow> lts" where
  "addOcc p occ lts =
     (case lts p of
        None \<Rightarrow> lts
      | Some lt \<Rightarrow>
          let lt = lt\<lparr>m_occ_list := m_occ_list lt @ [occ]\<rparr>
          in if \<not> isDefOcc (m_prno lt) (m_ir occ) then lts(p \<mapsto> lt)
             else if isOccHasDef lt then lts(p \<mapsto> removeOneDefOnly lt)
             else setOneDefOnly p occ (lts(p \<mapsto> setOccHasDef lt)))"

definition lt_addRange :: "nat \<Rightarrow> nat \<Rightarrow> nat \<Rightarrow> lts \<Rightarrow> lts" where
  "lt_addRange p start_pos end_pos = upd_lt p (\<lambda>lt. lt\<lparr>m_range_vec := addRange (m_range_vec lt) start_pos end_pos\<rparr>)"

text \<open>The occurrences from a position on move to the end of the first lifetime's list.\<close>

definition moveOccListFrom :: "nat \<Rightarrow> nat \<Rightarrow> nat \<Rightarrow> lts \<Rightarrow> lts" where
  "moveOccListFrom p src pos lts =
     (case lts src of
        None \<Rightarrow> lts
      | Some s \<Rightarrow>
          let moved = dropWhile (\<lambda>occ. m_opos occ < pos) (m_occ_list s);
              lts = fold (addOcc p) moved lts
          in upd_lt src (\<lambda>s. s\<lparr>m_occ_list := takeWhile (\<lambda>occ. m_opos occ < pos) (m_occ_list s)\<rparr>) lts)"

definition moveFrom :: "nat \<Rightarrow> nat \<Rightarrow> nat \<Rightarrow> lts \<Rightarrow> lts option" where
  "moveFrom p src pos lts =
     (case (lts p, lts src) of
        (Some lt, Some s) \<Rightarrow>
          (case moveRangeVecFrom (m_range_vec lt) (m_range_vec s) pos of
             None \<Rightarrow> None
           | Some (cur, rest_src) \<Rightarrow>
               let lts = lts(p \<mapsto> lt\<lparr>m_range_vec := cur\<rparr>, src \<mapsto> s\<lparr>m_range_vec := rest_src\<rparr>);
                   lts = moveOccListFrom p src pos lts
               in Some (upd_lt p (\<lambda>lt. lt\<lparr>m_call_crossed_num := m_call_crossed_num s\<rparr>) lts))
      | _ \<Rightarrow> None)"

definition shrinkForwardToLastOccPos :: "LifeTime \<Rightarrow> LifeTime" where
  "shrinkForwardToLastOccPos lt =
     (let pos = (if m_occ_list lt = [] then POS_UNDEF else m_opos (last (m_occ_list lt)))
      in lt\<lparr>m_range_vec := setLastRange (m_range_vec lt) ((getLastRange (m_range_vec lt))\<lparr>m_end := pos\<rparr>)\<rparr>)"

section \<open>Calls crossed by a lifetime\<close>

record CrossedCallCounter =
  m_call2pos :: "nat list"
  m_prno2callid :: "nat \<rightharpoonup> nat"

definition addNewCall :: "nat \<Rightarrow> CrossedCallCounter \<Rightarrow> CrossedCallCounter" where
  "addNewCall call_pos c = c\<lparr>m_call2pos := m_call2pos c @ [call_pos]\<rparr>"

text \<open>One call is counted at most, the first one since the last update that the lifetime contains.\<close>

definition crossed_update :: "nat \<Rightarrow> CrossedCallCounter \<Rightarrow> lts \<Rightarrow> CrossedCallCounter \<times> lts" where
  "crossed_update p c lts =
     (if m_call2pos c = [] then (c, lts)
      else let baseline = (case m_prno2callid c p of Some i \<Rightarrow> i + 1 | None \<Rightarrow> 0);
               current = length (m_call2pos c) - 1;
               lts = (case lts p of
                        None \<Rightarrow> lts
                      | Some lt \<Rightarrow>
                          if \<exists>i\<in>set [baseline..<current + 1]. lt_is_contain (m_range_vec lt) (m_call2pos c ! i)
                          then lts(p \<mapsto> lt\<lparr>m_call_crossed_num := u32 (m_call_crossed_num lt + 1)\<rparr>) else lts)
           in (c\<lparr>m_prno2callid := (m_prno2callid c)(p \<mapsto> current)\<rparr>, lts))"

section \<open>The manager\<close>

text \<open>A statement: whether it was inserted between positions, whether it is a call and an intrinsic one, the registers
  its expressions read in order, and the one it defines.\<close>

record RaStmt =
  st_gap :: bool
  st_call :: bool
  st_intrinsic :: bool
  st_reads :: "nat list"
  st_result :: "nat option"

record RaBB =
  bb_id :: nat
  bb_irs :: "RaStmt list"

record LifeTimeMgr =
  m_prno2lt :: lts
  m_lt_list :: "nat list"
  m_max_pos :: nat
  m_bb_entry_pos :: "nat \<rightharpoonup> nat"
  m_bb_exit_pos :: "nat \<rightharpoonup> nat"
  m_counter :: CrossedCallCounter

definition ltm_init :: LifeTimeMgr where
  "ltm_init = \<lparr>m_prno2lt = Map.empty, m_lt_list = [], m_max_pos = POS_UNDEF, m_bb_entry_pos = Map.empty,
     m_bb_exit_pos = Map.empty, m_counter = \<lparr>m_call2pos = [], m_prno2callid = Map.empty\<rparr>\<rparr>"

definition genLifeTime :: "nat \<Rightarrow> LifeTimeMgr \<Rightarrow> LifeTimeMgr" where
  "genLifeTime prno mgr =
     (case m_prno2lt mgr prno of
        Some lt \<Rightarrow> mgr
      | None \<Rightarrow> mgr\<lparr>m_prno2lt := (m_prno2lt mgr)(prno \<mapsto> LifeTime_new prno), m_lt_list := m_lt_list mgr @ [prno]\<rparr>)"

definition upd_lts :: "(lts \<Rightarrow> lts) \<Rightarrow> LifeTimeMgr \<Rightarrow> LifeTimeMgr" where
  "upd_lts f mgr = mgr\<lparr>m_prno2lt := f (m_prno2lt mgr)\<rparr>"

definition update_counter :: "nat \<Rightarrow> LifeTimeMgr \<Rightarrow> LifeTimeMgr" where
  "update_counter p mgr =
     (let (c, lts) = crossed_update p (m_counter mgr) (m_prno2lt mgr) in mgr\<lparr>m_prno2lt := lts, m_counter := c\<rparr>)"

text \<open>\<open>cand\<close> is \<open>RegAllocMgr::canBeCandidate\<close>, \<open>pre\<close> the set of pre-assigned registers.\<close>

definition computeLHS :: "(nat \<Rightarrow> bool) \<Rightarrow> (nat \<Rightarrow> bool) \<Rightarrow> RaStmt \<Rightarrow> nat \<Rightarrow> LifeTimeMgr \<Rightarrow> LifeTimeMgr" where
  "computeLHS cand pre ir pos mgr =
     (case st_result ir of
        None \<Rightarrow> mgr
      | Some prno \<Rightarrow>
          if \<not> st_call ir \<and> \<not> cand prno then mgr
          else let mgr = genLifeTime prno mgr;
                   mgr = (if pre prno then upd_lts (upd_lt prno setPreAssigned) mgr else mgr);
                   mgr = upd_lts (lt_addRange prno pos pos) mgr;
                   mgr = upd_lts (addOcc prno \<lparr>m_is_def = True, m_opos = pos, m_ir = StmtRef (st_result ir)\<rparr>) mgr
               in update_counter prno mgr)"

definition use_range :: "nat \<Rightarrow> nat \<Rightarrow> LifeTime \<Rightarrow> LifeTime" where
  "use_range livein_def pos lt =
     (let r = getLastRange (m_range_vec lt);
          r = (if m_start r = POS_UNDEF then \<lparr>m_start = livein_def, m_end = pos\<rparr> else r\<lparr>m_end := pos\<rparr>)
      in lt\<lparr>m_range_vec := setLastRange (m_range_vec lt) r\<rparr>)"

definition computeUSE :: "(nat \<Rightarrow> bool) \<Rightarrow> nat \<Rightarrow> nat \<Rightarrow> nat \<Rightarrow> LifeTimeMgr \<Rightarrow> LifeTimeMgr" where
  "computeUSE pre livein_def pos prno mgr =
     (let mgr = genLifeTime prno mgr;
          mgr = (if pre prno then upd_lts (upd_lt prno setPreAssigned) mgr else mgr);
          mgr = upd_lts (upd_lt prno (use_range livein_def pos)) mgr;
          mgr = upd_lts (addOcc prno \<lparr>m_is_def = False, m_opos = pos, m_ir = ExpRef prno\<rparr>) mgr
      in update_counter prno mgr)"

definition computeRHS :: "(nat \<Rightarrow> bool) \<Rightarrow> (nat \<Rightarrow> bool) \<Rightarrow> RaStmt \<Rightarrow> nat \<Rightarrow> nat \<Rightarrow> LifeTimeMgr \<Rightarrow> LifeTimeMgr" where
  "computeRHS cand pre ir pos livein_def mgr =
     fold (\<lambda>prno mgr. if cand prno then computeUSE pre livein_def pos prno mgr else mgr) (st_reads ir) mgr"

text \<open>The loop over the statements of a block, with the position counter.\<close>

fun computeLifeTimeBB ::
  "(nat \<Rightarrow> bool) \<Rightarrow> (nat \<Rightarrow> bool) \<Rightarrow> nat \<Rightarrow> RaStmt list \<Rightarrow> UpdatePos \<Rightarrow> LifeTimeMgr \<Rightarrow> UpdatePos \<times> LifeTimeMgr" where
  "computeLifeTimeBB cand pre livein_def [] up mgr = (up, mgr)"
| "computeLifeTimeBB cand pre livein_def (ir # irs) up mgr =
     (case updateAtIR (st_gap ir) up of
        None \<Rightarrow> computeLifeTimeBB cand pre livein_def irs up mgr
      | Some (dpos, upos, up) \<Rightarrow>
          let mgr = (if st_call ir \<and> \<not> st_intrinsic ir then mgr\<lparr>m_counter := addNewCall dpos (m_counter mgr)\<rparr> else mgr);
              mgr = computeRHS cand pre ir upos livein_def mgr;
              mgr = computeLHS cand pre ir dpos mgr
          in computeLifeTimeBB cand pre livein_def irs up mgr)"

definition updateBBEntryPos :: "nat \<Rightarrow> UpdatePos \<Rightarrow> LifeTimeMgr \<Rightarrow> nat \<times> nat \<times> UpdatePos \<times> LifeTimeMgr" where
  "updateBBEntryPos bb up mgr =
     (let (dpos, upos, up) = (case updateAtBBEntry up of Some x \<Rightarrow> x | None \<Rightarrow> (0, 0, up))
      in (dpos, upos, up, mgr\<lparr>m_bb_entry_pos := (m_bb_entry_pos mgr)(bb \<mapsto> dpos)\<rparr>))"

definition updateBBExitPos :: "nat \<Rightarrow> UpdatePos \<Rightarrow> LifeTimeMgr \<Rightarrow> nat \<times> nat \<times> UpdatePos \<times> LifeTimeMgr" where
  "updateBBExitPos bb up mgr =
     (let (dpos, upos, up) = (case updateAtBBExit up of Some x \<Rightarrow> x | None \<Rightarrow> (0, 0, up))
      in (dpos, upos, up, mgr\<lparr>m_bb_exit_pos := (m_bb_exit_pos mgr)(bb \<mapsto> upos)\<rparr>))"

fun lifetime_blocks ::
  "(nat \<Rightarrow> bool) \<Rightarrow> (nat \<Rightarrow> bool) \<Rightarrow> nat \<Rightarrow> RaBB list \<Rightarrow> UpdatePos \<Rightarrow> LifeTimeMgr \<Rightarrow> UpdatePos \<times> LifeTimeMgr" where
  "lifetime_blocks cand pre livein_def [] up mgr = (up, mgr)"
| "lifetime_blocks cand pre livein_def (bb # bbs) up mgr =
     (let (dpos, upos, up, mgr) = updateBBEntryPos (bb_id bb) up mgr;
          (up, mgr) = computeLifeTimeBB cand pre livein_def (bb_irs bb) up mgr;
          (dpos, upos, up, mgr) = updateBBExitPos (bb_id bb) up mgr
      in lifetime_blocks cand pre livein_def bbs up mgr)"

definition computeLifeTime :: "(nat \<Rightarrow> bool) \<Rightarrow> (nat \<Rightarrow> bool) \<Rightarrow> RaBB list \<Rightarrow> UpdatePos \<Rightarrow> UpdatePos \<times> LifeTimeMgr" where
  "computeLifeTime cand pre bblst up =
     (let (dpos_start, upos_start, up) = updateAtRegionEntry up;
          (up, mgr) = lifetime_blocks cand pre dpos_start bblst up ltm_init;
          (dpos_end, upos_end, up) = updateAtRegionExit up
      in (up, mgr\<lparr>m_max_pos := upos_end\<rparr>))"

section \<open>The manager that uses liveness\<close>

text \<open>The live sets are given by the list of their elements in the order of the iteration.\<close>

definition mergeLiveIn :: "(nat \<Rightarrow> bool) \<Rightarrow> nat list \<Rightarrow> nat \<Rightarrow> LifeTimeMgr \<Rightarrow> LifeTimeMgr" where
  "mergeLiveIn cand live_in dpos_bb_start mgr =
     fold (\<lambda>pr mgr. if cand pr then upd_lts (lt_addRange pr dpos_bb_start dpos_bb_start) (genLifeTime pr mgr) else mgr) live_in mgr"

definition mergeLiveOut :: "(nat \<Rightarrow> bool) \<Rightarrow> nat list \<Rightarrow> nat \<Rightarrow> LifeTimeMgr \<Rightarrow> LifeTimeMgr" where
  "mergeLiveOut cand live_out upos_bb_end mgr =
     fold (\<lambda>pr mgr. if cand pr
              then upd_lts (upd_lt pr (\<lambda>lt. lt\<lparr>m_range_vec :=
                     setLastRange (m_range_vec lt) ((getLastRange (m_range_vec lt))\<lparr>m_end := upos_bb_end\<rparr>)\<rparr>)) (genLifeTime pr mgr)
              else mgr) live_out mgr"

fun lifetime2d_blocks ::
  "(nat \<Rightarrow> bool) \<Rightarrow> (nat \<Rightarrow> bool) \<Rightarrow> (nat \<Rightarrow> nat list) \<Rightarrow> (nat \<Rightarrow> nat list) \<Rightarrow> nat \<Rightarrow> RaBB list \<Rightarrow> UpdatePos \<Rightarrow> LifeTimeMgr \<Rightarrow>
   UpdatePos \<times> LifeTimeMgr" where
  "lifetime2d_blocks cand pre live_in live_out livein_def [] up mgr = (up, mgr)"
| "lifetime2d_blocks cand pre live_in live_out livein_def (bb # bbs) up mgr =
     (let (dpos_start, upos_start, up, mgr) = updateBBEntryPos (bb_id bb) up mgr;
          mgr = mergeLiveIn cand (live_in (bb_id bb)) dpos_start mgr;
          (up, mgr) = computeLifeTimeBB cand pre livein_def (bb_irs bb) up mgr;
          (dpos_end, upos_end, up, mgr) = updateBBExitPos (bb_id bb) up mgr;
          mgr = mergeLiveOut cand (live_out (bb_id bb)) upos_end mgr
      in lifetime2d_blocks cand pre live_in live_out livein_def bbs up mgr)"

definition computeLifeTime2D ::
  "(nat \<Rightarrow> bool) \<Rightarrow> (nat \<Rightarrow> bool) \<Rightarrow> (nat \<Rightarrow> nat list) \<Rightarrow> (nat \<Rightarrow> nat list) \<Rightarrow> RaBB list \<Rightarrow> UpdatePos \<Rightarrow> UpdatePos \<times> LifeTimeMgr" where
  "computeLifeTime2D cand pre live_in live_out bblst up =
     (let (dpos_start, upos_start, up) = updateAtRegionEntry up;
          (up, mgr) = lifetime2d_blocks cand pre live_in live_out dpos_start bblst up ltm_init;
          (dpos_end, upos_end, up) = updateAtRegionExit up
      in (up, mgr\<lparr>m_max_pos := upos_end\<rparr>))"

end
