(* ===== verification/LifeTimeProps.thy ===== *)
theory LifeTimeProps
  imports LifeTime
begin

text \<open>
  What the lifetime construction computes. The ranges of one register are a function of the sequence of its events,
  which open a range (a definition, the entry of a block it is live into) or extend the last one (a use, the exit of a
  block it is live out of). The positions in the ranges are then exactly the ones from which some extension is reached
  with no opening in between.
\<close>

section \<open>Events of one register\<close>

definition range_step :: "nat \<Rightarrow> Range list \<Rightarrow> bool \<times> nat \<Rightarrow> Range list" where
  "range_step L rv e =
     (case e of (opens, pos) \<Rightarrow>
        if opens then addRange rv pos pos
        else let r = getLastRange rv
             in setLastRange rv (if m_start r = POS_UNDEF then \<lparr>m_start = L, m_end = pos\<rparr> else r\<lparr>m_end := pos\<rparr>))"

definition ranges_of :: "nat \<Rightarrow> (bool \<times> nat) list \<Rightarrow> Range list" where
  "ranges_of L evs = foldl (range_step L) [] evs"

definition ev_before :: "bool \<times> nat \<Rightarrow> bool \<times> nat \<Rightarrow> bool" where
  "ev_before e e' \<longleftrightarrow> snd e \<le> snd e' \<and> (fst e' \<longrightarrow> snd e < snd e')"

definition evs_ok :: "nat \<Rightarrow> (bool \<times> nat) list \<Rightarrow> bool" where
  "evs_ok L evs \<longleftrightarrow> 0 < L \<and> sorted_wrt ev_before evs \<and> (\<forall>e\<in>set evs. L \<le> snd e)"

definition reaches :: "nat \<Rightarrow> (bool \<times> nat) set \<Rightarrow> nat \<Rightarrow> bool" where
  "reaches L E q \<longleftrightarrow> L \<le> q \<and> (\<exists>u. (False, u) \<in> E \<and> q \<le> u \<and> \<not> (\<exists>d. (True, d) \<in> E \<and> q < d \<and> d \<le> u))"

definition ranges_inv :: "nat \<Rightarrow> (bool \<times> nat) list \<Rightarrow> Range list \<Rightarrow> bool" where
  "ranges_inv L evs rv \<longleftrightarrow>
     rv_ok rv \<and> (rv = [] \<longleftrightarrow> evs = []) \<and> (\<forall>q. q \<in> rv_pos rv \<longleftrightarrow> (True, q) \<in> set evs \<or> reaches L (set evs) q) \<and>
     (evs \<noteq> [] \<longrightarrow>
        m_end (last rv) = snd (last evs) \<and> (\<forall>d. (True, d) \<in> set evs \<longrightarrow> d \<le> m_start (last rv)) \<and> L \<le> m_start (last rv) \<and>
        ((True, m_start (last rv)) \<in> set evs \<or> m_start (last rv) = L \<and> (\<forall>d. (True, d) \<notin> set evs)))"

lemma reaches_open: "\<forall>e\<in>E. snd e < p \<Longrightarrow> reaches L (insert (True, p) E) q \<longleftrightarrow> reaches L E q"
  unfolding reaches_def by fastforce

lemma ranges_inv_open:
  assumes "ranges_inv L evs rv" "0 < L" "L \<le> p" "\<forall>e\<in>set evs. snd e < p"
  shows "ranges_inv L (evs @ [(True, p)]) (addRange rv p p)"
proof -
  let ?r = "\<lparr>m_start = p, m_end = p\<rparr>"
  have l: "m_end (last rv) < p" if "rv \<noteq> []" using assms(1,4) that by (auto simp: ranges_inv_def)
  have r: "range_ok ?r" using assms(2,3) by (simp add: range_ok_def)
  have "range_is_less (getLastRange rv) ?r"
    using l assms(2,3) by (auto simp: getLastRange_def range_is_less_def range_at_def POS_UNDEF_def)
  then have "rv_ok (rv @ [?r])" using getLastRange_less [OF _ r] assms(1) by (simp add: ranges_inv_def)
  moreover have "q \<in> rv_pos (rv @ [?r]) \<longleftrightarrow> (True, q) \<in> set (evs @ [(True, p)]) \<or> reaches L (set (evs @ [(True, p)])) q" for q
    using assms(1) reaches_open [OF assms(4), of L q] by (auto simp: ranges_inv_def)
  moreover have "d \<le> p" if "(True, d) \<in> set evs" for d using assms(4) that by fastforce
  ultimately show ?thesis using assms(3) by (auto simp: ranges_inv_def addRange_def)
qed

lemma reaches_extend:
  "reaches L (insert (False, p) E) q \<longleftrightarrow> reaches L E q \<or> L \<le> q \<and> q \<le> p \<and> \<not> (\<exists>d. (True, d) \<in> E \<and> q < d \<and> d \<le> p)"
  unfolding reaches_def by auto

lemma rv_pos_butlast: "rv \<noteq> [] \<Longrightarrow> rv_pos rv = rv_pos (butlast rv) \<union> {m_start (last rv)..m_end (last rv)}"
  by (metis append_butlast_last_id rv_pos_simps(1,2,3) sup_bot.right_neutral)

lemma ranges_inv_extend:
  assumes "ranges_inv L evs rv" "0 < L" "L \<le> p" "\<forall>e\<in>set evs. snd e \<le> p"
  shows "ranges_inv L (evs @ [(False, p)]) (range_step L rv (False, p))"
proof (cases "rv = []")
  case True
  then have e: "evs = []" using assms(1) by (simp add: ranges_inv_def)
  show ?thesis using True e assms(2,3)
    by (auto simp: ranges_inv_def range_step_def getLastRange_def setLastRange_def range_at_def POS_UNDEF_def rv_ok_def range_ok_def reaches_def)
next
  case False
  let ?s = "m_start (last rv)"
  let ?rv = "butlast rv @ [\<lparr>m_start = ?s, m_end = p\<rparr>]"
  have e: "evs \<noteq> []" using False assms(1) by (simp add: ranges_inv_def)
  then have i: "rv_ok rv" "m_end (last rv) = snd (last evs)" "\<And>d. (True, d) \<in> set evs \<Longrightarrow> d \<le> ?s" "L \<le> ?s"
    "(True, ?s) \<in> set evs \<or> ?s = L \<and> (\<forall>d. (True, d) \<notin> set evs)"
    and pos: "\<And>q. q \<in> rv_pos rv \<longleftrightarrow> (True, q) \<in> set evs \<or> reaches L (set evs) q"
    using assms(1) by (auto simp: ranges_inv_def)
  have ep: "m_end (last rv) \<le> p" using assms(4) e i(2) by auto
  have st: "range_step L rv (False, p) = ?rv"
  proof -
    have "last rv = rv ! (length rv - 1)" using False by (simp add: last_conv_nth)
    moreover have "rv[length rv - 1 := x] = butlast rv @ [x]" for x
      using False by (metis append_butlast_last_id length_butlast list_update_length)
    ultimately show ?thesis using False i(4) assms(2)
      by (simp add: range_step_def getLastRange_def setLastRange_def POS_UNDEF_def Let_def)
  qed
  have rok: "rv_ok (butlast rv @ [last rv])" "range_ok (last rv)" using i(1) False by (auto simp: rv_ok_def)
  then have "rv_ok ?rv" using ep by (auto simp: rv_ok_append range_is_less_def) (auto simp: rv_ok_def range_ok_def)
  moreover have "rv_pos ?rv = rv_pos rv \<union> {?s..p}" using rv_pos_butlast [OF False] ep by auto
  moreover have "{?s..p} = {q. L \<le> q \<and> q \<le> p \<and> \<not> (\<exists>d. (True, d) \<in> set evs \<and> q < d \<and> d \<le> p)}" (is "_ = ?R")
  proof (intro set_eqI iffI)
    fix q assume "q \<in> {?s..p}"
    then show "q \<in> ?R" using i(3,4) by fastforce
  next
    fix q assume q: "q \<in> ?R"
    have "?s \<le> q"
    proof (rule ccontr)
      assume "\<not> ?s \<le> q"
      then have "(True, ?s) \<in> set evs" using i(5) q by auto
      then show False using q assms(4) \<open>\<not> ?s \<le> q\<close> by fastforce
    qed
    then show "q \<in> {?s..p}" using q by simp
  qed
  ultimately show ?thesis
    using pos i(3-5) e reaches_extend [of L p "set evs"] by (auto simp: st ranges_inv_def)
qed

theorem ranges_of_correct: "evs_ok L evs \<Longrightarrow> ranges_inv L evs (ranges_of L evs)"
proof (induction evs rule: rev_induct)
  case Nil
  then show ?case by (simp add: ranges_of_def ranges_inv_def reaches_def)
next
  case (snoc e evs)
  obtain o' p where e: "e = (o', p)" by force
  have ok: "evs_ok L evs" "0 < L" "L \<le> p" "\<forall>f\<in>set evs. snd f \<le> p" "o' \<longrightarrow> (\<forall>f\<in>set evs. snd f < p)"
    using snoc.prems e by (auto simp: evs_ok_def sorted_wrt_append ev_before_def)
  have r: "ranges_of L (evs @ [e]) = range_step L (ranges_of L evs) e" by (simp add: ranges_of_def)
  show ?case
  proof (cases o')
    case True
    then show ?thesis using ranges_inv_open [OF snoc.IH [OF ok(1)] ok(2,3)] ok(5) e r by (simp add: range_step_def)
  next
    case False
    then show ?thesis using ranges_inv_extend [OF snoc.IH [OF ok(1)] ok(2-4)] e r by simp
  qed
qed

section \<open>The manager as a sequence of events\<close>

definition rngs :: "lts \<Rightarrow> nat \<Rightarrow> Range list" where
  "rngs lts p = (case lts p of None \<Rightarrow> [] | Some lt \<Rightarrow> m_range_vec lt)"

definition occ_ev :: "Occ \<Rightarrow> bool \<times> nat" where "occ_ev occ = (m_is_def occ, m_opos occ)"

definition occs :: "lts \<Rightarrow> nat \<Rightarrow> (bool \<times> nat) list" where
  "occs lts p = (case lts p of None \<Rightarrow> [] | Some lt \<Rightarrow> map occ_ev (m_occ_list lt))"

text \<open>
  What holds of every lifetime of a manager: it is its own ancestor, its occurrences refer to its register, and the
  flags and the recorded definition tell whether there is a definition and whether it is the only one.
\<close>

definition def_occs :: "LifeTime \<Rightarrow> Occ list" where
  "def_occs lt = filter (\<lambda>occ. isDefOcc (m_prno lt) (m_ir occ)) (m_occ_list lt)"

definition lt_flags_ok :: "nat \<Rightarrow> LifeTime \<Rightarrow> bool" where
  "lt_flags_ok p lt \<longleftrightarrow>
     m_prno lt = p \<and> m_ancestor lt = p \<and> (\<forall>occ\<in>set (m_occ_list lt). isDefOcc p (m_ir occ) = m_is_def occ) \<and>
     (isOccHasDef lt \<longleftrightarrow> def_occs lt \<noteq> []) \<and> (isOneDefOnly lt \<longleftrightarrow> length (def_occs lt) = 1) \<and>
     m_only_def_occ lt = (if length (def_occs lt) = 1 then Some (hd (def_occs lt)) else None)"

definition lts_ok :: "lts \<Rightarrow> bool" where
  "lts_ok lts \<longleftrightarrow> (\<forall>p lt. lts p = Some lt \<longrightarrow> lt_flags_ok p lt)"

lemma flag_bits:
  "have_flag f LT_FLAG_HAS_DEF \<longleftrightarrow> bit f 0" "have_flag f LT_FLAG_IS_PREASSIGNED \<longleftrightarrow> bit f 1"
  "have_flag f LT_FLAG_ONE_DEF_ONLY \<longleftrightarrow> bit f 3"
proof -
  have c: "f AND push_bit n 1 = push_bit n 1 \<longleftrightarrow> bit f n" if "n < 32" for n
  proof
    assume "f AND push_bit n 1 = push_bit n 1"
    moreover have "bit (push_bit n (1 :: 32 word)) n" using that by (simp add: bit_exp_iff)
    ultimately show "bit f n" by (metis bit_and_iff)
  next
    assume "bit f n"
    then show "f AND push_bit n 1 = push_bit n 1"
      by (intro bit_word_eqI) (auto simp: bit_and_iff bit_exp_iff)
  qed
  show "have_flag f LT_FLAG_HAS_DEF \<longleftrightarrow> bit f 0" "have_flag f LT_FLAG_IS_PREASSIGNED \<longleftrightarrow> bit f 1"
    "have_flag f LT_FLAG_ONE_DEF_ONLY \<longleftrightarrow> bit f 3"
    using c [of 0] c [of 1] c [of 3]
    by (simp_all add: have_flag_def LT_FLAG_HAS_DEF_def LT_FLAG_IS_PREASSIGNED_def LT_FLAG_ONE_DEF_ONLY_def)
qed

lemma flag_const_bits:
  "bit LT_FLAG_HAS_DEF n \<longleftrightarrow> n = 0" "bit LT_FLAG_IS_PREASSIGNED n \<longleftrightarrow> n = 1" "bit LT_FLAG_ONE_DEF_ONLY n \<longleftrightarrow> n = 3"
proof -
  have "(2 :: 32 word) = push_bit 1 1" "(8 :: 32 word) = push_bit 3 1" by simp_all
  then show "bit LT_FLAG_HAS_DEF n \<longleftrightarrow> n = 0" "bit LT_FLAG_IS_PREASSIGNED n \<longleftrightarrow> n = 1" "bit LT_FLAG_ONE_DEF_ONLY n \<longleftrightarrow> n = 3"
    unfolding LT_FLAG_HAS_DEF_def LT_FLAG_IS_PREASSIGNED_def LT_FLAG_ONE_DEF_ONLY_def
    by (auto simp only: bit_push_bit_iff bit_1_iff possible_bit_word) auto
qed

lemmas flag_simps = isOccHasDef_def isOneDefOnly_def isPreAssigned_def setOccHasDef_def setPreAssigned_def removeOneDefOnly_def
  set_flag_def remove_flag_def flag_bits bit_or_iff bit_and_iff bit_not_iff flag_const_bits

lemma rngs_addOcc [simp]: "rngs (addOcc p occ lts) q = rngs lts q"
  by (auto simp: rngs_def addOcc_def setOneDefOnly_def upd_lt_def removeOneDefOnly_def setOccHasDef_def Let_def split: option.splits)

lemma dom_addOcc [simp]: "dom (addOcc p occ lts) = dom lts"
  by (auto simp: addOcc_def setOneDefOnly_def upd_lt_def Let_def split: option.splits)

lemma occs_addOcc: "p \<in> dom lts \<Longrightarrow> occs (addOcc p occ lts) q = (if q = p then occs lts p @ [occ_ev occ] else occs lts q)"
  by (auto simp: occs_def addOcc_def setOneDefOnly_def upd_lt_def removeOneDefOnly_def setOccHasDef_def Let_def split: option.splits)

lemma lts_ok_addOcc:
  assumes "lts_ok lts" "isDefOcc p (m_ir occ) = m_is_def occ"
  shows "lts_ok (addOcc p occ lts)"
proof (cases "lts p")
  case None
  then show ?thesis using assms by (simp add: addOcc_def)
next
  case (Some lt)
  then have ok: "lt_flags_ok p lt" using assms(1) by (simp add: lts_ok_def)
  have other: "lt_flags_ok q l" if "lts q = Some l" for q l using assms(1) that by (simp add: lts_ok_def)
  let ?l = "lt\<lparr>m_occ_list := m_occ_list lt @ [occ]\<rparr>"
  have d: "def_occs ?l = def_occs lt @ (if isDefOcc p (m_ir occ) then [occ] else [])"
    using ok by (simp add: def_occs_def lt_flags_ok_def)
  consider "\<not> isDefOcc p (m_ir occ)" | "isDefOcc p (m_ir occ)" "isOccHasDef lt" | "isDefOcc p (m_ir occ)" "\<not> isOccHasDef lt" by blast
  then obtain l' where l': "addOcc p occ lts = lts(p \<mapsto> l')" "lt_flags_ok p l'"
  proof cases
    case 1
    then have "lt_flags_ok p ?l" using ok d assms(2) by (auto simp: lt_flags_ok_def isOccHasDef_def isOneDefOnly_def)
    then show ?thesis using that [of ?l] 1 Some ok by (simp add: addOcc_def lt_flags_ok_def Let_def)
  next
    case 2
    have "def_occs (removeOneDefOnly ?l) = def_occs lt @ [occ]" using d 2 by (simp add: def_occs_def removeOneDefOnly_def)
    moreover have "def_occs lt \<noteq> []" using ok 2 by (simp add: lt_flags_ok_def)
    ultimately have "lt_flags_ok p (removeOneDefOnly ?l)" using ok assms(2) 2 by (auto simp: lt_flags_ok_def flag_simps)
    then show ?thesis using that [of "removeOneDefOnly ?l"] 2 Some ok by (simp add: addOcc_def lt_flags_ok_def isOccHasDef_def Let_def)
  next
    case 3
    let ?s = "(setOccHasDef ?l)\<lparr>m_flag := set_flag (m_flag (setOccHasDef ?l)) LT_FLAG_ONE_DEF_ONLY, m_only_def_occ := Some occ\<rparr>"
    have n: "def_occs lt = []" using ok 3 by (simp add: lt_flags_ok_def)
    have "def_occs ?s = [occ]" using d 3 n by (simp add: def_occs_def setOccHasDef_def)
    then have "lt_flags_ok p ?s" using ok assms(2) 3 by (auto simp: lt_flags_ok_def flag_simps)
    moreover have "addOcc p occ lts = lts(p \<mapsto> ?s)" using 3 Some ok
      by (simp add: addOcc_def lt_flags_ok_def isOccHasDef_def Let_def setOneDefOnly_def upd_lt_def setOccHasDef_def)
    ultimately show ?thesis using that by blast
  qed
  then show ?thesis using other by (auto simp: lts_ok_def)
qed

text \<open>The state of a manager that the steps are followed through: ranges, occurrences, the flag invariant.\<close>

abbreviation mranges :: "LifeTimeMgr \<Rightarrow> nat \<Rightarrow> Range list" where "mranges mgr \<equiv> rngs (m_prno2lt mgr)"
abbreviation moccs :: "LifeTimeMgr \<Rightarrow> nat \<Rightarrow> (bool \<times> nat) list" where "moccs mgr \<equiv> occs (m_prno2lt mgr)"
abbreviation mok :: "LifeTimeMgr \<Rightarrow> bool" where "mok mgr \<equiv> lts_ok (m_prno2lt mgr)"

lemma lt_flags_cong:
  "m_prno l' = m_prno l \<Longrightarrow> m_ancestor l' = m_ancestor l \<Longrightarrow> m_occ_list l' = m_occ_list l \<Longrightarrow>
   m_only_def_occ l' = m_only_def_occ l \<Longrightarrow> isOccHasDef l' = isOccHasDef l \<Longrightarrow> isOneDefOnly l' = isOneDefOnly l \<Longrightarrow>
   lt_flags_ok p l' = lt_flags_ok p l"
  by (simp add: lt_flags_ok_def def_occs_def)

lemma upd_lt_simps:
  "dom (upd_lt p f lts) = dom lts"
  "(\<And>l. m_range_vec (f l) = g (m_range_vec l)) \<Longrightarrow> p \<in> dom lts \<Longrightarrow>
     rngs (upd_lt p f lts) q = (if q = p then g (rngs lts p) else rngs lts q)"
  "(\<And>l. m_occ_list (f l) = m_occ_list l) \<Longrightarrow> occs (upd_lt p f lts) q = occs lts q"
  by (auto simp: upd_lt_def rngs_def occs_def split: option.splits)

lemma lts_okI: "lts_ok lts \<Longrightarrow> lt_flags_ok p l \<Longrightarrow> lts_ok (lts(p \<mapsto> l))"
  by (simp add: lts_ok_def)

lemma lts_ok_upd: "lts_ok lts \<Longrightarrow> (\<And>l. lt_flags_ok p l \<Longrightarrow> lt_flags_ok p (f l)) \<Longrightarrow> lts_ok (upd_lt p f lts)"
  by (cases "lts p") (simp_all add: upd_lt_def lts_ok_def)

lemma LifeTime_new_ok: "lt_flags_ok p (LifeTime_new p)"
  by (simp add: lt_flags_ok_def LifeTime_new_def def_occs_def isOccHasDef_def isOneDefOnly_def flag_bits)

lemma genLifeTime_simps [simp]:
  "mranges (genLifeTime p mgr) q = mranges mgr q" "moccs (genLifeTime p mgr) q = moccs mgr q"
  "dom (m_prno2lt (genLifeTime p mgr)) = insert p (dom (m_prno2lt mgr))" "mok mgr \<Longrightarrow> mok (genLifeTime p mgr)"
proof -
  show "mranges (genLifeTime p mgr) q = mranges mgr q" "moccs (genLifeTime p mgr) q = moccs mgr q"
    "dom (m_prno2lt (genLifeTime p mgr)) = insert p (dom (m_prno2lt mgr))"
    by (auto simp: genLifeTime_def rngs_def occs_def LifeTime_new_def split: option.splits)
  show "mok mgr \<Longrightarrow> mok (genLifeTime p mgr)"
    by (simp add: genLifeTime_def lts_okI LifeTime_new_ok split: option.splits)
qed

lemma crossed_update_cases:
  "snd (crossed_update p c lts) = lts \<or>
   snd (crossed_update p c lts) = upd_lt p (\<lambda>lt. lt\<lparr>m_call_crossed_num := u32 (m_call_crossed_num lt + 1)\<rparr>) lts"
  by (cases "m_call2pos c = []"; cases "lts p") (simp_all add: crossed_update_def upd_lt_def Let_def)

lemma update_counter_simps [simp]:
  "mranges (update_counter p mgr) q = mranges mgr q" "moccs (update_counter p mgr) q = moccs mgr q"
  "dom (m_prno2lt (update_counter p mgr)) = dom (m_prno2lt mgr)" "mok mgr \<Longrightarrow> mok (update_counter p mgr)"
proof -
  let ?f = "\<lambda>lt. lt\<lparr>m_call_crossed_num := u32 (m_call_crossed_num lt + 1)\<rparr>"
  let ?l = "m_prno2lt mgr"
  have e: "m_prno2lt (update_counter p mgr) = snd (crossed_update p (m_counter mgr) ?l)"
    by (simp add: update_counter_def split: prod.splits)
  have f: "lt_flags_ok p (?f l) = lt_flags_ok p l" for l by (rule lt_flags_cong) (simp_all add: isOccHasDef_def isOneDefOnly_def)
  have "rngs (snd (crossed_update p (m_counter mgr) ?l)) q = rngs ?l q \<and> occs (snd (crossed_update p (m_counter mgr) ?l)) q = occs ?l q \<and>
      dom (snd (crossed_update p (m_counter mgr) ?l)) = dom ?l \<and> (lts_ok ?l \<longrightarrow> lts_ok (snd (crossed_update p (m_counter mgr) ?l)))"
    using crossed_update_cases [of p "m_counter mgr" ?l]
  proof
    assume u: "snd (crossed_update p (m_counter mgr) ?l) = upd_lt p ?f ?l"
    have "rngs (upd_lt p ?f ?l) q = rngs ?l q" by (auto simp: upd_lt_def rngs_def split: option.splits)
    then show ?thesis unfolding u using upd_lt_simps(1,3) [where f = ?f and p = p and lts = ?l] lts_ok_upd [of ?l p ?f] f by simp
  qed simp
  then show "mranges (update_counter p mgr) q = mranges mgr q" "moccs (update_counter p mgr) q = moccs mgr q"
    "dom (m_prno2lt (update_counter p mgr)) = dom (m_prno2lt mgr)" "mok mgr \<Longrightarrow> mok (update_counter p mgr)"
    unfolding e by simp_all
qed

lemma setPreAssigned_simps [simp]:
  "rngs (upd_lt p setPreAssigned lts) q = rngs lts q" "occs (upd_lt p setPreAssigned lts) q = occs lts q"
  "dom (upd_lt p setPreAssigned lts) = dom lts" "lts_ok lts \<Longrightarrow> lts_ok (upd_lt p setPreAssigned lts)"
proof -
  show "rngs (upd_lt p setPreAssigned lts) q = rngs lts q" "occs (upd_lt p setPreAssigned lts) q = occs lts q"
    "dom (upd_lt p setPreAssigned lts) = dom lts"
    by (auto simp: upd_lt_def rngs_def occs_def setPreAssigned_def split: option.splits)
  have "lt_flags_ok p (setPreAssigned l) = lt_flags_ok p l" for l
    by (rule lt_flags_cong) (simp_all add: flag_simps)
  then show "lts_ok lts \<Longrightarrow> lts_ok (upd_lt p setPreAssigned lts)" using lts_ok_upd by simp
qed

lemma upd_lts_simps [simp]: "m_prno2lt (upd_lts f mgr) = f (m_prno2lt mgr)"
  by (simp add: upd_lts_def)

text \<open>A change of the ranges only.\<close>

lemma upd_ranges_simps:
  assumes "p \<in> dom lts"
  shows "rngs (upd_lt p (\<lambda>lt. lt\<lparr>m_range_vec := f (m_range_vec lt)\<rparr>) lts) q = (if q = p then f (rngs lts p) else rngs lts q)"
    "occs (upd_lt p (\<lambda>lt. lt\<lparr>m_range_vec := f (m_range_vec lt)\<rparr>) lts) q = occs lts q"
    "dom (upd_lt p (\<lambda>lt. lt\<lparr>m_range_vec := f (m_range_vec lt)\<rparr>) lts) = dom lts"
    "lts_ok lts \<Longrightarrow> lts_ok (upd_lt p (\<lambda>lt. lt\<lparr>m_range_vec := f (m_range_vec lt)\<rparr>) lts)"
proof -
  let ?u = "\<lambda>lt. lt\<lparr>m_range_vec := f (m_range_vec lt)\<rparr>"
  have "lt_flags_ok p (?u l) = lt_flags_ok p l" for l by (rule lt_flags_cong) (simp_all add: isOccHasDef_def isOneDefOnly_def)
  then show "lts_ok lts \<Longrightarrow> lts_ok (upd_lt p ?u lts)" using lts_ok_upd by simp
qed (use upd_lt_simps assms in simp_all)

lemma lt_addRange_simps:
  assumes "p \<in> dom lts"
  shows "rngs (lt_addRange p x y lts) q = (if q = p then addRange (rngs lts p) x y else rngs lts q)"
    "occs (lt_addRange p x y lts) q = occs lts q" "dom (lt_addRange p x y lts) = dom lts"
    "lts_ok lts \<Longrightarrow> lts_ok (lt_addRange p x y lts)"
  using upd_ranges_simps [OF assms, of "\<lambda>rv. addRange rv x y"] by (simp_all add: lt_addRange_def)

lemma use_range_step: "use_range L pos lt = lt\<lparr>m_range_vec := range_step L (m_range_vec lt) (False, pos)\<rparr>"
  by (simp add: use_range_def range_step_def Let_def)

definition proj :: "nat \<Rightarrow> (nat \<times> bool \<times> nat) list \<Rightarrow> (bool \<times> nat) list" where
  "proj p acts = map snd (filter (\<lambda>a. fst a = p) acts)"

lemma proj_simps [simp]: "proj p [] = []" "proj p ((q, e) # acts) = (if q = p then e # proj p acts else proj p acts)"
  "proj p (acts @ acts') = proj p acts @ proj p acts'"
  by (auto simp: proj_def)

definition follows :: "nat \<Rightarrow> (nat \<times> bool \<times> nat) list \<Rightarrow> LifeTimeMgr \<Rightarrow> LifeTimeMgr \<Rightarrow> bool" where
  "follows L acts mgr mgr' \<longleftrightarrow>
     (\<forall>p. mranges mgr' p = foldl (range_step L) (mranges mgr p) (proj p acts) \<and> moccs mgr' p = moccs mgr p @ proj p acts) \<and>
     (mok mgr \<longrightarrow> mok mgr')"

lemma follows_refl: "follows L [] mgr mgr" by (simp add: follows_def)

lemma follows_trans: "follows L a m1 m2 \<Longrightarrow> follows L b m2 m3 \<Longrightarrow> follows L (a @ b) m1 m3"
  by (auto simp: follows_def)

lemma follows_counter: "follows L a (m\<lparr>m_counter := c\<rparr>) m' \<longleftrightarrow> follows L a m m'"
  by (simp add: follows_def)

lemma computeUSE_follows: "follows L [(p, False, pos)] mgr (computeUSE pre L pos p mgr)"
proof -
  define m1 where "m1 = (if pre p then upd_lts (upd_lt p setPreAssigned) (genLifeTime p mgr) else genLifeTime p mgr)"
  have m1: "mranges m1 q = mranges mgr q" "moccs m1 q = moccs mgr q" "p \<in> dom (m_prno2lt m1)" "mok mgr \<Longrightarrow> mok m1" for q
    by (simp_all add: m1_def)
  define m2 where "m2 = upd_lts (upd_lt p (use_range L pos)) m1"
  have "use_range L pos = (\<lambda>lt. lt\<lparr>m_range_vec := range_step L (m_range_vec lt) (False, pos)\<rparr>)"
    by (rule ext) (rule use_range_step)
  then have m2: "mranges m2 q = (if q = p then range_step L (mranges m1 p) (False, pos) else mranges m1 q)"
      "moccs m2 q = moccs m1 q" "p \<in> dom (m_prno2lt m2)" "mok m1 \<Longrightarrow> mok m2" for q
    using upd_ranges_simps [OF m1(3), of "\<lambda>rv. range_step L rv (False, pos)"] m1(3) by (simp_all add: m2_def)
  let ?o = "\<lparr>m_is_def = False, m_opos = pos, m_ir = ExpRef p\<rparr>"
  have "mok m1 \<Longrightarrow> lts_ok (addOcc p ?o (m_prno2lt m2))" by (rule lts_ok_addOcc) (simp_all add: m2(4) isDefOcc_def)
  then show ?thesis
    using m1 m2 occs_addOcc [OF m2(3), of ?o]
    by (auto simp: computeUSE_def Let_def follows_def occ_ev_def m1_def [symmetric] m2_def [symmetric])
qed

definition read_acts :: "(nat \<Rightarrow> bool) \<Rightarrow> nat \<Rightarrow> nat list \<Rightarrow> (nat \<times> bool \<times> nat) list" where
  "read_acts cand pos reads = map (\<lambda>p. (p, False, pos)) (filter cand reads)"

lemma computeRHS_follows: "follows L (read_acts cand pos (st_reads ir)) mgr (computeRHS cand pre ir pos L mgr)"
proof -
  have "follows L (read_acts cand pos reads) mgr (fold (\<lambda>p mgr. if cand p then computeUSE pre L pos p mgr else mgr) reads mgr)"
    for reads mgr
  proof (induction reads arbitrary: mgr)
    case (Cons p reads)
    then show ?case
      using follows_trans [OF computeUSE_follows [of L p pos mgr pre]] by (auto simp: read_acts_def)
  qed (simp add: read_acts_def follows_refl)
  then show ?thesis by (simp add: computeRHS_def)
qed

definition def_acts :: "(nat \<Rightarrow> bool) \<Rightarrow> nat \<Rightarrow> RaStmt \<Rightarrow> (nat \<times> bool \<times> nat) list" where
  "def_acts cand pos ir =
     (case st_result ir of None \<Rightarrow> [] | Some p \<Rightarrow> if \<not> st_call ir \<and> \<not> cand p then [] else [(p, True, pos)])"

lemma computeLHS_follows: "follows L (def_acts cand pos ir) mgr (computeLHS cand pre ir pos mgr)"
proof (cases "\<exists>p. st_result ir = Some p \<and> (st_call ir \<or> cand p)")
  case False
  then show ?thesis by (auto simp: def_acts_def computeLHS_def follows_refl split: option.splits)
next
  case True
  then obtain p where p: "st_result ir = Some p" "st_call ir \<or> cand p" by blast
  define m1 where "m1 = (if pre p then upd_lts (upd_lt p setPreAssigned) (genLifeTime p mgr) else genLifeTime p mgr)"
  have m1: "mranges m1 q = mranges mgr q" "moccs m1 q = moccs mgr q" "p \<in> dom (m_prno2lt m1)" "mok mgr \<Longrightarrow> mok m1" for q
    by (simp_all add: m1_def)
  note a = lt_addRange_simps [OF m1(3), of pos pos]
  let ?o = "\<lparr>m_is_def = True, m_opos = pos, m_ir = StmtRef (st_result ir)\<rparr>"
  have "mok m1 \<Longrightarrow> lts_ok (addOcc p ?o (lt_addRange p pos pos (m_prno2lt m1)))"
    by (rule lts_ok_addOcc) (simp_all add: a isDefOcc_def p)
  moreover have "p \<in> dom (lt_addRange p pos pos (m_prno2lt m1))" using a(3) m1(3) by simp
  ultimately show ?thesis
    using m1 a p occs_addOcc [of p "lt_addRange p pos pos (m_prno2lt m1)" ?o]
    by (auto simp: computeLHS_def def_acts_def Let_def follows_def occ_ev_def range_step_def m1_def [symmetric])
qed

text \<open>The events of a block.\<close>

fun bb_acts :: "(nat \<Rightarrow> bool) \<Rightarrow> RaStmt list \<Rightarrow> UpdatePos \<Rightarrow> (nat \<times> bool \<times> nat) list" where
  "bb_acts cand [] up = []"
| "bb_acts cand (ir # irs) up =
     (case updateAtIR (st_gap ir) up of
        None \<Rightarrow> bb_acts cand irs up
      | Some (dpos, upos, up) \<Rightarrow> (read_acts cand upos (st_reads ir) @ def_acts cand dpos ir) @ bb_acts cand irs up)"

fun bb_up :: "RaStmt list \<Rightarrow> UpdatePos \<Rightarrow> UpdatePos" where
  "bb_up [] up = up"
| "bb_up (ir # irs) up = (case updateAtIR (st_gap ir) up of None \<Rightarrow> bb_up irs up | Some (dpos, upos, up) \<Rightarrow> bb_up irs up)"

lemma computeLifeTimeBB_follows:
  "fst (computeLifeTimeBB cand pre L irs up mgr) = bb_up irs up \<and>
   follows L (bb_acts cand irs up) mgr (snd (computeLifeTimeBB cand pre L irs up mgr))"
proof (induction irs arbitrary: up mgr)
  case (Cons ir irs)
  show ?case
  proof (cases "updateAtIR (st_gap ir) up")
    case (Some x)
    obtain d u up' where x: "x = (d, u, up')" by (cases x)
    define m1 where "m1 = (if st_call ir \<and> \<not> st_intrinsic ir then mgr\<lparr>m_counter := addNewCall d (m_counter mgr)\<rparr> else mgr)"
    let ?m2 = "computeRHS cand pre ir u L m1"
    let ?m3 = "computeLHS cand pre ir d ?m2"
    have "follows L (read_acts cand u (st_reads ir)) mgr ?m2"
      using computeRHS_follows [of L cand u ir m1 pre] by (auto simp: m1_def follows_counter split: if_splits)
    then have "follows L (read_acts cand u (st_reads ir) @ def_acts cand d ir) mgr ?m3"
      by (rule follows_trans [OF _ computeLHS_follows])
    then have "follows L ((read_acts cand u (st_reads ir) @ def_acts cand d ir) @ bb_acts cand irs up') mgr
        (snd (computeLifeTimeBB cand pre L irs up' ?m3))"
      by (rule follows_trans [OF _ conjunct2 [OF Cons.IH]])
    then show ?thesis using Cons.IH [of up' ?m3] Some x by (simp add: Let_def m1_def [symmetric])
  qed (simp add: Cons.IH)
qed (simp add: follows_refl)

section \<open>Positions\<close>

lemma up_update_eq:
  "m_pos up + 2 < 4294967296 \<Longrightarrow> up_update up = (m_pos up + 1, m_pos up, up\<lparr>m_pos := m_pos up + 2\<rparr>)"
  by (simp add: up_update_def Let_def)

definition evs_in :: "nat \<Rightarrow> nat \<Rightarrow> (bool \<times> nat) list \<Rightarrow> bool" where
  "evs_in lo hi evs \<longleftrightarrow> sorted_wrt ev_before evs \<and> (\<forall>e\<in>set evs. lo \<le> snd e \<and> snd e < hi)"

lemma evs_in_Nil [simp]: "evs_in lo hi []" by (simp add: evs_in_def)

lemma evs_in_append: "evs_in lo mid a \<Longrightarrow> evs_in mid hi b \<Longrightarrow> lo \<le> mid \<Longrightarrow> mid \<le> hi \<Longrightarrow> evs_in lo hi (a @ b)"
  by (fastforce simp: evs_in_def sorted_wrt_append ev_before_def)

lemma evs_in_mono: "evs_in lo hi a \<Longrightarrow> lo' \<le> lo \<Longrightarrow> hi \<le> hi' \<Longrightarrow> evs_in lo' hi' a"
  by (fastforce simp: evs_in_def)

lemma evs_in_ok: "evs_in L hi evs \<Longrightarrow> 0 < L \<Longrightarrow> evs_ok L evs"
  by (simp add: evs_in_def evs_ok_def)

lemma proj_read_acts: "proj p (read_acts cand u reads) = (if cand p then replicate (count_list reads p) (False, u) else [])"
  by (induction reads) (auto simp: read_acts_def)

lemma proj_def_acts:
  "proj p (def_acts cand d ir) = (if st_result ir = Some p \<and> (st_call ir \<or> cand p) then [(True, d)] else [])"
  by (auto simp: def_acts_def split: option.splits)

lemma sorted_replicate_use: "sorted_wrt ev_before (replicate n (False, u))"
  by (induction n) (auto simp: ev_before_def)

lemma proj_stmt_in: "evs_in u (u + 2) (proj p (read_acts cand u reads @ def_acts cand (u + 1) ir))"
proof -
  have "evs_in u (u + 1) (proj p (read_acts cand u reads))"
    by (auto simp: proj_read_acts evs_in_def sorted_replicate_use)
  moreover have "evs_in (u + 1) (u + 2) (proj p (def_acts cand (u + 1) ir))" by (simp add: proj_def_acts evs_in_def)
  ultimately show ?thesis unfolding proj_simps by (rule evs_in_append) simp_all
qed

lemma bb_acts_in:
  "m_pos up + 2 * length irs < 4294967296 \<Longrightarrow>
   m_pos up \<le> m_pos (bb_up irs up) \<and> m_pos (bb_up irs up) \<le> m_pos up + 2 * length irs \<and>
   m_use_expose (bb_up irs up) = m_use_expose up \<and> evs_in (m_pos up) (m_pos (bb_up irs up)) (proj p (bb_acts cand irs up))"
proof (induction irs arbitrary: up)
  case (Cons ir irs)
  show ?case
  proof (cases "st_gap ir")
    case True
    then show ?thesis using Cons.IH [of up] Cons.prems by (simp add: updateAtIR_def)
  next
    case False
    let ?up = "up\<lparr>m_pos := m_pos up + 2\<rparr>"
    have u: "updateAtIR (st_gap ir) up = Some (m_pos up + 1, m_pos up, ?up)"
      using False Cons.prems by (simp add: updateAtIR_def up_update_eq)
    have ih: "m_pos up + 2 \<le> m_pos (bb_up irs ?up)" "m_pos (bb_up irs ?up) \<le> m_pos up + 2 + 2 * length irs"
      "m_use_expose (bb_up irs ?up) = m_use_expose up"
      "evs_in (m_pos up + 2) (m_pos (bb_up irs ?up)) (proj p (bb_acts cand irs ?up))"
      using Cons.IH [of ?up] Cons.prems by simp_all
    have "evs_in (m_pos up) (m_pos (bb_up irs ?up))
        (proj p (read_acts cand (m_pos up) (st_reads ir) @ def_acts cand (m_pos up + 1) ir) @ proj p (bb_acts cand irs ?up))"
      by (rule evs_in_append [OF proj_stmt_in ih(4)]) (use ih(1) in simp_all)
    then show ?thesis using u ih by (simp del: append_assoc)
  qed
qed simp

section \<open>The one-dimensional manager\<close>

fun region_acts :: "(nat \<Rightarrow> bool) \<Rightarrow> RaBB list \<Rightarrow> UpdatePos \<Rightarrow> (nat \<times> bool \<times> nat) list" where
  "region_acts cand [] up = []"
| "region_acts cand (bb # bbs) up =
     (let (d, u, up) = (case updateAtBBEntry up of Some x \<Rightarrow> x | None \<Rightarrow> (0, 0, up));
          acts = bb_acts cand (bb_irs bb) up; up = bb_up (bb_irs bb) up;
          (d, u, up) = (case updateAtBBExit up of Some x \<Rightarrow> x | None \<Rightarrow> (0, 0, up))
      in acts @ region_acts cand bbs up)"

definition region_size :: "RaBB list \<Rightarrow> nat" where
  "region_size bbs = sum_list (map (\<lambda>bb. 4 + 2 * length (bb_irs bb)) bbs)"

lemma follows_setpos: "follows L a (m\<lparr>m_bb_entry_pos := x\<rparr>) m' = follows L a m m'"
  "follows L a m (m'\<lparr>m_bb_exit_pos := x\<rparr>) = follows L a m m'"
  by (simp_all add: follows_def)

lemma lifetime_blocks_follows:
  "follows L (region_acts cand bbs up) mgr (snd (lifetime_blocks cand pre L bbs up mgr))"
proof (induction bbs arbitrary: up mgr)
  case (Cons bb bbs)
  obtain d u up1 where e: "(case updateAtBBEntry up of Some x \<Rightarrow> x | None \<Rightarrow> (0, 0, up)) = (d, u, up1)" by (metis prod_cases3)
  define m1 where "m1 = mgr\<lparr>m_bb_entry_pos := (m_bb_entry_pos mgr)(bb_id bb \<mapsto> d)\<rparr>"
  obtain up2 m2 where c: "computeLifeTimeBB cand pre L (bb_irs bb) up1 m1 = (up2, m2)" by force
  obtain d' u' up3 where x: "(case updateAtBBExit up2 of Some x \<Rightarrow> x | None \<Rightarrow> (0, 0, up2)) = (d', u', up3)" by (metis prod_cases3)
  define m3 where "m3 = m2\<lparr>m_bb_exit_pos := (m_bb_exit_pos m2)(bb_id bb \<mapsto> u')\<rparr>"
  have c': "up2 = bb_up (bb_irs bb) up1" "follows L (bb_acts cand (bb_irs bb) up1) m1 m2"
    using computeLifeTimeBB_follows [of cand pre L "bb_irs bb" up1 m1] c by simp_all
  then have "follows L (bb_acts cand (bb_irs bb) up1) mgr m3" by (simp add: m1_def m3_def follows_setpos)
  from follows_trans [OF this Cons.IH [of up3 m3]] show ?case
    using e x [unfolded c'(1)] c [unfolded c'(1)] by (simp add: updateBBEntryPos_def updateBBExitPos_def Let_def m1_def m3_def)
qed (simp add: follows_refl)

lemma bb_entry_eq:
  assumes "m_pos up + 2 < 4294967296"
  shows "(case updateAtBBEntry up of Some x \<Rightarrow> x | None \<Rightarrow> (0, 0, up)) =
      (if m_use_expose up then (m_pos up + 1, m_pos up, up\<lparr>m_pos := m_pos up + 2\<rparr>) else (0, 0, up))"
    "(case updateAtBBExit up of Some x \<Rightarrow> x | None \<Rightarrow> (0, 0, up)) =
      (if m_use_expose up then (m_pos up + 1, m_pos up, up\<lparr>m_pos := m_pos up + 2\<rparr>) else (0, 0, up))"
  using assms by (simp_all add: updateAtBBEntry_def updateAtBBExit_def up_update_eq)

lemma region_acts_in:
  "m_pos up + region_size bbs < 4294967296 \<Longrightarrow>
   evs_in (m_pos up) (m_pos up + region_size bbs) (proj p (region_acts cand bbs up))"
proof (induction bbs arbitrary: up)
  case (Cons bb bbs)
  let ?n = "2 * length (bb_irs bb)"
  define up1 where "up1 = (if m_use_expose up then up\<lparr>m_pos := m_pos up + 2\<rparr> else up)"
  define up2 where "up2 = bb_up (bb_irs bb) up1"
  define up3 where "up3 = (if m_use_expose up2 then up2\<lparr>m_pos := m_pos up2 + 2\<rparr> else up2)"
  have b: "m_pos up + 4 + ?n + region_size bbs < 4294967296" using Cons.prems by (simp add: region_size_def)
  have p1: "m_pos up \<le> m_pos up1" "m_pos up1 \<le> m_pos up + 2" by (auto simp: up1_def)
  have a: "m_pos up1 \<le> m_pos up2" "m_pos up2 \<le> m_pos up1 + ?n" "evs_in (m_pos up1) (m_pos up2) (proj p (bb_acts cand (bb_irs bb) up1))"
    using bb_acts_in [of up1 "bb_irs bb" p cand] b p1 by (auto simp: up2_def)
  have p3: "m_pos up2 \<le> m_pos up3" "m_pos up3 \<le> m_pos up2 + 2" by (auto simp: up3_def)
  have "evs_in (m_pos up3) (m_pos up3 + region_size bbs) (proj p (region_acts cand bbs up3))"
    using Cons.IH [of up3] b p1 a p3 by simp
  then have "evs_in (m_pos up) (m_pos up3 + region_size bbs) (proj p (bb_acts cand (bb_irs bb) up1) @ proj p (region_acts cand bbs up3))"
    by (rule evs_in_append [rotated]) (use a(3) p1 p3 a in \<open>auto intro: evs_in_mono\<close>)
  moreover have "region_acts cand (bb # bbs) up = bb_acts cand (bb_irs bb) up1 @ region_acts cand bbs up3"
  proof -
    have e: "(case updateAtBBEntry up of Some x \<Rightarrow> x | None \<Rightarrow> (0, 0, up)) = (if m_use_expose up then (m_pos up + 1, m_pos up, up1) else (0, 0, up1))"
      using bb_entry_eq(1) [of up] b by (simp add: up1_def)
    have x: "(case updateAtBBExit up2 of Some x \<Rightarrow> x | None \<Rightarrow> (0, 0, up2)) = (if m_use_expose up2 then (m_pos up2 + 1, m_pos up2, up3) else (0, 0, up3))"
      using bb_entry_eq(2) [of up2] b p1 a by (simp add: up3_def)
    show ?thesis using e x [unfolded up2_def] by (simp add: Let_def)
  qed
  moreover have "m_pos up3 + region_size bbs \<le> m_pos up + region_size (bb # bbs)" using p1 a p3 by (simp add: region_size_def)
  ultimately show ?case by (auto intro: evs_in_mono)
qed simp

lemma verify_occs_iff: "verify_occs prev ol \<longleftrightarrow> sorted (prev # map m_opos ol)"
  by (induction ol arbitrary: prev) (auto intro: order_trans)

lemma evs_sorted: "sorted_wrt ev_before evs \<Longrightarrow> sorted (map snd evs)"
  by (induction evs) (auto simp: ev_before_def)

text \<open>A lifetime whose ranges and occurrences come from events in order.\<close>

lemma lt_verify_events:
  assumes "evs_ok L evs" "m_range_vec lt = ranges_of L evs" "map occ_ev (m_occ_list lt) = oevs" "sorted_wrt ev_before oevs"
    "\<forall>e\<in>set oevs. L \<le> snd e"
  shows "lt_verify lt"
proof -
  have "map m_opos (m_occ_list lt) = map snd oevs" using assms(3) by (auto simp: occ_ev_def)
  then have "verifyOccList (m_occ_list lt)"
    using evs_sorted [OF assms(4)] assms(1,5) by (fastforce simp: verifyOccList_def verify_occs_iff POS_INIT_VAL_def evs_ok_def)
  then show ?thesis using ranges_of_correct [OF assms(1)] assms(2) by (simp add: lt_verify_def verifyRangeVec_iff ranges_inv_def)
qed

lemma ltm_init_simps [simp]: "mranges ltm_init p = []" "moccs ltm_init p = []" "mok ltm_init"
  by (simp_all add: ltm_init_def rngs_def occs_def lts_ok_def)

end
