(* ===== verification/LifeTime2D.thy ===== *)
theory LifeTime2D
  imports LifeTimeProps
begin

text \<open>
  The lifetimes of \<open>LifeTime2DMgr\<close> are program-point liveness: when the live sets of the blocks satisfy the equation of
  live variables, a register's ranges hold exactly the positions of each block at which it is defined or its value is
  still needed.
\<close>

section \<open>Blocks\<close>

text \<open>The statements that get positions, and what a block reads before writing and writes.\<close>

fun bb_exposed :: "nat \<Rightarrow> RaStmt list \<Rightarrow> bool" where
  "bb_exposed p [] \<longleftrightarrow> False"
| "bb_exposed p (ir # irs) \<longleftrightarrow>
     (if st_gap ir then bb_exposed p irs
      else p \<in> set (st_reads ir) \<or> st_result ir \<noteq> Some p \<and> bb_exposed p irs)"

definition bb_defines :: "nat \<Rightarrow> RaStmt list \<Rightarrow> bool" where
  "bb_defines p irs \<longleftrightarrow> (\<exists>ir\<in>set irs. \<not> st_gap ir \<and> st_result ir = Some p)"

lemma bb_acts_defines:
  assumes "cand p" "m_pos up + 2 * length irs < 4294967296"
  shows "(\<exists>d. (True, d) \<in> set (proj p (bb_acts cand irs up))) \<longleftrightarrow> bb_defines p irs"
  using assms(2)
proof (induction irs arbitrary: up)
  case (Cons ir irs)
  show ?case
  proof (cases "st_gap ir")
    case True
    then show ?thesis using Cons by (auto simp: updateAtIR_def bb_defines_def)
  next
    case False
    let ?up = "up\<lparr>m_pos := m_pos up + 2\<rparr>"
    have "updateAtIR (st_gap ir) up = Some (m_pos up + 1, m_pos up, ?up)"
      using False Cons.prems by (simp add: updateAtIR_def up_update_eq)
    moreover have "(\<exists>d. (True, d) \<in> set (proj p (bb_acts cand irs ?up))) \<longleftrightarrow> bb_defines p irs"
      using Cons.IH [of ?up] Cons.prems by simp
    ultimately show ?thesis using False assms(1)
      by (auto simp: proj_read_acts proj_def_acts bb_defines_def)
  qed
qed (simp add: bb_defines_def)

definition ev_exposed :: "(bool \<times> nat) list \<Rightarrow> bool" where
  "ev_exposed evs \<longleftrightarrow> (\<exists>u. (False, u) \<in> set evs \<and> (\<forall>d. (True, d) \<in> set evs \<longrightarrow> u < d))"

lemma ev_exposed_hd: "sorted_wrt ev_before evs \<Longrightarrow> evs \<noteq> [] \<Longrightarrow> \<not> ev_exposed evs \<Longrightarrow> fst (hd evs)"
  by (cases evs) (force simp: ev_exposed_def ev_before_def)+

lemma bb_acts_exposed:
  assumes "cand p" "m_pos up + 2 * length irs < 4294967296"
  shows "ev_exposed (proj p (bb_acts cand irs up)) \<longleftrightarrow> bb_exposed p irs"
  using assms(2)
proof (induction irs arbitrary: up)
  case (Cons ir irs)
  show ?case
  proof (cases "st_gap ir")
    case True
    then show ?thesis using Cons by (simp add: updateAtIR_def)
  next
    case False
    let ?up = "up\<lparr>m_pos := m_pos up + 2\<rparr>"
    let ?t = "proj p (bb_acts cand irs ?up)"
    have u: "updateAtIR (st_gap ir) up = Some (m_pos up + 1, m_pos up, ?up)"
      using False Cons.prems by (simp add: updateAtIR_def up_update_eq)
    have ih: "ev_exposed ?t \<longleftrightarrow> bb_exposed p irs" using Cons.IH [of ?up] Cons.prems by simp
    have "evs_in (m_pos up + 2) (m_pos (bb_up irs ?up)) ?t" using bb_acts_in [of ?up irs p cand] Cons.prems by simp
    then have t: "\<forall>e\<in>set ?t. m_pos up + 2 \<le> snd e" by (simp add: evs_in_def)
    have e: "set (proj p (bb_acts cand (ir # irs) up)) =
        (if p \<in> set (st_reads ir) then {(False, m_pos up)} else {}) \<union>
        (if st_result ir = Some p then {(True, m_pos up + 1)} else {}) \<union> set ?t"
      using u assms(1) by (auto simp: proj_read_acts proj_def_acts count_list_0_iff)
    consider "p \<in> set (st_reads ir)" | "p \<notin> set (st_reads ir)" "st_result ir = Some p"
      | "p \<notin> set (st_reads ir)" "st_result ir \<noteq> Some p" by blast
    then show ?thesis
    proof cases
      case 1
      have "\<forall>d. (True, d) \<in> set (proj p (bb_acts cand (ir # irs) up)) \<longrightarrow> m_pos up < d"
        unfolding e using t by (auto split: if_splits dest!: bspec)
      then have "ev_exposed (proj p (bb_acts cand (ir # irs) up))"
        unfolding ev_exposed_def using 1 e by (intro exI [of _ "m_pos up"]) simp
      then show ?thesis using 1 False by simp
    next
      case 2
      then have s: "set (proj p (bb_acts cand (ir # irs) up)) = insert (True, m_pos up + 1) (set ?t)" using e by simp
      have "\<not> ev_exposed (proj p (bb_acts cand (ir # irs) up))"
        unfolding ev_exposed_def s using t by fastforce
      then show ?thesis using 2 False by simp
    next
      case 3
      then have "set (proj p (bb_acts cand (ir # irs) up)) = set ?t" using e by simp
      then show ?thesis using ih 3 False by (simp add: ev_exposed_def)
    qed
  qed
qed (simp add: ev_exposed_def)

section \<open>Events of a block with its live sets\<close>

definition livein_acts :: "(nat \<Rightarrow> bool) \<Rightarrow> nat list \<Rightarrow> nat \<Rightarrow> (nat \<times> bool \<times> nat) list" where
  "livein_acts cand live_in d = map (\<lambda>p. (p, True, d)) (filter cand live_in)"

definition liveout_acts :: "(nat \<Rightarrow> bool) \<Rightarrow> nat list \<Rightarrow> nat \<Rightarrow> (nat \<times> bool \<times> nat) list" where
  "liveout_acts cand live_out u = map (\<lambda>p. (p, False, u)) (filter cand live_out)"

definition live_follows :: "nat \<Rightarrow> (nat \<times> bool \<times> nat) list \<Rightarrow> LifeTimeMgr \<Rightarrow> LifeTimeMgr \<Rightarrow> bool" where
  "live_follows L acts mgr mgr' \<longleftrightarrow>
     (\<forall>p. mranges mgr' p = foldl (range_step L) (mranges mgr p) (proj p acts) \<and> moccs mgr' p = moccs mgr p) \<and>
     (mok mgr \<longrightarrow> mok mgr')"

lemma live_follows_trans: "live_follows L a m1 m2 \<Longrightarrow> live_follows L b m2 m3 \<Longrightarrow> live_follows L (a @ b) m1 m3"
  by (auto simp: live_follows_def)

lemma mergeLiveIn_follows: "live_follows L (livein_acts cand live_in d) mgr (mergeLiveIn cand live_in d mgr)"
proof -
  let ?f = "\<lambda>pr mgr. if cand pr then upd_lts (lt_addRange pr d d) (genLifeTime pr mgr) else mgr"
  have "live_follows L (livein_acts cand ps d) mgr (fold ?f ps mgr)" for ps mgr
  proof (induction ps arbitrary: mgr)
    case (Cons p ps)
    have s: "live_follows L (if cand p then [(p, True, d)] else []) mgr (?f p mgr)"
      using lt_addRange_simps [of p "m_prno2lt (genLifeTime p mgr)" d d]
      by (simp add: live_follows_def range_step_def)
    have "livein_acts cand (p # ps) d = (if cand p then [(p, True, d)] else []) @ livein_acts cand ps d"
      by (simp add: livein_acts_def)
    then show ?case using live_follows_trans [OF s Cons.IH] by simp
  qed (simp add: livein_acts_def live_follows_def)
  then show ?thesis by (simp add: mergeLiveIn_def)
qed

definition has_range :: "LifeTimeMgr \<Rightarrow> nat \<Rightarrow> bool" where
  "has_range mgr p \<longleftrightarrow> mranges mgr p \<noteq> [] \<and> m_start (last (mranges mgr p)) \<noteq> 0"

lemma range_step_extend:
  "rv \<noteq> [] \<Longrightarrow> m_start (last rv) \<noteq> 0 \<Longrightarrow>
   range_step L rv (False, u) = setLastRange rv ((getLastRange rv)\<lparr>m_end := u\<rparr>) \<and>
   range_step L rv (False, u) \<noteq> [] \<and> m_start (last (range_step L rv (False, u))) = m_start (last rv)"
proof -
  assume a: "rv \<noteq> []" "m_start (last rv) \<noteq> 0"
  then have "rv[length rv - 1 := x] = butlast rv @ [x]" for x
    by (metis append_butlast_last_id length_butlast list_update_length)
  then show ?thesis using a by (simp add: range_step_def getLastRange_def setLastRange_def POS_UNDEF_def Let_def)
qed

lemma mergeLiveOut_follows:
  assumes "\<forall>p\<in>set live_out. cand p \<longrightarrow> has_range mgr p"
  shows "live_follows L (liveout_acts cand live_out u) mgr (mergeLiveOut cand live_out u mgr)"
proof -
  let ?g = "\<lambda>rv. setLastRange rv ((getLastRange rv)\<lparr>m_end := u\<rparr>)"
  let ?f = "\<lambda>pr mgr. if cand pr then upd_lts (upd_lt pr (\<lambda>lt. lt\<lparr>m_range_vec := ?g (m_range_vec lt)\<rparr>)) (genLifeTime pr mgr) else mgr"
  have "live_follows L (liveout_acts cand ps u) mgr (fold ?f ps mgr)" if "\<forall>p\<in>set ps. cand p \<longrightarrow> has_range mgr p" for ps mgr
    using that
  proof (induction ps arbitrary: mgr)
    case (Cons p ps)
    have s: "live_follows L (if cand p then [(p, False, u)] else []) mgr (?f p mgr)"
      using upd_ranges_simps [of p "m_prno2lt (genLifeTime p mgr)" ?g] Cons.prems range_step_extend [of "mranges mgr p" L u]
      by (simp add: live_follows_def has_range_def)
    have "has_range (?f p mgr) q" if "q \<in> set ps" "cand q" for q
      using s Cons.prems that range_step_extend [of "mranges mgr p" L u]
      unfolding live_follows_def has_range_def by (cases "q = p") auto
    then have "live_follows L (liveout_acts cand ps u) (?f p mgr) (fold ?f ps (?f p mgr))" using Cons.IH by blast
    moreover have "liveout_acts cand (p # ps) u = (if cand p then [(p, False, u)] else []) @ liveout_acts cand ps u"
      by (simp add: liveout_acts_def)
    ultimately show ?case using live_follows_trans [OF s] by simp
  qed (simp add: liveout_acts_def live_follows_def)
  then show ?thesis using assms by (simp add: mergeLiveOut_def)
qed

lemma proj_livein: "distinct live_in \<Longrightarrow> proj p (livein_acts cand live_in d) = (if cand p \<and> p \<in> set live_in then [(True, d)] else [])"
  by (induction live_in) (auto simp: livein_acts_def)

lemma proj_liveout: "proj p (liveout_acts cand live_out u) = (if cand p then replicate (count_list live_out p) (False, u) else [])"
  by (induction live_out) (auto simp: liveout_acts_def)

text \<open>The equation of live variables for one block.\<close>

definition live_sets_ok :: "(nat \<Rightarrow> bool) \<Rightarrow> nat list \<Rightarrow> nat list \<Rightarrow> RaStmt list \<Rightarrow> bool" where
  "live_sets_ok cand live_in live_out irs \<longleftrightarrow>
     distinct live_in \<and>
     (\<forall>p. cand p \<longrightarrow> (p \<in> set live_in \<longleftrightarrow> bb_exposed p irs \<or> p \<in> set live_out \<and> \<not> bb_defines p irs))"

text \<open>The events of a block that is entered with the counter \<open>up\<close>.\<close>

definition block_acts :: "(nat \<Rightarrow> bool) \<Rightarrow> nat list \<Rightarrow> nat list \<Rightarrow> RaStmt list \<Rightarrow> UpdatePos \<Rightarrow> (nat \<times> bool \<times> nat) list" where
  "block_acts cand live_in live_out irs up =
     (let up1 = up\<lparr>m_pos := m_pos up + 2\<rparr>
      in livein_acts cand live_in (m_pos up + 1) @ bb_acts cand irs up1 @ liveout_acts cand live_out (m_pos (bb_up irs up1)))"

definition block_up :: "RaStmt list \<Rightarrow> UpdatePos \<Rightarrow> UpdatePos" where
  "block_up irs up = (let up2 = bb_up irs (up\<lparr>m_pos := m_pos up + 2\<rparr>) in up2\<lparr>m_pos := m_pos up2 + 2\<rparr>)"

lemma block_up_pos:
  "m_pos up + 4 + 2 * length irs < 4294967296 \<Longrightarrow>
   m_pos up + 4 \<le> m_pos (block_up irs up) \<and> m_pos (block_up irs up) \<le> m_pos up + 4 + 2 * length irs \<and>
   m_use_expose (block_up irs up) = m_use_expose up"
  using bb_acts_in [of "up\<lparr>m_pos := m_pos up + 2\<rparr>" irs] by (simp add: block_up_def Let_def)

lemma block_acts_in:
  assumes "m_pos up + 4 + 2 * length irs < 4294967296" "distinct live_in"
  shows "evs_in (m_pos up) (m_pos (block_up irs up)) (proj p (block_acts cand live_in live_out irs up))"
proof -
  let ?up1 = "up\<lparr>m_pos := m_pos up + 2\<rparr>"
  let ?X = "m_pos (bb_up irs ?up1)"
  have b: "m_pos up + 2 \<le> ?X" "evs_in (m_pos up + 2) ?X (proj p (bb_acts cand irs ?up1))"
    using bb_acts_in [of ?up1 irs p cand] assms(1) by simp_all
  have i: "evs_in (m_pos up) (m_pos up + 2) (proj p (livein_acts cand live_in (m_pos up + 1)))"
    using assms(2) by (simp add: proj_livein evs_in_def)
  have o: "evs_in ?X (?X + 2) (proj p (liveout_acts cand live_out ?X))"
    by (auto simp: proj_liveout evs_in_def sorted_replicate_use)
  show ?thesis unfolding block_acts_def block_up_def Let_def proj_simps
    using evs_in_append [OF i evs_in_append [OF b(2) o]] b(1) by simp
qed

text \<open>The events of a block start with an opening one.\<close>

lemma bb_acts_no_cand: "\<not> cand p \<Longrightarrow> e \<in> set (proj p (bb_acts cand irs up)) \<Longrightarrow> fst e"
  by (induction irs arbitrary: up) (auto simp: proj_read_acts proj_def_acts split: option.splits if_splits)

lemma block_acts_hd:
  assumes "m_pos up + 4 + 2 * length irs < 4294967296" "live_sets_ok cand live_in live_out irs"
    "proj p (block_acts cand live_in live_out irs up) \<noteq> []"
  shows "fst (hd (proj p (block_acts cand live_in live_out irs up)))"
proof -
  let ?up1 = "up\<lparr>m_pos := m_pos up + 2\<rparr>"
  let ?B = "proj p (bb_acts cand irs ?up1)"
  let ?O = "proj p (liveout_acts cand live_out (m_pos (bb_up irs ?up1)))"
  have d: "distinct live_in" using assms(2) by (simp add: live_sets_ok_def)
  have c: "proj p (block_acts cand live_in live_out irs up) =
      (if cand p \<and> p \<in> set live_in then [(True, m_pos up + 1)] else []) @ ?B @ ?O"
    by (simp add: block_acts_def Let_def proj_livein [OF d])
  show ?thesis
  proof (cases "cand p")
    case False
    then have "?O = []" by (simp add: proj_liveout)
    then show ?thesis using c False assms(3) bb_acts_no_cand [of cand p "hd ?B" irs ?up1] by (cases ?B) auto
  next
    case True
    have b: "m_pos ?up1 + 2 * length irs < 4294967296" using assms(1) by simp
    have ex: "ev_exposed ?B \<longleftrightarrow> bb_exposed p irs" using bb_acts_exposed [of cand p ?up1 irs] True b by blast
    have df: "(\<exists>d. (True, d) \<in> set ?B) \<longleftrightarrow> bb_defines p irs" using bb_acts_defines [of cand p ?up1 irs] True b by blast
    show ?thesis
    proof (cases "p \<in> set live_in")
      case False
      then have n: "\<not> bb_exposed p irs" "p \<in> set live_out \<longrightarrow> bb_defines p irs" using assms(2) True by (auto simp: live_sets_ok_def)
      have "?B \<noteq> []"
      proof
        assume "?B = []"
        then have "?O \<noteq> []" using c assms(3) False by simp
        then have "p \<in> set live_out" using True by (auto simp: proj_liveout count_list_0_iff split: if_splits)
        then show False using n(2) df \<open>?B = []\<close> by simp
      qed
      moreover have "sorted_wrt ev_before ?B" using bb_acts_in [of ?up1 irs p cand] b by (simp add: evs_in_def)
      ultimately show ?thesis using c False ev_exposed_hd [of ?B] ex n(1) by simp
    qed (use c True in simp)
  qed
qed


section \<open>Positions covered by a block\<close>

definition covered :: "nat \<Rightarrow> (bool \<times> nat) list \<Rightarrow> nat \<Rightarrow> bool" where
  "covered L evs q \<longleftrightarrow> (True, q) \<in> set evs \<or> reaches L (set evs) q"

lemma covered_append:
  assumes "evs_in lo mid a" "evs_in mid hi b" "b \<noteq> [] \<longrightarrow> fst (hd b)"
  shows "covered L (a @ b) q \<longleftrightarrow> (if q < mid then covered L a q else covered L b q)"
proof -
  have a: "\<And>o' x. (o', x) \<in> set a \<Longrightarrow> x < mid" using assms(1) by (force simp: evs_in_def)
  have b: "\<And>o' x. (o', x) \<in> set b \<Longrightarrow> mid \<le> x" using assms(2) by (force simp: evs_in_def)
  show ?thesis
  proof (cases "q < mid")
    case True
    have "\<exists>d. (True, d) \<in> set b \<and> q < d \<and> d \<le> u" if u: "(False, u) \<in> set b" for u
    proof -
      obtain d bs where d: "b = (True, d) # bs" using u assms(3) by (cases b) auto
      then have "d \<le> u" using u assms(2) by (auto simp: evs_in_def ev_before_def)
      moreover have "mid \<le> d" using b [of True d] d by simp
      ultimately show ?thesis using d True by auto
    qed
    moreover have "\<not> (\<exists>d. (True, d) \<in> set b \<and> q < d \<and> d \<le> u)" if "(False, u) \<in> set a" for u
      using a [OF that] b by fastforce
    ultimately have "reaches L (set (a @ b)) q \<longleftrightarrow> reaches L (set a) q"
      unfolding reaches_def set_append by blast
    moreover have "(True, q) \<notin> set b" using b True by fastforce
    ultimately show ?thesis using True by (simp add: covered_def)
  next
    case False
    have "\<not> q \<le> u" if "(o', u) \<in> set a" for o' u using a [OF that] False by simp
    then have "reaches L (set (a @ b)) q \<longleftrightarrow> reaches L (set b) q"
      unfolding reaches_def set_append by (metis UnCI UnE order.strict_implies_order)
    moreover have "(True, q) \<notin> set a" using a False by fastforce
    ultimately show ?thesis using False by (simp add: covered_def)
  qed
qed

text \<open>
  A register is live at a position of a block when it is defined there, or a read at or after the position is reached
  without an intermediate definition, or the end of the block is and the register is live out.
\<close>

lemma bex_ev: "(\<exists>(o', u)\<in>S. P o' u) \<longleftrightarrow> (\<exists>u. (True, u) \<in> S \<and> P True u) \<or> (\<exists>u. (False, u) \<in> S \<and> P False u)"
  by (auto split: prod.splits) (metis (full_types))

definition bb_live :: "(nat \<Rightarrow> bool) \<Rightarrow> nat list \<Rightarrow> RaStmt list \<Rightarrow> UpdatePos \<Rightarrow> nat \<Rightarrow> nat \<Rightarrow> bool" where
  "bb_live cand live_out irs up p q \<longleftrightarrow>
     (let up1 = up\<lparr>m_pos := m_pos up + 2\<rparr>; evs = proj p (bb_acts cand irs up1); x = m_pos (bb_up irs up1)
      in (True, q) \<in> set evs \<or>
         m_pos up + 1 \<le> q \<and>
         ((\<exists>(o', u)\<in>set evs. \<not> o' \<and> q \<le> u \<and> \<not> (\<exists>(o', d)\<in>set evs. o' \<and> q < d \<and> d \<le> u)) \<or>
          p \<in> set live_out \<and> q \<le> x \<and> \<not> (\<exists>(o', d)\<in>set evs. o' \<and> q < d)))"

lemma block_covered:
  assumes "m_pos up + 4 + 2 * length irs < 4294967296" "live_sets_ok cand live_in live_out irs" "cand p" "L \<le> m_pos up"
  shows "covered L (proj p (block_acts cand live_in live_out irs up)) q \<longleftrightarrow> bb_live cand live_out irs up p q"
proof -
  let ?up1 = "up\<lparr>m_pos := m_pos up + 2\<rparr>"
  let ?S = "set (proj p (bb_acts cand irs ?up1))"
  let ?X = "m_pos (bb_up irs ?up1)"
  let ?E = "m_pos up + 1"
  let ?C = "proj p (block_acts cand live_in live_out irs up)"
  have d: "distinct live_in" and li: "p \<in> set live_in \<longleftrightarrow> bb_exposed p irs \<or> p \<in> set live_out \<and> \<not> bb_defines p irs"
    using assms(2,3) by (auto simp: live_sets_ok_def)
  have i: "?E < ?X" "\<And>o' x. (o', x) \<in> ?S \<Longrightarrow> ?E < x \<and> x < ?X"
    using bb_acts_in [of ?up1 irs p cand] assms(1) by (force simp: evs_in_def)+
  have ex: "bb_exposed p irs \<longleftrightarrow> (\<exists>u. (False, u) \<in> ?S \<and> (\<forall>d. (True, d) \<in> ?S \<longrightarrow> u < d))"
    using bb_acts_exposed [of cand p ?up1 irs] assms(1,3) by (simp add: ev_exposed_def)
  have df: "bb_defines p irs \<longleftrightarrow> (\<exists>d. (True, d) \<in> ?S)"
    using bb_acts_defines [of cand p ?up1 irs] assms(1,3) by simp
  have C: "set ?C = {e. e = (True, ?E) \<and> p \<in> set live_in} \<union> ?S \<union> {e. e = (False, ?X) \<and> p \<in> set live_out}"
    using assms(3) by (auto simp: block_acts_def Let_def proj_livein [OF d] proj_liveout count_list_0_iff)
  have live: "bb_live cand live_out irs up p q \<longleftrightarrow> (True, q) \<in> ?S \<or> ?E \<le> q \<and>
      ((\<exists>u. (False, u) \<in> ?S \<and> q \<le> u \<and> \<not> (\<exists>d. (True, d) \<in> ?S \<and> q < d \<and> d \<le> u)) \<or>
       p \<in> set live_out \<and> q \<le> ?X \<and> \<not> (\<exists>d. (True, d) \<in> ?S \<and> q < d))"
    by (simp add: bb_live_def Let_def bex_ev)
  have cu: "(False, u) \<in> set ?C \<longleftrightarrow> (False, u) \<in> ?S \<or> u = ?X \<and> p \<in> set live_out" for u using C by auto
  have dx: "(True, d) \<in> ?S \<Longrightarrow> d \<le> ?X" for d using i(2) by (meson less_imp_le)
  have tq: "(True, d) \<in> set ?C \<and> q < d \<and> d \<le> u \<longleftrightarrow> (True, d) \<in> ?S \<and> q < d \<and> d \<le> u" if "?E \<le> q" for d u
    using C that by auto
  consider "q < ?E" | "q = ?E" | "?E < q" by linarith
  then show ?thesis
  proof cases
    case 1
    have nq: "(o', q) \<notin> ?S" for o' using i(2) [of o' q] 1 by auto
    have "\<exists>d. (True, d) \<in> set ?C \<and> q < d \<and> d \<le> u" if u: "(False, u) \<in> set ?C" for u
    proof (cases "p \<in> set live_in")
      case True
      have "?E \<le> u" using u C i by force
      then show ?thesis using True C 1 by auto
    next
      case False
      obtain d where "(True, d) \<in> ?S" "d \<le> u"
      proof (cases "(False, u) \<in> ?S")
        case True
        then show ?thesis using False li ex that by (metis not_less)
      next
        case nu: False
        then have "u = ?X" "p \<in> set live_out" using u C by auto
        then show ?thesis using False li df i(2) that by (metis less_imp_le)
      qed
      then show ?thesis using C i(2) [of True d] 1 by auto
    qed
    then have "\<not> covered L ?C q" using nq C 1 by (auto simp: covered_def reaches_def)
    then show ?thesis using live nq 1 by simp
  next
    case 2
    have "(True, q) \<notin> ?S" using i(2) [of True q] 2 by auto
    have n: "\<And>o' x. (o', x) \<in> ?S \<Longrightarrow> q < x \<and> x < ?X" using i(2) 2 by blast
    have q: "(True, q) \<in> set ?C \<longleftrightarrow> p \<in> set live_in" using C \<open>(True, q) \<notin> ?S\<close> 2 by auto
    have "covered L ?C q \<longleftrightarrow> p \<in> set live_in \<or> (\<exists>u. ((False, u) \<in> ?S \<or> u = ?X \<and> p \<in> set live_out) \<and> q \<le> u \<and>
        \<not> (\<exists>d. (True, d) \<in> ?S \<and> q < d \<and> d \<le> u))"
      unfolding covered_def reaches_def q cu tq [OF eq_imp_le [OF 2 [symmetric]]] using 2 assms(4) by simp
    also have "\<dots> \<longleftrightarrow> p \<in> set live_in \<or> (\<exists>u. (False, u) \<in> ?S \<and> q \<le> u \<and> \<not> (\<exists>d. (True, d) \<in> ?S \<and> q < d \<and> d \<le> u)) \<or>
        p \<in> set live_out \<and> q \<le> ?X \<and> \<not> (\<exists>d. (True, d) \<in> ?S \<and> q < d)"
      using dx by blast
    also have "p \<in> set live_in \<longrightarrow> (\<exists>u. (False, u) \<in> ?S \<and> q \<le> u \<and> \<not> (\<exists>d. (True, d) \<in> ?S \<and> q < d \<and> d \<le> u)) \<or>
        p \<in> set live_out \<and> q \<le> ?X \<and> \<not> (\<exists>d. (True, d) \<in> ?S \<and> q < d)"
      unfolding li ex df using n i(1) 2 by (meson less_imp_le not_less)
    then have "(p \<in> set live_in \<or> (\<exists>u. (False, u) \<in> ?S \<and> q \<le> u \<and> \<not> (\<exists>d. (True, d) \<in> ?S \<and> q < d \<and> d \<le> u)) \<or>
        p \<in> set live_out \<and> q \<le> ?X \<and> \<not> (\<exists>d. (True, d) \<in> ?S \<and> q < d)) \<longleftrightarrow> bb_live cand live_out irs up p q"
      unfolding live using \<open>(True, q) \<notin> ?S\<close> 2 by blast
    finally show ?thesis .
  next
    case 3
    have q: "(True, q) \<in> set ?C \<longleftrightarrow> (True, q) \<in> ?S" using C 3 by auto
    have "covered L ?C q \<longleftrightarrow> (True, q) \<in> ?S \<or> (\<exists>u. ((False, u) \<in> ?S \<or> u = ?X \<and> p \<in> set live_out) \<and> q \<le> u \<and>
        \<not> (\<exists>d. (True, d) \<in> ?S \<and> q < d \<and> d \<le> u))"
      unfolding covered_def reaches_def q cu tq [OF less_imp_le [OF 3]] using 3 assms(4) by simp
    also have "\<dots> \<longleftrightarrow> (True, q) \<in> ?S \<or> (\<exists>u. (False, u) \<in> ?S \<and> q \<le> u \<and> \<not> (\<exists>d. (True, d) \<in> ?S \<and> q < d \<and> d \<le> u)) \<or>
        p \<in> set live_out \<and> q \<le> ?X \<and> \<not> (\<exists>d. (True, d) \<in> ?S \<and> q < d)"
      using dx by blast
    finally show ?thesis unfolding live using 3 by simp
  qed
qed


section \<open>The whole region\<close>

fun region2_acts :: "(nat \<Rightarrow> bool) \<Rightarrow> (nat \<Rightarrow> nat list) \<Rightarrow> (nat \<Rightarrow> nat list) \<Rightarrow> RaBB list \<Rightarrow> UpdatePos \<Rightarrow> (nat \<times> bool \<times> nat) list" where
  "region2_acts cand live_in live_out [] up = []"
| "region2_acts cand live_in live_out (bb # bbs) up =
     block_acts cand (live_in (bb_id bb)) (live_out (bb_id bb)) (bb_irs bb) up @
     region2_acts cand live_in live_out bbs (block_up (bb_irs bb) up)"

fun live_at :: "(nat \<Rightarrow> bool) \<Rightarrow> (nat \<Rightarrow> nat list) \<Rightarrow> RaBB list \<Rightarrow> UpdatePos \<Rightarrow> nat \<Rightarrow> nat \<Rightarrow> bool" where
  "live_at cand live_out [] up p q \<longleftrightarrow> False"
| "live_at cand live_out (bb # bbs) up p q \<longleftrightarrow>
     (let up2 = block_up (bb_irs bb) up
      in if q < m_pos up2 then bb_live cand (live_out (bb_id bb)) (bb_irs bb) up p q else live_at cand live_out bbs up2 p q)"

definition live_region :: "(nat \<Rightarrow> bool) \<Rightarrow> (nat \<Rightarrow> nat list) \<Rightarrow> (nat \<Rightarrow> nat list) \<Rightarrow> RaBB list \<Rightarrow> bool" where
  "live_region cand live_in live_out bbs \<longleftrightarrow> (\<forall>bb\<in>set bbs. live_sets_ok cand (live_in (bb_id bb)) (live_out (bb_id bb)) (bb_irs bb))"

lemma block_size: "m_pos up + region_size (bb # bbs) < N \<Longrightarrow>
    m_pos up + 4 + 2 * length (bb_irs bb) < N \<and> m_pos up + 4 + 2 * length (bb_irs bb) + region_size bbs < N"
  by (simp add: region_size_def)

lemma region2_acts_in:
  assumes "m_pos up + region_size bbs < 4294967296" "live_region cand live_in live_out bbs"
  shows "evs_in (m_pos up) (m_pos up + region_size bbs) (proj p (region2_acts cand live_in live_out bbs up)) \<and>
    (proj p (region2_acts cand live_in live_out bbs up) \<noteq> [] \<longrightarrow> fst (hd (proj p (region2_acts cand live_in live_out bbs up))))"
  using assms
proof (induction bbs arbitrary: up)
  case (Cons bb bbs)
  let ?up2 = "block_up (bb_irs bb) up"
  let ?a = "proj p (block_acts cand (live_in (bb_id bb)) (live_out (bb_id bb)) (bb_irs bb) up)"
  let ?b = "proj p (region2_acts cand live_in live_out bbs ?up2)"
  have l: "live_sets_ok cand (live_in (bb_id bb)) (live_out (bb_id bb)) (bb_irs bb)" "live_region cand live_in live_out bbs"
    using Cons.prems(2) by (auto simp: live_region_def)
  note sz = block_size [OF Cons.prems(1)]
  have p: "m_pos up \<le> m_pos ?up2" "m_pos ?up2 \<le> m_pos up + 4 + 2 * length (bb_irs bb)"
    using block_up_pos [of up "bb_irs bb"] sz by simp_all
  have ih: "evs_in (m_pos ?up2) (m_pos ?up2 + region_size bbs) ?b" "?b \<noteq> [] \<longrightarrow> fst (hd ?b)"
    using Cons.IH [of ?up2] l(2) sz p by simp_all
  have a: "evs_in (m_pos up) (m_pos ?up2) ?a" "?a \<noteq> [] \<longrightarrow> fst (hd ?a)"
    using block_acts_in [of up "bb_irs bb"] block_acts_hd [OF _ l(1)] sz l(1) by (simp_all add: live_sets_ok_def)
  have "evs_in (m_pos up) (m_pos ?up2 + region_size bbs) (?a @ ?b)" using evs_in_append [OF a(1) ih(1) p(1)] by simp
  then have "evs_in (m_pos up) (m_pos up + region_size (bb # bbs)) (?a @ ?b)"
    by (rule evs_in_mono) (use p in \<open>simp_all add: region_size_def\<close>)
  moreover have "fst (hd (?a @ ?b))" if "?a @ ?b \<noteq> []" using that a(2) ih(2) by (cases "?a = []") simp_all
  ultimately show ?case by simp
qed simp

lemma region2_covered:
  assumes "m_pos up + region_size bbs < 4294967296" "live_region cand live_in live_out bbs" "cand p" "L \<le> m_pos up"
  shows "covered L (proj p (region2_acts cand live_in live_out bbs up)) q \<longleftrightarrow> live_at cand live_out bbs up p q"
  using assms
proof (induction bbs arbitrary: up)
  case Nil
  then show ?case by (simp add: covered_def reaches_def)
next
  case (Cons bb bbs)
  let ?up2 = "block_up (bb_irs bb) up"
  have l: "live_sets_ok cand (live_in (bb_id bb)) (live_out (bb_id bb)) (bb_irs bb)" "live_region cand live_in live_out bbs"
    using Cons.prems(2) by (auto simp: live_region_def)
  note sz = block_size [OF Cons.prems(1)]
  have p: "m_pos up \<le> m_pos ?up2" "m_pos ?up2 \<le> m_pos up + 4 + 2 * length (bb_irs bb)"
    using block_up_pos [of up "bb_irs bb"] sz by simp_all
  have b: "m_pos ?up2 + region_size bbs < 4294967296" "L \<le> m_pos ?up2" using sz p Cons.prems(4) by simp_all
  show ?case
    unfolding region2_acts.simps live_at.simps Let_def proj_simps
    using covered_append [OF block_acts_in conjunct1 [OF region2_acts_in [OF b(1) l(2)]] conjunct2 [OF region2_acts_in [OF b(1) l(2)]],
        of "live_in (bb_id bb)" L]
      block_covered [OF _ l(1) Cons.prems(3,4)] Cons.IH [OF b(1) l(2) Cons.prems(3) b(2)] sz l(1)
    by (simp add: live_sets_ok_def)
qed


section \<open>The two-dimensional manager\<close>

text \<open>The state of the manager between two blocks: every register's ranges come from its events so far.\<close>

definition ranges_from :: "nat \<Rightarrow> nat \<Rightarrow> (nat \<Rightarrow> (bool \<times> nat) list) \<Rightarrow> LifeTimeMgr \<Rightarrow> bool" where
  "ranges_from L x evs mgr \<longleftrightarrow> (\<forall>p. mranges mgr p = ranges_of L (evs p) \<and> evs_in L x (evs p))"

lemma ranges_from_has_range: "ranges_from L x evs mgr \<Longrightarrow> 0 < L \<Longrightarrow> evs p \<noteq> [] \<Longrightarrow> has_range mgr p"
  using ranges_of_correct [OF evs_in_ok, of L x "evs p"] by (auto simp: ranges_from_def has_range_def ranges_inv_def)

lemma ranges_from_append:
  assumes "ranges_from L x evs mgr" "\<forall>p. mranges mgr' p = foldl (range_step L) (mranges mgr p) (evs2 p)"
    "\<forall>p. evs_in x y (evs2 p)" "L \<le> x" "x \<le> y"
  shows "ranges_from L y (\<lambda>p. evs p @ evs2 p) mgr'"
  using assms evs_in_append [of L x _ y] by (auto simp: ranges_from_def ranges_of_def)

lemma updateBBEntryPos_eq:
  "m_use_expose up \<Longrightarrow> m_pos up + 2 < 4294967296 \<Longrightarrow>
   updateBBEntryPos bb up mgr = (m_pos up + 1, m_pos up, up\<lparr>m_pos := m_pos up + 2\<rparr>,
     mgr\<lparr>m_bb_entry_pos := (m_bb_entry_pos mgr)(bb \<mapsto> m_pos up + 1)\<rparr>)"
  using bb_entry_eq(1) [of up] by (simp add: updateBBEntryPos_def)

lemma updateBBExitPos_eq:
  "m_use_expose up \<Longrightarrow> m_pos up + 2 < 4294967296 \<Longrightarrow>
   updateBBExitPos bb up mgr = (m_pos up + 1, m_pos up, up\<lparr>m_pos := m_pos up + 2\<rparr>,
     mgr\<lparr>m_bb_exit_pos := (m_bb_exit_pos mgr)(bb \<mapsto> m_pos up)\<rparr>)"
  using bb_entry_eq(2) [of up] by (simp add: updateBBExitPos_def)

definition lifetime2d_bb ::
  "(nat \<Rightarrow> bool) \<Rightarrow> (nat \<Rightarrow> bool) \<Rightarrow> (nat \<Rightarrow> nat list) \<Rightarrow> (nat \<Rightarrow> nat list) \<Rightarrow> nat \<Rightarrow> RaBB \<Rightarrow> UpdatePos \<Rightarrow> LifeTimeMgr \<Rightarrow> UpdatePos \<times> LifeTimeMgr" where
  "lifetime2d_bb cand pre live_in live_out livein_def bb up mgr =
     (let (dpos_start, upos_start, up, mgr) = updateBBEntryPos (bb_id bb) up mgr;
          mgr = mergeLiveIn cand (live_in (bb_id bb)) dpos_start mgr;
          (up, mgr) = computeLifeTimeBB cand pre livein_def (bb_irs bb) up mgr;
          (dpos_end, upos_end, up, mgr) = updateBBExitPos (bb_id bb) up mgr
      in (up, mergeLiveOut cand (live_out (bb_id bb)) upos_end mgr))"

lemma lifetime2d_blocks_Cons:
  "lifetime2d_blocks cand pre live_in live_out L (bb # bbs) up mgr =
   (let (up, mgr) = lifetime2d_bb cand pre live_in live_out L bb up mgr in lifetime2d_blocks cand pre live_in live_out L bbs up mgr)"
  by (simp add: lifetime2d_bb_def Let_def split: prod.splits)

lemma lifetime2d_bb_ranges:
  assumes "ranges_from L (m_pos up) evs mgr" "0 < L" "L \<le> m_pos up" "m_use_expose up"
    "m_pos up + 4 + 2 * length (bb_irs bb) < 4294967296"
    "live_sets_ok cand (live_in (bb_id bb)) (live_out (bb_id bb)) (bb_irs bb)"
    "lifetime2d_bb cand pre live_in live_out L bb up mgr = (up', mgr')"
  shows "up' = block_up (bb_irs bb) up"
    "ranges_from L (m_pos up') (\<lambda>p. evs p @ proj p (block_acts cand (live_in (bb_id bb)) (live_out (bb_id bb)) (bb_irs bb) up)) mgr'"
    "moccs mgr' p = moccs mgr p @ proj p (bb_acts cand (bb_irs bb) (up\<lparr>m_pos := m_pos up + 2\<rparr>))"
    "mok mgr \<longrightarrow> mok mgr'"
proof -
  let ?irs = "bb_irs bb" and ?li = "live_in (bb_id bb)" and ?lo = "live_out (bb_id bb)"
  let ?up1 = "up\<lparr>m_pos := m_pos up + 2\<rparr>"
  let ?X = "m_pos (bb_up ?irs ?up1)"
  define m1 where "m1 = mergeLiveIn cand ?li (m_pos up + 1) (mgr\<lparr>m_bb_entry_pos := (m_bb_entry_pos mgr)(bb_id bb \<mapsto> m_pos up + 1)\<rparr>)"
  define m2 where "m2 = snd (computeLifeTimeBB cand pre L ?irs ?up1 m1)"
  define m3 where "m3 = m2\<lparr>m_bb_exit_pos := (m_bb_exit_pos m2)(bb_id bb \<mapsto> ?X)\<rparr>"
  have i: "m_pos up + 2 \<le> ?X" "?X \<le> m_pos up + 2 + 2 * length ?irs" "m_use_expose (bb_up ?irs ?up1)"
    "\<And>q. evs_in (m_pos up + 2) ?X (proj q (bb_acts cand ?irs ?up1))"
    using bb_acts_in [of ?up1 ?irs] assms(4,5) by auto
  have c: "computeLifeTimeBB cand pre L ?irs ?up1 m1 = (bb_up ?irs ?up1, m2)" "follows L (bb_acts cand ?irs ?up1) m1 m2"
    using computeLifeTimeBB_follows [of cand pre L ?irs ?up1 m1] by (auto simp: m2_def prod_eq_iff)
  have eq: "up' = block_up ?irs up" "mgr' = mergeLiveOut cand ?lo ?X m3"
    using assms(7) c(1) updateBBEntryPos_eq [OF assms(4), of "bb_id bb" mgr] updateBBExitPos_eq [OF i(3), of "bb_id bb" m2] assms(5) i(2)
    by (simp_all add: lifetime2d_bb_def m1_def m3_def block_up_def Let_def)
  show "up' = block_up ?irs up" by (rule eq(1))
  have d: "distinct ?li" using assms(6) by (simp add: live_sets_ok_def)
  have f1: "live_follows L (livein_acts cand ?li (m_pos up + 1)) mgr m1"
    using mergeLiveIn_follows [of L cand ?li "m_pos up + 1" "mgr\<lparr>m_bb_entry_pos := (m_bb_entry_pos mgr)(bb_id bb \<mapsto> m_pos up + 1)\<rparr>"]
    by (simp add: m1_def live_follows_def)
  have f3: "mranges m3 q = foldl (range_step L) (mranges m1 q) (proj q (bb_acts cand ?irs ?up1))"
    "moccs m3 q = moccs m1 q @ proj q (bb_acts cand ?irs ?up1)" "mok m1 \<longrightarrow> mok m3" for q
    using c(2) by (simp_all add: m3_def follows_def)
  have r1: "ranges_from L (m_pos up + 2) (\<lambda>q. evs q @ proj q (livein_acts cand ?li (m_pos up + 1))) m1"
    by (rule ranges_from_append [OF assms(1)]) (use f1 d assms(3) in \<open>auto simp: live_follows_def proj_livein evs_in_def\<close>)
  have r3: "ranges_from L ?X (\<lambda>q. (evs q @ proj q (livein_acts cand ?li (m_pos up + 1))) @ proj q (bb_acts cand ?irs ?up1)) m3"
    by (rule ranges_from_append [OF r1]) (use f3 i assms(3) in auto)
  have "has_range m3 q" if q: "q \<in> set ?lo" "cand q" for q
  proof (rule ranges_from_has_range [OF r3 assms(2)])
    have "q \<in> set ?li \<or> bb_defines q ?irs" using q assms(6) by (auto simp: live_sets_ok_def)
    moreover have "bb_defines q ?irs \<longrightarrow> proj q (bb_acts cand ?irs ?up1) \<noteq> []"
      using bb_acts_defines [of cand q ?up1 ?irs] q(2) assms(5) by fastforce
    ultimately show "(evs q @ proj q (livein_acts cand ?li (m_pos up + 1))) @ proj q (bb_acts cand ?irs ?up1) \<noteq> []"
      using q(2) by (auto simp: proj_livein [OF d])
  qed
  then have f4: "live_follows L (liveout_acts cand ?lo ?X) m3 mgr'" using mergeLiveOut_follows eq(2) by blast
  have "ranges_from L (?X + 2) (\<lambda>q. ((evs q @ proj q (livein_acts cand ?li (m_pos up + 1))) @ proj q (bb_acts cand ?irs ?up1)) @
      proj q (liveout_acts cand ?lo ?X)) mgr'"
    by (rule ranges_from_append [OF r3])
      (use f4 i(1) assms(3) in \<open>auto simp: live_follows_def proj_liveout evs_in_def sorted_replicate_use\<close>)
  then show "ranges_from L (m_pos up') (\<lambda>p. evs p @ proj p (block_acts cand ?li ?lo ?irs up)) mgr'"
    by (simp add: eq(1) block_up_def block_acts_def Let_def)
  show "moccs mgr' p = moccs mgr p @ proj p (bb_acts cand ?irs ?up1)" "mok mgr \<longrightarrow> mok mgr'"
    using f1 f3 f4 by (simp_all add: live_follows_def)
qed

lemma lifetime2d_blocks_ranges:
  assumes "ranges_from L (m_pos up) evs mgr" "0 < L" "L \<le> m_pos up" "m_use_expose up" "m_pos up + region_size bbs < 4294967296"
    "live_region cand live_in live_out bbs" "lifetime2d_blocks cand pre live_in live_out L bbs up mgr = (up', mgr')"
  shows "\<exists>x. ranges_from L x (\<lambda>p. evs p @ proj p (region2_acts cand live_in live_out bbs up)) mgr' \<and>
    (\<forall>p. moccs mgr' p = moccs mgr p @ proj p (region_acts cand bbs up)) \<and> (mok mgr \<longrightarrow> mok mgr')"
  using assms
proof (induction bbs arbitrary: evs up mgr)
  case (Cons bb bbs)
  obtain up2 m2 where b: "lifetime2d_bb cand pre live_in live_out L bb up mgr = (up2, m2)" by force
  have l: "live_sets_ok cand (live_in (bb_id bb)) (live_out (bb_id bb)) (bb_irs bb)" "live_region cand live_in live_out bbs"
    using Cons.prems(6) by (auto simp: live_region_def)
  note sz = block_size [OF Cons.prems(5)]
  note bb = lifetime2d_bb_ranges [OF Cons.prems(1-4) conjunct1 [OF sz] l(1) b]
  have p: "m_pos up \<le> m_pos up2" "m_pos up2 \<le> m_pos up + 4 + 2 * length (bb_irs bb)" "m_use_expose up2"
    using block_up_pos [of up "bb_irs bb"] sz Cons.prems(4) bb(1) by simp_all
  have "lifetime2d_blocks cand pre live_in live_out L bbs up2 m2 = (up', mgr')"
    using Cons.prems(7) b unfolding lifetime2d_blocks_Cons by simp
  from Cons.IH [OF bb(2) Cons.prems(2) _ p(3) _ l(2) this] p sz Cons.prems(3) obtain x where
    ih: "ranges_from L x (\<lambda>q. (evs q @ proj q (block_acts cand (live_in (bb_id bb)) (live_out (bb_id bb)) (bb_irs bb) up)) @
        proj q (region2_acts cand live_in live_out bbs up2)) mgr'"
      "\<forall>q. moccs mgr' q = moccs m2 q @ proj q (region_acts cand bbs up2)" "mok m2 \<longrightarrow> mok mgr'" by auto
  have "region_acts cand (bb # bbs) up = bb_acts cand (bb_irs bb) (up\<lparr>m_pos := m_pos up + 2\<rparr>) @ region_acts cand bbs up2"
  proof -
    define up1 where "up1 = up\<lparr>m_pos := m_pos up + 2\<rparr>"
    define y where "y = bb_up (bb_irs bb) up1"
    have "m_pos y \<le> m_pos up + 2 + 2 * length (bb_irs bb)" "m_use_expose y"
      using bb_acts_in [of up1 "bb_irs bb"] Cons.prems(4) sz by (simp_all add: up1_def y_def)
    then have "(case updateAtBBExit y of Some r \<Rightarrow> r | None \<Rightarrow> (0, 0, y)) = (m_pos y + 1, m_pos y, up2)"
      using bb_entry_eq(2) [of y] sz by (simp add: bb(1) block_up_def y_def up1_def Let_def)
    moreover have "(case updateAtBBEntry up of Some r \<Rightarrow> r | None \<Rightarrow> (0, 0, up)) = (m_pos up + 1, m_pos up, up1)"
      using bb_entry_eq(1) [of up] Cons.prems(4) sz by (simp add: up1_def)
    ultimately show ?thesis unfolding y_def up1_def region_acts.simps Let_def by (simp del: add_2_eq_Suc')
  qed
  then show ?case using ih bb(1,3,4) by (auto intro!: exI [of _ x])
qed auto

text \<open>The lifetimes of a region: well-formed, their occurrences those of the region, their ranges the liveness of its points.\<close>

lemma lifetime_2d:
  assumes "computeLifeTime2D cand pre live_in live_out bbs up = (up', mgr)" "0 < m_pos up" "m_use_expose up"
    "m_pos up + region_size bbs + 2 < 4294967296" "live_region cand live_in live_out bbs"
  defines "up0 \<equiv> up\<lparr>m_pos := m_pos up + 2\<rparr>"
  shows "m_prno2lt mgr p = Some lt \<Longrightarrow> lt_verify lt \<and> lt_flags_ok p lt"
    "occs (m_prno2lt mgr) p = proj p (region_acts cand bbs up0)"
    "cand p \<Longrightarrow> q \<in> rv_pos (rngs (m_prno2lt mgr) p) \<longleftrightarrow> live_at cand live_out bbs up0 p q"
proof -
  let ?L = "m_pos up + 1"
  obtain up2 mgr2 where b: "lifetime2d_blocks cand pre live_in live_out ?L bbs up0 ltm_init = (up2, mgr2)" by force
  have m: "m_prno2lt mgr = m_prno2lt mgr2"
    using assms(1,4) b by (auto simp: computeLifeTime2D_def updateAtRegionEntry_def up_update_eq up0_def Let_def split: prod.splits)
  have "ranges_from ?L (m_pos up0) (\<lambda>p. []) ltm_init" by (simp add: ranges_from_def ranges_of_def)
  from lifetime2d_blocks_ranges [OF this _ _ _ _ assms(5) b] assms(3,4)
  obtain x where x: "ranges_from ?L x (\<lambda>p. proj p (region2_acts cand live_in live_out bbs up0)) mgr2"
      "\<forall>p. moccs mgr2 p = proj p (region_acts cand bbs up0)" "mok mgr2"
    by (auto simp: up0_def)
  let ?e = "proj p (region2_acts cand live_in live_out bbs up0)"
  have r: "mranges mgr p = ranges_of ?L ?e" "evs_ok ?L ?e"
    using spec [of _ p, OF x(1) [unfolded ranges_from_def]] m evs_in_ok [of ?L x ?e] by simp_all
  show o: "moccs mgr p = proj p (region_acts cand bbs up0)" using spec [of _ p, OF x(2)] m by simp
  have e: "evs_in (m_pos up0) (m_pos up0 + region_size bbs) (proj p (region_acts cand bbs up0))"
    using region_acts_in [of up0 bbs p cand] assms(4) by (simp add: up0_def)
  show "lt_verify lt \<and> lt_flags_ok p lt" if s: "m_prno2lt mgr p = Some lt"
  proof
    have "m_range_vec lt = ranges_of ?L ?e" "map occ_ev (m_occ_list lt) = proj p (region_acts cand bbs up0)"
      using r(1) o s by (simp_all add: rngs_def occs_def)
    then show "lt_verify lt"
      by (rule lt_verify_events [OF r(2)]) (use e in \<open>auto simp: evs_in_def up0_def\<close>)
    show "lt_flags_ok p lt" using x(3) m s by (simp add: lts_ok_def)
  qed
  show "q \<in> rv_pos (mranges mgr p) \<longleftrightarrow> live_at cand live_out bbs up0 p q" if "cand p"
    using ranges_of_correct [OF r(2)] r(1) region2_covered [of up0 bbs cand live_in live_out p ?L q] assms(4,5) that
    by (simp add: ranges_inv_def covered_def up0_def)
qed

end
