(* ===== verification/LifeMerge.thy ===== *)
theory LifeMerge
  imports LivenessElim LifeTime2D
begin

text \<open>
  The lifetimes of the register allocator over the liveness pass: with the live sets that \<open>LivenessMgr\<close> leaves, the
  ranges of a register are its path liveness at the positions of the program. Then \<open>RegLifeTimeMgr\<close>, which merges the
  ranges given to a physical register, from \<^verbatim>\<open>src/opt/lifetime.cpp\<close>.
\<close>

section \<open>Lifetimes over the liveness pass\<close>

text \<open>A statement as the liveness visitors read it. No statement has been inserted between positions yet.\<close>

definition live_stmt :: "RaStmt \<Rightarrow> PRStmt" where
  "live_stmt ir = \<lparr>stmt_writes = st_result ir \<noteq> None, stmt_result = st_result ir, stmt_may = [],
     stmt_exps = map (\<lambda>p. \<lparr>ref_prno = p, ref_may = []\<rparr>) (st_reads ir)\<rparr>"

definition same_program :: "IRCFG \<Rightarrow> RaBB list \<Rightarrow> bool" where
  "same_program cfg bbs \<longleftrightarrow>
     (\<forall>bb\<in>set bbs. bb_id bb \<in> set (cfg_bbs cfg) \<and> cfg_irs cfg (bb_id bb) = map live_stmt (bb_irs bb) \<and>
        (\<forall>ir\<in>set (bb_irs bb). \<not> st_gap ir))"

definition live_list :: "(nat \<rightharpoonup> SEG list) \<Rightarrow> nat \<Rightarrow> nat list" where
  "live_list v b = sorted_list_of_set (lives v b)"

definition succ_live :: "IRCFG \<Rightarrow> nat \<Rightarrow> nat list" where
  "succ_live cfg b = sorted_list_of_set (\<Union>s\<in>set (cfg_succ cfg b). path_live False cfg s)"

lemma live_stmt_sets: "stmt_defs False (live_stmt ir) = set_option (st_result ir)" "stmt_uses False (live_stmt ir) = set (st_reads ir)"
  by (auto simp: live_stmt_def stmt_defs_def stmt_uses_def ref_uses_def)

lemma exposed_live_stmt:
  "\<forall>ir\<in>set irs. \<not> st_gap ir \<Longrightarrow> exposed False (map live_stmt irs) = {p. bb_exposed p irs}"
  by (induction irs) (auto simp: live_stmt_sets)

lemma block_defs_live_stmt:
  "\<forall>ir\<in>set irs. \<not> st_gap ir \<Longrightarrow> block_defs False (map live_stmt irs) = {p. bb_defines p irs}"
  by (force simp: block_defs_def bb_defines_def live_stmt_sets)

lemma path_live_eq:
  "path_live hm cfg b = exposed hm (cfg_irs cfg b) \<union> ((\<Union>s\<in>set (cfg_succ cfg b). path_live hm cfg s) - block_defs hm (cfg_irs cfg b))"
proof -
  have "x \<in> path_live hm cfg b \<longleftrightarrow> x \<in> exposed hm (cfg_irs cfg b) \<or>
      x \<in> (\<Union>s\<in>set (cfg_succ cfg b). path_live hm cfg s) \<and> x \<notin> block_defs hm (cfg_irs cfg b)" for x
    unfolding path_live_def by (subst mem_Collect_eq, subst live_iff) auto
  then show ?thesis by auto
qed

lemma set_live_list [simp]: "set (live_list v b) = lives v b" "distinct (live_list v b)"
  by (simp_all add: live_list_def lives_def upd_def split: option.splits)

lemma liveness_gives_live_region:
  assumes "same_program cfg bbs"
    "\<forall>b\<in>set (cfg_bbs cfg). lives inn b = path_live False cfg b \<and> lives out b = (\<Union>s\<in>set (cfg_succ cfg b). path_live False cfg s)"
  shows "live_region cand (live_list inn) (live_list out) bbs"
  unfolding live_region_def
proof
  fix bb assume b: "bb \<in> set bbs"
  then have c: "cfg_irs cfg (bb_id bb) = map live_stmt (bb_irs bb)" "\<forall>ir\<in>set (bb_irs bb). \<not> st_gap ir" "bb_id bb \<in> set (cfg_bbs cfg)"
    using assms(1) by (auto simp: same_program_def)
  have "set (live_list inn (bb_id bb)) = {p. bb_exposed p (bb_irs bb)} \<union> (set (live_list out (bb_id bb)) - {p. bb_defines p (bb_irs bb)})"
    using assms(2) c path_live_eq [of False cfg "bb_id bb"] by (simp add: exposed_live_stmt block_defs_live_stmt)
  then show "live_sets_ok cand (live_list inn (bb_id bb)) (live_list out (bb_id bb)) (bb_irs bb)" by (auto simp: live_sets_ok_def)
qed

text \<open>The live-out lists enter the meaning of a position only at the blocks of the region.\<close>

lemma live_at_cong: "\<forall>bb\<in>set bbs. f (bb_id bb) = g (bb_id bb) \<Longrightarrow> live_at cand f bbs up p q \<longleftrightarrow> live_at cand g bbs up p q"
  by (induction bbs arbitrary: up) (simp_all add: Let_def)

section \<open>Merging the ranges of a physical register\<close>

text \<open>\<open>Vector::set\<close> on a range vector: past the end the gap is filled with zeroed ranges.\<close>

definition rv_set :: "Range list \<Rightarrow> nat \<Rightarrow> Range \<Rightarrow> Range list" where
  "rv_set rv i r = (if i < length rv then rv[i := r] else rv @ replicate (i - length rv) (range_at 0) @ [r])"

text \<open>The end of the previous range is set in a copy of it, so that the vector stays as it is.\<close>

definition canMergeWithPreRange :: "Range list \<Rightarrow> nat \<Rightarrow> Range \<Rightarrow> bool" where
  "canMergeWithPreRange range_vec last_idx cur_range \<longleftrightarrow>
     (if last_idx = 0 then False
      else let r_pre = rv_get range_vec (last_idx - 1) in \<not> m_end r_pre < m_start cur_range)"

text \<open>The loop over both vectors gives the vector, its next index and the two positions.\<close>

function merge_ranges :: "Range list \<Rightarrow> Range list \<Rightarrow> nat \<Rightarrow> Range list \<Rightarrow> nat \<Rightarrow> nat \<Rightarrow> nat \<Rightarrow> Range list \<times> nat \<times> nat \<times> nat" where
  "merge_ranges ori new tot vec idx ni oi =
     (if tot \<le> idx \<or> length new \<le> ni \<or> length ori \<le> oi then (vec, idx, ni, oi)
      else let r_ori = rv_get ori oi; r_new = rv_get new ni
           in if range_is_great r_ori r_new
              then if canMergeWithPreRange vec idx r_new then merge_ranges ori new tot vec (idx + 1) (ni + 1) oi
                   else merge_ranges ori new tot (rv_set vec idx r_new) (idx + 1) (ni + 1) oi
              else if range_is_less r_ori r_new
              then if canMergeWithPreRange vec idx r_ori then merge_ranges ori new tot vec (idx + 1) ni (oi + 1)
                   else merge_ranges ori new tot (rv_set vec idx r_ori) (idx + 1) ni (oi + 1)
              else merge_ranges ori new tot vec (idx + 1) ni oi)"
  by auto

termination
  by (relation "measure (\<lambda>(ori, new, tot, vec, idx, ni, oi). tot - idx)") auto

declare merge_ranges.simps [simp del]

fun merge_rest :: "Range list \<Rightarrow> nat \<Rightarrow> Range list \<Rightarrow> Range list \<times> nat" where
  "merge_rest [] idx vec = (vec, idx)"
| "merge_rest (r # rs) idx vec = merge_rest rs (idx + 1) (rv_set vec idx r)"

definition mergeLifeTime :: "Range list \<Rightarrow> Range list \<Rightarrow> Range list" where
  "mergeLifeTime rv_ori rv_new =
     (let total_size = length rv_ori + length rv_new;
          (vec, idx, ni, oi) = merge_ranges rv_ori rv_new total_size [] 0 0 0;
          (vec, idx) = merge_rest (drop ni rv_new) idx vec;
          (vec, idx) = merge_rest (drop oi rv_ori) idx vec
      in vec)"

text \<open>The register's own ranges and those of the registers that alias it.\<close>

definition mergeRegLifetimeWithRange ::
  "(nat \<Rightarrow> nat list option) \<Rightarrow> nat \<Rightarrow> Range list \<Rightarrow> (nat \<Rightarrow> Range list) \<Rightarrow> (nat \<Rightarrow> Range list)" where
  "mergeRegLifetimeWithRange getAliasRegSet reg range_vec reg2lt =
     (let reg2lt = reg2lt(reg := mergeLifeTime (reg2lt reg) range_vec)
      in case getAliasRegSet reg of
           None \<Rightarrow> reg2lt
         | Some alias_regset \<Rightarrow>
             fold (\<lambda>i reg2lt. if i = reg then reg2lt else reg2lt(i := mergeLifeTime (reg2lt i) range_vec)) alias_regset reg2lt)"

lemma rv_set_end [simp]: "rv_set rv (length rv) r = rv @ [r]"
  by (simp add: rv_set_def)

lemma merge_rest_end: "merge_rest rs (length vec) vec = (vec @ rs, length vec + length rs)"
proof (induction rs arbitrary: vec)
  case (Cons r rs)
  then show ?case using Cons.IH [of "vec @ [r]"] by simp
qed simp

lemma merge_rest_gap: "r \<in> set vec \<Longrightarrow> length vec \<le> idx \<Longrightarrow> r \<in> set (fst (merge_rest rs idx vec))"
  by (induction rs idx vec rule: merge_rest.induct) (auto simp: rv_set_def)

lemma merge_rest_len: "length vec \<le> idx \<Longrightarrow> length (fst (merge_rest rs idx vec)) \<le> snd (merge_rest rs idx vec)"
  by (induction rs idx vec rule: merge_rest.induct) (auto simp: rv_set_def)

lemma rv_ok_Cons: "rv_ok (r # rv) \<longleftrightarrow> range_ok r \<and> rv_ok rv \<and> (\<forall>s\<in>set rv. range_is_less r s)"
  by (auto simp: rv_ok_def)

text \<open>One step of the loop, over the vector built so far and what is left of the two inputs.\<close>

definition merge_inv :: "Range list \<Rightarrow> Range list \<Rightarrow> Range list \<Rightarrow> nat \<Rightarrow> nat \<Rightarrow> bool" where
  "merge_inv ori new vec ni oi \<longleftrightarrow>
     rv_ok (vec @ drop oi ori) \<and> rv_ok (vec @ drop ni new) \<and> length vec = ni + oi \<and> ni \<le> length new \<and> oi \<le> length ori \<and>
     rv_pos vec = rv_pos (take oi ori) \<union> rv_pos (take ni new) \<and> rv_pos (take oi ori) \<inter> rv_pos (take ni new) = {}"

lemma rv_pos_append [simp]: "rv_pos (a @ b) = rv_pos a \<union> rv_pos b"
  by (auto simp: rv_pos_def)

lemma rv_pos_take_drop: "rv_pos (take n rv) \<union> rv_pos (drop n rv) = rv_pos rv"
  by (metis append_take_drop_id rv_pos_append)

lemma rv_ok_disjoint: "rv_ok (a @ b) \<Longrightarrow> rv_pos a \<inter> rv_pos b = {}"
  by (fastforce simp: rv_ok_append rv_pos_def range_is_less_def)

lemma merge_inv_no_pre:
  assumes "merge_inv ori new vec ni oi"
  shows "oi < length ori \<Longrightarrow> \<not> canMergeWithPreRange vec (length vec) (ori ! oi)"
    "ni < length new \<Longrightarrow> \<not> canMergeWithPreRange vec (length vec) (new ! ni)"
proof -
  have n: "\<not> canMergeWithPreRange vec (length vec) r" if "rv_ok (vec @ r # rs)" for r rs
  proof (cases "vec = []")
    case False
    then have "vec ! (length vec - 1) \<in> set vec" by simp
    then have "range_is_less (vec ! (length vec - 1)) r" using that by (simp add: rv_ok_append)
    then show ?thesis using False by (simp add: canMergeWithPreRange_def rv_get_def range_is_less_def)
  qed (simp add: canMergeWithPreRange_def)
  show "oi < length ori \<Longrightarrow> \<not> canMergeWithPreRange vec (length vec) (ori ! oi)"
    using n assms by (metis Cons_nth_drop_Suc merge_inv_def)
  show "ni < length new \<Longrightarrow> \<not> canMergeWithPreRange vec (length vec) (new ! ni)"
    using n assms by (metis Cons_nth_drop_Suc merge_inv_def)
qed

lemma merge_inv_ori:
  assumes "merge_inv ori new vec ni oi" "oi < length ori" "ni < length new" "range_is_less (ori ! oi) (new ! ni)"
  shows "merge_inv ori new (vec @ [ori ! oi]) ni (Suc oi)"
proof -
  have d: "drop oi ori = ori ! oi # drop (Suc oi) ori" "drop ni new = new ! ni # drop (Suc ni) new"
    using assms(2,3) by (simp_all add: Cons_nth_drop_Suc)
  have t: "take (Suc oi) ori = take oi ori @ [ori ! oi]" using assms(2) by (simp add: take_Suc_conv_app_nth)
  have "range_ok (new ! ni)" "\<forall>s\<in>set (drop (Suc ni) new). range_is_less (new ! ni) s"
    using assms(1) by (auto simp: merge_inv_def rv_ok_append rv_ok_Cons d)
  then have "\<forall>s\<in>set (drop ni new). range_is_less (ori ! oi) s"
    using assms(4) by (fastforce simp: d range_is_less_def range_ok_def)
  moreover have "rv_pos vec \<inter> rv_pos [ori ! oi] = {}"
    using assms(1) by (intro rv_ok_disjoint) (auto simp: merge_inv_def rv_ok_append rv_ok_Cons d(1))
  ultimately show ?thesis using assms(1,2) by (auto simp: merge_inv_def rv_ok_append rv_ok_Cons d(1) t)
qed


lemma merge_inv_sym: "merge_inv ori new vec ni oi \<longleftrightarrow> merge_inv new ori vec oi ni"
  by (simp only: merge_inv_def add.commute [of ni] Int_commute [of "rv_pos (take oi ori)"] Un_commute [of "rv_pos (take oi ori)"]) blast

text \<open>The positions that both hold: none in ranges one of which is ahead of the other, some otherwise.\<close>

lemma range_clash: "range_ok r \<Longrightarrow> range_ok s \<Longrightarrow> \<not> range_is_less r s \<Longrightarrow> \<not> range_is_great r s \<Longrightarrow>
    {m_start r..m_end r} \<inter> {m_start s..m_end s} \<noteq> {}"
  by (auto simp: range_ok_def range_is_less_def range_is_great_def not_less)

lemma merge_ranges_gap:
  "length vec < idx \<Longrightarrow> oi < length ori \<Longrightarrow> ni < length new \<Longrightarrow> \<not> range_is_great (ori ! oi) (new ! ni) \<Longrightarrow>
   \<not> range_is_less (ori ! oi) (new ! ni) \<Longrightarrow> merge_ranges ori new tot vec idx ni oi = (vec, max idx tot, ni, oi)"
proof (induction "tot - idx" arbitrary: idx)
  case 0
  then show ?case by (subst merge_ranges.simps) simp
next
  case (Suc n)
  then have "merge_ranges ori new tot vec (idx + 1) ni oi = (vec, max (idx + 1) tot, ni, oi)" by simp
  then show ?case using Suc by (subst merge_ranges.simps) (simp add: rv_get_def max_def)
qed

lemma merge_ranges_correct:
  assumes "merge_inv ori new vec ni oi" "tot = length ori + length new"
  shows "(\<exists>vec' ni' oi'. merge_ranges ori new tot vec (length vec) ni oi = (vec', length vec', ni', oi') \<and>
      merge_inv ori new vec' ni' oi' \<and> (ni' = length new \<or> oi' = length ori)) \<or>
    rv_pos ori \<inter> rv_pos new \<noteq> {} \<and> (\<exists>vec' ni' oi'. merge_ranges ori new tot vec (length vec) ni oi = (vec', tot, ni', oi') \<and>
      length vec' < tot \<and> (ni' < length new \<and> oi' < length ori))"
  using assms(1)
proof (induction "tot - length vec" arbitrary: vec ni oi rule: less_induct)
  case less
  note inv = less.prems
  have b: "length vec = ni + oi" "ni \<le> length new" "oi \<le> length ori" using inv by (auto simp: merge_inv_def)
  show ?case
  proof (cases "oi < length ori \<and> ni < length new")
    case False
    then have "merge_ranges ori new tot vec (length vec) ni oi = (vec, length vec, ni, oi)"
      by (subst merge_ranges.simps) auto
    then show ?thesis using inv False b by auto
  next
    case True
    let ?o = "ori ! oi" and ?n = "new ! ni"
    note e = merge_ranges.simps [of ori new tot vec "length vec" ni oi]
    have g: "rv_get ori oi = ?o" "rv_get new ni = ?n" "length vec < tot"
      using True b assms(2) by (simp_all add: rv_get_def)
    note np = merge_inv_no_pre [OF inv]
    consider "range_is_great ?o ?n" | "\<not> range_is_great ?o ?n" "range_is_less ?o ?n" | "\<not> range_is_great ?o ?n" "\<not> range_is_less ?o ?n"
      by blast
    then show ?thesis
    proof cases
      case 1
      then have "range_is_less ?n ?o" by (simp add: range_is_less_def range_is_great_def)
      then have "merge_inv ori new (vec @ [?n]) (Suc ni) oi"
        using merge_inv_ori [of new ori vec oi ni] inv True merge_inv_sym by blast
      moreover have "merge_ranges ori new tot vec (length vec) ni oi = merge_ranges ori new tot (vec @ [?n]) (length (vec @ [?n])) (Suc ni) oi"
        using e g True np(2) 1 by simp
      ultimately show ?thesis using less.hyps [of "vec @ [?n]"] g(3) by simp
    next
      case 2
      then have "merge_inv ori new (vec @ [?o]) ni (Suc oi)" using merge_inv_ori inv True by blast
      moreover have "merge_ranges ori new tot vec (length vec) ni oi = merge_ranges ori new tot (vec @ [?o]) (length (vec @ [?o])) ni (Suc oi)"
        using e g True np(1) 2 by simp
      ultimately show ?thesis using less.hyps [of "vec @ [?o]"] g(3) by simp
    next
      case 3
      have "rv_ok (vec @ ?o # drop (Suc oi) ori)" "rv_ok (vec @ ?n # drop (Suc ni) new)"
        using inv True by (simp_all add: merge_inv_def Cons_nth_drop_Suc)
      then have "range_ok ?o" "range_ok ?n" by (simp_all add: rv_ok_append rv_ok_Cons)
      then have "{m_start ?o..m_end ?o} \<inter> {m_start ?n..m_end ?n} \<noteq> {}" using range_clash 3 by blast
      moreover have "?o \<in> set ori" "?n \<in> set new" using True by simp_all
      ultimately have "rv_pos ori \<inter> rv_pos new \<noteq> {}" unfolding rv_pos_def by blast
      moreover have "merge_ranges ori new tot vec (length vec) ni oi = (vec, tot, ni, oi)"
        using e g True 3 merge_ranges_gap [of vec "length vec + 1" oi ori ni new tot] by (simp add: max_def)
      ultimately show ?thesis using True g(3) by blast
    qed
  qed
qed

lemma merge_inv_start: "rv_ok ori \<Longrightarrow> rv_ok new \<Longrightarrow> merge_inv ori new [] 0 0"
  by (simp add: merge_inv_def)

text \<open>Merging is right exactly when the two vectors share no position; otherwise the result is not a valid vector.\<close>

lemma mergeLifeTime_correct:
  assumes "rv_ok ori" "rv_ok new"
  shows "rv_ok (mergeLifeTime ori new) \<longleftrightarrow> rv_pos ori \<inter> rv_pos new = {}"
    "rv_pos ori \<inter> rv_pos new = {} \<Longrightarrow> rv_pos (mergeLifeTime ori new) = rv_pos ori \<union> rv_pos new"
proof -
  let ?tot = "length ori + length new"
  have t: "rv_ok (mergeLifeTime ori new) \<and> rv_pos (mergeLifeTime ori new) = rv_pos ori \<union> rv_pos new"
    if l: "merge_ranges ori new ?tot [] 0 0 0 = (vec, length vec, ni, oi)" "merge_inv ori new vec ni oi" "ni = length new \<or> oi = length ori"
    for vec ni oi
  proof -
    have "mergeLifeTime ori new = vec @ drop ni new @ drop oi ori"
      using l(1) merge_rest_end [of "drop ni new" vec] merge_rest_end [of "drop oi ori" "vec @ drop ni new"]
      by (simp add: mergeLifeTime_def)
    then show ?thesis using l(2,3) rv_pos_take_drop [of ni new] rv_pos_take_drop [of oi ori] by (auto simp: merge_inv_def)
  qed
  have f: "\<not> rv_ok (mergeLifeTime ori new)"
    if l: "merge_ranges ori new ?tot [] 0 0 0 = (vec, ?tot, ni, oi)" "length vec < ?tot" "ni < length new" for vec ni oi
  proof -
    obtain r rs where r: "drop ni new = r # rs" using l(3) by (metis Cons_nth_drop_Suc)
    let ?v = "rv_set vec ?tot r"
    have v: "range_at 0 \<in> set ?v" "length ?v \<le> ?tot + 1" using l(2) by (auto simp: rv_set_def)
    obtain v1 i1 where m: "merge_rest rs (?tot + 1) ?v = (v1, i1)" by force
    have "range_at 0 \<in> set v1" "length v1 \<le> i1"
      using merge_rest_gap [OF v, of rs] merge_rest_len [OF v(2), of rs] m by simp_all
    then have "range_at 0 \<in> set (fst (merge_rest (drop oi ori) i1 v1))" by (rule merge_rest_gap)
    then have "range_at 0 \<in> set (mergeLifeTime ori new)"
      using l(1) r m by (cases "merge_rest (drop oi ori) i1 v1") (simp add: mergeLifeTime_def)
    then show ?thesis by (force simp: rv_ok_def range_ok_def range_at_def)
  qed
  have d: "rv_pos ori \<inter> rv_pos new = {}"
    if l: "merge_ranges ori new ?tot [] 0 0 0 = (vec, length vec, ni, oi)" "merge_inv ori new vec ni oi" "ni = length new \<or> oi = length ori"
    for vec ni oi
  proof -
    have "rv_pos vec \<inter> rv_pos (drop ni new) = {}" "rv_pos vec \<inter> rv_pos (drop oi ori) = {}"
      using l(2) unfolding merge_inv_def by (blast intro!: rv_ok_disjoint)+
    then show ?thesis
      using l(2,3) rv_pos_take_drop [of ni new] rv_pos_take_drop [of oi ori]
      by (elim disjE) (simp_all add: merge_inv_def, blast+)
  qed
  show "rv_ok (mergeLifeTime ori new) \<longleftrightarrow> rv_pos ori \<inter> rv_pos new = {}"
    "rv_pos ori \<inter> rv_pos new = {} \<Longrightarrow> rv_pos (mergeLifeTime ori new) = rv_pos ori \<union> rv_pos new"
    using merge_ranges_correct [OF merge_inv_start [OF assms] refl] t f d by force+
qed

section \<open>The live-variable pass in front\<close>

lemma pass_live_region:
  assumes "liveness_input B past fuel params auxp cfg lm" "few_changes False cfg"
    "path_live False cfg (cfg_entry cfg) \<subseteq> exposed False (cfg_irs cfg (cfg_entry cfg))" "same_program cfg bbs"
  obtains lm' where "perform (sbs_ops B past) False fuel params auxp cfg lm = Some (lm', False)"
    "live_region cand (live_list (lm_livein lm')) (live_list (lm_liveout lm')) bbs"
    "\<And>u p q. live_at cand (live_list (lm_liveout lm')) bbs u p q \<longleftrightarrow> live_at cand (succ_live cfg) bbs u p q"
proof -
  have "live_sbs.liveness_pre B past False fuel params auxp cfg lm"
    using assms(1) by (auto simp: liveness_input_def live_sbs.liveness_pre_def sbs_new)
  from live_sbs.perform_ok [OF this assms(2) [unfolded few_changes_def]] assms(3)
  obtain lm' where lm: "perform (sbs_ops B past) False fuel params auxp cfg lm = Some (lm', False)"
    "\<forall>b\<in>set (cfg_bbs cfg). lives (lm_livein lm') b = path_live False cfg b \<and>
       lives (lm_liveout lm') b = (\<Union>s\<in>set (cfg_succ cfg b). path_live False cfg s)"
    by (auto simp: lives_def path_live_def)
  have r: "live_region cand (live_list (lm_livein lm')) (live_list (lm_liveout lm')) bbs"
    using liveness_gives_live_region [OF assms(4)] lm(2) .
  have "live_list (lm_liveout lm') (bb_id bb) = succ_live cfg (bb_id bb)" if "bb \<in> set bbs" for bb
    using that lm(2) assms(4) by (auto simp: same_program_def live_list_def succ_live_def)
  then have c: "live_at cand (live_list (lm_liveout lm')) bbs u p q \<longleftrightarrow> live_at cand (succ_live cfg) bbs u p q" for u p q
    by (intro live_at_cong) simp
  show ?thesis by (rule that [OF lm(1) r c])
qed

end
