(* ===== verification/LifeClaims.thy ===== *)
theory LifeClaims
  imports LifeMerge
begin

text \<open>
  What holds of lifetimes: the ranges of a register are its liveness, position by position; the queries and updates of a
  range vector act on the set of positions; merging two vectors is right exactly when they are disjoint.
\<close>

section \<open>Construction\<close>

text \<open>
  C2: on a region for which the liveness pass is exact, that is, where the number of blocks times the number of upward-exposed
  registers is below the limit of 1000 passes and every register live into the entry is read in the entry block, and whose
  positions stay below 2^32, with \<open>m_use_expose\<close> set: when the live-variable pass precedes it, the construction gives every candidate
  register exactly the positions at which it is live along some path: a position is in its ranges iff the register is defined there, or a read
  at or after it in the block is reached without a definition in between, or the exit of the block is and the register is
  path live in a successor. Every lifetime passes \<open>verify\<close>, its flags describe its definitions, and its occurrences are
  the reads and writes of the statements in order.
\<close>

theorem lifetimes_are_liveness:
  assumes "liveness_input B past fuel params auxp cfg lm" "few_changes False cfg"
    "path_live False cfg (cfg_entry cfg) \<subseteq> exposed False (cfg_irs cfg (cfg_entry cfg))"
    "same_program cfg bbs" "0 < m_pos up" "m_use_expose up" "m_pos up + region_size bbs + 2 < 4294967296"
  shows "\<exists>lm'. perform (sbs_ops B past) False fuel params auxp cfg lm = Some (lm', False) \<and>
    (\<forall>up' mgr p lt. computeLifeTime2D cand pre (live_list (lm_livein lm')) (live_list (lm_liveout lm')) bbs up = (up', mgr) \<longrightarrow>
       (m_prno2lt mgr p = Some lt \<longrightarrow> lt_verify lt \<and> lt_flags_ok p lt) \<and>
       occs (m_prno2lt mgr) p = proj p (region_acts cand bbs (up\<lparr>m_pos := m_pos up + 2\<rparr>)) \<and>
       (cand p \<longrightarrow> rv_pos (rngs (m_prno2lt mgr) p) = {q. live_at cand (succ_live cfg) bbs (up\<lparr>m_pos := m_pos up + 2\<rparr>) p q}))"
proof -
  obtain lm' where lm: "perform (sbs_ops B past) False fuel params auxp cfg lm = Some (lm', False)"
    and r: "live_region cand (live_list (lm_livein lm')) (live_list (lm_liveout lm')) bbs"
    and c: "\<And>u p q. live_at cand (live_list (lm_liveout lm')) bbs u p q \<longleftrightarrow> live_at cand (succ_live cfg) bbs u p q"
    by (rule pass_live_region [OF assms(1-4)]) blast
  show ?thesis
  proof (intro exI [of _ lm'] conjI allI impI, rule lm)
    fix up' mgr p lt
    assume l: "computeLifeTime2D cand pre (live_list (lm_livein lm')) (live_list (lm_liveout lm')) bbs up = (up', mgr)"
    note t = lifetime_2d [OF l assms(5-7) r, of p]
    show "lt_verify lt" "lt_flags_ok p lt" if "m_prno2lt mgr p = Some lt" using t(1) [OF that] by simp_all
    show "moccs mgr p = proj p (region_acts cand bbs (up\<lparr>m_pos := m_pos up + 2\<rparr>))" by (rule t(2))
    show "rv_pos (mranges mgr p) = {q. live_at cand (succ_live cfg) bbs (up\<lparr>m_pos := m_pos up + 2\<rparr>) p q}" if "cand p"
      using t(3) [OF that] c by auto
  qed
qed



text \<open>The three blocks of \<open>row_cfg\<close>; positions 1 and 2 are the region's, a block has two at each end, a statement two.\<close>

definition row_bbs :: "nat \<Rightarrow> nat list \<Rightarrow> nat list \<Rightarrow> RaBB list" where
  "row_bbs d u v =
     [\<lparr>bb_id = 10, bb_irs = [\<lparr>st_gap = False, st_call = False, st_intrinsic = False, st_reads = u, st_result = Some d\<rparr>]\<rparr>,
      \<lparr>bb_id = 20, bb_irs = []\<rparr>,
      \<lparr>bb_id = 30, bb_irs = [\<lparr>st_gap = False, st_call = False, st_intrinsic = False, st_reads = v, st_result = None\<rparr>]\<rparr>]"

lemma row_same: "same_program (row_cfg d u v) (row_bbs d u v)"
  by (auto simp: same_program_def row_bbs_def row_cfg_def live_stmt_def)

lemma row_succ_live: "succ_live (row_cfg d u v) 10 = sorted_list_of_set (set v)"
  "succ_live (row_cfg d u v) 20 = sorted_list_of_set (set v)" "succ_live (row_cfg d u v) 30 = []"
  using row_live [of False d u v] by (simp_all add: succ_live_def row_cfg_def)

lemma row_positions:
  "live_at (\<lambda>p. True) (succ_live (row_cfg 5 [7] [5])) (row_bbs 5 [7] [5]) (up_init\<lparr>m_pos := m_pos up_init + 2\<rparr>) 5 q \<longleftrightarrow>
   q \<in> {6, 7, 10, 11, 14, 15}"
  by (auto simp: row_bbs_def bb_live_def block_up_def Let_def row_succ_live up_init_def POS_INIT_VAL_def updateAtIR_def
      up_update_def u32_def proj_read_acts proj_def_acts split: if_splits)

lemma lifetimes_are_liveness_witness:
  "\<exists>lm'. perform (sbs_ops 16 [0, 0, 0]) False 3 None [] (row_cfg 5 [7] [5]) empty_lm = Some (lm', False) \<and>
     rv_pos (rngs (m_prno2lt (snd (computeLifeTime2D (\<lambda>p. True) (\<lambda>p. False) (live_list (lm_livein lm')) (live_list (lm_liveout lm'))
       (row_bbs 5 [7] [5]) up_init))) 5) = {6, 7, 10, 11, 14, 15}"
proof -
  let ?c = "row_cfg 5 [7] [5]" and ?b = "row_bbs 5 [7] [5]"
  have i: "liveness_input 16 [0, 0, 0] 3 None [] ?c empty_lm"
    by (rule row_input) (simp add: fits_def BS_UNDEF_def)
  have fc: "few_changes False ?c" by (rule row_few) simp
  have pl: "path_live False ?c (cfg_entry ?c) \<subseteq> exposed False (cfg_irs ?c (cfg_entry ?c))"
    using row_live(3) [of False 5 "[7]" "[5]"] row_sets(1) [of False 5 "[7]" "[5]"] by (simp add: row_graph)
  have u: "0 < m_pos up_init" "m_use_expose up_init" "m_pos up_init + region_size ?b + 2 < 4294967296"
    by (simp_all add: up_init_def POS_INIT_VAL_def region_size_def row_bbs_def)
  show ?thesis
  proof (rule exE [OF lifetimes_are_liveness [OF i fc pl row_same u, of "\<lambda>p. True" "\<lambda>p. False"]], goal_cases)
    case (1 lm')
    obtain up' mgr where c: "computeLifeTime2D (\<lambda>p. True) (\<lambda>p. False) (live_list (lm_livein lm')) (live_list (lm_liveout lm'))
        ?b up_init = (up', mgr)" by force
    have "rv_pos (rngs (m_prno2lt mgr) 5) = {6, 7, 10, 11, 14, 15}"
      using 1 c row_positions by auto
    then show ?case using 1 c by (intro exI [of _ lm']) simp
  qed
qed

text \<open>
  C33: without liveness the construction reads the blocks as one straight line. It leaves every lifetime valid, with the
  occurrences of its register in order, and ranges that hold exactly the definitions and the positions from which a use
  is reached with no definition in between, counted from the entry of the region.
\<close>

theorem lifetimes_follow_events:
  assumes "computeLifeTime cand pre bbs up = (up', mgr)" "0 < m_pos up" "m_pos up + region_size bbs + 2 < 4294967296"
    "E = occs (m_prno2lt mgr) p"
  defines "L \<equiv> m_pos up + 1"
  shows "(\<forall>lt\<in>set_option (m_prno2lt mgr p). lt_verify lt \<and> lt_flags_ok p lt) \<and>
    E = proj p (region_acts cand bbs (up\<lparr>m_pos := m_pos up + 2\<rparr>)) \<and>
    rv_pos (rngs (m_prno2lt mgr) p) = {q. (True, q) \<in> set E \<or> reaches L (set E) q}"
proof -
  let ?up = "up\<lparr>m_pos := m_pos up + 2\<rparr>"
  let ?A = "region_acts cand bbs ?up"
  obtain up2 mgr2 where b: "lifetime_blocks cand pre L bbs ?up ltm_init = (up2, mgr2)" by force
  have m: "m_prno2lt mgr = m_prno2lt mgr2"
    using assms(1,3) b by (auto simp: computeLifeTime_def updateAtRegionEntry_def up_update_eq L_def Let_def split: prod.splits)
  have f: "follows L ?A ltm_init mgr2" using lifetime_blocks_follows [of L cand bbs ?up ltm_init pre] b by simp
  have "mranges mgr2 p = foldl (range_step L) [] (proj p ?A)" "moccs mgr2 p = proj p ?A"
    using f by (simp_all add: follows_def)
  then have r: "mranges mgr p = ranges_of L (proj p ?A)" and o: "E = proj p ?A"
    using assms(4) m by (simp_all add: ranges_of_def)
  have i: "evs_in (m_pos up + 2) (m_pos up + 2 + region_size bbs) (proj p ?A)"
    using region_acts_in [of ?up bbs p cand] assms(3) by simp
  then have ok: "evs_ok L (proj p ?A)" by (auto simp: L_def intro!: evs_in_ok elim: evs_in_mono)
  have "mok mgr2" using f by (simp add: follows_def)
  have v: "lt_verify lt \<and> lt_flags_ok p lt" if s: "m_prno2lt mgr p = Some lt" for lt
  proof
    have "m_range_vec lt = ranges_of L (proj p ?A)" "map occ_ev (m_occ_list lt) = proj p ?A"
      using r o assms(4) s by (simp_all add: rngs_def occs_def)
    then show "lt_verify lt" by (rule lt_verify_events [OF ok]) (use ok in \<open>simp_all add: evs_ok_def\<close>)
    show "lt_flags_ok p lt" using \<open>mok mgr2\<close> m s by (simp add: lts_ok_def)
  qed
  have "rv_pos (rngs (m_prno2lt mgr) p) = {q. (True, q) \<in> set E \<or> reaches L (set E) q}"
    using ranges_of_correct [OF ok] unfolding ranges_inv_def r o by blast
  then show ?thesis using v o by (cases "m_prno2lt mgr p") auto
qed

lemma lifetimes_follow_events_witness:
  "rv_pos (rngs (m_prno2lt (snd (computeLifeTime (\<lambda>p. True) (\<lambda>p. False) (row_bbs 5 [7] [5]) up_init))) 5) = {6..15}"
proof -
  obtain up' mgr where c: "computeLifeTime (\<lambda>p. True) (\<lambda>p. False) (row_bbs 5 [7] [5]) up_init = (up', mgr)" by force
  have u: "0 < m_pos up_init" "m_pos up_init + region_size (row_bbs 5 [7] [5]) + 2 < 4294967296"
    by (simp_all add: up_init_def POS_INIT_VAL_def region_size_def row_bbs_def)
  note t = lifetimes_follow_events [OF c u refl, of 5]
  have e: "proj 5 (region_acts (\<lambda>p. True) (row_bbs 5 [7] [5]) (up_init\<lparr>m_pos := m_pos up_init + 2\<rparr>)) = [(True, 6), (False, 15)]"
    by (simp add: row_bbs_def up_init_def POS_INIT_VAL_def updateAtIR_def updateAtBBEntry_def updateAtBBExit_def
        up_update_def u32_def proj_read_acts proj_def_acts)
  have "rv_pos (rngs (m_prno2lt mgr) 5) = {q. (True, q) \<in> set [(True, 6), (False, 15)] \<or>
      reaches (m_pos up_init + 1) (set [(True, 6), (False, 15)]) q}" using t unfolding e by metis
  also have "\<dots> = {6..15}" by (auto simp: reaches_def up_init_def POS_INIT_VAL_def)
  finally show ?thesis using c by simp
qed

section \<open>Queries and updates of a range vector\<close>

text \<open>
  On a vector that passes the verification, the binary search ends and finds the one range that holds a position, the
  membership test decides whether the position is in the ranges, and the walk over two vectors decides whether they share
  a position.
\<close>

theorem range_queries:
  assumes "verifyRangeVec rv" "verifyRangeVec rv2"
  shows "(lt_is_contain rv pos \<longleftrightarrow> pos \<in> rv_pos rv) \<and> (lt_is_intersect rv rv2 \<longleftrightarrow> rv_pos rv \<inter> rv_pos rv2 \<noteq> {}) \<and>
    (case findRange rv pos of
       Some i \<Rightarrow> i < length rv \<and> range_is_contain (rv ! i) pos \<and> {j. j < length rv \<and> range_is_contain (rv ! j) pos} = {i}
     | None \<Rightarrow> pos \<notin> rv_pos rv)"
proof (intro conjI)
  have ok: "rv_ok rv" "rv_ok rv2" using assms by (simp_all add: verifyRangeVec_iff)
  show "lt_is_contain rv pos \<longleftrightarrow> pos \<in> rv_pos rv" by (rule lt_is_contain_correct [OF ok(1)])
  show "lt_is_intersect rv rv2 \<longleftrightarrow> rv_pos rv \<inter> rv_pos rv2 \<noteq> {}" by (rule lt_is_intersect_correct [OF ok])
  show "case findRange rv pos of
       Some i \<Rightarrow> i < length rv \<and> range_is_contain (rv ! i) pos \<and> {j. j < length rv \<and> range_is_contain (rv ! j) pos} = {i}
     | None \<Rightarrow> pos \<notin> rv_pos rv"
    using findRange_correct [OF ok(1), of pos] by (auto split: option.splits)
qed

lemma range_queries_witness:
  "lt_is_contain [\<lparr>m_start = 2, m_end = 5\<rparr>, \<lparr>m_start = 9, m_end = 9\<rparr>] 4 \<and>
   \<not> lt_is_intersect [\<lparr>m_start = 2, m_end = 5\<rparr>, \<lparr>m_start = 9, m_end = 9\<rparr>] [\<lparr>m_start = 6, m_end = 8\<rparr>]"
proof -
  have "verifyRangeVec [\<lparr>m_start = 2, m_end = 5\<rparr>, \<lparr>m_start = 9, m_end = 9\<rparr>]" "verifyRangeVec [\<lparr>m_start = 6, m_end = 8\<rparr>]"
    by (simp_all add: verifyRangeVec_def range_at_def POS_UNDEF_def)
  note r = range_queries [OF this, of 4]
  have "4 \<in> rv_pos [\<lparr>m_start = 2, m_end = 5\<rparr>, \<lparr>m_start = 9, m_end = 9\<rparr>]" by simp
  moreover have "rv_pos [\<lparr>m_start = 2, m_end = 5\<rparr>, \<lparr>m_start = 9, m_end = 9\<rparr>] \<inter> rv_pos [\<lparr>m_start = 6, m_end = 8\<rparr>] = {}" by auto
  ultimately show ?thesis using r [THEN conjunct1] r [THEN conjunct2, THEN conjunct1] by blast
qed

text \<open>
  C34: cleaning from a position and moving what lies from a position on to another lifetime keep the vectors valid and cut
  the set of positions there. Cleaning does so also from a position between two ranges, where the comment of
  \<open>cleanRangeFrom\<close> in \<^verbatim>\<open>src/opt/lifetime.h\<close> says that nothing is done. Cleaning an empty vector uses the index the search
  leaves unset, and a move needs a range that holds the position.
\<close>

theorem range_updates:
  assumes "rv_ok cur" "rv_ok src" "rv_small src" "range_is_less (getLastRange cur) (range_at pos)"
  shows "(case cleanRangeFrom src pos of
      Some rv' \<Rightarrow> src \<noteq> [] \<and> rv_ok rv' \<and> rv_pos rv' = {p \<in> rv_pos src. p < pos}
    | None \<Rightarrow> src = []) \<and>
    (case moveRangeVecFrom cur src pos of
      Some (cur', src') \<Rightarrow> pos \<in> rv_pos src \<and> rv_ok cur' \<and> rv_ok src' \<and>
        rv_pos cur' = rv_pos cur \<union> {p \<in> rv_pos src. pos \<le> p} \<and> rv_pos src' = {p \<in> rv_pos src. p < pos}
    | None \<Rightarrow> pos \<notin> rv_pos src)"
  using cleanRangeFrom_correct [OF assms(2,3), of pos] moveRangeVecFrom_correct [OF assms]
  by (auto split: option.splits)

lemma range_updates_witness:
  "moveRangeVecFrom [\<lparr>m_start = 2, m_end = 3\<rparr>] [\<lparr>m_start = 4, m_end = 8\<rparr>] 6 \<noteq> None \<and>
   map_option rv_pos (cleanRangeFrom [\<lparr>m_start = 4, m_end = 8\<rparr>] 6) = Some {4, 5}"
proof -
  have "rv_ok [\<lparr>m_start = 2, m_end = 3\<rparr>]" "rv_ok [\<lparr>m_start = 4, m_end = 8\<rparr>]" "rv_small [\<lparr>m_start = 4, m_end = 8\<rparr>]"
    "range_is_less (getLastRange [\<lparr>m_start = 2, m_end = 3\<rparr>]) (range_at 6)"
    by (simp_all add: rv_ok_def range_ok_def rv_small_def range_is_less_def getLastRange_def range_at_def)
  note r = range_updates [OF this]
  have "moveRangeVecFrom [\<lparr>m_start = 2, m_end = 3\<rparr>] [\<lparr>m_start = 4, m_end = 8\<rparr>] 6 \<noteq> None"
    using r [THEN conjunct2] by (cases "moveRangeVecFrom [\<lparr>m_start = 2, m_end = 3\<rparr>] [\<lparr>m_start = 4, m_end = 8\<rparr>] 6") simp_all
  moreover have "rv_pos rv = {4, 5}" if "cleanRangeFrom [\<lparr>m_start = 4, m_end = 8\<rparr>] 6 = Some rv" for rv
  proof -
    have "rv_pos rv = {p \<in> rv_pos [\<lparr>m_start = 4, m_end = 8\<rparr>]. p < 6}" using r [THEN conjunct1] unfolding that by simp
    moreover have "{p \<in> rv_pos [\<lparr>m_start = 4, m_end = 8\<rparr>]. p < (6::nat)} = {4, 5}"
      by (intro set_eqI iffI) (simp_all, presburger, presburger)
    ultimately show ?thesis by simp
  qed
  moreover have "cleanRangeFrom [\<lparr>m_start = 4, m_end = 8\<rparr>] 6 \<noteq> None"
    using r [THEN conjunct1] by (cases "cleanRangeFrom [\<lparr>m_start = 4, m_end = 8\<rparr>] 6") simp_all
  ultimately show ?thesis by (cases "cleanRangeFrom [\<lparr>m_start = 4, m_end = 8\<rparr>] 6") simp_all
qed

text \<open>
  C35: merging the ranges of two lifetimes given to one register yields a valid vector exactly when they have no position
  in common, and then the union of their positions; the test for a merge with the previous range never succeeds.
\<close>

theorem merge_disjoint_lifetimes:
  assumes "rv_ok rv_ori" "rv_ok rv_new"
  shows "(rv_ok (mergeLifeTime rv_ori rv_new) \<longleftrightarrow> \<not> lt_is_intersect rv_ori rv_new) \<and>
    (lt_is_intersect rv_ori rv_new \<or> rv_pos (mergeLifeTime rv_ori rv_new) = rv_pos rv_ori \<union> rv_pos rv_new)"
  using mergeLifeTime_correct [OF assms] lt_is_intersect_correct [OF assms] by auto

lemma merge_disjoint_lifetimes_witness:
  "rv_ok (mergeLifeTime [\<lparr>m_start = 2, m_end = 3\<rparr>, \<lparr>m_start = 9, m_end = 11\<rparr>] [\<lparr>m_start = 5, m_end = 6\<rparr>]) \<and>
   \<not> rv_ok (mergeLifeTime [\<lparr>m_start = 2, m_end = 3\<rparr>, \<lparr>m_start = 9, m_end = 11\<rparr>] [\<lparr>m_start = 10, m_end = 10\<rparr>])"
proof -
  have ok: "rv_ok [\<lparr>m_start = 2, m_end = 3\<rparr>, \<lparr>m_start = 9, m_end = 11\<rparr>]" "rv_ok [\<lparr>m_start = 5, m_end = 6\<rparr>]"
    "rv_ok [\<lparr>m_start = 10, m_end = 10\<rparr>]" by (simp_all add: rv_ok_def range_ok_def range_is_less_def)
  have i: "\<not> lt_is_intersect [\<lparr>m_start = 2, m_end = 3\<rparr>, \<lparr>m_start = 9, m_end = 11\<rparr>] [\<lparr>m_start = 5, m_end = 6\<rparr>]"
    "lt_is_intersect [\<lparr>m_start = 2, m_end = 3\<rparr>, \<lparr>m_start = 9, m_end = 11\<rparr>] [\<lparr>m_start = 10, m_end = 10\<rparr>]"
    using lt_is_intersect_correct [OF ok(1,2)] lt_is_intersect_correct [OF ok(1,3)] by auto
  show ?thesis using merge_disjoint_lifetimes [OF ok(1,2)] merge_disjoint_lifetimes [OF ok(1,3)] i by blast
qed

end
