(* ===== verification/Graph.thy ===== *)
theory Graph
  imports Prelude "HOL-Library.Product_Lexorder"
begin

text \<open>
  Graphs: class \<open>Graph\<close> of \<^verbatim>\<open>src/com/sgraph.h\<close> and \<^verbatim>\<open>src/com/sgraph.cpp\<close>. A vertex has the lists of its in-edges
  and out-edges in order; all edges are kept in a table ordered by the ids of their ends. No code clears the flag
  \<open>m_is_unique\<close>, so an edge is the pair of its ends, and the list cells of an edge are its other end. The vertex table is
  dense (a vector indexed by id) or a hash table; \<open>g_order\<close> is the order in which it is iterated. Where the slot the hash
  table gives a new vertex lies among the used ones is the field \<open>g_slot\<close>. Information attached to vertices and edges
  is left out.
\<close>

section \<open>State\<close>

record Vertex =
  v_in :: "nat list"
  v_out :: "nat list"

record Graph =
  g_direction :: bool
  g_dense :: bool
  g_slot :: "nat list \<Rightarrow> nat"
  g_order :: "nat list"
  g_vex :: "nat \<rightharpoonup> Vertex"
  g_edges :: "(nat \<times> nat) list"

definition graph_init :: "bool \<Rightarrow> (nat list \<Rightarrow> nat) \<Rightarrow> Graph" where
  "graph_init dense slot =
     \<lparr>g_direction = True, g_dense = dense, g_slot = slot, g_order = [], g_vex = Map.empty, g_edges = []\<rparr>"

definition graph_erase :: "Graph \<Rightarrow> Graph" where
  "graph_erase g = g\<lparr>g_order := [], g_vex := Map.empty, g_edges := []\<rparr>"

definition is_vertex :: "Graph \<Rightarrow> nat \<Rightarrow> bool" where
  "is_vertex g v \<longleftrightarrow> g_vex g v \<noteq> None"

definition getInList :: "Graph \<Rightarrow> nat \<Rightarrow> nat list" where
  "getInList g v = (case g_vex g v of None \<Rightarrow> [] | Some x \<Rightarrow> v_in x)"

definition getOutList :: "Graph \<Rightarrow> nat \<Rightarrow> nat list" where
  "getOutList g v = (case g_vex g v of None \<Rightarrow> [] | Some x \<Rightarrow> v_out x)"

definition upd_vex :: "nat \<Rightarrow> (Vertex \<Rightarrow> Vertex) \<Rightarrow> Graph \<Rightarrow> Graph" where
  "upd_vex v f g = (case g_vex g v of None \<Rightarrow> g | Some x \<Rightarrow> g\<lparr>g_vex := (g_vex g)(v \<mapsto> f x)\<rparr>)"

section \<open>Vertices and edges\<close>

definition addVertex :: "nat \<Rightarrow> Graph \<Rightarrow> Graph" where
  "addVertex vid g =
     (case g_vex g vid of
        Some _ \<Rightarrow> g
      | None \<Rightarrow>
          let pos = g_slot g (g_order g)
          in g\<lparr>g_vex := (g_vex g)(vid \<mapsto> \<lparr>v_in = [], v_out = []\<rparr>),
               g_order := (if g_dense g then insort vid (g_order g) else take pos (g_order g) @ vid # drop pos (g_order g))\<rparr>)"

definition addInList :: "nat \<Rightarrow> nat \<Rightarrow> Graph \<Rightarrow> Graph" where
  "addInList from to = upd_vex to (\<lambda>x. if List.member (v_in x) from then x else x\<lparr>v_in := v_in x @ [from]\<rparr>)"

definition addOutList :: "nat \<Rightarrow> nat \<Rightarrow> Graph \<Rightarrow> Graph" where
  "addOutList from to = upd_vex from (\<lambda>x. if List.member (v_out x) to then x else x\<lparr>v_out := v_out x @ [to]\<rparr>)"

definition allocEdgeImpl :: "nat \<Rightarrow> nat \<Rightarrow> Graph \<Rightarrow> Graph" where
  "allocEdgeImpl from to g = addOutList from to (addInList from to g)"

text \<open>Appending to the table creates the edge only when it is new; the flag is \<open>isNewElem\<close>.\<close>

definition edgetab_append :: "nat \<Rightarrow> nat \<Rightarrow> Graph \<Rightarrow> bool \<times> Graph" where
  "edgetab_append from to g =
     (if List.member (g_edges g) (from, to) then (False, g)
      else let g = allocEdgeImpl from to g in (True, g\<lparr>g_edges := insort (from, to) (g_edges g)\<rparr>))"

definition allocEdge :: "nat \<Rightarrow> nat \<Rightarrow> Graph \<Rightarrow> bool \<times> Graph" where
  "allocEdge from to g =
     (if g_direction g then edgetab_append from to g
      else if List.member (g_edges g) (from, to) then (False, g) else edgetab_append to from g)"

definition addEdge :: "nat \<Rightarrow> nat \<Rightarrow> Graph \<Rightarrow> Graph" where
  "addEdge from to g = snd (allocEdge from to (addVertex to (addVertex from g)))"

definition getEdge :: "Graph \<Rightarrow> nat \<Rightarrow> nat \<Rightarrow> (nat \<times> nat) option" where
  "getEdge g from to =
     (if \<not> is_vertex g from \<or> \<not> is_vertex g to then None
      else case List.find (\<lambda>x. x = to \<or> \<not> g_direction g \<and> from = to \<and> x = from) (getOutList g from) of
             Some x \<Rightarrow> Some (from, x)
           | None \<Rightarrow>
               if g_direction g then None
               else map_option (\<lambda>x. (to, x)) (List.find (\<lambda>x. x = from) (getOutList g to)))"

definition is_edge :: "Graph \<Rightarrow> nat \<Rightarrow> nat \<Rightarrow> bool" where
  "is_edge g from to \<longleftrightarrow> getEdge g from to \<noteq> None"

text \<open>\<open>removeEdge\<close> of an edge of the graph, with the two positions it records.\<close>

definition removeEdge :: "nat \<times> nat \<Rightarrow> Graph \<Rightarrow> Graph" where
  "removeEdge e g =
     (let g = upd_vex (fst e) (\<lambda>x. x\<lparr>v_out := remove1 (snd e) (v_out x)\<rparr>) g;
          g = upd_vex (snd e) (\<lambda>x. x\<lparr>v_in := remove1 (fst e) (v_in x)\<rparr>) g
      in g\<lparr>g_edges := remove1 e (g_edges g)\<rparr>)"

definition list_pos :: "nat \<Rightarrow> nat list \<Rightarrow> nat" where
  "list_pos x xs = length (takeWhile (\<lambda>y. y \<noteq> x) xs)"

definition removeEdgeBetween :: "nat \<Rightarrow> nat \<Rightarrow> Graph \<Rightarrow> Graph" where
  "removeEdgeBetween v1 v2 g =
     (let g = fold (\<lambda>x g. if x = v2 \<or> v1 = v2 \<and> x = v1 then removeEdge (v1, x) g else g) (getOutList g v1) g
      in fold (\<lambda>x g. if x = v1 \<and> v1 = v2 \<or> x = v2 then removeEdge (x, v1) g else g) (getInList g v1) g)"

definition removeVertex :: "nat \<Rightarrow> Graph \<Rightarrow> Graph" where
  "removeVertex v g =
     (if \<not> is_vertex g v then g
      else let g = fold (\<lambda>x g. removeEdge (v, x) g) (getOutList g v) g;
               g = fold (\<lambda>x g. removeEdge (x, v) g) (getInList g v) g
           in g\<lparr>g_vex := (g_vex g)(v := None), g_order := remove1 v (g_order g)\<rparr>)"

section \<open>Queries\<close>

definition getVertexNum :: "Graph \<Rightarrow> nat" where "getVertexNum g = length (g_order g)"
definition getEdgeNum :: "Graph \<Rightarrow> nat" where "getEdgeNum g = length (g_edges g)"

definition getNeighborList :: "Graph \<Rightarrow> nat \<Rightarrow> nat list \<Rightarrow> bool \<times> nat list" where
  "getNeighborList g vid ni_list =
     (if \<not> is_vertex g vid then (False, ni_list)
      else let add = (\<lambda>x ni. if List.member ni x then ni else ni @ [x])
           in (True, fold add (getOutList g vid) (fold add (getInList g vid) ni_list)))"

definition getNeighborSet :: "Graph \<Rightarrow> nat \<Rightarrow> nat set \<Rightarrow> bool \<times> nat set" where
  "getNeighborSet g vid niset =
     (if \<not> is_vertex g vid then (False, niset)
      else (True, fold insert (getOutList g vid) (fold insert (getInList g vid) niset)))"

definition getInDegree :: "Graph \<Rightarrow> nat \<Rightarrow> nat" where "getInDegree g v = length (getInList g v)"
definition getOutDegree :: "Graph \<Rightarrow> nat \<Rightarrow> nat" where "getOutDegree g v = length (getOutList g v)"
definition getDegree :: "Graph \<Rightarrow> nat \<Rightarrow> nat" where "getDegree g v = getInDegree g v + getOutDegree g v"

fun degree_more :: "nat list \<Rightarrow> nat \<Rightarrow> nat \<Rightarrow> bool" where
  "degree_more [] degree num \<longleftrightarrow> degree > num"
| "degree_more (x # el) degree num \<longleftrightarrow> (if degree + 1 > num then True else degree_more el (degree + 1) num)"

fun degree_equal :: "nat list \<Rightarrow> nat \<Rightarrow> nat \<Rightarrow> bool" where
  "degree_equal [] degree num \<longleftrightarrow> degree = num"
| "degree_equal (x # el) degree num \<longleftrightarrow> (if degree + 1 = num then True else degree_equal el (degree + 1) num)"

definition isInDegreeMoreThan :: "Graph \<Rightarrow> nat \<Rightarrow> nat \<Rightarrow> bool" where
  "isInDegreeMoreThan g v num = degree_more (getInList g v) 0 num"
definition isOutDegreeMoreThan :: "Graph \<Rightarrow> nat \<Rightarrow> nat \<Rightarrow> bool" where
  "isOutDegreeMoreThan g v num = degree_more (getOutList g v) 0 num"
definition isInDegreeEqualTo :: "Graph \<Rightarrow> nat \<Rightarrow> nat \<Rightarrow> bool" where
  "isInDegreeEqualTo g v num = degree_equal (getInList g v) 0 num"
definition isOutDegreeEqualTo :: "Graph \<Rightarrow> nat \<Rightarrow> nat \<Rightarrow> bool" where
  "isOutDegreeEqualTo g v num = degree_equal (getOutList g v) 0 num"

definition getUniqueSucc :: "Graph \<Rightarrow> nat \<Rightarrow> nat option" where
  "getUniqueSucc g v = (case getOutList g v of [x] \<Rightarrow> Some x | _ \<Rightarrow> None)"
definition getUniquePred :: "Graph \<Rightarrow> nat \<Rightarrow> nat option" where
  "getUniquePred g v = (case getInList g v of [x] \<Rightarrow> Some x | _ \<Rightarrow> None)"
definition getNthInVertex :: "Graph \<Rightarrow> nat \<Rightarrow> nat \<Rightarrow> nat option" where
  "getNthInVertex g v n = (case drop n (getInList g v) of [] \<Rightarrow> None | x # _ \<Rightarrow> Some x)"
definition getNthOutVertex :: "Graph \<Rightarrow> nat \<Rightarrow> nat \<Rightarrow> nat option" where
  "getNthOutVertex g v n = (case drop n (getOutList g v) of [] \<Rightarrow> None | x # _ \<Rightarrow> Some x)"

definition is_succ :: "Graph \<Rightarrow> nat \<Rightarrow> nat \<Rightarrow> bool" where "is_succ g v s = List.member (getOutList g v) s"
definition is_pred :: "Graph \<Rightarrow> nat \<Rightarrow> nat \<Rightarrow> bool" where "is_pred g v p = List.member (getInList g v) p"
definition is_graph_entry :: "Graph \<Rightarrow> nat \<Rightarrow> bool" where "is_graph_entry g v \<longleftrightarrow> getInList g v = []"
definition is_graph_exit :: "Graph \<Rightarrow> nat \<Rightarrow> bool" where "is_graph_exit g v \<longleftrightarrow> getOutList g v = []"

text \<open>The position and whether there is one; \<open>VERTEX_UNDEF\<close> is 0.\<close>

definition WhichPred :: "Graph \<Rightarrow> nat \<Rightarrow> nat \<Rightarrow> nat \<times> bool" where
  "WhichPred g p v = (if List.member (getInList g v) p then (list_pos p (getInList g v), True) else (0, False))"

text \<open>
  \<open>is_equal\<close>; \<open>None\<close> is the read through the null out-list of the other graph's vertex. The vertices are compared in
  the order of the first graph.
\<close>

fun equal_vertices :: "Graph \<Rightarrow> Graph \<Rightarrow> nat list \<Rightarrow> bool option" where
  "equal_vertices g h [] = Some True"
| "equal_vertices g h (v # vl) =
     (if \<not> is_vertex h v then Some False
      else if getOutList g v = [] then (if getOutList h v \<noteq> [] then Some False else equal_vertices g h vl)
      else if getOutList h v = [] then None
      else if \<not> list_all (\<lambda>x. List.member (getOutList g v) x) (getOutList h v) then Some False
      else if length (getOutList g v) \<noteq> length (getOutList h v) then Some False else equal_vertices g h vl)"

definition graph_is_equal :: "Graph \<Rightarrow> Graph \<Rightarrow> bool option" where
  "graph_is_equal g h =
     (if getVertexNum g \<noteq> getVertexNum h \<or> getEdgeNum g \<noteq> getEdgeNum h then Some False else equal_vertices g h (g_order g))"

section \<open>Changing edges in place\<close>

definition reverseEdge :: "nat \<times> nat \<Rightarrow> Graph \<Rightarrow> Graph" where
  "reverseEdge e g = addEdge (snd e) (fst e) (removeEdge e g)"

definition reverseEdges :: "Graph \<Rightarrow> Graph" where
  "reverseEdges g = fold reverseEdge (g_edges g) g"

text \<open>The cell of an element is taken out and put behind the cell recorded before, or at the head.\<close>

definition put_after :: "nat option \<Rightarrow> nat \<Rightarrow> nat list \<Rightarrow> nat list" where
  "put_after marker x xs =
     (let xs = remove1 x xs
      in case marker of
           None \<Rightarrow> x # xs
         | Some y \<Rightarrow> takeWhile (\<lambda>z. z \<noteq> y) xs @ [y, x] @ drop 1 (dropWhile (\<lambda>z. z \<noteq> y) xs))"

definition before_elem :: "nat \<Rightarrow> nat list \<Rightarrow> nat option" where
  "before_elem x xs = (case takeWhile (\<lambda>y. y \<noteq> x) xs of [] \<Rightarrow> None | ys \<Rightarrow> Some (last ys))"

definition insertVertexBetween :: "nat \<Rightarrow> nat \<Rightarrow> nat \<Rightarrow> bool \<Rightarrow> Graph \<Rightarrow> Graph" where
  "insertVertexBetween v1 v2 newv keep_pos g =
     (let g = addVertex newv g;
          v2pos = before_elem v2 (getOutList g v1);
          v1pos = before_elem v1 (getInList g v2);
          g = removeEdge (v1, v2) g;
          g = addEdge newv v2 (addEdge v1 newv g)
      in if \<not> keep_pos then g
         else let g = upd_vex v1 (\<lambda>x. x\<lparr>v_out := put_after v2pos newv (v_out x)\<rparr>) g
              in upd_vex v2 (\<lambda>x. x\<lparr>v_in := put_after v1pos newv (v_in x)\<rparr>) g)"

text \<open>
  New in-edges at a position of the in-list: the element found there at the first new edge stays the mark. \<open>None\<close> is the
  read of the mark when the position lies behind the list.
\<close>

definition put_before :: "nat \<Rightarrow> nat \<Rightarrow> nat list \<Rightarrow> nat list" where
  "put_before m x xs =
     (let xs = remove1 x xs in takeWhile (\<lambda>z. z \<noteq> m) xs @ x # dropWhile (\<lambda>z. z \<noteq> m) xs)"

fun addEdgeAtPos_loop :: "nat list \<Rightarrow> nat \<Rightarrow> nat \<Rightarrow> bool \<Rightarrow> nat option \<Rightarrow> Graph \<Rightarrow> Graph option" where
  "addEdgeAtPos_loop [] to pos swp marker g = Some g"
| "addEdgeAtPos_loop (from # fromlist) to pos swp marker g =
     (case allocEdge from to (addVertex from g) of (new, g) \<Rightarrow>
        if \<not> new then addEdgeAtPos_loop fromlist to pos swp marker g
        else case marker of
               Some m \<Rightarrow>
                 addEdgeAtPos_loop fromlist to pos swp marker
                   (if swp then upd_vex to (\<lambda>x. x\<lparr>v_in := put_before m from (v_in x)\<rparr>) g else g)
             | None \<Rightarrow>
                 if length (getInList g to) \<le> pos then None
                 else let m = getInList g to ! pos; swp = (if m = last (getInList g to) then False else swp)
                      in addEdgeAtPos_loop fromlist to pos swp (Some m)
                           (if swp then upd_vex to (\<lambda>x. x\<lparr>v_in := put_before m from (v_in x)\<rparr>) g else g))"

definition addEdgeAtPos :: "nat list \<Rightarrow> nat \<Rightarrow> nat \<Rightarrow> Graph \<Rightarrow> Graph option" where
  "addEdgeAtPos fromlist to pos g = addEdgeAtPos_loop fromlist to pos True None g"

definition replaceInVertex :: "nat \<Rightarrow> nat \<Rightarrow> nat list \<Rightarrow> Graph \<Rightarrow> (nat \<times> Graph) option" where
  "replaceInVertex from to newin g =
     (let from_pos = list_pos from (getInList g to)
      in map_option (Pair from_pos) (addEdgeAtPos newin to from_pos (removeEdge (from, to) g)))"

end
