(* ===== verification/GraphProps.thy ===== *)
theory GraphProps
  imports Graph
begin

text \<open>
  The invariant of \<open>Graph\<close>: the iteration order lists the vertices, the edge table is ordered, and the in- and out-lists
  of every vertex are the edges of the table without repetition. Every operation keeps it and acts on the sets of
  vertices and edges as its name says; the operations that insert vertices and edges in place also keep the positions
  of the neighbours, which the operands of phi functions depend on.
\<close>

section \<open>Invariant\<close>

definition verts :: "Graph \<Rightarrow> nat set" where "verts g = dom (g_vex g)"
definition edges :: "Graph \<Rightarrow> (nat \<times> nat) set" where "edges g = set (g_edges g)"

definition vertex_ok :: "(nat \<times> nat) set \<Rightarrow> nat \<Rightarrow> Vertex \<Rightarrow> bool" where
  "vertex_ok E v x \<longleftrightarrow> distinct (v_in x) \<and> distinct (v_out x) \<and> set (v_in x) = {u. (u, v) \<in> E} \<and> set (v_out x) = {w. (v, w) \<in> E}"

definition graph_wf :: "Graph \<Rightarrow> bool" where
  "graph_wf g \<longleftrightarrow>
     distinct (g_order g) \<and> set (g_order g) = verts g \<and> (g_dense g \<longrightarrow> sorted (g_order g)) \<and>
     distinct (g_edges g) \<and> sorted (g_edges g) \<and> edges g \<subseteq> verts g \<times> verts g \<and>
     (\<forall>v x. g_vex g v = Some x \<longrightarrow> vertex_ok (edges g) v x)"

named_theorems graph_simps

lemma graph_wf_vertex: "graph_wf g \<Longrightarrow> g_vex g v = Some x \<Longrightarrow> vertex_ok (edges g) v x"
  by (simp add: graph_wf_def)

lemma in_list_set [graph_simps]: "graph_wf g \<Longrightarrow> set (getInList g v) = {u. (u, v) \<in> edges g}"
  by (cases "g_vex g v") (auto simp: getInList_def graph_wf_def vertex_ok_def verts_def)

lemma out_list_set [graph_simps]: "graph_wf g \<Longrightarrow> set (getOutList g v) = {w. (v, w) \<in> edges g}"
  by (cases "g_vex g v") (auto simp: getOutList_def graph_wf_def vertex_ok_def verts_def)

lemma in_list_distinct [graph_simps]: "graph_wf g \<Longrightarrow> distinct (getInList g v)"
  by (cases "g_vex g v") (auto simp: getInList_def graph_wf_def vertex_ok_def)

lemma out_list_distinct [graph_simps]: "graph_wf g \<Longrightarrow> distinct (getOutList g v)"
  by (cases "g_vex g v") (auto simp: getOutList_def graph_wf_def vertex_ok_def)

lemma finite_edges [simp]: "finite (edges g)" by (simp add: edges_def)

lemma graph_wf_finite: "graph_wf g \<Longrightarrow> finite (verts g)"
  by (metis List.finite_set graph_wf_def)

lemma graph_wf_edge: "graph_wf g \<Longrightarrow> (u, v) \<in> edges g \<Longrightarrow> u \<in> verts g \<and> v \<in> verts g"
  by (auto simp: graph_wf_def)

lemma is_vertex_verts: "is_vertex g v \<longleftrightarrow> v \<in> verts g"
  by (auto simp: is_vertex_def verts_def)

lemma set_edges: "set (g_edges g) = edges g"
  by (simp add: edges_def)

lemma graph_init_wf: "graph_wf (graph_init dense slot)" "verts (graph_init dense slot) = {}" "edges (graph_init dense slot) = {}"
  by (simp_all add: graph_wf_def graph_init_def verts_def edges_def)

lemma graph_erase_wf: "graph_wf (graph_erase g)" "verts (graph_erase g) = {}" "edges (graph_erase g) = {}"
  by (simp_all add: graph_wf_def graph_erase_def verts_def edges_def)

section \<open>Vertices\<close>

lemma addVertex_sets [simp]: "verts (addVertex v g) = insert v (verts g)" "edges (addVertex v g) = edges g"
  by (auto simp: addVertex_def verts_def edges_def Let_def split: option.splits)

lemma addVertex_lists [simp]:
  "getInList (addVertex v g) = getInList g" "getOutList (addVertex v g) = getOutList g"
  by (auto simp: addVertex_def getInList_def getOutList_def Let_def fun_eq_iff split: option.splits)

lemma addVertex_fields [simp]: "g_direction (addVertex v g) = g_direction g"
  by (simp add: addVertex_def Let_def split: option.splits)

lemma distinct_place: "distinct xs \<Longrightarrow> v \<notin> set xs \<Longrightarrow> distinct (take n xs @ v # drop n xs)"
  by (auto simp: set_take_disj_set_drop_if_distinct dest: in_set_takeD in_set_dropD)

lemma set_place: "set (take n xs @ v # drop n xs) = insert v (set xs)"
  by (metis append_take_drop_id list.simps(15) set_append Un_insert_right)

lemma addVertex_wf:
  assumes "graph_wf g"
  shows "graph_wf (addVertex v g)"
proof (cases "g_vex g v")
  case None
  let ?n = "g_slot g (g_order g)"
  have v: "v \<notin> set (g_order g)" "v \<notin> verts g" using assms None by (auto simp: graph_wf_def verts_def)
  then have e: "(u, v) \<notin> edges g" "(v, u) \<notin> edges g" for u using assms by (auto simp: graph_wf_def)
  have "vertex_ok (edges g) v \<lparr>v_in = [], v_out = []\<rparr>" using e by (simp add: vertex_ok_def)
  moreover have "distinct (g_order (addVertex v g))" "set (g_order (addVertex v g)) = insert v (verts g)"
    "g_dense g \<longrightarrow> sorted (g_order (addVertex v g))"
    using assms None v distinct_place [OF _ v(1), of ?n] set_place [of ?n "g_order g" v]
    by (auto simp: addVertex_def graph_wf_def Let_def distinct_insort set_insort_key sorted_insort)
  moreover have "g_edges (addVertex v g) = g_edges g" "g_dense (addVertex v g) = g_dense g"
    "g_vex (addVertex v g) = (g_vex g)(v \<mapsto> \<lparr>v_in = [], v_out = []\<rparr>)"
    using None by (simp_all add: addVertex_def Let_def)
  ultimately show ?thesis using assms
    unfolding graph_wf_def addVertex_sets by (auto simp: fun_upd_def split: if_splits)
qed (use assms in \<open>simp add: addVertex_def\<close>)

section \<open>Edges\<close>

lemma upd_vex_fields [simp]:
  "verts (upd_vex v f g) = verts g" "g_edges (upd_vex v f g) = g_edges g" "g_direction (upd_vex v f g) = g_direction g"
  "g_order (upd_vex v f g) = g_order g" "g_dense (upd_vex v f g) = g_dense g" "edges (upd_vex v f g) = edges g"
  by (auto simp: upd_vex_def verts_def edges_def split: option.splits)

lemma upd_vex_vex: "g_vex (upd_vex v f g) w = (if w = v then map_option f (g_vex g v) else g_vex g w)"
  by (auto simp: upd_vex_def split: option.splits)

lemma verts_edges_upd [simp]: "verts (g\<lparr>g_edges := es\<rparr>) = verts g" "edges (g\<lparr>g_edges := es\<rparr>) = set es"
  by (simp_all add: verts_def edges_def)

lemma edgetab_append_sets:
  "edgetab_append from to g = (new, g') \<Longrightarrow>
   verts g' = verts g \<and> edges g' = insert (from, to) (edges g) \<and> g_direction g' = g_direction g \<and> (new \<longleftrightarrow> (from, to) \<notin> edges g)"
  by (auto simp: edgetab_append_def allocEdgeImpl_def addInList_def addOutList_def Let_def set_insort_key edges_def [symmetric]
      split: if_splits)

lemma edgetab_append_lists:
  assumes "graph_wf g" "from \<in> verts g" "to \<in> verts g" "edgetab_append from to g = (True, g')"
  shows "getInList g' v = (if v = to then getInList g v @ [from] else getInList g v)"
    "getOutList g' v = (if v = from then getOutList g v @ [to] else getOutList g v)"
proof -
  have n: "(from, to) \<notin> edges g" using edgetab_append_sets [OF assms(4)] by simp
  obtain x y where x: "g_vex g from = Some x" "g_vex g to = Some y" using assms(2,3) by (auto simp: verts_def)
  have "from \<notin> set (v_in y)" "to \<notin> set (v_out x)"
    using graph_wf_vertex [OF assms(1) x(1)] graph_wf_vertex [OF assms(1) x(2)] n by (simp_all add: vertex_ok_def)
  moreover have "g' = (addOutList from to (addInList from to g))\<lparr>g_edges := insort (from, to) (g_edges (addOutList from to (addInList from to g)))\<rparr>"
    using assms(4) by (simp add: edgetab_append_def allocEdgeImpl_def Let_def split: if_splits)
  ultimately show "getInList g' v = (if v = to then getInList g v @ [from] else getInList g v)"
    "getOutList g' v = (if v = from then getOutList g v @ [to] else getOutList g v)"
    using x by (auto simp: getInList_def getOutList_def addInList_def addOutList_def upd_vex_vex split: option.splits)
qed

text \<open>The invariant from the lists, as the operations on edges change nothing else of a vertex.\<close>

lemma graph_wfI:
  assumes "graph_wf g" "verts g' = verts g" "g_order g' = g_order g" "g_dense g' = g_dense g" "distinct (g_edges g')" "sorted (g_edges g')"
    "edges g' \<subseteq> verts g \<times> verts g"
    "\<And>v. distinct (getInList g' v) \<and> set (getInList g' v) = {u. (u, v) \<in> edges g'}"
    "\<And>v. distinct (getOutList g' v) \<and> set (getOutList g' v) = {w. (v, w) \<in> edges g'}"
  shows "graph_wf g'"
proof -
  have "vertex_ok (edges g') v x" if "g_vex g' v = Some x" for v x
    using assms(8,9) [of v] that by (simp add: vertex_ok_def getInList_def getOutList_def)
  then show ?thesis using assms(1-7) by (simp add: graph_wf_def)
qed

lemma edgetab_append_fields:
  "edgetab_append from to g = (new, g') \<Longrightarrow> g_order g' = g_order g \<and> g_dense g' = g_dense g \<and>
   g_edges g' = (if new then insort (from, to) (g_edges g) else g_edges g) \<and> (\<not> new \<longrightarrow> g' = g)"
  by (auto simp: edgetab_append_def allocEdgeImpl_def addInList_def addOutList_def Let_def split: if_splits)

lemma edgetab_append_wf:
  assumes "graph_wf g" "from \<in> verts g" "to \<in> verts g" "edgetab_append from to g = (new, g')"
  shows "graph_wf g'"
proof (cases new)
  case True
  then have a: "edgetab_append from to g = (True, g')" using assms(4) by simp
  note s = edgetab_append_sets [OF a] and f = edgetab_append_fields [OF a] and l = edgetab_append_lists [OF assms(1-3) a]
  show ?thesis
  proof (rule graph_wfI [OF assms(1)])
    show "distinct (g_edges g')" "sorted (g_edges g')"
      using f s assms(1) by (auto simp: graph_wf_def distinct_insort sorted_insort edges_def)
    show "edges g' \<subseteq> verts g \<times> verts g" using s assms(1-3) by (auto simp: graph_wf_def)
    show "distinct (getInList g' v) \<and> set (getInList g' v) = {u. (u, v) \<in> edges g'}"
      "distinct (getOutList g' v) \<and> set (getOutList g' v) = {w. (v, w) \<in> edges g'}" for v
      using l s assms(1) by (auto simp: in_list_set out_list_set in_list_distinct out_list_distinct)
  qed (use s f in simp_all)
qed (use edgetab_append_fields [OF assms(4)] assms(1) in simp)


text \<open>The edge that \<open>addEdge\<close> adds: an undirected edge is stored from its second end to its first, unless it is there.\<close>

definition new_edge :: "Graph \<Rightarrow> nat \<Rightarrow> nat \<Rightarrow> nat \<times> nat" where
  "new_edge g from to = (if g_direction g \<or> (from, to) \<in> edges g then (from, to) else (to, from))"


lemma allocEdge_wf:
  assumes "graph_wf g" "from \<in> verts g" "to \<in> verts g" "allocEdge from to g = (new, g')"
  shows "graph_wf g'" "verts g' = verts g" "edges g' = insert (new_edge g from to) (edges g)" "g_direction g' = g_direction g"
    "new \<longleftrightarrow> new_edge g from to \<notin> edges g"
proof -
  obtain a b where e: "new_edge g from to = (a, b)" by force
  have ab: "a \<in> verts g" "b \<in> verts g" using assms(2,3) e by (auto simp: new_edge_def split: if_splits)
  consider "new = False" "g' = g" "(a, b) \<in> edges g" | "edgetab_append a b g = (new, g')"
    using assms(4) e by (auto simp: allocEdge_def new_edge_def set_edges split: if_splits)
  then have "graph_wf g' \<and> verts g' = verts g \<and> edges g' = insert (a, b) (edges g) \<and> g_direction g' = g_direction g \<and>
      (new \<longleftrightarrow> (a, b) \<notin> edges g)"
  proof cases
    case 1
    then show ?thesis using assms(1) by (simp add: insert_absorb)
  next
    case 2
    then show ?thesis using edgetab_append_wf [OF assms(1) ab 2] edgetab_append_sets [OF 2] by simp
  qed
  then show "graph_wf g'" "verts g' = verts g" "edges g' = insert (new_edge g from to) (edges g)" "g_direction g' = g_direction g"
    "new \<longleftrightarrow> new_edge g from to \<notin> edges g" using e by simp_all
qed

lemma addEdge_wf:
  assumes "graph_wf g"
  shows "graph_wf (addEdge from to g)" "verts (addEdge from to g) = {from, to} \<union> verts g"
    "edges (addEdge from to g) = insert (new_edge g from to) (edges g)" "g_direction (addEdge from to g) = g_direction g"
proof -
  let ?g = "addVertex to (addVertex from g)"
  obtain new g' where a: "allocEdge from to ?g = (new, g')" by force
  have w: "graph_wf ?g" using assms addVertex_wf by blast
  have n: "new_edge ?g from to = new_edge g from to" by (simp add: new_edge_def)
  note t = allocEdge_wf [OF w _ _ a]
  show "graph_wf (addEdge from to g)" "verts (addEdge from to g) = {from, to} \<union> verts g"
    "edges (addEdge from to g) = insert (new_edge g from to) (edges g)" "g_direction (addEdge from to g) = g_direction g"
    using t n a by (auto simp: addEdge_def)
qed

text \<open>The lists after a new edge of a directed graph.\<close>

lemma addEdge_lists:
  assumes "graph_wf g" "g_direction g" "(from, to) \<notin> edges g"
  shows "getInList (addEdge from to g) v = (if v = to then getInList g v @ [from] else getInList g v)"
    "getOutList (addEdge from to g) v = (if v = from then getOutList g v @ [to] else getOutList g v)"
proof -
  let ?g = "addVertex to (addVertex from g)"
  obtain new g' where a: "edgetab_append from to ?g = (new, g')" by force
  have "new" using edgetab_append_sets [OF a] assms(3) by simp
  then have "edgetab_append from to ?g = (True, g')" using a by simp
  from edgetab_append_lists [OF _ _ _ this, of v] addVertex_wf assms
  have "getInList g' v = (if v = to then getInList g v @ [from] else getInList g v)"
    "getOutList g' v = (if v = from then getOutList g v @ [to] else getOutList g v)" by auto
  moreover have "addEdge from to g = g'" using a assms(2) by (simp add: addEdge_def allocEdge_def)
  ultimately show "getInList (addEdge from to g) v = (if v = to then getInList g v @ [from] else getInList g v)"
    "getOutList (addEdge from to g) v = (if v = from then getOutList g v @ [to] else getOutList g v)" by simp_all
qed

lemma removeEdge_lists:
  "getInList (removeEdge e g) v = (if v = snd e then remove1 (fst e) (getInList g v) else getInList g v)"
  "getOutList (removeEdge e g) v = (if v = fst e then remove1 (snd e) (getOutList g v) else getOutList g v)"
  by (auto simp: removeEdge_def Let_def getInList_def getOutList_def upd_vex_vex split: option.splits)

lemma removeEdge_fields:
  "verts (removeEdge e g) = verts g" "g_order (removeEdge e g) = g_order g" "g_dense (removeEdge e g) = g_dense g"
  "g_direction (removeEdge e g) = g_direction g" "g_edges (removeEdge e g) = remove1 e (g_edges g)"
  by (simp_all add: removeEdge_def Let_def)

lemma removeEdge_list_set:
  "distinct xs \<Longrightarrow> set xs = A \<Longrightarrow> distinct (if b then remove1 x xs else xs) \<and> set (if b then remove1 x xs else xs) = A - (if b then {x} else {})"
  by simp

lemma removeEdge_wf:
  assumes "graph_wf g"
  shows "graph_wf (removeEdge e g)" "verts (removeEdge e g) = verts g" "edges (removeEdge e g) = edges g - {e}"
proof -
  show e: "edges (removeEdge e g) = edges g - {e}"
    using assms by (simp add: edges_def removeEdge_fields graph_wf_def)
  show "verts (removeEdge e g) = verts g" by (rule removeEdge_fields)
  show "graph_wf (removeEdge e g)"
  proof (rule graph_wfI [OF assms])
    show "distinct (g_edges (removeEdge e g))" "sorted (g_edges (removeEdge e g))"
      using assms by (simp_all add: removeEdge_fields graph_wf_def sorted_remove1)
    show "edges (removeEdge e g) \<subseteq> verts g \<times> verts g" using e assms by (auto simp: graph_wf_def)
    show "distinct (getInList (removeEdge e g) v) \<and> set (getInList (removeEdge e g) v) = {u. (u, v) \<in> edges (removeEdge e g)}"
      "distinct (getOutList (removeEdge e g) v) \<and> set (getOutList (removeEdge e g) v) = {w. (v, w) \<in> edges (removeEdge e g)}" for v
      using removeEdge_list_set [OF in_list_distinct [OF assms, of v] in_list_set [OF assms, of v], of "v = snd e" "fst e"]
        removeEdge_list_set [OF out_list_distinct [OF assms, of v] out_list_set [OF assms, of v], of "v = fst e" "snd e"] e
      by (cases e; auto simp: removeEdge_lists)+
  qed (simp_all add: removeEdge_fields)
qed

definition removes :: "Graph \<Rightarrow> (nat \<times> nat) set \<Rightarrow> Graph \<Rightarrow> bool" where
  "removes g E h \<longleftrightarrow> graph_wf h \<and> verts h = verts g \<and> edges h = edges g - E \<and> g_direction h = g_direction g \<and> g_order h = g_order g"

lemma removes_trans: "removes g E h \<Longrightarrow> removes h F k \<Longrightarrow> removes g (E \<union> F) k"
  by (auto simp: removes_def)

lemma removeEdge_removes: "graph_wf g \<Longrightarrow> removes g {e} (removeEdge e g)"
  by (simp add: removes_def removeEdge_wf removeEdge_fields)

lemma removes_refl: "graph_wf g \<Longrightarrow> removes g {} g"
  by (simp add: removes_def)

lemma fold_removeEdge:
  "graph_wf g \<Longrightarrow> removes g (f ` {x \<in> set xs. P x}) (fold (\<lambda>x g. if P x then removeEdge (f x) g else g) xs g)"
proof (induction xs arbitrary: g)
  case Nil
  then show ?case by (simp add: removes_refl)
next
  case (Cons x xs)
  show ?case
  proof (cases "P x")
    case True
    have "removes g {f x} (removeEdge (f x) g)" by (rule removeEdge_removes [OF Cons.prems])
    moreover from this have "graph_wf (removeEdge (f x) g)" by (simp add: removes_def)
    moreover have "f ` {y \<in> set (x # xs). P y} = {f x} \<union> f ` {y \<in> set xs. P y}" using True by auto
    ultimately show ?thesis using removes_trans [OF _ Cons.IH, of g "{f x}" "removeEdge (f x) g"] True by simp
  next
    case False
    then have "{y \<in> set (x # xs). P y} = {y \<in> set xs. P y}" by auto
    then show ?thesis using Cons.IH [OF Cons.prems] False by simp
  qed
qed

lemma removeEdgeBetween_removes:
  assumes "graph_wf g"
  shows "removes g {(v1, v2), (v2, v1)} (removeEdgeBetween v1 v2 g)"
proof -
  let ?g = "fold (\<lambda>x g. if x = v2 \<or> v1 = v2 \<and> x = v1 then removeEdge (v1, x) g else g) (getOutList g v1) g"
  note a = fold_removeEdge [OF assms, of "Pair v1" "getOutList g v1" "\<lambda>x. x = v2 \<or> v1 = v2 \<and> x = v1"]
  then have w: "graph_wf ?g" by (simp add: removes_def)
  note b = fold_removeEdge [OF w, of "\<lambda>x. (x, v1)" "getInList ?g v1" "\<lambda>x. x = v1 \<and> v1 = v2 \<or> x = v2"]
  have ea: "edges ?g = edges g - {(v1, v2)}" using a out_list_set [OF assms, of v1] by (auto simp: removes_def)
  have "edges (removeEdgeBetween v1 v2 g) = edges ?g - (\<lambda>x. (x, v1)) ` {x \<in> set (getInList ?g v1). x = v1 \<and> v1 = v2 \<or> x = v2}"
    using b by (simp add: removes_def removeEdgeBetween_def Let_def)
  also have "\<dots> = edges ?g - {(v2, v1)}" using in_list_set [OF w, of v1] by auto
  finally have "edges (removeEdgeBetween v1 v2 g) = edges g - {(v1, v2), (v2, v1)}" using ea by auto
  then show ?thesis using a b by (simp add: removes_def removeEdgeBetween_def Let_def)
qed

lemma removeVertex_wf:
  assumes "graph_wf g"
  shows "graph_wf (removeVertex v g)" "verts (removeVertex v g) = verts g - {v}"
    "edges (removeVertex v g) = {(a, b) \<in> edges g. a \<noteq> v \<and> b \<noteq> v}"
    "g_direction (removeVertex v g) = g_direction g" "g_order (removeVertex v g) = remove1 v (g_order g)"
proof -
  let ?a = "fold (\<lambda>x g. removeEdge (v, x) g) (getOutList g v) g"
  let ?b = "fold (\<lambda>x g. removeEdge (x, v) g) (getInList ?a v) ?a"
  have a: "graph_wf ?a \<and> verts ?a = verts g \<and> edges ?a = edges g - Pair v ` {x \<in> set (getOutList g v). True} \<and>
      g_direction ?a = g_direction g \<and> g_order ?a = g_order g"
    using fold_removeEdge [OF assms, of "Pair v" "getOutList g v" "\<lambda>x. True"] by (simp add: removes_def)
  have b: "graph_wf ?b \<and> verts ?b = verts ?a \<and> edges ?b = edges ?a - (\<lambda>x. (x, v)) ` {x \<in> set (getInList ?a v). True} \<and>
      g_direction ?b = g_direction ?a \<and> g_order ?b = g_order ?a"
    using fold_removeEdge [OF conjunct1 [OF a], of "\<lambda>x. (x, v)" "getInList ?a v" "\<lambda>x. True"] by (simp add: removes_def)
  have "edges ?a = {(x, y) \<in> edges g. x \<noteq> v}" using a out_list_set [OF assms, of v] by auto
  then have eb: "edges ?b = {(x, y) \<in> edges g. x \<noteq> v \<and> y \<noteq> v}" using b in_list_set [OF conjunct1 [OF a], of v] by auto
  have nv: "removeVertex v g = g \<and> v \<notin> set (g_order g)" if "v \<notin> verts g"
    using that assms by (simp add: removeVertex_def is_vertex_verts graph_wf_def)
  let ?r = "?b\<lparr>g_vex := (g_vex ?b)(v := None), g_order := remove1 v (g_order ?b)\<rparr>"
  have r: "removeVertex v g = ?r" if "v \<in> verts g" using that by (simp add: removeVertex_def is_vertex_verts Let_def)
  have ve: "verts ?r = verts ?b - {v}" "edges ?r = edges ?b" by (auto simp: verts_def edges_def)
  have "graph_wf ?r"
  proof -
    have w: "graph_wf ?b" using b by blast
    have "\<forall>u x. g_vex ?r u = Some x \<longrightarrow> vertex_ok (edges ?r) u x" using w ve(2) by (auto simp: graph_wf_def split: if_splits)
    moreover have "distinct (g_order ?r)" "set (g_order ?r) = verts ?r" "g_dense ?r \<longrightarrow> sorted (g_order ?r)"
      using w ve(1) by (auto simp: graph_wf_def sorted_remove1)
    moreover have "distinct (g_edges ?r)" "sorted (g_edges ?r)" using w by (simp_all add: graph_wf_def)
    moreover have "edges ?r \<subseteq> verts ?r \<times> verts ?r"
      using ve eb graph_wf_edge [OF w] by (auto simp del: verts_edges_upd)
    ultimately show ?thesis unfolding graph_wf_def by blast
  qed
  then show "graph_wf (removeVertex v g)" using nv r assms by metis
  show "verts (removeVertex v g) = verts g - {v}" using nv r ve a b by (cases "v \<in> verts g") auto
  show "edges (removeVertex v g) = {(a, b) \<in> edges g. a \<noteq> v \<and> b \<noteq> v}"
    using nv r ve eb graph_wf_edge [OF assms] by (cases "v \<in> verts g") auto
  show "g_direction (removeVertex v g) = g_direction g" "g_order (removeVertex v g) = remove1 v (g_order g)"
    using nv r a b by (cases "v \<in> verts g"; simp add: remove1_idem)+
qed

end
