(* ===== verification/GraphOps.thy ===== *)
theory GraphOps
  imports GraphProps
begin

text \<open>
  What the queries of \<open>Graph\<close> answer under the invariant, and the operations that put an edge or a vertex in the place
  of another: the positions of all other neighbours stay.
\<close>

section \<open>Queries\<close>

lemma getEdge_directed: "graph_wf g \<Longrightarrow> g_direction g \<Longrightarrow> getEdge g u v = (if (u, v) \<in> edges g then Some (u, v) else None)"
  using out_list_set [of g u] graph_wf_edge [of g u v]
  by (auto simp: getEdge_def is_vertex_verts find_None_iff find_Some_iff split: option.splits)

lemma is_edge_directed: "graph_wf g \<Longrightarrow> g_direction g \<Longrightarrow> is_edge g u v \<longleftrightarrow> (u, v) \<in> edges g"
  by (simp add: is_edge_def getEdge_directed)

lemma is_edge_undirected:
  assumes "graph_wf g" "\<not> g_direction g"
  shows "is_edge g u v \<longleftrightarrow> (u, v) \<in> edges g \<or> (v, u) \<in> edges g"
proof -
  have f: "List.find (\<lambda>x. x = a) xs = None \<longleftrightarrow> a \<notin> set xs" "List.find (\<lambda>x. x = b \<or> a = b \<and> x = a) xs = None \<longleftrightarrow> b \<notin> set xs" for a b and xs :: "nat list"
    by (auto simp: find_None_iff)
  show ?thesis
    using f(2) [where a = u and b = v and xs = "getOutList g u"] f(1) [where a = u and xs = "getOutList g v"]
      out_list_set [OF assms(1), of u] out_list_set [OF assms(1), of v] assms(2) graph_wf_edge [OF assms(1)]
    by (auto simp: is_edge_def getEdge_def is_vertex_verts split: option.splits)
qed

lemma degree_more: "degree_more el d num \<longleftrightarrow> d + length el > num"
  by (induction el arbitrary: d) auto

lemma degree_equal: "degree_equal el d num \<longleftrightarrow> (if el = [] then d = num else d < num \<and> num \<le> d + length el)"
  by (induction el arbitrary: d) auto

lemma fold_list_set:
  "set (fold (\<lambda>x ni. if x \<in> set ni then ni else ni @ [x]) xs ni) = set xs \<union> set ni \<and>
   (distinct ni \<longrightarrow> distinct (fold (\<lambda>x ni. if x \<in> set ni then ni else ni @ [x]) xs ni))"
  by (induction xs arbitrary: ni) auto

lemma fold_insert_set: "fold insert xs A = set xs \<union> A"
  by (induction xs arbitrary: A) auto

definition neighbours :: "Graph \<Rightarrow> nat \<Rightarrow> nat set" where
  "neighbours g v = {u. (u, v) \<in> edges g \<or> (v, u) \<in> edges g}"

lemma getNeighborList_correct:
  assumes "graph_wf g" "distinct ni"
  shows "case getNeighborList g v ni of (ok, l) \<Rightarrow> (ok \<longleftrightarrow> v \<in> verts g) \<and> distinct l \<and>
    set l = set ni \<union> (if ok then neighbours g v else {})"
  using assms by (auto simp: getNeighborList_def Let_def fold_list_set in_list_set out_list_set neighbours_def is_vertex_verts)

lemma getNeighborSet_correct:
  assumes "graph_wf g"
  shows "getNeighborSet g v A = (v \<in> verts g, A \<union> (if v \<in> verts g then neighbours g v else {}))"
  using assms by (auto simp: getNeighborSet_def fold_insert_set in_list_set out_list_set neighbours_def is_vertex_verts)

lemma degree_card:
  "graph_wf g \<Longrightarrow> getInDegree g v = card {u. (u, v) \<in> edges g}" "graph_wf g \<Longrightarrow> getOutDegree g v = card {w. (v, w) \<in> edges g}"
  by (metis getInDegree_def in_list_set in_list_distinct distinct_card,
      metis getOutDegree_def out_list_set out_list_distinct distinct_card)

lemma list_pos_nth: "x \<in> set xs \<Longrightarrow> list_pos x xs < length xs \<and> xs ! list_pos x xs = x"
  unfolding list_pos_def by (induction xs) auto

lemma list_pos_append: "list_pos x (xs @ ys) = (if x \<in> set xs then list_pos x xs else length xs + list_pos x ys)"
  unfolding list_pos_def by (induction xs) auto

lemma list_pos_split: "x \<notin> set xs \<Longrightarrow> list_pos x (xs @ x # ys) = length xs"
  unfolding list_pos_def by (induction xs) auto

section \<open>Equality\<close>

lemma equal_vertices_true:
  assumes "graph_wf g" "graph_wf h"
  shows "equal_vertices g h vl = Some True \<Longrightarrow>
    \<forall>v\<in>set vl. v \<in> verts h \<and> (\<forall>w. (v, w) \<in> edges g \<longleftrightarrow> (v, w) \<in> edges h)"
proof (induction vl)
  case (Cons v vl)
  have s: "set (getOutList g v) = {w. (v, w) \<in> edges g}" "set (getOutList h v) = {w. (v, w) \<in> edges h}"
    "distinct (getOutList g v)" "distinct (getOutList h v)"
    using assms by (simp_all add: graph_simps)
  have "v \<in> verts h \<and> set (getOutList h v) = set (getOutList g v) \<and> equal_vertices g h vl = Some True"
  proof -
    have "set (getOutList h v) = set (getOutList g v)"
      if "list_all (\<lambda>x. x \<in> set (getOutList g v)) (getOutList h v)" "length (getOutList g v) = length (getOutList h v)"
      using that s(3,4) by (metis List.finite_set card_subset_eq distinct_card list.pred_set subsetI)
    then show ?thesis using Cons.prems by (auto simp: is_vertex_verts list_all_iff split: if_splits)
  qed
  then show ?case using Cons.IH s(1,2) by auto
qed simp

lemma equal_vertices_false:
  assumes "graph_wf g" "graph_wf h" "verts g = verts h" "edges g = edges h"
  shows "set vl \<subseteq> verts g \<Longrightarrow> equal_vertices g h vl = Some True"
proof (induction vl)
  case (Cons v vl)
  have "set (getOutList g v) = set (getOutList h v)" "distinct (getOutList g v)" "distinct (getOutList h v)"
    using assms by (simp_all add: graph_simps)
  moreover from this have "length (getOutList g v) = length (getOutList h v)" by (metis distinct_card)
  ultimately show ?case using Cons assms by (auto simp: is_vertex_verts list_all_iff)
qed simp

lemma graph_nums: "graph_wf g \<Longrightarrow> getVertexNum g = card (verts g)" "graph_wf g \<Longrightarrow> getEdgeNum g = card (edges g)"
  by (metis getVertexNum_def graph_wf_def distinct_card, metis getEdgeNum_def graph_wf_def distinct_card set_edges)

lemma graph_is_equal_correct:
  assumes "graph_wf g" "graph_wf h" "graph_is_equal g h = Some b"
  shows "b \<longleftrightarrow> verts g = verts h \<and> edges g = edges h"
proof (cases "verts g = verts h \<and> edges g = edges h")
  case True
  then show ?thesis using assms equal_vertices_false [OF assms(1,2), of "g_order g"]
    by (auto simp: graph_is_equal_def graph_nums graph_wf_def split: if_splits)
next
  case False
  have "\<not> b"
  proof
    assume b
    then have c: "card (verts g) = card (verts h)" "card (edges g) = card (edges h)" "equal_vertices g h (g_order g) = Some True"
      using assms by (auto simp: graph_is_equal_def graph_nums split: if_splits)
    have o: "set (g_order g) = verts g" using assms(1) by (simp add: graph_wf_def)
    note t = equal_vertices_true [OF assms(1,2) c(3), unfolded o]
    have sub: "verts g \<subseteq> verts h" using t by blast
    then have v: "verts g = verts h" using c(1) graph_wf_finite assms(2) by (simp add: card_subset_eq)
    have "e \<in> edges g \<longleftrightarrow> e \<in> edges h" for e
      using t v graph_wf_edge [OF assms(1), of "fst e" "snd e"] graph_wf_edge [OF assms(2), of "fst e" "snd e"] by (cases e) auto
    then have "edges g = edges h" by blast
    then show False using v False by simp
  qed
  then show ?thesis using False by simp
qed

section \<open>Putting vertices and edges in place\<close>

lemma until_first:
  "y \<notin> set C \<Longrightarrow> takeWhile (\<lambda>z. z \<noteq> y) (C @ y # B) = C" "y \<notin> set C \<Longrightarrow> dropWhile (\<lambda>z. z \<noteq> y) (C @ y # B) = y # B"
  by (induction C) auto

lemma put_after_before:
  assumes "distinct (A @ v # B)" "n \<notin> set A" "n \<notin> set B"
  shows "put_after (before_elem v (A @ v # B)) n (A @ B @ [n]) = A @ n # B"
proof (cases A rule: rev_cases)
  case Nil
  then show ?thesis using assms by (simp add: put_after_def before_elem_def remove1_append)
next
  case (snoc C y)
  have t: "takeWhile (\<lambda>y. y \<noteq> v) (A @ v # B) = A" by (rule until_first) (use assms(1) in simp)
  have "takeWhile (\<lambda>z. z \<noteq> y) (C @ y # B) = C" "dropWhile (\<lambda>z. z \<noteq> y) (C @ y # B) = y # B"
    by (rule until_first; use assms(1) snoc in simp)+
  moreover have "before_elem v (A @ v # B) = Some y" using t snoc by (cases C) (simp_all add: before_elem_def)
  moreover have "remove1 n (A @ B @ [n]) = C @ y # B" using assms(2,3) snoc by (simp add: remove1_append)
  ultimately show ?thesis using snoc by (simp add: put_after_def)
qed

lemma upd_lists:
  "f [] = [] \<Longrightarrow> getInList (upd_vex u (\<lambda>x. x\<lparr>v_in := f (v_in x)\<rparr>) g) v = (if v = u then f (getInList g v) else getInList g v)"
  "getOutList (upd_vex u (\<lambda>x. x\<lparr>v_in := f (v_in x)\<rparr>) g) v = getOutList g v"
  "f [] = [] \<Longrightarrow> getOutList (upd_vex u (\<lambda>x. x\<lparr>v_out := f (v_out x)\<rparr>) g) v = (if v = u then f (getOutList g v) else getOutList g v)"
  "getInList (upd_vex u (\<lambda>x. x\<lparr>v_out := f (v_out x)\<rparr>) g) v = getInList g v"
  by (auto simp: getInList_def getOutList_def upd_vex_vex split: option.splits)

lemma upd_in_lists:
  "u \<in> verts g \<Longrightarrow> getInList (upd_vex u (\<lambda>x. x\<lparr>v_in := f (v_in x)\<rparr>) g) v = (if v = u then f (getInList g v) else getInList g v)"
  by (auto simp: getInList_def upd_vex_vex verts_def)

lemma upd_out_lists:
  "u \<in> verts g \<Longrightarrow> getOutList (upd_vex u (\<lambda>x. x\<lparr>v_out := f (v_out x)\<rparr>) g) v = (if v = u then f (getOutList g v) else getOutList g v)"
  by (auto simp: getOutList_def upd_vex_vex verts_def)

lemma upd_in_wf:
  assumes "graph_wf g" "u \<in> verts g" "distinct (f (getInList g u))" "set (f (getInList g u)) = set (getInList g u)"
  shows "graph_wf (upd_vex u (\<lambda>x. x\<lparr>v_in := f (v_in x)\<rparr>) g)"
proof (rule graph_wfI [OF assms(1)])
  let ?g = "upd_vex u (\<lambda>x. x\<lparr>v_in := f (v_in x)\<rparr>) g"
  show "distinct (getInList ?g v) \<and> set (getInList ?g v) = {u. (u, v) \<in> edges ?g}"
    "distinct (getOutList ?g v) \<and> set (getOutList ?g v) = {w. (v, w) \<in> edges ?g}" for v
    using assms by (auto simp: upd_in_lists upd_lists(2) graph_simps)
qed (use assms(1) in \<open>simp_all add: graph_wf_def\<close>)

lemma upd_out_wf:
  assumes "graph_wf g" "u \<in> verts g" "distinct (f (getOutList g u))" "set (f (getOutList g u)) = set (getOutList g u)"
  shows "graph_wf (upd_vex u (\<lambda>x. x\<lparr>v_out := f (v_out x)\<rparr>) g)"
proof (rule graph_wfI [OF assms(1)])
  let ?g = "upd_vex u (\<lambda>x. x\<lparr>v_out := f (v_out x)\<rparr>) g"
  show "distinct (getInList ?g v) \<and> set (getInList ?g v) = {u. (u, v) \<in> edges ?g}"
    "distinct (getOutList ?g v) \<and> set (getOutList ?g v) = {w. (v, w) \<in> edges ?g}" for v
    using assms by (auto simp: upd_out_lists upd_lists(4) graph_simps)
qed (use assms(1) in \<open>simp_all add: graph_wf_def\<close>)

text \<open>The new vertex takes the place of each end of the edge in the list of the other.\<close>

definition subst_elem :: "nat \<Rightarrow> nat \<Rightarrow> nat list \<Rightarrow> nat list" where
  "subst_elem a b = map (\<lambda>x. if x = a then b else x)"

lemma subst_elem_split: "distinct (A @ a # B) \<Longrightarrow> subst_elem a b (A @ a # B) = A @ b # B"
  by (auto simp: subst_elem_def intro!: map_idI)

lemma insertVertexBetween_base:
  assumes "graph_wf g" "g_direction g" "(v1, v2) \<in> edges g" "n \<notin> verts g"
  defines "h \<equiv> addEdge n v2 (addEdge v1 n (removeEdge (v1, v2) (addVertex n g)))"
  shows "graph_wf h" "verts h = insert n (verts g)" "edges h = edges g - {(v1, v2)} \<union> {(v1, n), (n, v2)}" "g_direction h"
    "getOutList h v = (if v = v1 then remove1 v2 (getOutList g v1) @ [n] else if v = n then [v2] else getOutList g v)"
    "getInList h v = (if v = v2 then remove1 v1 (getInList g v2) @ [n] else if v = n then [v1] else getInList g v)"
proof -
  let ?r = "removeEdge (v1, v2) (addVertex n g)"
  let ?a = "addEdge v1 n ?r"
  have v: "v1 \<in> verts g" "v2 \<in> verts g" "v1 \<noteq> n" "v2 \<noteq> n" using graph_wf_edge [OF assms(1,3)] assms(4) by auto
  have ne: "(u, n) \<notin> edges g" "(n, u) \<notin> edges g" for u using graph_wf_edge [OF assms(1)] assms(4) by blast+
  have e: "getInList g n = []" "getOutList g n = []" using assms(4)
    by (auto simp: getInList_def getOutList_def verts_def split: option.splits)
  have r: "graph_wf ?r" "verts ?r = insert n (verts g)" "edges ?r = edges g - {(v1, v2)}" "g_direction ?r"
    using removeEdge_wf [OF addVertex_wf [OF assms(1)]] assms(2) by (simp_all add: removeEdge_fields)
  have a: "graph_wf ?a" "verts ?a = insert n (verts g)" "edges ?a = insert (v1, n) (edges g - {(v1, v2)})" "g_direction ?a"
    using addEdge_wf [OF r(1), of v1 n] r v by (auto simp: new_edge_def)
  show "graph_wf h" "verts h = insert n (verts g)" "edges h = edges g - {(v1, v2)} \<union> {(v1, n), (n, v2)}" "g_direction h"
    using addEdge_wf [OF a(1), of n v2] a v by (auto simp: h_def new_edge_def)
  have l: "(v1, n) \<notin> edges ?r" "(n, v2) \<notin> edges ?a" using r a ne v by auto
  show "getOutList h v = (if v = v1 then remove1 v2 (getOutList g v1) @ [n] else if v = n then [v2] else getOutList g v)"
    "getInList h v = (if v = v2 then remove1 v1 (getInList g v2) @ [n] else if v = n then [v1] else getInList g v)"
    using addEdge_lists [OF a(1,4) l(2), of v] addEdge_lists [OF r(1,4) l(1), of v] v e by (auto simp: h_def removeEdge_lists)
qed

lemma insertVertexBetween_correct:
  assumes "graph_wf g" "g_direction g" "(v1, v2) \<in> edges g" "n \<notin> verts g"
  defines "h \<equiv> insertVertexBetween v1 v2 n True g"
  shows "graph_wf h" "verts h = insert n (verts g)" "edges h = edges g - {(v1, v2)} \<union> {(v1, n), (n, v2)}"
    "getOutList h v = (if v = n then [v2] else if v = v1 then subst_elem v2 n (getOutList g v1) else getOutList g v)"
    "getInList h v = (if v = n then [v1] else if v = v2 then subst_elem v1 n (getInList g v2) else getInList g v)"
proof -
  let ?b = "addEdge n v2 (addEdge v1 n (removeEdge (v1, v2) (addVertex n g)))"
  let ?f = "put_after (before_elem v2 (getOutList g v1)) n"
  let ?k = "put_after (before_elem v1 (getInList g v2)) n"
  let ?c = "upd_vex v1 (\<lambda>x. x\<lparr>v_out := ?f (v_out x)\<rparr>) ?b"
  have h: "h = upd_vex v2 (\<lambda>x. x\<lparr>v_in := ?k (v_in x)\<rparr>) ?c"
    by (simp add: h_def insertVertexBetween_def Let_def)
  note b = insertVertexBetween_base [OF assms(1-4)]
  have v: "v1 \<in> verts g" "v2 \<in> verts g" "v1 \<noteq> n" "v2 \<noteq> n" using graph_wf_edge [OF assms(1,3)] assms(4) by auto
  obtain A B where o: "getOutList g v1 = A @ v2 # B" using out_list_set [OF assms(1), of v1] assms(3) by (metis mem_Collect_eq split_list)
  obtain C D where i: "getInList g v2 = C @ v1 # D" using in_list_set [OF assms(1), of v2] assms(3) by (metis mem_Collect_eq split_list)
  have no: "n \<notin> set (getOutList g v1)" "n \<notin> set (getInList g v2)"
    using graph_wf_edge [OF assms(1)] assms(4) by (auto simp: out_list_set [OF assms(1)] in_list_set [OF assms(1)])
  have d: "distinct (A @ v2 # B)" "distinct (C @ v1 # D)"
    using out_list_distinct [OF assms(1), of v1] in_list_distinct [OF assms(1), of v2] o i by simp_all
  have f: "?f (remove1 v2 (getOutList g v1) @ [n]) = A @ n # B" "?k (remove1 v1 (getInList g v2) @ [n]) = C @ n # D"
    using put_after_before [OF d(1), of n] put_after_before [OF d(2), of n] no d unfolding o i by (simp_all add: remove1_append)
  have l: "getOutList ?b v1 = A @ B @ [n]" "getInList ?b v2 = C @ D @ [n]"
    using b(5) [of v1] b(6) [of v2] d o i by (simp_all add: remove1_append)
  have cw: "graph_wf ?c" by (rule upd_out_wf) (use b v d no f o l in \<open>auto simp: remove1_append\<close>)
  have ci: "getInList ?c u = getInList ?b u" for u by (rule upd_lists(4))
  show "graph_wf h" unfolding h
    by (rule upd_in_wf [OF cw]) (use b v d no f i l ci in \<open>auto simp: remove1_append\<close>)
  show "verts h = insert n (verts g)" "edges h = edges g - {(v1, v2)} \<union> {(v1, n), (n, v2)}" unfolding h using b by simp_all
  show "getOutList h v = (if v = n then [v2] else if v = v1 then subst_elem v2 n (getOutList g v1) else getOutList g v)"
    using b(2) b(5) [of v] v f d subst_elem_split [OF d(1), of n] o unfolding h upd_lists(2) by (auto simp: upd_out_lists)
  show "getInList h v = (if v = n then [v1] else if v = v2 then subst_elem v1 n (getInList g v2) else getInList g v)"
    using b(2) b(6) [of v] v f d subst_elem_split [OF d(2), of n] i unfolding h by (auto simp: upd_in_lists ci)
qed

section \<open>Replacing a predecessor\<close>

lemma addVertex_known: "v \<in> verts g \<Longrightarrow> addVertex v g = g"
  by (auto simp: addVertex_def verts_def)

lemma allocEdge_new:
  assumes "graph_wf g" "g_direction g" "(u, t) \<notin> edges g" "t \<in> verts g"
  shows "allocEdge u t (addVertex u g) = (True, addEdge u t g)"
proof -
  obtain new g' where a: "allocEdge u t (addVertex u g) = (new, g')" by force
  have "new" using allocEdge_wf(5) [OF addVertex_wf [OF assms(1)] _ _ a] assms(2-4) by (simp add: new_edge_def)
  then show ?thesis using a assms(4) by (simp add: addEdge_def addVertex_known)
qed

definition new_preds :: "Graph \<Rightarrow> nat \<Rightarrow> nat list \<Rightarrow> Graph \<Rightarrow> nat list \<Rightarrow> bool" where
  "new_preds g t fl h l \<longleftrightarrow>
     graph_wf h \<and> g_direction h \<and> verts h = verts g \<union> set fl \<and> edges h = edges g \<union> (\<lambda>x. (x, t)) ` set fl \<and> getInList h t = l \<and>
     (\<forall>u. u \<noteq> t \<longrightarrow> getInList h u = getInList g u)"

lemma new_preds_trans:
  "new_preds g t [x] h k \<Longrightarrow> new_preds h t fl i l \<Longrightarrow> new_preds g t (x # fl) i l"
  by (auto simp: new_preds_def)

lemma put_before_last:
  assumes "x \<notin> set (A @ m # C)" "m \<notin> set A"
  shows "put_before m x ((A @ m # C) @ [x]) = A @ x # m # C"
proof -
  have "remove1 x ((A @ m # C) @ [x]) = A @ m # C" using assms(1) by (simp add: remove1_append)
  then show ?thesis using assms by (simp add: put_before_def until_first)
qed

lemma add_pred_end:
  assumes "graph_wf g" "g_direction g" "t \<in> verts g" "x \<notin> set (getInList g t)"
  shows "new_preds g t [x] (addEdge x t g) (getInList g t @ [x])"
proof -
  have n: "(x, t) \<notin> edges g" using assms(1,4) by (simp add: in_list_set)
  then show ?thesis using addEdge_wf [OF assms(1), of x t] addEdge_lists [OF assms(1,2) n] assms(2,3)
    by (auto simp: new_preds_def new_edge_def)
qed

lemma add_pred_before:
  assumes "graph_wf g" "g_direction g" "t \<in> verts g" "x \<notin> set (getInList g t)" "getInList g t = A @ m # C"
  shows "new_preds g t [x] (upd_vex t (\<lambda>y. y\<lparr>v_in := put_before m x (v_in y)\<rparr>) (addEdge x t g)) (A @ x # m # C)"
proof -
  note e = add_pred_end [OF assms(1-4)]
  have d: "distinct (A @ m # C)" "x \<notin> set (A @ m # C)" using in_list_distinct [OF assms(1), of t] assms(4,5) by simp_all
  then have p: "put_before m x ((A @ m # C) @ [x]) = A @ x # m # C" by (intro put_before_last) simp_all
  have t: "t \<in> verts (addEdge x t g)" "getInList (addEdge x t g) t = (A @ m # C) @ [x]"
    using e assms(3,5) by (simp_all add: new_preds_def)
  have "graph_wf (upd_vex t (\<lambda>y. y\<lparr>v_in := put_before m x (v_in y)\<rparr>) (addEdge x t g))"
  proof (rule upd_in_wf)
    show "graph_wf (addEdge x t g)" using e by (simp add: new_preds_def)
    have "distinct (A @ x # m # C)" "set (A @ x # m # C) = set ((A @ m # C) @ [x])" using d by auto
    then show "distinct (put_before m x (getInList (addEdge x t g) t))"
      "set (put_before m x (getInList (addEdge x t g) t)) = set (getInList (addEdge x t g) t)" unfolding t p by simp_all
  qed (rule t)
  then show ?thesis using e t(1) p unfolding new_preds_def by (simp add: upd_in_lists t(2) del: append_assoc append_Cons)
qed

text \<open>Behind a mark, each new predecessor goes before the mark; when the mark was the first new one, to the end.\<close>

lemma addEdgeAtPos_marked:
  assumes "graph_wf g" "g_direction g" "t \<in> verts g" "getInList g t = A @ m # C" "distinct fl" "set fl \<inter> set (getInList g t) = {}"
  shows "\<exists>h. addEdgeAtPos_loop fl t pos True (Some m) g = Some h \<and> new_preds g t fl h (A @ fl @ m # C)"
  using assms
proof (induction fl arbitrary: g A)
  case Nil
  then show ?case by (simp add: new_preds_def)
next
  case (Cons x fl)
  let ?g = "upd_vex t (\<lambda>y. y\<lparr>v_in := put_before m x (v_in y)\<rparr>) (addEdge x t g)"
  have x: "x \<notin> set (getInList g t)" using Cons.prems(6) by auto
  have n: "new_preds g t [x] ?g ((A @ [x]) @ m # C)" using add_pred_before [OF Cons.prems(1-3) x Cons.prems(4)] by simp
  then have g: "graph_wf ?g" "g_direction ?g" "t \<in> verts ?g" "getInList ?g t = (A @ [x]) @ m # C" "set fl \<inter> set (getInList ?g t) = {}"
    using Cons.prems by (auto simp: new_preds_def)
  obtain h where h: "addEdgeAtPos_loop fl t pos True (Some m) ?g = Some h" "new_preds ?g t fl h ((A @ [x]) @ fl @ m # C)"
    using Cons.IH [OF g(1-4) _ g(5)] Cons.prems(5) by auto
  have "(x, t) \<notin> edges g" using x Cons.prems(1) by (simp add: in_list_set)
  then have "addEdgeAtPos_loop (x # fl) t pos True (Some m) g = Some h"
    using allocEdge_new [OF Cons.prems(1,2) _ Cons.prems(3)] h(1) by simp
  then show ?case using new_preds_trans [OF n h(2)] by simp
qed

lemma addEdgeAtPos_end:
  assumes "graph_wf g" "g_direction g" "t \<in> verts g" "distinct fl" "set fl \<inter> set (getInList g t) = {}"
  shows "\<exists>h. addEdgeAtPos_loop fl t pos False (Some m) g = Some h \<and> new_preds g t fl h (getInList g t @ fl)"
  using assms
proof (induction fl arbitrary: g)
  case Nil
  then show ?case by (simp add: new_preds_def)
next
  case (Cons x fl)
  have x: "x \<notin> set (getInList g t)" using Cons.prems(5) by auto
  note n = add_pred_end [OF Cons.prems(1-3) x]
  then have g: "graph_wf (addEdge x t g)" "g_direction (addEdge x t g)" "t \<in> verts (addEdge x t g)"
      "getInList (addEdge x t g) t = getInList g t @ [x]" "set fl \<inter> set (getInList (addEdge x t g) t) = {}"
    using Cons.prems by (auto simp: new_preds_def)
  obtain h where h: "addEdgeAtPos_loop fl t pos False (Some m) (addEdge x t g) = Some h"
      "new_preds (addEdge x t g) t fl h ((getInList g t @ [x]) @ fl)"
    using Cons.IH [OF g(1-3) _ g(5)] Cons.prems(4) g(4) by auto
  have "(x, t) \<notin> edges g" using x Cons.prems(1) by (simp add: in_list_set)
  then have "addEdgeAtPos_loop (x # fl) t pos False (Some m) g = Some h"
    using allocEdge_new [OF Cons.prems(1,2) _ Cons.prems(3)] h(1) by simp
  then show ?case using new_preds_trans [OF n h(2)] by simp
qed

lemma addEdgeAtPos_correct:
  assumes "graph_wf g" "g_direction g" "t \<in> verts g" "getInList g t = A @ B" "distinct fl" "set fl \<inter> set (getInList g t) = {}"
  shows "\<exists>h. addEdgeAtPos fl t (length A) g = Some h \<and> new_preds g t fl h (A @ fl @ B)"
proof (cases fl)
  case Nil
  then show ?thesis using assms by (simp add: new_preds_def addEdgeAtPos_def)
next
  case (Cons x xs)
  have x: "x \<notin> set (getInList g t)" using assms(6) Cons by auto
  have nx: "(x, t) \<notin> edges g" using x assms(1) by (simp add: in_list_set)
  note al = allocEdge_new [OF assms(1,2) nx assms(3)] and n = add_pred_end [OF assms(1-3) x]
  have l: "getInList (addEdge x t g) t = A @ B @ [x]" using n assms(4) by (simp add: new_preds_def)
  show ?thesis
  proof (cases B)
    case Nil
    have g: "graph_wf (addEdge x t g)" "g_direction (addEdge x t g)" "t \<in> verts (addEdge x t g)"
        "set xs \<inter> set (getInList (addEdge x t g) t) = {}" "distinct xs"
      using n l Nil assms(4-6) Cons assms(3) by (auto simp: new_preds_def)
    obtain h where h: "addEdgeAtPos_loop xs t (length A) False (Some x) (addEdge x t g) = Some h" "new_preds (addEdge x t g) t xs h (A @ x # xs)"
      using addEdgeAtPos_end [OF g(1-3,5,4)] l Nil by auto
    have "addEdgeAtPos fl t (length A) g = Some h" using al l Nil h(1) Cons by (simp add: addEdgeAtPos_def)
    then show ?thesis using new_preds_trans [OF n h(2)] Cons Nil by simp
  next
    case B: (Cons m C)
    let ?g = "upd_vex t (\<lambda>y. y\<lparr>v_in := put_before m x (v_in y)\<rparr>) (addEdge x t g)"
    have n: "new_preds g t [x] ?g ((A @ [x]) @ m # C)" using add_pred_before [OF assms(1-3) x] assms(4) B by simp
    have g: "graph_wf ?g" "g_direction ?g" "t \<in> verts ?g" "getInList ?g t = (A @ [x]) @ m # C" "set xs \<inter> set (getInList ?g t) = {}" "distinct xs"
      using n assms(3-6) Cons B by (auto simp: new_preds_def)
    obtain h where h: "addEdgeAtPos_loop xs t (length A) True (Some m) ?g = Some h" "new_preds ?g t xs h ((A @ [x]) @ xs @ m # C)"
      using addEdgeAtPos_marked [OF g(1-4,6,5)] by blast
    have "m \<noteq> x" using x assms(4) B by auto
    then have "addEdgeAtPos fl t (length A) g = Some h" using al l B h(1) Cons by (simp add: addEdgeAtPos_def nth_append)
    then show ?thesis using new_preds_trans [OF n h(2)] Cons B by simp
  qed
qed

lemma replaceInVertex_correct:
  assumes "graph_wf g" "g_direction g" "getInList g t = A @ v # B" "distinct newin" "set newin \<inter> set (A @ B) = {}"
  shows "\<exists>h. replaceInVertex v t newin g = Some (length A, h) \<and> graph_wf h \<and> verts h = verts g \<union> set newin \<and>
    edges h = edges g - {(v, t)} \<union> (\<lambda>x. (x, t)) ` set newin \<and> getInList h t = A @ newin @ B \<and> (\<forall>u. u \<noteq> t \<longrightarrow> getInList h u = getInList g u)"
proof -
  let ?r = "removeEdge (v, t) g"
  have d: "v \<notin> set A" using in_list_distinct [OF assms(1), of t] assms(3) by auto
  have t: "t \<in> verts g" using assms(3) by (auto simp: getInList_def verts_def split: option.splits)
  have r: "graph_wf ?r" "g_direction ?r" "t \<in> verts ?r" "getInList ?r t = A @ B" "edges ?r = edges g - {(v, t)}" "verts ?r = verts g"
    using removeEdge_wf [OF assms(1)] assms(2,3) t d by (simp_all add: removeEdge_fields removeEdge_lists remove1_append)
  obtain h where h: "addEdgeAtPos newin t (length A) ?r = Some h" "new_preds ?r t newin h (A @ newin @ B)"
    using addEdgeAtPos_correct [OF r(1-4) assms(4)] assms(5) r(4) by auto
  have "list_pos v (getInList g t) = length A" using d assms(3) by (simp add: list_pos_split)
  then have "replaceInVertex v t newin g = Some (length A, h)" using h(1) by (simp add: replaceInVertex_def)
  then show ?thesis using h(2) r(5,6) by (auto simp: new_preds_def removeEdge_lists)
qed

section \<open>Reversing all edges\<close>

lemma fold_reverseEdge:
  "graph_wf g \<Longrightarrow> g_direction g \<Longrightarrow> distinct es \<Longrightarrow> set es \<subseteq> edges g \<Longrightarrow>
   (\<forall>e \<in> set es. prod.swap e \<in> edges g \<longrightarrow> fst e = snd e) \<Longrightarrow>
   graph_wf (fold reverseEdge es g) \<and> g_direction (fold reverseEdge es g) \<and> verts (fold reverseEdge es g) = verts g \<and>
   edges (fold reverseEdge es g) = edges g - set es \<union> prod.swap ` set es"
proof (induction es arbitrary: g)
  case (Cons e es)
  obtain u v where e: "e = (u, v)" by force
  let ?g = "reverseEdge e g"
  have uv: "u \<in> verts g" "v \<in> verts g" using Cons.prems(1,4) e graph_wf_edge by auto
  have g: "graph_wf ?g" "g_direction ?g" "verts ?g = verts g" "edges ?g = insert (v, u) (edges g - {(u, v)})"
    using addEdge_wf [OF removeEdge_wf(1) [OF Cons.prems(1)], of v u "(u, v)"] removeEdge_wf [OF Cons.prems(1)] Cons.prems(2) e uv
    by (auto simp: reverseEdge_def removeEdge_fields new_edge_def)
  have s: "set es \<subseteq> edges ?g" using Cons.prems(3,4) g(4) e by auto
  have "\<forall>f \<in> set es. prod.swap f \<in> edges ?g \<longrightarrow> fst f = snd f"
  proof (intro ballI impI)
    fix f assume f: "f \<in> set es" "prod.swap f \<in> edges ?g"
    have "prod.swap f \<noteq> (v, u)" using f(1) Cons.prems(3) e by (metis distinct.simps(2) prod.swap_def swap_swap fst_conv snd_conv)
    then show "fst f = snd f" using f g(4) Cons.prems(5) by auto
  qed
  from Cons.IH [OF g(1,2) _ s this] Cons.prems(3)
  have i: "graph_wf (fold reverseEdge es ?g) \<and> g_direction (fold reverseEdge es ?g) \<and> verts (fold reverseEdge es ?g) = verts g \<and>
    edges (fold reverseEdge es ?g) = edges ?g - set es \<union> prod.swap ` set es" using g(3) by simp
  have vu: "(v, u) \<in> set es \<Longrightarrow> (v, u) \<in> edges g \<and> u = v" using Cons.prems(4,5) e by fastforce
  then have "(v, u) \<notin> set es" using Cons.prems(3) e by auto
  then have "edges ?g - set es \<union> prod.swap ` set es = edges g - set (e # es) \<union> prod.swap ` set (e # es)" using g(4) e by auto
  then show ?case using i by simp
qed simp

lemma reverseEdges_correct:
  assumes "graph_wf g" "g_direction g" "\<And>u v. (u, v) \<in> edges g \<Longrightarrow> (v, u) \<in> edges g \<Longrightarrow> u = v"
  shows "graph_wf (reverseEdges g) \<and> verts (reverseEdges g) = verts g \<and> edges (reverseEdges g) = (edges g)\<inverse>"
proof -
  have "distinct (g_edges g)" "set (g_edges g) \<subseteq> edges g" "\<forall>e \<in> set (g_edges g). prod.swap e \<in> edges g \<longrightarrow> fst e = snd e"
    using assms(1,3) by (auto simp: graph_wf_def set_edges)
  from fold_reverseEdge [OF assms(1,2) this] have "graph_wf (reverseEdges g) \<and> verts (reverseEdges g) = verts g \<and> edges (reverseEdges g) = prod.swap ` edges g"
    by (simp add: reverseEdges_def set_edges)
  moreover have "prod.swap ` edges g = (edges g)\<inverse>" by force
  ultimately show ?thesis by simp
qed

end
