(* ===== verification/Interf.thy ===== *)
theory Interf
  imports LifeClaims GraphOps
begin

text \<open>
  The interference graph of the lifetimes: class \<open>LTIG\<close> of \<^verbatim>\<open>src/opt/lt_interf_graph.cpp\<close>, an undirected graph whose
  vertices are the registers. Two registers are joined when their range vectors share a position; together with the
  construction of the lifetimes, when both are live at one position.
\<close>

section \<open>The code\<close>

definition LTIG_new :: "(nat list \<Rightarrow> nat) \<Rightarrow> Graph" where
  "LTIG_new slot = (graph_init True slot)\<lparr>g_direction := False\<rparr>"

fun ltig_with :: "LifeTime \<Rightarrow> LifeTime list \<Rightarrow> Graph \<Rightarrow> Graph" where
  "ltig_with lt1 [] g = g"
| "ltig_with lt1 (lt2 # ltlst) g =
     ltig_with lt1 ltlst
       (if lt_is_intersect (m_range_vec lt1) (m_range_vec lt2) then addEdge (m_prno lt1) (m_prno lt2) g else addVertex (m_prno lt2) g)"

fun ltig_loop :: "LifeTime list \<Rightarrow> Graph \<Rightarrow> Graph" where
  "ltig_loop [] g = g"
| "ltig_loop (lt1 # ltlst) g = ltig_loop ltlst (ltig_with lt1 ltlst (addVertex (m_prno lt1) g))"

definition LTIG_build :: "LifeTime list \<Rightarrow> Graph \<Rightarrow> Graph" where
  "LTIG_build ltlst g = ltig_loop ltlst (graph_erase g)"

definition getLTList :: "LifeTimeMgr \<Rightarrow> LifeTime list" where
  "getLTList mgr = map (\<lambda>p. the (m_prno2lt mgr p)) (m_lt_list mgr)"

definition LTIG_build_all :: "LifeTimeMgr \<Rightarrow> Graph \<Rightarrow> Graph" where
  "LTIG_build_all mgr g = LTIG_build (getLTList mgr) g"

definition is_interferred :: "Graph \<Rightarrow> LifeTime \<Rightarrow> LifeTime \<Rightarrow> bool" where
  "is_interferred g lt1 lt2 \<longleftrightarrow> getEdge g (m_prno lt1) (m_prno lt2) \<noteq> None"

section \<open>The graph of a list of lifetimes\<close>

definition joins :: "Graph \<Rightarrow> nat set \<Rightarrow> (nat \<Rightarrow> nat \<Rightarrow> bool) \<Rightarrow> bool" where
  "joins g V R \<longleftrightarrow>
     graph_wf g \<and> \<not> g_direction g \<and> verts g = V \<and> (\<forall>u v. (u, v) \<in> edges g \<or> (v, u) \<in> edges g \<longleftrightarrow> R u v)"

lemma joins_addEdge:
  "joins g V R \<Longrightarrow> joins (addEdge a b g) ({a, b} \<union> V) (\<lambda>u v. R u v \<or> u = a \<and> v = b \<or> u = b \<and> v = a)"
  unfolding joins_def by (auto simp: addEdge_wf new_edge_def)

lemma joins_addVertex: "joins g V R \<Longrightarrow> joins (addVertex a g) (insert a V) R"
  unfolding joins_def by (simp add: addVertex_wf)

lemma joins_cong: "joins g V R \<Longrightarrow> V = V' \<Longrightarrow> (\<And>u v. R u v \<longleftrightarrow> R' u v) \<Longrightarrow> joins g V' R'"
  by (simp add: joins_def)

definition share :: "LifeTime \<Rightarrow> LifeTime \<Rightarrow> bool" where
  "share lt1 lt2 \<longleftrightarrow> rv_pos (m_range_vec lt1) \<inter> rv_pos (m_range_vec lt2) \<noteq> {}"

lemma share_sym: "share a b \<longleftrightarrow> share b a" by (auto simp: share_def)

lemma ltig_with_joins:
  "joins g V R \<Longrightarrow> rv_ok (m_range_vec lt1) \<Longrightarrow> \<forall>lt\<in>set ltlst. rv_ok (m_range_vec lt) \<Longrightarrow> m_prno lt1 \<in> V \<Longrightarrow>
   joins (ltig_with lt1 ltlst g) (m_prno ` set ltlst \<union> V)
     (\<lambda>u v. R u v \<or> (\<exists>lt2\<in>set ltlst. share lt1 lt2 \<and> (u = m_prno lt1 \<and> v = m_prno lt2 \<or> u = m_prno lt2 \<and> v = m_prno lt1)))"
proof (induction ltlst arbitrary: g V R)
  case (Cons lt2 ltlst)
  have i: "lt_is_intersect (m_range_vec lt1) (m_range_vec lt2) \<longleftrightarrow> share lt1 lt2"
    using Cons.prems(2,3) by (simp add: share_def lt_is_intersect_correct)
  show ?case
  proof (cases "share lt1 lt2")
    case True
    have "joins (addEdge (m_prno lt1) (m_prno lt2) g) ({m_prno lt1, m_prno lt2} \<union> V)
        (\<lambda>u v. R u v \<or> u = m_prno lt1 \<and> v = m_prno lt2 \<or> u = m_prno lt2 \<and> v = m_prno lt1)"
      by (rule joins_addEdge [OF Cons.prems(1)])
    from Cons.IH [OF this Cons.prems(2)] Cons.prems(3,4) True i show ?thesis by (auto elim!: joins_cong)
  next
    case False
    from Cons.IH [OF joins_addVertex [OF Cons.prems(1), of "m_prno lt2"] Cons.prems(2)] Cons.prems(3,4) False i
    show ?thesis by (auto elim!: joins_cong)
  qed
qed (auto elim!: joins_cong)

lemma bex_insert2:
  "(\<exists>a\<in>insert x S. \<exists>b\<in>insert x S. P a b) \<longleftrightarrow> P x x \<or> (\<exists>b\<in>S. P x b) \<or> (\<exists>a\<in>S. P a x) \<or> (\<exists>a\<in>S. \<exists>b\<in>S. P a b)"
  by blast

lemma ltig_loop_joins:
  "joins g V R \<Longrightarrow> \<forall>lt\<in>set ltlst. rv_ok (m_range_vec lt) \<Longrightarrow> distinct (map m_prno ltlst) \<Longrightarrow>
   joins (ltig_loop ltlst g) (m_prno ` set ltlst \<union> V)
     (\<lambda>u v. R u v \<or> (\<exists>lt1\<in>set ltlst. \<exists>lt2\<in>set ltlst. u = m_prno lt1 \<and> v = m_prno lt2 \<and> u \<noteq> v \<and> share lt1 lt2))"
proof (induction ltlst arbitrary: g V R)
  case (Cons lt1 ltlst)
  let ?R = "\<lambda>u v. R u v \<or>
    (\<exists>lt2\<in>set ltlst. share lt1 lt2 \<and> (u = m_prno lt1 \<and> v = m_prno lt2 \<or> u = m_prno lt2 \<and> v = m_prno lt1))"
  have p: "m_prno lt1 \<notin> m_prno ` set ltlst" "distinct (map m_prno ltlst)" using Cons.prems(3) by auto
  have ok: "rv_ok (m_range_vec lt1)" "\<forall>lt\<in>set ltlst. rv_ok (m_range_vec lt)" using Cons.prems(2) by auto
  have "joins (ltig_with lt1 ltlst (addVertex (m_prno lt1) g)) (m_prno ` set ltlst \<union> insert (m_prno lt1) V) ?R"
    by (rule ltig_with_joins [OF joins_addVertex [OF Cons.prems(1)] ok]) simp
  from Cons.IH [OF this ok(2) p(2)]
  have j: "joins (ltig_loop (lt1 # ltlst) g) (m_prno ` set ltlst \<union> (m_prno ` set ltlst \<union> insert (m_prno lt1) V))
     (\<lambda>u v. ?R u v \<or> (\<exists>lt1\<in>set ltlst. \<exists>lt2\<in>set ltlst. u = m_prno lt1 \<and> v = m_prno lt2 \<and> u \<noteq> v \<and> share lt1 lt2))" by simp
  show ?case
  proof (rule joins_cong [OF j])
    fix u v
    show "(?R u v \<or> (\<exists>lt1\<in>set ltlst. \<exists>lt2\<in>set ltlst. u = m_prno lt1 \<and> v = m_prno lt2 \<and> u \<noteq> v \<and> share lt1 lt2)) \<longleftrightarrow>
      R u v \<or> (\<exists>a\<in>set (lt1 # ltlst). \<exists>b\<in>set (lt1 # ltlst). u = m_prno a \<and> v = m_prno b \<and> u \<noteq> v \<and> share a b)"
    proof -
      have n: "m_prno b \<noteq> m_prno lt1" if "b \<in> set ltlst" for b using that p(1) by (metis image_eqI)
      have "(\<exists>a\<in>set (lt1 # ltlst). \<exists>b\<in>set (lt1 # ltlst). u = m_prno a \<and> v = m_prno b \<and> u \<noteq> v \<and> share a b) \<longleftrightarrow>
        (\<exists>b\<in>set ltlst. u = m_prno lt1 \<and> v = m_prno b \<and> u \<noteq> v \<and> share lt1 b) \<or>
        (\<exists>a\<in>set ltlst. u = m_prno a \<and> v = m_prno lt1 \<and> u \<noteq> v \<and> share lt1 a) \<or>
        (\<exists>a\<in>set ltlst. \<exists>b\<in>set ltlst. u = m_prno a \<and> v = m_prno b \<and> u \<noteq> v \<and> share a b)"
      proof -
        have sh: "share a lt1 \<longleftrightarrow> share lt1 a" for a by (rule share_sym)
        show ?thesis unfolding list.set bex_insert2 using sh by blast
      qed
      moreover have "(\<exists>b\<in>set ltlst. share lt1 b \<and> (u = m_prno lt1 \<and> v = m_prno b \<or> u = m_prno b \<and> v = m_prno lt1)) \<longleftrightarrow>
        (\<exists>b\<in>set ltlst. u = m_prno lt1 \<and> v = m_prno b \<and> u \<noteq> v \<and> share lt1 b) \<or>
        (\<exists>a\<in>set ltlst. u = m_prno a \<and> v = m_prno lt1 \<and> u \<noteq> v \<and> share lt1 a)"
        using n by (auto dest: sym)
      ultimately show ?thesis by blast
    qed

  qed auto
qed (auto elim!: joins_cong)

lemma LTIG_build_joins:
  assumes "\<not> g_direction g" "distinct (map m_prno ltlst)" "\<forall>lt\<in>set ltlst. rv_ok (m_range_vec lt)"
  shows "joins (LTIG_build ltlst g) (m_prno ` set ltlst)
    (\<lambda>u v. \<exists>lt1\<in>set ltlst. \<exists>lt2\<in>set ltlst. u = m_prno lt1 \<and> v = m_prno lt2 \<and> u \<noteq> v \<and> share lt1 lt2)"
proof -
  have "joins (graph_erase g) {} (\<lambda>u v. False)"
    using assms(1) graph_erase_wf [of g] by (simp add: joins_def graph_erase_def)
  from ltig_loop_joins [OF this assms(3,2)] show ?thesis by (simp add: LTIG_build_def)
qed

lemma LTIG_edge:
  assumes "\<not> g_direction g" "distinct (map m_prno ltlst)" "\<forall>lt\<in>set ltlst. rv_ok (m_range_vec lt)"
    "lt1 \<in> set ltlst" "lt2 \<in> set ltlst" "m_prno lt1 \<noteq> m_prno lt2"
  shows "is_interferred (LTIG_build ltlst g) lt1 lt2 \<longleftrightarrow> share lt1 lt2"
proof -
  note j = LTIG_build_joins [OF assms(1-3), unfolded joins_def]
  have "is_interferred (LTIG_build ltlst g) lt1 lt2 \<longleftrightarrow> is_edge (LTIG_build ltlst g) (m_prno lt1) (m_prno lt2)"
    by (simp add: is_interferred_def is_edge_def)
  also have "\<dots> \<longleftrightarrow> (\<exists>a\<in>set ltlst. \<exists>b\<in>set ltlst. m_prno lt1 = m_prno a \<and> m_prno lt2 = m_prno b \<and> m_prno lt1 \<noteq> m_prno lt2 \<and> share a b)"
    using j is_edge_undirected by simp
  also have "\<dots> \<longleftrightarrow> share lt1 lt2"
    using assms(2,4-6) by (metis (mono_tags, lifting) distinct_map inj_on_def)
  finally show ?thesis .
qed

section \<open>The list of lifetimes the manager keeps\<close>

definition listed :: "LifeTimeMgr \<Rightarrow> bool" where
  "listed mgr \<longleftrightarrow> distinct (m_lt_list mgr) \<and> set (m_lt_list mgr) = dom (m_prno2lt mgr)"

lemma listed_gen: "listed mgr \<Longrightarrow> listed (genLifeTime p mgr)"
  by (auto simp: listed_def genLifeTime_def split: option.splits)

lemma listed_upd: "(\<And>l. dom (f l) = dom l) \<Longrightarrow> listed mgr \<Longrightarrow> listed (upd_lts f mgr)"
  by (simp add: listed_def upd_lts_def)

lemma dom_upd_lt: "dom (upd_lt p f lts) = dom lts"
  by (auto simp: upd_lt_def split: option.splits)

lemma dom_addRange: "dom (lt_addRange p x y lts) = dom lts"
  by (simp add: lt_addRange_def dom_upd_lt)

lemma listed_counter: "listed mgr \<Longrightarrow> listed (update_counter p mgr)"
proof -
  assume l: "listed mgr"
  have "m_lt_list (update_counter p mgr) = m_lt_list mgr" by (simp add: update_counter_def split: prod.splits)
  then show ?thesis using l update_counter_simps(3) [of p mgr] by (simp add: listed_def)
qed

lemma listed_pre: "listed mgr \<Longrightarrow> listed (if pre p then upd_lts (upd_lt p setPreAssigned) mgr else mgr)"
  by (simp add: listed_upd dom_upd_lt)

lemma listed_use: "listed mgr \<Longrightarrow> listed (computeUSE pre d pos p mgr)"
  unfolding computeUSE_def Let_def
  by (rule listed_counter, rule listed_upd, simp, rule listed_upd, rule dom_upd_lt, rule listed_pre, rule listed_gen)

lemma listed_lhs: "listed mgr \<Longrightarrow> listed (computeLHS cand pre ir pos mgr)"
proof (cases "\<exists>p. st_result ir = Some p \<and> (st_call ir \<or> cand p)")
  case True
  assume l: "listed mgr"
  from True obtain p where p: "st_result ir = Some p" "st_call ir \<or> cand p" by blast
  have "listed (update_counter p (upd_lts (addOcc p occ) (upd_lts (lt_addRange p pos pos)
      (if pre p then upd_lts (upd_lt p setPreAssigned) (genLifeTime p mgr) else genLifeTime p mgr))))" for occ
    by (rule listed_counter, rule listed_upd, rule dom_addOcc, rule listed_upd, rule dom_addRange, rule listed_pre,
        rule listed_gen, rule l)
  then show ?thesis using p by (auto simp: computeLHS_def Let_def)
qed (auto simp: computeLHS_def split: option.splits)

lemma listed_fold: "(\<And>x m. listed m \<Longrightarrow> listed (f x m)) \<Longrightarrow> listed mgr \<Longrightarrow> listed (fold f xs mgr)"
  by (induction xs arbitrary: mgr) auto

lemma listed_stmts: "listed mgr \<Longrightarrow> listed (snd (computeLifeTimeBB cand pre d irs up mgr))"
proof (induction irs arbitrary: up mgr)
  case (Cons ir irs)
  have r: "listed (computeRHS cand pre ir pos d m)" if "listed m" for pos m
    unfolding computeRHS_def by (rule listed_fold) (simp_all add: listed_use that)
  have c: "listed (if b then mgr\<lparr>m_counter := x\<rparr> else mgr)" for b x using Cons.prems by (simp add: listed_def)
  show ?case
  proof (cases "updateAtIR (st_gap ir) up")
    case None
    then show ?thesis using Cons by simp
  next
    case (Some x)
    then obtain dpos upos up' where "updateAtIR (st_gap ir) up = Some (dpos, upos, up')" by (cases x) auto
    then show ?thesis
      using Cons.IH [OF listed_lhs [OF r [OF c [of "st_call ir \<and> \<not> st_intrinsic ir" "addNewCall dpos (m_counter mgr)"],
            of upos], of cand pre ir dpos], of up'] by (simp add: Let_def)
  qed
qed simp

lemma listed_in: "listed mgr \<Longrightarrow> listed (mergeLiveIn cand ps pos mgr)"
  unfolding mergeLiveIn_def by (rule listed_fold) (simp_all add: listed_upd listed_gen dom_addRange)

lemma listed_out: "listed mgr \<Longrightarrow> listed (mergeLiveOut cand ps pos mgr)"
  unfolding mergeLiveOut_def by (rule listed_fold) (simp_all add: listed_upd listed_gen dom_upd_lt)

lemma listed_blocks: "listed mgr \<Longrightarrow> listed (snd (lifetime2d_blocks cand pre li lo d bbs up mgr))"
proof (induction bbs arbitrary: up mgr)
  case (Cons bb bbs)
  obtain d1 u1 up1 m1 where 1: "updateBBEntryPos (bb_id bb) up mgr = (d1, u1, up1, m1)" by (metis prod_cases4)
  have l1: "listed m1" using 1 Cons.prems by (auto simp: updateBBEntryPos_def listed_def Let_def split: prod.splits)
  obtain up2 m2 where 2: "computeLifeTimeBB cand pre d (bb_irs bb) up1 (mergeLiveIn cand (li (bb_id bb)) d1 m1) = (up2, m2)" by force
  have l2: "listed m2" using listed_stmts [OF listed_in [OF l1, of cand "li (bb_id bb)" d1], of cand pre d "bb_irs bb" up1] 2 by simp
  obtain d3 u3 up3 m3 where 3: "updateBBExitPos (bb_id bb) up2 m2 = (d3, u3, up3, m3)" by (metis prod_cases4)
  have l3: "listed m3" using 3 l2 by (auto simp: updateBBExitPos_def listed_def Let_def split: prod.splits)
  show ?case using Cons.IH [OF listed_out [OF l3, of cand "lo (bb_id bb)" u3], of up3] 1 2 3 by (simp add: Let_def)
qed simp

lemma computeLifeTime2D_listed: "computeLifeTime2D cand pre li lo bbs up = (up', mgr) \<Longrightarrow> listed mgr"
proof -
  assume c: "computeLifeTime2D cand pre li lo bbs up = (up', mgr)"
  have "listed ltm_init" by (simp add: listed_def ltm_init_def)
  then have "listed (snd (lifetime2d_blocks cand pre li lo d bbs u ltm_init))" for d u by (rule listed_blocks)
  then have "listed (m\<lparr>m_max_pos := x\<rparr>)" if "lifetime2d_blocks cand pre li lo d bbs u ltm_init = (u', m)" for d u u' m x
    using that by (metis (no_types, lifting) listed_def snd_conv LifeTimeMgr.ext_inject LifeTimeMgr.surjective LifeTimeMgr.update_convs(3))
  then show "listed mgr" using c by (auto simp: computeLifeTime2D_def Let_def split: prod.splits)
qed

lemma getLTList_correct:
  assumes "listed mgr" "mok mgr"
  shows "distinct (map m_prno (getLTList mgr))" "m_prno ` set (getLTList mgr) = dom (m_prno2lt mgr)"
    "lt \<in> set (getLTList mgr) \<longleftrightarrow> m_prno2lt mgr (m_prno lt) = Some lt"
proof -
  have n: "m_prno (the (m_prno2lt mgr p)) = p" if "p \<in> set (m_lt_list mgr)" for p
    using that assms by (auto simp: listed_def lts_ok_def lt_flags_ok_def)
  then have "map m_prno (getLTList mgr) = m_lt_list mgr" by (simp add: getLTList_def map_idI)
  then show "distinct (map m_prno (getLTList mgr))" "m_prno ` set (getLTList mgr) = dom (m_prno2lt mgr)"
    using assms(1) by (simp add: listed_def, metis listed_def set_map)
  show "lt \<in> set (getLTList mgr) \<longleftrightarrow> m_prno2lt mgr (m_prno lt) = Some lt"
  proof
    assume "lt \<in> set (getLTList mgr)"
    then obtain p where p: "p \<in> set (m_lt_list mgr)" "lt = the (m_prno2lt mgr p)" by (auto simp: getLTList_def)
    moreover obtain l where "m_prno2lt mgr p = Some l" using p(1) assms(1) by (auto simp: listed_def)
    ultimately show "m_prno2lt mgr (m_prno lt) = Some lt" using n [OF p(1)] by simp
  next
    assume l: "m_prno2lt mgr (m_prno lt) = Some lt"
    then have "m_prno lt \<in> set (m_lt_list mgr)" using assms(1) by (auto simp: listed_def)
    then show "lt \<in> set (getLTList mgr)" using l unfolding getLTList_def by (auto intro!: image_eqI [of _ _ "m_prno lt"])
  qed
qed

lemma interferring_pair:
  assumes "listed mgr" "mok mgr" "p \<noteq> q"
  shows "(\<exists>a\<in>set (getLTList mgr). \<exists>b\<in>set (getLTList mgr). p = m_prno a \<and> q = m_prno b \<and> p \<noteq> q \<and> share a b) \<longleftrightarrow>
    rv_pos (rngs (m_prno2lt mgr) p) \<inter> rv_pos (rngs (m_prno2lt mgr) q) \<noteq> {}"
    (is "?l \<longleftrightarrow> ?r")
proof
  assume ?l
  then obtain a b where ab: "a \<in> set (getLTList mgr)" "b \<in> set (getLTList mgr)" "p = m_prno a" "q = m_prno b" "share a b" by blast
  then have "m_prno2lt mgr p = Some a" "m_prno2lt mgr q = Some b" using getLTList_correct(3) [OF assms(1,2)] by simp_all
  then show ?r using ab(5) by (simp add: rngs_def share_def)
next
  assume r: ?r
  have e: "\<exists>a. m_prno2lt mgr x = Some a" if "rv_pos (rngs (m_prno2lt mgr) x) \<noteq> {}" for x
    using that by (cases "m_prno2lt mgr x") (simp_all add: rngs_def)
  obtain a b where ab: "m_prno2lt mgr p = Some a" "m_prno2lt mgr q = Some b" using e [of p] e [of q] r by blast
  then have n: "m_prno a = p" "m_prno b = q" using assms(2) by (auto simp: lts_ok_def lt_flags_ok_def)
  then have "a \<in> set (getLTList mgr)" "b \<in> set (getLTList mgr)" using ab getLTList_correct(3) [OF assms(1,2)] by simp_all
  moreover have "share a b" using r ab by (simp add: rngs_def share_def)
  ultimately show ?l using n assms(3) by blast
qed

section \<open>Interference is liveness\<close>

text \<open>
  C1: on a region for which the liveness pass is exact, that is, where the number of blocks times the number of upward-exposed
  registers is below the limit of 1000 passes and every register live into the entry is read in the entry block, so that
  nothing is eliminated as redundant: after the live-variable pass and the construction of the lifetimes, the interference
  graph has a vertex for every register with a lifetime, it is well-formed, and two registers interfere exactly when there is
  a position at which both are live along some path. The positions counted stay below 2^32, blocks are entered and left at
  positions of their own (\<open>m_use_expose\<close>), and the interference graph is undirected.
\<close>

theorem interference_is_liveness:
  assumes "liveness_input B past fuel params auxp cfg lm" "few_changes False cfg"
    "path_live False cfg (cfg_entry cfg) \<subseteq> exposed False (cfg_irs cfg (cfg_entry cfg))"
    "same_program cfg bbs" "0 < m_pos up" "m_use_expose up" "m_pos up + region_size bbs + 2 < 4294967296"
    "\<not> g_direction g" "L = live_at cand (succ_live cfg) bbs (up\<lparr>m_pos := m_pos up + 2\<rparr>)"
  shows "\<exists>lm'. perform (sbs_ops B past) False fuel params auxp cfg lm = Some (lm', False) \<and>
    (\<forall>up' mgr. computeLifeTime2D cand pre (live_list (lm_livein lm')) (live_list (lm_liveout lm')) bbs up = (up', mgr) \<longrightarrow>
       graph_wf (LTIG_build_all mgr g) \<and> verts (LTIG_build_all mgr g) = dom (m_prno2lt mgr) \<and>
       (\<forall>lt1 lt2. cand (m_prno lt1) \<and> cand (m_prno lt2) \<and> m_prno lt1 \<noteq> m_prno lt2 \<longrightarrow>
          (is_interferred (LTIG_build_all mgr g) lt1 lt2 \<longleftrightarrow> (\<exists>pos. L (m_prno lt1) pos \<and> L (m_prno lt2) pos))))"
proof -
  obtain lm' where lm: "perform (sbs_ops B past) False fuel params auxp cfg lm = Some (lm', False)"
    and r: "live_region cand (live_list (lm_livein lm')) (live_list (lm_liveout lm')) bbs"
    and c: "\<And>u p q. live_at cand (live_list (lm_liveout lm')) bbs u p q \<longleftrightarrow> live_at cand (succ_live cfg) bbs u p q"
    by (rule pass_live_region [OF assms(1-4)]) blast
  show ?thesis
  proof (intro exI [of _ lm'] conjI allI impI, rule lm)
    fix up' mgr
    assume l: "computeLifeTime2D cand pre (live_list (lm_livein lm')) (live_list (lm_liveout lm')) bbs up = (up', mgr)"
    note t = lifetime_2d [OF l assms(5-7) r]
    have m: "mok mgr" using t(1) by (simp add: lts_ok_def)
    note li = getLTList_correct [OF computeLifeTime2D_listed [OF l] m]
    have ok: "\<forall>lt\<in>set (getLTList mgr). rv_ok (m_range_vec lt)"
      using t(1) li(3) by (auto simp: lt_verify_def verifyRangeVec_iff)
    note j = LTIG_build_joins [OF assms(8) li(1) ok, unfolded joins_def]
    show "graph_wf (LTIG_build_all mgr g)" "verts (LTIG_build_all mgr g) = dom (m_prno2lt mgr)"
      using j li(2) by (simp_all add: LTIG_build_all_def)
    have v: "pos \<in> rv_pos (rngs (m_prno2lt mgr) p) \<longleftrightarrow> L p pos" if "cand p" for p pos
      using t(3) [OF that] c assms(9) by simp
    fix lt1 lt2 :: LifeTime
    assume a: "cand (m_prno lt1) \<and> cand (m_prno lt2) \<and> m_prno lt1 \<noteq> m_prno lt2"
    have "is_interferred (LTIG_build_all mgr g) lt1 lt2 \<longleftrightarrow> is_edge (LTIG_build (getLTList mgr) g) (m_prno lt1) (m_prno lt2)"
      by (simp add: is_interferred_def is_edge_def LTIG_build_all_def)
    also have "\<dots> \<longleftrightarrow> (\<exists>a\<in>set (getLTList mgr). \<exists>b\<in>set (getLTList mgr). m_prno lt1 = m_prno a \<and> m_prno lt2 = m_prno b \<and>
        m_prno lt1 \<noteq> m_prno lt2 \<and> share a b)"
      using j is_edge_undirected by simp
    also have "\<dots> \<longleftrightarrow> rv_pos (rngs (m_prno2lt mgr) (m_prno lt1)) \<inter> rv_pos (rngs (m_prno2lt mgr) (m_prno lt2)) \<noteq> {}"
      by (rule interferring_pair [OF computeLifeTime2D_listed [OF l] m]) (use a in simp)
    also have "\<dots> \<longleftrightarrow> (\<exists>pos. L (m_prno lt1) pos \<and> L (m_prno lt2) pos)" using v a by blast
    finally show "is_interferred (LTIG_build_all mgr g) lt1 lt2 \<longleftrightarrow> (\<exists>pos. L (m_prno lt1) pos \<and> L (m_prno lt2) pos)" .
  qed
qed

lemma row_both_live:
  "live_at (\<lambda>p. True) (succ_live (row_cfg 5 [7] [5, 7])) (row_bbs 5 [7] [5, 7]) (up_init\<lparr>m_pos := m_pos up_init + 2\<rparr>) 5 10"
  "live_at (\<lambda>p. True) (succ_live (row_cfg 5 [7] [5, 7])) (row_bbs 5 [7] [5, 7]) (up_init\<lparr>m_pos := m_pos up_init + 2\<rparr>) 7 10"
  by (auto simp: row_bbs_def bb_live_def block_up_def Let_def row_succ_live up_init_def POS_INIT_VAL_def updateAtIR_def
      up_update_def u32_def proj_read_acts proj_def_acts split: if_splits)

lemma interference_is_liveness_witness:
  "\<exists>lm'. perform (sbs_ops 16 [0, 0, 0]) False 3 None [] (row_cfg 5 [7] [5, 7]) empty_lm = Some (lm', False) \<and>
     is_interferred (LTIG_build_all (snd (computeLifeTime2D (\<lambda>p. True) (\<lambda>p. False) (live_list (lm_livein lm'))
       (live_list (lm_liveout lm')) (row_bbs 5 [7] [5, 7]) up_init)) (LTIG_new length)) (LifeTime_new 5) (LifeTime_new 7)"
proof -
  let ?c = "row_cfg 5 [7] [5, 7]" and ?b = "row_bbs 5 [7] [5, 7]"
  have i: "liveness_input 16 [0, 0, 0] 3 None [] ?c empty_lm"
    by (rule row_input) (simp add: fits_def BS_UNDEF_def)
  have fc: "few_changes False ?c" by (rule row_few) simp
  have pl: "path_live False ?c (cfg_entry ?c) \<subseteq> exposed False (cfg_irs ?c (cfg_entry ?c))"
    using row_live(3) [of False 5 "[7]" "[5, 7]"] row_sets(1) [of False 5 "[7]" "[5, 7]"] by (simp add: row_graph)
  have u: "0 < m_pos up_init" "m_use_expose up_init" "m_pos up_init + region_size ?b + 2 < 4294967296"
    by (simp_all add: up_init_def POS_INIT_VAL_def region_size_def row_bbs_def)
  have g: "\<not> g_direction (LTIG_new length)" by (simp add: LTIG_new_def)
  have n: "m_prno (LifeTime_new p) = p" for p by (simp add: LifeTime_new_def)
  show ?thesis
  proof (rule exE [OF interference_is_liveness [OF i fc pl row_same u g refl, of "\<lambda>p. True" "\<lambda>p. False"]], goal_cases)
    case (1 lm')
    obtain up' mgr where c: "computeLifeTime2D (\<lambda>p. True) (\<lambda>p. False) (live_list (lm_livein lm')) (live_list (lm_liveout lm'))
        ?b up_init = (up', mgr)" by force
    have "is_interferred (LTIG_build_all mgr (LTIG_new length)) (LifeTime_new 5) (LifeTime_new 7) \<longleftrightarrow>
       (\<exists>pos. live_at (\<lambda>p. True) (succ_live ?c) ?b (up_init\<lparr>m_pos := m_pos up_init + 2\<rparr>) 5 pos \<and>
              live_at (\<lambda>p. True) (succ_live ?c) ?b (up_init\<lparr>m_pos := m_pos up_init + 2\<rparr>) 7 pos)"
      using 1 [THEN conjunct2, rule_format, OF c, THEN conjunct2, THEN conjunct2, rule_format, of "LifeTime_new 5" "LifeTime_new 7"]
      by (simp add: n)
    then have "is_interferred (LTIG_build_all mgr (LTIG_new length)) (LifeTime_new 5) (LifeTime_new 7)"
      using row_both_live by blast
    then show ?case using 1 c by (intro exI [of _ lm']) simp
  qed
qed

end
