(* ===== verification/GraphSearch.thy ===== *)
theory GraphSearch
  imports GraphOps "HOL-Library.While_Combinator"
begin

text \<open>
  Walking a graph: the iterators \<open>GraphIterIn\<close> and \<open>GraphIterOut\<close> of \<^verbatim>\<open>src/com/sgraph.h\<close> and the searches
  \<open>isReachExit\<close>, \<open>isReachIn\<close> and \<open>is_livein_from\<close> of \<^verbatim>\<open>src/com/sgraph.cpp\<close>. A loop is a \<open>while_option\<close>, so that
  it ends is part of each theorem. The working list is a list, the visited set or table is the set it holds. What the
  two directions share is proved in the locale \<open>adjacency\<close>.
\<close>

section \<open>Iterators\<close>

record GraphIter =
  it_wl :: "nat list"
  it_visited :: "nat set"

definition iter_init :: GraphIter where "iter_init = \<lparr>it_wl = [], it_visited = {}\<rparr>"

definition iter_push :: "nat \<Rightarrow> GraphIter \<Rightarrow> GraphIter" where
  "iter_push x it = it\<lparr>it_wl := it_wl it @ [x], it_visited := insert x (it_visited it)\<rparr>"

definition iter_remove_head :: "GraphIter \<Rightarrow> nat option \<times> GraphIter" where
  "iter_remove_head it = (case it_wl it of [] \<Rightarrow> (None, it) | x # xs \<Rightarrow> (Some x, it\<lparr>it_wl := xs\<rparr>))"

definition push_first :: "(nat \<Rightarrow> bool) \<Rightarrow> nat list \<Rightarrow> GraphIter \<Rightarrow> GraphIter" where
  "push_first isParticipateIn = fold (\<lambda>x it. if \<not> isParticipateIn x then it else iter_push x it)"

definition push_next :: "(nat \<Rightarrow> bool) \<Rightarrow> nat list \<Rightarrow> GraphIter \<Rightarrow> GraphIter" where
  "push_next isParticipateIn =
     fold (\<lambda>x it. if \<not> isParticipateIn x then it else if x \<in> it_visited it then it else iter_push x it)"

definition iterin_get_first :: "Graph \<Rightarrow> nat \<Rightarrow> nat option \<Rightarrow> (nat \<Rightarrow> bool) \<Rightarrow> GraphIter \<Rightarrow> nat option \<times> GraphIter" where
  "iterin_get_first g start stop cf it =
     (if Some start = stop then (None, it) else iter_remove_head (push_first cf (getInList g start) it))"

definition iterin_get_next :: "Graph \<Rightarrow> nat option \<Rightarrow> (nat \<Rightarrow> bool) \<Rightarrow> nat \<Rightarrow> GraphIter \<Rightarrow> nat option \<times> GraphIter" where
  "iterin_get_next g stop cf t it =
     iter_remove_head (if Some t \<noteq> stop then push_next cf (getInList g t) it else it)"

definition iterout_get_first :: "Graph \<Rightarrow> nat \<Rightarrow> (nat \<Rightarrow> bool) \<Rightarrow> GraphIter \<Rightarrow> nat option \<times> GraphIter" where
  "iterout_get_first g start cf it = iter_remove_head (push_first cf (getOutList g start) it)"

definition iterout_get_next :: "Graph \<Rightarrow> (nat \<Rightarrow> bool) \<Rightarrow> nat \<Rightarrow> GraphIter \<Rightarrow> nat option \<times> GraphIter" where
  "iterout_get_next g cf t it = iter_remove_head (push_next cf (getOutList g t) it)"

text \<open>The loop of the users: the vertices in the order they are given out.\<close>

definition iter_loop :: "(nat \<Rightarrow> GraphIter \<Rightarrow> nat option \<times> GraphIter) \<Rightarrow> nat option \<times> GraphIter \<Rightarrow> nat list option" where
  "iter_loop get_next s =
     map_option snd
       (while_option (\<lambda>((t, it), out). t \<noteq> None) (\<lambda>((t, it), out). (get_next (the t) it, out @ [the t])) (s, []))"

definition iterate_in :: "Graph \<Rightarrow> nat \<Rightarrow> nat option \<Rightarrow> (nat \<Rightarrow> bool) \<Rightarrow> nat list option" where
  "iterate_in g start stop cf = iter_loop (iterin_get_next g stop cf) (iterin_get_first g start stop cf iter_init)"

definition iterate_out :: "Graph \<Rightarrow> nat \<Rightarrow> (nat \<Rightarrow> bool) \<Rightarrow> nat list option" where
  "iterate_out g start cf = iter_loop (iterout_get_next g cf) (iterout_get_first g start cf iter_init)"

section \<open>Breadth first\<close>

lemma push_next_filter:
  "push_next cf vs it =
   it\<lparr>it_wl := it_wl it @ remdups (filter (\<lambda>x. cf x \<and> x \<notin> it_visited it) vs), it_visited := it_visited it \<union> set (filter cf vs)\<rparr>"
  if "distinct vs"
  using that
proof (induction vs arbitrary: it)
  case (Cons x vs)
  have f: "filter (\<lambda>y. cf y \<and> y \<noteq> x \<and> y \<notin> V) vs = filter (\<lambda>y. cf y \<and> y \<notin> V) vs" for V
    by (rule filter_cong) (use Cons.prems in auto)
  from Cons show ?case by (auto simp: push_next_def iter_push_def f distinct_remdups_id insert_absorb)
qed (simp add: push_next_def)

lemma push_first_filter:
  "push_first cf vs it = it\<lparr>it_wl := it_wl it @ filter cf vs, it_visited := it_visited it \<union> set (filter cf vs)\<rparr>"
  by (induction vs arbitrary: it) (auto simp: push_first_def iter_push_def)

text \<open>
  A walk from the vertices \<open>F\<close> along \<open>R\<close>: what has been given out and the list are the visited vertices, and all
  successors of what has been given out are among them. In \<open>iter_inv\<close> the current vertex is the head of the list.
\<close>

definition frontier :: "(nat \<times> nat) set \<Rightarrow> nat set \<Rightarrow> nat list \<Rightarrow> nat list \<Rightarrow> nat set \<Rightarrow> bool" where
  "frontier R F out wl vis \<longleftrightarrow>
     distinct (out @ wl) \<and> set (out @ wl) = vis \<and> vis \<subseteq> R\<^sup>* `` F \<and> F \<subseteq> vis \<and> (\<forall>a\<in>set out. \<forall>b. (a, b) \<in> R \<longrightarrow> b \<in> vis)"

definition iter_inv :: "(nat \<times> nat) set \<Rightarrow> nat set \<Rightarrow> nat option \<Rightarrow> GraphIter \<Rightarrow> nat list \<Rightarrow> bool" where
  "iter_inv R F t it out \<longleftrightarrow>
     (case t of None \<Rightarrow> it_wl it = [] \<and> frontier R F out [] (it_visited it) | Some x \<Rightarrow> frontier R F out (x # it_wl it) (it_visited it))"

lemma frontier_end: "frontier R F out [] vis \<Longrightarrow> distinct out \<and> set out = R\<^sup>* `` F"
proof
  assume i: "frontier R F out [] vis"
  then show "distinct out" by (simp add: frontier_def)
  have o: "set out = vis" using i by (simp add: frontier_def)
  have "b \<in> set out" if "(a, b) \<in> R\<^sup>*" "a \<in> F" for a b
    using that by (induction rule: rtrancl_induct) (use i o in \<open>auto simp: frontier_def\<close>)
  then show "set out = R\<^sup>* `` F" using i o by (auto simp: frontier_def)
qed

lemma iter_inv_end: "iter_inv R F None it out \<Longrightarrow> distinct out \<and> set out = R\<^sup>* `` F"
  by (rule frontier_end [of _ _ _ "it_visited it"]) (simp add: iter_inv_def)

lemma iter_inv_head:
  "frontier R F out (it_wl it) (it_visited it) \<Longrightarrow> iter_remove_head it = (t, it') \<Longrightarrow> iter_inv R F t it' out"
  by (cases "it_wl it") (auto simp: iter_inv_def iter_remove_head_def)

locale adjacency =
  fixes adj :: "Graph \<Rightarrow> nat \<Rightarrow> nat list"
    and rel :: "Graph \<Rightarrow> (nat \<times> nat) set"
  assumes adj_set: "graph_wf g \<Longrightarrow> set (adj g v) = {w. (v, w) \<in> rel g}"
    and adj_distinct: "graph_wf g \<Longrightarrow> distinct (adj g v)"
    and rel_verts: "graph_wf g \<Longrightarrow> rel g \<subseteq> verts g \<times> verts g"
begin

text \<open>The edges a walk follows: to the vertices that take part, not from the vertex it stops at.\<close>

definition walk :: "Graph \<Rightarrow> nat option \<Rightarrow> (nat \<Rightarrow> bool) \<Rightarrow> (nat \<times> nat) set" where
  "walk g stop cf = {(a, b). (a, b) \<in> rel g \<and> cf b \<and> Some a \<noteq> stop}"

lemma frontier_step:
  assumes "graph_wf g" "frontier (walk g stop cf) F out (t # it_wl it) (it_visited it)"
  shows "frontier (walk g stop cf) F (out @ [t]) (it_wl (if Some t \<noteq> stop then push_next cf (adj g t) it else it))
    (it_visited (if Some t \<noteq> stop then push_next cf (adj g t) it else it))"
proof (cases "Some t = stop")
  case True
  then show ?thesis using assms(2) by (auto simp: frontier_def walk_def)
next
  case False
  let ?new = "filter (\<lambda>x. cf x \<and> x \<notin> it_visited it) (adj g t)"
  let ?vis = "it_visited it \<union> set (filter cf (adj g t))"
  note i = assms(2) [unfolded frontier_def]
  have d: "distinct ?new" using adj_distinct [OF assms(1)] by simp
  have p: "push_next cf (adj g t) it = it\<lparr>it_wl := it_wl it @ ?new, it_visited := ?vis\<rparr>"
    using push_next_filter [OF adj_distinct [OF assms(1)], of cf t it] d by (simp add: distinct_remdups_id)
  have w: "set (filter cf (adj g t)) = {b. (t, b) \<in> walk g stop cf}" using adj_set [OF assms(1)] False by (auto simp: walk_def)
  have t: "t \<in> (walk g stop cf)\<^sup>* `` F" using i by auto
  have "distinct ((out @ [t]) @ it_wl it @ ?new)" "set ((out @ [t]) @ it_wl it @ ?new) = ?vis" using i d by auto
  moreover have "?vis \<subseteq> (walk g stop cf)\<^sup>* `` F" using i w t by (auto intro: rtrancl_into_rtrancl)
  moreover have "F \<subseteq> ?vis" "\<forall>a\<in>set (out @ [t]). \<forall>b. (a, b) \<in> walk g stop cf \<longrightarrow> b \<in> ?vis" using i w by auto
  ultimately show ?thesis using False p by (simp add: frontier_def)
qed

lemma walk_step:
  assumes "graph_wf g" "iter_inv (walk g stop cf) F (Some t) it out"
    "iter_remove_head (if Some t \<noteq> stop then push_next cf (adj g t) it else it) = (t', it')"
  shows "iter_inv (walk g stop cf) F t' it' (out @ [t])"
  using assms(2) by (intro iter_inv_head [OF frontier_step [OF assms(1)] assms(3)]) (simp add: iter_inv_def)

lemma walk_bound:
  assumes "graph_wf g" "F \<subseteq> verts g" "frontier (walk g stop cf) F out wl vis"
  shows "length out + length wl \<le> card (verts g)" "vis \<subseteq> verts g" "length out + length wl \<le> card ((walk g stop cf)\<^sup>* `` F)"
proof -
  have "b \<in> verts g" if "(a, b) \<in> (walk g stop cf)\<^sup>*" "a \<in> F" for a b
    using that by (induction rule: rtrancl_induct) (use assms(2) rel_verts [OF assms(1)] in \<open>auto simp: walk_def\<close>)
  then have sub: "(walk g stop cf)\<^sup>* `` F \<subseteq> verts g" by auto
  note f = finite_subset [OF sub graph_wf_finite [OF assms(1)]] sub
  then show v: "vis \<subseteq> verts g" using assms(3) unfolding frontier_def by (meson order_trans)
  have d: "distinct (out @ wl)" "set (out @ wl) = vis" "vis \<subseteq> (walk g stop cf)\<^sup>* `` F" using assms(3) by (simp_all add: frontier_def)
  then have "length (out @ wl) \<le> card ((walk g stop cf)\<^sup>* `` F)" using f(1) by (metis distinct_card card_mono)
  then show "length out + length wl \<le> card ((walk g stop cf)\<^sup>* `` F)" by simp
  then show "length out + length wl \<le> card (verts g)" using card_mono [OF graph_wf_finite [OF assms(1)] f(2)] by simp
qed

lemma walk_correct:
  assumes "graph_wf g" "next = (\<lambda>t it. iter_remove_head (if Some t \<noteq> stop then push_next cf (adj g t) it else it))"
    "iter_inv (walk g stop cf) F t it []" "F \<subseteq> verts g"
  shows "\<exists>out. iter_loop next (t, it) = Some out \<and> distinct out \<and> set out = (walk g stop cf)\<^sup>* `` F"
proof -
  let ?R = "walk g stop cf"
  let ?b = "\<lambda>((t, it), out). t \<noteq> None" and ?c = "\<lambda>((t, it), out). (next (the t) it, out @ [the t])"
  let ?P = "\<lambda>((t, it), out). iter_inv ?R F t it out"
  have st: "?P (?c s) \<and> card (verts g) - length (snd (?c s)) < card (verts g) - length (snd s)" if sb: "?P s \<and> ?b s" for s
  proof -
    obtain t it out where s: "s = ((Some t, it), out)" using sb by (cases s) auto
    obtain t' it' where n: "next t it = (t', it')" by force
    have i: "iter_inv ?R F (Some t) it out" using sb s by simp
    have "iter_inv ?R F t' it' (out @ [t])"
      by (rule walk_step [OF assms(1) i]) (use n assms(2) in simp)
    moreover have "length out + length (t # it_wl it) \<le> card (verts g)"
      by (rule walk_bound [OF assms(1,4)]) (use i in \<open>simp add: iter_inv_def\<close>)
    ultimately have "iter_inv ?R F t' it' (out @ [t]) \<and> length (out @ [t]) \<le> card (verts g)" by simp
    then show ?thesis using s n by (simp add: diff_less_mono2)
  qed
  obtain s where s: "while_option ?b ?c ((t, it), []) = Some s"
    using measure_while_option_Some [of ?P ?b ?c "\<lambda>s. card (verts g) - length (snd s)" "((t, it), [])"] st assms(3) by auto
  have p: "?P s" using while_option_rule [of ?P ?b ?c, OF _ s] st assms(3) by auto
  obtain t' it' out where x: "s = ((t', it'), out)" by (cases s) auto
  have "t' = None" using while_option_stop [OF s] x by simp
  then show ?thesis using iter_inv_end [of ?R F it' out] p x s by (simp add: iter_loop_def)
qed

lemma walk_first:
  assumes "graph_wf g" "Some start \<noteq> stop" "iter_remove_head (push_first cf (adj g start) iter_init) = (t, it)"
  shows "iter_inv (walk g stop cf) {b. (start, b) \<in> walk g stop cf} t it []"
proof (rule iter_inv_head [OF _ assms(3)])
  show "frontier (walk g stop cf) {b. (start, b) \<in> walk g stop cf} [] (it_wl (push_first cf (adj g start) iter_init))
      (it_visited (push_first cf (adj g start) iter_init))"
    using adj_distinct [OF assms(1)] adj_set [OF assms(1)] assms(2) by (auto simp: push_first_filter iter_init_def walk_def frontier_def)
qed

end

interpretation outs: adjacency getOutList edges
  by unfold_locales (simp_all add: graph_simps, auto dest: graph_wf_edge)

interpretation ins: adjacency getInList "\<lambda>g. (edges g)\<inverse>"
  by unfold_locales (simp_all add: graph_simps, auto dest: graph_wf_edge)

text \<open>The vertices behind \<open>start\<close>: over one edge or more, through vertices that take part, from the stop vertex no further.\<close>

definition behind :: "(nat \<times> nat) set \<Rightarrow> nat option \<Rightarrow> (nat \<Rightarrow> bool) \<Rightarrow> nat \<Rightarrow> nat set" where
  "behind E stop cf start = {b. (start, b) \<in> {(a, b). (a, b) \<in> E \<and> cf b \<and> Some a \<noteq> stop}\<^sup>+}"

lemma rtrancl_first: "R\<^sup>* `` {b. (start, b) \<in> R} = {b. (start, b) \<in> R\<^sup>+}"
  by (auto intro: rtrancl_into_trancl2 dest: tranclD)

lemma iterate_in_correct:
  assumes "graph_wf g"
  shows "\<exists>out. iterate_in g start stop cf = Some out \<and> distinct out \<and> set out = behind ((edges g)\<inverse>) stop cf start"
proof (cases "Some start = stop")
  case True
  have "(start, b) \<notin> {(a, b). (a, b) \<in> (edges g)\<inverse> \<and> cf b \<and> Some a \<noteq> stop}\<^sup>+" for b
    using True by (auto dest: tranclD)
  then show ?thesis using True
    by (simp add: iterate_in_def iterin_get_first_def iter_loop_def while_option_unfold iter_init_def behind_def del: converse_iff)
next
  case False
  obtain t it where f: "iter_remove_head (push_first cf (getInList g start) iter_init) = (t, it)" by force
  have "{b. (start, b) \<in> ins.walk g stop cf} \<subseteq> verts g" using graph_wf_edge [OF assms] by (auto simp: ins.walk_def)
  from ins.walk_correct [OF assms _ ins.walk_first [OF assms False f] this, of "iterin_get_next g stop cf"]
  show ?thesis using f False unfolding rtrancl_first
    by (auto simp: iterate_in_def iterin_get_first_def iterin_get_next_def [abs_def] ins.walk_def behind_def)
qed

lemma iterate_out_correct:
  assumes "graph_wf g"
  shows "\<exists>out. iterate_out g start cf = Some out \<and> distinct out \<and> set out = behind (edges g) None cf start"
proof -
  obtain t it where f: "iter_remove_head (push_first cf (getOutList g start) iter_init) = (t, it)" by force
  have "{b. (start, b) \<in> outs.walk g None cf} \<subseteq> verts g" using graph_wf_edge [OF assms] by (auto simp: outs.walk_def)
  from outs.walk_correct [OF assms _ outs.walk_first [OF assms _ f] this, of "iterout_get_next g cf"]
  show ?thesis using f unfolding rtrancl_first
    by (auto simp: iterate_out_def iterout_get_first_def iterout_get_next_def [abs_def] outs.walk_def behind_def)
qed

section \<open>Searches\<close>

text \<open>
  \<open>isReachExit\<close>; the second result is whether \<open>try_failed\<close> is set.
\<close>

definition isReachExit :: "Graph \<Rightarrow> nat \<Rightarrow> nat \<Rightarrow> (bool \<times> bool) option" where
  "isReachExit g vex try_limit =
     (if is_graph_exit g vex then Some (True, False)
      else map_option (\<lambda>((t, it), cnt). case t of None \<Rightarrow> (False, False) | Some t \<Rightarrow> if is_graph_exit g t then (True, False) else (False, True))
        (while_option (\<lambda>((t, it), cnt). t \<noteq> None \<and> \<not> is_graph_exit g (the t) \<and> \<not> cnt + 1 \<ge> try_limit)
          (\<lambda>((t, it), cnt). (iterout_get_next g (\<lambda>x. True) (the t) it, cnt + 1)) (iterout_get_first g vex (\<lambda>x. True) iter_init, 0)))"

text \<open>\<open>isReachIn\<close>: the scan of the in-vertices returns (\<open>Inl\<close>) or goes on with the list and the visited set.\<close>

fun reachin_scan :: "nat set option \<Rightarrow> nat \<Rightarrow> bool \<Rightarrow> nat list \<Rightarrow> GraphIter \<Rightarrow> (bool \<times> bool) + GraphIter" where
  "reachin_scan term_tab reachin over [] it = Inr it"
| "reachin_scan term_tab reachin over (x # xs) it =
     (if (case term_tab of None \<Rightarrow> False | Some T \<Rightarrow> x \<in> T) then reachin_scan term_tab reachin over xs it
      else if x = reachin then Inl (True, False)
      else if over then Inl (False, True)
      else reachin_scan term_tab reachin over xs (if x \<notin> it_visited it then iter_push x it else it))"

definition isReachIn_step ::
  "Graph \<Rightarrow> nat \<Rightarrow> nat \<Rightarrow> nat set option \<Rightarrow> (bool \<times> bool) + GraphIter \<times> nat \<Rightarrow> (bool \<times> bool) + GraphIter \<times> nat" where
  "isReachIn_step g reachin try_limit term_tab s =
     (case s of
        Inl r \<Rightarrow> s
      | Inr (it, cnt) \<Rightarrow>
          let v = hd (it_wl it); it = it\<lparr>it_wl := List.tl (it_wl it)\<rparr>
          in if v = reachin then Inl (True, False)
             else case reachin_scan term_tab reachin (cnt + 1 \<ge> try_limit) (getInList g v) it of
                    Inl r \<Rightarrow> Inl r
                  | Inr it \<Rightarrow> Inr (it, cnt + 1))"

definition isReachIn :: "Graph \<Rightarrow> nat \<Rightarrow> nat \<Rightarrow> nat \<Rightarrow> nat set option \<Rightarrow> (bool \<times> bool) option" where
  "isReachIn g vex reachin try_limit term_tab =
     (let it = push_first (\<lambda>x. case term_tab of None \<Rightarrow> True | Some T \<Rightarrow> x \<notin> T) (getInList g vex) iter_init
      in map_option (\<lambda>s. case s of Inl r \<Rightarrow> r | Inr _ \<Rightarrow> (False, False))
           (while_option (\<lambda>s. case s of Inl r \<Rightarrow> False | Inr (it, cnt) \<Rightarrow> it_wl it \<noteq> []) (isReachIn_step g reachin try_limit term_tab)
             (Inr (it, 0))))"

text \<open>\<open>is_livein_from\<close>: a vertex is visited when it leaves the list, so it may be in the list twice.\<close>

definition is_livein_from :: "Graph \<Rightarrow> nat \<Rightarrow> nat \<Rightarrow> nat \<Rightarrow> bool option" where
  "is_livein_from g v pred start =
     map_option (\<lambda>(wl, visit). wl \<noteq> [])
       (while_option (\<lambda>(wl, visit). wl \<noteq> [] \<and> hd wl \<noteq> start)
         (\<lambda>(wl, visit). let t = hd wl; visit = insert t visit
                         in (List.tl wl @ filter (\<lambda>x. x \<notin> visit) (getInList g t), visit)) ([pred], {v}))"

lemma isReachExit_correct:
  assumes "graph_wf g"
  shows "\<exists>r f. isReachExit g vex lim = Some (r, f) \<and>
    (r \<longrightarrow> (\<exists>x. (vex, x) \<in> (edges g)\<^sup>* \<and> is_graph_exit g x)) \<and>
    (\<not> r \<and> \<not> f \<longrightarrow> \<not> (\<exists>x. (vex, x) \<in> (edges g)\<^sup>* \<and> is_graph_exit g x)) \<and>
    (f \<longrightarrow> \<not> r \<and> lim \<le> card (verts g))"
proof (cases "is_graph_exit g vex")
  case True
  then show ?thesis by (auto simp: isReachExit_def)
next
  case False
  let ?R = "outs.walk g None (\<lambda>x. True)"
  let ?F = "{b. (vex, b) \<in> ?R}"
  have R: "?R = edges g" by (auto simp: outs.walk_def)
  have F: "?F \<subseteq> verts g" using graph_wf_edge [OF assms] by (auto simp: outs.walk_def)
  let ?b = "\<lambda>((t, it :: GraphIter), cnt). t \<noteq> None \<and> \<not> is_graph_exit g (the t) \<and> \<not> cnt + 1 \<ge> lim"
  let ?c = "\<lambda>((t, it), cnt). (iterout_get_next g (\<lambda>x. True) (the t) it, cnt + 1)"
  let ?s = "(iterout_get_first g vex (\<lambda>x. True) iter_init, 0 :: nat)"
  let ?P = "\<lambda>((t, it), cnt). \<exists>out. iter_inv ?R ?F t it out \<and> length out = cnt \<and> (\<forall>x\<in>set out. \<not> is_graph_exit g x)"
  have st: "?P (?c s) \<and> card (verts g) - snd (?c s) < card (verts g) - snd s" if sb: "?P s \<and> ?b s" for s
  proof -
    obtain t it cnt where s: "s = ((Some t, it), cnt)" using sb by (cases s) auto
    obtain out where i: "iter_inv ?R ?F (Some t) it out" "length out = cnt" "\<forall>x\<in>set out. \<not> is_graph_exit g x" using sb s by auto
    obtain t' it' where n: "iterout_get_next g (\<lambda>x. True) t it = (t', it')" by force
    have "iter_inv ?R ?F t' it' (out @ [t])"
      by (rule outs.walk_step [OF assms i(1)]) (use n in \<open>simp add: iterout_get_next_def\<close>)
    moreover have "length out + length (t # it_wl it) \<le> card (verts g)"
      by (rule outs.walk_bound [OF assms F]) (use i(1) in \<open>simp add: iter_inv_def\<close>)
    ultimately have "iter_inv ?R ?F t' it' (out @ [t]) \<and> length (out @ [t]) \<le> card (verts g)" by simp
    then show ?thesis using s n i(2,3) sb by (auto simp: diff_less_mono2 intro!: exI [of _ "out @ [t]"])
  qed
  have init: "?P ?s"
  proof -
    obtain t it where f: "iter_remove_head (push_first (\<lambda>x. True) (getOutList g vex) iter_init) = (t, it)" by force
    then show ?thesis using outs.walk_first [OF assms _ f, of None] by (auto simp: iterout_get_first_def)
  qed
  obtain s where s: "while_option ?b ?c ?s = Some s"
    using measure_while_option_Some [of ?P ?b ?c "\<lambda>s. card (verts g) - snd s" ?s] st init by auto
  have p: "?P s" using while_option_rule [of ?P ?b ?c, OF _ s] st init by auto
  obtain t it cnt where x: "s = ((t, it), cnt)" by (cases s) auto
  obtain out where i: "iter_inv ?R ?F t it out" "length out = cnt" "\<forall>x\<in>set out. \<not> is_graph_exit g x" using p x by auto
  have r: "isReachExit g vex lim = Some (case t of None \<Rightarrow> (False, False) | Some t \<Rightarrow> if is_graph_exit g t then (True, False) else (False, True))"
    using s x False by (simp add: isReachExit_def)
  have rF: "?R\<^sup>* `` ?F = {x. (vex, x) \<in> (edges g)\<^sup>+}" unfolding rtrancl_first R by simp
  show ?thesis
  proof (cases t)
    case None
    have "set out = ?R\<^sup>* `` ?F" by (rule conjunct2 [OF iter_inv_end]) (use i(1) None in simp)
    then have o: "set out = {x. (vex, x) \<in> (edges g)\<^sup>+}" unfolding rF by simp
    have "\<not> is_graph_exit g x" if "(vex, x) \<in> (edges g)\<^sup>*" for x
      using rtranclD [OF that] o i(3) False by auto
    then show ?thesis using r None by auto
  next
    case (Some y)
    have "y \<in> ?R\<^sup>* `` ?F" using i(1) Some unfolding iter_inv_def frontier_def by auto
    then have y: "(vex, y) \<in> (edges g)\<^sup>*" unfolding rF by auto
    have "length out + length (y # it_wl it) \<le> card (verts g)"
      by (rule outs.walk_bound [OF assms F]) (use i(1) Some in \<open>simp add: iter_inv_def\<close>)
    then have "lim \<le> card (verts g)" if "\<not> is_graph_exit g y" using while_option_stop [OF s] x Some i(2) that by simp
    then show ?thesis using r Some y by (cases "is_graph_exit g y") auto
  qed
qed

definition takes_part :: "nat set option \<Rightarrow> nat \<Rightarrow> bool" where
  "takes_part term_tab x = (case term_tab of None \<Rightarrow> True | Some T \<Rightarrow> x \<notin> T)"

lemma reachin_scan_Inr:
  "reachin_scan term_tab reachin over xs it = Inr it' \<Longrightarrow>
   it' = push_next (takes_part term_tab) xs it \<and> \<not> (reachin \<in> set xs \<and> takes_part term_tab reachin)"
  by (induction xs arbitrary: it) (auto simp: push_next_def takes_part_def split: option.splits if_splits)

lemma reachin_scan_Inl:
  "reachin_scan term_tab reachin over xs it = Inl (r, f) \<Longrightarrow>
   f = (\<not> r) \<and> (r \<longrightarrow> reachin \<in> set xs \<and> takes_part term_tab reachin) \<and> (f \<longrightarrow> over)"
  by (induction xs arbitrary: it) (auto simp: takes_part_def split: option.splits if_splits)

definition reachin_inv :: "Graph \<Rightarrow> nat \<Rightarrow> nat set option \<Rightarrow> nat \<Rightarrow> nat \<Rightarrow> (bool \<times> bool) + GraphIter \<times> nat \<Rightarrow> bool" where
  "reachin_inv g vex term_tab reachin lim s \<longleftrightarrow>
     (let R = ins.walk g None (takes_part term_tab); F = {b. (vex, b) \<in> R}
      in case s of
           Inl (r, f) \<Rightarrow> f = (\<not> r) \<and> (r \<longrightarrow> reachin \<in> R\<^sup>* `` F) \<and> (f \<longrightarrow> lim \<le> card (R\<^sup>* `` F))
         | Inr (it, cnt) \<Rightarrow> \<exists>out. frontier R F out (it_wl it) (it_visited it) \<and> length out = cnt \<and> reachin \<notin> set out)"

lemma isReachIn_step:
  assumes "graph_wf g" "reachin_inv g vex tt reachin lim (Inr (it, cnt))" "it_wl it \<noteq> []"
  defines "s \<equiv> isReachIn_step g reachin lim tt (Inr (it, cnt))"
  shows "reachin_inv g vex tt reachin lim s" "cnt < card (verts g)" "\<And>it' c. s = Inr (it', c) \<Longrightarrow> c = cnt + 1"
proof -
  let ?R = "ins.walk g None (takes_part tt)"
  let ?F = "{b. (vex, b) \<in> ?R}"
  have F: "?F \<subseteq> verts g" using graph_wf_edge [OF assms(1)] by (auto simp: ins.walk_def)
  obtain v wl where w: "it_wl it = v # wl" using assms(3) by (cases "it_wl it") auto
  obtain out where o: "frontier ?R ?F out (v # wl) (it_visited it)" "length out = cnt" "reachin \<notin> set out"
    using assms(2) w by (auto simp: reachin_inv_def Let_def)
  have v: "v \<in> ?R\<^sup>* `` ?F" using o(1) unfolding frontier_def by auto
  let ?it = "it\<lparr>it_wl := wl\<rparr>"
  have b: "length out + length (v # wl) \<le> card (?R\<^sup>* `` ?F)" by (rule ins.walk_bound(3) [OF assms(1) F o(1)])
  have "length out + length (v # wl) \<le> card (verts g)" by (rule ins.walk_bound(1) [OF assms(1) F o(1)])
  then show "cnt < card (verts g)" using o(2) by simp
  have s: "s = (if v = reachin then Inl (True, False) else
      case reachin_scan tt reachin (cnt + 1 \<ge> lim) (getInList g v) ?it of Inl r \<Rightarrow> Inl r | Inr it \<Rightarrow> Inr (it, cnt + 1))"
    using w by (simp add: s_def isReachIn_step_def Let_def)
  then show "\<And>it' c. s = Inr (it', c) \<Longrightarrow> c = cnt + 1" by (auto split: if_splits sum.splits)
  have "reachin_inv g vex tt reachin lim s" if n: "v \<noteq> reachin"
  proof (cases "reachin_scan tt reachin (cnt + 1 \<ge> lim) (getInList g v) ?it")
    case (Inl rf)
    obtain r f where rf: "rf = (r, f)" by force
    note i = reachin_scan_Inl [OF Inl [unfolded rf]]
    have "reachin \<in> ?R\<^sup>* `` ?F" if r
    proof -
      have "(v, reachin) \<in> ?R" using i that in_list_set [OF assms(1), of v] by (simp add: ins.walk_def)
      then show ?thesis using v by (auto intro: rtrancl_into_rtrancl)
    qed
    then show ?thesis using i s n Inl rf b o(2) by (auto simp: reachin_inv_def Let_def)
  next
    case (Inr it')
    note i = reachin_scan_Inr [OF Inr]
    have "frontier ?R ?F (out @ [v]) (it_wl it') (it_visited it')"
      using ins.frontier_step [OF assms(1), of None "takes_part tt" ?F out v ?it] o(1) i by simp
    then show ?thesis using i s n Inr o(2,3) by (auto simp: reachin_inv_def Let_def intro!: exI [of _ "out @ [v]"])
  qed
  then show "reachin_inv g vex tt reachin lim s" using s v by (cases "v = reachin") (auto simp: reachin_inv_def Let_def)
qed

lemma isReachIn_correct:
  assumes "graph_wf g"
  shows "\<exists>r f. isReachIn g vex reachin lim tt = Some (r, f) \<and>
    (r \<longrightarrow> reachin \<in> behind ((edges g)\<inverse>) None (takes_part tt) vex) \<and>
    (\<not> r \<and> \<not> f \<longrightarrow> reachin \<notin> behind ((edges g)\<inverse>) None (takes_part tt) vex) \<and>
    (f \<longrightarrow> \<not> r \<and> lim \<le> card (behind ((edges g)\<inverse>) None (takes_part tt) vex))"
proof -
  let ?R = "ins.walk g None (takes_part tt)"
  let ?F = "{b. (vex, b) \<in> ?R}"
  let ?it = "push_first (takes_part tt) (getInList g vex) iter_init"
  let ?b = "\<lambda>s. case s of Inl (r :: bool \<times> bool) \<Rightarrow> False | Inr (it, cnt :: nat) \<Rightarrow> it_wl it \<noteq> []"
  let ?c = "isReachIn_step g reachin lim tt"
  let ?P = "reachin_inv g vex tt reachin lim"
  let ?f = "\<lambda>s. case s of Inl (r :: bool \<times> bool) \<Rightarrow> 0 | Inr (it :: GraphIter, cnt) \<Rightarrow> Suc (card (verts g) - cnt)"
  have init: "?P (Inr (?it, 0))"
    using in_list_set [OF assms, of vex] in_list_distinct [OF assms, of vex]
    by (auto simp: reachin_inv_def Let_def push_first_filter iter_init_def frontier_def ins.walk_def)
  have st: "?P (?c s) \<and> ?f (?c s) < ?f s" if sb: "?P s \<and> ?b s" for s
  proof -
    obtain it cnt where s: "s = Inr (it, cnt)" "it_wl it \<noteq> []" using sb by (auto split: sum.splits)
    note i = isReachIn_step [OF assms, of vex tt reachin lim it cnt] 
    show ?thesis using i s sb by (cases "?c s") auto
  qed
  obtain s where s: "while_option ?b ?c (Inr (?it, 0)) = Some s"
    using measure_while_option_Some [of ?P ?b ?c ?f "Inr (?it, 0)"] st init by auto
  have p: "?P s" using while_option_rule [of ?P ?b ?c, OF _ s] st init by auto
  have tp: "(\<lambda>x. case tt of None \<Rightarrow> True | Some T \<Rightarrow> x \<notin> T) = takes_part tt" by (simp add: takes_part_def fun_eq_iff)
  have r: "isReachIn g vex reachin lim tt = Some (case s of Inl r \<Rightarrow> r | Inr _ \<Rightarrow> (False, False))"
    using s unfolding isReachIn_def tp by simp
  have "?R\<^sup>* `` ?F = behind ((edges g)\<inverse>) None (takes_part tt) vex"
    unfolding rtrancl_first by (simp add: behind_def ins.walk_def)
  note B = this
  show ?thesis
  proof (cases s)
    case (Inl rf)
    then show ?thesis using p r B by (cases rf) (auto simp: reachin_inv_def Let_def)
  next
    case (Inr ic)
    obtain it cnt where ic: "ic = (it, cnt)" by force
    have "it_wl it = []" using while_option_stop [OF s] Inr ic by simp
    then obtain out where o: "frontier ?R ?F out [] (it_visited it)" "reachin \<notin> set out"
      using p Inr ic by (auto simp: reachin_inv_def Let_def)
    then have "reachin \<notin> behind ((edges g)\<inverse>) None (takes_part tt) vex" using frontier_end [OF o(1)] B by simp
    then show ?thesis using r Inr by (intro exI [of _ False]) simp
  qed
qed

text \<open>The vertices from which \<open>pred\<close> is reached without passing through \<open>v\<close>.\<close>

definition above :: "Graph \<Rightarrow> nat \<Rightarrow> nat \<Rightarrow> nat set" where
  "above g v pred = {b. (pred, b) \<in> {(a, b). (b, a) \<in> edges g \<and> b \<noteq> v}\<^sup>*}"

definition livein_inv :: "Graph \<Rightarrow> nat \<Rightarrow> nat \<Rightarrow> nat \<Rightarrow> nat list \<times> nat set \<Rightarrow> bool" where
  "livein_inv g v pred start s \<longleftrightarrow>
     (\<exists>D. snd s = insert v D \<and> start \<notin> D \<and> pred \<in> D \<union> set (fst s) \<and> D \<union> set (fst s) \<subseteq> above g v pred \<and>
        (\<forall>t\<in>D. \<forall>u. (u, t) \<in> edges g \<longrightarrow> u \<noteq> v \<longrightarrow> u \<in> D \<union> set (fst s)))"

lemma above_step: "t \<in> above g v pred \<Longrightarrow> (u, t) \<in> edges g \<Longrightarrow> u \<noteq> v \<Longrightarrow> u \<in> above g v pred"
  by (auto simp: above_def intro: rtrancl_into_rtrancl)

lemma above_verts: "graph_wf g \<Longrightarrow> pred \<in> verts g \<Longrightarrow> above g v pred \<subseteq> verts g"
proof
  fix b assume a: "graph_wf g" "pred \<in> verts g" "b \<in> above g v pred"
  then have "(pred, b) \<in> {(a, b). (b, a) \<in> edges g \<and> b \<noteq> v}\<^sup>*" by (simp add: above_def)
  then show "b \<in> verts g" by (induction rule: rtrancl_induct) (use a graph_wf_edge [OF a(1)] in auto)
qed

lemma takeWhile_extend:
  "\<forall>x\<in>set ys. \<not> P x \<Longrightarrow> takeWhile P (xs @ ys) = takeWhile P xs"
proof (induction xs)
  case Nil
  then show ?case by (cases ys) auto
qed auto

lemma livein_step:
  assumes "graph_wf g" "livein_inv g v pred start (t # wl, vis)" "t \<noteq> start"
  shows "livein_inv g v pred start (wl @ filter (\<lambda>x. x \<notin> insert t vis) (getInList g t), insert t vis)"
proof -
  let ?new = "filter (\<lambda>x. x \<notin> insert t vis) (getInList g t)"
  obtain D where d: "vis = insert v D" "start \<notin> D" "pred \<in> D \<union> set (t # wl)" "D \<union> set (t # wl) \<subseteq> above g v pred"
      "\<And>s u. s \<in> D \<Longrightarrow> (u, s) \<in> edges g \<Longrightarrow> u \<noteq> v \<Longrightarrow> u \<in> D \<union> set (t # wl)"
    using assms(2) unfolding livein_inv_def fst_conv snd_conv by metis
  have n: "set ?new = {u. (u, t) \<in> edges g \<and> u \<noteq> t \<and> u \<notin> vis}" using in_list_set [OF assms(1), of t] by auto
  then have a: "set ?new \<subseteq> above g v pred" using d(1,4) by (auto intro: above_step)
  show ?thesis unfolding livein_inv_def fst_conv snd_conv
  proof (intro exI [of _ "insert t D"] conjI ballI allI impI)
    show "insert t vis = insert v (insert t D)" using d(1) by auto
    show "start \<notin> insert t D" using d(2) assms(3) by auto
    show "pred \<in> insert t D \<union> set (wl @ ?new)" using d(3) by auto
    show "insert t D \<union> set (wl @ ?new) \<subseteq> above g v pred" using d(4) a by auto
    fix s u assume s: "s \<in> insert t D" "(u, s) \<in> edges g" "u \<noteq> v"
    show "u \<in> insert t D \<union> set (wl @ ?new)"
    proof (cases "s \<in> D")
      case True
      then show ?thesis using d(5) [OF True s(2,3)] by auto
    next
      case False
      then have "s = t" using s(1) by simp
      then show ?thesis using s(2,3) n d(1) by auto
    qed
  qed
qed

lemma is_livein_from_correct:
  assumes "graph_wf g" "pred \<in> verts g"
  shows "is_livein_from g v pred start = Some (start \<in> above g v pred)"
proof -
  let ?b = "\<lambda>(wl, visit :: nat set). wl \<noteq> [] \<and> hd wl \<noteq> start"
  let ?c = "\<lambda>(wl, visit). let t = hd wl; visit = insert t visit in (List.tl wl @ filter (\<lambda>x. x \<notin> visit) (getInList g t), visit)"
  let ?P = "livein_inv g v pred start"
  let ?r = "inv_image (less_than <*lex*> less_than) (\<lambda>(wl, vis). (card (verts g - vis), length (takeWhile (\<lambda>x. x \<in> vis) wl)))"
  have init: "?P ([pred], {v})" by (auto simp: livein_inv_def above_def intro!: exI [of _ "{}"])
  have st: "?P (?c s) \<and> (?c s, s) \<in> ?r" if sb: "?P s" "?b s" for s
  proof -
    obtain t wl vis where s: "s = (t # wl, vis)" "t \<noteq> start" using sb(2) by (cases s; cases "fst s") auto
    let ?new = "filter (\<lambda>x. x \<notin> insert t vis) (getInList g t)"
    have c: "?c s = (wl @ ?new, insert t vis)" using s by (simp add: Let_def)
    have "(?c s, s) \<in> ?r"
    proof (cases "t \<in> vis")
      case True
      then have i: "insert t vis = vis" by (rule insert_absorb)
      have "takeWhile (\<lambda>x. x \<in> vis) (wl @ filter (\<lambda>x. x \<notin> vis) (getInList g t)) = takeWhile (\<lambda>x. x \<in> vis) wl"
        by (intro takeWhile_extend) auto
      then have "((wl @ ?new, insert t vis), (t # wl, vis)) \<in> ?r" using True unfolding i by simp
      then show ?thesis using c s(1) by simp
    next
      case False
      obtain D where "D \<union> set (t # wl) \<subseteq> above g v pred" using sb(1) unfolding livein_inv_def s(1) by auto
      then have "t \<in> verts g" using above_verts [OF assms] by auto
      then have "card (verts g - insert t vis) < card (verts g - vis)"
        using False graph_wf_finite [OF assms(1)] by (intro psubset_card_mono) auto
      then have "((wl @ ?new, insert t vis), (t # wl, vis)) \<in> ?r" by simp
      then show ?thesis using c s(1) by simp
    qed
    then show ?thesis using livein_step [OF assms(1) sb(1) [unfolded s(1)] s(2)] c by simp
  qed
  have wf: "wf {(t, s). (?P s \<and> ?b s) \<and> t = ?c s}"
    by (rule wf_subset [of ?r]) (use st in auto)
  obtain s where s: "while_option ?b ?c ([pred], {v}) = Some s"
    using wf_while_option_Some [of ?P ?b ?c "([pred], {v})", OF wf] st init by blast
  have p: "?P s" using while_option_rule [of ?P ?b ?c, OF _ s] st init by blast
  obtain wl vis where x: "s = (wl, vis)" by force
  obtain D where d: "start \<notin> D" "pred \<in> D \<union> set wl" "D \<union> set wl \<subseteq> above g v pred"
      "\<And>t u. t \<in> D \<Longrightarrow> (u, t) \<in> edges g \<Longrightarrow> u \<noteq> v \<Longrightarrow> u \<in> D \<union> set wl"
    using p unfolding x livein_inv_def fst_conv snd_conv by metis
  have r: "is_livein_from g v pred start = Some (wl \<noteq> [])" using s x by (simp add: is_livein_from_def)
  show ?thesis
  proof (cases wl)
    case Nil
    have "b \<in> D" if "(pred, b) \<in> {(a, b). (b, a) \<in> edges g \<and> b \<noteq> v}\<^sup>*" for b
      using that by (induction rule: rtrancl_induct) (use d(2,4) Nil in auto)
    then show ?thesis using r Nil d(1) by (auto simp: above_def)
  next
    case (Cons t ts)
    then have "t = start" using while_option_stop [OF s] x by simp
    then show ?thesis using r Cons d(3) by auto
  qed
qed

end
