(* ===== verification/GraphRPO.thy ===== *)
theory GraphRPO
  imports GraphSearch
begin

text \<open>
  Depth first: \<open>RPOMgr::computeRPO\<close> of \<^verbatim>\<open>src/com/rpo.cpp\<close>, the reverse post order in which the data-flow
  and dominator passes visit a graph, and the removal of unreachable vertices of class \<open>DGraph\<close> of
  \<^verbatim>\<open>src/com/sgraph.cpp\<close>. The stack has its top at the head; \<open>VERTEX_rpo\<close> is a map from vertex ids, the
  \<open>UINT\<close> order of the loop read as \<open>INT\<close>. An assertion that fails gives \<open>None\<close>.
\<close>

section \<open>Reverse post order\<close>

definition RPO_INTERVAL :: int where "RPO_INTERVAL = 10"
definition RPO_INIT_VAL :: int where "RPO_INIT_VAL = 0"

record RpoState =
  rs_stk :: "nat list"
  rs_visited :: "nat set"
  rs_order :: "32 word"
  rs_vlst :: "nat list"
  rs_rpo :: "nat \<Rightarrow> int"

definition rpo_step :: "Graph \<Rightarrow> RpoState \<Rightarrow> RpoState" where
  "rpo_step g s =
     (let v = hd (rs_stk s); visited = insert v (rs_visited s)
      in case List.find (\<lambda>x. x \<notin> visited) (getOutList g v) of
           Some x \<Rightarrow> s\<lparr>rs_visited := visited, rs_stk := x # rs_stk s\<rparr>
         | None \<Rightarrow>
             let order = rs_order s - word_of_int RPO_INTERVAL
             in \<lparr>rs_stk = List.tl (rs_stk s), rs_visited = visited, rs_order = order, rs_vlst = v # rs_vlst s,
                 rs_rpo = (rs_rpo s)(v := sint order)\<rparr>)"

definition computeRPO_run :: "Graph \<Rightarrow> nat \<Rightarrow> (nat \<Rightarrow> int) \<Rightarrow> RpoState option" where
  "computeRPO_run g root rpo =
     while_option (\<lambda>s. rs_stk s \<noteq> []) (rpo_step g)
       \<lparr>rs_stk = [root], rs_visited = {}, rs_order = word_of_int RPO_INIT_VAL + of_nat (getVertexNum g) * word_of_int RPO_INTERVAL, rs_vlst = [], rs_rpo = rpo\<rparr>"

definition computeRPO :: "Graph \<Rightarrow> nat \<Rightarrow> (nat \<Rightarrow> int) \<Rightarrow> (nat list \<times> (nat \<Rightarrow> int)) option" where
  "computeRPO g root rpo =
     (if is_graph_entry g root then
        Option.bind (computeRPO_run g root rpo)
          (\<lambda>s. if rs_order s = word_of_int RPO_INIT_VAL then Some (rs_vlst s, rs_rpo s) else None)
      else None)"

text \<open>
  The order being built is the reversed stack followed by the finished vertices. A vertex behind the root has a
  predecessor before it, an edge out of a finished vertex leads to a later one or into a cycle, and the finished
  vertices are numbered in the order of the list, in steps of the interval.
\<close>

definition rpo_so_far :: "RpoState \<Rightarrow> nat list" where
  "rpo_so_far s = List.rev (rs_stk s) @ rs_vlst s"

definition rpo_list_ok :: "Graph \<Rightarrow> nat \<Rightarrow> nat list \<Rightarrow> bool" where
  "rpo_list_ok g root l \<longleftrightarrow>
     distinct l \<and> l \<noteq> [] \<and> hd l = root \<and> set l \<subseteq> verts g \<and> (\<forall>x\<in>set l. (root, x) \<in> (edges g)\<^sup>*) \<and>
     (\<forall>as x bs. l = as @ x # bs \<longrightarrow> as \<noteq> [] \<longrightarrow> (\<exists>p\<in>set as. (p, x) \<in> edges g))"

definition rpo_inv :: "Graph \<Rightarrow> nat \<Rightarrow> (nat \<Rightarrow> int) \<Rightarrow> RpoState \<Rightarrow> bool" where
  "rpo_inv g root rpo s \<longleftrightarrow>
     rpo_list_ok g root (rpo_so_far s) \<and>
     rs_visited s \<union> (if rs_stk s = [] then {} else {hd (rs_stk s)}) = set (rpo_so_far s) \<and>
     (\<forall>as a b bs. rs_stk s = as @ a # b # bs \<longrightarrow> (b, a) \<in> edges g) \<and>
     (\<forall>as a bs. rs_vlst s = as @ a # bs \<longrightarrow> (\<forall>b. (a, b) \<in> edges g \<longrightarrow> b \<in> set bs \<or> b \<in> set (rpo_so_far s) \<and> (b, a) \<in> (edges g)\<^sup>*)) \<and>
     rs_order s = word_of_int (RPO_INIT_VAL + (int (card (verts g)) - int (length (rs_vlst s))) * RPO_INTERVAL) \<and>
     (\<forall>i<length (rs_vlst s). rs_rpo s (rs_vlst s ! i) = sint (rs_order s + word_of_int (int i * RPO_INTERVAL))) \<and>
     (\<forall>x. x \<notin> set (rs_vlst s) \<longrightarrow> rs_rpo s x = rpo x)"

lemma stack_path:
  "(\<And>as a b bs. stk = as @ a # b # bs \<Longrightarrow> (b, a) \<in> E) \<Longrightarrow> stk = t # rs \<Longrightarrow> x \<in> set stk \<Longrightarrow> (x, t) \<in> E\<^sup>*"
proof (induction rs arbitrary: stk t)
  case (Cons u us)
  have e: "(u, t) \<in> E" using Cons.prems(1) [of "[]" t u us] Cons.prems(2) by simp
  show ?case
  proof (cases "x = t")
    case False
    have "(x, u) \<in> E\<^sup>*"
    proof (rule Cons.IH [of "u # us"])
      fix as a b bs assume "u # us = as @ a # b # bs"
      then show "(b, a) \<in> E" using Cons.prems(1) [of "t # as" a b bs] Cons.prems(2) by simp
    qed (use Cons.prems False in auto)
    then show ?thesis using e by simp
  qed simp
qed simp

lemma rpo_list_insert:
  assumes "rpo_list_ok g root (as @ bs)" "x \<notin> set (as @ bs)" "p \<in> set as" "(p, x) \<in> edges g" "x \<in> verts g"
  shows "rpo_list_ok g root (as @ x # bs)"
proof -
  note l = assms(1) [unfolded rpo_list_ok_def]
  have r: "(root, x) \<in> (edges g)\<^sup>*" using l assms(3,4) by (auto intro: rtrancl_into_rtrancl)
  have "\<exists>q\<in>set cs. (q, y) \<in> edges g" if c: "as @ x # bs = cs @ y # ds" "cs \<noteq> []" for cs y ds
  proof -
    consider (1) e where "as = cs @ y # e" | (2) "cs = as" "y = x" | (3) e where "cs = as @ x # e" "bs = e @ y # ds"
      using c(1) by (auto simp: append_eq_append_conv2 append_eq_Cons_conv Cons_eq_append_conv)
    then show ?thesis
    proof cases
      case 1
      then have "as @ bs = cs @ y # e @ bs" by simp
      then show ?thesis using l c(2) by blast
    next
      case 2
      then show ?thesis using assms(3,4) by blast
    next
      case 3
      have "as @ e \<noteq> []" using assms(3) by auto
      moreover have "as @ bs = (as @ e) @ y # ds" using 3 by simp
      ultimately have "\<exists>q\<in>set (as @ e). (q, y) \<in> edges g" using l by blast
      then show ?thesis using 3 by auto
    qed
  qed
  moreover have "hd (as @ x # bs) = root" using l assms(3) by (cases as) auto
  ultimately show ?thesis unfolding rpo_list_ok_def using l assms(2,5) r by (auto simp del: append_eq_append_conv)
qed

lemma rpo_step_push:
  assumes "graph_wf g" "rpo_inv g root rpo s" "rs_stk s = v # rest"
    "List.find (\<lambda>x. x \<notin> insert v (rs_visited s)) (getOutList g v) = Some x"
  shows "rpo_inv g root rpo (rpo_step g s)" "length (rpo_so_far (rpo_step g s)) = Suc (length (rpo_so_far s))"
    "length (rs_stk (rpo_step g s)) = Suc (length (rs_stk s))"
proof -
  note i = assms(2) [unfolded rpo_inv_def]
  have st: "rpo_step g s = s\<lparr>rs_visited := insert v (rs_visited s), rs_stk := x # v # rest\<rparr>"
    using assms(3,4) by (simp add: rpo_step_def Let_def)
  show "length (rs_stk (rpo_step g s)) = Suc (length (rs_stk s))" "length (rpo_so_far (rpo_step g s)) = Suc (length (rpo_so_far s))"
    using st assms(3) by (simp_all add: rpo_so_far_def)
  have vis: "insert v (rs_visited s) = set (rpo_so_far s)" using i assms(3) by auto
  have x: "x \<notin> set (rpo_so_far s)" "(v, x) \<in> edges g"
    using assms(4) vis out_list_set [OF assms(1), of v] by (auto simp: find_Some_iff)
  have so: "rpo_so_far s = List.rev (v # rest) @ rs_vlst s" "rpo_so_far (rpo_step g s) = List.rev (v # rest) @ x # rs_vlst s"
    using st assms(3) by (simp_all add: rpo_so_far_def)
  have xv: "x \<in> verts g" using graph_wf_edge [OF assms(1) x(2)] by simp
  have "rpo_list_ok g root (List.rev (v # rest) @ rs_vlst s)" "x \<notin> set (List.rev (v # rest) @ rs_vlst s)" using i x(1) so by simp_all
  then have l: "rpo_list_ok g root (rpo_so_far (rpo_step g s))"
    unfolding so(2) by (rule rpo_list_insert [where p = v]) (use x xv in simp_all)
  have vs: "insert v (rs_visited s) \<union> {x} = set (rpo_so_far (rpo_step g s))" using vis so by auto
  have p: "(b, a) \<in> edges g" if "x # v # rest = as @ a # b # bs" for as a b bs
  proof (cases as)
    case Nil
    then show ?thesis using that x(2) by simp
  next
    case (Cons c cs)
    then have "rs_stk s = cs @ a # b # bs" using that assms(3) by simp
    then show ?thesis using i by blast
  qed
  have sub: "set (rpo_so_far s) \<subseteq> set (rpo_so_far (rpo_step g s))" using so by auto
  have f: "rs_vlst (rpo_step g s) = rs_vlst s" "rs_order (rpo_step g s) = rs_order s" "rs_rpo (rpo_step g s) = rs_rpo s"
      "rs_visited (rpo_step g s) = insert v (rs_visited s)" "rs_stk (rpo_step g s) = x # v # rest" using st by simp_all
  show "rpo_inv g root rpo (rpo_step g s)"
    unfolding rpo_inv_def f
  proof (intro conjI allI impI l)
    show "insert v (rs_visited s) \<union> (if x # v # rest = [] then {} else {hd (x # v # rest)}) = set (rpo_so_far (rpo_step g s))" using vs by simp
    show "\<And>as a b bs. x # v # rest = as @ a # b # bs \<Longrightarrow> (b, a) \<in> edges g" by (rule p)
    fix as a bs b assume "rs_vlst s = as @ a # bs" "(a, b) \<in> edges g"
    then have "b \<in> set bs \<or> b \<in> set (rpo_so_far s) \<and> (b, a) \<in> (edges g)\<^sup>*" using i by blast
    then show "b \<in> set bs \<or> b \<in> set (rpo_so_far (rpo_step g s)) \<and> (b, a) \<in> (edges g)\<^sup>*" using sub by blast
  qed (use i in blast)+
qed

lemma rpo_step_pop:
  assumes "graph_wf g" "rpo_inv g root rpo s" "rs_stk s = v # rest"
    "List.find (\<lambda>x. x \<notin> insert v (rs_visited s)) (getOutList g v) = None"
  shows "rpo_inv g root rpo (rpo_step g s)" "rpo_so_far (rpo_step g s) = rpo_so_far s" "rs_stk (rpo_step g s) = rest"
proof -
  note i = assms(2) [unfolded rpo_inv_def]
  let ?o = "rs_order s - word_of_int RPO_INTERVAL"
  have st: "rpo_step g s = \<lparr>rs_stk = rest, rs_visited = insert v (rs_visited s), rs_order = ?o, rs_vlst = v # rs_vlst s,
      rs_rpo = (rs_rpo s)(v := sint ?o)\<rparr>" using assms(3,4) by (simp add: rpo_step_def Let_def)
  then show so: "rpo_so_far (rpo_step g s) = rpo_so_far s" "rs_stk (rpo_step g s) = rest"
    using assms(3) by (simp_all add: rpo_so_far_def)
  have f: "rs_vlst (rpo_step g s) = v # rs_vlst s" "rs_order (rpo_step g s) = ?o" "rs_rpo (rpo_step g s) = (rs_rpo s)(v := sint ?o)"
      "rs_visited (rpo_step g s) = insert v (rs_visited s)" using st by simp_all
  have vis: "insert v (rs_visited s) = set (rpo_so_far s)" using i assms(3) by auto
  have d: "v \<notin> set (rs_vlst s)" using i assms(3) by (auto simp: rpo_so_far_def rpo_list_ok_def)
  have path: "(b, v) \<in> (edges g)\<^sup>*" if "b \<in> set (v # rest)" for b
  proof (rule stack_path [OF _ refl that])
    fix as a c bs assume "v # rest = as @ a # c # bs"
    then have "rs_stk s = as @ a # c # bs" using assms(3) by simp
    then show "(c, a) \<in> edges g" using i by blast
  qed
  have out: "b \<in> set (rs_vlst s) \<or> b \<in> set (rpo_so_far s) \<and> (b, v) \<in> (edges g)\<^sup>*" if "(v, b) \<in> edges g" for b
  proof -
    have "b \<in> set (rpo_so_far s)" using assms(4) that vis out_list_set [OF assms(1), of v] by (auto simp: find_None_iff)
    then show ?thesis using path assms(3) by (auto simp: rpo_so_far_def)
  qed
  show "rpo_inv g root rpo (rpo_step g s)"
    unfolding rpo_inv_def so f
  proof (intro conjI allI impI)
    show "rpo_list_ok g root (rpo_so_far s)" using i by blast
    show "insert v (rs_visited s) \<union> (if rest = [] then {} else {hd rest}) = set (rpo_so_far s)"
      using vis assms(3) by (cases rest) (auto simp: rpo_so_far_def)
    fix as a b bs assume "rest = as @ a # b # bs"
    then have "rs_stk s = (v # as) @ a # b # bs" using assms(3) by simp
    then show "(b, a) \<in> edges g" using i by blast
  next
    fix as a bs b assume e: "v # rs_vlst s = as @ a # bs" "(a, b) \<in> edges g"
    show "b \<in> set bs \<or> b \<in> set (rpo_so_far s) \<and> (b, a) \<in> (edges g)\<^sup>*"
    proof (cases as)
      case Nil
      then show ?thesis using e out by simp
    next
      case (Cons c cs)
      then have "rs_vlst s = cs @ a # bs" using e by simp
      then show ?thesis using i e(2) by blast
    qed
  next
    have "rs_order s = word_of_int (RPO_INIT_VAL + (int (card (verts g)) - int (length (rs_vlst s))) * RPO_INTERVAL)"
      using i by (elim conjE)
    then show "?o = word_of_int (RPO_INIT_VAL + (int (card (verts g)) - int (length (v # rs_vlst s))) * RPO_INTERVAL)"
      by (simp add: wi_hom_sub algebra_simps)
    fix j assume j: "j < length (v # rs_vlst s)"
    show "((rs_rpo s)(v := sint ?o)) ((v # rs_vlst s) ! j) = sint (?o + word_of_int (int j * RPO_INTERVAL))"
    proof (cases j)
      case (Suc k)
      then have "rs_vlst s ! k \<noteq> v" "rs_rpo s (rs_vlst s ! k) = sint (rs_order s + word_of_int (int k * RPO_INTERVAL))"
        using d j i nth_mem by auto
      moreover have "?o + word_of_int (int (Suc k) * RPO_INTERVAL) = rs_order s + word_of_int (int k * RPO_INTERVAL)"
        by (simp add: algebra_simps)
      ultimately show ?thesis unfolding Suc nth_Cons_Suc by (metis fun_upd_other)
    qed simp
  next
    fix x assume "x \<notin> set (v # rs_vlst s)"
    then show "((rs_rpo s)(v := sint ?o)) x = rpo x" using i by simp
  qed
qed

text \<open>Numbers that fit an \<open>INT\<close> are read back as they are.\<close>

definition rpo_fits :: "Graph \<Rightarrow> bool" where
  "rpo_fits g \<longleftrightarrow> int (card (verts g)) * RPO_INTERVAL < 2 ^ 31"

lemma rpo_number: "rpo_fits g \<Longrightarrow> k \<le> int (card (verts g)) \<Longrightarrow> 0 \<le> k \<Longrightarrow>
    sint (word_of_int (k * RPO_INTERVAL) :: 32 word) = k * RPO_INTERVAL"
proof -
  assume "rpo_fits g" "k \<le> int (card (verts g))" "0 \<le> k"
  then have "0 \<le> k * RPO_INTERVAL" "k * RPO_INTERVAL < 2 ^ 31" by (simp_all add: rpo_fits_def RPO_INTERVAL_def)
  then show ?thesis by (simp add: signed_of_int signed_take_bit_int_eq_self del: of_int_mult)
qed

lemma computeRPO_run_correct:
  assumes "graph_wf g" "root \<in> verts g"
  shows "\<exists>s. computeRPO_run g root rpo = Some s \<and> rpo_list_ok g root (rs_vlst s) \<and>
    set (rs_vlst s) = {x. (root, x) \<in> (edges g)\<^sup>*} \<and>
    (\<forall>as a bs b. rs_vlst s = as @ a # bs \<longrightarrow> (a, b) \<in> edges g \<longrightarrow> b \<in> set bs \<or> (b, a) \<in> (edges g)\<^sup>*) \<and>
    rs_order s = word_of_int ((int (card (verts g)) - int (length (rs_vlst s))) * RPO_INTERVAL) \<and>
    (\<forall>i<length (rs_vlst s). rs_rpo s (rs_vlst s ! i) =
       sint (word_of_int ((int (card (verts g)) - int (length (rs_vlst s)) + int i) * RPO_INTERVAL) :: 32 word)) \<and>
    (\<forall>x. x \<notin> set (rs_vlst s) \<longrightarrow> rs_rpo s x = rpo x)"
proof -
  let ?b = "\<lambda>s. rs_stk s \<noteq> []" and ?c = "rpo_step g" and ?P = "rpo_inv g root rpo"
  let ?f = "\<lambda>s. 2 * (card (verts g) - length (rpo_so_far s)) + length (rs_stk s)"
  let ?s = "\<lparr>rs_stk = [root], rs_visited = {}, rs_order = word_of_int RPO_INIT_VAL + of_nat (getVertexNum g) * word_of_int RPO_INTERVAL, rs_vlst = [], rs_rpo = rpo\<rparr>"
  have init: "?P ?s" using assms
    by (auto simp: rpo_inv_def rpo_list_ok_def rpo_so_far_def graph_nums Cons_eq_append_conv)
  have len: "length (rpo_so_far s) \<le> card (verts g)" if "?P s" for s
    using that card_mono [OF graph_wf_finite [OF assms(1)]] distinct_card unfolding rpo_inv_def rpo_list_ok_def by metis
  have st: "?P (?c s) \<and> ?f (?c s) < ?f s" if sb: "?P s \<and> ?b s" for s
  proof -
    obtain v rest where v: "rs_stk s = v # rest" using sb by (cases "rs_stk s") auto
    have P: "?P s" using sb by simp
    show ?thesis
    proof (cases "List.find (\<lambda>x. x \<notin> insert v (rs_visited s)) (getOutList g v)")
      case None
      then show ?thesis using rpo_step_pop [OF assms(1) P v None] v by simp
    next
      case (Some x)
      note n = rpo_step_push [OF assms(1) P v Some]
      show ?thesis using n len [OF n(1)] by simp
    qed
  qed
  obtain s where s: "while_option ?b ?c ?s = Some s"
    using measure_while_option_Some [of ?P ?b ?c ?f ?s] st init by blast
  have P: "?P s" using while_option_rule [of ?P ?b ?c, OF _ s] st init by blast
  have e: "rs_stk s = []" using while_option_stop [OF s] by simp
  note i = P [unfolded rpo_inv_def rpo_so_far_def e rev.simps append_Nil]
  have c4: "\<forall>as a bs. rs_vlst s = as @ a # bs \<longrightarrow> (\<forall>b. (a, b) \<in> edges g \<longrightarrow> b \<in> set bs \<or> b \<in> set (rs_vlst s) \<and> (b, a) \<in> (edges g)\<^sup>*)"
    using i by (elim conjE)
  have lo: "rpo_list_ok g root (rs_vlst s)" using i by (elim conjE)
  have ro: "\<forall>x. x \<notin> set (rs_vlst s) \<longrightarrow> rs_rpo s x = rpo x" using i by (elim conjE)
  have lr: "rs_vlst s \<noteq> []" "hd (rs_vlst s) = root" "\<forall>x\<in>set (rs_vlst s). (root, x) \<in> (edges g)\<^sup>*"
    using lo by (simp_all add: rpo_list_ok_def)
  have "x \<in> set (rs_vlst s)" if "(root, x) \<in> (edges g)\<^sup>*" for x
    using that
  proof (induction rule: rtrancl_induct)
    case base
    then show ?case using lr(1,2) by (metis list.set_sel(1))
  next
    case (step a b)
    from step.IH obtain as bs where l: "rs_vlst s = as @ a # bs" by (metis split_list)
    show ?case using c4 [rule_format, OF l step.hyps(2)] l by auto
  qed
  then have "set (rs_vlst s) = {x. (root, x) \<in> (edges g)\<^sup>*}" using lr(3) by auto
  moreover have "computeRPO_run g root rpo = Some s" using s by (simp add: computeRPO_run_def)
  moreover have o: "rs_order s = word_of_int ((int (card (verts g)) - int (length (rs_vlst s))) * RPO_INTERVAL)"
    using i by (simp add: RPO_INIT_VAL_def)
  moreover have "\<forall>i<length (rs_vlst s). rs_rpo s (rs_vlst s ! i) =
      sint (word_of_int ((int (card (verts g)) - int (length (rs_vlst s)) + int i) * RPO_INTERVAL) :: 32 word)"
    using i by (simp add: o wi_hom_add distrib_right)
  moreover have "\<forall>as a bs b. rs_vlst s = as @ a # bs \<longrightarrow> (a, b) \<in> edges g \<longrightarrow> b \<in> set bs \<or> (b, a) \<in> (edges g)\<^sup>*" using c4 by metis
  ultimately show ?thesis using lo ro by (intro exI [of _ s] conjI)
qed

text \<open>The order ends at its initial value exactly when every vertex was numbered.\<close>

lemma computeRPO_correct:
  assumes "graph_wf g" "root \<in> verts g" "rpo_fits g"
  shows "if is_graph_entry g root \<and> (\<forall>v\<in>verts g. (root, v) \<in> (edges g)\<^sup>*)
    then \<exists>l rpo'. computeRPO g root rpo = Some (l, rpo') \<and> rpo_list_ok g root l \<and> set l = verts g \<and>
      (\<forall>as a bs b. l = as @ a # bs \<longrightarrow> (a, b) \<in> edges g \<longrightarrow> b \<in> set bs \<or> (b, a) \<in> (edges g)\<^sup>*) \<and>
      (\<forall>i<length l. rpo' (l ! i) = RPO_INIT_VAL + int i * RPO_INTERVAL) \<and> (\<forall>x. x \<notin> verts g \<longrightarrow> rpo' x = rpo x)
    else computeRPO g root rpo = None"
proof -
  obtain s where s: "computeRPO_run g root rpo = Some s" "rpo_list_ok g root (rs_vlst s)"
    "set (rs_vlst s) = {x. (root, x) \<in> (edges g)\<^sup>*}"
    "\<forall>as a bs b. rs_vlst s = as @ a # bs \<longrightarrow> (a, b) \<in> edges g \<longrightarrow> b \<in> set bs \<or> (b, a) \<in> (edges g)\<^sup>*"
    "rs_order s = word_of_int ((int (card (verts g)) - int (length (rs_vlst s))) * RPO_INTERVAL)"
    "\<forall>i<length (rs_vlst s). rs_rpo s (rs_vlst s ! i) =
       sint (word_of_int ((int (card (verts g)) - int (length (rs_vlst s)) + int i) * RPO_INTERVAL) :: 32 word)"
    "\<forall>x. x \<notin> set (rs_vlst s) \<longrightarrow> rs_rpo s x = rpo x"
    using computeRPO_run_correct [OF assms(1,2), of rpo] by (elim exE conjE) (rule that; assumption)
  let ?k = "int (card (verts g)) - int (length (rs_vlst s))"
  have l: "distinct (rs_vlst s)" "set (rs_vlst s) \<subseteq> verts g" using s(2) by (auto simp: rpo_list_ok_def)
  have f: "finite (verts g)" by (rule graph_wf_finite [OF assms(1)])
  then have len: "length (rs_vlst s) \<le> card (verts g)" using l card_mono distinct_card by metis
  have "sint (rs_order s) = ?k * RPO_INTERVAL" unfolding s(5) by (rule rpo_number [OF assms(3)]) (use len in simp_all)
  then have "rs_order s = word_of_int RPO_INIT_VAL \<longleftrightarrow> ?k = 0"
    using s(5) by (auto simp: RPO_INIT_VAL_def RPO_INTERVAL_def)
  moreover have "?k = 0 \<longleftrightarrow> set (rs_vlst s) = verts g"
    using card_subset_eq [OF f l(2)] distinct_card [OF l(1)] by auto
  moreover have "set (rs_vlst s) = verts g \<longleftrightarrow> (\<forall>v\<in>verts g. (root, v) \<in> (edges g)\<^sup>*)" using s(3) l(2) by blast
  ultimately have q: "rs_order s = word_of_int RPO_INIT_VAL \<longleftrightarrow> (\<forall>v\<in>verts g. (root, v) \<in> (edges g)\<^sup>*)"
    and z: "(\<forall>v\<in>verts g. (root, v) \<in> (edges g)\<^sup>*) \<Longrightarrow> ?k = 0 \<and> set (rs_vlst s) = verts g" by blast+
  show ?thesis
  proof (split if_split, intro conjI impI)
    assume h: "is_graph_entry g root \<and> (\<forall>v\<in>verts g. (root, v) \<in> (edges g)\<^sup>*)"
    have "rs_rpo s (rs_vlst s ! i) = RPO_INIT_VAL + int i * RPO_INTERVAL" if "i < length (rs_vlst s)" for i
      using s(6) [rule_format, OF that] z h rpo_number [OF assms(3), of "int i"] that len by (simp add: RPO_INIT_VAL_def)
    moreover have "computeRPO g root rpo = Some (rs_vlst s, rs_rpo s)" using h q s(1) by (simp add: computeRPO_def)
    ultimately show "\<exists>l rpo'. computeRPO g root rpo = Some (l, rpo') \<and> rpo_list_ok g root l \<and> set l = verts g \<and>
      (\<forall>as a bs b. l = as @ a # bs \<longrightarrow> (a, b) \<in> edges g \<longrightarrow> b \<in> set bs \<or> (b, a) \<in> (edges g)\<^sup>*) \<and>
      (\<forall>i<length l. rpo' (l ! i) = RPO_INIT_VAL + int i * RPO_INTERVAL) \<and> (\<forall>x. x \<notin> verts g \<longrightarrow> rpo' x = rpo x)"
      using s(2,4,7) z h by (intro exI [of _ "rs_vlst s"] exI [of _ "rs_rpo s"] conjI) auto
  next
    assume "\<not> (is_graph_entry g root \<and> (\<forall>v\<in>verts g. (root, v) \<in> (edges g)\<^sup>*))"
    then show "computeRPO g root rpo = None" using q s(1) by (auto simp: computeRPO_def)
  qed
qed

section \<open>Unreachable vertices\<close>

text \<open>The recursion of \<open>collectReachNodeRecur\<close> is over the rest of the out-vertices of the vertex at hand.\<close>

partial_function (option) collect_outs :: "Graph \<Rightarrow> nat list \<Rightarrow> nat set \<Rightarrow> nat set option" where
  "collect_outs g outs visited =
     (case outs of
        [] \<Rightarrow> Some visited
      | x # xs \<Rightarrow>
          if x \<notin> visited then Option.bind (collect_outs g (getOutList g x) (insert x visited)) (collect_outs g xs)
          else collect_outs g xs visited)"

definition collectReachNodeRecur :: "Graph \<Rightarrow> nat \<Rightarrow> nat set \<Rightarrow> nat set option" where
  "collectReachNodeRecur g x visited = collect_outs g (getOutList g x) (insert x visited)"

definition removeUnreachNode :: "Graph \<Rightarrow> nat \<Rightarrow> (bool \<times> Graph) option" where
  "removeUnreachNode g entry_id =
     (if getVertexNum g = 0 then Some (False, g)
      else map_option (\<lambda>visited. let rmlst = filter (\<lambda>v. v \<notin> visited) (g_order g)
                                  in (rmlst \<noteq> [], fold removeVertex rmlst g))
             (collectReachNodeRecur g entry_id {}))"

definition collected :: "Graph \<Rightarrow> nat list \<Rightarrow> nat set \<Rightarrow> nat set \<Rightarrow> bool" where
  "collected g outs visited r \<longleftrightarrow>
     visited \<union> set outs \<subseteq> r \<and> r \<subseteq> verts g \<and> (\<forall>a b. a \<in> r - visited \<longrightarrow> (a, b) \<in> edges g \<longrightarrow> b \<in> r) \<and>
     r - visited \<subseteq> (edges g)\<^sup>* `` set outs"

lemma collected_skip: "collected g xs visited r \<Longrightarrow> x \<in> visited \<Longrightarrow> collected g (x # xs) visited r"
  unfolding collected_def by auto

lemma collected_step:
  assumes "graph_wf g" "x \<notin> visited" "collected g (getOutList g x) (insert x visited) r1" "collected g xs r1 r"
  shows "collected g (x # xs) visited r"
proof -
  note o = out_list_set [OF assms(1), of x]
  have r1: "insert x visited \<union> set (getOutList g x) \<subseteq> r1"
      "\<And>a b. a \<in> r1 - insert x visited \<Longrightarrow> (a, b) \<in> edges g \<Longrightarrow> b \<in> r1" "r1 - insert x visited \<subseteq> (edges g)\<^sup>* `` set (getOutList g x)"
    using assms(3) by (simp_all add: collected_def)
  have r: "r1 \<union> set xs \<subseteq> r" "r \<subseteq> verts g" "\<And>a b. a \<in> r - r1 \<Longrightarrow> (a, b) \<in> edges g \<Longrightarrow> b \<in> r" "r - r1 \<subseteq> (edges g)\<^sup>* `` set xs"
    using assms(4) by (simp_all add: collected_def)
  have c: "a = x \<or> a \<in> r1 - insert x visited \<or> a \<in> r - r1" if "a \<in> r - visited" for a using that by blast
  have s: "b \<in> r" if h: "a \<in> r - visited" "(a, b) \<in> edges g" for a b
    using c [OF h(1)]
  proof (elim disjE)
    assume "a = x"
    then have "b \<in> set (getOutList g x)" using h(2) o by simp
    then show ?thesis using r1(1) r(1) by blast
  next
    assume "a \<in> r1 - insert x visited"
    then show ?thesis using r1(2) [OF _ h(2)] r(1) by blast
  next
    assume "a \<in> r - r1"
    then show ?thesis by (rule r(3) [OF _ h(2)])
  qed
  have b: "a \<in> (edges g)\<^sup>* `` set (x # xs)" if h: "a \<in> r - visited" for a
    using c [OF h]
  proof (elim disjE)
    assume "a \<in> r1 - insert x visited"
    then obtain b where "b \<in> set (getOutList g x)" "(b, a) \<in> (edges g)\<^sup>*" using r1(3) by blast
    then have "(x, a) \<in> (edges g)\<^sup>*" using o by (simp add: converse_rtrancl_into_rtrancl)
    then show ?thesis by auto
  next
    assume "a \<in> r - r1"
    then have "a \<in> (edges g)\<^sup>* `` set xs" using r(4) by blast
    then show ?thesis by auto
  qed auto
  show ?thesis unfolding collected_def
  proof (intro conjI allI impI subsetI)
    show "a \<in> r" if "a \<in> visited \<union> set (x # xs)" for a using that r1(1) r(1) by auto
    show "a \<in> verts g" if "a \<in> r" for a using that r(2) by blast
  qed (fact s, fact b)
qed

lemma collect_outs_correct:
  assumes "graph_wf g"
  shows "visited \<subseteq> verts g \<Longrightarrow> set outs \<subseteq> verts g \<Longrightarrow> \<exists>r. collect_outs g outs visited = Some r \<and> collected g outs visited r"
proof (induction "(card (verts g - visited), length outs)" arbitrary: visited outs rule: wf_induct_rule [OF wf_lex_prod [OF wf_less_than wf_less_than]])
  case 1
  note v = 1(2) and o = 1(3)
  have IH: "\<exists>r. collect_outs g os vis = Some r \<and> collected g os vis r"
    if "vis \<subseteq> verts g" "set os \<subseteq> verts g" "card (verts g - vis) < card (verts g - visited) \<or> vis = visited \<and> length os < length outs" for vis os
    by (rule 1(1)) (use that in auto)
  show ?case
  proof (cases outs)
    case Nil
    then show ?thesis using v by (simp add: collect_outs.simps collected_def)
  next
    case (Cons x xs)
    show ?thesis
    proof (cases "x \<in> visited")
      case True
      obtain r where "collect_outs g xs visited = Some r" "collected g xs visited r" using IH [of visited xs] v o Cons by auto
      then show ?thesis using True Cons collected_skip [of g xs visited r x] by (subst collect_outs.simps) simp
    next
      case False
      let ?v = "insert x visited" and ?o = "getOutList g x"
      have x: "x \<in> verts g" "set ?o \<subseteq> verts g" using o Cons out_list_set [OF assms, of x] graph_wf_edge [OF assms] by auto
      have c: "card (verts g - r) < card (verts g - visited)" if "?v \<subseteq> r" for r
        by (rule psubset_card_mono) (use False x(1) that graph_wf_finite [OF assms] in auto)
      obtain r1 where r1: "collect_outs g ?o ?v = Some r1" "collected g ?o ?v r1" using IH [of ?v ?o] c [of ?v] v x by auto
      have "?v \<subseteq> r1" "r1 \<subseteq> verts g" using r1(2) by (auto simp: collected_def)
      then obtain r where r: "collect_outs g xs r1 = Some r" "collected g xs r1 r" using IH [of r1 xs] c [of r1] o Cons by auto
      have "collect_outs g outs visited = Some r" using Cons False r1(1) r(1) by (subst collect_outs.simps) simp
      then show ?thesis using collected_step [OF assms False r1(2) r(2)] Cons by blast
    qed
  qed
qed

lemma collectReachNodeRecur_correct:
  assumes "graph_wf g" "x \<in> verts g"
  shows "collectReachNodeRecur g x {} = Some {y. (x, y) \<in> (edges g)\<^sup>*}"
proof -
  have o: "set (getOutList g x) = {w. (x, w) \<in> edges g}" by (rule out_list_set [OF assms(1)])
  then have "set (getOutList g x) \<subseteq> verts g" using graph_wf_edge [OF assms(1)] by auto
  then obtain r where r0: "collect_outs g (getOutList g x) {x} = Some r" "collected g (getOutList g x) {x} r"
    using collect_outs_correct [OF assms(1), of "{x}" "getOutList g x"] assms(2) by auto
  have r: "collect_outs g (getOutList g x) {x} = Some r" "{x} \<union> set (getOutList g x) \<subseteq> r"
      "\<And>a b. a \<in> r - {x} \<Longrightarrow> (a, b) \<in> edges g \<Longrightarrow> b \<in> r" "r - {x} \<subseteq> (edges g)\<^sup>* `` set (getOutList g x)"
    using r0 by (auto simp: collected_def)
  have "y \<in> r" if "(x, y) \<in> (edges g)\<^sup>*" for y
    using that
  proof (induction rule: rtrancl_induct)
    case (step a b)
    show ?case
    proof (cases "a = x")
      case True
      then have "b \<in> set (getOutList g x)" using step.hyps(2) o by simp
      then show ?thesis using r(2) by blast
    next
      case False
      then show ?thesis using r(3) [OF _ step.hyps(2)] step.IH by simp
    qed
  qed (use r(2) in simp)
  moreover have "(x, y) \<in> (edges g)\<^sup>*" if "y \<in> r" for y
  proof (cases "y = x")
    case False
    then have "y \<in> r - {x}" using that by simp
    then have "y \<in> (edges g)\<^sup>* `` set (getOutList g x)" by (rule subsetD [OF r(4)])
    then obtain b where "(x, b) \<in> edges g" "(b, y) \<in> (edges g)\<^sup>*" unfolding o by (elim ImageE) simp
    then show ?thesis by (rule converse_rtrancl_into_rtrancl)
  qed simp
  ultimately have "r = {y. (x, y) \<in> (edges g)\<^sup>*}" by (intro set_eqI iffI) simp_all
  then show ?thesis using r(1) by (simp add: collectReachNodeRecur_def)
qed

lemma fold_removeVertex:
  "graph_wf g \<Longrightarrow> graph_wf (fold removeVertex vs g) \<and> verts (fold removeVertex vs g) = verts g - set vs \<and>
   edges (fold removeVertex vs g) = {(a, b) \<in> edges g. a \<notin> set vs \<and> b \<notin> set vs} \<and>
   g_direction (fold removeVertex vs g) = g_direction g"
proof (induction vs arbitrary: g)
  case (Cons v vs)
  note r = removeVertex_wf [OF Cons.prems, of v]
  note i = Cons.IH [OF r(1)]
  have "edges (fold removeVertex (v # vs) g) = {(a, b) \<in> edges g. a \<notin> set (v # vs) \<and> b \<notin> set (v # vs)}"
  proof -
    have "edges (fold removeVertex (v # vs) g) = {(a, b) \<in> edges (removeVertex v g). a \<notin> set vs \<and> b \<notin> set vs}" using i by simp
    then show ?thesis unfolding r(3) by auto
  qed
  moreover have "verts (fold removeVertex (v # vs) g) = verts g - set (v # vs)" using i unfolding r(2) by auto
  ultimately show ?case using i r(4) by simp
qed simp

lemma removeUnreachNode_correct:
  assumes "graph_wf g" "x \<in> verts g"
  shows "\<exists>h. removeUnreachNode g x = Some (\<exists>v\<in>verts g. (x, v) \<notin> (edges g)\<^sup>*, h) \<and> graph_wf h \<and>
    verts h = {v. (x, v) \<in> (edges g)\<^sup>*} \<and> edges h = {(a, b) \<in> edges g. (x, a) \<in> (edges g)\<^sup>*}"
proof -
  let ?rm = "filter (\<lambda>v. (x, v) \<notin> (edges g)\<^sup>*) (g_order g)"
  have o: "set (g_order g) = verts g" using assms(1) by (simp add: graph_wf_def)
  have n: "getVertexNum g \<noteq> 0" using assms graph_wf_finite [OF assms(1)] by (auto simp: graph_nums)
  have v: "v \<in> verts g" if "(x, v) \<in> (edges g)\<^sup>*" for v
    using that by (induction rule: rtrancl_induct) (use assms(2) graph_wf_edge [OF assms(1)] in auto)
  have "(?rm \<noteq> []) = (\<exists>v\<in>verts g. (x, v) \<notin> (edges g)\<^sup>*)" using o by (auto simp: filter_empty_conv)
  then have r: "removeUnreachNode g x = Some (\<exists>v\<in>verts g. (x, v) \<notin> (edges g)\<^sup>*, fold removeVertex ?rm g)"
    using n collectReachNodeRecur_correct [OF assms] by (simp add: removeUnreachNode_def Let_def)
  note f = fold_removeVertex [OF assms(1), of ?rm]
  have "verts g - set ?rm = {v. (x, v) \<in> (edges g)\<^sup>*}" using o v by auto
  moreover have "{(a, b) \<in> edges g. a \<notin> set ?rm \<and> b \<notin> set ?rm} = {(a, b) \<in> edges g. (x, a) \<in> (edges g)\<^sup>*}"
    using o graph_wf_edge [OF assms(1)] by (auto intro: rtrancl_into_rtrancl)
  ultimately show ?thesis using r f by (intro exI [of _ "fold removeVertex ?rm g"]) simp
qed

end
