(* ===== verification/Dominators.thy ===== *)
theory Dominators
  imports GraphRPO
begin

text \<open>
  Dominators: class \<open>DGraph\<close> of \<^verbatim>\<open>src/com/sgraph.cpp\<close>. \<open>computeIdom2\<close> finds the immediate dominators by
  walking up the tree found so far (\<open>computeIdomForFullGraph\<close>, the algorithm of Cooper, Harvey and Kennedy), \<open>computeDom2\<close>
  fills in the dominator sets from it. \<open>m_idom_set\<close>, a vector that reads 0 (\<open>VERTEX_UNDEF\<close>) where nothing is
  set, is a total function. \<open>None\<close> is a loop that does not end, or the read of an undefined immediate dominator.
\<close>

section \<open>Immediate dominators\<close>

text \<open>\<open>while (j->rpo() > k->rpo())\<close>; the other loop is the same with the two exchanged.\<close>

partial_function (option) idom_climb :: "Graph \<Rightarrow> (nat \<Rightarrow> int) \<Rightarrow> (nat \<Rightarrow> nat) \<Rightarrow> nat \<Rightarrow> nat \<Rightarrow> nat option" where
  "idom_climb g rpo idoms j k =
     (if rpo j > rpo k then
        if idoms j = 0 then None
        else if is_graph_entry g (idoms j) then Some (idoms j)
        else idom_climb g rpo idoms (idoms j) k
      else Some j)"

partial_function (option) idom_meet :: "Graph \<Rightarrow> (nat \<Rightarrow> int) \<Rightarrow> (nat \<Rightarrow> nat) \<Rightarrow> nat \<Rightarrow> nat \<Rightarrow> (nat \<times> nat) option" where
  "idom_meet g rpo idoms j k =
     (if j = k then Some (j, k)
      else Option.bind (idom_climb g rpo idoms j k) (\<lambda>j.
             Option.bind (idom_climb g rpo idoms k j) (\<lambda>k.
               if is_graph_entry g j \<and> is_graph_entry g k then Some (j, k) else idom_meet g rpo idoms j k)))"

fun idom_preds :: "Graph \<Rightarrow> (nat \<Rightarrow> int) \<Rightarrow> (nat \<Rightarrow> nat) \<Rightarrow> nat list \<Rightarrow> nat \<Rightarrow> nat option" where
  "idom_preds g rpo idoms [] idom = Some idom"
| "idom_preds g rpo idoms (x # xs) idom =
     (if idoms x = 0 then idom_preds g rpo idoms xs idom
      else if idom = 0 then idom_preds g rpo idoms xs x
      else case idom_meet g rpo idoms x idom of
             None \<Rightarrow> None
           | Some (j, k) \<Rightarrow> if j \<noteq> k then Some 0 else idom_preds g rpo idoms xs j)"

definition idom_visit :: "Graph \<Rightarrow> (nat \<Rightarrow> int) \<Rightarrow> nat \<Rightarrow> bool \<times> (nat \<Rightarrow> nat) \<Rightarrow> (bool \<times> (nat \<Rightarrow> nat)) option" where
  "idom_visit g rpo v s =
     (case s of (changed, idoms) \<Rightarrow>
        if is_graph_entry g v then Some (changed, idoms(v := v))
        else map_option (\<lambda>idom.
               if idom = 0 then (if idoms v \<noteq> 0 then (True, idoms(v := 0)) else (changed, idoms))
               else if idoms v \<noteq> idom then (True, idoms(v := idom)) else (changed, idoms))
             (idom_preds g rpo idoms (getInList g v) 0))"

fun idom_pass :: "Graph \<Rightarrow> (nat \<Rightarrow> int) \<Rightarrow> nat list \<Rightarrow> bool \<times> (nat \<Rightarrow> nat) \<Rightarrow> (bool \<times> (nat \<Rightarrow> nat)) option" where
  "idom_pass g rpo [] s = Some s"
| "idom_pass g rpo (v # vs) s = Option.bind (idom_visit g rpo v s) (idom_pass g rpo vs)"

definition computeIdomForFullGraph :: "Graph \<Rightarrow> (nat \<Rightarrow> int) \<Rightarrow> nat list \<Rightarrow> (nat \<Rightarrow> nat) \<Rightarrow> (bool \<times> (nat \<Rightarrow> nat)) option" where
  "computeIdomForFullGraph g rpo vlst idoms = idom_pass g rpo vlst (False, idoms)"

definition computeEntryList :: "Graph \<Rightarrow> nat list" where
  "computeEntryList g = filter (is_graph_entry g) (g_order g)"

definition computeIdom2 :: "Graph \<Rightarrow> (nat \<Rightarrow> int) \<Rightarrow> nat list \<Rightarrow> (nat \<Rightarrow> nat) option" where
  "computeIdom2 g rpo vlst =
     Option.bind
       (while_option (\<lambda>s. case s of Some (changed, idoms) \<Rightarrow> changed | None \<Rightarrow> False)
          (\<lambda>s. Option.bind s (\<lambda>(changed, idoms). computeIdomForFullGraph g rpo vlst idoms)) (Some (True, \<lambda>v. 0)))
       (map_option (\<lambda>(changed, idoms). fold (\<lambda>v f. f(v := 0)) (computeEntryList g) idoms))"

section \<open>Dominator sets\<close>

partial_function (option) dom2_climb :: "(nat \<Rightarrow> nat) \<Rightarrow> nat set \<Rightarrow> (nat \<Rightarrow> nat set) \<Rightarrow> nat \<Rightarrow> nat set \<Rightarrow> nat set option" where
  "dom2_climb idoms avail doms idom acc =
     (if idom = 0 then Some acc
      else if idom \<in> avail then Some (insert idom acc \<union> doms idom)
      else dom2_climb idoms avail doms (idoms idom) (insert idom acc))"

fun dom2_pass :: "(nat \<Rightarrow> nat) \<Rightarrow> nat list \<Rightarrow> nat set \<Rightarrow> (nat \<Rightarrow> nat set) \<Rightarrow> (nat \<Rightarrow> nat set) option" where
  "dom2_pass idoms [] avail doms = Some doms"
| "dom2_pass idoms (v # vs) avail doms =
     Option.bind (dom2_climb idoms avail (doms(v := {})) (idoms v) {})
       (\<lambda>ds. dom2_pass idoms vs (insert v avail) (doms(v := ds)))"

definition computeDom2 :: "(nat \<Rightarrow> nat) \<Rightarrow> nat list \<Rightarrow> (nat \<Rightarrow> nat set) \<Rightarrow> (nat \<Rightarrow> nat set) option" where
  "computeDom2 idoms vlst doms = dom2_pass idoms vlst {} doms"

section \<open>Dominance\<close>

text \<open>\<open>d\<close> dominates \<open>v\<close>: there is no way from the root to \<open>v\<close> around \<open>d\<close>.\<close>

definition around :: "(nat \<times> nat) set \<Rightarrow> nat \<Rightarrow> (nat \<times> nat) set" where
  "around E d = {(a, b) \<in> E. a \<noteq> d \<and> b \<noteq> d}"

definition dominators :: "(nat \<times> nat) set \<Rightarrow> nat \<Rightarrow> nat \<Rightarrow> nat set" where
  "dominators E r v = {d. d = r \<or> (r, v) \<notin> (around E d)\<^sup>*}"

lemma dominators_self: "v \<in> dominators E r v"
  unfolding dominators_def
proof (rule CollectI, rule disjCI)
  assume "\<not> (r, v) \<notin> (around E v)\<^sup>*"
  then show "v = r" by (auto elim: rtranclE simp: around_def)
qed

lemma dominators_pred: "d \<in> dominators E r v \<Longrightarrow> d \<noteq> v \<Longrightarrow> (p, v) \<in> E \<Longrightarrow> d \<in> dominators E r p"
  unfolding dominators_def
proof (rule CollectI, rule disjCI)
  assume d: "d \<in> {d. d = r \<or> (r, v) \<notin> (around E d)\<^sup>*}" "d \<noteq> v" "(p, v) \<in> E" and "\<not> (r, p) \<notin> (around E d)\<^sup>*"
  then have rp: "(r, p) \<in> (around E d)\<^sup>*" by simp
  show "d = r"
  proof (rule ccontr)
    assume n: "d \<noteq> r"
    then have "p \<noteq> d" using rp by (auto elim: rtranclE simp: around_def)
    then have "(p, v) \<in> around E d" using d by (simp add: around_def)
    then show False using d(1) n rp by (auto dest: rtrancl_into_rtrancl)
  qed
qed

lemma around_path:
  assumes "(a, b) \<in> {(x, y) \<in> E. y \<notin> S}\<^sup>*" "d \<in> S" "a \<noteq> d"
  shows "(a, b) \<in> (around E d)\<^sup>*"
  using assms(1)
proof (induction rule: rtrancl_induct)
  case (step y z)
  have "y \<noteq> d" using step.IH assms(3) by (auto elim: rtranclE simp: around_def)
  then have "(y, z) \<in> around E d" using step.hyps(2) assms(2) by (auto simp: around_def)
  then show ?case using step.IH by simp
qed simp

lemma solution_dominates:
  assumes "D r = {r}" "\<And>v p. (p, v) \<in> E \<Longrightarrow> (r, p) \<in> E\<^sup>* \<Longrightarrow> D v \<subseteq> insert v (D p)"
  shows "D v \<subseteq> dominators E r v"
proof
  fix x assume x: "x \<in> D v"
  show "x \<in> dominators E r v"
    unfolding dominators_def
  proof (rule CollectI, rule disjCI)
    assume "\<not> (r, v) \<notin> (around E x)\<^sup>*"
    then have rv: "(r, v) \<in> (around E x)\<^sup>*" by simp
    show "x = r"
    proof (rule ccontr)
      assume n: "x \<noteq> r"
      from rv have "x \<notin> D v \<and> (r, v) \<in> E\<^sup>*"
      proof (induction rule: rtrancl_induct)
        case base
        then show ?case using assms(1) n by simp
      next
        case (step y z)
        then have "(y, z) \<in> E" "z \<noteq> x" by (auto simp: around_def)
        then show ?case using assms(2) [of y z] step.IH by (auto intro: rtrancl_into_rtrancl)
      qed
      then show False using x by simp
    qed
  qed
qed

section \<open>Chains of immediate dominators\<close>

definition chain :: "(nat \<Rightarrow> nat) \<Rightarrow> nat \<Rightarrow> nat set" where
  "chain f v = {(f ^^ n) v | n. True}"

lemma chain_self [simp]: "v \<in> chain f v"
  unfolding chain_def by (rule CollectI, rule exI [of _ 0]) simp

lemma chain_unfold: "chain f v = insert v (chain f (f v))"
proof (intro set_eqI iffI)
  fix x assume "x \<in> chain f v"
  then obtain n where "x = (f ^^ n) v" by (auto simp: chain_def)
  then show "x \<in> insert v (chain f (f v))"
    by (cases n) (auto simp: chain_def funpow_swap1)
next
  fix x assume "x \<in> insert v (chain f (f v))"
  then consider "x = v" | n where "x = (f ^^ Suc n) v" by (auto simp: chain_def funpow_swap1)
  then show "x \<in> chain f v"
  proof cases
    case 2
    then show ?thesis unfolding chain_def by blast
  qed simp
qed

lemma chain_trans: "u \<in> chain f v \<Longrightarrow> chain f u \<subseteq> chain f v"
proof
  fix x assume "u \<in> chain f v" "x \<in> chain f u"
  then obtain n m where "u = (f ^^ n) v" "x = (f ^^ m) u" by (auto simp: chain_def)
  then have "x = (f ^^ (m + n)) v" by (simp add: funpow_add)
  then show "x \<in> chain f v" unfolding chain_def by blast
qed

lemma chain_linear: "x \<in> chain f v \<Longrightarrow> y \<in> chain f v \<Longrightarrow> x \<in> chain f y \<or> y \<in> chain f x"
proof -
  assume "x \<in> chain f v" "y \<in> chain f v"
  then obtain n m where x: "x = (f ^^ n) v" and y: "y = (f ^^ m) v" by (auto simp: chain_def)
  have "(f ^^ b) v \<in> chain f ((f ^^ a) v)" if "a \<le> b" for a b
  proof -
    have "(f ^^ b) v = (f ^^ (b - a)) ((f ^^ a) v)" using that by (metis funpow_add le_add_diff_inverse2 o_apply)
    then show ?thesis unfolding chain_def by blast
  qed
  then show ?thesis using x y by (metis linear)
qed

lemma chain_fix: "f r = r \<Longrightarrow> chain f r = {r}"
proof -
  assume "f r = r"
  then have "(f ^^ n) r = r" for n by (induction n) auto
  then show "chain f r = {r}" by (auto simp: chain_def)
qed

end
