(* ===== verification/DomProof.thy ===== *)
theory DomProof
  imports Dominators
begin

text \<open>
  The correctness of \<open>computeIdom2\<close>. The map of the immediate dominators found so far is a tree: \<open>idom_tree\<close>. A visit
  moves one vertex up in the tree; \<open>chain_update\<close> says what that does to the chains of all vertices. The invariant
  \<open>idom_inv\<close> of a pass says that the chains contain all dominators and that the next visit can only move a vertex up.
\<close>

section \<open>The tree\<close>

definition idom_tree :: "(nat \<Rightarrow> nat) \<Rightarrow> nat \<Rightarrow> (nat \<Rightarrow> nat) \<Rightarrow> bool" where
  "idom_tree pos r f \<longleftrightarrow> r \<noteq> 0 \<and> f r = r \<and> (\<forall>v. f v \<noteq> 0 \<longrightarrow> v \<noteq> r \<longrightarrow> pos (f v) < pos v \<and> f (f v) \<noteq> 0)"

lemma idom_tree_step: "idom_tree pos r f \<Longrightarrow> f v \<noteq> 0 \<Longrightarrow> v \<noteq> r \<Longrightarrow> pos (f v) < pos v \<and> f (f v) \<noteq> 0"
  by (simp add: idom_tree_def)

lemma idom_tree_root: "idom_tree pos r f \<Longrightarrow> f r = r \<and> f r \<noteq> 0 \<and> chain f r = {r}"
  by (simp add: idom_tree_def chain_fix)

lemma chain_down:
  assumes "idom_tree pos r f"
  shows "f v \<noteq> 0 \<Longrightarrow> u \<in> chain f v \<Longrightarrow> f u \<noteq> 0 \<and> (u = v \<or> pos u < pos v)"
proof (induction "pos v" arbitrary: v rule: less_induct)
  case less
  show ?case
  proof (cases "v = r")
    case True
    then show ?thesis using less.prems idom_tree_root [OF assms] by auto
  next
    case False
    note s = idom_tree_step [OF assms less.prems(1) False]
    show ?thesis
    proof (cases "u = v")
      case True
      then show ?thesis using less.prems(1) by simp
    next
      case False
      then have "u \<in> chain f (f v)" using less.prems(2) chain_unfold [of f v] by auto
      then show ?thesis using less.hyps [of "f v"] s by auto
    qed
  qed
qed

lemma chain_root: "idom_tree pos r f \<Longrightarrow> f v \<noteq> 0 \<Longrightarrow> r \<in> chain f v"
proof (induction "pos v" arbitrary: v rule: less_induct)
  case less
  show ?case
  proof (cases "v = r")
    case False
    note s = idom_tree_step [OF less.prems False]
    then have "r \<in> chain f (f v)" using less by blast
    then show ?thesis using chain_unfold [of f v] by auto
  qed simp
qed

lemma chain_not_above: "idom_tree pos r f \<Longrightarrow> f b \<noteq> 0 \<Longrightarrow> pos b < pos v \<Longrightarrow> v \<notin> chain f b"
  using chain_down [of pos r f b v] by auto

text \<open>Moving \<open>v\<close> below \<open>b\<close>.\<close>

lemma idom_tree_update:
  assumes "idom_tree pos r f" "v \<noteq> r" "f b \<noteq> 0" "pos b < pos v" "b \<noteq> 0"
  shows "idom_tree pos r (f(v := b))"
  using assms by (auto simp: idom_tree_def)

lemma chain_update:
  assumes "idom_tree pos r f" "v \<noteq> r" "f b \<noteq> 0" "pos b < pos v" "f v \<noteq> 0 \<longrightarrow> b \<in> chain f (f v)"
  defines "h \<equiv> f(v := b)"
  shows "f w \<noteq> 0 \<Longrightarrow> v \<notin> chain f w \<Longrightarrow> chain h w = chain f w"
    "chain h v = insert v (chain f b)"
    "f w \<noteq> 0 \<Longrightarrow> chain h w \<subseteq> chain f w"
    "f w \<noteq> 0 \<Longrightarrow> x \<in> chain f w \<Longrightarrow> x \<notin> chain h w \<Longrightarrow> v \<in> chain f w \<and> x \<in> chain f (f v) \<and> x \<notin> chain f b"
proof -
  have same: "chain h w = chain f w" if "f w \<noteq> 0" "v \<notin> chain f w" for w
    using that
  proof (induction "pos w" arbitrary: w rule: less_induct)
    case less
    have wv: "w \<noteq> v" using less.prems(2) by auto
    show ?case
    proof (cases "w = r")
      case True
      have "h r = r" using assms(1,2) by (simp add: h_def idom_tree_def)
      then show ?thesis using True idom_tree_root [OF assms(1)] chain_fix [of h r] by simp
    next
      case False
      note s = idom_tree_step [OF assms(1) less.prems(1) False]
      have "v \<notin> chain f (f w)" using less.prems(2) chain_unfold [of f w] by auto
      then have "chain h (f w) = chain f (f w)" using less.hyps s by blast
      then show ?thesis using chain_unfold [of h w] chain_unfold [of f w] wv by (simp add: h_def)
    qed
  qed
  then show "f w \<noteq> 0 \<Longrightarrow> v \<notin> chain f w \<Longrightarrow> chain h w = chain f w" .
  have b: "chain h b = chain f b" by (rule same [OF assms(3) chain_not_above [OF assms(1,3,4)]])
  then show hv: "chain h v = insert v (chain f b)" using chain_unfold [of h v] by (simp add: h_def)
  have both: "chain h w \<subseteq> chain f w \<and> (x \<in> chain f w \<longrightarrow> x \<notin> chain h w \<longrightarrow> v \<in> chain f w \<and> x \<in> chain f (f v) \<and> x \<notin> chain f b)"
    if "f w \<noteq> 0" for w
    using that
  proof (induction "pos w" arbitrary: w rule: less_induct)
    case less
    show ?case
    proof (cases "v \<in> chain f w")
      case False
      then show ?thesis using same [OF less.prems False] by simp
    next
      case True
      show ?thesis
      proof (cases "w = v")
        case True
        have "chain f b \<subseteq> chain f (f v)" by (rule chain_trans) (use assms(5) less.prems True in simp)
        then show ?thesis using True hv chain_unfold [of f v] by auto
      next
        case False
        then have r: "w \<noteq> r" using \<open>v \<in> chain f w\<close> idom_tree_root [OF assms(1)] assms(2) by auto
        note s = idom_tree_step [OF assms(1) less.prems r]
        have "v \<in> chain f (f w)" using \<open>v \<in> chain f w\<close> False chain_unfold [of f w] by auto
        then show ?thesis using less.hyps [of "f w"] s chain_unfold [of f w] chain_unfold [of h w] False by (auto simp: h_def)
      qed
    qed
  qed
  then show "f w \<noteq> 0 \<Longrightarrow> chain h w \<subseteq> chain f w"
    "f w \<noteq> 0 \<Longrightarrow> x \<in> chain f w \<Longrightarrow> x \<notin> chain h w \<Longrightarrow> v \<in> chain f w \<and> x \<in> chain f (f v) \<and> x \<notin> chain f b" by blast+
qed

text \<open>What lies between the new and the old place is gone from the chains through \<open>v\<close>.\<close>

lemma chain_update_gone:
  assumes "idom_tree pos r f" "v \<noteq> r" "f b \<noteq> 0" "pos b < pos v" "f v \<noteq> 0" "b \<in> chain f (f v)" "b \<noteq> 0"
    "f p \<noteq> 0" "v \<in> chain f p" "x \<in> chain f (f v)" "x \<in> chain (f(v := b)) p"
  shows "x \<in> chain f b"
proof -
  let ?h = "f(v := b)"
  note t = idom_tree_update [OF assms(1-4,7)]
  note s = idom_tree_step [OF assms(1,5,2)]
  have "f v \<noteq> 0 \<longrightarrow> b \<in> chain f (f v)" using assms(6) by simp
  note c = chain_update [OF assms(1-4) this]
  have xv: "pos x < pos v" using chain_down [OF assms(1) conjunct2 [OF s] assms(10)] s by auto
  have "v \<notin> chain f (f v)" by (rule chain_not_above [OF assms(1)]) (use s in auto)
  then have "v \<in> chain ?h p" using c(4) [OF assms(8,9)] by blast
  then consider "x \<in> chain ?h v" | "v \<in> chain ?h x" using chain_linear assms(11) by metis
  then show ?thesis
  proof cases
    case 1
    then show ?thesis using c(2) xv by auto
  next
    case 2
    have "?h p \<noteq> 0" using assms(7,8) by simp
    then have "?h x \<noteq> 0" using chain_down [OF t _ assms(11)] by blast
    then show ?thesis using chain_down [OF t _ 2] xv by auto
  qed
qed

section \<open>Meeting in the tree\<close>

definition tree_order :: "Graph \<Rightarrow> (nat \<Rightarrow> int) \<Rightarrow> (nat \<Rightarrow> nat) \<Rightarrow> nat \<Rightarrow> bool" where
  "tree_order g rpo pos r \<longleftrightarrow>
     graph_wf g \<and> r \<in> verts g \<and> 0 \<notin> verts g \<and> (\<forall>x\<in>verts g. \<forall>y\<in>verts g. (rpo x < rpo y \<longleftrightarrow> pos x < pos y) \<and> (pos x = pos y \<longrightarrow> x = y)) \<and>
     (\<forall>v\<in>verts g. is_graph_entry g v \<longleftrightarrow> v = r) \<and> 
     (\<forall>v\<in>verts g. v \<noteq> r \<longrightarrow> pos r < pos v \<and> (\<exists>p\<in>verts g. (p, v) \<in> edges g \<and> pos p < pos v))"

lemma idom_climb_correct:
  assumes "tree_order g rpo pos r" "idom_tree pos r f" "\<And>v. f v \<noteq> 0 \<Longrightarrow> v \<in> verts g" "f k \<noteq> 0"
  shows "f j \<noteq> 0 \<Longrightarrow> \<exists>m. idom_climb g rpo f j k = Some m \<and> f m \<noteq> 0 \<and> m \<in> chain f j \<and> pos m \<le> pos k \<and> (pos k < pos j \<longrightarrow> pos m < pos j) \<and>
    (pos j \<le> pos k \<longrightarrow> m = j) \<and> chain f j \<inter> chain f k = chain f m \<inter> chain f k"
proof (induction "pos j" arbitrary: j rule: less_induct)
  case less
  note o = assms(1) [unfolded tree_order_def]
  have jk: "j \<in> verts g" "k \<in> verts g" using assms(3,4) less.prems by auto
  show ?case
  proof (cases "pos k < pos j")
    case False
    then have "\<not> rpo k < rpo j" using o jk by blast
    then show ?thesis using less.prems False by (subst idom_climb.simps) simp
  next
    case True
    then have rk: "rpo k < rpo j" using o jk by blast
    have "j \<noteq> r" using True o jk by (metis less_asym less_irrefl)
    note s = idom_tree_step [OF assms(2) less.prems this]
    have "j \<notin> chain f k" by (rule chain_not_above [OF assms(2,4) True])
    then have c: "chain f j \<inter> chain f k = chain f (f j) \<inter> chain f k" using chain_unfold [of f j] by auto
    have fj: "f j \<in> verts g" using s assms(3) by blast
    show ?thesis
    proof (cases "f j = r")
      case e: True
      then have "idom_climb g rpo f j k = Some (f j)" using rk less.prems o fj by (subst idom_climb.simps) simp
      moreover have "pos r \<le> pos k" using o jk(2) by (cases "k = r") auto
      ultimately show ?thesis using e s c chain_unfold [of f j] True by auto
    next
      case False
      then have u: "idom_climb g rpo f j k = idom_climb g rpo f (f j) k" using rk less.prems o fj by (subst idom_climb.simps) simp
      obtain m where m: "idom_climb g rpo f (f j) k = Some m" "f m \<noteq> 0" "m \<in> chain f (f j)" "pos m \<le> pos k"
          "pos k < pos (f j) \<longrightarrow> pos m < pos (f j)" "pos (f j) \<le> pos k \<longrightarrow> m = f j" "chain f (f j) \<inter> chain f k = chain f m \<inter> chain f k"
        using less.hyps [of "f j"] s by blast
      moreover have "pos m < pos j" using m(5,6) s by (cases "pos k < pos (f j)") auto
      ultimately show ?thesis using u c chain_unfold [of f j] True by auto
    qed
  qed
qed

lemma idom_meet_correct:
  assumes "tree_order g rpo pos r" "idom_tree pos r f" "\<And>v. f v \<noteq> 0 \<Longrightarrow> v \<in> verts g"
  shows "f j \<noteq> 0 \<Longrightarrow> f k \<noteq> 0 \<Longrightarrow>
    \<exists>m. idom_meet g rpo f j k = Some (m, m) \<and> f m \<noteq> 0 \<and> chain f m = chain f j \<inter> chain f k"
proof (induction "pos j + pos k" arbitrary: j k rule: less_induct)
  case less
  show ?case
  proof (cases "j = k")
    case True
    then show ?thesis using less.prems by (subst idom_meet.simps) simp
  next
    case False
    note o = assms(1) [unfolded tree_order_def]
    obtain a where a: "idom_climb g rpo f j k = Some a" "f a \<noteq> 0" "pos a \<le> pos k" "pos k < pos j \<longrightarrow> pos a < pos j"
        "pos j \<le> pos k \<longrightarrow> a = j" "chain f j \<inter> chain f k = chain f a \<inter> chain f k"
      using idom_climb_correct [OF assms(1,2,3) less.prems(2,1)] by blast
    obtain b where b: "idom_climb g rpo f k a = Some b" "f b \<noteq> 0" "pos a < pos k \<longrightarrow> pos b < pos k"
        "pos k \<le> pos a \<longrightarrow> b = k" "chain f k \<inter> chain f a = chain f b \<inter> chain f a"
      using idom_climb_correct [OF assms(1,2,3) a(2) less.prems(2)] by blast
    have c: "chain f j \<inter> chain f k = chain f a \<inter> chain f b" using a(6) b(5) by blast
    have v: "a \<in> verts g" "b \<in> verts g" "j \<in> verts g" "k \<in> verts g" using a(2) b(2) less.prems assms(3) by auto
    show ?thesis
    proof (cases "is_graph_entry g a \<and> is_graph_entry g b")
      case True
      then have "a = r" "b = r" using o v by auto
      then show ?thesis using a b c True False by (subst idom_meet.simps) auto
    next
      case e: False
      have "pos j \<noteq> pos k" using o v(3,4) False by blast
      then have "pos a + pos b < pos j + pos k" using a(3-5) b(3,4) by (cases "pos k < pos j") auto
      then obtain m where m: "idom_meet g rpo f a b = Some (m, m)" "f m \<noteq> 0" "chain f m = chain f a \<inter> chain f b"
        using less.hyps a(2) b(2) by blast
      have "idom_meet g rpo f j k = Some (m, m)" using a(1) b(1) e False m(1) by (subst idom_meet.simps) auto
      then show ?thesis using m(2,3) c by auto
    qed
  qed
qed

definition meets :: "(nat \<Rightarrow> nat) \<Rightarrow> nat list \<Rightarrow> nat \<Rightarrow> nat \<Rightarrow> bool" where
  "meets f xs cand b =
     (if cand = 0 \<and> (\<forall>x\<in>set xs. f x = 0) then b = 0
      else f b \<noteq> 0 \<and> chain f b = {y. (cand \<noteq> 0 \<longrightarrow> y \<in> chain f cand) \<and> (\<forall>x\<in>set xs. f x \<noteq> 0 \<longrightarrow> y \<in> chain f x)})"

lemma idom_preds_correct:
  assumes "tree_order g rpo pos r" "idom_tree pos r f" "\<And>v. f v \<noteq> 0 \<Longrightarrow> v \<in> verts g"
  shows "cand = 0 \<or> f cand \<noteq> 0 \<Longrightarrow> \<exists>b. idom_preds g rpo f xs cand = Some b \<and> meets f xs cand b"
proof (induction xs arbitrary: cand)
  case Nil
  then show ?case by (auto simp: meets_def)
next
  case (Cons x xs)
  have nz: "0 \<notin> verts g" using assms(1) by (simp add: tree_order_def)
  show ?case
  proof (cases "f x = 0")
    case True
    then have "meets f (x # xs) cand b = meets f xs cand b" for b by (simp add: meets_def)
    then show ?thesis using Cons.IH [OF Cons.prems] True by simp
  next
    case x: False
    have xz: "x \<noteq> 0" using assms(3) [OF x] nz by (cases "x = 0") auto
    show ?thesis
    proof (cases "cand = 0")
      case True
      then have "meets f (x # xs) cand b = meets f xs x b" for b using x xz by (auto simp: meets_def)
      then show ?thesis using Cons.IH [of x] x True by simp
    next
      case False
      then obtain m where m: "idom_meet g rpo f x cand = Some (m, m)" "f m \<noteq> 0" "chain f m = chain f x \<inter> chain f cand"
        using idom_meet_correct [OF assms x] Cons.prems by blast
      have "m \<noteq> 0" using assms(3) [OF m(2)] nz by (cases "m = 0") auto
      then obtain b where "idom_preds g rpo f xs m = Some b" "f b \<noteq> 0"
          "chain f b = {y. y \<in> chain f m \<and> (\<forall>x\<in>set xs. f x \<noteq> 0 \<longrightarrow> y \<in> chain f x)}"
        using Cons.IH [of m] m(2) by (auto simp: meets_def)
      then show ?thesis using m x False by (auto simp: meets_def)
    qed
  qed
qed

end
