(* ===== verification/DomIdom.thy ===== *)
theory DomIdom
  imports DomProof
begin

text \<open>
  The passes of \<open>computeIdom2\<close> over the vertices in reverse post order: the invariant, its preservation by a visit, the
  end of the iteration, and that the result are the immediate dominators.
\<close>

section \<open>The invariant\<close>

definition idom_inv :: "Graph \<Rightarrow> (nat \<Rightarrow> nat) \<Rightarrow> nat \<Rightarrow> (nat \<Rightarrow> nat) \<Rightarrow> nat \<Rightarrow> bool" where
  "idom_inv g pos r f i \<longleftrightarrow>
     idom_tree pos r f \<and> (\<forall>v. f v \<noteq> 0 \<longrightarrow> v \<in> verts g) \<and>
     (\<forall>v w. f v \<noteq> 0 \<longrightarrow> w \<in> verts g \<longrightarrow> pos w < pos v \<longrightarrow> f w \<noteq> 0) \<and> (\<forall>w. w \<in> verts g \<longrightarrow> pos w < i \<longrightarrow> f w \<noteq> 0) \<and>
     (\<forall>v. f v \<noteq> 0 \<longrightarrow> dominators (edges g) r v \<subseteq> chain f v) \<and>
     (\<forall>v. f v \<noteq> 0 \<longrightarrow> v \<noteq> r \<longrightarrow> (f v, v) \<in> {(x, y) \<in> edges g. y \<notin> chain f (f v) - {f v}}\<^sup>*) \<and>
     (\<forall>v x. f v \<noteq> 0 \<longrightarrow> v \<noteq> r \<longrightarrow> (\<forall>p. (p, v) \<in> edges g \<longrightarrow> f p \<noteq> 0 \<longrightarrow> x \<in> chain f p) \<longrightarrow> x \<in> chain f (f v)) \<and>
     (\<forall>v p u. f v \<noteq> 0 \<longrightarrow> v \<noteq> r \<longrightarrow> (p, v) \<in> edges g \<longrightarrow> pos p < pos v \<longrightarrow> u \<in> chain f (f v) \<longrightarrow> pos v < i \<or> i \<le> pos u \<longrightarrow> u \<in> chain f p)"

lemma idom_invD:
  "idom_inv g pos r f i \<Longrightarrow> idom_tree pos r f" "idom_inv g pos r f i \<Longrightarrow> f v \<noteq> 0 \<Longrightarrow> v \<in> verts g"
  "idom_inv g pos r f i \<Longrightarrow> f v \<noteq> 0 \<Longrightarrow> w \<in> verts g \<Longrightarrow> pos w < pos v \<Longrightarrow> f w \<noteq> 0"
  "idom_inv g pos r f i \<Longrightarrow> w \<in> verts g \<Longrightarrow> pos w < i \<Longrightarrow> f w \<noteq> 0"
  "idom_inv g pos r f i \<Longrightarrow> f v \<noteq> 0 \<Longrightarrow> dominators (edges g) r v \<subseteq> chain f v"
  "idom_inv g pos r f i \<Longrightarrow> f v \<noteq> 0 \<Longrightarrow> v \<noteq> r \<Longrightarrow> (f v, v) \<in> {(x, y) \<in> edges g. y \<notin> chain f (f v) - {f v}}\<^sup>*"
  "idom_inv g pos r f i \<Longrightarrow> f v \<noteq> 0 \<Longrightarrow> v \<noteq> r \<Longrightarrow> \<forall>p. (p, v) \<in> edges g \<longrightarrow> f p \<noteq> 0 \<longrightarrow> x \<in> chain f p \<Longrightarrow> x \<in> chain f (f v)"
  "idom_inv g pos r f i \<Longrightarrow> f v \<noteq> 0 \<Longrightarrow> v \<noteq> r \<Longrightarrow> (p, v) \<in> edges g \<Longrightarrow> pos p < pos v \<Longrightarrow> u \<in> chain f (f v) \<Longrightarrow>
     pos v < i \<or> i \<le> pos u \<Longrightarrow> u \<in> chain f p"
  unfolding idom_inv_def by (elim conjE, blast)+

lemma idom_invI:
  assumes "idom_tree pos r f" "\<And>v. f v \<noteq> 0 \<Longrightarrow> v \<in> verts g"
    "\<And>v w. f v \<noteq> 0 \<Longrightarrow> w \<in> verts g \<Longrightarrow> pos w < pos v \<Longrightarrow> f w \<noteq> 0" "\<And>w. w \<in> verts g \<Longrightarrow> pos w < i \<Longrightarrow> f w \<noteq> 0"
    "\<And>v. f v \<noteq> 0 \<Longrightarrow> dominators (edges g) r v \<subseteq> chain f v"
    "\<And>v. f v \<noteq> 0 \<Longrightarrow> v \<noteq> r \<Longrightarrow> (f v, v) \<in> {(x, y) \<in> edges g. y \<notin> chain f (f v) - {f v}}\<^sup>*"
    "\<And>v x. f v \<noteq> 0 \<Longrightarrow> v \<noteq> r \<Longrightarrow> (\<And>p. (p, v) \<in> edges g \<Longrightarrow> f p \<noteq> 0 \<Longrightarrow> x \<in> chain f p) \<Longrightarrow> x \<in> chain f (f v)"
    "\<And>v p u. f v \<noteq> 0 \<Longrightarrow> v \<noteq> r \<Longrightarrow> (p, v) \<in> edges g \<Longrightarrow> pos p < pos v \<Longrightarrow> u \<in> chain f (f v) \<Longrightarrow> pos v < i \<or> i \<le> pos u \<Longrightarrow> u \<in> chain f p"
  shows "idom_inv g pos r f i"
  unfolding idom_inv_def by (intro conjI allI impI; (rule assms(1-6) | rule assms(7) | rule assms(8)); blast)

text \<open>From a vertex in the chain of \<open>w\<close> there is a way to \<open>w\<close> around what is above it.\<close>

lemma tree_path:
  assumes "idom_tree pos r f"
    "\<And>v. f v \<noteq> 0 \<Longrightarrow> v \<noteq> r \<Longrightarrow> (f v, v) \<in> {(x, y) \<in> E. y \<notin> chain f (f v) - {f v}}\<^sup>*"
  shows "f w \<noteq> 0 \<Longrightarrow> u \<in> chain f w \<Longrightarrow> (u, w) \<in> {(x, y) \<in> E. y \<notin> chain f u - {u}}\<^sup>*"
proof (induction "pos w" arbitrary: w rule: less_induct)
  case less
  show ?case
  proof (cases "u = w")
    case False
    then have r: "w \<noteq> r" using less.prems idom_tree_root [OF assms(1)] by auto
    note s = idom_tree_step [OF assms(1) less.prems(1) r]
    have u: "u \<in> chain f (f w)" using less.prems(2) False chain_unfold [of f w] by auto
    have 1: "(u, f w) \<in> {(x, y) \<in> E. y \<notin> chain f u - {u}}\<^sup>*" using less.hyps s u by blast
    have "chain f u - {u} \<subseteq> chain f (f w) - {f w}"
      using chain_trans [OF u] chain_down [OF assms(1) conjunct2 [OF s] u] chain_down [OF assms(1), of u "f w"] by auto
    then have "{(x, y) \<in> E. y \<notin> chain f (f w) - {f w}} \<subseteq> {(x, y) \<in> E. y \<notin> chain f u - {u}}" by auto
    then have "(f w, w) \<in> {(x, y) \<in> E. y \<notin> chain f u - {u}}\<^sup>*" using assms(2) [OF less.prems(1) r] rtrancl_mono by blast
    then show ?thesis using 1 by simp
  qed simp
qed

lemma idom_inv_new:
  assumes "tree_order g rpo pos r" "idom_inv g pos r f i" "v \<in> verts g" "pos v = i" "v \<noteq> r" "(p0, v) \<in> edges g" "pos p0 < pos v"
    "p0 \<in> verts g" "f b \<noteq> 0" "chain f b = {y. \<forall>p. (p, v) \<in> edges g \<longrightarrow> f p \<noteq> 0 \<longrightarrow> y \<in> chain f p}"
  shows "pos b < pos v" "b \<noteq> 0" "f v \<noteq> 0 \<longrightarrow> b \<in> chain f (f v)" "dominators (edges g) r v \<subseteq> insert v (chain f b)"
    "(b, v) \<in> {(x, y) \<in> edges g. y \<notin> chain f b - {b}}\<^sup>*"
proof -
  note D = idom_invD [OF assms(2)]
  have p0: "f p0 \<noteq> 0" using D(4) assms(4,7,8) by simp
  have bp: "b \<in> chain f p0" using assms(6,10) p0 chain_self [of b f] by auto
  then show pb: "pos b < pos v" using chain_down [OF D(1) p0 bp] assms(7) by auto
  show "b \<noteq> 0" using D(2) [OF assms(9)] assms(1) by (auto simp: tree_order_def)
  show "f v \<noteq> 0 \<longrightarrow> b \<in> chain f (f v)"
    using D(7) [of v b] assms(5,10) chain_self [of b f] by auto
  show "dominators (edges g) r v \<subseteq> insert v (chain f b)"
  proof
    fix x assume x: "x \<in> dominators (edges g) r v"
    have "x \<in> chain f p" if "(p, v) \<in> edges g" "f p \<noteq> 0" "x \<noteq> v" for p
      using dominators_pred [OF x that(3,1)] D(5) [OF that(2)] by auto
    then show "x \<in> insert v (chain f b)" using assms(10) by auto
  qed
  have "(b, p0) \<in> {(x, y) \<in> edges g. y \<notin> chain f b - {b}}\<^sup>*" by (rule tree_path [OF D(1) D(6) p0 bp])
  moreover have "v \<notin> chain f b" by (rule chain_not_above [OF D(1) assms(9) pb])
  ultimately show "(b, v) \<in> {(x, y) \<in> edges g. y \<notin> chain f b - {b}}\<^sup>*" using assms(6) by (auto intro: rtrancl_into_rtrancl)
qed

lemma idom_inv_step:
  assumes "tree_order g rpo pos r" "idom_inv g pos r f i" "v \<in> verts g" "pos v = i" "v \<noteq> r" "(p0, v) \<in> edges g" "pos p0 < pos v"
    "p0 \<in> verts g" "f b \<noteq> 0" "chain f b = {y. \<forall>p. (p, v) \<in> edges g \<longrightarrow> f p \<noteq> 0 \<longrightarrow> y \<in> chain f p}"
  shows "idom_inv g pos r (f(v := b)) (Suc i)"
proof -
  let ?h = "f(v := b)" and ?E = "edges g"
  note D = idom_invD [OF assms(2)]
  note n = idom_inv_new [OF assms]
  note U = chain_update [OF D(1) assms(5,9) n(1,3)]
  have tree: "idom_tree pos r ?h" by (rule idom_tree_update [OF D(1) assms(5,9) n(1,2)])
  have hb: "chain ?h b = chain f b" by (rule U(1) [OF assms(9) chain_not_above [OF D(1) assms(9) n(1)]])
  have old: "f w \<noteq> 0" if "?h w \<noteq> 0" "w \<noteq> v" for w using that by simp
  have fix_low: "chain ?h w = chain f w" if "f w \<noteq> 0" "pos w < pos v" for w
    by (rule U(1) [OF that(1) chain_not_above [OF D(1) that]])
  have down: "f (f w) \<noteq> 0 \<and> pos (f w) < pos w" if "f w \<noteq> 0" "w \<noteq> r" for w using idom_tree_step [OF D(1) that] by simp
  have dom: "dominators ?E r w \<subseteq> chain ?h w" if hw: "?h w \<noteq> 0" for w
  proof (cases "w = v")
    case True
    then show ?thesis using n(4) U(2) by simp
  next
    case False
    note fw = old [OF hw False]
    show ?thesis
    proof
      fix x assume x: "x \<in> dominators ?E r w"
      then have xc: "x \<in> chain f w" using D(5) [OF fw] by auto
      show "x \<in> chain ?h w"
      proof (rule ccontr)
        assume "x \<notin> chain ?h w"
        note c = U(4) [OF fw xc this]
        then have fv: "f v \<noteq> 0" using chain_down [OF D(1) fw] by blast
        have xv: "pos x < pos v" using chain_down [OF D(1) _ conjunct1 [OF conjunct2 [OF c]]] down [OF fv assms(5)] by auto
        then have "x \<notin> dominators ?E r v" using n(4) c by auto
        then have xr: "x \<noteq> r" "(r, v) \<in> (around ?E x)\<^sup>*" by (auto simp: dominators_def)
        have "x \<in> chain f v - {v}" using c xv chain_unfold [of f v] by auto
        then have "(v, w) \<in> (around ?E x)\<^sup>*"
          using around_path [OF tree_path [OF D(1) D(6) fw conjunct1 [OF c]]] xv by blast
        then have "(r, w) \<in> (around ?E x)\<^sup>*" using xr(2) by simp
        then show False using x xr(1) by (simp add: dominators_def)
      qed
    qed
  qed
  have path: "(?h w, w) \<in> {(x, y) \<in> ?E. y \<notin> chain ?h (?h w) - {?h w}}\<^sup>*" if hw: "?h w \<noteq> 0" "w \<noteq> r" for w
  proof (cases "w = v")
    case True
    then show ?thesis using n(5) hb by simp
  next
    case False
    note fw = old [OF hw(1) False]
    have "chain ?h (f w) \<subseteq> chain f (f w)" by (rule U(3)) (use down [OF fw hw(2)] in simp)
    then have "{(x, y) \<in> ?E. y \<notin> chain f (f w) - {f w}}\<^sup>* \<subseteq> {(x, y) \<in> ?E. y \<notin> chain ?h (f w) - {f w}}\<^sup>*"
      by (intro rtrancl_mono) auto
    then have "(f w, w) \<in> {(x, y) \<in> ?E. y \<notin> chain ?h (f w) - {f w}}\<^sup>*" using D(6) [OF fw hw(2)] by (rule subsetD)
    moreover have "?h w = f w" using False by simp
    ultimately show ?thesis by simp
  qed
  have meet: "x \<in> chain ?h (?h w)" if hw: "?h w \<noteq> 0" "w \<noteq> r" and all: "\<And>p. (p, w) \<in> ?E \<Longrightarrow> ?h p \<noteq> 0 \<Longrightarrow> x \<in> chain ?h p" for w x
  proof (cases "w = v")
    case True
    have "x \<in> chain f p" if "(p, v) \<in> ?E" "f p \<noteq> 0" for p
      using all [of p] that True n(2) U(3) [OF that(2)] by auto
    then show ?thesis using True hb assms(10) by simp
  next
    case False
    note fw = old [OF hw(1) False]
    have allf: "x \<in> chain f p" if "(p, w) \<in> ?E" "f p \<noteq> 0" for p
      using all [of p] that n(2) U(3) [OF that(2)] by auto
    have xc: "x \<in> chain f (f w)" using D(7) [OF fw hw(2)] allf by blast
    show ?thesis
    proof (rule ccontr)
      assume "x \<notin> chain ?h (?h w)"
      then have xn: "x \<notin> chain ?h (f w)" using False by simp
      note dw = down [OF fw hw(2)]
      note c = U(4) [OF conjunct1 [OF dw] xc xn]
      have fv: "f v \<noteq> 0" "pos v < pos w" using chain_down [OF D(1) conjunct1 [OF dw]] c dw by fastforce+
      obtain p where p: "(p, w) \<in> ?E" "pos p < pos w" "p \<in> verts g"
        using assms(1) hw(2) D(2) [OF fw] unfolding tree_order_def by blast
      have fp: "f p \<noteq> 0" by (rule D(3) [OF fw p(3,2)])
      have vp: "v \<in> chain f p" by (rule D(8) [OF fw hw(2) p(1,2) conjunct1 [OF c]]) (use assms(4) in simp)
      have "x \<in> chain ?h p" by (rule all [OF p(1)]) (use fp n(2) in simp)
      then have "x \<in> chain f b"
        using chain_update_gone [OF D(1) assms(5,9) n(1) fv(1) _ n(2) fp vp] n(3) fv(1) c by blast
      then show False using c by blast
    qed
  qed
  have forward: "u \<in> chain ?h p"
    if hw: "?h w \<noteq> 0" "w \<noteq> r" and p: "(p, w) \<in> ?E" "pos p < pos w" and u: "u \<in> chain ?h (?h w)" "pos w < Suc i \<or> Suc i \<le> pos u" for w p u
  proof -
    have pv: "p \<in> verts g" "w \<in> verts g" using p(1) graph_wf_edge assms(1) by (auto simp: tree_order_def)
    show ?thesis
    proof (cases "w = v")
      case True
      have fp: "f p \<noteq> 0" using D(4) [OF pv(1)] p(2) True assms(4) by simp
      have "u \<in> chain f b" using u(1) True hb by simp
      then have "u \<in> chain f p" using assms(10) p(1) True fp by blast
      then show ?thesis using fix_low [OF fp] p(2) True by simp
    next
      case False
      note fw = old [OF hw(1) False]
      have fp: "f p \<noteq> 0" by (rule D(3) [OF fw pv(1) p(2)])
      have uf: "u \<in> chain f (f w)" using u(1) False U(3) [OF conjunct1 [OF down [OF fw hw(2)]]] by auto
      have "pos w \<noteq> pos v" using assms(1,3) pv(2) False unfolding tree_order_def by blast
      then consider "pos w < i" | "Suc i \<le> pos u" using u(2) assms(4) by linarith
      then show ?thesis
      proof cases
        case 1
        then have "u \<in> chain f p" using D(8) [OF fw hw(2) p uf] by blast
        then show ?thesis using fix_low [OF fp] p(2) 1 assms(4) by simp
      next
        case 2
        then have up: "u \<in> chain f p" using D(8) [OF fw hw(2) p uf] by simp
        show ?thesis
        proof (rule ccontr)
          assume "u \<notin> chain ?h p"
          note c = U(4) [OF fp up this]
          then have fv: "f v \<noteq> 0" using chain_down [OF D(1) fp] by blast
          then have "pos u < pos v" using chain_down [OF D(1) _ conjunct1 [OF conjunct2 [OF c]]] down [OF fv assms(5)] by auto
          then show False using 2 assms(4) by simp
        qed
      qed
    qed
  qed
  show ?thesis
  proof (rule idom_invI)
    fix w assume hw: "?h w \<noteq> 0"
    show "w \<in> verts g" using D(2) old [OF hw] assms(3) by (cases "w = v") auto
    fix z assume z: "z \<in> verts g" "pos z < pos w"
    have "f z \<noteq> 0" if "z \<noteq> v"
    proof (cases "w = v")
      case True
      then show ?thesis using D(4) [OF z(1)] z(2) assms(4) by simp
    next
      case False
      then show ?thesis using D(3) [OF old [OF hw False] z] by simp
    qed
    then show "?h z \<noteq> 0" using n(2) by simp
  next
    fix w assume w: "w \<in> verts g" "pos w < Suc i"
    have "f w \<noteq> 0" if "w \<noteq> v"
    proof -
      have "pos w \<noteq> pos v" using assms(1,3) w(1) that unfolding tree_order_def by blast
      then show ?thesis using D(4) [OF w(1)] w(2) assms(4) by simp
    qed
    then show "?h w \<noteq> 0" using n(2) by simp
  qed (fact tree, fact dom, fact path, fact meet, fact forward)
qed

section \<open>A pass\<close>

definition weight :: "Graph \<Rightarrow> (nat \<Rightarrow> nat) \<Rightarrow> (nat \<Rightarrow> nat) \<Rightarrow> nat \<Rightarrow> nat" where
  "weight g pos f v = (if f v = 0 then card (verts g) else pos (f v))"

definition weights :: "Graph \<Rightarrow> (nat \<Rightarrow> nat) \<Rightarrow> (nat \<Rightarrow> nat) \<Rightarrow> nat" where
  "weights g pos f = (\<Sum>v\<in>verts g. weight g pos f v)"

lemma weights_update:
  assumes "graph_wf g" "v \<in> verts g" "weight g pos (f(v := b)) v < weight g pos f v"
  shows "weights g pos (f(v := b)) < weights g pos f"
proof -
  have "weights g pos h = weight g pos h v + (\<Sum>w\<in>verts g - {v}. weight g pos h w)" for h
    unfolding weights_def by (rule sum.remove [OF graph_wf_finite [OF assms(1)] assms(2)])
  moreover have "(\<Sum>w\<in>verts g - {v}. weight g pos (f(v := b)) w) = (\<Sum>w\<in>verts g - {v}. weight g pos f w)"
    by (rule sum.cong) (auto simp: weight_def)
  ultimately show ?thesis using assms(3) by simp
qed

definition fixed_at :: "Graph \<Rightarrow> (nat \<Rightarrow> nat) \<Rightarrow> nat \<Rightarrow> bool" where
  "fixed_at g f v \<longleftrightarrow> chain f (f v) = {y. \<forall>p. (p, v) \<in> edges g \<longrightarrow> f p \<noteq> 0 \<longrightarrow> y \<in> chain f p}"

lemma idom_visit_correct:
  assumes "tree_order g rpo pos r" "idom_inv g pos r f i" "v \<in> verts g" "pos v = i" "v \<noteq> r" "i < card (verts g)"
  shows "\<exists>b. idom_visit g rpo v (ch, f) = Some (ch \<or> f v \<noteq> b, f(v := b)) \<and> idom_inv g pos r (f(v := b)) (Suc i) \<and>
    (f v \<noteq> b \<longrightarrow> weights g pos (f(v := b)) < weights g pos f) \<and> (f v = b \<longrightarrow> fixed_at g f v)"
proof -
  note D = idom_invD [OF assms(2)] and o = assms(1) [unfolded tree_order_def]
  have wf: "graph_wf g" using o by simp
  obtain p0 where p0: "p0 \<in> verts g" "(p0, v) \<in> edges g" "pos p0 < pos v" using o assms(3,5) by blast
  have ins: "set (getInList g v) = {p. (p, v) \<in> edges g}" by (rule in_list_set [OF wf])
  obtain b where b: "idom_preds g rpo f (getInList g v) 0 = Some b" "meets f (getInList g v) 0 b"
    using idom_preds_correct [OF assms(1) D(1,2), of 0 "getInList g v"] by blast
  have "f p0 \<noteq> 0" using D(4) p0 assms(4) by simp
  moreover have "p0 \<in> set (getInList g v)" using p0(2) ins by simp
  ultimately have ex: "\<not> (\<forall>x\<in>set (getInList g v). f x = 0)" by auto
  have fb: "f b \<noteq> 0" "chain f b = {y. \<forall>p. (p, v) \<in> edges g \<longrightarrow> f p \<noteq> 0 \<longrightarrow> y \<in> chain f p}"
    using b(2) ex ins unfolding meets_def by auto
  note n = idom_inv_new [OF assms(1-5) p0(2,3,1) fb]
  have "\<not> is_graph_entry g v" using o assms(3,5) by blast
  then have vis: "idom_visit g rpo v (ch, f) = Some (ch \<or> f v \<noteq> b, f(v := b))"
    using b(1) n(2) by (auto simp: idom_visit_def)
  have "weight g pos (f(v := b)) v < weight g pos f v" if "f v \<noteq> b"
  proof (cases "f v = 0")
    case True
    then show ?thesis using n(1,2) assms(4,6) by (simp add: weight_def)
  next
    case False
    have "pos b < pos (f v)"
      using chain_down [OF D(1) conjunct2 [OF idom_tree_step [OF D(1) False assms(5)]], of b] n(3) False that by auto
    then show ?thesis using n(2) False by (simp add: weight_def)
  qed
  then have w: "f v \<noteq> b \<longrightarrow> weights g pos (f(v := b)) < weights g pos f" using weights_update [OF wf assms(3)] by blast
  have "f v = b \<longrightarrow> fixed_at g f v" using fb(2) by (auto simp: fixed_at_def)
  then show ?thesis using vis w idom_inv_step [OF assms(1-5) p0(2,3,1) fb] by blast
qed

lemma idom_pass_correct:
  assumes "tree_order g rpo pos r"
  shows "idom_inv g pos r f i \<Longrightarrow> 0 < i \<Longrightarrow> set vs \<subseteq> verts g \<Longrightarrow> (\<forall>k<length vs. pos (vs ! k) = i + k) \<Longrightarrow> i + length vs = card (verts g) \<Longrightarrow> pos r = 0 \<Longrightarrow>
    \<exists>c h. idom_pass g rpo vs (ch, f) = Some (c, h) \<and> idom_inv g pos r h (card (verts g)) \<and> (ch \<longrightarrow> c) \<and>
      (c \<and> \<not> ch \<longrightarrow> weights g pos h < weights g pos f) \<and> weights g pos h \<le> weights g pos f \<and> (\<not> c \<longrightarrow> h = f \<and> (\<forall>v\<in>set vs. fixed_at g f v))"
proof (induction vs arbitrary: f i ch)
  case (Cons v vs)
  have v: "v \<in> verts g" "pos v = i" "i < card (verts g)" using Cons.prems by auto
  have r: "v \<noteq> r" using v(2) Cons.prems(2,6) by auto
  obtain b where b: "idom_visit g rpo v (ch, f) = Some (ch \<or> f v \<noteq> b, f(v := b))" "idom_inv g pos r (f(v := b)) (Suc i)"
      "f v \<noteq> b \<longrightarrow> weights g pos (f(v := b)) < weights g pos f" "f v = b \<longrightarrow> fixed_at g f v"
    using idom_visit_correct [OF assms Cons.prems(1) v(1,2) r v(3)] by blast
  define f1 where "f1 = f(v := b)"
  define c1 where "c1 \<longleftrightarrow> ch \<or> f v \<noteq> b"
  note b = b [folded f1_def c1_def]
  have same: "f v = b \<Longrightarrow> f1 = f" by (auto simp: f1_def)
  have p: "\<forall>k<length vs. pos (vs ! k) = Suc i + k" using Cons.prems(4) by fastforce
  have q: "set vs \<subseteq> verts g" "Suc i + length vs = card (verts g)" using Cons.prems(3,5) by auto
  obtain c h where h: "idom_pass g rpo vs (c1, f1) = Some (c, h)" "idom_inv g pos r h (card (verts g))"
      "c1 \<longrightarrow> c" "c \<and> \<not> c1 \<longrightarrow> weights g pos h < weights g pos f1" "weights g pos h \<le> weights g pos f1"
      "\<not> c \<longrightarrow> h = f1 \<and> (\<forall>v\<in>set vs. fixed_at g f1 v)"
    using Cons.IH [OF b(2) _ q(1) p q(2) Cons.prems(6), of c1] by blast
  have "idom_pass g rpo (v # vs) (ch, f) = Some (c, h)" using b(1) h(1) by simp
  moreover have "ch \<longrightarrow> c" using h(3) c1_def by blast
  moreover have "weights g pos h \<le> weights g pos f" using h(5) b(3) same by (cases "f v = b") auto
  moreover have "c \<and> \<not> ch \<longrightarrow> weights g pos h < weights g pos f" using h(4,5) b(3) same c1_def by (cases "f v = b") auto
  moreover have "\<not> c \<longrightarrow> h = f \<and> (\<forall>v\<in>set (v # vs). fixed_at g f v)" using h(3,6) b(4) same c1_def by auto
  ultimately show ?case using h(2) by blast
qed auto

section \<open>The iteration\<close>

text \<open>The first visit of a pass sets the entry, which starts the tree.\<close>

lemma idom_inv_start:
  assumes "tree_order g rpo pos r" "pos r = 0"
  shows "idom_inv g pos r ((\<lambda>v. 0)(r := r)) 1"
proof -
  let ?f = "(\<lambda>v. 0)(r := r)"
  note o = assms(1) [unfolded tree_order_def]
  have r: "r \<noteq> 0" "r \<in> verts g" using o by auto
  have c: "chain ?f r = {r}" by (rule chain_fix) simp
  have d: "dominators (edges g) r r \<subseteq> {r}" by (auto simp: dominators_def)
  have z: "w = r" if "w \<in> verts g" "pos w < 1" for w using o that assms(2) by fastforce
  show ?thesis
  proof (rule idom_invI)
    show "idom_tree pos r ?f" using r by (simp add: idom_tree_def)
    fix v assume v: "?f v \<noteq> 0"
    then have vr: "v = r" by (simp split: if_splits)
    show "v \<in> verts g" using vr r by simp
    show "dominators (edges g) r v \<subseteq> chain ?f v" using vr c d by simp
    show "?f w \<noteq> 0" if "w \<in> verts g" "pos w < pos v" for w using that vr assms(2) by simp
  qed (use z r in \<open>simp_all split: if_splits\<close>)
qed

lemma idom_inv_restart:
  assumes "idom_inv g pos r f (card (verts g))" "\<And>v. v \<in> verts g \<Longrightarrow> pos v < card (verts g)"
  shows "idom_inv g pos r f 1"
proof -
  note D = idom_invD [OF assms(1)]
  have all: "f w \<noteq> 0" if "w \<in> verts g" for w using D(4) assms(2) that by blast
  show ?thesis
  proof (rule idom_invI)
    fix v p u assume "f v \<noteq> 0" "v \<noteq> r" "(p, v) \<in> edges g" "pos p < pos v" "u \<in> chain f (f v)"
    then show "u \<in> chain f p" using D(8) D(2) assms(2) by blast
  next
    show "\<And>v x. f v \<noteq> 0 \<Longrightarrow> v \<noteq> r \<Longrightarrow> (\<And>p. (p, v) \<in> edges g \<Longrightarrow> f p \<noteq> 0 \<Longrightarrow> x \<in> chain f p) \<Longrightarrow> x \<in> chain f (f v)"
      using D(7) by blast
  qed (use D(1-6) all in blast)+
qed

text \<open>A list in reverse post order of a graph in which the root reaches every vertex.\<close>

definition flow_list :: "Graph \<Rightarrow> (nat \<Rightarrow> int) \<Rightarrow> nat \<Rightarrow> nat list \<Rightarrow> bool" where
  "flow_list g rpo r l \<longleftrightarrow>
     graph_wf g \<and> 0 \<notin> verts g \<and> is_graph_entry g r \<and> rpo_list_ok g r l \<and> set l = verts g \<and>
     (\<forall>i<length l. \<forall>j<length l. rpo (l ! i) < rpo (l ! j) \<longleftrightarrow> i < j)"

lemma flow_list_order:
  assumes "flow_list g rpo r l"
  shows "tree_order g rpo (\<lambda>v. list_pos v l) r" "list_pos r l = 0" "length l = card (verts g)"
    "\<And>k. k < length l \<Longrightarrow> list_pos (l ! k) l = k" "\<exists>vs. l = r # vs"
proof -
  note f = assms [unfolded flow_list_def] and lo = assms [unfolded flow_list_def rpo_list_ok_def]
  have d: "distinct l" and s: "set l = verts g" and wf: "graph_wf g" using lo by blast+
  have ro: "rpo (l ! i) < rpo (l ! j) \<longleftrightarrow> i < j" if "i < length l" "j < length l" for i j
    using assms that unfolding flow_list_def by (elim conjE) simp
  show n: "length l = card (verts g)" using d s distinct_card by metis
  show pk: "list_pos (l ! k) l = k" if "k < length l" for k
    by (metis that d list_pos_nth nth_eq_iff_index_eq nth_mem)
  show hd: "\<exists>vs. l = r # vs" using lo by (cases l) auto
  then show r0: "list_pos r l = 0" by (auto simp: list_pos_def)
  have nth: "list_pos v l < length l" "l ! list_pos v l = v" if "v \<in> verts g" for v using list_pos_nth [of v l] s that by simp_all
  show "tree_order g rpo (\<lambda>v. list_pos v l) r"
    unfolding tree_order_def
  proof (intro conjI ballI impI)
    show "graph_wf g" "0 \<notin> verts g" using f by blast+
    obtain vs where "l = r # vs" using hd by blast
    then have "r \<in> set l" by simp
    then show "r \<in> verts g" unfolding s .
    fix x assume x: "x \<in> verts g"
    have pred: "\<exists>p\<in>verts g. (p, x) \<in> edges g \<and> list_pos p l < list_pos x l" if "x \<noteq> r"
    proof -
      obtain as bs where a: "l = as @ x # bs" using x s by (metis split_list)
      then have "as \<noteq> []" using hd that by auto
      then obtain p where p: "p \<in> set as" "(p, x) \<in> edges g" using lo a by blast
      have "x \<notin> set as" using d a by auto
      then have "list_pos x l = length as" "list_pos p l < length as" using a p(1) list_pos_nth [of p as]
        by (simp_all add: list_pos_append) (simp add: list_pos_def)
      then show ?thesis using p s a by auto
    qed
    then show "\<exists>p\<in>verts g. (p, x) \<in> edges g \<and> list_pos p l < list_pos x l" if "x \<noteq> r" using that by blast
    show "list_pos r l < list_pos x l" if "x \<noteq> r" using nth(2) [OF x] nth(2) [OF \<open>r \<in> verts g\<close>] r0 that by (metis gr0I)
    show "is_graph_entry g x \<longleftrightarrow> x = r"
    proof
      assume "is_graph_entry g x"
      then have "(p, x) \<notin> edges g" for p using in_list_set [OF wf, of x] by (auto simp: is_graph_entry_def)
      then show "x = r" using pred by blast
    qed (use f in simp)
    fix y assume y: "y \<in> verts g"
    have "rpo (l ! list_pos x l) < rpo (l ! list_pos y l) \<longleftrightarrow> list_pos x l < list_pos y l" 
      by (rule ro [OF nth(1) [OF x] nth(1) [OF y]])
    then show "rpo x < rpo y \<longleftrightarrow> list_pos x l < list_pos y l" by (simp only: nth(2) [OF x] nth(2) [OF y])
    show "x = y" if "list_pos x l = list_pos y l" using nth(2) [OF x] nth(2) [OF y] that by metis
  qed
qed

lemma full_pass:
  assumes "flow_list g rpo r l" "f = (\<lambda>v. 0) \<or> idom_inv g (\<lambda>v. list_pos v l) r f (card (verts g))"
  shows "\<exists>c h. computeIdomForFullGraph g rpo l f = Some (c, h) \<and> idom_inv g (\<lambda>v. list_pos v l) r h (card (verts g)) \<and>
    (c \<longrightarrow> weights g (\<lambda>v. list_pos v l) h < weights g (\<lambda>v. list_pos v l) f) \<and> (\<not> c \<longrightarrow> (\<forall>v\<in>verts g. v \<noteq> r \<longrightarrow> fixed_at g h v))"
proof -
  let ?pos = "\<lambda>v. list_pos v l"
  note o = flow_list_order [OF assms(1)]
  obtain vs where vs: "l = r # vs" using o(5) by blast
  have e: "is_graph_entry g r" and s: "set l = verts g" and wf: "graph_wf g" using assms(1) by (auto simp: flow_list_def)
  let ?f = "f(r := r)"
  have pl: "list_pos v l < card (verts g)" if "v \<in> verts g" for v using list_pos_nth [of v l] that s o(3) by simp
  have inv: "idom_inv g ?pos r ?f 1"
  proof (cases "f = (\<lambda>v. 0)")
    case True
    then show ?thesis using idom_inv_start [OF o(1,2)] by simp
  next
    case False
    then have i: "idom_inv g ?pos r f (card (verts g))" using assms(2) by blast
    then have "f r = r" using idom_invD(1) idom_tree_root by blast
    then have "?f = f" by auto
    then show ?thesis using idom_inv_restart [OF i pl] by simp
  qed
  have "\<forall>k<length vs. ?pos (vs ! k) = 1 + k" using o(4) vs by (metis Suc_less_eq length_Cons nth_Cons_Suc plus_1_eq_Suc)
  moreover have "set vs \<subseteq> verts g" "1 + length vs = card (verts g)" using s o(3) vs by auto
  ultimately obtain c h where h: "idom_pass g rpo vs (False, ?f) = Some (c, h)" "idom_inv g ?pos r h (card (verts g))"
      "c \<longrightarrow> weights g ?pos h < weights g ?pos ?f" "\<not> c \<longrightarrow> h = ?f \<and> (\<forall>v\<in>set vs. fixed_at g ?f v)"
    using idom_pass_correct [OF o(1) inv, of vs False] o(2) by auto
  have "weight g ?pos ?f v \<le> weight g ?pos f v" for v
    using o(2) by (auto simp: weight_def) (use idom_invD(1) idom_tree_root assms(2) in \<open>fastforce\<close>)?
  then have "weights g ?pos ?f \<le> weights g ?pos f" unfolding weights_def by (intro sum_mono)
  moreover have "computeIdomForFullGraph g rpo l f = Some (c, h)"
    using h(1) e vs by (simp add: computeIdomForFullGraph_def idom_visit_def)
  moreover have "fixed_at g h v" if "\<not> c" "v \<in> verts g" "v \<noteq> r" for v using h(4) that s vs by auto
  ultimately show ?thesis using h(2,3) by fastforce
qed

lemma fixed_chain:
  assumes "flow_list g rpo r l" "idom_inv g (\<lambda>v. list_pos v l) r f (card (verts g))" "\<And>v. v \<in> verts g \<Longrightarrow> v \<noteq> r \<Longrightarrow> fixed_at g f v"
    "v \<in> verts g"
  shows "chain f v = dominators (edges g) r v"
proof
  note D = idom_invD [OF assms(2)]
  have wf: "graph_wf g" and s: "set l = verts g" and e: "is_graph_entry g r" using assms(1) by (auto simp: flow_list_def)
  note o = flow_list_order [OF assms(1)]
  have all: "f w \<noteq> 0" if "w \<in> verts g" for w using D(4) list_pos_nth [of w l] that s o(3) by simp
  show "dominators (edges g) r v \<subseteq> chain f v" by (rule D(5) [OF all [OF assms(4)]])
  show "chain f v \<subseteq> dominators (edges g) r v"
  proof (rule solution_dominates)
    show "chain f r = {r}" using idom_tree_root [OF D(1)] by blast
    fix w p assume p: "(p, w) \<in> edges g"
    have w: "w \<in> verts g" "p \<in> verts g" using graph_wf_edge [OF wf p] by simp_all
    have "w \<noteq> r" using e p in_list_set [OF wf, of r] by (auto simp: is_graph_entry_def)
    then have "chain f (f w) \<subseteq> chain f p" using assms(3) [OF w(1)] p all [OF w(2)] by (auto simp: fixed_at_def)
    then show "chain f w \<subseteq> insert w (chain f p)" using chain_unfold [of f w] by auto
  qed
qed

lemma fold_clear: "fold (\<lambda>v f. f(v := 0)) vs f = (\<lambda>v. if v \<in> set vs then 0 else f v)"
  by (induction vs arbitrary: f) (auto simp: fun_eq_iff)

lemma computeIdom2_correct:
  assumes "flow_list g rpo r l"
  shows "\<exists>idoms. computeIdom2 g rpo l = Some idoms \<and> idoms r = 0 \<and> (\<forall>v. v \<notin> verts g \<longrightarrow> idoms v = 0) \<and>
    (\<forall>v\<in>verts g. v \<noteq> r \<longrightarrow> idoms v \<in> dominators (edges g) r v \<and> idoms v \<noteq> v \<and> list_pos (idoms v) l < list_pos v l \<and>
       dominators (edges g) r v = insert v (dominators (edges g) r (idoms v)))"
proof -
  let ?pos = "\<lambda>v. list_pos v l"
  let ?b = "\<lambda>s. case s of Some (changed :: bool, idoms :: nat \<Rightarrow> nat) \<Rightarrow> changed | None \<Rightarrow> False"
  let ?c = "\<lambda>s. Option.bind s (\<lambda>(changed :: bool, idoms). computeIdomForFullGraph g rpo l idoms)"
  let ?P = "\<lambda>s. \<exists>c f. s = Some (c, f) \<and> (f = (\<lambda>v. 0) \<and> c \<or> idom_inv g ?pos r f (card (verts g))) \<and>
      (\<not> c \<longrightarrow> (\<forall>v\<in>verts g. v \<noteq> r \<longrightarrow> fixed_at g f v))"
  let ?m = "\<lambda>s. case s of None \<Rightarrow> 0 | Some (c, f) \<Rightarrow> if c then Suc (weights g ?pos f) else 0"
  have st: "?P (?c s) \<and> ?m (?c s) < ?m s" if sb: "?P s \<and> ?b s" for s
  proof -
    obtain f where f: "s = Some (True, f)" "f = (\<lambda>v. 0) \<or> idom_inv g ?pos r f (card (verts g))" using sb by auto
    obtain c h where "computeIdomForFullGraph g rpo l f = Some (c, h)" "idom_inv g ?pos r h (card (verts g))"
        "c \<longrightarrow> weights g ?pos h < weights g ?pos f" "\<not> c \<longrightarrow> (\<forall>v\<in>verts g. v \<noteq> r \<longrightarrow> fixed_at g h v)"
      using full_pass [OF assms f(2)] by blast
    then show ?thesis using f(1) by auto
  qed
  have init: "?P (Some (True, \<lambda>v. 0))" by (intro exI [of _ True] exI [of _ "\<lambda>v. 0"]) simp
  have "\<exists>s. while_option ?b ?c (Some (True, \<lambda>v. 0)) = Some s"
  proof (rule measure_while_option_Some [where P = ?P and f = ?m])
    fix s assume "?P s" "?b s"
    then show "?P (?c s) \<and> ?m (?c s) < ?m s" by (intro st conjI)
  qed (rule init)
  then obtain s where s: "while_option ?b ?c (Some (True, \<lambda>v. 0)) = Some s" by blast
  have "?P s"
  proof (rule while_option_rule [OF _ s])
    fix s assume "?P s" "?b s"
    then show "?P (?c s)" by (intro conjunct1 [OF st] conjI)
  qed (rule init)
  moreover have "\<not> ?b s" using while_option_stop [OF s] by simp
  ultimately obtain f where f: "s = Some (False, f)" "idom_inv g ?pos r f (card (verts g))"
      "\<forall>v\<in>verts g. v \<noteq> r \<longrightarrow> fixed_at g f v" by auto
  have wf: "graph_wf g" and r: "r \<in> verts g" and en: "\<forall>v\<in>verts g. is_graph_entry g v \<longleftrightarrow> v = r"
    using flow_list_order(1) [OF assms] unfolding tree_order_def by blast+
  have "set (computeEntryList g) = {r}" using en r wf by (auto simp: computeEntryList_def graph_wf_def)
  then have res: "computeIdom2 g rpo l = Some (f(r := 0))"
    using s f(1) fold_clear [of "computeEntryList g" f] by (auto simp: computeIdom2_def fun_upd_def)
  note D = idom_invD [OF f(2)]
  have ch: "chain f v = dominators (edges g) r v" if "v \<in> verts g" for v
    by (rule fixed_chain [OF assms f(2) _ that]) (use f(3) in blast)
  have "f v \<in> dominators (edges g) r v \<and> f v \<noteq> v \<and> ?pos (f v) < ?pos v \<and>
      dominators (edges g) r v = insert v (dominators (edges g) r (f v))" if v: "v \<in> verts g" "v \<noteq> r" for v
  proof -
    have "f v \<noteq> 0" using D(4) [OF v(1)] list_pos_nth [of v l] v(1) flow_list_order(3) [OF assms] assms by (simp add: flow_list_def)
    note t = idom_tree_step [OF D(1) this v(2)]
    then have fv: "f v \<in> verts g" using D(2) by blast
    have "f v \<in> chain f v" using chain_unfold [of f v] by auto
    then show ?thesis using t ch [OF v(1)] ch [OF fv] chain_unfold [of f v] by auto
  qed
  moreover have "f v = 0" if "v \<notin> verts g" for v using D(2) [of v] that by blast
  ultimately show ?thesis using res by (intro exI [of _ "f(r := 0)"]) (auto simp: dominators_self)
qed

end
