(* ===== verification/GraphTopo.thy ===== *)
theory GraphTopo
  imports GraphSearch Vector
begin

text \<open>
  \<open>Graph::sortInTopologOrder\<close> of \<^verbatim>\<open>src/com/sgraph.cpp\<close>: the vertices without a predecessor that is not sorted yet are
  taken one after the other. The result vector is the \<open>Vector\<close> of the development; the null pointer is the id 0, which
  no vertex has. The sort succeeds exactly on the graphs without a cycle.
\<close>

record TopoState =
  ts_ready :: "nat list"
  ts_removed :: "nat set"
  ts_vec :: "nat Vector"
  ts_pos :: nat

definition topo_step :: "Graph \<Rightarrow> TopoState \<Rightarrow> TopoState" where
  "topo_step g s =
     (let ready = hd (ts_ready s);
          removed = insert ready (ts_removed s);
          new = filter (\<lambda>out. length (filter (\<lambda>x. x \<notin> removed) (getInList g out)) = 0) (getOutList g ready)
      in \<lparr>ts_ready = List.tl (ts_ready s) @ new, ts_removed = removed, ts_vec = vec_set (ts_vec s) (ts_pos s) ready,
          ts_pos = ts_pos s + 1\<rparr>)"

definition sortInTopologOrder :: "Graph \<Rightarrow> nat Vector \<Rightarrow> (bool \<times> nat Vector) option" where
  "sortInTopologOrder g vex_vec =
     (if getVertexNum g = 0 then Some (True, vex_vec)
      else map_option (\<lambda>s. (ts_pos s = getVertexNum g, ts_vec s))
             (while_option (\<lambda>s. ts_ready s \<noteq> []) (topo_step g)
               \<lparr>ts_ready = filter (\<lambda>v. getInDegree g v = 0) (g_order g), ts_removed = {},
                ts_vec = vec_set vex_vec (getVertexNum g - 1) 0, ts_pos = 0\<rparr>))"

section \<open>Topological orders\<close>

definition topological :: "(nat \<times> nat) set \<Rightarrow> nat list \<Rightarrow> bool" where
  "topological E l \<longleftrightarrow> (\<forall>(u, x) \<in> E. x \<in> set l \<longrightarrow> u \<in> set l \<and> list_pos u l < list_pos x l)"

lemma list_pos_hit [simp]: "list_pos x [x] = 0" by (simp add: list_pos_def)

lemma topological_snoc:
  assumes "topological E l" "\<And>u. (u, x) \<in> E \<Longrightarrow> u \<in> set l" "x \<notin> set l"
  shows "topological E (l @ [x])"
  unfolding topological_def
proof (intro ballI, clarify)
  fix u y assume e: "(u, y) \<in> E" "y \<in> set (l @ [x])"
  show "u \<in> set (l @ [x]) \<and> list_pos u (l @ [x]) < list_pos y (l @ [x])"
  proof (cases "y = x")
    case True
    then have "u \<in> set l" using assms(2) e(1) by simp
    then show ?thesis using True assms(3) list_pos_nth [of u l] by (simp add: list_pos_append)
  next
    case False
    then have "y \<in> set l" using e(2) by simp
    moreover from this have "u \<in> set l \<and> list_pos u l < list_pos y l" using assms(1) e(1) by (auto simp: topological_def)
    ultimately show ?thesis by (simp add: list_pos_append)
  qed
qed

lemma topological_acyclic: "topological E l \<Longrightarrow> E \<subseteq> set l \<times> set l \<Longrightarrow> acyclic E"
proof -
  assume t: "topological E l" "E \<subseteq> set l \<times> set l"
  have "list_pos a l < list_pos b l" if "(a, b) \<in> E\<^sup>+" for a b
    using that
  proof (induction rule: trancl_induct)
    case (base b)
    then show ?case using t by (auto simp: topological_def)
  next
    case (step b c)
    then have "list_pos b l < list_pos c l" using t by (auto simp: topological_def)
    then show ?case using step.IH by simp
  qed
  then show "acyclic E" unfolding acyclic_def by blast
qed

text \<open>
  What has been sorted is in topological order; the ready vertices are those not sorted with all predecessors sorted.
\<close>

definition topo_inv :: "Graph \<Rightarrow> TopoState \<Rightarrow> nat list \<Rightarrow> bool" where
  "topo_inv g s out \<longleftrightarrow>
     distinct (out @ ts_ready s) \<and> ts_removed s = set out \<and> ts_pos s = length out \<and> set out \<subseteq> verts g \<and> topological (edges g) out \<and>
     set (ts_ready s) = {x \<in> verts g. x \<notin> set out \<and> (\<forall>u. (u, x) \<in> edges g \<longrightarrow> u \<in> set out)} \<and>
     vec_inv (ts_vec s) \<and> vec_tail0 (ts_vec s) \<and> vec_list (ts_vec s) = out @ replicate (card (verts g) - length out) 0"

lemma topo_step_inv:
  assumes "graph_wf g" "card (verts g) < 2147483648" "topo_inv g s out" "ts_ready s = r # rs"
  shows "topo_inv g (topo_step g s) (out @ [r])" "length out < card (verts g)"
proof -
  note i = assms(3) [unfolded topo_inv_def assms(4)]
  let ?E = "edges g"
  let ?new = "filter (\<lambda>x. length (filter (\<lambda>u. u \<notin> insert r (ts_removed s)) (getInList g x)) = 0) (getOutList g r)"
  have r: "r \<in> verts g" "r \<notin> set out" "\<And>u. (u, r) \<in> ?E \<Longrightarrow> u \<in> set out" using i by auto
  have n: "set ?new = {x. (r, x) \<in> ?E \<and> (\<forall>u. (u, x) \<in> ?E \<longrightarrow> u \<in> set (out @ [r]))}"
    using i in_list_set [OF assms(1)] out_list_set [OF assms(1), of r] by (auto simp: filter_empty_conv)
  have "length (out @ [r]) \<le> card (verts g)"
    by (metis append_is_Nil_conv assms(1) card_mono distinct.simps(2) distinct_append distinct_card graph_wf_finite i r(1) set_append
        Un_subset_iff empty_set empty_subsetI insert_subset list.simps(15) append.assoc append_Cons append_Nil)
  then show l: "length out < card (verts g)" by simp
  have old: "x \<notin> set out" if "x \<in> set ?new" for x
  proof
    assume "x \<in> set out"
    then have "r \<in> set out" using that n i by (auto simp: topological_def)
    then show False using r(2) by simp
  qed
  have nr: "x \<noteq> r" if "x \<in> set ?new" for x using that n r by auto
  have nrs: "x \<notin> set rs" if "x \<in> set ?new" for x
  proof
    assume "x \<in> set rs"
    then have "\<forall>u. (u, x) \<in> ?E \<longrightarrow> u \<in> set out" using i by auto
    moreover have "(r, x) \<in> ?E" using that n by blast
    ultimately show False using r(2) by blast
  qed
  have ready: "set (rs @ ?new) = {x \<in> verts g. x \<notin> set (out @ [r]) \<and> (\<forall>u. (u, x) \<in> ?E \<longrightarrow> u \<in> set (out @ [r]))}"
    (is "_ = ?M")
  proof (rule set_eqI)
    fix x
    show "x \<in> set (rs @ ?new) \<longleftrightarrow> x \<in> ?M"
    proof
      assume "x \<in> set (rs @ ?new)"
      then consider "x \<in> set rs" | "x \<in> set ?new" by auto
      then show "x \<in> ?M"
      proof cases
        case 1
        then show ?thesis using i by auto
      next
        case 2
        have e: "(r, x) \<in> ?E" "\<forall>u. (u, x) \<in> ?E \<longrightarrow> u \<in> set (out @ [r])" using 2 unfolding n by blast+
        then show ?thesis using old [OF 2] nr [OF 2] graph_wf_edge [OF assms(1) e(1)] by simp
      qed
    next
      assume x: "x \<in> ?M"
      show "x \<in> set (rs @ ?new)"
      proof (cases "(r, x) \<in> ?E")
        case True
        then have "x \<in> set ?new" unfolding n using x by blast
        then show ?thesis by simp
      next
        case False
        then have "\<forall>u. (u, x) \<in> ?E \<longrightarrow> u \<in> set out" using x by auto
        then have "x \<in> set (r # rs)" using i x by auto
        then show ?thesis using x by auto
      qed
    qed
  qed
  have v: "vec_list (vec_set (ts_vec s) (length out) r) = (out @ [r]) @ replicate (card (verts g) - length (out @ [r])) 0"
    "vec_inv (vec_set (ts_vec s) (length out) r)" "vec_tail0 (vec_set (ts_vec s) (length out) r)"
  proof -
    obtain k where k: "card (verts g) - length out = Suc k" using l by (metis Suc_diff_Suc)
    have w: "vec_inv (ts_vec s)" "vec_tail0 (ts_vec s)" "vec_list (ts_vec s) = out @ replicate (card (verts g) - length out) 0"
      using i by blast+
    have "length out < 2147483648" using l assms(2) by simp
    note u = vec_set_list [OF w(1,2) this, of r, unfolded w(3) k]
    then show "vec_list (vec_set (ts_vec s) (length out) r) = (out @ [r]) @ replicate (card (verts g) - length (out @ [r])) 0"
      "vec_inv (vec_set (ts_vec s) (length out) r)" "vec_tail0 (vec_set (ts_vec s) (length out) r)"
      using u k by (simp_all add: list_update_append)
  qed
  have dr: "distinct (out @ r # rs)" "topological ?E out" using i by blast+
  have "distinct ?new" by (rule distinct_filter [OF out_list_distinct [OF assms(1)]])
  moreover have "set ?new \<inter> set (out @ r # rs) = {}" using old nr nrs unfolding disjoint_iff set_append list.set by blast
  ultimately have d: "distinct ((out @ [r]) @ rs @ ?new)" using dr(1) unfolding distinct_append by auto
  have t: "topological ?E (out @ [r])" by (rule topological_snoc [OF dr(2) r(3) r(2)])
  show "topo_inv g (topo_step g s) (out @ [r])"
  proof -
    have c: "topo_step g s = \<lparr>ts_ready = rs @ ?new, ts_removed = insert r (ts_removed s), ts_vec = vec_set (ts_vec s) (length out) r,
        ts_pos = ts_pos s + 1\<rparr>" using i assms(4) by (simp add: topo_step_def Let_def)
    have p: "ts_removed s = set out" "ts_pos s = length out" "set out \<subseteq> verts g" using i by blast+
    show ?thesis unfolding topo_inv_def c TopoState.simps
      by (intro conjI; (rule d t v ready)?) (simp_all add: p r(1))
  qed
qed

lemma topo_complete:
  assumes "graph_wf g" "topo_inv g s out" "ts_ready s = []"
  shows "length out = card (verts g) \<longleftrightarrow> acyclic (edges g)" "length out = card (verts g) \<longleftrightarrow> set out = verts g"
proof -
  note i = assms(2) [unfolded topo_inv_def assms(3)]
  have d: "length out = card (set out)" using i distinct_card by force
  show b: "length out = card (verts g) \<longleftrightarrow> set out = verts g"
    using i d card_subset_eq [OF graph_wf_finite [OF assms(1)]] by metis
  have "acyclic (edges g)" if "set out = verts g"
    by (rule topological_acyclic [of _ out]) (use i that assms(1) in \<open>auto simp: graph_wf_def\<close>)
  moreover have "set out = verts g" if a: "acyclic (edges g)"
  proof (rule ccontr)
    assume "set out \<noteq> verts g"
    then obtain x where x: "x \<in> verts g - set out" using i by blast
    have "wf (edges g)" by (rule finite_acyclic_wf [OF finite_edges a])
    then obtain z where z: "z \<in> verts g - set out" "\<And>y. (y, z) \<in> edges g \<Longrightarrow> y \<notin> verts g - set out"
      using wfE_min [OF _ x] by metis
    have "u \<in> set out" if "(u, z) \<in> edges g" for u using z(2) [OF that] graph_wf_edge [OF assms(1) that] by simp
    then have "z \<in> {x \<in> verts g. x \<notin> set out \<and> (\<forall>u. (u, x) \<in> edges g \<longrightarrow> u \<in> set out)}" using z(1) by simp
    then show False using i by auto
  qed
  ultimately show "length out = card (verts g) \<longleftrightarrow> acyclic (edges g)" using b by blast
qed

lemma sortInTopologOrder_correct:
  assumes "graph_wf g" "card (verts g) < 2147483648"
  shows "\<exists>ok v. sortInTopologOrder g vec_init = Some (ok, v) \<and> (ok \<longleftrightarrow> acyclic (edges g)) \<and>
    (ok \<longrightarrow> distinct (vec_list v) \<and> set (vec_list v) = verts g \<and> topological (edges g) (vec_list v))"
proof (cases "verts g = {}")
  case True
  then have "edges g = {}" using assms(1) by (auto simp: graph_wf_def)
  moreover have "vec_list vec_init = ([] :: nat list)" by (simp add: vec_defs vec_init_def)
  moreover have "getVertexNum g = 0" using True assms(1) by (simp add: graph_nums)
  ultimately have "sortInTopologOrder g vec_init = Some (True, vec_init)" "acyclic (edges g)" "topological (edges g) (vec_list vec_init)"
    "set (vec_list vec_init) = verts g" "distinct (vec_list (vec_init :: nat Vector))"
    using True by (simp_all add: sortInTopologOrder_def acyclic_def topological_def)
  then show ?thesis by blast
next
  case False
  let ?s = "\<lparr>ts_ready = filter (\<lambda>v. getInDegree g v = 0) (g_order g), ts_removed = {},
                ts_vec = vec_set vec_init (getVertexNum g - 1) 0, ts_pos = 0\<rparr>"
  let ?b = "\<lambda>s. ts_ready s \<noteq> []"
  let ?P = "\<lambda>s. \<exists>out. topo_inv g s out"
  have n: "getVertexNum g = card (verts g)" "card (verts g) > 0"
    using False assms(1) graph_wf_finite by (auto simp: graph_nums card_gt_0_iff)
  have vi: "vec_inv (vec_init :: nat Vector)" "vec_tail0 (vec_init :: nat Vector)" "vec_list (vec_init :: nat Vector) = []"
    by (simp_all add: vec_defs vec_init_def)
  have "replicate (card (verts g) - 1) 0 @ [0 :: nat] = replicate (card (verts g)) 0"
    using n(2) by (metis Suc_diff_1 replicate_append_same replicate_Suc)
  then have "vec_inv (ts_vec ?s)" "vec_tail0 (ts_vec ?s)" "vec_list (ts_vec ?s) = replicate (card (verts g)) 0"
    using vec_set_list [OF vi(1,2), of "card (verts g) - 1" 0] vi(3) assms(2) n by simp_all
  moreover have "distinct (g_order g)" "set (g_order g) = verts g" using assms(1) by (simp_all add: graph_wf_def)
  moreover have "getInDegree g x = 0 \<longleftrightarrow> (\<forall>u. (u, x) \<notin> edges g)" for x
    using in_list_set [OF assms(1), of x] by (auto simp: getInDegree_def)
  ultimately have init: "topo_inv g ?s []" by (auto simp: topo_inv_def topological_def)
  have st: "?P (topo_step g s) \<and> card (verts g) - ts_pos (topo_step g s) < card (verts g) - ts_pos s" if sb: "?P s \<and> ?b s" for s
  proof -
    obtain out r rs where o: "topo_inv g s out" "ts_ready s = r # rs" using sb by (cases "ts_ready s") auto
    note n = topo_step_inv [OF assms o]
    have "ts_pos s = length out" "ts_pos (topo_step g s) = length (out @ [r])" using o(1) n(1) unfolding topo_inv_def by blast+
    then show ?thesis using n by auto
  qed
  obtain s where s: "while_option ?b (topo_step g) ?s = Some s"
    using measure_while_option_Some [of ?P ?b "topo_step g" "\<lambda>s. card (verts g) - ts_pos s" ?s] st init by auto
  obtain out where o: "topo_inv g s out" using while_option_rule [of ?P ?b "topo_step g", OF _ s] st init by auto
  have e: "ts_ready s = []" using while_option_stop [OF s] by simp
  have p: "ts_pos s = length out" "vec_list (ts_vec s) = out @ replicate (card (verts g) - length out) 0" "distinct out"
      "topological (edges g) out" using o by (auto simp: topo_inv_def)
  have "sortInTopologOrder g vec_init = Some (length out = card (verts g), ts_vec s)"
    using s n p(1) by (simp add: sortInTopologOrder_def)
  moreover have "vec_list (ts_vec s) = out" if "length out = card (verts g)" using p(2) that by simp
  ultimately show ?thesis using topo_complete [OF assms(1) o e] p(3,4)
    by (intro exI [of _ "length out = card (verts g)"] exI [of _ "ts_vec s"]) simp
qed

end
