(* ===== verification/DomSets.thy ===== *)
theory DomSets
  imports DomIdom GraphTopo
begin

text \<open>
  Dominator sets of class \<open>DGraph\<close> by iteration: \<open>computeDom\<close> and \<open>computePdom\<close> start from all vertices and
  intersect until nothing changes, but give up after 10 and 13 passes with no more than an assertion; the first result of
  the model is whether the last pass still changed something. \<open>computeIdom\<close> and \<open>computeIpdom\<close> read the immediate
  dominators off the sets, \<open>computeDom2\<close> goes the other way, \<open>genDomTree\<close> builds the tree. The sets are bit sets
  and the vectors of sets maps, with the empty set where none is allocated.
\<close>

section \<open>Iteration\<close>

fun meet_sets :: "(nat \<Rightarrow> nat set) \<Rightarrow> nat list \<Rightarrow> nat set" where
  "meet_sets D [] = {}"
| "meet_sets D (x # xs) = fold (\<lambda>y s. s \<inter> D y) xs (D x)"

definition dom_visit :: "(nat \<Rightarrow> nat list) \<Rightarrow> nat \<Rightarrow> bool \<times> (nat \<Rightarrow> nat set) \<Rightarrow> bool \<times> (nat \<Rightarrow> nat set)" where
  "dom_visit adj v s =
     (case s of (change, D) \<Rightarrow>
        if adj v = [] then (change, D)
        else let tmp = insert v (meet_sets D (adj v)) in if D v = tmp then (change, D) else (True, D(v := tmp)))"

fun dom_loop :: "(nat \<Rightarrow> nat list) \<Rightarrow> nat list \<Rightarrow> nat \<Rightarrow> bool \<times> (nat \<Rightarrow> nat set) \<Rightarrow> bool \<times> (nat \<Rightarrow> nat set)" where
  "dom_loop adj vlst 0 s = s"
| "dom_loop adj vlst (Suc n) s =
     (case s of (change, D) \<Rightarrow> if \<not> change then s else dom_loop adj vlst n (fold (dom_visit adj) vlst (False, D)))"

definition dom_start :: "(nat \<Rightarrow> nat list) \<Rightarrow> nat list \<Rightarrow> nat set \<Rightarrow> (nat \<Rightarrow> nat set) \<Rightarrow> (nat \<Rightarrow> nat set)" where
  "dom_start adj vlst uni = fold (\<lambda>v D. D(v := if adj v = [] then {v} else uni)) vlst"

definition computeDom :: "Graph \<Rightarrow> nat list option \<Rightarrow> nat set option \<Rightarrow> (nat \<Rightarrow> nat set) \<Rightarrow> bool \<times> (nat \<Rightarrow> nat set)" where
  "computeDom g vlst uni doms =
     (let pvlst = (case vlst of Some l \<Rightarrow> l | None \<Rightarrow> g_order g);
          luni = (case uni of Some u \<Rightarrow> u | None \<Rightarrow> set pvlst)
      in dom_loop (getInList g) pvlst 10 (True, dom_start (getInList g) pvlst luni doms))"

definition computePdom :: "Graph \<Rightarrow> nat list \<Rightarrow> nat set \<Rightarrow> (nat \<Rightarrow> nat set) \<Rightarrow> bool \<times> (nat \<Rightarrow> nat set)" where
  "computePdom g vlst uni pdoms =
     (let cleared = takeWhile (\<lambda>v. \<not> is_graph_exit g v) vlst;
          rest_vlst = dropWhile (\<lambda>v. \<not> is_graph_exit g v) vlst;
          pdoms = fold (\<lambda>v D. D(v := {})) (cleared @ take 1 rest_vlst) pdoms
      in if rest_vlst = [] then (False, pdoms)
         else dom_loop (getOutList g) vlst 13 (True, dom_start (getOutList g) vlst uni pdoms))"

definition computePdom_all :: "Graph \<Rightarrow> nat list \<Rightarrow> (nat \<Rightarrow> nat set) \<Rightarrow> bool \<times> (nat \<Rightarrow> nat set)" where
  "computePdom_all g vlst = computePdom g vlst (set vlst)"

section \<open>Immediate dominators from the sets\<close>

text \<open>The loops over a bit set go up from its smallest element.\<close>

definition find_set :: "(nat \<Rightarrow> nat set) \<Rightarrow> nat set \<Rightarrow> nat option" where
  "find_set D p = List.find (\<lambda>i. D i = p) (sorted_list_of_set p)"

definition idom_of :: "(nat \<Rightarrow> nat set) \<Rightarrow> nat \<Rightarrow> (nat \<Rightarrow> nat) \<Rightarrow> (nat \<Rightarrow> nat)" where
  "idom_of D v idoms =
     (if card (D v) \<ge> 2 then
        let p = D v - {v} in case find_set (D(v := p)) p of None \<Rightarrow> idoms | Some i \<Rightarrow> idoms(v := i)
      else idoms)"

definition computeIdom :: "Graph \<Rightarrow> (nat \<Rightarrow> nat set) \<Rightarrow> (nat \<Rightarrow> nat)" where
  "computeIdom g D = fold (\<lambda>v idoms. if is_graph_entry g v then idoms else idom_of D v idoms) (g_order g) (\<lambda>v. 0)"

definition computeIpdom :: "Graph \<Rightarrow> (nat \<Rightarrow> nat set) \<Rightarrow> (nat \<Rightarrow> nat)" where
  "computeIpdom g D = fold (\<lambda>v idoms. if is_graph_exit g v then idoms else idom_of D v idoms) (List.rev (g_order g)) (\<lambda>v. 0)"

section \<open>The tree\<close>

text \<open>The root is found by going up from the first vertex; \<open>None\<close> is a loop among the immediate dominators.\<close>

partial_function (option) tree_root :: "Graph \<Rightarrow> nat \<Rightarrow> nat option" where
  "tree_root dt v = (case getInList dt v of [] \<Rightarrow> Some v | p # ps \<Rightarrow> tree_root dt p)"

definition genDomTree :: "Graph \<Rightarrow> (nat \<Rightarrow> nat) \<Rightarrow> Graph \<Rightarrow> (Graph \<times> nat option) option" where
  "genDomTree g idoms dt =
     (let dt = (graph_erase dt)\<lparr>g_dense := g_dense g\<rparr>;
          dt = fold (\<lambda>v dt. let dt = addVertex v dt in if idoms v \<noteq> 0 then addEdge (idoms v) v dt else dt) (g_order g) dt
      in case g_order dt of [] \<Rightarrow> Some (dt, None) | v # vs \<Rightarrow> map_option (\<lambda>r. (dt, Some r)) (tree_root dt v))"

section \<open>The greatest solution\<close>

text \<open>The vertices on every way from an entry; there may be several entries, and cycles that none of them reaches.\<close>

definition all_dominators :: "Graph \<Rightarrow> nat \<Rightarrow> nat set" where
  "all_dominators g v = {d \<in> verts g. \<forall>r \<in> verts g. is_graph_entry g r \<longrightarrow> d \<in> dominators (edges g) r v}"

definition dom_value :: "(nat \<Rightarrow> nat list) \<Rightarrow> (nat \<Rightarrow> nat set) \<Rightarrow> nat \<Rightarrow> nat set" where
  "dom_value adj D v = (if adj v = [] then D v else insert v {d. \<forall>p\<in>set (adj v). d \<in> D p})"

lemma fold_meet: "fold (\<lambda>y s. s \<inter> D y) xs s = {d \<in> s. \<forall>y\<in>set xs. d \<in> D y}"
  by (induction xs arbitrary: s) auto

lemma meet_sets: "xs \<noteq> [] \<Longrightarrow> meet_sets D xs = {d. \<forall>p\<in>set xs. d \<in> D p}"
  by (cases xs) (auto simp: fold_meet)

lemma dom_visit_value:
  "dom_visit adj v (c, D) = (c \<or> D v \<noteq> dom_value adj D v, D(v := dom_value adj D v))"
  by (auto simp: dom_visit_def dom_value_def meet_sets Let_def fun_eq_iff)

lemma dom_start_at: "distinct vs \<Longrightarrow> dom_start adj vs uni D v = (if v \<in> set vs then if adj v = [] then {v} else uni else D v)"
  unfolding dom_start_def by (induction vs arbitrary: D) auto

text \<open>A pass keeps every solution below, and without a change it has met a solution.\<close>

lemma dom_pass:
  assumes "\<And>v. v \<in> set vs \<Longrightarrow> S v \<subseteq> dom_value adj S v" "\<And>v. S v \<subseteq> D v"
  shows "fold (dom_visit adj) vs (c, D) = (c', D') \<Longrightarrow> (\<forall>v. S v \<subseteq> D' v) \<and> (\<forall>v. v \<notin> set vs \<or> adj v = [] \<longrightarrow> D' v = D v) \<and>
    (\<not> c' \<longrightarrow> \<not> c \<and> D' = D \<and> (\<forall>v\<in>set vs. D v = dom_value adj D v))"
  using assms
proof (induction vs arbitrary: c D)
  case (Cons v vs)
  let ?D = "D(v := dom_value adj D v)"
  have "dom_value adj S v \<subseteq> dom_value adj D v" using Cons.prems(3) unfolding dom_value_def by (auto dest: subsetD)
  then have "S v \<subseteq> dom_value adj D v" using Cons.prems(2) [of v] by (meson list.set_intros(1) order_trans)
  then have sub: "S w \<subseteq> ?D w" for w using Cons.prems(3) [of w] by simp
  have f: "fold (dom_visit adj) vs (c \<or> D v \<noteq> dom_value adj D v, ?D) = (c', D')" using Cons.prems(1) by (simp add: dom_visit_value)
  have i: "(\<forall>v. S v \<subseteq> D' v) \<and> (\<forall>v. v \<notin> set vs \<or> adj v = [] \<longrightarrow> D' v = ?D v) \<and>
      (\<not> c' \<longrightarrow> \<not> (c \<or> D v \<noteq> dom_value adj D v) \<and> D' = ?D \<and> (\<forall>v\<in>set vs. ?D v = dom_value adj ?D v))"
    by (rule Cons.IH [OF f _ sub]) (rule Cons.prems(2), simp)
  have same: "D v = dom_value adj D v \<Longrightarrow> ?D = D" by (rule fun_upd_idem)
  have e: "adj v = [] \<Longrightarrow> dom_value adj D v = D v" by (simp add: dom_value_def)
  have "D' w = D w" if "w \<notin> set (v # vs) \<or> adj w = []" for w
  proof -
    have "D' w = ?D w" using i that by auto
    then show ?thesis using that e by (cases "w = v") auto
  qed
  moreover have "\<not> c \<and> D' = D \<and> (\<forall>v\<in>set (v # vs). D v = dom_value adj D v)" if "\<not> c'"
  proof -
    have n: "\<not> c" "D v = dom_value adj D v" "D' = ?D" "\<forall>v\<in>set vs. ?D v = dom_value adj ?D v" using i that by blast+
    show ?thesis using n(1,3,4) n(2) unfolding same [OF n(2)] by simp
  qed
  ultimately show ?case using i by blast
qed simp

lemma dom_loop_correct:
  assumes "\<And>v. v \<in> set vs \<Longrightarrow> S v \<subseteq> dom_value adj S v"
  shows "(\<And>v. S v \<subseteq> D v) \<Longrightarrow> (\<not> c \<longrightarrow> (\<forall>v\<in>set vs. D v = dom_value adj D v)) \<Longrightarrow> dom_loop adj vs n (c, D) = (c', D') \<Longrightarrow>
    (\<forall>v. S v \<subseteq> D' v) \<and> (\<forall>v. v \<notin> set vs \<or> adj v = [] \<longrightarrow> D' v = D v) \<and> (\<not> c' \<longrightarrow> (\<forall>v\<in>set vs. D' v = dom_value adj D' v))"
proof (induction n arbitrary: c D)
  case (Suc n)
  show ?case
  proof (cases c)
    case True
    obtain c1 D1 where p: "fold (dom_visit adj) vs (False, D) = (c1, D1)" by force
    have d: "(\<forall>v. S v \<subseteq> D1 v) \<and> (\<forall>v. v \<notin> set vs \<or> adj v = [] \<longrightarrow> D1 v = D v) \<and>
        (\<not> c1 \<longrightarrow> D1 = D \<and> (\<forall>v\<in>set vs. D v = dom_value adj D v))"
      using dom_pass [OF assms Suc.prems(1) p] by simp
    have "dom_loop adj vs n (c1, D1) = (c', D')" using Suc.prems(3) True p by simp
    with Suc.IH [of D1 c1] d show ?thesis by auto
  qed (use Suc in auto)
qed auto

lemma dom_pass_bound:
  "\<forall>v\<in>V. set (adj v) \<subseteq> V \<Longrightarrow> set vs \<subseteq> V \<Longrightarrow> (\<forall>v\<in>V. D v \<subseteq> V) \<Longrightarrow> \<forall>v\<in>V. snd (fold (dom_visit adj) vs (c, D)) v \<subseteq> V"
proof (induction vs arbitrary: c D)
  case (Cons v vs)
  have "dom_value adj D v \<subseteq> V"
  proof (cases "adj v")
    case (Cons p ps)
    then have "p \<in> V" using Cons.prems(1,2) Cons by auto
    then show ?thesis using Cons.prems(2,3) Cons by (auto simp: dom_value_def)
  qed (use Cons.prems in \<open>simp add: dom_value_def\<close>)
  then have "\<forall>w\<in>V. (D(v := dom_value adj D v)) w \<subseteq> V" using Cons.prems(3) by simp
  then show ?case using Cons.IH [OF Cons.prems(1)] Cons.prems(2) by (simp add: dom_visit_value)
qed simp

lemma dom_loop_bound:
  "\<forall>v\<in>V. set (adj v) \<subseteq> V \<Longrightarrow> set vs \<subseteq> V \<Longrightarrow> (\<forall>v\<in>V. D v \<subseteq> V) \<Longrightarrow> \<forall>v\<in>V. snd (dom_loop adj vs n (c, D)) v \<subseteq> V"
proof (induction n arbitrary: c D)
  case (Suc n)
  obtain c1 D1 where p: "fold (dom_visit adj) vs (False, D) = (c1, D1)" by force
  have "\<forall>v\<in>V. D1 v \<subseteq> V" using dom_pass_bound [OF Suc.prems, where c = False] p by simp
  then show ?case using Suc.IH [OF Suc.prems(1,2)] Suc.prems(3) p by simp
qed simp

text \<open>Two passes are enough when every vertex comes behind its neighbours.\<close>

definition in_order :: "(nat \<Rightarrow> nat list) \<Rightarrow> nat list \<Rightarrow> bool" where
  "in_order adj vs \<longleftrightarrow> distinct vs \<and> (\<forall>as v bs. vs = as @ v # bs \<longrightarrow> set (adj v) \<subseteq> set as)"

lemma dom_pass_in_order:
  "in_order adj vs \<Longrightarrow> fold (dom_visit adj) vs (c, D) = (c', D') \<Longrightarrow> \<forall>v\<in>set vs. D' v = dom_value adj D' v"
proof (induction vs arbitrary: c' D' rule: rev_induct)
  case (snoc v vs)
  obtain c1 D1 where p: "fold (dom_visit adj) vs (c, D) = (c1, D1)" by force
  have o: "in_order adj vs" "v \<notin> set vs" "set (adj v) \<subseteq> set vs"
  proof -
    show "in_order adj vs" unfolding in_order_def
    proof (intro conjI allI impI)
      show "distinct vs" using snoc.prems(1) by (simp add: in_order_def)
      fix as w bs assume "vs = as @ w # bs"
      then have "vs @ [v] = as @ w # (bs @ [v])" by simp
      then show "set (adj w) \<subseteq> set as" using snoc.prems(1) unfolding in_order_def by blast
    qed
  qed (use snoc.prems(1) in \<open>auto simp: in_order_def\<close>)
  have d: "D' = D1(v := dom_value adj D1 v)" using snoc.prems(2) p by (simp add: dom_visit_value)
  have same: "dom_value adj D' w = (if w = v \<and> adj v = [] then D' v else dom_value adj D1 w)" if "v \<notin> set (adj w)" for w
  proof -
    have "D' p = D1 p" if "p \<in> set (adj w)" for p using that \<open>v \<notin> set (adj w)\<close> d by auto
    then have "{x. \<forall>p\<in>set (adj w). x \<in> D' p} = {x. \<forall>p\<in>set (adj w). x \<in> D1 p}" by blast
    moreover have "D' w = D1 w" if "w \<noteq> v" using that d by simp
    ultimately show ?thesis by (cases "adj w = []"; cases "w = v") (simp_all add: dom_value_def)
  qed
  have nv: "v \<notin> set (adj w)" if h: "w \<in> set (vs @ [v])" for w
  proof -
    obtain as bs where "vs @ [v] = as @ w # bs" using split_list [OF h] by blast
    moreover from this have "set (adj w) \<subseteq> set as" using snoc.prems(1) unfolding in_order_def by blast
    moreover have "v \<notin> set as" using snoc.prems(1) calculation(1) o(2) unfolding in_order_def
      by (metis butlast_append butlast_snoc in_set_conv_decomp list.distinct(1) UnCI set_append)
    ultimately show ?thesis by blast
  qed
  show ?case
  proof
    fix w assume w: "w \<in> set (vs @ [v])"
    show "D' w = dom_value adj D' w"
    proof (cases "w = v")
      case True
      then show ?thesis using same [OF nv [OF w]] d by (auto simp: dom_value_def)
    next
      case False
      then show ?thesis using same [OF nv [OF w]] d snoc.IH [OF o(1) p] w by auto
    qed
  qed
qed simp

lemma dom_pass_fixed: "\<forall>v\<in>set vs. D v = dom_value adj D v \<Longrightarrow> fold (dom_visit adj) vs (c, D) = (c, D)"
proof (induction vs arbitrary: c)
  case (Cons v vs)
  then have "D(v := dom_value adj D v) = D" by (metis fun_upd_triv list.set_intros(1))
  then show ?case using Cons by (simp add: dom_visit_value)
qed simp

lemma dom_loop_in_order:
  assumes "in_order adj vs"
  shows "\<not> fst (dom_loop adj vs (Suc (Suc n)) (c, D))"
proof (cases c)
  case True
  obtain c1 D1 where p: "fold (dom_visit adj) vs (False, D) = (c1, D1)" by force
  have "fold (dom_visit adj) vs (False, D1) = (False, D1)" by (rule dom_pass_fixed [OF dom_pass_in_order [OF assms p]])
  moreover have "\<not> fst (dom_loop adj vs n (False, D1))" by (cases n) auto
  ultimately show ?thesis using True p by auto
qed simp

section \<open>Dominators\<close>

lemma all_dominators_solution:
  assumes "graph_wf g" "v \<in> verts g"
  shows "all_dominators g v \<subseteq> dom_value (getInList g) (all_dominators g) v"
proof (cases "getInList g v = []")
  case False
  have "set (getInList g v) = {p. (p, v) \<in> edges g}" by (rule in_list_set [OF assms(1)])
  then show ?thesis using False by (auto simp: dom_value_def all_dominators_def intro: dominators_pred)
qed (simp add: dom_value_def)

lemma computeDom_correct:
  assumes "graph_wf g" "distinct l" "set l = verts g"
  shows "\<exists>change D. computeDom g (Some l) None doms = (change, D) \<and> (\<forall>v\<in>verts g. all_dominators g v \<subseteq> D v) \<and>
    (\<not> change \<longrightarrow> (\<forall>v\<in>verts g. D v = all_dominators g v)) \<and> (in_order (getInList g) l \<longrightarrow> \<not> change)"
proof -
  let ?adj = "getInList g"
  let ?D0 = "dom_start ?adj l (verts g) doms"
  obtain change D where c: "dom_loop ?adj l 10 (True, ?D0) = (change, D)" by force
  have res: "computeDom g (Some l) None doms = (change, D)" using c assms(3) by (simp add: computeDom_def)
  have ins: "set (?adj v) = {p. (p, v) \<in> edges g}" for v by (rule in_list_set [OF assms(1)])
  have D0: "?D0 v = (if ?adj v = [] then {v} else verts g)" if "v \<in> verts g" for v
    using dom_start_at [OF assms(2)] that assms(3) by simp
  let ?S = "\<lambda>v. if v \<in> verts g then all_dominators g v else ?D0 v"
  have adjV: "set (?adj v) \<subseteq> verts g" for v using ins graph_wf_edge [OF assms(1)] by auto
  have S: "?S v \<subseteq> dom_value ?adj ?S v" if v: "v \<in> set l" for v
  proof -
    have "dom_value ?adj ?S v = dom_value ?adj (all_dominators g) v" using v assms(3) adjV [of v] by (auto simp: dom_value_def)
    then show ?thesis using all_dominators_solution [OF assms(1), of v] v assms(3) by simp
  qed
  have entry: "all_dominators g v \<subseteq> {v}" if "v \<in> verts g" "?adj v = []" for v
    using that by (auto simp: all_dominators_def is_graph_entry_def dominators_def)
  have S0: "?S v \<subseteq> ?D0 v" for v using entry [of v] D0 [of v] by (auto simp: all_dominators_def)
  note d = dom_loop_correct [of l ?S ?adj, OF S S0 _ c]
  then have low: "all_dominators g v \<subseteq> D v" if "v \<in> verts g" for v using that by (metis simp_thms(6) S0)
  have "\<forall>v\<in>verts g. D v \<subseteq> verts g"
    using dom_loop_bound [of "verts g" ?adj l ?D0 10 True] adjV D0 assms(3) c by auto
  moreover have "D v \<subseteq> dominators (edges g) r v" if n: "\<not> change" and r: "r \<in> verts g" "is_graph_entry g r" for v r
  proof (rule solution_dominates)
    have "D r = ?D0 r" using d r(2) by (simp add: is_graph_entry_def)
    then show "D r = {r}" using D0 [OF r(1)] r(2) by (simp add: is_graph_entry_def)
    fix w p assume p: "(p, w) \<in> edges g"
    then have "D w = dom_value ?adj D w" using d n graph_wf_edge [OF assms(1) p] assms(3) by auto
    then show "D w \<subseteq> insert w (D p)" using ins [of w] p by (auto simp: dom_value_def split: if_splits)
  qed
  note up = calculation this
  have "D v = all_dominators g v" if "\<not> change" "v \<in> verts g" for v
  proof
    show "D v \<subseteq> all_dominators g v" using up(1) up(2) [OF that(1)] that(2) unfolding all_dominators_def by blast
  qed (rule low [OF that(2)])
  moreover have "in_order ?adj l \<longrightarrow> \<not> change"
    using dom_loop_in_order [of ?adj l 8 True ?D0] c by (simp add: numeral_eq_Suc)
  ultimately show ?thesis using res low by blast
qed

end
