(* ===== verification/DomTree.thy ===== *)
theory DomTree
  imports DomSets
begin

text \<open>
  The ways to the dominators agree: the walk over the tree and the iteration over sets give the same immediate dominators,
  \<open>computeDom2\<close> turns them into the sets of strict dominators, and in the tree of \<open>genDomTree\<close>
  \<open>DomTree::is_dom\<close> (\<^verbatim>\<open>src/com/domtree.h\<close>) answers strict dominance.
\<close>

section \<open>The whole analysis\<close>

definition is_dom_in_tree :: "Graph \<Rightarrow> nat \<Rightarrow> nat \<Rightarrow> bool option" where
  "is_dom_in_tree dt v1 v2 = map_option fst (isReachIn dt v2 v1 (getVertexNum dt) None)"

text \<open>Immediate dominators as a relation between vertices and their dominator sets.\<close>

definition idoms_ok :: "Graph \<Rightarrow> nat \<Rightarrow> nat list \<Rightarrow> (nat \<Rightarrow> nat) \<Rightarrow> bool" where
  "idoms_ok g r l idoms \<longleftrightarrow>
     idoms r = 0 \<and> (\<forall>v. v \<notin> verts g \<longrightarrow> idoms v = 0) \<and>
     (\<forall>v\<in>verts g. v \<noteq> r \<longrightarrow> idoms v \<in> dominators (edges g) r v \<and> idoms v \<noteq> v \<and> list_pos (idoms v) l < list_pos v l \<and>
       dominators (edges g) r v = insert v (dominators (edges g) r (idoms v)))"

lemma rpo_flow_list:
  assumes "graph_wf g" "0 \<notin> verts g" "r \<in> verts g" "is_graph_entry g r" "\<forall>v\<in>verts g. (r, v) \<in> (edges g)\<^sup>*" "rpo_fits g"
  shows "\<exists>l rpo'. computeRPO g r rpo = Some (l, rpo') \<and> flow_list g rpo' r l"
proof -
  obtain l rpo' where l: "computeRPO g r rpo = Some (l, rpo')" "rpo_list_ok g r l" "set l = verts g"
      "\<forall>i<length l. rpo' (l ! i) = RPO_INIT_VAL + int i * RPO_INTERVAL"
    using computeRPO_correct [OF assms(1,3,6), of rpo] assms(4,5) by auto
  have "rpo' (l ! i) < rpo' (l ! j) \<longleftrightarrow> i < j" if "i < length l" "j < length l" for i j
    using l(4) that by (simp add: RPO_INTERVAL_def)
  then have "flow_list g rpo' r l" using assms l(2,3) by (simp add: flow_list_def)
  then show ?thesis using l(1) by blast
qed

lemma list_pos_out: "x \<notin> set xs \<Longrightarrow> list_pos x xs = length xs"
  unfolding list_pos_def by (induction xs) auto

lemma flow_list_facts:
  assumes "flow_list g rpo r l"
  shows "graph_wf g" "set l = verts g" "r \<in> verts g" "0 \<notin> verts g" "distinct l" "v \<in> verts g \<Longrightarrow> is_graph_entry g v \<longleftrightarrow> v = r"
  using flow_list_order(1) [OF assms] assms by (auto simp: tree_order_def flow_list_def rpo_list_ok_def)

text \<open>A dominator is a vertex that is the same or stands before.\<close>

lemma dominators_before:
  assumes "flow_list g rpo r l" "idoms_ok g r l idoms"
  shows "v \<in> verts g \<Longrightarrow> d \<in> dominators (edges g) r v \<Longrightarrow> d \<in> verts g \<and> (d = v \<or> list_pos d l < list_pos v l)"
proof (induction "list_pos v l" arbitrary: v rule: less_induct)
  case less
  note f = flow_list_facts [OF assms(1)]
  show ?case
  proof (cases "v = r")
    case True
    then have "d = r" using less.prems(2) by (auto simp: dominators_def)
    then show ?thesis using True f(3) by simp
  next
    case False
    have i: "idoms v \<noteq> v" "list_pos (idoms v) l < list_pos v l" "dominators (edges g) r v = insert v (dominators (edges g) r (idoms v))"
      using assms(2) less.prems(1) False by (auto simp: idoms_ok_def)
    have lv: "list_pos v l < length l" using list_pos_nth [of v l] f(2) less.prems(1) by simp
    have iv: "idoms v \<in> verts g"
    proof (rule ccontr)
      assume "idoms v \<notin> verts g"
      then have "list_pos (idoms v) l = length l" using f(2) by (simp add: list_pos_out)
      then show False using i(2) lv by simp
    qed
    show ?thesis
    proof (cases "d = v")
      case False
      then have "d \<in> dominators (edges g) r (idoms v)" using less.prems(2) i(3) by simp
      then show ?thesis using less.hyps [OF i(2) iv] i(2) by auto
    qed (use less.prems in simp)
  qed
qed

lemma idoms_ok_step:
  assumes "flow_list g rpo r l" "idoms_ok g r l idoms" "v \<in> verts g" "v \<noteq> r"
  shows "idoms v \<in> verts g" "idoms v \<noteq> 0" "idoms v \<noteq> v" "list_pos (idoms v) l < list_pos v l"
    "dominators (edges g) r v - {v} = dominators (edges g) r (idoms v)"
proof -
  have i: "idoms v \<in> dominators (edges g) r v" "idoms v \<noteq> v" "list_pos (idoms v) l < list_pos v l"
      "dominators (edges g) r v = insert v (dominators (edges g) r (idoms v))"
    using assms(2-4) by (auto simp: idoms_ok_def)
  then show "idoms v \<noteq> v" "list_pos (idoms v) l < list_pos v l" by simp_all
  show iv: "idoms v \<in> verts g" using dominators_before [OF assms(1,2,3) i(1)] by blast
  then show "idoms v \<noteq> 0" using flow_list_facts(4) [OF assms(1)] by (cases "idoms v = 0") auto
  have "v \<notin> dominators (edges g) r (idoms v)" using dominators_before [OF assms(1,2) iv, of v] i(2,3) by auto
  then show "dominators (edges g) r v - {v} = dominators (edges g) r (idoms v)" using i(4) by auto
qed

lemma dominators_antisym:
  assumes "flow_list g rpo r l" "idoms_ok g r l idoms" "v \<in> verts g" "w \<in> verts g"
    "v \<in> dominators (edges g) r w" "w \<in> dominators (edges g) r v"
  shows "v = w"
  using dominators_before [OF assms(1,2,4,5)] dominators_before [OF assms(1,2,3,6)] by auto

section \<open>Both ways to the immediate dominators\<close>

lemma find_SomeD: "List.find P xs = Some x \<Longrightarrow> x \<in> set xs \<and> P x"
  by (induction xs) (auto split: if_splits)

lemma find_exists: "x \<in> set xs \<Longrightarrow> P x \<Longrightarrow> \<exists>y. List.find P xs = Some y"
  by (induction xs) auto

lemma find_set_idom:
  assumes "flow_list g rpo r l" "idoms_ok g r l idoms" "v \<in> verts g" "v \<noteq> r" "\<And>w. w \<in> verts g \<Longrightarrow> D w = dominators (edges g) r w"
  shows "card (D v) \<ge> 2" "find_set (D(v := D v - {v})) (D v - {v}) = Some (idoms v)"
proof -
  let ?p = "D v - {v}"
  note f = flow_list_facts [OF assms(1)] and s = idoms_ok_step [OF assms(1-4)]
  have sub: "D v \<subseteq> verts g" using dominators_before [OF assms(1-3)] assms(5) [OF assms(3)] by blast
  then have fin: "finite (D v)" using graph_wf_finite [OF f(1)] finite_subset by blast
  have mem: "v \<in> D v" "idoms v \<in> D v" using dominators_self s(5) assms(5) [OF assms(3)] by blast+
  have "card {v, idoms v} \<le> card (D v)" by (rule card_mono [OF fin]) (use mem in auto)
  then show "card (D v) \<ge> 2" using s(3) by simp
  have p: "?p = dominators (edges g) r (idoms v)" using s(5) assms(5) [OF assms(3)] by simp
  have eq: "(D(v := ?p)) i = ?p \<longleftrightarrow> i = idoms v" if "i \<in> ?p" for i
  proof
    assume "(D(v := ?p)) i = ?p"
    moreover have "(D(v := ?p)) i = dominators (edges g) r i" using that sub assms(5) [of i] by auto
    ultimately have d: "dominators (edges g) r i = dominators (edges g) r (idoms v)" using p by simp
    show "i = idoms v"
      by (rule dominators_antisym [OF assms(1,2)]) (use that sub s(1) d dominators_self in auto)
  next
    assume "i = idoms v"
    then show "(D(v := ?p)) i = ?p" using s(1,3) assms(5) [OF s(1)] p by simp
  qed
  have sl: "set (sorted_list_of_set ?p) = ?p" using fin by simp
  have "idoms v \<in> ?p" using mem s(3) by simp
  then obtain i where i: "find_set (D(v := ?p)) ?p = Some i"
    using find_exists [of "idoms v" "sorted_list_of_set ?p" "\<lambda>i. (D(v := ?p)) i = ?p"] eq sl unfolding find_set_def by metis
  have "i \<in> set (sorted_list_of_set ?p) \<and> (D(v := ?p)) i = ?p" by (rule find_SomeD) (use i in \<open>simp add: find_set_def\<close>)
  then have "i \<in> ?p" "(D(v := ?p)) i = ?p" unfolding sl by blast+
  then show "find_set (D(v := ?p)) ?p = Some (idoms v)" using i eq by simp
qed

lemma computeIdom_correct:
  assumes "flow_list g rpo r l" "idoms_ok g r l idoms" "\<And>w. w \<in> verts g \<Longrightarrow> D w = dominators (edges g) r w"
  shows "computeIdom g D = idoms"
proof -
  note f = flow_list_facts [OF assms(1)]
  have "fold (\<lambda>v h. if is_graph_entry g v then h else idom_of D v h) vs h = (\<lambda>v. if v \<in> set vs \<and> v \<noteq> r then idoms v else h v)"
    if "set vs \<subseteq> verts g" for vs h
    using that
  proof (induction vs arbitrary: h)
    case (Cons v vs)
    have v: "v \<in> verts g" using Cons.prems by simp
    show ?case
    proof (cases "v = r")
      case True
      then have "is_graph_entry g v" using f(6) [OF v] by simp
      then show ?thesis using Cons True by (auto simp: fun_eq_iff)
    next
      case False
      have "idom_of D v h = h(v := idoms v)"
        using find_set_idom [OF assms(1,2) v False assms(3)] by (simp add: idom_of_def Let_def)
      then show ?thesis using Cons f(6) [OF v] False by (auto simp: fun_eq_iff)
    qed
  qed simp
  moreover have "set (g_order g) = verts g" using f(1) by (simp add: graph_wf_def)
  ultimately have "computeIdom g D = (\<lambda>v. if v \<in> verts g \<and> v \<noteq> r then idoms v else 0)" by (simp add: computeIdom_def)
  then show ?thesis using assms(2) by (auto simp: idoms_ok_def fun_eq_iff)
qed

lemma all_dominators_single:
  assumes "flow_list g rpo r l" "idoms_ok g r l idoms" "v \<in> verts g"
  shows "all_dominators g v = dominators (edges g) r v"
  using dominators_before [OF assms] flow_list_facts(3,6) [OF assms(1)] by (auto simp: all_dominators_def)

section \<open>Sets from the tree\<close>

lemma dom2_pass_correct:
  assumes "flow_list g rpo r l" "idoms_ok g r l idoms"
  shows "l = as @ vs \<Longrightarrow> (\<forall>v\<in>set as. D v = dominators (edges g) r v - {v}) \<Longrightarrow>
    \<exists>D'. dom2_pass idoms vs (set as) D = Some D' \<and> (\<forall>v\<in>set l. D' v = dominators (edges g) r v - {v})"
proof (induction vs arbitrary: as D)
  case (Cons v vs)
  note f = flow_list_facts [OF assms(1)]
  have v: "v \<in> verts g" "v \<notin> set as" using Cons.prems(1) f(2,5) by auto
  have "\<exists>ds. dom2_climb idoms (set as) (D(v := {})) (idoms v) {} = Some ds \<and> ds = dominators (edges g) r v - {v}"
  proof (cases "v = r")
    case True
    then have "idoms v = 0" "dominators (edges g) r v = {v}" using assms(2) by (auto simp: idoms_ok_def dominators_def)
    then show ?thesis by (subst dom2_climb.simps) simp
  next
    case False
    note s = idoms_ok_step [OF assms v(1) False]
    have "idoms v \<in> set l" using s(1) f(2) by simp
    then have "idoms v \<in> set as"
      using s(3,4) v(2) Cons.prems(1) by (simp add: list_pos_append list_pos_out split: if_splits) (simp add: list_pos_def)
    moreover from this have "D (idoms v) = dominators (edges g) r (idoms v) - {idoms v}" using Cons.prems(2) by blast
    ultimately have "dom2_climb idoms (set as) (D(v := {})) (idoms v) {} = Some (insert (idoms v) (dominators (edges g) r (idoms v) - {idoms v}))"
      using s(2,3) by (subst dom2_climb.simps) simp
    moreover have "insert (idoms v) (dominators (edges g) r (idoms v) - {idoms v}) = dominators (edges g) r v - {v}"
      using s(5) dominators_self [of "idoms v" "edges g" r] by auto
    ultimately show ?thesis by simp
  qed
  then obtain ds where ds: "dom2_climb idoms (set as) (D(v := {})) (idoms v) {} = Some ds" "ds = dominators (edges g) r v - {v}" by blast
  have "\<forall>w\<in>set (as @ [v]). (D(v := ds)) w = dominators (edges g) r w - {w}" using Cons.prems(2) ds(2) v(2) by auto
  moreover have "l = (as @ [v]) @ vs" by (simp add: Cons.prems(1))
  ultimately obtain D' where "dom2_pass idoms vs (set (as @ [v])) (D(v := ds)) = Some D'" "\<forall>w\<in>set l. D' w = dominators (edges g) r w - {w}"
    using Cons.IH [of "as @ [v]" "D(v := ds)"] by blast
  moreover have "set (as @ [v]) = insert v (set as)" by simp
  ultimately show ?case using ds(1) by (intro exI [of _ D']) simp
qed simp

lemma computeDom2_correct:
  assumes "flow_list g rpo r l" "idoms_ok g r l idoms"
  shows "\<exists>D'. computeDom2 idoms l D = Some D' \<and> (\<forall>v\<in>verts g. D' v = dominators (edges g) r v - {v})"
  using dom2_pass_correct [OF assms, of "[]" l D] flow_list_facts(2) [OF assms(1)] by (simp add: computeDom2_def)

section \<open>The tree\<close>

definition idom_edges :: "(nat \<Rightarrow> nat) \<Rightarrow> nat set \<Rightarrow> (nat \<times> nat) set" where
  "idom_edges idoms V = {(idoms v, v) | v. v \<in> V \<and> idoms v \<noteq> 0}"

lemma genDomTree_fold:
  "graph_wf dt \<Longrightarrow> g_direction dt \<Longrightarrow>
   graph_wf (fold (\<lambda>v dt. let dt = addVertex v dt in if idoms v \<noteq> 0 then addEdge (idoms v) v dt else dt) vs dt) \<and>
   verts (fold (\<lambda>v dt. let dt = addVertex v dt in if idoms v \<noteq> 0 then addEdge (idoms v) v dt else dt) vs dt) =
     verts dt \<union> set vs \<union> {idoms v | v. v \<in> set vs \<and> idoms v \<noteq> 0} \<and>
   edges (fold (\<lambda>v dt. let dt = addVertex v dt in if idoms v \<noteq> 0 then addEdge (idoms v) v dt else dt) vs dt) =
     edges dt \<union> idom_edges idoms (set vs)"
proof (induction vs arbitrary: dt)
  case Nil
  then show ?case by (simp add: idom_edges_def)
next
  case (Cons v vs)
  let ?d = "if idoms v \<noteq> 0 then addEdge (idoms v) v (addVertex v dt) else addVertex v dt"
  have d: "graph_wf ?d \<and> g_direction ?d \<and> verts ?d = insert v (verts dt) \<union> (if idoms v \<noteq> 0 then {idoms v} else {}) \<and>
      edges ?d = edges dt \<union> (if idoms v \<noteq> 0 then {(idoms v, v)} else {})"
    using addVertex_wf [OF Cons.prems(1), of v] addEdge_wf [OF addVertex_wf [OF Cons.prems(1), of v], of "idoms v" v] Cons.prems(2)
    by (auto simp: new_edge_def)
  define d1 where "d1 = ?d"
  note d = d [folded d1_def]
  note i = Cons.IH [OF conjunct1 [OF d] conjunct1 [OF conjunct2 [OF d]]]
  have e: "idom_edges idoms (set (v # vs)) = (if idoms v \<noteq> 0 then {(idoms v, v)} else {}) \<union> idom_edges idoms (set vs)"
    by (auto simp: idom_edges_def)
  have v: "{idoms w | w. w \<in> set (v # vs) \<and> idoms w \<noteq> 0} = (if idoms v \<noteq> 0 then {idoms v} else {}) \<union> {idoms w | w. w \<in> set vs \<and> idoms w \<noteq> 0}"
    by auto
  have s: "fold (\<lambda>v dt. let dt = addVertex v dt in if idoms v \<noteq> 0 then addEdge (idoms v) v dt else dt) (v # vs) dt =
      fold (\<lambda>v dt. let dt = addVertex v dt in if idoms v \<noteq> 0 then addEdge (idoms v) v dt else dt) vs d1"
    by (simp add: d1_def Let_def)
  show ?case unfolding s e v using i d by auto
qed

lemma tree_behind:
  assumes "flow_list g rpo r l" "idoms_ok g r l idoms"
  shows "v \<in> verts g \<Longrightarrow> behind ((idom_edges idoms (verts g))\<inverse>) None (takes_part None) v = dominators (edges g) r v - {v}"
proof (induction "list_pos v l" arbitrary: v rule: less_induct)
  case less
  let ?R = "{(a, b). (a, b) \<in> (idom_edges idoms (verts g))\<inverse> \<and> takes_part None b \<and> Some a \<noteq> None}"
  have R: "(a, b) \<in> ?R \<longleftrightarrow> a \<in> verts g \<and> idoms a \<noteq> 0 \<and> b = idoms a" for a b by (auto simp: idom_edges_def takes_part_def)
  have B: "behind ((idom_edges idoms (verts g))\<inverse>) None (takes_part None) a = {b. (a, b) \<in> ?R\<^sup>+}" for a by (simp add: behind_def)
  show ?case
  proof (cases "v = r")
    case True
    then have "idoms v = 0" "dominators (edges g) r v = {v}" using assms(2) by (auto simp: idoms_ok_def dominators_def)
    then have "(v, b) \<notin> ?R\<^sup>+" for b using R by (auto dest: tranclD)
    then show ?thesis unfolding B using \<open>dominators (edges g) r v = {v}\<close> by simp
  next
    case False
    note s = idoms_ok_step [OF assms less.prems False]
    have e: "(v, idoms v) \<in> ?R" using R less.prems s(2) by blast
    have u: "x = idoms v" if "(v, x) \<in> ?R" for x using R that by blast
    have i: "{b. (idoms v, b) \<in> ?R\<^sup>+} = dominators (edges g) r (idoms v) - {idoms v}" using less.hyps [OF s(4,1)] unfolding B .
    have "(v, b) \<in> ?R\<^sup>+ \<longleftrightarrow> b = idoms v \<or> (idoms v, b) \<in> ?R\<^sup>+" for b
    proof
      assume "(v, b) \<in> ?R\<^sup>+"
      then obtain x where x: "(v, x) \<in> ?R" "(x, b) \<in> ?R\<^sup>*" by (meson tranclD)
      then show "b = idoms v \<or> (idoms v, b) \<in> ?R\<^sup>+" using u [OF x(1)] rtranclD [OF x(2)] by blast
    next
      assume "b = idoms v \<or> (idoms v, b) \<in> ?R\<^sup>+"
      then show "(v, b) \<in> ?R\<^sup>+" using e by (meson r_into_trancl trancl_into_trancl2)
    qed
    then have "{b. (v, b) \<in> ?R\<^sup>+} = insert (idoms v) (dominators (edges g) r (idoms v) - {idoms v})" using i by blast
    also have "\<dots> = dominators (edges g) r v - {v}" using s(5) dominators_self [of "idoms v" "edges g" r] by auto
    finally show ?thesis unfolding B .
  qed
qed

lemma singleton_list: "distinct xs \<Longrightarrow> set xs = {a} \<Longrightarrow> xs = [a]"
  by (cases xs) (auto simp: subset_singleton_iff dest!: subset_singletonD)

lemma genDomTree_correct:
  assumes "flow_list g rpo r l" "idoms_ok g r l idoms" "g_direction dt"
  shows "\<exists>h. genDomTree g idoms dt = Some (h, Some r) \<and> graph_wf h \<and> verts h = verts g \<and> edges h = idom_edges idoms (verts g) \<and>
    (\<forall>v\<in>verts g. \<forall>d\<in>verts g. is_dom_in_tree h d v = Some (d \<in> dominators (edges g) r v \<and> d \<noteq> v))"
proof -
  note f = flow_list_facts [OF assms(1)]
  let ?dt = "(graph_erase dt)\<lparr>g_dense := g_dense g\<rparr>"
  let ?h = "fold (\<lambda>v dt. let dt = addVertex v dt in if idoms v \<noteq> 0 then addEdge (idoms v) v dt else dt) (g_order g) ?dt"
  have dt: "graph_wf ?dt" "verts ?dt = {}" "edges ?dt = {}" "g_direction ?dt"
    using assms(3) by (simp_all add: graph_wf_def graph_erase_def verts_def edges_def)
  have o: "set (g_order g) = verts g" using f(1) by (simp add: graph_wf_def)
  have sub: "{idoms v | v. v \<in> verts g \<and> idoms v \<noteq> 0} \<subseteq> verts g"
  proof
    fix x assume "x \<in> {idoms v | v. v \<in> verts g \<and> idoms v \<noteq> 0}"
    then obtain v where v: "x = idoms v" "v \<in> verts g" "idoms v \<noteq> 0" by blast
    then have "v \<noteq> r" using assms(2) by (auto simp: idoms_ok_def)
    then show "x \<in> verts g" using idoms_ok_step(1) [OF assms(1,2) v(2)] v(1) by simp
  qed
  have h: "graph_wf ?h" "verts ?h = verts g" "edges ?h = idom_edges idoms (verts g)"
    using genDomTree_fold [OF dt(1,4), of idoms "g_order g"] dt(2,3) o sub by auto
  have ins: "set (getInList ?h v) = {p. (p, v) \<in> idom_edges idoms (verts g)}" for v using in_list_set [OF h(1), of v] h(3) by simp
  have up: "getInList ?h v = (if v = r then [] else [idoms v])" if "v \<in> verts g" for v
  proof (cases "v = r")
    case True
    then have "set (getInList ?h v) = {}" using ins [of v] assms(2) by (auto simp: idom_edges_def idoms_ok_def)
    then show ?thesis using True by simp
  next
    case False
    then have "set (getInList ?h v) = {idoms v}" using ins [of v] that idoms_ok_step(2) [OF assms(1,2) that] by (auto simp: idom_edges_def)
    then show ?thesis using in_list_distinct [OF h(1), of v] False singleton_list by simp
  qed
  have root: "tree_root ?h v = Some r" if "v \<in> verts g" for v
    using that
  proof (induction "list_pos v l" arbitrary: v rule: less_induct)
    case less
    show ?case
    proof (cases "v = r")
      case True
      then show ?thesis using up [OF less.prems] by (subst tree_root.simps) simp
    next
      case False
      note s = idoms_ok_step [OF assms(1,2) less.prems False]
      show ?thesis using up [OF less.prems] False less.hyps [OF s(4,1)] by (subst tree_root.simps) simp
    qed
  qed
  have "set (g_order ?h) = verts g" using h(1,2) by (simp add: graph_wf_def)
  then obtain w ws where w: "g_order ?h = w # ws" "w \<in> verts g" using f(3) by (cases "g_order ?h") auto
  have res: "genDomTree g idoms dt = Some (?h, Some r)" using w root [OF w(2)] by (simp add: genDomTree_def)
  have "is_dom_in_tree ?h d v = Some (d \<in> dominators (edges g) r v \<and> d \<noteq> v)" if v: "v \<in> verts g" for v d
  proof -
    have B: "behind ((edges ?h)\<inverse>) None (takes_part None) v = dominators (edges g) r v - {v}"
      using tree_behind [OF assms(1,2) v] h(3) by simp
    have "dominators (edges g) r v - {v} \<subset> verts g" using dominators_before [OF assms(1,2) v] v by blast
    then have c: "card (dominators (edges g) r v - {v}) < getVertexNum ?h"
      using graph_nums(1) [OF h(1)] h(2) psubset_card_mono graph_wf_finite [OF f(1)] by metis
    obtain a b where "isReachIn ?h v d (getVertexNum ?h) None = Some (a, b)" "a \<longrightarrow> d \<in> dominators (edges g) r v - {v}"
        "\<not> a \<and> \<not> b \<longrightarrow> d \<notin> dominators (edges g) r v - {v}" "b \<longrightarrow> \<not> a \<and> getVertexNum ?h \<le> card (dominators (edges g) r v - {v})"
      using isReachIn_correct [OF h(1), of v d "getVertexNum ?h" None] unfolding B by blast
    then show ?thesis using c by (auto simp: is_dom_in_tree_def)
  qed
  then show ?thesis using res h by blast
qed

end
