(* ===== verification/GraphClaims.thy ===== *)
theory GraphClaims
  imports DomTree
begin

text \<open>
  What holds of graphs and dominators, with a witness for each property on the diamond 2 \<open>\<rightarrow>\<close> 3, 4 \<open>\<rightarrow>\<close> 5.
\<close>

section \<open>The diamond\<close>

definition diamond :: Graph where
  "diamond = addEdge 4 5 (addEdge 3 5 (addEdge 2 4 (addEdge 2 3 (graph_init True length))))"

lemma diamond_sets: "graph_wf diamond" "verts diamond = {2, 3, 4, 5}" "edges diamond = {(2, 3), (2, 4), (3, 5), (4, 5)}"
  "g_direction diamond"
proof -
  let ?a = "addEdge 2 3 (graph_init True length)"
  have a: "graph_wf ?a" "verts ?a = {2, 3}" "edges ?a = {(2, 3)}" "g_direction ?a"
    using addEdge_wf [of "graph_init True length" 2 3] graph_init_wf [of True length] by (auto simp: new_edge_def graph_init_def)
  let ?b = "addEdge 2 4 ?a"
  have b: "graph_wf ?b" "verts ?b = {2, 3, 4}" "edges ?b = {(2, 3), (2, 4)}" "g_direction ?b"
    using addEdge_wf [OF a(1), of 2 4] a(2-4) by (auto simp: new_edge_def)
  let ?c = "addEdge 3 5 ?b"
  have c: "graph_wf ?c" "verts ?c = {2, 3, 4, 5}" "edges ?c = {(2, 3), (2, 4), (3, 5)}" "g_direction ?c"
    using addEdge_wf [OF b(1), of 3 5] b(2-4) by (auto simp: new_edge_def)
  show "graph_wf diamond" "verts diamond = {2, 3, 4, 5}" "edges diamond = {(2, 3), (2, 4), (3, 5), (4, 5)}" "g_direction diamond"
    using addEdge_wf [OF c(1), of 4 5] c(2-4) by (auto simp: new_edge_def diamond_def)
qed

lemma diamond_entry: "is_graph_entry diamond 2"
proof -
  have "set (getInList diamond 2) = {}" using in_list_set [OF diamond_sets(1), of 2] by (simp add: diamond_sets)
  then show ?thesis by (simp add: is_graph_entry_def)
qed

lemma diamond_reach: "(2, v) \<in> (edges diamond)\<^sup>* \<longleftrightarrow> v \<in> {2, 3, 4, 5}"
proof
  show "(2, v) \<in> (edges diamond)\<^sup>* \<Longrightarrow> v \<in> {2, 3, 4, 5}"
    by (induction rule: rtrancl_induct) (auto simp: diamond_sets)
  have "(2, 3) \<in> edges diamond" "(2, 4) \<in> edges diamond" "(3, 5) \<in> edges diamond" by (simp_all add: diamond_sets)
  then show "v \<in> {2, 3, 4, 5} \<Longrightarrow> (2, v) \<in> (edges diamond)\<^sup>*"
    by (auto intro: rtrancl_into_rtrancl r_into_rtrancl)
qed

lemma diamond_acyclic: "acyclic (edges diamond)"
proof (rule wf_acyclic)
  have "edges diamond \<subseteq> less_than" by (auto simp: diamond_sets)
  then show "wf (edges diamond)" by (rule wf_subset [OF wf_less_than])
qed

lemma diamond_dominators:
  assumes "v \<in> {3, 4, 5}"
  shows "dominators (edges diamond) 2 v \<inter> verts diamond = {2, v}"
proof -
  have d: "d \<notin> dominators (edges diamond) 2 w" if "d \<noteq> 2" "(2, w) \<in> (around (edges diamond) d)\<^sup>*" for d w
    using that by (simp add: dominators_def)
  have a: "(a, b) \<in> around (edges diamond) d \<longleftrightarrow> (a, b) \<in> {(2, 3), (2, 4), (3, 5), (4, 5)} \<and> a \<noteq> d \<and> b \<noteq> d" for a b d
    by (simp add: around_def diamond_sets)
  have "3 \<notin> dominators (edges diamond) 2 4" "5 \<notin> dominators (edges diamond) 2 4" "4 \<notin> dominators (edges diamond) 2 3"
    "5 \<notin> dominators (edges diamond) 2 3" by (rule d; auto intro: r_into_rtrancl simp: a)+
  moreover have "(2, 4) \<in> around (edges diamond) 3" "(4, 5) \<in> around (edges diamond) 3" "(2, 3) \<in> around (edges diamond) 4"
    "(3, 5) \<in> around (edges diamond) 4" unfolding a by simp_all
  then have "(2, 5) \<in> (around (edges diamond) 3)\<^sup>*" "(2, 5) \<in> (around (edges diamond) 4)\<^sup>*"
    by (meson rtrancl.rtrancl_into_rtrancl r_into_rtrancl)+
  then have "3 \<notin> dominators (edges diamond) 2 5" "4 \<notin> dominators (edges diamond) 2 5" using d by simp_all
  moreover have "2 \<in> dominators (edges diamond) 2 w" for w by (simp add: dominators_def)
  ultimately show ?thesis using assms dominators_self [of v "edges diamond" 2] by (auto simp: diamond_sets)
qed

lemma diamond_not_dominators:
  assumes "v \<in> {3, 4, 5}" "d \<in> {3, 4, 5}" "d \<noteq> v"
  shows "d \<notin> dominators (edges diamond) 2 v"
proof
  assume "d \<in> dominators (edges diamond) 2 v"
  then have "d \<in> dominators (edges diamond) 2 v \<inter> verts diamond" using assms(2) by (auto simp: diamond_sets(2))
  then show False using diamond_dominators [OF assms(1)] assms(2,3) by auto
qed

lemma rpo_fitsI: "card (verts g) * 10 < 2 ^ 31 \<Longrightarrow> rpo_fits g"
  by (simp add: rpo_fits_def RPO_INTERVAL_def)

lemma diamond_fits: "card (verts diamond) * 10 < 2 ^ 31"
  by (simp add: diamond_sets(2))

section \<open>Dominators\<close>

text \<open>
  C3: on a graph whose vertices are all reachable from its one entry, numbering in reverse post-order and then walking up
  the tree found so far ends. Every vertex but the entry gets the immediate dominator: a dominator other than itself that
  all its other dominators dominate. The entry gets none.
\<close>

theorem idoms_are_immediate:
  assumes "graph_wf g" "0 \<notin> verts g" "r \<in> verts g" "is_graph_entry g r" "\<forall>v\<in>verts g. (r, v) \<in> (edges g)\<^sup>*"
    "card (verts g) * 10 < 2 ^ 31"
  shows "\<exists>l rpo' idoms. computeRPO g r rpo = Some (l, rpo') \<and> computeIdom2 g rpo' l = Some idoms \<and> idoms r = 0 \<and>
    (\<forall>v\<in>verts g. v \<noteq> r \<longrightarrow> idoms v \<in> dominators (edges g) r v - {v} \<and>
       dominators (edges g) r v - {v} \<subseteq> dominators (edges g) r (idoms v))"
proof -
  obtain l rpo' where l: "computeRPO g r rpo = Some (l, rpo')" "flow_list g rpo' r l" using rpo_flow_list [OF assms(1-5) rpo_fitsI [OF assms(6)]] by blast
  obtain idoms where i: "computeIdom2 g rpo' l = Some idoms" "idoms_ok g r l idoms"
    using computeIdom2_correct [OF l(2)] by (auto simp: idoms_ok_def)
  have "idoms v \<in> dominators (edges g) r v - {v} \<and> dominators (edges g) r v - {v} \<subseteq> dominators (edges g) r (idoms v)"
    if "v \<in> verts g" "v \<noteq> r" for v
    using idoms_ok_step(3,5) [OF l(2) i(2) that] i(2) that by (auto simp: idoms_ok_def)
  moreover have "idoms r = 0" using i(2) by (simp add: idoms_ok_def)
  ultimately show ?thesis using l(1) i(1) by blast
qed

lemma idoms_are_immediate_witness:
  "\<exists>l rpo' idoms. computeRPO diamond 2 (\<lambda>v. 0) = Some (l, rpo') \<and> computeIdom2 diamond rpo' l = Some idoms \<and>
     idoms 2 = 0 \<and> idoms 5 \<notin> {3, 4} \<and> idoms 3 \<notin> {3, 4, 5}"
proof -
  have h: "0 \<notin> verts diamond" "2 \<in> verts diamond" "\<forall>v\<in>verts diamond. (2, v) \<in> (edges diamond)\<^sup>*"
    by (simp_all add: diamond_sets(2) diamond_reach)
  obtain l rpo' idoms where i: "computeRPO diamond 2 (\<lambda>v. 0) = Some (l, rpo')" "computeIdom2 diamond rpo' l = Some idoms"
      "idoms 2 = 0" "\<forall>v\<in>verts diamond. v \<noteq> 2 \<longrightarrow> idoms v \<in> dominators (edges diamond) 2 v - {v} \<and>
         dominators (edges diamond) 2 v - {v} \<subseteq> dominators (edges diamond) 2 (idoms v)"
    using idoms_are_immediate [OF diamond_sets(1) h(1,2) diamond_entry h(3) diamond_fits, of "\<lambda>v. 0"] by blast
  have "idoms 5 \<in> dominators (edges diamond) 2 5 - {5}" "idoms 3 \<in> dominators (edges diamond) 2 3 - {3}"
    using i(4) [THEN bspec, of 5] i(4) [THEN bspec, of 3] by (simp_all add: diamond_sets(2))
  moreover have "3 \<notin> dominators (edges diamond) 2 5" "4 \<notin> dominators (edges diamond) 2 5" "4 \<notin> dominators (edges diamond) 2 3"
    "5 \<notin> dominators (edges diamond) 2 3"
    by (simp_all add: diamond_not_dominators)
  ultimately have "idoms 5 \<noteq> 3 \<and> idoms 5 \<noteq> 4 \<and> idoms 3 \<notin> {3, 4, 5}" by auto
  then show ?thesis using i(1-3) by (intro exI [of _ l] exI [of _ rpo'] exI [of _ idoms]) auto
qed

text \<open>
  C7: the three ways to dominators agree. On such a graph the sets \<open>computeDom\<close> returns when its last pass changed
  nothing are the dominators, the immediate dominators \<open>computeIdom\<close> picks from them are those \<open>computeIdom2\<close> finds, and
  the sets \<open>computeDom2\<close> fills in from these are the strict dominators.
\<close>

theorem dominator_computations_agree:
  assumes "graph_wf g" "0 \<notin> verts g" "r \<in> verts g" "is_graph_entry g r" "\<forall>v\<in>verts g. (r, v) \<in> (edges g)\<^sup>*"
    "card (verts g) * 10 < 2 ^ 31" "distinct vl" "set vl = verts g" "computeDom g (Some vl) None doms = (False, D)"
  shows "(\<forall>v\<in>verts g. D v = dominators (edges g) r v) \<and>
    (\<exists>l rpo' D2. computeRPO g r rpo = Some (l, rpo') \<and> computeIdom2 g rpo' l = Some (computeIdom g D) \<and>
       computeDom2 (computeIdom g D) l doms2 = Some D2 \<and> (\<forall>v\<in>verts g. D2 v = dominators (edges g) r v - {v}))"
proof -
  obtain l rpo' where l: "computeRPO g r rpo = Some (l, rpo')" "flow_list g rpo' r l" using rpo_flow_list [OF assms(1-5) rpo_fitsI [OF assms(6)]] by blast
  obtain idoms where i: "computeIdom2 g rpo' l = Some idoms" "idoms_ok g r l idoms"
    using computeIdom2_correct [OF l(2)] by (auto simp: idoms_ok_def)
  have "\<forall>v\<in>verts g. D v = all_dominators g v" using computeDom_correct [OF assms(1,7,8), of doms] assms(9) by auto
  then have D: "\<forall>v\<in>verts g. D v = dominators (edges g) r v" using all_dominators_single [OF l(2) i(2)] by simp
  have "computeIdom g D = idoms" by (rule computeIdom_correct [OF l(2) i(2)]) (use D in simp)
  then show ?thesis using D l(1) i(1) computeDom2_correct [OF l(2) i(2), of doms2] by blast
qed

lemma diamond_preds: "set (getInList diamond 2) = {}" "set (getInList diamond 3) = {2}" "set (getInList diamond 4) = {2}"
  "set (getInList diamond 5) = {3, 4}"
  by (auto simp: in_list_set [OF diamond_sets(1)] diamond_sets(3))

lemma diamond_in_order: "in_order (getInList diamond) [2, 3, 4, 5]"
proof -
  have "set (getInList diamond v) \<subseteq> set as" if "[2, 3, 4, 5] = as @ v # bs" for as v bs
    using that diamond_preds by (auto simp: Cons_eq_append_conv)
  then show ?thesis by (simp add: in_order_def)
qed

lemma dominator_computations_agree_witness:
  "\<exists>D. computeDom diamond (Some [2, 3, 4, 5]) None (\<lambda>v. {}) = (False, D) \<and> D 5 \<inter> verts diamond = {2, 5}"
proof -
  have h: "0 \<notin> verts diamond" "2 \<in> verts diamond" "\<forall>v\<in>verts diamond. (2, v) \<in> (edges diamond)\<^sup>*"
    "distinct [2, 3, 4, 5 :: nat]" "set [2, 3, 4, 5] = verts diamond"
    by (simp_all add: diamond_sets(2) diamond_reach)
  obtain D where D: "computeDom diamond (Some [2, 3, 4, 5]) None (\<lambda>v. {}) = (False, D)"
    using computeDom_correct [OF diamond_sets(1) h(4,5), of "\<lambda>v. {}"] diamond_in_order by auto
  have "D 5 = dominators (edges diamond) 2 5"
    using dominator_computations_agree [OF diamond_sets(1) h(1,2) diamond_entry h(3) diamond_fits h(4,5) D, THEN conjunct1] by (simp add: diamond_sets(2))
  then show ?thesis using D diamond_dominators [of 5] by simp
qed

text \<open>
  C8: the dominator tree: \<open>genDomTree\<close> finds the entry as its root, and \<open>is_dom\<close> on the tree, a bounded search upward,
  answers whether one vertex strictly dominates the other.
\<close>

theorem dom_tree_decides_dominance:
  assumes "graph_wf g" "0 \<notin> verts g" "r \<in> verts g" "is_graph_entry g r" "\<forall>v\<in>verts g. (r, v) \<in> (edges g)\<^sup>*"
    "card (verts g) * 10 < 2 ^ 31" "g_direction dt"
  shows "\<exists>l rpo' idoms h. computeRPO g r rpo = Some (l, rpo') \<and> computeIdom2 g rpo' l = Some idoms \<and>
    genDomTree g idoms dt = Some (h, Some r) \<and> graph_wf h \<and> verts h = verts g \<and>
    (\<forall>v\<in>verts g. \<forall>d\<in>verts g. is_dom_in_tree h d v = Some (d \<in> dominators (edges g) r v \<and> d \<noteq> v))"
proof -
  obtain l rpo' where l: "computeRPO g r rpo = Some (l, rpo')" "flow_list g rpo' r l" using rpo_flow_list [OF assms(1-5) rpo_fitsI [OF assms(6)]] by blast
  obtain idoms where i: "computeIdom2 g rpo' l = Some idoms" "idoms_ok g r l idoms"
    using computeIdom2_correct [OF l(2)] by (auto simp: idoms_ok_def)
  show ?thesis using l(1) i(1) genDomTree_correct [OF l(2) i(2) assms(7)] by blast
qed

lemma dom_tree_decides_dominance_witness:
  "\<exists>idoms h. genDomTree diamond idoms (graph_init True length) = Some (h, Some 2) \<and>
     is_dom_in_tree h 2 5 = Some True \<and> is_dom_in_tree h 3 5 = Some False"
proof -
  have h: "0 \<notin> verts diamond" "2 \<in> verts diamond" "\<forall>v\<in>verts diamond. (2, v) \<in> (edges diamond)\<^sup>*"
    by (simp_all add: diamond_sets(2) diamond_reach)
  have "g_direction (graph_init True length)" by (simp add: graph_init_def)
  from dom_tree_decides_dominance [OF diamond_sets(1) h(1,2) diamond_entry h(3) diamond_fits this]
  obtain idoms h where t: "genDomTree diamond idoms (graph_init True length) = Some (h, Some 2)"
      "\<forall>v\<in>verts diamond. \<forall>d\<in>verts diamond. is_dom_in_tree h d v = Some (d \<in> dominators (edges diamond) 2 v \<and> d \<noteq> v)" by blast
  have "2 \<in> dominators (edges diamond) 2 5 \<inter> verts diamond" "3 \<notin> dominators (edges diamond) 2 5 \<inter> verts diamond"
    using diamond_dominators [of 5] by simp_all
  then have "2 \<in> dominators (edges diamond) 2 5" "3 \<notin> dominators (edges diamond) 2 5" by (simp_all add: diamond_sets(2))
  then have "is_dom_in_tree h 2 5 = Some True" "is_dom_in_tree h 3 5 = Some False" using t(2) by (simp_all add: diamond_sets(2))
  then show ?thesis using t(1) by blast
qed

text \<open>
  With the vertices in any order the sets \<open>computeDom\<close> returns after its ten passes contain the dominators; they are
  the dominators when the last pass changed nothing, and nothing changes after the first pass when every predecessor stands
  before its successors. A graph may have several entries: a dominator lies on all ways from all of them.
\<close>

theorem dominator_sets_sound:
  assumes "graph_wf g" "distinct l" "set l = verts g"
  shows "\<exists>change D. computeDom g (Some l) None doms = (change, D) \<and> (\<forall>v\<in>verts g. all_dominators g v \<subseteq> D v) \<and>
    (\<not> change \<longrightarrow> (\<forall>v\<in>verts g. D v = all_dominators g v)) \<and> (in_order (getInList g) l \<longrightarrow> \<not> change)"
  by (rule computeDom_correct [OF assms])

lemma diamond_single: "v \<in> verts diamond \<Longrightarrow> all_dominators diamond v = dominators (edges diamond) 2 v \<inter> verts diamond"
proof -
  have "is_graph_entry diamond r \<longleftrightarrow> r = 2" if "r \<in> verts diamond" for r
  proof
    assume "is_graph_entry diamond r"
    then have "set (getInList diamond r) = {}" by (simp add: is_graph_entry_def)
    then show "r = 2" using that diamond_preds by (auto simp: diamond_sets(2))
  qed (simp add: diamond_entry)
  then show ?thesis by (auto simp: all_dominators_def diamond_sets(2))
qed

lemma dominator_sets_sound_witness:
  "\<exists>D. computeDom diamond (Some [2, 3, 4, 5]) None (\<lambda>v. {}) = (False, D) \<and> D 5 = {2, 5}"
proof -
  have "distinct [2, 3, 4, 5 :: nat]" "set [2, 3, 4, 5] = verts diamond" by (simp_all add: diamond_sets(2))
  from dominator_sets_sound [OF diamond_sets(1) this, of "\<lambda>v. {}"] diamond_in_order
  obtain D where D: "computeDom diamond (Some [2, 3, 4, 5]) None (\<lambda>v. {}) = (False, D)" "\<forall>v\<in>verts diamond. D v = all_dominators diamond v"
    by auto
  have v: "5 \<in> verts diamond" by (simp add: diamond_sets(2))
  have "D 5 = {2, 5}" using D(2) v diamond_single [OF v] diamond_dominators [of 5] by simp
  then show ?thesis using D(1) by blast
qed

section \<open>Orders\<close>

lemma topological_in_order:
  assumes "graph_wf g" "distinct l" "topological (edges g) l"
  shows "in_order (getInList g) l"
proof -
  have "u \<in> set as" if "l = as @ v # bs" "u \<in> set (getInList g v)" for as v bs u
  proof -
    have "(u, v) \<in> edges g" using that(2) in_list_set [OF assms(1)] by simp
    moreover have "v \<in> set l" using that(1) by simp
    ultimately have "u \<in> set l" "list_pos u l < list_pos v l" using assms(3) unfolding topological_def by blast+
    moreover have "list_pos v l = length as" using assms(2) that(1) by (simp add: list_pos_split)
    moreover have "length as \<le> list_pos u l" if "u \<notin> set as" using \<open>l = as @ v # bs\<close> that by (simp add: list_pos_append)
    ultimately show "u \<in> set as" by (cases "u \<in> set as") simp_all
  qed
  then show ?thesis using assms(2) by (simp add: in_order_def subset_iff)
qed

text \<open>
  C17: sorting in topological order ends; it succeeds exactly on an acyclic graph, and then the vector lists every vertex
  once, behind all its predecessors. With this order the passes of \<open>computeDom\<close> always converge to the dominators.
\<close>

theorem topological_sort_and_dominators:
  assumes "graph_wf g" "card (verts g) < 2147483648"
  shows "\<exists>ok v. sortInTopologOrder g vec_init = Some (ok, v) \<and> (ok \<longleftrightarrow> acyclic (edges g)) \<and>
    (ok \<longrightarrow> distinct (vec_list v) \<and> set (vec_list v) = verts g \<and> topological (edges g) (vec_list v) \<and>
       (\<exists>D. computeDom g (Some (vec_list v)) None doms = (False, D) \<and> (\<forall>x\<in>verts g. D x = all_dominators g x)))"
proof -
  obtain ok v where s: "sortInTopologOrder g vec_init = Some (ok, v)" "ok \<longleftrightarrow> acyclic (edges g)"
      "ok \<longrightarrow> distinct (vec_list v) \<and> set (vec_list v) = verts g \<and> topological (edges g) (vec_list v)"
    using sortInTopologOrder_correct [OF assms] by blast
  have "\<exists>D. computeDom g (Some (vec_list v)) None doms = (False, D) \<and> (\<forall>x\<in>verts g. D x = all_dominators g x)" if ok
  proof -
    have l: "distinct (vec_list v)" "set (vec_list v) = verts g" "topological (edges g) (vec_list v)" using s(3) that by simp_all
    show ?thesis using computeDom_correct [OF assms(1) l(1,2), of doms] topological_in_order [OF assms(1) l(1,3)] by auto
  qed
  then show ?thesis using s by blast
qed

lemma topological_sort_and_dominators_witness:
  "\<exists>v. sortInTopologOrder diamond vec_init = Some (True, v) \<and> topological (edges diamond) (vec_list v)"
proof -
  have "card (verts diamond) < 2147483648" by (simp add: diamond_sets(2))
  from topological_sort_and_dominators [OF diamond_sets(1) this, of "\<lambda>v. {}"] obtain ok v where
    "sortInTopologOrder diamond vec_init = Some (ok, v)" "ok \<longleftrightarrow> acyclic (edges diamond)"
    "ok \<longrightarrow> topological (edges diamond) (vec_list v)" by blast
  then show ?thesis using diamond_acyclic by auto
qed

text \<open>
  C18: for a graph of fewer than 2^31 / 10 vertices, so that their numbers fit an \<open>INT\<close>: when the root is an entry and
  reaches every vertex, the numbering in reverse post-order ends and lists the vertices, the root first, numbered from
  \<open>RPO_INIT_VAL = 0\<close> in steps of \<open>RPO_INTERVAL = 10\<close>. Every other vertex has a predecessor with a smaller number, and an
  edge that does not lead to a larger number closes a cycle. With any other root, or a vertex the root does not reach, an
  assertion fails.
\<close>

theorem rpo_numbers_flow:
  assumes "graph_wf g" "r \<in> verts g" "card (verts g) * 10 < 2 ^ 31"
  shows "if is_graph_entry g r \<and> (\<forall>v\<in>verts g. (r, v) \<in> (edges g)\<^sup>*)
    then \<exists>l rpo'. computeRPO g r rpo = Some (l, rpo') \<and> distinct l \<and> hd l = r \<and> set l = verts g \<and>
      (\<forall>i<length l. rpo' (l ! i) = 10 * int i) \<and>
      (\<forall>x\<in>verts g - {r}. \<exists>p\<in>verts g. (p, x) \<in> edges g \<and> rpo' p < rpo' x) \<and>
      (\<forall>a b. (a, b) \<in> edges g \<longrightarrow> rpo' a < rpo' b \<or> (b, a) \<in> (edges g)\<^sup>*) \<and> (\<forall>x. x \<notin> verts g \<longrightarrow> rpo' x = rpo x)
    else computeRPO g r rpo = None"
proof (split if_split, intro conjI impI)
  note C = computeRPO_correct [OF assms(1,2) rpo_fitsI [OF assms(3)], of rpo]
  show "computeRPO g r rpo = None" if "\<not> (is_graph_entry g r \<and> (\<forall>v\<in>verts g. (r, v) \<in> (edges g)\<^sup>*))"
    using C unfolding if_not_P [OF that] .
  assume h: "is_graph_entry g r \<and> (\<forall>v\<in>verts g. (r, v) \<in> (edges g)\<^sup>*)"
  obtain l rpo' where c: "computeRPO g r rpo = Some (l, rpo')" and ok: "rpo_list_ok g r l" and rs: "set l = verts g"
    and e: "\<forall>as a bs b. l = as @ a # bs \<longrightarrow> (a, b) \<in> edges g \<longrightarrow> b \<in> set bs \<or> (b, a) \<in> (edges g)\<^sup>*"
    and n: "\<forall>i<length l. rpo' (l ! i) = RPO_INIT_VAL + int i * RPO_INTERVAL" and o: "\<forall>x. x \<notin> verts g \<longrightarrow> rpo' x = rpo x"
    using C unfolding if_P [OF h] by (elim exE conjE) (rule that; assumption)
  have d: "distinct l" "hd l = r" "l \<noteq> []" using ok by (simp_all add: rpo_list_ok_def)
  have up: "rpo' a < rpo' b" if h: "l = as @ a # bs" "b \<in> set bs" for as a b bs
  proof -
    obtain j where j: "j < length bs" "b = bs ! j" using h(2) by (auto simp: in_set_conv_nth)
    have "length as < length l" "length as + Suc j < length l" using h(1) j(1) by simp_all
    then have "rpo' (l ! length as) < rpo' (l ! (length as + Suc j))"
      using n [THEN spec, of "length as"] n [THEN spec, of "length as + Suc j"] by (simp add: RPO_INTERVAL_def)
    then show ?thesis using h(1) j by (simp add: nth_append)
  qed
  have p: "\<exists>p\<in>verts g. (p, x) \<in> edges g \<and> rpo' p < rpo' x" if h: "x \<in> verts g - {r}" for x
  proof -
    have "x \<in> set l" using h rs by simp
    then obtain as bs where x: "l = as @ x # bs" by (meson split_list)
    then have "as \<noteq> []" using d(2) h by auto
    then obtain q where q: "q \<in> set as" "(q, x) \<in> edges g" using ok x unfolding rpo_list_ok_def by blast
    obtain cs ds where "as = cs @ q # ds" using q(1) by (meson split_list)
    then show ?thesis using q(2) x rs up [of cs q "ds @ x # bs" x] by auto
  qed
  have b: "rpo' a < rpo' b \<or> (b, a) \<in> (edges g)\<^sup>*" if h: "(a, b) \<in> edges g" for a b
  proof -
    have "a \<in> set l" using graph_wf_edge [OF assms(1) h] rs by simp
    then obtain as bs where "l = as @ a # bs" by (meson split_list)
    then show ?thesis using e up h by blast
  qed
  have "\<forall>i<length l. rpo' (l ! i) = 10 * int i" using n by (simp add: RPO_INIT_VAL_def RPO_INTERVAL_def)
  then show "\<exists>l rpo'. computeRPO g r rpo = Some (l, rpo') \<and> distinct l \<and> hd l = r \<and> set l = verts g \<and>
      (\<forall>i<length l. rpo' (l ! i) = 10 * int i) \<and>
      (\<forall>x\<in>verts g - {r}. \<exists>p\<in>verts g. (p, x) \<in> edges g \<and> rpo' p < rpo' x) \<and>
      (\<forall>a b. (a, b) \<in> edges g \<longrightarrow> rpo' a < rpo' b \<or> (b, a) \<in> (edges g)\<^sup>*) \<and> (\<forall>x. x \<notin> verts g \<longrightarrow> rpo' x = rpo x)"
    using c d(1,2) rs p b o by (intro exI [of _ l] exI [of _ rpo'] conjI) blast+
qed

lemma rpo_numbers_flow_witness:
  "\<exists>l rpo'. computeRPO diamond 2 (\<lambda>v. 0) = Some (l, rpo') \<and> set l = {2, 3, 4, 5} \<and> rpo' 2 = 0 \<and> rpo' 2 < rpo' 3 \<and>
     rpo' 3 < rpo' 5 \<and> computeRPO diamond 3 (\<lambda>v. 0) = None"
proof -
  have h: "2 \<in> verts diamond" "3 \<in> verts diamond" by (simp_all add: diamond_sets(2))
  have e: "is_graph_entry diamond 2 \<and> (\<forall>v\<in>verts diamond. (2, v) \<in> (edges diamond)\<^sup>*)"
    using diamond_entry by (simp add: diamond_sets(2) diamond_reach)
  obtain l rpo' where l: "computeRPO diamond 2 (\<lambda>v. 0) = Some (l, rpo')" "hd l = 2" "set l = verts diamond"
      "\<forall>i<length l. rpo' (l ! i) = 10 * int i" "\<forall>a b. (a, b) \<in> edges diamond \<longrightarrow> rpo' a < rpo' b \<or> (b, a) \<in> (edges diamond)\<^sup>*"
    using rpo_numbers_flow [OF diamond_sets(1) h(1) diamond_fits, of "\<lambda>v. 0"] unfolding if_P [OF e]
    by (elim exE conjE) (rule that; assumption)
  have b: "(b, a) \<notin> (edges diamond)\<^sup>*" if "(a, b) \<in> edges diamond" for a b
    using diamond_acyclic that by (meson acyclic_def rtrancl_into_trancl1)
  have d: "(2, 3) \<in> edges diamond" "(3, 5) \<in> edges diamond" by (simp_all add: diamond_sets(3))
  then have "rpo' 2 < rpo' 3" "rpo' 3 < rpo' 5" using l(5) b by blast+
  moreover have "l \<noteq> []" using l(3) h(1) by auto
  then have "rpo' 2 = 0" using l(2,4) by (cases l) auto
  moreover have "\<not> is_graph_entry diamond 3" using in_list_set [OF diamond_sets(1), of 3] d(1) by (auto simp: is_graph_entry_def)
  then have "computeRPO diamond 3 (\<lambda>v. 0) = None"
    using rpo_numbers_flow [OF diamond_sets(1) h(2) diamond_fits, of "\<lambda>v. 0"] by simp
  ultimately show ?thesis using l(1,3) by (auto simp: diamond_sets(2))
qed

section \<open>Operations\<close>

text \<open>
  Removing what is not reachable from the entry keeps exactly the reachable vertices and the edges between them and
  reports whether there was anything to remove; the recursion ends.
\<close>

theorem unreachable_removed:
  assumes "graph_wf g" "x \<in> verts g"
  shows "\<exists>h. removeUnreachNode g x = Some (\<exists>v\<in>verts g. (x, v) \<notin> (edges g)\<^sup>*, h) \<and> graph_wf h \<and>
    verts h = {v. (x, v) \<in> (edges g)\<^sup>*} \<and> edges h = {(a, b) \<in> edges g. (x, a) \<in> (edges g)\<^sup>*}"
  by (rule removeUnreachNode_correct [OF assms])

lemma unreachable_removed_witness:
  "\<exists>h. removeUnreachNode diamond 3 = Some (True, h) \<and> 2 \<notin> verts h \<and> 5 \<in> verts h"
proof -
  have v: "3 \<in> verts diamond" "2 \<in> verts diamond" "(3, 5) \<in> edges diamond" by (simp_all add: diamond_sets)
  have "(3, y) \<in> (edges diamond)\<^sup>* \<Longrightarrow> y \<noteq> 2" for y
    by (induction rule: rtrancl_induct) (auto simp: diamond_sets(3))
  then have n: "(3, 2) \<notin> (edges diamond)\<^sup>*" by blast
  have e: "(\<exists>v\<in>verts diamond. (3, v) \<notin> (edges diamond)\<^sup>*) = True" using n v(2) by blast
  show ?thesis using unreachable_removed [OF diamond_sets(1) v(1), unfolded e] n v(3) by auto
qed

text \<open>
  C24: adding and removing vertices and edges keep the graph well-formed (the two lists of every vertex are duplicate-free
  and hold exactly its edges, the edge table is ordered) and act on the sets of vertices and edges. In an undirected graph
  a new edge is stored from its second end to its first, and removing the edges between two vertices removes both directions
  in a directed graph too.
\<close>

theorem graph_updates:
  assumes "graph_wf g"
  shows "(graph_wf (addVertex u g) \<and> verts (addVertex u g) = insert u (verts g) \<and> edges (addVertex u g) = edges g) \<and>
    (graph_wf (addEdge u v g) \<and> verts (addEdge u v g) = {u, v} \<union> verts g \<and>
    edges (addEdge u v g) = insert (if g_direction g \<or> (u, v) \<in> edges g then (u, v) else (v, u)) (edges g)) \<and>
    (graph_wf (removeEdge (u, v) g) \<and> verts (removeEdge (u, v) g) = verts g \<and> edges (removeEdge (u, v) g) = edges g - {(u, v)}) \<and>
    (graph_wf (removeEdgeBetween u v g) \<and> verts (removeEdgeBetween u v g) = verts g \<and>
    edges (removeEdgeBetween u v g) = edges g - {(u, v), (v, u)}) \<and>
    (graph_wf (removeVertex u g) \<and> verts (removeVertex u g) = verts g - {u} \<and>
    edges (removeVertex u g) = {(a, b) \<in> edges g. a \<noteq> u \<and> b \<noteq> u})"
  using addVertex_wf [OF assms] addEdge_wf [OF assms] removeEdge_wf [OF assms] removeEdgeBetween_removes [OF assms]
    removeVertex_wf [OF assms]
  by (simp_all add: new_edge_def removes_def)

lemma graph_updates_witness:
  "edges (removeVertex 3 diamond) = {(2, 4), (4, 5)} \<and> edges (addEdge 5 2 diamond) = {(5, 2), (2, 3), (2, 4), (3, 5), (4, 5)}"
proof
  have "edges (removeVertex 3 diamond) = {(a, b) \<in> edges diamond. a \<noteq> 3 \<and> b \<noteq> 3}"
    using graph_updates [OF diamond_sets(1), of 3 0] by simp
  also have "\<dots> = {(2, 4), (4, 5)}" unfolding diamond_sets(3) by auto
  finally show "edges (removeVertex 3 diamond) = {(2, 4), (4, 5)}" .
  show "edges (addEdge 5 2 diamond) = {(5, 2), (2, 3), (2, 4), (3, 5), (4, 5)}"
    using graph_updates [OF diamond_sets(1), of 5 2] by (simp add: diamond_sets(3,4))
qed

text \<open>
  The changes in place keep the order of the edge lists. A vertex put between two others takes the place of each in the
  other's list, and the edges that replace an in-edge stand where it stood, whose position is returned.
\<close>

theorem edges_replaced_in_place:
  assumes "graph_wf g" "g_direction g" "getInList g t = A @ v # B"
  shows "(n \<notin> verts g \<longrightarrow> (let h = insertVertexBetween v t n True g in
      graph_wf h \<and> verts h = insert n (verts g) \<and> edges h = edges g - {(v, t)} \<union> {(v, n), (n, t)} \<and>
      (\<forall>w. getOutList h w = (if w = n then [t] else if w = v then subst_elem t n (getOutList g v) else getOutList g w)) \<and>
      (\<forall>w. getInList h w = (if w = n then [v] else if w = t then A @ n # B else getInList g w)))) \<and>
    (distinct newin \<and> set newin \<inter> set (A @ B) = {} \<longrightarrow> (\<exists>h. replaceInVertex v t newin g = Some (length A, h) \<and> graph_wf h \<and>
      verts h = verts g \<union> set newin \<and> edges h = edges g - {(v, t)} \<union> (\<lambda>x. (x, t)) ` set newin \<and>
      getInList h t = A @ newin @ B \<and> (\<forall>u. u \<noteq> t \<longrightarrow> getInList h u = getInList g u)))"
proof -
  have "v \<in> set (getInList g t)" using assms(3) by simp
  then have e: "(v, t) \<in> edges g" using in_list_set [OF assms(1)] by simp
  have "distinct (A @ v # B)" using in_list_distinct [OF assms(1), of t] assms(3) by simp
  then have s: "subst_elem v n (getInList g t) = A @ n # B" using subst_elem_split assms(3) by simp
  show ?thesis
  proof (rule conjI; rule impI)
    assume "n \<notin> verts g"
    from insertVertexBetween_correct [OF assms(1,2) e this] s
    show "let h = insertVertexBetween v t n True g in
      graph_wf h \<and> verts h = insert n (verts g) \<and> edges h = edges g - {(v, t)} \<union> {(v, n), (n, t)} \<and>
      (\<forall>w. getOutList h w = (if w = n then [t] else if w = v then subst_elem t n (getOutList g v) else getOutList g w)) \<and>
      (\<forall>w. getInList h w = (if w = n then [v] else if w = t then A @ n # B else getInList g w))" by (simp add: Let_def)
  qed (use replaceInVertex_correct [OF assms] in blast)
qed

lemma diamond_lists: "getInList diamond 5 = [3, 4]" "getOutList diamond 2 = [3, 4]"
  by code_simp+

lemma edges_replaced_in_place_witness:
  "getInList (insertVertexBetween 3 5 7 True diamond) 5 = [7, 4] \<and>
   map_option (\<lambda>(pos, h). (pos, getInList h 5)) (replaceInVertex 3 5 [8, 9] diamond) = Some (0, [8, 9, 4])"
proof
  have l: "getInList diamond 5 = [] @ 3 # [4]" by (simp add: diamond_lists)
  note e = edges_replaced_in_place [OF diamond_sets(1,4) l]
  have "7 \<notin> verts diamond" by (simp add: diamond_sets(2))
  then show "getInList (insertVertexBetween 3 5 7 True diamond) 5 = [7, 4]"
    using e [THEN conjunct1, rule_format, of 7] by (simp add: Let_def)
  have "distinct [8, 9 :: nat] \<and> set [8, 9 :: nat] \<inter> set ([] @ [4]) = {}" by simp
  from e [THEN conjunct2, rule_format, OF this]
  show "map_option (\<lambda>(pos, h). (pos, getInList h 5)) (replaceInVertex 3 5 [8, 9] diamond) = Some (0, [8, 9, 4])" by auto
qed

section \<open>Searches\<close>

text \<open>
  C26: the walks end. The two iterators visit once every vertex behind the start that the filter lets through, not beyond
  the stop vertex; the reachability tests are right unless they report that they gave up, which a limit above the number
  of vertices rules out; \<open>is_livein_from\<close> decides whether the start lies on a way to the predecessor around the vertex.
\<close>

theorem searches_are_reachability:
  assumes "graph_wf g" "pred \<in> verts g"
  shows "(\<exists>out. iterate_in g u stop cf = Some out \<and> distinct out \<and> set out = behind ((edges g)\<inverse>) stop cf u) \<and>
    (\<exists>out. iterate_out g u cf = Some out \<and> distinct out \<and> set out = behind (edges g) None cf u) \<and>
    (\<exists>r f. isReachIn g u v limit tt = Some (r, f) \<and> (f \<or> (r \<longleftrightarrow> v \<in> behind ((edges g)\<inverse>) None (takes_part tt) u)) \<and>
       \<not> (f \<and> card (verts g) < limit)) \<and>
    (\<exists>r f. isReachExit g u limit = Some (r, f) \<and> (f \<or> (r \<longleftrightarrow> (\<exists>x. (u, x) \<in> (edges g)\<^sup>* \<and> is_graph_exit g x))) \<and>
       \<not> (f \<and> card (verts g) < limit)) \<and>
    is_livein_from g w pred start = Some (start \<in> above g w pred)"
proof (intro conjI)
  let ?b = "behind ((edges g)\<inverse>) None (takes_part tt) u"
  obtain r f where i: "isReachIn g u v limit tt = Some (r, f)" "r \<longrightarrow> v \<in> ?b" "\<not> r \<and> \<not> f \<longrightarrow> v \<notin> ?b" "f \<longrightarrow> \<not> r \<and> limit \<le> card ?b"
    using isReachIn_correct [OF assms(1)] by blast
  have "card ?b \<le> card (verts g)"
  proof (rule card_mono [OF graph_wf_finite [OF assms(1)]])
    have "(u, b) \<in> {(a, b). (a, b) \<in> (edges g)\<inverse> \<and> takes_part tt b \<and> Some a \<noteq> None}\<^sup>+ \<Longrightarrow> b \<in> verts g" for b
      by (induction rule: trancl_induct) (auto dest: graph_wf_edge [OF assms(1)])
    then show "?b \<subseteq> verts g" unfolding behind_def by blast
  qed
  then show "\<exists>r f. isReachIn g u v limit tt = Some (r, f) \<and> (f \<or> (r \<longleftrightarrow> v \<in> ?b)) \<and> \<not> (f \<and> card (verts g) < limit)"
    using i by auto
  let ?x = "\<exists>x. (u, x) \<in> (edges g)\<^sup>* \<and> is_graph_exit g x"
  obtain r f where x: "isReachExit g u limit = Some (r, f)" "r \<longrightarrow> ?x" "\<not> r \<and> \<not> f \<longrightarrow> \<not> ?x" "f \<longrightarrow> \<not> r \<and> limit \<le> card (verts g)"
    using isReachExit_correct [OF assms(1)] by blast
  then show "\<exists>r f. isReachExit g u limit = Some (r, f) \<and> (f \<or> (r \<longleftrightarrow> ?x)) \<and> \<not> (f \<and> card (verts g) < limit)" by auto
qed (rule iterate_in_correct [OF assms(1)] iterate_out_correct [OF assms(1)] is_livein_from_correct [OF assms])+

lemma searches_are_reachability_witness:
  "\<exists>out. iterate_out diamond 2 (\<lambda>x. x \<noteq> 3) = Some out \<and> set out = {4, 5}"
proof -
  have "5 \<in> verts diamond" by (simp add: diamond_sets(2))
  from searches_are_reachability [OF diamond_sets(1) this, of 2 None "\<lambda>x. x \<noteq> 3" 3 9 None 2 2]
  obtain out where o: "iterate_out diamond 2 (\<lambda>x. x \<noteq> 3) = Some out" "set out = behind (edges diamond) None (\<lambda>x. x \<noteq> 3) 2" by blast
  let ?R = "{(a, b). (a, b) \<in> edges diamond \<and> b \<noteq> 3 \<and> Some a \<noteq> None}"
  have R: "(2, 4) \<in> ?R" "(4, 5) \<in> ?R" by (simp_all add: diamond_sets(3))
  have "(2, x) \<in> ?R\<^sup>+ \<Longrightarrow> x \<in> {4, 5}" for x by (induction rule: trancl_induct) (auto simp: diamond_sets(3))
  moreover have "(2, 4) \<in> ?R\<^sup>+" "(2, 5) \<in> ?R\<^sup>+" using R by (meson trancl.intros)+
  ultimately have "set out = {4, 5}" unfolding o(2) behind_def by blast
  then show ?thesis using o(1) by blast
qed

section \<open>Queries\<close>

text \<open>
  On well-formed graphs the queries read the sets of vertices and edges: edges in the order of their ends or in either
  order, neighbours, degrees, the position of a predecessor; the comparison of two graphs is the equality of both sets
  where it gives an answer.
\<close>

theorem graph_queries:
  assumes "graph_wf g" "graph_wf h"
  shows "(is_edge g u v \<longleftrightarrow> (u, v) \<in> edges g \<or> \<not> g_direction g \<and> (v, u) \<in> edges g) \<and>
    getNeighborSet g v S = (v \<in> verts g, S \<union> (if v \<in> verts g then neighbours g v else {})) \<and>
    getInDegree g v = card {u. (u, v) \<in> edges g} \<and> getOutDegree g v = card {w. (v, w) \<in> edges g} \<and>
    (isInDegreeMoreThan g v num \<longleftrightarrow> card {u. (u, v) \<in> edges g} > num) \<and>
    (is_graph_entry g v \<longleftrightarrow> {u. (u, v) \<in> edges g} = {}) \<and> (getUniqueSucc g v = Some w \<longleftrightarrow> {w. (v, w) \<in> edges g} = {w}) \<and>
    (snd (WhichPred g u v) \<longleftrightarrow> (u, v) \<in> edges g) \<and>
    getVertexNum g = card (verts g) \<and> getEdgeNum g = card (edges g) \<and>
    graph_is_equal g h \<in> {None, Some (verts g = verts h \<and> edges g = edges h)}"
proof (intro conjI)
  show "is_edge g u v \<longleftrightarrow> (u, v) \<in> edges g \<or> \<not> g_direction g \<and> (v, u) \<in> edges g"
    using is_edge_directed [OF assms(1)] is_edge_undirected [OF assms(1)] by (cases "g_direction g") auto
  show "isInDegreeMoreThan g v num \<longleftrightarrow> card {u. (u, v) \<in> edges g} > num"
    using degree_card(1) [OF assms(1), of v] by (simp add: isInDegreeMoreThan_def degree_more getInDegree_def)
  show "is_graph_entry g v \<longleftrightarrow> {u. (u, v) \<in> edges g} = {}"
    using in_list_set [OF assms(1), of v] by (simp add: is_graph_entry_def flip: set_empty)
  show "getUniqueSucc g v = Some w \<longleftrightarrow> {w. (v, w) \<in> edges g} = {w}"
  proof -
    have o: "distinct (getOutList g v)" "set (getOutList g v) = {w. (v, w) \<in> edges g}"
      using out_list_set [OF assms(1)] out_list_distinct [OF assms(1)] by auto
    have "getUniqueSucc g v = Some w \<longleftrightarrow> getOutList g v = [w]" by (auto simp: getUniqueSucc_def split: list.splits)
    also have "\<dots> \<longleftrightarrow> set (getOutList g v) = {w}" using o(1) singleton_list by auto
    finally show ?thesis using o(2) by simp
  qed
  show "snd (WhichPred g u v) \<longleftrightarrow> (u, v) \<in> edges g" using in_list_set [OF assms(1), of v] by (simp add: WhichPred_def)
  show "graph_is_equal g h \<in> {None, Some (verts g = verts h \<and> edges g = edges h)}"
    using graph_is_equal_correct [OF assms] by (cases "graph_is_equal g h") auto
qed (rule getNeighborSet_correct [OF assms(1)] degree_card [OF assms(1)] graph_nums [OF assms(1)])+

lemma graph_queries_witness: "is_edge diamond 2 3 \<and> \<not> is_edge diamond 3 2 \<and> getEdgeNum diamond = 4 \<and> getUniqueSucc diamond 3 = Some 5"
proof -
  have "is_edge diamond 2 3" "getEdgeNum diamond = 4" "getUniqueSucc diamond 3 = Some 5"
    using graph_queries [OF diamond_sets(1,1), of 2 3 "{}" 0 5] by (simp_all add: diamond_sets(3) set_eq_iff)
  moreover have "\<not> is_edge diamond 3 2"
    using graph_queries [OF diamond_sets(1,1), of 3 2 "{}" 0 5] by (simp add: diamond_sets(3,4))
  ultimately show ?thesis by simp
qed

text \<open>
  Three operations that do not do what their names say: the degree test for equality answers true as soon as the degree
  reaches the number, comparing a graph with one whose vertex has no out-edges reads through the null list, and reversing
  the edges loses one of a pair of opposite edges.
\<close>

lemma equal_degree_is_at_least: "isInDegreeEqualTo diamond 5 1" "getInDegree diamond 5 = 2"
  by code_simp+

lemma is_equal_reads_null:
  "graph_is_equal (addEdge 2 3 (graph_init True length)) (addEdge 3 2 (graph_init True length)) = None"
  by code_simp

lemma reverse_loses_edge: "g_edges (reverseEdges (addEdge 3 2 (addEdge 2 3 (graph_init True length)))) = [(2, 3)]"
  by code_simp

end
