(* ===== verification/HashTab.thy ===== *)
theory HashTab
  imports Vector
begin

text \<open>
  The hash table of \<^verbatim>\<open>src/com/sstl.h\<close>: \<open>VectorWithFreeIndex\<close>, the hash function classes and \<open>Hash\<close>. A bucket is
  its count and the list of its containers, \<open>m_bucket_size\<close> the length of the bucket array. The element vector
  holds every element at the index its container records and zero elsewhere; iteration runs over it. \<open>None\<close> is an access
  outside the bucket array.
\<close>

section \<open>A vector with a free index\<close>

record 'a VectorWithFreeIndex =
  vf_vec :: "'a Vector"
  m_free_idx :: nat

definition vf_init :: "'a::zero VectorWithFreeIndex" where
  "vf_init = \<lparr>vf_vec = vec_init, m_free_idx = 0\<rparr>"

definition vf_grow :: "'a::zero VectorWithFreeIndex \<Rightarrow> nat \<Rightarrow> 'a VectorWithFreeIndex" where
  "vf_grow v n = v\<lparr>m_free_idx := (if length (m_vec (vf_vec v)) = 0 then 0 else m_free_idx v), vf_vec := vec_grow (vf_vec v) n\<rparr>"

definition vf_clean :: "'a::zero VectorWithFreeIndex \<Rightarrow> 'a VectorWithFreeIndex" where
  "vf_clean v = v\<lparr>vf_vec := vec_clean (vf_vec v), m_free_idx := 0\<rparr>"

definition get_free_idx :: "'a::zero VectorWithFreeIndex \<Rightarrow> nat \<times> 'a VectorWithFreeIndex" where
  "get_free_idx v =
     (let n = length (m_vec (vf_vec v)) in
      if n = 0 then (0, (vf_grow v 8)\<lparr>m_free_idx := 1\<rparr>)
      else let ret = m_free_idx v
           in case List.find (\<lambda>i. m_vec (vf_vec v) ! i = 0) ([ret + 1..<n] @ [0..<ret]) of
                Some i \<Rightarrow> (ret, v\<lparr>m_free_idx := i\<rparr>)
              | None \<Rightarrow> (ret, vf_grow (v\<lparr>m_free_idx := n\<rparr>) (n * 2)))"

definition vf_set :: "'a::zero VectorWithFreeIndex \<Rightarrow> nat \<Rightarrow> 'a \<Rightarrow> 'a VectorWithFreeIndex" where
  "vf_set v i t = v\<lparr>vf_vec := vec_set (vf_vec v) i t\<rparr>"

section \<open>Hash functions\<close>

text \<open>The class \<open>HF\<close>, with its overloads for a value \<open>OBJTY\<close> (type \<open>'o\<close>).\<close>

record ('a, 'o) HashFunc =
  hf_compare :: "'a \<Rightarrow> 'a \<Rightarrow> bool"
  hf_compare_val :: "'a \<Rightarrow> 'o \<Rightarrow> bool"
  get_hash_value :: "'a \<Rightarrow> nat \<Rightarrow> nat"
  get_hash_value_val :: "'o \<Rightarrow> nat \<Rightarrow> nat"

definition hash32bit :: "32 word \<Rightarrow> 32 word" where
  "hash32bit n =
     (let n = (n + 0x7ed55d16) + push_bit 12 n;
          n = (n XOR 0xc761c23c) XOR drop_bit 19 n;
          n = (n + 0x165667b1) + push_bit 5 n;
          n = (n + 0xd3a2646c) XOR push_bit 9 n;
          n = (n + 0xfd7046c5) + push_bit 3 n;
          n = (n XOR 0xb55a4f09) XOR drop_bit 16 n
      in n)"

definition HashFuncBase :: "(64 word, 64 word) HashFunc" where
  "HashFuncBase = \<lparr>hf_compare = (=), hf_compare_val = (=),
     get_hash_value = (\<lambda>t n. unat (ucast t :: 32 word) mod n), get_hash_value_val = (\<lambda>t n. unat (ucast t :: 32 word) mod n)\<rparr>"

definition HashFuncBase2 :: "(64 word, 64 word) HashFunc" where
  "HashFuncBase2 = HashFuncBase\<lparr>get_hash_value := (\<lambda>t n. unat (hash32bit (ucast t)) AND (n - 1)),
     get_hash_value_val := (\<lambda>t n. unat (hash32bit (ucast t)) AND (n - 1))\<rparr>"

text \<open>
  The loop \<open>while (*s++) { v += (UINT)(*s); }\<close> tests one character and adds the next, so the first one never counts. A \<open>CHAR\<close>
  is signed.
\<close>

fun char_sum :: "char list \<Rightarrow> 32 word \<Rightarrow> 32 word" where
  "char_sum [] v = v"
| "char_sum [c] v = v"
| "char_sum (c # d # s) v = char_sum (d # s) (v + scast (of_char d :: 8 word))"

definition HashFuncString :: "(char list, char list) HashFunc" where
  "HashFuncString = \<lparr>hf_compare = (=), hf_compare_val = (=),
     get_hash_value = (\<lambda>s n. unat (hash32bit (char_sum s 0)) mod n), get_hash_value_val = (\<lambda>s n. unat (hash32bit (char_sum s 0)) mod n)\<rparr>"

section \<open>The table\<close>

record 'a HC =
  HC_vec_idx :: nat
  HC_val :: 'a

record 'a HashBucket =
  hash_member_count :: nat
  hash_member :: "'a HC list"

record 'a Hash =
  m_elem_count :: nat
  m_bucket :: "'a HashBucket list"
  m_free_hcs :: nat
  m_elem_vector :: "'a VectorWithFreeIndex"

abbreviation hvec :: "'a Hash \<Rightarrow> 'a list" where
  "hvec H \<equiv> m_vec (vf_vec (m_elem_vector H))"

definition empty_bucket :: "'a HashBucket" where
  "empty_bucket = \<lparr>hash_member_count = 0, hash_member = []\<rparr>"

definition hash_init :: "nat \<Rightarrow> 'a::zero Hash" where
  "hash_init bsize = \<lparr>m_elem_count = 0, m_bucket = replicate bsize empty_bucket, m_free_hcs = 0, m_elem_vector = vf_init\<rparr>"

definition hash_clean :: "'a::zero Hash \<Rightarrow> 'a Hash" where
  "hash_clean H =
     (if m_bucket H = [] then H
      else H\<lparr>m_bucket := replicate (length (m_bucket H)) empty_bucket, m_elem_count := 0, m_elem_vector := vf_clean (m_elem_vector H)\<rparr>)"

text \<open>
  \<open>insert_t\<close> and \<open>insert_v\<close> walk the list of the bucket and append a container; the caller then writes its index. A container
  comes from the free list when that is not empty.
\<close>

definition insert_t :: "('a, 'o) HashFunc \<Rightarrow> 'a \<Rightarrow> 'a HC list \<Rightarrow> bool \<times> 'a HC \<times> 'a HC list" where
  "insert_t hf t hcs =
     (case List.find (\<lambda>hc. hf_compare hf (HC_val hc) t) hcs of
        Some hc \<Rightarrow> (True, hc, hcs)
      | None \<Rightarrow> let hc = \<lparr>HC_vec_idx = 0, HC_val = t\<rparr> in (False, hc, hcs @ [hc]))"

definition insert_v :: "('a, 'o) HashFunc \<Rightarrow> ('o \<Rightarrow> 'a) \<Rightarrow> 'o \<Rightarrow> 'a HC list \<Rightarrow> bool \<times> 'a HC \<times> 'a HC list" where
  "insert_v hf create v hcs =
     (case List.find (\<lambda>hc. hf_compare_val hf (HC_val hc) v) hcs of
        Some hc \<Rightarrow> (True, hc, hcs)
      | None \<Rightarrow> let hc = \<lparr>HC_vec_idx = 0, HC_val = create v\<rparr> in (False, hc, hcs @ [hc]))"

text \<open>What follows the insertion of \<open>hc\<close> at the end of a bucket: the counts, a free slot of the vector, the element in it.\<close>

definition hash_record :: "nat \<Rightarrow> 'a HC list \<Rightarrow> 'a::zero HC \<Rightarrow> 'a Hash \<Rightarrow> 'a Hash" where
  "hash_record hashv hcs hc H =
     (case get_free_idx (m_elem_vector H) of
        (idx, vec) \<Rightarrow>
          H\<lparr>m_bucket := (m_bucket H)[hashv :=
               \<lparr>hash_member_count = hash_member_count (m_bucket H ! hashv) + 1, hash_member = butlast hcs @ [hc\<lparr>HC_vec_idx := idx\<rparr>]\<rparr>],
            m_elem_count := m_elem_count H + 1, m_free_hcs := m_free_hcs H - 1, m_elem_vector := vf_set vec idx (HC_val hc)\<rparr>)"

definition hash_append :: "('a, 'o) HashFunc \<Rightarrow> 'a \<Rightarrow> 'a::zero Hash \<Rightarrow> (bool \<times> 'a \<times> 'a Hash) option" where
  "hash_append hf t H =
     (if t = 0 then Some (False, 0, H)
      else let hashv = get_hash_value hf t (length (m_bucket H))
           in if hashv \<ge> length (m_bucket H) then None
              else case insert_t hf t (hash_member (m_bucket H ! hashv)) of
                (found, hc, hcs) \<Rightarrow> Some (found, HC_val hc, if found then H else hash_record hashv hcs hc H))"

definition hash_append_val :: "('a, 'o) HashFunc \<Rightarrow> ('o \<Rightarrow> 'a) \<Rightarrow> 'o \<Rightarrow> 'a::zero Hash \<Rightarrow> (bool \<times> 'a \<times> 'a Hash) option" where
  "hash_append_val hf create v H =
     (let hashv = get_hash_value_val hf v (length (m_bucket H))
      in if hashv \<ge> length (m_bucket H) then None
         else case insert_v hf create v (hash_member (m_bucket H ! hashv)) of
           (found, hc, hcs) \<Rightarrow> Some (found, HC_val hc, if found then H else hash_record hashv hcs hc H))"

definition hash_find :: "('a, 'o) HashFunc \<Rightarrow> 'a \<Rightarrow> 'a::zero Hash \<Rightarrow> 'a HC option option" where
  "hash_find hf t H =
     (if t = 0 then Some None
      else let hashv = get_hash_value hf t (length (m_bucket H))
           in if hashv \<ge> length (m_bucket H) then None
              else Some (List.find (\<lambda>hc. hf_compare hf (HC_val hc) t) (hash_member (m_bucket H ! hashv))))"

definition hash_find_elem :: "('a, 'o) HashFunc \<Rightarrow> 'a \<Rightarrow> 'a::zero Hash \<Rightarrow> 'a option option" where
  "hash_find_elem hf t H = map_option (map_option HC_val) (hash_find hf t H)"

definition hash_find_val :: "('a, 'o) HashFunc \<Rightarrow> 'o \<Rightarrow> 'a::zero Hash \<Rightarrow> 'a option" where
  "hash_find_val hf v H =
     (let hashv = get_hash_value_val hf v (length (m_bucket H))
      in if hashv \<ge> length (m_bucket H) then None
         else Some (case List.find (\<lambda>hc. hf_compare_val hf (HC_val hc) v) (hash_member (m_bucket H ! hashv)) of
                      None \<Rightarrow> 0 | Some hc \<Rightarrow> HC_val hc))"

text \<open>\<open>remove\<close> returns its argument, not the element it removed.\<close>

definition hash_remove :: "('a, 'o) HashFunc \<Rightarrow> 'a \<Rightarrow> 'a::zero Hash \<Rightarrow> ('a \<times> 'a Hash) option" where
  "hash_remove hf t H =
     (if t = 0 then Some (0, H)
      else let hashv = get_hash_value hf t (length (m_bucket H))
           in if hashv \<ge> length (m_bucket H) then None
              else case List.find (\<lambda>hc. hf_compare hf (HC_val hc) t) (hash_member (m_bucket H ! hashv)) of
                None \<Rightarrow> Some (0, H)
              | Some hc \<Rightarrow> Some (t,
                  H\<lparr>m_elem_vector := vf_set (m_elem_vector H) (HC_vec_idx hc) 0,
                    m_bucket := (m_bucket H)[hashv :=
                      \<lparr>hash_member_count = hash_member_count (m_bucket H ! hashv) - 1,
                       hash_member = remove1 hc (hash_member (m_bucket H ! hashv))\<rparr>],
                    m_free_hcs := m_free_hcs H + 1, m_elem_count := m_elem_count H - 1\<rparr>))"

text \<open>The loop of \<open>grow\<close> over the element vector, which keeps the index of every element.\<close>

fun rehash :: "('a, 'o) HashFunc \<Rightarrow> nat list \<Rightarrow> 'a::zero Vector \<Rightarrow> 'a HashBucket list \<Rightarrow> 'a HashBucket list option" where
  "rehash hf [] v bs = Some bs"
| "rehash hf (i # idxs) v bs =
     (let t = vec_get v (int i) in
      if t = 0 then rehash hf idxs v bs
      else let hashv = get_hash_value hf t (length bs)
           in if hashv \<ge> length bs then None
              else case insert_t hf t (hash_member (bs ! hashv)) of
                (found, hc, hcs) \<Rightarrow>
                  rehash hf idxs v (bs[hashv := \<lparr>hash_member_count = hash_member_count (bs ! hashv) + 1,
                    hash_member = (if found then hcs else butlast hcs @ [hc\<lparr>HC_vec_idx := i\<rparr>])\<rparr>]))"

definition hash_grow :: "('a, 'o) HashFunc \<Rightarrow> nat \<Rightarrow> 'a::zero Hash \<Rightarrow> 'a Hash option" where
  "hash_grow hf bsize H =
     (let bsize = (if bsize \<noteq> 0 then bsize else length (m_bucket H) * 2);
          new = replicate bsize empty_bucket
      in if m_elem_count H = 0 then Some (H\<lparr>m_bucket := new\<rparr>)
         else map_option
           (\<lambda>bs. H\<lparr>m_bucket := bs, m_free_hcs := m_free_hcs H + (\<Sum>b\<leftarrow>m_bucket H. length (hash_member b)) - m_elem_count H\<rparr>)
           (rehash hf [0..<vec_get_elem_count (vf_vec (m_elem_vector H))] (vf_vec (m_elem_vector H)) new))"

section \<open>Iteration\<close>

text \<open>The iterator is an index into the element vector, -1 (\<open>VEC_UNDEF\<close>) when there is no element.\<close>

definition scan_vec :: "'a::zero Hash \<Rightarrow> nat list \<Rightarrow> 'a \<times> int" where
  "scan_vec H idxs =
     (case List.find (\<lambda>i. vec_get (vf_vec (m_elem_vector H)) (int i) \<noteq> 0) idxs of
        None \<Rightarrow> (0, - 1) | Some i \<Rightarrow> (vec_get (vf_vec (m_elem_vector H)) (int i), int i))"

definition hash_get_first :: "'a::zero Hash \<Rightarrow> 'a \<times> int" where
  "hash_get_first H = (if m_elem_count H = 0 then (0, - 1) else scan_vec H [0..<vec_get_elem_count (vf_vec (m_elem_vector H))])"

definition hash_get_next :: "'a::zero Hash \<Rightarrow> int \<Rightarrow> 'a \<times> int" where
  "hash_get_next H iter =
     (if m_elem_count H = 0 then (0, iter) else scan_vec H [nat (iter + 1)..<vec_get_elem_count (vf_vec (m_elem_vector H))])"

definition hash_get_last :: "'a::zero Hash \<Rightarrow> 'a \<times> int" where
  "hash_get_last H = (if m_elem_count H = 0 then (0, - 1) else scan_vec H (List.rev [0..<vec_get_elem_count (vf_vec (m_elem_vector H))]))"

text \<open>From -1 the loop of \<open>get_prev\<close> starts at -2 and does not meet its end.\<close>

definition hash_get_prev :: "'a::zero Hash \<Rightarrow> int \<Rightarrow> ('a \<times> int) option" where
  "hash_get_prev H iter =
     (if m_elem_count H = 0 then Some (0, iter) else if iter < 0 then None else Some (scan_vec H (List.rev [0..<nat iter])))"

end
