(* ===== verification/HashProps.thy ===== *)
theory HashProps
  imports HashTab
begin

text \<open>
  The hash table as a set of elements with distinct keys. The locale \<open>hash_func\<close> is what the table needs of its hash
  functions: the comparisons and the hash value read one key, and the value is below the number of buckets. The invariant
  says that the buckets hold exactly the elements of the vector, each at the index its container records.
\<close>

section \<open>The vector with a free index\<close>

definition vf_inv :: "'a::zero VectorWithFreeIndex \<Rightarrow> bool" where
  "vf_inv v \<longleftrightarrow> vec_inv (vf_vec v) \<and> vec_tail0 (vf_vec v) \<and>
     (m_vec (vf_vec v) = [] \<or> m_free_idx v < length (m_vec (vf_vec v)) \<and> m_vec (vf_vec v) ! m_free_idx v = 0)"

lemma vec_set_in:
  "i < length (m_vec v) \<Longrightarrow> vec_set v i t = v\<lparr>m_last_idx := max (int i) (m_last_idx v), m_vec := (m_vec v)[i := t]\<rparr>"
  by (simp add: vec_set_def)

lemma vec_set_in_ok:
  "i < length (m_vec v) \<Longrightarrow> vec_inv v \<Longrightarrow> vec_tail0 v \<Longrightarrow> vec_inv (vec_set v i t) \<and> vec_tail0 (vec_set v i t)"
  by (auto simp: vec_set_in vec_defs nth_list_update)

lemma vec_get_nth: "vec_get v (int i) = (if i < length (m_vec v) then m_vec v ! i else 0)"
  by (simp add: vec_get_def)

lemma get_free_idx_ok:
  assumes "vf_inv v"
  obtains idx v' k where "get_free_idx v = (idx, v')" "m_vec (vf_vec v') = m_vec (vf_vec v) @ replicate k 0"
    "m_last_idx (vf_vec v') = m_last_idx (vf_vec v)" "vec_inv (vf_vec v')" "vec_tail0 (vf_vec v')"
    "idx < length (m_vec (vf_vec v'))" "m_vec (vf_vec v') ! idx = 0" "m_free_idx v' < length (m_vec (vf_vec v'))"
    "m_vec (vf_vec v') ! m_free_idx v' = 0" "m_free_idx v' \<noteq> idx"
proof -
  let ?xs = "m_vec (vf_vec v)" and ?f = "m_free_idx v"
  have i: "vec_inv (vf_vec v)" "vec_tail0 (vf_vec v)" using assms by (simp_all add: vf_inv_def)
  show thesis
  proof (cases "?xs = []")
    case True
    have g: "get_free_idx v = (0, \<lparr>vf_vec = (vf_vec v)\<lparr>m_vec := replicate 8 0\<rparr>, m_free_idx = 1\<rparr>)"
      using True by (simp add: get_free_idx_def vf_grow_def vec_grow_def)
    have "vec_inv ((vf_vec v)\<lparr>m_vec := replicate 8 0\<rparr>)" "vec_tail0 ((vf_vec v)\<lparr>m_vec := replicate 8 0\<rparr>)"
      using i True by (auto simp: vec_defs)
    then show thesis using True by (intro that [OF g, of 8]) simp_all
  next
    case False
    then have f: "?f < length ?xs" "?xs ! ?f = 0" using assms by (simp_all add: vf_inv_def)
    show thesis
    proof (cases "List.find (\<lambda>i. ?xs ! i = 0) ([?f + 1..<length ?xs] @ [0..<?f])")
      case None
      let ?v = "vec_grow (vf_vec v) (length ?xs * 2)"
      have g: "get_free_idx v = (?f, \<lparr>vf_vec = ?v, m_free_idx = length ?xs\<rparr>)"
        using None False by (simp add: get_free_idx_def vf_grow_def Let_def)
      have l: "length ?xs < length ?xs * 2" using False by simp
      have "m_vec ?v = ?xs @ replicate (length ?xs) 0" using vec_grow_append [OF l] by simp
      then show thesis using vec_grow_list [OF i l] f False by (intro that [OF g, of "length ?xs"]) (simp_all add: nth_append)
    next
      case (Some j)
      have g: "get_free_idx v = (?f, v\<lparr>m_free_idx := j\<rparr>)" using Some False by (simp add: get_free_idx_def Let_def)
      obtain m where m: "m < length ([?f + 1..<length ?xs] @ [0..<?f])" "j = ([?f + 1..<length ?xs] @ [0..<?f]) ! m" "?xs ! j = 0"
        using Some unfolding find_Some_iff by blast
      have "j \<in> set ([?f + 1..<length ?xs] @ [0..<?f])" using m(1,2) by (metis nth_mem)
      then have "j < length ?xs" "j \<noteq> ?f" using f by auto
      then show thesis using i f m(3) by (intro that [OF g, of 0]) simp_all
    qed
  qed
qed

section \<open>The invariant\<close>

text \<open>The vector holds the element \<open>x\<close> at index \<open>i\<close>.\<close>

definition slot :: "'a::zero list \<Rightarrow> nat \<Rightarrow> 'a \<Rightarrow> bool" where
  "slot xs i x \<longleftrightarrow> i < length xs \<and> xs ! i = x \<and> x \<noteq> 0"

lemma slot_zeros [simp]: "slot (xs @ replicate k 0) = slot xs"
  by (auto simp: slot_def fun_eq_iff nth_append)

lemma slot_update: "slot (xs[i := t]) j x \<longleftrightarrow> (if j = i then i < length xs \<and> x = t \<and> t \<noteq> 0 else slot xs j x)"
  by (auto simp: slot_def nth_list_update)

lemma slot_all_zero: "slot (replicate k 0) i x \<longleftrightarrow> False"
  by (auto simp: slot_def)

lemma slot_free: "xs ! i = 0 \<Longrightarrow> \<not> slot xs i x"
  by (auto simp: slot_def)

definition hash_elems :: "'a::zero Hash \<Rightarrow> 'a set" where
  "hash_elems H = {x. \<exists>i. slot (hvec H) i x}"

definition keys_differ :: "('a \<Rightarrow> 'k) \<Rightarrow> 'a::zero list \<Rightarrow> bool" where
  "keys_differ key xs \<longleftrightarrow> (\<forall>i j x y. slot xs i x \<longrightarrow> slot xs j y \<longrightarrow> key x = key y \<longrightarrow> i = j)"

text \<open>\<open>bucket_ok h xs b bk\<close>: the bucket \<open>bk\<close> holds the elements of \<open>xs\<close> whose hash value \<open>h\<close> is \<open>b\<close>.\<close>

definition bucket_ok :: "('a \<Rightarrow> nat) \<Rightarrow> 'a::zero list \<Rightarrow> nat \<Rightarrow> 'a HashBucket \<Rightarrow> bool" where
  "bucket_ok h xs b bk \<longleftrightarrow> hash_member_count bk = length (hash_member bk) \<and> distinct (hash_member bk) \<and>
     (\<forall>hc. hc \<in> set (hash_member bk) \<longleftrightarrow> slot xs (HC_vec_idx hc) (HC_val hc) \<and> h (HC_val hc) = b)"

definition hash_inv :: "('a, 'o) HashFunc \<Rightarrow> ('a \<Rightarrow> 'k) \<Rightarrow> 'a::zero Hash \<Rightarrow> bool" where
  "hash_inv hf key H \<longleftrightarrow> m_bucket H \<noteq> [] \<and> vf_inv (m_elem_vector H) \<and> m_elem_count H = length (filter (\<lambda>x. x \<noteq> 0) (hvec H)) \<and>
     keys_differ key (hvec H) \<and>
     (\<forall>b < length (m_bucket H). bucket_ok (\<lambda>t. get_hash_value hf t (length (m_bucket H))) (hvec H) b (m_bucket H ! b))"

lemma filter_update:
  "i < length xs \<Longrightarrow> xs ! i = 0 \<Longrightarrow> t \<noteq> 0 \<Longrightarrow> length (filter (\<lambda>x. x \<noteq> (0::'a::zero)) (xs[i := t])) = Suc (length (filter (\<lambda>x. x \<noteq> 0) xs))"
  "i < length xs \<Longrightarrow> xs ! i \<noteq> 0 \<Longrightarrow> length (filter (\<lambda>x. x \<noteq> (0::'a::zero)) (xs[i := 0])) = length (filter (\<lambda>x. x \<noteq> 0) xs) - 1"
proof -
  assume i: "i < length xs"
  have u: "xs[i := t] = take i xs @ t # drop (Suc i) xs" for t using i by (rule upd_conv_take_nth_drop)
  have x: "filter (\<lambda>x. x \<noteq> 0) xs = filter (\<lambda>x. x \<noteq> 0) (take i xs) @ (if xs ! i \<noteq> 0 then [xs ! i] else []) @ filter (\<lambda>x. x \<noteq> 0) (drop (Suc i) xs)"
    by (subst id_take_nth_drop [OF i]) simp
  show "xs ! i = 0 \<Longrightarrow> t \<noteq> 0 \<Longrightarrow> length (filter (\<lambda>x. x \<noteq> 0) (xs[i := t])) = Suc (length (filter (\<lambda>x. x \<noteq> 0) xs))"
    unfolding u x by simp
  show "xs ! i \<noteq> 0 \<Longrightarrow> length (filter (\<lambda>x. x \<noteq> 0) (xs[i := 0])) = length (filter (\<lambda>x. x \<noteq> 0) xs) - 1"
    unfolding u x by simp
qed

lemma filter_zeros [simp]: "filter (\<lambda>x. x \<noteq> (0::'a::zero)) (replicate k 0) = []"
  by simp

lemma keys_differ_zeros [simp]: "keys_differ key (xs @ replicate k 0) \<longleftrightarrow> keys_differ key xs"
  by (simp add: keys_differ_def)

lemma bucket_ok_zeros [simp]: "bucket_ok h (xs @ replicate k 0) b bk \<longleftrightarrow> bucket_ok h xs b bk"
  by (simp add: bucket_ok_def)

lemma bucket_ok_insert:
  assumes "bucket_ok h xs b bk" "i < length xs" "xs ! i = 0" "t \<noteq> 0"
  shows "bucket_ok h (xs[i := t]) b (if h t = b then \<lparr>hash_member_count = hash_member_count bk + 1,
    hash_member = hash_member bk @ [\<lparr>HC_vec_idx = i, HC_val = t\<rparr>]\<rparr> else bk)"
proof -
  have n: "\<not> slot xs i x" for x using assms(3) by (rule slot_free)
  have m: "hc \<in> set (hash_member bk) \<longleftrightarrow> slot xs (HC_vec_idx hc) (HC_val hc) \<and> h (HC_val hc) = b" for hc
    using assms(1) by (simp add: bucket_ok_def)
  have e: "slot (xs[i := t]) (HC_vec_idx hc) (HC_val hc) \<longleftrightarrow> hc = \<lparr>HC_vec_idx = i, HC_val = t\<rparr> \<or> slot xs (HC_vec_idx hc) (HC_val hc)" for hc
    using n assms(2,4) by (cases hc) (auto simp: slot_update)
  show ?thesis
    using assms(1) m [of "\<lparr>HC_vec_idx = i, HC_val = t\<rparr>"] n unfolding bucket_ok_def e by (auto simp: m)
qed

lemma bucket_ok_remove:
  assumes "bucket_ok h xs b bk" "slot xs i t"
  shows "bucket_ok h (xs[i := 0]) b (if h t = b then \<lparr>hash_member_count = hash_member_count bk - 1,
    hash_member = remove1 \<lparr>HC_vec_idx = i, HC_val = t\<rparr> (hash_member bk)\<rparr> else bk)"
proof -
  have m: "hc \<in> set (hash_member bk) \<longleftrightarrow> slot xs (HC_vec_idx hc) (HC_val hc) \<and> h (HC_val hc) = b" for hc
    using assms(1) by (simp add: bucket_ok_def)
  have u: "slot xs i x \<longleftrightarrow> x = t" for x using assms(2) by (auto simp: slot_def)
  have e: "slot (xs[i := 0]) (HC_vec_idx hc) (HC_val hc) \<longleftrightarrow> hc \<noteq> \<lparr>HC_vec_idx = i, HC_val = t\<rparr> \<and> slot xs (HC_vec_idx hc) (HC_val hc)" for hc
    using u by (cases hc) (auto simp: slot_update)
  show ?thesis
    using assms m [of "\<lparr>HC_vec_idx = i, HC_val = t\<rparr>"] unfolding bucket_ok_def e by (auto simp: m length_remove1)
qed

lemma keys_differ_insert:
  assumes "keys_differ key xs" "\<forall>i x. slot xs i x \<longrightarrow> key x \<noteq> key t"
  shows "keys_differ key (xs[i := t])"
  using assms unfolding keys_differ_def slot_update by metis

lemma keys_differ_remove: "keys_differ key xs \<Longrightarrow> keys_differ key (xs[i := 0])"
  unfolding keys_differ_def slot_update by metis

lemma hash_elems_slots: "x \<in> hash_elems H \<longleftrightarrow> (\<exists>i. slot (hvec H) i x)"
  by (simp add: hash_elems_def)

section \<open>The interface of the hash functions\<close>

locale hash_func =
  fixes hf :: "('a, 'o) HashFunc"
    and key :: "'a \<Rightarrow> 'k"
    and vkey :: "'o \<Rightarrow> 'k"
  assumes cmp: "hf_compare hf a b \<longleftrightarrow> key a = key b"
    and cmpv: "hf_compare_val hf a v \<longleftrightarrow> key a = vkey v"
    and hash_key: "key a = key b \<Longrightarrow> get_hash_value hf a n = get_hash_value hf b n"
    and hash_vkey: "key a = vkey v \<Longrightarrow> get_hash_value_val hf v n = get_hash_value hf a n"
    and hash_less: "0 < n \<Longrightarrow> get_hash_value hf a n < n"
    and hash_vless: "0 < n \<Longrightarrow> get_hash_value_val hf v n < n"

locale hash_table = hash_func hf key vkey
  for hf :: "('a::zero, 'o) HashFunc" and key :: "'a \<Rightarrow> 'k" and vkey :: "'o \<Rightarrow> 'k"
begin

abbreviation hv :: "'a Hash \<Rightarrow> 'a \<Rightarrow> nat" where
  "hv H t \<equiv> get_hash_value hf t (length (m_bucket H))"

lemma hash_in: "hash_inv hf key H \<Longrightarrow> hv H t < length (m_bucket H)"
  by (simp add: hash_inv_def hash_less)

lemma bucket_at: "hash_inv hf key H \<Longrightarrow> b < length (m_bucket H) \<Longrightarrow> bucket_ok (hv H) (hvec H) b (m_bucket H ! b)"
  by (simp add: hash_inv_def)

lemma in_bucket:
  "hash_inv hf key H \<Longrightarrow> b < length (m_bucket H) \<Longrightarrow>
   hc \<in> set (hash_member (m_bucket H ! b)) \<longleftrightarrow> slot (hvec H) (HC_vec_idx hc) (HC_val hc) \<and> hv H (HC_val hc) = b"
  using bucket_at [of H b] by (simp add: bucket_ok_def)

text \<open>The search of a bucket finds an element by its key, and with it every element.\<close>

lemma search_bucket:
  assumes "hash_inv hf key H"
  shows "case List.find (\<lambda>hc. hf_compare hf (HC_val hc) t) (hash_member (m_bucket H ! hv H t)) of
      None \<Rightarrow> \<forall>x\<in>hash_elems H. key x \<noteq> key t
    | Some hc \<Rightarrow> slot (hvec H) (HC_vec_idx hc) (HC_val hc) \<and> key (HC_val hc) = key t \<and> hv H (HC_val hc) = hv H t"
proof (cases "List.find (\<lambda>hc. hf_compare hf (HC_val hc) t) (hash_member (m_bucket H ! hv H t))")
  case None
  have "key x \<noteq> key t" if h: "slot (hvec H) i x" for i x
  proof
    assume k: "key x = key t"
    then have "\<lparr>HC_vec_idx = i, HC_val = x\<rparr> \<in> set (hash_member (m_bucket H ! hv H t))"
      using in_bucket [OF assms hash_in [OF assms, of t], of "\<lparr>HC_vec_idx = i, HC_val = x\<rparr>"] h hash_key [OF k, of "length (m_bucket H)"] by simp
    then show False using None k unfolding find_None_iff cmp by (metis HC.select_convs(2))
  qed
  then show ?thesis using None by (auto simp: hash_elems_def)
next
  case (Some hc)
  then have "hc \<in> set (hash_member (m_bucket H ! hv H t))" "hf_compare hf (HC_val hc) t"
    by (auto simp: find_Some_iff)
  then show ?thesis using Some in_bucket [OF assms hash_in [OF assms], of hc t] by (simp add: cmp)
qed

lemma find_val: "vkey v = key t \<Longrightarrow> hf_compare_val hf a v \<longleftrightarrow> hf_compare hf a t"
  by (simp add: cmp cmpv)

lemma hash_record_ok:
  assumes "hash_inv hf key H" "t \<noteq> 0" "\<forall>x\<in>hash_elems H. key x \<noteq> key t"
    "hcs = hash_member (m_bucket H ! hv H t) @ [\<lparr>HC_vec_idx = 0, HC_val = t\<rparr>]"
  defines "H' \<equiv> hash_record (hv H t) hcs \<lparr>HC_vec_idx = 0, HC_val = t\<rparr> H"
  shows "hash_inv hf key H' \<and> hash_elems H' = insert t (hash_elems H) \<and> m_elem_count H' = m_elem_count H + 1"
proof -
  have vi: "vf_inv (m_elem_vector H)" using assms(1) by (simp add: hash_inv_def)
  obtain idx v' k where g: "get_free_idx (m_elem_vector H) = (idx, v')" "m_vec (vf_vec v') = hvec H @ replicate k 0"
    "m_last_idx (vf_vec v') = m_last_idx (vf_vec (m_elem_vector H))" "vec_inv (vf_vec v')" "vec_tail0 (vf_vec v')"
    "idx < length (m_vec (vf_vec v'))" "m_vec (vf_vec v') ! idx = 0" "m_free_idx v' < length (m_vec (vf_vec v'))"
    "m_vec (vf_vec v') ! m_free_idx v' = 0" "m_free_idx v' \<noteq> idx" by (rule get_free_idx_ok [OF vi])
  let ?xs = "hvec H @ replicate k 0"
  have v: "hvec H' = ?xs[idx := t]" using g(1,2,6) by (simp add: H'_def hash_record_def vf_set_def vec_set_in)
  have i: "idx < length ?xs" "?xs ! idx = 0" using g(6,7) by (simp_all only: g(2))
  have b: "m_bucket H' = (m_bucket H)[hv H t := \<lparr>hash_member_count = hash_member_count (m_bucket H ! hv H t) + 1,
      hash_member = hash_member (m_bucket H ! hv H t) @ [\<lparr>HC_vec_idx = idx, HC_val = t\<rparr>]\<rparr>]"
    using g(1) assms(4) by (simp add: H'_def hash_record_def)
  have vf: "vf_inv (m_elem_vector H')"
    using vec_set_in_ok [OF g(6,4,5), of t] g(1,6,8-10) by (auto simp: vf_inv_def H'_def hash_record_def vf_set_def vec_set_in)
  have kd: "keys_differ key ?xs" "\<forall>i x. slot ?xs i x \<longrightarrow> key x \<noteq> key t"
    using assms(1,3) by (auto simp: hash_inv_def hash_elems_def)
  have c: "m_elem_count H' = length (filter (\<lambda>x. x \<noteq> 0) (hvec H'))" "m_elem_count H' = m_elem_count H + 1"
    using filter_update(1) [OF i assms(2)] assms(1) g(1) unfolding v by (simp_all add: hash_inv_def H'_def hash_record_def)
  have bo: "bucket_ok (hv H) (hvec H') j (m_bucket H' ! j)" if j: "j < length (m_bucket H)" for j
  proof -
    have "bucket_ok (hv H) ?xs j (m_bucket H ! j)" using bucket_at [OF assms(1) j] by simp
    from bucket_ok_insert [OF this i assms(2)] show ?thesis using j unfolding v b by (cases "hv H t = j") simp_all
  qed
  have "hash_inv hf key H'"
    using assms(1) vf c(1) keys_differ_insert [OF kd, of idx] bo unfolding hash_inv_def v by (simp add: b)
  moreover have "hash_elems H' = insert t (hash_elems H)"
  proof (rule set_eqI)
    show "x \<in> hash_elems H' \<longleftrightarrow> x \<in> insert t (hash_elems H)" for x
      using i(1) assms(2) slot_free [OF i(2)] unfolding hash_elems_slots v slot_update insert_iff slot_zeros by metis
  qed
  ultimately show ?thesis using c(2) by simp
qed

lemma key_unique: "hash_inv hf key H \<Longrightarrow> x \<in> hash_elems H \<Longrightarrow> y \<in> hash_elems H \<Longrightarrow> key x = key y \<Longrightarrow> x = y"
  unfolding hash_inv_def keys_differ_def hash_elems_def by (auto simp: slot_def)

lemma hash_append_ok:
  assumes "hash_inv hf key H" "t \<noteq> 0"
  shows "(\<exists>x\<in>hash_elems H. key x = key t \<and> hash_append hf t H = Some (True, x, H)) \<or>
    (\<forall>x\<in>hash_elems H. key x \<noteq> key t) \<and> (\<exists>H'. hash_append hf t H = Some (False, t, H') \<and> hash_inv hf key H' \<and>
       hash_elems H' = insert t (hash_elems H) \<and> m_elem_count H' = m_elem_count H + 1)"
proof (cases "List.find (\<lambda>hc. hf_compare hf (HC_val hc) t) (hash_member (m_bucket H ! hv H t))")
  case None
  then show ?thesis using search_bucket [OF assms(1), of t] hash_record_ok [OF assms _ refl] hash_in [OF assms(1), of t] assms(2)
    by (simp add: hash_append_def insert_t_def Let_def)
next
  case (Some hc)
  then have "HC_val hc \<in> hash_elems H" "key (HC_val hc) = key t"
    using search_bucket [OF assms(1), of t] by (auto simp: hash_elems_def)
  then show ?thesis using Some hash_in [OF assms(1), of t] assms(2)
    by (auto simp: hash_append_def insert_t_def Let_def)
qed

text \<open>With a value that stands for the key of \<open>t\<close>, the table behaves as with \<open>t\<close>.\<close>

lemma hash_append_val_eq:
  assumes "key t = vkey v" "t = create v" "t \<noteq> 0"
  shows "hash_append_val hf create v H = hash_append hf t H"
proof -
  have "get_hash_value_val hf v n = get_hash_value hf t n" for n by (rule hash_vkey [OF assms(1)])
  moreover have "hf_compare_val hf a v = hf_compare hf a t" for a using assms(1) by (simp add: find_val)
  ultimately show ?thesis using assms(2,3) by (simp add: hash_append_val_def hash_append_def insert_v_def insert_t_def Let_def)
qed

lemma hash_find_val_eq:
  assumes "key t = vkey v" "t \<noteq> 0"
  shows "hash_find_val hf v H = map_option (case_option 0 (\<lambda>x. x)) (hash_find_elem hf t H)"
proof -
  have "get_hash_value_val hf v n = get_hash_value hf t n" for n by (rule hash_vkey [OF assms(1)])
  moreover have "hf_compare_val hf a v = hf_compare hf a t" for a using assms(1) by (simp add: find_val)
  ultimately show ?thesis using assms(2)
    by (simp add: hash_find_val_def hash_find_elem_def hash_find_def Let_def split: option.splits)
qed

lemma hash_find_ok:
  assumes "hash_inv hf key H" "t \<noteq> 0"
  shows "case hash_find_elem hf t H of
      None \<Rightarrow> False
    | Some None \<Rightarrow> \<forall>x\<in>hash_elems H. key x \<noteq> key t
    | Some (Some x) \<Rightarrow> x \<in> hash_elems H \<and> key x = key t"
  using search_bucket [OF assms(1), of t] hash_in [OF assms(1), of t] assms(2)
  by (auto simp: hash_find_elem_def hash_find_def Let_def hash_elems_def split: option.splits)

lemma hash_remove_ok:
  assumes "hash_inv hf key H" "t \<noteq> 0"
  shows "(\<forall>x\<in>hash_elems H. key x \<noteq> key t) \<and> hash_remove hf t H = Some (0, H) \<or>
    (\<exists>x\<in>hash_elems H. key x = key t \<and> (\<exists>H'. hash_remove hf t H = Some (t, H') \<and> hash_inv hf key H' \<and>
       hash_elems H' = hash_elems H - {x} \<and> m_elem_count H' = m_elem_count H - 1))"
proof (cases "List.find (\<lambda>hc. hf_compare hf (HC_val hc) t) (hash_member (m_bucket H ! hv H t))")
  case None
  then show ?thesis using search_bucket [OF assms(1), of t] hash_in [OF assms(1), of t] assms(2)
    by (simp add: hash_remove_def Let_def)
next
  case (Some hc)
  obtain i x where hc: "hc = \<lparr>HC_vec_idx = i, HC_val = x\<rparr>" by (cases hc)
  have s: "slot (hvec H) i x" "key x = key t" "hv H x = hv H t" using search_bucket [OF assms(1), of t] Some hc by simp_all
  then have i: "i < length (hvec H)" "hvec H ! i \<noteq> 0" by (auto simp: slot_def)
  obtain H' where r: "hash_remove hf t H = Some (t, H')" and v: "hvec H' = (hvec H)[i := 0]"
    and b: "m_bucket H' = (m_bucket H)[hv H t := \<lparr>hash_member_count = hash_member_count (m_bucket H ! hv H t) - 1,
      hash_member = remove1 hc (hash_member (m_bucket H ! hv H t))\<rparr>]"
    and e: "m_elem_vector H' = vf_set (m_elem_vector H) i 0" and c: "m_elem_count H' = m_elem_count H - 1"
    using Some hash_in [OF assms(1), of t] assms(2) hc i(1) by (simp add: hash_remove_def Let_def vf_set_def vec_set_in)
  have vi: "vf_inv (m_elem_vector H)" using assms(1) by (simp add: hash_inv_def)
  have "vec_inv (vf_vec (m_elem_vector H'))" "vec_tail0 (vf_vec (m_elem_vector H'))"
    using vec_set_in_ok [OF i(1), of 0] vi by (simp_all add: vf_inv_def e vf_set_def)
  moreover have "m_free_idx (m_elem_vector H') < length (hvec H')" "hvec H' ! m_free_idx (m_elem_vector H') = 0"
    using vi i unfolding v by (auto simp: vf_inv_def e vf_set_def nth_list_update)
  ultimately have vf: "vf_inv (m_elem_vector H')" by (simp add: vf_inv_def)
  have n: "m_elem_count H' = length (filter (\<lambda>x. x \<noteq> 0) (hvec H'))"
    using filter_update(2) [OF i] assms(1) unfolding v c by (simp add: hash_inv_def)
  have kd: "keys_differ key (hvec H')" using assms(1) unfolding v hash_inv_def by (blast intro: keys_differ_remove)
  have bo: "bucket_ok (hv H) (hvec H') j (m_bucket H' ! j)" if j: "j < length (m_bucket H)" for j
    using bucket_ok_remove [OF bucket_at [OF assms(1) j] s(1)] j s(3) hc unfolding v b by (cases "hv H t = j") simp_all
  have "hash_inv hf key H'" using assms(1) vf n kd bo unfolding hash_inv_def by (simp add: b)
  moreover have "hash_elems H' = hash_elems H - {x}"
  proof (rule set_eqI)
    fix y
    have u: "j = i" if h: "slot (hvec H) j x" for j
      using assms(1) h s(1) unfolding hash_inv_def keys_differ_def by blast
    have w: "y = x" if h: "slot (hvec H) i y" using h s(1) by (simp add: slot_def)
    show "y \<in> hash_elems H' \<longleftrightarrow> y \<in> hash_elems H - {x}"
      using u w unfolding hash_elems_slots v slot_update Diff_iff singleton_iff by metis
  qed
  moreover have "x \<in> hash_elems H" using s(1) by (auto simp: hash_elems_def)
  ultimately show ?thesis using r c s(2) by blast
qed

text \<open>The loop of \<open>grow\<close>: after the indices below \<open>m\<close> the buckets hold the elements at these indices.\<close>

lemma slot_take: "slot (take m xs) i x \<longleftrightarrow> i < m \<and> slot xs i x"
  by (auto simp: slot_def)

lemma rehash_ok:
  assumes "bs \<noteq> []" "m \<le> length (m_vec v)" "keys_differ key (m_vec v)"
    "\<forall>b < length bs. bucket_ok (\<lambda>t. get_hash_value hf t (length bs)) (take k (m_vec v)) b (bs ! b)" "k \<le> m"
  shows "\<exists>bs'. rehash hf [k..<m] v bs = Some bs' \<and> length bs' = length bs \<and>
    (\<forall>b < length bs. bucket_ok (\<lambda>t. get_hash_value hf t (length bs)) (take m (m_vec v)) b (bs' ! b))"
  using assms
proof (induction "m - k" arbitrary: k bs)
  case 0
  then have "k = m" by simp
  then show ?case using 0 by simp
next
  case (Suc d)
  let ?h = "\<lambda>t. get_hash_value hf t (length bs)" and ?t = "m_vec v ! k"
  have k: "k < m" "k < length (m_vec v)" "[k..<m] = k # [Suc k..<m]" "d = m - Suc k"
    using Suc.hyps(2) Suc.prems(2) by (auto simp: upt_conv_Cons)
  have tk: "take (Suc k) (m_vec v) = take k (m_vec v) @ [?t]" using k(2) by (rule take_Suc_conv_app_nth)
  show ?case
  proof (cases "?t = 0")
    case True
    have "\<forall>b < length bs. bucket_ok ?h (take (Suc k) (m_vec v)) b (bs ! b)"
      using Suc.prems(4) bucket_ok_zeros [of ?h "take k (m_vec v)" 1] True by (simp add: tk)
    from Suc.hyps(1) [OF k(4) Suc.prems(1-3) this] k show ?thesis using True by (simp add: vec_get_nth)
  next
    case False
    let ?b = "?h ?t"
    let ?hcs = "hash_member (bs ! ?b) @ [\<lparr>HC_vec_idx = k, HC_val = ?t\<rparr>]"
    let ?bs = "bs[?b := \<lparr>hash_member_count = hash_member_count (bs ! ?b) + 1, hash_member = ?hcs\<rparr>]"
    have b: "?b < length bs" using Suc.prems(1) by (simp add: hash_less)
    have "List.find (\<lambda>hc. hf_compare hf (HC_val hc) ?t) (hash_member (bs ! ?b)) = None"
      unfolding find_None_iff
    proof (intro notI, elim exE conjE)
      fix hc assume h: "hc \<in> set (hash_member (bs ! ?b))" "hf_compare hf (HC_val hc) ?t"
      then have s: "HC_vec_idx hc < k" "slot (m_vec v) (HC_vec_idx hc) (HC_val hc)"
        using Suc.prems(4) b by (auto simp: bucket_ok_def slot_take)
      have "slot (m_vec v) k ?t" using False k(2) by (simp add: slot_def)
      then have "HC_vec_idx hc = k" using Suc.prems(3) s(2) h(2) by (auto simp: keys_differ_def cmp)
      then show False using s(1) by simp
    qed
    then have r: "rehash hf [k..<m] v bs = rehash hf [Suc k..<m] v ?bs"
      using False k b by (simp add: vec_get_nth insert_t_def Let_def)
    have u: "take (Suc k) (m_vec v) = (take k (m_vec v) @ replicate 1 0)[k := ?t]" using k(2) by (simp add: tk list_update_append)
    have bo: "bucket_ok ?h (take (Suc k) (m_vec v)) j (?bs ! j)" if j: "j < length bs" for j
    proof -
      have o: "bucket_ok ?h (take k (m_vec v) @ replicate 1 0) j (bs ! j)" using Suc.prems(4) j bucket_ok_zeros by blast
      have "k < length (take k (m_vec v) @ replicate 1 0)" "(take k (m_vec v) @ replicate 1 0) ! k = 0"
        using k(2) by (simp_all add: nth_append)
      from bucket_ok_insert [OF o this False] show ?thesis using j unfolding u by (cases "?b = j") simp_all
    qed
    have "length ?bs = length bs" "?bs \<noteq> []" using Suc.prems(1) by simp_all
    then show ?thesis using Suc.hyps(1) [OF k(4), of ?bs] bo Suc.prems(2,3) k(1) unfolding r by simp
  qed
qed

lemma hash_grow_ok:
  assumes "hash_inv hf key H"
  shows "\<exists>H'. hash_grow hf bsize H = Some H' \<and> hash_inv hf key H' \<and> hvec H' = hvec H \<and>
    length (m_bucket H') = (if bsize \<noteq> 0 then bsize else 2 * length (m_bucket H)) \<and> m_elem_count H' = m_elem_count H"
proof -
  let ?n = "if bsize \<noteq> 0 then bsize else 2 * length (m_bucket H)" and ?v = "vf_vec (m_elem_vector H)"
  let ?new = "replicate ?n empty_bucket :: 'a HashBucket list"
  have n: "0 < ?n" using assms by (simp add: hash_inv_def)
  have vi: "vec_inv ?v" "vec_tail0 ?v" using assms by (simp_all add: hash_inv_def vf_inv_def)
  have e: "\<forall>b < length ?new. bucket_ok (\<lambda>t. get_hash_value hf t (length ?new)) (take 0 (hvec H)) b (?new ! b)"
    by (simp add: bucket_ok_def empty_bucket_def slot_def)
  have kd: "keys_differ key (hvec H)" using assms by (simp add: hash_inv_def)
  obtain bs where bs: "rehash hf [0..<vec_get_elem_count ?v] ?v ?new = Some bs" "length bs = ?n"
    "\<forall>b < ?n. bucket_ok (\<lambda>t. get_hash_value hf t ?n) (take (vec_get_elem_count ?v) (hvec H)) b (bs ! b)"
    using rehash_ok [OF _ vec_len(2) [OF vi(1)] kd e] n by auto
  have z: "drop (vec_get_elem_count ?v) (hvec H) = replicate (length (hvec H) - vec_get_elem_count ?v) 0"
    using vi(2) by (intro nth_equalityI) (auto simp: vec_tail0_def)
  have w: "hvec H = take (vec_get_elem_count ?v) (hvec H) @ replicate (length (hvec H) - vec_get_elem_count ?v) 0"
    unfolding z [symmetric] by simp
  have bo: "\<forall>b < ?n. bucket_ok (\<lambda>t. get_hash_value hf t ?n) (hvec H) b (bs ! b)"
    using bs(3) by (subst w) simp
  show ?thesis
  proof (cases "m_elem_count H = 0")
    case True
    have "\<not> slot (hvec H) i x" for i x
      using assms True by (auto simp: hash_inv_def slot_def filter_empty_conv)
    then have "\<forall>b < ?n. bucket_ok (\<lambda>t. get_hash_value hf t ?n) (hvec H) b (?new ! b)"
      by (simp add: bucket_ok_def empty_bucket_def)
    then show ?thesis using True assms n by (auto simp: hash_grow_def hash_inv_def mult.commute)
  next
    case False
    then show ?thesis using bs(1,2) bo assms n by (auto simp: hash_grow_def hash_inv_def mult.commute Let_def)
  qed
qed

lemma hash_clean_ok:
  assumes "hash_inv hf key H"
  shows "hash_inv hf key (hash_clean H) \<and> hash_elems (hash_clean H) = {} \<and> m_elem_count (hash_clean H) = 0"
proof -
  let ?v = "vf_vec (m_elem_vector H)" and ?H = "hash_clean H"
  have v: "vec_inv ?v" "vec_tail0 ?v" using assms by (simp_all add: hash_inv_def vf_inv_def)
  have c: "vec_inv (vec_clean ?v)" "vec_tail0 (vec_clean ?v)" "vec_list (vec_clean ?v) = []" using vec_clean_list [OF v] by simp_all
  have n: "vec_get_elem_count (vec_clean ?v) = 0" using vec_len(1) [OF c(1)] c(3) by simp
  have z: "hvec ?H ! i = 0" if "i < length (hvec ?H)" for i
    using that c(2) n assms by (auto simp: hash_clean_def vf_clean_def vec_tail0_def hash_inv_def)
  have s: "\<not> slot (hvec ?H) i x" for i x using z by (auto simp: slot_def)
  have f: "filter (\<lambda>x. x \<noteq> 0) (hvec ?H) = []" using z by (auto simp: filter_empty_conv in_set_conv_nth)
  have "m_free_idx (m_elem_vector ?H) = 0" "vf_vec (m_elem_vector ?H) = vec_clean ?v" "m_elem_count ?H = 0"
    "m_bucket ?H = replicate (length (m_bucket H)) empty_bucket"
    using assms by (simp_all add: hash_clean_def vf_clean_def hash_inv_def)
  then show ?thesis using c s f z assms
    by (auto simp: hash_inv_def vf_inv_def keys_differ_def bucket_ok_def empty_bucket_def hash_elems_def)
qed

lemma hash_init_ok: "0 < n \<Longrightarrow> hash_inv hf key (hash_init n) \<and> hash_elems (hash_init n :: 'a Hash) = {}"
  by (auto simp: hash_init_def hash_inv_def vf_init_def vf_inv_def vec_init_def vec_inv_def vec_tail0_def keys_differ_def slot_def
      bucket_ok_def empty_bucket_def hash_elems_def)

end

section \<open>Iteration\<close>

text \<open>The loops \<open>for (t = get_first(it); t != 0; t = get_next(it))\<close> and its mirror image.\<close>

lemma scan_vec_in: "scan_vec H idxs = (x, i) \<Longrightarrow> x \<noteq> 0 \<Longrightarrow> 0 \<le> i \<and> nat i \<in> set idxs"
  by (auto simp: scan_vec_def find_Some_iff split: option.splits)

function hash_visit :: "'a::zero Hash \<Rightarrow> 'a \<times> int \<Rightarrow> 'a list" where
  "hash_visit H (t, iter) = (if t = 0 then [] else t # hash_visit H (hash_get_next H iter))"
  by pat_completeness auto

termination
  by (relation "measure (\<lambda>(H, t, iter). if t = 0 then 0 else Suc (nat (int (vec_get_elem_count (vf_vec (m_elem_vector H))) - iter)))")
    (auto simp: hash_get_next_def dest!: scan_vec_in split: prod.splits)

declare hash_visit.simps [simp del]

function hash_visit_back :: "'a::zero Hash \<Rightarrow> 'a \<times> int \<Rightarrow> 'a list option" where
  "hash_visit_back H (t, iter) =
     (if t = 0 then Some []
      else case hash_get_prev H iter of None \<Rightarrow> None | Some p \<Rightarrow> map_option ((#) t) (hash_visit_back H p))"
  by pat_completeness auto

termination
  by (relation "measure (\<lambda>(H, t, iter). if t = 0 then 0 else Suc (nat iter))")
    (auto simp: hash_get_prev_def dest!: scan_vec_in split: if_splits)

declare hash_visit_back.simps [simp del]

lemma hash_visit_scan:
  assumes "m_elem_count H \<noteq> 0" "n = vec_get_elem_count (vf_vec (m_elem_vector H))" "n \<le> length (hvec H)" "k \<le> n"
  shows "hash_visit H (scan_vec H [k..<n]) = filter (\<lambda>x. x \<noteq> 0) (drop k (take n (hvec H)))"
  using assms
proof (induction "n - k" arbitrary: k)
  case 0
  then show ?case by (simp add: scan_vec_def hash_visit.simps)
next
  case (Suc d)
  then have k: "[k..<n] = k # [Suc k..<n]" "k < length (hvec H)" "d = n - Suc k" "Suc k \<le> n" by (auto simp: upt_conv_Cons)
  have d: "drop k (take n (hvec H)) = hvec H ! k # drop (Suc k) (take n (hvec H))"
    using Suc.prems k(2,4) Cons_nth_drop_Suc [of k "take n (hvec H)"] by simp
  note i = Suc.hyps(1) [OF k(3) Suc.prems(1-3) k(4)]
  show ?case
  proof (cases "hvec H ! k = 0")
    case True
    then have "scan_vec H [k..<n] = scan_vec H [Suc k..<n]" using k(2) unfolding k(1) by (simp add: scan_vec_def vec_get_nth)
    then show ?thesis using i True by (simp add: d)
  next
    case False
    then have "scan_vec H [k..<n] = (hvec H ! k, int k)" using k(2) unfolding k(1) by (simp add: scan_vec_def vec_get_nth)
    moreover have "hash_get_next H (int k) = scan_vec H [Suc k..<n]" using Suc.prems(1,2) by (simp add: hash_get_next_def nat_add_distrib)
    ultimately show ?thesis using i False by (simp add: d hash_visit.simps)
  qed
qed

lemma hash_visit_back_scan:
  assumes "m_elem_count H \<noteq> 0" "k \<le> length (hvec H)"
  shows "hash_visit_back H (scan_vec H (rev [0..<k])) = Some (rev (filter (\<lambda>x. x \<noteq> 0) (take k (hvec H))))"
  using assms(2)
proof (induction k)
  case 0
  then show ?case by (simp add: scan_vec_def hash_visit_back.simps)
next
  case (Suc k)
  have t: "take (Suc k) (hvec H) = take k (hvec H) @ [hvec H ! k]" using Suc.prems by (simp add: take_Suc_conv_app_nth)
  show ?case
  proof (cases "hvec H ! k = 0")
    case True
    then have "scan_vec H (rev [0..<Suc k]) = scan_vec H (rev [0..<k])" using Suc.prems by (simp add: scan_vec_def vec_get_nth)
    then show ?thesis using Suc True by (simp add: t)
  next
    case False
    then have "scan_vec H (rev [0..<Suc k]) = (hvec H ! k, int k)" using Suc.prems by (simp add: scan_vec_def vec_get_nth)
    moreover have "hash_get_prev H (int k) = Some (scan_vec H (rev [0..<k]))" using assms(1) by (simp add: hash_get_prev_def)
    ultimately show ?thesis using Suc False by (simp add: t hash_visit_back.simps)
  qed
qed

lemma hash_visits:
  assumes "hash_inv hf key H"
  shows "hash_visit H (hash_get_first H) = filter (\<lambda>x. x \<noteq> 0) (hvec H)"
    "hash_visit_back H (hash_get_last H) = Some (rev (filter (\<lambda>x. x \<noteq> 0) (hvec H)))"
proof -
  let ?v = "vf_vec (m_elem_vector H)"
  have v: "vec_inv ?v" "vec_tail0 ?v" and c: "m_elem_count H = length (filter (\<lambda>x. x \<noteq> 0) (hvec H))"
    using assms by (simp_all add: hash_inv_def vf_inv_def)
  have z: "filter (\<lambda>x. x \<noteq> 0) (drop (vec_get_elem_count ?v) (hvec H)) = []"
    using v(2) by (auto simp: filter_empty_conv vec_tail0_def in_set_conv_nth)
  have f: "filter (\<lambda>x. x \<noteq> 0) (take (vec_get_elem_count ?v) (hvec H)) = filter (\<lambda>x. x \<noteq> 0) (hvec H)"
    using z by (metis append.right_neutral append_take_drop_id filter_append)
  show "hash_visit H (hash_get_first H) = filter (\<lambda>x. x \<noteq> 0) (hvec H)"
    using c f hash_visit_scan [OF _ refl vec_len(2) [OF v(1)], of 0] by (simp add: hash_get_first_def hash_visit.simps)
  show "hash_visit_back H (hash_get_last H) = Some (rev (filter (\<lambda>x. x \<noteq> 0) (hvec H)))"
    using c f hash_visit_back_scan [OF _ vec_len(2) [OF v(1)]] by (simp add: hash_get_last_def hash_visit_back.simps)
qed

lemma visit_elems:
  assumes "hash_inv hf key H"
  shows "set (filter (\<lambda>x. x \<noteq> 0) (hvec H)) = hash_elems H" "distinct (filter (\<lambda>x. x \<noteq> 0) (hvec H))" "m_elem_count H = card (hash_elems H)"
proof -
  show s: "set (filter (\<lambda>x. x \<noteq> 0) (hvec H)) = hash_elems H" by (auto simp: hash_elems_def slot_def in_set_conv_nth)
  have u: "i = j" if "i < length (hvec H)" "j < length (hvec H)" "hvec H ! i = hvec H ! j" "hvec H ! i \<noteq> 0" for i j
    using assms that unfolding hash_inv_def keys_differ_def slot_def by metis
  have d: "distinct (filter (\<lambda>x. x \<noteq> 0) xs)"
    if "\<And>i j. i < length xs \<Longrightarrow> j < length xs \<Longrightarrow> xs ! i = xs ! j \<Longrightarrow> xs ! i \<noteq> 0 \<Longrightarrow> i = j" for xs :: "'a list"
    using that
  proof (induction xs)
    case (Cons x xs)
    have "distinct (filter (\<lambda>x. x \<noteq> 0) xs)" using Cons.prems [of "Suc i" "Suc j" for i j] by (intro Cons.IH) auto
    moreover have "x \<notin> set xs" if h: "x \<noteq> 0"
      using Cons.prems [of 0 "Suc j" for j] h by (auto simp: in_set_conv_nth)
    ultimately show ?case by simp
  qed simp
  show "distinct (filter (\<lambda>x. x \<noteq> 0) (hvec H))" using d u by blast
  then show "m_elem_count H = card (hash_elems H)"
    unfolding s [symmetric] using assms by (simp only: distinct_card hash_inv_def)
qed

section \<open>The hash function classes\<close>

lemma nat_and_less: "0 < n \<Longrightarrow> x AND (n - 1) < (n::nat)"
proof -
  assume n: "0 < n"
  have "int x AND int (n - 1) \<le> int (n - 1)" by (rule AND_upper2) simp
  then have "int (x AND (n - 1)) \<le> int (n - 1)" by (simp only: of_nat_and_eq)
  then show ?thesis using n by linarith
qed

interpretation base: hash_table HashFuncBase "\<lambda>t. t" "\<lambda>v. v"
  by unfold_locales (simp_all add: HashFuncBase_def)

interpretation base2: hash_table HashFuncBase2 "\<lambda>t. t" "\<lambda>v. v"
  by unfold_locales (use nat_and_less in \<open>simp_all add: HashFuncBase2_def HashFuncBase_def\<close>)

interpretation str: hash_func HashFuncString "\<lambda>s. s" "\<lambda>v. v"
  by unfold_locales (simp_all add: HashFuncString_def)

text \<open>The first character of a string does not count.\<close>

lemma char_sum_first: "get_hash_value HashFuncString (c # s) n = get_hash_value HashFuncString (d # s) n"
  by (cases s) (simp_all add: HashFuncString_def)

section \<open>Properties\<close>

text \<open>
  C19: with hash functions that read one key of the elements, the hash table is a set of elements with distinct keys. \<open>append\<close>
  returns the element with the key of its argument and says whether it was there, \<open>find\<close> finds exactly the elements,
  \<open>remove\<close> removes the element with the key and returns its own argument, or 0; the overloads for values agree with them.
  The buckets, the counts, the element vector and its free index stay consistent.
\<close>

theorem hash_refines_set:
  assumes "hash_table hf key vkey" "hash_inv hf key H" "t \<noteq> 0" "vkey v = key t" "create v = t"
  shows "((\<exists>x\<in>hash_elems H. key x = key t \<and> hash_append hf t H = Some (True, x, H)) \<or>
      (\<forall>x\<in>hash_elems H. key x \<noteq> key t) \<and> (\<exists>H'. hash_append hf t H = Some (False, t, H') \<and> hash_inv hf key H' \<and>
         hash_elems H' = insert t (hash_elems H) \<and> m_elem_count H' = m_elem_count H + 1)) \<and>
    (case hash_find_elem hf t H of
        None \<Rightarrow> False
      | Some None \<Rightarrow> \<forall>x\<in>hash_elems H. key x \<noteq> key t
      | Some (Some x) \<Rightarrow> x \<in> hash_elems H \<and> key x = key t) \<and>
    ((\<forall>x\<in>hash_elems H. key x \<noteq> key t) \<and> hash_remove hf t H = Some (0, H) \<or>
      (\<exists>x\<in>hash_elems H. key x = key t \<and> (\<exists>H'. hash_remove hf t H = Some (t, H') \<and> hash_inv hf key H' \<and>
         hash_elems H' = hash_elems H - {x} \<and> m_elem_count H' = m_elem_count H - 1))) \<and>
    hash_append_val hf create v H = hash_append hf t H \<and>
    hash_find_val hf v H = map_option (case_option 0 (\<lambda>x. x)) (hash_find_elem hf t H)"
  using hash_table.hash_append_ok [OF assms(1-3)] hash_table.hash_find_ok [OF assms(1-3)] hash_table.hash_remove_ok [OF assms(1-3)]
    hash_table.hash_append_val_eq [of hf key vkey t v create H, OF assms(1) assms(4) [symmetric] assms(5) [symmetric] assms(3)]
    hash_table.hash_find_val_eq [of hf key vkey t v H, OF assms(1) assms(4) [symmetric] assms(3)]
  by (intro conjI)

definition two_words :: "64 word Hash" where
  "two_words = snd (snd (the (hash_append HashFuncBase 9 (snd (snd (the (hash_append HashFuncBase 5 (hash_init 4))))))))"

lemma two_words_ok: "hash_inv HashFuncBase (\<lambda>t. t) two_words \<and> hash_elems two_words = {5, 9}"
proof -
  have i: "hash_inv HashFuncBase (\<lambda>t. t) (hash_init 4)" "hash_elems (hash_init 4 :: 64 word Hash) = {}"
    using base.hash_init_ok [of 4] by simp_all
  obtain H1 where h1: "hash_append HashFuncBase 5 (hash_init 4) = Some (False, 5, H1)" "hash_inv HashFuncBase (\<lambda>t. t) H1" "hash_elems H1 = {5}"
    using base.hash_append_ok [OF i(1), of 5] i(2) by auto
  obtain H2 where h2: "hash_append HashFuncBase 9 H1 = Some (False, 9, H2)" "hash_inv HashFuncBase (\<lambda>t. t) H2" "hash_elems H2 = {5, 9}"
    using base.hash_append_ok [OF h1(2), of 9] h1(3) by auto
  show ?thesis using h1(1) h2 by (simp add: two_words_def)
qed

lemma hash_refines_set_witness:
  "hash_find_elem HashFuncBase 7 two_words = Some None \<and>
   (\<exists>H'. hash_remove HashFuncBase 5 two_words = Some (5, H') \<and> hash_elems H' = {9})"
proof -
  note t = two_words_ok [THEN conjunct1] two_words_ok [THEN conjunct2]
  have "hash_find_elem HashFuncBase 7 two_words = Some None"
    using hash_refines_set [OF base.hash_table_axioms t(1), of 7 7 "\<lambda>v. v"] t(2) by (auto split: option.splits)
  moreover have "\<exists>H'. hash_remove HashFuncBase 5 two_words = Some (5, H') \<and> hash_elems H' = {9}"
    using base.hash_remove_ok [OF t(1), of 5] t(2) by auto
  ultimately show ?thesis by blast
qed

text \<open>
  Growing the table, by default to twice the number of buckets, keeps its elements, their vector and the invariant; the
  loops over \<open>get_first\<close> and \<open>get_next\<close> and over \<open>get_last\<close> and \<open>get_prev\<close> end and visit every element once, in opposite orders;
  the element count is the number of elements; \<open>clean\<close> empties the table.
\<close>

theorem hash_growth_and_iteration:
  assumes "hash_table hf key vkey" "hash_inv hf key H"
  shows "(\<exists>H'. hash_grow hf bsize H = Some H' \<and> hash_inv hf key H' \<and> hvec H' = hvec H \<and>
      length (m_bucket H') = (if bsize \<noteq> 0 then bsize else 2 * length (m_bucket H)) \<and> m_elem_count H' = m_elem_count H) \<and>
    set (hash_visit H (hash_get_first H)) = hash_elems H \<and> distinct (hash_visit H (hash_get_first H)) \<and>
    hash_visit_back H (hash_get_last H) = Some (List.rev (hash_visit H (hash_get_first H))) \<and> m_elem_count H = card (hash_elems H) \<and>
    hash_inv hf key (hash_clean H) \<and> hash_elems (hash_clean H) = {}"
  using hash_table.hash_grow_ok [OF assms, of bsize] hash_visits [OF assms(2)] visit_elems [OF assms(2)] hash_table.hash_clean_ok [OF assms]
  by simp

lemma hash_growth_and_iteration_witness:
  "set (hash_visit two_words (hash_get_first two_words)) = {5, 9} \<and> m_elem_count two_words = 2 \<and>
   (\<exists>H'. hash_grow HashFuncBase 0 two_words = Some H' \<and> hvec H' = hvec two_words)"
  using hash_growth_and_iteration [OF base.hash_table_axioms two_words_ok [THEN conjunct1], of 0] two_words_ok [THEN conjunct2]
  by auto

end
