(* ===== verification/BigInt.thy ===== *)
theory BigInt
  imports Prelude
begin

text \<open>
  The big integers of \<^verbatim>\<open>src/com/bigint.h\<close> and \<^verbatim>\<open>src/com/bigint.cpp\<close>. A \<open>BigInt\<close> is the list of its 32-bit elements
  from the lowest to the significant position \<open>m_sig_pos\<close>; the empty list is the object without initial value. An operation
  reads no element behind that position, so the buffer there is not modelled. \<open>uval\<close> and \<open>sval\<close> are the unsigned and the
  two's complement value. \<open>None\<close> is the loop of a division that does not end.
\<close>

type_synonym BigInt = "32 word list"

fun uval :: "BigInt \<Rightarrow> int" where
  "uval [] = 0"
| "uval (x # xs) = uint x + 4294967296 * uval xs"

definition IS_NEG :: "32 word \<Rightarrow> bool" where
  "IS_NEG v \<longleftrightarrow> v AND push_bit 31 1 \<noteq> 0"

definition getSig :: "BigInt \<Rightarrow> 32 word" where
  "getSig a = last a"

definition bi_is_neg :: "BigInt \<Rightarrow> bool" where
  "bi_is_neg a \<longleftrightarrow> IS_NEG (getSig a)"

definition sval :: "BigInt \<Rightarrow> int" where
  "sval a = (if a = [] then 0 else if bi_is_neg a then uval a - 4294967296 ^ length a else uval a)"

definition isAllElemEqual :: "BigInt \<Rightarrow> 32 word \<Rightarrow> bool" where
  "isAllElemEqual a elem \<longleftrightarrow> (\<forall>x\<in>set a. x = elem)"

definition setEqualTo :: "32 word \<Rightarrow> BigInt" where
  "setEqualTo elem = [elem]"

definition longer_of :: "BigInt \<Rightarrow> BigInt \<Rightarrow> BigInt" where
  "longer_of a b = (if length b > length a then b else a)"

definition shorter_of :: "BigInt \<Rightarrow> BigInt \<Rightarrow> BigInt" where
  "shorter_of a b = (if length b > length a then a else b)"

section \<open>Addition\<close>

text \<open>
  One step of an addition: the wide sum, its high part as the carry, cleared when it is negative, its low part. The unsigned
  version widens without sign and shifts logically, the signed one with sign and arithmetically.
\<close>

definition uadd_step :: "32 word \<Rightarrow> 32 word \<Rightarrow> 32 word \<Rightarrow> 32 word \<times> 32 word" where
  "uadd_step x y c =
     (let v3 = ucast x + ucast y + ucast c :: 64 word;
          carry = ucast (drop_bit 32 v3) :: 32 word
      in (if IS_NEG carry then 0 else carry, ucast v3))"

definition sadd_step :: "32 word \<Rightarrow> 32 word \<Rightarrow> 32 word \<Rightarrow> 32 word \<times> 32 word" where
  "sadd_step x y c =
     (let v3 = scast x + scast y + scast c :: 64 word;
          carry = ucast (signed_drop_bit 32 v3) :: 32 word
      in (if IS_NEG carry then 0 else carry, ucast v3))"

fun add_loop :: "(32 word \<Rightarrow> 32 word \<Rightarrow> 32 word \<Rightarrow> 32 word \<times> 32 word) \<Rightarrow> BigInt \<Rightarrow> BigInt \<Rightarrow> 32 word \<Rightarrow> BigInt" where
  "add_loop step (x # xs) (y # ys) c = (case step x y c of (c, r) \<Rightarrow> r # add_loop step xs ys c)"
| "add_loop step [] (y # ys) c = (case step 0 y c of (c, r) \<Rightarrow> r # add_loop step [] ys c)"
| "add_loop step xs [] c = (if c \<noteq> 0 then [c] else [])"

definition biuAdd :: "BigInt \<Rightarrow> BigInt \<Rightarrow> BigInt" where
  "biuAdd a b = add_loop uadd_step (shorter_of a b) (longer_of a b) 0"

definition bisAdd :: "BigInt \<Rightarrow> BigInt \<Rightarrow> BigInt" where
  "bisAdd a b = add_loop sadd_step (shorter_of a b) (longer_of a b) 0"

definition biSub :: "BigInt \<Rightarrow> BigInt \<Rightarrow> BigInt" where
  "biSub a b =
     (let n = max (length a) (length b);
          res = map (\<lambda>x. NOT x) b @ replicate (n - length b) (NOT 0);
          res = biuAdd res [1];
          res = biuAdd a res
      in take n res)"

definition bi_neg :: "BigInt \<Rightarrow> BigInt" where
  "bi_neg a = (if isAllElemEqual a 0 then a else biuAdd (map (\<lambda>x. NOT x) a) [1])"

definition bi_abs :: "BigInt \<Rightarrow> BigInt" where
  "bi_abs a = (if IS_NEG (getSig a) then bi_neg a else a)"

section \<open>Multiplication\<close>

fun mul_row :: "BigInt \<Rightarrow> 32 word \<Rightarrow> 32 word \<Rightarrow> BigInt" where
  "mul_row [] y c = (if c \<noteq> 0 then [c] else [])"
| "mul_row (x # xs) y c =
     (let v3 = ucast x * ucast y + ucast c :: 64 word
      in ucast v3 # mul_row xs y (ucast (drop_bit 32 v3)))"

fun mul_loop :: "BigInt \<Rightarrow> BigInt \<Rightarrow> nat \<Rightarrow> BigInt \<Rightarrow> BigInt" where
  "mul_loop a [] shift_cnt res = res"
| "mul_loop a (y # ys) shift_cnt res =
     mul_loop a ys (shift_cnt + 1) (biuAdd res (replicate shift_cnt 0 @ mul_row a y 0))"

definition biuMul :: "BigInt \<Rightarrow> BigInt \<Rightarrow> BigInt" where
  "biuMul a b = mul_loop a b 0 (setEqualTo 0)"

definition bisMul :: "BigInt \<Rightarrow> BigInt \<Rightarrow> BigInt" where
  "bisMul a b =
     (let is_a_neg = IS_NEG (getSig a); is_b_neg = IS_NEG (getSig b);
          pa = (if is_a_neg then bi_neg a else a); pb = (if is_b_neg then bi_neg b else b);
          res = biuMul pa pb
      in if is_a_neg \<noteq> is_b_neg then if \<not> isAllElemEqual res 0 then bi_neg res else res else res)"

section \<open>Comparison\<close>

definition bi_eq :: "BigInt \<Rightarrow> BigInt \<Rightarrow> bool" where
  "bi_eq a b \<longleftrightarrow>
     (let l = longer_of a b; s = shorter_of a b; fill = (if IS_NEG (getSig l) then - 1 else 0)
      in take (length s) l = s \<and> (\<forall>x\<in>set (drop (length s) l). x = fill))"

text \<open>With both negative, \<open>operator<\<close> answers true whatever its loop finds.\<close>

definition bi_less :: "BigInt \<Rightarrow> BigInt \<Rightarrow> bool" where
  "bi_less a b \<longleftrightarrow>
     (if \<not> bi_is_neg a \<and> \<not> bi_is_neg b
      then length a < length b \<or> length a = length b \<and> (\<forall>(x, y)\<in>set (zip a b). x <s y)
      else if bi_is_neg a \<and> \<not> bi_is_neg b then True
      else if \<not> bi_is_neg a \<and> bi_is_neg b then False
      else True)"

definition bi_less_eq :: "BigInt \<Rightarrow> BigInt \<Rightarrow> bool" where
  "bi_less_eq a b \<longleftrightarrow>
     (if \<not> bi_is_neg a \<and> \<not> bi_is_neg b
      then length a < length b \<or> length a = length b \<and> (\<forall>(x, y)\<in>set (zip a b). x \<le>s y)
      else if bi_is_neg a \<and> \<not> bi_is_neg b then True
      else if \<not> bi_is_neg a \<and> bi_is_neg b then False
      else (let s = (if length a < length b then a else b); l = (if length a < length b then b else a)
            in (\<exists>(x, y)\<in>set (zip s l). x <s y) \<or> length a = length b))"

definition bi_greater :: "BigInt \<Rightarrow> BigInt \<Rightarrow> bool" where
  "bi_greater a b \<longleftrightarrow> \<not> bi_less_eq a b"

definition bi_greater_eq :: "BigInt \<Rightarrow> BigInt \<Rightarrow> bool" where
  "bi_greater_eq a b \<longleftrightarrow> \<not> bi_less a b"

section \<open>Division\<close>

definition SMALL_QUO_MAX :: "32 word" where
  "SMALL_QUO_MAX = push_bit 2 (drop_bit 2 (- 1))"

text \<open>The state is the dividend, the small quotient, whether it is used, and the quotient.\<close>

partial_function (option) div_loop :: "BigInt \<Rightarrow> BigInt \<Rightarrow> 32 word \<Rightarrow> bool \<Rightarrow> BigInt \<Rightarrow> (BigInt \<times> BigInt) option" where
  "div_loop b pa small_quo is_use_small_quo quo =
     (let pc = biSub pa b; small_quo = small_quo + 1 in
      if bi_less pc b then Some (if is_use_small_quo then setEqualTo small_quo else quo, pc)
      else if is_use_small_quo then
        if small_quo > SMALL_QUO_MAX then div_loop b pc small_quo False (setEqualTo small_quo)
        else div_loop b pc small_quo True quo
      else div_loop b pc small_quo False (biuAdd quo [1]))"

definition biuDivRem :: "BigInt \<Rightarrow> BigInt \<Rightarrow> BigInt \<Rightarrow> (BigInt \<times> BigInt) option" where
  "biuDivRem a b quo = (if bi_less a b then Some (setEqualTo 0, a) else div_loop b a 0 True quo)"

definition biDivRem :: "BigInt \<Rightarrow> BigInt \<Rightarrow> BigInt \<Rightarrow> (BigInt \<times> BigInt) option" where
  "biDivRem a b quo =
     (let is_a_neg = bi_is_neg a; is_b_neg = bi_is_neg b in
      if \<not> is_a_neg \<and> \<not> is_b_neg then biuDivRem a b quo
      else map_option (\<lambda>(quo, rem). (if is_a_neg \<noteq> is_b_neg then bi_neg quo else quo, rem))
        (biuDivRem (if is_a_neg then bi_abs a else a) (if is_b_neg then bi_abs b else b) quo))"

section \<open>Values\<close>

lemma IS_NEG_msb: "IS_NEG v \<longleftrightarrow> bit v 31"
  using and_exp_eq_0_iff_not_bit [of v 31] by (simp add: IS_NEG_def)

lemma IS_NEG_sint: "IS_NEG v \<longleftrightarrow> sint v < 0"
  by (simp add: IS_NEG_msb bit_last_iff [symmetric])

lemma IS_NEG_uint: "IS_NEG v \<longleftrightarrow> 2147483648 \<le> uint v"
proof -
  have "IS_NEG v \<longleftrightarrow> bit (uint v) 31" by (simp add: IS_NEG_msb bit_uint_iff)
  also have "\<dots> \<longleftrightarrow> odd (uint v div 2147483648)" by (simp add: bit_iff_odd)
  also have "\<dots> \<longleftrightarrow> 2147483648 \<le> uint v"
  proof -
    have "uint v < 4294967296" "0 \<le> uint v" using uint_lt2p [of v] by simp_all
    then have "uint v div 2147483648 = (if 2147483648 \<le> uint v then 1 else 0)" by (auto simp: div_eq_minus1 div_pos_geq)
    then show ?thesis by simp
  qed
  finally show ?thesis .
qed

lemma uint_range: "0 \<le> uint (x :: 32 word)" "uint (x :: 32 word) < 4294967296"
  using uint_lt2p [of x] by simp_all

lemma uval_nonneg [simp]: "0 \<le> uval a"
  by (induction a) auto

lemma uval_less: "uval a < 4294967296 ^ length a"
proof (induction a)
  case (Cons x xs)
  have "uint x < 4294967296" using uint_lt2p [of x] by simp
  then show ?case using Cons by simp
qed simp

lemma uval_append: "uval (a @ b) = uval a + 4294967296 ^ length a * uval b"
  by (induction a) (auto simp: algebra_simps)

lemma uval_replicate_0 [simp]: "uval (replicate n 0) = 0"
  by (induction n) auto

lemma uint_wide: "uint (ucast (x :: 32 word) :: 64 word) = uint x"
  by (simp add: uint_up_ucast is_up)

lemma uint_low: "uint (ucast (v :: 64 word) :: 32 word) = uint v mod 4294967296"
  by (simp add: unsigned_ucast_eq take_bit_eq_mod)

lemma uint_high: "uint (ucast (drop_bit 32 (v :: 64 word)) :: 32 word) = uint v div 4294967296"
proof -
  have "uint v < 18446744073709551616" using uint_lt2p [of v] by simp
  then have "uint v div 4294967296 < 4294967296" by (simp add: div_less_iff_less_mult)
  then show ?thesis by (simp add: uint_low drop_bit_eq_div uint_div mod_pos_pos_trivial pos_imp_zdiv_nonneg_iff)
qed

lemma uint_sum64: "uint a + uint b < 18446744073709551616 \<Longrightarrow> uint (a + b :: 64 word) = uint a + uint b"
  by (simp add: uint_word_ariths)

lemma uadd_step_ok:
  assumes "uint c \<le> 1"
  obtains c' r where "uadd_step x y c = (c', r)" "uint r + 4294967296 * uint c' = uint x + uint y + uint c" "uint c' \<le> 1"
proof -
  define v3 :: "64 word" where "v3 = ucast x + ucast y + ucast c"
  have r: "uint x < 4294967296" "uint y < 4294967296" by (simp_all add: uint_range)
  have v: "uint v3 = uint x + uint y + uint c"
    using r assms unfolding v3_def by (simp add: uint_sum64 uint_wide)
  let ?c = "ucast (drop_bit 32 v3) :: 32 word"
  have c: "uint ?c = (uint x + uint y + uint c) div 4294967296" by (simp add: uint_high v)
  have "uint ?c \<le> 1" using r assms unfolding c by linarith
  then have "uadd_step x y c = (?c, ucast v3)" by (simp add: uadd_step_def Let_def v3_def [symmetric] IS_NEG_uint)
  moreover have "uint (ucast v3 :: 32 word) + 4294967296 * uint ?c = uint x + uint y + uint c"
    unfolding c unfolding uint_low v by simp
  ultimately show thesis using that \<open>uint ?c \<le> 1\<close> by blast
qed

lemma add_loop_uval:
  "uint c \<le> 1 \<Longrightarrow> length xs \<le> length ys \<Longrightarrow> uval (add_loop uadd_step xs ys c) = uval xs + uval ys + uint c"
proof (induction "uadd_step" xs ys c rule: add_loop.induct)
  case (1 x xs y ys c)
  obtain c' r where s: "uadd_step x y c = (c', r)" "uint r + 4294967296 * uint c' = uint x + uint y + uint c" "uint c' \<le> 1"
    by (rule uadd_step_ok [OF 1(2)])
  have "uval (add_loop uadd_step xs ys c') = uval xs + uval ys + uint c'" using 1 s by auto
  then show ?case using s(1,2) by (simp add: algebra_simps)
next
  case (2 y ys c)
  obtain c' r where s: "uadd_step 0 y c = (c', r)" "uint r + 4294967296 * uint c' = uint (0 :: 32 word) + uint y + uint c" "uint c' \<le> 1"
    by (rule uadd_step_ok [OF 2(2)])
  have "uval (add_loop uadd_step [] ys c') = uval ys + uint c'" using 2 s by auto
  then show ?case using s(1,2) by (simp add: algebra_simps)
qed auto

lemma add_loop_length:
  "length xs \<le> length ys \<Longrightarrow> length (add_loop step xs ys c) = length ys \<or> length (add_loop step xs ys c) = Suc (length ys)"
  by (induction step xs ys c rule: add_loop.induct) (auto split: prod.splits)

lemma biuAdd_uval: "uval (biuAdd a b) = uval a + uval b"
  unfolding biuAdd_def by (subst add_loop_uval) (auto simp: longer_of_def shorter_of_def)

lemma biuAdd_length: "length (biuAdd a b) = max (length a) (length b) \<or> length (biuAdd a b) = Suc (max (length a) (length b))"
  using add_loop_length [of "shorter_of a b" "longer_of a b" uadd_step 0]
  by (auto simp: biuAdd_def longer_of_def shorter_of_def)

lemma uval_NOT: "uval (map (\<lambda>x. NOT x) a) = 4294967296 ^ length a - 1 - uval a"
proof (induction a)
  case (Cons x xs)
  have "uint (NOT x) = 4294967295 - uint x"
  proof -
    have "NOT x = - 1 - x" by (simp add: not_eq_complement)
    then have "uint (NOT x) = (uint (- 1 :: 32 word) - uint x) mod 4294967296" by (simp add: uint_word_ariths)
    then show ?thesis using uint_range [of x] by (simp add: uint_word_ariths)
  qed
  then show ?case using Cons by (simp add: algebra_simps)
qed simp

lemma uval_take: "uval (take n a) = uval a mod 4294967296 ^ n"
proof (cases "n \<le> length a")
  case True
  have "uval a = uval (take n a) + 4294967296 ^ n * uval (drop n a)"
    using uval_append [of "take n a" "drop n a"] True by simp
  moreover have "uval (take n a) < 4294967296 ^ n" using uval_less [of "take n a"] True by simp
  ultimately show ?thesis by simp
next
  case False
  then have "(4294967296 :: int) ^ length a < 4294967296 ^ n" by (intro power_strict_increasing) simp_all
  then have "uval a < 4294967296 ^ n" using uval_less [of a] by (rule less_trans [rotated])
  then show ?thesis using False by simp
qed

lemma biSub_uval: "uval (biSub a b) = (uval a - uval b) mod 4294967296 ^ max (length a) (length b)"
proof -
  let ?n = "max (length a) (length b)" and ?pad = "replicate (max (length a) (length b) - length b) (NOT 0 :: 32 word)"
  have "map (\<lambda>x. NOT x) b @ ?pad = map (\<lambda>x. NOT x) (b @ replicate (?n - length b) 0)" by simp
  then have "uval (map (\<lambda>x. NOT x) b @ ?pad) = 4294967296 ^ ?n - 1 - uval b"
    using uval_NOT [of "b @ replicate (?n - length b) 0"] by (simp add: uval_append)
  then have "uval a + (uval (map (\<lambda>x. NOT x) b @ ?pad) + uval [1]) = uval a - uval b + 4294967296 ^ ?n" by simp
  then have "uval (biSub a b) = (uval a - uval b + 4294967296 ^ ?n) mod 4294967296 ^ ?n"
    by (simp only: biSub_def Let_def uval_take biuAdd_uval)
  then show ?thesis by simp
qed

lemma biSub_length: "b \<noteq> [] \<Longrightarrow> length (biSub a b) = max (length a) (length b)"
proof -
  assume "b \<noteq> []"
  let ?n = "max (length a) (length b)" and ?r = "map (\<lambda>x. NOT x) b @ replicate (max (length a) (length b) - length b) (NOT 0)"
  have "?n \<le> length (biuAdd ?r [1])" using biuAdd_length [of ?r "[1]"] by auto
  then have "?n \<le> length (biuAdd a (biuAdd ?r [1]))" using biuAdd_length [of a "biuAdd ?r [1]"] by auto
  then show ?thesis by (simp only: biSub_def Let_def length_take min_absorb2)
qed

lemma mul_row_uval: "uval (mul_row xs y c) = uval xs * uint y + uint c"
proof (induction xs y c rule: mul_row.induct)
  case (2 x xs y c)
  define v3 :: "64 word" where "v3 = ucast x * ucast y + ucast c"
  have u: "uint (w :: 32 word) \<le> 4294967295" for w using uint_range(2) [of w] by linarith
  have r: "0 \<le> uint x" "uint x \<le> 4294967295" "0 \<le> uint y" "uint y \<le> 4294967295" "uint c \<le> 4294967295"
    using u by (simp_all add: uint_range)
  have m: "uint x * uint y \<le> 4294967295 * 4294967295" using r by (intro mult_mono) auto
  have "uint (ucast x * ucast y :: 64 word) = uint x * uint y" using m by (simp add: uint_word_ariths uint_wide)
  then have v: "uint v3 = uint x * uint y + uint c" using m r(5) unfolding v3_def by (simp add: uint_sum64 uint_wide)
  have "uval (mul_row (x # xs) y c) = uint v3 mod 4294967296 + 4294967296 * (uval xs * uint y + uint v3 div 4294967296)"
    using 2 uint_high [of v3] by (simp add: Let_def v3_def [symmetric] uint_low)
  then show ?case using v by (simp add: algebra_simps)
qed simp

lemma mul_loop_uval: "uval (mul_loop a ys k res) = uval res + uval a * uval ys * 4294967296 ^ k"
  by (induction a ys k res rule: mul_loop.induct) (simp_all add: biuAdd_uval uval_append mul_row_uval algebra_simps)

lemma biuMul_uval: "uval (biuMul a b) = uval a * uval b"
  by (simp add: biuMul_def mul_loop_uval setEqualTo_def)

section \<open>Signs\<close>

lemma uval_last: "a \<noteq> [] \<Longrightarrow> uval a = uval (butlast a) + 4294967296 ^ (length a - 1) * uint (last a)"
  using uval_append [of "butlast a" "[last a]"] by simp

lemma neg_uval: "a \<noteq> [] \<Longrightarrow> bi_is_neg a \<longleftrightarrow> 4294967296 ^ length a \<le> 2 * uval a"
proof -
  assume a: "a \<noteq> []"
  define B :: int where "B = 4294967296 ^ (length a - 1)"
  have l: "4294967296 ^ length a = 4294967296 * B" using a by (cases a) (simp_all add: B_def)
  have b: "0 \<le> uval (butlast a)" "uval (butlast a) < B" "0 \<le> B" using uval_less [of "butlast a"] by (simp_all add: B_def)
  have u: "uval a = uval (butlast a) + B * uint (last a)" using uval_last [OF a] by (simp add: B_def)
  show ?thesis
  proof (cases "2147483648 \<le> uint (last a)")
    case True
    then have "B * 2147483648 \<le> B * uint (last a)" using b by (intro mult_left_mono) auto
    then have "4294967296 * B \<le> 2 * (B * uint (last a))" by simp
    then have "4294967296 ^ length a \<le> 2 * uval a" using b(1) unfolding u l distrib_left by linarith
    then show ?thesis using True by (simp add: bi_is_neg_def getSig_def IS_NEG_uint)
  next
    case False
    then have "B * (uint (last a) + 1) \<le> B * 2147483648" using b by (intro mult_left_mono) auto
    then have "B * uint (last a) + B \<le> B * 2147483648" by (simp only: distrib_left mult_1_right)
    then have "uval a < B * 2147483648" using b unfolding u by linarith
    then show ?thesis using False l by (simp add: bi_is_neg_def getSig_def IS_NEG_uint)
  qed
qed

lemma sval_range:
  assumes "a \<noteq> []"
  shows "- (4294967296 ^ length a) \<le> 2 * sval a \<and> 2 * sval a < 4294967296 ^ length a"
proof -
  define M :: int where "M = 4294967296 ^ length a"
  have "0 \<le> uval a" "uval a < M" by (simp_all add: uval_less M_def)
  then show ?thesis using neg_uval [OF assms] assms unfolding sval_def M_def [symmetric] by (auto simp del: uval_nonneg)
qed

lemma sval_neg:
  assumes "a \<noteq> []"
  shows "bi_is_neg a \<longleftrightarrow> sval a < 0"
proof -
  have "0 \<le> uval a" "uval a < 4294967296 ^ length a" by (simp_all add: uval_less)
  then show ?thesis using assms unfolding sval_def by (cases "bi_is_neg a") (simp_all add: not_less)
qed

lemma sval_uval: "a \<noteq> [] \<Longrightarrow> sval a mod 4294967296 ^ length a = uval a"
  using uval_less [of a] by (auto simp: sval_def)

text \<open>Two's complement: the value in range that is congruent.\<close>

lemma sval_unique:
  assumes "a \<noteq> []" "uval a = v mod 4294967296 ^ length a" "- (4294967296 ^ length a) \<le> 2 * v" "2 * v < 4294967296 ^ length a"
  shows "sval a = v"
proof -
  define M :: int where "M = 4294967296 ^ length a"
  have m: "0 < M" by (simp add: M_def)
  have "v mod M = (if 0 \<le> v then v else v + M)"
  proof (cases "0 \<le> v")
    case True
    then show ?thesis using assms(4) by (simp add: M_def [symmetric])
  next
    case False
    have "v mod M = (v + M) mod M" by simp
    also have "\<dots> = v + M" using False assms(3) by (intro mod_pos_pos_trivial) (simp_all add: M_def [symmetric])
    finally show ?thesis using False by simp
  qed
  then show ?thesis using assms neg_uval [OF assms(1)] m unfolding sval_def M_def [symmetric] by auto
qed

lemma all_zero_uval: "isAllElemEqual a 0 \<longleftrightarrow> uval a = 0"
proof (induction a)
  case (Cons x xs)
  have "uint x + 4294967296 * uval xs = 0 \<longleftrightarrow> uint x = 0 \<and> uval xs = 0" using uint_range(1) [of x] uval_nonneg [of xs] by linarith
  then show ?case using Cons by (simp add: isAllElemEqual_def uint_0_iff)
qed (simp add: isAllElemEqual_def)

lemma uval_high: "4294967296 ^ n \<le> uval a \<Longrightarrow> n < length a"
proof (rule ccontr)
  assume h: "4294967296 ^ n \<le> uval a" "\<not> n < length a"
  then have "(4294967296 :: int) ^ length a \<le> 4294967296 ^ n" by (intro power_increasing) simp_all
  then show False using h(1) uval_less [of a] by linarith
qed

text \<open>Without a carry out of the last element an addition keeps the length: the extra element of an addition is not 0.\<close>

lemma add_loop_carry:
  "length xs \<le> length ys \<Longrightarrow> length (add_loop step xs ys c) = Suc (length ys) \<Longrightarrow> last (add_loop step xs ys c) \<noteq> 0"
  by (induction step xs ys c rule: add_loop.induct) (auto split: prod.splits if_splits)

lemma biuAdd_no_carry: "uval a + uval b < 4294967296 ^ max (length a) (length b) \<Longrightarrow> length (biuAdd a b) = max (length a) (length b)"
proof (rule ccontr)
  let ?n = "max (length a) (length b)"
  assume h: "uval a + uval b < 4294967296 ^ ?n" "length (biuAdd a b) \<noteq> ?n"
  then have l: "length (biuAdd a b) = Suc ?n" using biuAdd_length [of a b] by blast
  have "last (biuAdd a b) \<noteq> 0"
    using add_loop_carry [of "shorter_of a b" "longer_of a b" uadd_step 0] l
    by (auto simp: biuAdd_def longer_of_def shorter_of_def max_def split: if_splits)
  then have "1 \<le> uint (last (biuAdd a b))" using uint_range(1) [of "last (biuAdd a b)"] by (simp add: int_one_le_iff_zero_less less_le uint_0_iff)
  then have "4294967296 ^ ?n * 1 \<le> 4294967296 ^ ?n * uint (last (biuAdd a b))" by (intro mult_left_mono) simp_all
  moreover have "uval (biuAdd a b) = uval (butlast (biuAdd a b)) + 4294967296 ^ ?n * uint (last (biuAdd a b))"
    using uval_last [of "biuAdd a b"] l by (cases "biuAdd a b") simp_all
  moreover have "0 \<le> uval (butlast (biuAdd a b))" by simp
  ultimately have "4294967296 ^ ?n \<le> uval (biuAdd a b)" by linarith
  then show False using h(1) by (simp add: biuAdd_uval)
qed

lemma bi_neg_uval: "a \<noteq> [] \<Longrightarrow> uval (bi_neg a) = (- uval a) mod 4294967296 ^ length a \<and> length (bi_neg a) = length a"
proof (cases "uval a = 0")
  case True
  then show ?thesis by (simp add: bi_neg_def all_zero_uval)
next
  case False
  assume a: "a \<noteq> []"
  have v: "uval (map (\<lambda>x. NOT x) a) + uval [1] = 4294967296 ^ length a - uval a" by (simp add: uval_NOT)
  have p: "0 < uval a" using False uval_nonneg [of a] by linarith
  have m: "max (length (map (\<lambda>x. NOT x) a)) (length [1 :: 32 word]) = length a" using a by (cases a) auto
  have "length (bi_neg a) = length a"
    using biuAdd_no_carry [of "map (\<lambda>x. NOT x) a" "[1]"] v p False unfolding m by (simp add: bi_neg_def all_zero_uval)
  moreover have "(- uval a) mod 4294967296 ^ length a = (- uval a + 4294967296 ^ length a) mod 4294967296 ^ length a" by simp
  moreover have "(- uval a + 4294967296 ^ length a) mod 4294967296 ^ length a = - uval a + 4294967296 ^ length a"
    using p uval_less [of a] by (intro mod_pos_pos_trivial) simp_all
  ultimately show ?thesis using False v by (simp add: bi_neg_def all_zero_uval biuAdd_uval)
qed

lemma bi_neg_sval: "a \<noteq> [] \<Longrightarrow> 2 * sval a \<noteq> - (4294967296 ^ length a) \<Longrightarrow> sval (bi_neg a) = - sval a"
proof -
  assume a: "a \<noteq> []" "2 * sval a \<noteq> - (4294967296 ^ length a)"
  have l: "length (bi_neg a) = length a" using bi_neg_uval [OF a(1)] by simp
  then have "bi_neg a \<noteq> []" using a(1) by auto
  moreover have "uval (bi_neg a) = (- sval a) mod 4294967296 ^ length (bi_neg a)"
    using bi_neg_uval [OF a(1)] sval_uval [OF a(1)] l by (metis mod_minus_eq)
  ultimately show ?thesis using sval_range [OF a(1)] a(2) l by (intro sval_unique) auto
qed

lemma uval_inj: "length a = length b \<Longrightarrow> uval a = uval b \<Longrightarrow> a = b"
proof (induction a b rule: list_induct2)
  case (Cons x xs y ys)
  have e: "uint x + 4294967296 * uval xs = uint y + 4294967296 * uval ys" using Cons.prems by simp
  have m: "(uint z + 4294967296 * v) mod 4294967296 = uint z" for z :: "32 word" and v
    using uint_range [of z] by simp
  have "uint x = uint y" using m [of x "uval xs"] m [of y "uval ys"] e by (simp only: e)
  moreover from this have "uval xs = uval ys" using e by simp
  ultimately show ?case using Cons.IH by (simp add: word_uint_eq_iff)
qed simp

lemma uval_ones: "uval (replicate k (- 1)) = 4294967296 ^ k - 1"
  by (induction k) (simp_all add: uint_word_ariths)

text \<open>Filling up with the sign keeps the value, and nothing else does when the signs agree.\<close>

lemma sval_fill:
  assumes "s \<noteq> []" "l = s @ r" "bi_is_neg l = bi_is_neg s"
  shows "sval l = sval s \<longleftrightarrow> r = replicate (length r) (if bi_is_neg l then - 1 else 0)"
proof -
  let ?B = "4294967296 :: int"
  have u: "uval l = uval s + ?B ^ length s * uval r" by (simp add: assms(2) uval_append)
  have p: "?B ^ length l = ?B ^ length s * ?B ^ length r" by (simp add: assms(2) power_add)
  have z: "0 < ?B ^ length s" by simp
  have c: "uval r = uval (replicate (length r) w) \<longleftrightarrow> r = replicate (length r) w" for w
    using uval_inj [of r "replicate (length r) w"] by (metis length_replicate)
  show ?thesis
  proof (cases "bi_is_neg l")
    case True
    have "sval l = sval s \<longleftrightarrow> ?B ^ length s * (uval r - (?B ^ length r - 1)) = 0"
      using True assms unfolding sval_def u p by (simp add: algebra_simps)
    also have "\<dots> \<longleftrightarrow> uval r = ?B ^ length r - 1" using z by simp
    finally show ?thesis using True c [of "- 1"] by (simp add: uval_ones)
  next
    case False
    have "sval l = sval s \<longleftrightarrow> ?B ^ length s * uval r = 0" using False assms unfolding sval_def u by simp
    then show ?thesis using False c [of 0] z by simp
  qed
qed

lemma sval_take: "l \<noteq> [] \<Longrightarrow> s \<noteq> [] \<Longrightarrow> length s \<le> length l \<Longrightarrow> sval l = sval s \<Longrightarrow> take (length s) l = s"
proof -
  assume h: "l \<noteq> []" "s \<noteq> []" "length s \<le> length l" "sval l = sval s"
  have "(4294967296 :: int) ^ length s dvd 4294967296 ^ length l" using h(3) by (rule le_imp_power_dvd)
  then have "uval l mod 4294967296 ^ length s = sval l mod 4294967296 ^ length s"
    unfolding sval_uval [OF h(1), symmetric] by (rule mod_mod_cancel)
  then have "uval (take (length s) l) = uval s" unfolding uval_take h(4) sval_uval [OF h(2)] .
  then show "take (length s) l = s" using h(3) by (intro uval_inj) simp_all
qed

lemma bi_eq_sval:
  assumes "a \<noteq> []" "b \<noteq> []" "bi_is_neg a = bi_is_neg b"
  shows "bi_eq a b \<longleftrightarrow> sval a = sval b"
proof -
  define l s where "l = longer_of a b" and "s = shorter_of a b"
  have h: "l \<noteq> []" "s \<noteq> []" "length s \<le> length l" "bi_is_neg l = bi_is_neg s" "sval a = sval b \<longleftrightarrow> sval l = sval s"
    using assms by (auto simp: l_def s_def longer_of_def shorter_of_def)
  let ?w = "if bi_is_neg l then - 1 else 0 :: 32 word"
  have e: "bi_eq a b \<longleftrightarrow> take (length s) l = s \<and> drop (length s) l = replicate (length (drop (length s) l)) ?w"
    by (auto simp: bi_eq_def Let_def l_def [symmetric] s_def [symmetric] bi_is_neg_def replicate_length_same intro!: replicate_eqI)
  show ?thesis
  proof (cases "take (length s) l = s")
    case True
    then have "l = s @ drop (length s) l" by (metis append_take_drop_id)
    from sval_fill [OF h(2) this h(4)] show ?thesis using e True h(5) by simp
  next
    case False
    then show ?thesis using e h sval_take by blast
  qed
qed

section \<open>Signed addition\<close>

lemma sadd_step_no_carry: "sadd_step x y 0 = (0, x + y)"
proof -
  define v3 :: "64 word" where "v3 = scast x + scast y"
  have r: "- 2147483648 \<le> sint (w :: 32 word)" "sint (w :: 32 word) < 2147483648" for w
    using sint_ge [of w] sint_lt [of w] by simp_all
  have s: "sint (scast w :: 64 word) = sint w" for w :: "32 word" by (simp add: sint_up_scast is_up)
  have v: "sint v3 = sint x + sint y"
    unfolding v3_def using r [of x] r [of y] by (simp add: sint_word_ariths s signed_take_bit_int_eq_self)
  have "sint (signed_drop_bit 32 v3) = sint v3 div 4294967296" by (simp add: sint_signed_drop_bit_eq drop_bit_eq_div)
  then have d: "sint (signed_drop_bit 32 v3) = 0 \<or> sint (signed_drop_bit 32 v3) = - 1"
    unfolding v using r [of x] r [of y] by linarith
  have m1: "(ucast (- 1 :: 64 word) :: 32 word) = - 1" by (rule bit_word_eqI) (simp add: bit_simps)
  have z: "IS_NEG (- 1)" by (simp add: IS_NEG_sint)
  have "signed_drop_bit 32 v3 = 0 \<or> signed_drop_bit 32 v3 = - 1"
    using d by (metis sint_0 sint_n1 word_eq_iff_signed)
  then have c: "(if IS_NEG (ucast (signed_drop_bit 32 v3)) then 0 else ucast (signed_drop_bit 32 v3) :: 32 word) = 0"
    using z m1 by auto
  have "v3 = of_int (sint x + sint y)" unfolding v [symmetric] by simp
  then have "ucast v3 = (of_int (sint x + sint y) :: 32 word)" by (simp add: ucast_down_wi is_down del: of_int_add)
  then have l: "ucast v3 = x + y" by simp
  show ?thesis using c l by (simp add: sadd_step_def Let_def v3_def [symmetric])
qed

lemma bisAdd_elements:
  "bisAdd a b = map2 (+) (shorter_of a b) (longer_of a b) @ drop (length (shorter_of a b)) (longer_of a b)"
proof -
  have "length xs \<le> length ys \<Longrightarrow> add_loop sadd_step xs ys 0 = map2 (+) xs ys @ drop (length xs) ys" for xs ys
    by (induction sadd_step xs ys "0 :: 32 word" rule: add_loop.induct) (simp_all add: sadd_step_no_carry)
  then show ?thesis unfolding bisAdd_def by (simp add: longer_of_def shorter_of_def)
qed

section \<open>Signed subtraction and multiplication\<close>

lemma biSub_sval:
  assumes "a \<noteq> []" "b \<noteq> []" "length a < length b \<longrightarrow> \<not> bi_is_neg a" "length b < length a \<longrightarrow> \<not> bi_is_neg b"
    "- (4294967296 ^ max (length a) (length b)) \<le> 2 * (sval a - sval b)" "2 * (sval a - sval b) < 4294967296 ^ max (length a) (length b)"
  shows "sval (biSub a b) = sval a - sval b"
proof -
  let ?n = "max (length a) (length b)"
  have l: "length (biSub a b) = ?n" by (rule biSub_length [OF assms(2)])
  have c: "sval x mod 4294967296 ^ ?n = uval x mod 4294967296 ^ ?n" if h: "x \<noteq> []" "length x = ?n \<or> \<not> bi_is_neg x" for x
    using h sval_uval [of x] by (auto simp: sval_def)
  have "sval a mod 4294967296 ^ ?n = uval a mod 4294967296 ^ ?n" "sval b mod 4294967296 ^ ?n = uval b mod 4294967296 ^ ?n"
  proof -
    have "length a = ?n \<or> \<not> bi_is_neg a" "length b = ?n \<or> \<not> bi_is_neg b" using assms(3,4) by linarith+
    then show "sval a mod 4294967296 ^ ?n = uval a mod 4294967296 ^ ?n" "sval b mod 4294967296 ^ ?n = uval b mod 4294967296 ^ ?n"
      using c [OF assms(1)] c [OF assms(2)] by blast+
  qed
  then have "(sval a - sval b) mod 4294967296 ^ ?n = (uval a - uval b) mod 4294967296 ^ ?n" by (rule mod_diff_cong)
  then have u: "uval (biSub a b) = (sval a - sval b) mod 4294967296 ^ length (biSub a b)" by (simp add: biSub_uval l)
  have "biSub a b \<noteq> []" using l assms(1) by auto
  then show ?thesis using u assms(5,6) by (intro sval_unique) (simp_all add: l)
qed

lemma mul_row_length: "length (mul_row xs y c) = length xs \<or> length (mul_row xs y c) = Suc (length xs)"
  by (induction xs y c rule: mul_row.induct) (auto simp: Let_def)

lemma biuMul_nonempty: "biuMul a b \<noteq> []"
proof -
  have n: "length res \<le> length (biuAdd res x)" for res x using biuAdd_length [of res x] by auto
  have "length res \<le> length (mul_loop a ys k res)" for ys k res
  proof (induction ys arbitrary: k res)
    case (Cons y ys)
    show ?case using n [of res "replicate k 0 @ mul_row a y 0"] Cons [of "biuAdd res (replicate k 0 @ mul_row a y 0)" "Suc k"] by simp
  qed simp
  from this [of "[0]" b 0] show ?thesis by (auto simp: biuMul_def setEqualTo_def)
qed

lemma bi_abs_sval: "a \<noteq> [] \<Longrightarrow> 2 * sval a \<noteq> - (4294967296 ^ length a) \<Longrightarrow> sval (bi_abs a) = \<bar>sval a\<bar> \<and> uval (bi_abs a) = \<bar>sval a\<bar> \<and> bi_abs a \<noteq> []"
proof -
  assume a: "a \<noteq> []" "2 * sval a \<noteq> - (4294967296 ^ length a)"
  have n: "bi_neg a \<noteq> []" using bi_neg_uval [OF a(1)] a(1) by auto
  have s: "sval (bi_abs a) = \<bar>sval a\<bar>"
    using bi_neg_sval [OF a] sval_neg [OF a(1)] by (auto simp: bi_abs_def bi_is_neg_def)
  have e: "bi_abs a \<noteq> []" using n a(1) by (simp add: bi_abs_def)
  have "\<not> bi_is_neg (bi_abs a)" using sval_neg [OF e] s by simp
  then show ?thesis using s e by (simp add: sval_def)
qed

lemma bisMul_sval:
  assumes "a \<noteq> []" "b \<noteq> []" "2 * sval a \<noteq> - (4294967296 ^ length a)" "2 * sval b \<noteq> - (4294967296 ^ length b)"
    "\<not> bi_is_neg (biuMul (bi_abs a) (bi_abs b))"
  shows "sval (bisMul a b) = sval a * sval b"
proof -
  let ?r = "biuMul (bi_abs a) (bi_abs b)"
  have r: "?r \<noteq> []" by (rule biuMul_nonempty)
  have v: "sval ?r = \<bar>sval a\<bar> * \<bar>sval b\<bar>" "uval ?r = \<bar>sval a\<bar> * \<bar>sval b\<bar>"
    using bi_abs_sval [OF assms(1,3)] bi_abs_sval [OF assms(2,4)] assms(5) r by (simp_all add: sval_def biuMul_uval)
  have n: "sval (bi_neg ?r) = - (\<bar>sval a\<bar> * \<bar>sval b\<bar>)"
  proof -
    have "0 \<le> sval ?r" using v(1) by simp
    moreover have "0 < (4294967296 :: int) ^ length ?r" by simp
    ultimately have "2 * sval ?r \<noteq> - (4294967296 ^ length ?r)" by linarith
    from bi_neg_sval [OF r this] v(1) show ?thesis by simp
  qed
  have m: "bisMul a b = (if (sval a < 0) \<noteq> (sval b < 0) then if uval ?r \<noteq> 0 then bi_neg ?r else ?r else ?r)"
    using sval_neg [OF assms(1)] sval_neg [OF assms(2)] by (simp add: bisMul_def bi_abs_def Let_def all_zero_uval bi_is_neg_def)
  show ?thesis
  proof (cases "(sval a < 0) = (sval b < 0)")
    case True
    then have "\<bar>sval a\<bar> * \<bar>sval b\<bar> = sval a * sval b" by (auto simp: abs_if)
    then show ?thesis using True v(1) unfolding m by simp
  next
    case False
    then have "sval a * sval b = - (\<bar>sval a\<bar> * \<bar>sval b\<bar>)" by (auto simp: abs_if)
    then show ?thesis using False n v unfolding m by auto
  qed
qed

section \<open>Single elements\<close>

lemma sval_single [simp]: "sval [x] = sint x"
  using sval_unique [of "[x]" "sint x"] sint_ge [of x] sint_lt [of x] by (simp add: uint_sint take_bit_eq_mod)

lemma bi_is_neg_single [simp]: "bi_is_neg [x] \<longleftrightarrow> sint x < 0"
  by (simp add: bi_is_neg_def getSig_def IS_NEG_sint)

lemma biSub_single: "biSub [x] [y] = [x - y]"
proof (rule uval_inj)
  show "uval (biSub [x] [y]) = uval [x - y]" by (simp add: biSub_uval uint_word_ariths)
qed (simp add: biSub_length)

lemma bi_neg_single: "bi_neg [x] = [- x]"
proof (rule uval_inj)
  show "uval (bi_neg [x]) = uval [- x]" using bi_neg_uval [of "[x]"] by (simp add: uint_word_ariths)
qed (use bi_neg_uval [of "[x]"] in simp)

lemma sint_diff_small: "0 \<le> sint (x :: 32 word) \<Longrightarrow> 0 \<le> sint y \<Longrightarrow> sint (x - y) = sint x - sint y"
  using sint_lt [of x] sint_lt [of y] by (simp add: sint_word_ariths signed_take_bit_int_eq_self)

lemma bi_less_single: "0 \<le> sint x \<Longrightarrow> 0 \<le> sint y \<Longrightarrow> bi_less [x] [y] \<longleftrightarrow> sint x < sint y"
  by (simp add: bi_less_def word_sless_alt)

lemma SMALL_QUO_MAX_uint: "uint SMALL_QUO_MAX = 4294967292"
proof -
  have "SMALL_QUO_MAX = 4294967292" by (simp add: SMALL_QUO_MAX_def push_bit_eq_mult drop_bit_eq_div)
  then show ?thesis unfolding \<open>SMALL_QUO_MAX = _\<close> by simp
qed

lemma div_loop_single:
  assumes "0 < sint y" "sint y \<le> sint x" "uint k + sint x div sint y \<le> 4294967292"
  shows "div_loop [y] [x] k True quo = Some ([k + of_int (sint x div sint y)], [of_int (sint x mod sint y)])"
  using assms(2,3)
proof (induction "nat (sint x)" arbitrary: x k rule: less_induct)
  case less
  have d: "sint (x - y) = sint x - sint y" using assms(1) less.prems(1) by (intro sint_diff_small) simp_all
  have q: "sint x div sint y = (sint x - sint y) div sint y + 1" "sint x mod sint y = (sint x - sint y) mod sint y"
    using assms(1) div_add_self2 [of "sint y" "sint x - sint y"] by (simp_all add: mod_diff_right_eq)
  have p: "0 \<le> (sint x - sint y) div sint y" using assms(1) less.prems(1) by (simp add: pos_imp_zdiv_nonneg_iff)
  have k: "uint (k + 1) = uint k + 1"
    using less.prems(2) q(1) p uint_range(1) [of k] by (simp add: uint_word_ariths)
  have b: "bi_less [x - y] [y] \<longleftrightarrow> sint x - sint y < sint y"
    using assms(1) less.prems(1) d by (simp add: bi_less_single)
  have s: "\<not> k + 1 > SMALL_QUO_MAX"
    using less.prems(2) q(1) p k by (simp add: word_less_def SMALL_QUO_MAX_uint)
  show ?case
  proof (cases "sint x - sint y < sint y")
    case True
    then have z: "(sint x - sint y) div sint y = 0" "(sint x - sint y) mod sint y = sint x - sint y"
      using less.prems(1) by (simp_all only: div_pos_pos_trivial mod_pos_pos_trivial diff_ge_0_iff_ge)
    have "of_int (sint x - sint y) = x - y" by simp
    then show ?thesis using True b q z
      by (subst div_loop.simps) (simp add: Let_def biSub_single setEqualTo_def del: of_int_diff)
  next
    case False
    have "div_loop [y] [x - y] (k + 1) True quo =
        Some ([k + 1 + of_int (sint (x - y) div sint y)], [of_int (sint (x - y) mod sint y)])"
      using False d k q less.prems assms(1) by (intro less.hyps) simp_all
    moreover have "div_loop [y] [x] k True quo = div_loop [y] [x - y] (k + 1) True quo"
      using False b s by (subst div_loop.simps) (simp add: Let_def biSub_single)
    moreover have "k + 1 + of_int (sint (x - y) div sint y) = k + of_int (sint x div sint y)"
      unfolding d q(1) of_int_add of_int_1 by (simp only: ac_simps)
    moreover have "sint (x - y) mod sint y = sint x mod sint y" unfolding d q(2) ..
    ultimately show ?thesis by (simp only:)
  qed
qed

text \<open>Division by zero: the dividend never gets smaller than 0, and the loop goes on.\<close>

lemma div_loop_zero: "0 \<le> sint x \<Longrightarrow> div_loop [0] [x] k u quo = None"
proof -
  have "b = [0] \<longrightarrow> pa = [x] \<longrightarrow> \<not> 0 \<le> sint x" if "div_loop b pa k u quo = Some r" for b pa k u quo r
  proof (rule div_loop.raw_induct [where P = "\<lambda>b pa k u quo r. b = [0] \<longrightarrow> pa = [x] \<longrightarrow> \<not> 0 \<le> sint x", OF _ that])
    fix loop b pa k u quo r
    assume ih: "\<And>b pa k u quo r. loop b pa k u quo = Some r \<Longrightarrow> b = [0] \<longrightarrow> pa = [x] \<longrightarrow> \<not> 0 \<le> sint x"
      and e: "(let pc = biSub pa b; small_quo = k + 1 in
          if bi_less pc b then Some (if u then setEqualTo small_quo else quo, pc)
          else if u then if SMALL_QUO_MAX < small_quo then loop b pc small_quo False (setEqualTo small_quo) else loop b pc small_quo True quo
          else loop b pc small_quo False (biuAdd quo [1])) = Some r"
    show "b = [0] \<longrightarrow> pa = [x] \<longrightarrow> \<not> 0 \<le> sint x"
    proof (intro impI notI)
      assume h: "b = [0]" "pa = [x]" "0 \<le> sint x"
      have n: "\<not> bi_less [x] [0]" using h(3) by (simp add: bi_less_single)
      have "\<exists>k u quo. loop [0] [x] k u quo = Some r"
        using e n by (auto simp: h(1,2) Let_def biSub_single split: if_splits)
      then show False using ih h(3) by blast
    qed
  qed
  then show "0 \<le> sint x \<Longrightarrow> div_loop [0] [x] k u quo = None" by (cases "div_loop [0] [x] k u quo") auto
qed

lemma sint_small: "0 \<le> v \<Longrightarrow> v < 2147483648 \<Longrightarrow> sint (of_int v :: 32 word) = v"
  by (simp add: signed_of_int signed_take_bit_int_eq_self)

lemma biuDivRem_single:
  assumes "0 \<le> sint x" "0 < sint y"
  shows "biuDivRem [x] [y] quo = Some ([of_int (sint x div sint y)], [of_int (sint x mod sint y)])"
proof (cases "sint x < sint y")
  case True
  then show ?thesis using assms by (simp add: biuDivRem_def bi_less_single setEqualTo_def)
next
  case False
  have "sint x div sint y \<le> sint x div 1" using assms by (intro zdiv_mono2) simp_all
  then have "uint (0 :: 32 word) + sint x div sint y \<le> 4294967292" using sint_lt [of x] by simp
  from div_loop_single [OF assms(2) _ this] False show ?thesis by (simp add: biuDivRem_def bi_less_single assms less_imp_le)
qed

lemma bi_abs_single: "bi_abs [x] = [of_int \<bar>sint x\<bar>]"
  by (simp add: bi_abs_def getSig_def IS_NEG_sint bi_neg_single abs_if)

lemma sint_abs: "sint (x :: 32 word) \<noteq> - 2147483648 \<Longrightarrow> sint (of_int \<bar>sint x\<bar> :: 32 word) = \<bar>sint x\<bar>"
  using sint_ge [of x] sint_lt [of x] by (intro sint_small) auto

lemma biDivRem_single:
  assumes "sint x \<noteq> - 2147483648" "sint y \<noteq> - 2147483648" "sint y \<noteq> 0"
  shows "biDivRem [x] [y] quo = Some ([of_int (sgn (sint x) * sgn (sint y) * (\<bar>sint x\<bar> div \<bar>sint y\<bar>))], [of_int (\<bar>sint x\<bar> mod \<bar>sint y\<bar>)])"
proof -
  let ?a = "of_int \<bar>sint x\<bar> :: 32 word" and ?b = "of_int \<bar>sint y\<bar> :: 32 word"
  note v = sint_abs [OF assms(1)] sint_abs [OF assms(2)]
  have d: "biuDivRem [?a] [?b] quo = Some ([of_int (\<bar>sint x\<bar> div \<bar>sint y\<bar>)], [of_int (\<bar>sint x\<bar> mod \<bar>sint y\<bar>)])"
    using biuDivRem_single [of ?a ?b quo] assms(3) by (simp add: v del: of_int_abs)
  have s: "(if sint x < 0 then bi_abs [x] else [x]) = [?a]" "(if sint y < 0 then bi_abs [y] else [y]) = [?b]"
    by (simp_all add: bi_abs_single abs_if)
  have e: "biDivRem [x] [y] quo = map_option (\<lambda>(quo, rem). (if (sint x < 0) \<noteq> (sint y < 0) then bi_neg quo else quo, rem)) (biuDivRem [?a] [?b] quo)"
    unfolding s [symmetric] by (cases "biuDivRem [x] [y] quo") (simp_all add: biDivRem_def)
  have g: "of_int (sgn (sint x) * sgn (sint y) * (\<bar>sint x\<bar> div \<bar>sint y\<bar>)) =
      (if (sint x < 0) \<noteq> (sint y < 0) then - (of_int (\<bar>sint x\<bar> div \<bar>sint y\<bar>)) else of_int (\<bar>sint x\<bar> div \<bar>sint y\<bar>) :: 32 word)"
    using assms(3) by (cases "sint x = 0") (auto simp: sgn_if)
  show ?thesis unfolding e d g by (simp add: bi_neg_single)
qed

text \<open>The least element has no absolute value: as dividend it counts as less than anything, as divisor as more than nothing.\<close>

lemma biDivRem_zero: "sint x \<noteq> - 2147483648 \<Longrightarrow> biDivRem [x] [0] quo = None"
proof -
  assume "sint x \<noteq> - 2147483648"
  then have p: "0 \<le> sint (of_int \<bar>sint x\<bar> :: 32 word)" by (simp add: sint_abs del: of_int_abs)
  have "biuDivRem [of_int \<bar>sint x\<bar>] [0] quo = None"
    using p div_loop_zero [OF p] by (simp add: biuDivRem_def bi_less_single del: of_int_abs)
  then show ?thesis by (cases "sint x < 0") (simp_all add: biDivRem_def bi_abs_single del: of_int_abs)
qed

lemma min_word: "sint (x :: 32 word) = - 2147483648 \<longleftrightarrow> x = 2147483648"
proof -
  have "sint (2147483648 :: 32 word) = - 2147483648" by simp
  then show ?thesis by (metis signed_word_eqI)
qed

lemma biDivRem_min_dividend: "sint x = - 2147483648 \<Longrightarrow> biDivRem [x] [y] quo = Some ([0], [x])"
proof -
  assume m: "sint x = - 2147483648"
  then have a: "bi_abs [x] = [x]" by (simp add: bi_abs_def getSig_def bi_neg_single min_word)
  have l: "bi_less [x] b" for b using m by (auto simp: bi_less_def)
  show ?thesis using m by (simp add: biDivRem_def biuDivRem_def a l setEqualTo_def bi_neg_single Let_def)
qed

lemma biDivRem_min_divisor:
  assumes "sint x \<noteq> - 2147483648" "sint y = - 2147483648"
  shows "biDivRem [x] [y] quo = Some ([if sint x < 0 then 1 else - 1], [of_int \<bar>sint x\<bar> - y])"
proof -
  let ?a = "of_int \<bar>sint x\<bar> :: 32 word"
  have y: "bi_abs [y] = [y]" using assms(2) by (simp add: bi_abs_def getSig_def bi_neg_single min_word)
  have a: "sint ?a = \<bar>sint x\<bar>" by (rule sint_abs [OF assms(1)])
  have "?a - y = of_int (\<bar>sint x\<bar> - 2147483648)" using assms(2) by (simp add: min_word)
  moreover have "sint (of_int (\<bar>sint x\<bar> - 2147483648) :: 32 word) = \<bar>sint x\<bar> - 2147483648"
    using sint_lt [of x] sint_ge [of x] assms(1)
    by (simp add: signed_of_int signed_take_bit_int_eq_self del: of_int_diff of_int_abs)
  ultimately have "sint (?a - y) = \<bar>sint x\<bar> - 2147483648" by simp
  then have n: "sint (?a - y) < 0" using sint_lt [of ?a] a by simp
  have "\<not> bi_less [?a] [y]" using a assms(2) by (simp add: bi_less_def del: of_int_abs)
  moreover have "bi_less [?a - y] [y]" using n assms(2) by (simp add: bi_less_def del: of_int_abs)
  ultimately have d: "biuDivRem [?a] [y] quo = Some ([1], [?a - y])"
    by (subst biuDivRem_def, subst div_loop.simps) (simp add: Let_def biSub_single setEqualTo_def del: of_int_abs)
  have e: "(if sint x < 0 then bi_abs [x] else [x]) = [?a]" by (simp add: bi_abs_single abs_if)
  have ng: "bi_neg [1] = [- 1]" by (simp add: bi_neg_single)
  show ?thesis
    using d assms(2) e by (cases "sint x < 0") (simp_all add: biDivRem_def y ng)
qed

section \<open>Properties\<close>

text \<open>
  C38: as unsigned numbers the sum and the product are exact, of any length; the difference is exact modulo the power of
  the longer operand and the negation modulo that of the operand, and both keep that length.
\<close>

theorem bigint_unsigned_arithmetic:
  assumes "a \<noteq> []" "b \<noteq> []"
  shows "uval (biuAdd a b) = uval a + uval b \<and> uval (biuMul a b) = uval a * uval b \<and>
    uval (biSub a b) = (uval a - uval b) mod 4294967296 ^ max (length a) (length b) \<and> length (biSub a b) = max (length a) (length b) \<and>
    uval (bi_neg a) = (- uval a) mod 4294967296 ^ length a \<and> length (bi_neg a) = length a"
  using biuAdd_uval biuMul_uval biSub_uval biSub_length [OF assms(2)] bi_neg_uval [OF assms(1)] by simp

lemma bigint_unsigned_arithmetic_witness:
  "uval (biuMul [4294967295] [2, 4294967295]) = 79228162477370849459009748990 \<and> uval (biSub [0, 1] [1]) = 4294967295"
  using bigint_unsigned_arithmetic [of "[4294967295]" "[2, 4294967295]"] bigint_unsigned_arithmetic [of "[0, 1]" "[1]"] by simp

text \<open>
  C39: as two's complement numbers, negation and absolute value are right except for the least number of a length, the
  difference when it fits the longer operand and a shorter operand is not negative, the product when the unsigned product of
  the absolute values leaves its top bit free. Equality of numbers of the same sign is equality of values. \<open>bisAdd\<close> adds
  element by element and never carries, so it is right for one element without overflow.
\<close>

theorem bigint_signed_arithmetic:
  assumes "a \<noteq> []" "b \<noteq> []" "2 * sval a \<noteq> - (4294967296 ^ length a)" "2 * sval b \<noteq> - (4294967296 ^ length b)"
  shows "sval (bi_neg a) = - sval a \<and> sval (bi_abs a) = \<bar>sval a\<bar> \<and>
    (bi_is_neg a = bi_is_neg b \<longrightarrow> bi_eq a b = (sval a = sval b)) \<and>
    ((length a < length b \<longrightarrow> \<not> bi_is_neg a) \<and> (length b < length a \<longrightarrow> \<not> bi_is_neg b) \<and>
     - (4294967296 ^ max (length a) (length b)) \<le> 2 * (sval a - sval b) \<and> 2 * (sval a - sval b) < 4294967296 ^ max (length a) (length b) \<longrightarrow>
       sval (biSub a b) = sval a - sval b) \<and>
    (\<not> bi_is_neg (biuMul (bi_abs a) (bi_abs b)) \<longrightarrow> sval (bisMul a b) = sval a * sval b) \<and>
    bisAdd a b = map2 (+) (shorter_of a b) (longer_of a b) @ drop (length (shorter_of a b)) (longer_of a b)"
  using bi_neg_sval [OF assms(1,3)] bi_abs_sval [OF assms(1,3)] bi_eq_sval [OF assms(1,2)] biSub_sval [OF assms(1,2)]
    bisMul_sval [OF assms] bisAdd_elements [of a b] by blast

lemma bigint_signed_arithmetic_witness:
  "sval (bi_neg [5, 1]) = - 4294967301 \<and> \<not> bi_eq [5] [5, 1] \<and> bisAdd [7] [- 9, 3] = [- 2, 3]"
proof -
  have s: "sval [5, 1] = 4294967301" by (simp add: sval_def bi_is_neg_def getSig_def IS_NEG_def)
  have t: "sval [- 9, 3] = 17179869175" by (simp add: sval_def bi_is_neg_def getSig_def IS_NEG_def uint_word_ariths)
  have "sval (bi_neg [5, 1]) = - 4294967301" using bigint_signed_arithmetic [of "[5, 1]" "[5]"] by (simp add: s)
  moreover have "\<not> bi_eq [5] [5, 1]"
    using bigint_signed_arithmetic [of "[5]" "[5, 1]"] by (simp add: s) (simp add: bi_is_neg_def getSig_def IS_NEG_def)
  moreover have "bisAdd [7] [- 9, 3] = [- 2, 3]"
    using bigint_signed_arithmetic [of "[7]" "[- 9, 3]"] by (simp add: t) (simp add: shorter_of_def longer_of_def)
  ultimately show ?thesis by blast
qed

text \<open>
  C40: division of single elements, on all of them. Without the least element \<open>- 2 ^ 31\<close> and with a divisor other than 0 it
  ends with the truncated quotient and the remainder of the absolute values, never negative; with the divisor 0 it does
  not end. The absolute value of \<open>- 2 ^ 31\<close> is negative again, so that as dividend it gives the quotient 0 and itself as
  remainder, even by 0, 1 or itself, and any other dividend divided by it gives 1 or -1.
\<close>

theorem bigint_division:
  "biDivRem [x] [y] quo =
     (if sint x = - 2147483648 then Some ([0], [x])
      else if sint y = - 2147483648 then Some ([if sint x < 0 then 1 else - 1], [of_int \<bar>sint x\<bar> - y])
      else if sint y = 0 then None
      else Some ([of_int (sgn (sint x) * sgn (sint y) * (\<bar>sint x\<bar> div \<bar>sint y\<bar>))], [of_int (\<bar>sint x\<bar> mod \<bar>sint y\<bar>)]))"
proof -
  have "sint y = 0 \<longleftrightarrow> y = 0" by (metis signed_0 signed_word_eqI)
  then show ?thesis
    using biDivRem_single [of x y quo] biDivRem_zero [of x quo] biDivRem_min_dividend [of x y quo] biDivRem_min_divisor [of x y quo]
    by (cases "y = 0") simp_all
qed

lemma bigint_division_witness:
  "biDivRem [- 7] [2] [] = Some ([- 3], [1]) \<and> biDivRem [7] [0] [] = None \<and> biDivRem [2147483648] [1] [] = Some ([0], [2147483648])"
  using bigint_division [of "- 7" 2 "[]"] bigint_division [of 7 0 "[]"] bigint_division [of 2147483648 1 "[]"] by simp

section \<open>What goes wrong\<close>

text \<open>The remainder keeps no sign: -7 is not -3 times 2 plus 1.\<close>

lemma biDivRem_remainder_sign: "biDivRem [- 7] [2] [] = Some ([- 3], [1]) \<and> sval [- 7] \<noteq> sval [- 3] * sval [2] + sval [1]"
  using biDivRem_single [of "- 7" 2 "[]"] by simp

text \<open>2 to the 32 is not less than 2 to the 33, and every negative number is less than itself.\<close>

lemma bi_less_wrong: "\<not> bi_less [0, 1] [0, 2] \<and> sval [0, 1] < sval [0, 2] \<and> bi_less [- 1] [- 1]"
  by (simp add: bi_less_def bi_is_neg_def getSig_def IS_NEG_def sval_def word_sless_alt)

text \<open>The carry of the signed addition is lost, the short negative subtrahend is not extended, a product reaches the sign bit.\<close>

lemma bisAdd_loses_carry: "bisAdd [- 1, 0] [1] = [0, 0] \<and> sval [- 1, 0] + sval [1] = 4294967296"
  by (simp add: bisAdd_elements longer_of_def shorter_of_def sval_def bi_is_neg_def getSig_def IS_NEG_def uint_word_ariths)

lemma bi_eq_mixed_signs: "bi_eq [5] [5, - 1] \<and> sval [5] \<noteq> sval [5, - 1]"
  by (simp add: bi_eq_def longer_of_def shorter_of_def sval_def bi_is_neg_def getSig_def IS_NEG_def uint_word_ariths)

lemma bisMul_overflows: "bisMul [65536] [32768] = [2147483648] \<and> sval [65536] * sval [32768] \<noteq> sval [2147483648]"
proof -
  have "biuMul [65536] [32768] = [2147483648]"
    by (simp add: biuMul_def setEqualTo_def biuAdd_def longer_of_def shorter_of_def uadd_step_def IS_NEG_def Let_def)
  then show ?thesis by (simp add: bisMul_def getSig_def IS_NEG_def)
qed

end
