(* ===== verification/RBTree.thy ===== *)
theory RBTree
  imports Prelude
begin

text \<open>
  The red-black tree \<open>RBT\<close> of \<^verbatim>\<open>src/com/sstl.h\<close>, on which \<open>TMap\<close> and \<open>TTab\<close> rest. A node pointer that the code
  walks with is a zipper: the subtree below it and the frames from it up to the root, each frame the parent's colour,
  key, mapped object and other child (\<open>InL\<close> when the pointer is the left child). A rotation is the rewriting of a
  subtree; \<open>None\<close> is a null pointer read. The sentinel \<open>holder\<close> of \<open>remove\<close> is the empty subtree, black. The
  free list is the number of nodes on it.
\<close>

section \<open>Nodes\<close>

datatype RBCOL = RBT_NON | RBRED | RBBLACK | RBGRAY

datatype ('k, 'v) RBTNode = Null | TN RBCOL "('k, 'v) RBTNode" 'k 'v "('k, 'v) RBTNode"

fun col :: "('k, 'v) RBTNode \<Rightarrow> RBCOL" where
  "col Null = RBBLACK"
| "col (TN c l k v r) = c"

fun paint :: "RBCOL \<Rightarrow> ('k, 'v) RBTNode \<Rightarrow> ('k, 'v) RBTNode" where
  "paint c Null = Null"
| "paint c (TN c' l k v r) = TN c l k v r"

datatype ('k, 'v) Frame = InL RBCOL 'k 'v "('k, 'v) RBTNode" | InR RBCOL "('k, 'v) RBTNode" 'k 'v

fun pcol :: "('k, 'v) Frame \<Rightarrow> RBCOL" where
  "pcol (InL c k v r) = c"
| "pcol (InR c l k v) = c"

fun ppaint :: "RBCOL \<Rightarrow> ('k, 'v) Frame \<Rightarrow> ('k, 'v) Frame" where
  "ppaint c (InL c' k v r) = InL c k v r"
| "ppaint c (InR c' l k v) = InR c l k v"

fun plug1 :: "('k, 'v) Frame \<Rightarrow> ('k, 'v) RBTNode \<Rightarrow> ('k, 'v) RBTNode" where
  "plug1 (InL c k v r) t = TN c t k v r"
| "plug1 (InR c l k v) t = TN c l k v t"

fun plug :: "('k, 'v) RBTNode \<Rightarrow> ('k, 'v) Frame list \<Rightarrow> ('k, 'v) RBTNode" where
  "plug t [] = t"
| "plug t (p # fs) = plug (plug1 p t) fs"

text \<open>\<open>CompareKey\<close>, the class template parameter, and its default \<open>CompareKeyBase\<close>.\<close>

record 'k CompareKey =
  is_less :: "'k \<Rightarrow> 'k \<Rightarrow> bool"
  is_equ :: "'k \<Rightarrow> 'k \<Rightarrow> bool"
  createKey :: "'k \<Rightarrow> 'k"

definition CompareKeyBase :: "('k::linorder) CompareKey" where
  "CompareKeyBase = \<lparr>is_less = (<), is_equ = (=), createKey = (\<lambda>t. t)\<rparr>"

record ('k, 'v) RBT =
  m_num_of_tn :: nat
  m_root :: "('k, 'v) RBTNode"
  m_free_list :: nat

section \<open>Rotations and fixups\<close>

fun rleft :: "('k, 'v) RBTNode \<Rightarrow> ('k, 'v) RBTNode option" where
  "rleft (TN cx a kx vx (TN cy b ky vy c)) = Some (TN cy (TN cx a kx vx b) ky vy c)"
| "rleft t = None"

fun rright :: "('k, 'v) RBTNode \<Rightarrow> ('k, 'v) RBTNode option" where
  "rright (TN cy (TN cx a kx vx b) ky vy c) = Some (TN cx a kx vx (TN cy b ky vy c))"
| "rright t = None"

text \<open>Following the left and the right child pointer of the top of a rotated subtree.\<close>

fun down_left :: "('k, 'v) RBTNode \<Rightarrow> (('k, 'v) RBTNode \<times> ('k, 'v) Frame) option" where
  "down_left Null = None"
| "down_left (TN c l k v r) = Some (l, InL c k v r)"

fun down_right :: "('k, 'v) RBTNode \<Rightarrow> (('k, 'v) RBTNode \<times> ('k, 'v) Frame) option" where
  "down_right Null = None"
| "down_right (TN c l k v r) = Some (r, InR c l k v)"

text \<open>\<open>inner\<close> is 1 when the node is the inner grandchild, which the next round turns into the outer one.\<close>

fun inner :: "('k, 'v) Frame list \<Rightarrow> nat" where
  "inner (InR _ _ _ _ # InL _ _ _ _ # fs) = 1"
| "inner (InL _ _ _ _ # InR _ _ _ _ # fs) = 1"
| "inner fs = 0"

lemma inner_le: "inner fs \<le> Suc 0"
  by (induction fs rule: inner.induct) auto

lemma inner_less [simp]: "inner fs < 2" "inner fs < 4 + n"
  using inner_le [of fs] by simp_all

function (sequential) rb_fixup :: "('k, 'v) RBTNode \<Rightarrow> ('k, 'v) Frame list \<Rightarrow> ('k, 'v) RBTNode option" where
  "rb_fixup z [] = Some (paint RBBLACK z)"
| "rb_fixup z (p # fs) =
     (if pcol p \<noteq> RBRED then Some (paint RBBLACK (plug z (p # fs)))
      else case fs of
        [] \<Rightarrow> None
      | InL gc gk gv y # fs' \<Rightarrow>
          if col y = RBRED then rb_fixup (TN RBRED (plug1 (ppaint RBBLACK p) z) gk gv (paint RBBLACK y)) fs'
          else (case p of
            InR pc l pk pv \<Rightarrow>
              Option.bind (rleft (plug1 p z)) (\<lambda>t. Option.bind (down_left t) (\<lambda>(z, p).
                case p of InL c k v r \<Rightarrow> rb_fixup z (InL c k v r # InL gc gk gv y # fs') | _ \<Rightarrow> None))
          | InL pc pk pv r \<Rightarrow>
              Option.bind (rright (plug1 (InL RBRED gk gv y) (plug1 (ppaint RBBLACK p) z)))
                (\<lambda>t. Option.bind (down_left t) (\<lambda>(z, p). rb_fixup z (p # fs'))))
      | InR gc y gk gv # fs' \<Rightarrow>
          if col y = RBRED then rb_fixup (TN RBRED (paint RBBLACK y) gk gv (plug1 (ppaint RBBLACK p) z)) fs'
          else (case p of
            InL pc pk pv r \<Rightarrow>
              Option.bind (rright (plug1 p z)) (\<lambda>t. Option.bind (down_right t) (\<lambda>(z, p).
                case p of InR c l k v \<Rightarrow> rb_fixup z (InR c l k v # InR gc y gk gv # fs') | _ \<Rightarrow> None))
          | InR pc l pk pv \<Rightarrow>
              Option.bind (rleft (plug1 (InR RBRED y gk gv) (plug1 (ppaint RBBLACK p) z)))
                (\<lambda>t. Option.bind (down_right t) (\<lambda>(z, p). rb_fixup z (p # fs')))))"
  by pat_completeness auto

termination
  by (relation "measure (\<lambda>(z, fs). 2 * length fs + inner fs)") (auto split: Frame.splits)

fun both_child_black :: "('k, 'v) RBTNode \<Rightarrow> bool" where
  "both_child_black Null \<longleftrightarrow> True"
| "both_child_black (TN c l k v r) \<longleftrightarrow> col l \<noteq> RBRED \<and> col r \<noteq> RBRED"

text \<open>
  \<open>rmfixup\<close>: the red brother is rotated up first, which makes the parent red and gives a new brother; then the brother is
  painted red and the loop goes on at the parent, or one or two rotations end it at the root.
\<close>

definition red_bro_left ::
  "('k, 'v) RBTNode \<Rightarrow> RBCOL \<Rightarrow> 'k \<Rightarrow> 'v \<Rightarrow> ('k, 'v) RBTNode \<Rightarrow> ('k, 'v) Frame list \<Rightarrow> (RBCOL \<times> ('k, 'v) RBTNode \<times> ('k, 'v) Frame list) option"
where
  "red_bro_left x pc pk pv bro fs =
     (if col bro = RBRED
      then Option.bind (rleft (TN RBRED x pk pv (paint RBBLACK bro))) (\<lambda>t. Option.bind (down_left t) (\<lambda>(p, f).
             case p of TN pc x pk pv bro \<Rightarrow> Some (RBRED, bro, f # fs) | Null \<Rightarrow> None))
      else Some (pc, bro, fs))"

definition red_bro_right ::
  "('k, 'v) RBTNode \<Rightarrow> RBCOL \<Rightarrow> 'k \<Rightarrow> 'v \<Rightarrow> ('k, 'v) RBTNode \<Rightarrow> ('k, 'v) Frame list \<Rightarrow> (RBCOL \<times> ('k, 'v) RBTNode \<times> ('k, 'v) Frame list) option"
where
  "red_bro_right x pc pk pv bro fs =
     (if col bro = RBRED
      then Option.bind (rright (TN RBRED (paint RBBLACK bro) pk pv x)) (\<lambda>t. Option.bind (down_right t) (\<lambda>(p, f).
             case p of TN pc bro pk pv x \<Rightarrow> Some (RBRED, bro, f # fs) | Null \<Rightarrow> None))
      else Some (pc, bro, fs))"

fun bro_left :: "('k, 'v) RBTNode \<Rightarrow> RBCOL \<Rightarrow> 'k \<Rightarrow> 'v \<Rightarrow> ('k, 'v) RBTNode \<Rightarrow> ('k, 'v) RBTNode option" where
  "bro_left x pc pk pv Null = None"
| "bro_left x pc pk pv (TN bc bl bk bv br) =
     Option.bind (if col br = RBBLACK then rright (TN RBRED (paint RBBLACK bl) bk bv br) else Some (TN bc bl bk bv br))
       (\<lambda>bro. case bro of
          TN bc bl bk bv br \<Rightarrow> if br = Null then None else rleft (TN RBBLACK x pk pv (TN pc bl bk bv (paint RBBLACK br)))
        | Null \<Rightarrow> None)"

fun bro_right :: "('k, 'v) RBTNode \<Rightarrow> RBCOL \<Rightarrow> 'k \<Rightarrow> 'v \<Rightarrow> ('k, 'v) RBTNode \<Rightarrow> ('k, 'v) RBTNode option" where
  "bro_right x pc pk pv Null = None"
| "bro_right x pc pk pv (TN bc bl bk bv br) =
     Option.bind (if col bl = RBBLACK then rleft (TN RBRED bl bk bv (paint RBBLACK br)) else Some (TN bc bl bk bv br))
       (\<lambda>bro. case bro of
          TN bc bl bk bv br \<Rightarrow> if bl = Null then None else rright (TN RBBLACK (TN pc (paint RBBLACK bl) bk bv br) pk pv x)
        | Null \<Rightarrow> None)"

lemma red_bro_left_measure:
  "red_bro_left x pc pk pv bro fs = Some (pc', bro', fs') \<Longrightarrow> fs' = fs \<or> pc' = RBRED \<and> length fs' = Suc (length fs)"
  by (cases bro) (auto simp: red_bro_left_def split: if_splits)

lemma red_bro_right_measure:
  "red_bro_right x pc pk pv bro fs = Some (pc', bro', fs') \<Longrightarrow> fs' = fs \<or> pc' = RBRED \<and> length fs' = Suc (length fs)"
  by (cases bro) (auto simp: red_bro_right_def split: if_splits)

function (sequential) rmfixup :: "('k, 'v) RBTNode \<Rightarrow> ('k, 'v) Frame list \<Rightarrow> ('k, 'v) RBTNode option" where
  "rmfixup x [] = Some (paint RBBLACK x)"
| "rmfixup x (InL pc pk pv bro # fs) =
     (if col x \<noteq> RBBLACK then Some (plug (paint RBBLACK x) (InL pc pk pv bro # fs))
      else case red_bro_left x pc pk pv bro fs of
        None \<Rightarrow> None
      | Some (pc, bro, fs) \<Rightarrow>
          if bro = Null then None
          else if both_child_black bro then rmfixup (TN pc x pk pv (paint RBRED bro)) fs
          else map_option (\<lambda>t. paint RBBLACK (plug t fs)) (bro_left x pc pk pv bro))"
| "rmfixup x (InR pc bro pk pv # fs) =
     (if col x \<noteq> RBBLACK then Some (plug (paint RBBLACK x) (InR pc bro pk pv # fs))
      else case red_bro_right x pc pk pv bro fs of
        None \<Rightarrow> None
      | Some (pc, bro, fs) \<Rightarrow>
          if bro = Null then None
          else if both_child_black bro then rmfixup (TN pc (paint RBRED bro) pk pv x) fs
          else map_option (\<lambda>t. paint RBBLACK (plug t fs)) (bro_right x pc pk pv bro))"
  by pat_completeness auto

termination
  by (relation "measure (\<lambda>(x, fs). 2 * length fs + (if col x = RBBLACK then 1 else 0))")
    (auto dest: red_bro_left_measure red_bro_right_measure)

section \<open>Search\<close>

text \<open>The descent shared by \<open>find_with_key\<close> and \<open>insert\<close>, with the way back up.\<close>

fun descend :: "'k CompareKey \<Rightarrow> 'k \<Rightarrow> ('k, 'v) RBTNode \<Rightarrow> ('k, 'v) Frame list \<Rightarrow> ('k, 'v) RBTNode \<times> ('k, 'v) Frame list" where
  "descend ck t Null fs = (Null, fs)"
| "descend ck t (TN c l k v r) fs =
     (if is_equ ck t k then (TN c l k v r, fs)
      else if is_less ck t k then descend ck t l (InL c k v r # fs)
      else descend ck t r (InR c l k v # fs))"

fun find_with_key :: "'k CompareKey \<Rightarrow> 'k \<Rightarrow> ('k, 'v) RBTNode \<Rightarrow> ('k, 'v) RBTNode" where
  "find_with_key ck t Null = Null"
| "find_with_key ck t (TN c l k v r) =
     (if is_equ ck t k then TN c l k v r else if is_less ck t k then find_with_key ck t l else find_with_key ck t r)"

definition find_rbtn :: "'k CompareKey \<Rightarrow> ('k, 'v) RBT \<Rightarrow> 'k \<Rightarrow> ('k, 'v) RBTNode" where
  "find_rbtn ck T t = find_with_key ck t (m_root T)"

fun find_min :: "('k, 'v) RBTNode \<Rightarrow> ('k, 'v) Frame list \<Rightarrow> ('k, 'v) RBTNode \<times> ('k, 'v) Frame list" where
  "find_min (TN c (TN c' l' k' v' r') k v r) fs = find_min (TN c' l' k' v' r') (InL c k v r # fs)"
| "find_min x fs = (x, fs)"

fun up_succ :: "('k, 'v) RBTNode \<Rightarrow> ('k, 'v) Frame list \<Rightarrow> ('k, 'v) RBTNode \<times> ('k, 'v) Frame list" where
  "up_succ x [] = (Null, [])"
| "up_succ x (InR c l k v # fs) = up_succ (TN c l k v x) fs"
| "up_succ x (InL c k v r # fs) = (TN c x k v r, fs)"

fun find_succ :: "('k, 'v) RBTNode \<Rightarrow> ('k, 'v) Frame list \<Rightarrow> ('k, 'v) RBTNode \<times> ('k, 'v) Frame list" where
  "find_succ (TN c l k v (TN c' l' k' v' r')) fs = find_min (TN c' l' k' v' r') (InR c l k v # fs)"
| "find_succ x fs = up_succ x fs"

section \<open>Insertion and removal\<close>

text \<open>
  \<open>insert\<close> returns the node; the pointer is represented by the key of the node, which is unique in the tree. A new node's
  mapped object is 0, as \<open>memset\<close> and \<open>free_rbt\<close> leave it.
\<close>

definition new_tn :: "'k CompareKey \<Rightarrow> 'k \<Rightarrow> RBCOL \<Rightarrow> ('k, 'v::zero) RBT \<Rightarrow> ('k, 'v) RBTNode \<times> ('k, 'v) RBT" where
  "new_tn ck t c T = (TN c Null (createKey ck t) 0 Null, T\<lparr>m_free_list := m_free_list T - 1\<rparr>)"

definition rbt_insert :: "'k CompareKey \<Rightarrow> 'k \<Rightarrow> ('k, 'v::zero) RBT \<Rightarrow> (bool \<times> 'k \<times> ('k, 'v) RBT) option" where
  "rbt_insert ck t T =
     (if m_root T = Null then
        (let (z, T) = new_tn ck t RBBLACK T
         in Some (False, createKey ck t, T\<lparr>m_num_of_tn := m_num_of_tn T + 1, m_root := z\<rparr>))
      else case descend ck t (m_root T) [] of
        (TN c l k v r, fs) \<Rightarrow> Some (True, k, T)
      | (Null, fs) \<Rightarrow>
          (let (z, T) = new_tn ck t RBRED T
           in map_option (\<lambda>root. (False, createKey ck t, T\<lparr>m_num_of_tn := m_num_of_tn T + 1, m_root := root\<rparr>)) (rb_fixup z fs)))"

text \<open>Unlinking \<open>y\<close>, which has at most one child; \<open>x\<close> is the child or the holder.\<close>

fun rbt_unlink :: "('k, 'v) RBTNode \<Rightarrow> ('k, 'v) Frame list \<Rightarrow> ('k, 'v) RBTNode option" where
  "rbt_unlink Null fs = None"
| "rbt_unlink (TN c l k v r) fs =
     (let x = (if l \<noteq> Null then l else r) in if c = RBBLACK then rmfixup x fs else Some (plug x fs))"

definition rbt_remove_node :: "('k, 'v) RBTNode \<Rightarrow> ('k, 'v) Frame list \<Rightarrow> ('k, 'v) RBTNode option" where
  "rbt_remove_node z fs =
     (case z of
        Null \<Rightarrow> None
      | TN c l k v r \<Rightarrow>
          if l = Null \<or> r = Null then rbt_unlink z fs
          else case find_min r [] of
                 (TN yc yl yk yv yr, gs) \<Rightarrow> rbt_unlink (TN yc yl yk yv yr) (gs @ InR c l yk yv # fs)
               | (Null, gs) \<Rightarrow> None)"

definition rbt_remove :: "'k CompareKey \<Rightarrow> 'k \<Rightarrow> ('k, 'v::zero) RBT \<Rightarrow> ('v \<times> ('k, 'v) RBT) option" where
  "rbt_remove ck t T =
     (case descend ck t (m_root T) [] of
        (Null, fs) \<Rightarrow> Some (0, T)
      | (TN c l k v r, fs) \<Rightarrow>
          map_option (\<lambda>root. (v, T\<lparr>m_num_of_tn := m_num_of_tn T - 1, m_root := root, m_free_list := m_free_list T + 1\<rparr>))
            (if m_num_of_tn T = 1 then Some Null else rbt_remove_node (TN c l k v r) fs))"

definition rbt_init :: "('k, 'v) RBT" where
  "rbt_init = \<lparr>m_num_of_tn = 0, m_root = Null, m_free_list = 0\<rparr>"

section \<open>Iteration\<close>

text \<open>The iterator is a queue of nodes; nothing is removed while it runs, so no node on it is grey.\<close>

fun kids :: "('k, 'v) RBTNode \<Rightarrow> ('k, 'v) RBTNode list" where
  "kids Null = []"
| "kids (TN c l k v r) = filter (\<lambda>x. x \<noteq> Null) [r, l]"

fun iter_head :: "('k::zero, 'v::zero) RBTNode list \<Rightarrow> 'k \<times> 'v" where
  "iter_head (TN c l k v r # ns) = (k, v)"
| "iter_head ns = (0, 0)"

definition rbt_get_first :: "('k::zero, 'v::zero) RBT \<Rightarrow> ('k, 'v) RBTNode list \<Rightarrow> ('k \<times> 'v) \<times> ('k, 'v) RBTNode list" where
  "rbt_get_first T iter =
     (case m_root T of
        Null \<Rightarrow> ((0, 0), iter)
      | TN c l k v r \<Rightarrow> ((k, v), iter @ [TN c l k v r]))"

definition rbt_get_next :: "('k::zero, 'v::zero) RBTNode list \<Rightarrow> ('k \<times> 'v) \<times> ('k, 'v) RBTNode list" where
  "rbt_get_next iter =
     (case iter of [] \<Rightarrow> ((0, 0), []) | x # ns \<Rightarrow> (let ns = ns @ kids x in (iter_head ns, ns)))"

definition iter_end :: "('k, 'v) RBTNode list \<Rightarrow> bool" where
  "iter_end iter \<longleftrightarrow> iter = []"

fun nodes :: "('k, 'v) RBTNode \<Rightarrow> nat" where
  "nodes Null = 0"
| "nodes (TN c l k v r) = Suc (nodes l + nodes r)"

definition queue_size :: "('k, 'v) RBTNode list \<Rightarrow> nat" where
  "queue_size ns = (\<Sum>x\<leftarrow>ns. nodes x + (if x = Null then 1 else 0))"

lemma queue_size_simps [simp]:
  "queue_size [] = 0" "queue_size (x # ns) = nodes x + (if x = Null then 1 else 0) + queue_size ns"
  "queue_size (ns @ ms) = queue_size ns + queue_size ms" "queue_size (kids x) = nodes x - 1"
  by (cases x; simp add: queue_size_def)+

lemma nodes_pos [simp]: "0 < nodes t \<longleftrightarrow> t \<noteq> Null" "nodes t = 0 \<longleftrightarrow> t = Null"
  by (cases t; simp)+

text \<open>The loop \<open>for (get_first(iter, &val); !iter.end(); get_next(iter, &val))\<close>: the pairs it sees.\<close>

function rbt_visit :: "'k \<times> 'v \<Rightarrow> ('k::zero, 'v::zero) RBTNode list \<Rightarrow> ('k \<times> 'v) list" where
  "rbt_visit kv iter =
     (if iter_end iter then [] else kv # (case rbt_get_next iter of (kv, iter) \<Rightarrow> rbt_visit kv iter))"
  by pat_completeness auto

termination
  by (relation "measure (\<lambda>(kv, iter). queue_size iter)") (auto simp: iter_end_def rbt_get_next_def Let_def split: list.splits)

declare rbt_visit.simps [simp del]

definition rbt_pairs :: "('k::zero, 'v::zero) RBT \<Rightarrow> ('k \<times> 'v) list" where
  "rbt_pairs T = (case rbt_get_first T [] of (kv, iter) \<Rightarrow> rbt_visit kv iter)"

text \<open>\<open>clean\<close>: the loop that returns every node to the free list.\<close>

function rbt_clean_loop :: "('k, 'v) RBTNode list \<Rightarrow> nat \<Rightarrow> nat" where
  "rbt_clean_loop [] free = free"
| "rbt_clean_loop (x # wl) free = rbt_clean_loop (wl @ kids x) (free + 1)"
  by pat_completeness auto

termination
  by (relation "measure (\<lambda>(wl, free). queue_size wl)") auto

definition rbt_clean :: "('k, 'v) RBT \<Rightarrow> ('k, 'v) RBT" where
  "rbt_clean T =
     T\<lparr>m_root := Null, m_num_of_tn := 0,
       m_free_list := rbt_clean_loop (if m_root T \<noteq> Null then [m_root T] else []) (m_free_list T)\<rparr>"

section \<open>TMap\<close>

text \<open>Writing the mapped object of the node that a lookup or an insertion returned, addressed by its key.\<close>

fun put_mapped :: "'k CompareKey \<Rightarrow> 'k \<Rightarrow> 'v \<Rightarrow> ('k, 'v) RBTNode \<Rightarrow> ('k, 'v) RBTNode" where
  "put_mapped ck t w Null = Null"
| "put_mapped ck t w (TN c l k v r) =
     (if is_equ ck t k then TN c l k w r
      else if is_less ck t k then TN c (put_mapped ck t w l) k v r
      else TN c l k v (put_mapped ck t w r))"

definition set_mapped :: "'k CompareKey \<Rightarrow> 'k \<Rightarrow> 'v \<Rightarrow> ('k, 'v) RBT \<Rightarrow> ('k, 'v) RBT" where
  "set_mapped ck k w T = T\<lparr>m_root := put_mapped ck k w (m_root T)\<rparr>"

definition tmap_get :: "'k CompareKey \<Rightarrow> ('k, 'v::zero) RBT \<Rightarrow> 'k \<Rightarrow> bool \<times> 'v" where
  "tmap_get ck T t = (case find_rbtn ck T t of Null \<Rightarrow> (False, 0) | TN c l k v r \<Rightarrow> (True, v))"

definition tmap_find :: "'k CompareKey \<Rightarrow> ('k, 'v::zero) RBT \<Rightarrow> 'k \<Rightarrow> bool" where
  "tmap_find ck T t = fst (tmap_get ck T t)"

definition setAlways :: "'k CompareKey \<Rightarrow> 'k \<Rightarrow> 'v \<Rightarrow> ('k, 'v::zero) RBT \<Rightarrow> ('k \<times> ('k, 'v) RBT) option" where
  "setAlways ck t w T = map_option (\<lambda>(found, k, T). (k, set_mapped ck k w T)) (rbt_insert ck t T)"

text \<open>\<open>set\<close> asserts that the key is new; without assertions it overwrites as \<open>setAlways\<close> does.\<close>

definition tmap_set :: "'k CompareKey \<Rightarrow> 'k \<Rightarrow> 'v \<Rightarrow> ('k, 'v::zero) RBT \<Rightarrow> ('k \<times> ('k, 'v) RBT) option" where
  "tmap_set ck t w T =
     Option.bind (rbt_insert ck t T) (\<lambda>(found, k, T). if found then None else Some (k, set_mapped ck k w T))"

definition setIfFind :: "'k CompareKey \<Rightarrow> 'k \<Rightarrow> 'v \<Rightarrow> ('k::zero, 'v) RBT \<Rightarrow> 'k \<times> ('k, 'v) RBT" where
  "setIfFind ck t w T =
     (case find_rbtn ck T t of Null \<Rightarrow> (0, T) | TN c l k v r \<Rightarrow> (k, set_mapped ck k w T))"

definition getAndGen :: "'k CompareKey \<Rightarrow> ('k \<Rightarrow> 'v) \<Rightarrow> 'k \<Rightarrow> ('k, 'v::zero) RBT \<Rightarrow> (bool \<times> 'v \<times> ('k, 'v) RBT) option" where
  "getAndGen ck createMapped t T =
     map_option (\<lambda>(found, k, T).
       if found then (True, snd (tmap_get ck T k), T) else (False, createMapped t, set_mapped ck k (createMapped t) T))
       (rbt_insert ck t T)"

fun tmap_set_all :: "'k CompareKey \<Rightarrow> ('k \<times> 'v) list \<Rightarrow> ('k, 'v::zero) RBT \<Rightarrow> ('k, 'v) RBT option" where
  "tmap_set_all ck [] T = Some T"
| "tmap_set_all ck ((k, v) # kvs) T = Option.bind (tmap_set ck k v T) (\<lambda>(k, T). tmap_set_all ck kvs T)"

fun tmap_set_always :: "'k CompareKey \<Rightarrow> ('k \<times> 'v) list \<Rightarrow> ('k, 'v::zero) RBT \<Rightarrow> ('k, 'v) RBT option" where
  "tmap_set_always ck [] T = Some T"
| "tmap_set_always ck ((k, v) # kvs) T = Option.bind (setAlways ck k v T) (\<lambda>(k, T). tmap_set_always ck kvs T)"

definition tmap_append :: "'k CompareKey \<Rightarrow> ('k::zero, 'v::zero) RBT \<Rightarrow> ('k, 'v) RBT \<Rightarrow> ('k, 'v) RBT option" where
  "tmap_append ck src T = tmap_set_all ck (rbt_pairs src) T"

definition tmap_appendAlways :: "'k CompareKey \<Rightarrow> ('k::zero, 'v::zero) RBT \<Rightarrow> ('k, 'v) RBT \<Rightarrow> ('k, 'v) RBT option" where
  "tmap_appendAlways ck src T = tmap_set_always ck (rbt_pairs src) T"

definition tmap_copy :: "'k CompareKey \<Rightarrow> ('k::zero, 'v::zero) RBT \<Rightarrow> ('k, 'v) RBT \<Rightarrow> ('k, 'v) RBT option" where
  "tmap_copy ck src T = tmap_append ck src (rbt_clean T)"

section \<open>TTab\<close>

definition ttab_append :: "'k CompareKey \<Rightarrow> 'k \<Rightarrow> ('k::zero, 'k) RBT \<Rightarrow> ('k \<times> ('k, 'k) RBT) option" where
  "ttab_append ck t T = setAlways ck t t T"

definition ttab_append_and_retrieve :: "'k CompareKey \<Rightarrow> 'k \<Rightarrow> ('k::zero, 'k) RBT \<Rightarrow> ('k \<times> ('k, 'k) RBT) option" where
  "ttab_append_and_retrieve ck t T =
     (case tmap_get ck T t of (found, mapped) \<Rightarrow> if found then Some (mapped, T) else setAlways ck t t T)"

definition ttab_remove :: "'k CompareKey \<Rightarrow> 'k \<Rightarrow> ('k::zero, 'k) RBT \<Rightarrow> ('k \<times> ('k, 'k) RBT) option" where
  "ttab_remove ck t T = rbt_remove ck t T"

end
