(* ===== verification/RBTreeProps.thy ===== *)
theory RBTreeProps
  imports RBTree
begin

text \<open>
  The red-black tree: the invariant (search order by a rank of the keys, equal black heights, no red node with a red
  child) and what every operation does to the list of nodes in order.
\<close>

section \<open>Nodes in order\<close>

fun inorder :: "('k, 'v) RBTNode \<Rightarrow> ('k \<times> 'v) list" where
  "inorder Null = []"
| "inorder (TN c l k v r) = inorder l @ (k, v) # inorder r"

fun left_of :: "('k, 'v) Frame list \<Rightarrow> ('k \<times> 'v) list" where
  "left_of [] = []"
| "left_of (InL c k v r # fs) = left_of fs"
| "left_of (InR c l k v # fs) = left_of fs @ inorder l @ [(k, v)]"

fun right_of :: "('k, 'v) Frame list \<Rightarrow> ('k \<times> 'v) list" where
  "right_of [] = []"
| "right_of (InL c k v r # fs) = (k, v) # inorder r @ right_of fs"
| "right_of (InR c l k v # fs) = right_of fs"

lemma inorder_paint [simp]: "inorder (paint c t) = inorder t"
  by (cases t) auto

lemma inorder_plug [simp]: "inorder (plug t fs) = left_of fs @ inorder t @ right_of fs"
proof (induction fs arbitrary: t)
  case (Cons p fs)
  then show ?case by (cases p) auto
qed simp

lemma inorder_rleft: "rleft t = Some t' \<Longrightarrow> inorder t' = inorder t"
  by (cases t rule: rleft.cases) auto

lemma inorder_rright: "rright t = Some t' \<Longrightarrow> inorder t' = inorder t"
  by (cases t rule: rright.cases) auto

lemma inorder_rb_fixup: "rb_fixup z fs = Some t \<Longrightarrow> inorder t = left_of fs @ inorder z @ right_of fs"
proof (induction z fs arbitrary: t rule: rb_fixup.induct)
  case (2 z p fs)
  show ?case
  proof (cases "pcol p = RBRED")
    case False
    then have "t = paint RBBLACK (plug z (p # fs))" using 2(7) by simp
    then show ?thesis by (simp only: inorder_paint inorder_plug)
  next
    case True
    obtain g fs' where g: "fs = g # fs'" using 2(7) True by (cases fs) auto
    show ?thesis
      using 2(7) 2(1-6) [OF _ g] True g
      by (cases g; cases p) (auto split: if_splits bind_splits Frame.splits prod.splits
        dest!: inorder_rleft inorder_rright elim!: down_left.elims down_right.elims)
  qed
qed auto

lemma red_bro_left_inorder:
  "red_bro_left x pc pk pv bro fs = Some (pc', bro', fs') \<Longrightarrow>
   left_of fs' @ inorder x @ (pk, pv) # inorder bro' @ right_of fs' = left_of fs @ inorder x @ (pk, pv) # inorder bro @ right_of fs"
  by (cases bro) (auto simp: red_bro_left_def split: if_splits)

lemma red_bro_right_inorder:
  "red_bro_right x pc pk pv bro fs = Some (pc', bro', fs') \<Longrightarrow>
   left_of fs' @ inorder bro' @ (pk, pv) # inorder x @ right_of fs' = left_of fs @ inorder bro @ (pk, pv) # inorder x @ right_of fs"
  by (cases bro) (auto simp: red_bro_right_def split: if_splits)

lemma bro_left_inorder: "bro_left x pc pk pv bro = Some t \<Longrightarrow> inorder t = inorder x @ (pk, pv) # inorder bro"
  by (cases bro) (auto split: bind_splits if_splits RBTNode.splits dest!: inorder_rleft inorder_rright)

lemma bro_right_inorder: "bro_right x pc pk pv bro = Some t \<Longrightarrow> inorder t = inorder bro @ (pk, pv) # inorder x"
  by (cases bro) (auto split: bind_splits if_splits RBTNode.splits dest!: inorder_rleft inorder_rright)

lemma inorder_rmfixup: "rmfixup x fs = Some t \<Longrightarrow> inorder t = left_of fs @ inorder x @ right_of fs"
proof (induction x fs arbitrary: t rule: rmfixup.induct)
  case (2 x pc pk pv bro fs)
  show ?case
  proof (cases "col x = RBBLACK")
    case False
    then have "t = plug (paint RBBLACK x) (InL pc pk pv bro # fs)" using 2(2) by simp
    then show ?thesis by (simp only: inorder_paint inorder_plug)
  next
    case True
    obtain pc' bro' fs' where b: "red_bro_left x pc pk pv bro fs = Some (pc', bro', fs')" "bro' \<noteq> Null"
      using 2(2) True by (auto split: option.splits if_splits)
    note i = red_bro_left_inorder [OF b(1)]
    show ?thesis
    proof (cases "both_child_black bro'")
      case both: True
      then have "rmfixup (TN pc' x pk pv (paint RBRED bro')) fs' = Some t" using 2(2) True b by simp
      then have "inorder t = left_of fs' @ inorder (TN pc' x pk pv (paint RBRED bro')) @ right_of fs'"
        using True b both 2(1) by blast
      then show ?thesis using i by simp
    next
      case False
      then obtain u where "bro_left x pc' pk pv bro' = Some u" "t = paint RBBLACK (plug u fs')"
        using 2(2) True b by (auto split: option.splits if_splits)
      then show ?thesis using i by (simp add: bro_left_inorder)
    qed
  qed
next
  case (3 x pc bro pk pv fs)
  show ?case
  proof (cases "col x = RBBLACK")
    case False
    then have "t = plug (paint RBBLACK x) (InR pc bro pk pv # fs)" using 3(2) by simp
    then show ?thesis by (simp only: inorder_paint inorder_plug)
  next
    case True
    obtain pc' bro' fs' where b: "red_bro_right x pc pk pv bro fs = Some (pc', bro', fs')" "bro' \<noteq> Null"
      using 3(2) True by (auto split: option.splits if_splits)
    note i = red_bro_right_inorder [OF b(1)]
    show ?thesis
    proof (cases "both_child_black bro'")
      case both: True
      then have "rmfixup (TN pc' (paint RBRED bro') pk pv x) fs' = Some t" using 3(2) True b by simp
      then have "inorder t = left_of fs' @ inorder (TN pc' (paint RBRED bro') pk pv x) @ right_of fs'"
        using True b both 3(1) by blast
      then show ?thesis using i by simp
    next
      case False
      then obtain u where "bro_right x pc' pk pv bro' = Some u" "t = paint RBBLACK (plug u fs')"
        using 3(2) True b by (auto split: option.splits if_splits)
      then show ?thesis using i by (simp add: bro_right_inorder)
    qed
  qed
qed auto

section \<open>Colours and black heights\<close>

fun rb :: "('k, 'v) RBTNode \<Rightarrow> nat \<Rightarrow> bool" where
  "rb Null n \<longleftrightarrow> n = 0"
| "rb (TN c l k v r) n \<longleftrightarrow>
     (if c = RBRED then rb l n \<and> rb r n \<and> col l = RBBLACK \<and> col r = RBBLACK
      else c = RBBLACK \<and> 0 < n \<and> rb l (n - 1) \<and> rb r (n - 1))"

text \<open>\<open>hole fs c n\<close>: a subtree with root colour \<open>c\<close> and black height \<open>n\<close> at this place completes a tree.\<close>

fun hole :: "('k, 'v) Frame list \<Rightarrow> RBCOL \<Rightarrow> nat \<Rightarrow> bool" where
  "hole [] c n \<longleftrightarrow> c = RBBLACK"
| "hole (InL pc k v r # fs) c n \<longleftrightarrow> rb r n \<and>
     (if pc = RBRED then c = RBBLACK \<and> col r = RBBLACK \<and> hole fs RBRED n else pc = RBBLACK \<and> hole fs RBBLACK (Suc n))"
| "hole (InR pc l k v # fs) c n \<longleftrightarrow> rb l n \<and>
     (if pc = RBRED then c = RBBLACK \<and> col l = RBBLACK \<and> hole fs RBRED n else pc = RBBLACK \<and> hole fs RBBLACK (Suc n))"

lemma col_paint [simp]: "col (paint RBBLACK t) = RBBLACK"
  by (cases t) auto

lemma rb_col: "rb t n \<Longrightarrow> col t = RBRED \<or> col t = RBBLACK"
  by (cases t) (auto split: if_splits)

lemma rb_paint: "rb t n \<Longrightarrow> \<exists>m. rb (paint RBBLACK t) m"
  by (cases t) (auto split: if_splits intro!: exI [of _ "if col t = RBRED then Suc n else n"])

lemma hole_black: "hole fs c n \<Longrightarrow> hole fs RBBLACK n"
  by (induction fs c n rule: hole.induct) (auto split: if_splits)

lemma plug_ok: "rb t n \<Longrightarrow> hole fs (col t) n \<Longrightarrow> \<exists>m. rb (plug t fs) m \<and> col (plug t fs) = RBBLACK"
proof (induction fs arbitrary: t n)
  case (Cons p fs)
  obtain m where "rb (plug1 p t) m" "hole fs (col (plug1 p t)) m"
    using Cons.prems by (cases p) (fastforce split: if_splits)+
  from Cons.IH [OF this] show ?case by simp
qed auto

definition fixed :: "('k, 'v) RBTNode option \<Rightarrow> bool" where
  "fixed r \<longleftrightarrow> (\<exists>t m. r = Some t \<and> rb t m \<and> col t = RBBLACK)"

lemma fixed_plug: "rb t n \<Longrightarrow> hole fs (col t) n \<Longrightarrow> fixed (Some (paint RBBLACK (plug t fs)))"
  using plug_ok [of t n fs] rb_paint [of "plug t fs"] unfolding fixed_def by fastforce

lemma fixup_black: "rb z n \<Longrightarrow> pcol p \<noteq> RBRED \<Longrightarrow> hole (p # fs) RBBLACK n \<Longrightarrow> fixed (rb_fixup z (p # fs))"
proof -
  assume h: "rb z n" "pcol p \<noteq> RBRED" "hole (p # fs) RBBLACK n"
  then have "hole (p # fs) (col z) n" by (cases p) (auto split: if_splits)
  from fixed_plug [OF h(1) this] show ?thesis using h(2) by simp
qed

lemma fixup_outer_left:
  "rb z n \<Longrightarrow> col z = RBRED \<Longrightarrow> hole (InL RBRED pk pv r # InL gc gk gv y # fs) RBBLACK n \<Longrightarrow> col y = RBBLACK \<Longrightarrow>
   fixed (rb_fixup z (InL RBRED pk pv r # InL gc gk gv y # fs))"
  using fixup_black [of z n "InL RBBLACK pk pv (TN RBRED r gk gv y)" fs] by (auto split: if_splits)

lemma fixup_outer_right:
  "rb z n \<Longrightarrow> col z = RBRED \<Longrightarrow> hole (InR RBRED l pk pv # InR gc y gk gv # fs) RBBLACK n \<Longrightarrow> col y = RBBLACK \<Longrightarrow>
   fixed (rb_fixup z (InR RBRED l pk pv # InR gc y gk gv # fs))"
  using fixup_black [of z n "InR RBBLACK (TN RBRED y gk gv l) pk pv" fs] by (auto split: if_splits)

lemma fixup_inner_left:
  "rb z n \<Longrightarrow> col z = RBRED \<Longrightarrow> hole (InR RBRED l pk pv # InL gc gk gv y # fs) RBBLACK n \<Longrightarrow> col y = RBBLACK \<Longrightarrow>
   fixed (rb_fixup z (InR RBRED l pk pv # InL gc gk gv y # fs))"
  using fixup_outer_left [of "TN RBRED l pk pv a" n k v b gc gk gv y fs for a k v b]
  by (cases z) (auto simp del: rb_fixup.simps simp: rb_fixup.simps(2) [of "TN c x k v r" for c x k v r] split: if_splits)

lemma fixup_inner_right:
  "rb z n \<Longrightarrow> col z = RBRED \<Longrightarrow> hole (InL RBRED pk pv r # InR gc y gk gv # fs) RBBLACK n \<Longrightarrow> col y = RBBLACK \<Longrightarrow>
   fixed (rb_fixup z (InL RBRED pk pv r # InR gc y gk gv # fs))"
  using fixup_outer_right [of "TN RBRED b pk pv r" n a k v gc y gk gv fs for a k v b]
  by (cases z) (auto simp del: rb_fixup.simps simp: rb_fixup.simps(2) [of "TN c x k v r" for c x k v r] split: if_splits)

lemma uncle_left:
  "rb z n \<Longrightarrow> col z = RBRED \<Longrightarrow> pcol p = RBRED \<Longrightarrow> hole (p # InL gc gk gv y # fs) RBBLACK n \<Longrightarrow> col y = RBRED \<Longrightarrow>
   rb (TN RBRED (plug1 (ppaint RBBLACK p) z) gk gv (paint RBBLACK y)) (Suc n) \<and> hole fs RBBLACK (Suc n)"
  by (cases p; cases y) (simp_all split: if_splits)

lemma uncle_right:
  "rb z n \<Longrightarrow> col z = RBRED \<Longrightarrow> pcol p = RBRED \<Longrightarrow> hole (p # InR gc y gk gv # fs) RBBLACK n \<Longrightarrow> col y = RBRED \<Longrightarrow>
   rb (TN RBRED (paint RBBLACK y) gk gv (plug1 (ppaint RBBLACK p) z)) (Suc n) \<and> hole fs RBBLACK (Suc n)"
  by (cases p; cases y) (simp_all split: if_splits)

lemma rb_fixup_ok: "rb z n \<Longrightarrow> col z = RBRED \<Longrightarrow> hole fs RBBLACK n \<Longrightarrow> fixed (rb_fixup z fs)"
proof (induction z fs arbitrary: n rule: rb_fixup.induct)
  case (1 z)
  then show ?case by (cases z) (auto simp: fixed_def intro!: exI [of _ "Suc n"])
next
  case (2 z p fs)
  show ?case
  proof (cases "pcol p = RBRED")
    case False
    then show ?thesis by (rule fixup_black [OF 2(7) _ 2(9)])
  next
    case True
    then obtain g fs' where g: "fs = g # fs'" using 2(9) by (cases fs; cases p) auto
    show ?thesis
    proof (cases g)
      case (InL gc gk gv y)
      show ?thesis
      proof (cases "col y = RBRED")
        case red: True
        have "rb (TN RBRED (plug1 (ppaint RBBLACK p) z) gk gv (paint RBBLACK y)) (Suc n) \<and> hole fs' RBBLACK (Suc n)"
          using 2(7-9) True g red unfolding InL by (intro uncle_left) simp_all
        moreover have "rb_fixup z (p # fs) = rb_fixup (TN RBRED (plug1 (ppaint RBBLACK p) z) gk gv (paint RBBLACK y)) fs'" using True g InL red by simp
        ultimately show ?thesis using 2(1) [OF _ g InL red, of "Suc n"] True by simp
      next
        case False
        have "rb y n" using 2(9) True g InL by (cases p) (simp_all split: if_splits)
        then have y: "col y = RBBLACK" using rb_col [of y] False by blast
        show ?thesis
        proof (cases p)
          case (InL pc pk pv r)
          then show ?thesis using fixup_outer_left [OF 2(7,8) _ y] 2(9) True unfolding g \<open>g = _\<close> by (simp only: pcol.simps)
        next
          case (InR pc l pk pv)
          then show ?thesis using fixup_inner_left [OF 2(7,8) _ y] 2(9) True unfolding g \<open>g = _\<close> by (simp only: pcol.simps)
        qed
      qed
    next
      case (InR gc y gk gv)
      show ?thesis
      proof (cases "col y = RBRED")
        case red: True
        have "rb (TN RBRED (paint RBBLACK y) gk gv (plug1 (ppaint RBBLACK p) z)) (Suc n) \<and> hole fs' RBBLACK (Suc n)"
          using 2(7-9) True g red unfolding InR by (intro uncle_right) simp_all
        moreover have "rb_fixup z (p # fs) = rb_fixup (TN RBRED (paint RBBLACK y) gk gv (plug1 (ppaint RBBLACK p) z)) fs'" using True g InR red by simp
        ultimately show ?thesis using 2(4) [OF _ g InR red, of "Suc n"] True by simp
      next
        case False
        have "rb y n" using 2(9) True g InR by (cases p) (simp_all split: if_splits)
        then have y: "col y = RBBLACK" using rb_col [of y] False by blast
        show ?thesis
        proof (cases p)
          case (InL pc pk pv r)
          then show ?thesis using fixup_inner_right [OF 2(7,8) _ y] 2(9) True unfolding g \<open>g = _\<close> by (simp only: pcol.simps)
        next
          case (InR pc l pk pv)
          then show ?thesis using fixup_outer_right [OF 2(7,8) _ y] 2(9) True unfolding g \<open>g = _\<close> by (simp only: pcol.simps)
        qed
      qed
    qed
  qed
qed

lemma red_bro_left_ok:
  assumes "hole (InL pc pk pv bro # fs) RBBLACK (Suc n)"
  obtains pc' bro' fs' where "red_bro_left x pc pk pv bro fs = Some (pc', bro', fs')" "hole (InL pc' pk pv bro' # fs') RBBLACK (Suc n)"
    "col bro' = RBBLACK" "bro' \<noteq> Null"
proof (cases "col bro = RBRED")
  case True
  with assms that show thesis by (cases bro) (fastforce simp: red_bro_left_def split: if_splits)+
next
  case False
  then have "col bro = RBBLACK" "bro \<noteq> Null" using assms rb_col [of bro] by (auto split: if_splits)
  with that [of pc bro fs] assms False show thesis by (simp add: red_bro_left_def)
qed

lemma bro_left_ok:
  assumes "rb x n" "col x = RBBLACK" "rb bro (Suc n)" "col bro = RBBLACK" "\<not> both_child_black bro" "pc = RBRED \<or> pc = RBBLACK"
  obtains t where "bro_left x pc pk pv bro = Some t" "col t = pc" "rb t (if pc = RBRED then Suc n else Suc (Suc n))"
proof (cases bro)
  case (TN bc bl bk bv br)
  have "col bl = RBRED \<or> col bl = RBBLACK" "col br = RBRED \<or> col br = RBBLACK" using assms(3,4) TN rb_col by auto
  then show thesis using assms TN that by (cases bl; cases br) (auto split: if_splits)
qed (use assms in simp)

lemma both_left_ok:
  "rb x n \<Longrightarrow> col x = RBBLACK \<Longrightarrow> hole (InL pc pk pv bro # fs) RBBLACK (Suc n) \<Longrightarrow> col bro = RBBLACK \<Longrightarrow> both_child_black bro \<Longrightarrow> bro \<noteq> Null \<Longrightarrow>
   \<exists>m. (if col (TN pc x pk pv (paint RBRED bro)) = RBRED then rb (paint RBBLACK (TN pc x pk pv (paint RBRED bro))) (Suc m)
        else rb (TN pc x pk pv (paint RBRED bro)) m) \<and> hole fs RBBLACK (Suc m)"
  by (cases bro; cases "pc = RBRED")
    (auto dest: hole_black rb_col split: if_splits intro!: exI [of _ "if pc = RBRED then n else Suc n"])

lemma red_bro_right_ok:
  assumes "hole (InR pc bro pk pv # fs) RBBLACK (Suc n)"
  obtains pc' bro' fs' where "red_bro_right x pc pk pv bro fs = Some (pc', bro', fs')" "hole (InR pc' bro' pk pv # fs') RBBLACK (Suc n)"
    "col bro' = RBBLACK" "bro' \<noteq> Null"
proof (cases "col bro = RBRED")
  case True
  with assms that show thesis by (cases bro) (fastforce simp: red_bro_right_def split: if_splits)+
next
  case False
  then have "col bro = RBBLACK" "bro \<noteq> Null" using assms rb_col [of bro] by (auto split: if_splits)
  with that [of pc bro fs] assms False show thesis by (simp add: red_bro_right_def)
qed

lemma bro_right_ok:
  assumes "rb x n" "col x = RBBLACK" "rb bro (Suc n)" "col bro = RBBLACK" "\<not> both_child_black bro" "pc = RBRED \<or> pc = RBBLACK"
  obtains t where "bro_right x pc pk pv bro = Some t" "col t = pc" "rb t (if pc = RBRED then Suc n else Suc (Suc n))"
proof (cases bro)
  case (TN bc bl bk bv br)
  have "col bl = RBRED \<or> col bl = RBBLACK" "col br = RBRED \<or> col br = RBBLACK" using assms(3,4) TN rb_col by auto
  then show thesis using assms TN that by (cases bl; cases br) (auto split: if_splits)
qed (use assms in simp)

lemma both_right_ok:
  "rb x n \<Longrightarrow> col x = RBBLACK \<Longrightarrow> hole (InR pc bro pk pv # fs) RBBLACK (Suc n) \<Longrightarrow> col bro = RBBLACK \<Longrightarrow> both_child_black bro \<Longrightarrow> bro \<noteq> Null \<Longrightarrow>
   \<exists>m. (if col (TN pc (paint RBRED bro) pk pv x) = RBRED then rb (paint RBBLACK (TN pc (paint RBRED bro) pk pv x)) (Suc m)
        else rb (TN pc (paint RBRED bro) pk pv x) m) \<and> hole fs RBBLACK (Suc m)"
  by (cases bro; cases "pc = RBRED")
    (auto dest: hole_black rb_col split: if_splits intro!: exI [of _ "if pc = RBRED then n else Suc n"])

lemma rmfixup_ok:
  "(if col x = RBRED then rb (paint RBBLACK x) (Suc n) else rb x n) \<Longrightarrow> hole fs RBBLACK (Suc n) \<Longrightarrow> fixed (rmfixup x fs)"
proof (induction x fs arbitrary: n rule: rmfixup.induct)
  case (1 x)
  then show ?case using rb_paint [of x n] by (auto simp: fixed_def split: if_splits)
next
  case (2 x pc pk pv bro fs)
  show ?case
  proof (cases "col x = RBBLACK")
    case False
    then have c: "col x = RBRED" using 2(2) rb_col [of x n] by (auto split: if_splits)
    have "fixed (Some (plug (paint RBBLACK x) (InL pc pk pv bro # fs)))"
      using plug_ok [of "paint RBBLACK x" "Suc n" "InL pc pk pv bro # fs"] 2(2,3) c by (simp add: fixed_def)
    then show ?thesis using False by simp
  next
    case True
    then have x: "rb x n" using 2(2) by simp
    obtain pc' bro' fs' where b: "red_bro_left x pc pk pv bro fs = Some (pc', bro', fs')" "hole (InL pc' pk pv bro' # fs') RBBLACK (Suc n)"
        "col bro' = RBBLACK" "bro' \<noteq> Null" by (rule red_bro_left_ok [OF 2(3)])
    show ?thesis
    proof (cases "both_child_black bro'")
      case both: True
      then have e: "rmfixup x (InL pc pk pv bro # fs) = rmfixup (TN pc' x pk pv (paint RBRED bro')) fs'" using True b by simp
      obtain m where "if col (TN pc' x pk pv (paint RBRED bro')) = RBRED then rb (paint RBBLACK (TN pc' x pk pv (paint RBRED bro'))) (Suc m) else rb (TN pc' x pk pv (paint RBRED bro')) m" "hole fs' RBBLACK (Suc m)"
        using both_left_ok [OF x True b(2,3) both b(4)] by blast
      then show ?thesis unfolding e using True b both by (intro 2(1)) simp_all
    next
      case False
      have "rb bro' (Suc n)" "pc' = RBRED \<or> pc' = RBBLACK" using b(2) by (simp_all split: if_splits)
      then obtain t where t: "bro_left x pc' pk pv bro' = Some t" "col t = pc'" "rb t (if pc' = RBRED then Suc n else Suc (Suc n))"
        using bro_left_ok [OF x True _ b(3) False, of pc' pk pv] by blast
      have "hole fs' (col t) (if pc' = RBRED then Suc n else Suc (Suc n))" using b(2) t(2) by (simp split: if_splits)
      from fixed_plug [OF t(3) this] show ?thesis using True b False t(1) by simp
    qed
  qed
next
  case (3 x pc bro pk pv fs)
  show ?case
  proof (cases "col x = RBBLACK")
    case False
    then have c: "col x = RBRED" using 3(2) rb_col [of x n] by (auto split: if_splits)
    have "fixed (Some (plug (paint RBBLACK x) (InR pc bro pk pv # fs)))"
      using plug_ok [of "paint RBBLACK x" "Suc n" "InR pc bro pk pv # fs"] 3(2,3) c by (simp add: fixed_def)
    then show ?thesis using False by simp
  next
    case True
    then have x: "rb x n" using 3(2) by simp
    obtain pc' bro' fs' where b: "red_bro_right x pc pk pv bro fs = Some (pc', bro', fs')" "hole (InR pc' bro' pk pv # fs') RBBLACK (Suc n)"
        "col bro' = RBBLACK" "bro' \<noteq> Null" by (rule red_bro_right_ok [OF 3(3)])
    show ?thesis
    proof (cases "both_child_black bro'")
      case both: True
      then have e: "rmfixup x (InR pc bro pk pv # fs) = rmfixup (TN pc' (paint RBRED bro') pk pv x) fs'" using True b by simp
      obtain m where "if col (TN pc' (paint RBRED bro') pk pv x) = RBRED then rb (paint RBBLACK (TN pc' (paint RBRED bro') pk pv x)) (Suc m) else rb (TN pc' (paint RBRED bro') pk pv x) m" "hole fs' RBBLACK (Suc m)"
        using both_right_ok [OF x True b(2,3) both b(4)] by blast
      then show ?thesis unfolding e using True b both by (intro 3(1)) simp_all
    next
      case False
      have "rb bro' (Suc n)" "pc' = RBRED \<or> pc' = RBBLACK" using b(2) by (simp_all split: if_splits)
      then obtain t where t: "bro_right x pc' pk pv bro' = Some t" "col t = pc'" "rb t (if pc' = RBRED then Suc n else Suc (Suc n))"
        using bro_right_ok [OF x True _ b(3) False, of pc' pk pv] by blast
      have "hole fs' (col t) (if pc' = RBRED then Suc n else Suc (Suc n))" using b(2) t(2) by (simp split: if_splits)
      from fixed_plug [OF t(3) this] show ?thesis using True b False t(1) by simp
    qed
  qed
qed

lemma rb_one_child: "rb (TN c Null k v r) n \<Longrightarrow> r = Null \<or> c = RBBLACK \<and> n = 1 \<and> col r = RBRED"
  by (cases r) (auto split: if_splits)

lemma rb_one_child': "rb (TN c l k v Null) n \<Longrightarrow> l = Null \<or> c = RBBLACK \<and> n = 1 \<and> col l = RBRED"
  by (cases l) (auto split: if_splits)

lemma rbt_unlink_ok:
  assumes "rb (TN c l k v r) n" "hole fs c n" "l = Null \<or> r = Null" "fs \<noteq> [] \<or> l \<noteq> Null \<or> r \<noteq> Null"
  shows "fixed (rbt_unlink (TN c l k v r) fs)"
proof (cases "c = RBBLACK")
  case True
  let ?x = "if l \<noteq> Null then l else r"
  obtain m where m: "n = Suc m" "rb ?x m" using assms(1) True by (cases n) auto
  have "if col ?x = RBRED then rb (paint RBBLACK ?x) (Suc m) else rb ?x m"
    using m by (cases ?x) (auto split: if_splits)
  then have "fixed (rmfixup ?x fs)" using rmfixup_ok assms(2) m(1) True by blast
  then show ?thesis using True by simp
next
  case False
  then have c: "c = RBRED" "l = Null" "r = Null" using assms(1,3) rb_one_child rb_one_child' by (metis rb.simps(2))+
  have "rb (Null :: ('a, 'b) RBTNode) n" "hole fs (col (Null :: ('a, 'b) RBTNode)) n"
    using assms(1,2) c hole_black by auto
  from plug_ok [OF this] show ?thesis using c by (auto simp: fixed_def)
qed

section \<open>Walking\<close>

lemma sides_append [simp]: "left_of (gs @ fs) = left_of fs @ left_of gs" "right_of (gs @ fs) = right_of gs @ right_of fs"
  by (induction gs rule: left_of.induct) auto

lemma find_min_shape:
  assumes "r \<noteq> Null"
  obtains yc yk yv yr gs where "\<And>fs. find_min r fs = (TN yc Null yk yv yr, gs @ fs)" "left_of gs = []"
    "inorder r = (yk, yv) # inorder yr @ right_of gs"
  using assms
proof (induction r arbitrary: thesis)
  case (TN c l k v r)
  show ?case
  proof (cases l)
    case Null
    have "find_min (TN c Null k v r) fs = (TN c Null k v r, [] @ fs)" for fs by simp
    from TN.prems(1) [of c k v r "[]"] this Null show ?thesis by simp
  next
    case l: (TN c' l' k' v' r')
    then obtain yc yk yv yr gs where i: "\<And>fs. find_min l fs = (TN yc Null yk yv yr, gs @ fs)" "left_of gs = []"
        "inorder l = (yk, yv) # inorder yr @ right_of gs" using TN.IH(1) by blast
    show ?thesis
      by (rule TN.prems(1) [of yc yk yv yr "gs @ [InL c k v r]"]) (use i l in auto)
  qed
qed simp

lemma find_min_ok:
  "find_min r fs = (y, gs) \<Longrightarrow> rb r n \<Longrightarrow> hole fs (col r) n \<Longrightarrow> \<exists>m. rb y m \<and> hole gs (col y) m"
proof (induction r fs arbitrary: n rule: find_min.induct)
  case (1 c c' l' k' v' r' k v r fs)
  have "rb (TN c' l' k' v' r') (if c = RBRED then n else n - 1)"
    "hole (InL c k v r # fs) (col (TN c' l' k' v' r')) (if c = RBRED then n else n - 1)"
    using 1(3,4) by (auto split: if_splits)
  then show ?case using 1(1) 1(2) by simp
qed auto

lemma hole_keys: "hole (gs @ InR c l k v # fs) c' n \<longleftrightarrow> hole (gs @ InR c l k' v' # fs) c' n"
  by (induction gs arbitrary: c' n rule: left_of.induct) auto

lemma rbt_unlink_inorder:
  "rbt_unlink (TN c l k v r) fs = Some t \<Longrightarrow> l = Null \<or> r = Null \<Longrightarrow>
   inorder t = left_of fs @ inorder l @ inorder r @ right_of fs"
  by (auto simp: Let_def dest!: inorder_rmfixup split: if_splits)

lemma rbt_remove_node_inorder:
  "rbt_remove_node (TN c l k v r) fs = Some t \<Longrightarrow> inorder t = left_of fs @ inorder l @ inorder r @ right_of fs"
proof (cases "l = Null \<or> r = Null")
  case True
  assume "rbt_remove_node (TN c l k v r) fs = Some t"
  then show ?thesis using True rbt_unlink_inorder [of c l k v r fs t] by (simp add: rbt_remove_node_def)
next
  case False
  assume t: "rbt_remove_node (TN c l k v r) fs = Some t"
  from False have "r \<noteq> Null" by simp
  then obtain yc yk yv yr gs where m: "\<And>fs. find_min r fs = (TN yc Null yk yv yr, gs @ fs)" "left_of gs = []"
    "inorder r = (yk, yv) # inorder yr @ right_of gs" by (rule find_min_shape) blast
  have "rbt_unlink (TN yc Null yk yv yr) (gs @ InR c l yk yv # fs) = Some t"
    using t False m(1) [of "[]"] by (simp add: rbt_remove_node_def)
  from rbt_unlink_inorder [OF this] show ?thesis using m(2,3) by simp
qed

lemma rbt_remove_node_ok:
  assumes "rb (TN c l k v r) n" "hole fs c n" "fs \<noteq> [] \<or> l \<noteq> Null \<or> r \<noteq> Null"
  shows "fixed (rbt_remove_node (TN c l k v r) fs)"
proof (cases "l = Null \<or> r = Null")
  case True
  then show ?thesis using rbt_unlink_ok [OF assms(1,2) True assms(3)] by (simp add: rbt_remove_node_def)
next
  case False
  then have "r \<noteq> Null" by simp
  then obtain yc yk yv yr gs where m: "\<And>fs. find_min r fs = (TN yc Null yk yv yr, gs @ fs)"
    by (rule find_min_shape) blast
  have "rb r (if c = RBRED then n else n - 1)" "hole (InR c l k v # fs) (col r) (if c = RBRED then n else n - 1)"
    using assms(1,2) by (auto split: if_splits)
  from find_min_ok [OF m [of "InR c l k v # fs"] this] obtain j where
    "rb (TN yc Null yk yv yr) j" "hole (gs @ InR c l k v # fs) yc j" by auto
  then have "fixed (rbt_unlink (TN yc Null yk yv yr) (gs @ InR c l yk yv # fs))"
    using hole_keys [of gs c l k v fs yc j yk yv] by (intro rbt_unlink_ok) auto
  then show ?thesis using False m [of "[]"] by (simp add: rbt_remove_node_def)
qed

lemma descend_ok:
  "descend ck t T fs = (z, gs) \<Longrightarrow> rb T n \<Longrightarrow> hole fs (col T) n \<Longrightarrow> \<exists>m. rb z m \<and> hole gs (col z) m"
proof (induction ck t T fs arbitrary: n rule: descend.induct)
  case (2 ck t c l k v r fs)
  have "rb l (if c = RBRED then n else n - 1)" "hole (InL c k v r # fs) (col l) (if c = RBRED then n else n - 1)"
    "rb r (if c = RBRED then n else n - 1)" "hole (InR c l k v # fs) (col r) (if c = RBRED then n else n - 1)"
    using 2(4,5) by (auto split: if_splits)
  then show ?case using 2(1-5) by (auto simp del: hole.simps rb.simps split: if_splits)
qed auto

lemma descend_inorder:
  "descend ck t T fs = (z, gs) \<Longrightarrow> left_of gs @ inorder z @ right_of gs = left_of fs @ inorder T @ right_of fs"
  by (induction ck t T fs rule: descend.induct) (auto split: if_splits)

lemma descend_find: "fst (descend ck t T fs) = find_with_key ck t T"
  by (induction ck t T fs rule: descend.induct) auto

lemma descend_found: "descend ck t T fs = (TN c l k v r, gs) \<Longrightarrow> is_equ ck t k"
  by (induction ck t T fs rule: descend.induct) (auto split: if_splits)

lemma descend_top: "descend ck t T [] = (TN c l k v r, []) \<Longrightarrow> T = TN c l k v r"
proof -
  have "descend ck t T fs = (z, gs) \<Longrightarrow> length fs \<le> length gs \<and> (length fs = length gs \<longrightarrow> z = T)" for T fs z gs
    by (induction ck t T fs rule: descend.induct) (fastforce split: if_splits)+
  from this [of T "[]"] show "descend ck t T [] = (TN c l k v r, []) \<Longrightarrow> T = TN c l k v r" by auto
qed

end
