(* ===== verification/TMap.thy ===== *)
theory TMap
  imports RBTreeProps "HOL-Library.Multiset" "HOL-Library.Product_Lexorder"
begin

text \<open>
  \<open>TMap\<close> and \<open>TTab\<close> of \<^verbatim>\<open>src/com/sstl.h\<close> as finite maps. What they need of the class \<open>CompareKey\<close> is the locale
  \<open>compare_key\<close>: both comparisons read one rank, and \<open>createKey\<close> keeps it. A tree then stands for the map from ranks to
  the stored key and its mapped object.
\<close>

section \<open>The map of a tree\<close>

definition tag :: "('k \<Rightarrow> 'o) \<Rightarrow> ('k \<times> 'v) list \<Rightarrow> ('o \<times> 'k \<times> 'v) list" where
  "tag rank kvs = map (\<lambda>(k, v). (rank k, k, v)) kvs"

definition ordered :: "('k \<Rightarrow> 'o::linorder) \<Rightarrow> ('k \<times> 'v) list \<Rightarrow> bool" where
  "ordered rank kvs \<longleftrightarrow> sorted_wrt (<) (map (\<lambda>(k, v). rank k) kvs)"

definition rbt_map :: "('k \<Rightarrow> 'o) \<Rightarrow> ('k, 'v) RBT \<Rightarrow> 'o \<Rightarrow> ('k \<times> 'v) option" where
  "rbt_map rank T = map_of (tag rank (inorder (m_root T)))"

definition rbt_inv :: "('k \<Rightarrow> 'o::linorder) \<Rightarrow> ('k, 'v) RBT \<Rightarrow> bool" where
  "rbt_inv rank T \<longleftrightarrow> ordered rank (inorder (m_root T)) \<and> (\<exists>n. rb (m_root T) n) \<and> col (m_root T) = RBBLACK \<and>
     m_num_of_tn T = nodes (m_root T)"

lemma length_inorder [simp]: "length (inorder t) = nodes t"
  by (induction t) auto

lemma tag_simps [simp]: "tag rank [] = []" "tag rank ((k, v) # xs) = (rank k, k, v) # tag rank xs"
  "tag rank (xs @ ys) = tag rank xs @ tag rank ys"
  by (simp_all add: tag_def)

lemma ordered_mid:
  "ordered rank (xs @ (k, v) # ys) \<longleftrightarrow> ordered rank (xs @ ys) \<and> (\<forall>x\<in>set xs. rank (fst x) < rank k) \<and> (\<forall>x\<in>set ys. rank k < rank (fst x))"
  by (force simp: ordered_def sorted_wrt_append)

lemma map_of_tag_None: "(\<forall>x\<in>set xs. rank (fst x) \<noteq> o') \<Longrightarrow> map_of (tag rank xs) o' = None"
  by (force simp: tag_def map_of_eq_None_iff)

lemma map_of_tag_mid:
  assumes "\<forall>x\<in>set xs. rank (fst x) < (rank k :: 'o::linorder)" "\<forall>x\<in>set ys. rank k < rank (fst x)"
  shows "map_of (tag rank (xs @ (k, v) # ys)) = (map_of (tag rank (xs @ ys)))(rank k \<mapsto> (k, v))"
    "map_of (tag rank (xs @ ys)) (rank k) = None"
proof -
  have "map_of (tag rank xs) (rank k) = None" "map_of (tag rank ys) (rank k) = None"
    using assms by (auto intro!: map_of_tag_None)
  then show "map_of (tag rank (xs @ (k, v) # ys)) = (map_of (tag rank (xs @ ys)))(rank k \<mapsto> (k, v))"
    "map_of (tag rank (xs @ ys)) (rank k) = None" by (auto simp: map_add_def fun_eq_iff split: option.splits)
qed

lemma ordered_append_mid:
  "ordered rank (xs @ (k, v) # ys) \<Longrightarrow> map_of (tag rank (xs @ (k, v) # ys)) (rank k) = Some (k, v) \<and>
   map_of (tag rank (xs @ ys)) = (map_of (tag rank (xs @ (k, v) # ys)))(rank k := None)"
  using map_of_tag_mid(1) [of xs rank k ys v] map_of_tag_mid(2) [of xs rank k ys] by (auto simp: ordered_mid fun_eq_iff)

section \<open>Iteration\<close>

lemma rb_put_mapped [simp]: "col (put_mapped ck t w T) = col T" "rb (put_mapped ck t w T) n = rb T n" "nodes (put_mapped ck t w T) = nodes T"
    "put_mapped ck t w T = Null \<longleftrightarrow> T = Null"
proof -
  show c: "col (put_mapped ck t w T) = col T" for T by (cases T) auto
  show "rb (put_mapped ck t w T) n = rb T n" by (induction T arbitrary: n) (auto simp: c)
qed (induction T; simp)+

definition pairs_of :: "('k, 'v) RBTNode list \<Rightarrow> ('k \<times> 'v) multiset" where
  "pairs_of ns = (\<Sum>x\<leftarrow>ns. mset (inorder x))"

lemma pairs_of_simps [simp]: "pairs_of [] = {#}" "pairs_of (x # ns) = mset (inorder x) + pairs_of ns" "pairs_of (ns @ ms) = pairs_of ns + pairs_of ms"
  by (simp_all add: pairs_of_def)

lemma pairs_of_kids [simp]: "pairs_of (kids (TN c l k v r)) = mset (inorder l) + mset (inorder r)"
  by (cases l; cases r) simp_all

lemma rbt_visit_pairs: "Null \<notin> set iter \<Longrightarrow> (iter \<noteq> [] \<Longrightarrow> iter_head iter = kv) \<Longrightarrow> mset (rbt_visit kv iter) = pairs_of iter"
proof (induction kv iter rule: rbt_visit.induct)
  case (1 kv iter)
  show ?case
  proof (cases iter)
    case Nil
    then show ?thesis by (simp add: rbt_visit.simps iter_end_def)
  next
    case (Cons x ns)
    then obtain c l k v r where x: "x = TN c l k v r" using 1(2) by (cases x) auto
    then have kv: "kv = (k, v)" using 1(3) Cons by simp
    have n: "Null \<notin> set (ns @ kids x)" using 1(2) Cons x by auto
    have g: "rbt_get_next iter = (iter_head (ns @ kids x), ns @ kids x)" using Cons by (simp add: rbt_get_next_def Let_def)
    have "mset (rbt_visit (iter_head (ns @ kids x)) (ns @ kids x)) = pairs_of (ns @ kids x)"
      using 1(1) [OF _ g [symmetric]] Cons n by (simp add: iter_end_def)
    moreover have "rbt_visit kv iter = kv # rbt_visit (iter_head (ns @ kids x)) (ns @ kids x)"
      unfolding rbt_visit.simps [of kv iter] g using Cons by (simp add: iter_end_def)
    ultimately show ?thesis using Cons x kv by (simp del: kids.simps)
  qed
qed

lemma rbt_pairs_mset: "mset (rbt_pairs T) = mset (inorder (m_root T))"
proof (cases "m_root T")
  case Null
  then show ?thesis by (simp add: rbt_pairs_def rbt_get_first_def rbt_visit.simps iter_end_def)
next
  case (TN c l k v r)
  then show ?thesis using rbt_visit_pairs [of "[TN c l k v r]" "(k, v)"] by (simp add: rbt_pairs_def rbt_get_first_def)
qed

lemma rbt_clean_loop_count: "Null \<notin> set wl \<Longrightarrow> rbt_clean_loop wl free = free + (\<Sum>x\<leftarrow>wl. nodes x)"
proof (induction wl free rule: rbt_clean_loop.induct)
  case (2 x wl free)
  then have "(\<Sum>x\<leftarrow>kids x. nodes x) = nodes x - 1" "0 < nodes x" "Null \<notin> set (kids x)" by (cases x; auto)+
  then show ?case using 2 by simp
qed simp

lemma rbt_clean_ok: "rbt_inv rank (rbt_clean T)" "rbt_map rank (rbt_clean T) = Map.empty" "m_free_list (rbt_clean T) = m_free_list T + nodes (m_root T)"
  by (simp_all add: rbt_clean_def rbt_inv_def rbt_map_def ordered_def rbt_clean_loop_count)

lemma rbt_init_ok: "rbt_inv rank rbt_init" "rbt_map rank rbt_init = Map.empty"
  by (simp_all add: rbt_init_def rbt_inv_def rbt_map_def ordered_def)

section \<open>Comparing keys\<close>

text \<open>The key that stays in the tree: the one stored first.\<close>

definition stored :: "'k CompareKey \<Rightarrow> ('k \<Rightarrow> 'o) \<Rightarrow> ('o \<Rightarrow> ('k \<times> 'v) option) \<Rightarrow> 'k \<Rightarrow> 'k" where
  "stored ck rank m t = (case m (rank t) of None \<Rightarrow> createKey ck t | Some (k, v) \<Rightarrow> k)"

locale compare_key =
  fixes ck :: "'k CompareKey"
    and rank :: "'k \<Rightarrow> 'o::linorder"
  assumes less_rank: "is_less ck a b \<longleftrightarrow> rank a < rank b"
    and equ_rank: "is_equ ck a b \<longleftrightarrow> rank a = rank b"
    and create_rank: "rank (createKey ck t) = rank t"
begin

lemma descend_sides:
  "descend ck t T fs = (z, gs) \<Longrightarrow> ordered rank (inorder T) \<Longrightarrow>
   \<forall>x\<in>set (left_of fs). rank (fst x) < rank t \<Longrightarrow> \<forall>x\<in>set (right_of fs). rank t < rank (fst x) \<Longrightarrow>
   (\<forall>x\<in>set (left_of gs). rank (fst x) < rank t) \<and> (\<forall>x\<in>set (right_of gs). rank t < rank (fst x))"
proof (induction T arbitrary: fs)
  case (TN c l k v r)
  have o: "ordered rank (inorder l)" "ordered rank (inorder r)" "\<forall>x\<in>set (inorder l). rank (fst x) < rank k"
    "\<forall>x\<in>set (inorder r). rank k < rank (fst x)"
    using TN.prems(2) by (auto simp: ordered_mid) (auto simp: ordered_def sorted_wrt_append)
  consider "rank t = rank k" | "rank t < rank k" | "rank k < rank t" by fastforce
  then show ?case
  proof cases
    case 1
    then show ?thesis using TN.prems by (simp add: equ_rank)
  next
    case 2
    then have "\<not> is_equ ck t k" "is_less ck t k" by (simp_all add: equ_rank less_rank)
    then have "descend ck t l (InL c k v r # fs) = (z, gs)" using TN.prems(1) by simp
    moreover have "\<forall>x\<in>set (right_of (InL c k v r # fs)). rank t < rank (fst x)" using TN.prems(4) o 2 by fastforce
    moreover have "\<forall>x\<in>set (left_of (InL c k v r # fs)). rank (fst x) < rank t" using TN.prems(3) by simp
    ultimately show ?thesis using TN.IH(1) [of "InL c k v r # fs"] o(1) by blast
  next
    case 3
    then have "\<not> is_equ ck t k" "\<not> is_less ck t k" by (simp_all add: equ_rank less_rank)
    then have "descend ck t r (InR c l k v # fs) = (z, gs)" using TN.prems(1) by simp
    moreover have "\<forall>x\<in>set (left_of (InR c l k v # fs)). rank (fst x) < rank t" using TN.prems(3) o 3 by fastforce
    moreover have "\<forall>x\<in>set (right_of (InR c l k v # fs)). rank t < rank (fst x)" using TN.prems(4) by simp
    ultimately show ?thesis using TN.IH(2) [of "InR c l k v # fs"] o(2) by blast
  qed
qed simp

text \<open>A descent from the root ends at the node of the key, or at the place where it belongs.\<close>

lemma descend_spec:
  assumes "rbt_inv rank T" "descend ck t (m_root T) [] = (z, fs)"
  shows "case z of
      Null \<Rightarrow> inorder (m_root T) = left_of fs @ right_of fs \<and> rbt_map rank T (rank t) = None \<and>
        (\<forall>x\<in>set (left_of fs). rank (fst x) < rank t) \<and> (\<forall>x\<in>set (right_of fs). rank t < rank (fst x))
    | TN c l k v r \<Rightarrow> rank k = rank t \<and> rbt_map rank T (rank t) = Some (k, v) \<and>
        inorder (m_root T) = (left_of fs @ inorder l) @ (k, v) # (inorder r @ right_of fs)"
proof (cases z)
  case Null
  have "(\<forall>x\<in>set (left_of fs). rank (fst x) < rank t) \<and> (\<forall>x\<in>set (right_of fs). rank t < rank (fst x))"
    using descend_sides [OF assms(2)] assms(1) by (simp add: rbt_inv_def)
  moreover have "inorder (m_root T) = left_of fs @ right_of fs" using descend_inorder [OF assms(2)] Null by simp
  moreover from calculation have "\<forall>x\<in>set (left_of fs @ right_of fs). rank (fst x) \<noteq> rank t" by fastforce
  ultimately show ?thesis using Null map_of_tag_None [of "left_of fs @ right_of fs" rank "rank t"]
    by (simp add: rbt_map_def)
next
  case (TN c l k v r)
  have "inorder (m_root T) = (left_of fs @ inorder l) @ (k, v) # (inorder r @ right_of fs)"
    using descend_inorder [OF assms(2)] TN by simp
  moreover have "rank k = rank t" using descend_found assms(2) TN by (metis equ_rank)
  ultimately show ?thesis using TN assms(1) ordered_append_mid [of rank "left_of fs @ inorder l" k v "inorder r @ right_of fs"]
    by (simp add: rbt_map_def rbt_inv_def)
qed

lemma rbt_insert_ok:
  assumes "rbt_inv rank T"
  shows "case rbt_map rank T (rank t) of
      Some (k, v) \<Rightarrow> rbt_insert ck t T = Some (True, k, T)
    | None \<Rightarrow> \<exists>T'. rbt_insert ck t T = Some (False, createKey ck t, T') \<and> rbt_inv rank T' \<and>
        rbt_map rank T' = (rbt_map rank T)(rank t \<mapsto> (createKey ck t, 0))"
proof -
  obtain z fs where d: "descend ck t (m_root T) [] = (z, fs)" by (cases "descend ck t (m_root T) []")
  note s = descend_spec [OF assms d]
  show ?thesis
  proof (cases z)
    case (TN c l k v r)
    then have "m_root T \<noteq> Null" using d by auto
    then show ?thesis using s TN d by (simp add: rbt_insert_def)
  next
    case Null
    let ?z = "TN RBRED Null (createKey ck t) 0 Null"
    have e: "inorder (m_root T) = left_of fs @ right_of fs" and n: "rbt_map rank T (rank t) = None"
      and b: "\<forall>x\<in>set (left_of fs). rank (fst x) < rank (createKey ck t)" "\<forall>x\<in>set (right_of fs). rank (createKey ck t) < rank (fst x)"
      using s Null by (simp_all add: create_rank)
    have new: "ordered rank (left_of fs @ (createKey ck t, 0) # right_of fs)"
      "map_of (tag rank (left_of fs @ (createKey ck t, 0) # right_of fs)) = (rbt_map rank T)(rank t \<mapsto> (createKey ck t, 0))"
      using assms e b map_of_tag_mid(1) [OF b] by (simp_all add: ordered_mid rbt_inv_def rbt_map_def create_rank)
    show ?thesis
    proof (cases "m_root T = Null")
      case True
      then have "fs = []" using d by simp
      then show ?thesis using True n new assms
        by (auto simp: rbt_insert_def new_tn_def rbt_inv_def rbt_map_def intro!: exI [of _ "Suc 0"])
    next
      case False
      obtain m where "rb (Null :: ('k, 'a) RBTNode) m" "hole fs RBBLACK m"
        using descend_ok [OF d] assms Null by (fastforce simp: rbt_inv_def)
      then have "fixed (rb_fixup ?z fs)" by (intro rb_fixup_ok [of _ 0]) auto
      then obtain u j where u: "rb_fixup ?z fs = Some u" "rb u j" "col u = RBBLACK" by (auto simp: fixed_def)
      have i: "inorder u = left_of fs @ (createKey ck t, 0) # right_of fs" using inorder_rb_fixup [OF u(1)] by simp
      have "nodes u = Suc (nodes (m_root T))"
        using arg_cong [OF i, of length] arg_cong [OF e, of length] by simp
      then show ?thesis using False d Null u i new n assms
        by (auto simp: rbt_insert_def new_tn_def rbt_inv_def rbt_map_def)
    qed
  qed
qed

lemma rbt_remove_ok:
  assumes "rbt_inv rank T"
  shows "\<exists>T'. rbt_remove ck t T = Some (case rbt_map rank T (rank t) of None \<Rightarrow> 0 | Some (k, v) \<Rightarrow> v, T') \<and> rbt_inv rank T' \<and>
    rbt_map rank T' = (rbt_map rank T)(rank t := None)"
proof -
  obtain z fs where d: "descend ck t (m_root T) [] = (z, fs)" by (cases "descend ck t (m_root T) []")
  note s = descend_spec [OF assms d]
  show ?thesis
  proof (cases z)
    case Null
    then show ?thesis using s assms d by (auto simp: rbt_remove_def fun_upd_idem_iff)
  next
    case (TN c l k v r)
    have m: "rbt_map rank T (rank t) = Some (k, v)" "rank k = rank t"
      and e: "inorder (m_root T) = (left_of fs @ inorder l) @ (k, v) # (inorder r @ right_of fs)"
      using s TN by simp_all
    have o: "ordered rank ((left_of fs @ inorder l) @ (inorder r @ right_of fs))"
      "map_of (tag rank ((left_of fs @ inorder l) @ (inorder r @ right_of fs))) = (rbt_map rank T)(rank t := None)"
      using assms e m(2) ordered_append_mid [of rank "left_of fs @ inorder l" k v "inorder r @ right_of fs"]
      by (simp_all add: rbt_inv_def rbt_map_def ordered_mid [of rank "left_of fs @ inorder l", simplified])
    have num: "m_num_of_tn T = Suc (length ((left_of fs @ inorder l) @ (inorder r @ right_of fs)))"
      using assms arg_cong [OF e, of length] by (simp add: rbt_inv_def)
    show ?thesis
    proof (cases "m_num_of_tn T = 1")
      case True
      then have "(left_of fs @ inorder l) @ (inorder r @ right_of fs) = []" using num by simp
      then show ?thesis using True d TN m o by (auto simp: rbt_remove_def rbt_inv_def rbt_map_def)
    next
      case False
      obtain j where j: "rb (TN c l k v r) j" "hole fs c j"
        using descend_ok [OF d] assms TN by (fastforce simp: rbt_inv_def)
      have "fs \<noteq> [] \<or> l \<noteq> Null \<or> r \<noteq> Null" using False num by auto
      then obtain u i where u: "rbt_remove_node (TN c l k v r) fs = Some u" "rb u i" "col u = RBBLACK"
        using rbt_remove_node_ok [OF j] by (auto simp: fixed_def)
      have i: "inorder u = (left_of fs @ inorder l) @ (inorder r @ right_of fs)"
        using rbt_remove_node_inorder [OF u(1)] by simp
      have "nodes u = m_num_of_tn T - 1" using num arg_cong [OF i, of length] by simp
      then show ?thesis using False d TN u i m o by (auto simp: rbt_remove_def rbt_inv_def rbt_map_def)
    qed
  qed
qed

text \<open>Writing through the node of a key.\<close>

lemma put_mapped_inorder:
  "ordered rank (inorder T) \<Longrightarrow> descend ck t T fs = (TN c l k v r, gs) \<Longrightarrow>
   left_of fs @ inorder (put_mapped ck t w T) @ right_of fs = left_of gs @ inorder l @ (k, w) # inorder r @ right_of gs"
proof (induction T arbitrary: fs)
  case (TN c' l' k' v' r')
  have o: "ordered rank (inorder l')" "ordered rank (inorder r')"
    using TN.prems(1) by (auto simp: ordered_mid) (auto simp: ordered_def sorted_wrt_append)
  consider "is_equ ck t k'" | "\<not> is_equ ck t k'" "is_less ck t k'" | "\<not> is_equ ck t k'" "\<not> is_less ck t k'" by blast
  then show ?case
  proof cases
    case 1
    then show ?thesis using TN.prems(2) by simp
  next
    case 2
    then have "descend ck t l' (InL c' k' v' r' # fs) = (TN c l k v r, gs)" using TN.prems(2) by simp
    from TN.IH(1) [OF o(1) this] 2 show ?thesis by simp
  next
    case 3
    then have "descend ck t r' (InR c' l' k' v' # fs) = (TN c l k v r, gs)" using TN.prems(2) by simp
    from TN.IH(2) [OF o(2) this] 3 show ?thesis by simp
  qed
qed simp

lemma set_mapped_ok:
  assumes "rbt_inv rank T" "rbt_map rank T (rank t) = Some (k, v)"
  shows "rbt_inv rank (set_mapped ck t w T) \<and> rbt_map rank (set_mapped ck t w T) = (rbt_map rank T)(rank t \<mapsto> (k, w))"
proof -
  obtain z fs where d: "descend ck t (m_root T) [] = (z, fs)" by (cases "descend ck t (m_root T) []")
  note s = descend_spec [OF assms(1) d]
  obtain c l v' r where z: "z = TN c l k v' r" using s assms(2) by (cases z) auto
  have e: "inorder (m_root T) = (left_of fs @ inorder l) @ (k, v') # (inorder r @ right_of fs)" "rank k = rank t"
    using s z by simp_all
  have p: "inorder (put_mapped ck t w (m_root T)) = (left_of fs @ inorder l) @ (k, w) # (inorder r @ right_of fs)"
    using put_mapped_inorder [of "m_root T" t "[]" c l k v' r fs w] assms(1) d z by (simp add: rbt_inv_def)
  have o: "ordered rank ((left_of fs @ inorder l) @ (k, v') # (inorder r @ right_of fs))"
    using assms(1) unfolding rbt_inv_def e(1) by blast
  have b: "\<forall>x\<in>set (left_of fs @ inorder l). rank (fst x) < rank k" "\<forall>x\<in>set (inorder r @ right_of fs). rank k < rank (fst x)"
    using o unfolding ordered_mid by blast+
  have "map_of (tag rank ((left_of fs @ inorder l) @ (k, w) # (inorder r @ right_of fs))) = (rbt_map rank T)(rank t \<mapsto> (k, w))"
    unfolding rbt_map_def e(1) map_of_tag_mid(1) [OF b] e(2) by simp
  moreover have "ordered rank ((left_of fs @ inorder l) @ (k, w) # (inorder r @ right_of fs))"
    using o unfolding ordered_mid by simp
  ultimately show ?thesis using assms(1) p by (simp add: rbt_inv_def rbt_map_def set_mapped_def)
qed

lemma tmap_get_ok: "rbt_inv rank T \<Longrightarrow> tmap_get ck T t = (case rbt_map rank T (rank t) of None \<Rightarrow> (False, 0) | Some (k, v) \<Rightarrow> (True, v))"
proof -
  assume i: "rbt_inv rank T"
  obtain z fs where d: "descend ck t (m_root T) [] = (z, fs)" by (cases "descend ck t (m_root T) []")
  have "find_rbtn ck T t = z" using descend_find [of ck t "m_root T" "[]"] d by (simp add: find_rbtn_def)
  then show ?thesis using descend_spec [OF i d] by (cases z) (simp_all add: tmap_get_def)
qed

lemma rank_stored: "rbt_inv rank T \<Longrightarrow> rank (stored ck rank (rbt_map rank T) t) = rank t"
proof -
  assume i: "rbt_inv rank T"
  obtain z fs where d: "descend ck t (m_root T) [] = (z, fs)" by (cases "descend ck t (m_root T) []")
  show ?thesis using descend_spec [OF i d] create_rank by (cases z) (auto simp: stored_def)
qed

lemma insert_set_ok:
  assumes "rbt_inv rank T"
  obtains T1 where "rbt_insert ck t T = Some (rbt_map rank T (rank t) \<noteq> None, stored ck rank (rbt_map rank T) t, T1)"
    "rbt_inv rank T1" "rbt_map rank T (rank t) \<noteq> None \<Longrightarrow> T1 = T"
    "\<And>w. rbt_inv rank (set_mapped ck (stored ck rank (rbt_map rank T) t) w T1)"
    "\<And>w. rbt_map rank (set_mapped ck (stored ck rank (rbt_map rank T) t) w T1) = (rbt_map rank T)(rank t \<mapsto> (stored ck rank (rbt_map rank T) t, w))"
proof (cases "rbt_map rank T (rank t)")
  case None
  then obtain T1 where t: "rbt_insert ck t T = Some (False, createKey ck t, T1)" "rbt_inv rank T1"
      "rbt_map rank T1 = (rbt_map rank T)(rank t \<mapsto> (createKey ck t, 0))"
    using rbt_insert_ok [OF assms, of t] by auto
  have s: "stored ck rank (rbt_map rank T) t = createKey ck t" using None by (simp add: stored_def)
  have m: "rbt_map rank T1 (rank (createKey ck t)) = Some (createKey ck t, 0)" using t(3) by (simp add: create_rank)
  show thesis
    by (rule that [of T1]) (use None t s set_mapped_ok [OF t(2) m] in \<open>simp_all add: create_rank\<close>)
next
  case (Some kv)
  obtain k v where kv: "kv = (k, v)" by (cases kv)
  have s: "stored ck rank (rbt_map rank T) t = k" "rank k = rank t"
    using Some kv rank_stored [OF assms, of t] by (simp_all add: stored_def)
  have m: "rbt_map rank T (rank k) = Some (k, v)" using Some kv s by simp
  show thesis
    by (rule that [of T]) (use Some kv s assms rbt_insert_ok [OF assms, of t] set_mapped_ok [OF assms m] in simp_all)
qed

lemma setAlways_ok:
  "rbt_inv rank T \<Longrightarrow> \<exists>T'. setAlways ck t w T = Some (stored ck rank (rbt_map rank T) t, T') \<and> rbt_inv rank T' \<and>
     rbt_map rank T' = (rbt_map rank T)(rank t \<mapsto> (stored ck rank (rbt_map rank T) t, w))"
  by (erule insert_set_ok [of _ t]) (simp add: setAlways_def)

lemma tmap_set_ok:
  assumes "rbt_inv rank T"
  shows "case rbt_map rank T (rank t) of
      Some kv \<Rightarrow> tmap_set ck t w T = None
    | None \<Rightarrow> \<exists>T'. tmap_set ck t w T = Some (createKey ck t, T') \<and> rbt_inv rank T' \<and>
        rbt_map rank T' = (rbt_map rank T)(rank t \<mapsto> (createKey ck t, w))"
proof (cases "rbt_map rank T (rank t)")
  case None
  then have k: "stored ck rank (rbt_map rank T) t = createKey ck t" by (simp add: stored_def)
  show ?thesis using None setAlways_ok [OF assms, of t w] unfolding k
    by (rule_tac insert_set_ok [OF assms, of t]) (auto simp: tmap_set_def setAlways_def k)
next
  case (Some kv)
  then show ?thesis by (rule_tac insert_set_ok [OF assms, of t]) (simp add: tmap_set_def)
qed

lemma getAndGen_ok:
  assumes "rbt_inv rank T"
  shows "case rbt_map rank T (rank t) of
      Some (k, v) \<Rightarrow> getAndGen ck gm t T = Some (True, v, T)
    | None \<Rightarrow> \<exists>T'. getAndGen ck gm t T = Some (False, gm t, T') \<and> rbt_inv rank T' \<and>
        rbt_map rank T' = (rbt_map rank T)(rank t \<mapsto> (createKey ck t, gm t))"
proof -
  obtain T1 where t: "rbt_insert ck t T = Some (rbt_map rank T (rank t) \<noteq> None, stored ck rank (rbt_map rank T) t, T1)"
    "rbt_inv rank T1" "rbt_map rank T (rank t) \<noteq> None \<Longrightarrow> T1 = T"
    "\<And>w. rbt_inv rank (set_mapped ck (stored ck rank (rbt_map rank T) t) w T1)"
    "\<And>w. rbt_map rank (set_mapped ck (stored ck rank (rbt_map rank T) t) w T1) = (rbt_map rank T)(rank t \<mapsto> (stored ck rank (rbt_map rank T) t, w))"
    by (rule insert_set_ok [OF assms, of t]) blast
  show ?thesis
  proof (cases "rbt_map rank T (rank t)")
    case None
    then have k: "stored ck rank (rbt_map rank T) t = createKey ck t" by (simp add: stored_def)
    show ?thesis using None t(1) t(4,5) [of "gm t"] unfolding k by (simp add: getAndGen_def)
  next
    case (Some kv)
    obtain k v where kv: "kv = (k, v)" by (cases kv)
    have k: "stored ck rank (rbt_map rank T) t = k" "rank k = rank t" "T1 = T"
      using Some kv t(3) rank_stored [OF assms, of t] by (simp_all add: stored_def)
    have "tmap_get ck T k = (True, v)" using tmap_get_ok [OF assms, of k] Some kv k(2) by simp
    then show ?thesis using Some kv k(1,3) t(1) by (simp add: getAndGen_def)
  qed
qed

end

text \<open>The operations that hand out \<open>T(0)\<close>.\<close>

locale zero_key = compare_key ck rank
  for ck :: "('k::zero) CompareKey" and rank :: "'k \<Rightarrow> 'o::linorder"
begin

lemma setIfFind_ok:
  "rbt_inv rank T \<Longrightarrow> case rbt_map rank T (rank t) of
     None \<Rightarrow> setIfFind ck t w T = (0, T)
   | Some (k, v) \<Rightarrow> fst (setIfFind ck t w T) = k \<and> rbt_inv rank (snd (setIfFind ck t w T)) \<and>
       rbt_map rank (snd (setIfFind ck t w T)) = (rbt_map rank T)(rank t \<mapsto> (k, w))"
proof -
  assume i: "rbt_inv rank T"
  obtain z fs where d: "descend ck t (m_root T) [] = (z, fs)" by (cases "descend ck t (m_root T) []")
  have f: "find_rbtn ck T t = z" using descend_find [of ck t "m_root T" "[]"] d by (simp add: find_rbtn_def)
  show ?thesis
  proof (cases z)
    case Null
    then show ?thesis using f descend_spec [OF i d] by (simp add: setIfFind_def)
  next
    case (TN c l k v r)
    then have m: "rbt_map rank T (rank k) = Some (k, v)" "rank k = rank t" using descend_spec [OF i d] by simp_all
    from set_mapped_ok [OF i m(1), of w] TN f m show ?thesis by (simp add: setIfFind_def)
  qed
qed

lemma tmap_set_all_ok:
  "rbt_inv rank T \<Longrightarrow> distinct (map (\<lambda>(k, v). rank k) kvs) \<Longrightarrow>
   if \<exists>(k, v)\<in>set kvs. rbt_map rank T (rank k) \<noteq> None then tmap_set_all ck kvs T = None
   else \<exists>T'. tmap_set_all ck kvs T = Some T' \<and> rbt_inv rank T' \<and>
     rbt_map rank T' = rbt_map rank T ++ map_of (tag rank (map (\<lambda>(k, v). (createKey ck k, v)) kvs))"
proof (induction kvs arbitrary: T)
  case (Cons kv kvs)
  obtain k v where kv: "kv = (k, v)" by (cases kv)
  show ?case
  proof (cases "rbt_map rank T (rank k)")
    case Some
    then have "tmap_set ck k v T = None" using tmap_set_ok [OF Cons.prems(1), of k v] by simp
    then show ?thesis using kv Some by auto
  next
    case None
    then obtain T1 where t: "tmap_set ck k v T = Some (createKey ck k, T1)" "rbt_inv rank T1"
        "rbt_map rank T1 = (rbt_map rank T)(rank k \<mapsto> (createKey ck k, v))"
      using tmap_set_ok [OF Cons.prems(1), of k v] by auto
    have n: "rank k \<notin> (\<lambda>(k, v). rank k) ` set kvs" "distinct (map (\<lambda>(k, v). rank k) kvs)" using Cons.prems(2) kv by auto
    have c: "(\<exists>(k', v)\<in>set kvs. rbt_map rank T1 (rank k') \<noteq> None) \<longleftrightarrow> (\<exists>(k', v)\<in>set (kv # kvs). rbt_map rank T (rank k') \<noteq> None)"
      using n(1) t(3) kv None by (force split: if_splits)
    have m: "map_of (tag rank (map (\<lambda>(k, v). (createKey ck k, v)) kvs)) (rank k) = None"
      using n(1) by (intro map_of_tag_None) (force simp: create_rank)
    have u: "rbt_map rank T1 ++ map_of (tag rank (map (\<lambda>(k, v). (createKey ck k, v)) kvs)) =
        rbt_map rank T ++ map_of (tag rank (map (\<lambda>(k, v). (createKey ck k, v)) (kv # kvs)))"
      using m t(3) kv by (auto simp: map_add_def fun_eq_iff create_rank split: option.splits)
    have "tmap_set_all ck (kv # kvs) T = tmap_set_all ck kvs T1" using t(1) kv by simp
    then show ?thesis using Cons.IH [OF t(2) n(2)] by (simp only: c u)
  qed
qed simp

definition merge_one :: "('o \<Rightarrow> ('k \<times> 'v) option) \<Rightarrow> ('k \<times> 'v) \<Rightarrow> 'o \<Rightarrow> ('k \<times> 'v) option" where
  "merge_one m kv = m(rank (fst kv) \<mapsto> (stored ck rank m (fst kv), snd kv))"

lemma tmap_set_always_ok:
  "rbt_inv rank T \<Longrightarrow> \<exists>T'. tmap_set_always ck kvs T = Some T' \<and> rbt_inv rank T' \<and> rbt_map rank T' = foldl merge_one (rbt_map rank T) kvs"
proof (induction kvs arbitrary: T)
  case (Cons kv kvs)
  obtain k v where kv: "kv = (k, v)" by (cases kv)
  from setAlways_ok [OF Cons.prems, of k v] obtain T1 where t: "setAlways ck k v T = Some (stored ck rank (rbt_map rank T) k, T1)" "rbt_inv rank T1"
     "rbt_map rank T1 = merge_one (rbt_map rank T) kv" by (auto simp: merge_one_def kv)
  from Cons.IH [OF t(2)] t kv show ?case by simp
qed simp

lemma foldl_merge_one:
  "distinct (map (\<lambda>(k, v). rank k) kvs) \<Longrightarrow>
   foldl merge_one m kvs o' = (case map_of (tag rank kvs) o' of None \<Rightarrow> m o' | Some (k, v) \<Rightarrow> Some (stored ck rank m k, v))"
proof (induction kvs arbitrary: m)
  case (Cons kv kvs)
  obtain k v where kv: "kv = (k, v)" by (cases kv)
  have n: "map_of (tag rank kvs) (rank k) = None" using Cons.prems kv by (intro map_of_tag_None) force
  have s: "stored ck rank (merge_one m kv) k' = stored ck rank m k'" if "rank k' \<noteq> rank k" for k'
    using that kv by (simp add: stored_def merge_one_def)
  have r: "rank k' = o'" if "map_of (tag rank kvs) o' = Some (k', v')" for k' v'
    using map_of_SomeD [OF that] by (auto simp: tag_def)
  have i: "foldl merge_one m (kv # kvs) o' = (case map_of (tag rank kvs) o' of None \<Rightarrow> merge_one m kv o' | Some (k, v) \<Rightarrow> Some (stored ck rank (merge_one m kv) k, v))"
    using Cons.IH [of "merge_one m kv"] Cons.prems kv by simp
  show ?case
  proof (cases "map_of (tag rank kvs) o'")
    case None
    then show ?thesis unfolding i by (simp add: kv merge_one_def)
  next
    case (Some kv')
    obtain k' v' where kv': "kv' = (k', v')" by (cases kv')
    have k': "rank k' = o'" "rank k' \<noteq> rank k" using r [of k' v'] n Some kv' by auto
    show ?thesis unfolding i using Some kv kv' k' s [OF k'(2)] by simp
  qed
qed simp

lemma ordered_distinct: "ordered rank kvs \<Longrightarrow> distinct (map (\<lambda>(k, v). rank k) kvs)"
  by (simp add: ordered_def strict_sorted_iff)

lemma pairs_distinct: "rbt_inv rank src \<Longrightarrow> distinct (map (\<lambda>(k, v). rank k) (rbt_pairs src))"
proof -
  assume "rbt_inv rank src"
  then have "distinct (map (\<lambda>(k, v). rank k) (inorder (m_root src)))" by (simp add: rbt_inv_def ordered_distinct)
  moreover have "mset (map (\<lambda>(k, v). rank k) (rbt_pairs src)) = mset (map (\<lambda>(k, v). rank k) (inorder (m_root src)))"
    by (simp add: rbt_pairs_mset)
  ultimately show ?thesis using mset_eq_imp_distinct_iff by blast
qed

lemma pairs_map: "rbt_inv rank src \<Longrightarrow> map_of (tag rank (rbt_pairs src)) = rbt_map rank src"
proof -
  assume i: "rbt_inv rank src"
  have t: "map fst (tag rank kvs) = map (\<lambda>(k, v). rank k) kvs" for kvs :: "('k \<times> 'v) list" by (induction kvs) auto
  have "mset (tag rank (rbt_pairs src)) = mset (tag rank (inorder (m_root src)))" by (simp add: tag_def rbt_pairs_mset)
  then have s: "set (tag rank (rbt_pairs src)) = set (tag rank (inorder (m_root src)))" using mset_eq_setD by blast
  have "distinct (map fst (tag rank (inorder (m_root src))))"
    using i unfolding t by (simp add: rbt_inv_def ordered_distinct)
  then show ?thesis using s pairs_distinct [OF i] unfolding rbt_map_def by (intro map_of_inject_set [THEN iffD2]) (simp_all add: t)
qed

lemma tmap_append_ok:
  assumes "rbt_inv rank T" "rbt_inv rank src"
  shows "if dom (rbt_map rank T) \<inter> dom (rbt_map rank src) = {}
    then \<exists>T'. tmap_append ck src T = Some T' \<and> rbt_inv rank T' \<and>
      rbt_map rank T' = rbt_map rank T ++ (\<lambda>x. map_option (\<lambda>(k, v). (createKey ck k, v)) (rbt_map rank src x))
    else tmap_append ck src T = None"
proof -
  have t: "tag rank (map (\<lambda>(k, v). (createKey ck k, v)) kvs) = map (\<lambda>(x, kv). (x, (\<lambda>(k, v). (createKey ck k, v)) kv)) (tag rank kvs)"
    for kvs :: "('k \<times> 'v) list" by (induction kvs) (auto simp: create_rank)
  have m: "map_of (tag rank (map (\<lambda>(k, v). (createKey ck k, v)) (rbt_pairs src))) = (\<lambda>x. map_option (\<lambda>(k, v). (createKey ck k, v)) (rbt_map rank src x))"
    unfolding t map_of_map pairs_map [OF assms(2), symmetric] by (simp add: comp_def)
  have d: "dom (rbt_map rank src) = (\<lambda>(k, v). rank k) ` set (rbt_pairs src)"
    unfolding pairs_map [OF assms(2), symmetric] dom_map_of_conv_image_fst by (force simp: tag_def)
  then have c: "(\<exists>(k, v)\<in>set (rbt_pairs src). rbt_map rank T (rank k) \<noteq> None) \<longleftrightarrow> dom (rbt_map rank T) \<inter> dom (rbt_map rank src) \<noteq> {}"
    unfolding d by (force simp: dom_def)
  show ?thesis
    using tmap_set_all_ok [OF assms(1) pairs_distinct [OF assms(2)]] unfolding c m tmap_append_def by (simp split: if_splits)
qed

lemma tmap_copy_ok:
  assumes "rbt_inv rank src"
  shows "\<exists>T'. tmap_copy ck src T = Some T' \<and> rbt_inv rank T' \<and>
      rbt_map rank T' = (\<lambda>x. map_option (\<lambda>(k, v). (createKey ck k, v)) (rbt_map rank src x))"
  using tmap_append_ok [OF rbt_clean_ok(1) assms, of T] by (simp add: tmap_copy_def rbt_clean_ok(2))

lemma tmap_appendAlways_ok:
  assumes "rbt_inv rank T" "rbt_inv rank src"
  shows "\<exists>T'. tmap_appendAlways ck src T = Some T' \<and> rbt_inv rank T' \<and>
      (\<forall>x. rbt_map rank T' x = (case rbt_map rank src x of None \<Rightarrow> rbt_map rank T x | Some (k, v) \<Rightarrow> Some (stored ck rank (rbt_map rank T) k, v)))"
  using tmap_set_always_ok [OF assms(1), of "rbt_pairs src"] foldl_merge_one [OF pairs_distinct [OF assms(2)]]
  by (auto simp: tmap_appendAlways_def pairs_map [OF assms(2)])

end

text \<open>
  The comparison classes: the default one; the edges and vertex pairs, by source and then target. The one of memory
  descriptors is in \<open>MemDesc\<close>.
\<close>

definition CompareEdgeFunc :: "(nat \<times> nat) CompareKey" where
  "CompareEdgeFunc =
     \<lparr>is_less = (\<lambda>e1 e2. fst e1 < fst e2 \<or> fst e1 = fst e2 \<and> snd e1 < snd e2),
      is_equ = (\<lambda>e1 e2. fst e1 = fst e2 \<and> snd e1 = snd e2), createKey = (\<lambda>e. e)\<rparr>"

interpretation base: zero_key CompareKeyBase "\<lambda>t. t"
  by unfold_locales (simp_all add: CompareKeyBase_def)

interpretation edge: compare_key CompareEdgeFunc "\<lambda>e. e"
  by unfold_locales (auto simp: CompareEdgeFunc_def less_prod_def prod_eq_iff)

section \<open>In order\<close>

lemma up_succ_ok:
  "up_succ x fs = (y, gs) \<Longrightarrow>
   (case y of Null \<Rightarrow> right_of fs = []
    | TN c l k v r \<Rightarrow> right_of fs = (k, v) # inorder r @ right_of gs \<and> left_of gs @ inorder l = left_of fs @ inorder x)"
  by (induction x fs rule: up_succ.induct) (auto split: RBTNode.splits)

lemma find_succ_ok:
  "find_succ (TN c l k v r) fs = (y, gs) \<Longrightarrow>
   (case y of Null \<Rightarrow> inorder r @ right_of fs = []
    | TN c' l' k' v' r' \<Rightarrow> inorder r @ right_of fs = (k', v') # inorder r' @ right_of gs \<and>
        left_of gs @ inorder l' = left_of fs @ inorder l @ [(k, v)])"
proof (cases r)
  case Null
  assume "find_succ (TN c l k v r) fs = (y, gs)"
  then show ?thesis using Null up_succ_ok [of "TN c l k v Null" fs y gs] by (simp split: RBTNode.splits)
next
  case (TN c' l' k' v' r')
  assume h: "find_succ (TN c l k v r) fs = (y, gs)"
  obtain yc yk yv yr hs where m: "\<And>fs. find_min r fs = (TN yc Null yk yv yr, hs @ fs)" "left_of hs = []"
    "inorder r = (yk, yv) # inorder yr @ right_of hs" using TN find_min_shape [of r] by blast
  have "find_min r (InR c l k v # fs) = (y, gs)" using h TN by simp
  then show ?thesis using m by auto
qed

section \<open>Properties\<close>

definition small_tree :: "(nat, nat) RBT" where
  "small_tree = \<lparr>m_num_of_tn = 3, m_root = TN RBBLACK (TN RBRED Null 3 30 Null) 5 50 (TN RBRED Null 7 70 Null), m_free_list = 0\<rparr>"

lemma small_tree_inv: "rbt_inv (\<lambda>t. t) small_tree"
  by (auto simp: rbt_inv_def small_tree_def ordered_def intro!: exI [of _ "Suc 0"])

lemma small_tree_map: "rbt_map (\<lambda>t. t) small_tree = [3 \<mapsto> (3, 30), 5 \<mapsto> (5, 50), 7 \<mapsto> (7, 70)]"
  by (auto simp: rbt_map_def small_tree_def fun_eq_iff)

text \<open>
  C16: the operations of \<open>TMap\<close> on a red-black tree never read a null pointer, keep the tree ordered and balanced and act as
  on a finite map from ranks to keys and mapped objects: overwriting keeps the key stored first, \<open>set\<close> refuses a key that is
  there, \<open>setIfFind\<close> and \<open>getAndGen\<close> tell the two cases apart, \<open>remove\<close> returns the mapped object.
\<close>

theorem tmap_refines_map:
  assumes "zero_key ck rank" "rbt_inv rank T"
  shows "(\<exists>T'. setAlways ck t w T = Some (stored ck rank (rbt_map rank T) t, T') \<and> rbt_inv rank T' \<and>
      rbt_map rank T' = (rbt_map rank T)(rank t \<mapsto> (stored ck rank (rbt_map rank T) t, w))) \<and>
    (\<exists>T'. rbt_remove ck t T = Some (case rbt_map rank T (rank t) of None \<Rightarrow> 0 | Some (k, v) \<Rightarrow> v, T') \<and> rbt_inv rank T' \<and>
      rbt_map rank T' = (rbt_map rank T)(rank t := None)) \<and>
    (case rbt_map rank T (rank t) of
       None \<Rightarrow> tmap_get ck T t = (False, 0) \<and> \<not> tmap_find ck T t \<and> setIfFind ck t w T = (0, T) \<and>
         (\<exists>T'. tmap_set ck t w T = Some (createKey ck t, T') \<and> rbt_inv rank T' \<and> rbt_map rank T' = (rbt_map rank T)(rank t \<mapsto> (createKey ck t, w))) \<and>
         (\<exists>T'. getAndGen ck gm t T = Some (False, gm t, T') \<and> rbt_inv rank T' \<and> rbt_map rank T' = (rbt_map rank T)(rank t \<mapsto> (createKey ck t, gm t)))
     | Some (k, v) \<Rightarrow> tmap_get ck T t = (True, v) \<and> tmap_find ck T t \<and> tmap_set ck t w T = None \<and> getAndGen ck gm t T = Some (True, v, T) \<and>
         fst (setIfFind ck t w T) = k \<and> rbt_inv rank (snd (setIfFind ck t w T)) \<and>
         rbt_map rank (snd (setIfFind ck t w T)) = (rbt_map rank T)(rank t \<mapsto> (k, w)))"
proof -
  have c: "compare_key ck rank" using assms(1) by (simp add: zero_key_def)
  note i = assms(2)
  show ?thesis
  proof (intro conjI)
    show "case rbt_map rank T (rank t) of
       None \<Rightarrow> tmap_get ck T t = (False, 0) \<and> \<not> tmap_find ck T t \<and> setIfFind ck t w T = (0, T) \<and>
         (\<exists>T'. tmap_set ck t w T = Some (createKey ck t, T') \<and> rbt_inv rank T' \<and> rbt_map rank T' = (rbt_map rank T)(rank t \<mapsto> (createKey ck t, w))) \<and>
         (\<exists>T'. getAndGen ck gm t T = Some (False, gm t, T') \<and> rbt_inv rank T' \<and> rbt_map rank T' = (rbt_map rank T)(rank t \<mapsto> (createKey ck t, gm t)))
     | Some (k, v) \<Rightarrow> tmap_get ck T t = (True, v) \<and> tmap_find ck T t \<and> tmap_set ck t w T = None \<and> getAndGen ck gm t T = Some (True, v, T) \<and>
         fst (setIfFind ck t w T) = k \<and> rbt_inv rank (snd (setIfFind ck t w T)) \<and>
         rbt_map rank (snd (setIfFind ck t w T)) = (rbt_map rank T)(rank t \<mapsto> (k, w))"
      using compare_key.tmap_get_ok [OF c i, of t] zero_key.setIfFind_ok [OF assms, of t w] compare_key.tmap_set_ok [OF c i, of t w]
        compare_key.getAndGen_ok [OF c i, of gm t]
      by (cases "rbt_map rank T (rank t)") (auto simp: tmap_find_def)
  qed (rule compare_key.setAlways_ok [OF c i] compare_key.rbt_remove_ok [OF c i])+
qed

lemma tmap_refines_map_witness:
  "(\<exists>T'. setAlways CompareKeyBase 5 51 small_tree = Some (5, T') \<and> rbt_map (\<lambda>t. t) T' 5 = Some (5, 51)) \<and>
   (\<exists>T'. rbt_remove CompareKeyBase 5 small_tree = Some (50, T') \<and> rbt_inv (\<lambda>t. t) T' \<and> rbt_map (\<lambda>t. t) T' 5 = None) \<and>
   tmap_get CompareKeyBase small_tree 5 = (True, 50)"
  using tmap_refines_map [OF base.zero_key_axioms small_tree_inv, of 5 51 "\<lambda>x. x"]
  by (auto simp: small_tree_map stored_def)

text \<open>
  C37: iterating over a tree with \<open>get_first\<close> and \<open>get_next\<close> ends and yields every key with its mapped object exactly once.
\<close>

theorem tmap_iteration_complete:
  assumes "zero_key ck rank" "rbt_inv rank T"
  shows "distinct (map (\<lambda>(k, v). rank k) (rbt_pairs T)) \<and> length (rbt_pairs T) = m_num_of_tn T \<and>
    (\<forall>x k v. rbt_map rank T x = Some (k, v) \<longleftrightarrow> (k, v) \<in> set (rbt_pairs T) \<and> rank k = x)"
proof (intro conjI allI)
  show d: "distinct (map (\<lambda>(k, v). rank k) (rbt_pairs T))" by (rule zero_key.pairs_distinct [OF assms])
  show "length (rbt_pairs T) = m_num_of_tn T"
    using arg_cong [OF rbt_pairs_mset [of T], of size] assms(2) by (simp add: rbt_inv_def)
  have t: "map fst (tag rank kvs) = map (\<lambda>(k, v). rank k) kvs" for kvs :: "('a \<times> 'c) list" by (induction kvs) auto
  show "rbt_map rank T x = Some (k, v) \<longleftrightarrow> (k, v) \<in> set (rbt_pairs T) \<and> rank k = x" for x k v
    unfolding zero_key.pairs_map [OF assms, symmetric] using d [folded t] by (auto simp: tag_def)
qed

lemma tmap_iteration_complete_witness:
  "length (rbt_pairs small_tree) = 3 \<and> (7, 70) \<in> set (rbt_pairs small_tree)"
  using tmap_iteration_complete [OF base.zero_key_axioms small_tree_inv, THEN conjunct2, THEN conjunct2, THEN spec, THEN spec, THEN spec, of 7 7 70]
    tmap_iteration_complete [OF base.zero_key_axioms small_tree_inv, THEN conjunct2, THEN conjunct1]
  by (simp add: small_tree_map) (simp add: small_tree_def)

text \<open>
  \<open>append\<close> adds the pairs of a map with other keys and fails on a common key, \<open>appendAlways\<close> lets the appended mapped
  objects win and keeps the keys stored first, \<open>copy\<close> replaces the receiver, whose nodes go to the free list; all keep the tree
  ordered and balanced.
\<close>

theorem tmap_bulk_updates:
  assumes "zero_key ck rank" "rbt_inv rank T" "rbt_inv rank src"
  shows "(if dom (rbt_map rank T) \<inter> dom (rbt_map rank src) = {}
      then \<exists>T'. tmap_append ck src T = Some T' \<and> rbt_inv rank T' \<and>
        rbt_map rank T' = rbt_map rank T ++ (\<lambda>x. map_option (\<lambda>(k, v). (createKey ck k, v)) (rbt_map rank src x))
      else tmap_append ck src T = None) \<and>
    (\<exists>T'. tmap_appendAlways ck src T = Some T' \<and> rbt_inv rank T' \<and>
      (\<forall>x. rbt_map rank T' x = (case rbt_map rank src x of None \<Rightarrow> rbt_map rank T x | Some (k, v) \<Rightarrow> Some (stored ck rank (rbt_map rank T) k, v)))) \<and>
    (\<exists>T'. tmap_copy ck src T = Some T' \<and> rbt_inv rank T' \<and>
      rbt_map rank T' = (\<lambda>x. map_option (\<lambda>(k, v). (createKey ck k, v)) (rbt_map rank src x))) \<and>
    m_free_list (rbt_clean T) = m_free_list T + m_num_of_tn T"
  using zero_key.tmap_append_ok [OF assms] zero_key.tmap_appendAlways_ok [OF assms] zero_key.tmap_copy_ok [OF assms(1,3)]
    rbt_clean_ok(3) [of T] assms(2) by (simp add: rbt_inv_def)

lemma tmap_bulk_updates_witness:
  "tmap_append CompareKeyBase small_tree small_tree = None \<and>
   (\<exists>T'. tmap_copy CompareKeyBase small_tree small_tree = Some T' \<and> rbt_map (\<lambda>t. t) T' 3 = Some (3, 30))"
proof -
  have "3 \<in> dom (rbt_map (\<lambda>t. t) small_tree) \<inter> dom (rbt_map (\<lambda>t. t) small_tree)" by (simp add: small_tree_map)
  then have "dom (rbt_map (\<lambda>t. t) small_tree) \<inter> dom (rbt_map (\<lambda>t. t) small_tree) \<noteq> {}" by blast
  then show ?thesis using tmap_bulk_updates [OF base.zero_key_axioms small_tree_inv small_tree_inv]
    by (auto simp: small_tree_map CompareKeyBase_def)
qed

text \<open>
  \<open>find_succ\<close>, from the node of a key, returns the node of the least greater key, or null when there is none.
\<close>

theorem successor_is_next:
  assumes "compare_key ck rank" "rbt_inv rank T" "descend ck t (m_root T) [] = (TN c l k v r, fs)" "find_succ (TN c l k v r) fs = (y, gs)"
  shows "case y of
      Null \<Rightarrow> \<forall>x. rbt_map rank T x \<noteq> None \<longrightarrow> x \<le> rank t
    | TN c' l' k' v' r' \<Rightarrow> rbt_map rank T (rank k') = Some (k', v') \<and> rank t < rank k' \<and>
        (\<forall>x. rbt_map rank T x \<noteq> None \<longrightarrow> x \<le> rank t \<or> rank k' \<le> x)"
proof -
  have e: "inorder (m_root T) = (left_of fs @ inorder l) @ (k, v) # (inorder r @ right_of fs)" and k: "rank k = rank t"
    using compare_key.descend_spec [OF assms(1-3)] by simp_all
  have o: "ordered rank ((left_of fs @ inorder l) @ (k, v) # (inorder r @ right_of fs))"
    using assms(2) unfolding rbt_inv_def e by blast
  have b: "\<forall>x\<in>set (left_of fs @ inorder l). rank (fst x) < rank t" "\<forall>x\<in>set (inorder r @ right_of fs). rank t < rank (fst x)"
    using o unfolding ordered_mid k by blast+
  have m: "\<exists>kv\<in>set (left_of fs @ inorder l) \<union> {(k, v)} \<union> set (inorder r @ right_of fs). x = rank (fst kv)" if h: "rbt_map rank T x \<noteq> None" for x
    using h map_of_tag_None [of "inorder (m_root T)" rank x] unfolding rbt_map_def e by fastforce
  show ?thesis
  proof (cases y)
    case Null
    then have n: "inorder r @ right_of fs = []" using find_succ_ok [OF assms(4)] by simp
    have "x \<le> rank t" if h: "rbt_map rank T x \<noteq> None" for x
      using m [OF h] b(1) k unfolding n by (auto intro: less_imp_le)
    then show ?thesis using Null by simp
  next
    case (TN c' l' k' v' r')
    then have s: "inorder r @ right_of fs = (k', v') # inorder r' @ right_of gs" using find_succ_ok [OF assms(4)] by simp
    have o': "ordered rank (((left_of fs @ inorder l) @ [(k, v)]) @ (k', v') # inorder r' @ right_of gs)" using o unfolding s by simp
    have b': "\<forall>x\<in>set (inorder r' @ right_of gs). rank k' < rank (fst x)" using o' unfolding ordered_mid by blast
    have "rbt_map rank T (rank k') = Some (k', v')"
      using ordered_append_mid [OF o'] unfolding rbt_map_def e s by simp
    moreover have "rank t < rank k'" using b(2) unfolding s by simp
    moreover have "x \<le> rank t \<or> rank k' \<le> x" if h: "rbt_map rank T x \<noteq> None" for x
      using m [OF h] b(1) b' k unfolding s by (auto intro: less_imp_le)
    ultimately show ?thesis using TN by simp
  qed
qed

lemma successor_is_next_witness:
  "case find_succ (TN RBRED Null 3 30 Null) [InL RBBLACK 5 50 (TN RBRED Null 7 70 Null)] of
     (y, gs) \<Rightarrow> (case y of Null \<Rightarrow> False | TN c' l' k' v' r' \<Rightarrow> rbt_map (\<lambda>t. t) small_tree k' = Some (k', v') \<and> 3 < k')"
proof -
  have d: "descend CompareKeyBase 3 (m_root small_tree) [] = (TN RBRED Null 3 30 Null, [InL RBBLACK 5 50 (TN RBRED Null 7 70 Null)])"
    by (simp add: small_tree_def CompareKeyBase_def)
  have f: "find_succ (TN RBRED Null 3 30 Null) [InL RBBLACK 5 50 (TN RBRED Null 7 70 Null)] =
    (TN RBBLACK (TN RBRED Null 3 30 Null) 5 50 (TN RBRED Null 7 70 Null), [] :: (nat, nat) Frame list)" by simp
  from successor_is_next [OF base.compare_key_axioms small_tree_inv d f] show ?thesis by (simp add: f)
qed

end
