(* ===== verification/MemDesc.thy ===== *)
theory MemDesc
  imports TMap
begin

text \<open>
  Memory descriptors, on which alias analysis and the data-flow analyses of memory rest: \<^verbatim>\<open>src/opt/md.h\<close> and
  \<^verbatim>\<open>src/opt/md.cpp\<close>. A descriptor names a piece of a variable: exactly known, within a known range, or unbounded. The
  system keeps one descriptor per variable and place, finds it again by the tree \<open>OffsetTab\<close> of the variable, numbers the
  descriptors, and computes what overlaps what. \<open>TMWORD\<close> is the 32-bit word of the targets in the repository.

  A pointer to a registered descriptor is the descriptor, of which the number is part; the null pointer is the cleared
  one, with the number \<open>MD_UNDEF\<close>. A variable is its number; \<open>vars\<close> gives its flags and \<open>region\<close> the numbers of the
  variables of the current region.
\<close>

section \<open>Descriptors\<close>

datatype MD_TYPE = MD_UNBOUND | MD_EXACT | MD_RANGE

record MD =
  MD_id :: nat
  MD_ofst :: "32 word"
  MD_size :: "32 word"
  MD_base :: nat
  MD_ty :: MD_TYPE
  MD_taken_addr :: bool
  MD_is_may :: bool

instantiation unit :: zero
begin
definition "0 = ()"
instance ..
end

instantiation MD_ext :: (zero) zero
begin
definition "0 = MD_ext 0 0 0 0 MD_UNBOUND False False 0"
instance ..
end

definition MD_UNDEF :: nat where "MD_UNDEF = 0"
definition MD_FULL_MEM :: nat where "MD_FULL_MEM = 1"
definition MD_GLOBAL_VAR :: nat where "MD_GLOBAL_VAR = 2"
definition MD_IMPORT_VAR :: nat where "MD_IMPORT_VAR = 3"
definition MD_LOCAL_VAR :: nat where "MD_LOCAL_VAR = 4"
definition MD_HEAP_MEM :: nat where "MD_HEAP_MEM = 5"
definition MD_LOCAL_MAY_ALIAS :: nat where "MD_LOCAL_MAY_ALIAS = 6"
definition MD_FIRST_ALLOCABLE :: nat where "MD_FIRST_ALLOCABLE = MD_LOCAL_MAY_ALIAS + 1"

lemmas md_ids = MD_UNDEF_def MD_FULL_MEM_def MD_GLOBAL_VAR_def MD_IMPORT_VAR_def MD_LOCAL_VAR_def MD_HEAP_MEM_def
  MD_LOCAL_MAY_ALIAS_def MD_FIRST_ALLOCABLE_def

definition is_exact :: "MD \<Rightarrow> bool" where
  "is_exact md \<longleftrightarrow> MD_ty md = MD_EXACT"

definition is_range :: "MD \<Rightarrow> bool" where
  "is_range md \<longleftrightarrow> MD_ty md = MD_RANGE"

definition is_unbound :: "MD \<Rightarrow> bool" where
  "is_unbound md \<longleftrightarrow> MD_ty md = MD_UNBOUND"

text \<open>\<open>MD::copy\<close> leaves the number of the target.\<close>

definition md_copy :: "MD \<Rightarrow> MD \<Rightarrow> MD" where
  "md_copy md src = src\<lparr>MD_id := MD_id md\<rparr>"

definition is_may_cover :: "MD \<Rightarrow> MD \<Rightarrow> bool" where
  "is_may_cover t m =
     (if MD_base t \<noteq> MD_base m then False
      else if MD_ty t = MD_UNBOUND then True
      else if MD_ty m = MD_UNBOUND \<or> MD_ty t = MD_RANGE \<or> MD_ty m = MD_RANGE then False
      else MD_ofst t \<le> MD_ofst m \<and> MD_ofst t + MD_size t \<ge> MD_ofst m + MD_size m)"

definition is_exact_cover :: "MD \<Rightarrow> MD \<Rightarrow> bool" where
  "is_exact_cover t m =
     (if MD_base t \<noteq> MD_base m \<or> \<not> is_exact t \<or> \<not> is_exact m \<and> \<not> is_range m then False
      else MD_ofst t \<le> MD_ofst m \<and> MD_ofst t + MD_size t \<ge> MD_ofst m + MD_size m)"

definition is_overlap :: "MD \<Rightarrow> MD \<Rightarrow> bool" where
  "is_overlap t m =
     (if MD_base m \<noteq> MD_base t then False
      else if MD_ty m = MD_UNBOUND \<or> MD_ty t = MD_UNBOUND then True
      else \<not> (MD_ofst m + MD_size m \<le> MD_ofst t \<or> MD_ofst t + MD_size t \<le> MD_ofst m))"

definition md_equ :: "MD \<Rightarrow> MD \<Rightarrow> bool" where
  "md_equ t src =
     (if MD_base t \<noteq> MD_base src then False
      else if is_unbound t \<and> is_unbound src then True
      else MD_ofst t = MD_ofst src \<and> MD_size t = MD_size src \<and>
        (MD_ty t = MD_ty src \<and> MD_taken_addr t = MD_taken_addr src \<and> MD_is_may t = MD_is_may src))"

text \<open>The bytes of its variable that a descriptor stands for.\<close>

definition md_bytes :: "MD \<Rightarrow> nat set" where
  "md_bytes md = (if MD_ty md = MD_UNBOUND then UNIV else {unat (MD_ofst md)..<unat (MD_ofst md) + unat (MD_size md)})"

definition md_fits :: "MD \<Rightarrow> bool" where
  "md_fits md \<longleftrightarrow> 0 < MD_size md \<and> unat (MD_ofst md) + unat (MD_size md) < 2 ^ 32"

lemma md_end: "md_fits md \<Longrightarrow> unat (MD_ofst md + MD_size md) = unat (MD_ofst md) + unat (MD_size md)"
  by (simp add: md_fits_def unat_word_ariths)

lemma md_size_pos: "md_fits md \<Longrightarrow> 0 < unat (MD_size md)"
  by (simp add: md_fits_def word_less_nat_alt)

lemma ivl_disjoint: "0 < m \<Longrightarrow> 0 < n \<Longrightarrow> {a..<a + m} \<inter> {b..<b + n} = {} \<longleftrightarrow> b + n \<le> a \<or> a + m \<le> (b::nat)"
proof -
  assume "0 < m" "0 < n"
  then have "max a b \<in> {a..<a + m} \<inter> {b..<b + n} \<longleftrightarrow> \<not> (b + n \<le> a \<or> a + m \<le> b)" by auto
  then show ?thesis by auto
qed

lemma is_overlap_bytes:
  assumes "md_fits t" "md_fits m"
  shows "is_overlap t m \<longleftrightarrow> MD_base t = MD_base m \<and> md_bytes t \<inter> md_bytes m \<noteq> {}"
proof -
  have ne: "md_bytes t \<noteq> {}" "md_bytes m \<noteq> {}" using md_size_pos [OF assms(1)] md_size_pos [OF assms(2)] by (auto simp: md_bytes_def)
  show ?thesis
  proof (cases "MD_ty m = MD_UNBOUND \<or> MD_ty t = MD_UNBOUND")
    case True
    then have "md_bytes t \<inter> md_bytes m \<noteq> {}" using ne by (auto simp: md_bytes_def)
    then show ?thesis using True by (auto simp: is_overlap_def)
  next
    case False
    then show ?thesis
      using md_end [OF assms(1)] md_end [OF assms(2)] ivl_disjoint [OF md_size_pos [OF assms(1)] md_size_pos [OF assms(2)]]
      by (auto simp: is_overlap_def md_bytes_def word_le_nat_alt)
  qed
qed

lemma is_exact_cover_bytes:
  assumes "md_fits t" "md_fits m"
  shows "is_exact_cover t m \<longleftrightarrow> MD_base t = MD_base m \<and> is_exact t \<and> \<not> is_unbound m \<and> md_bytes m \<subseteq> md_bytes t"
proof (cases "is_exact t \<and> \<not> is_unbound m")
  case True
  then have b: "md_bytes t = {unat (MD_ofst t)..<unat (MD_ofst t) + unat (MD_size t)}"
    "md_bytes m = {unat (MD_ofst m)..<unat (MD_ofst m) + unat (MD_size m)}" "is_exact m \<or> is_range m"
    by (cases "MD_ty m"; auto simp: md_bytes_def is_exact_def is_unbound_def is_range_def)+
  show ?thesis
    using True b md_end [OF assms(1)] md_end [OF assms(2)] md_size_pos [OF assms(2)]
    by (auto simp: is_exact_cover_def word_le_nat_alt)
next
  case False
  then show ?thesis by (auto simp: is_exact_cover_def is_exact_def is_range_def is_unbound_def)
qed

lemma is_may_cover_bytes:
  assumes "md_fits t" "md_fits m"
  shows "is_may_cover t m \<longleftrightarrow> MD_base t = MD_base m \<and> (is_unbound t \<or> is_exact t \<and> is_exact m \<and> md_bytes m \<subseteq> md_bytes t)"
proof (cases "is_exact t \<and> is_exact m")
  case True
  then show ?thesis
    using md_end [OF assms(1)] md_end [OF assms(2)] md_size_pos [OF assms(2)]
    by (auto simp: is_may_cover_def word_le_nat_alt is_exact_def is_unbound_def md_bytes_def)
next
  case False
  then show ?thesis by (cases "MD_ty t"; cases "MD_ty m"; auto simp: is_may_cover_def is_exact_def is_unbound_def)
qed

lemma md_wrap:
  "\<not> is_overlap \<lparr>MD_id = 0, MD_ofst = 4294967292, MD_size = 8, MD_base = 1, MD_ty = MD_EXACT, MD_taken_addr = False, MD_is_may = False\<rparr>
     \<lparr>MD_id = 0, MD_ofst = 4294967288, MD_size = 7, MD_base = 1, MD_ty = MD_EXACT, MD_taken_addr = False, MD_is_may = False\<rparr>"
  by (simp add: is_overlap_def)

section \<open>The descriptors of one variable\<close>

definition md_pack :: "MD \<Rightarrow> 64 word" where
  "md_pack t = of_bool (is_range t) OR push_bit 1 (ucast (MD_ofst t)) OR push_bit 32 (ucast (MD_size t))"

definition CompareOffset :: "MD CompareKey" where
  "CompareOffset =
     \<lparr>is_less = (\<lambda>t1 t2. md_pack t1 < md_pack t2), is_equ = (\<lambda>t1 t2. md_pack t1 = md_pack t2), createKey = (\<lambda>t. t)\<rparr>"

interpretation offset: zero_key CompareOffset md_pack
  by unfold_locales (simp_all add: CompareOffset_def)

text \<open>Bit 31 of the offset falls on bit 0 of the size: two exact descriptors of different places are one key.\<close>

lemma CompareOffset_confuses:
  "is_equ CompareOffset
     \<lparr>MD_id = 0, MD_ofst = 2147483648, MD_size = 2, MD_base = 1, MD_ty = MD_EXACT, MD_taken_addr = False, MD_is_may = False\<rparr>
     \<lparr>MD_id = 0, MD_ofst = 0, MD_size = 3, MD_base = 1, MD_ty = MD_EXACT, MD_taken_addr = False, MD_is_may = False\<rparr>"
  by (simp add: CompareOffset_def md_pack_def is_range_def push_bit_eq_mult)

text \<open>Below that bit the key is the kind, the offset and the size.\<close>

lemma md_pack_inj:
  assumes "md_pack a = md_pack b" "MD_ofst a < 2 ^ 31" "MD_ofst b < 2 ^ 31"
  shows "is_range a = is_range b \<and> MD_ofst a = MD_ofst b \<and> MD_size a = MD_size b"
proof -
  have hi: "\<not> bit (MD_ofst x) i" if "MD_ofst x < 2 ^ 31" "31 \<le> i" for x :: MD and i
  proof -
    have "take_bit 31 (MD_ofst x) = MD_ofst x"
      using that(1) by (intro word_unat_eq_iff [THEN iffD2]) (simp add: unsigned_take_bit_eq take_bit_nat_eq_self_iff word_less_nat_alt)
    then show ?thesis using that(2) by (metis bit_take_bit_iff leD)
  qed
  have e: "bit (md_pack a) i = bit (md_pack b) i" for i using assms(1) by simp
  have k: "bit (md_pack x) i \<longleftrightarrow> i = 0 \<and> is_range x \<or> 0 < i \<and> i \<le> 31 \<and> bit (MD_ofst x) (i - 1) \<or> 32 \<le> i \<and> bit (MD_size x) (i - 32)"
    if x: "MD_ofst x < 2 ^ 31" for x i
  proof -
    have "i \<le> 31" if "bit (MD_ofst x) (i - 1)" using hi [OF x, of "i - 1"] that by (cases "31 \<le> i - 1") auto
    then show ?thesis using bit_imp_le_length [of "MD_size x" "i - 32"]
      unfolding md_pack_def bit_or_iff bit_push_bit_iff bit_unsigned_iff bit_of_bool_iff by auto
  qed
  have "is_range a = is_range b" using e [of 0] k [OF assms(2), of 0] k [OF assms(3), of 0] by simp
  moreover have "bit (MD_ofst a) i = bit (MD_ofst b) i" for i
  proof (cases "i < 31")
    case True
    then show ?thesis using e [of "Suc i"] k [OF assms(2), of "Suc i"] k [OF assms(3), of "Suc i"] by simp
  next
    case False
    then show ?thesis using hi assms(2,3) by auto
  qed
  moreover have "bit (MD_size a) i = bit (MD_size b) i" for i
    using e [of "i + 32"] k [OF assms(2), of "i + 32"] k [OF assms(3), of "i + 32"] by simp
  ultimately show ?thesis by (auto intro: bit_word_eqI)
qed

record MDTab =
  m_invalid_ofst_md :: MD
  m_ofst_tab :: "(MD, MD) RBT"

definition mdtab_init :: MDTab where
  "mdtab_init = \<lparr>m_invalid_ofst_md = 0, m_ofst_tab = rbt_init\<rparr>"

definition mdtab_append :: "MD \<Rightarrow> MDTab \<Rightarrow> MDTab option" where
  "mdtab_append md t =
     (if is_exact md \<or> is_range md
      then (case setAlways CompareOffset md md (m_ofst_tab t) of None \<Rightarrow> None | Some (k, T) \<Rightarrow> Some (t\<lparr>m_ofst_tab := T\<rparr>))
      else Some (t\<lparr>m_invalid_ofst_md := md\<rparr>))"

definition mdtab_find :: "MDTab \<Rightarrow> MD \<Rightarrow> MD" where
  "mdtab_find t md =
     (if is_exact md \<or> is_range md then snd (tmap_get CompareOffset (m_ofst_tab t) md) else m_invalid_ofst_md t)"

definition get_effect_md :: "MDTab \<Rightarrow> MD" where
  "get_effect_md t = m_invalid_ofst_md t"

definition mdtab_clean :: "MDTab \<Rightarrow> MDTab" where
  "mdtab_clean t = t\<lparr>m_invalid_ofst_md := 0, m_ofst_tab := rbt_clean (m_ofst_tab t)\<rparr>"

text \<open>The loop over the keys of \<open>OffsetTab\<close>, which ends at the null key.\<close>

definition ofst_mds :: "MDTab \<Rightarrow> MD list" where
  "ofst_mds t = map fst (rbt_pairs (m_ofst_tab t))"

definition mdtab_get_elem_count :: "MDTab \<Rightarrow> nat" where
  "mdtab_get_elem_count t = (if m_invalid_ofst_md t \<noteq> 0 then 1 else 0) + m_num_of_tn (m_ofst_tab t)"

definition get_elems :: "MDTab \<Rightarrow> MD list" where
  "get_elems t = (if m_invalid_ofst_md t \<noteq> 0 then [m_invalid_ofst_md t] else []) @ ofst_mds t"

section \<open>Sets of descriptors\<close>

record Var =
  var_global :: bool
  var_local :: bool
  var_fake :: bool
  var_addr_taken :: bool
  var_is_pr :: bool

definition md_is_global :: "(nat \<Rightarrow> Var) \<Rightarrow> MD \<Rightarrow> bool" where
  "md_is_global vars md = var_global (vars (MD_base md))"

definition md_is_local :: "(nat \<Rightarrow> Var) \<Rightarrow> MD \<Rightarrow> bool" where
  "md_is_local vars md = var_local (vars (MD_base md))"

definition md_is_pr :: "(nat \<Rightarrow> Var) \<Rightarrow> MD \<Rightarrow> bool" where
  "md_is_pr vars md = var_is_pr (vars (MD_base md))"

definition md_is_effect :: "(nat \<Rightarrow> Var) \<Rightarrow> MD \<Rightarrow> bool" where
  "md_is_effect vars md \<longleftrightarrow> \<not> var_fake (vars (MD_base md))"

definition md_is_taken_addr :: "(nat \<Rightarrow> Var) \<Rightarrow> MD \<Rightarrow> bool" where
  "md_is_taken_addr vars md = var_addr_taken (vars (MD_base md))"

definition isLocalDelegate :: "nat \<Rightarrow> bool" where
  "isLocalDelegate mdid \<longleftrightarrow> mdid = MD_LOCAL_VAR \<or> mdid = MD_LOCAL_MAY_ALIAS"

definition isDelegate :: "nat \<Rightarrow> bool" where
  "isDelegate mdid \<longleftrightarrow> isLocalDelegate mdid \<or> mdid = MD_GLOBAL_VAR \<or> mdid = MD_IMPORT_VAR"

definition is_contain_by_global_delegate :: "(nat \<Rightarrow> Var) \<Rightarrow> nat set \<Rightarrow> MD \<Rightarrow> bool" where
  "is_contain_by_global_delegate vars mds md =
     (if \<not> md_is_global vars md then False else if MD_GLOBAL_VAR \<notin> mds then False
      else if MD_id md = MD_IMPORT_VAR then False else True)"

definition is_contain_by_import_delegate :: "nat set \<Rightarrow> nat set \<Rightarrow> MD \<Rightarrow> bool" where
  "is_contain_by_import_delegate region mds md =
     (if MD_IMPORT_VAR \<notin> mds then False else if isLocalDelegate (MD_id md) then False
      else MD_base md \<notin> region)"

definition is_contain_by_delegate :: "(nat \<Rightarrow> Var) \<Rightarrow> nat set \<Rightarrow> nat set \<Rightarrow> MD \<Rightarrow> bool" where
  "is_contain_by_delegate vars region mds md =
     (if md_is_global vars md then is_contain_by_global_delegate vars mds md
      else if is_contain_by_import_delegate region mds md then True
      else if MD_LOCAL_VAR \<in> mds then True
      else if md_is_pr vars md then False
      else MD_LOCAL_MAY_ALIAS \<in> mds)"

definition mdset_is_contain :: "(nat \<Rightarrow> Var) \<Rightarrow> nat set \<Rightarrow> nat set \<Rightarrow> MD \<Rightarrow> bool" where
  "mdset_is_contain vars region mds md =
     (if is_contain_by_delegate vars region mds md then True else MD_id md \<in> mds)"

end
