(* ===== verification/MemSystem.thy ===== *)
theory MemSystem
  imports MemDesc
begin

text \<open>
  The registry of memory descriptors: class \<open>MDSystem\<close> of \<^verbatim>\<open>src/opt/md.h\<close> and \<^verbatim>\<open>src/opt/md.cpp\<close>. It numbers the
  descriptors, keeps those of one variable in its \<open>MDTab\<close>, recycles the numbers of descriptors it frees, and answers which
  descriptors overlap. \<open>None\<close> is a null pointer that is followed.
\<close>

section \<open>The system\<close>

text \<open>The vector \<open>m_id2md_map\<close> is a partial map with its length; a free descriptor is cleared except for its number.\<close>

record MDSystem =
  m_enable_local_var_delegate :: bool
  m_full_mem :: MD
  m_global_mem :: MD
  m_import_mem :: MD
  m_local_mem :: MD
  m_heap_mem :: MD
  m_local_may_alias :: MD
  m_id2md_map :: "nat \<rightharpoonup> MD"
  m_id2md_len :: nat
  m_free_md_list :: "nat list"
  m_md_count :: nat
  m_var2mdtab :: "nat \<rightharpoonup> MDTab"

definition getMD :: "MDSystem \<Rightarrow> nat \<Rightarrow> MD" where
  "getMD s mdid = (case m_id2md_map s mdid of None \<Rightarrow> 0 | Some md \<Rightarrow> md)"

definition allocMD :: "MDSystem \<Rightarrow> nat \<times> MDSystem" where
  "allocMD s = (case m_free_md_list s of [] \<Rightarrow> (MD_UNDEF, s) | i # is \<Rightarrow> (i, s\<lparr>m_free_md_list := is\<rparr>))"

definition id2md_set :: "nat \<Rightarrow> MD \<Rightarrow> MDSystem \<Rightarrow> MDSystem" where
  "id2md_set mdid md s = s\<lparr>m_id2md_map := (m_id2md_map s)(mdid \<mapsto> md), m_id2md_len := max (m_id2md_len s) (mdid + 1)\<rparr>"

definition newMD :: "MD \<Rightarrow> MDSystem \<Rightarrow> (MD \<times> MDSystem) option" where
  "newMD m s =
     (let (i, s) = allocMD s;
          (i, s) = (if i = MD_UNDEF then (m_md_count s, s\<lparr>m_md_count := m_md_count s + 1\<rparr>) else (i, s));
          entry = m\<lparr>MD_id := i\<rparr>;
          t = (case m_var2mdtab s (MD_base entry) of None \<Rightarrow> mdtab_init | Some t \<Rightarrow> t)
      in case mdtab_append entry t of None \<Rightarrow> None
         | Some t \<Rightarrow> Some (entry, id2md_set (MD_id entry) entry (s\<lparr>m_var2mdtab := (m_var2mdtab s)(MD_base entry \<mapsto> t)\<rparr>)))"

definition registerMD :: "MD \<Rightarrow> MDSystem \<Rightarrow> (MD \<times> MDSystem) option" where
  "registerMD m s =
     (if MD_id m > MD_UNDEF
      then (case m_var2mdtab s (MD_base m) of None \<Rightarrow> None | Some t \<Rightarrow> Some (mdtab_find t m, s))
      else (case m_var2mdtab s (MD_base m) of
              None \<Rightarrow> newMD m s
            | Some t \<Rightarrow> if mdtab_find t m \<noteq> 0 then Some (mdtab_find t m, s) else newMD m s))"

definition registerUnboundMD :: "nat \<Rightarrow> 32 word \<Rightarrow> MDSystem \<Rightarrow> (MD \<times> MDSystem) option" where
  "registerUnboundMD var sz s = registerMD (0\<lparr>MD_base := var, MD_size := sz, MD_ty := MD_UNBOUND\<rparr>) s"

text \<open>The six descriptors that stand for sets of variables; \<open>VarMgr\<close> supplies a variable for each.\<close>

definition delegate_md :: "nat \<Rightarrow> MD" where
  "delegate_md v = 0\<lparr>MD_base := v, MD_size := 0, MD_ty := MD_UNBOUND, MD_is_may := True\<rparr>"

definition initFullMem :: "nat \<Rightarrow> MDSystem \<Rightarrow> MDSystem option" where
  "initFullMem v s = (case registerMD (delegate_md v) (s\<lparr>m_full_mem := 0\<rparr>) of None \<Rightarrow> None | Some (e, s) \<Rightarrow> Some (s\<lparr>m_full_mem := e\<rparr>))"

definition initGlobalMem :: "nat \<Rightarrow> MDSystem \<Rightarrow> MDSystem option" where
  "initGlobalMem v s = (case registerMD (delegate_md v) (s\<lparr>m_global_mem := 0\<rparr>) of None \<Rightarrow> None | Some (e, s) \<Rightarrow> Some (s\<lparr>m_global_mem := e\<rparr>))"

definition initImportMem :: "nat \<Rightarrow> MDSystem \<Rightarrow> MDSystem option" where
  "initImportMem v s = (case registerMD (delegate_md v) (s\<lparr>m_import_mem := 0\<rparr>) of None \<Rightarrow> None | Some (e, s) \<Rightarrow> Some (s\<lparr>m_import_mem := e\<rparr>))"

definition initLocalMem :: "nat \<Rightarrow> MDSystem \<Rightarrow> MDSystem option" where
  "initLocalMem v s = (case registerMD (delegate_md v) (s\<lparr>m_local_mem := 0\<rparr>) of None \<Rightarrow> None | Some (e, s) \<Rightarrow> Some (s\<lparr>m_local_mem := e\<rparr>))"

definition initHeapMem :: "nat \<Rightarrow> MDSystem \<Rightarrow> MDSystem option" where
  "initHeapMem v s = (case registerMD (delegate_md v) (s\<lparr>m_heap_mem := 0\<rparr>) of None \<Rightarrow> None | Some (e, s) \<Rightarrow> Some (s\<lparr>m_heap_mem := e\<rparr>))"

definition initLocalMayAlias :: "nat \<Rightarrow> MDSystem \<Rightarrow> MDSystem option" where
  "initLocalMayAlias v s =
     (case registerMD (delegate_md v) (s\<lparr>m_local_may_alias := 0\<rparr>) of None \<Rightarrow> None | Some (e, s) \<Rightarrow> Some (s\<lparr>m_local_may_alias := e\<rparr>))"

definition initDelegate :: "nat \<Rightarrow> nat \<Rightarrow> nat \<Rightarrow> nat \<Rightarrow> nat \<Rightarrow> nat \<Rightarrow> MDSystem \<Rightarrow> MDSystem option" where
  "initDelegate full glob imp loc heap alias s =
     Option.bind (initFullMem full s) (\<lambda>s. Option.bind (initGlobalMem glob s) (\<lambda>s.
     Option.bind (initImportMem imp s) (\<lambda>s. Option.bind (initLocalMem loc s) (\<lambda>s.
     Option.bind (initHeapMem heap s) (initLocalMayAlias alias)))))"

definition mdsystem_empty :: "bool \<Rightarrow> MDSystem" where
  "mdsystem_empty enable =
     \<lparr>m_enable_local_var_delegate = enable, m_full_mem = 0, m_global_mem = 0, m_import_mem = 0,
      m_local_mem = 0, m_heap_mem = 0, m_local_may_alias = 0, m_id2md_map = Map.empty, m_id2md_len = 0,
      m_free_md_list = [], m_md_count = 1, m_var2mdtab = Map.empty\<rparr>"

definition mdsystem_init :: "bool \<Rightarrow> nat \<Rightarrow> nat \<Rightarrow> nat \<Rightarrow> nat \<Rightarrow> nat \<Rightarrow> nat \<Rightarrow> MDSystem option" where
  "mdsystem_init g_enable_local_var_delegate full glob imp loc heap alias =
     initDelegate full glob imp loc heap alias (mdsystem_empty g_enable_local_var_delegate)"

definition freeMD :: "MD \<Rightarrow> MDSystem \<Rightarrow> MDSystem" where
  "freeMD md s =
     (if md = 0 then s
      else s\<lparr>m_id2md_map := (m_id2md_map s)(MD_id md := None), m_free_md_list := MD_id md # m_free_md_list s\<rparr>)"

definition removeMDforVAR :: "nat \<Rightarrow> MDSystem \<Rightarrow> MDSystem" where
  "removeMDforVAR v s =
     (let s = (case m_var2mdtab s v of
            None \<Rightarrow> s
          | Some t \<Rightarrow>
              (let x = get_effect_md t;
                   s = (if x \<noteq> 0 then freeMD (getMD s (MD_id x)) s else s)
               in fold (\<lambda>md s. freeMD (getMD s (MD_id md)) s) (ofst_mds t) s))
      in s\<lparr>m_var2mdtab := (m_var2mdtab s)(v := None)\<rparr>)"

definition mdsystem_clean :: "MDSystem \<Rightarrow> MDSystem" where
  "mdsystem_clean s =
     (let s = s\<lparr>m_var2mdtab := (\<lambda>v. map_option mdtab_clean (m_var2mdtab s v))\<rparr>;
          s = fold (\<lambda>i s. freeMD (getMD s i) s) [0..<m_id2md_len s] s
      in s\<lparr>m_md_count := 2\<rparr>)"

section \<open>Overlap\<close>

definition isImportVar :: "nat set \<Rightarrow> MD \<Rightarrow> bool" where
  "isImportVar region md = (if isLocalDelegate (MD_id md) then False else MD_base md \<notin> region)"

definition addDelegate :: "(nat \<Rightarrow> Var) \<Rightarrow> nat set \<Rightarrow> MDSystem \<Rightarrow> MD \<Rightarrow> nat set \<Rightarrow> nat set" where
  "addDelegate vars region s md output =
     (if md_is_global vars md then insert MD_GLOBAL_VAR output
      else if isImportVar region md then insert MD_IMPORT_VAR output
      else (let output = (if m_enable_local_var_delegate s then insert MD_LOCAL_VAR output else output)
            in if md_is_taken_addr vars md then insert MD_LOCAL_MAY_ALIAS output else output))"

text \<open>The loop over the descriptors with a known place: those that pass the test are added.\<close>

definition computeOverlapMD ::
  "(nat \<Rightarrow> Var) \<Rightarrow> nat set \<Rightarrow> MDSystem \<Rightarrow> MD \<Rightarrow> nat set \<Rightarrow> bool \<Rightarrow> nat set option" where
  "computeOverlapMD vars region s md output strictly =
     (let output = (if strictly then addDelegate vars region s md output else output)
      in case m_var2mdtab s (MD_base md) of
           None \<Rightarrow> None
         | Some mdt \<Rightarrow>
             (let effect_md = get_effect_md mdt;
                  output = (if effect_md \<noteq> 0 \<and> effect_md \<noteq> md then insert (MD_id effect_md) output else output)
              in if m_num_of_tn (m_ofst_tab mdt) = 0 then Some output
                 else (let (output, find_overlapped) =
                         fold (\<lambda>tmd (output, f). if tmd = md then (output, f)
                                 else if is_overlap md tmd then (insert (MD_id tmd) output, True) else (output, f))
                           (ofst_mds mdt) (output, False)
                       in if \<not> find_overlapped then Some output else Some (insert (MD_id md) output))))"

definition computeOverlapExactMD :: "MDSystem \<Rightarrow> MD \<Rightarrow> nat set \<Rightarrow> nat set option" where
  "computeOverlapExactMD s md output =
     (case m_var2mdtab s (MD_base md) of
        None \<Rightarrow> None
      | Some mdt \<Rightarrow>
          Some (if m_num_of_tn (m_ofst_tab mdt) > 0
                then fold (\<lambda>t output. if t = md \<or> \<not> is_exact t then output
                             else if is_overlap t md then insert (MD_id t) output else output) (ofst_mds mdt) output
                else output))"

text \<open>
  The two versions over a set: into the set itself, with the list of what is added, and into another set. A set is walked
  in ascending order of the numbers.
\<close>

definition overlap_mod_step ::
  "(nat \<Rightarrow> Var) \<Rightarrow> nat set \<Rightarrow> MDSystem \<Rightarrow> nat set \<Rightarrow> nat \<Rightarrow> (MD list \<times> bool \<times> bool) option \<Rightarrow> (MD list \<times> bool \<times> bool) option" where
  "overlap_mod_step vars region s mds i st =
     (case st of None \<Rightarrow> None | Some (added, set_global, set_import_var) \<Rightarrow>
        let md = getMD s i
        in if md = 0 then None else case m_var2mdtab s (MD_base md) of None \<Rightarrow> None | Some mdt \<Rightarrow>
             let g = md_is_global vars md;
                 set_global = (set_global \<or> g);
                 set_import_var = (set_import_var \<or> \<not> g \<and> MD_base md \<notin> region);
                 effect_md = get_effect_md mdt;
                 added = (if effect_md \<noteq> 0 \<and> \<not> mdset_is_contain vars region mds effect_md then added @ [effect_md] else added);
                 added = fold (\<lambda>tmd added. if MD_id tmd \<in> mds then added
                                 else if is_overlap md tmd then added @ [tmd] else added) (ofst_mds mdt) added
             in Some (added, set_global, set_import_var))"

definition computeOverlapMod ::
  "(nat \<Rightarrow> Var) \<Rightarrow> nat set \<Rightarrow> MDSystem \<Rightarrow> nat set \<Rightarrow> bool \<Rightarrow> (nat set \<times> MD list) option" where
  "computeOverlapMod vars region s mds strictly =
     (case fold (overlap_mod_step vars region s mds) (sorted_list_of_set mds) (Some ([], False, False)) of
        None \<Rightarrow> None
      | Some (added, set_global, set_import_var) \<Rightarrow>
          let out = (if strictly \<and> set_global then insert (MD_id (getMD s MD_GLOBAL_VAR)) mds else mds);
              out = (if strictly \<and> set_import_var then insert (MD_id (getMD s MD_IMPORT_VAR)) out else out)
          in Some (fold (\<lambda>t out. insert (MD_id t) out) added out, added))"

record OverlapFlags =
  has_global :: bool
  has_import :: bool
  has_local :: bool
  has_taken_addr :: bool

definition record_category :: "(nat \<Rightarrow> Var) \<Rightarrow> nat set \<Rightarrow> MD \<Rightarrow> OverlapFlags \<Rightarrow> OverlapFlags" where
  "record_category vars region md f =
     (if md_is_global vars md then f\<lparr>has_global := True\<rparr>
      else if isImportVar region md then f\<lparr>has_import := True\<rparr>
      else (let f = f\<lparr>has_local := True\<rparr> in if md_is_taken_addr vars md then f\<lparr>has_taken_addr := True\<rparr> else f))"

definition overlap_set_step ::
  "(nat \<Rightarrow> Var) \<Rightarrow> nat set \<Rightarrow> MDSystem \<Rightarrow> nat set \<Rightarrow> nat \<Rightarrow> (nat set \<times> OverlapFlags) option \<Rightarrow> (nat set \<times> OverlapFlags) option" where
  "overlap_set_step vars region s mds i st =
     (case st of None \<Rightarrow> None | Some (output, f) \<Rightarrow>
        if isDelegate i then Some (output, f)
        else let md = getMD s i
          in if md = 0 then None else case m_var2mdtab s (MD_base md) of None \<Rightarrow> None | Some mdt \<Rightarrow>
               let f = record_category vars region md f;
                   effect_md = get_effect_md mdt;
                   output = (if effect_md \<noteq> 0 \<and> MD_id effect_md \<notin> mds then insert (MD_id effect_md) output else output);
                   output = fold (\<lambda>tmd output. if MD_id tmd \<in> mds then output
                                    else if is_overlap md tmd then insert (MD_id tmd) output else output) (ofst_mds mdt) output
               in Some (output, f))"

definition computeOverlapSet ::
  "(nat \<Rightarrow> Var) \<Rightarrow> nat set \<Rightarrow> MDSystem \<Rightarrow> nat set \<Rightarrow> nat set \<Rightarrow> bool \<Rightarrow> nat set option" where
  "computeOverlapSet vars region s mds output strictly =
     (case fold (overlap_set_step vars region s mds) (sorted_list_of_set mds)
             (Some (output, \<lparr>has_global = False, has_import = False, has_local = False, has_taken_addr = False\<rparr>)) of
        None \<Rightarrow> None
      | Some (output, f) \<Rightarrow>
          Some (if \<not> strictly then output
            else let output = (if has_global f then insert MD_GLOBAL_VAR output else output);
                     output = (if has_import f then insert MD_IMPORT_VAR output else output)
                 in if has_local f
                    then (let output = (if m_enable_local_var_delegate s then insert MD_LOCAL_VAR output else output)
                          in if has_taken_addr f then insert MD_LOCAL_MAY_ALIAS output else output)
                    else output))"

definition getDelegate :: "MDSystem \<Rightarrow> nat \<Rightarrow> MD" where
  "getDelegate s mdid =
     (if mdid = MD_FULL_MEM then m_full_mem s else if mdid = MD_GLOBAL_VAR then m_global_mem s
      else if mdid = MD_IMPORT_VAR then m_import_mem s else if mdid = MD_LOCAL_VAR then m_local_mem s
      else if mdid = MD_HEAP_MEM then m_heap_mem s else if mdid = MD_LOCAL_MAY_ALIAS then m_local_may_alias s else 0)"

definition getDelegateOf :: "(nat \<Rightarrow> Var) \<Rightarrow> nat set \<Rightarrow> MDSystem \<Rightarrow> MD \<Rightarrow> MD" where
  "getDelegateOf vars region s md =
     (if md_is_global vars md then m_global_mem s
      else if MD_base md \<notin> region then m_import_mem s
      else if md_is_taken_addr vars md then m_local_may_alias s else m_local_mem s)"

text \<open>\<open>MDSet::is_overlap_ex\<close> and \<open>diffAllOverlapped\<close>, which walk the whole set.\<close>

definition is_overlap_ex :: "(nat \<Rightarrow> Var) \<Rightarrow> nat set \<Rightarrow> MDSystem \<Rightarrow> nat set \<Rightarrow> MD \<Rightarrow> bool" where
  "is_overlap_ex vars region s mds md =
     (mdset_is_contain vars region mds md \<or> (\<exists>i\<in>mds. is_overlap (getMD s i) md))"

definition diffAllOverlapped :: "MDSystem \<Rightarrow> nat \<Rightarrow> nat set \<Rightarrow> nat set" where
  "diffAllOverlapped s mdid mds = {i \<in> mds. \<not> is_exact_cover (getMD s mdid) (getMD s i)}"

definition get_unique_md :: "MDSystem \<Rightarrow> nat set \<Rightarrow> MD" where
  "get_unique_md s mds = (if card mds = 1 then getMD s (Min mds) else 0)"

end
