(* ===== verification/MemProps.thy ===== *)
theory MemProps
  imports MemSystem
begin

text \<open>
  What holds of the registry: the invariant \<open>mds_inv\<close>, which ties the numbers to the tables of the variables, and its
  preservation; the overlap computations return exactly the registered descriptors that overlap.
\<close>

section \<open>The invariant\<close>

text \<open>Two descriptors of one variable are the same place if both are unbounded, or both bounded with one key.\<close>

definition same_place :: "MD \<Rightarrow> MD \<Rightarrow> bool" where
  "same_place a b \<longleftrightarrow> MD_base a = MD_base b \<and> (is_unbound a \<longleftrightarrow> is_unbound b) \<and> (is_unbound a \<or> md_pack a = md_pack b)"

definition registered :: "MDSystem \<Rightarrow> MD \<Rightarrow> bool" where
  "registered s e \<longleftrightarrow> m_id2md_map s (MD_id e) = Some e"

definition tab_has :: "MDTab \<Rightarrow> MD \<Rightarrow> bool" where
  "tab_has t e \<longleftrightarrow> (if is_unbound e then m_invalid_ofst_md t = e else rbt_map md_pack (m_ofst_tab t) (md_pack e) = Some (e, e))"

definition tab_inv :: "MDSystem \<Rightarrow> nat \<Rightarrow> MDTab \<Rightarrow> bool" where
  "tab_inv s v t \<longleftrightarrow> rbt_inv md_pack (m_ofst_tab t) \<and>
     (\<forall>r k x. rbt_map md_pack (m_ofst_tab t) r = Some (k, x) \<longrightarrow>
        x = k \<and> r = md_pack k \<and> MD_base k = v \<and> \<not> is_unbound k \<and> registered s k) \<and>
     (m_invalid_ofst_md t \<noteq> 0 \<longrightarrow> MD_base (m_invalid_ofst_md t) = v \<and> is_unbound (m_invalid_ofst_md t) \<and> registered s (m_invalid_ofst_md t))"

definition mds_inv :: "MDSystem \<Rightarrow> bool" where
  "mds_inv s \<longleftrightarrow> 0 < m_md_count s \<and>
     (\<forall>i e. m_id2md_map s i = Some e \<longrightarrow> MD_id e = i \<and> 0 < i \<and> i < m_md_count s \<and> i < m_id2md_len s \<and>
        (\<exists>t. m_var2mdtab s (MD_base e) = Some t \<and> tab_has t e)) \<and>
     (\<forall>v t. m_var2mdtab s v = Some t \<longrightarrow> tab_inv s v t) \<and>
     distinct (m_free_md_list s) \<and>
     (\<forall>i\<in>set (m_free_md_list s). 0 < i \<and> i < m_md_count s \<and> m_id2md_map s i = None)"

lemma md_zero [simp]: "MD_id 0 = 0" "MD_base 0 = 0" "MD_ty 0 = MD_UNBOUND"
  by (simp_all add: zero_MD_ext_def MD.defs)

lemma mds_invD:
  assumes "mds_inv s"
  shows "m_id2md_map s i = Some e \<Longrightarrow> MD_id e = i \<and> 0 < i \<and> registered s e \<and>
      (\<exists>t. m_var2mdtab s (MD_base e) = Some t \<and> tab_has t e \<and> tab_inv s (MD_base e) t)"
    and "m_var2mdtab s v = Some t \<Longrightarrow> tab_inv s v t"
  using assms unfolding mds_inv_def registered_def by metis+

lemma registered_pos: "mds_inv s \<Longrightarrow> registered s e \<Longrightarrow> e \<noteq> 0 \<and> 0 < MD_id e"
  unfolding registered_def by (metis md_zero(1) mds_invD(1) less_irrefl)

lemma kinds: "is_exact m \<or> is_range m \<longleftrightarrow> \<not> is_unbound m"
  by (cases "MD_ty m") (simp_all add: is_exact_def is_range_def is_unbound_def)

lemma mdtab_find_ok:
  assumes "tab_inv s v t"
  shows "mdtab_find t m = (if is_unbound m then m_invalid_ofst_md t
    else case rbt_map md_pack (m_ofst_tab t) (md_pack m) of None \<Rightarrow> 0 | Some (k, x) \<Rightarrow> k)"
proof -
  have i: "rbt_inv md_pack (m_ofst_tab t)" using assms by (simp add: tab_inv_def)
  show ?thesis
  proof (cases "rbt_map md_pack (m_ofst_tab t) (md_pack m)")
    case None
    then show ?thesis using offset.tmap_get_ok [OF i, of m] by (simp add: mdtab_find_def kinds)
  next
    case (Some kx)
    obtain k x where kx: "kx = (k, x)" by (cases kx)
    then have "x = k" using Some assms by (auto simp: tab_inv_def)
    then show ?thesis using Some kx offset.tmap_get_ok [OF i, of m] by (simp add: mdtab_find_def kinds)
  qed
qed

text \<open>The table of a variable finds the registered descriptor of a place, and only that.\<close>

lemma find_registered:
  assumes s: "mds_inv s" and t: "m_var2mdtab s v = Some t" and b: "MD_base m = v"
  shows "mdtab_find t m \<noteq> 0 \<Longrightarrow> registered s (mdtab_find t m) \<and> same_place m (mdtab_find t m)"
    and "registered s e \<Longrightarrow> same_place m e \<Longrightarrow> mdtab_find t m = e"
proof -
  note ti = mds_invD(2) [OF s t]
  note f = mdtab_find_ok [OF ti, of m]
  show "registered s (mdtab_find t m) \<and> same_place m (mdtab_find t m)" if n: "mdtab_find t m \<noteq> 0"
  proof (cases "is_unbound m")
    case True
    then show ?thesis using f n ti b by (simp add: tab_inv_def same_place_def)
  next
    case False
    then obtain k x where k: "rbt_map md_pack (m_ofst_tab t) (md_pack m) = Some (k, x)"
      using f n by (auto split: option.splits)
    then have "x = k \<and> md_pack m = md_pack k \<and> MD_base k = v \<and> \<not> is_unbound k \<and> registered s k"
      using ti unfolding tab_inv_def by blast
    then show ?thesis using False k f b by (simp add: same_place_def)
  qed
  show "mdtab_find t m = e" if "registered s e" "same_place m e"
  proof -
    have "tab_has t e" using mds_invD(1) [OF s, of "MD_id e" e] that t b by (simp add: registered_def same_place_def)
    then show ?thesis using f that by (auto simp: tab_has_def same_place_def)
  qed
qed

lemma registered_unique: "mds_inv s \<Longrightarrow> registered s a \<Longrightarrow> registered s b \<Longrightarrow> same_place a b \<Longrightarrow> a = b"
proof -
  assume s: "mds_inv s" "registered s a" "registered s b" "same_place a b"
  obtain t where "m_var2mdtab s (MD_base a) = Some t" using mds_invD(1) [OF s(1)] s(2) by (auto simp: registered_def)
  from find_registered(2) [OF s(1) this refl] s show ?thesis by (metis same_place_def)
qed

section \<open>Registration\<close>

lemma tab_inv_mono: "tab_inv s v t \<Longrightarrow> (\<And>e. registered s e \<Longrightarrow> registered s' e) \<Longrightarrow> tab_inv s' v t"
  by (auto simp: tab_inv_def)

lemma mdtab_append_ok:
  assumes t: "tab_inv s v t" and e: "registered s e" "MD_base e = v" "mdtab_find t e = 0"
  shows "\<exists>t'. mdtab_append e t = Some t' \<and> tab_inv s v t' \<and> tab_has t' e \<and> (\<forall>x. x \<noteq> 0 \<longrightarrow> tab_has t x \<longrightarrow> tab_has t' x)"
proof (cases "is_unbound e")
  case True
  then have n: "m_invalid_ofst_md t = 0" using mdtab_find_ok [OF t, of e] e(3) by simp
  let ?t = "t\<lparr>m_invalid_ofst_md := e\<rparr>"
  have "tab_inv s v ?t" using True t e unfolding tab_inv_def by simp
  moreover have "tab_has ?t e" using True by (simp add: tab_has_def)
  moreover have "tab_has ?t x" if "x \<noteq> 0" "tab_has t x" for x using that n by (simp add: tab_has_def split: if_splits)
  ultimately show ?thesis using True by (simp add: mdtab_append_def kinds)
next
  case False
  have i: "rbt_inv md_pack (m_ofst_tab t)" using t by (simp add: tab_inv_def)
  have n: "rbt_map md_pack (m_ofst_tab t) (md_pack e) = None"
  proof (rule ccontr)
    assume "rbt_map md_pack (m_ofst_tab t) (md_pack e) \<noteq> None"
    then obtain k x where k: "rbt_map md_pack (m_ofst_tab t) (md_pack e) = Some (k, x)" by auto
    then have "k = 0" using mdtab_find_ok [OF t, of e] e(3) False by simp
    then show False using k t unfolding tab_inv_def by (metis is_unbound_def md_zero(3))
  qed
  then have k: "stored CompareOffset md_pack (rbt_map md_pack (m_ofst_tab t)) e = e" by (simp add: stored_def CompareOffset_def)
  obtain T' where T: "setAlways CompareOffset e e (m_ofst_tab t) = Some (e, T')" "rbt_inv md_pack T'"
      "rbt_map md_pack T' = (rbt_map md_pack (m_ofst_tab t))(md_pack e \<mapsto> (e, e))"
    using offset.setAlways_ok [OF i, of e e] k by auto
  have "tab_inv s v (t\<lparr>m_ofst_tab := T'\<rparr>)" using t T(2,3) e(1,2) False by (auto simp: tab_inv_def)
  moreover have "tab_has (t\<lparr>m_ofst_tab := T'\<rparr>) x" if "tab_has t x" for x
    using that n T(3) by (auto simp: tab_has_def)
  moreover have "tab_has (t\<lparr>m_ofst_tab := T'\<rparr>) e" using T(3) False by (simp add: tab_has_def)
  ultimately show ?thesis using T(1) False by (simp add: mdtab_append_def kinds)
qed

lemma tab_init: "tab_inv s v mdtab_init" "mdtab_find mdtab_init e = 0"
  by (simp_all add: tab_inv_def mdtab_init_def rbt_init_ok mdtab_find_def offset.tmap_get_ok [OF rbt_init_ok(1)])

lemma md_id_upd [simp]:
  "md_pack (m\<lparr>MD_id := i\<rparr>) = md_pack m" "is_unbound (m\<lparr>MD_id := i\<rparr>) = is_unbound m"
  "is_exact (m\<lparr>MD_id := i\<rparr>) = is_exact m" "is_range (m\<lparr>MD_id := i\<rparr>) = is_range m"
  "same_place m (m\<lparr>MD_id := i\<rparr>)" "mdtab_find t (m\<lparr>MD_id := i\<rparr>) = mdtab_find t m"
proof -
  show r: "is_range (m\<lparr>MD_id := i\<rparr>) = is_range m" for m i by (simp add: is_range_def)
  show p: "md_pack (m\<lparr>MD_id := i\<rparr>) = md_pack m" for m i by (simp add: md_pack_def r)
  show u: "is_unbound (m\<lparr>MD_id := i\<rparr>) = is_unbound m" "is_exact (m\<lparr>MD_id := i\<rparr>) = is_exact m" for m i
    by (simp_all add: is_unbound_def is_exact_def)
  show "same_place m (m\<lparr>MD_id := i\<rparr>)" by (simp add: same_place_def p u)
  have "find_with_key CompareOffset (m\<lparr>MD_id := i\<rparr>) x = find_with_key CompareOffset m x" for x :: "(MD, MD) RBTNode"
    by (induction x) (simp_all add: CompareOffset_def p)
  then show "mdtab_find t (m\<lparr>MD_id := i\<rparr>) = mdtab_find t m"
    by (simp add: mdtab_find_def tmap_get_def find_rbtn_def r u)
qed

lemma alloc_ok:
  assumes "mds_inv s"
  obtains i s1 where
    "(case allocMD s of (i, s) \<Rightarrow> if i = MD_UNDEF then (m_md_count s, s\<lparr>m_md_count := m_md_count s + 1\<rparr>) else (i, s)) = (i, s1)"
    "0 < i" "i < m_md_count s1" "i \<notin> set (m_free_md_list s1)" "m_id2md_map s i = None" "mds_inv s1"
    "m_id2md_map s1 = m_id2md_map s" "m_var2mdtab s1 = m_var2mdtab s"
proof (cases "m_free_md_list s")
  case Nil
  have inv: "mds_inv (s\<lparr>m_md_count := m_md_count s + 1\<rparr>)"
    using assms by (fastforce simp: mds_inv_def tab_inv_def registered_def)
  have "m_id2md_map s (m_md_count s) = None"
  proof (rule ccontr)
    assume "m_id2md_map s (m_md_count s) \<noteq> None"
    then obtain e where "m_id2md_map s (m_md_count s) = Some e" by auto
    then show False using assms unfolding mds_inv_def by blast
  qed
  then show thesis using Nil inv assms by (intro that [of "m_md_count s" "s\<lparr>m_md_count := m_md_count s + 1\<rparr>"])
      (simp_all add: allocMD_def md_ids mds_inv_def)
next
  case (Cons i js)
  have "mds_inv (s\<lparr>m_free_md_list := js\<rparr>)"
    using assms Cons by (fastforce simp: mds_inv_def tab_inv_def registered_def)
  moreover have "0 < i" "i < m_md_count s" "i \<notin> set js" "m_id2md_map s i = None"
    using assms Cons by (auto simp: mds_inv_def)
  ultimately show thesis using Cons by (intro that [of i "s\<lparr>m_free_md_list := js\<rparr>"]) (simp_all add: allocMD_def md_ids)
qed

lemma newMD_ok:
  assumes s: "mds_inv s" and n: "\<And>t. m_var2mdtab s (MD_base m) = Some t \<Longrightarrow> mdtab_find t m = 0"
  shows "\<exists>e s'. newMD m s = Some (e, s') \<and> mds_inv s' \<and> e = m\<lparr>MD_id := MD_id e\<rparr> \<and> m_id2md_map s (MD_id e) = None \<and>
    0 < MD_id e \<and> m_id2md_map s' = (m_id2md_map s)(MD_id e \<mapsto> e)"
proof -
  obtain i s1 where a: "(case allocMD s of (i, s) \<Rightarrow> if i = MD_UNDEF then (m_md_count s, s\<lparr>m_md_count := m_md_count s + 1\<rparr>) else (i, s)) = (i, s1)"
    "0 < i" "i < m_md_count s1" "i \<notin> set (m_free_md_list s1)" "m_id2md_map s i = None" "mds_inv s1"
    "m_id2md_map s1 = m_id2md_map s" "m_var2mdtab s1 = m_var2mdtab s"
    by (rule alloc_ok [OF s]) blast
  define e where "e = m\<lparr>MD_id := i\<rparr>"
  have e: "MD_id e = i" "MD_base e = MD_base m" by (simp_all add: e_def)
  define t where "t = (case m_var2mdtab s (MD_base m) of None \<Rightarrow> mdtab_init | Some t \<Rightarrow> t)"
  define s2 where "s2 = id2md_set i e s1"
  have reg: "registered s1 x \<Longrightarrow> registered s2 x" for x
    using a(5,7) by (auto simp: registered_def s2_def id2md_set_def)
  have re: "registered s2 e" using e by (simp add: registered_def s2_def id2md_set_def)
  have ti: "tab_inv s2 (MD_base e) t"
    using tab_inv_mono [OF mds_invD(2) [OF a(6)] reg] a(8) tab_init(1) e(2)
    by (cases "m_var2mdtab s (MD_base m)") (simp_all add: t_def)
  have "mdtab_find t e = 0" using n tab_init(2) [of m] by (auto simp: e_def t_def split: option.split)
  then obtain t' where t': "mdtab_append e t = Some t'" "tab_inv s2 (MD_base e) t'" "tab_has t' e"
      "\<And>x. x \<noteq> 0 \<Longrightarrow> tab_has t x \<Longrightarrow> tab_has t' x"
    using mdtab_append_ok [OF ti re refl] by blast
  define s3 where "s3 = id2md_set i e (s1\<lparr>m_var2mdtab := (m_var2mdtab s1)(MD_base e \<mapsto> t')\<rparr>)"
  have new: "newMD m s = Some (e, s3)"
    using a(1,8) t'(1) by (simp add: newMD_def Let_def e_def [symmetric] e t_def s3_def case_prod_unfold)
  have r3: "registered s3 = registered s2" by (simp add: registered_def s3_def s2_def id2md_set_def fun_eq_iff)
  have t3: "tab_inv s3 = tab_inv s2" by (simp add: tab_inv_def r3 fun_eq_iff)
  have map3: "m_id2md_map s3 = (m_id2md_map s)(i \<mapsto> e)" by (simp add: s3_def id2md_set_def a(7))
  have "mds_inv s3"
    unfolding mds_inv_def
  proof (intro conjI allI impI ballI)
    show "0 < m_md_count s3" using a(2,3) by (simp add: s3_def id2md_set_def)
    show "distinct (m_free_md_list s3)" using a(6) by (simp add: s3_def id2md_set_def mds_inv_def)
    fix j
    show "0 < j" "j < m_md_count s3" "m_id2md_map s3 j = None" if "j \<in> set (m_free_md_list s3)"
      using that a(4,6,7) by (auto simp: s3_def id2md_set_def mds_inv_def)
  next
    fix v u assume "m_var2mdtab s3 v = Some u"
    then show "tab_inv s3 v u" using t'(2) t3 mds_invD(2) [OF a(6)] reg
      by (auto simp: s3_def id2md_set_def intro: tab_inv_mono split: if_splits)
  next
    fix j x assume j: "m_id2md_map s3 j = Some x"
    show "MD_id x = j" "0 < j" "j < m_md_count s3" "j < m_id2md_len s3" "\<exists>u. m_var2mdtab s3 (MD_base x) = Some u \<and> tab_has u x"
    proof -
      show "MD_id x = j" "0 < j" "j < m_md_count s3" "j < m_id2md_len s3"
        using j a(2,3) a(6) a(7) e by (auto simp: map3 s3_def id2md_set_def mds_inv_def less_max_iff_disj split: if_splits)
      show "\<exists>u. m_var2mdtab s3 (MD_base x) = Some u \<and> tab_has u x"
      proof (cases "j = i")
        case True
        then show ?thesis using j t'(3) map3 by (auto simp: s3_def id2md_set_def)
      next
        case False
        then have "m_id2md_map s1 j = Some x" using j map3 a(7) by simp
        then obtain u where u: "m_var2mdtab s1 (MD_base x) = Some u" "tab_has u x" "registered s1 x"
          using mds_invD(1) [OF a(6)] by blast
        have "x \<noteq> 0" using registered_pos [OF a(6) u(3)] by simp
        then show ?thesis using u t'(4) e(2) a(8) by (auto simp: s3_def id2md_set_def t_def)
      qed
    qed
  qed
  then show ?thesis using new a(2,5) e map3 by (auto simp: e_def)
qed

lemma registerMD_ok:
  assumes s: "mds_inv s" and m: "MD_id m = MD_UNDEF"
  shows "\<exists>e s'. registerMD m s = Some (e, s') \<and> mds_inv s' \<and> registered s' e \<and> same_place m e \<and>
    (if \<exists>x. registered s x \<and> same_place m x then s' = s
     else e = m\<lparr>MD_id := MD_id e\<rparr> \<and> m_id2md_map s (MD_id e) = None \<and> 0 < MD_id e \<and> m_id2md_map s' = (m_id2md_map s)(MD_id e \<mapsto> e))"
proof (cases "\<exists>x. registered s x \<and> same_place m x")
  case True
  then obtain x where x: "registered s x" "same_place m x" by blast
  then obtain t where t: "m_var2mdtab s (MD_base m) = Some t"
    using mds_invD(1) [OF s, of "MD_id x" x] by (auto simp: registered_def same_place_def)
  have "mdtab_find t m = x" "x \<noteq> 0" using find_registered(2) [OF s t refl x] registered_pos [OF s x(1)] by simp_all
  then show ?thesis using t x m s True by (auto simp: registerMD_def md_ids)
next
  case False
  have n: "mdtab_find t m = 0" if t: "m_var2mdtab s (MD_base m) = Some t" for t
    using find_registered(1) [OF s t refl] False by blast
  obtain e s' where e: "newMD m s = Some (e, s')" "mds_inv s'" "e = m\<lparr>MD_id := MD_id e\<rparr>" "m_id2md_map s (MD_id e) = None"
    "0 < MD_id e" "m_id2md_map s' = (m_id2md_map s)(MD_id e \<mapsto> e)"
    using newMD_ok [OF s n] by blast
  have "registerMD m s = newMD m s" using n m by (auto simp: registerMD_def md_ids split: option.split)
  moreover have "same_place m e" using e(3) md_id_upd(5) [of m "MD_id e"] by simp
  moreover have "registered s' e" by (simp add: registered_def e(6))
  ultimately show ?thesis using e False by auto
qed

section \<open>Overlap\<close>

lemma ofst_mds_set:
  assumes s: "mds_inv s" and t: "m_var2mdtab s v = Some t"
  shows "set (ofst_mds t) = {e. registered s e \<and> MD_base e = v \<and> \<not> is_unbound e}"
proof -
  note ti = mds_invD(2) [OF s t]
  have i: "rbt_inv md_pack (m_ofst_tab t)" using ti by (simp add: tab_inv_def)
  have d: "distinct (map fst (tag md_pack (rbt_pairs (m_ofst_tab t))))"
    using offset.pairs_distinct [OF i] by (simp add: tag_def comp_def case_prod_unfold)
  have m: "(k, x) \<in> set (rbt_pairs (m_ofst_tab t)) \<longleftrightarrow> rbt_map md_pack (m_ofst_tab t) (md_pack k) = Some (k, x)" for k x
    using map_of_eq_Some_iff [OF d, of "md_pack k" "(k, x)"] offset.pairs_map [OF i] by (auto simp: tag_def)
  have "(\<exists>x. rbt_map md_pack (m_ofst_tab t) (md_pack e) = Some (e, x)) \<longleftrightarrow> registered s e \<and> MD_base e = v \<and> \<not> is_unbound e" for e
  proof
    assume "\<exists>x. rbt_map md_pack (m_ofst_tab t) (md_pack e) = Some (e, x)"
    then show "registered s e \<and> MD_base e = v \<and> \<not> is_unbound e" using ti unfolding tab_inv_def by blast
  next
    assume e: "registered s e \<and> MD_base e = v \<and> \<not> is_unbound e"
    then have "tab_has t e" using mds_invD(1) [OF s, of "MD_id e" e] t by (auto simp: registered_def)
    then show "\<exists>x. rbt_map md_pack (m_ofst_tab t) (md_pack e) = Some (e, x)" using e by (simp add: tab_has_def)
  qed
  moreover have "e \<in> set (ofst_mds t) \<longleftrightarrow> (\<exists>x. (e, x) \<in> set (rbt_pairs (m_ofst_tab t)))" for e
    by (force simp: ofst_mds_def)
  ultimately show ?thesis using m by auto
qed

lemma effect_set:
  assumes s: "mds_inv s" and t: "m_var2mdtab s v = Some t"
  shows "get_effect_md t \<noteq> 0 \<Longrightarrow> registered s (get_effect_md t) \<and> MD_base (get_effect_md t) = v \<and> is_unbound (get_effect_md t)"
    and "registered s e \<Longrightarrow> MD_base e = v \<Longrightarrow> is_unbound e \<Longrightarrow> get_effect_md t = e \<and> e \<noteq> 0"
  using mds_invD(2) [OF s t] mds_invD(1) [OF s, of "MD_id e" e] registered_pos [OF s, of e] t
  by (auto simp: tab_inv_def get_effect_md_def registered_def tab_has_def)

text \<open>The descriptors that share the variable and a byte with \<open>md\<close>, as the code tests it.\<close>

definition overlapping :: "MDSystem \<Rightarrow> MD \<Rightarrow> MD set" where
  "overlapping s md = {e. registered s e \<and> is_overlap md e}"

lemma overlapping_split:
  assumes s: "mds_inv s" and t: "m_var2mdtab s (MD_base md) = Some t"
  shows "e \<in> overlapping s md \<longleftrightarrow> e \<in> set (ofst_mds t) \<and> is_overlap md e \<or> e = get_effect_md t \<and> e \<noteq> 0"
proof (cases "is_unbound e")
  case True
  then show ?thesis using effect_set [OF s t] ofst_mds_set [OF s t]
    by (auto simp: overlapping_def is_overlap_def is_unbound_def split: if_splits)
next
  case False
  then show ?thesis using effect_set(1) [OF s t] ofst_mds_set [OF s t]
    by (auto simp: overlapping_def is_overlap_def split: if_splits)
qed

lemma fold_add: "fold (\<lambda>x out. if P x then out else if Q x then insert (g x) out else out) xs out = out \<union> g ` {x \<in> set xs. \<not> P x \<and> Q x}"
  by (induction xs arbitrary: out) auto

lemma fold_add_flag:
  "fold (\<lambda>x (out, f). if P x then (out, f) else if Q x then (insert (g x) out, True) else (out, f)) xs (out, f) =
   (out \<union> g ` {x \<in> set xs. \<not> P x \<and> Q x}, f \<or> (\<exists>x\<in>set xs. \<not> P x \<and> Q x))"
  by (induction xs arbitrary: out f) auto

lemma fold_append: "set (fold (\<lambda>x a. if P x then a else if Q x then a @ [x] else a) xs a) = set a \<union> {x \<in> set xs. \<not> P x \<and> Q x}"
  by (induction xs arbitrary: a) auto

lemma registered_tab: "mds_inv s \<Longrightarrow> registered s md \<Longrightarrow> \<exists>t. m_var2mdtab s (MD_base md) = Some t"
  using mds_invD(1) [of s "MD_id md" md] by (auto simp: registered_def)

lemma no_elems: "rbt_inv rank T \<Longrightarrow> m_num_of_tn T = 0 \<Longrightarrow> rbt_pairs T = []"
  by (simp add: rbt_inv_def rbt_pairs_def rbt_get_first_def rbt_visit.simps iter_end_def)

lemma computeOverlapMD_ok:
  assumes s: "mds_inv s" and md: "registered s md"
  shows "computeOverlapMD vars region s md output strictly =
    Some ((if strictly then addDelegate vars region s md output else output) \<union> MD_id ` (overlapping s md - {md}) \<union>
      (if \<exists>e\<in>overlapping s md - {md}. \<not> is_unbound e then {MD_id md} else {}))"
proof -
  obtain t where t: "m_var2mdtab s (MD_base md) = Some t" using registered_tab [OF s md] by blast
  have z: "ofst_mds t = []" if "m_num_of_tn (m_ofst_tab t) = 0"
    using no_elems that mds_invD(2) [OF s t] by (auto simp: ofst_mds_def tab_inv_def)
  have b: "\<And>e. e \<in> set (ofst_mds t) \<Longrightarrow> \<not> is_unbound e" using ofst_mds_set [OF s t] by simp
  have e: "(\<exists>e\<in>overlapping s md - {md}. \<not> is_unbound e) \<longleftrightarrow> (\<exists>e\<in>set (ofst_mds t). e \<noteq> md \<and> is_overlap md e)"
    using overlapping_split [OF s t] effect_set(1) [OF s t] b by blast
  have i: "MD_id ` (overlapping s md - {md}) = MD_id ` {e \<in> set (ofst_mds t). e \<noteq> md \<and> is_overlap md e} \<union>
      (if get_effect_md t \<noteq> 0 \<and> get_effect_md t \<noteq> md then {MD_id (get_effect_md t)} else {})"
    using overlapping_split [OF s t] by (auto simp: image_def)
  show ?thesis
    using z t by (auto simp: computeOverlapMD_def Let_def fold_add_flag e i)
qed

lemma computeOverlapExactMD_ok:
  assumes s: "mds_inv s" and md: "registered s md"
  shows "computeOverlapExactMD s md output = Some (output \<union> MD_id ` {e \<in> overlapping s md. e \<noteq> md \<and> is_exact e})"
proof -
  obtain t where t: "m_var2mdtab s (MD_base md) = Some t" using registered_tab [OF s md] by blast
  have z: "ofst_mds t = []" if "m_num_of_tn (m_ofst_tab t) = 0"
    using no_elems that mds_invD(2) [OF s t] by (auto simp: ofst_mds_def tab_inv_def)
  have sym: "is_overlap e md = is_overlap md e" for e by (auto simp: is_overlap_def)
  have "e \<in> set (ofst_mds t) \<longleftrightarrow> registered s e" if "is_exact e" "is_overlap md e" for e
    using ofst_mds_set [OF s t] that by (auto simp: is_exact_def is_unbound_def is_overlap_def split: if_splits)
  then have e: "{e \<in> set (ofst_mds t). \<not> (e = md \<or> \<not> is_exact e) \<and> is_overlap e md} = {e \<in> overlapping s md. e \<noteq> md \<and> is_exact e}"
    by (auto simp: overlapping_def sym)
  have "computeOverlapExactMD s md output = Some (output \<union> MD_id ` {e \<in> set (ofst_mds t). \<not> (e = md \<or> \<not> is_exact e) \<and> is_overlap e md})"
    using z t by (simp add: computeOverlapExactMD_def fold_add)
  then show ?thesis by (simp only: e)
qed

end
