(* ===== verification/MemSets.thy ===== *)
theory MemSets
  imports MemProps
begin

text \<open>
  The overlap of whole sets of descriptors, and what freeing the descriptors of a variable leaves.
\<close>

section \<open>Overlap of sets\<close>

lemma getMD_ok: "mds_inv s \<Longrightarrow> i \<in> dom (m_id2md_map s) \<Longrightarrow> registered s (getMD s i) \<and> MD_id (getMD s i) = i \<and> getMD s i \<noteq> 0"
  using mds_invD(1) [of s i] registered_pos [of s] by (fastforce simp: getMD_def registered_def)

definition categories :: "(nat \<Rightarrow> Var) \<Rightarrow> nat set \<Rightarrow> MD list \<Rightarrow> OverlapFlags \<Rightarrow> OverlapFlags" where
  "categories vars region mdl f = fold (record_category vars region) mdl f"

lemma overlap_set_fold:
  assumes s: "mds_inv s"
  shows "set js \<subseteq> dom (m_id2md_map s) \<Longrightarrow>
    fold (overlap_set_step vars region s mds) js (Some (out, f)) =
    Some (out \<union> MD_id ` {e. MD_id e \<notin> mds \<and> (\<exists>i\<in>set js. \<not> isDelegate i \<and> e \<in> overlapping s (getMD s i))},
      categories vars region (map (getMD s) (filter (\<lambda>i. \<not> isDelegate i) js)) f)"
proof (induction js arbitrary: out f)
  case (Cons i js)
  show ?case
  proof (cases "isDelegate i")
    case True
    then have "fold (overlap_set_step vars region s mds) (i # js) (Some (out, f)) =
        fold (overlap_set_step vars region s mds) js (Some (out, f))" by (simp add: overlap_set_step_def)
    then show ?thesis using Cons True by auto
  next
    case False
    note g = getMD_ok [OF s, of i]
    have i: "registered s (getMD s i)" "getMD s i \<noteq> 0" using g Cons.prems by auto
    obtain t where t: "m_var2mdtab s (MD_base (getMD s i)) = Some t" using registered_tab [OF s i(1)] by blast
    let ?A = "MD_id ` {e. MD_id e \<notin> mds \<and> e \<in> overlapping s (getMD s i)}"
    have e: "?A = MD_id ` {e \<in> set (ofst_mds t). MD_id e \<notin> mds \<and> is_overlap (getMD s i) e} \<union>
        (if get_effect_md t \<noteq> 0 \<and> MD_id (get_effect_md t) \<notin> mds then {MD_id (get_effect_md t)} else {})"
      unfolding overlapping_split [OF s t] by (auto simp: image_def)
    have "overlap_set_step vars region s mds i (Some (out, f)) = Some (out \<union> ?A, record_category vars region (getMD s i) f)"
      using i(2) t False unfolding e by (auto simp: overlap_set_step_def Let_def fold_add)
    then have "fold (overlap_set_step vars region s mds) (i # js) (Some (out, f)) =
        fold (overlap_set_step vars region s mds) js (Some (out \<union> ?A, record_category vars region (getMD s i) f))"
      by (simp only: fold_simps)
    then show ?thesis using Cons False by (auto simp: categories_def)
  qed
qed (simp add: categories_def)

lemma categories_flags:
  "categories vars region mdl f =
   \<lparr>has_global = (has_global f \<or> (\<exists>m\<in>set mdl. md_is_global vars m)),
    has_import = (has_import f \<or> (\<exists>m\<in>set mdl. \<not> md_is_global vars m \<and> isImportVar region m)),
    has_local = (has_local f \<or> (\<exists>m\<in>set mdl. \<not> md_is_global vars m \<and> \<not> isImportVar region m)),
    has_taken_addr = (has_taken_addr f \<or> (\<exists>m\<in>set mdl. \<not> md_is_global vars m \<and> \<not> isImportVar region m \<and> md_is_taken_addr vars m))\<rparr>"
  by (induction mdl arbitrary: f) (auto simp: categories_def record_category_def Let_def)

lemma addDelegate_iff:
  "x \<in> addDelegate vars region s m {} \<longleftrightarrow> md_is_global vars m \<and> x = MD_GLOBAL_VAR \<or>
     (\<not> md_is_global vars m \<and> isImportVar region m) \<and> x = MD_IMPORT_VAR \<or>
     (\<not> md_is_global vars m \<and> \<not> isImportVar region m) \<and> m_enable_local_var_delegate s \<and> x = MD_LOCAL_VAR \<or>
     (\<not> md_is_global vars m \<and> \<not> isImportVar region m \<and> md_is_taken_addr vars m) \<and> x = MD_LOCAL_MAY_ALIAS"
  by (auto simp: addDelegate_def Let_def split: if_splits)

lemma union_of_ifs:
  "{x. \<exists>j\<in>J. N j \<and> (A (h j) \<and> x = a \<or> B (h j) \<and> x = b \<or> C (h j) \<and> l \<and> x = c \<or> D (h j) \<and> x = d)} =
   (if \<exists>j\<in>J. N j \<and> A (h j) then {a} else {}) \<union> (if \<exists>j\<in>J. N j \<and> B (h j) then {b} else {}) \<union>
   (if (\<exists>j\<in>J. N j \<and> C (h j)) \<and> l then {c} else {}) \<union> (if \<exists>j\<in>J. N j \<and> D (h j) then {d} else {})"
  by (rule set_eqI) (simp; blast)

lemma computeOverlapSet_ok:
  assumes s: "mds_inv s" and mds: "mds \<subseteq> dom (m_id2md_map s)" "finite mds"
  shows "computeOverlapSet vars region s mds output strictly =
    Some (output \<union> MD_id ` {e. MD_id e \<notin> mds \<and> (\<exists>i\<in>mds. \<not> isDelegate i \<and> e \<in> overlapping s (getMD s i))} \<union>
      (if strictly then (\<Union>i\<in>{i\<in>mds. \<not> isDelegate i}. addDelegate vars region s (getMD s i) {}) else {}))"
proof -
  let ?g = "\<lambda>f. \<exists>i\<in>mds. \<not> isDelegate i \<and> f (getMD s i)"
  let ?f = "categories vars region (map (getMD s) (filter (\<lambda>i. \<not> isDelegate i) (sorted_list_of_set mds)))
      \<lparr>has_global = False, has_import = False, has_local = False, has_taken_addr = False\<rparr>"
  have f: "has_global ?f = ?g (md_is_global vars)" "has_import ?f = ?g (\<lambda>m. \<not> md_is_global vars m \<and> isImportVar region m)"
    "has_local ?f = ?g (\<lambda>m. \<not> md_is_global vars m \<and> \<not> isImportVar region m)"
    "has_taken_addr ?f = ?g (\<lambda>m. \<not> md_is_global vars m \<and> \<not> isImportVar region m \<and> md_is_taken_addr vars m)"
    using mds(2) by (auto simp: categories_flags)
  let ?d = "\<Union>i\<in>{i\<in>mds. \<not> isDelegate i}. addDelegate vars region s (getMD s i) {}"
  have d: "?d = (if has_global ?f then {MD_GLOBAL_VAR} else {}) \<union> (if has_import ?f then {MD_IMPORT_VAR} else {}) \<union>
      (if has_local ?f \<and> m_enable_local_var_delegate s then {MD_LOCAL_VAR} else {}) \<union>
      (if has_local ?f \<and> has_taken_addr ?f then {MD_LOCAL_MAY_ALIAS} else {})"
  proof -
    have "?d = {x. \<exists>j\<in>mds. \<not> isDelegate j \<and> x \<in> addDelegate vars region s (getMD s j) {}}" by blast
    also have "\<dots> = (if ?g (md_is_global vars) then {MD_GLOBAL_VAR} else {}) \<union>
        (if ?g (\<lambda>m. \<not> md_is_global vars m \<and> isImportVar region m) then {MD_IMPORT_VAR} else {}) \<union>
        (if ?g (\<lambda>m. \<not> md_is_global vars m \<and> \<not> isImportVar region m) \<and> m_enable_local_var_delegate s then {MD_LOCAL_VAR} else {}) \<union>
        (if ?g (\<lambda>m. \<not> md_is_global vars m \<and> \<not> isImportVar region m \<and> md_is_taken_addr vars m) then {MD_LOCAL_MAY_ALIAS} else {})"
      unfolding addDelegate_iff by (rule union_of_ifs)
    finally show ?thesis unfolding f by auto
  qed
  have r: "fold (overlap_set_step vars region s mds) (sorted_list_of_set mds)
      (Some (output, \<lparr>has_global = False, has_import = False, has_local = False, has_taken_addr = False\<rparr>)) =
      Some (output \<union> MD_id ` {e. MD_id e \<notin> mds \<and> (\<exists>i\<in>mds. \<not> isDelegate i \<and> e \<in> overlapping s (getMD s i))}, ?f)"
    using overlap_set_fold [OF s, of "sorted_list_of_set mds"] mds by simp
  define F where "F = ?f"
  define X where "X = output \<union> MD_id ` {e. MD_id e \<notin> mds \<and> (\<exists>i\<in>mds. \<not> isDelegate i \<and> e \<in> overlapping s (getMD s i))}"
  show ?thesis unfolding computeOverlapSet_def r d F_def [symmetric] X_def [symmetric]
    by (cases strictly; cases "has_global F"; cases "has_import F"; cases "has_local F"; cases "has_taken_addr F";
        cases "m_enable_local_var_delegate s"; simp add: insert_commute)
qed

lemma overlap_mod_fold:
  assumes s: "mds_inv s"
  shows "set js \<subseteq> dom (m_id2md_map s) \<Longrightarrow>
    \<exists>added' g m. fold (overlap_mod_step vars region s mds) js (Some (added, g0, m0)) = Some (added', g, m) \<and>
      set added' = set added \<union> {e. (if is_unbound e then \<not> mdset_is_contain vars region mds e else MD_id e \<notin> mds) \<and>
        (\<exists>i\<in>set js. e \<in> overlapping s (getMD s i))} \<and>
      (g \<longleftrightarrow> g0 \<or> (\<exists>i\<in>set js. md_is_global vars (getMD s i))) \<and>
      (m \<longleftrightarrow> m0 \<or> (\<exists>i\<in>set js. \<not> md_is_global vars (getMD s i) \<and> MD_base (getMD s i) \<notin> region))"
proof (induction js arbitrary: added g0 m0)
  case (Cons i js)
  note g = getMD_ok [OF s, of i]
  have i: "registered s (getMD s i)" "getMD s i \<noteq> 0" using g Cons.prems by auto
  obtain t where t: "m_var2mdtab s (MD_base (getMD s i)) = Some t" using registered_tab [OF s i(1)] by blast
  let ?ok = "\<lambda>e. if is_unbound e then \<not> mdset_is_contain vars region mds e else MD_id e \<notin> mds"
  define a where "a = fold (\<lambda>tmd added. if MD_id tmd \<in> mds then added else if is_overlap (getMD s i) tmd then added @ [tmd] else added)
    (ofst_mds t) (if get_effect_md t \<noteq> 0 \<and> \<not> mdset_is_contain vars region mds (get_effect_md t) then added @ [get_effect_md t] else added)"
  have st: "overlap_mod_step vars region s mds i (Some (added, g0, m0)) =
      Some (a, g0 \<or> md_is_global vars (getMD s i), m0 \<or> \<not> md_is_global vars (getMD s i) \<and> MD_base (getMD s i) \<notin> region)"
    using i(2) t by (simp add: overlap_mod_step_def Let_def a_def)
  have b: "e \<in> set (ofst_mds t) \<Longrightarrow> \<not> is_unbound e" for e using ofst_mds_set [OF s t] by simp
  have "set a = set added \<union> {e. ?ok e \<and> e \<in> overlapping s (getMD s i)}"
    unfolding overlapping_split [OF s t] using b effect_set(1) [OF s t] by (auto simp: a_def fold_append)
  then show ?case using Cons.IH [of a "g0 \<or> md_is_global vars (getMD s i)" "m0 \<or> \<not> md_is_global vars (getMD s i) \<and> MD_base (getMD s i) \<notin> region"]
      Cons.prems by (fastforce simp: st)
qed auto

lemma computeOverlapMod_ok:
  assumes s: "mds_inv s" and mds: "mds \<subseteq> dom (m_id2md_map s)" "finite mds"
  shows "\<exists>added. computeOverlapMod vars region s mds strictly =
      Some (mds \<union> MD_id ` set added \<union>
        (if strictly \<and> (\<exists>i\<in>mds. md_is_global vars (getMD s i)) then {MD_id (getMD s MD_GLOBAL_VAR)} else {}) \<union>
        (if strictly \<and> (\<exists>i\<in>mds. \<not> md_is_global vars (getMD s i) \<and> MD_base (getMD s i) \<notin> region) then {MD_id (getMD s MD_IMPORT_VAR)} else {}),
       added) \<and>
    set added = {e. (if is_unbound e then \<not> mdset_is_contain vars region mds e else MD_id e \<notin> mds) \<and> (\<exists>i\<in>mds. e \<in> overlapping s (getMD s i))}"
proof -
  obtain added g m where r: "fold (overlap_mod_step vars region s mds) (sorted_list_of_set mds) (Some ([], False, False)) = Some (added, g, m)"
    and a: "set added = {e. (if is_unbound e then \<not> mdset_is_contain vars region mds e else MD_id e \<notin> mds) \<and> (\<exists>i\<in>mds. e \<in> overlapping s (getMD s i))}"
    and g: "g \<longleftrightarrow> (\<exists>i\<in>mds. md_is_global vars (getMD s i))"
    and m: "m \<longleftrightarrow> (\<exists>i\<in>mds. \<not> md_is_global vars (getMD s i) \<and> MD_base (getMD s i) \<notin> region)"
    using overlap_mod_fold [OF s, of "sorted_list_of_set mds" vars region mds "[]" False False] mds(1)
    by (simp only: set_sorted_list_of_set [OF mds(2)] list.set(1) Un_empty_left simp_thms) blast
  have f: "fold (\<lambda>t out. insert (MD_id t) out) xs X = X \<union> MD_id ` set xs" for xs X
    by (induction xs arbitrary: X) auto
  show ?thesis
    by (rule exI [of _ added]) (simp add: computeOverlapMod_def r f a flip: g m, simp add: insert_commute)
qed

section \<open>Freeing\<close>

lemma fold_free:
  "distinct (map MD_id L) \<Longrightarrow> \<forall>md\<in>set L. registered s md \<and> md \<noteq> 0 \<Longrightarrow>
   fold (\<lambda>md s. freeMD (getMD s (MD_id md)) s) L s =
   s\<lparr>m_id2md_map := m_id2md_map s |` (- MD_id ` set L), m_free_md_list := rev (map MD_id L) @ m_free_md_list s\<rparr>"
proof (induction L arbitrary: s)
  case (Cons md L)
  have g: "getMD s (MD_id md) = md" "md \<noteq> 0" using Cons.prems(2) by (simp_all add: getMD_def registered_def)
  let ?s = "s\<lparr>m_id2md_map := (m_id2md_map s)(MD_id md := None), m_free_md_list := MD_id md # m_free_md_list s\<rparr>"
  have "MD_id x \<noteq> MD_id md" if "x \<in> set L" for x using Cons.prems(1) that by (auto simp: image_iff)
  then have "\<forall>x\<in>set L. registered ?s x \<and> x \<noteq> 0" using Cons.prems(2) by (simp add: registered_def)
  moreover have "(\<lambda>a. if a = MD_id md then None else m_id2md_map s a) |` (- MD_id ` set L) = m_id2md_map s |` (- insert (MD_id md) (MD_id ` set L))"
    by (rule ext) (simp add: restrict_map_def)
  moreover have "freeMD (getMD s (MD_id md)) s = ?s" using g by (simp add: freeMD_def)
  moreover have "distinct (map MD_id L)" using Cons.prems(1) by simp
  ultimately show ?case using Cons.IH [of ?s] by (simp only: fold_simps) simp
qed (simp add: restrict_map_def)

lemma registered_range: "mds_inv s \<Longrightarrow> registered s e \<Longrightarrow> 0 < MD_id e \<and> MD_id e < m_md_count s \<and> MD_id e \<notin> set (m_free_md_list s)"
  unfolding mds_inv_def registered_def by (metis option.distinct(1))

lemma registered_inj: "registered s x \<Longrightarrow> registered s y \<Longrightarrow> MD_id x = MD_id y \<Longrightarrow> x = y"
  by (simp add: registered_def)

lemma ofst_mds_distinct: "mds_inv s \<Longrightarrow> m_var2mdtab s v = Some t \<Longrightarrow> distinct (map MD_id (ofst_mds t))"
proof -
  assume s: "mds_inv s" and t: "m_var2mdtab s v = Some t"
  have i: "rbt_inv md_pack (m_ofst_tab t)" using mds_invD(2) [OF s t] by (simp add: tab_inv_def)
  have "map md_pack (ofst_mds t) = map (\<lambda>(k, v). md_pack k) (rbt_pairs (m_ofst_tab t))"
    by (simp add: ofst_mds_def comp_def case_prod_unfold)
  then have "distinct (map md_pack (ofst_mds t))" using offset.pairs_distinct [OF i] by simp
  then have d: "distinct (ofst_mds t)" by (simp add: distinct_map)
  moreover have "inj_on MD_id (set (ofst_mds t))"
    unfolding ofst_mds_set [OF s t] by (rule inj_onI) (blast intro: registered_inj)
  ultimately show ?thesis by (simp add: distinct_map)
qed

lemma removeMDforVAR_ok:
  assumes s: "mds_inv s"
  shows "mds_inv (removeMDforVAR v s)" and "registered (removeMDforVAR v s) e \<longleftrightarrow> registered s e \<and> MD_base e \<noteq> v"
proof -
  define L where "L = (case m_var2mdtab s v of None \<Rightarrow> [] | Some t \<Rightarrow> (if get_effect_md t \<noteq> 0 then [get_effect_md t] else []) @ ofst_mds t)"
  have L: "x \<in> set L \<longleftrightarrow> registered s x \<and> MD_base x = v" for x
  proof (cases "m_var2mdtab s v")
    case None
    then show ?thesis using registered_tab [OF s, of x] by (auto simp: L_def)
  next
    case (Some t)
    then show ?thesis using ofst_mds_set [OF s Some] effect_set [OF s Some] by (cases "is_unbound x") (auto simp: L_def)
  qed
  have d: "distinct (map MD_id L)"
  proof (cases "m_var2mdtab s v")
    case (Some t)
    have "MD_id (get_effect_md t) \<notin> MD_id ` set (ofst_mds t)" if "get_effect_md t \<noteq> 0"
      using effect_set(1) [OF s Some that] ofst_mds_set [OF s Some] registered_inj [of s "get_effect_md t"] by blast
    then show ?thesis using ofst_mds_distinct [OF s Some] Some by (simp add: L_def)
  qed (simp add: L_def)
  have reg: "\<forall>x\<in>set L. registered s x \<and> x \<noteq> 0" using L registered_pos [OF s] by blast
  have "removeMDforVAR v s = (let s' = fold (\<lambda>md s. freeMD (getMD s (MD_id md)) s) L s in s'\<lparr>m_var2mdtab := (m_var2mdtab s')(v := None)\<rparr>)"
    by (simp add: removeMDforVAR_def L_def Let_def split: option.split)
  then have r: "removeMDforVAR v s = s\<lparr>m_id2md_map := m_id2md_map s |` (- MD_id ` set L),
      m_free_md_list := rev (map MD_id L) @ m_free_md_list s, m_var2mdtab := (m_var2mdtab s)(v := None)\<rparr>" (is "_ = ?s")
    by (simp add: fold_free [OF d reg])
  have inj: "registered s x \<Longrightarrow> MD_id x \<in> MD_id ` set L \<longleftrightarrow> MD_base x = v" for x
    using L registered_inj [of s x] by blast
  show g: "registered (removeMDforVAR v s) e \<longleftrightarrow> registered s e \<and> MD_base e \<noteq> v" for e
    using inj [of e] by (auto simp: r registered_def restrict_map_def)
  show "mds_inv (removeMDforVAR v s)"
    unfolding mds_inv_def
  proof (intro conjI allI impI ballI)
    show "0 < m_md_count (removeMDforVAR v s)" using s by (simp add: r mds_inv_def)
    have free: "distinct (m_free_md_list s)" "\<And>j. j \<in> set (m_free_md_list s) \<Longrightarrow> 0 < j \<and> j < m_md_count s \<and> m_id2md_map s j = None"
      using s by (simp_all add: mds_inv_def)
    have new: "0 < j \<and> j < m_md_count s \<and> j \<notin> set (m_free_md_list s)" if "j \<in> MD_id ` set L" for j
      using that reg registered_range [OF s] by blast
    show "distinct (m_free_md_list (removeMDforVAR v s))" using free(1) d new by (auto simp: r)
    fix j
    show "0 < j" "j < m_md_count (removeMDforVAR v s)" "m_id2md_map (removeMDforVAR v s) j = None"
      if "j \<in> set (m_free_md_list (removeMDforVAR v s))"
      using that free(2) [of j] new [of j] by (auto simp: r restrict_map_def)
  next
    fix u t assume t: "m_var2mdtab (removeMDforVAR v s) u = Some t"
    then have "tab_inv s u t" "u \<noteq> v" using mds_invD(2) [OF s] by (auto simp: r split: if_splits)
    then show "tab_inv (removeMDforVAR v s) u t" by (auto simp: tab_inv_def g)
  next
    fix j e assume j: "m_id2md_map (removeMDforVAR v s) j = Some e"
    then have m: "m_id2md_map s j = Some e" "j \<notin> MD_id ` set L" by (auto simp: r restrict_map_def split: if_splits)
    then have "MD_base e \<noteq> v" using mds_invD(1) [OF s m(1)] inj [of e] by auto
    moreover have "MD_id e = j \<and> 0 < j \<and> j < m_md_count s \<and> j < m_id2md_len s \<and> (\<exists>t. m_var2mdtab s (MD_base e) = Some t \<and> tab_has t e)"
      using s m(1) unfolding mds_inv_def by blast
    ultimately show "MD_id e = j" "0 < j" "j < m_md_count (removeMDforVAR v s)" "j < m_id2md_len (removeMDforVAR v s)"
      "\<exists>t. m_var2mdtab (removeMDforVAR v s) (MD_base e) = Some t \<and> tab_has t e"
      by (simp_all add: r)
  qed
qed

end
