(* ===== verification/MemClaims.thy ===== *)
theory MemClaims
  imports MemSets
begin

text \<open>
  The initial system with its six delegates, what \<open>clean\<close> breaks, and the properties of descriptors and their registry.
\<close>

section \<open>The initial system\<close>

lemmas init_defs = mdsystem_init_def initDelegate_def initFullMem_def initGlobalMem_def initImportMem_def initLocalMem_def
  initHeapMem_def initLocalMayAlias_def

definition add_delegate :: "nat \<Rightarrow> MDSystem \<Rightarrow> MDSystem" where
  "add_delegate v s = (let e = (delegate_md v)\<lparr>MD_id := m_md_count s\<rparr> in
     s\<lparr>m_id2md_map := (m_id2md_map s)(m_md_count s \<mapsto> e), m_id2md_len := max (m_id2md_len s) (m_md_count s + 1),
       m_md_count := m_md_count s + 1, m_var2mdtab := (m_var2mdtab s)(v \<mapsto> mdtab_init\<lparr>m_invalid_ofst_md := e\<rparr>)\<rparr>)"

lemma delegate_simps [simp]: "MD_id (delegate_md v) = 0" "MD_base (delegate_md v) = v" "is_exact (delegate_md v) = False"
  "is_range (delegate_md v) = False" "is_unbound (delegate_md v)" "MD_is_may (delegate_md v)"
  by (simp_all add: delegate_md_def is_exact_def is_range_def is_unbound_def)

lemma register_delegate:
  "m_free_md_list s = [] \<Longrightarrow> m_var2mdtab s v = None \<Longrightarrow>
   registerMD (delegate_md v) s = Some ((delegate_md v)\<lparr>MD_id := m_md_count s\<rparr>, add_delegate v s)"
  by (simp add: registerMD_def newMD_def allocMD_def md_ids mdtab_append_def id2md_set_def add_delegate_def Let_def)

lemma add_delegate_inv: "mds_inv s \<Longrightarrow> m_free_md_list s = [] \<Longrightarrow> m_var2mdtab s v = None \<Longrightarrow> mds_inv (add_delegate v s)"
  using registerMD_ok [of s "delegate_md v"] by (auto simp: register_delegate md_ids)

lemma add_delegate_simps [simp]:
  "m_free_md_list (add_delegate v s) = m_free_md_list s" "m_md_count (add_delegate v s) = m_md_count s + 1"
  "m_var2mdtab (add_delegate v s) u = (if u = v then Some (mdtab_init\<lparr>m_invalid_ofst_md := (delegate_md v)\<lparr>MD_id := m_md_count s\<rparr>\<rparr>) else m_var2mdtab s u)"
  "m_id2md_map (add_delegate v s) i = (if i = m_md_count s then Some ((delegate_md v)\<lparr>MD_id := i\<rparr>) else m_id2md_map s i)"
  "m_full_mem (add_delegate v s) = m_full_mem s" "m_global_mem (add_delegate v s) = m_global_mem s"
  "m_import_mem (add_delegate v s) = m_import_mem s" "m_local_mem (add_delegate v s) = m_local_mem s"
  "m_heap_mem (add_delegate v s) = m_heap_mem s" "m_local_may_alias (add_delegate v s) = m_local_may_alias s"
  by (simp_all add: add_delegate_def Let_def)

lemma mds_inv_fields [simp]:
  "mds_inv (s\<lparr>m_full_mem := e\<rparr>) = mds_inv s" "mds_inv (s\<lparr>m_global_mem := e\<rparr>) = mds_inv s"
  "mds_inv (s\<lparr>m_import_mem := e\<rparr>) = mds_inv s" "mds_inv (s\<lparr>m_local_mem := e\<rparr>) = mds_inv s"
  "mds_inv (s\<lparr>m_heap_mem := e\<rparr>) = mds_inv s" "mds_inv (s\<lparr>m_local_may_alias := e\<rparr>) = mds_inv s"
  by (simp_all add: mds_inv_def tab_inv_def registered_def)

lemma init_run:
  assumes "distinct [a, b, c, d, e, f]"
  shows "\<exists>s. mdsystem_init en a b c d e f = Some s \<and> mds_inv s \<and> m_md_count s = MD_FIRST_ALLOCABLE \<and> m_free_md_list s = [] \<and>
    map (m_id2md_map s) [1..<7] = map (\<lambda>(i, v). Some ((delegate_md v)\<lparr>MD_id := i\<rparr>)) (zip [1..<7] [a, b, c, d, e, f]) \<and>
    (\<forall>i\<in>{1..6}. Some (getDelegate s i) = m_id2md_map s i)"
proof -
  have ne: "b \<noteq> a" "c \<noteq> a" "c \<noteq> b" "d \<noteq> a" "d \<noteq> b" "d \<noteq> c" "e \<noteq> a" "e \<noteq> b" "e \<noteq> c" "e \<noteq> d"
    "f \<noteq> a" "f \<noteq> b" "f \<noteq> c" "f \<noteq> d" "f \<noteq> e" using assms by auto
  let ?s0 = "mdsystem_empty en"
  have s0: "m_free_md_list ?s0 = []" "m_var2mdtab ?s0 = Map.empty" "mds_inv ?s0" "m_md_count ?s0 = 1" "m_id2md_map ?s0 = Map.empty"
    by (simp_all add: mdsystem_empty_def mds_inv_def)
  have six: "[1..<7::nat] = [1, 2, 3, 4, 5, 6]" by (simp add: upt_rec)
  have range: "{1..6::nat} = {1, 2, 3, 4, 5, 6}" by auto
  obtain s where s: "mdsystem_init en a b c d e f = Some s"
    by (simp add: init_defs register_delegate ne s0)
  have m: "mds_inv s"
    using s by (auto simp: init_defs register_delegate ne s0 add_delegate_inv)
  show ?thesis using s m
    by (auto simp: init_defs register_delegate ne s0 six range md_ids getDelegate_def eval_nat_numeral)
qed

text \<open>
  After \<open>clean\<close> the counter starts at 2 again although six or more numbers are on the free list: once these are used up,
  the number 2 is given out a second time.
\<close>

definition register_all :: "MD list \<Rightarrow> MDSystem \<Rightarrow> (nat list \<times> MDSystem) option" where
  "register_all ms s = fold (\<lambda>m r. case r of None \<Rightarrow> None | Some (is, s) \<Rightarrow>
     (case registerMD m s of None \<Rightarrow> None | Some (e, s) \<Rightarrow> Some (is @ [MD_id e], s))) ms (Some ([], s))"

lemma delegate_not_null [simp]: "(delegate_md v)\<lparr>MD_id := i\<rparr> \<noteq> 0"
proof
  assume "(delegate_md v)\<lparr>MD_id := i\<rparr> = 0"
  then have "MD_is_may ((delegate_md v)\<lparr>MD_id := i\<rparr>) = MD_is_may (0 :: MD)" by simp
  then show False by (simp add: zero_MD_ext_def MD.defs)
qed

lemma clean_reuses_numbers:
  "map_option fst (Option.bind (register_all (map delegate_md [11, 12, 13]) (mdsystem_empty False))
     (\<lambda>(is, s). register_all (map delegate_md [11, 12, 13, 14]) (mdsystem_clean s))) = Some [3, 2, 1, 2]"
  by (simp add: register_delegate Let_def mdsystem_empty_def register_all_def add_delegate_def mdsystem_clean_def upt_conv_Cons freeMD_def getMD_def max_def
      registerMD_def newMD_def allocMD_def md_ids mdtab_append_def id2md_set_def mdtab_find_def mdtab_clean_def)

section \<open>Properties\<close>

text \<open>
  C27: for descriptors of at least one byte that end below the top of the address space, the tests of \<open>MD\<close> decide what
  they say: sharing a byte of one variable, and one descriptor covering the bytes of the other.
\<close>

theorem md_tests_are_byte_tests:
  assumes "md_fits t" "md_fits m"
  shows "(is_overlap t m \<longleftrightarrow> MD_base t = MD_base m \<and> md_bytes t \<inter> md_bytes m \<noteq> {}) \<and>
    (is_exact_cover t m \<longleftrightarrow> MD_base t = MD_base m \<and> is_exact t \<and> \<not> is_unbound m \<and> md_bytes m \<subseteq> md_bytes t) \<and>
    (is_may_cover t m \<longleftrightarrow> MD_base t = MD_base m \<and> (is_unbound t \<or> is_exact t \<and> is_exact m \<and> md_bytes m \<subseteq> md_bytes t))"
  using is_overlap_bytes [OF assms] is_exact_cover_bytes [OF assms] is_may_cover_bytes [OF assms] by blast

definition piece :: "32 word \<Rightarrow> 32 word \<Rightarrow> MD" where
  "piece ofs sz = \<lparr>MD_id = 0, MD_ofst = ofs, MD_size = sz, MD_base = 9, MD_ty = MD_EXACT, MD_taken_addr = False, MD_is_may = False\<rparr>"

lemma piece_simps [simp]: "MD_id (piece a b) = 0" "MD_base (piece a b) = 9" "MD_ofst (piece a b) = a" "MD_size (piece a b) = b"
  "MD_ty (piece a b) = MD_EXACT"
  by (simp_all add: piece_def)

lemma md_tests_are_byte_tests_witness: "is_overlap (piece 0 4) (piece 2 4) \<and> \<not> is_exact_cover (piece 0 4) (piece 2 4)"
  using md_tests_are_byte_tests [of "piece 0 4" "piece 2 4"] by (auto simp: md_fits_def md_bytes_def is_exact_def is_unbound_def)

text \<open>
  C11: registering a descriptor never follows a null pointer and keeps the invariant. It returns the descriptor registered
  for the place, if there is one, and changes nothing; otherwise it returns a copy with a number that is in use for no other.
  Registering again gives the same one. Below offset 2^31 one place is one kind, offset and size. Removing a variable
  unregisters its descriptors and no other.
\<close>

theorem md_registry:
  assumes "mds_inv s" "MD_id m = MD_UNDEF"
  shows "\<exists>e s'. registerMD m s = Some (e, s') \<and> mds_inv s' \<and> registered s' e \<and> same_place m e \<and> registerMD m s' = Some (e, s') \<and>
    (if \<exists>x. registered s x \<and> same_place m x then s' = s
     else e = m\<lparr>MD_id := MD_id e\<rparr> \<and> m_id2md_map s (MD_id e) = None \<and> 0 < MD_id e \<and> m_id2md_map s' = (m_id2md_map s)(MD_id e \<mapsto> e)) \<and>
    (MD_ofst m < 2 ^ 31 \<longrightarrow> MD_ofst e < 2 ^ 31 \<longrightarrow> \<not> is_unbound m \<longrightarrow> MD_ty e = MD_ty m \<and> MD_ofst e = MD_ofst m \<and> MD_size e = MD_size m) \<and>
    (\<forall>v. mds_inv (removeMDforVAR v s') \<and> (\<forall>x. registered (removeMDforVAR v s') x \<longleftrightarrow> registered s' x \<and> MD_base x \<noteq> v))"
proof -
  obtain e s' where e: "registerMD m s = Some (e, s')" "mds_inv s'" "registered s' e" "same_place m e"
    "if \<exists>x. registered s x \<and> same_place m x then s' = s
     else e = m\<lparr>MD_id := MD_id e\<rparr> \<and> m_id2md_map s (MD_id e) = None \<and> 0 < MD_id e \<and> m_id2md_map s' = (m_id2md_map s)(MD_id e \<mapsto> e)"
    using registerMD_ok [OF assms] by blast
  have "registerMD m s' = Some (e, s')"
  proof -
    have x: "\<exists>x. registered s' x \<and> same_place m x" using e(3,4) by blast
    obtain e1 s1 where r: "registerMD m s' = Some (e1, s1)" "registered s1 e1" "same_place m e1" "s1 = s'"
      using registerMD_ok [OF e(2) assms(2)] unfolding if_P [OF x] by blast
    then have "same_place e1 e" using e(4) unfolding same_place_def by metis
    then have "e1 = e" using registered_unique [OF e(2)] r e(3) by blast
    then show ?thesis using r by simp
  qed
  moreover have "MD_ty e = MD_ty m \<and> MD_ofst e = MD_ofst m \<and> MD_size e = MD_size m"
    if "MD_ofst m < 2 ^ 31" "MD_ofst e < 2 ^ 31" "\<not> is_unbound m"
    using md_pack_inj [of m e] e(4) that
    by (cases "MD_ty m"; cases "MD_ty e") (auto simp: same_place_def is_unbound_def is_range_def)
  ultimately show ?thesis using e removeMDforVAR_ok [OF e(2)] by blast
qed

lemma six_vars: "\<exists>s. mdsystem_init True 1 2 3 4 5 6 = Some s \<and> mds_inv s"
  using init_run [of 1 2 3 4 5 6 True] by auto

lemma md_registry_witness:
  "\<exists>s e s'. mdsystem_init True 1 2 3 4 5 6 = Some s \<and> registerMD (piece 0 4) s = Some (e, s') \<and> registered s' e \<and> registerMD (piece 0 4) s' = Some (e, s')"
proof -
  obtain s where s: "mdsystem_init True 1 2 3 4 5 6 = Some s" "mds_inv s" using six_vars by blast
  show ?thesis using md_registry [OF s(2), of "piece 0 4"] s(1) by (auto simp: md_ids)
qed

text \<open>
  C12: what the overlap computations return, in terms of the registered descriptors that overlap the given one, or one of the
  given set; for descriptors that fit these are the ones that share a byte. For one descriptor, \<open>computeOverlap\<close> adds all
  others that overlap it, and the descriptor itself when one of them has a known place; \<open>computeOverlapExactMD\<close> adds the
  exact ones. From a set into another set, delegates are skipped and everything overlapping that is not in the set is added. Both
  add the delegates of the given descriptors when asked to be strict. Into the set itself, an unbound descriptor that
  \<open>MDSet::is_contain\<close> finds in the set, also by a delegate in it, is left out, the delegates in the set are not
  skipped, and strictly adds only the delegates of global and of import variables, which must be registered.
\<close>

theorem md_overlap_exact:
  assumes "mds_inv s" "registered s md" "mds \<subseteq> dom (m_id2md_map s)" "finite mds"
  shows "computeOverlapMD vars region s md output strictly =
      Some ((if strictly then addDelegate vars region s md output else output) \<union> MD_id ` (overlapping s md - {md}) \<union>
        (if \<exists>e\<in>overlapping s md - {md}. \<not> is_unbound e then {MD_id md} else {})) \<and>
    computeOverlapExactMD s md output = Some (output \<union> MD_id ` {e \<in> overlapping s md. e \<noteq> md \<and> is_exact e}) \<and>
    computeOverlapSet vars region s mds output strictly =
      Some (output \<union> MD_id ` {e. MD_id e \<notin> mds \<and> (\<exists>i\<in>mds. \<not> isDelegate i \<and> e \<in> overlapping s (getMD s i))} \<union>
        (if strictly then (\<Union>i\<in>{i\<in>mds. \<not> isDelegate i}. addDelegate vars region s (getMD s i) {}) else {})) \<and>
    ((strictly \<longrightarrow> {MD_GLOBAL_VAR, MD_IMPORT_VAR} \<subseteq> dom (m_id2md_map s)) \<longrightarrow>
     (\<exists>added. computeOverlapMod vars region s mds strictly =
        Some (mds \<union> MD_id ` set added \<union>
          (if strictly \<and> (\<exists>i\<in>mds. md_is_global vars (getMD s i)) then {MD_GLOBAL_VAR} else {}) \<union>
          (if strictly \<and> (\<exists>i\<in>mds. \<not> md_is_global vars (getMD s i) \<and> MD_base (getMD s i) \<notin> region) then {MD_IMPORT_VAR} else {}),
          added) \<and>
        set added = {e. (if is_unbound e then \<not> mdset_is_contain vars region mds e else MD_id e \<notin> mds) \<and> (\<exists>i\<in>mds. e \<in> overlapping s (getMD s i))})) \<and>
    (\<forall>e. md_fits md \<longrightarrow> md_fits e \<longrightarrow>
      (e \<in> overlapping s md \<longleftrightarrow> registered s e \<and> MD_base md = MD_base e \<and> md_bytes md \<inter> md_bytes e \<noteq> {}))"
proof (intro conjI impI)
  have d: "MD_id (getMD s i) = i" if "i \<in> dom (m_id2md_map s)" for i
    using mds_invD(1) [OF assms(1), of i] that by (auto simp: getMD_def)
  assume "strictly \<longrightarrow> {MD_GLOBAL_VAR, MD_IMPORT_VAR} \<subseteq> dom (m_id2md_map s)"
  then have "strictly \<Longrightarrow> MD_id (getMD s MD_GLOBAL_VAR) = MD_GLOBAL_VAR \<and> MD_id (getMD s MD_IMPORT_VAR) = MD_IMPORT_VAR"
    using d by simp
  then show "\<exists>added. computeOverlapMod vars region s mds strictly =
        Some (mds \<union> MD_id ` set added \<union>
          (if strictly \<and> (\<exists>i\<in>mds. md_is_global vars (getMD s i)) then {MD_GLOBAL_VAR} else {}) \<union>
          (if strictly \<and> (\<exists>i\<in>mds. \<not> md_is_global vars (getMD s i) \<and> MD_base (getMD s i) \<notin> region) then {MD_IMPORT_VAR} else {}),
          added) \<and>
        set added = {e. (if is_unbound e then \<not> mdset_is_contain vars region mds e else MD_id e \<notin> mds) \<and> (\<exists>i\<in>mds. e \<in> overlapping s (getMD s i))}"
    using computeOverlapMod_ok [OF assms(1,3,4), where vars = vars and region = region and strictly = strictly]
    by (cases strictly) (simp_all only: simp_thms if_True if_False)
next
  show "\<forall>e. md_fits md \<longrightarrow> md_fits e \<longrightarrow>
      (e \<in> overlapping s md \<longleftrightarrow> registered s e \<and> MD_base md = MD_base e \<and> md_bytes md \<inter> md_bytes e \<noteq> {})"
    using is_overlap_bytes [of md] by (simp add: overlapping_def)
qed (use computeOverlapMD_ok [OF assms(1,2)] computeOverlapExactMD_ok [OF assms(1,2)] computeOverlapSet_ok [OF assms(1,3,4)] in \<open>simp_all only:\<close>)

definition local_vars :: "nat \<Rightarrow> Var" where
  "local_vars v = \<lparr>var_global = False, var_local = True, var_fake = False, var_addr_taken = False, var_is_pr = False\<rparr>"

lemma md_overlap_exact_witness:
  "\<exists>s a b. registered s a \<and> registered s b \<and> a \<noteq> b \<and>
     (\<exists>out. computeOverlapMD local_vars {9} s a {} False = Some out \<and> MD_id a \<in> out \<and> MD_id b \<in> out)"
proof -
  have e: "mds_inv (mdsystem_empty False)" "m_id2md_map (mdsystem_empty False) = Map.empty"
    by (simp_all add: mdsystem_empty_def mds_inv_def)
  obtain a s1 where a: "mds_inv s1" "a = (piece 0 4)\<lparr>MD_id := MD_id a\<rparr>" "0 < MD_id a" "m_id2md_map s1 = [MD_id a \<mapsto> a]"
    using registerMD_ok [OF e(1), of "piece 0 4"] by (auto simp: e(2) registered_def md_ids)
  have fa: "MD_base a = 9" "MD_ofst a = 0" "MD_size a = 4" "MD_ty a = MD_EXACT" using arg_cong [OF a(2), of MD_base]
      arg_cong [OF a(2), of MD_ofst] arg_cong [OF a(2), of MD_size] arg_cong [OF a(2), of MD_ty] by simp_all
  have na: "\<not> same_place (piece 2 4) a"
    using md_pack_inj [of "piece 2 4" a] fa by (auto simp: same_place_def is_unbound_def)
  have r1: "registered s1 x \<longleftrightarrow> x = a" for x using a(4) by (auto simp: registered_def)
  obtain b s2 where b: "mds_inv s2" "b = (piece 2 4)\<lparr>MD_id := MD_id b\<rparr>" "m_id2md_map s1 (MD_id b) = None"
    "m_id2md_map s2 = (m_id2md_map s1)(MD_id b \<mapsto> b)"
    using registerMD_ok [OF a(1), of "piece 2 4"] na by (auto simp: r1 md_ids)
  have fb: "MD_base b = 9" "MD_ofst b = 2" "MD_size b = 4" "MD_ty b = MD_EXACT" using arg_cong [OF b(2), of MD_base]
      arg_cong [OF b(2), of MD_ofst] arg_cong [OF b(2), of MD_size] arg_cong [OF b(2), of MD_ty] by simp_all
  have r: "registered s2 a" "registered s2 b" "a \<noteq> b" using a(4) b(3,4) by (auto simp: registered_def split: if_splits)
  have o: "b \<in> overlapping s2 a - {a}" "\<not> is_unbound b"
    using r fa fb by (auto simp: overlapping_def is_overlap_def is_unbound_def)
  show ?thesis using md_overlap_exact [OF b(1) r(1), of "{}" local_vars "{9}" "{}" False] r o
    by (intro exI [of _ s2] exI [of _ a] exI [of _ b]) auto
qed

end
