(* ===== verification/SolveSet.thy ===== *)
theory SolveSet
  imports MemClaims
begin

text \<open>
  The data-flow solver of reaching definitions and available expressions: class \<open>SolveSetMgr\<close> of \<^verbatim>\<open>src/opt/solve_set.h\<close>
  and \<^verbatim>\<open>src/opt/solve_set.cpp\<close>. The sets are of class \<open>DBitSetCore\<close> in sparse mode, which refines sets of numbers
  (\<open>DBitSet\<close>), so they are sets here; a vector of pointers to sets is a partial map. The macro that declares the operations
  of one set takes the name of the set; the model has one definition per operation with the name as argument.

  A statement is what the solver reads of it: its code, the register it writes, its memory references, the descriptors its
  tree may use. \<open>None\<close> is a null pointer that is followed.
\<close>

section \<open>Statements and blocks\<close>

datatype IR_CODE = DIRECT_MEM_STMT | INDIRECT_MEM_STMT | WRITE_ARRAY | IR_CALL | IR_ICALL | IR_STPR | IR_SETELEM | IR_GETELEM |
  IR_PHI | IR_REGION | IR_GOTO | IR_IGOTO | CONDITIONAL_BRANCH_OP | MULTICONDITIONAL_BRANCH_OP | IR_RETURN

text \<open>An expression: its number, whether its code is one of \<open>canBeLiveExprCand\<close>, the descriptors its tree may use.\<close>

record Exp =
  exp_id :: nat
  exp_cand :: bool
  exp_mayuse :: "nat set"

record IR =
  ir_id :: nat
  ir_code :: IR_CODE
  ir_prno :: "nat option"
  ir_md :: MD
  ir_mds :: "nat set option"
  ir_mayuse :: "bool \<Rightarrow> nat set"
  ir_exps :: "Exp list"

definition isCallStmt :: "IR \<Rightarrow> bool" where
  "isCallStmt ir \<longleftrightarrow> ir_code ir \<in> {IR_CALL, IR_ICALL}"

definition isWritePR :: "IR \<Rightarrow> bool" where
  "isWritePR ir \<longleftrightarrow> ir_code ir \<in> {IR_STPR, IR_SETELEM, IR_GETELEM, IR_PHI}"

definition hasReturnValue :: "IR \<Rightarrow> bool" where
  "hasReturnValue ir \<longleftrightarrow> ir_prno ir \<noteq> None"

definition hasResult :: "IR \<Rightarrow> bool" where
  "hasResult ir \<longleftrightarrow> ir_code ir \<in> {DIRECT_MEM_STMT, INDIRECT_MEM_STMT, WRITE_ARRAY, IR_CALL, IR_ICALL, IR_STPR, IR_SETELEM, IR_GETELEM, IR_PHI}"

definition getExactRef :: "IR \<Rightarrow> MD" where
  "getExactRef ir = (if ir_md ir = 0 \<or> \<not> is_exact (ir_md ir) then 0 else ir_md ir)"

record FlowCFG =
  fc_bbs :: "nat list"
  fc_rpo :: "nat list"
  fc_preds :: "nat \<Rightarrow> nat list"
  fc_entry :: nat
  fc_irs :: "nat \<Rightarrow> IR list"

text \<open>What the solver reads of the region: the statement of a number, the flags of variables, the descriptors.\<close>

record RegionEnv =
  rg_ir :: "nat \<Rightarrow> IR"
  rg_exp :: "nat \<Rightarrow> Exp"
  rg_vars :: "nat \<Rightarrow> Var"
  rg_region :: "nat set"
  rg_mds :: MDSystem
  rg_depend :: "nat \<Rightarrow> nat \<Rightarrow> bool"

record SolFlag =
  SOL_AVAIL_REACH_DEF :: bool
  SOL_REACH_DEF :: bool
  SOL_AVAIL_EXPR :: bool
  SOL_REGION_REF :: bool
  COMPUTE_PR_DU :: bool
  COMPUTE_NONPR_DU :: bool

section \<open>The named sets\<close>

datatype SetName = ReachDefIn | ReachDefOut | AvailReachDefIn | AvailReachDefOut | GenIRExpr | AvailExprIn | AvailExprOut |
  MayGenDef | MustGenDef | MayKilledDef | MustKilledDef | KilledIRExpr | LiveInBB

record SolveSetMgr =
  m_sets :: "SetName \<Rightarrow> nat \<rightharpoonup> nat set"
  m_is_keep :: "SetName \<Rightarrow> bool"

definition solve_set_mgr :: SolveSetMgr where
  "solve_set_mgr = \<lparr>m_sets = (\<lambda>n. Map.empty), m_is_keep = (\<lambda>n. n = ReachDefIn)\<rparr>"

definition get_ss :: "SetName \<Rightarrow> nat \<Rightarrow> SolveSetMgr \<Rightarrow> nat set option" where
  "get_ss n b m = m_sets m n b"

definition put_ss :: "SetName \<Rightarrow> nat \<Rightarrow> nat set \<Rightarrow> SolveSetMgr \<Rightarrow> SolveSetMgr" where
  "put_ss n b S m = m\<lparr>m_sets := (m_sets m)(n := (m_sets m n)(b \<mapsto> S))\<rparr>"

definition set_ss :: "SetName \<Rightarrow> nat \<Rightarrow> nat set option \<Rightarrow> SolveSetMgr \<Rightarrow> SolveSetMgr" where
  "set_ss n b S m = m\<lparr>m_sets := (m_sets m)(n := (m_sets m n)(b := S))\<rparr>"

definition gen_ss :: "SetName \<Rightarrow> nat \<Rightarrow> SolveSetMgr \<Rightarrow> SolveSetMgr" where
  "gen_ss n b m = (case m_sets m n b of None \<Rightarrow> put_ss n b {} m | Some S \<Rightarrow> m)"

text \<open>The set behind a pointer that \<open>gen\<close> returned, or that the code takes for empty when it is null.\<close>

definition sol :: "SolveSetMgr \<Rightarrow> SetName \<Rightarrow> nat \<Rightarrow> nat set" where
  "sol m n b = (case m_sets m n b of None \<Rightarrow> {} | Some S \<Rightarrow> S)"

definition reset_if_local :: "SetName \<Rightarrow> SolveSetMgr \<Rightarrow> SolveSetMgr" where
  "reset_if_local n m = (if m_is_keep m n then m else m\<lparr>m_sets := (m_sets m)(n := Map.empty)\<rparr>)"

definition reset_if_global :: "SetName \<Rightarrow> SolveSetMgr \<Rightarrow> SolveSetMgr" where
  "reset_if_global n m = (if \<not> m_is_keep m n then m else m\<lparr>m_sets := (m_sets m)(n := Map.empty)\<rparr>)"

definition all_names :: "SetName list" where
  "all_names = [ReachDefIn, ReachDefOut, AvailReachDefIn, AvailReachDefOut, GenIRExpr, AvailExprIn, AvailExprOut,
     MayGenDef, MustGenDef, MayKilledDef, MustKilledDef, KilledIRExpr, LiveInBB]"

definition resetGlobalSet :: "SolveSetMgr \<Rightarrow> SolveSetMgr" where
  "resetGlobalSet m = fold reset_if_global all_names m"

definition resetAllKillSet :: "SolveSetMgr \<Rightarrow> SolveSetMgr" where
  "resetAllKillSet m = fold reset_if_local [MustKilledDef, MayKilledDef, KilledIRExpr] m"

definition resetLocalSet :: "SolveSetMgr \<Rightarrow> SolveSetMgr" where
  "resetLocalSet m =
     resetAllKillSet (fold reset_if_local [ReachDefIn, ReachDefOut, AvailReachDefIn, AvailReachDefOut, GenIRExpr,
       AvailExprIn, AvailExprOut, MayGenDef, MustGenDef, LiveInBB] m)"

section \<open>The equations of one block\<close>

definition ForAvailReachDef :: "FlowCFG \<Rightarrow> nat \<Rightarrow> SolveSetMgr \<Rightarrow> bool \<times> SolveSetMgr" where
  "ForAvailReachDef cfg b m =
     (let m = gen_ss AvailReachDefIn b m;
          m = fold (gen_ss AvailReachDefOut) (fc_preds cfg b) m;
          m = (case fc_preds cfg b of
                 [] \<Rightarrow> m
               | p # ps \<Rightarrow> put_ss AvailReachDefIn b (fold (\<lambda>q S. S \<inter> sol m AvailReachDefOut q) ps (sol m AvailReachDefOut p)) m);
          news = sol m AvailReachDefIn b;
          news = (case get_ss MayKilledDef b m of None \<Rightarrow> news | Some K \<Rightarrow> news - K);
          m = gen_ss MustGenDef b m;
          news = news \<union> sol m MustGenDef b;
          m = gen_ss AvailReachDefOut b m
      in if sol m AvailReachDefOut b \<noteq> news then (True, put_ss AvailReachDefOut b news m) else (False, m))"

definition ForReachDef :: "FlowCFG \<Rightarrow> nat \<Rightarrow> SolveSetMgr \<Rightarrow> (bool \<times> SolveSetMgr) option" where
  "ForReachDef cfg b m =
     (let m = gen_ss ReachDefIn b m
      in case those (map (\<lambda>p. get_ss ReachDefOut p m) (fc_preds cfg b)) of
           None \<Rightarrow> None
         | Some outs \<Rightarrow>
             (let m = (case outs of [] \<Rightarrow> m | out # os \<Rightarrow> put_ss ReachDefIn b (fold (\<lambda>out S. S \<union> out) os out) m);
                  news = sol m ReachDefIn b;
                  news = (case get_ss MustKilledDef b m of None \<Rightarrow> news | Some K \<Rightarrow> news - K);
                  m = gen_ss MayGenDef b m;
                  news = news \<union> sol m MayGenDef b
              in case get_ss ReachDefOut b m of
                   None \<Rightarrow> None
                 | Some out \<Rightarrow> Some (if out \<noteq> news then (True, put_ss ReachDefOut b news m) else (False, m))))"

definition ForAvailExpression :: "FlowCFG \<Rightarrow> nat \<Rightarrow> SolveSetMgr \<Rightarrow> bool \<times> SolveSetMgr" where
  "ForAvailExpression cfg b m =
     (let m = gen_ss AvailExprIn b m;
          m = fold (gen_ss AvailExprOut) (fc_preds cfg b) m;
          m = (case fc_preds cfg b of
                 [] \<Rightarrow> m
               | p # ps \<Rightarrow> put_ss AvailExprIn b (fold (\<lambda>q S. S \<union> sol m AvailExprOut q) ps (sol m AvailExprOut p)) m);
          news = sol m AvailExprIn b;
          news = (case get_ss KilledIRExpr b m of None \<Rightarrow> news | Some K \<Rightarrow> news - K);
          m = gen_ss GenIRExpr b m;
          news = news \<union> sol m GenIRExpr b;
          m = gen_ss AvailExprOut b m
      in if sol m AvailExprOut b \<noteq> news then (True, put_ss AvailExprOut b news m) else (False, m))"

section \<open>The iteration\<close>

definition solve_block :: "FlowCFG \<Rightarrow> SolFlag \<Rightarrow> nat \<Rightarrow> (bool \<times> SolveSetMgr) option \<Rightarrow> (bool \<times> SolveSetMgr) option" where
  "solve_block cfg flag b st =
     (case st of None \<Rightarrow> None | Some (change, m) \<Rightarrow>
        let (c1, m) = (if SOL_AVAIL_REACH_DEF flag then ForAvailReachDef cfg b m else (False, m))
        in case (if SOL_REACH_DEF flag then ForReachDef cfg b m else Some (False, m)) of
             None \<Rightarrow> None
           | Some (c2, m) \<Rightarrow>
               let (c3, m) = (if SOL_AVAIL_EXPR flag then ForAvailExpression cfg b m else (False, m))
               in Some (change \<or> c1 \<or> c2 \<or> c3, m))"

definition rpo_pass :: "FlowCFG \<Rightarrow> SolFlag \<Rightarrow> SolveSetMgr \<Rightarrow> (bool \<times> SolveSetMgr) option" where
  "rpo_pass cfg flag m = fold (solve_block cfg flag) (fc_rpo cfg) (Some (False, m))"

text \<open>\<open>do { ... } while (change && count < 20)\<close>, with the number of passes still allowed; the result has the last \<open>change\<close>.\<close>

fun rpo_loop :: "FlowCFG \<Rightarrow> SolFlag \<Rightarrow> nat \<Rightarrow> SolveSetMgr \<Rightarrow> (bool \<times> SolveSetMgr) option" where
  "rpo_loop cfg flag n m =
     (case rpo_pass cfg flag m of None \<Rightarrow> None
      | Some (change, m) \<Rightarrow>
          (case n of 0 \<Rightarrow> Some (change, m)
           | Suc n' \<Rightarrow> if change then rpo_loop cfg flag n' m else Some (change, m)))"

declare rpo_loop.simps [simp del]

definition solveByRPO :: "FlowCFG \<Rightarrow> SolFlag \<Rightarrow> SolveSetMgr \<Rightarrow> (bool \<times> SolveSetMgr) option" where
  "solveByRPO cfg flag m = rpo_loop cfg flag 19 m"

definition diff_killed_expr :: "nat \<Rightarrow> SolveSetMgr \<Rightarrow> SolveSetMgr" where
  "diff_killed_expr b m = (case get_ss KilledIRExpr b m of None \<Rightarrow> m | Some K \<Rightarrow> put_ss AvailExprOut b (sol m AvailExprOut b - K) m)"

definition init_bb :: "FlowCFG \<Rightarrow> nat set \<Rightarrow> SolFlag \<Rightarrow> nat \<Rightarrow> SolveSetMgr \<Rightarrow> SolveSetMgr" where
  "init_bb cfg expr_univers flag b m =
     (let m = (if SOL_REACH_DEF flag then put_ss ReachDefOut b {} (put_ss ReachDefIn b {} m) else m);
          m = (if SOL_AVAIL_REACH_DEF flag then put_ss AvailReachDefIn b {} m else m)
      in if \<not> SOL_AVAIL_EXPR flag then m
         else (let m = gen_ss AvailExprOut b (gen_ss AvailExprIn b m)
               in if b = fc_entry cfg then put_ss AvailExprOut b {} (put_ss AvailExprIn b {} m)
                  else (let m = put_ss AvailExprOut b expr_univers (put_ss AvailExprIn b expr_univers m);
                            m = gen_ss GenIRExpr b (diff_killed_expr b m)
                        in put_ss AvailExprOut b (sol m AvailExprOut b \<union> sol m GenIRExpr b) m)))"

definition solve_sets :: "FlowCFG \<Rightarrow> nat set \<Rightarrow> SolFlag \<Rightarrow> SolveSetMgr \<Rightarrow> (bool \<times> SolveSetMgr) option" where
  "solve_sets cfg expr_univers flag m = solveByRPO cfg flag (fold (init_bb cfg expr_univers flag) (rev (fc_bbs cfg)) m)"

end
