(* ===== verification/SolveGen.thy ===== *)
theory SolveGen
  imports SolveSet
begin

text \<open>
  The local sets of the solver: what a block may and must define, which statements it kills, which expressions it generates
  and kills; the region's references; and \<open>perform\<close>, which computes the local sets and runs the iteration.
\<close>

section \<open>Generated definitions\<close>

definition collectNonPRMayDef :: "IR \<Rightarrow> nat set \<Rightarrow> nat set" where
  "collectNonPRMayDef ir maydefmds =
     (if isWritePR ir then maydefmds
      else let maydefmds = (if ir_md ir \<noteq> 0 \<and> \<not> is_exact (ir_md ir) then insert (MD_id (ir_md ir)) maydefmds else maydefmds)
           in case ir_mds ir of None \<Rightarrow> maydefmds | Some refs \<Rightarrow> maydefmds \<union> refs)"

definition isMayKill :: "RegionEnv \<Rightarrow> IR \<Rightarrow> IR \<Rightarrow> bool" where
  "isMayKill rg def1 def2 =
     (if ir_code def1 = IR_STPR \<and> ir_code def2 = IR_STPR \<and> ir_prno def1 = ir_prno def2 then True
      else if ir_md def1 \<noteq> 0
      then ir_md def2 \<noteq> 0 \<and> ir_md def1 = ir_md def2 \<or>
        ir_mds def2 \<noteq> None \<and> (ir_mds def1 = ir_mds def2 \<or> mdset_is_contain (rg_vars rg) (rg_region rg) (the (ir_mds def2)) (ir_md def1))
      else ir_mds def1 \<noteq> None \<and>
        (ir_md def2 \<noteq> 0 \<and> mdset_is_contain (rg_vars rg) (rg_region rg) (the (ir_mds def1)) (ir_md def2) \<or>
         ir_mds def2 \<noteq> None \<and> (ir_mds def2 = ir_mds def1 \<or> the (ir_mds def1) \<inter> the (ir_mds def2) \<noteq> {})))"

definition isMustKill :: "IR \<Rightarrow> IR \<Rightarrow> bool" where
  "isMustKill def1 def2 =
     (if (isWritePR def1 \<or> isCallStmt def1) \<and> (isWritePR def2 \<or> isCallStmt def2)
      then (if isCallStmt def1 \<and> \<not> hasReturnValue def1 \<or> isCallStmt def2 \<and> \<not> hasReturnValue def2 then False
            else ir_prno def1 = ir_prno def2)
      else getExactRef def1 \<noteq> 0 \<and> getExactRef def2 \<noteq> 0 \<and> getExactRef def1 = getExactRef def2)"

text \<open>The statement is put behind those in the set that it does not kill.\<close>

definition computeMayDef :: "RegionEnv \<Rightarrow> SolFlag \<Rightarrow> IR \<Rightarrow> nat set \<times> nat set \<Rightarrow> nat set \<times> nat set" where
  "computeMayDef rg flag ir st =
     (case st of (maydefmds, maygendef) \<Rightarrow>
        let nonpr = ir_code ir \<in> {DIRECT_MEM_STMT, INDIRECT_MEM_STMT, WRITE_ARRAY, IR_CALL, IR_ICALL};
            maydefmds = (if nonpr \<and> SOL_REGION_REF flag then collectNonPRMayDef ir maydefmds else maydefmds);
            compute_maygen_def = (if nonpr then COMPUTE_NONPR_DU flag else if isWritePR ir then COMPUTE_PR_DU flag else True)
        in if \<not> compute_maygen_def then (maydefmds, maygendef)
           else (maydefmds, insert (ir_id ir) {i \<in> maygendef. \<not> isMustKill ir (rg_ir rg i)}))"

definition computeMustExactDef :: "RegionEnv \<Rightarrow> SolFlag \<Rightarrow> IR \<Rightarrow> nat set \<times> nat set \<Rightarrow> (nat set \<times> nat set) option" where
  "computeMustExactDef rg flag ir st =
     (case st of (mustdefmds, mustgendef) \<Rightarrow>
        if ir_code ir \<in> {DIRECT_MEM_STMT, INDIRECT_MEM_STMT, WRITE_ARRAY} \<and> \<not> COMPUTE_NONPR_DU flag then Some st
        else if (isCallStmt ir \<or> isWritePR ir) \<and> \<not> COMPUTE_PR_DU flag then Some st
        else let x = getExactRef ir
          in case (if x \<noteq> 0 then computeOverlapExactMD (rg_mds rg) x (insert (MD_id x) mustdefmds)
                   else if isWritePR ir \<or> isCallStmt ir \<and> hasReturnValue ir
                   then (if ir_md ir = 0 then None else Some (insert (MD_id (ir_md ir)) mustdefmds))
                   else Some mustdefmds) of
               None \<Rightarrow> None
             | Some mustdefmds \<Rightarrow> Some (mustdefmds, insert (ir_id ir) {i \<in> mustgendef. \<not> isMayKill rg ir (rg_ir rg i)}))"

text \<open>One statement of the block and then all of them. The four sets are: must-defined and may-defined descriptors,
  must-generated and may-generated statements.\<close>

record BBDef =
  bb_mustdefmds :: "nat set"
  bb_maydefmds :: "nat set"
  bb_mustgendef :: "nat set"
  bb_maygendef :: "nat set"

definition bbdef_stmt :: "RegionEnv \<Rightarrow> SolFlag \<Rightarrow> IR \<Rightarrow> BBDef option \<Rightarrow> BBDef option" where
  "bbdef_stmt rg flag ir st =
     (case st of None \<Rightarrow> None | Some d \<Rightarrow>
        if \<not> hasResult ir then Some d
        else if isWritePR ir \<and> \<not> COMPUTE_PR_DU flag then Some d
        else case computeMustExactDef rg flag ir (bb_mustdefmds d, bb_mustgendef d) of
            None \<Rightarrow> None
          | Some (mustmds, mustgen) \<Rightarrow>
              (case computeMayDef rg flag ir (bb_maydefmds d, bb_maygendef d) of (maymds, maygen) \<Rightarrow>
                 Some \<lparr>bb_mustdefmds = mustmds, bb_maydefmds = maymds, bb_mustgendef = mustgen, bb_maygendef = maygen\<rparr>))"

definition computeMustExactDefMayDefMayUseForBB :: "RegionEnv \<Rightarrow> SolFlag \<Rightarrow> IR list \<Rightarrow> BBDef option" where
  "computeMustExactDefMayDefMayUseForBB rg flag irs =
     fold (bbdef_stmt rg flag) irs (Some \<lparr>bb_mustdefmds = {}, bb_maydefmds = {}, bb_mustgendef = {}, bb_maygendef = {}\<rparr>)"

text \<open>
  All blocks. The vectors of descriptor sets exist when a flag asks for a problem; the descriptors that the region may
  use are collected when it asks for the region's references.
\<close>

record DefVecs =
  dv_must :: "nat \<Rightarrow> nat set"
  dv_may :: "nat \<Rightarrow> nat set"
  dv_mayuse :: "nat set"
  dv_mgr :: SolveSetMgr

definition wants_vecs :: "SolFlag \<Rightarrow> bool" where
  "wants_vecs flag \<longleftrightarrow> SOL_REACH_DEF flag \<or> SOL_AVAIL_REACH_DEF flag \<or> SOL_AVAIL_EXPR flag \<or> SOL_REGION_REF flag"

definition def_bb :: "RegionEnv \<Rightarrow> FlowCFG \<Rightarrow> SolFlag \<Rightarrow> nat \<Rightarrow> DefVecs option \<Rightarrow> DefVecs option" where
  "def_bb rg cfg flag b st =
     (case st of None \<Rightarrow> None | Some v \<Rightarrow>
        let v = (if SOL_REGION_REF flag
                 then v\<lparr>dv_mayuse := fold (\<lambda>ir S. S \<union> ir_mayuse ir (COMPUTE_PR_DU flag)) (fc_irs cfg b) (dv_mayuse v)\<rparr> else v)
        in if \<not> wants_vecs flag then Some v
           else case computeMustExactDefMayDefMayUseForBB rg flag (fc_irs cfg b) of
               None \<Rightarrow> None
             | Some d \<Rightarrow> Some (v\<lparr>dv_must := (dv_must v)(b := bb_mustdefmds d), dv_may := (dv_may v)(b := bb_maydefmds d),
                 dv_mgr := put_ss MayGenDef b (bb_maygendef d) (put_ss MustGenDef b (bb_mustgendef d) (dv_mgr v))\<rparr>))"

definition computeMustExactDefMayDefMayUse :: "RegionEnv \<Rightarrow> FlowCFG \<Rightarrow> SolFlag \<Rightarrow> SolveSetMgr \<Rightarrow> DefVecs option" where
  "computeMustExactDefMayDefMayUse rg cfg flag m =
     fold (def_bb rg cfg flag) (fc_bbs cfg) (Some \<lparr>dv_must = (\<lambda>b. {}), dv_may = (\<lambda>b. {}), dv_mayuse = {}, dv_mgr = m\<rparr>)"

section \<open>Killed definitions\<close>

definition livein_bb :: "FlowCFG \<Rightarrow> nat \<Rightarrow> bool \<times> SolveSetMgr \<Rightarrow> bool \<times> SolveSetMgr" where
  "livein_bb cfg b st =
     (case st of (change, m) \<Rightarrow>
        let m = gen_ss LiveInBB b m;
            (tmp, m) = fold (\<lambda>p (tmp, m). let m = gen_ss LiveInBB p m in (insert p (tmp \<union> sol m LiveInBB p), m)) (fc_preds cfg b) ({}, m)
        in if sol m LiveInBB b = tmp then (change, m) else (True, put_ss LiveInBB b tmp m))"

text \<open>\<open>while (change && count < 20)\<close>.\<close>

fun livein_loop :: "FlowCFG \<Rightarrow> nat \<Rightarrow> bool \<times> SolveSetMgr \<Rightarrow> bool \<times> SolveSetMgr" where
  "livein_loop cfg 0 st = st"
| "livein_loop cfg (Suc n) (change, m) =
     (if change then livein_loop cfg n (fold (livein_bb cfg) (fc_rpo cfg) (False, m)) else (change, m))"

definition computeLiveInBB :: "FlowCFG \<Rightarrow> SolveSetMgr \<Rightarrow> bool \<times> SolveSetMgr" where
  "computeLiveInBB cfg m = livein_loop cfg 20 (True, m)"

text \<open>Must-killed and may-killed statements go to one and the same output.\<close>

definition killed_by :: "RegionEnv \<Rightarrow> bool \<Rightarrow> bool \<Rightarrow> nat set \<Rightarrow> nat set \<Rightarrow> nat \<Rightarrow> bool" where
  "killed_by rg comp_must comp_may mustmds maymds i =
     (let stmt = rg_ir rg i
      in if comp_must \<and> getExactRef stmt = 0 then False
         else comp_must \<and> mdset_is_contain (rg_vars rg) (rg_region rg) mustmds (getExactRef stmt) \<or>
           comp_may \<and> (ir_md stmt \<noteq> 0 \<and> mdset_is_contain (rg_vars rg) (rg_region rg) mustmds (ir_md stmt) \<or>
             ir_mds stmt \<noteq> None \<and> maymds \<inter> the (ir_mds stmt) \<noteq> {}))"

definition computeKillSetByMayGenDef ::
  "RegionEnv \<Rightarrow> nat \<Rightarrow> bool \<Rightarrow> bool \<Rightarrow> nat set \<Rightarrow> nat set \<Rightarrow> SolveSetMgr \<Rightarrow> nat set \<Rightarrow> nat set \<times> SolveSetMgr" where
  "computeKillSetByMayGenDef rg bbid comp_must comp_may mustmds maymds m output =
     (let m = gen_ss MayGenDef bbid m
      in (output \<union> {i \<in> sol m MayGenDef bbid. killed_by rg comp_must comp_may mustmds maymds i}, m))"

definition computeKillSetByLiveInBB ::
  "RegionEnv \<Rightarrow> nat \<Rightarrow> bool \<Rightarrow> bool \<Rightarrow> nat set \<Rightarrow> nat set \<Rightarrow> SolveSetMgr \<Rightarrow> nat set \<Rightarrow> nat set \<times> SolveSetMgr" where
  "computeKillSetByLiveInBB rg bbid comp_must comp_may mustmds maymds m output =
     (let m = gen_ss LiveInBB bbid m
      in fold (\<lambda>i (output, m). if i = bbid then (output, m)
                 else computeKillSetByMayGenDef rg i comp_must comp_may mustmds maymds m output)
           (sorted_list_of_set (sol m LiveInBB bbid)) (output, m))"

definition kill_bb :: "RegionEnv \<Rightarrow> (nat \<Rightarrow> nat set) \<Rightarrow> (nat \<Rightarrow> nat set) \<Rightarrow> nat \<Rightarrow> SolveSetMgr \<Rightarrow> SolveSetMgr" where
  "kill_bb rg mustv mayv b m =
     (let comp_must = (mustv b \<noteq> {}); comp_may = (mayv b \<noteq> {})
      in if \<not> comp_must \<and> \<not> comp_may then set_ss MayKilledDef b None (set_ss MustKilledDef b None m)
         else (let tmp_may_killed_def = {};
                   (tmp_must_killed_def, m) = computeKillSetByLiveInBB rg b comp_must comp_may (mustv b) (mayv b) m {}
               in set_ss MayKilledDef b (if comp_may then Some tmp_may_killed_def else None)
                    (set_ss MustKilledDef b (if comp_must then Some tmp_must_killed_def else None) m)))"

definition computeKillSet :: "RegionEnv \<Rightarrow> FlowCFG \<Rightarrow> (nat \<Rightarrow> nat set) \<Rightarrow> (nat \<Rightarrow> nat set) \<Rightarrow> SolveSetMgr \<Rightarrow> SolveSetMgr" where
  "computeKillSet rg cfg mustv mayv m =
     reset_if_local LiveInBB (fold (kill_bb rg mustv mayv) (fc_bbs cfg) (snd (computeLiveInBB cfg m)))"

section \<open>Expressions\<close>

definition computeGenExprForMayDef :: "RegionEnv \<Rightarrow> IR \<Rightarrow> nat set \<Rightarrow> nat set" where
  "computeGenExprForMayDef rg ir gen_ir_expr =
     (if \<not> hasResult ir then gen_ir_expr else {j \<in> gen_ir_expr. \<not> rg_depend rg (ir_id ir) j})"

text \<open>\<open>ir_exps\<close> are the expressions the case of the statement's code looks at, in its order.\<close>

definition computeGenExprForStmt :: "RegionEnv \<Rightarrow> IR \<Rightarrow> nat set \<times> nat set \<Rightarrow> nat set \<times> nat set" where
  "computeGenExprForStmt rg ir st =
     (case st of (gen_ir_expr, expr_univers) \<Rightarrow>
        if ir_code ir \<in> {IR_REGION, IR_GOTO} then st
        else if ir_code ir \<in> {IR_SETELEM, IR_GETELEM} then (computeGenExprForMayDef rg ir gen_ir_expr, expr_univers)
        else let cands = exp_id ` {e \<in> set (ir_exps ir). exp_cand e};
                 gen_ir_expr = gen_ir_expr \<union> cands; expr_univers = expr_univers \<union> cands
             in if hasResult ir then (computeGenExprForMayDef rg ir gen_ir_expr, expr_univers) else (gen_ir_expr, expr_univers))"

definition computeGenExprForBB :: "RegionEnv \<Rightarrow> FlowCFG \<Rightarrow> nat \<Rightarrow> nat set \<times> SolveSetMgr \<Rightarrow> nat set \<times> SolveSetMgr" where
  "computeGenExprForBB rg cfg b st =
     (case st of (expr_univers, m) \<Rightarrow>
        case fold (computeGenExprForStmt rg) (fc_irs cfg b) ({}, expr_univers) of (gen_ir_expr, expr_univers) \<Rightarrow>
          (expr_univers, put_ss GenIRExpr b gen_ir_expr m))"

definition computeAuxSetForExpression ::
  "RegionEnv \<Rightarrow> FlowCFG \<Rightarrow> (nat \<Rightarrow> nat set) \<Rightarrow> (nat \<Rightarrow> nat set) \<Rightarrow> SolveSetMgr \<Rightarrow> nat set \<times> SolveSetMgr" where
  "computeAuxSetForExpression rg cfg mustv mayv m =
     (let (expr_universe, m) = fold (computeGenExprForBB rg cfg) (fc_bbs cfg) ({}, m)
      in (expr_universe,
          fold (\<lambda>b m. set_ss KilledIRExpr b
            (Some {i \<in> expr_universe. mayv b \<inter> exp_mayuse (rg_exp rg i) \<noteq> {} \<or> mustv b \<inter> exp_mayuse (rg_exp rg i) \<noteq> {}}) m) (fc_bbs cfg) m))"

section \<open>The region and the whole pass\<close>

definition outer_mds :: "RegionEnv \<Rightarrow> nat set \<Rightarrow> nat set" where
  "outer_mds rg mds = {i \<in> mds. \<not> md_is_pr (rg_vars rg) (getMD (rg_mds rg) i) \<and> MD_base (getMD (rg_mds rg) i) \<notin> rg_region rg}"

definition computeRegionMDDU :: "RegionEnv \<Rightarrow> FlowCFG \<Rightarrow> (nat \<Rightarrow> nat set) \<Rightarrow> (nat \<Rightarrow> nat set) \<Rightarrow> nat set \<Rightarrow> nat set \<times> nat set" where
  "computeRegionMDDU rg cfg mustv mayv mayuse =
     (fold (\<lambda>b S. S \<union> outer_mds rg (mustv b) \<union> outer_mds rg (mayv b)) (fc_bbs cfg) {}, outer_mds rg mayuse)"

text \<open>The result: the flag of the last pass, the region's references when asked for, and the manager.\<close>

definition perform_solve :: "RegionEnv \<Rightarrow> FlowCFG \<Rightarrow> SolFlag \<Rightarrow> SolveSetMgr \<Rightarrow> (bool \<times> (nat set \<times> nat set) option \<times> SolveSetMgr) option" where
  "perform_solve rg cfg flag m =
     (case computeMustExactDefMayDefMayUse rg cfg flag m of None \<Rightarrow> None | Some v \<Rightarrow>
        let m = dv_mgr v;
            m = (if SOL_REACH_DEF flag \<or> SOL_AVAIL_REACH_DEF flag then computeKillSet rg cfg (dv_must v) (dv_may v) m else m);
            (expr_univers, m) = (if SOL_AVAIL_EXPR flag then computeAuxSetForExpression rg cfg (dv_must v) (dv_may v) m else ({}, m));
            m = resetAllKillSet m;
            region = (if SOL_REGION_REF flag then Some (computeRegionMDDU rg cfg (dv_must v) (dv_may v) (dv_mayuse v)) else None)
        in case (if SOL_REACH_DEF flag \<or> SOL_AVAIL_REACH_DEF flag \<or> SOL_AVAIL_EXPR flag then solve_sets cfg expr_univers flag m else Some (False, m)) of
             None \<Rightarrow> None
           | Some (change, m) \<Rightarrow> Some (change, region, resetLocalSet m))"

end
