(* ===== verification/SolveProps.thy ===== *)
theory SolveProps
  imports SolveGen
begin

text \<open>
  What the iteration of the solver computes. The three problems touch different sets, so each is proved apart: one block
  changes the sets of one problem at one block, and the sets of the others and the local sets stay.
\<close>

section \<open>The named sets\<close>

lemma sol_put [simp]: "sol (put_ss n b S m) n' b' = (if n' = n \<and> b' = b then S else sol m n' b')"
  by (simp add: sol_def put_ss_def)

lemma sol_put_eq: "sol (put_ss n b S m) = (sol m)(n := (sol m n)(b := S))"
  by (intro ext) simp

lemma sol_gen [simp]: "sol (gen_ss n b m) = sol m"
  by (intro ext) (simp add: gen_ss_def sol_def put_ss_def split: option.split)

lemma sol_gens [simp]: "sol (fold (gen_ss n) bs m) = sol m"
  by (induction bs arbitrary: m) simp_all

lemma get_ss_simps [simp]:
  "get_ss n' b' (put_ss n b S m) = (if n' = n \<and> b' = b then Some S else get_ss n' b' m)"
  "get_ss n' b' (gen_ss n b m) = (if n' = n \<and> b' = b then Some (sol m n b) else get_ss n' b' m)"
  by (auto simp: get_ss_def put_ss_def gen_ss_def sol_def split: option.splits)

lemma get_sol: "get_ss n b m = Some S \<Longrightarrow> sol m n b = S"
  by (simp add: get_ss_def sol_def)

lemma diff_killed: "(case get_ss n b m of None \<Rightarrow> X | Some K \<Rightarrow> X - K) = X - sol m n b"
  by (simp add: get_ss_def sol_def split: option.split)

definition has_set :: "SolveSetMgr \<Rightarrow> SetName \<Rightarrow> nat \<Rightarrow> bool" where
  "has_set m n b \<longleftrightarrow> get_ss n b m \<noteq> None"

lemma has_put [simp]: "has_set (put_ss n b S m) n' b' \<longleftrightarrow> n' = n \<and> b' = b \<or> has_set m n' b'"
  by (auto simp: has_set_def)

lemma has_gen [simp]: "has_set (gen_ss n b m) n' b' \<longleftrightarrow> n' = n \<and> b' = b \<or> has_set m n' b'"
  by (auto simp: has_set_def)

lemma has_gens [simp]: "has_set (fold (gen_ss n) bs m) n' b' \<longleftrightarrow> n' = n \<and> b' \<in> set bs \<or> has_set m n' b'"
  by (induction bs arbitrary: m) auto

lemma fold_union: "fold (\<lambda>q S. S \<union> f q) ps A = A \<union> (\<Union>q\<in>set ps. f q)"
  by (induction ps arbitrary: A) auto

lemma fold_inter: "fold (\<lambda>q S. S \<inter> f q) ps A = A \<inter> (\<Inter>q\<in>set ps. f q)"
  by (induction ps arbitrary: A) auto

section \<open>One block\<close>

definition in_union :: "FlowCFG \<Rightarrow> SolveSetMgr \<Rightarrow> SetName \<Rightarrow> SetName \<Rightarrow> nat \<Rightarrow> nat set" where
  "in_union cfg m i out b = (if fc_preds cfg b = [] then sol m i b else \<Union>p\<in>set (fc_preds cfg b). sol m out p)"

definition in_inter :: "FlowCFG \<Rightarrow> SolveSetMgr \<Rightarrow> SetName \<Rightarrow> SetName \<Rightarrow> nat \<Rightarrow> nat set" where
  "in_inter cfg m i out b = (if fc_preds cfg b = [] then sol m i b else \<Inter>p\<in>set (fc_preds cfg b). sol m out p)"

definition transfer :: "SolveSetMgr \<Rightarrow> SetName \<Rightarrow> SetName \<Rightarrow> nat \<Rightarrow> nat set \<Rightarrow> nat set" where
  "transfer m kill gen b I = (I - sol m kill b) \<union> sol m gen b"

definition updated :: "SolveSetMgr \<Rightarrow> SolveSetMgr \<Rightarrow> SetName \<Rightarrow> SetName \<Rightarrow> nat \<Rightarrow> nat set \<Rightarrow> nat set \<Rightarrow> bool" where
  "updated m m' i out b I X \<longleftrightarrow> sol m' = (sol m)(i := (sol m i)(b := I), out := (sol m out)(b := X)) \<and>
     (\<forall>n c. has_set m n c \<longrightarrow> has_set m' n c)"

lemma ForReachDef_ok:
  assumes "\<forall>p\<in>insert b (set (fc_preds cfg b)). has_set m ReachDefOut p"
  defines "I \<equiv> in_union cfg m ReachDefIn ReachDefOut b"
  defines "X \<equiv> transfer m MustKilledDef MayGenDef b I"
  shows "\<exists>m'. ForReachDef cfg b m = Some (X \<noteq> sol m ReachDefOut b, m') \<and> updated m m' ReachDefIn ReachDefOut b I X"
proof -
  let ?m0 = "gen_ss ReachDefIn b m"
  have outs: "those (map (\<lambda>p. get_ss ReachDefOut p ?m0) ps) = Some (map (sol m ReachDefOut) ps)"
    if "\<forall>p\<in>set ps. has_set m ReachDefOut p" for ps
    using that by (induction ps) (auto simp: has_set_def dest: get_sol)
  define m1 where "m1 = (case map (sol m ReachDefOut) (fc_preds cfg b) of [] \<Rightarrow> ?m0 | out # os \<Rightarrow> put_ss ReachDefIn b (fold (\<lambda>out S. S \<union> out) os out) ?m0)"
  have f: "fold (\<lambda>out S. S \<union> out) (map (sol m ReachDefOut) ps) A = A \<union> (\<Union>p\<in>set ps. sol m ReachDefOut p)" for ps A
    by (induction ps arbitrary: A) auto
  have m1: "sol m1 = (sol m)(ReachDefIn := (sol m ReachDefIn)(b := I))" "\<And>n c. has_set m n c \<Longrightarrow> has_set m1 n c"
    by (cases "fc_preds cfg b"; auto simp: m1_def I_def in_union_def sol_put_eq f fun_upd_triv)+
  obtain S where S: "get_ss ReachDefOut b (gen_ss MayGenDef b m1) = Some S"
    using m1(2) assms(1) by (fastforce simp: has_set_def)
  then have "S = sol m ReachDefOut b" using get_sol [OF S] m1(1) by simp
  then have "ForReachDef cfg b m = Some (if sol m ReachDefOut b \<noteq> X then (True, put_ss ReachDefOut b X (gen_ss MayGenDef b m1)) else (False, gen_ss MayGenDef b m1))"
    using S outs [of "fc_preds cfg b"] assms(1) m1(1)
    by (simp add: ForReachDef_def Let_def m1_def [symmetric] diff_killed X_def transfer_def)
  moreover have "updated m (put_ss ReachDefOut b X (gen_ss MayGenDef b m1)) ReachDefIn ReachDefOut b I X"
    using m1 by (auto simp: updated_def sol_put_eq)
  moreover have "updated m (gen_ss MayGenDef b m1) ReachDefIn ReachDefOut b I X" if "sol m ReachDefOut b = X"
    using m1 that by (auto simp: updated_def fun_upd_idem_iff)
  ultimately show ?thesis by auto
qed

lemma ForAvailReachDef_ok:
  fixes cfg m b
  defines "I \<equiv> in_inter cfg m AvailReachDefIn AvailReachDefOut b"
  defines "X \<equiv> transfer m MayKilledDef MustGenDef b I"
  shows "\<exists>m'. ForAvailReachDef cfg b m = (X \<noteq> sol m AvailReachDefOut b, m') \<and> updated m m' AvailReachDefIn AvailReachDefOut b I X"
proof -
  let ?m0 = "fold (gen_ss AvailReachDefOut) (fc_preds cfg b) (gen_ss AvailReachDefIn b m)"
  define m1 where "m1 = (case fc_preds cfg b of [] \<Rightarrow> ?m0
    | p # ps \<Rightarrow> put_ss AvailReachDefIn b (fold (\<lambda>q S. S \<inter> sol ?m0 AvailReachDefOut q) ps (sol ?m0 AvailReachDefOut p)) ?m0)"
  have m1: "sol m1 = (sol m)(AvailReachDefIn := (sol m AvailReachDefIn)(b := I))" "\<And>n c. has_set m n c \<Longrightarrow> has_set m1 n c"
    by (cases "fc_preds cfg b"; auto simp: m1_def I_def in_inter_def sol_put_eq fold_inter fun_upd_triv)+
  let ?m2 = "gen_ss AvailReachDefOut b (gen_ss MustGenDef b m1)"
  have "ForAvailReachDef cfg b m = (if sol m AvailReachDefOut b \<noteq> X then (True, put_ss AvailReachDefOut b X ?m2) else (False, ?m2))"
    using m1(1) by (simp add: ForAvailReachDef_def Let_def m1_def [symmetric] diff_killed X_def transfer_def)
  moreover have "updated m (put_ss AvailReachDefOut b X ?m2) AvailReachDefIn AvailReachDefOut b I X"
    using m1 by (auto simp: updated_def sol_put_eq)
  moreover have "updated m ?m2 AvailReachDefIn AvailReachDefOut b I X" if "sol m AvailReachDefOut b = X"
    using m1 that by (auto simp: updated_def fun_upd_idem_iff)
  ultimately show ?thesis by auto
qed

lemma ForAvailExpression_ok:
  fixes cfg m b
  defines "I \<equiv> in_union cfg m AvailExprIn AvailExprOut b"
  defines "X \<equiv> transfer m KilledIRExpr GenIRExpr b I"
  shows "\<exists>m'. ForAvailExpression cfg b m = (X \<noteq> sol m AvailExprOut b, m') \<and> updated m m' AvailExprIn AvailExprOut b I X"
proof -
  let ?m0 = "fold (gen_ss AvailExprOut) (fc_preds cfg b) (gen_ss AvailExprIn b m)"
  define m1 where "m1 = (case fc_preds cfg b of [] \<Rightarrow> ?m0
    | p # ps \<Rightarrow> put_ss AvailExprIn b (fold (\<lambda>q S. S \<union> sol ?m0 AvailExprOut q) ps (sol ?m0 AvailExprOut p)) ?m0)"
  have m1: "sol m1 = (sol m)(AvailExprIn := (sol m AvailExprIn)(b := I))" "\<And>n c. has_set m n c \<Longrightarrow> has_set m1 n c"
    by (cases "fc_preds cfg b"; auto simp: m1_def I_def in_union_def sol_put_eq fold_union fun_upd_triv)+
  let ?m2 = "gen_ss AvailExprOut b (gen_ss GenIRExpr b m1)"
  have "ForAvailExpression cfg b m = (if sol m AvailExprOut b \<noteq> X then (True, put_ss AvailExprOut b X ?m2) else (False, ?m2))"
    using m1(1) by (simp add: ForAvailExpression_def Let_def m1_def [symmetric] diff_killed X_def transfer_def)
  moreover have "updated m (put_ss AvailExprOut b X ?m2) AvailExprIn AvailExprOut b I X"
    using m1 by (auto simp: updated_def sol_put_eq)
  moreover have "updated m ?m2 AvailExprIn AvailExprOut b I X" if "sol m AvailExprOut b = X"
    using m1 that by (auto simp: updated_def fun_upd_idem_iff)
  ultimately show ?thesis by auto
qed

section \<open>The equations on sets\<close>

text \<open>In-sets, out-sets and whether an out-set changed; \<open>J\<close> is the union or the intersection.\<close>

type_synonym view = "(nat \<Rightarrow> nat set) \<times> (nat \<Rightarrow> nat set)"

definition gstep :: "(nat set set \<Rightarrow> nat set) \<Rightarrow> (nat \<Rightarrow> nat list) \<Rightarrow> (nat \<Rightarrow> nat set) \<Rightarrow> (nat \<Rightarrow> nat set) \<Rightarrow> nat \<Rightarrow> view \<times> bool \<Rightarrow> view \<times> bool" where
  "gstep J preds K G b st =
     (case st of ((I, Ou), c) \<Rightarrow>
        let X = (if preds b = [] then I b else J (Ou ` set (preds b))); Y = (X - K b) \<union> G b
        in ((I(b := X), Ou(b := Y)), c \<or> Y \<noteq> Ou b))"

definition gpass :: "(nat set set \<Rightarrow> nat set) \<Rightarrow> (nat \<Rightarrow> nat list) \<Rightarrow> (nat \<Rightarrow> nat set) \<Rightarrow> (nat \<Rightarrow> nat set) \<Rightarrow> nat list \<Rightarrow> view \<Rightarrow> view \<times> bool" where
  "gpass J preds K G bs v = fold (gstep J preds K G) bs (v, False)"

definition rd_view :: "SolveSetMgr \<Rightarrow> view" where
  "rd_view m = (sol m ReachDefIn, sol m ReachDefOut)"

definition ard_view :: "SolveSetMgr \<Rightarrow> view" where
  "ard_view m = (sol m AvailReachDefIn, sol m AvailReachDefOut)"

definition ae_view :: "SolveSetMgr \<Rightarrow> view" where
  "ae_view m = (sol m AvailExprIn, sol m AvailExprOut)"

definition local_names :: "SetName set" where
  "local_names = {GenIRExpr, MayGenDef, MustGenDef, MayKilledDef, MustKilledDef, KilledIRExpr, LiveInBB}"

abbreviation "rd_step cfg m \<equiv> gstep Union (fc_preds cfg) (sol m MustKilledDef) (sol m MayGenDef)"
abbreviation "ard_step cfg m \<equiv> gstep Inter (fc_preds cfg) (sol m MayKilledDef) (sol m MustGenDef)"
abbreviation "ae_step cfg m \<equiv> gstep Union (fc_preds cfg) (sol m KilledIRExpr) (sol m GenIRExpr)"

lemma flag_step: "gstep J preds K G b (v, c) = (fst (gstep J preds K G b (v, False)), c \<or> snd (gstep J preds K G b (v, False)))"
  by (cases v) (simp add: gstep_def Let_def)

lemma flag_fold: "fold (gstep J preds K G) bs (v, c) = (fst (gpass J preds K G bs v), c \<or> snd (gpass J preds K G bs v))"
proof (induction bs arbitrary: v c)
  case (Cons b bs)
  have e: "fold (gstep J preds K G) bs (gstep J preds K G b (v, c)) =
      (fst (gpass J preds K G bs (fst (gstep J preds K G b (v, False)))),
       (c \<or> snd (gstep J preds K G b (v, False))) \<or> snd (gpass J preds K G bs (fst (gstep J preds K G b (v, False)))))" for c
    using Cons.IH [of "fst (gstep J preds K G b (v, False))"] flag_step [of J preds K G b v c] by simp
  show ?case using e [of c] e [of False] by (simp add: gpass_def)
qed (simp add: gpass_def)

lemma updatedD:
  "updated m m' i out b I X \<Longrightarrow> i \<noteq> out \<Longrightarrow> sol m' i = (sol m i)(b := I) \<and> sol m' out = (sol m out)(b := X) \<and>
     (\<forall>n. n \<noteq> i \<and> n \<noteq> out \<longrightarrow> sol m' n = sol m n) \<and> (\<forall>n c. has_set m n c \<longrightarrow> has_set m' n c)"
  by (simp add: updated_def)

lemma rd_block:
  assumes "\<forall>p\<in>insert b (set (fc_preds cfg b)). has_set m ReachDefOut p"
  shows "\<exists>m'. ForReachDef cfg b m = Some (snd (rd_step cfg m b (rd_view m, False)), m') \<and> rd_view m' = fst (rd_step cfg m b (rd_view m, False)) \<and>
    (\<forall>n. n \<noteq> ReachDefIn \<and> n \<noteq> ReachDefOut \<longrightarrow> sol m' n = sol m n) \<and> (\<forall>n c. has_set m n c \<longrightarrow> has_set m' n c)"
proof -
  define X where "X = transfer m MustKilledDef MayGenDef b (in_union cfg m ReachDefIn ReachDefOut b)"
  have e: "rd_step cfg m b (rd_view m, False) = (((sol m ReachDefIn)(b := in_union cfg m ReachDefIn ReachDefOut b), (sol m ReachDefOut)(b := X)), X \<noteq> sol m ReachDefOut b)"
    by (simp add: gstep_def rd_view_def Let_def X_def transfer_def in_union_def)
  obtain m' where "ForReachDef cfg b m = Some (X \<noteq> sol m ReachDefOut b, m')" "updated m m' ReachDefIn ReachDefOut b (in_union cfg m ReachDefIn ReachDefOut b) X"
    using ForReachDef_ok [OF assms] unfolding X_def by blast
  then show ?thesis using updatedD [of m m' ReachDefIn ReachDefOut] unfolding e by (simp add: rd_view_def)
qed

lemma ard_block:
  "\<exists>m'. ForAvailReachDef cfg b m = (snd (ard_step cfg m b (ard_view m, False)), m') \<and> ard_view m' = fst (ard_step cfg m b (ard_view m, False)) \<and>
    (\<forall>n. n \<noteq> AvailReachDefIn \<and> n \<noteq> AvailReachDefOut \<longrightarrow> sol m' n = sol m n) \<and> (\<forall>n c. has_set m n c \<longrightarrow> has_set m' n c)"
proof -
  define X where "X = transfer m MayKilledDef MustGenDef b (in_inter cfg m AvailReachDefIn AvailReachDefOut b)"
  have e: "ard_step cfg m b (ard_view m, False) = (((sol m AvailReachDefIn)(b := in_inter cfg m AvailReachDefIn AvailReachDefOut b), (sol m AvailReachDefOut)(b := X)), X \<noteq> sol m AvailReachDefOut b)"
    by (simp add: gstep_def ard_view_def Let_def X_def transfer_def in_inter_def)
  obtain m' where "ForAvailReachDef cfg b m = (X \<noteq> sol m AvailReachDefOut b, m')" "updated m m' AvailReachDefIn AvailReachDefOut b (in_inter cfg m AvailReachDefIn AvailReachDefOut b) X"
    using ForAvailReachDef_ok [of cfg b m] unfolding X_def by blast
  then show ?thesis using updatedD [of m m' AvailReachDefIn AvailReachDefOut] unfolding e by (simp add: ard_view_def)
qed

lemma ae_block:
  "\<exists>m'. ForAvailExpression cfg b m = (snd (ae_step cfg m b (ae_view m, False)), m') \<and> ae_view m' = fst (ae_step cfg m b (ae_view m, False)) \<and>
    (\<forall>n. n \<noteq> AvailExprIn \<and> n \<noteq> AvailExprOut \<longrightarrow> sol m' n = sol m n) \<and> (\<forall>n c. has_set m n c \<longrightarrow> has_set m' n c)"
proof -
  define X where "X = transfer m KilledIRExpr GenIRExpr b (in_union cfg m AvailExprIn AvailExprOut b)"
  have e: "ae_step cfg m b (ae_view m, False) = (((sol m AvailExprIn)(b := in_union cfg m AvailExprIn AvailExprOut b), (sol m AvailExprOut)(b := X)), X \<noteq> sol m AvailExprOut b)"
    by (simp add: gstep_def ae_view_def Let_def X_def transfer_def in_union_def)
  obtain m' where "ForAvailExpression cfg b m = (X \<noteq> sol m AvailExprOut b, m')" "updated m m' AvailExprIn AvailExprOut b (in_union cfg m AvailExprIn AvailExprOut b) X"
    using ForAvailExpression_ok [of cfg b m] unfolding X_def by blast
  then show ?thesis using updatedD [of m m' AvailExprIn AvailExprOut] unfolding e by (simp add: ae_view_def)
qed

lemma solve_block_ok:
  assumes h: "SOL_REACH_DEF flag \<Longrightarrow> \<forall>p\<in>insert b (set (fc_preds cfg b)). has_set m ReachDefOut p"
  shows "\<exists>m'. solve_block cfg flag b (Some (ch, m)) = Some (ch \<or>
        SOL_AVAIL_REACH_DEF flag \<and> snd (ard_step cfg m b (ard_view m, False)) \<or>
        SOL_REACH_DEF flag \<and> snd (rd_step cfg m b (rd_view m, False)) \<or>
        SOL_AVAIL_EXPR flag \<and> snd (ae_step cfg m b (ae_view m, False)), m') \<and>
      rd_view m' = (if SOL_REACH_DEF flag then fst (rd_step cfg m b (rd_view m, False)) else rd_view m) \<and>
      ard_view m' = (if SOL_AVAIL_REACH_DEF flag then fst (ard_step cfg m b (ard_view m, False)) else ard_view m) \<and>
      ae_view m' = (if SOL_AVAIL_EXPR flag then fst (ae_step cfg m b (ae_view m, False)) else ae_view m) \<and>
      (\<forall>n\<in>local_names. sol m' n = sol m n) \<and> (\<forall>n c. has_set m n c \<longrightarrow> has_set m' n c)"
proof -
  obtain c1 m1 where m1: "(if SOL_AVAIL_REACH_DEF flag then ForAvailReachDef cfg b m else (False, m)) = (c1, m1)"
    "c1 = (SOL_AVAIL_REACH_DEF flag \<and> snd (ard_step cfg m b (ard_view m, False)))"
    "ard_view m1 = (if SOL_AVAIL_REACH_DEF flag then fst (ard_step cfg m b (ard_view m, False)) else ard_view m)"
    "\<forall>n. n \<noteq> AvailReachDefIn \<and> n \<noteq> AvailReachDefOut \<longrightarrow> sol m1 n = sol m n" "\<forall>n c. has_set m n c \<longrightarrow> has_set m1 n c"
  proof (cases "SOL_AVAIL_REACH_DEF flag")
    case True
    obtain m' where "ForAvailReachDef cfg b m = (snd (ard_step cfg m b (ard_view m, False)), m')" "ard_view m' = fst (ard_step cfg m b (ard_view m, False))"
      "\<forall>n. n \<noteq> AvailReachDefIn \<and> n \<noteq> AvailReachDefOut \<longrightarrow> sol m' n = sol m n" "\<forall>n c. has_set m n c \<longrightarrow> has_set m' n c"
      using ard_block [of cfg b m] by blast
    then show ?thesis using True by (intro that [of "snd (ard_step cfg m b (ard_view m, False))" m']) simp_all
  next
    case False
    then show ?thesis by (intro that [of False m]) simp_all
  qed
  have h1: "SOL_REACH_DEF flag \<Longrightarrow> \<forall>p\<in>insert b (set (fc_preds cfg b)). has_set m1 ReachDefOut p" using h m1(5) by blast
  have v1: "rd_view m1 = rd_view m" "ae_view m1 = ae_view m" "\<forall>n\<in>local_names. sol m1 n = sol m n"
    using m1(4) by (auto simp: rd_view_def ae_view_def local_names_def)
  obtain c2 m2 where m2: "(if SOL_REACH_DEF flag then ForReachDef cfg b m1 else Some (False, m1)) = Some (c2, m2)"
    "c2 = (SOL_REACH_DEF flag \<and> snd (rd_step cfg m1 b (rd_view m1, False)))"
    "rd_view m2 = (if SOL_REACH_DEF flag then fst (rd_step cfg m1 b (rd_view m1, False)) else rd_view m1)"
    "\<forall>n. n \<noteq> ReachDefIn \<and> n \<noteq> ReachDefOut \<longrightarrow> sol m2 n = sol m1 n" "\<forall>n c. has_set m1 n c \<longrightarrow> has_set m2 n c"
  proof (cases "SOL_REACH_DEF flag")
    case True
    obtain m' where "ForReachDef cfg b m1 = Some (snd (rd_step cfg m1 b (rd_view m1, False)), m')" "rd_view m' = fst (rd_step cfg m1 b (rd_view m1, False))"
      "\<forall>n. n \<noteq> ReachDefIn \<and> n \<noteq> ReachDefOut \<longrightarrow> sol m' n = sol m1 n" "\<forall>n c. has_set m1 n c \<longrightarrow> has_set m' n c"
      using rd_block [of b cfg m1, OF h1 [OF True]] by blast
    then show ?thesis using True by (intro that [of "snd (rd_step cfg m1 b (rd_view m1, False))" m']) simp_all
  next
    case False
    then show ?thesis by (intro that [of False m1]) simp_all
  qed
  have v2: "ard_view m2 = ard_view m1" "ae_view m2 = ae_view m1" "\<forall>n\<in>local_names. sol m2 n = sol m1 n"
    using m2(4) by (auto simp: ard_view_def ae_view_def local_names_def)
  obtain c3 m3 where m3: "(if SOL_AVAIL_EXPR flag then ForAvailExpression cfg b m2 else (False, m2)) = (c3, m3)"
    "c3 = (SOL_AVAIL_EXPR flag \<and> snd (ae_step cfg m2 b (ae_view m2, False)))"
    "ae_view m3 = (if SOL_AVAIL_EXPR flag then fst (ae_step cfg m2 b (ae_view m2, False)) else ae_view m2)"
    "\<forall>n. n \<noteq> AvailExprIn \<and> n \<noteq> AvailExprOut \<longrightarrow> sol m3 n = sol m2 n" "\<forall>n c. has_set m2 n c \<longrightarrow> has_set m3 n c"
  proof (cases "SOL_AVAIL_EXPR flag")
    case True
    obtain m' where "ForAvailExpression cfg b m2 = (snd (ae_step cfg m2 b (ae_view m2, False)), m')" "ae_view m' = fst (ae_step cfg m2 b (ae_view m2, False))"
      "\<forall>n. n \<noteq> AvailExprIn \<and> n \<noteq> AvailExprOut \<longrightarrow> sol m' n = sol m2 n" "\<forall>n c. has_set m2 n c \<longrightarrow> has_set m' n c"
      using ae_block [of cfg b m2] by blast
    then show ?thesis using True by (intro that [of "snd (ae_step cfg m2 b (ae_view m2, False))" m']) simp_all
  next
    case False
    then show ?thesis by (intro that [of False m2]) simp_all
  qed
  have v3: "rd_view m3 = rd_view m2" "ard_view m3 = ard_view m2" "\<forall>n\<in>local_names. sol m3 n = sol m2 n"
    using m3(4) by (auto simp: rd_view_def ard_view_def local_names_def)
  have l: "sol m1 MustKilledDef = sol m MustKilledDef" "sol m1 MayGenDef = sol m MayGenDef"
    "sol m2 KilledIRExpr = sol m KilledIRExpr" "sol m2 GenIRExpr = sol m GenIRExpr"
    using v1(3) v2(3) by (auto simp: local_names_def)
  have "solve_block cfg flag b (Some (ch, m)) = Some (ch \<or> c1 \<or> c2 \<or> c3, m3)"
    using m1(1) m2(1) m3(1) by (simp add: solve_block_def Let_def)
  then show ?thesis using m1(2,3,5) m2(2,3,5) m3(2,3,5) v1 v2 v3 unfolding l by (intro exI [of _ m3]) simp
qed

section \<open>Passes\<close>

abbreviation "rd_pass cfg m \<equiv> gpass Union (fc_preds cfg) (sol m MustKilledDef) (sol m MayGenDef)"
abbreviation "ard_pass cfg m \<equiv> gpass Inter (fc_preds cfg) (sol m MayKilledDef) (sol m MustGenDef)"
abbreviation "ae_pass cfg m \<equiv> gpass Union (fc_preds cfg) (sol m KilledIRExpr) (sol m GenIRExpr)"

definition same_local :: "SolveSetMgr \<Rightarrow> SolveSetMgr \<Rightarrow> bool" where
  "same_local m m' \<longleftrightarrow> (\<forall>n\<in>local_names. sol m' n = sol m n)"

lemma same_localD:
  "same_local m m' \<Longrightarrow> sol m' MustKilledDef = sol m MustKilledDef \<and> sol m' MayGenDef = sol m MayGenDef \<and>
     sol m' MayKilledDef = sol m MayKilledDef \<and> sol m' MustGenDef = sol m MustGenDef \<and>
     sol m' KilledIRExpr = sol m KilledIRExpr \<and> sol m' GenIRExpr = sol m GenIRExpr"
  by (simp add: same_local_def local_names_def)

definition flow_closed :: "FlowCFG \<Rightarrow> bool" where
  "flow_closed cfg \<longleftrightarrow> set (fc_rpo cfg) = set (fc_bbs cfg) \<and> (\<forall>b\<in>set (fc_bbs cfg). set (fc_preds cfg b) \<subseteq> set (fc_bbs cfg))"

definition has_outs :: "FlowCFG \<Rightarrow> SolFlag \<Rightarrow> SolveSetMgr \<Rightarrow> bool" where
  "has_outs cfg flag m \<longleftrightarrow> (SOL_REACH_DEF flag \<longrightarrow> (\<forall>b\<in>set (fc_bbs cfg). has_set m ReachDefOut b))"

definition upd_if :: "bool \<Rightarrow> (view \<Rightarrow> view \<times> bool) \<Rightarrow> view \<Rightarrow> view" where
  "upd_if act f v = (if act then fst (f v) else v)"

lemma gpass_Cons:
  "gpass J preds K G (b # bs) v = (fst (gpass J preds K G bs (fst (gstep J preds K G b (v, False)))),
     snd (gstep J preds K G b (v, False)) \<or> snd (gpass J preds K G bs (fst (gstep J preds K G b (v, False)))))"
  using flag_fold [of J preds K G bs "fst (gstep J preds K G b (v, False))" "snd (gstep J preds K G b (v, False))"]
  by (simp add: gpass_def)

lemma gpass_Nil [simp]: "gpass J preds K G [] v = (v, False)"
  by (simp add: gpass_def)

lemma rpo_fold_ok:
  assumes cl: "flow_closed cfg"
  shows "set bs \<subseteq> set (fc_bbs cfg) \<Longrightarrow> has_outs cfg flag m \<Longrightarrow>
    \<exists>m'. fold (solve_block cfg flag) bs (Some (ch, m)) = Some (ch \<or>
        SOL_AVAIL_REACH_DEF flag \<and> snd (ard_pass cfg m bs (ard_view m)) \<or>
        SOL_REACH_DEF flag \<and> snd (rd_pass cfg m bs (rd_view m)) \<or>
        SOL_AVAIL_EXPR flag \<and> snd (ae_pass cfg m bs (ae_view m)), m') \<and>
      rd_view m' = upd_if (SOL_REACH_DEF flag) (rd_pass cfg m bs) (rd_view m) \<and>
      ard_view m' = upd_if (SOL_AVAIL_REACH_DEF flag) (ard_pass cfg m bs) (ard_view m) \<and>
      ae_view m' = upd_if (SOL_AVAIL_EXPR flag) (ae_pass cfg m bs) (ae_view m) \<and>
      same_local m m' \<and> has_outs cfg flag m'"
proof (induction bs arbitrary: ch m)
  case (Cons b bs)
  have h: "\<forall>p\<in>insert b (set (fc_preds cfg b)). has_set m ReachDefOut p" if "SOL_REACH_DEF flag"
  proof -
    have "insert b (set (fc_preds cfg b)) \<subseteq> set (fc_bbs cfg)" using Cons.prems(1) cl by (simp add: flow_closed_def)
    then show ?thesis using Cons.prems(2) that unfolding has_outs_def by blast
  qed
  define ch1 where "ch1 \<longleftrightarrow> ch \<or> SOL_AVAIL_REACH_DEF flag \<and> snd (ard_step cfg m b (ard_view m, False)) \<or>
        SOL_REACH_DEF flag \<and> snd (rd_step cfg m b (rd_view m, False)) \<or>
        SOL_AVAIL_EXPR flag \<and> snd (ae_step cfg m b (ae_view m, False))"
  obtain m1 where m1: "solve_block cfg flag b (Some (ch, m)) = Some (ch1, m1)"
    "rd_view m1 = (if SOL_REACH_DEF flag then fst (rd_step cfg m b (rd_view m, False)) else rd_view m)"
    "ard_view m1 = (if SOL_AVAIL_REACH_DEF flag then fst (ard_step cfg m b (ard_view m, False)) else ard_view m)"
    "ae_view m1 = (if SOL_AVAIL_EXPR flag then fst (ae_step cfg m b (ae_view m, False)) else ae_view m)"
    "same_local m m1" "\<forall>n c. has_set m n c \<longrightarrow> has_set m1 n c"
    using solve_block_ok [OF h, where ch = ch] unfolding ch1_def same_local_def by blast
  have o: "has_outs cfg flag m1" using m1(6) Cons.prems(2) by (simp add: has_outs_def)
  note l = same_localD [OF m1(5)]
  obtain m2 where m2: "fold (solve_block cfg flag) bs (Some (ch1, m1)) = Some (ch1 \<or>
        SOL_AVAIL_REACH_DEF flag \<and> snd (ard_pass cfg m bs (ard_view m1)) \<or>
        SOL_REACH_DEF flag \<and> snd (rd_pass cfg m bs (rd_view m1)) \<or>
        SOL_AVAIL_EXPR flag \<and> snd (ae_pass cfg m bs (ae_view m1)), m2)"
      "rd_view m2 = upd_if (SOL_REACH_DEF flag) (rd_pass cfg m bs) (rd_view m1)"
      "ard_view m2 = upd_if (SOL_AVAIL_REACH_DEF flag) (ard_pass cfg m bs) (ard_view m1)"
      "ae_view m2 = upd_if (SOL_AVAIL_EXPR flag) (ae_pass cfg m bs) (ae_view m1)"
      "same_local m1 m2" "has_outs cfg flag m2"
    using Cons.IH [of m1 ch1] Cons.prems(1) o l by auto
  have s: "same_local m m2" using m1(5) m2(5) by (simp add: same_local_def)
  show ?case
    using m1(1-4) m2(1-4,6) s
    by (intro exI [of _ m2]) (auto simp: gpass_Cons upd_if_def ch1_def)
qed (simp add: upd_if_def same_local_def)

lemma rpo_pass_ok:
  assumes "flow_closed cfg" "has_outs cfg flag m"
  shows "\<exists>ch m'. rpo_pass cfg flag m = Some (ch, m') \<and> same_local m m' \<and> has_outs cfg flag m' \<and>
    (\<not> ch \<longrightarrow> (SOL_AVAIL_REACH_DEF flag \<longrightarrow> \<not> snd (ard_pass cfg m (fc_rpo cfg) (ard_view m))) \<and>
        (SOL_REACH_DEF flag \<longrightarrow> \<not> snd (rd_pass cfg m (fc_rpo cfg) (rd_view m))) \<and>
        (SOL_AVAIL_EXPR flag \<longrightarrow> \<not> snd (ae_pass cfg m (fc_rpo cfg) (ae_view m)))) \<and>
    (ch \<longrightarrow> SOL_AVAIL_REACH_DEF flag \<and> snd (ard_pass cfg m (fc_rpo cfg) (ard_view m)) \<or>
        SOL_REACH_DEF flag \<and> snd (rd_pass cfg m (fc_rpo cfg) (rd_view m)) \<or>
        SOL_AVAIL_EXPR flag \<and> snd (ae_pass cfg m (fc_rpo cfg) (ae_view m))) \<and>
    rd_view m' = upd_if (SOL_REACH_DEF flag) (rd_pass cfg m (fc_rpo cfg)) (rd_view m) \<and>
    ard_view m' = upd_if (SOL_AVAIL_REACH_DEF flag) (ard_pass cfg m (fc_rpo cfg)) (ard_view m) \<and>
    ae_view m' = upd_if (SOL_AVAIL_EXPR flag) (ae_pass cfg m (fc_rpo cfg)) (ae_view m)"
proof -
  have "set (fc_rpo cfg) \<subseteq> set (fc_bbs cfg)" using assms(1) by (simp add: flow_closed_def)
  from rpo_fold_ok [OF assms(1) this assms(2), of False] show ?thesis unfolding rpo_pass_def by auto
qed

end
