(* ===== verification/SolveFix.thy ===== *)
theory SolveFix
  imports SolveProps
begin

text \<open>
  The equations of the solver against paths: what reaches a block, what a pass adds, when the passes end. A pass in an order
  of the blocks carries everything along the edges that go forward in the order, so the number of passes depends on how many
  edges go backward on a cycle-free path.
\<close>

section \<open>Reaching definitions\<close>

inductive reach_def :: "(nat \<Rightarrow> nat list) \<Rightarrow> (nat \<Rightarrow> nat set) \<Rightarrow> (nat \<Rightarrow> nat set) \<Rightarrow> nat \<Rightarrow> nat \<Rightarrow> bool"
  for preds K G where
  from_pred: "p \<in> set (preds b) \<Longrightarrow> d \<in> G p \<Longrightarrow> reach_def preds K G d b"
| through: "p \<in> set (preds b) \<Longrightarrow> reach_def preds K G d p \<Longrightarrow> d \<notin> K p \<Longrightarrow> reach_def preds K G d b"

inductive_simps reach_def_iff: "reach_def preds K G d b"

definition RI :: "(nat \<Rightarrow> nat list) \<Rightarrow> (nat \<Rightarrow> nat set) \<Rightarrow> (nat \<Rightarrow> nat set) \<Rightarrow> nat \<Rightarrow> nat set" where
  "RI preds K G b = {d. reach_def preds K G d b}"

definition RO :: "(nat \<Rightarrow> nat list) \<Rightarrow> (nat \<Rightarrow> nat set) \<Rightarrow> (nat \<Rightarrow> nat set) \<Rightarrow> nat \<Rightarrow> nat set" where
  "RO preds K G b = (RI preds K G b - K b) \<union> G b"

lemma RI_RO: "RI preds K G b = (\<Union>p\<in>set (preds b). RO preds K G p)"
  by (auto simp: RO_def RI_def reach_def_iff [of preds K G _ b])

lemma gstep_pair: "gstep J preds K G b ((I, Ou), c) =
   (let X = (if preds b = [] then I b else J (Ou ` set (preds b))); Y = (X - K b) \<union> G b in ((I(b := X), Ou(b := Y)), c \<or> Y \<noteq> Ou b))"
  by (simp add: gstep_def)

text \<open>A pass that reports no change leaves the out-sets, and the equations hold at every block it visits.\<close>

lemma gpass_quiet:
  "gpass J preds K G bs (I, Ou) = ((I', Ou'), False) \<Longrightarrow>
   Ou' = Ou \<and> (\<forall>b\<in>set bs. (preds b \<noteq> [] \<longrightarrow> I' b = J (Ou ` set (preds b))) \<and> (preds b = [] \<longrightarrow> I' b = I b) \<and> Ou b = (I' b - K b) \<union> G b) \<and>
   (\<forall>b. b \<notin> set bs \<longrightarrow> I' b = I b)"
proof (induction bs arbitrary: I)
  case (Cons b bs)
  define X where "X = (if preds b = [] then I b else J (Ou ` set (preds b)))"
  have q: "(X - K b) \<union> G b = Ou b" "gpass J preds K G bs (I(b := X), Ou) = ((I', Ou'), False)"
    using Cons.prems by (auto simp: gpass_Cons gstep_pair Let_def prod_eq_iff simp flip: X_def split: if_splits)
  note IH = Cons.IH [OF q(2)]
  have "I' b = X" using IH by (cases "b \<in> set bs") (auto simp: X_def)
  then show ?case using IH q(1) by (auto simp: X_def)
qed simp

definition below :: "nat set \<Rightarrow> (nat \<Rightarrow> nat set) \<Rightarrow> (nat \<Rightarrow> nat set) \<Rightarrow> bool" where
  "below N A B \<longleftrightarrow> (\<forall>b\<in>N. A b \<subseteq> B b)"

definition sound :: "(nat \<Rightarrow> nat list) \<Rightarrow> (nat \<Rightarrow> nat set) \<Rightarrow> (nat \<Rightarrow> nat set) \<Rightarrow> nat set \<Rightarrow> view \<Rightarrow> bool" where
  "sound preds K G N v \<longleftrightarrow> below N (fst v) (RI preds K G) \<and> below N (snd v) (RO preds K G)"

lemma sound_pass:
  assumes "\<forall>b\<in>N. set (preds b) \<subseteq> N"
  shows "set bs \<subseteq> N \<Longrightarrow> sound preds K G N v \<Longrightarrow> sound preds K G N (fst (gpass Union preds K G bs v))"
proof (induction bs arbitrary: v)
  case (Cons b bs)
  obtain I Ou where v: "v = (I, Ou)" by (cases v)
  have b: "set (preds b) \<subseteq> N" using assms Cons.prems(1) by simp
  have I: "I b \<subseteq> RI preds K G b" "(\<Union>p\<in>set (preds b). Ou p) \<subseteq> RI preds K G b"
  proof -
    show "I b \<subseteq> RI preds K G b" using Cons.prems v by (simp add: sound_def below_def)
    have "Ou p \<subseteq> RO preds K G p" if "p \<in> set (preds b)" for p using Cons.prems(2) v b that by (auto simp: sound_def below_def)
    then show "(\<Union>p\<in>set (preds b). Ou p) \<subseteq> RI preds K G b" unfolding RI_RO [of preds K G b] by blast
  qed
  have "sound preds K G N (fst (gstep Union preds K G b (v, False)))"
    using Cons.prems(2) I v by (auto simp: gstep_pair Let_def sound_def below_def RO_def)
  then show ?case using Cons.IH [of "fst (gstep Union preds K G b (v, False))"] Cons.prems(1) by (simp add: gpass_Cons)
qed simp

lemma quiet_complete:
  assumes "gpass Union preds K G bs v = (v', False)" "\<forall>b\<in>set bs. set (preds b) \<subseteq> set bs"
  shows "reach_def preds K G d b \<Longrightarrow> b \<in> set bs \<Longrightarrow> d \<in> fst v' b"
proof (induction rule: reach_def.induct)
  case (from_pred p b d)
  obtain I Ou I' Ou' where v: "v = (I, Ou)" "v' = (I', Ou')" by (cases v, cases v')
  note q = gpass_quiet [OF assms(1) [unfolded v]]
  have "p \<in> set bs" "preds b \<noteq> []" using assms(2) from_pred by auto
  then have "d \<in> Ou p" "I' b = (\<Union>p\<in>set (preds b). Ou p)" using q from_pred by blast+
  then show ?case using from_pred(1) v by auto
next
  case (through p b d)
  obtain I Ou I' Ou' where v: "v = (I, Ou)" "v' = (I', Ou')" by (cases v, cases v')
  note q = gpass_quiet [OF assms(1) [unfolded v]]
  have "p \<in> set bs" "preds b \<noteq> []" using assms(2) through by auto
  then have "d \<in> Ou p" "I' b = (\<Union>p\<in>set (preds b). Ou p)" using q through v by auto
  then show ?case using through(1) v by auto
qed

lemma quiet_exact:
  assumes "gpass Union preds K G bs v = (v', False)" "\<forall>b\<in>set bs. set (preds b) \<subseteq> set bs" "sound preds K G (set bs) v" "b \<in> set bs"
  shows "fst v' b = RI preds K G b" and "snd v' b = RO preds K G b"
proof -
  have s: "sound preds K G (set bs) v'" using sound_pass [OF assms(2) order_refl assms(3)] assms(1) by simp
  show i: "fst v' b = RI preds K G b"
    using s assms(4) quiet_complete [OF assms(1,2) _ assms(4)] by (auto simp: sound_def below_def RI_def)
  obtain I Ou I' Ou' where v: "v = (I, Ou)" "v' = (I', Ou')" by (cases v, cases v')
  show "snd v' b = RO preds K G b" using gpass_quiet [OF assms(1) [unfolded v]] i v assms(4) by (auto simp: RO_def)
qed

text \<open>Once the out-sets are exact, the next pass reports no change.\<close>

lemma exact_quiet:
  assumes "\<forall>b\<in>set bs. set (preds b) \<subseteq> N" "set bs \<subseteq> N" "\<forall>b\<in>N. snd v b = RO preds K G b" "\<forall>b\<in>N. preds b = [] \<longrightarrow> fst v b = {}"
  shows "\<not> snd (gpass Union preds K G bs v)"
  using assms
proof (induction bs arbitrary: v)
  case (Cons b bs)
  obtain I Ou where v: "v = (I, Ou)" by (cases v)
  let ?X = "if preds b = [] then I b else \<Union> (Ou ` set (preds b))"
  have "Ou p = RO preds K G p" if "p \<in> set (preds b)" for p using Cons.prems(1,3) that v by auto
  then have X: "?X = RI preds K G b" using Cons.prems(2,4) v RI_RO [of preds K G b] by auto
  have s: "gstep Union preds K G b (v, False) = ((I(b := ?X), Ou(b := RO preds K G b)), RO preds K G b \<noteq> Ou b)"
    using v X by (simp add: gstep_pair Let_def RO_def)
  have "RO preds K G b = Ou b" using Cons.prems(2,3) v by simp
  then have s: "gstep Union preds K G b (v, False) = ((I(b := ?X), Ou), False)" using s by (simp add: fun_upd_idem)
  have "\<not> snd (gpass Union preds K G bs (I(b := ?X), Ou))"
    using Cons.IH [of "(I(b := ?X), Ou)"] Cons.prems v by simp
  then show ?case using s by (simp add: gpass_Cons)
qed simp

section \<open>How many passes\<close>

definition before :: "nat list \<Rightarrow> nat \<Rightarrow> nat \<Rightarrow> bool" where
  "before bs p b \<longleftrightarrow> p \<in> set (takeWhile (\<lambda>x. x \<noteq> b) bs)"

definition cost :: "nat list \<Rightarrow> nat \<Rightarrow> nat \<Rightarrow> nat" where
  "cost bs p b = (if before bs p b then 0 else 1)"

text \<open>What reaches a block along a path with a number of backward edges.\<close>

inductive reach_in :: "nat list \<Rightarrow> (nat \<Rightarrow> nat list) \<Rightarrow> (nat \<Rightarrow> nat set) \<Rightarrow> (nat \<Rightarrow> nat set) \<Rightarrow> nat \<Rightarrow> nat \<Rightarrow> nat \<Rightarrow> bool"
  for bs preds K G where
  in_pred: "p \<in> set (preds b) \<Longrightarrow> d \<in> G p \<Longrightarrow> reach_in bs preds K G (cost bs p b) d b"
| in_through: "p \<in> set (preds b) \<Longrightarrow> reach_in bs preds K G k d p \<Longrightarrow> d \<notin> K p \<Longrightarrow> reach_in bs preds K G (k + cost bs p b) d b"

definition within :: "nat list \<Rightarrow> (nat \<Rightarrow> nat list) \<Rightarrow> (nat \<Rightarrow> nat set) \<Rightarrow> (nat \<Rightarrow> nat set) \<Rightarrow> nat \<Rightarrow> nat \<Rightarrow> nat set" where
  "within bs preds K G n b = {d. \<exists>k\<le>n. reach_in bs preds K G k d b}"

definition out_within :: "nat list \<Rightarrow> (nat \<Rightarrow> nat list) \<Rightarrow> (nat \<Rightarrow> nat set) \<Rightarrow> (nat \<Rightarrow> nat set) \<Rightarrow> nat \<Rightarrow> nat \<Rightarrow> nat set" where
  "out_within bs preds K G n b = (within bs preds K G n b - K b) \<union> G b"

lemma within_pred:
  "d \<in> within bs preds K G n b \<Longrightarrow> \<exists>p\<in>set (preds b).
     (if before bs p b then d \<in> out_within bs preds K G n p else 0 < n \<and> d \<in> out_within bs preds K G (n - 1) p)"
proof -
  assume "d \<in> within bs preds K G n b"
  then obtain k where k: "k \<le> n" "reach_in bs preds K G k d b" by (auto simp: within_def)
  from k(2) k(1) show ?thesis
  proof cases
    case (in_pred p)
    then show ?thesis using k(1) by (intro bexI [of _ p]) (auto simp: out_within_def cost_def)
  next
    case (in_through p j)
    then show ?thesis using k(1) by (intro bexI [of _ p]) (auto simp: out_within_def within_def cost_def intro: exI [of _ j])
  qed
qed

text \<open>Level \<open>t\<close> of the out-sets: nothing at the start, then everything along at most \<open>t - 1\<close> backward edges.\<close>

definition level :: "nat list \<Rightarrow> (nat \<Rightarrow> nat list) \<Rightarrow> (nat \<Rightarrow> nat set) \<Rightarrow> (nat \<Rightarrow> nat set) \<Rightarrow> nat \<Rightarrow> (nat \<Rightarrow> nat set) \<Rightarrow> bool" where
  "level bs preds K G t Ou \<longleftrightarrow> (\<forall>n. t = Suc n \<longrightarrow> (\<forall>b\<in>set bs. out_within bs preds K G n b \<subseteq> Ou b))"

lemma out_within_mono: "m \<le> n \<Longrightarrow> out_within bs preds K G m b \<subseteq> out_within bs preds K G n b"
  unfolding out_within_def within_def by (auto intro: order_trans)

lemma level_step:
  assumes cl: "\<forall>b\<in>set bs. set (preds b) \<subseteq> set bs" and bs: "bs = xs @ b # ys" "b \<notin> set xs"
    and lev: "level bs preds K G t Ou" and pre: "\<forall>x\<in>set xs. out_within bs preds K G t x \<subseteq> Ou x"
  shows "within bs preds K G t b \<subseteq> (\<Union>p\<in>set (preds b). Ou p)"
proof
  fix d assume "d \<in> within bs preds K G t b"
  then obtain p where p: "p \<in> set (preds b)"
    "if before bs p b then d \<in> out_within bs preds K G t p else 0 < t \<and> d \<in> out_within bs preds K G (t - 1) p"
    using within_pred [of d bs preds K G t b] by blast
  have pb: "p \<in> set bs" using cl bs p(1) by auto
  have "d \<in> Ou p"
  proof (cases "before bs p b")
    case True
    then have "p \<in> set xs" using bs by (auto simp: before_def takeWhile_tail dest: set_takeWhileD)
    then show ?thesis using p(2) True pre by auto
  next
    case False
    then obtain n where "t = Suc n" using p(2) gr0_conv_Suc by auto
    then show ?thesis using p(2) False lev pb by (auto simp: level_def)
  qed
  then show "d \<in> (\<Union>p\<in>set (preds b). Ou p)" using p(1) by blast
qed

lemma level_fold:
  assumes cl: "\<forall>b\<in>set bs. set (preds b) \<subseteq> set bs" and d: "distinct bs"
  shows "bs = xs @ ys \<Longrightarrow> level bs preds K G t (snd v) \<Longrightarrow> \<forall>x\<in>set xs. out_within bs preds K G t x \<subseteq> snd v x \<Longrightarrow>
    \<forall>x\<in>set bs. out_within bs preds K G t x \<subseteq> snd (fst (gpass Union preds K G ys v)) x"
proof (induction ys arbitrary: xs v)
  case (Cons b ys)
  obtain I Ou where v: "v = (I, Ou)" by (cases v)
  let ?X = "if preds b = [] then I b else \<Union> (Ou ` set (preds b))"
  let ?v = "(I(b := ?X), Ou(b := (?X - K b) \<union> G b))"
  have b: "b \<notin> set xs" using d Cons.prems(1) by auto
  have w: "within bs preds K G t b \<subseteq> ?X"
    using level_step [OF cl Cons.prems(1) b, of K G t Ou] Cons.prems(2,3) v by auto
  then have o: "out_within bs preds K G t b \<subseteq> (?X - K b) \<union> G b" by (auto simp: out_within_def)
  have s: "fst (gstep Union preds K G b (v, False)) = ?v" using v by (simp add: gstep_pair Let_def)
  have l: "level bs preds K G t (snd ?v)"
    unfolding level_def
  proof (intro allI impI ballI)
    fix n c assume n: "t = Suc n" "c \<in> set bs"
    show "out_within bs preds K G n c \<subseteq> snd ?v c"
      using o out_within_mono [of n t bs preds K G b] n Cons.prems(2) v by (cases "c = b") (auto simp: level_def)
  qed
  have pre: "\<forall>x\<in>set (xs @ [b]). out_within bs preds K G t x \<subseteq> snd ?v x"
    using o Cons.prems(3) v b by auto
  have e: "bs = (xs @ [b]) @ ys" using Cons.prems(1) by simp
  show ?case using Cons.IH [OF e l pre] unfolding gpass_Cons fst_conv s .
qed simp

lemma level_pass:
  assumes "\<forall>b\<in>set bs. set (preds b) \<subseteq> set bs" "distinct bs" "level bs preds K G t (snd v)"
  shows "level bs preds K G (Suc t) (snd (fst (gpass Union preds K G bs v)))"
  using level_fold [OF assms(1,2), of "[]" bs K G t v] assms(3) by (simp add: level_def)

lemma gpass_other: "b \<notin> set bs \<Longrightarrow> fst (fst (gpass J preds K G bs v)) b = fst v b"
proof (induction bs arbitrary: v)
  case (Cons c bs)
  then show ?case by (cases v) (simp add: gpass_Cons gstep_pair Let_def)
qed simp

lemma level_fold_in:
  assumes cl: "\<forall>b\<in>set bs. set (preds b) \<subseteq> set bs" and d: "distinct bs"
  shows "bs = xs @ ys \<Longrightarrow> level bs preds K G t (snd v) \<Longrightarrow> \<forall>x\<in>set xs. out_within bs preds K G t x \<subseteq> snd v x \<Longrightarrow>
    b \<in> set ys \<Longrightarrow> within bs preds K G t b \<subseteq> fst (fst (gpass Union preds K G ys v)) b"
proof (induction ys arbitrary: xs v)
  case (Cons c ys)
  obtain I Ou where v: "v = (I, Ou)" by (cases v)
  define X where "X = (if preds c = [] then I c else \<Union> (Ou ` set (preds c)))"
  let ?v = "(I(c := X), Ou(c := (X - K c) \<union> G c))"
  have c: "c \<notin> set xs" "c \<notin> set ys" using d Cons.prems(1) by auto
  have w: "within bs preds K G t c \<subseteq> X"
    using level_step [OF cl Cons.prems(1) c(1), of K G t Ou] Cons.prems(2,3) v by (auto simp: X_def)
  then have o: "out_within bs preds K G t c \<subseteq> (X - K c) \<union> G c" by (auto simp: out_within_def)
  have s: "fst (gstep Union preds K G c (v, False)) = ?v" using v by (simp add: gstep_pair Let_def X_def)
  have l: "level bs preds K G t (snd ?v)"
    unfolding level_def
  proof (intro allI impI ballI)
    fix n x assume n: "t = Suc n" "x \<in> set bs"
    show "out_within bs preds K G n x \<subseteq> snd ?v x"
      using o out_within_mono [of n t bs preds K G c] n Cons.prems(2) v by (cases "x = c") (auto simp: level_def)
  qed
  have pre: "\<forall>x\<in>set (xs @ [c]). out_within bs preds K G t x \<subseteq> snd ?v x"
    using o Cons.prems(3) v c by auto
  have e: "bs = (xs @ [c]) @ ys" using Cons.prems(1) by simp
  show ?case
  proof (cases "b = c")
    case True
    have "fst (fst (gpass Union preds K G ys ?v)) c = fst ?v c" for v
      using c(2) by (rule gpass_other)
    then show ?thesis using True w unfolding gpass_Cons fst_conv s by simp
  next
    case False
    then show ?thesis using Cons.IH [OF e l pre] Cons.prems(4) unfolding gpass_Cons fst_conv s by simp
  qed
qed simp

lemma level_passes:
  assumes "\<forall>b\<in>set bs. set (preds b) \<subseteq> set bs" "distinct bs"
  shows "level bs preds K G k (snd (((\<lambda>v. fst (gpass Union preds K G bs v)) ^^ k) v))"
  by (induction k) (simp_all add: level_def [of _ _ _ _ 0] level_pass [OF assms])

section \<open>Cycle-free paths are enough\<close>

fun flow_walk :: "(nat \<Rightarrow> nat list) \<Rightarrow> nat list \<Rightarrow> bool" where
  "flow_walk preds (x # y # ps) \<longleftrightarrow> x \<in> set (preds y) \<and> flow_walk preds (y # ps)"
| "flow_walk preds _ \<longleftrightarrow> True"

fun retreats :: "nat list \<Rightarrow> nat list \<Rightarrow> nat" where
  "retreats bs (x # y # ps) = cost bs x y + retreats bs (y # ps)"
| "retreats bs _ = 0"

definition retreat_bound :: "nat list \<Rightarrow> (nat \<Rightarrow> nat list) \<Rightarrow> nat \<Rightarrow> bool" where
  "retreat_bound bs preds n \<longleftrightarrow> (\<forall>ps. flow_walk preds ps \<and> distinct (butlast ps) \<and> distinct (List.tl ps) \<longrightarrow> retreats bs ps \<le> n)"

lemma flow_walk_append: "flow_walk preds (xs @ y # ys) \<longleftrightarrow> flow_walk preds (xs @ [y]) \<and> flow_walk preds (y # ys)"
proof (induction xs)
  case (Cons x xs)
  then show ?case by (cases xs) auto
qed simp

lemma retreats_append: "retreats bs (xs @ y # ys) = retreats bs (xs @ [y]) + retreats bs (y # ys)"
proof (induction xs)
  case (Cons x xs)
  then show ?case by (cases xs) auto
qed simp

text \<open>A path that carries a definition: generated in its first block and not killed in between.\<close>

definition carries :: "(nat \<Rightarrow> nat list) \<Rightarrow> (nat \<Rightarrow> nat set) \<Rightarrow> (nat \<Rightarrow> nat set) \<Rightarrow> nat \<Rightarrow> nat list \<Rightarrow> nat \<Rightarrow> bool" where
  "carries preds K G d xs b \<longleftrightarrow> xs \<noteq> [] \<and> flow_walk preds (xs @ [b]) \<and> d \<in> G (hd xs) \<and> (\<forall>x\<in>set (List.tl xs). d \<notin> K x)"

lemma reach_carries: "reach_def preds K G d b \<Longrightarrow> \<exists>xs. carries preds K G d xs b"
proof (induction rule: reach_def.induct)
  case (from_pred p b d)
  then show ?case by (intro exI [of _ "[p]"]) (simp add: carries_def)
next
  case (through p b d)
  then obtain xs where xs: "carries preds K G d xs p" by blast
  have "flow_walk preds ((xs @ [p]) @ [b])" using xs through(1) flow_walk_append [of preds xs p "[b]"] by (simp add: carries_def)
  then show ?case using xs through.hyps(3) by (intro exI [of _ "xs @ [p]"]) (auto simp: carries_def)
qed

lemma carries_reach_in: "carries preds K G d xs b \<Longrightarrow> reach_in bs preds K G (retreats bs (xs @ [b])) d b"
proof (induction xs arbitrary: b rule: rev_induct)
  case (snoc p xs)
  have w: "p \<in> set (preds b)" using snoc.prems flow_walk_append [of preds xs p "[b]"] by (simp add: carries_def)
  show ?case
  proof (cases "xs = []")
    case True
    then show ?thesis using snoc.prems w in_pred [of p preds b d G bs K] by (simp add: carries_def)
  next
    case False
    then have "carries preds K G d xs p" "d \<notin> K p"
      using snoc.prems flow_walk_append [of preds xs p "[b]"] by (auto simp: carries_def)
    from in_through [OF w snoc.IH [OF this(1)] this(2)] show ?thesis
      using retreats_append [of bs xs p "[b]"] by (simp add: add.commute)
  qed
qed (simp add: carries_def)

text \<open>A path with a repetition has a shorter one.\<close>

lemma carries_shorter:
  assumes c: "carries preds K G d xs b" and n: "\<not> distinct xs \<or> \<not> distinct (List.tl xs @ [b])"
  shows "\<exists>ys. carries preds K G d ys b \<and> length ys < length xs"
proof (cases "distinct xs")
  case False
  then obtain us vs ws y where xs: "xs = us @ [y] @ vs @ [y] @ ws" using not_distinct_decomp by blast
  have w: "flow_walk preds (us @ [y])" "flow_walk preds (y # ws @ [b])"
    using c flow_walk_append [of preds us y "vs @ [y] @ ws @ [b]"] flow_walk_append [of preds "y # vs" y "ws @ [b]"]
    by (auto simp: carries_def xs)
  have "flow_walk preds ((us @ y # ws) @ [b])" using w flow_walk_append [of preds us y "ws @ [b]"] by simp
  moreover have "d \<in> G (hd (us @ y # ws))" using c by (cases us) (auto simp: carries_def xs)
  moreover have "\<forall>x\<in>set (List.tl (us @ y # ws)). d \<notin> K x" using c by (cases us) (auto simp: carries_def xs)
  ultimately show ?thesis by (intro exI [of _ "us @ y # ws"]) (simp add: carries_def xs)
next
  case True
  then have "b \<in> set (List.tl xs)" using n by (cases xs) auto
  then obtain us vs where t: "List.tl xs = us @ b # vs" by (auto simp: in_set_conv_decomp)
  obtain x0 where xs: "xs = (x0 # us) @ b # vs" using t c by (cases xs) (auto simp: carries_def)
  have "flow_walk preds ((x0 # us) @ [b])"
    using c flow_walk_append [of preds "x0 # us" b "vs @ [b]"] by (simp add: carries_def xs)
  then have "carries preds K G d (x0 # us) b" using c by (auto simp: carries_def xs)
  then show ?thesis by (intro exI [of _ "x0 # us"]) (simp add: xs)
qed

lemma reach_within:
  assumes "retreat_bound bs preds n" "reach_def preds K G d b"
  shows "d \<in> within bs preds K G n b"
proof -
  let ?P = "\<lambda>xs. carries preds K G d xs b"
  obtain xs where xs: "?P xs" "\<forall>ys. ?P ys \<longrightarrow> length xs \<le> length ys"
    using reach_carries [OF assms(2)] ex_has_least_nat [of ?P _ length] by blast
  then have d: "distinct xs" "distinct (List.tl xs @ [b])" using carries_shorter [OF xs(1)] by (meson not_le)+
  have "distinct (List.tl (xs @ [b]))" using d(2) xs(1) by (simp add: carries_def)
  then have "retreats bs (xs @ [b]) \<le> n"
    using assms(1) d(1) xs(1) by (simp add: retreat_bound_def carries_def)
  then show ?thesis using carries_reach_in [OF xs(1), of bs] by (auto simp: within_def)
qed

lemma passes_exact:
  assumes cl: "\<forall>b\<in>set bs. set (preds b) \<subseteq> set bs" "distinct bs" and n: "retreat_bound bs preds n" "n < k"
    and s: "sound preds K G (set bs) v" and b: "b \<in> set bs"
  shows "snd (((\<lambda>v. fst (gpass Union preds K G bs v)) ^^ k) v) b = RO preds K G b"
proof -
  let ?w = "((\<lambda>v. fst (gpass Union preds K G bs v)) ^^ k) v"
  have "sound preds K G (set bs) (((\<lambda>v. fst (gpass Union preds K G bs v)) ^^ j) v)" for j
    by (induction j) (simp_all add: s sound_pass [OF cl(1) order_refl])
  then have "snd ?w b \<subseteq> RO preds K G b" using b by (simp add: sound_def below_def)
  moreover obtain m where m: "k = Suc m" "n \<le> m" using n(2) by (cases k) auto
  have "out_within bs preds K G m b \<subseteq> snd ?w b" using level_passes [OF cl, of K G k v] m b by (simp add: level_def)
  moreover have "within bs preds K G n b \<subseteq> within bs preds K G m b" using m(2) by (auto simp: within_def intro: order_trans)
  then have "RO preds K G b \<subseteq> out_within bs preds K G m b"
    using reach_within [OF n(1)] by (auto simp: RO_def RI_def out_within_def)
  ultimately show ?thesis by blast
qed

lemma passes_sound:
  "\<forall>b\<in>set bs. set (preds b) \<subseteq> set bs \<Longrightarrow> sound preds K G (set bs) v \<Longrightarrow>
   sound preds K G (set bs) (((\<lambda>v. fst (gpass Union preds K G bs v)) ^^ k) v)"
  by (induction k) (simp_all add: sound_pass [OF _ order_refl])

lemma passes_exact_in:
  assumes cl: "\<forall>b\<in>set bs. set (preds b) \<subseteq> set bs" "distinct bs" and n: "retreat_bound bs preds n" "n < k"
    and s: "sound preds K G (set bs) v" and b: "b \<in> set bs"
  shows "fst (((\<lambda>v. fst (gpass Union preds K G bs v)) ^^ k) v) b = RI preds K G b"
proof -
  obtain m where m: "k = Suc m" "n \<le> m" using n(2) by (cases k) auto
  let ?w = "((\<lambda>v. fst (gpass Union preds K G bs v)) ^^ m) v"
  have "within bs preds K G m b \<subseteq> fst (fst (gpass Union preds K G bs ?w)) b"
    using level_fold_in [OF cl, of "[]" bs K G m ?w b] level_passes [OF cl, of K G m v] b by simp
  moreover have "RI preds K G b \<subseteq> within bs preds K G m b"
  proof -
    have "within bs preds K G n b \<subseteq> within bs preds K G m b" using m(2) by (auto simp: within_def intro: order_trans)
    moreover have "RI preds K G b \<subseteq> within bs preds K G n b" using reach_within [OF n(1)] by (auto simp: RI_def)
    ultimately show ?thesis by blast
  qed
  moreover have "fst (fst (gpass Union preds K G bs ?w)) b \<subseteq> RI preds K G b"
    using passes_sound [OF cl(1) s, of "Suc m"] b by (simp add: sound_def below_def)
  ultimately show ?thesis using m(1) by auto
qed

end
