(* ===== verification/SolveClaims.thy ===== *)
theory SolveClaims
  imports SolveFix
begin

text \<open>
  What the iteration of \<open>solveByRPO\<close> computes: the three problems run side by side on views of the sets, and what the
  fixed number of passes gives for reaching definitions.
\<close>

section \<open>The loop\<close>

lemma upd_if_pow: "(upd_if act f ^^ k) v = (if act then ((\<lambda>v. fst (f v)) ^^ k) v else v)"
  by (induction k) (auto simp: upd_if_def)

lemma upd_if_shift: "(upd_if act f ^^ k) (upd_if act f v) = (upd_if act f ^^ Suc k) v"
  by (simp add: funpow_swap1)

definition calm :: "FlowCFG \<Rightarrow> SolFlag \<Rightarrow> SolveSetMgr \<Rightarrow> view \<Rightarrow> view \<Rightarrow> view \<Rightarrow> bool" where
  "calm cfg flag m r a e \<longleftrightarrow> (SOL_AVAIL_REACH_DEF flag \<longrightarrow> \<not> snd (ard_pass cfg m (fc_rpo cfg) a)) \<and>
     (SOL_REACH_DEF flag \<longrightarrow> \<not> snd (rd_pass cfg m (fc_rpo cfg) r)) \<and> (SOL_AVAIL_EXPR flag \<longrightarrow> \<not> snd (ae_pass cfg m (fc_rpo cfg) e))"

text \<open>The views after \<open>k\<close> passes.\<close>

definition rd_after :: "FlowCFG \<Rightarrow> SolFlag \<Rightarrow> SolveSetMgr \<Rightarrow> nat \<Rightarrow> view" where
  "rd_after cfg flag m k = (upd_if (SOL_REACH_DEF flag) (rd_pass cfg m (fc_rpo cfg)) ^^ k) (rd_view m)"

definition ard_after :: "FlowCFG \<Rightarrow> SolFlag \<Rightarrow> SolveSetMgr \<Rightarrow> nat \<Rightarrow> view" where
  "ard_after cfg flag m k = (upd_if (SOL_AVAIL_REACH_DEF flag) (ard_pass cfg m (fc_rpo cfg)) ^^ k) (ard_view m)"

definition ae_after :: "FlowCFG \<Rightarrow> SolFlag \<Rightarrow> SolveSetMgr \<Rightarrow> nat \<Rightarrow> view" where
  "ae_after cfg flag m k = (upd_if (SOL_AVAIL_EXPR flag) (ae_pass cfg m (fc_rpo cfg)) ^^ k) (ae_view m)"

lemma rpo_loop_ok:
  assumes cl: "flow_closed cfg"
  shows "has_outs cfg flag m \<Longrightarrow> \<exists>ch m' k. rpo_loop cfg flag n m = Some (ch, m') \<and> k \<le> n \<and> same_local m m' \<and>
    rd_view m' = rd_after cfg flag m (Suc k) \<and> ard_view m' = ard_after cfg flag m (Suc k) \<and> ae_view m' = ae_after cfg flag m (Suc k) \<and>
    (ch \<longleftrightarrow> \<not> calm cfg flag m (rd_after cfg flag m k) (ard_after cfg flag m k) (ae_after cfg flag m k)) \<and> (ch \<longrightarrow> k = n)"
proof (induction n arbitrary: m)
  case 0
  obtain ch m' where p: "rpo_pass cfg flag m = Some (ch, m')" "same_local m m'"
    "ch \<longleftrightarrow> \<not> calm cfg flag m (rd_view m) (ard_view m) (ae_view m)"
    "rd_view m' = rd_after cfg flag m 1" "ard_view m' = ard_after cfg flag m 1" "ae_view m' = ae_after cfg flag m 1"
    using rpo_pass_ok [OF cl 0] unfolding calm_def rd_after_def ard_after_def ae_after_def by auto
  have "rpo_loop cfg flag 0 m = Some (ch, m')" using p(1) by (simp add: rpo_loop.simps)
  moreover have "rd_after cfg flag m 0 = rd_view m" "ard_after cfg flag m 0 = ard_view m" "ae_after cfg flag m 0 = ae_view m"
    by (simp_all add: rd_after_def ard_after_def ae_after_def)
  ultimately show ?case using p by (intro exI [of _ ch] exI [of _ m'] exI [of _ 0]) simp
next
  case (Suc n)
  obtain c1 m1 where p: "rpo_pass cfg flag m = Some (c1, m1)" "same_local m m1" "has_outs cfg flag m1"
    "c1 \<longleftrightarrow> \<not> calm cfg flag m (rd_view m) (ard_view m) (ae_view m)"
    "rd_view m1 = rd_after cfg flag m 1" "ard_view m1 = ard_after cfg flag m 1" "ae_view m1 = ae_after cfg flag m 1"
    using rpo_pass_ok [OF cl Suc.prems] unfolding calm_def rd_after_def ard_after_def ae_after_def by auto
  show ?case
  proof (cases c1)
    case False
    have "rpo_loop cfg flag (Suc n) m = Some (False, m1)" using p(1) False by (simp add: rpo_loop.simps)
    moreover have "rd_after cfg flag m 0 = rd_view m" "ard_after cfg flag m 0 = ard_view m" "ae_after cfg flag m 0 = ae_view m"
      by (simp_all add: rd_after_def ard_after_def ae_after_def)
    ultimately show ?thesis using p False by (intro exI [of _ False] exI [of _ m1] exI [of _ 0]) simp
  next
    case True
    obtain ch m' k where r: "rpo_loop cfg flag n m1 = Some (ch, m')" "k \<le> n" "same_local m1 m'"
      "rd_view m' = rd_after cfg flag m1 (Suc k)" "ard_view m' = ard_after cfg flag m1 (Suc k)" "ae_view m' = ae_after cfg flag m1 (Suc k)"
      "ch \<longleftrightarrow> \<not> calm cfg flag m1 (rd_after cfg flag m1 k) (ard_after cfg flag m1 k) (ae_after cfg flag m1 k)" "ch \<longrightarrow> k = n"
      using Suc.IH [OF p(3)] by blast
    note l = same_localD [OF p(2)]
    have a: "rd_after cfg flag m1 j = rd_after cfg flag m (Suc j)" "ard_after cfg flag m1 j = ard_after cfg flag m (Suc j)"
      "ae_after cfg flag m1 j = ae_after cfg flag m (Suc j)" for j
      using p(5-7) l by (simp_all add: rd_after_def ard_after_def ae_after_def upd_if_shift [unfolded funpow.simps o_def])
    have c: "calm cfg flag m1 r a e = calm cfg flag m r a e" for r a e using l by (simp add: calm_def)
    have "rpo_loop cfg flag (Suc n) m = Some (ch, m')" using p(1) True r(1) by (simp add: rpo_loop.simps [of _ _ "Suc n"])
    moreover have "same_local m m'" using p(2) r(3) by (simp add: same_local_def)
    moreover have "ch \<longleftrightarrow> \<not> calm cfg flag m (rd_after cfg flag m (Suc k)) (ard_after cfg flag m (Suc k)) (ae_after cfg flag m (Suc k))"
      using r(7) unfolding a c .
    moreover have "Suc k \<le> Suc n" "ch \<longrightarrow> Suc k = Suc n" using r(2,8) by simp_all
    moreover note r(4-6) [unfolded a]
    ultimately show ?thesis by (intro exI [of _ ch] exI [of _ m'] exI [of _ "Suc k"] conjI)
  qed
qed

section \<open>The start\<close>

lemma kill_case:
  "sol (diff_killed_expr b m) n c = (if n = AvailExprOut \<and> c = b then sol m AvailExprOut b - sol m KilledIRExpr b else sol m n c)"
  "n \<noteq> AvailExprOut \<Longrightarrow> has_set (diff_killed_expr b m) n c = has_set m n c"
  by (auto simp: diff_killed_expr_def get_ss_def sol_def [of m KilledIRExpr] split: option.split)

lemma init_bb_ok:
  "same_local m (init_bb cfg U flag b m)"
  "SOL_REACH_DEF flag \<Longrightarrow> has_set (init_bb cfg U flag b m) ReachDefOut c \<longleftrightarrow> c = b \<or> has_set m ReachDefOut c"
  "sol (init_bb cfg U flag b m) ReachDefIn c = (if SOL_REACH_DEF flag \<and> c = b then {} else sol m ReachDefIn c)"
  "sol (init_bb cfg U flag b m) ReachDefOut c = (if SOL_REACH_DEF flag \<and> c = b then {} else sol m ReachDefOut c)"
  "sol (init_bb cfg U flag b m) AvailReachDefIn c = (if SOL_AVAIL_REACH_DEF flag \<and> c = b then {} else sol m AvailReachDefIn c)"
  "sol (init_bb cfg U flag b m) AvailReachDefOut c = sol m AvailReachDefOut c"
  "sol (init_bb cfg U flag b m) AvailExprIn c =
    (if SOL_AVAIL_EXPR flag \<and> c = b then (if b = fc_entry cfg then {} else U) else sol m AvailExprIn c)"
  "sol (init_bb cfg U flag b m) AvailExprOut c =
    (if SOL_AVAIL_EXPR flag \<and> c = b then (if b = fc_entry cfg then {} else (U - sol m KilledIRExpr b) \<union> sol m GenIRExpr b) else sol m AvailExprOut c)"
  by (simp_all add: init_bb_def Let_def same_local_def local_names_def fun_eq_iff kill_case)

lemma start_ok:
  fixes cfg :: FlowCFG and U :: "nat set" and flag :: SolFlag
  defines "start \<equiv> fold (init_bb cfg U flag)"
  shows "same_local m (start bs m)"
    and "SOL_REACH_DEF flag \<Longrightarrow> c \<in> set bs \<or> has_set m ReachDefOut c \<Longrightarrow> has_set (start bs m) ReachDefOut c"
    and "SOL_REACH_DEF flag \<Longrightarrow> c \<in> set bs \<Longrightarrow> sol (start bs m) ReachDefIn c = {} \<and> sol (start bs m) ReachDefOut c = {}"
    and "SOL_AVAIL_REACH_DEF flag \<Longrightarrow> c \<in> set bs \<Longrightarrow> sol (start bs m) AvailReachDefIn c = {}"
    and "sol (start bs m) AvailReachDefOut = sol m AvailReachDefOut"
    and "SOL_AVAIL_EXPR flag \<Longrightarrow> c \<in> set bs \<Longrightarrow> sol (start bs m) AvailExprIn c = (if c = fc_entry cfg then {} else U)"
    and "SOL_AVAIL_EXPR flag \<Longrightarrow> c \<in> set bs \<Longrightarrow>
      sol (start bs m) AvailExprOut c = (if c = fc_entry cfg then {} else (U - sol m KilledIRExpr c) \<union> sol m GenIRExpr c)"
proof -
  have l: "same_local m (start bs m)" for bs m
  proof (induction bs arbitrary: m)
    case (Cons b bs)
    then show ?case using init_bb_ok(1) [of m cfg U flag b] unfolding start_def by (simp add: same_local_def)
  qed (simp add: start_def same_local_def)
  show "same_local m (start bs m)" by (rule l)
  have st: "start (b # bs) m = start bs (init_bb cfg U flag b m)" for b bs m by (simp add: start_def)
  show "SOL_REACH_DEF flag \<Longrightarrow> c \<in> set bs \<or> has_set m ReachDefOut c \<Longrightarrow> has_set (start bs m) ReachDefOut c"
    by (induction bs arbitrary: m) (auto simp: st init_bb_ok start_def)
  show "sol (start bs m) AvailReachDefOut = sol m AvailReachDefOut"
    by (induction bs arbitrary: m) (simp_all add: st init_bb_ok fun_eq_iff, simp add: start_def)
  have in_old: "sol (start bs m) n c = v" if "sol m n c = v"
    "\<And>m b. sol (init_bb cfg U flag b m) n c = (if c = b then v else sol m n c)" for bs m n v
    using that(1) by (induction bs arbitrary: m) (simp_all add: st that(2), simp add: start_def)
  have val: "sol (start bs m) n c = v" if "c \<in> set bs"
    "\<And>m b. sol (init_bb cfg U flag b m) n c = (if c = b then v else sol m n c)" for bs m n v
    using that(1)
  proof (induction bs arbitrary: m)
    case (Cons b bs)
    show ?case
    proof (cases "c = b")
      case True
      then show ?thesis using in_old [of "init_bb cfg U flag b m" n v bs] that(2) by (simp add: st)
    next
      case False
      then show ?thesis using Cons by (simp add: st)
    qed
  qed simp
  show "SOL_REACH_DEF flag \<Longrightarrow> c \<in> set bs \<Longrightarrow> sol (start bs m) ReachDefIn c = {} \<and> sol (start bs m) ReachDefOut c = {}"
    by (intro conjI val) (simp_all add: init_bb_ok)
  show "SOL_AVAIL_REACH_DEF flag \<Longrightarrow> c \<in> set bs \<Longrightarrow> sol (start bs m) AvailReachDefIn c = {}"
    by (intro val) (simp_all add: init_bb_ok)
  show "SOL_AVAIL_EXPR flag \<Longrightarrow> c \<in> set bs \<Longrightarrow> sol (start bs m) AvailExprIn c = (if c = fc_entry cfg then {} else U)"
    by (intro val) (simp_all add: init_bb_ok)
  have kg: "sol (start bs m) AvailExprOut c = (if c = fc_entry cfg then {} else (U - sol m KilledIRExpr c) \<union> sol m GenIRExpr c)"
    if "SOL_AVAIL_EXPR flag" "c \<in> set bs" for bs m
    using that(2)
  proof (induction bs arbitrary: m)
    case (Cons b bs)
    have e: "sol (init_bb cfg U flag b m) KilledIRExpr = sol m KilledIRExpr" "sol (init_bb cfg U flag b m) GenIRExpr = sol m GenIRExpr"
      using same_localD [OF init_bb_ok(1) [of m cfg U flag b]] by auto
    show ?case
    proof (cases "c \<in> set bs")
      case True
      then show ?thesis using Cons.IH [of "init_bb cfg U flag b m"] by (simp add: st e)
    next
      case False
      then have "sol (start bs m') AvailExprOut c = sol m' AvailExprOut c" for m'
        by (induction bs arbitrary: m') (auto simp: st init_bb_ok start_def)
      then show ?thesis using False Cons.prems that(1) by (simp add: st init_bb_ok)
    qed
  qed simp
  show "SOL_AVAIL_EXPR flag \<Longrightarrow> c \<in> set bs \<Longrightarrow>
      sol (start bs m) AvailExprOut c = (if c = fc_entry cfg then {} else (U - sol m KilledIRExpr c) \<union> sol m GenIRExpr c)"
    by (rule kg)
qed

lemma solve_sets_ok:
  assumes cl: "flow_closed cfg"
  shows "\<exists>ch m' k m1. solve_sets cfg U flag m = Some (ch, m') \<and> k \<le> 19 \<and> same_local m m' \<and> same_local m m1 \<and>
    m1 = fold (init_bb cfg U flag) (rev (fc_bbs cfg)) m \<and>
    rd_view m' = rd_after cfg flag m1 (Suc k) \<and> ard_view m' = ard_after cfg flag m1 (Suc k) \<and> ae_view m' = ae_after cfg flag m1 (Suc k) \<and>
    (ch \<longleftrightarrow> \<not> calm cfg flag m1 (rd_after cfg flag m1 k) (ard_after cfg flag m1 k) (ae_after cfg flag m1 k)) \<and> (ch \<longrightarrow> k = 19)"
proof -
  define m1 where "m1 = fold (init_bb cfg U flag) (rev (fc_bbs cfg)) m"
  have l: "same_local m m1" unfolding m1_def by (rule start_ok(1))
  have "has_outs cfg flag m1" using start_ok(2) [of flag _ "rev (fc_bbs cfg)" m cfg U] by (simp add: has_outs_def m1_def)
  from rpo_loop_ok [OF cl this, of 19] obtain ch m' k where
    r: "rpo_loop cfg flag 19 m1 = Some (ch, m')" "k \<le> 19" "same_local m1 m'"
      "rd_view m' = rd_after cfg flag m1 (Suc k)" "ard_view m' = ard_after cfg flag m1 (Suc k)" "ae_view m' = ae_after cfg flag m1 (Suc k)"
      "ch \<longleftrightarrow> \<not> calm cfg flag m1 (rd_after cfg flag m1 k) (ard_after cfg flag m1 k) (ae_after cfg flag m1 k)" "ch \<longrightarrow> k = 19"
    by blast
  have "solve_sets cfg U flag m = Some (ch, m')" using r(1) by (simp add: solve_sets_def solveByRPO_def m1_def)
  moreover have "same_local m m'" using l r(3) by (simp add: same_local_def)
  ultimately show ?thesis using r(2,4-8) l m1_def
    by (intro exI [of _ ch] exI [of _ m'] exI [of _ k] exI [of _ m1] conjI)
qed

section \<open>Reaching definitions\<close>

abbreviation "rd_in cfg m \<equiv> RI (fc_preds cfg) (sol m MustKilledDef) (sol m MayGenDef)"
abbreviation "rd_out cfg m \<equiv> RO (fc_preds cfg) (sol m MustKilledDef) (sol m MayGenDef)"

lemma rd_solved:
  assumes cl: "flow_closed cfg" and d: "distinct (fc_rpo cfg)" and f: "SOL_REACH_DEF flag"
  shows "\<exists>ch m'. solve_sets cfg U flag m = Some (ch, m') \<and> same_local m m' \<and>
    (\<forall>b\<in>set (fc_bbs cfg). sol m' ReachDefIn b \<subseteq> rd_in cfg m b \<and> sol m' ReachDefOut b \<subseteq> rd_out cfg m b) \<and>
    (\<not> ch \<longrightarrow> (\<forall>b\<in>set (fc_bbs cfg). sol m' ReachDefIn b = rd_in cfg m b \<and> sol m' ReachDefOut b = rd_out cfg m b)) \<and>
    (\<not> SOL_AVAIL_REACH_DEF flag \<and> \<not> SOL_AVAIL_EXPR flag \<and> retreat_bound (fc_rpo cfg) (fc_preds cfg) 18 \<longrightarrow> \<not> ch)"
proof -
  obtain ch m' k m1 where s: "solve_sets cfg U flag m = Some (ch, m')" "k \<le> 19" "same_local m m'" "same_local m m1"
    "m1 = fold (init_bb cfg U flag) (rev (fc_bbs cfg)) m" "rd_view m' = rd_after cfg flag m1 (Suc k)"
    "ch \<longleftrightarrow> \<not> calm cfg flag m1 (rd_after cfg flag m1 k) (ard_after cfg flag m1 k) (ae_after cfg flag m1 k)" "ch \<longrightarrow> k = 19"
    using solve_sets_ok [OF cl, of U flag m] by blast
  let ?N = "set (fc_bbs cfg)" and ?bs = "fc_rpo cfg"
  have N: "set ?bs = ?N" "\<forall>b\<in>set ?bs. set (fc_preds cfg b) \<subseteq> set ?bs" using cl by (auto simp: flow_closed_def)
  let ?K = "sol m MustKilledDef" and ?G = "sol m MayGenDef"
  let ?p = "gpass Union (fc_preds cfg) ?K ?G ?bs"
  have l: "sol m1 MustKilledDef = ?K" "sol m1 MayGenDef = ?G" using same_localD [OF s(4)] by simp_all
  have z: "sol m1 ReachDefIn b = {} \<and> sol m1 ReachDefOut b = {}" if "b \<in> ?N" for b
    unfolding s(5) by (rule start_ok(3) [OF f]) (simp add: that)
  then have snd0: "sound (fc_preds cfg) ?K ?G (set ?bs) (rd_view m1)"
    by (simp add: sound_def below_def rd_view_def N(1))
  have a: "rd_after cfg flag m1 j = ((\<lambda>v. fst (?p v)) ^^ j) (rd_view m1)" for j
    using f l by (simp add: rd_after_def upd_if_pow)
  have snd: "sound (fc_preds cfg) ?K ?G (set ?bs) (rd_after cfg flag m1 j)" for j
    unfolding a by (rule passes_sound [OF N(2) snd0])
  have v: "fst (rd_view m') = sol m' ReachDefIn" "snd (rd_view m') = sol m' ReachDefOut" by (simp_all add: rd_view_def)
  have "sol m' ReachDefIn b \<subseteq> rd_in cfg m b \<and> sol m' ReachDefOut b \<subseteq> rd_out cfg m b" if "b \<in> ?N" for b
    using snd [of "Suc k"] that unfolding s(6) [symmetric] by (simp add: sound_def below_def N(1) v)
  moreover have "sol m' ReachDefIn b = rd_in cfg m b \<and> sol m' ReachDefOut b = rd_out cfg m b" if "\<not> ch" "b \<in> ?N" for b
  proof -
    have "\<not> snd (?p (rd_after cfg flag m1 k))" using s(7) that(1) f l by (simp add: calm_def)
    moreover have "fst (?p (rd_after cfg flag m1 k)) = rd_view m'" using s(6) a by simp
    ultimately have q: "?p (rd_after cfg flag m1 k) = (rd_view m', False)" by (simp add: prod_eq_iff)
    show ?thesis using quiet_exact [OF q N(2) snd] that(2) N(1) v by simp
  qed
  moreover have "\<not> ch" if o: "\<not> SOL_AVAIL_REACH_DEF flag" "\<not> SOL_AVAIL_EXPR flag" "retreat_bound ?bs (fc_preds cfg) 18"
  proof
    assume c: ch
    have "k = 19" using s(8) c by (rule mp)
    moreover have "\<not> calm cfg flag m1 (rd_after cfg flag m1 k) (ard_after cfg flag m1 k) (ae_after cfg flag m1 k)"
      using s(7) c by (rule iffD1)
    ultimately have loud: "snd (?p (rd_after cfg flag m1 19))" using o(1,2) unfolding calm_def l by blast
    have o1: "\<forall>b\<in>set ?bs. snd (rd_after cfg flag m1 19) b = RO (fc_preds cfg) ?K ?G b"
      unfolding a using passes_exact [OF N(2) d o(3) _ snd0, of 19] by simp
    have "fst (rd_after cfg flag m1 19) b = {}" if "b \<in> set ?bs" "fc_preds cfg b = []" for b
      using snd [of 19] that RI_RO [of "fc_preds cfg" ?K ?G b] by (auto simp: sound_def below_def)
    then have o2: "\<forall>b\<in>set ?bs. fc_preds cfg b = [] \<longrightarrow> fst (rd_after cfg flag m1 19) b = {}" by blast
    show False using exact_quiet [OF N(2) subset_refl o1 o2] loud by simp
  qed
  ultimately show ?thesis
    by (intro exI [of _ ch] exI [of _ m'] conjI s(1) s(3) ballI impI) blast+
qed

lemma retreats_le: "retreats bs ps \<le> length ps - 1"
  by (induction bs ps rule: retreats.induct) (auto simp: cost_def)

lemma flow_walk_inside: "flow_walk preds ps \<Longrightarrow> (\<And>b. set (preds b) \<subseteq> N) \<Longrightarrow> set (butlast ps) \<subseteq> N"
  by (induction preds ps rule: flow_walk.induct) auto

text \<open>A region of at most 18 blocks cannot have a cycle-free path with more backward edges.\<close>

lemma retreat_bound_card:
  assumes "\<And>b. set (preds b) \<subseteq> N" "finite N" "card N \<le> n"
  shows "retreat_bound bs preds n"
  unfolding retreat_bound_def
proof (intro allI impI, elim conjE)
  fix ps assume p: "flow_walk preds ps" "distinct (butlast ps)"
  have "length (butlast ps) \<le> card N"
    using distinct_card [OF p(2)] card_mono [OF assms(2) flow_walk_inside [OF p(1) assms(1)]] by simp
  then show "retreats bs ps \<le> n" using retreats_le [of bs ps] assms(3) by simp
qed

section \<open>Properties\<close>

definition loop_cfg :: FlowCFG where
  "loop_cfg = \<lparr>fc_bbs = [1, 2, 3], fc_rpo = [1, 2, 3], fc_preds = (\<lambda>b. if b = 2 then [1, 3] else if b = 3 then [2] else []),
     fc_entry = 1, fc_irs = (\<lambda>b. [])\<rparr>"

definition loop_sets :: SolveSetMgr where
  "loop_sets = put_ss MustKilledDef 3 {10} (put_ss MayGenDef 3 {30} (put_ss MayGenDef 1 {10} solve_set_mgr))"

definition only_reach :: SolFlag where
  "only_reach = \<lparr>SOL_AVAIL_REACH_DEF = False, SOL_REACH_DEF = True, SOL_AVAIL_EXPR = False, SOL_REGION_REF = False,
     COMPUTE_PR_DU = True, COMPUTE_NONPR_DU = True\<rparr>"

lemma loop_cfg_ok: "flow_closed loop_cfg" "distinct (fc_rpo loop_cfg)" "retreat_bound (fc_rpo loop_cfg) (fc_preds loop_cfg) 18"
proof -
  show "flow_closed loop_cfg" "distinct (fc_rpo loop_cfg)" by (auto simp: flow_closed_def loop_cfg_def)
  show "retreat_bound (fc_rpo loop_cfg) (fc_preds loop_cfg) 18"
    by (rule retreat_bound_card [where N = "{1, 2, 3}"]) (auto simp: loop_cfg_def)
qed

text \<open>
  C5: the solver never follows a null pointer. For reaching definitions its sets hold only definitions that reach the block
  along a path on which nothing kills them, whether or not the iteration converged; when the last pass changed nothing they
  hold all of these. With no other problem to solve the last pass does change nothing, if no cycle-free path of the flow
  graph has more than 18 edges backward in the order.
\<close>

theorem reaching_definitions_solved:
  assumes "flow_closed cfg" "distinct (fc_rpo cfg)" "SOL_REACH_DEF flag"
  shows "\<exists>ch m'. solve_sets cfg U flag m = Some (ch, m') \<and>
    (\<forall>b\<in>set (fc_bbs cfg). sol m' ReachDefIn b \<subseteq> {d. reach_def (fc_preds cfg) (sol m MustKilledDef) (sol m MayGenDef) d b}) \<and>
    (\<not> ch \<longrightarrow> (\<forall>b\<in>set (fc_bbs cfg). sol m' ReachDefIn b = {d. reach_def (fc_preds cfg) (sol m MustKilledDef) (sol m MayGenDef) d b} \<and>
      sol m' ReachDefOut b = (sol m' ReachDefIn b - sol m MustKilledDef b) \<union> sol m MayGenDef b)) \<and>
    (\<not> SOL_AVAIL_REACH_DEF flag \<and> \<not> SOL_AVAIL_EXPR flag \<and> retreat_bound (fc_rpo cfg) (fc_preds cfg) 18 \<longrightarrow> \<not> ch)"
  using rd_solved [OF assms, of U m] unfolding RI_def RO_def by fastforce

lemma reaching_definitions_solved_witness:
  "\<exists>m'. solve_sets loop_cfg {} only_reach loop_sets = Some (False, m') \<and> 10 \<in> sol m' ReachDefIn 2 \<and> 30 \<in> sol m' ReachDefIn 2 \<and>
     10 \<notin> sol m' ReachDefOut 3"
proof -
  obtain ch m' where s: "solve_sets loop_cfg {} only_reach loop_sets = Some (ch, m')" "\<not> ch"
    "\<not> ch \<longrightarrow> (\<forall>b\<in>set (fc_bbs loop_cfg). sol m' ReachDefIn b = {d. reach_def (fc_preds loop_cfg) (sol loop_sets MustKilledDef) (sol loop_sets MayGenDef) d b} \<and>
      sol m' ReachDefOut b = (sol m' ReachDefIn b - sol loop_sets MustKilledDef b) \<union> sol loop_sets MayGenDef b)"
    using reaching_definitions_solved [OF loop_cfg_ok(1,2), of only_reach "{}" loop_sets] loop_cfg_ok(3)
    by (auto simp: only_reach_def)
  have e: "sol loop_sets MayGenDef (Suc 0) = {10}" "sol loop_sets MayGenDef 3 = {30}" "sol loop_sets MustKilledDef 3 = {10}"
    "fc_preds loop_cfg 2 = [Suc 0, 3]" "fc_bbs loop_cfg = [Suc 0, 2, 3]"
    by (simp_all add: loop_sets_def loop_cfg_def)
  have r1: "reach_def (fc_preds loop_cfg) (sol loop_sets MustKilledDef) (sol loop_sets MayGenDef) 10 2"
    by (rule reach_def.from_pred [of 1]) (simp_all add: e)
  have r3: "reach_def (fc_preds loop_cfg) (sol loop_sets MustKilledDef) (sol loop_sets MayGenDef) 30 2"
    by (rule reach_def.from_pred [of 3]) (simp_all add: e)
  have i: "sol m' ReachDefIn 2 = {d. reach_def (fc_preds loop_cfg) (sol loop_sets MustKilledDef) (sol loop_sets MayGenDef) d 2}"
    "sol m' ReachDefOut 3 = (sol m' ReachDefIn 3 - sol loop_sets MustKilledDef 3) \<union> sol loop_sets MayGenDef 3"
    using s(2,3) unfolding e(5) by simp_all
  have "10 \<in> sol m' ReachDefIn 2" "30 \<in> sol m' ReachDefIn 2" using r1 r3 unfolding i(1) by simp_all
  moreover have "10 \<notin> sol m' ReachDefOut 3" unfolding i(2) by (simp add: e)
  ultimately show ?thesis using s(1,2) by (intro exI [of _ m'] conjI) simp_all
qed

end
