(* ===== verification/SolveAvail.thy ===== *)
theory SolveAvail
  imports SolveClaims
begin

text \<open>
  The two availability problems of the solver. Available definitions are met with intersection and are compared with what
  is on every path; available expressions are met with union, so an expression of one path is taken for available.
\<close>

section \<open>What is missed on some path\<close>

inductive missed :: "(nat \<Rightarrow> nat list) \<Rightarrow> (nat \<Rightarrow> nat set) \<Rightarrow> (nat \<Rightarrow> nat set) \<Rightarrow> nat \<Rightarrow> nat \<Rightarrow> bool"
  for preds K G where
  at_start: "preds b = [] \<Longrightarrow> missed preds K G d b"
| killed: "p \<in> set (preds b) \<Longrightarrow> d \<notin> G p \<Longrightarrow> d \<in> K p \<Longrightarrow> missed preds K G d b"
| before_pred: "p \<in> set (preds b) \<Longrightarrow> d \<notin> G p \<Longrightarrow> missed preds K G d p \<Longrightarrow> missed preds K G d b"

inductive_simps missed_iff: "missed preds K G d b"

definition AI :: "(nat \<Rightarrow> nat list) \<Rightarrow> (nat \<Rightarrow> nat set) \<Rightarrow> (nat \<Rightarrow> nat set) \<Rightarrow> nat \<Rightarrow> nat set" where
  "AI preds K G b = {d. \<not> missed preds K G d b}"

definition AO :: "(nat \<Rightarrow> nat list) \<Rightarrow> (nat \<Rightarrow> nat set) \<Rightarrow> (nat \<Rightarrow> nat set) \<Rightarrow> nat \<Rightarrow> nat set" where
  "AO preds K G b = (AI preds K G b - K b) \<union> G b"

lemma AI_AO: "AI preds K G b = (if preds b = [] then {} else \<Inter>p\<in>set (preds b). AO preds K G p)"
  by (auto simp: AO_def AI_def missed_iff [of preds K G _ b])

definition sound_meet :: "(nat \<Rightarrow> nat list) \<Rightarrow> (nat \<Rightarrow> nat set) \<Rightarrow> (nat \<Rightarrow> nat set) \<Rightarrow> nat set \<Rightarrow> view \<Rightarrow> bool" where
  "sound_meet preds K G N v \<longleftrightarrow> below N (fst v) (AI preds K G) \<and> below N (snd v) (AO preds K G)"

lemma sound_meet_pass:
  assumes "\<forall>b\<in>N. set (preds b) \<subseteq> N"
  shows "set bs \<subseteq> N \<Longrightarrow> sound_meet preds K G N v \<Longrightarrow> sound_meet preds K G N (fst (gpass Inter preds K G bs v))"
proof (induction bs arbitrary: v)
  case (Cons b bs)
  obtain I Ou where v: "v = (I, Ou)" by (cases v)
  define X where "X = (if preds b = [] then I b else \<Inter> (Ou ` set (preds b)))"
  have X: "X \<subseteq> AI preds K G b"
  proof (cases "preds b = []")
    case True
    then show ?thesis using Cons.prems v by (simp add: X_def sound_meet_def below_def)
  next
    case False
    have "Ou p \<subseteq> AO preds K G p" if "p \<in> set (preds b)" for p
    proof -
      have "p \<in> N" using Cons.prems(1) assms that by auto
      then show ?thesis using Cons.prems(2) v by (simp add: sound_meet_def below_def)
    qed
    then show ?thesis using False unfolding X_def AI_AO [of preds K G b] by auto
  qed
  have "gstep Inter preds K G b (v, False) = ((I(b := X), Ou(b := (X - K b) \<union> G b)), (X - K b) \<union> G b \<noteq> Ou b)"
    using v by (simp add: gstep_pair Let_def X_def)
  then have "sound_meet preds K G N (fst (gstep Inter preds K G b (v, False)))"
    using Cons.prems(2) X v by (auto simp: sound_meet_def below_def AO_def)
  then show ?case using Cons.IH [of "fst (gstep Inter preds K G b (v, False))"] Cons.prems(1) by (simp add: gpass_Cons)
qed simp

lemma meet_passes_sound:
  "\<forall>b\<in>set bs. set (preds b) \<subseteq> set bs \<Longrightarrow> sound_meet preds K G (set bs) v \<Longrightarrow>
   sound_meet preds K G (set bs) (((\<lambda>v. fst (gpass Inter preds K G bs v)) ^^ k) v)"
  by (induction k) (simp_all add: sound_meet_pass [OF _ order_refl])

section \<open>The last pass\<close>

text \<open>When the whole iteration was quiet at the end, the result satisfies the equations of every problem.\<close>

lemma quiet_equations:
  assumes "gpass J preds K G bs v = (v', False)" "b \<in> set bs"
  shows "(preds b \<noteq> [] \<longrightarrow> fst v' b = J (snd v' ` set (preds b))) \<and> snd v' b = (fst v' b - K b) \<union> G b"
  using gpass_quiet [of J preds K G bs "fst v" "snd v" "fst v'" "snd v'"] assms by auto

lemma ard_quiet:
  assumes s: "same_local m m1" "ard_view m' = ard_after cfg flag m1 (Suc k)" "calm cfg flag m1 r (ard_after cfg flag m1 k) e"
    and f: "SOL_AVAIL_REACH_DEF flag"
  shows "gpass Inter (fc_preds cfg) (sol m MayKilledDef) (sol m MustGenDef) (fc_rpo cfg) (ard_after cfg flag m1 k) = (ard_view m', False)"
proof -
  have l: "sol m1 MayKilledDef = sol m MayKilledDef" "sol m1 MustGenDef = sol m MustGenDef" using same_localD [OF s(1)] by simp_all
  have "\<not> snd (ard_pass cfg m (fc_rpo cfg) (ard_after cfg flag m1 k))" using s(3) f l unfolding calm_def by simp
  moreover have "fst (ard_pass cfg m (fc_rpo cfg) (ard_after cfg flag m1 k)) = ard_view m'"
    using s(2) f l by (simp add: ard_after_def upd_if_def)
  ultimately show ?thesis by (simp add: prod_eq_iff)
qed

lemma ae_quiet:
  assumes s: "same_local m m1" "ae_view m' = ae_after cfg flag m1 (Suc k)" "calm cfg flag m1 r a (ae_after cfg flag m1 k)"
    and f: "SOL_AVAIL_EXPR flag"
  shows "gpass Union (fc_preds cfg) (sol m KilledIRExpr) (sol m GenIRExpr) (fc_rpo cfg) (ae_after cfg flag m1 k) = (ae_view m', False)"
proof -
  have l: "sol m1 KilledIRExpr = sol m KilledIRExpr" "sol m1 GenIRExpr = sol m GenIRExpr" using same_localD [OF s(1)] by simp_all
  have "\<not> snd (ae_pass cfg m (fc_rpo cfg) (ae_after cfg flag m1 k))" using s(3) f l unfolding calm_def by simp
  moreover have "fst (ae_pass cfg m (fc_rpo cfg) (ae_after cfg flag m1 k)) = ae_view m'"
    using s(2) f l by (simp add: ae_after_def upd_if_def)
  ultimately show ?thesis by (simp add: prod_eq_iff)
qed

text \<open>Without cycles the equations have one solution.\<close>

lemma meet_unique:
  assumes "acyclic {(p, b). b \<in> N \<and> p \<in> set (preds b)}" "finite N" "\<forall>b\<in>N. set (preds b) \<subseteq> N"
    and eq: "\<And>b. b \<in> N \<Longrightarrow> preds b \<noteq> [] \<Longrightarrow> I b = (\<Inter>p\<in>set (preds b). Ou p)" "\<And>b. b \<in> N \<Longrightarrow> Ou b = (I b - K b) \<union> G b"
  shows "b \<in> N \<Longrightarrow> AI preds K G b \<subseteq> I b"
proof -
  have "{(p, b). b \<in> N \<and> p \<in> set (preds b)} \<subseteq> N \<times> N" using assms(3) by auto
  then have "finite {(p, b). b \<in> N \<and> p \<in> set (preds b)}" using assms(2) finite_subset by blast
  then have wf: "wf {(p, b). b \<in> N \<and> p \<in> set (preds b)}" using assms(1) by (rule finite_acyclic_wf)
  show "b \<in> N \<Longrightarrow> AI preds K G b \<subseteq> I b"
  proof (induction b rule: wf_induct_rule [OF wf])
    case (1 b)
    have "AO preds K G p \<subseteq> Ou p" if "p \<in> set (preds b)" for p
    proof -
      have "p \<in> N" using 1(2) that assms(3) by auto
      moreover from this have "AI preds K G p \<subseteq> I p" using 1 that by blast
      ultimately show ?thesis using eq(2) [of p] by (auto simp: AO_def)
    qed
    then have m: "(\<Inter>p\<in>set (preds b). AO preds K G p) \<subseteq> (\<Inter>p\<in>set (preds b). Ou p)" by (meson INF_mono)
    show ?case
    proof (cases "preds b = []")
      case True
      then show ?thesis using AI_AO [of preds K G b] by simp
    next
      case False
      then show ?thesis using m unfolding eq(1) [OF 1(2) False] AI_AO [of preds K G b] by simp
    qed
  qed
qed

text \<open>In an order in which predecessors come first, one pass establishes the equations and the next one is quiet.\<close>

fun preds_first :: "(nat \<Rightarrow> nat list) \<Rightarrow> nat set \<Rightarrow> nat list \<Rightarrow> bool" where
  "preds_first preds S [] \<longleftrightarrow> True"
| "preds_first preds S (b # bs) \<longleftrightarrow> set (preds b) \<subseteq> S \<and> b \<notin> S \<and> preds_first preds (insert b S) bs"

definition equations :: "(nat set set \<Rightarrow> nat set) \<Rightarrow> (nat \<Rightarrow> nat list) \<Rightarrow> (nat \<Rightarrow> nat set) \<Rightarrow> (nat \<Rightarrow> nat set) \<Rightarrow> nat set \<Rightarrow> view \<Rightarrow> bool" where
  "equations J preds K G S v \<longleftrightarrow> (\<forall>b\<in>S. (preds b \<noteq> [] \<longrightarrow> fst v b = J (snd v ` set (preds b))) \<and> snd v b = (fst v b - K b) \<union> G b)"

lemma equations_pass:
  "preds_first preds S bs \<Longrightarrow> \<forall>b\<in>S. set (preds b) \<subseteq> S \<Longrightarrow> equations J preds K G S v \<Longrightarrow>
   equations J preds K G (S \<union> set bs) (fst (gpass J preds K G bs v))"
proof (induction bs arbitrary: S v)
  case (Cons b bs)
  obtain I Ou where v: "v = (I, Ou)" by (cases v)
  define X where "X = (if preds b = [] then I b else J (Ou ` set (preds b)))"
  define w where "w = (I(b := X), Ou(b := (X - K b) \<union> G b))"
  have g: "fst (gstep J preds K G b (v, False)) = w" using v by (simp add: gstep_pair Let_def X_def w_def)
  have b: "b \<notin> S" "set (preds b) \<subseteq> S" "preds_first preds (insert b S) bs" using Cons.prems(1) by simp_all
  have im: "snd w ` set (preds c) = Ou ` set (preds c)" if "set (preds c) \<subseteq> S" for c
    using that b(1) by (auto simp: w_def intro!: image_cong)
  have "equations J preds K G (insert b S) w"
    unfolding equations_def
  proof (intro ballI)
    fix c assume c: "c \<in> insert b S"
    show "(preds c \<noteq> [] \<longrightarrow> fst w c = J (snd w ` set (preds c))) \<and> snd w c = (fst w c - K c) \<union> G c"
    proof (cases "c = b")
      case True
      have "fst w b = X" "snd w b = (X - K b) \<union> G b" by (simp_all add: w_def)
      moreover have "preds b \<noteq> [] \<Longrightarrow> X = J (snd w ` set (preds b))" unfolding im [OF b(2)] by (simp add: X_def)
      ultimately show ?thesis using True by simp
    next
      case False
      then have cs: "c \<in> S" using c by simp
      then have "fst w c = I c" "snd w c = Ou c" using False by (simp_all add: w_def)
      then show ?thesis using Cons.prems(3) im [of c] cs Cons.prems(2) by (simp add: equations_def v)
    qed
  qed
  then show ?case using Cons.IH [OF b(3), of w] Cons.prems(2) b(2) g by (auto simp: gpass_Cons)
qed simp

lemma equations_quiet: "equations J preds K G S v \<Longrightarrow> set bs \<subseteq> S \<Longrightarrow> gpass J preds K G bs v = (v, False)"
proof (induction bs)
  case (Cons b bs)
  obtain I Ou where v: "v = (I, Ou)" by (cases v)
  have e: "(if preds b = [] then I b else J (Ou ` set (preds b))) = I b" "(I b - K b) \<union> G b = Ou b"
    using Cons.prems v by (auto simp: equations_def)
  have "gstep J preds K G b (v, False) = (v, False)" unfolding v gstep_pair Let_def e by simp
  then show ?case using Cons by (simp add: gpass_Cons)
qed simp

lemma ordered_quiet:
  assumes "preds_first preds {} bs"
  shows "\<not> snd (gpass J preds K G bs (((\<lambda>v. fst (gpass J preds K G bs v)) ^^ Suc k) v))"
proof -
  have "equations J preds K G (set bs) (((\<lambda>v. fst (gpass J preds K G bs v)) ^^ Suc k) v)" for v
    using equations_pass [OF assms, of J K G] by (simp add: equations_def [of _ _ _ _ "{}"])
  then show ?thesis using equations_quiet by (metis order_refl snd_conv)
qed

lemma ordered_calm:
  assumes "preds_first (fc_preds cfg) {} (fc_rpo cfg)"
  shows "calm cfg flag m (rd_after cfg flag m (Suc k)) (ard_after cfg flag m (Suc k)) (ae_after cfg flag m (Suc k))"
  unfolding calm_def rd_after_def ard_after_def ae_after_def upd_if_pow
  by (intro conjI impI) (simp_all only: if_True ordered_quiet [OF assms] not_False_eq_True)

lemma ordered_converges:
  assumes "flow_closed cfg" "preds_first (fc_preds cfg) {} (fc_rpo cfg)" "solve_sets cfg U flag m = Some (ch, m')"
  shows "\<not> ch"
proof
  assume ch
  obtain k m1 where s: "ch \<longrightarrow> k = 19"
    "ch \<longleftrightarrow> \<not> calm cfg flag m1 (rd_after cfg flag m1 k) (ard_after cfg flag m1 k) (ae_after cfg flag m1 k)"
    using solve_sets_ok [OF assms(1), of U flag m] assms(3) by auto
  have "k = Suc 18" using s(1) \<open>ch\<close> by simp
  then show False using s(2) \<open>ch\<close> ordered_calm [OF assms(2), of flag m1 18] by simp
qed

lemma views: "fst (ard_view m) = sol m AvailReachDefIn" "snd (ard_view m) = sol m AvailReachDefOut"
  "fst (ae_view m) = sol m AvailExprIn" "snd (ae_view m) = sol m AvailExprOut"
  by (simp_all add: ard_view_def ae_view_def)

lemma ard_solved:
  assumes cl: "flow_closed cfg" and f: "SOL_AVAIL_REACH_DEF flag" and z: "\<forall>b\<in>set (fc_bbs cfg). sol m AvailReachDefOut b = {}"
  shows "\<exists>ch m'. solve_sets cfg U flag m = Some (ch, m') \<and>
    (\<forall>b\<in>set (fc_bbs cfg). sol m' AvailReachDefIn b \<subseteq> AI (fc_preds cfg) (sol m MayKilledDef) (sol m MustGenDef) b) \<and>
    (\<not> ch \<longrightarrow> (\<forall>b\<in>set (fc_bbs cfg). (fc_preds cfg b \<noteq> [] \<longrightarrow> sol m' AvailReachDefIn b = (\<Inter>p\<in>set (fc_preds cfg b). sol m' AvailReachDefOut p)) \<and>
      sol m' AvailReachDefOut b = (sol m' AvailReachDefIn b - sol m MayKilledDef b) \<union> sol m MustGenDef b))"
proof -
  obtain ch m' k m1 where s: "solve_sets cfg U flag m = Some (ch, m')" "same_local m m1"
    "m1 = fold (init_bb cfg U flag) (rev (fc_bbs cfg)) m" "ard_view m' = ard_after cfg flag m1 (Suc k)"
    "ch \<longleftrightarrow> \<not> calm cfg flag m1 (rd_after cfg flag m1 k) (ard_after cfg flag m1 k) (ae_after cfg flag m1 k)"
    using solve_sets_ok [OF cl, of U flag m] by blast
  let ?N = "set (fc_bbs cfg)" and ?bs = "fc_rpo cfg" and ?K = "sol m MayKilledDef" and ?G = "sol m MustGenDef"
  have N: "set ?bs = ?N" "\<forall>b\<in>set ?bs. set (fc_preds cfg b) \<subseteq> set ?bs" using cl by (auto simp: flow_closed_def)
  have l: "sol m1 MayKilledDef = ?K" "sol m1 MustGenDef = ?G" using same_localD [OF s(2)] by simp_all
  have "sol m1 AvailReachDefIn b = {}" if "b \<in> ?N" for b
    unfolding s(3) by (rule start_ok(4) [OF f]) (simp add: that)
  moreover have "sol m1 AvailReachDefOut = sol m AvailReachDefOut" unfolding s(3) by (rule start_ok(5))
  ultimately have i: "sound_meet (fc_preds cfg) ?K ?G (set ?bs) (ard_view m1)"
    using z by (simp add: sound_meet_def below_def views N(1))
  have "ard_after cfg flag m1 (Suc k) = ((\<lambda>v. fst (gpass Inter (fc_preds cfg) ?K ?G ?bs v)) ^^ Suc k) (ard_view m1)"
    using f l unfolding ard_after_def upd_if_pow by simp
  then have "sound_meet (fc_preds cfg) ?K ?G (set ?bs) (ard_view m')"
    using meet_passes_sound [OF N(2) i, of "Suc k"] s(4) by simp
  then have below: "\<forall>b\<in>?N. sol m' AvailReachDefIn b \<subseteq> AI (fc_preds cfg) ?K ?G b"
    by (simp add: sound_meet_def below_def views N(1))
  have eq: "(fc_preds cfg b \<noteq> [] \<longrightarrow> sol m' AvailReachDefIn b = (\<Inter>p\<in>set (fc_preds cfg b). sol m' AvailReachDefOut p)) \<and>
      sol m' AvailReachDefOut b = (sol m' AvailReachDefIn b - ?K b) \<union> ?G b" if "\<not> ch" "b \<in> ?N" for b
  proof -
    have c: "calm cfg flag m1 (rd_after cfg flag m1 k) (ard_after cfg flag m1 k) (ae_after cfg flag m1 k)" using s(5) that(1) by blast
    show ?thesis using quiet_equations [OF ard_quiet [OF s(2,4) c f], of b] that(2) N(1) by (simp add: views)
  qed
  show ?thesis by (intro exI [of _ ch] exI [of _ m'] conjI s(1) below impI ballI) (use eq in blast)+
qed

lemma ae_solved:
  assumes cl: "flow_closed cfg" and f: "SOL_AVAIL_EXPR flag"
  shows "\<exists>ch m'. solve_sets cfg U flag m = Some (ch, m') \<and>
    (\<not> ch \<longrightarrow> (\<forall>b\<in>set (fc_bbs cfg). RI (fc_preds cfg) (sol m KilledIRExpr) (sol m GenIRExpr) b \<subseteq> sol m' AvailExprIn b \<and>
      (fc_preds cfg b \<noteq> [] \<longrightarrow> sol m' AvailExprIn b = (\<Union>p\<in>set (fc_preds cfg b). sol m' AvailExprOut p)) \<and>
      sol m' AvailExprOut b = (sol m' AvailExprIn b - sol m KilledIRExpr b) \<union> sol m GenIRExpr b))"
proof -
  obtain ch m' k m1 where s: "solve_sets cfg U flag m = Some (ch, m')" "same_local m m1" "ae_view m' = ae_after cfg flag m1 (Suc k)"
    "ch \<longleftrightarrow> \<not> calm cfg flag m1 (rd_after cfg flag m1 k) (ard_after cfg flag m1 k) (ae_after cfg flag m1 k)"
    using solve_sets_ok [OF cl, of U flag m] by blast
  have N: "set (fc_rpo cfg) = set (fc_bbs cfg)" "\<forall>b\<in>set (fc_rpo cfg). set (fc_preds cfg b) \<subseteq> set (fc_rpo cfg)"
    using cl by (auto simp: flow_closed_def)
  have eq: "RI (fc_preds cfg) (sol m KilledIRExpr) (sol m GenIRExpr) b \<subseteq> sol m' AvailExprIn b \<and>
      (fc_preds cfg b \<noteq> [] \<longrightarrow> sol m' AvailExprIn b = (\<Union>p\<in>set (fc_preds cfg b). sol m' AvailExprOut p)) \<and>
      sol m' AvailExprOut b = (sol m' AvailExprIn b - sol m KilledIRExpr b) \<union> sol m GenIRExpr b" if "\<not> ch" "b \<in> set (fc_bbs cfg)" for b
  proof -
    have c: "calm cfg flag m1 (rd_after cfg flag m1 k) (ard_after cfg flag m1 k) (ae_after cfg flag m1 k)" using s(4) that(1) by blast
    note q = ae_quiet [OF s(2,3) c f]
    have b: "b \<in> set (fc_rpo cfg)" using that(2) N(1) by simp
    show ?thesis using quiet_equations [OF q b] quiet_complete [OF q N(2) _ b] by (auto simp: views RI_def)
  qed
  show ?thesis by (intro exI [of _ ch] exI [of _ m'] conjI s(1) impI ballI) (use eq in blast)+
qed

section \<open>Properties\<close>

text \<open>
  C10: started from reset sets, the solver's available definitions are, after any number of passes, available on every path
  from a block without predecessors: none of them is missed on some path. When the last pass changed nothing they satisfy the
  equations with intersection, and in a region without cycles they are all that is available. In an order in which predecessors come first the last pass does change nothing.
\<close>

theorem available_definitions_sound:
  assumes "flow_closed cfg" "SOL_AVAIL_REACH_DEF flag" "\<forall>b\<in>set (fc_bbs cfg). sol m AvailReachDefOut b = {}"
  shows "\<exists>ch m'. solve_sets cfg U flag m = Some (ch, m') \<and>
    (\<forall>b\<in>set (fc_bbs cfg). sol m' AvailReachDefIn b \<subseteq> {d. \<not> missed (fc_preds cfg) (sol m MayKilledDef) (sol m MustGenDef) d b}) \<and>
    (\<not> ch \<longrightarrow> (\<forall>b\<in>set (fc_bbs cfg). (fc_preds cfg b \<noteq> [] \<longrightarrow> sol m' AvailReachDefIn b = (\<Inter>p\<in>set (fc_preds cfg b). sol m' AvailReachDefOut p)) \<and>
      sol m' AvailReachDefOut b = (sol m' AvailReachDefIn b - sol m MayKilledDef b) \<union> sol m MustGenDef b)) \<and>
    (\<not> ch \<and> acyclic {(p, b). b \<in> set (fc_bbs cfg) \<and> p \<in> set (fc_preds cfg b)} \<longrightarrow> (\<forall>b\<in>set (fc_bbs cfg).
      sol m' AvailReachDefIn b = {d. \<not> missed (fc_preds cfg) (sol m MayKilledDef) (sol m MustGenDef) d b})) \<and>
    (preds_first (fc_preds cfg) {} (fc_rpo cfg) \<longrightarrow> \<not> ch)"
proof -
  let ?N = "set (fc_bbs cfg)"
  obtain ch m' where s: "solve_sets cfg U flag m = Some (ch, m')"
    "\<forall>b\<in>?N. sol m' AvailReachDefIn b \<subseteq> AI (fc_preds cfg) (sol m MayKilledDef) (sol m MustGenDef) b"
    "\<not> ch \<longrightarrow> (\<forall>b\<in>?N. (fc_preds cfg b \<noteq> [] \<longrightarrow> sol m' AvailReachDefIn b = (\<Inter>p\<in>set (fc_preds cfg b). sol m' AvailReachDefOut p)) \<and>
      sol m' AvailReachDefOut b = (sol m' AvailReachDefIn b - sol m MayKilledDef b) \<union> sol m MustGenDef b)"
    using ard_solved [OF assms, of U] by (elim exE conjE) (rule that; assumption)
  have N: "\<forall>b\<in>?N. set (fc_preds cfg b) \<subseteq> ?N" using assms(1) by (simp add: flow_closed_def)
  have e: "sol m' AvailReachDefIn b = AI (fc_preds cfg) (sol m MayKilledDef) (sol m MustGenDef) b"
    if "\<not> ch" "acyclic {(p, b). b \<in> ?N \<and> p \<in> set (fc_preds cfg b)}" "b \<in> ?N" for b
  proof (intro subset_antisym)
    have q: "(fc_preds cfg c \<noteq> [] \<longrightarrow> sol m' AvailReachDefIn c = (\<Inter>p\<in>set (fc_preds cfg c). sol m' AvailReachDefOut p)) \<and>
      sol m' AvailReachDefOut c = (sol m' AvailReachDefIn c - sol m MayKilledDef c) \<union> sol m MustGenDef c" if "c \<in> ?N" for c
      using bspec [OF mp [OF s(3) \<open>\<not> ch\<close>] that] .
    show "sol m' AvailReachDefIn b \<subseteq> AI (fc_preds cfg) (sol m MayKilledDef) (sol m MustGenDef) b" using s(2) that(3) by (rule bspec)
    show "AI (fc_preds cfg) (sol m MayKilledDef) (sol m MustGenDef) b \<subseteq> sol m' AvailReachDefIn b"
      by (rule meet_unique [OF that(2) finite_set N conjunct1 [OF q, THEN mp] conjunct2 [OF q] that(3)])
  qed
  note o = ordered_converges [OF assms(1) _ s(1)]
  have e: "\<not> ch \<and> acyclic {(p, b). b \<in> ?N \<and> p \<in> set (fc_preds cfg b)} \<longrightarrow>
      (\<forall>b\<in>?N. sol m' AvailReachDefIn b = AI (fc_preds cfg) (sol m MayKilledDef) (sol m MustGenDef) b)"
    using e by blast
  show ?thesis unfolding AI_def [symmetric]
    by (rule exI [of _ ch], rule exI [of _ m'], rule conjI [OF s(1) conjI [OF s(2) conjI [OF s(3) conjI [OF e impI [OF o]]]]])
qed

definition split_cfg :: FlowCFG where
  "split_cfg = \<lparr>fc_bbs = [1, 2, 3, 4], fc_rpo = [1, 2, 3, 4],
     fc_preds = (\<lambda>b. if b = 2 \<or> b = 3 then [1] else if b = 4 then [2, 3] else []), fc_entry = 1, fc_irs = (\<lambda>b. [])\<rparr>"

definition split_sets :: SolveSetMgr where
  "split_sets = put_ss MustGenDef 1 {7} (put_ss MustGenDef 2 {8} (put_ss GenIRExpr 2 {5} solve_set_mgr))"

definition only_avail :: "bool \<Rightarrow> SolFlag" where
  "only_avail expr = \<lparr>SOL_AVAIL_REACH_DEF = \<not> expr, SOL_REACH_DEF = False, SOL_AVAIL_EXPR = expr, SOL_REGION_REF = False,
     COMPUTE_PR_DU = True, COMPUTE_NONPR_DU = True\<rparr>"

lemma split_cfg_ok: "flow_closed split_cfg"
  by (auto simp: flow_closed_def split_cfg_def)

lemma available_definitions_sound_witness:
  "\<exists>ch m'. solve_sets split_cfg {} (only_avail False) split_sets = Some (ch, m') \<and> 8 \<notin> sol m' AvailReachDefIn 4"
proof -
  have "sol split_sets AvailReachDefOut b = {}" for b by (simp add: split_sets_def solve_set_mgr_def sol_def put_ss_def)
  then obtain ch m' where s: "solve_sets split_cfg {} (only_avail False) split_sets = Some (ch, m')"
    "\<forall>b\<in>set (fc_bbs split_cfg). sol m' AvailReachDefIn b \<subseteq> {d. \<not> missed (fc_preds split_cfg) (sol split_sets MayKilledDef) (sol split_sets MustGenDef) d b}"
    using available_definitions_sound [OF split_cfg_ok, of "only_avail False" split_sets "{}"] by (auto simp: only_avail_def)
  have g: "8 \<notin> sol split_sets MustGenDef 1" "8 \<notin> sol split_sets MustGenDef 3" by (simp_all add: split_sets_def solve_set_mgr_def sol_def put_ss_def)
  have "missed (fc_preds split_cfg) (sol split_sets MayKilledDef) (sol split_sets MustGenDef) 8 1"
    by (rule missed.at_start) (simp add: split_cfg_def)
  then have "missed (fc_preds split_cfg) (sol split_sets MayKilledDef) (sol split_sets MustGenDef) 8 3"
    by (rule missed.before_pred [rotated 2]) (use g in \<open>simp_all add: split_cfg_def\<close>)
  then have "missed (fc_preds split_cfg) (sol split_sets MayKilledDef) (sol split_sets MustGenDef) 8 4"
    by (rule missed.before_pred [rotated 2]) (use g in \<open>simp_all add: split_cfg_def\<close>)
  moreover have "4 \<in> set (fc_bbs split_cfg)" by (simp add: split_cfg_def)
  ultimately show ?thesis using s by (intro exI [of _ ch] exI [of _ m'] conjI) auto
qed

text \<open>
  C14: for available expressions the equations of the code are those of expressions that reach a block along any path: when
  the last pass changed nothing, every expression generated on one path to a block and not killed on the rest of it is in
  the available-in set, whatever the other paths do. In an order in which predecessors come first the last pass does change nothing.
\<close>

theorem available_expressions_any_path:
  assumes "flow_closed cfg" "SOL_AVAIL_EXPR flag"
  shows "\<exists>ch m'. solve_sets cfg U flag m = Some (ch, m') \<and>
    (\<not> ch \<longrightarrow> (\<forall>b\<in>set (fc_bbs cfg). {e. reach_def (fc_preds cfg) (sol m KilledIRExpr) (sol m GenIRExpr) e b} \<subseteq> sol m' AvailExprIn b \<and>
      (fc_preds cfg b \<noteq> [] \<longrightarrow> sol m' AvailExprIn b = (\<Union>p\<in>set (fc_preds cfg b). sol m' AvailExprOut p)) \<and>
      sol m' AvailExprOut b = (sol m' AvailExprIn b - sol m KilledIRExpr b) \<union> sol m GenIRExpr b)) \<and>
    (preds_first (fc_preds cfg) {} (fc_rpo cfg) \<longrightarrow> \<not> ch)"
proof -
  obtain ch m' where s: "solve_sets cfg U flag m = Some (ch, m')"
    "\<not> ch \<longrightarrow> (\<forall>b\<in>set (fc_bbs cfg). {e. reach_def (fc_preds cfg) (sol m KilledIRExpr) (sol m GenIRExpr) e b} \<subseteq> sol m' AvailExprIn b \<and>
      (fc_preds cfg b \<noteq> [] \<longrightarrow> sol m' AvailExprIn b = (\<Union>p\<in>set (fc_preds cfg b). sol m' AvailExprOut p)) \<and>
      sol m' AvailExprOut b = (sol m' AvailExprIn b - sol m KilledIRExpr b) \<union> sol m GenIRExpr b)"
    using ae_solved [OF assms, of U m] unfolding RI_def by blast
  note o = ordered_converges [OF assms(1) _ s(1)]
  show ?thesis by (rule exI [of _ ch], rule exI [of _ m'], rule conjI [OF s(1) conjI [OF s(2) impI [OF o]]])
qed

lemma available_expressions_any_path_witness:
  "\<exists>m'. solve_sets split_cfg {5} (only_avail True) split_sets = Some (False, m') \<and> 5 \<in> sol m' AvailExprIn 4 \<and>
     missed (fc_preds split_cfg) (sol split_sets KilledIRExpr) (sol split_sets GenIRExpr) 5 4"
proof -
  let ?P = "fc_preds split_cfg" and ?K = "sol split_sets KilledIRExpr" and ?G = "sol split_sets GenIRExpr"
  have o: "preds_first ?P {} (fc_rpo split_cfg)" by (simp add: split_cfg_def)
  obtain m' where s: "solve_sets split_cfg {5} (only_avail True) split_sets = Some (False, m')"
    "\<forall>b\<in>set (fc_bbs split_cfg). {e. reach_def ?P ?K ?G e b} \<subseteq> sol m' AvailExprIn b"
    using available_expressions_any_path [OF split_cfg_ok, of "only_avail True" "{5}" split_sets] o by (auto simp: only_avail_def)
  have g: "5 \<in> ?G 2" "5 \<notin> ?G 1" "5 \<notin> ?G 3" by (simp_all add: split_sets_def solve_set_mgr_def sol_def put_ss_def)
  have "reach_def ?P ?K ?G 5 4" by (rule reach_def.from_pred [of 2]) (use g in \<open>simp_all add: split_cfg_def\<close>)
  moreover have "4 \<in> set (fc_bbs split_cfg)" by (simp add: split_cfg_def)
  ultimately have a: "5 \<in> sol m' AvailExprIn 4" using s(2) by blast
  have "missed ?P ?K ?G 5 1" by (rule missed.at_start) (simp add: split_cfg_def)
  then have "missed ?P ?K ?G 5 3" by (rule missed.before_pred [rotated 2]) (use g in \<open>simp_all add: split_cfg_def\<close>)
  then have "missed ?P ?K ?G 5 4" by (rule missed.before_pred [rotated 2]) (use g in \<open>simp_all add: split_cfg_def\<close>)
  then show ?thesis using s(1) a by blast
qed

end
