(* ===== verification/SolveKill.thy ===== *)
theory SolveKill
  imports SolveAvail
begin

text \<open>
  The local sets of a block as sets over its statements, the kill sets of a region as sets over the ancestors of a block,
  and what \<open>perform\<close> makes of them.
\<close>

section \<open>What a block generates\<close>

definition tracked :: "SolFlag \<Rightarrow> IR \<Rightarrow> bool" where
  "tracked flag ir \<longleftrightarrow> hasResult ir \<and> (isWritePR ir \<longrightarrow> COMPUTE_PR_DU flag)"

definition may_tracked :: "SolFlag \<Rightarrow> IR \<Rightarrow> bool" where
  "may_tracked flag ir \<longleftrightarrow> tracked flag ir \<and>
     (ir_code ir \<in> {DIRECT_MEM_STMT, INDIRECT_MEM_STMT, WRITE_ARRAY, IR_CALL, IR_ICALL} \<longrightarrow> COMPUTE_NONPR_DU flag)"

definition must_tracked :: "SolFlag \<Rightarrow> IR \<Rightarrow> bool" where
  "must_tracked flag ir \<longleftrightarrow> tracked flag ir \<and>
     (ir_code ir \<in> {DIRECT_MEM_STMT, INDIRECT_MEM_STMT, WRITE_ARRAY} \<longrightarrow> COMPUTE_NONPR_DU flag) \<and>
     (isCallStmt ir \<longrightarrow> COMPUTE_PR_DU flag)"

text \<open>The statements of a list that a test selects and that no later selected one kills.\<close>

definition survivors :: "(IR \<Rightarrow> bool) \<Rightarrow> (IR \<Rightarrow> IR \<Rightarrow> bool) \<Rightarrow> IR list \<Rightarrow> nat set" where
  "survivors sel kill irs = {ir_id ir |ir xs ys. irs = xs @ ir # ys \<and> sel ir \<and> (\<forall>x\<in>set ys. sel x \<longrightarrow> \<not> kill x ir)}"

lemma survivors_Nil [simp]: "survivors sel kill [] = {}"
  by (simp add: survivors_def)

lemma survivors_snoc:
  assumes "\<forall>ir\<in>set irs. stmt (ir_id ir) = ir"
  shows "survivors sel kill (irs @ [ir]) =
    (if sel ir then insert (ir_id ir) {i \<in> survivors sel kill irs. \<not> kill ir (stmt i)} else survivors sel kill irs)"
proof -
  have split: "irs @ [ir] = xs @ x # ys \<longleftrightarrow> (ys = [] \<and> x = ir \<and> xs = irs) \<or> (\<exists>zs. ys = zs @ [ir] \<and> irs = xs @ x # zs)" for xs x ys
    by (cases ys rule: rev_cases) auto
  have st: "stmt (ir_id x) = x" if "irs = xs @ x # ys" for x xs ys using assms that by simp
  show ?thesis
  proof (intro set_eqI iffI)
    fix i assume "i \<in> survivors sel kill (irs @ [ir])"
    then obtain x xs ys where x: "i = ir_id x" "irs @ [ir] = xs @ x # ys" "sel x" "\<forall>y\<in>set ys. sel y \<longrightarrow> \<not> kill y x"
      unfolding survivors_def by blast
    from x(2) consider "ys = []" "x = ir" | zs where "ys = zs @ [ir]" "irs = xs @ x # zs" unfolding split by blast
    then show "i \<in> (if sel ir then insert (ir_id ir) {i \<in> survivors sel kill irs. \<not> kill ir (stmt i)} else survivors sel kill irs)"
    proof cases
      case 2
      have "i \<in> survivors sel kill irs" using x 2 unfolding survivors_def by auto
      then show ?thesis using x 2 st [OF 2(2)] by auto
    qed (use x in simp)
  next
    fix i assume i: "i \<in> (if sel ir then insert (ir_id ir) {i \<in> survivors sel kill irs. \<not> kill ir (stmt i)} else survivors sel kill irs)"
    show "i \<in> survivors sel kill (irs @ [ir])"
    proof (cases "sel ir \<and> i = ir_id ir")
      case True
      then show ?thesis unfolding survivors_def by fastforce
    next
      case False
      then have "i \<in> survivors sel kill irs" "sel ir \<longrightarrow> \<not> kill ir (stmt i)" using i by (auto split: if_splits)
      then obtain x xs ys where x: "i = ir_id x" "irs = xs @ x # ys" "sel x" "\<forall>y\<in>set ys. sel y \<longrightarrow> \<not> kill y x"
        "sel ir \<longrightarrow> \<not> kill ir (stmt i)" unfolding survivors_def by blast
      have "irs @ [ir] = xs @ x # (ys @ [ir])" "\<forall>y\<in>set (ys @ [ir]). sel y \<longrightarrow> \<not> kill y x"
        using x(2,4,5) st [OF x(2)] x(1) by auto
      then show ?thesis using x(1,3) unfolding survivors_def by blast
    qed
  qed
qed

text \<open>The descriptors a statement must define.\<close>

definition must_mds :: "MDSystem \<Rightarrow> IR \<Rightarrow> nat set" where
  "must_mds s ir =
     (let x = getExactRef ir
      in if x \<noteq> 0 then insert (MD_id x) (MD_id ` {e \<in> overlapping s x. e \<noteq> x \<and> is_exact e})
         else if isWritePR ir \<or> isCallStmt ir \<and> hasReturnValue ir then {MD_id (ir_md ir)} else {})"

definition refs_ok :: "MDSystem \<Rightarrow> IR \<Rightarrow> bool" where
  "refs_ok s ir \<longleftrightarrow> (getExactRef ir \<noteq> 0 \<longrightarrow> registered s (getExactRef ir)) \<and>
     (isWritePR ir \<or> isCallStmt ir \<and> hasReturnValue ir \<longrightarrow> ir_md ir \<noteq> 0)"

lemma computeMustExactDef_ok:
  assumes "mds_inv (rg_mds rg)" "refs_ok (rg_mds rg) ir" "tracked flag ir"
  shows "computeMustExactDef rg flag ir (D, M) = Some (if must_tracked flag ir
     then (D \<union> must_mds (rg_mds rg) ir, insert (ir_id ir) {i \<in> M. \<not> isMayKill rg ir (rg_ir rg i)}) else (D, M))"
proof (cases "must_tracked flag ir")
  case True
  then have c: "\<not> (ir_code ir \<in> {DIRECT_MEM_STMT, INDIRECT_MEM_STMT, WRITE_ARRAY} \<and> \<not> COMPUTE_NONPR_DU flag)"
    "\<not> ((isCallStmt ir \<or> isWritePR ir) \<and> \<not> COMPUTE_PR_DU flag)" using assms(3) by (auto simp: must_tracked_def tracked_def)
  show ?thesis
  proof (cases "getExactRef ir = 0")
    case True
    then show ?thesis using c assms(2) \<open>must_tracked flag ir\<close>
      by (auto simp: computeMustExactDef_def Let_def must_mds_def refs_ok_def)
  next
    case False
    then have r: "registered (rg_mds rg) (getExactRef ir)" using assms(2) by (simp add: refs_ok_def)
    have "computeMustExactDef rg flag ir (D, M) =
        (case computeOverlapExactMD (rg_mds rg) (getExactRef ir) (insert (MD_id (getExactRef ir)) D) of None \<Rightarrow> None
         | Some mustdefmds \<Rightarrow> Some (mustdefmds, insert (ir_id ir) {i \<in> M. \<not> isMayKill rg ir (rg_ir rg i)}))"
      unfolding computeMustExactDef_def prod.case if_not_P [OF c(1)] if_not_P [OF c(2)] Let_def using False by simp
    then show ?thesis using False computeOverlapExactMD_ok [OF assms(1) r] \<open>must_tracked flag ir\<close> by (simp add: must_mds_def Let_def)
  qed
next
  case False
  then show ?thesis using assms(3) by (auto simp: computeMustExactDef_def must_tracked_def tracked_def)
qed

lemma computeMayDef_gen:
  assumes "tracked flag ir"
  shows "snd (computeMayDef rg flag ir (D, M)) =
    (if may_tracked flag ir then insert (ir_id ir) {i \<in> M. \<not> isMustKill ir (rg_ir rg i)} else M)"
  using assms by (auto simp: computeMayDef_def Let_def may_tracked_def tracked_def isWritePR_def)

definition block_ok :: "RegionEnv \<Rightarrow> IR list \<Rightarrow> bool" where
  "block_ok rg irs \<longleftrightarrow> (\<forall>ir\<in>set irs. rg_ir rg (ir_id ir) = ir \<and> refs_ok (rg_mds rg) ir)"

lemma local_sets_ok:
  assumes "mds_inv (rg_mds rg)"
  shows "block_ok rg irs \<Longrightarrow> \<exists>d. computeMustExactDefMayDefMayUseForBB rg flag irs = Some d \<and>
    bb_maygendef d = survivors (may_tracked flag) isMustKill irs \<and>
    bb_mustgendef d = survivors (must_tracked flag) (isMayKill rg) irs \<and>
    bb_mustdefmds d = (\<Union>ir\<in>{ir \<in> set irs. must_tracked flag ir}. must_mds (rg_mds rg) ir)"
proof (induction irs rule: rev_induct)
  case Nil
  then show ?case by (simp add: computeMustExactDefMayDefMayUseForBB_def)
next
  case (snoc ir irs)
  obtain d where d: "computeMustExactDefMayDefMayUseForBB rg flag irs = Some d"
    "bb_maygendef d = survivors (may_tracked flag) isMustKill irs" "bb_mustgendef d = survivors (must_tracked flag) (isMayKill rg) irs"
    "bb_mustdefmds d = (\<Union>ir\<in>{ir \<in> set irs. must_tracked flag ir}. must_mds (rg_mds rg) ir)"
    using snoc by (auto simp: block_ok_def)
  have f: "computeMustExactDefMayDefMayUseForBB rg flag (irs @ [ir]) = bbdef_stmt rg flag ir (Some d)"
    using d(1) by (simp add: computeMustExactDefMayDefMayUseForBB_def)
  have st: "\<forall>ir\<in>set irs. rg_ir rg (ir_id ir) = ir" and ok: "refs_ok (rg_mds rg) ir" using snoc.prems by (auto simp: block_ok_def)
  note sv = survivors_snoc [where stmt = "rg_ir rg", OF st]
  show ?case
  proof (cases "tracked flag ir")
    case True
    obtain maymds maygen where m: "computeMayDef rg flag ir (bb_maydefmds d, bb_maygendef d) = (maymds, maygen)" by fastforce
    have mg: "maygen = survivors (may_tracked flag) isMustKill (irs @ [ir])"
      using computeMayDef_gen [OF True, of rg "bb_maydefmds d" "bb_maygendef d"] m d(2) sv by simp
    obtain mustmds mustgen where u: "computeMustExactDef rg flag ir (bb_mustdefmds d, bb_mustgendef d) = Some (mustmds, mustgen)"
      "mustgen = survivors (must_tracked flag) (isMayKill rg) (irs @ [ir])"
      "mustmds = (\<Union>x\<in>{x \<in> set (irs @ [ir]). must_tracked flag x}. must_mds (rg_mds rg) x)"
      using computeMustExactDef_ok [OF assms ok True, of "bb_mustdefmds d" "bb_mustgendef d"] d(3,4) sv
      by (cases "must_tracked flag ir") auto
    have "bbdef_stmt rg flag ir (Some d) =
        Some \<lparr>bb_mustdefmds = mustmds, bb_maydefmds = maymds, bb_mustgendef = mustgen, bb_maygendef = maygen\<rparr>"
      using True u(1) m by (auto simp: bbdef_stmt_def tracked_def)
    then show ?thesis using f mg u(2,3) by simp
  next
    case False
    have "bbdef_stmt rg flag ir (Some d) = Some d" using False by (auto simp: bbdef_stmt_def tracked_def)
    moreover have "\<not> may_tracked flag ir" "\<not> must_tracked flag ir" using False by (simp_all add: may_tracked_def must_tracked_def)
    ultimately show ?thesis using f d(2-4) sv by auto
  qed
qed

section \<open>Blocks that reach a block\<close>

definition lpass :: "(nat \<Rightarrow> nat list) \<Rightarrow> nat list \<Rightarrow> (nat \<Rightarrow> nat set) \<Rightarrow> nat \<Rightarrow> nat set" where
  "lpass preds bs L = fold (\<lambda>b L. L(b := \<Union>p\<in>set (preds b). insert p (L p))) bs L"

lemma livein_preds:
  "fold (\<lambda>p (tmp, m). let m = gen_ss LiveInBB p m in (insert p (tmp \<union> sol m LiveInBB p), m)) ps (T, m) =
   (T \<union> (\<Union>p\<in>set ps. insert p (sol m LiveInBB p)), fold (gen_ss LiveInBB) ps m)"
  by (induction ps arbitrary: T m) (auto simp: Let_def)

lemma livein_bb_eq:
  fixes cfg b m
  defines "T \<equiv> \<Union>p\<in>set (fc_preds cfg b). insert p (sol m LiveInBB p)"
    and "m' \<equiv> fold (gen_ss LiveInBB) (fc_preds cfg b) (gen_ss LiveInBB b m)"
  shows "livein_bb cfg b (ch, m) = (if sol m LiveInBB b = T then (ch, m') else (True, put_ss LiveInBB b T m'))"
  unfolding livein_bb_def Let_def prod.case livein_preds [unfolded Let_def] T_def m'_def by simp

lemma livein_bb_ok:
  "\<exists>m'. livein_bb cfg b (ch, m) = (ch \<or> sol m LiveInBB b \<noteq> (\<Union>p\<in>set (fc_preds cfg b). insert p (sol m LiveInBB p)), m') \<and>
     sol m' = (sol m)(LiveInBB := (sol m LiveInBB)(b := \<Union>p\<in>set (fc_preds cfg b). insert p (sol m LiveInBB p)))"
  unfolding livein_bb_eq by (cases "sol m LiveInBB b = (\<Union>p\<in>set (fc_preds cfg b). insert p (sol m LiveInBB p))")
    (simp_all add: sol_put_eq fun_upd_idem)

lemma livein_pass_ok:
  "\<exists>c m'. fold (livein_bb cfg) bs (ch, m) = (ch \<or> c, m') \<and>
     sol m' = (sol m)(LiveInBB := lpass (fc_preds cfg) bs (sol m LiveInBB)) \<and> (\<not> c \<longrightarrow> lpass (fc_preds cfg) bs (sol m LiveInBB) = sol m LiveInBB)"
proof (induction bs arbitrary: ch m)
  case (Cons b bs)
  define T where "T = (\<Union>p\<in>set (fc_preds cfg b). insert p (sol m LiveInBB p))"
  obtain m1 where m1: "livein_bb cfg b (ch, m) = (ch \<or> sol m LiveInBB b \<noteq> T, m1)" "sol m1 = (sol m)(LiveInBB := (sol m LiveInBB)(b := T))"
    using livein_bb_ok [of cfg b ch m] unfolding T_def by blast
  obtain c m' where m': "fold (livein_bb cfg) bs (ch \<or> sol m LiveInBB b \<noteq> T, m1) = ((ch \<or> sol m LiveInBB b \<noteq> T) \<or> c, m')"
    "sol m' = (sol m1)(LiveInBB := lpass (fc_preds cfg) bs (sol m1 LiveInBB))"
    "\<not> c \<longrightarrow> lpass (fc_preds cfg) bs (sol m1 LiveInBB) = sol m1 LiveInBB"
    using Cons.IH by blast
  have l: "lpass (fc_preds cfg) (b # bs) (sol m LiveInBB) = lpass (fc_preds cfg) bs (sol m1 LiveInBB)"
    using m1(2) by (simp add: lpass_def T_def)
  show ?case
    unfolding l using m1 m' by (intro exI [of _ "sol m LiveInBB b \<noteq> T \<or> c"] exI [of _ m']) (auto simp: fun_upd_idem)
next
  case Nil
  show ?case by (intro exI [of _ False] exI [of _ m]) (simp add: lpass_def)
qed

lemma livein_loop_calm [simp]: "livein_loop cfg n (False, m) = (False, m)"
  by (cases n) simp_all

lemma livein_loop_ok:
  "\<exists>m'. snd (livein_loop cfg n (True, m)) = m' \<and> sol m' = (sol m)(LiveInBB := (lpass (fc_preds cfg) (fc_rpo cfg) ^^ n) (sol m LiveInBB))"
proof (induction n arbitrary: m)
  case (Suc n)
  let ?p = "lpass (fc_preds cfg) (fc_rpo cfg)"
  obtain c m1 where p: "fold (livein_bb cfg) (fc_rpo cfg) (False, m) = (c, m1)" "sol m1 = (sol m)(LiveInBB := ?p (sol m LiveInBB))"
    "\<not> c \<longrightarrow> ?p (sol m LiveInBB) = sol m LiveInBB" using livein_pass_ok [of cfg "fc_rpo cfg" False m] by auto
  show ?case
  proof (cases c)
    case True
    obtain m' where i: "snd (livein_loop cfg n (True, m1)) = m'" "sol m' = (sol m1)(LiveInBB := (?p ^^ n) (sol m1 LiveInBB))"
      using Suc.IH by blast
    then show ?thesis using p True by (intro exI [of _ m']) (simp add: funpow_swap1)
  next
    case False
    then have "?p (sol m LiveInBB) = sol m LiveInBB" using p(3) by blast
    then have "(?p ^^ k) (sol m LiveInBB) = sol m LiveInBB" for k by (induction k) simp_all
    then show ?thesis using p False by (intro exI [of _ m1]) (simp add: fun_upd_idem del: funpow.simps)
  qed
qed simp

definition ancestors :: "FlowCFG \<Rightarrow> nat \<Rightarrow> nat set" where
  "ancestors cfg b = {a. (a, b) \<in> {(p, b). p \<in> set (fc_preds cfg b)}\<^sup>+}"

lemma RI_ancestors: "RI (fc_preds cfg) (\<lambda>p. {}) (\<lambda>p. {p}) b = ancestors cfg b"
proof (intro set_eqI iffI)
  fix a
  show "a \<in> ancestors cfg b" if "a \<in> RI (fc_preds cfg) (\<lambda>p. {}) (\<lambda>p. {p}) b"
  proof -
    have "reach_def (fc_preds cfg) (\<lambda>p. {}) (\<lambda>p. {p}) a b" using that by (simp add: RI_def)
    then show ?thesis by (induction rule: reach_def.induct) (auto simp: ancestors_def intro: trancl_into_trancl)
  qed
  show "a \<in> RI (fc_preds cfg) (\<lambda>p. {}) (\<lambda>p. {p}) b" if "a \<in> ancestors cfg b"
  proof -
    have "(a, b) \<in> {(p, b). p \<in> set (fc_preds cfg b)}\<^sup>+" using that by (simp add: ancestors_def)
    then have "reach_def (fc_preds cfg) (\<lambda>p. {}) (\<lambda>p. {p}) a b"
      by (induction rule: trancl_induct) (auto intro: reach_def.intros)
    then show ?thesis by (simp add: RI_def)
  qed
qed

lemma lpass_gpass:
  "(\<forall>b. preds b = [] \<longrightarrow> L b = {}) \<Longrightarrow> fst (gpass Union preds (\<lambda>p. {}) (\<lambda>p. {p}) bs (L, \<lambda>p. insert p (L p))) =
     (lpass preds bs L, \<lambda>p. insert p (lpass preds bs L p)) \<and> (\<forall>b. preds b = [] \<longrightarrow> lpass preds bs L b = {})"
proof (induction bs arbitrary: L)
  case (Cons b bs)
  define L1 where "L1 = L(b := \<Union>p\<in>set (preds b). insert p (L p))"
  have z: "\<forall>b. preds b = [] \<longrightarrow> L1 b = {}" using Cons.prems by (auto simp: L1_def)
  have "(if preds b = [] then L b else \<Union> ((\<lambda>p. insert p (L p)) ` set (preds b))) = L1 b" using Cons.prems by (simp add: L1_def)
  moreover have "(\<lambda>p. insert p (L p))(b := insert b (L1 b)) = (\<lambda>p. insert p (L1 p))" "L(b := L1 b) = L1"
    by (rule ext; simp add: L1_def)+
  ultimately have "fst (gstep Union preds (\<lambda>p. {}) (\<lambda>p. {p}) b ((L, \<lambda>p. insert p (L p)), False)) = (L1, \<lambda>p. insert p (L1 p))"
    by (simp add: gstep_pair Let_def)
  moreover have "lpass preds (b # bs) L = lpass preds bs L1" by (simp add: lpass_def L1_def)
  ultimately show ?case using Cons.IH [OF z] by (simp add: gpass_Cons)
qed (simp add: lpass_def)

lemma lpass_exact:
  assumes cl: "flow_closed cfg" "distinct (fc_rpo cfg)" "retreat_bound (fc_rpo cfg) (fc_preds cfg) 19" and b: "b \<in> set (fc_bbs cfg)"
  shows "(lpass (fc_preds cfg) (fc_rpo cfg) ^^ 20) (\<lambda>b. {}) b = ancestors cfg b"
proof -
  let ?p = "lpass (fc_preds cfg) (fc_rpo cfg)"
  let ?g = "\<lambda>v. fst (gpass Union (fc_preds cfg) (\<lambda>p. {}) (\<lambda>p. {p}) (fc_rpo cfg) v)"
  have "(?g ^^ k) (\<lambda>b. {}, \<lambda>p. {p}) = ((?p ^^ k) (\<lambda>b. {}), \<lambda>p. insert p ((?p ^^ k) (\<lambda>b. {}) p)) \<and>
      (\<forall>b. fc_preds cfg b = [] \<longrightarrow> (?p ^^ k) (\<lambda>b. {}) b = {})" for k
    by (induction k) (simp_all add: lpass_gpass)
  then have e: "(?p ^^ k) (\<lambda>b. {}) = fst ((?g ^^ k) (\<lambda>b. {}, \<lambda>p. {p}))" for k by simp
  have N: "\<forall>b\<in>set (fc_rpo cfg). set (fc_preds cfg b) \<subseteq> set (fc_rpo cfg)" "b \<in> set (fc_rpo cfg)"
    using cl(1) b by (auto simp: flow_closed_def)
  have s: "sound (fc_preds cfg) (\<lambda>p. {}) (\<lambda>p. {p}) (set (fc_rpo cfg)) (\<lambda>b. {}, \<lambda>p. {p})" by (simp add: sound_def below_def RO_def)
  show ?thesis unfolding e using passes_exact_in [OF N(1) cl(2,3) _ s N(2), of 20] by (simp add: RI_ancestors)
qed

end
