(* ===== verification/SolvePerform.thy ===== *)
theory SolvePerform
  imports SolveKill
begin

text \<open>
  The kill sets of a region and the whole of \<open>perform\<close>: which sets it keeps, and that the iteration no longer sees the kill
  sets, which it computes and drops before.
\<close>

section \<open>Kill sets\<close>

lemma sol_set_ss: "sol (set_ss n b S m) = (sol m)(n := (sol m n)(b := (case S of None \<Rightarrow> {} | Some s \<Rightarrow> s)))"
  by (intro ext) (simp add: sol_def set_ss_def)

definition kills :: "RegionEnv \<Rightarrow> SolveSetMgr \<Rightarrow> nat set \<Rightarrow> nat \<Rightarrow> bool \<Rightarrow> bool \<Rightarrow> nat set \<Rightarrow> nat set \<Rightarrow> nat set" where
  "kills rg m A b comp_must comp_may mustmds maymds =
     (\<Union>a\<in>A - {b}. {i \<in> sol m MayGenDef a. killed_by rg comp_must comp_may mustmds maymds i})"

lemma kill_fold:
  "\<exists>m'. fold (\<lambda>i (output, m). if i = b then (output, m) else computeKillSetByMayGenDef rg i cm cy mu ma m output) xs (Z, m) =
     (Z \<union> kills rg m (set xs) b cm cy mu ma, m') \<and> sol m' = sol m"
proof (induction xs arbitrary: Z m)
  case (Cons x xs)
  show ?case
  proof (cases "x = b")
    case True
    then show ?thesis using Cons.IH [of Z m] by (auto simp: kills_def)
  next
    case False
    obtain m' where "fold (\<lambda>i (output, m). if i = b then (output, m) else computeKillSetByMayGenDef rg i cm cy mu ma m output) xs
        (Z \<union> {i \<in> sol m MayGenDef x. killed_by rg cm cy mu ma i}, gen_ss MayGenDef x m) =
        ((Z \<union> {i \<in> sol m MayGenDef x. killed_by rg cm cy mu ma i}) \<union> kills rg m (set xs) b cm cy mu ma, m')" "sol m' = sol m"
      using Cons.IH [of "Z \<union> {i \<in> sol m MayGenDef x. killed_by rg cm cy mu ma i}" "gen_ss MayGenDef x m"] by (auto simp: kills_def)
    moreover have "(Z \<union> {i \<in> sol m MayGenDef x. killed_by rg cm cy mu ma i}) \<union> kills rg m (set xs) b cm cy mu ma =
        Z \<union> kills rg m (set (x # xs)) b cm cy mu ma" using False by (auto simp: kills_def)
    ultimately show ?thesis using False by (simp add: computeKillSetByMayGenDef_def Let_def)
  qed
qed (simp add: kills_def)

lemma kill_bb_ok:
  assumes "finite (sol m LiveInBB b)"
  shows "sol (kill_bb rg mustv mayv b m) = (sol m)(
    MustKilledDef := (sol m MustKilledDef)(b := if mustv b = {} then {} else kills rg m (sol m LiveInBB b) b True (mayv b \<noteq> {}) (mustv b) (mayv b)),
    MayKilledDef := (sol m MayKilledDef)(b := {}))"
proof -
  obtain m' where m': "computeKillSetByLiveInBB rg b (mustv b \<noteq> {}) (mayv b \<noteq> {}) (mustv b) (mayv b) m {} =
     (kills rg m (sol m LiveInBB b) b (mustv b \<noteq> {}) (mayv b \<noteq> {}) (mustv b) (mayv b), m')" "sol m' = sol m"
    using kill_fold [of b rg "mustv b \<noteq> {}" "mayv b \<noteq> {}" "mustv b" "mayv b" "sorted_list_of_set (sol m LiveInBB b)" "{}" "gen_ss LiveInBB b m"]
      assms by (auto simp: computeKillSetByLiveInBB_def Let_def kills_def)
  show ?thesis
  proof (cases "mustv b = {} \<and> mayv b = {}")
    case True
    then show ?thesis by (auto simp: kill_bb_def sol_set_ss fun_eq_iff)
  next
    case False
    then have "kill_bb rg mustv mayv b m = set_ss MayKilledDef b (if mayv b \<noteq> {} then Some {} else None)
        (set_ss MustKilledDef b (if mustv b \<noteq> {} then Some (kills rg m (sol m LiveInBB b) b (mustv b \<noteq> {}) (mayv b \<noteq> {}) (mustv b) (mayv b)) else None) m')"
      using m'(1) unfolding kill_bb_def Let_def by auto
    then show ?thesis using m'(2) by (cases "mustv b = {}"; cases "mayv b = {}") (simp_all add: sol_set_ss)
  qed
qed

lemma kill_fold_ok:
  assumes "\<forall>b. finite (sol m LiveInBB b)"
  shows "(\<forall>n. n \<notin> {MustKilledDef, MayKilledDef} \<longrightarrow> sol (fold (kill_bb rg mustv mayv) bs m) n = sol m n) \<and>
    (\<forall>b\<in>set bs. sol (fold (kill_bb rg mustv mayv) bs m) MayKilledDef b = {} \<and> sol (fold (kill_bb rg mustv mayv) bs m) MustKilledDef b =
      (if mustv b = {} then {} else kills rg m (sol m LiveInBB b) b True (mayv b \<noteq> {}) (mustv b) (mayv b)))"
proof (induction bs rule: rev_induct)
  case (snoc b bs)
  let ?m = "fold (kill_bb rg mustv mayv) bs m"
  have same: "sol ?m LiveInBB = sol m LiveInBB" "sol ?m MayGenDef = sol m MayGenDef" using snoc by simp_all
  have k: "kills rg ?m = kills rg m" by (intro ext) (simp add: kills_def same)
  have f: "finite (sol ?m LiveInBB b)" using assms same by simp
  show ?case using snoc kill_bb_ok [OF f, of rg mustv mayv] by (simp add: same k)
qed simp

lemma reset_sol: "sol (reset_if_local n m) = (if m_is_keep m n then sol m else (sol m)(n := \<lambda>b. {}))"
  by (intro ext) (simp add: reset_if_local_def sol_def)

lemma computeLiveInBB_ok:
  "sol (snd (computeLiveInBB cfg m)) = (sol m)(LiveInBB := (lpass (fc_preds cfg) (fc_rpo cfg) ^^ 20) (sol m LiveInBB))"
  using livein_loop_ok [of cfg 20 m] by (simp add: computeLiveInBB_def)

lemma lpass_finite: "\<forall>b. finite (L b) \<Longrightarrow> finite (lpass preds bs L b)"
  by (induction bs arbitrary: L) (simp_all add: lpass_def)

lemma lpasses_finite: "finite ((lpass preds bs ^^ k) (\<lambda>b. {}) b)"
  by (induction k arbitrary: b) (simp_all add: lpass_finite)

lemma kills_from:
  fixes m rg cfg mustv mayv
  defines "m' \<equiv> computeKillSet rg cfg mustv mayv m" and "L \<equiv> (lpass (fc_preds cfg) (fc_rpo cfg) ^^ 20) (\<lambda>b. {})"
  assumes z: "sol m LiveInBB = (\<lambda>b. {})"
  shows "n \<notin> {MustKilledDef, MayKilledDef, LiveInBB} \<Longrightarrow> sol m' n = sol m n"
    and "b \<in> set (fc_bbs cfg) \<Longrightarrow> sol m' MayKilledDef b = {} \<and> sol m' MustKilledDef b =
      (if mustv b = {} then {} else kills rg m (L b) b True (mayv b \<noteq> {}) (mustv b) (mayv b))"
proof -
  let ?m = "snd (computeLiveInBB cfg m)"
  have l: "sol ?m = (sol m)(LiveInBB := L)" using z computeLiveInBB_ok [of cfg m] by (simp add: L_def)
  have "\<forall>b. finite (sol ?m LiveInBB b)" using l by (simp add: L_def lpasses_finite)
  note k = kill_fold_ok [OF this, of rg mustv mayv "fc_bbs cfg"]
  have "kills rg ?m = kills rg m" by (intro ext) (simp add: kills_def l)
  then show "n \<notin> {MustKilledDef, MayKilledDef, LiveInBB} \<Longrightarrow> sol m' n = sol m n"
    and "b \<in> set (fc_bbs cfg) \<Longrightarrow> sol m' MayKilledDef b = {} \<and> sol m' MustKilledDef b =
      (if mustv b = {} then {} else kills rg m (L b) b True (mayv b \<noteq> {}) (mustv b) (mayv b))"
    using k l by (simp_all add: m'_def computeKillSet_def reset_sol)
qed

section \<open>What is kept\<close>

lemma keep_simps [simp]: "m_is_keep (put_ss n b S m) = m_is_keep m" "m_is_keep (set_ss n b T m) = m_is_keep m"
  "m_is_keep (gen_ss n b m) = m_is_keep m" "m_is_keep (reset_if_local n m) = m_is_keep m" "m_is_keep (diff_killed_expr b m) = m_is_keep m"
  by (simp_all add: put_ss_def set_ss_def gen_ss_def reset_if_local_def diff_killed_expr_def split: option.split)

lemma keep_fold: "(\<And>x m. m_is_keep (f x m) = m_is_keep m) \<Longrightarrow> m_is_keep (fold f xs m) = m_is_keep m"
  by (induction xs arbitrary: m) simp_all

lemma keep_fold_snd: "(\<And>x st. m_is_keep (snd (f x st)) = m_is_keep (snd st)) \<Longrightarrow> m_is_keep (snd (fold f xs st)) = m_is_keep (snd st)"
  by (induction xs arbitrary: st) simp_all

lemma keep_fold_opt:
  assumes "\<And>x. f x None = None" "\<And>x st st'. f x (Some st) = Some st' \<Longrightarrow> m_is_keep (snd st') = m_is_keep (snd st)"
  shows "fold f xs (Some st) = Some st' \<Longrightarrow> m_is_keep (snd st') = m_is_keep (snd st)"
proof (induction xs arbitrary: st)
  case (Cons x xs)
  have "fold f xs None = None" using assms(1) by (induction xs) simp_all
  then obtain st1 where "f x (Some st) = Some st1" using Cons.prems by (cases "f x (Some st)") auto
  then show ?case using Cons assms(2) by simp
qed simp

lemma keep_equations:
  "m_is_keep (snd (ForAvailReachDef cfg b m)) = m_is_keep m"
  "ForReachDef cfg b m = Some (c, m') \<Longrightarrow> m_is_keep m' = m_is_keep m"
  "m_is_keep (snd (ForAvailExpression cfg b m)) = m_is_keep m"
  by (auto simp: ForAvailReachDef_def ForReachDef_def ForAvailExpression_def Let_def keep_fold split: option.splits list.splits if_splits)

lemma keep_block: "solve_block cfg flag b (Some st) = Some st' \<Longrightarrow> m_is_keep (snd st') = m_is_keep (snd st)"
proof -
  assume a: "solve_block cfg flag b (Some st) = Some st'"
  obtain ch m where st: "st = (ch, m)" by (cases st)
  obtain c1 m1 where m1: "(if SOL_AVAIL_REACH_DEF flag then ForAvailReachDef cfg b m else (False, m)) = (c1, m1)" by fastforce
  then have k1: "m_is_keep m1 = m_is_keep m" using keep_equations(1) [of cfg b m] by (auto split: if_splits)
  obtain c2 m2 where m2: "(if SOL_REACH_DEF flag then ForReachDef cfg b m1 else Some (False, m1)) = Some (c2, m2)"
    using a st m1 by (auto simp: solve_block_def Let_def split: option.splits)
  then have k2: "m_is_keep m2 = m_is_keep m1" using keep_equations(2) [of cfg b m1 c2 m2] by (auto split: if_splits)
  obtain c3 m3 where m3: "(if SOL_AVAIL_EXPR flag then ForAvailExpression cfg b m2 else (False, m2)) = (c3, m3)" by fastforce
  then have k3: "m_is_keep m3 = m_is_keep m2" using keep_equations(3) [of cfg b m2] by (auto split: if_splits)
  have "st' = (ch \<or> c1 \<or> c2 \<or> c3, m3)" using a st m1 m2 m3 by (simp add: solve_block_def Let_def)
  then show ?thesis using k1 k2 k3 st by simp
qed

lemma keep_pass: "rpo_pass cfg flag m = Some st' \<Longrightarrow> m_is_keep (snd st') = m_is_keep m"
proof -
  assume "rpo_pass cfg flag m = Some st'"
  then have p: "fold (solve_block cfg flag) (fc_rpo cfg) (Some (False, m)) = Some st'" by (simp add: rpo_pass_def)
  have "solve_block cfg flag x None = None" for x by (simp add: solve_block_def)
  from keep_fold_opt [OF this keep_block p] show ?thesis by simp
qed

lemma keep_loop: "rpo_loop cfg flag n m = Some st' \<Longrightarrow> m_is_keep (snd st') = m_is_keep m"
proof (induction n arbitrary: m)
  case 0
  then have "rpo_pass cfg flag m = Some st'" by (auto simp: rpo_loop.simps split: option.splits)
  then show ?case by (rule keep_pass)
next
  case (Suc n)
  obtain c m1 where p: "rpo_pass cfg flag m = Some (c, m1)" using Suc.prems by (auto simp: rpo_loop.simps [of _ _ "Suc n"] split: option.splits)
  have k: "m_is_keep m1 = m_is_keep m" using keep_pass [OF p] by simp
  show ?case using Suc.prems p k Suc.IH [of m1] by (cases c) (auto simp: rpo_loop.simps [of _ _ "Suc n"])
qed

lemma keep_init: "m_is_keep (init_bb cfg U flag b m) = m_is_keep m"
  by (simp add: init_bb_def Let_def)

lemma keep_solve: "solve_sets cfg U flag m = Some (c, m') \<Longrightarrow> m_is_keep m' = m_is_keep m"
  using keep_loop [of cfg flag 19 "fold (init_bb cfg U flag) (rev (fc_bbs cfg)) m" "(c, m')"]
  by (simp add: solve_sets_def solveByRPO_def keep_fold keep_init)

lemma keep_livein: "m_is_keep (snd (livein_bb cfg b st)) = m_is_keep (snd st)"
  by (cases st) (simp add: livein_bb_eq keep_fold)

lemma keep_livein_loop: "m_is_keep (snd (livein_loop cfg n st)) = m_is_keep (snd st)"
proof (induction n arbitrary: st)
  case (Suc n)
  then show ?case by (cases st) (simp add: keep_fold_snd keep_livein)
qed simp

lemma keep_kill_bb: "m_is_keep (kill_bb rg mustv mayv b m) = m_is_keep m"
proof -
  have "m_is_keep (snd (computeKillSetByLiveInBB rg b cm cy mu ma m Z)) = m_is_keep m" for cm cy mu ma Z
    unfolding computeKillSetByLiveInBB_def Let_def
    by (subst keep_fold_snd) (auto simp: computeKillSetByMayGenDef_def Let_def split: prod.split)
  then show ?thesis by (auto simp: kill_bb_def Let_def split: prod.split) (metis snd_conv)+
qed

lemma keep_kill: "m_is_keep (computeKillSet rg cfg mustv mayv m) = m_is_keep m"
  by (simp add: computeKillSet_def computeLiveInBB_def keep_fold keep_kill_bb keep_livein_loop)

section \<open>The whole of perform\<close>

lemma expr_fold: "m_is_keep (snd (fold (computeGenExprForBB rg cfg) bs st)) = m_is_keep (snd st) \<and>
    (n \<noteq> GenIRExpr \<longrightarrow> sol (snd (fold (computeGenExprForBB rg cfg) bs st)) n = sol (snd st) n)"
proof (induction bs arbitrary: st)
  case (Cons b bs)
  have "m_is_keep (snd (computeGenExprForBB rg cfg b st)) = m_is_keep (snd st) \<and>
      (n \<noteq> GenIRExpr \<longrightarrow> sol (snd (computeGenExprForBB rg cfg b st)) n = sol (snd st) n)"
    by (cases st) (auto simp: computeGenExprForBB_def fun_eq_iff split: prod.split)
  then show ?case using Cons by simp
qed simp

lemma set_fold: "m_is_keep (fold (\<lambda>b m. set_ss n' b (f b) m) bs m) = m_is_keep m \<and>
    (n \<noteq> n' \<longrightarrow> sol (fold (\<lambda>b m. set_ss n' b (f b) m) bs m) n = sol m n)"
  by (induction bs arbitrary: m) (simp_all add: sol_set_ss)

lemma aux_sets_ok: "m_is_keep (snd (computeAuxSetForExpression rg cfg mustv mayv m)) = m_is_keep m"
  "n \<noteq> GenIRExpr \<Longrightarrow> n \<noteq> KilledIRExpr \<Longrightarrow> sol (snd (computeAuxSetForExpression rg cfg mustv mayv m)) n = sol m n"
proof -
  obtain u m1 where e: "fold (computeGenExprForBB rg cfg) (fc_bbs cfg) ({}, m) = (u, m1)" by fastforce
  note f = expr_fold [of rg cfg "fc_bbs cfg" "({}, m)" n, unfolded e snd_conv]
  show "m_is_keep (snd (computeAuxSetForExpression rg cfg mustv mayv m)) = m_is_keep m"
    using f by (simp add: computeAuxSetForExpression_def e set_fold)
  show "n \<noteq> GenIRExpr \<Longrightarrow> n \<noteq> KilledIRExpr \<Longrightarrow> sol (snd (computeAuxSetForExpression rg cfg mustv mayv m)) n = sol m n"
    using f by (simp add: computeAuxSetForExpression_def e set_fold)
qed

lemma resets:
  assumes "m_is_keep m = (\<lambda>n. n = ReachDefIn)"
  shows "sol (resetAllKillSet m) n = (if n \<in> {MustKilledDef, MayKilledDef, KilledIRExpr} then (\<lambda>b. {}) else sol m n)"
    and "m_is_keep (resetAllKillSet m) = m_is_keep m"
    and "sol (resetLocalSet m) n = (if n = ReachDefIn then sol m n else (\<lambda>b. {}))"
proof -
  show "sol (resetAllKillSet m) n = (if n \<in> {MustKilledDef, MayKilledDef, KilledIRExpr} then (\<lambda>b. {}) else sol m n)"
    by (auto simp: resetAllKillSet_def reset_sol assms)
  show "m_is_keep (resetAllKillSet m) = m_is_keep m" by (simp add: resetAllKillSet_def)
  show "sol (resetLocalSet m) n = (if n = ReachDefIn then sol m n else (\<lambda>b. {}))"
    by (cases n) (simp_all add: resetLocalSet_def resetAllKillSet_def reset_sol assms)
qed

lemma def_fold_ok:
  assumes "wants_vecs flag" "mds_inv (rg_mds rg)"
  shows "\<forall>b\<in>set bs. block_ok rg (fc_irs cfg b) \<Longrightarrow> \<exists>v'. fold (def_bb rg cfg flag) bs (Some v) = Some v' \<and>
    m_is_keep (dv_mgr v') = m_is_keep (dv_mgr v) \<and> (\<forall>n. n \<notin> {MayGenDef, MustGenDef} \<longrightarrow> sol (dv_mgr v') n = sol (dv_mgr v) n) \<and>
    (\<forall>b\<in>set bs. sol (dv_mgr v') MayGenDef b = survivors (may_tracked flag) isMustKill (fc_irs cfg b) \<and>
      sol (dv_mgr v') MustGenDef b = survivors (must_tracked flag) (isMayKill rg) (fc_irs cfg b) \<and>
      dv_must v' b = (\<Union>ir\<in>{ir \<in> set (fc_irs cfg b). must_tracked flag ir}. must_mds (rg_mds rg) ir))"
proof (induction bs rule: rev_induct)
  case (snoc b bs)
  have p: "\<forall>b\<in>set bs. block_ok rg (fc_irs cfg b)" using snoc.prems by simp
  obtain v1 where v1: "fold (def_bb rg cfg flag) bs (Some v) = Some v1"
    "m_is_keep (dv_mgr v1) = m_is_keep (dv_mgr v)" "\<forall>n. n \<notin> {MayGenDef, MustGenDef} \<longrightarrow> sol (dv_mgr v1) n = sol (dv_mgr v) n"
    "\<forall>b\<in>set bs. sol (dv_mgr v1) MayGenDef b = survivors (may_tracked flag) isMustKill (fc_irs cfg b) \<and>
      sol (dv_mgr v1) MustGenDef b = survivors (must_tracked flag) (isMayKill rg) (fc_irs cfg b) \<and>
      dv_must v1 b = (\<Union>ir\<in>{ir \<in> set (fc_irs cfg b). must_tracked flag ir}. must_mds (rg_mds rg) ir)"
    using snoc.IH [OF p] by (elim exE conjE) (rule that; assumption)
  have ok: "block_ok rg (fc_irs cfg b)" using snoc.prems by simp
  obtain d where d: "computeMustExactDefMayDefMayUseForBB rg flag (fc_irs cfg b) = Some d"
    "bb_maygendef d = survivors (may_tracked flag) isMustKill (fc_irs cfg b)"
    "bb_mustgendef d = survivors (must_tracked flag) (isMayKill rg) (fc_irs cfg b)"
    "bb_mustdefmds d = (\<Union>ir\<in>{ir \<in> set (fc_irs cfg b). must_tracked flag ir}. must_mds (rg_mds rg) ir)"
    using local_sets_ok [OF assms(2) ok, of flag] by (elim exE conjE) (rule that; assumption)
  define w where "w = (if SOL_REGION_REF flag
      then v1\<lparr>dv_mayuse := fold (\<lambda>ir S. S \<union> ir_mayuse ir (COMPUTE_PR_DU flag)) (fc_irs cfg b) (dv_mayuse v1)\<rparr> else v1)"
  have w: "dv_mgr w = dv_mgr v1" "dv_must w = dv_must v1" unfolding w_def by (cases "SOL_REGION_REF flag"; simp)+
  define v2 where "v2 = w\<lparr>dv_must := (dv_must w)(b := bb_mustdefmds d), dv_may := (dv_may w)(b := bb_maydefmds d),
      dv_mgr := put_ss MayGenDef b (bb_maygendef d) (put_ss MustGenDef b (bb_mustgendef d) (dv_mgr w))\<rparr>"
  have "def_bb rg cfg flag b (Some v1) = Some v2"
    unfolding def_bb_def option.case Let_def w_def [symmetric] v2_def d(1) using assms(1) by simp
  then have f: "fold (def_bb rg cfg flag) (bs @ [b]) (Some v) = Some v2" using v1(1) by simp
  have g: "dv_mgr v2 = put_ss MayGenDef b (bb_maygendef d) (put_ss MustGenDef b (bb_mustgendef d) (dv_mgr v1))"
    "dv_must v2 = (dv_must v1)(b := bb_mustdefmds d)" using w by (simp_all add: v2_def)
  have k: "m_is_keep (dv_mgr v2) = m_is_keep (dv_mgr v)" using v1(2) by (simp add: g)
  have n: "\<forall>n. n \<notin> {MayGenDef, MustGenDef} \<longrightarrow> sol (dv_mgr v2) n = sol (dv_mgr v) n" using v1(3) by (simp add: g sol_put_eq del: sol_put)
  have e: "sol (dv_mgr v2) MayGenDef c = survivors (may_tracked flag) isMustKill (fc_irs cfg c) \<and>
      sol (dv_mgr v2) MustGenDef c = survivors (must_tracked flag) (isMayKill rg) (fc_irs cfg c) \<and>
      dv_must v2 c = (\<Union>ir\<in>{ir \<in> set (fc_irs cfg c). must_tracked flag ir}. must_mds (rg_mds rg) ir)" if "c \<in> set (bs @ [b])" for c
  proof (cases "c = b")
    case True
    then show ?thesis using d(2-4) by (simp add: g)
  next
    case False
    then show ?thesis using bspec [OF v1(4), of c] that by (simp add: g)
  qed
  show ?case by (rule exI [of _ v2], rule conjI [OF f conjI [OF k conjI [OF n ballI [OF e]]]])
qed simp

lemma def_sets:
  assumes "wants_vecs flag" "mds_inv (rg_mds rg)" "\<forall>b\<in>set (fc_bbs cfg). block_ok rg (fc_irs cfg b)"
  shows "\<exists>v. computeMustExactDefMayDefMayUse rg cfg flag m = Some v \<and>
    m_is_keep (dv_mgr v) = m_is_keep m \<and> (\<forall>n. n \<notin> {MayGenDef, MustGenDef} \<longrightarrow> sol (dv_mgr v) n = sol m n) \<and>
    (\<forall>b\<in>set (fc_bbs cfg). sol (dv_mgr v) MayGenDef b = survivors (may_tracked flag) isMustKill (fc_irs cfg b) \<and>
      sol (dv_mgr v) MustGenDef b = survivors (must_tracked flag) (isMayKill rg) (fc_irs cfg b) \<and>
      dv_must v b = (\<Union>ir\<in>{ir \<in> set (fc_irs cfg b). must_tracked flag ir}. must_mds (rg_mds rg) ir))"
  using def_fold_ok [OF assms(1,2,3), of "\<lparr>dv_must = (\<lambda>b. {}), dv_may = (\<lambda>b. {}), dv_mayuse = {}, dv_mgr = m\<rparr>"]
  unfolding computeMustExactDefMayDefMayUse_def DefVecs.simps .

lemma reach_def_cong:
  assumes "\<And>p. p \<in> N \<Longrightarrow> G p = G' p" "\<forall>b\<in>N. set (preds b) \<subseteq> N" "b \<in> N"
  shows "reach_def preds K G d b \<longleftrightarrow> reach_def preds K G' d b"
proof -
  have "b \<in> N \<longrightarrow> reach_def preds K G' d b" if "reach_def preds K G d b" "\<And>p. p \<in> N \<Longrightarrow> G p = G' p" for G G' b
    using that(1) by (induction rule: reach_def.induct) (use that(2) assms(2) in \<open>blast intro: reach_def.intros\<close>)+
  from this [of G b G'] this [of G' b G] show ?thesis using assms by metis
qed

lemma perform_solve_ok:
  assumes cl: "flow_closed cfg" "distinct (fc_rpo cfg)" and f: "SOL_REACH_DEF flag"
    and rg: "mds_inv (rg_mds rg)" "\<forall>b\<in>set (fc_bbs cfg). block_ok rg (fc_irs cfg b)"
    and keep: "m_is_keep m = (\<lambda>n. n = ReachDefIn)" "sol m LiveInBB = (\<lambda>b. {})"
  defines "R \<equiv> RI (fc_preds cfg) (\<lambda>b. {}) (\<lambda>b. survivors (may_tracked flag) isMustKill (fc_irs cfg b))"
  shows "\<exists>ch region m'. perform_solve rg cfg flag m = Some (ch, region, m') \<and> (\<forall>b\<in>set (fc_bbs cfg). sol m' ReachDefIn b \<subseteq> R b) \<and>
    (\<not> ch \<longrightarrow> (\<forall>b\<in>set (fc_bbs cfg). sol m' ReachDefIn b = R b)) \<and> (\<forall>n. n \<noteq> ReachDefIn \<longrightarrow> sol m' n = (\<lambda>b. {})) \<and>
    (\<not> SOL_AVAIL_REACH_DEF flag \<and> \<not> SOL_AVAIL_EXPR flag \<and> retreat_bound (fc_rpo cfg) (fc_preds cfg) 18 \<longrightarrow> \<not> ch)"
proof -
  have w: "wants_vecs flag" using f by (simp add: wants_vecs_def)
  obtain v where v: "computeMustExactDefMayDefMayUse rg cfg flag m = Some v" "m_is_keep (dv_mgr v) = m_is_keep m"
    "\<forall>n. n \<notin> {MayGenDef, MustGenDef} \<longrightarrow> sol (dv_mgr v) n = sol m n"
    "\<forall>b\<in>set (fc_bbs cfg). sol (dv_mgr v) MayGenDef b = survivors (may_tracked flag) isMustKill (fc_irs cfg b) \<and>
      sol (dv_mgr v) MustGenDef b = survivors (must_tracked flag) (isMayKill rg) (fc_irs cfg b) \<and>
      dv_must v b = (\<Union>ir\<in>{ir \<in> set (fc_irs cfg b). must_tracked flag ir}. must_mds (rg_mds rg) ir)"
    using def_sets [OF w rg, of m] by (elim exE conjE) (rule that; assumption)
  define m1 where "m1 = computeKillSet rg cfg (dv_must v) (dv_may v) (dv_mgr v)"
  define x where "x = (if SOL_AVAIL_EXPR flag then computeAuxSetForExpression rg cfg (dv_must v) (dv_may v) m1 else ({}, m1))"
  define m3 where "m3 = resetAllKillSet (snd x)"
  have kx: "m_is_keep (snd x) = (\<lambda>n. n = ReachDefIn)" using v(2) keep by (simp add: x_def aux_sets_ok m1_def keep_kill)
  have m3: "sol m3 MustKilledDef = (\<lambda>b. {})" "sol m3 MayGenDef = sol m1 MayGenDef" "m_is_keep m3 = (\<lambda>n. n = ReachDefIn)"
    using kx by (simp_all add: m3_def resets [OF kx]) (simp add: x_def aux_sets_ok)
  obtain ch m4 where s: "solve_sets cfg (fst x) flag m3 = Some (ch, m4)"
    "\<forall>b\<in>set (fc_bbs cfg). sol m4 ReachDefIn b \<subseteq> rd_in cfg m3 b \<and> sol m4 ReachDefOut b \<subseteq> rd_out cfg m3 b"
    "\<not> ch \<longrightarrow> (\<forall>b\<in>set (fc_bbs cfg). sol m4 ReachDefIn b = rd_in cfg m3 b \<and> sol m4 ReachDefOut b = rd_out cfg m3 b)"
    "\<not> SOL_AVAIL_REACH_DEF flag \<and> \<not> SOL_AVAIL_EXPR flag \<and> retreat_bound (fc_rpo cfg) (fc_preds cfg) 18 \<longrightarrow> \<not> ch"
    using rd_solved [OF cl f, of "fst x" m3] by (elim exE conjE) (rule that; assumption)
  note k4 = keep_solve [OF s(1)]
  have "sol (dv_mgr v) LiveInBB = (\<lambda>b. {})" using v(3) keep(2) by simp
  then have g: "sol m3 MayGenDef = sol (dv_mgr v) MayGenDef"
    using kills_from(1) [of "dv_mgr v" MayGenDef rg cfg "dv_must v" "dv_may v"] m3(2) by (simp add: m1_def)
  have R: "rd_in cfg m3 b = R b" if "b \<in> set (fc_bbs cfg)" for b
  proof -
    have "\<forall>b\<in>set (fc_bbs cfg). set (fc_preds cfg b) \<subseteq> set (fc_bbs cfg)" using cl(1) by (simp add: flow_closed_def)
    from reach_def_cong [OF _ this that, of "sol m3 MayGenDef" "\<lambda>b. survivors (may_tracked flag) isMustKill (fc_irs cfg b)"]
    show ?thesis using v(4) unfolding R_def RI_def m3(1) g by simp
  qed
  define region where "region = (if SOL_REGION_REF flag then Some (computeRegionMDDU rg cfg (dv_must v) (dv_may v) (dv_mayuse v)) else None)"
  have p: "perform_solve rg cfg flag m = Some (ch, region, resetLocalSet m4)"
    using s(1) [unfolded m3_def x_def m1_def] f by (simp add: perform_solve_def v(1) region_def Let_def split_def)
  have z: "sol (resetLocalSet m4) n = (if n = ReachDefIn then sol m4 n else (\<lambda>b. {}))" for n
    by (rule resets(3)) (use k4 m3(3) in simp)
  have a: "\<forall>b\<in>set (fc_bbs cfg). sol (resetLocalSet m4) ReachDefIn b \<subseteq> R b" using s(2) R by (simp add: z)
  have b: "\<not> ch \<longrightarrow> (\<forall>b\<in>set (fc_bbs cfg). sol (resetLocalSet m4) ReachDefIn b = R b)" using s(3) R by (simp add: z)
  have c: "\<forall>n. n \<noteq> ReachDefIn \<longrightarrow> sol (resetLocalSet m4) n = (\<lambda>b. {})" by (simp add: z)
  show ?thesis by (rule exI [of _ ch], rule exI [of _ region], rule exI [of _ "resetLocalSet m4"],
      rule conjI [OF p conjI [OF a conjI [OF b conjI [OF c s(4)]]]])
qed

end
