(* ===== verification/SolveWhole.thy ===== *)
theory SolveWhole
  imports SolvePerform
begin

text \<open>
  The properties of the local sets, of the kill sets and of \<open>perform\<close>, with the region that the comment of
  \<open>computeMustExactDefMayDefMayUse\<close> gives as its example.
\<close>

section \<open>The example\<close>

definition pr_md :: MD where
  "pr_md = (piece 0 4)\<lparr>MD_id := 1\<rparr>"

definition pr_sys :: MDSystem where
  "pr_sys = snd (the (registerMD (piece 0 4) (mdsystem_empty False)))"

lemma pr_sys_ok: "mds_inv pr_sys" "registered pr_sys pr_md"
proof -
  have e: "mds_inv (mdsystem_empty False)" "m_id2md_map (mdsystem_empty False) = Map.empty"
    by (simp_all add: mdsystem_empty_def mds_inv_def)
  obtain a s where a: "registerMD (piece 0 4) (mdsystem_empty False) = Some (a, s)" "mds_inv s" "registered s a"
    "a = (piece 0 4)\<lparr>MD_id := MD_id a\<rparr>"
    using registerMD_ok [OF e(1), of "piece 0 4"] by (auto simp: e(2) registered_def md_ids)
  have "MD_id a = 1"
    using a(1) by (auto simp: registerMD_def newMD_def allocMD_def mdsystem_empty_def md_ids Let_def split: option.splits)
  then show "mds_inv pr_sys" "registered pr_sys pr_md" using a by (simp_all add: pr_sys_def pr_md_def)
qed

definition pr_stmt :: "nat \<Rightarrow> IR" where
  "pr_stmt i = \<lparr>ir_id = i, ir_code = IR_STPR, ir_prno = Some 1, ir_md = pr_md, ir_mds = None, ir_mayuse = (\<lambda>pr. {}), ir_exps = []\<rparr>"

definition pr_env :: RegionEnv where
  "pr_env = \<lparr>rg_ir = pr_stmt, rg_exp = (\<lambda>i. \<lparr>exp_id = i, exp_cand = False, exp_mayuse = {}\<rparr>),
     rg_vars = (\<lambda>v. \<lparr>var_global = False, var_local = True, var_fake = False, var_addr_taken = False, var_is_pr = True\<rparr>),
     rg_region = {9}, rg_mds = pr_sys, rg_depend = (\<lambda>i j. False)\<rparr>"

text \<open>Block 1 writes the register, as do blocks 2 and 3 behind it; block 4 comes after both.\<close>

definition comment_cfg :: FlowCFG where
  "comment_cfg = split_cfg\<lparr>fc_irs := (\<lambda>b. if b \<in> {1, 2, 3} then [pr_stmt (10 + b)] else [])\<rparr>"

lemma pr_stmt_ok: "block_ok pr_env [pr_stmt i]" "block_ok pr_env [pr_stmt i, pr_stmt j]" "block_ok pr_env []"
proof -
  have x: "getExactRef (pr_stmt i) = pr_md" for i by (simp add: getExactRef_def pr_stmt_def pr_md_def is_exact_def)
  have "pr_md \<noteq> 0"
  proof
    assume "pr_md = 0"
    then have "MD_id pr_md = MD_id (0 :: MD)" by simp
    then show False by (simp add: pr_md_def)
  qed
  then have "refs_ok pr_sys (pr_stmt i)" for i using pr_sys_ok(2) by (simp add: refs_ok_def x) (simp add: pr_stmt_def)
  then show "block_ok pr_env [pr_stmt i]" "block_ok pr_env [pr_stmt i, pr_stmt j]" "block_ok pr_env []"
    by (simp_all add: block_ok_def pr_env_def) (simp_all add: pr_stmt_def)
qed

lemma comment_cfg_ok: "flow_closed comment_cfg" "distinct (fc_rpo comment_cfg)" "retreat_bound (fc_rpo comment_cfg) (fc_preds comment_cfg) 18"
  "\<forall>b\<in>set (fc_bbs comment_cfg). block_ok pr_env (fc_irs comment_cfg b)"
proof -
  show "flow_closed comment_cfg" "distinct (fc_rpo comment_cfg)" by (auto simp: flow_closed_def comment_cfg_def split_cfg_def)
  show "retreat_bound (fc_rpo comment_cfg) (fc_preds comment_cfg) 18"
    by (rule retreat_bound_card [where N = "{1, 2, 3, 4}"]) (auto simp: comment_cfg_def split_cfg_def)
  show "\<forall>b\<in>set (fc_bbs comment_cfg). block_ok pr_env (fc_irs comment_cfg b)" using pr_stmt_ok by (simp add: comment_cfg_def)
qed

lemma sol_start: "sol solve_set_mgr n = (\<lambda>b. {})"
  by (rule ext) (simp add: sol_def solve_set_mgr_def)

section \<open>Properties\<close>

text \<open>
  C15: on a block whose references are registered descriptors the computation of the local sets follows no null pointer. The
  may-generated statements are those it tracks and no later one must kill, the must-generated ones those no later one may
  kill, and the must-defined descriptors are those of the tracked statements with the exact ones that overlap them.
\<close>

theorem local_sets_of_block:
  assumes "mds_inv (rg_mds rg)" "block_ok rg irs"
  shows "\<exists>d. computeMustExactDefMayDefMayUseForBB rg flag irs = Some d \<and>
    bb_maygendef d = survivors (may_tracked flag) isMustKill irs \<and>
    bb_mustgendef d = survivors (must_tracked flag) (isMayKill rg) irs \<and>
    bb_mustdefmds d = (\<Union>ir\<in>{ir \<in> set irs. must_tracked flag ir}. must_mds (rg_mds rg) ir)"
  by (rule local_sets_ok [OF assms])

lemma local_sets_of_block_witness:
  "\<exists>d. computeMustExactDefMayDefMayUseForBB pr_env only_reach [pr_stmt 11, pr_stmt 12] = Some d \<and> bb_maygendef d = {12}"
proof -
  have k: "isMustKill (pr_stmt i) (pr_stmt j)" for i j by (simp add: isMustKill_def isWritePR_def isCallStmt_def pr_stmt_def)
  have t: "may_tracked only_reach (pr_stmt i)" for i
    by (simp add: may_tracked_def tracked_def only_reach_def hasResult_def isWritePR_def) (simp add: pr_stmt_def)
  have i: "ir_id (pr_stmt i) = i" for i by (simp add: pr_stmt_def)
  have s: "survivors (may_tracked only_reach) isMustKill ([pr_stmt 11] @ [pr_stmt 12]) = {12}"
    using survivors_snoc [of "[]" pr_stmt "may_tracked only_reach" isMustKill "pr_stmt 11"]
    by (subst survivors_snoc [where stmt = pr_stmt]) (simp_all add: i t k)
  have "mds_inv (rg_mds pr_env)" using pr_sys_ok(1) by (simp add: pr_env_def)
  from local_sets_of_block [OF this pr_stmt_ok(2), of only_reach 11 12] show ?thesis using s by auto
qed

text \<open>
  C13: on a closed region, with the sets of live-in blocks empty at the start, if no cycle-free path has more than 19 edges
  backward in the order, for the loop over the live-in blocks makes at most 20 passes, a block's must-kill set is empty when it defines nothing for sure, and otherwise has those
  statements of the blocks from which it can be reached, other than the block itself, that have an exact reference and that
  its definitions kill: the exact reference is among the must-defined descriptors, or, when the block may define something,
  the reference is among the must-defined ones or what the statement may reference meets what the block may define. The
  may-kill set of every block is empty.
\<close>

theorem kill_sets_of_ancestors:
  assumes "flow_closed cfg" "distinct (fc_rpo cfg)" "retreat_bound (fc_rpo cfg) (fc_preds cfg) 19" "sol m LiveInBB = (\<lambda>b. {})"
  shows "\<forall>b\<in>set (fc_bbs cfg). sol (computeKillSet rg cfg mustv mayv m) MayKilledDef b = {} \<and>
    sol (computeKillSet rg cfg mustv mayv m) MustKilledDef b = (if mustv b = {} then {}
      else {i. (\<exists>a\<in>ancestors cfg b - {b}. i \<in> sol m MayGenDef a) \<and> getExactRef (rg_ir rg i) \<noteq> 0 \<and>
        (mdset_is_contain (rg_vars rg) (rg_region rg) (mustv b) (getExactRef (rg_ir rg i)) \<or>
         mayv b \<noteq> {} \<and>
           (ir_md (rg_ir rg i) \<noteq> 0 \<and> mdset_is_contain (rg_vars rg) (rg_region rg) (mustv b) (ir_md (rg_ir rg i)) \<or>
            (\<exists>mds. ir_mds (rg_ir rg i) = Some mds \<and> mayv b \<inter> mds \<noteq> {})))})"
proof
  fix b assume b: "b \<in> set (fc_bbs cfg)"
  have k: "killed_by rg True (mayv b \<noteq> {}) (mustv b) (mayv b) i \<longleftrightarrow> getExactRef (rg_ir rg i) \<noteq> 0 \<and>
        (mdset_is_contain (rg_vars rg) (rg_region rg) (mustv b) (getExactRef (rg_ir rg i)) \<or>
         mayv b \<noteq> {} \<and>
           (ir_md (rg_ir rg i) \<noteq> 0 \<and> mdset_is_contain (rg_vars rg) (rg_region rg) (mustv b) (ir_md (rg_ir rg i)) \<or>
            (\<exists>mds. ir_mds (rg_ir rg i) = Some mds \<and> mayv b \<inter> mds \<noteq> {})))" for i
    by (auto simp: killed_by_def Let_def)
  have "sol (computeKillSet rg cfg mustv mayv m) MayKilledDef b = {} \<and>
    sol (computeKillSet rg cfg mustv mayv m) MustKilledDef b = (if mustv b = {} then {}
      else {i. (\<exists>a\<in>ancestors cfg b - {b}. i \<in> sol m MayGenDef a) \<and> killed_by rg True (mayv b \<noteq> {}) (mustv b) (mayv b) i})"
    using kills_from(2) [OF assms(4) b, of rg mustv mayv] lpass_exact [OF assms(1-3) b] by (auto simp: kills_def)
  then show "sol (computeKillSet rg cfg mustv mayv m) MayKilledDef b = {} \<and>
    sol (computeKillSet rg cfg mustv mayv m) MustKilledDef b = (if mustv b = {} then {}
      else {i. (\<exists>a\<in>ancestors cfg b - {b}. i \<in> sol m MayGenDef a) \<and> getExactRef (rg_ir rg i) \<noteq> 0 \<and>
        (mdset_is_contain (rg_vars rg) (rg_region rg) (mustv b) (getExactRef (rg_ir rg i)) \<or>
         mayv b \<noteq> {} \<and>
           (ir_md (rg_ir rg i) \<noteq> 0 \<and> mdset_is_contain (rg_vars rg) (rg_region rg) (mustv b) (ir_md (rg_ir rg i)) \<or>
            (\<exists>mds. ir_mds (rg_ir rg i) = Some mds \<and> mayv b \<inter> mds \<noteq> {})))})"
    unfolding k .
qed

lemma kill_sets_of_ancestors_witness:
  "11 \<in> sol (computeKillSet pr_env comment_cfg (\<lambda>b. {1}) (\<lambda>b. {}) (put_ss MayGenDef 1 {11} solve_set_mgr)) MustKilledDef 2"
proof -
  let ?m = "put_ss MayGenDef 1 {11} solve_set_mgr"
  have r: "retreat_bound (fc_rpo comment_cfg) (fc_preds comment_cfg) 19"
    by (rule retreat_bound_card [where N = "{1, 2, 3, 4}"]) (auto simp: comment_cfg_def split_cfg_def)
  have z: "sol ?m LiveInBB = (\<lambda>b. {})" by (simp add: sol_put_eq sol_start del: sol_put)
  have b: "2 \<in> set (fc_bbs comment_cfg)" by (simp add: comment_cfg_def split_cfg_def)
  have "1 \<in> ancestors comment_cfg 2" by (auto simp: ancestors_def comment_cfg_def split_cfg_def)
  moreover have "11 \<in> sol ?m MayGenDef 1" by simp
  moreover have "getExactRef (rg_ir pr_env 11) \<noteq> 0 \<and> mdset_is_contain (rg_vars pr_env) (rg_region pr_env) {1} (getExactRef (rg_ir pr_env 11))"
  proof -
    have x: "getExactRef (rg_ir pr_env 11) = pr_md" by (simp add: getExactRef_def pr_env_def pr_stmt_def pr_md_def is_exact_def)
    have n: "pr_md \<noteq> 0"
    proof
      assume "pr_md = 0"
      then have "MD_id pr_md = MD_id (0 :: MD)" by simp
      then show False by (simp add: pr_md_def)
    qed
    show ?thesis unfolding x by (simp add: n pr_env_def mdset_is_contain_def is_contain_by_delegate_def) (simp add: pr_md_def)
  qed
  ultimately show ?thesis
    using bspec [OF kill_sets_of_ancestors [OF comment_cfg_ok(1,2) r z, of pr_env "\<lambda>b. {1}" "\<lambda>b. {}"] b] by auto
qed

text \<open>
  C4: \<open>perform\<close> with reaching definitions leaves the definitions that reach a block along some path on which nothing is taken
  away: it drops the kill sets before it solves, so only a later statement of the same block ends a definition. It keeps no
  other set. As before the result is exact when the last pass changed nothing.
\<close>

theorem perform_ignores_kills:
  assumes "flow_closed cfg" "distinct (fc_rpo cfg)" "SOL_REACH_DEF flag"
    and "mds_inv (rg_mds rg)" "\<forall>b\<in>set (fc_bbs cfg). block_ok rg (fc_irs cfg b)"
    and "m_is_keep m = (\<lambda>n. n = ReachDefIn)" "sol m LiveInBB = (\<lambda>b. {})"
  shows "\<exists>ch region m'. perform_solve rg cfg flag m = Some (ch, region, m') \<and>
    (\<forall>b\<in>set (fc_bbs cfg). sol m' ReachDefIn b \<subseteq>
      {d. reach_def (fc_preds cfg) (\<lambda>b. {}) (\<lambda>b. survivors (may_tracked flag) isMustKill (fc_irs cfg b)) d b}) \<and>
    (\<not> ch \<longrightarrow> (\<forall>b\<in>set (fc_bbs cfg). sol m' ReachDefIn b =
      {d. reach_def (fc_preds cfg) (\<lambda>b. {}) (\<lambda>b. survivors (may_tracked flag) isMustKill (fc_irs cfg b)) d b})) \<and>
    (\<forall>n. n \<noteq> ReachDefIn \<longrightarrow> sol m' n = (\<lambda>b. {})) \<and>
    (\<not> SOL_AVAIL_REACH_DEF flag \<and> \<not> SOL_AVAIL_EXPR flag \<and> retreat_bound (fc_rpo cfg) (fc_preds cfg) 18 \<longrightarrow> \<not> ch)"
  unfolding RI_def [symmetric] by (rule perform_solve_ok [OF assms])

lemma perform_ignores_kills_witness:
  "\<exists>region m'. perform_solve pr_env comment_cfg only_reach solve_set_mgr = Some (False, region, m') \<and> 11 \<in> sol m' ReachDefIn 4"
proof -
  let ?G = "\<lambda>b. survivors (may_tracked only_reach) isMustKill (fc_irs comment_cfg b)"
  have inv: "mds_inv (rg_mds pr_env)" using pr_sys_ok(1) by (simp add: pr_env_def)
  have k: "m_is_keep solve_set_mgr = (\<lambda>n. n = ReachDefIn)" "sol solve_set_mgr LiveInBB = (\<lambda>b. {})"
    by (simp_all add: sol_start) (simp add: solve_set_mgr_def)
  have f: "SOL_REACH_DEF only_reach" "\<not> SOL_AVAIL_REACH_DEF only_reach" "\<not> SOL_AVAIL_EXPR only_reach" by (simp_all add: only_reach_def)
  obtain ch region m' where p: "perform_solve pr_env comment_cfg only_reach solve_set_mgr = Some (ch, region, m')"
    "\<not> ch \<longrightarrow> (\<forall>b\<in>set (fc_bbs comment_cfg). sol m' ReachDefIn b = {d. reach_def (fc_preds comment_cfg) (\<lambda>b. {}) ?G d b})"
    "\<not> SOL_AVAIL_REACH_DEF only_reach \<and> \<not> SOL_AVAIL_EXPR only_reach \<and> retreat_bound (fc_rpo comment_cfg) (fc_preds comment_cfg) 18 \<longrightarrow> \<not> ch"
    using perform_ignores_kills [OF comment_cfg_ok(1,2) f(1) inv comment_cfg_ok(4) k] by (elim exE conjE) (rule that; assumption)
  have n: "\<not> ch" by (rule mp [OF p(3)]) (intro conjI f(2,3) comment_cfg_ok(3))
  have t: "may_tracked only_reach (pr_stmt 11)"
    by (simp add: may_tracked_def tracked_def only_reach_def hasResult_def isWritePR_def) (simp add: pr_stmt_def)
  have "11 \<in> ?G 1"
    using survivors_snoc [of "[]" pr_stmt "may_tracked only_reach" isMustKill "pr_stmt 11"] t
    by (simp add: comment_cfg_def) (simp add: pr_stmt_def)
  then have "reach_def (fc_preds comment_cfg) (\<lambda>b. {}) ?G 11 2"
    by (rule reach_def.from_pred [rotated]) (simp add: comment_cfg_def split_cfg_def)
  then have "reach_def (fc_preds comment_cfg) (\<lambda>b. {}) ?G 11 4"
    by (rule reach_def.through [rotated]) (simp_all add: comment_cfg_def split_cfg_def)
  moreover have "4 \<in> set (fc_bbs comment_cfg)" by (simp add: comment_cfg_def split_cfg_def)
  ultimately have "11 \<in> sol m' ReachDefIn 4" using p(2) n by blast
  then show ?thesis using p(1) n by (intro exI [of _ region] exI [of _ m']) simp
qed

end
