(* ===== verification/SegTree.thy ===== *)
theory SegTree
  imports Prelude
begin

text \<open>
  The segment tree of \<^verbatim>\<open>src/com/segtree.h\<close> and \<^verbatim>\<open>src/com/segtree.cpp\<close>: a binary tree over an interval of unsigned
  numbers, halved down to single points, in which segments are counted. \<open>SegTree\<close> derives from \<open>Tree\<close>, a graph whose
  first and second out-edge lead to the left and right child in the order of insertion; here the node holds its children,
  and a missing child is \<open>SNull\<close>. \<open>None\<close> is a null pointer that is followed.
\<close>

section \<open>The tree\<close>

type_synonym SegInfo = nat

record Seg =
  seg_start :: nat
  seg_end :: nat
  seg_info :: SegInfo

datatype SegNode = SNull | SegNode (sn_id: nat) (sn_seg: Seg) (sn_left: SegNode) (sn_right: SegNode)

definition SEG_MIN :: nat where "SEG_MIN = 0"
definition SEG_MAX :: nat where "SEG_MAX = 2 ^ 32 - 1"

definition seg_info_add :: "SegInfo \<Rightarrow> SegInfo \<Rightarrow> SegInfo" where
  "seg_info_add si info = u32 (si + info)"

definition seg_info_max :: "SegInfo \<Rightarrow> SegInfo \<Rightarrow> SegInfo" where
  "seg_info_max l r = max l r"

definition computeMinMax :: "Seg list \<Rightarrow> nat \<times> nat" where
  "computeMinMax sv = fold (\<lambda>seg (mn, mx). (min mn (seg_start seg), max mx (seg_end seg))) sv (SEG_MAX, SEG_MIN)"

text \<open>A fresh segment is cleared memory.\<close>

definition new_seg :: "nat \<Rightarrow> nat \<Rightarrow> Seg" where
  "new_seg start stop = \<lparr>seg_start = start, seg_end = stop, seg_info = 0\<rparr>"

definition seg_mid :: "nat \<Rightarrow> nat \<Rightarrow> nat" where
  "seg_mid start stop = u32 (start + stop) div 2"

text \<open>The number of vertices is threaded through; the recursion need not end when the sum of the bounds wraps around.\<close>

partial_function (option) buildRecur :: "nat \<Rightarrow> nat \<Rightarrow> nat \<Rightarrow> (SegNode \<times> nat) option" where
  "buildRecur start stop n =
     (if start = stop then Some (SegNode (n + 1) (new_seg start stop) SNull SNull, n + 1)
      else Option.bind (buildRecur start (seg_mid start stop) (n + 1)) (\<lambda>(lchild, k).
           Option.bind (buildRecur (u32 (seg_mid start stop + 1)) stop k) (\<lambda>(rchild, k).
             Some (SegNode (n + 1) (new_seg start stop) lchild rchild, k))))"

definition segtree_build :: "Seg list \<Rightarrow> SegNode option" where
  "segtree_build sv = (case computeMinMax sv of (mn, mx) \<Rightarrow> map_option fst (buildRecur mn mx 0))"

section \<open>Counting\<close>

text \<open>The count and the update context: what a node changes by and hands up.\<close>

definition updateSegIfCompleteMatch :: "Seg \<Rightarrow> Seg \<times> nat" where
  "updateSegIfCompleteMatch seg = (seg\<lparr>seg_info := u32 (seg_info seg + 1)\<rparr>, 1)"

definition updateSegBothLchildAndRchildFinish :: "bool \<Rightarrow> Seg \<Rightarrow> Seg \<Rightarrow> Seg \<Rightarrow> nat \<Rightarrow> nat \<Rightarrow> Seg \<times> nat" where
  "updateSegBothLchildAndRchildFinish acc vseg lseg rseg lctx rctx =
     (let c = max lctx rctx
      in (if acc then vseg\<lparr>seg_info := u32 (seg_info vseg + c)\<rparr> else vseg\<lparr>seg_info := max (seg_info lseg) (seg_info rseg)\<rparr>, c))"

definition updateSegAfterLchildFinish :: "bool \<Rightarrow> Seg \<Rightarrow> Seg \<Rightarrow> Seg \<Rightarrow> nat \<Rightarrow> Seg \<times> nat" where
  "updateSegAfterLchildFinish acc vseg lseg rseg tctx =
     (if acc then vseg\<lparr>seg_info := u32 (seg_info vseg + tctx)\<rparr> else vseg\<lparr>seg_info := max (seg_info lseg) (seg_info rseg)\<rparr>, tctx)"

definition updateSegAfterRchildFinish :: "bool \<Rightarrow> Seg \<Rightarrow> Seg \<Rightarrow> Seg \<Rightarrow> nat \<Rightarrow> Seg \<times> nat" where
  "updateSegAfterRchildFinish acc vseg lseg rseg tctx =
     (if acc then vseg\<lparr>seg_info := u32 (seg_info vseg + tctx)\<rparr> else vseg\<lparr>seg_info := max (seg_info lseg) (seg_info rseg)\<rparr>, tctx)"

fun computeRecur :: "bool \<Rightarrow> SegNode \<Rightarrow> nat \<Rightarrow> nat \<Rightarrow> (SegNode \<times> nat) option" where
  "computeRecur acc SNull start stop = None"
| "computeRecur acc (SegNode i vseg lchild rchild) start stop =
     (if seg_start vseg = start \<and> seg_end vseg = stop \<and> start = stop
      then (case updateSegIfCompleteMatch vseg of (vseg, ctx) \<Rightarrow> Some (SegNode i vseg lchild rchild, ctx))
      else if lchild = SNull \<or> rchild = SNull then None
      else if stop \<le> seg_mid (seg_start vseg) (seg_end vseg)
      then (case computeRecur acc lchild start stop of None \<Rightarrow> None
            | Some (l, tctx) \<Rightarrow> (case updateSegAfterLchildFinish acc vseg (sn_seg l) (sn_seg rchild) tctx of
                (vseg, ctx) \<Rightarrow> Some (SegNode i vseg l rchild, ctx)))
      else if start > seg_mid (seg_start vseg) (seg_end vseg)
      then (case computeRecur acc rchild start stop of None \<Rightarrow> None
            | Some (r, tctx) \<Rightarrow> (case updateSegAfterRchildFinish acc vseg (sn_seg lchild) (sn_seg r) tctx of
                (vseg, ctx) \<Rightarrow> Some (SegNode i vseg lchild r, ctx)))
      else (case computeRecur acc lchild start (seg_mid (seg_start vseg) (seg_end vseg)) of None \<Rightarrow> None
            | Some (l, lctx) \<Rightarrow>
                (case computeRecur acc rchild (u32 (seg_mid (seg_start vseg) (seg_end vseg) + 1)) stop of None \<Rightarrow> None
                 | Some (r, rctx) \<Rightarrow> (case updateSegBothLchildAndRchildFinish acc vseg (sn_seg l) (sn_seg r) lctx rctx of
                     (vseg, ctx) \<Rightarrow> Some (SegNode i vseg l r, ctx)))))"

definition compute_seg :: "bool \<Rightarrow> Seg \<Rightarrow> SegNode \<Rightarrow> SegNode option" where
  "compute_seg acc seg root = map_option fst (computeRecur acc root (seg_start seg) (seg_end seg))"

definition compute_segs :: "bool \<Rightarrow> Seg list \<Rightarrow> SegNode \<Rightarrow> SegNode option" where
  "compute_segs acc sv root = fold (\<lambda>seg t. Option.bind t (compute_seg acc seg)) sv (Some root)"

fun queryRecur :: "SegNode \<Rightarrow> nat \<Rightarrow> nat \<Rightarrow> SegInfo \<Rightarrow> SegInfo" where
  "queryRecur SNull start stop si = si"
| "queryRecur (SegNode i vseg lchild rchild) start stop si =
     (let mid = seg_mid (seg_start vseg) (seg_end vseg)
      in if seg_start vseg = start \<and> seg_end vseg = stop \<and> start = stop then seg_info_add si (seg_info vseg)
         else if stop \<le> mid then queryRecur lchild start stop si
         else if start > mid then queryRecur rchild start stop si
         else seg_info_max (queryRecur lchild start mid 0) (queryRecur rchild (u32 (mid + 1)) stop 0))"

definition segtree_query :: "SegNode \<Rightarrow> nat \<Rightarrow> nat \<Rightarrow> SegInfo \<Rightarrow> SegInfo option" where
  "segtree_query root start stop si = (if root = SNull then None else Some (queryRecur root start stop si))"

section \<open>What the nodes count\<close>

text \<open>\<open>cp\<close> counts the segments at a point, \<open>ov\<close> those that meet an interval.\<close>

fun st_ok :: "(nat \<Rightarrow> nat) \<Rightarrow> (nat \<Rightarrow> nat \<Rightarrow> nat) \<Rightarrow> bool \<Rightarrow> nat \<Rightarrow> nat \<Rightarrow> SegNode \<Rightarrow> bool" where
  "st_ok cp ov acc lo hi SNull \<longleftrightarrow> False"
| "st_ok cp ov acc lo hi (SegNode i seg l r) \<longleftrightarrow> seg_start seg = lo \<and> seg_end seg = hi \<and> lo \<le> hi \<and>
     (if lo = hi then l = SNull \<and> r = SNull \<and> seg_info seg = cp lo
      else st_ok cp ov acc lo ((lo + hi) div 2) l \<and> st_ok cp ov acc ((lo + hi) div 2 + 1) hi r \<and>
        seg_info seg = (if acc then ov lo hi else Max (cp ` {lo..hi})))"

lemma st_ok_cong:
  "st_ok cp ov acc lo hi t \<Longrightarrow> (\<And>p. lo \<le> p \<Longrightarrow> p \<le> hi \<Longrightarrow> cp' p = cp p) \<Longrightarrow>
   (\<And>a b. lo \<le> a \<Longrightarrow> a \<le> b \<Longrightarrow> b \<le> hi \<Longrightarrow> ov' a b = ov a b) \<Longrightarrow> st_ok cp' ov' acc lo hi t"
proof (induction cp ov acc lo hi t rule: st_ok.induct)
  case (2 cp ov acc lo hi i seg l r)
  show ?case
  proof (cases "lo = hi")
    case False
    have "cp' ` {lo..hi} = cp ` {lo..hi}" using 2(4) by (intro image_cong) auto
    moreover have "st_ok cp' ov' acc lo ((lo + hi) div 2) l" by (rule 2(1) [OF False]) (use 2(3-5) False in auto)
    moreover have "st_ok cp' ov' acc ((lo + hi) div 2 + 1) hi r" by (rule 2(2) [OF False]) (use 2(3-5) False in auto)
    ultimately show ?thesis using 2(3,5) False by auto
  qed (use 2 in auto)
qed simp

lemma mid_id: "lo \<le> hi \<Longrightarrow> hi < 2 ^ 31 \<Longrightarrow> seg_mid lo hi = (lo + hi) div 2 \<and> u32 ((lo + hi) div 2 + 1) = (lo + hi) div 2 + 1"
  by (simp add: seg_mid_def u32_def)

lemma root_count: "st_ok cp ov False lo hi t \<Longrightarrow> seg_info (sn_seg t) = Max (cp ` {lo..hi})"
  by (cases t) (auto split: if_splits)

lemma Max_halves:
  assumes "lo < hi"
  shows "Max (cp ` {lo..hi::nat}) = max (Max (cp ` {lo..(lo + hi) div 2})) (Max (cp ` {(lo + hi) div 2 + 1..hi}) :: nat)"
proof -
  have "{lo..hi} = {lo..(lo + hi) div 2} \<union> {(lo + hi) div 2 + 1..hi}" using assms by auto
  then show ?thesis using assms by (simp add: image_Un Max_Un)
qed

definition add_seg :: "nat \<Rightarrow> nat \<Rightarrow> (nat \<Rightarrow> nat) \<Rightarrow> nat \<Rightarrow> nat" where
  "add_seg s e cp p = cp p + (if s \<le> p \<and> p \<le> e then 1 else 0)"

definition add_meet :: "nat \<Rightarrow> nat \<Rightarrow> (nat \<Rightarrow> nat \<Rightarrow> nat) \<Rightarrow> nat \<Rightarrow> nat \<Rightarrow> nat" where
  "add_meet s e ov a b = ov a b + (if s \<le> b \<and> a \<le> e then 1 else 0)"

lemma computeRecur_ok:
  "st_ok cp ov acc lo hi t \<Longrightarrow> hi < 2 ^ 31 \<Longrightarrow> lo \<le> s \<Longrightarrow> s \<le> e \<Longrightarrow> e \<le> hi \<Longrightarrow>
   (\<And>p. cp p + 1 < 2 ^ 32) \<Longrightarrow> (\<And>a b. ov a b + 1 < 2 ^ 32) \<Longrightarrow>
   \<exists>t'. computeRecur acc t s e = Some (t', 1) \<and> st_ok (add_seg s e cp) (add_meet s e ov) acc lo hi t'"
proof (induction t arbitrary: lo hi s e)
  case (SegNode i seg l r)
  let ?m = "(lo + hi) div 2"
  have b: "seg_start seg = lo" "seg_end seg = hi" "lo \<le> hi" using SegNode.prems(1) by simp_all
  note m = mid_id [OF b(3) SegNode.prems(2)]
  note cs = add_seg_def add_meet_def
  show ?case
  proof (cases "lo = hi")
    case True
    then have "s = lo" "e = lo" using SegNode.prems by simp_all
    then show ?thesis using True SegNode.prems(1) SegNode.prems(6) [of lo]
      by (simp add: updateSegIfCompleteMatch_def cs u32_def)
  next
    case False
    then have k: "st_ok cp ov acc lo ?m l" "st_ok cp ov acc (?m + 1) hi r" "seg_info seg = (if acc then ov lo hi else Max (cp ` {lo..hi}))"
      using SegNode.prems(1) by simp_all
    have n: "l \<noteq> SNull" "r \<noteq> SNull" "\<not> (lo = s \<and> hi = e \<and> s = e)" "?m < hi" using k False b(3) by auto
    have node: "st_ok (add_seg s e cp) (add_meet s e ov) acc lo hi (SegNode i (seg\<lparr>seg_info := c\<rparr>) l' r')"
      if "st_ok (add_seg s e cp) (add_meet s e ov) acc lo ?m l'" "st_ok (add_seg s e cp) (add_meet s e ov) acc (?m + 1) hi r'"
        "c = (if acc then u32 (ov lo hi + 1) else max (seg_info (sn_seg l')) (seg_info (sn_seg r')))" for c l' r'
    proof -
      have "acc \<Longrightarrow> u32 (ov lo hi + 1) = add_meet s e ov lo hi" using SegNode.prems(3-5,7) by (simp add: u32_def add_meet_def)
      moreover have "\<not> acc \<Longrightarrow> max (seg_info (sn_seg l')) (seg_info (sn_seg r')) = Max (add_seg s e cp ` {lo..hi})"
        using that(1,2) root_count [of "add_seg s e cp"] Max_halves [of lo hi "add_seg s e cp"] False b(3) by simp
      ultimately show ?thesis using that b False by auto
    qed
    consider "e \<le> ?m" | "?m < s" | "s \<le> ?m" "?m < e" by linarith
    then show ?thesis
    proof cases
      case 1
      obtain l' where l': "computeRecur acc l s e = Some (l', 1)" "st_ok (add_seg s e cp) (add_meet s e ov) acc lo ?m l'"
        using SegNode.IH(1) [OF k(1) _ SegNode.prems(3,4) 1 SegNode.prems(6,7)] SegNode.prems(2) n(4) by auto
      have r: "st_ok (add_seg s e cp) (add_meet s e ov) acc (?m + 1) hi r" by (rule st_ok_cong [OF k(2)]) (use 1 in \<open>simp_all add: cs\<close>)
      show ?thesis using n 1 m b l'(1) k(3) node [OF l'(2) r]
        by (cases acc) (simp_all add: updateSegAfterLchildFinish_def del: st_ok.simps)
    next
      case 2
      obtain r' where r': "computeRecur acc r s e = Some (r', 1)" "st_ok (add_seg s e cp) (add_meet s e ov) acc (?m + 1) hi r'"
        using SegNode.IH(2) [OF k(2) SegNode.prems(2) _ SegNode.prems(4,5-7)] 2 by auto
      have l: "st_ok (add_seg s e cp) (add_meet s e ov) acc lo ?m l" by (rule st_ok_cong [OF k(1)]) (use 2 in \<open>simp_all add: cs\<close>)
      have "lo \<noteq> s" using 2 b(3) by linarith
      then show ?thesis using n 2 m b r'(1) k(3) node [OF l r'(2)] SegNode.prems(4)
        by (cases acc) (simp_all add: updateSegAfterRchildFinish_def del: st_ok.simps)
    next
      case 3
      obtain l' where l': "computeRecur acc l s ?m = Some (l', 1)" "st_ok (add_seg s ?m cp) (add_meet s ?m ov) acc lo ?m l'"
        using SegNode.IH(1) [OF k(1) _ SegNode.prems(3) 3(1) order_refl SegNode.prems(6,7)] SegNode.prems(2) n(4) by auto
      obtain r' where r': "computeRecur acc r (?m + 1) e = Some (r', 1)" "st_ok (add_seg (?m + 1) e cp) (add_meet (?m + 1) e ov) acc (?m + 1) hi r'"
        using SegNode.IH(2) [OF k(2) SegNode.prems(2) order_refl _ SegNode.prems(5-7)] 3(2) by auto
      have l: "st_ok (add_seg s e cp) (add_meet s e ov) acc lo ?m l'"
        by (rule st_ok_cong [OF l'(2)]) (use 3 in \<open>auto simp: cs\<close>)
      have r: "st_ok (add_seg s e cp) (add_meet s e ov) acc (?m + 1) hi r'"
        by (rule st_ok_cong [OF r'(2)]) (use 3 in \<open>auto simp: cs\<close>)
      show ?thesis using n 3 m b l'(1) r'(1) k(3) node [OF l r]
        by (cases acc) (simp_all add: updateSegBothLchildAndRchildFinish_def Let_def del: st_ok.simps)
    qed
  qed
qed simp

section \<open>Building, counting and asking\<close>

lemma buildRecur_ok:
  "lo \<le> hi \<Longrightarrow> hi < 2 ^ 31 \<Longrightarrow> \<exists>t. buildRecur lo hi n = Some (t, n + 2 * (hi - lo) + 1) \<and> st_ok (\<lambda>p. 0) (\<lambda>a b. 0) acc lo hi t"
proof (induction "hi - lo" arbitrary: lo hi n rule: less_induct)
  case less
  let ?m = "(lo + hi) div 2"
  show ?case
  proof (cases "lo = hi")
    case True
    show ?thesis unfolding True by (simp add: buildRecur.simps [of hi hi] new_seg_def)
  next
    case False
    note m = mid_id [OF less.prems]
    have h: "?m - lo < hi - lo" "hi - (?m + 1) < hi - lo" "lo \<le> ?m" "?m + 1 \<le> hi" "?m < 2 ^ 31" using False less.prems by auto
    obtain l where l: "buildRecur lo ?m (n + 1) = Some (l, n + 1 + 2 * (?m - lo) + 1)" "st_ok (\<lambda>p. 0) (\<lambda>a b. 0) acc lo ?m l"
      using less.hyps [OF h(1,3,5)] by blast
    obtain r where r: "buildRecur (?m + 1) hi (n + 1 + 2 * (?m - lo) + 1) = Some (r, n + 1 + 2 * (?m - lo) + 1 + 2 * (hi - (?m + 1)) + 1)"
      "st_ok (\<lambda>p. 0) (\<lambda>a b. 0) acc (?m + 1) hi r"
      using less.hyps [OF h(2,4) less.prems(2)] by blast
    have c: "n + 1 + 2 * (?m - lo) + 1 + 2 * (hi - (?m + 1)) + 1 = n + 2 * (hi - lo) + 1" using h(3,4) by arith
    have "buildRecur lo hi n = Some (SegNode (n + 1) (new_seg lo hi) l r, n + 2 * (hi - lo) + 1)"
      using False m l(1) r(1) [unfolded c] by (simp add: buildRecur.simps [of lo])
    then show ?thesis using False less.prems(1) l(2) r(2) by (auto simp: new_seg_def image_constant_conv)
  qed
qed

definition covers :: "Seg list \<Rightarrow> nat \<Rightarrow> nat" where
  "covers qs p = length (filter (\<lambda>q. seg_start q \<le> p \<and> p \<le> seg_end q) qs)"

definition meets_range :: "Seg list \<Rightarrow> nat \<Rightarrow> nat \<Rightarrow> nat" where
  "meets_range qs a b = length (filter (\<lambda>q. seg_start q \<le> b \<and> a \<le> seg_end q) qs)"

lemma compute_segs_ok:
  assumes "hi < 2 ^ 31" "length qs < 2 ^ 32" "st_ok (\<lambda>p. 0) (\<lambda>a b. 0) acc lo hi t"
  shows "\<forall>q\<in>set qs. lo \<le> seg_start q \<and> seg_start q \<le> seg_end q \<and> seg_end q \<le> hi \<Longrightarrow>
    \<exists>t'. compute_segs acc qs t = Some t' \<and> st_ok (covers qs) (meets_range qs) acc lo hi t'"
  using assms(2)
proof (induction qs rule: rev_induct)
  case Nil
  then show ?case using assms(3) by (simp add: compute_segs_def covers_def [abs_def] meets_range_def [abs_def])
next
  case (snoc q qs)
  obtain t1 where t1: "compute_segs acc qs t = Some t1" "st_ok (covers qs) (meets_range qs) acc lo hi t1" using snoc by auto
  have "covers qs p \<le> length qs" "meets_range qs a b \<le> length qs" for p a b by (simp_all add: covers_def meets_range_def)
  then have c: "covers qs p + 1 < 2 ^ 32" "meets_range qs a b + 1 < 2 ^ 32" for p a b
    using snoc.prems(2) by (auto intro: le_less_trans)
  obtain t2 where t2: "computeRecur acc t1 (seg_start q) (seg_end q) = Some (t2, 1)"
    "st_ok (add_seg (seg_start q) (seg_end q) (covers qs)) (add_meet (seg_start q) (seg_end q) (meets_range qs)) acc lo hi t2"
    using computeRecur_ok [OF t1(2) assms(1) _ _ _ c, of "seg_start q" "seg_end q"] snoc.prems(1) by auto
  have "st_ok (covers (qs @ [q])) (meets_range (qs @ [q])) acc lo hi t2"
    by (rule st_ok_cong [OF t2(2)]) (simp_all add: covers_def meets_range_def add_seg_def add_meet_def)
  then show ?case using t1(1) t2(1) by (simp add: compute_segs_def compute_seg_def)
qed

lemma queryRecur_ok:
  "st_ok cp ov acc lo hi t \<Longrightarrow> hi < 2 ^ 31 \<Longrightarrow> lo \<le> s \<Longrightarrow> s \<le> e \<Longrightarrow> e \<le> hi \<Longrightarrow> (\<And>p. cp p < 2 ^ 32) \<Longrightarrow>
   queryRecur t s e 0 = Max (cp ` {s..e})"
proof (induction t arbitrary: lo hi s e)
  case (SegNode i seg l r)
  let ?m = "(lo + hi) div 2"
  have b: "seg_start seg = lo" "seg_end seg = hi" "lo \<le> hi" using SegNode.prems(1) by simp_all
  note m = mid_id [OF b(3) SegNode.prems(2)]
  show ?case
  proof (cases "lo = hi")
    case True
    then have "s = lo" "e = lo" using SegNode.prems by simp_all
    then show ?thesis using True SegNode.prems(1) SegNode.prems(6) [of lo] by (simp add: seg_info_add_def u32_def)
  next
    case False
    then have k: "st_ok cp ov acc lo ?m l" "st_ok cp ov acc (?m + 1) hi r" using SegNode.prems(1) by simp_all
    have n: "\<not> (lo = s \<and> hi = e \<and> s = e)" "?m < hi" "?m < 2 ^ 31" using False b(3) SegNode.prems(2) by auto
    consider "e \<le> ?m" | "?m < s" | "s \<le> ?m" "?m < e" by linarith
    then show ?thesis
    proof cases
      case 1
      then show ?thesis using n m b SegNode.IH(1) [OF k(1) n(3) SegNode.prems(3,4) 1 SegNode.prems(6)] by (simp add: Let_def)
    next
      case 2
      have "?m + 1 \<le> s" "lo \<noteq> s" using 2 b(3) by linarith+
      then show ?thesis using n m b 2 SegNode.IH(2) [OF k(2) SegNode.prems(2) _ SegNode.prems(4-6)] SegNode.prems(4) by (simp add: Let_def)
    next
      case 3
      have l: "queryRecur l s ?m 0 = Max (cp ` {s..?m})" by (rule SegNode.IH(1) [OF k(1) n(3) SegNode.prems(3) 3(1) order_refl SegNode.prems(6)])
      have r: "queryRecur r (?m + 1) e 0 = Max (cp ` {?m + 1..e})"
        by (rule SegNode.IH(2) [OF k(2) SegNode.prems(2) order_refl _ SegNode.prems(5,6)]) (use 3 in simp)
      have "{s..e} = {s..?m} \<union> {?m + 1..e}" using 3 by auto
      then have x: "Max (cp ` {s..e}) = max (Max (cp ` {s..?m})) (Max (cp ` {?m + 1..e}))" using 3 by (simp add: image_Un Max_Un)
      have "s \<noteq> e" "\<not> e \<le> ?m" "\<not> ?m < s" using 3 by linarith+
      then have "queryRecur (SegNode i seg l r) s e 0 = max (queryRecur l s ?m 0) (queryRecur r (?m + 1) e 0)"
        unfolding queryRecur.simps Let_def b m [THEN conjunct1] m [THEN conjunct2] seg_info_max_def by simp
      then show ?thesis unfolding l r x .
    qed
  qed
qed simp

section \<open>Properties\<close>

text \<open>
  C25: when the upper bound is below 2^31, building the tree over a vector of segments ends, with twice as many vertices as
  points less one. After counting segments within the bounds, a query over an interval returns the largest number of them
  that share a point of it. The root has the number of all segments when counts are accumulated, else the largest number that
  share a point.
\<close>

theorem segtree_counts_overlap:
  assumes "computeMinMax sv = (mn, mx)" "mn \<le> mx" "mx < 2 ^ 31" "length qs < 2 ^ 32"
    and "\<forall>q\<in>set qs. mn \<le> seg_start q \<and> seg_start q \<le> seg_end q \<and> seg_end q \<le> mx"
  shows "\<exists>t t'. segtree_build sv = Some t \<and> buildRecur mn mx 0 = Some (t, 2 * (mx - mn) + 1) \<and> compute_segs acc qs t = Some t' \<and>
    (\<forall>s e. mn \<le> s \<and> s \<le> e \<and> e \<le> mx \<longrightarrow>
      segtree_query t' s e 0 = Some (Max ((\<lambda>p. length (filter (\<lambda>q. seg_start q \<le> p \<and> p \<le> seg_end q) qs)) ` {s..e}))) \<and>
    seg_info (sn_seg t') = (if acc then length qs else Max ((\<lambda>p. length (filter (\<lambda>q. seg_start q \<le> p \<and> p \<le> seg_end q) qs)) ` {mn..mx}))"
proof -
  obtain t where t: "buildRecur mn mx 0 = Some (t, 2 * (mx - mn) + 1)" "st_ok (\<lambda>p. 0) (\<lambda>a b. 0) acc mn mx t"
    using buildRecur_ok [OF assms(2,3), of 0 acc] by auto
  obtain t' where t': "compute_segs acc qs t = Some t'" "st_ok (covers qs) (meets_range qs) acc mn mx t'"
    using compute_segs_ok [OF assms(3,4) t(2) assms(5)] by blast
  have c: "covers qs p < 2 ^ 32" for p unfolding covers_def by (rule le_less_trans [OF length_filter_le assms(4)])
  have n: "t' \<noteq> SNull" using t'(2) by auto
  have q: "segtree_query t' s e 0 = Some (Max (covers qs ` {s..e}))" if "mn \<le> s" "s \<le> e" "e \<le> mx" for s e
    using queryRecur_ok [OF t'(2) assms(3) that c] n by (simp add: segtree_query_def)
  have all: "filter (\<lambda>q. seg_start q \<le> b \<and> a \<le> seg_end q) qs = qs" if "\<forall>q\<in>set qs. seg_start q \<le> b \<and> a \<le> seg_end q" for a b
    using that by (simp add: filter_id_conv)
  have r: "seg_info (sn_seg t') = (if acc then length qs else Max (covers qs ` {mn..mx}))"
  proof (cases acc)
    case True
    have "meets_range qs mn mx = length qs" unfolding meets_range_def by (subst all) (use assms(5) in auto)
    moreover have "mn = mx \<Longrightarrow> covers qs mn = length qs" unfolding covers_def by (subst all) (use assms(5) in auto)
    ultimately show ?thesis using t'(2) True by (cases t') (auto split: if_splits)
  next
    case False
    then show ?thesis using root_count t'(2) by simp
  qed
  show ?thesis using t t'(1) q r assms(1) by (intro exI [of _ t] exI [of _ t']) (simp add: segtree_build_def covers_def [abs_def])
qed

definition two_segs :: "Seg list" where
  "two_segs = [\<lparr>seg_start = 1, seg_end = 3, seg_info = 0\<rparr>, \<lparr>seg_start = 2, seg_end = 5, seg_info = 0\<rparr>]"

lemma segtree_counts_overlap_witness:
  "\<exists>t t'. segtree_build two_segs = Some t \<and> compute_segs False two_segs t = Some t' \<and> segtree_query t' 3 5 0 = Some 2"
proof -
  have p: "computeMinMax two_segs = (1, 5)" "length two_segs < 2 ^ 32"
    "\<forall>q\<in>set two_segs. 1 \<le> seg_start q \<and> seg_start q \<le> seg_end q \<and> seg_end q \<le> 5"
    by (simp_all add: computeMinMax_def two_segs_def SEG_MAX_def SEG_MIN_def)
  have "{3..5} = {3, 4, 5 :: nat}" by auto
  then have "Max ((\<lambda>p. length (filter (\<lambda>q. seg_start q \<le> p \<and> p \<le> seg_end q) two_segs)) ` {3..5}) = 2"
    by (simp add: two_segs_def)
  then show ?thesis using segtree_counts_overlap [OF p(1) _ _ p(2,3), of False] by auto
qed

text \<open>Above 2^31 the sum of the bounds wraps around and the middle falls below the interval.\<close>

lemma seg_mid_wraps: "seg_mid (2 ^ 31) (2 ^ 31 + 1) = 0"
  by (simp add: seg_mid_def u32_def)

end
