(* ===== verification/Spec2Isabelle.thy ===== *)
theory Spec2Isabelle
  imports Sort Interf GraphClaims HashProps BigInt SolveWhole SegTree
begin

text \<open>
  A model of the core of the xoc compiler infrastructure, with its proofs.

  \<^bold>\<open>The program.\<close> xoc is an optimizing compiler library. Its passes (\<^verbatim>\<open>src/opt\<close>) work on regions of
  basic blocks and compute over sets of block, register and memory ids. The sets, numbers, strings and containers come
  from the support library \<^verbatim>\<open>src/com\<close>; the readers, object-file writers and targets sit on top. The development
  follows that order: the byte scans and bit sets, the interface through which analyses use them, the chain from the
  live-variable analysis over lifetimes to the interference graph of the register allocator, the graphs and dominators
  every pass on control flow uses, the memory descriptors and the data-flow solver over them, and beside this the maps, hash tables, arithmetic and text functions of \<^verbatim>\<open>com\<close>.

  \<^bold>\<open>Bit sets.\<close>
  \<^item> \<open>Prelude\<close>: 32-bit unsigned arithmetic on naturals (\<open>u32\<close>), bytes, \<open>BS_UNDEF\<close>, and the collections of simplification
    rules \<open>set_abs\<close> and \<open>wf_intro\<close>.
  \<^item> \<open>ByteOp\<close>: \<^verbatim>\<open>com/byteop.cpp\<close>, the tables \<open>g_bit_count\<close>, \<open>g_first_one\<close>, \<open>g_last_one\<close> and the scans.
  \<^item> \<open>BitSet\<close>, \<open>BitSetProps\<close>, \<open>BitSetQuery\<close>: \<^verbatim>\<open>com/bs.h\<close> and \<^verbatim>\<open>com/bs.cpp\<close>. The record \<open>BitSet\<close> has the code's two
    fields, a null pointer being \<open>None\<close>. \<open>bitset_wf\<close> is the class invariant, \<open>bitset_set\<close> the set of positions.
  \<^item> \<open>SBitSet\<close>, \<open>SBitSetProps\<close>: \<^verbatim>\<open>com/sbs.h\<close> and \<^verbatim>\<open>com/sbs.impl\<close>, the sparse set as a list of segments of \<open>B\<close> bits
    (the template parameter), each operation with the manager \<open>SegMgr\<close> it takes segments from. \<open>DBitSet\<close> is the set that
    switches between a segment list and one dense segment.
  \<^item> \<open>SetImpl\<close>: the interfaces. \<open>set_impl\<close> states what an insertion, removal, union, difference, intersection, copy and
    comparison promise and \<open>set_iter\<close> what the first/next loop promises. The dense, sparse and dual sets interpret them.

  \<^bold>\<open>Liveness.\<close> \<open>Liveness\<close> models \<^verbatim>\<open>opt/liveness_mgr.cpp\<close> and \<^verbatim>\<open>opt/pr_liveness_mgr.cpp\<close> over a record \<open>set_ops\<close> of
  set operations: the local sets, the fixpoint loop with its iteration limit, the walk that removes liveness of registers
  that nothing defines above, and \<open>perform\<close>. The statements carry the registers they read and write and the flow graph its
  successors; the walk over the IR tree and the alias analysis that produce them are inputs. \<open>LivenessProps\<close> proves the
  fixpoint against path liveness (the inductive \<open>live\<close>) in the locale \<open>set_client\<close>. \<open>ElimRounds\<close> proves what the rounds
  of the elimination keep: a register live into the entry stays where it is carried, along predecessors at whose exits it is
  live, from a block that defines it (the inductive \<open>kept\<close>). \<open>LivenessElim\<close> joins this to the pass and instantiates both
  with the sparse sets.

  \<^bold>\<open>Lifetimes and interference.\<close> The register allocator works on ranges of program positions.
  \<^item> \<open>LifeRange\<close>: class \<open>Range\<close> and \<open>RangeVector\<close> of \<^verbatim>\<open>opt/range.h\<close>, with the binary search over a sorted vector.
  \<^item> \<open>LifeTime\<close>: \<open>LifeTime\<close>, \<open>LifeTimeMgr\<close> and \<open>LifeTime2DMgr\<close> of \<^verbatim>\<open>opt/lifetime.cpp\<close>. The walk over the statements is a
    fold over positions, with the lifetime of each register in the state.
  \<^item> \<open>LifeTimeProps\<close>: the ranges of a register are a function of its events (opening, extension). \<open>LifeTime2D\<close> relates
    them to the live sets of the blocks, \<open>LifeMerge\<close> to the sets that the liveness pass of this development computes, and
    models the merge of two vectors of ranges. \<open>LifeClaims\<close> holds the properties.
  \<^item> \<open>Interf\<close>: \<open>LTIG\<close> of \<^verbatim>\<open>opt/lt_interf_graph.cpp\<close>, built from the lifetimes into the graphs below.

  \<^bold>\<open>Graphs and dominators.\<close>
  \<^item> \<open>Graph\<close>, \<open>GraphProps\<close>, \<open>GraphOps\<close>: class \<open>Graph\<close> of \<^verbatim>\<open>com/sgraph.h\<close> and \<^verbatim>\<open>com/sgraph.cpp\<close>, the record of the vertex
    order, the edge table and the in- and out-lists, its invariant \<open>graph_wf\<close> and every update. The abstract graph is the
    pair of \<open>verts\<close> and \<open>edges\<close>.
  \<^item> \<open>GraphSearch\<close>: the iterators and the searches as instances of one worklist walk. \<open>GraphTopo\<close>: the topological sort,
    with its failure on a cycle. \<open>GraphRPO\<close>: the reverse post order of \<^verbatim>\<open>com/rpo.cpp\<close>, its numbers
    32-bit words (\<open>rpo_fits\<close> is when they do not wrap), its two assertions outcomes without a result.
  \<^item> \<open>Dominators\<close>: class \<open>DGraph\<close>. \<open>DomProof\<close> and \<open>DomIdom\<close> prove the walk of \<open>computeIdom2\<close> against the path definition
    of dominance, \<open>DomSets\<close> the iterations over sets, \<open>DomTree\<close> that the computations agree and that the tree decides
    dominance. \<open>GraphClaims\<close> holds the properties.

  \<^bold>\<open>Maps and hash tables.\<close>
  \<^item> \<open>RBTree\<close>, \<open>RBTreeProps\<close>: class \<open>RBT\<close> of \<^verbatim>\<open>com/sstl.h\<close>. A node pointer is a zipper, the subtree with the way up to
    the root, so that the fixups read as the code writes them. The invariant \<open>rbt_inv\<close> is order, equal black heights and no
    red node under a red one.
  \<^item> \<open>TMap\<close>: \<open>TMap\<close> and \<open>TTab\<close> over any class that meets the locale \<open>compare_key\<close>; \<open>CompareKeyBase\<close>, the comparison of
    edges and, in \<open>MemDesc\<close>, the one of offsets interpret it.
  \<^item> \<open>HashTab\<close>, \<open>HashProps\<close>: \<open>VectorWithFreeIndex\<close>, \<open>Hash\<close> and three hash function classes. \<open>hash_func\<close> is what the table
    needs of its function, \<open>hash_table\<close> the invariant that ties buckets and element vector together.

  \<^bold>\<open>Memory descriptors.\<close> Alias and data-flow analyses name memory by descriptors (\<^verbatim>\<open>opt/md.h\<close>, \<^verbatim>\<open>opt/md.cpp\<close>).
  \<^item> \<open>MemDesc\<close>: class \<open>MD\<close>, its overlap and covering tests against the bytes it stands for, the table of the descriptors of a
    variable over the red-black tree, the containment tests of \<open>MDSet\<close> with the delegates. A pointer to a descriptor is the
    descriptor, null is the cleared one; a variable is its number, \<open>vars\<close> its flags, \<open>region\<close> the variables of the region.
  \<^item> \<open>MemSystem\<close>: \<open>MDSystem\<close>, with registration, delegates, freeing, \<open>clean\<close> and the four overlap computations. \<open>MemProps\<close> and
    \<open>MemSets\<close> prove the invariant \<open>mds_inv\<close> (every registered descriptor is in the table of its variable and nowhere
    else, numbers are unique) and the overlap computations; \<open>MemClaims\<close> holds the properties.

  \<^bold>\<open>Reaching definitions and available expressions.\<close> Class \<open>SolveSetMgr\<close> of \<^verbatim>\<open>opt/solve_set.cpp\<close>.
  \<^item> \<open>SolveSet\<close>: the thirteen named sets per block with what \<open>gen\<close>, \<open>get\<close> and the resets do, the three equations, and
    the iteration in reverse post-order. \<open>SolveGen\<close>: the local sets of a block, the kill sets, the expression sets, the
    region's references, and \<open>perform\<close>. A statement carries the references the solver reads; its expression tree and the
    dependence test between a statement and an expression (\<open>rg_depend\<close>) are inputs.
  \<^item> \<open>SolveProps\<close> turns a pass over the manager into a pass over pairs of set families. \<open>SolveFix\<close> compares passes with
    paths: what reaches a block (the inductive \<open>reach_def\<close>), and how many passes carry it there. \<open>SolveClaims\<close> applies
    this to the loop, \<open>SolveAvail\<close> has the two availability problems (the inductive \<open>missed\<close>), \<open>SolveKill\<close> and
    \<open>SolvePerform\<close> the local sets, the kill sets and \<open>perform\<close>, \<open>SolveWhole\<close> their properties. These show where the code
    departs from the textbook problems: availability of expressions along any path, may-kills in the must-kill sets, and
    kill sets that are dropped before the iteration.

  \<^bold>\<open>Numbers and text.\<close> \<open>BitCount\<close>, \<open>BitField\<close>, \<open>FloatConv\<close>, \<open>NumComf\<close> and \<open>StrConv\<close> model the functions of
  \<^verbatim>\<open>com/comf.h\<close> and \<^verbatim>\<open>com/comf.cpp\<close>: words at their width, \<open>INT\<close> values as integers reduced by \<open>i32\<close> or \<open>i64\<close>, strings
  as the characters before the terminator. \<open>Vector\<close> models class \<open>Vector\<close> of \<^verbatim>\<open>com/sstl.h\<close> (buffer, last index;
  an index or capacity that leaves \<open>INT\<close> or \<open>UINT\<close> in the bulk appends is an outcome without a result) and \<open>Sort\<close> the sorting classes of \<^verbatim>\<open>com/sort.h\<close> on the list a vector holds, against the contract \<open>sorter\<close>. \<open>BigInt\<close> models
  \<^verbatim>\<open>com/bigint.cpp\<close>: a number is its list of 32-bit elements, the least significant first, in two's complement; it
  shows where the elementwise algorithms compute the operation on the value and where they do not, for division on all single elements. \<open>SegTree\<close> is the segment
  tree of \<^verbatim>\<open>com/segtree.cpp\<close>: each node is shown to count the segments at its point or over its interval, which gives queries.

  \<^bold>\<open>Bounds and loops.\<close> Loops are total functions with a measure where the code's loop ends on every input. The liveness
  fixpoint stops after \<open>thres\<close> passes, as the code does, and \<open>liveness_fixpoint\<close> says how many passes are enough: 1000 are
  when the blocks times the upward-exposed registers are fewer (\<open>few_changes\<close>), and every property that calls a result of
  liveness exact states that. The rounds of the elimination stop at 100, which is enough when twice the blocks times the
  registers live into the entry is below 99. The numbers of the reverse post-order fit an \<open>INT\<close> below \<open>2 ^ 31 / 10\<close> vertices, the
  vectors of \<open>Vector\<close> have fewer than \<open>2 ^ 31\<close> elements, those merge sort and quick sort can halve at most \<open>2 ^ 30\<close>. The
  data-flow solver stops after 20 passes; these are enough when no cycle-free path of the region has more than 18 edges
  backward in the order (\<open>retreat_bound\<close>), for instance in a region of at most 18 blocks; the loop over live-in blocks of the kill sets allows 19. The graph walks and the iterations of the dominators are \<open>while_option\<close>; that they return is part of each theorem. The
  LEB128 encoders end because the value is shifted to zero. The sparse sets need positions below \<open>2 ^ 32\<close> minus a
  segment, the dense set positions below \<open>2 ^ 32 - 8\<close>; \<open>bitset_contain_wraps\<close> shows what happens above. The recursion that builds the
  segment tree is shown to end for bounds below \<open>2 ^ 31\<close>.

  \<^bold>\<open>Not modelled.\<close> Allocation failure, dumping and memory accounting; the list cells and pools behind the containers;
  code that only calls the host library (files, timers, \<open>pow\<close>). The rewrites of the IR, the SSA construction and the
  assignment of registers work on the object graph of the IR and on target descriptions; the readers and the object-file
  writers are formats of their own. They are listed in the manifest with their reasons.
\<close>

end
